(* ===== verification/Hrafn_Prelude.thy ===== *)
theory Hrafn_Prelude
  imports Main "HOL-Library.Word"
begin

text \<open>
  What every theory of the development shares: the names of the C++ integer types, C strings
  as byte lists, little-endian multi-byte loads and stores, byte-copy loops, and the collections
  of facts the component proofs hand to the simplifier.
\<close>

unbundle bit_operations_syntax

type_synonym u8 = "8 word"
type_synonym u16 = "16 word"
type_synonym u32 = "32 word"
type_synonym u64 = "64 word"

named_theorems view_simps
  \<comment> \<open>how a component's observations change under its elementary updates\<close>

section \<open>Words\<close>

lemma unat_u32_lt [simp]: "unat (w :: u32) < 4294967296"
  using unsigned_less [of w, where ?'a = nat] by simp

lemma unat_u64_lt [simp]: "unat (w :: u64) < 18446744073709551616"
  using unsigned_less [of w, where ?'a = nat] by simp

lemma unat_u8_lt [simp]: "unat (w :: u8) < 256"
  using unsigned_less [of w, where ?'a = nat] by simp

lemma unat_of_nat_u32: "n < 4294967296 \<Longrightarrow> unat (of_nat n :: u32) = n"
  by (simp add: unat_of_nat)

lemma unat_of_nat_u64: "n < 18446744073709551616 \<Longrightarrow> unat (of_nat n :: u64) = n"
  by (simp add: unat_of_nat)

lemma of_nat_u32_inj:
  "m < 4294967296 \<Longrightarrow> n < 4294967296 \<Longrightarrow> (of_nat m :: u32) = of_nat n \<longleftrightarrow> m = n"
  by (metis unat_of_nat_u32)

lemma unat_add_u32: "unat a + unat b < 4294967296 \<Longrightarrow> unat (a + b :: u32) = unat a + unat b"
  by (subst unat_add_lem [THEN iffD1]) simp_all

lemma unat_add_u64:
  "unat a + unat b < 18446744073709551616 \<Longrightarrow> unat (a + b :: u64) = unat a + unat b"
  by (subst unat_add_lem [THEN iffD1]) simp_all

lemma unat_sub_le: "b \<le> a \<Longrightarrow> unat (a - b :: 'a::len word) = unat a - unat b"
  by (rule unat_sub)

lemma unat_add_le: "unat (a + b :: 'a::len word) \<le> unat a + unat b"
  by (simp add: unat_word_ariths)

lemma sint_small:
  assumes "unat (w :: u32) < 2147483648"
  shows "sint w = int (unat w)"
proof -
  have "uint w < 2147483648" using assms by (simp flip: of_nat_less_iff [where 'a = int])
  then have "signed_take_bit 31 (uint w) = uint w"
    by (intro signed_take_bit_int_eq_self) (simp_all add: order.trans [OF _ uint_ge_0])
  then show ?thesis by (simp add: sint_uint)
qed

lemma unat_eq_iff: "(a :: 'a::len word) = b \<longleftrightarrow> unat a = unat b"
  by (simp add: word_unat_eq_iff)

lemma and_push_bit_1: "(w :: 'a::len word) AND push_bit n 1 \<noteq> 0 \<longleftrightarrow> bit w n"
  using and_exp_eq_0_iff_not_bit [of w n] by (simp only: push_bit_of_1) blast

text \<open>Clearing the low \<open>n\<close> bits rounds down to a multiple of \<open>2 ^ n\<close>.\<close>

lemma unat_and_not_mask: "unat ((x :: 'a::len word) AND NOT (mask n)) = unat x div 2 ^ n * 2 ^ n"
proof -
  have "x - take_bit n x = x AND NOT (take_bit n x)"
    by (rule disjunctive_diff_eq_and_not, rule bit_word_eqI) (auto simp: bit_simps)
  moreover have "x AND NOT (take_bit n x) = x AND NOT (mask n)"
    by (rule bit_word_eqI) (auto simp: bit_simps)
  ultimately have eq: "x AND NOT (mask n) = x - take_bit n x" by simp
  have tb: "unat (take_bit n x) = unat x mod 2 ^ n"
    by (simp only: unsigned_take_bit_eq) (simp add: take_bit_eq_mod)
  then have "take_bit n x \<le> x"
    by (simp add: word_le_nat_alt)
  then show ?thesis
    unfolding eq by (simp only: unat_sub tb minus_mod_eq_div_mult)
qed

section \<open>The first index that qualifies\<close>

lemma find_upt_None: "List.find P [a..<b] = None \<longleftrightarrow> (\<forall>i. a \<le> i \<longrightarrow> i < b \<longrightarrow> \<not> P i)"
  by (auto simp: find_None_iff)

lemma find_upt_Some:
  assumes "List.find P [a..<b] = Some i"
  shows "a \<le> i" "i < b" "P i" "\<And>j. a \<le> j \<Longrightarrow> j < i \<Longrightarrow> \<not> P j"
proof -
  from assms obtain k where k: "k < b - a" "P (a + k)" "i = a + k" "\<forall>j < k. \<not> P ([a..<b] ! j)"
    by (auto simp: find_Some_iff)
  then show "a \<le> i" "i < b" "P i" by simp_all
  show "\<not> P j" if "a \<le> j" "j < i" for j
  proof -
    have "j - a < k" "[a..<b] ! (j - a) = j" using that k by simp_all
    with k(4) show ?thesis by metis
  qed
qed

section \<open>C strings\<close>

text \<open>
  A \<^verbatim>\<open>const char*\<close> argument is the list of bytes it points to; reading past the list yields
  the terminating NUL. \<open>str_len\<close> is the loop \<^verbatim>\<open>while (s[n]) n++\<close>.
\<close>

type_synonym cstr = "u8 list"

definition str :: "string \<Rightarrow> cstr" where
  "str cs = List.map (\<lambda>c. of_char c) cs"

definition char_at :: "cstr \<Rightarrow> nat \<Rightarrow> u8" where
  "char_at p i = (if i < length p then p ! i else 0)"

definition str_len :: "cstr \<Rightarrow> nat" where
  "str_len p = length (takeWhile (\<lambda>c. c \<noteq> 0) p)"

definition slash :: u8 where
  "slash = 47"

lemma str_len_no_nul: "0 \<notin> set p \<Longrightarrow> str_len p = length p"
proof -
  assume "0 \<notin> set p"
  then have "takeWhile (\<lambda>c. c \<noteq> 0) p = p"
    by (simp only: takeWhile_eq_all_conv) metis
  then show ?thesis by (simp only: str_len_def)
qed

lemma str_len_le: "str_len p \<le> length p"
  by (simp add: str_len_def length_takeWhile_le)

lemma char_at_nz: "j < str_len p \<Longrightarrow> char_at p j \<noteq> 0"
proof -
  assume j: "j < str_len p"
  then have "takeWhile (\<lambda>c. c \<noteq> 0) p ! j \<in> set (takeWhile (\<lambda>c. c \<noteq> 0) p)"
    unfolding str_len_def by (rule nth_mem)
  then have "p ! j \<noteq> 0" using j set_takeWhileD by (fastforce simp: str_len_def takeWhile_nth)
  with j str_len_le [of p] show ?thesis by (simp add: char_at_def)
qed

lemma char_at_str_len: "char_at p (str_len p) = 0"
  using nth_length_takeWhile [of "\<lambda>c. c \<noteq> 0" p] by (auto simp: str_len_def char_at_def)

lemma char_at_drop: "char_at (drop a p) i = char_at p (a + i)"
  by (auto simp: char_at_def)

section \<open>Little-endian loads and stores\<close>

text \<open>
  A memory is a function from offsets to bytes. \<open>ld32 f\<close> is the value a
  \<^verbatim>\<open>uint32_t*\<close> pointing at the bytes \<open>f 0 \<dots> f 3\<close> reads; \<open>byte32 w i\<close> is byte \<open>i\<close> of
  the value \<open>w\<close> as it is stored.
\<close>

definition ld32 :: "(nat \<Rightarrow> u8) \<Rightarrow> u32" where
  "ld32 f = ucast (f 0) OR push_bit 8 (ucast (f 1)) OR push_bit 16 (ucast (f 2))
     OR push_bit 24 (ucast (f 3))"

definition ld64 :: "(nat \<Rightarrow> u8) \<Rightarrow> u64" where
  "ld64 f = ucast (ld32 f) OR push_bit 32 (ucast (ld32 (\<lambda>i. f (4 + i))))"

definition byte32 :: "u32 \<Rightarrow> nat \<Rightarrow> u8" where
  "byte32 w i = ucast (drop_bit (8 * i) w)"

lemma bit_byte32: "bit (byte32 w i) n \<longleftrightarrow> n < 8 \<and> bit w (8 * i + n)"
  by (auto simp: byte32_def bit_simps)

lemma bit_ld32:
  "bit (ld32 f) n \<longleftrightarrow> n < 32 \<and> bit (f (n div 8)) (n mod 8)"
proof (cases "n < 32")
  case True
  then consider "n < 8" | "8 \<le> n \<and> n < 16" | "16 \<le> n \<and> n < 24" | "24 \<le> n \<and> n < 32"
    by linarith
  then show ?thesis
  proof cases
    case 1
    then show ?thesis by (simp add: ld32_def bit_simps)
  next
    case 2
    then have "n div 8 = 1" "n mod 8 = n - 8" by presburger+
    with 2 show ?thesis
      using bit_imp_le_length [of "f 0" n] by (auto simp: ld32_def bit_simps)
  next
    case 3
    then have "n div 8 = 2" "n mod 8 = n - 16" by presburger+
    with 3 show ?thesis
      using bit_imp_le_length [of "f 0" n] bit_imp_le_length [of "f 1" "n - 8"]
      by (auto simp: ld32_def bit_simps)
  next
    case 4
    then have "n div 8 = 3" "n mod 8 = n - 24" by presburger+
    with 4 show ?thesis
      using bit_imp_le_length [of "f 0" n] bit_imp_le_length [of "f 1" "n - 8"]
        bit_imp_le_length [of "f 2" "n - 16"]
      by (auto simp: ld32_def bit_simps)
  qed
next
  case False
  then show ?thesis using bit_imp_le_length [of "ld32 f" n] by auto
qed

lemma ld32_byte32: "(\<And>i. i < 4 \<Longrightarrow> f i = byte32 w i) \<Longrightarrow> ld32 f = w"
proof (rule bit_word_eqI)
  fix n assume f: "\<And>i. i < 4 \<Longrightarrow> f i = byte32 w i" and n: "n < LENGTH(32)"
  then have "n div 8 < 4" by simp
  then have "f (n div 8) = byte32 w (n div 8)" by (rule f)
  with n show "bit (ld32 f) n = bit w n"
    by (simp add: bit_ld32 bit_byte32)
qed

lemma byte32_ld32: "i < 4 \<Longrightarrow> byte32 (ld32 f) i = f i"
proof (rule bit_word_eqI)
  fix n assume "i < 4" and n: "n < LENGTH(8)"
  then have "(8 * i + n) div 8 = i" "(8 * i + n) mod 8 = n" "8 * i + n < 32" by simp_all
  with n show "bit (byte32 (ld32 f) i) n = bit (f i) n"
    by (simp add: bit_byte32 bit_ld32)
qed

lemma ld32_cong: "(\<And>i. i < 4 \<Longrightarrow> f i = g i) \<Longrightarrow> ld32 f = ld32 g"
  by (simp add: ld32_def)

text \<open>
  Loads and stores at an offset of a byte memory. A store is the four byte stores it amounts to.
\<close>

definition get32 :: "(nat \<Rightarrow> u8) \<Rightarrow> nat \<Rightarrow> u32" where
  "get32 m a = ld32 (\<lambda>i. m (a + i))"

definition put32 :: "(nat \<Rightarrow> u8) \<Rightarrow> nat \<Rightarrow> u32 \<Rightarrow> nat \<Rightarrow> u8" where
  "put32 m a w = (\<lambda>x. if a \<le> x \<and> x < a + 4 then byte32 w (x - a) else m x)"

lemma put32_same: "a \<le> x \<Longrightarrow> x < a + 4 \<Longrightarrow> put32 m a w x = byte32 w (x - a)"
  by (simp add: put32_def)

lemma put32_other [view_simps]: "x < a \<or> a + 4 \<le> x \<Longrightarrow> put32 m a w x = m x"
  by (auto simp: put32_def)

lemma get32_put32 [view_simps]: "get32 (put32 m a w) a = w"
  unfolding get32_def by (rule ld32_byte32) (simp add: put32_def)

lemma get32_put32_other [view_simps]:
  "b + 4 \<le> a \<or> a + 4 \<le> b \<Longrightarrow> get32 (put32 m a w) b = get32 m b"
  unfolding get32_def by (rule ld32_cong) (auto simp: put32_def)

lemma get32_cong: "(\<And>x. a \<le> x \<Longrightarrow> x < a + 4 \<Longrightarrow> m x = m' x) \<Longrightarrow> get32 m a = get32 m' a"
  unfolding get32_def by (rule ld32_cong) auto

section \<open>Byte-copy loops\<close>

text \<open>
  \<open>blit dst d src s n\<close> is the loop \<^verbatim>\<open>for (i = 0; i < n; i++) dst[d + i] = src[s + i];\<close>
  between two different arrays, and \<open>fill dst d v n\<close> the loop that stores \<open>v\<close> instead.
\<close>

primrec blit :: "(nat \<Rightarrow> u8) \<Rightarrow> nat \<Rightarrow> (nat \<Rightarrow> u8) \<Rightarrow> nat \<Rightarrow> nat \<Rightarrow> (nat \<Rightarrow> u8)" where
  "blit dst d src s 0 = dst"
| "blit dst d src s (Suc n) = (blit dst d src s n)(d + n := src (s + n))"

primrec fill :: "(nat \<Rightarrow> u8) \<Rightarrow> nat \<Rightarrow> u8 \<Rightarrow> nat \<Rightarrow> (nat \<Rightarrow> u8)" where
  "fill dst d v 0 = dst"
| "fill dst d v (Suc n) = (fill dst d v n)(d + n := v)"

lemma blit_apply [view_simps]:
  "blit dst d src s n x = (if d \<le> x \<and> x < d + n then src (s + (x - d)) else dst x)"
  by (induction n) auto

lemma fill_apply [view_simps]: "fill dst d v n x = (if d \<le> x \<and> x < d + n then v else dst x)"
  by (induction n) auto

end
