(* ===== verification/Bitmap.thy ===== *)
theory Bitmap
  imports Hrafn_Prelude
begin

text \<open>
  The byte bitmaps of the kernel: one bit per frame in the frame allocator (pmm.cpp) and one bit
  per block in the file system (munin.cpp, whose \<^verbatim>\<open>alloc_block\<close> and \<^verbatim>\<open>free_block\<close> write the same
  bit expressions inline). A bitmap is the byte array it is stored in. The lemmas say how a test
  observes a set or a clear of any other bit. The locale \<open>slot_pool\<close> is the contract all the
  lowest-free-slot allocators share; each allocator's theory interprets it.
\<close>

section \<open>Bits of a byte array\<close>

definition bitmap_set :: "(nat \<Rightarrow> u8) \<Rightarrow> nat \<Rightarrow> (nat \<Rightarrow> u8)" where
  "bitmap_set bm f = bm(f div 8 := bm (f div 8) OR push_bit (f mod 8) 1)"

definition bitmap_clear :: "(nat \<Rightarrow> u8) \<Rightarrow> nat \<Rightarrow> (nat \<Rightarrow> u8)" where
  "bitmap_clear bm f = bm(f div 8 := bm (f div 8) AND NOT (push_bit (f mod 8) 1))"

definition bitmap_test :: "(nat \<Rightarrow> u8) \<Rightarrow> nat \<Rightarrow> bool" where
  "bitmap_test bm f \<longleftrightarrow> bm (f div 8) AND push_bit (f mod 8) 1 \<noteq> 0"

lemma bitmap_test_bit: "bitmap_test bm f \<longleftrightarrow> bit (bm (f div 8)) (f mod 8)"
  by (simp only: bitmap_test_def and_push_bit_1)

lemma bit_u8_exp: "bit ((2 :: u8) ^ (f mod 8)) n \<longleftrightarrow> n = f mod 8"
  by (auto simp: bit_exp_iff possible_bit_def)

lemma div_mod_8_eq: "f div 8 = g div 8 \<Longrightarrow> f mod 8 = g mod 8 \<Longrightarrow> f = (g :: nat)"
  by (metis div_mult_mod_eq)

lemma bitmap_test_set [view_simps]:
  "bitmap_test (bitmap_set bm f) g \<longleftrightarrow> g = f \<or> bitmap_test bm g"
proof (cases "g div 8 = f div 8")
  case True
  then have "g = f \<longleftrightarrow> g mod 8 = f mod 8" using div_mod_8_eq by metis
  with True show ?thesis
    by (auto simp: bitmap_test_bit bitmap_set_def bit_or_iff bit_u8_exp)
next
  case False
  then show ?thesis by (auto simp: bitmap_test_bit bitmap_set_def)
qed

lemma bitmap_test_clear [view_simps]:
  "bitmap_test (bitmap_clear bm f) g \<longleftrightarrow> g \<noteq> f \<and> bitmap_test bm g"
proof (cases "g div 8 = f div 8")
  case True
  then have "g = f \<longleftrightarrow> g mod 8 = f mod 8" using div_mod_8_eq by metis
  with True show ?thesis
    by (auto simp: bitmap_test_bit bitmap_clear_def bit_and_iff bit_not_iff bit_u8_exp
        possible_bit_def)
next
  case False
  then show ?thesis by (auto simp: bitmap_test_bit bitmap_clear_def)
qed

lemma bitmap_test_ff [view_simps]: "bm (f div 8) = 0xFF \<Longrightarrow> bitmap_test bm f"
proof -
  assume "bm (f div 8) = 0xFF"
  moreover have "(0xFF :: u8) = - 1" by simp
  ultimately have "bm (f div 8) = - 1" by simp
  then show ?thesis by (simp add: bitmap_test_bit)
qed

lemma bitmap_test_0 [view_simps]: "bm (f div 8) = 0 \<Longrightarrow> \<not> bitmap_test bm f"
  by (simp add: bitmap_test_bit)

section \<open>The allocation loop\<close>

text \<open>
  \<open>first_clear bm f n\<close> is the scan \<^verbatim>\<open>for (; f < n; f++) if (!test(f)) ...\<close> of both allocators:
  the first clear bit from \<open>f\<close> on below \<open>n\<close>.
\<close>

function first_clear :: "(nat \<Rightarrow> u8) \<Rightarrow> nat \<Rightarrow> nat \<Rightarrow> nat option" where
  "first_clear bm f n =
     (if f < n then (if \<not> bitmap_test bm f then Some f else first_clear bm (Suc f) n) else None)"
  by pat_completeness auto
termination
  by (relation "measure (\<lambda>(bm, f, n). n - f)") auto

declare first_clear.simps [simp del]

lemma first_clear_None:
  "first_clear bm f n = None \<longleftrightarrow> (\<forall>g. f \<le> g \<longrightarrow> g < n \<longrightarrow> bitmap_test bm g)"
proof (induction bm f n rule: first_clear.induct)
  case (1 bm f n)
  show ?case
  proof (cases "f < n \<and> bitmap_test bm f")
    case True
    then have "first_clear bm f n = first_clear bm (Suc f) n"
      by (simp add: first_clear.simps [of bm f n])
    moreover have "first_clear bm (Suc f) n = None
        \<longleftrightarrow> (\<forall>g. Suc f \<le> g \<longrightarrow> g < n \<longrightarrow> bitmap_test bm g)"
      using 1 True by blast
    moreover have "(\<forall>g. f \<le> g \<longrightarrow> g < n \<longrightarrow> bitmap_test bm g)
        \<longleftrightarrow> (\<forall>g. Suc f \<le> g \<longrightarrow> g < n \<longrightarrow> bitmap_test bm g)"
      using True by (metis Suc_leD not_less_eq_eq le_antisym)
    ultimately show ?thesis by simp
  next
    case False
    then show ?thesis by (auto simp: first_clear.simps [of bm f n])
  qed
qed

lemma first_clear_Some:
  "first_clear bm f n = Some g \<Longrightarrow>
     f \<le> g \<and> g < n \<and> \<not> bitmap_test bm g \<and> (\<forall>h. f \<le> h \<longrightarrow> h < g \<longrightarrow> bitmap_test bm h)"
proof (induction bm f n rule: first_clear.induct)
  case (1 bm f n)
  show ?case
  proof (cases "f < n \<and> bitmap_test bm f")
    case True
    with 1 have "Suc f \<le> g \<and> g < n \<and> \<not> bitmap_test bm g
        \<and> (\<forall>h. Suc f \<le> h \<longrightarrow> h < g \<longrightarrow> bitmap_test bm h)"
      by (simp add: first_clear.simps [of bm f n])
    with True show ?thesis by (metis Suc_leD Suc_leI le_eq_less_or_eq)
  next
    case False
    with 1(2) show ?thesis by (auto simp: first_clear.simps [of bm f n] split: if_splits)
  qed
qed

section \<open>The allocator contract\<close>

text \<open>
  A pool of slots: \<open>avail s\<close> is the set of free slots, \<open>alloc\<close> hands one out or returns \<open>null\<close>,
  \<open>release\<close> gives one back. \<open>slots s\<close> are the slots the pool manages.
\<close>

locale slot_pool =
  fixes alloc :: "'s \<Rightarrow> 'a \<times> 's"
    and release :: "'a \<Rightarrow> 's \<Rightarrow> 's"
    and avail :: "'s \<Rightarrow> 'a set"
    and slots :: "'s \<Rightarrow> 'a set"
    and null :: 'a
    and inv :: "'s \<Rightarrow> bool"
  assumes avail_slots: "inv s \<Longrightarrow> avail s \<subseteq> slots s"
    and null_not_slot: "inv s \<Longrightarrow> null \<notin> avail s"
    and alloc_full: "inv s \<Longrightarrow> avail s = {} \<Longrightarrow> alloc s = (null, s)"
    and alloc_free: "inv s \<Longrightarrow> avail s \<noteq> {} \<Longrightarrow>
      fst (alloc s) \<in> avail s \<and> avail (snd (alloc s)) = avail s - {fst (alloc s)}
      \<and> slots (snd (alloc s)) = slots s"
    and alloc_inv: "inv s \<Longrightarrow> inv (snd (alloc s))"
    and release_avail: "inv s \<Longrightarrow> x \<in> slots s \<Longrightarrow> x \<noteq> null \<Longrightarrow>
      avail (release x s) = insert x (avail s)"
    and release_inv: "inv s \<Longrightarrow> x \<in> slots s \<Longrightarrow> x \<noteq> null \<Longrightarrow> inv (release x s)"
begin

lemma alloc_null_iff: "inv s \<Longrightarrow> fst (alloc s) = null \<longleftrightarrow> avail s = {}"
  by (metis alloc_free alloc_full fst_conv null_not_slot)

lemma alloc_in: "inv s \<Longrightarrow> fst (alloc s) \<noteq> null \<Longrightarrow> fst (alloc s) \<in> avail s"
  by (metis alloc_free alloc_null_iff)

lemma alloc_twice_distinct:
  assumes "inv s" and "fst (alloc s) \<noteq> null" and "fst (alloc (snd (alloc s))) \<noteq> null"
  shows "fst (alloc (snd (alloc s))) \<noteq> fst (alloc s)"
proof -
  from assms(1,2) have "avail (snd (alloc s)) = avail s - {fst (alloc s)}"
    by (metis alloc_free alloc_full fst_conv)
  moreover have "fst (alloc (snd (alloc s))) \<in> avail (snd (alloc s))"
    using assms alloc_in [OF alloc_inv [OF assms(1)]] by blast
  ultimately show ?thesis by auto
qed

lemma alloc_release:
  assumes "inv s" and "fst (alloc s) \<noteq> null"
  shows "avail (release (fst (alloc s)) (snd (alloc s))) = avail s"
proof -
  have ne: "avail s \<noteq> {}" using assms alloc_null_iff by blast
  note free = alloc_free [OF assms(1) ne]
  from free have "fst (alloc s) \<in> slots (snd (alloc s))"
    using avail_slots [OF assms(1)] by auto
  then have "avail (release (fst (alloc s)) (snd (alloc s)))
      = insert (fst (alloc s)) (avail (snd (alloc s)))"
    using assms by (intro release_avail alloc_inv) auto
  with free show ?thesis by auto
qed

lemma alloc_card:
  assumes "inv s" and "finite (avail s)" and "fst (alloc s) \<noteq> null"
  shows "card (avail (snd (alloc s))) = card (avail s) - 1"
  using assms alloc_free [OF assms(1)] alloc_null_iff [OF assms(1)] by auto

end

end
