(* ===== verification/Pmm.thy ===== *)
theory Pmm
  imports Bitmap
begin

text \<open>
  The physical frame allocator (kernel/pmm.cpp): the Multiboot2 memory map is parsed out of the
  boot information block, every frame starts out used, the frames of available RAM are freed and
  the low megabyte, the kernel image and the bitmap are reserved again. Frame numbers in the
  loops are natural numbers (they stay below \<open>total_frames \<le> 2^52\<close>); addresses and the two
  counters are 64-bit words. The boot information block is read from a byte memory; the bitmap
  is kept apart from that memory.
\<close>

section \<open>The Multiboot2 information block\<close>

type_synonym mem = "u64 \<Rightarrow> u8"

definition rd32 :: "mem \<Rightarrow> u64 \<Rightarrow> u32" where
  "rd32 m a = ld32 (\<lambda>i. m (a + of_nat i))"

definition rd64 :: "mem \<Rightarrow> u64 \<Rightarrow> u64" where
  "rd64 m a = ld64 (\<lambda>i. m (a + of_nat i))"

text \<open>
  The tag walk of \<^verbatim>\<open>find_mmap_tag\<close> (and of \<^verbatim>\<open>fb_init\<close>, for another tag type): \<open>Some 0\<close> is the
  null pointer, \<open>None\<close> says that the loop does not end (a tag of size 0).
\<close>

partial_function (option) find_tag :: "u32 \<Rightarrow> mem \<Rightarrow> u64 \<Rightarrow> u64 option" where
  "find_tag ty m tag =
     (if rd32 m tag \<noteq> 0
      then (if rd32 m tag = ty then Some tag
            else find_tag ty m (tag + ucast ((rd32 m (tag + 4) + 7) AND NOT 7)))
      else Some 0)"

definition find_mmap_tag :: "mem \<Rightarrow> u64 \<Rightarrow> u64 option" where
  "find_mmap_tag m mb_info_addr = find_tag 6 m (mb_info_addr + 8)"

record mb_mmap_entry =
  base_addr :: u64
  entry_length :: u64
  entry_type :: u32

definition rd_entry :: "mem \<Rightarrow> u64 \<Rightarrow> mb_mmap_entry" where
  "rd_entry m e = \<lparr>base_addr = rd64 m e, entry_length = rd64 m (e + 8), entry_type = rd32 m (e + 16)\<rparr>"

text \<open>
  The entries the loop \<^verbatim>\<open>for (; e < end; e += mmap->entry_size)\<close> visits, in order; both passes
  of \<^verbatim>\<open>pmm_init\<close> are folds over them.
\<close>

partial_function (option) mmap_entries ::
  "mem \<Rightarrow> u64 \<Rightarrow> u64 \<Rightarrow> u64 \<Rightarrow> mb_mmap_entry list option" where
  "mmap_entries m e end_addr entry_size =
     (if e < end_addr
      then Option.bind (mmap_entries m (e + entry_size) end_addr entry_size)
             (\<lambda>rest. Some (rd_entry m e # rest))
      else Some [])"

definition mmap_list :: "mem \<Rightarrow> u64 \<Rightarrow> mb_mmap_entry list option" where
  "mmap_list m mmap =
     (if mmap = 0 then Some []
      else mmap_entries m (mmap + 16) (mmap + ucast (rd32 m (mmap + 4))) (ucast (rd32 m (mmap + 8))))"

section \<open>The allocator's state and operations\<close>

record pmm =
  bitmap :: "nat \<Rightarrow> u8"
  total_frames :: u64
  used_frames :: u64

abbreviation frame_used :: "pmm \<Rightarrow> nat \<Rightarrow> bool" where
  "frame_used s f \<equiv> bitmap_test (bitmap s) f"

abbreviation nframes :: "pmm \<Rightarrow> nat" where
  "nframes s \<equiv> unat (total_frames s)"

definition take_frame :: "nat \<Rightarrow> pmm \<Rightarrow> pmm" where
  "take_frame f s = s\<lparr>bitmap := bitmap_set (bitmap s) f, used_frames := used_frames s + 1\<rparr>"

definition drop_frame :: "nat \<Rightarrow> pmm \<Rightarrow> pmm" where
  "drop_frame f s = s\<lparr>bitmap := bitmap_clear (bitmap s) f, used_frames := used_frames s - 1\<rparr>"

function mark_used_loop :: "nat \<Rightarrow> nat \<Rightarrow> pmm \<Rightarrow> pmm" where
  "mark_used_loop f lst s =
     (if f < lst \<and> f < nframes s
      then mark_used_loop (Suc f) lst (if \<not> frame_used s f then take_frame f s else s)
      else s)"
  by pat_completeness auto
termination
  by (relation "measure (\<lambda>(f, lst, s). lst - f)") auto

function mark_free_loop :: "nat \<Rightarrow> nat \<Rightarrow> pmm \<Rightarrow> pmm" where
  "mark_free_loop f lst s =
     (if f < lst \<and> f < nframes s
      then mark_free_loop (Suc f) lst (if frame_used s f then drop_frame f s else s)
      else s)"
  by pat_completeness auto
termination
  by (relation "measure (\<lambda>(f, lst, s). lst - f)") auto

declare mark_used_loop.simps [simp del] mark_free_loop.simps [simp del]

definition mark_used :: "u64 \<Rightarrow> u64 \<Rightarrow> pmm \<Rightarrow> pmm" where
  "mark_used addr len s =
     mark_used_loop (unat (addr div 4096)) (unat ((addr + len + 4096 - 1) div 4096)) s"

definition mark_free :: "u64 \<Rightarrow> u64 \<Rightarrow> pmm \<Rightarrow> pmm" where
  "mark_free addr len s =
     mark_free_loop (unat ((addr + 4096 - 1) div 4096)) (unat ((addr + len) div 4096)) s"

fun highest_addr :: "mb_mmap_entry list \<Rightarrow> u64 \<Rightarrow> u64" where
  "highest_addr [] highest = highest"
| "highest_addr (ent # es) highest =
     (let top = base_addr ent + entry_length ent
      in highest_addr es (if entry_type ent = 1 \<and> highest < top then top else highest))"

fun free_available :: "mb_mmap_entry list \<Rightarrow> pmm \<Rightarrow> pmm" where
  "free_available [] s = s"
| "free_available (ent # es) s =
     free_available es
       (if entry_type ent = 1 then mark_free (base_addr ent) (entry_length ent) s else s)"

definition bitmap_base :: "u64 \<Rightarrow> u64" where
  "bitmap_base kernel_end = (kernel_end + 4096 - 1) AND NOT (4096 - 1)"

definition bitmap_bytes :: "u64 \<Rightarrow> u64" where
  "bitmap_bytes ntotal = (ntotal + 7) div 8"

definition reserve_boot :: "u64 \<Rightarrow> pmm \<Rightarrow> pmm" where
  "reserve_boot kernel_end s =
     mark_used (bitmap_base kernel_end) (bitmap_bytes (total_frames s))
       (mark_used 0x200000 (kernel_end - 0x200000)
         (mark_used 0 0x100000 s))"

text \<open>\<open>boot0\<close> is what lies in the bitmap's memory before the loop that stores 0xFF.\<close>

definition pmm_init_map :: "(nat \<Rightarrow> u8) \<Rightarrow> u64 \<Rightarrow> mb_mmap_entry list \<Rightarrow> pmm" where
  "pmm_init_map boot0 kernel_end es =
     (let ntotal = highest_addr es 0 div 4096;
          s0 = \<lparr>bitmap = fill boot0 0 0xFF (unat (bitmap_bytes ntotal)),
                total_frames = ntotal, used_frames = ntotal\<rparr>
      in reserve_boot kernel_end (free_available es s0))"

definition pmm_init :: "(nat \<Rightarrow> u8) \<Rightarrow> u64 \<Rightarrow> mem \<Rightarrow> u64 \<Rightarrow> pmm option" where
  "pmm_init boot0 kernel_end m mb_info_addr =
     Option.bind (find_mmap_tag m mb_info_addr)
       (\<lambda>mmap. Option.bind (mmap_list m mmap)
         (\<lambda>es. Some (pmm_init_map boot0 kernel_end es)))"

text \<open>The returned address is a \<^verbatim>\<open>void*\<close>; 0 is \<^verbatim>\<open>nullptr\<close>.\<close>

definition pmm_alloc_frame :: "pmm \<Rightarrow> u64 \<times> pmm" where
  "pmm_alloc_frame s =
     (case first_clear (bitmap s) 0 (nframes s) of
        None \<Rightarrow> (0, s)
      | Some f \<Rightarrow> (of_nat f * 4096, take_frame f s))"

definition pmm_free_frame :: "u64 \<Rightarrow> pmm \<Rightarrow> pmm" where
  "pmm_free_frame frame s =
     (let f = unat (frame div 4096)
      in if f < nframes s \<and> frame_used s f then drop_frame f s else s)"

definition pmm_free_frame_count :: "pmm \<Rightarrow> u64" where
  "pmm_free_frame_count s = total_frames s - used_frames s"

definition pmm_total_frame_count :: "pmm \<Rightarrow> u64" where
  "pmm_total_frame_count s = total_frames s"

section \<open>The counter invariant\<close>

definition used_set :: "pmm \<Rightarrow> nat set" where
  "used_set s = {f. f < nframes s \<and> frame_used s f}"

definition free_set :: "pmm \<Rightarrow> nat set" where
  "free_set s = {f. f < nframes s \<and> \<not> frame_used s f}"

definition pmm_inv :: "pmm \<Rightarrow> bool" where
  "pmm_inv s \<longleftrightarrow> unat (used_frames s) = card (used_set s) \<and> nframes s \<le> 2 ^ 52"

lemma frame_simps [view_simps]:
  "total_frames (take_frame f s) = total_frames s"
  "total_frames (drop_frame f s) = total_frames s"
  "frame_used (take_frame f s) g \<longleftrightarrow> g = f \<or> frame_used s g"
  "frame_used (drop_frame f s) g \<longleftrightarrow> g \<noteq> f \<and> frame_used s g"
  by (auto simp: take_frame_def drop_frame_def view_simps)

lemma finite_used_set [simp]: "finite (used_set s)"
  by (simp add: used_set_def)

lemma finite_free_set [simp]: "finite (free_set s)"
  by (simp add: free_set_def)

lemma card_used_le: "card (used_set s) \<le> nframes s"
proof -
  have "card (used_set s) \<le> card {f. f < nframes s}"
    by (rule card_mono) (auto simp: used_set_def)
  then show ?thesis by simp
qed

lemma take_frame_inv: "pmm_inv s \<Longrightarrow> f \<in> free_set s \<Longrightarrow> pmm_inv (take_frame f s)"
proof -
  assume inv: "pmm_inv s" and f: "f \<in> free_set s"
  have set: "used_set (take_frame f s) = insert f (used_set s)"
    using f by (auto simp: used_set_def free_set_def view_simps)
  have "f \<notin> used_set s" using f by (simp add: used_set_def free_set_def)
  then have card: "card (used_set (take_frame f s)) = card (used_set s) + 1"
    by (simp add: set)
  have "unat (used_frames s + 1) = unat (used_frames s) + 1"
    using inv card_used_le [of s] by (subst unat_add_u64) (auto simp: pmm_inv_def)
  then show ?thesis
    using inv card by (simp add: pmm_inv_def take_frame_def)
qed

lemma drop_frame_inv: "pmm_inv s \<Longrightarrow> f \<in> used_set s \<Longrightarrow> pmm_inv (drop_frame f s)"
proof -
  assume inv: "pmm_inv s" and f: "f \<in> used_set s"
  have set: "used_set (drop_frame f s) = used_set s - {f}"
    by (auto simp: used_set_def view_simps)
  then have card: "card (used_set (drop_frame f s)) = card (used_set s) - 1"
    using f by simp
  have "0 < card (used_set s)" using f by (auto simp: card_gt_0_iff)
  then have "1 \<le> used_frames s"
    using inv by (simp add: pmm_inv_def word_le_nat_alt)
  then have "unat (used_frames s - 1) = unat (used_frames s) - 1"
    by (simp add: unat_sub)
  then show ?thesis
    using inv card by (simp add: pmm_inv_def drop_frame_def)
qed

lemma mark_used_loop_spec:
  "total_frames (mark_used_loop f lst s) = total_frames s
   \<and> (\<forall>g. frame_used (mark_used_loop f lst s) g
        \<longleftrightarrow> frame_used s g \<or> (f \<le> g \<and> g < lst \<and> g < nframes s))
   \<and> (pmm_inv s \<longrightarrow> pmm_inv (mark_used_loop f lst s))"
proof (induction f lst s rule: mark_used_loop.induct)
  case (1 f lst s)
  show ?case
  proof (cases "f < lst \<and> f < nframes s")
    case True
    let ?s = "if \<not> frame_used s f then take_frame f s else s"
    have step: "mark_used_loop f lst s = mark_used_loop (Suc f) lst ?s"
      using True by (simp add: mark_used_loop.simps [of f lst s])
    have tot: "total_frames ?s = total_frames s" by (simp add: view_simps)
    have inv: "pmm_inv s \<Longrightarrow> pmm_inv ?s"
      using True by (simp add: take_frame_inv free_set_def)
    have used: "frame_used ?s g \<longleftrightarrow> g = f \<or> frame_used s g" for g
      using True by (auto simp: view_simps)
    have rng: "f \<le> g \<and> g < lst \<and> g < nframes s
        \<longleftrightarrow> g = f \<or> (Suc f \<le> g \<and> g < lst \<and> g < nframes s)" for g
      using True by auto
    note IH = 1 [OF True]
    show ?thesis
    proof (intro conjI allI impI)
      show "total_frames (mark_used_loop f lst s) = total_frames s"
        using IH by (simp only: step tot)
      show "frame_used (mark_used_loop f lst s) g \<longleftrightarrow> frame_used s g \<or> (f \<le> g \<and> g < lst \<and> g < nframes s)" for g
        unfolding step rng using IH by (simp only: tot used) blast
      show "pmm_inv (mark_used_loop f lst s)" if "pmm_inv s"
        unfolding step using IH inv [OF that] by blast
    qed
  next
    case False
    then show ?thesis by (auto simp: mark_used_loop.simps [of f lst s])
  qed
qed

lemma mark_free_loop_spec:
  "total_frames (mark_free_loop f lst s) = total_frames s
   \<and> (\<forall>g. frame_used (mark_free_loop f lst s) g
        \<longleftrightarrow> frame_used s g \<and> \<not> (f \<le> g \<and> g < lst \<and> g < nframes s))
   \<and> (pmm_inv s \<longrightarrow> pmm_inv (mark_free_loop f lst s))"
proof (induction f lst s rule: mark_free_loop.induct)
  case (1 f lst s)
  show ?case
  proof (cases "f < lst \<and> f < nframes s")
    case True
    let ?s = "if frame_used s f then drop_frame f s else s"
    have step: "mark_free_loop f lst s = mark_free_loop (Suc f) lst ?s"
      using True by (simp add: mark_free_loop.simps [of f lst s])
    have tot: "total_frames ?s = total_frames s" by (simp add: view_simps)
    have inv: "pmm_inv s \<Longrightarrow> pmm_inv ?s"
      using True by (simp add: drop_frame_inv used_set_def)
    have used: "frame_used ?s g \<longleftrightarrow> g \<noteq> f \<and> frame_used s g" for g
      using True by (auto simp: view_simps)
    have rng: "f \<le> g \<and> g < lst \<and> g < nframes s
        \<longleftrightarrow> g = f \<or> (Suc f \<le> g \<and> g < lst \<and> g < nframes s)" for g
      using True by auto
    note IH = 1 [OF True]
    show ?thesis
    proof (intro conjI allI impI)
      show "total_frames (mark_free_loop f lst s) = total_frames s"
        using IH by (simp only: step tot)
      show "frame_used (mark_free_loop f lst s) g \<longleftrightarrow> frame_used s g \<and> \<not> (f \<le> g \<and> g < lst \<and> g < nframes s)" for g
        unfolding step rng using IH by (simp only: tot used) blast
      show "pmm_inv (mark_free_loop f lst s)" if "pmm_inv s"
        unfolding step using IH inv [OF that] by blast
    qed
  next
    case False
    then show ?thesis by (auto simp: mark_free_loop.simps [of f lst s])
  qed
qed

lemmas mark_loop_simps [view_simps] =
  mark_used_loop_spec [THEN conjunct1]
  mark_used_loop_spec [THEN conjunct2, THEN conjunct1, rule_format]
  mark_free_loop_spec [THEN conjunct1]
  mark_free_loop_spec [THEN conjunct2, THEN conjunct1, rule_format]

lemma mark_used_inv: "pmm_inv s \<Longrightarrow> pmm_inv (mark_used addr len s)"
  by (simp add: mark_used_def mark_used_loop_spec)

lemma mark_free_inv: "pmm_inv s \<Longrightarrow> pmm_inv (mark_free addr len s)"
  by (simp add: mark_free_def mark_free_loop_spec)

section \<open>The memory map decides the free frames\<close>

text \<open>
  The frames \<open>mark_used\<close> covers are those that meet the byte range, the frames \<open>mark_free\<close> covers
  those that lie inside it, as long as the range does not wrap round.
\<close>

definition frame_meets :: "nat \<Rightarrow> nat \<Rightarrow> nat \<Rightarrow> bool" where
  "frame_meets f addr len \<longleftrightarrow> 0 < len \<and> addr < 4096 * f + 4096 \<and> 4096 * f < addr + len"

definition frame_inside :: "nat \<Rightarrow> nat \<Rightarrow> nat \<Rightarrow> bool" where
  "frame_inside f addr len \<longleftrightarrow> addr \<le> 4096 * f \<and> 4096 * f + 4096 \<le> addr + len"

definition fits64 :: "u64 \<Rightarrow> u64 \<Rightarrow> bool" where
  "fits64 addr len \<longleftrightarrow> unat addr + unat len + 4096 \<le> 2 ^ 64"

lemma unat_round_up:
  "fits64 addr len \<Longrightarrow>
     unat ((addr + len + 4096 - 1) div 4096) = (unat addr + unat len + 4095) div 4096"
proof -
  assume fits: "fits64 addr len"
  have al: "unat (addr + len) = unat addr + unat len"
    using fits by (intro unat_add_u64) (simp add: fits64_def)
  have "unat (addr + len + 4095) = unat addr + unat len + 4095"
    using fits al by (subst unat_add_u64) (simp_all add: fits64_def)
  moreover have "addr + len + 4096 - 1 = addr + len + 4095" by simp
  ultimately have "unat (addr + len + 4096 - 1) = unat addr + unat len + 4095" by (simp only:)
  then show ?thesis by (simp only: unat_div) simp
qed

lemma unat_round_down:
  "fits64 addr len \<Longrightarrow> unat ((addr + len) div 4096) = (unat addr + unat len) div 4096"
  by (simp add: unat_div unat_add_u64 fits64_def)

lemma mark_used_frames:
  "fits64 addr len \<Longrightarrow> 0 < unat len \<or> 4096 dvd unat addr \<Longrightarrow> g < nframes s \<Longrightarrow>
     frame_used (mark_used addr len s) g \<longleftrightarrow> frame_used s g \<or> frame_meets g (unat addr) (unat len)"
proof -
  assume fits: "fits64 addr len" and al: "0 < unat len \<or> 4096 dvd unat addr"
    and g: "g < nframes s"
  have first: "unat (addr div 4096) \<le> g \<longleftrightarrow> unat addr < 4096 * g + 4096"
    by (simp only: unat_div) auto
  have last: "g < (unat addr + unat len + 4095) div 4096 \<longleftrightarrow> 4096 * g < unat addr + unat len"
    by auto
  have "unat len = 0 \<Longrightarrow> unat addr < 4096 * g + 4096 \<Longrightarrow> \<not> 4096 * g < unat addr"
    using al by (auto elim!: dvdE)
  with g show ?thesis
    unfolding mark_used_def mark_loop_simps frame_meets_def unat_round_up [OF fits] first last
    by (auto intro: gr0I)
qed

lemma mark_free_frames:
  "fits64 addr len \<Longrightarrow> g < nframes s \<Longrightarrow>
     frame_used (mark_free addr len s) g \<longleftrightarrow> frame_used s g \<and> \<not> frame_inside g (unat addr) (unat len)"
proof -
  assume fits: "fits64 addr len" and g: "g < nframes s"
  then have "fits64 addr 0" by (simp add: fits64_def)
  then have "unat ((addr + 4096 - 1) div 4096) = (unat addr + 4095) div 4096"
    using unat_round_up [of addr 0] by simp
  with fits g show ?thesis
    unfolding mark_free_def mark_loop_simps frame_inside_def
    by (simp only: unat_round_down) auto
qed

definition avail_entry :: "mb_mmap_entry \<Rightarrow> nat \<Rightarrow> bool" where
  "avail_entry ent f \<longleftrightarrow>
     entry_type ent = 1 \<and> frame_inside f (unat (base_addr ent)) (unat (entry_length ent))"

definition entries_fit :: "mb_mmap_entry list \<Rightarrow> bool" where
  "entries_fit es = list_all (\<lambda>ent. fits64 (base_addr ent) (entry_length ent)) es"

lemma free_available_spec:
  "entries_fit es \<Longrightarrow> pmm_inv s \<Longrightarrow>
     pmm_inv (free_available es s) \<and> total_frames (free_available es s) = total_frames s
     \<and> (\<forall>g < nframes s. frame_used (free_available es s) g
          \<longleftrightarrow> frame_used s g \<and> \<not> (\<exists>ent \<in> set es. avail_entry ent g))"
proof (induction es arbitrary: s)
  case Nil
  then show ?case by simp
next
  case (Cons ent es)
  let ?s = "if entry_type ent = 1 then mark_free (base_addr ent) (entry_length ent) s else s"
  have tot: "total_frames ?s = total_frames s"
    by (simp add: mark_free_def view_simps)
  have used: "frame_used ?s g \<longleftrightarrow> frame_used s g \<and> \<not> avail_entry ent g" if "g < nframes s" for g
    using Cons.prems(1) that by (auto simp: mark_free_frames avail_entry_def entries_fit_def)
  have "pmm_inv ?s" using Cons.prems(2) by (simp add: mark_free_inv)
  moreover have "entries_fit es" using Cons.prems(1) by (simp add: entries_fit_def)
  ultimately show ?case
    using Cons.IH [of ?s] used by (auto simp: tot)
qed

lemma highest_addr_ge: "highest \<le> highest_addr es highest"
proof (induction es arbitrary: highest)
  case (Cons ent es)
  show ?case
    using Cons [of "base_addr ent + entry_length ent"] Cons [of highest]
    by (auto simp: Let_def intro: order.trans less_imp_le)
qed simp

lemma highest_addr_entry:
  "ent \<in> set es \<Longrightarrow> entry_type ent = 1 \<Longrightarrow>
     base_addr ent + entry_length ent \<le> highest_addr es highest"
proof (induction es arbitrary: highest)
  case (Cons e es)
  then show ?case
    by (auto simp: Let_def not_less intro: order.trans [OF _ highest_addr_ge])
qed simp

lemma avail_entry_in_range:
  assumes "entries_fit es" and "ent \<in> set es" and "avail_entry ent f"
  shows "f < unat (highest_addr es 0 div 4096)"
proof -
  have fits: "fits64 (base_addr ent) (entry_length ent)"
    using assms(1,2) by (auto simp: entries_fit_def list_all_iff)
  have "unat (base_addr ent + entry_length ent) \<le> unat (highest_addr es 0)"
    using highest_addr_entry [OF assms(2)] assms(3)
    by (simp add: avail_entry_def word_le_nat_alt)
  moreover have "unat (base_addr ent + entry_length ent)
      = unat (base_addr ent) + unat (entry_length ent)"
    using fits by (intro unat_add_u64) (simp add: fits64_def)
  ultimately have "4096 * f + 4096 \<le> unat (highest_addr es 0)"
    using assms(3) by (simp add: avail_entry_def frame_inside_def)
  then show ?thesis by (simp add: unat_div)
qed

lemma nframes_bound: "unat ((a :: u64) div 4096) < 2 ^ 52"
  unfolding unat_div by (rule less_mult_imp_div_less) simp

lemma pmm_all_used:
  fixes n :: u64 and boot0 :: "nat \<Rightarrow> u8"
  assumes "unat n < 2 ^ 52"
  defines "s \<equiv> \<lparr>bitmap = fill boot0 0 0xFF (unat (bitmap_bytes n)), total_frames = n, used_frames = n\<rparr>"
  shows "pmm_inv s" and "g < unat n \<Longrightarrow> frame_used s g"
proof -
  have "unat (n + 7) = unat n + 7"
    using assms(1) by (subst unat_add_u64) simp_all
  then have bytes: "unat (bitmap_bytes n) = (unat n + 7) div 8"
    by (simp add: bitmap_bytes_def unat_div)
  show used: "frame_used s g" if "g < unat n" for g
    using that by (auto simp: s_def bytes view_simps intro!: bitmap_test_ff)
  then have "used_set s = {g. g < unat n}"
    by (auto simp: used_set_def s_def)
  then show "pmm_inv s" using assms(1) by (simp add: pmm_inv_def s_def)
qed

lemma and_not_page:
  "unat ((x :: u64) AND NOT (4096 - 1)) = unat x div 4096 * 4096"
proof -
  have m: "(4096 - 1 :: u64) = mask 12" by (simp add: mask_eq_decr_exp)
  show ?thesis unfolding m unat_and_not_mask by simp
qed

lemma bitmap_base_aligned:
  "unat ke < 2 ^ 48 \<Longrightarrow> unat (bitmap_base ke) = (unat ke + 4095) div 4096 * 4096"
proof -
  assume ke: "unat ke < 2 ^ 48"
  have eq: "ke + 4096 - 1 = ke + 4095" by simp
  have "unat (ke + 4095) = unat ke + 4095"
    using ke by (subst unat_add_u64) simp_all
  then show ?thesis
    by (simp only: bitmap_base_def and_not_page eq)
qed

lemma bitmap_bytes_bound:
  "unat n < 2 ^ 52 \<Longrightarrow> unat (bitmap_bytes n) = (unat n + 7) div 8"
  unfolding bitmap_bytes_def unat_div by (subst unat_add_u64) simp_all

text \<open>The frames \<^verbatim>\<open>pmm_init\<close> takes back: the low megabyte, the kernel image, the bitmap.\<close>

definition boot_reserved :: "u64 \<Rightarrow> u64 \<Rightarrow> nat \<Rightarrow> bool" where
  "boot_reserved ke n f \<longleftrightarrow>
     f < 256 \<or> frame_meets f 0x200000 (unat ke - 0x200000)
     \<or> frame_meets f (unat (bitmap_base ke)) (unat (bitmap_bytes n))"

definition kernel_placed :: "u64 \<Rightarrow> bool" where
  "kernel_placed ke \<longleftrightarrow> 0x200000 \<le> unat ke \<and> unat ke < 2 ^ 48"

lemma reserve_boot_spec:
  assumes "kernel_placed ke" and "pmm_inv s" and "nframes s < 2 ^ 52"
  shows "pmm_inv (reserve_boot ke s)"
    and "total_frames (reserve_boot ke s) = total_frames s"
    and "g < nframes s \<Longrightarrow> frame_used (reserve_boot ke s) g
      \<longleftrightarrow> frame_used s g \<or> boot_reserved ke (total_frames s) g"
proof -
  show "pmm_inv (reserve_boot ke s)"
    using assms(2) by (simp add: reserve_boot_def mark_used_inv)
  show tot: "total_frames (reserve_boot ke s) = total_frames s"
    by (simp add: reserve_boot_def mark_used_def view_simps)
  have ke: "unat (ke - 0x200000) = unat ke - 0x200000"
    using assms(1) by (subst unat_sub) (simp_all add: kernel_placed_def word_le_nat_alt)
  have f1: "fits64 0 0x100000" by (simp add: fits64_def)
  have f2: "fits64 0x200000 (ke - 0x200000)"
    using assms(1) by (simp add: fits64_def ke kernel_placed_def)
  have al: "unat (bitmap_base ke) = (unat ke + 4095) div 4096 * 4096"
    using assms(1) by (intro bitmap_base_aligned) (simp add: kernel_placed_def)
  have f3: "fits64 (bitmap_base ke) (bitmap_bytes (total_frames s))"
  proof -
    have "(unat ke + 4095) div 4096 * 4096 \<le> unat ke + 4095" by simp
    moreover have "(nframes s + 7) div 8 \<le> nframes s + 7" by simp
    moreover have "unat ke < 281474976710656" "nframes s < 4503599627370496"
      using assms(1,3) by (simp_all add: kernel_placed_def)
    ultimately have "(unat ke + 4095) div 4096 * 4096 + (nframes s + 7) div 8 + 4096
        \<le> 18446744073709551616" by linarith
    then show ?thesis
      unfolding fits64_def al bitmap_bytes_bound [OF assms(3)] by simp
  qed
  let ?s1 = "mark_used 0 0x100000 s" and ?s2 = "mark_used 0x200000 (ke - 0x200000) (mark_used 0 0x100000 s)"
  have t: "total_frames ?s1 = total_frames s" "total_frames ?s2 = total_frames s"
    by (simp_all add: mark_used_def view_simps)
  show "frame_used (reserve_boot ke s) g
      \<longleftrightarrow> frame_used s g \<or> boot_reserved ke (total_frames s) g" if g: "g < nframes s"
  proof -
    have "frame_used ?s1 g \<longleftrightarrow> frame_used s g \<or> g < 256"
      using mark_used_frames [OF f1 _ g] by (auto simp: frame_meets_def)
    moreover have "frame_used ?s2 g \<longleftrightarrow> frame_used ?s1 g \<or> frame_meets g 0x200000 (unat ke - 0x200000)"
      using mark_used_frames [OF f2, of g ?s1] g t by (simp add: ke)
    moreover have "frame_used (reserve_boot ke s) g \<longleftrightarrow> frame_used ?s2 g
        \<or> frame_meets g (unat (bitmap_base ke)) (unat (bitmap_bytes (total_frames s)))"
      using mark_used_frames [OF f3, of g ?s2] g t al by (simp add: reserve_boot_def)
    ultimately show ?thesis by (auto simp: boot_reserved_def)
  qed
qed

lemma pmm_init_map_spec:
  fixes boot0 :: "nat \<Rightarrow> u8"
  assumes "kernel_placed ke" and "entries_fit es"
  defines "s \<equiv> pmm_init_map boot0 ke es"
  shows "pmm_inv s"
    and "f \<in> free_set s \<longleftrightarrow>
      (\<exists>ent \<in> set es. avail_entry ent f) \<and> \<not> boot_reserved ke (total_frames s) f"
    and "nframes s < 2 ^ 52"
proof -
  let ?n = "highest_addr es 0 div 4096"
  let ?s0 = "\<lparr>bitmap = fill boot0 0 0xFF (unat (bitmap_bytes ?n)), total_frames = ?n, used_frames = ?n\<rparr>"
  let ?s1 = "free_available es ?s0"
  note n = nframes_bound [of "highest_addr es 0"]
  note all = pmm_all_used [OF n]
  note free = free_available_spec [OF assms(2) all(1) [of boot0]]
  have s: "s = reserve_boot ke ?s1" by (simp add: s_def pmm_init_map_def Let_def)
  have t: "total_frames ?s1 = ?n" using free by simp
  then have n1: "nframes ?s1 < 2 ^ 52" using n by simp
  note res = reserve_boot_spec [OF assms(1) free [THEN conjunct1] n1]
  show "pmm_inv s" unfolding s by (rule res(1))
  have ts: "total_frames s = ?n" using res(2) t by (simp add: s)
  show "nframes s < 2 ^ 52" using n by (simp add: ts)
  show "f \<in> free_set s \<longleftrightarrow>
      (\<exists>ent \<in> set es. avail_entry ent f) \<and> \<not> boot_reserved ke (total_frames s) f"
  proof (cases "f < unat ?n")
    case True
    then have "frame_used s f \<longleftrightarrow> frame_used ?s1 f \<or> boot_reserved ke ?n f"
      using res(3) [of f] t by (simp add: s)
    moreover have "frame_used ?s1 f \<longleftrightarrow> \<not> (\<exists>ent \<in> set es. avail_entry ent f)"
      using free all(2) [OF True, of boot0] True by simp
    ultimately show ?thesis using True by (simp add: free_set_def ts)
  next
    case False
    then show ?thesis
      using avail_entry_in_range [OF assms(2)] by (auto simp: free_set_def ts)
  qed
qed

section \<open>The allocator contract holds\<close>

definition frame_addr :: "nat \<Rightarrow> u64" where
  "frame_addr f = of_nat f * 4096"

text \<open>Frame 0 is never free: its address is the null pointer.\<close>

definition pool_inv :: "pmm \<Rightarrow> bool" where
  "pool_inv s \<longleftrightarrow> pmm_inv s \<and> 0 \<notin> free_set s"

lemma unat_frame_addr: "f < 2 ^ 52 \<Longrightarrow> unat (frame_addr f) = 4096 * f"
  by (simp add: frame_addr_def unat_word_ariths unat_of_nat)

lemma frame_addr_inj:
  "f < 2 ^ 52 \<Longrightarrow> g < 2 ^ 52 \<Longrightarrow> frame_addr f = frame_addr g \<longleftrightarrow> f = g"
  using unat_frame_addr [of f] unat_frame_addr [of g] by (auto simp: unat_eq_iff)

lemma frame_of_addr: "f < 2 ^ 52 \<Longrightarrow> unat (frame_addr f div 4096) = f"
  by (simp add: unat_div unat_frame_addr)

lemma pmm_alloc_full: "free_set s = {} \<Longrightarrow> pmm_alloc_frame s = (0, s)"
proof -
  assume "free_set s = {}"
  then have "first_clear (bitmap s) 0 (nframes s) = None"
    by (auto simp: first_clear_None free_set_def)
  then show ?thesis by (simp add: pmm_alloc_frame_def)
qed

lemma pmm_alloc_lowest:
  assumes "free_set s \<noteq> {}"
  obtains f where "pmm_alloc_frame s = (frame_addr f, take_frame f s)"
    and "f \<in> free_set s" and "\<forall>g \<in> free_set s. f \<le> g"
proof -
  from assms obtain g where "g < nframes s" "\<not> frame_used s g"
    by (auto simp: free_set_def)
  then obtain f where f: "first_clear (bitmap s) 0 (nframes s) = Some f"
    using first_clear_None [of "bitmap s" 0 "nframes s"] by auto
  note first_clear_Some [OF f]
  with f show ?thesis
    by (intro that [of f])
      (auto simp: pmm_alloc_frame_def frame_addr_def free_set_def not_less [symmetric])
qed

lemma free_set_take: "free_set (take_frame f s) = free_set s - {f}"
  by (auto simp: free_set_def view_simps)

lemma free_set_drop: "f < nframes s \<Longrightarrow> free_set (drop_frame f s) = insert f (free_set s)"
  by (auto simp: free_set_def view_simps)

lemma free_set_bound: "pmm_inv s \<Longrightarrow> f \<in> free_set s \<Longrightarrow> f < 2 ^ 52"
  by (auto simp: pmm_inv_def free_set_def)

interpretation frames: slot_pool pmm_alloc_frame pmm_free_frame
  "\<lambda>s. frame_addr ` free_set s" "\<lambda>s. frame_addr ` {f. f < nframes s}" 0 pool_inv
proof
  fix s and x :: u64
  assume inv: "pool_inv s"
  then have pinv: "pmm_inv s" and zero: "0 \<notin> free_set s" by (simp_all add: pool_inv_def)
  show "frame_addr ` free_set s \<subseteq> frame_addr ` {f. f < nframes s}"
    by (auto simp: free_set_def)
  show "0 \<notin> frame_addr ` free_set s"
  proof
    assume "0 \<in> frame_addr ` free_set s"
    then obtain f where f: "f \<in> free_set s" and "frame_addr f = 0" by auto
    then have "f = 0" using unat_frame_addr [OF free_set_bound [OF pinv f]] by simp
    with f zero show False by simp
  qed
  show "pmm_alloc_frame s = (0, s)" if "frame_addr ` free_set s = {}"
    using that by (intro pmm_alloc_full) simp
  show "fst (pmm_alloc_frame s) \<in> frame_addr ` free_set s
      \<and> frame_addr ` free_set (snd (pmm_alloc_frame s))
          = frame_addr ` free_set s - {fst (pmm_alloc_frame s)}
      \<and> frame_addr ` {f. f < nframes (snd (pmm_alloc_frame s))} = frame_addr ` {f. f < nframes s}"
    if "frame_addr ` free_set s \<noteq> {}"
  proof -
    from that have "free_set s \<noteq> {}" by simp
    then obtain f where al: "pmm_alloc_frame s = (frame_addr f, take_frame f s)"
      and f: "f \<in> free_set s" using pmm_alloc_lowest [of s] by blast
    have "inj_on frame_addr (free_set s)"
      using frame_addr_inj free_set_bound [OF pinv] by (auto simp: inj_on_def)
    then show ?thesis using f
      by (simp add: al free_set_take frame_simps inj_on_image_set_diff [of _ "free_set s"])
  qed
  show "pool_inv (snd (pmm_alloc_frame s))"
  proof (cases "free_set s = {}")
    case True
    then show ?thesis using inv by (simp add: pmm_alloc_full)
  next
    case False
    then obtain f where "pmm_alloc_frame s = (frame_addr f, take_frame f s)"
      and "f \<in> free_set s" using pmm_alloc_lowest [of s] by blast
    then show ?thesis
      using pinv zero by (simp add: pool_inv_def take_frame_inv free_set_take)
  qed
  assume x: "x \<in> frame_addr ` {f. f < nframes s}" and "x \<noteq> 0"
  then obtain f where f: "x = frame_addr f" "f < nframes s" by blast
  with \<open>x \<noteq> 0\<close> have "f \<noteq> 0" by (cases f) (simp_all add: frame_addr_def)
  have "f < 2 ^ 52" using f(2) pinv by (simp add: pmm_inv_def)
  then have nr: "unat (x div 4096) = f" by (simp add: f(1) frame_of_addr)
  have cases: "pmm_free_frame x s = (if frame_used s f then drop_frame f s else s)"
    using f(2) by (simp add: pmm_free_frame_def nr)
  show "frame_addr ` free_set (pmm_free_frame x s) = insert x (frame_addr ` free_set s)"
    unfolding cases using free_set_drop [OF f(2)] f by (auto simp: free_set_def [of s])
  show "pool_inv (pmm_free_frame x s)"
    unfolding cases using pinv zero f(2) \<open>f \<noteq> 0\<close>
    by (auto simp: pool_inv_def drop_frame_inv free_set_drop used_set_def)
qed

lemma pmm_init_pool_inv:
  assumes "kernel_placed ke" and "entries_fit es"
  shows "pool_inv (pmm_init_map boot0 ke es)"
  using pmm_init_map_spec(1,2) [OF assms] by (simp add: pool_inv_def boot_reserved_def)

section \<open>Properties\<close>

text \<open>
  C22. Whatever boot information block the loader passes, as long as its memory-map loop ends and
  its entries are real address ranges, \<open>pmm_init\<close> returns an allocator whose free frames are
  exactly the frames that lie wholly inside some available-RAM entry and outside the low
  megabyte, the kernel image and the bitmap; the used counter counts the used frames.
\<close>

theorem pmm_init_frees_exactly_available:
  assumes "find_mmap_tag m mb = Some mmap" and "mmap_list m mmap = Some es"
    and "kernel_placed ke" and "entries_fit es"
  shows "\<exists>s. pmm_init boot0 ke m mb = Some s \<and> pool_inv s
    \<and> free_set s = {f. (\<exists>ent \<in> set es. avail_entry ent f) \<and> \<not> boot_reserved ke (total_frames s) f}"
  using pmm_init_map_spec(2) [OF assms(3,4)] pmm_init_pool_inv [OF assms(3,4)]
  by (auto simp: pmm_init_def assms(1,2))

definition boot_block :: mem where
  "boot_block a =
     (let bytes = [0,0,0,0, 0,0,0,0,
                   6,0,0,0, 40,0,0,0, 24,0,0,0, 0,0,0,0,
                   0,0,0,0,0,0,0,0, 0,0,0,1,0,0,0,0, 1,0,0,0, 0,0,0,0,
                   0,0,0,0, 8,0,0,0]
      in if unat a < 56 then bytes ! unat a else 0)"

lemma pmm_init_frees_exactly_available_witness:
  "\<exists>s. pmm_init (\<lambda>_. 0) 0x280000 boot_block 0 = Some s \<and> pool_inv s \<and> 1024 \<in> free_set s
     \<and> 600 \<notin> free_set s \<and> 640 \<notin> free_set s"
proof -
  have tag: "find_mmap_tag boot_block 0 = Some 8"
    by (simp add: find_mmap_tag_def find_tag.simps [of _ _ 8] rd32_def ld32_def boot_block_def Let_def)
  let ?e = "\<lparr>base_addr = 0, entry_length = 0x1000000, entry_type = 1\<rparr>"
  have entry: "rd_entry boot_block 24 = ?e"
    by (simp add: rd_entry_def rd64_def rd32_def ld64_def ld32_def boot_block_def Let_def)
  have list: "mmap_list boot_block 8 = Some [?e]"
    by (simp add: mmap_list_def rd32_def ld32_def boot_block_def Let_def
        mmap_entries.simps [of _ 24] mmap_entries.simps [of _ 48] entry [simplified])
  have placed: "kernel_placed 0x280000" by (simp add: kernel_placed_def)
  have fit: "entries_fit [?e]" by (simp add: entries_fit_def fits64_def)
  obtain s where s: "pmm_init (\<lambda>_. 0) 0x280000 boot_block 0 = Some s" "pool_inv s"
    "free_set s = {f. (\<exists>ent \<in> set [?e]. avail_entry ent f) \<and> \<not> boot_reserved 0x280000 (total_frames s) f}"
    using pmm_init_frees_exactly_available [OF tag list placed fit, of "\<lambda>_. 0"] by blast
  have "total_frames s = 4096"
    using s(1) reserve_boot_def free_available_spec
    by (simp add: pmm_init_def tag list pmm_init_map_def Let_def reserve_boot_def mark_used_def
        mark_free_def view_simps)
      (auto simp: view_simps)
  then show ?thesis using s
    by (auto simp: avail_entry_def frame_inside_def boot_reserved_def frame_meets_def
        bitmap_base_def bitmap_bytes_def)
qed

lemma card_free_used: "card (free_set s) + card (used_set s) = nframes s"
proof -
  have "{f. f < nframes s} = free_set s \<union> used_set s"
    by (auto simp: free_set_def used_set_def)
  moreover have "free_set s \<inter> used_set s = {}"
    by (auto simp: free_set_def used_set_def)
  ultimately have "card {f. f < nframes s} = card (free_set s) + card (used_set s)"
    by (simp add: card_Un_disjoint)
  then show ?thesis by simp
qed

lemma free_frame_count: "pmm_inv s \<Longrightarrow> unat (pmm_free_frame_count s) = card (free_set s)"
proof -
  assume inv: "pmm_inv s"
  then have "used_frames s \<le> total_frames s"
    using card_used_le [of s] by (simp add: pmm_inv_def word_le_nat_alt)
  then have "unat (pmm_free_frame_count s) = nframes s - unat (used_frames s)"
    by (simp add: pmm_free_frame_count_def unat_sub)
  with inv show ?thesis using card_free_used [of s] by (simp add: pmm_inv_def)
qed

text \<open>
  An allocation returns \<^verbatim>\<open>nullptr\<close> exactly when no frame is free, and otherwise the address of
  the lowest free frame, which stops being free; the number \<^verbatim>\<open>pmm_free_frame_count\<close> reports is the
  number of free frames, and it drops by one.
\<close>

lemma pmm_alloc_takes_lowest_free:
  assumes "pool_inv s" and "pmm_alloc_frame s = (p, s')"
  shows "(p = 0 \<longleftrightarrow> free_set s = {}) \<and> pool_inv s'
    \<and> (p \<noteq> 0 \<longrightarrow> (\<exists>f \<in> free_set s. p = frame_addr f \<and> (\<forall>g \<in> free_set s. f \<le> g)
          \<and> free_set s' = free_set s - {f}))
    \<and> unat (pmm_free_frame_count s') = unat (pmm_free_frame_count s) - (if p = 0 then 0 else 1)"
proof -
  have null: "p = 0 \<longleftrightarrow> free_set s = {}" and inv': "pool_inv s'"
    using frames.alloc_null_iff [OF assms(1)] frames.alloc_inv [OF assms(1)] by (simp_all add: assms(2))
  have pinv: "pmm_inv s" "pmm_inv s'" using assms(1) inv' by (simp_all add: pool_inv_def)
  show ?thesis
  proof (cases "free_set s = {}")
    case True
    then show ?thesis using null inv' assms(2) by (auto simp: pmm_alloc_full)
  next
    case False
    then obtain f where f: "p = frame_addr f" "s' = take_frame f s" "f \<in> free_set s"
      "\<forall>g \<in> free_set s. f \<le> g"
      using pmm_alloc_lowest [of s] assms(2) by (metis prod.inject)
    then have set: "free_set s' = free_set s - {f}" by (simp add: free_set_take)
    then have "card (free_set s') = card (free_set s) - 1" using f(3) by simp
    then have "unat (pmm_free_frame_count s') = unat (pmm_free_frame_count s) - 1"
      by (simp only: free_frame_count [OF pinv(1)] free_frame_count [OF pinv(2)])
    with f(1,3,4) set null inv' False show ?thesis by auto
  qed
qed

definition two_frames :: pmm where
  "two_frames = \<lparr>bitmap = (\<lambda>_. 0xF9), total_frames = 4, used_frames = 2\<rparr>"

lemma two_frames_free: "free_set two_frames = {1, 2}" and two_frames_inv: "pool_inv two_frames"
proof -
  have used: "f < 4 \<Longrightarrow> frame_used two_frames f \<longleftrightarrow> f = 0 \<or> f = 3" for f
  proof -
    assume "f < 4"
    then consider "f = 0" | "f = 1" | "f = 2" | "f = 3" by linarith
    then show ?thesis by cases (simp_all add: two_frames_def bitmap_test_def)
  qed
  then show free: "free_set two_frames = {1, 2}"
    by (auto simp: free_set_def two_frames_def)
  have "used_set two_frames = {0, 3}"
    using used by (auto simp: used_set_def two_frames_def)
  then show "pool_inv two_frames"
    by (simp add: pool_inv_def pmm_inv_def free) (simp add: two_frames_def)
qed

lemma pmm_alloc_takes_lowest_free_witness:
  "pmm_free_frame_count two_frames = 2
   \<and> (\<exists>s'. pmm_alloc_frame two_frames = (0x1000, s') \<and> free_set s' = {2} \<and> pmm_free_frame_count s' = 1)"
proof -
  obtain p s' where al: "pmm_alloc_frame two_frames = (p, s')" by fastforce
  note spec = pmm_alloc_takes_lowest_free [OF two_frames_inv al]
  have two: "pmm_free_frame_count two_frames = 2"
    by (simp add: pmm_free_frame_count_def two_frames_def)
  from spec have "p = frame_addr 1" and "free_set s' = {1, 2} - {1}"
    by (auto simp: two_frames_free)
  moreover have "p \<noteq> 0" using spec by (simp add: two_frames_free)
  then have "unat (pmm_free_frame_count s') = 1" using spec two by simp
  then have "pmm_free_frame_count s' = 1" by (simp add: unat_eq_iff)
  ultimately show ?thesis using two al by (auto simp: frame_addr_def)
qed

text \<open>
  \<^verbatim>\<open>pmm_free_frame\<close> does not refuse the null pointer: releasing it (as the teardown of an address
  space does with a page whose allocation failed) frees frame 0, and from then on every
  allocation returns address 0, the out-of-memory value, whatever frames are free.
\<close>

lemma pmm_free_null_poisons_allocator:
  assumes "0 < nframes s"
  shows "fst (pmm_alloc_frame (pmm_free_frame 0 s)) = 0"
proof -
  have "\<not> frame_used (pmm_free_frame 0 s) 0"
    using assms by (simp add: pmm_free_frame_def view_simps)
  moreover have "0 < nframes (pmm_free_frame 0 s)"
    using assms by (simp add: pmm_free_frame_def view_simps)
  ultimately show ?thesis
    by (simp add: pmm_alloc_frame_def first_clear.simps [of _ 0])
qed

lemma pmm_free_null_poisons_allocator_witness:
  "free_set two_frames = {1, 2} \<and> fst (pmm_alloc_frame (pmm_free_frame 0 two_frames)) = 0"
proof
  have "0 < nframes two_frames" by (simp add: two_frames_def)
  then show "fst (pmm_alloc_frame (pmm_free_frame 0 two_frames)) = 0"
    by (rule pmm_free_null_poisons_allocator)
qed (rule two_frames_free)

end
