(* ===== verification/Heap.thy ===== *)
theory Heap
  imports Hrafn_Prelude
begin

text \<open>
  The kernel heap (kernel/heap.cpp): a first-fit allocator over one chain of block headers in
  address order. The memory the headers live in is a function from addresses to headers; the
  pointer 0 ends the chain. Loops over the chain are partial functions with result \<open>None\<close> when
  they do not end. The specification is a list of blocks \<open>(payload size, free)\<close> that tile the
  arena; \<open>kmalloc\<close> and \<open>kfree\<close> refine first fit and merge-of-neighbours on that list.
\<close>

section \<open>State and operations\<close>

record block_header =
  hsize :: u64
  hnext :: u64
  hfree :: bool

record heap =
  head :: u64
  hdrs :: "u64 \<Rightarrow> block_header"

abbreviation HEAP_BASE :: nat where "HEAP_BASE \<equiv> 0x100000000"
abbreviation HEAP_SIZE :: nat where "HEAP_SIZE \<equiv> 0x200000"

text \<open>\<^verbatim>\<open>sizeof(block_header)\<close>: two 64-bit fields and a \<^verbatim>\<open>bool\<close>, padded to 8 bytes.\<close>

abbreviation HDR :: nat where "HDR \<equiv> 24"

text \<open>The one free block that spans the arena; the part of \<^verbatim>\<open>heap_init\<close> after the mapping loop.\<close>

definition heap_init_list :: "heap \<Rightarrow> heap" where
  "heap_init_list h =
     h\<lparr>head := of_nat HEAP_BASE,
       hdrs := (hdrs h)(of_nat HEAP_BASE :=
         \<lparr>hsize = of_nat HEAP_SIZE - of_nat HDR, hnext = 0, hfree = True\<rparr>)\<rparr>"

definition take_block :: "heap \<Rightarrow> u64 \<Rightarrow> u64 \<Rightarrow> heap" where
  "take_block h b sz =
     (let hb = hdrs h b
      in if sz + of_nat HDR + 16 \<le> hsize hb
         then (let split = b + of_nat HDR + sz;
                   m = (hdrs h)(split := \<lparr>hsize = hsize hb - sz - of_nat HDR, hnext = hnext hb,
                                          hfree = True\<rparr>)
               in h\<lparr>hdrs := m(b := (m b)\<lparr>hnext := split, hsize := sz, hfree := False\<rparr>)\<rparr>)
         else h\<lparr>hdrs := (hdrs h)(b := hb\<lparr>hfree := False\<rparr>)\<rparr>)"

partial_function (option) kmalloc_loop :: "heap \<Rightarrow> u64 \<Rightarrow> u64 \<Rightarrow> (u64 \<times> heap) option" where
  "kmalloc_loop h b sz =
     (if b \<noteq> 0
      then (if hfree (hdrs h b) \<and> sz \<le> hsize (hdrs h b)
            then Some (b + of_nat HDR, take_block h b sz)
            else kmalloc_loop h (hnext (hdrs h b)) sz)
      else Some (0, h))"

definition kmalloc :: "u64 \<Rightarrow> heap \<Rightarrow> (u64 \<times> heap) option" where
  "kmalloc sz h =
     (if sz = 0 then Some (0, h)
      else kmalloc_loop h (head h) ((sz + 7) AND NOT 7))"

partial_function (option) coalesce_loop :: "heap \<Rightarrow> u64 \<Rightarrow> heap option" where
  "coalesce_loop h b =
     (if b \<noteq> 0 \<and> hnext (hdrs h b) \<noteq> 0
      then (let nx = hdrs h (hnext (hdrs h b))
            in if hfree (hdrs h b) \<and> hfree nx
               then coalesce_loop
                      (h\<lparr>hdrs := (hdrs h)(b := (hdrs h b)\<lparr>hsize := hsize (hdrs h b) + (of_nat HDR + hsize nx),
                                                         hnext := hnext nx\<rparr>)\<rparr>) b
               else coalesce_loop h (hnext (hdrs h b)))
      else Some h)"

definition coalesce :: "heap \<Rightarrow> heap option" where
  "coalesce h = coalesce_loop h (head h)"

definition kfree :: "u64 \<Rightarrow> heap \<Rightarrow> heap option" where
  "kfree ptr h =
     (if ptr = 0 then Some h
      else let b = ptr - of_nat HDR
           in coalesce (h\<lparr>hdrs := (hdrs h)(b := (hdrs h b)\<lparr>hfree := True\<rparr>)\<rparr>))"

section \<open>The specification: a list of blocks\<close>

type_synonym blocks = "(nat \<times> bool) list"

fun span :: "blocks \<Rightarrow> nat" where
  "span [] = 0"
| "span ((n, fr) # bs) = HDR + n + span bs"

definition chain_ptr :: "nat \<Rightarrow> blocks \<Rightarrow> u64" where
  "chain_ptr a bs = (if bs = [] then 0 else of_nat a)"

text \<open>The chain of headers from address \<open>a\<close> on is the list \<open>bs\<close>.\<close>

fun chain :: "(u64 \<Rightarrow> block_header) \<Rightarrow> nat \<Rightarrow> blocks \<Rightarrow> bool" where
  "chain m a [] = True"
| "chain m a ((n, fr) # bs) =
     (m (of_nat a) = \<lparr>hsize = of_nat n,
                      hnext = chain_ptr (a + HDR + n) bs, hfree = fr\<rparr>
      \<and> chain m (a + HDR + n) bs)"

definition sizes_ok :: "blocks \<Rightarrow> bool" where
  "sizes_ok bs = list_all (\<lambda>(n, fr). 8 dvd n) bs"

definition heap_ok :: "heap \<Rightarrow> blocks \<Rightarrow> bool" where
  "heap_ok h bs \<longleftrightarrow>
     head h = of_nat HEAP_BASE \<and> bs \<noteq> [] \<and> chain (hdrs h) HEAP_BASE bs
     \<and> span bs = HEAP_SIZE \<and> sizes_ok bs"

definition round8 :: "nat \<Rightarrow> nat" where
  "round8 n = (n + 7) div 8 * 8"

fun amalloc :: "nat \<Rightarrow> nat \<Rightarrow> blocks \<Rightarrow> (nat \<times> blocks) option" where
  "amalloc n a [] = None"
| "amalloc n a ((k, fr) # bs) =
     (if fr \<and> n \<le> k
      then Some (a + HDR, if n + HDR + 16 \<le> k then (n, False) # (k - n - HDR, True) # bs
                          else (k, False) # bs)
      else map_option (\<lambda>(p, bs'). (p, (k, fr) # bs')) (amalloc n (a + HDR + k) bs))"

fun amark :: "nat \<Rightarrow> nat \<Rightarrow> blocks \<Rightarrow> blocks" where
  "amark p a [] = []"
| "amark p a ((k, fr) # bs) =
     (if a + HDR = p then (k, True) # bs else (k, fr) # amark p (a + HDR + k) bs)"

fun amerge :: "blocks \<Rightarrow> blocks" where
  "amerge ((k, True) # (l, True) # bs) = amerge ((k + HDR + l, True) # bs)"
| "amerge (b # bs) = b # amerge bs"
| "amerge [] = []"

definition afree :: "nat \<Rightarrow> blocks \<Rightarrow> blocks" where
  "afree p bs = amerge (amark p HEAP_BASE bs)"

text \<open>The payloads handed out and not yet returned: address and size.\<close>

fun heap_live :: "nat \<Rightarrow> blocks \<Rightarrow> (nat \<times> nat) set" where
  "heap_live a [] = {}"
| "heap_live a ((k, fr) # bs) = (if fr then {} else {(a + HDR, k)}) \<union> heap_live (a + HDR + k) bs"

section \<open>The chain under updates\<close>

lemma addr_bounds: "span bs \<le> HEAP_SIZE \<Longrightarrow> (n, fr) \<in> set bs \<Longrightarrow> n < HEAP_SIZE"
  by (induction bs rule: span.induct) auto

lemma of_nat_addr_inj:
  "x < 2 ^ 33 \<Longrightarrow> y < 2 ^ 33 \<Longrightarrow> (of_nat x :: u64) = of_nat y \<longleftrightarrow> x = y"
  using unat_of_nat_u64 [of x] unat_of_nat_u64 [of y] by (auto simp: unat_eq_iff)

lemma of_nat_addr_nonzero: "0 < x \<Longrightarrow> x < 2 ^ 33 \<Longrightarrow> (of_nat x :: u64) \<noteq> 0"
  using of_nat_addr_inj [of x 0] by simp

text \<open>A write below the chain's first header leaves the chain alone.\<close>

lemma chain_upd_below:
  "x < a \<Longrightarrow> a + span bs < 2 ^ 33 \<Longrightarrow> chain (m(of_nat x := v)) a bs = chain m a bs"
proof (induction bs arbitrary: a)
  case (Cons b bs)
  obtain n fr where b: "b = (n, fr)" by (cases b)
  have "(of_nat a :: u64) \<noteq> of_nat x"
    using Cons.prems by (subst of_nat_addr_inj) auto
  moreover have "chain (m(of_nat x := v)) (a + HDR + n) bs = chain m (a + HDR + n) bs"
    using Cons.prems by (intro Cons.IH) (auto simp: b)
  ultimately show ?case by (simp only: b chain.simps fun_upd_other simp_thms)
qed simp

lemma chain_upd_next:
  "a + HDR + n + span bs < 2 ^ 33 \<Longrightarrow>
     chain (m(of_nat a := v)) (a + HDR + n) bs = chain m (a + HDR + n) bs"
  by (rule chain_upd_below) auto

lemma unat_small: "n < 2 ^ 33 \<Longrightarrow> unat (of_nat n :: u64) = n"
  by (simp add: unat_of_nat_u64)

lemma of_nat_le_small: "n < 2 ^ 64 \<Longrightarrow> k < 2 ^ 33 \<Longrightarrow> (of_nat n :: u64) \<le> of_nat k \<longleftrightarrow> n \<le> k"
  by (simp add: word_le_nat_alt unat_of_nat_u64)

lemma take_block_refines:
  assumes ch: "chain (hdrs h) a ((k, True) # bs)" and lim: "a + HDR + k + span bs < 2 ^ 33"
    and n: "n \<le> k"
  defines "h' \<equiv> take_block h (of_nat a) (of_nat n)"
  shows "head h' = head h"
    and "x < a \<Longrightarrow> hdrs h' (of_nat x) = hdrs h (of_nat x)"
    and "chain (hdrs h') a (if n + HDR + 16 \<le> k then (n, False) # (k - n - HDR, True) # bs
                             else (k, False) # bs)"
proof -
  let ?split = "of_nat a + of_nat HDR + of_nat n :: u64"
  have split: "?split = of_nat (a + HDR + n)" by simp
  have fits: "(of_nat n + of_nat HDR + 16 :: u64) \<le> of_nat k \<longleftrightarrow> n + HDR + 16 \<le> k"
    using of_nat_le_small [of "n + HDR + 16" k] n lim by simp
  have rest: "(of_nat k - of_nat n - of_nat HDR :: u64) = of_nat (k - n - HDR)" if "n + HDR + 16 \<le> k"
    using that by (simp add: of_nat_diff)
  show "head h' = head h" by (simp add: h'_def take_block_def Let_def)
  have ne: "(of_nat x :: u64) \<noteq> of_nat a" if "x < a" for x
    using that lim by (subst of_nat_addr_inj) auto
  have ne2: "(of_nat x :: u64) \<noteq> of_nat (a + HDR + n)" if "x \<le> a" for x
    using that lim n by (subst of_nat_addr_inj) auto
  show "hdrs h' (of_nat x) = hdrs h (of_nat x)" if "x < a"
    using ne [OF that] ne2 [of x] that unfolding h'_def take_block_def Let_def split by auto
  have tail: "chain (hdrs h) (a + HDR + k) bs" and hd: "hdrs h (of_nat a) =
      \<lparr>hsize = of_nat k, hnext = chain_ptr (a + HDR + k) bs, hfree = True\<rparr>"
    using ch by simp_all
  show "chain (hdrs h') a (if n + HDR + 16 \<le> k then (n, False) # (k - n - HDR, True) # bs
                             else (k, False) # bs)"
  proof (cases "n + HDR + 16 \<le> k")
    case True
    let ?m = "(hdrs h)(of_nat (a + HDR + n) :=
      \<lparr>hsize = of_nat (k - n - HDR), hnext = chain_ptr (a + HDR + k) bs, hfree = True\<rparr>)"
    let ?m' = "?m(of_nat a := \<lparr>hsize = of_nat n, hnext = of_nat (a + HDR + n), hfree = False\<rparr>)"
    have le: "(of_nat n + of_nat HDR + 16 :: u64) \<le> of_nat k" using fits True by blast
    have ma: "((hdrs h)(of_nat (a + HDR + n) := v)) (of_nat a) = hdrs h (of_nat a)" for v
      using ne2 [of a] by (simp only: fun_upd_other le_refl simp_thms)
    have h': "hdrs h' = ?m'"
      unfolding h'_def take_block_def Let_def split ma hd
      by (simp only: block_header.simps le if_True rest [OF True]) simp
    have pos: "a + HDR + n + HDR + (k - n - HDR) = a + HDR + k" using True by simp
    have "chain ?m' (a + HDR + k) bs"
      using tail True lim by (simp only: chain_upd_below)
    moreover have "?m' (of_nat a) = \<lparr>hsize = of_nat n, hnext = of_nat (a + HDR + n), hfree = False\<rparr>"
      by (simp only: fun_upd_same)
    moreover have "?m' (of_nat (a + HDR + n))
        = \<lparr>hsize = of_nat (k - n - HDR), hnext = chain_ptr (a + HDR + k) bs, hfree = True\<rparr>"
      using ne2 [OF le_refl, THEN not_sym] by (simp only: fun_upd_same fun_upd_other simp_thms)
    ultimately show ?thesis
      using True by (simp only: h' chain.simps pos if_True) (simp add: chain_ptr_def)
  next
    case False
    have le: "\<not> (of_nat n + of_nat HDR + 16 :: u64) \<le> of_nat k" using False fits by blast
    have "h' = h\<lparr>hdrs := (hdrs h)(of_nat a := (hdrs h (of_nat a))\<lparr>hfree := False\<rparr>)\<rparr>"
      unfolding h'_def take_block_def Let_def by (simp only: hd block_header.simps le if_False)
    then show ?thesis
      using False tail lim chain_upd_next [of a k bs] by (simp add: hd)
  qed
qed

lemma span_take:
  "n \<le> k \<Longrightarrow> span (if n + HDR + 16 \<le> k then (n, False) # (k - n - HDR, True) # bs
                  else (k, False) # bs) = span ((k, fr) # bs)"
  by simp

lemma amalloc_span: "amalloc n a bs = Some (p, bs') \<Longrightarrow> span bs' = span bs"
  by (induction n a bs arbitrary: p bs' rule: amalloc.induct) (auto split: if_splits)

lemma amalloc_nonempty: "amalloc n a bs = Some (p, bs') \<Longrightarrow> bs \<noteq> [] \<and> bs' \<noteq> []"
  by (cases bs) (auto split: if_splits)

lemma kmalloc_loop_refines:
  assumes "chain (hdrs h) a bs" and "0 < a" and "a + span bs < 2 ^ 33" and "n < 2 ^ 64"
  shows "case amalloc n a bs of
      None \<Rightarrow> kmalloc_loop h (chain_ptr a bs) (of_nat n) = Some (0, h)
    | Some (q, bs') \<Rightarrow> \<exists>h'. kmalloc_loop h (chain_ptr a bs) (of_nat n) = Some (of_nat q, h')
        \<and> head h' = head h \<and> chain (hdrs h') a bs'
        \<and> (\<forall>x < a. hdrs h' (of_nat x) = hdrs h (of_nat x))"
  using assms
proof (induction bs arbitrary: a)
  case Nil
  then show ?case by (simp add: chain_ptr_def kmalloc_loop.simps)
next
  case (Cons b bs)
  obtain k fr where b: "b = (k, fr)" by (cases b)
  have ptr: "chain_ptr a (b # bs) = of_nat a" by (simp add: chain_ptr_def)
  have nz: "(of_nat a :: u64) \<noteq> 0"
    using Cons.prems(2,3) by (intro of_nat_addr_nonzero) auto
  have hd: "hdrs h (of_nat a) = \<lparr>hsize = of_nat k, hnext = chain_ptr (a + HDR + k) bs, hfree = fr\<rparr>"
    and tl: "chain (hdrs h) (a + HDR + k) bs"
    using Cons.prems(1) by (simp_all only: b chain.simps)
  have le: "(of_nat n :: u64) \<le> of_nat k \<longleftrightarrow> n \<le> k"
    using Cons.prems(3,4) by (intro of_nat_le_small) (auto simp: b)
  show ?case
  proof (cases "fr \<and> n \<le> k")
    case True
    have "kmalloc_loop h (of_nat a) (of_nat n)
        = Some (of_nat (a + HDR), take_block h (of_nat a) (of_nat n))"
      using True nz le by (subst kmalloc_loop.simps) (simp add: hd)
    moreover have "chain (hdrs h) a ((k, True) # bs)" and "a + HDR + k + span bs < 2 ^ 33"
      using Cons.prems(1,3) True by (simp_all add: b)
    note take_block_refines [OF this conjunct2 [OF True]]
    moreover have "amalloc n a (b # bs) = Some (a + HDR,
        if n + HDR + 16 \<le> k then (n, False) # (k - n - HDR, True) # bs else (k, False) # bs)"
      using True by (simp only: b amalloc.simps simp_thms if_True)
    ultimately show ?thesis
      unfolding ptr by (simp only: option.case prod.case) blast
  next
    case False
    have step: "kmalloc_loop h (of_nat a) (of_nat n) = kmalloc_loop h (chain_ptr (a + HDR + k) bs) (of_nat n)"
      using False nz le by (subst kmalloc_loop.simps) (auto simp: hd)
    have "a + HDR + k + span bs < 2 ^ 33" using Cons.prems(3) by (simp add: b)
    note IH = Cons.IH [OF tl _ this Cons.prems(4)]
    show ?thesis
    proof (cases "amalloc n (a + HDR + k) bs")
      case None
      then have "amalloc n a (b # bs) = None" using False by (auto simp: b)
      then show ?thesis using IH None unfolding ptr step by simp
    next
      case (Some r)
      obtain q bs' where r: "r = (q, bs')" by (cases r)
      obtain h' where h': "kmalloc_loop h (chain_ptr (a + HDR + k) bs) (of_nat n) = Some (of_nat q, h')"
        "head h' = head h" "chain (hdrs h') (a + HDR + k) bs'"
        "\<And>x. x < a + HDR + k \<Longrightarrow> hdrs h' (of_nat x) = hdrs h (of_nat x)"
        using IH Some by (auto simp: r)
      have "chain_ptr (a + HDR + k) bs' = chain_ptr (a + HDR + k) bs"
        using amalloc_nonempty [OF Some [unfolded r]] by (simp add: chain_ptr_def)
      then have "chain (hdrs h') a ((k, fr) # bs')"
        using h'(3) h'(4) [of a] by (simp add: hd)
      then show ?thesis
        using h' False Some unfolding ptr step by (auto simp: b r simp del: chain.simps)
    qed
  qed
qed

lemma span_amerge [simp]: "span (amerge bs) = span bs"
  by (induction bs rule: amerge.induct) auto

lemma amerge_nonempty: "amerge bs = [] \<longleftrightarrow> bs = []"
  by (induction bs rule: amerge.induct) auto

lemma coalesce_loop_last: "hnext (hdrs h (of_nat a)) = 0 \<Longrightarrow> coalesce_loop h (of_nat a) = Some h"
  by (simp add: coalesce_loop.simps)

lemma coalesce_loop_refines:
  assumes "chain (hdrs h) a bs" and "0 < a" and "a + span bs < 2 ^ 33"
  shows "\<exists>h'. coalesce_loop h (chain_ptr a bs) = Some h' \<and> head h' = head h
    \<and> chain (hdrs h') a (amerge bs) \<and> (\<forall>x < a. hdrs h' (of_nat x) = hdrs h (of_nat x))"
  using assms
proof (induction "length bs" arbitrary: a h bs)
  case 0
  then show ?case by (simp add: chain_ptr_def coalesce_loop.simps)
next
  case (Suc len)
  then obtain k fr tl where bs: "bs = (k, fr) # tl" by (cases bs) auto
  have ptr: "chain_ptr a bs = of_nat a" by (simp add: chain_ptr_def bs)
  have nz: "(of_nat a :: u64) \<noteq> 0" using Suc.prems by (intro of_nat_addr_nonzero) auto
  have hd: "hdrs h (of_nat a) = \<lparr>hsize = of_nat k, hnext = chain_ptr (a + HDR + k) tl, hfree = fr\<rparr>"
    and ch: "chain (hdrs h) (a + HDR + k) tl"
    using Suc.prems(1) by (simp_all only: bs chain.simps)
  show ?case
  proof (cases tl)
    case Nil
    then have "coalesce_loop h (of_nat a) = Some h"
      by (intro coalesce_loop_last) (simp add: hd chain_ptr_def)
    then show ?thesis
      using Suc.prems(1) unfolding ptr by (cases fr) (simp_all add: bs Nil)
  next
    case (Cons c tl')
    obtain l fr' where c: "c = (l, fr')" by (cases c)
    let ?n = "a + HDR + k"
    have nptr: "chain_ptr ?n tl = of_nat ?n" by (simp add: chain_ptr_def Cons)
    have lim: "?n + span tl < 2 ^ 33" using Suc.prems(3) by (simp add: bs)
    have nnz: "(of_nat ?n :: u64) \<noteq> 0" using lim by (intro of_nat_addr_nonzero) auto
    have hd': "hdrs h (of_nat ?n) = \<lparr>hsize = of_nat l, hnext = chain_ptr (?n + HDR + l) tl', hfree = fr'\<rparr>"
      and ch': "chain (hdrs h) (?n + HDR + l) tl'"
      using ch by (simp_all only: Cons c chain.simps)
    show ?thesis
    proof (cases "fr \<and> fr'")
      case True
      let ?h = "h\<lparr>hdrs := (hdrs h)(of_nat a := \<lparr>hsize = of_nat k + (of_nat HDR + of_nat l),
        hnext = chain_ptr (?n + HDR + l) tl', hfree = True\<rparr>)\<rparr>"
      have step: "coalesce_loop h (of_nat a) = coalesce_loop ?h (of_nat a)"
        using True nz nnz by (subst coalesce_loop.simps) (simp only: hd nptr hd' block_header.simps
            Let_def simp_thms if_True)
      have e: "a + HDR + (k + HDR + l) = ?n + HDR + l" by simp
      have "chain ((hdrs h)(of_nat a := v)) (?n + HDR + l) tl'" for v
        using ch' lim by (subst chain_upd_below) (simp_all add: Cons c)
      then have chm: "chain (hdrs ?h) a ((k + HDR + l, True) # tl')"
        by (simp only: heap.simps chain.simps e fun_upd_same) simp
      have "a + span ((k + HDR + l, True) # tl') < 2 ^ 33" using lim by (simp add: Cons c)
      moreover have "len = length ((k + HDR + l, True) # tl')" using Suc.hyps(2) by (simp add: bs Cons)
      ultimately obtain h' where h': "coalesce_loop ?h (chain_ptr a ((k + HDR + l, True) # tl')) = Some h'"
        "head h' = head ?h" "chain (hdrs h') a (amerge ((k + HDR + l, True) # tl'))"
        "\<forall>x < a. hdrs h' (of_nat x) = hdrs ?h (of_nat x)"
        using Suc.hyps(1) [OF _ chm Suc.prems(2)] by blast
      have "hdrs ?h (of_nat x) = hdrs h (of_nat x)" if "x < a" for x
      proof -
        have "(of_nat x :: u64) \<noteq> of_nat a"
          using that Suc.prems(3) by (subst of_nat_addr_inj) auto
        then show ?thesis by simp
      qed
      then show ?thesis
        using h' True unfolding ptr step by (simp add: bs Cons c chain_ptr_def)
    next
      case False
      have step: "coalesce_loop h (of_nat a) = coalesce_loop h (of_nat ?n)"
        using False nz nnz by (subst coalesce_loop.simps) (auto simp only: hd nptr hd' block_header.simps
            Let_def simp_thms if_False if_True)
      have "len = length tl" using Suc.hyps(2) by (simp add: bs)
      then obtain h' where h': "coalesce_loop h (of_nat ?n) = Some h'"
        "head h' = head h" "chain (hdrs h') ?n (amerge tl)"
        "\<And>x. x < ?n \<Longrightarrow> hdrs h' (of_nat x) = hdrs h (of_nat x)"
        using Suc.hyps(1) [OF _ ch _ lim] unfolding nptr by auto
      have am: "amerge bs = (k, fr) # amerge tl"
        using False by (cases fr; cases fr') (simp_all add: bs Cons c)
      have "chain_ptr ?n (amerge tl) = chain_ptr ?n tl" by (simp add: chain_ptr_def amerge_nonempty)
      then have "chain (hdrs h') a ((k, fr) # amerge tl)"
        using h'(3) h'(4) [of a] by (simp add: hd)
      then show ?thesis using h' unfolding ptr step am by (auto simp del: chain.simps)
    qed
  qed
qed

section \<open>Facts about the block list\<close>

lemma sizes_ok_simps [simp]:
  "sizes_ok []" "sizes_ok ((n, fr) # bs) \<longleftrightarrow> 8 dvd n \<and> sizes_ok bs"
  by (simp_all add: sizes_ok_def)

lemma sizes_ok_amalloc: "amalloc n a bs = Some (p, bs') \<Longrightarrow> 8 dvd n \<Longrightarrow> sizes_ok bs \<Longrightarrow> sizes_ok bs'"
  by (induction n a bs arbitrary: p bs' rule: amalloc.induct)
    (auto split: if_splits intro!: dvd_diff_nat)

lemma sizes_ok_amerge: "sizes_ok bs \<Longrightarrow> sizes_ok (amerge bs)"
  by (induction bs rule: amerge.induct) (auto intro!: dvd_add)

lemma amark_simps [simp]:
  "span (amark p a bs) = span bs" "amark p a bs = [] \<longleftrightarrow> bs = []"
  "sizes_ok (amark p a bs) = sizes_ok bs"
  by (induction p a bs rule: amark.induct) auto

lemma live_range: "(p, k) \<in> heap_live a bs \<Longrightarrow> a + HDR \<le> p \<and> p + k \<le> a + span bs"
  by (induction a bs rule: heap_live.induct) (auto split: if_splits)

definition merges :: "bool \<Rightarrow> blocks \<Rightarrow> bool" where
  "merges fr bs \<longleftrightarrow> fr \<and> bs \<noteq> [] \<and> snd (hd bs)"

lemma amerge_skip: "\<not> merges fr bs \<Longrightarrow> amerge ((k, fr) # bs) = (k, fr) # amerge bs"
  by (cases fr; cases bs) (auto simp: merges_def)

lemma amerge_induct [case_names Nil Merge Skip]:
  assumes "P []" and "\<And>k l bs. P ((k + HDR + l, True) # bs) \<Longrightarrow> P ((k, True) # (l, True) # bs)"
    and "\<And>k fr bs. \<not> merges fr bs \<Longrightarrow> P bs \<Longrightarrow> P ((k, fr) # bs)"
  shows "P bs"
proof (induction "length bs" arbitrary: bs rule: less_induct)
  case less
  show ?case
  proof (cases bs)
    case (Cons b tl)
    obtain k fr where b: "b = (k, fr)" by (cases b)
    show ?thesis
    proof (cases "merges fr tl")
      case True
      then obtain l tl' where tl: "fr" "tl = (l, True) # tl'"
        by (cases tl) (auto simp: merges_def)
      have "P ((k + HDR + l, True) # tl')" by (rule less) (simp add: Cons tl)
      then show ?thesis using assms(2) tl by (simp add: Cons b)
    next
      case False
      then show ?thesis using assms(3) less [of tl] by (simp add: Cons b)
    qed
  qed (simp add: assms(1))
qed

lemma live_amerge [simp]: "heap_live a (amerge bs) = heap_live a bs"
proof (induction bs arbitrary: a rule: amerge_induct)
  case (Merge k l bs)
  then show ?case by (simp add: add.assoc)
qed (simp_all add: amerge_skip)

lemma live_amalloc:
  "amalloc n a bs = Some (p, bs') \<Longrightarrow>
     \<exists>k. n \<le> k \<and> heap_live a bs' = insert (p, k) (heap_live a bs) \<and> p \<notin> fst ` heap_live a bs
         \<and> a + HDR \<le> p \<and> p + k \<le> a + span bs"
proof (induction n a bs arbitrary: p bs' rule: amalloc.induct)
  case (2 n a k fr bs)
  show ?case
  proof (cases "fr \<and> n \<le> k")
    case True
    have notin: "(a + HDR, k') \<notin> heap_live (a + HDR + k) bs" for k'
      using live_range [of "a + HDR" k' "a + HDR + k" bs] by auto
    show ?thesis
    proof (cases "n + HDR + 16 \<le> k")
      case t: True
      have pos: "a + HDR + n + HDR + (k - n - HDR) = a + HDR + k" using t by simp
      have p: "p = a + HDR" and bs': "bs' = (n, False) # (k - n - HDR, True) # bs"
        using 2(2) True t by auto
      have "heap_live a bs' = insert (p, n) (heap_live (a + HDR + k) bs)"
        unfolding bs' heap_live.simps pos p by simp
      then show ?thesis using True t notin by (intro exI [of _ n]) (auto simp: p)
    next
      case False
      then show ?thesis using 2(2) True notin by (intro exI [of _ k]) auto
    qed
  next
    case False
    then obtain r where r: "amalloc n (a + HDR + k) bs = Some (p, r)" and bs': "bs' = (k, fr) # r"
      using 2(2) by (auto split: if_splits)
    obtain k' where "n \<le> k'" "heap_live (a + HDR + k) r = insert (p, k') (heap_live (a + HDR + k) bs)"
      "p \<notin> fst ` heap_live (a + HDR + k) bs" "a + HDR + k + HDR \<le> p"
      "p + k' \<le> a + HDR + k + span bs"
      using 2(1) [OF False r] by blast
    then show ?thesis by (intro exI [of _ k']) (auto simp: bs')
  qed
qed simp

lemma live_disjoint:
  "(p, k) \<in> heap_live a bs \<Longrightarrow> (q, l) \<in> heap_live a bs \<Longrightarrow>
     (p, k) = (q, l) \<or> p + k + HDR \<le> q \<or> q + l + HDR \<le> p"
proof (induction a bs rule: heap_live.induct)
  case (2 a n fr bs)
  then show ?case
    using live_range [of p k "a + HDR + n" bs] live_range [of q l "a + HDR + n" bs]
    by (auto split: if_splits)
qed simp

lemma live_aligned: "8 dvd a \<Longrightarrow> sizes_ok bs \<Longrightarrow> (p, k) \<in> heap_live a bs \<Longrightarrow> 8 dvd p"
proof (induction a bs rule: heap_live.induct)
  case (2 a n fr bs)
  have "8 dvd a + HDR" using 2(2) by (intro dvd_add) simp_all
  moreover have "8 dvd a + HDR + n" using 2(2,3) by (intro dvd_add) simp_all
  ultimately show ?case using 2 by (auto split: if_splits)
qed simp

lemma live_amark:
  "(p, k) \<in> heap_live a bs \<Longrightarrow> heap_live a (amark p a bs) = heap_live a bs - {(p, k)}"
proof (induction p a bs rule: amark.induct)
  case (2 p a n fr bs)
  then show ?case
    using live_range [of p _ "a + HDR + n" bs]
    by (auto split: if_splits dest: live_range)
qed simp

fun no_adjacent_free :: "blocks \<Rightarrow> bool" where
  "no_adjacent_free ((k, f) # (l, g) # bs) = (\<not> (f \<and> g) \<and> no_adjacent_free ((l, g) # bs))"
| "no_adjacent_free bs = True"

lemma amerge_first: "\<not> merges fr bs \<Longrightarrow> \<not> merges fr (amerge bs)"
proof (induction bs rule: amerge_induct)
  case (Skip k g bs)
  then show ?case by (simp add: amerge_skip) (simp add: merges_def)
qed (auto simp: merges_def)

lemma no_adjacent_free_Cons:
  "no_adjacent_free ((k, fr) # bs) \<longleftrightarrow> \<not> merges fr bs \<and> no_adjacent_free bs"
  by (cases bs) (auto simp: merges_def)

lemma amerge_no_adjacent_free: "no_adjacent_free (amerge bs)"
proof (induction bs rule: amerge_induct)
  case (Skip k fr bs)
  then show ?case by (simp add: amerge_skip amerge_first no_adjacent_free_Cons)
qed auto

lemma amerge_id: "no_adjacent_free bs \<Longrightarrow> amerge bs = bs"
proof (induction bs rule: amerge_induct)
  case (Skip k fr bs)
  then show ?case by (simp add: amerge_skip no_adjacent_free_Cons)
qed auto

section \<open>The operations refine the specification\<close>

lemma round8_word: "unat (sz :: u64) + 7 < 2 ^ 64 \<Longrightarrow> (sz + 7) AND NOT 7 = of_nat (round8 (unat sz))"
proof -
  assume lim: "unat sz + 7 < 2 ^ 64"
  have m: "(7 :: u64) = mask 3" by (simp add: mask_eq_decr_exp)
  have "unat sz + unat (7 :: u64) < 18446744073709551616" using lim by simp
  then have "unat (sz + 7) = unat sz + 7" by (simp only: unat_add_u64) simp
  then have "unat ((sz + 7) AND NOT 7) = round8 (unat sz)"
    unfolding round8_def by (subst (2) m) (simp add: unat_and_not_mask)
  moreover have "round8 (unat sz) < 18446744073709551616" using lim by (simp add: round8_def)
  ultimately show ?thesis by (simp only: unat_eq_iff unat_of_nat_u64)
qed

lemma heap_ok_ptr: "heap_ok h bs \<Longrightarrow> head h = chain_ptr HEAP_BASE bs"
  by (simp add: heap_ok_def chain_ptr_def)

lemma kmalloc_refines:
  assumes ok: "heap_ok h bs" and pos: "sz \<noteq> 0" and lim: "unat sz + 7 < 2 ^ 64"
  shows "case amalloc (round8 (unat sz)) HEAP_BASE bs of
      None \<Rightarrow> kmalloc sz h = Some (0, h)
    | Some (q, bs') \<Rightarrow> \<exists>h'. kmalloc sz h = Some (of_nat q, h') \<and> heap_ok h' bs'"
proof -
  have n: "round8 (unat sz) < 2 ^ 64" using lim by (simp add: round8_def)
  have eq: "kmalloc sz h = kmalloc_loop h (chain_ptr HEAP_BASE bs) (of_nat (round8 (unat sz)))"
    unfolding kmalloc_def round8_word [OF lim] heap_ok_ptr [OF ok] using pos by simp
  have "chain (hdrs h) HEAP_BASE bs" and "HEAP_BASE + span bs < 2 ^ 33"
    using ok by (simp_all add: heap_ok_def)
  note ref = kmalloc_loop_refines [OF this(1) _ this(2) n]
  show ?thesis
  proof (cases "amalloc (round8 (unat sz)) HEAP_BASE bs")
    case None
    then show ?thesis using ref by (simp add: eq)
  next
    case (Some r)
    obtain q bs' where r: "r = (q, bs')" by (cases r)
    have "8 dvd round8 (unat sz)" by (simp add: round8_def)
    then have "bs' \<noteq> []" "span bs' = span bs" "sizes_ok bs'"
      using Some ok amalloc_nonempty amalloc_span sizes_ok_amalloc
      unfolding r heap_ok_def by metis+
    then show ?thesis using ref ok Some by (auto simp: eq r heap_ok_def)
  qed
qed

lemma chain_amark:
  "(p, k) \<in> heap_live a bs \<Longrightarrow> chain m a bs \<Longrightarrow> a + span bs < 2 ^ 33 \<Longrightarrow>
     chain (m(of_nat (p - HDR) := (m (of_nat (p - HDR)))\<lparr>hfree := True\<rparr>)) a (amark p a bs)"
proof (induction p a bs rule: amark.induct)
  case (2 p a n fr bs)
  show ?case
  proof (cases "a + HDR = p")
    case True
    then have p: "p - HDR = a" by simp
    have hd: "m (of_nat a) = \<lparr>hsize = of_nat n, hnext = chain_ptr (a + HDR + n) bs, hfree = fr\<rparr>"
      and tl: "chain m (a + HDR + n) bs" using 2(3) by (simp_all only: chain.simps)
    have "a + HDR + n + span bs < 2 ^ 33" using 2(4) by simp
    then show ?thesis
      using tl unfolding p amark.simps if_P [OF True]
      by (simp only: chain.simps hd fun_upd_same chain_upd_next block_header.simps simp_thms)
  next
    case False
    then have mem: "(p, k) \<in> heap_live (a + HDR + n) bs"
      using 2(2) by (auto split: if_splits)
    then have le: "a + HDR + n \<le> p - HDR" and lt: "p < 2 ^ 33" 
      using live_range [OF mem] 2(4) by auto
    then have ne: "(of_nat a :: u64) \<noteq> of_nat (p - HDR)"
      by (subst of_nat_addr_inj) auto
    have ptr: "chain_ptr (a + HDR + n) (amark p (a + HDR + n) bs) = chain_ptr (a + HDR + n) bs"
      by (simp add: chain_ptr_def)
    have "chain (m(of_nat (p - HDR) := (m (of_nat (p - HDR)))\<lparr>hfree := True\<rparr>)) (a + HDR + n)
        (amark p (a + HDR + n) bs)"
    proof (rule 2(1) [OF False mem])
      show "chain m (a + HDR + n) bs" using 2(3) by (simp only: chain.simps)
      show "a + HDR + n + span bs < 2 ^ 33" using 2(4) by simp
    qed
    then show ?thesis
      using False 2(3) ne by (simp only: amark.simps if_False chain.simps ptr fun_upd_other simp_thms)
  qed
qed simp

lemma kfree_refines:
  assumes ok: "heap_ok h bs" and mem: "(p, k) \<in> heap_live HEAP_BASE bs"
  shows "\<exists>h'. kfree (of_nat p) h = Some h' \<and> heap_ok h' (afree p bs)"
proof -
  have ch: "chain (hdrs h) HEAP_BASE bs" and sp: "HEAP_BASE + span bs < 2 ^ 33"
    using ok by (simp_all add: heap_ok_def)
  note range = live_range [OF mem]
  have nz: "(of_nat p :: u64) \<noteq> 0" using range sp by (intro of_nat_addr_nonzero) auto
  have sub: "(of_nat p :: u64) - of_nat HDR = of_nat (p - HDR)"
    using range by (simp add: of_nat_diff)
  let ?h = "h\<lparr>hdrs := (hdrs h)(of_nat (p - HDR) := (hdrs h (of_nat (p - HDR)))\<lparr>hfree := True\<rparr>)\<rparr>"
  have "chain (hdrs ?h) HEAP_BASE (amark p HEAP_BASE bs)"
    using chain_amark [OF mem ch sp] by simp
  then obtain h' where h': "coalesce_loop ?h (chain_ptr HEAP_BASE (amark p HEAP_BASE bs)) = Some h'"
    "head h' = head ?h" "chain (hdrs h') HEAP_BASE (afree p bs)"
    using coalesce_loop_refines [of ?h HEAP_BASE "amark p HEAP_BASE bs"] sp by (auto simp: afree_def)
  have "kfree (of_nat p) h = coalesce ?h"
    unfolding kfree_def Let_def sub using nz by simp
  moreover have "chain_ptr HEAP_BASE (amark p HEAP_BASE bs) = head ?h"
    using ok by (simp add: chain_ptr_def heap_ok_def)
  ultimately have "kfree (of_nat p) h = Some h'" using h'(1) by (simp add: coalesce_def)
  moreover have "heap_ok h' (afree p bs)"
    using h'(2,3) ok by (simp add: heap_ok_def afree_def amerge_nonempty sizes_ok_amerge)
  ultimately show ?thesis by blast
qed

lemma heap_init_list_ok: "heap_ok (heap_init_list h) [(HEAP_SIZE - HDR, True)]"
  by (simp add: heap_ok_def heap_init_list_def chain_ptr_def)

section \<open>The memory contract\<close>

text \<open>
  What the kernel's clients rely on: a request that succeeds returns a fresh, aligned region that
  meets no region handed out before; a release takes exactly its own region back; neither ever
  fails to return.
\<close>

locale memory_pool =
  fixes malloc :: "u64 \<Rightarrow> 's \<Rightarrow> (u64 \<times> 's) option"
    and mfree :: "u64 \<Rightarrow> 's \<Rightarrow> 's option"
    and regions :: "'s \<Rightarrow> (nat \<times> nat) set"
    and lo :: nat and hi :: nat
    and valid :: "'s \<Rightarrow> bool"
  assumes lo_pos: "0 < lo"
    and hi_bound: "hi < 2 ^ 64"
    and regions_inside: "valid s \<Longrightarrow> (p, k) \<in> regions s \<Longrightarrow> lo \<le> p \<and> p + k \<le> hi"
    and regions_aligned: "valid s \<Longrightarrow> (p, k) \<in> regions s \<Longrightarrow> 8 dvd p"
    and regions_apart: "valid s \<Longrightarrow> (p, k) \<in> regions s \<Longrightarrow> (q, l) \<in> regions s \<Longrightarrow>
      (p, k) \<noteq> (q, l) \<Longrightarrow> p + k < q \<or> q + l < p"
    and malloc_total: "valid s \<Longrightarrow> n \<noteq> 0 \<Longrightarrow> unat n < 2 ^ 63 \<Longrightarrow>
      malloc n s = Some (0, s) \<or>
      (\<exists>p k s'. malloc n s = Some (of_nat p, s') \<and> valid s' \<and> unat n \<le> k
         \<and> regions s' = insert (p, k) (regions s) \<and> p \<notin> fst ` regions s)"
    and mfree_total: "valid s \<Longrightarrow> (p, k) \<in> regions s \<Longrightarrow>
      \<exists>s'. mfree (of_nat p) s = Some s' \<and> valid s' \<and> regions s' = regions s - {(p, k)}"
begin

lemma malloc_cases:
  assumes "valid s" and "n \<noteq> 0" and "unat n < 2 ^ 63" and "malloc n s = Some (a, s')"
  obtains (full) "a = 0" "s' = s"
    | (fresh) p k where "a = of_nat p" "a \<noteq> 0" "valid s'" "unat n \<le> k"
        "regions s' = insert (p, k) (regions s)" "p \<notin> fst ` regions s"
proof (cases "a = 0 \<and> s' = s")
  case False
  with malloc_total [OF assms(1-3)] assms(4) obtain p k where
    f: "a = of_nat p" "valid s'" "unat n \<le> k" "regions s' = insert (p, k) (regions s)"
      "p \<notin> fst ` regions s" by auto
  have "lo \<le> p" "p + k \<le> hi" using regions_inside [OF f(2), of p k] f(4) by auto
  then have "unat (of_nat p :: u64) = p" "0 < p"
    using lo_pos hi_bound by (simp_all add: unat_of_nat_u64)
  then have "a \<noteq> 0" using f(1) by auto
  then show ?thesis by (rule fresh [OF f(1) _ f(2-5)])
qed (use full in blast)

lemma malloc_then_free:
  assumes "valid s" and "n \<noteq> 0" and "unat n < 2 ^ 63" and "malloc n s = Some (a, s')" and "a \<noteq> 0"
  shows "\<exists>s''. mfree a s' = Some s'' \<and> valid s'' \<and> regions s'' = regions s"
  using assms(1-4)
proof (cases rule: malloc_cases)
  case full
  then show ?thesis using assms(5) by simp
next
  case (fresh p k)
  then have "(p, k) \<in> regions s'" by simp
  then obtain s'' where "mfree a s' = Some s''" "valid s''" "regions s'' = regions s' - {(p, k)}"
    using mfree_total [OF fresh(3)] fresh(1) by blast
  moreover have "regions s' - {(p, k)} = regions s"
    using fresh(5,6) by force
  ultimately show ?thesis by blast
qed

end

text \<open>The header chain determines the block list, so the regions are a function of the heap.\<close>

lemma chain_unique:
  "chain m a bs \<Longrightarrow> chain m a bs' \<Longrightarrow> span bs = span bs' \<Longrightarrow> a + span bs < 2 ^ 33 \<Longrightarrow> bs = bs'"
proof (induction bs arbitrary: a bs')
  case Nil
  then show ?case by (cases bs') auto
next
  case (Cons b bs)
  obtain n fr where b: "b = (n, fr)" by (cases b)
  obtain n' fr' r where bs': "bs' = (n', fr') # r"
    using Cons.prems(3) by (cases bs') (auto simp: b)
  have "(of_nat n :: u64) = of_nat n'" "fr = fr'"
    using Cons.prems(1,2) by (simp_all add: b bs')
  moreover have "n < 2 ^ 33" "n' < 2 ^ 33" using Cons.prems(3,4) by (simp_all add: b bs')
  ultimately have "n = n'" by (simp add: of_nat_addr_inj)
  then show ?case
    using Cons.prems \<open>fr = fr'\<close> Cons.IH [of "a + HDR + n" r] by (simp add: b bs' add.assoc)
qed

definition heap_valid :: "heap \<Rightarrow> bool" where
  "heap_valid h \<longleftrightarrow> (\<exists>bs. heap_ok h bs)"

definition heap_regions :: "heap \<Rightarrow> (nat \<times> nat) set" where
  "heap_regions h = {r. \<exists>bs. heap_ok h bs \<and> r \<in> heap_live HEAP_BASE bs}"

lemma heap_ok_unique: "heap_ok h bs \<Longrightarrow> heap_ok h bs' \<Longrightarrow> bs = bs'"
  using chain_unique [of "hdrs h" HEAP_BASE bs bs'] by (simp add: heap_ok_def)

lemma heap_regions_eq: "heap_ok h bs \<Longrightarrow> heap_regions h = heap_live HEAP_BASE bs"
  using heap_ok_unique by (auto simp: heap_regions_def)

interpretation kheap: memory_pool kmalloc kfree heap_regions "HEAP_BASE + HDR"
  "HEAP_BASE + HEAP_SIZE" heap_valid
proof
  fix h :: heap and p k q l :: nat and n :: u64
  assume "heap_valid h"
  then obtain bs where ok: "heap_ok h bs" by (auto simp: heap_valid_def)
  note reg = heap_regions_eq [OF ok]
  have sp: "span bs = HEAP_SIZE" using ok by (simp add: heap_ok_def)
  show "HEAP_BASE + HDR \<le> p \<and> p + k \<le> HEAP_BASE + HEAP_SIZE" if "(p, k) \<in> heap_regions h"
    using live_range [of p k HEAP_BASE bs] that sp by (simp add: reg)
  show "8 dvd p" if "(p, k) \<in> heap_regions h"
    using live_aligned [of HEAP_BASE bs p k] that ok by (simp add: reg heap_ok_def)
  show "p + k < q \<or> q + l < p"
    if "(p, k) \<in> heap_regions h" and "(q, l) \<in> heap_regions h" and "(p, k) \<noteq> (q, l)"
    using live_disjoint [of p k HEAP_BASE bs q l] that by (auto simp: reg)
  show "kmalloc n h = Some (0, h) \<or>
      (\<exists>p k s'. kmalloc n h = Some (of_nat p, s') \<and> heap_valid s' \<and> unat n \<le> k
         \<and> heap_regions s' = insert (p, k) (heap_regions h) \<and> p \<notin> fst ` heap_regions h)"
    if nz: "n \<noteq> 0" and lim: "unat n < 2 ^ 63"
  proof (cases "amalloc (round8 (unat n)) HEAP_BASE bs")
    case None
    then show ?thesis using kmalloc_refines [OF ok nz] lim by simp
  next
    case (Some r)
    obtain q bs' where r: "r = (q, bs')" by (cases r)
    obtain h' where h': "kmalloc n h = Some (of_nat q, h')" "heap_ok h' bs'"
      using kmalloc_refines [OF ok nz] lim Some by (auto simp: r)
    obtain k where "round8 (unat n) \<le> k"
      "heap_live HEAP_BASE bs' = insert (q, k) (heap_live HEAP_BASE bs)"
      "q \<notin> fst ` heap_live HEAP_BASE bs"
      using live_amalloc [OF Some [unfolded r]] by blast
    moreover have "unat n \<le> round8 (unat n)" by (simp add: round8_def)
    ultimately have "kmalloc n h = Some (of_nat q, h') \<and> heap_valid h' \<and> unat n \<le> k
         \<and> heap_regions h' = insert (q, k) (heap_regions h) \<and> q \<notin> fst ` heap_regions h"
      using h' heap_regions_eq [OF h'(2)] by (auto simp: reg heap_valid_def)
    then show ?thesis by blast
  qed
  show "\<exists>s'. kfree (of_nat p) h = Some s' \<and> heap_valid s' \<and> heap_regions s' = heap_regions h - {(p, k)}"
    if mem: "(p, k) \<in> heap_regions h"
  proof -
    obtain h' where h': "kfree (of_nat p) h = Some h'" "heap_ok h' (afree p bs)"
      using kfree_refines [OF ok] mem by (auto simp: reg)
    moreover have "heap_live HEAP_BASE (afree p bs) = heap_live HEAP_BASE bs - {(p, k)}"
      using live_amark [of p k HEAP_BASE bs] mem by (simp add: reg afree_def)
    ultimately show ?thesis using heap_regions_eq [OF h'(2)] by (auto simp: reg heap_valid_def)
  qed
qed simp_all

lemma amark_amalloc_head:
  "amalloc n a bs = Some (p, bs') \<Longrightarrow> merges fr (amark p a bs') = merges fr bs"
proof -
  assume am: "amalloc n a bs = Some (p, bs')"
  obtain k f tl where bs: "bs = (k, f) # tl" using amalloc_nonempty [OF am] by (cases bs) auto
  show ?thesis
  proof (cases "f \<and> n \<le> k")
    case True
    then show ?thesis using am by (auto simp: bs merges_def split: if_splits)
  next
    case False
    then obtain r where r: "amalloc n (a + HDR + k) tl = Some (p, r)" and "bs' = (k, f) # r"
      using am by (auto simp: bs split: if_splits)
    moreover have "a + HDR \<noteq> p" using live_amalloc [OF r] by auto
    ultimately show ?thesis by (simp add: bs merges_def)
  qed
qed

lemma afree_amalloc:
  "amalloc n a bs = Some (p, bs') \<Longrightarrow> no_adjacent_free bs \<Longrightarrow> amerge (amark p a bs') = bs"
proof (induction n a bs arbitrary: p bs' rule: amalloc.induct)
  case (2 n a k fr bs)
  show ?case
  proof (cases "fr \<and> n \<le> k")
    case True
    have "amerge ((k, True) # bs) = (k, True) # bs"
      using True 2(3) by (intro amerge_id) simp
    then show ?thesis using True 2(2) by (auto split: if_splits)
  next
    case False
    then obtain r where r: "amalloc n (a + HDR + k) bs = Some (p, r)" and bs': "bs' = (k, fr) # r"
      using 2(2) by (auto split: if_splits)
    have "\<not> merges fr bs" "no_adjacent_free bs"
      using 2(3) by (simp_all add: no_adjacent_free_Cons)
    moreover have "a + HDR \<noteq> p"
      using live_amalloc [OF r] by auto
    ultimately show ?thesis
      using 2(1) [OF False r] amark_amalloc_head [OF r, of fr] by (simp add: bs' amerge_skip)
  qed
qed simp

section \<open>Properties\<close>

text \<open>
  C12. On a well-formed heap \<open>kmalloc\<close> always returns: either the null pointer, with the heap
  unchanged, or an 8-byte aligned payload inside the arena, at least as large as requested,
  that is apart from every payload handed out before, all of which stay allocated.
\<close>

theorem kmalloc_hands_out_fresh_region:
  assumes "heap_valid h" and "n \<noteq> 0" and "unat n < 2 ^ 63"
  shows "kmalloc n h = Some (0, h) \<or>
    (\<exists>p k h'. kmalloc n h = Some (of_nat p, h') \<and> heap_valid h' \<and> unat n \<le> k \<and> 8 dvd p
       \<and> HEAP_BASE + HDR \<le> p \<and> p + k \<le> HEAP_BASE + HEAP_SIZE
       \<and> heap_regions h' = insert (p, k) (heap_regions h)
       \<and> (\<forall>(q, l) \<in> heap_regions h. p + k < q \<or> q + l < p))"
proof -
  consider "kmalloc n h = Some (0, h)"
    | p k h' where "kmalloc n h = Some (of_nat p, h')" "heap_valid h'" "unat n \<le> k"
      "heap_regions h' = insert (p, k) (heap_regions h)" "p \<notin> fst ` heap_regions h"
    using kheap.malloc_total [OF assms] by blast
  then show ?thesis
  proof cases
    case (2 p k h')
    then have mem: "(p, k) \<in> heap_regions h'" by simp
    have "p + k < q \<or> q + l < p" if "(q, l) \<in> heap_regions h" for q l
    proof (rule kheap.regions_apart [OF 2(2) mem])
      show "(q, l) \<in> heap_regions h'" using 2(4) that by simp
      show "(p, k) \<noteq> (q, l)" using 2(5) that by force
    qed
    then show ?thesis
      using 2 kheap.regions_inside [OF 2(2) mem] kheap.regions_aligned [OF 2(2) mem] by blast
  qed simp
qed

definition fresh_heap :: heap where
  "fresh_heap = heap_init_list \<lparr>head = 0, hdrs = (\<lambda>_. \<lparr>hsize = 0, hnext = 0, hfree = False\<rparr>)\<rparr>"

lemma fresh_heap_ok: "heap_ok fresh_heap [(HEAP_SIZE - HDR, True)]"
  unfolding fresh_heap_def by (rule heap_init_list_ok)

lemma fresh_heap_valid: "heap_valid fresh_heap" and fresh_heap_regions: "heap_regions fresh_heap = {}"
  using fresh_heap_ok by (auto simp: heap_valid_def heap_regions_eq)

lemma fresh_heap_alloc: "\<exists>h. kmalloc 320 fresh_heap = Some (0x100000018, h)"
  using kmalloc_refines [OF fresh_heap_ok, of 320] by (auto simp: round8_def)

lemma kmalloc_hands_out_fresh_region_witness:
  "\<exists>k h'. kmalloc 320 fresh_heap = Some (0x100000018, h') \<and> heap_valid h' \<and> 320 \<le> k
     \<and> heap_regions h' = {(0x100000018, k)}"
proof -
  have ne: "kmalloc 320 fresh_heap \<noteq> Some (0, fresh_heap)" using fresh_heap_alloc by auto
  then obtain p k h' where p: "kmalloc 320 fresh_heap = Some (of_nat p, h')" "heap_valid h'"
    "320 \<le> k" "p + k \<le> HEAP_BASE + HEAP_SIZE" "heap_regions h' = insert (p, k) (heap_regions fresh_heap)"
    using kmalloc_hands_out_fresh_region [OF fresh_heap_valid, of 320] by auto
  have "(of_nat p :: u64) = of_nat 0x100000018" using fresh_heap_alloc p(1) by auto
  then have "p = 0x100000018" using p(4) by (subst (asm) of_nat_addr_inj) auto
  then show ?thesis using p by (auto simp: fresh_heap_regions)
qed

text \<open>
  C23. \<open>kfree\<close> of what \<open>kmalloc\<close> just returned always returns and restores the very block list there
  was before, as long as no two neighbours were free; and after any \<open>kfree\<close> of an allocated
  payload no two neighbours are free, so the premise holds from then on.
\<close>

theorem kfree_undoes_kmalloc:
  assumes "heap_ok h bs" and "no_adjacent_free bs" and "n \<noteq> 0" and "unat n < 2 ^ 63"
    and "kmalloc n h = Some (a, h1)" and "a \<noteq> 0"
  shows "\<exists>h2. kfree a h1 = Some h2 \<and> heap_ok h2 bs \<and>
    (\<forall>q l bs1. heap_ok h1 bs1 \<longrightarrow> (q, l) \<in> heap_live HEAP_BASE bs1 \<longrightarrow>
       (\<exists>h3 bs3. kfree (of_nat q) h1 = Some h3 \<and> heap_ok h3 bs3 \<and> no_adjacent_free bs3))"
proof -
  have "unat n + 7 < 2 ^ 64" using assms(4) by simp
  note ref = kmalloc_refines [OF assms(1,3) this]
  obtain p bs1 where am: "amalloc (round8 (unat n)) HEAP_BASE bs = Some (p, bs1)"
    and a: "a = of_nat p" and h1: "heap_ok h1 bs1"
    using ref assms(5,6) by (cases "amalloc (round8 (unat n)) HEAP_BASE bs") auto
  obtain k where "(p, k) \<in> heap_live HEAP_BASE bs1" using live_amalloc [OF am] by auto
  then obtain h2 where h2: "kfree a h1 = Some h2" "heap_ok h2 (afree p bs1)"
    using kfree_refines [OF h1] a by blast
  have "afree p bs1 = bs" using afree_amalloc [OF am assms(2)] by (simp add: afree_def)
  moreover have "no_adjacent_free (afree q bs')" for q bs'
    by (simp add: afree_def amerge_no_adjacent_free)
  ultimately show ?thesis using h2 kfree_refines by metis
qed

lemma kfree_undoes_kmalloc_witness:
  "\<exists>h1 h2. kmalloc 320 fresh_heap = Some (0x100000018, h1) \<and> kfree 0x100000018 h1 = Some h2
     \<and> heap_ok h2 [(HEAP_SIZE - HDR, True)]"
proof -
  obtain h1 where h1: "kmalloc 320 fresh_heap = Some (0x100000018, h1)"
    using fresh_heap_alloc by blast
  show ?thesis using kfree_undoes_kmalloc [OF fresh_heap_ok _ _ _ h1] h1 by auto
qed

text \<open>
  The rounding of the request wraps: a request within 7 bytes of \<open>2 ^ 64\<close> is rounded to 0 and
  is granted from the first free block, although that block is smaller than the request.
\<close>

lemma kmalloc_rounding_wraps:
  assumes "heap_ok h ((k, True) # bs)" and "2 ^ 64 \<le> unat n + 7"
  shows "(\<exists>h'. kmalloc n h = Some (of_nat (HEAP_BASE + HDR), h')) \<and> k < unat n"
proof -
  have k: "k < HEAP_SIZE" using assms(1) by (auto simp: heap_ok_def)
  have lt: "unat n < 18446744073709551616" by simp
  have "unat (n + 7) = (unat n + 7) mod 18446744073709551616"
    by (simp add: unat_word_ariths)
  also have "\<dots> = unat n + 7 - 18446744073709551616"
  proof -
    have "unat n + 7 - 18446744073709551616 < 18446744073709551616" using lt by linarith
    then show ?thesis using assms(2) by (subst le_mod_geq) (simp_all only: mod_less, simp)
  qed
  finally have small: "unat (n + 7) < 8" using lt by linarith
  have m: "(7 :: u64) = mask 3" by (simp add: mask_eq_decr_exp)
  have "unat ((n + 7) AND NOT 7) = unat (n + 7) div 8 * 8"
    by (subst (2) m) (simp only: unat_and_not_mask, simp)
  then have zero: "(n + 7) AND NOT 7 = 0" using small by (simp add: unat_eq_iff)
  have nz: "n \<noteq> 0" using assms(2) by auto
  have "head h = of_nat HEAP_BASE" and "hfree (hdrs h (of_nat HEAP_BASE))"
    using assms(1) by (simp_all add: heap_ok_def)
  then have "kmalloc n h = Some (of_nat HEAP_BASE + of_nat HDR, take_block h (of_nat HEAP_BASE) 0)"
    using nz unfolding kmalloc_def zero by (simp add: kmalloc_loop.simps)
  then show ?thesis using k assms(2) by simp
qed

lemma kmalloc_rounding_wraps_witness:
  "\<exists>h'. kmalloc 0xFFFFFFFFFFFFFFFF fresh_heap = Some (0x100000018, h')"
  using kmalloc_rounding_wraps [OF fresh_heap_ok, of "0xFFFFFFFFFFFFFFFF"] by simp

end
