(* ===== verification/Kbd.thy ===== *)
theory Kbd
  imports Hrafn_Prelude
begin

text \<open>
  The keyboard driver (kernel/kbd.cpp): the translation of set-1 scancodes with the shift state,
  and the ring buffer between the interrupt handler, which pushes, and \<^verbatim>\<open>SYS_READ\<close>, which drains.
  The locale \<open>bounded_queue\<close> is the contract of the ring buffer; it is interpreted on it.
\<close>

section \<open>State and operations\<close>

record kbd =
  g_shift :: bool
  kbd_buf :: "nat \<Rightarrow> u8"
  kbd_head :: u32
  kbd_tail :: u32

abbreviation KBD_BUF_SIZE :: u32 where "KBD_BUF_SIZE \<equiv> 128"

definition map_lower :: "u8 list" where
  "map_lower =
     [0, 0, 49, 50, 51, 52, 53, 54, 55, 56, 57, 48, 45, 61, 8, 9,
      113, 119, 101, 114, 116, 121, 117, 105, 111, 112, 91, 93, 10, 0, 97, 115,
      100, 102, 103, 104, 106, 107, 108, 59, 39, 96, 0, 92, 122, 120, 99, 118,
      98, 110, 109, 44, 46, 47, 0, 42, 0, 32, 0, 0, 0, 0, 0, 0,
      0, 0, 0, 0, 0, 0, 0, 0, 0, 0, 0, 0, 0, 0, 0, 0,
      0, 0, 0, 0, 0, 0, 0, 0, 0, 0, 0, 0, 0, 0, 0, 0,
      0, 0, 0, 0, 0, 0, 0, 0, 0, 0, 0, 0, 0, 0, 0, 0,
      0, 0, 0, 0, 0, 0, 0, 0, 0, 0, 0, 0, 0, 0, 0, 0]"

definition map_upper :: "u8 list" where
  "map_upper =
     [0, 0, 33, 64, 35, 36, 37, 94, 38, 42, 40, 41, 95, 43, 8, 9,
      81, 87, 69, 82, 84, 89, 85, 73, 79, 80, 123, 125, 10, 0, 65, 83,
      68, 70, 71, 72, 74, 75, 76, 58, 34, 126, 0, 124, 90, 88, 67, 86,
      66, 78, 77, 60, 62, 63, 0, 42, 0, 32, 0, 0, 0, 0, 0, 0,
      0, 0, 0, 0, 0, 0, 0, 0, 0, 0, 0, 0, 0, 0, 0, 0,
      0, 0, 0, 0, 0, 0, 0, 0, 0, 0, 0, 0, 0, 0, 0, 0,
      0, 0, 0, 0, 0, 0, 0, 0, 0, 0, 0, 0, 0, 0, 0, 0,
      0, 0, 0, 0, 0, 0, 0, 0, 0, 0, 0, 0, 0, 0, 0, 0]"

text \<open>The character of a scancode (0 for none) and the new state.\<close>

definition kbd_handle_scancode :: "u8 \<Rightarrow> kbd \<Rightarrow> u8 \<times> kbd" where
  "kbd_handle_scancode sc s =
     (if sc AND 0x80 \<noteq> 0
      then (let code = sc AND 0x7F
            in (0, if code = 0x2A \<or> code = 0x36 then s\<lparr>g_shift := False\<rparr> else s))
      else if sc = 0x2A \<or> sc = 0x36 then (0, s\<lparr>g_shift := True\<rparr>)
      else (let c = (if g_shift s then map_upper ! unat sc else map_lower ! unat sc)
            in (if c = 0x7F then 8 else c, s)))"

definition kbd_buffer_push :: "u8 \<Rightarrow> kbd \<Rightarrow> kbd" where
  "kbd_buffer_push c s =
     (let nxt = (kbd_head s + 1) mod KBD_BUF_SIZE
      in if nxt = kbd_tail s then s
         else s\<lparr>kbd_buf := (kbd_buf s)(unat (kbd_head s) := c), kbd_head := nxt\<rparr>)"

definition kbd_getchar :: "kbd \<Rightarrow> int \<times> kbd" where
  "kbd_getchar s =
     (if kbd_tail s = kbd_head s then (-1, s)
      else (uint (kbd_buf s (unat (kbd_tail s))),
            s\<lparr>kbd_tail := (kbd_tail s + 1) mod KBD_BUF_SIZE\<rparr>))"

section \<open>The queue contract\<close>

locale bounded_queue =
  fixes push :: "'a::len word \<Rightarrow> 'q \<Rightarrow> 'q"
    and pop :: "'q \<Rightarrow> int \<times> 'q"
    and items :: "'q \<Rightarrow> 'a word list"
    and cap :: nat
    and valid :: "'q \<Rightarrow> bool"
  assumes items_cap: "valid q \<Longrightarrow> length (items q) \<le> cap"
    and push_room: "valid q \<Longrightarrow> length (items q) < cap \<Longrightarrow> items (push x q) = items q @ [x]"
    and push_full: "valid q \<Longrightarrow> length (items q) = cap \<Longrightarrow> push x q = q"
    and push_valid: "valid q \<Longrightarrow> valid (push x q)"
    and pop_empty: "valid q \<Longrightarrow> items q = [] \<Longrightarrow> pop q = (-1, q)"
    and pop_item: "valid q \<Longrightarrow> items q = x # xs \<Longrightarrow> fst (pop q) = uint x \<and> items (snd (pop q)) = xs"
    and pop_valid: "valid q \<Longrightarrow> valid (snd (pop q))"
begin

lemma push_items: "valid q \<Longrightarrow> items (push x q) = take cap (items q @ [x])"
  using items_cap [of q] push_room [of q x] push_full [of q x]
  by (cases "length (items q) < cap") auto

lemma push_many:
  "valid q \<Longrightarrow> valid (fold push xs q) \<and> items (fold push xs q) = take cap (items q @ xs)"
proof (induction xs arbitrary: q)
  case (Cons x xs)
  have "take cap (take cap (items q @ [x]) @ xs) = take cap (items q @ x # xs)"
    by (cases "length (items q) < cap") (auto simp: take_Cons' min_def)
  then show ?case
    using Cons.IH [OF push_valid [OF Cons.prems]] by (simp add: push_items [OF Cons.prems])
qed (use items_cap in auto)

lemma pop_sign: "valid q \<Longrightarrow> fst (pop q) < 0 \<longleftrightarrow> items q = []"
  using pop_empty [of q] pop_item [of q] by (cases "items q") auto

lemma pop_push_empty: "valid q \<Longrightarrow> items q = [] \<Longrightarrow> 0 < cap \<Longrightarrow> fst (pop (push x q)) = uint x"
  using pop_item [OF push_valid, of q x x "[]"] push_room [of q x] by simp

end

section \<open>The ring buffer is a bounded queue\<close>

definition kbd_inv :: "kbd \<Rightarrow> bool" where
  "kbd_inv s \<longleftrightarrow> kbd_head s < KBD_BUF_SIZE \<and> kbd_tail s < KBD_BUF_SIZE"

definition kbd_count :: "kbd \<Rightarrow> nat" where
  "kbd_count s =
     (if unat (kbd_tail s) \<le> unat (kbd_head s) then unat (kbd_head s) - unat (kbd_tail s)
      else unat (kbd_head s) + 128 - unat (kbd_tail s))"

definition kbd_items :: "kbd \<Rightarrow> u8 list" where
  "kbd_items s = List.map (\<lambda>i. kbd_buf s ((unat (kbd_tail s) + i) mod 128)) [0..<kbd_count s]"

lemma unat_next_slot: "unat ((w + 1) mod 128 :: u32) = (unat w + 1) mod 128"
proof -
  have "unat ((w + 1) mod 128) = (unat w + 1) mod 4294967296 mod 128"
    by (simp add: unat_mod unat_word_ariths)
  also have "\<dots> = (unat w + 1) mod 128"
    by (rule mod_mod_cancel) simp
  finally show ?thesis .
qed

lemma kbd_inv_nat: "kbd_inv s \<Longrightarrow> unat (kbd_head s) < 128 \<and> unat (kbd_tail s) < 128"
  by (simp add: kbd_inv_def word_less_nat_alt)

lemma next_slot: "h < 128 \<Longrightarrow> (h + 1) mod 128 = (if h = 127 then 0 else h + 1 :: nat)"
  by auto

lemma kbd_count_lt: "kbd_inv s \<Longrightarrow> kbd_count s < 128"
  using kbd_inv_nat [of s] by (auto simp: kbd_count_def)

lemma kbd_empty_iff: "kbd_inv s \<Longrightarrow> kbd_count s = 0 \<longleftrightarrow> kbd_tail s = kbd_head s"
  using kbd_inv_nat [of s] by (auto simp: kbd_count_def unat_eq_iff)

lemma kbd_full_iff: "kbd_inv s \<Longrightarrow> (kbd_head s + 1) mod 128 = kbd_tail s \<longleftrightarrow> kbd_count s = 127"
  using kbd_inv_nat [of s]
  by (simp only: unat_eq_iff [of "(kbd_head s + 1) mod 128"] unat_next_slot next_slot)
    (auto simp: kbd_count_def)

lemma kbd_slot: "kbd_inv s \<Longrightarrow> i < 128 \<Longrightarrow>
    (unat (kbd_tail s) + i) mod 128 =
      (if unat (kbd_tail s) + i < 128 then unat (kbd_tail s) + i else unat (kbd_tail s) + i - 128)"
  using kbd_inv_nat [of s] by (auto simp: le_mod_geq not_less)

lemma next_slot_lt: "(w + 1) mod 128 < (128 :: u32)"
  by (simp add: word_less_nat_alt unat_mod)

lemma push_inv: "kbd_inv s \<Longrightarrow> kbd_inv (kbd_buffer_push c s)"
  by (simp add: kbd_inv_def kbd_buffer_push_def Let_def next_slot_lt)

lemma getchar_inv: "kbd_inv s \<Longrightarrow> kbd_inv (snd (kbd_getchar s))"
  by (simp add: kbd_inv_def kbd_getchar_def next_slot_lt)

lemma push_kbd_items:
  assumes inv: "kbd_inv s" and room: "kbd_count s < 127"
  shows "kbd_items (kbd_buffer_push c s) = kbd_items s @ [c]"
proof -
  let ?s = "kbd_buffer_push c s"
  have push: "?s = s\<lparr>kbd_buf := (kbd_buf s)(unat (kbd_head s) := c), kbd_head := (kbd_head s + 1) mod 128\<rparr>"
    using kbd_full_iff [OF inv] room by (simp add: kbd_buffer_push_def Let_def)
  have head: "unat (kbd_head ?s) = (if unat (kbd_head s) = 127 then 0 else unat (kbd_head s) + 1)"
    using kbd_inv_nat [OF inv] by (simp add: push unat_next_slot next_slot)
  have tail: "kbd_tail ?s = kbd_tail s" by (simp add: push)
  have cnt: "kbd_count ?s = Suc (kbd_count s)"
    using kbd_inv_nat [OF inv] room unfolding kbd_count_def tail head by auto
  have last: "(unat (kbd_tail s) + kbd_count s) mod 128 = unat (kbd_head s)"
    using kbd_inv_nat [OF inv] room kbd_slot [OF inv, of "kbd_count s"] by (auto simp: kbd_count_def)
  have "kbd_buf ?s ((unat (kbd_tail s) + i) mod 128) = kbd_buf s ((unat (kbd_tail s) + i) mod 128)"
    if "i < kbd_count s" for i
  proof -
    have "(unat (kbd_tail s) + i) mod 128 \<noteq> unat (kbd_head s)"
      using that kbd_inv_nat [OF inv] room kbd_slot [OF inv, of i]
      by (auto simp: kbd_count_def split: if_splits)
    then show ?thesis by (simp add: push)
  qed
  then show ?thesis
    by (simp add: kbd_items_def cnt tail last) (simp add: push)
qed

lemma getchar_kbd_items:
  assumes inv: "kbd_inv s" and items: "kbd_items s = x # xs"
  shows "fst (kbd_getchar s) = uint x \<and> kbd_items (snd (kbd_getchar s)) = xs"
proof -
  let ?t = "snd (kbd_getchar s)"
  have pos: "0 < kbd_count s" using items by (cases "kbd_count s") (simp_all add: kbd_items_def)
  then have get: "kbd_getchar s = (uint (kbd_buf s (unat (kbd_tail s))),
      s\<lparr>kbd_tail := (kbd_tail s + 1) mod 128\<rparr>)"
    using kbd_empty_iff [OF inv] by (simp add: kbd_getchar_def)
  have tail: "unat (kbd_tail ?t) = (if unat (kbd_tail s) = 127 then 0 else unat (kbd_tail s) + 1)"
    using kbd_inv_nat [OF inv] by (simp add: get unat_next_slot next_slot)
  have cnt: "kbd_count s = Suc (kbd_count ?t)"
    using kbd_inv_nat [OF inv] pos unfolding kbd_count_def tail by (auto simp: get)
  have slot: "(unat (kbd_tail ?t) + i) mod 128 = (unat (kbd_tail s) + Suc i) mod 128" for i
    by (simp add: get unat_next_slot mod_simps)
  have "kbd_items s = kbd_buf s (unat (kbd_tail s)) # kbd_items ?t"
    using kbd_inv_nat [OF inv]
    by (simp add: kbd_items_def cnt slot map_upt_Suc del: upt_Suc) (simp add: get)
  then show ?thesis using items by (simp add: get)
qed

interpretation ring: bounded_queue kbd_buffer_push kbd_getchar kbd_items 127 kbd_inv
proof
  fix q :: kbd and x :: u8 and xs :: "u8 list"
  assume inv: "kbd_inv q"
  show "length (kbd_items q) \<le> 127"
    using kbd_count_lt [OF inv] by (simp add: kbd_items_def)
  show "kbd_items (kbd_buffer_push x q) = kbd_items q @ [x]" if "length (kbd_items q) < 127"
    using push_kbd_items [OF inv] that by (simp add: kbd_items_def)
  show "kbd_buffer_push x q = q" if "length (kbd_items q) = 127"
    using kbd_full_iff [OF inv] that by (simp add: kbd_items_def kbd_buffer_push_def Let_def)
  show "kbd_inv (kbd_buffer_push x q)" using inv by (rule push_inv)
  show "kbd_getchar q = (-1, q)" if "kbd_items q = []"
    using kbd_empty_iff [OF inv] that by (simp add: kbd_items_def kbd_getchar_def)
  show "fst (kbd_getchar q) = uint x \<and> kbd_items (snd (kbd_getchar q)) = xs"
    if "kbd_items q = x # xs" using getchar_kbd_items [OF inv that] .
  show "kbd_inv (snd (kbd_getchar q))" using inv by (rule getchar_inv)
qed

section \<open>Properties\<close>

text \<open>
  C24. The ring buffer is a first-in first-out queue of 127 characters: after any run of key
  presses it holds the first 127 of what it held and what was pushed, later characters being
  dropped, and \<open>kbd_getchar\<close> takes the oldest one out, or answers -1 exactly when it is empty.
\<close>

theorem kbd_buffer_is_fifo:
  assumes "kbd_inv s"
  shows "kbd_items (fold kbd_buffer_push cs s) = take 127 (kbd_items s @ cs)
    \<and> (case kbd_items s of
          [] \<Rightarrow> kbd_getchar s = (-1, s)
        | x # xs \<Rightarrow> fst (kbd_getchar s) = uint x \<and> kbd_items (snd (kbd_getchar s)) = xs)"
  using ring.push_many [OF assms, of cs] ring.pop_empty [OF assms] ring.pop_item [OF assms]
  by (cases "kbd_items s") auto

lemma kbd_buffer_is_fifo_witness:
  "kbd_items (fold kbd_buffer_push [104, 105]
     \<lparr>g_shift = False, kbd_buf = (\<lambda>_. 0), kbd_head = 127, kbd_tail = 127\<rparr>) = [104, 105]"
proof -
  let ?s = "\<lparr>g_shift = False, kbd_buf = (\<lambda>_. 0), kbd_head = 127, kbd_tail = 127\<rparr>"
  have "kbd_inv ?s" by (simp add: kbd_inv_def)
  moreover have "kbd_items ?s = []" by (simp add: kbd_items_def kbd_count_def)
  ultimately show ?thesis using kbd_buffer_is_fifo [of ?s "[104, 105]"] by simp
qed

text \<open>
  Scancode translation: a key release (bit 7 set) never yields a character, pressing shift
  sets the shift state and releasing it clears it, no other code touches it, every lookup stays
  inside the 128-entry tables, and no result is the DEL code.
\<close>

lemma scancode_translation:
  "(if 128 \<le> unat sc then fst (kbd_handle_scancode sc s) = 0
    else unat sc < length map_lower \<and> unat sc < length map_upper)
   \<and> fst (kbd_handle_scancode sc s) \<noteq> 0x7F
   \<and> g_shift (snd (kbd_handle_scancode sc s)) =
       (if sc = 0x2A \<or> sc = 0x36 then True
        else if sc = 0xAA \<or> sc = 0xB6 then False else g_shift s)"
proof -
  have m7: "(0x7F :: u8) = mask 7" by (simp add: mask_eq_decr_exp)
  have code: "unat (sc AND 0x7F) = unat sc mod 128"
    unfolding m7 by (simp only: take_bit_eq_mask [symmetric] unsigned_take_bit_eq)
      (simp add: take_bit_eq_mod)
  have "bit sc 7 \<longleftrightarrow> odd (unat sc div 128)"
    using bit_unsigned_iff [of sc 7, where ?'a = nat]
    by (simp add: bit_iff_odd possible_bit_def)
  also have "\<dots> \<longleftrightarrow> 128 \<le> unat sc"
  proof (cases "128 \<le> unat sc")
    case True
    then have "unat sc div 128 = 1" using unat_u8_lt [of sc] by (intro div_nat_eqI) simp_all
    then show ?thesis using True by simp
  qed simp
  finally have rel: "sc AND 0x80 \<noteq> 0 \<longleftrightarrow> 128 \<le> unat sc"
    using and_push_bit_1 [of sc 7] by simp
  show ?thesis
  proof (cases "128 \<le> unat sc")
    case True
    have "unat sc mod 128 = unat sc - 128"
    proof -
      have "unat sc - 128 < 128" using unat_u8_lt [of sc] by linarith
      then show ?thesis using True by (subst le_mod_geq) simp_all
    qed
    then have "sc AND 0x7F = 0x2A \<longleftrightarrow> sc = 0xAA" and "sc AND 0x7F = 0x36 \<longleftrightarrow> sc = 0xB6"
      using True by (auto simp: unat_eq_iff code)
    moreover have "sc \<noteq> 0x2A" "sc \<noteq> 0x36" using True by auto
    ultimately show ?thesis
      using True rel by (simp add: kbd_handle_scancode_def Let_def)
  next
    case False
    then have "sc \<noteq> 0xAA" "sc \<noteq> 0xB6" by auto
    then show ?thesis
      using False rel by (simp add: kbd_handle_scancode_def Let_def map_lower_def map_upper_def)
  qed
qed

end
