(* ===== verification/Term.thy ===== *)
theory Term
  imports Hrafn_Prelude
begin

text \<open>
  The terminal emulator (kernel/term.cpp): a grid of 20 rows of 64 characters, a cursor, and the
  escape-sequence state machine that \<^verbatim>\<open>term_putchar\<close> runs on every byte a program writes. The grid
  is a function of row and column; the lemmas show that no byte sequence moves the cursor or a
  store out of it. \<^verbatim>\<open>term_render\<close> is in theory \<^verbatim>\<open>Window\<close>.
\<close>

section \<open>State and operations\<close>

abbreviation TERM_COLS :: int where "TERM_COLS \<equiv> 64"
abbreviation TERM_ROWS :: int where "TERM_ROWS \<equiv> 20"

datatype tstate = ST_NORMAL | ST_ESC | ST_CSI

record trm =
  g_grid :: "int \<Rightarrow> int \<Rightarrow> u8"
  g_col :: int
  g_row :: int
  g_state :: tstate
  g_param :: u32
  g_have_param :: bool

definition blank :: u8 where
  "blank = 32"

text \<open>The two nested loops that store a blank in every cell.\<close>

definition clear_grid :: "(int \<Rightarrow> int \<Rightarrow> u8) \<Rightarrow> int \<Rightarrow> int \<Rightarrow> u8" where
  "clear_grid g = (\<lambda>r c. if 0 \<le> r \<and> r < TERM_ROWS \<and> 0 \<le> c \<and> c < TERM_COLS then blank else g r c)"

definition term_init :: "trm \<Rightarrow> trm" where
  "term_init t = t\<lparr>g_grid := clear_grid (g_grid t), g_col := 0, g_row := 0\<rparr>"

definition term_clear :: "trm \<Rightarrow> trm" where
  "term_clear t = t\<lparr>g_grid := clear_grid (g_grid t), g_col := 0, g_row := 0\<rparr>"

text \<open>Shift every row up by one and blank the last: the loops of the scrolling branch.\<close>

definition scroll_grid :: "(int \<Rightarrow> int \<Rightarrow> u8) \<Rightarrow> int \<Rightarrow> int \<Rightarrow> u8" where
  "scroll_grid g = (\<lambda>r c. if 0 \<le> c \<and> c < TERM_COLS
     then (if 0 \<le> r \<and> r < TERM_ROWS - 1 then g (r + 1) c
           else if r = TERM_ROWS - 1 then blank else g r c)
     else g r c)"

definition term_newline :: "trm \<Rightarrow> trm" where
  "term_newline t =
     (let t1 = t\<lparr>g_col := 0\<rparr>
      in if g_row t1 + 1 \<ge> TERM_ROWS then t1\<lparr>g_grid := scroll_grid (g_grid t1)\<rparr>
         else t1\<lparr>g_row := g_row t1 + 1\<rparr>)"

definition set_cell :: "u8 \<Rightarrow> trm \<Rightarrow> trm" where
  "set_cell c t = t\<lparr>g_grid := (g_grid t)(g_row t := (g_grid t (g_row t))(g_col t := c))\<rparr>"

text \<open>The tab loop \<^verbatim>\<open>while (g_col < n && g_col < TERM_COLS) g_grid[g_row][g_col++] = ' ';\<close>\<close>

function term_tab :: "int \<Rightarrow> trm \<Rightarrow> trm" where
  "term_tab n t =
     (if g_col t < n \<and> g_col t < TERM_COLS
      then term_tab n ((set_cell blank t)\<lparr>g_col := g_col t + 1\<rparr>) else t)"
  by pat_completeness auto
termination
  by (relation "measure (\<lambda>(n, t). nat (n - g_col t))") auto

declare term_tab.simps [simp del]

definition tab_stop :: "int \<Rightarrow> int" where
  "tab_stop col = (col + 8) AND NOT 7"

definition advance :: "trm \<Rightarrow> trm" where
  "advance t = (let t1 = t\<lparr>g_col := g_col t + 1\<rparr>
                in if g_col t1 \<ge> TERM_COLS then term_newline t1 else t1)"

text \<open>A \<^verbatim>\<open>char\<close> is signed on this target: the digit test compares it as an \<^verbatim>\<open>int\<close>.\<close>

definition term_csi :: "u8 \<Rightarrow> trm \<Rightarrow> trm" where
  "term_csi c t =
     (if 48 \<le> sint c \<and> sint c \<le> 57
      then t\<lparr>g_param := g_param t * 10 + ucast (c - 48), g_have_param := True\<rparr>
      else (let t1 = (if c = 74 then (if \<not> g_have_param t \<or> g_param t = 2 then term_clear t else t)
                      else if c = 72 then t\<lparr>g_col := 0, g_row := 0\<rparr> else t)
            in t1\<lparr>g_state := ST_NORMAL\<rparr>))"

definition term_putchar :: "u8 \<Rightarrow> trm \<Rightarrow> trm" where
  "term_putchar c t =
     (case g_state t of
        ST_ESC \<Rightarrow>
          if c = 91 then t\<lparr>g_state := ST_CSI, g_param := 0, g_have_param := False\<rparr>
          else t\<lparr>g_state := ST_NORMAL\<rparr>
      | ST_CSI \<Rightarrow> term_csi c t
      | ST_NORMAL \<Rightarrow>
          if c = 27 then t\<lparr>g_state := ST_ESC\<rparr>
          else if c = 10 then term_newline t
          else if c = 13 then t\<lparr>g_col := 0\<rparr>
          else if c = 8 then (if g_col t > 0 then set_cell blank (t\<lparr>g_col := g_col t - 1\<rparr>) else t)
          else if c = 9 then (let t1 = term_tab (tab_stop (g_col t)) t
                              in if g_col t1 \<ge> TERM_COLS then term_newline t1 else t1)
          else if unat c < 0x20 \<or> unat c > 0x7E then t
          else advance (set_cell c t))"

text \<open>What \<^verbatim>\<open>SYS_WRITE\<close> to the terminal does with its buffer.\<close>

definition term_write :: "u8 list \<Rightarrow> trm \<Rightarrow> trm" where
  "term_write cs t = fold term_putchar cs t"

section \<open>The cursor stays in the grid\<close>

definition term_inv :: "trm \<Rightarrow> bool" where
  "term_inv t \<longleftrightarrow> 0 \<le> g_col t \<and> g_col t < TERM_COLS \<and> 0 \<le> g_row t \<and> g_row t < TERM_ROWS"

text \<open>Cells outside the array: no operation may change them.\<close>

definition same_outside :: "trm \<Rightarrow> trm \<Rightarrow> bool" where
  "same_outside t t' \<longleftrightarrow>
     (\<forall>r c. 0 \<le> r \<and> r < TERM_ROWS \<and> 0 \<le> c \<and> c < TERM_COLS \<or> g_grid t' r c = g_grid t r c)"

lemma same_outside_refl [simp]: "same_outside t t"
  by (simp add: same_outside_def)

lemma same_outside_trans: "same_outside t u \<Longrightarrow> same_outside u v \<Longrightarrow> same_outside t v"
  unfolding same_outside_def by metis

lemma same_outside_grid: "g_grid t' = g_grid t \<Longrightarrow> same_outside t t'"
  by (simp add: same_outside_def)

lemma set_cell_simps [simp]:
  "g_col (set_cell c t) = g_col t" "g_row (set_cell c t) = g_row t"
  "g_state (set_cell c t) = g_state t"
  "g_grid (set_cell c t) r k = (if r = g_row t \<and> k = g_col t then c else g_grid t r k)"
  by (simp_all add: set_cell_def)

lemma newline_inv: "0 \<le> g_row t \<Longrightarrow> g_row t < TERM_ROWS \<Longrightarrow>
    term_inv (term_newline t) \<and> same_outside t (term_newline t)"
  by (auto simp: term_newline_def term_inv_def same_outside_def scroll_grid_def Let_def)

lemma term_tab_spec:
  "0 \<le> g_col t \<Longrightarrow> 0 \<le> g_row t \<Longrightarrow> g_row t < TERM_ROWS \<Longrightarrow> g_col t \<le> TERM_COLS \<Longrightarrow>
     g_col (term_tab n t) = max (g_col t) (min n TERM_COLS) \<and> g_row (term_tab n t) = g_row t
     \<and> same_outside t (term_tab n t) \<and> g_state (term_tab n t) = g_state t"
proof (induction n t rule: term_tab.induct)
  case (1 n t)
  show ?case
  proof (cases "g_col t < n \<and> g_col t < TERM_COLS")
    case True
    let ?t = "(set_cell blank t)\<lparr>g_col := g_col t + 1\<rparr>"
    have "same_outside t ?t" using 1(2-4) True by (auto simp: same_outside_def)
    then show ?thesis
      using 1(1) [OF True] 1(2-5) True same_outside_trans
      by (auto simp: term_tab.simps [of n t])
  next
    case False
    then show ?thesis using 1(5) by (auto simp: term_tab.simps [of n t])
  qed
qed

lemma term_clear_inv: "term_inv (term_clear t) \<and> same_outside t (term_clear t)"
  by (auto simp: term_clear_def term_inv_def same_outside_def clear_grid_def)

lemma term_csi_inv: "term_inv t \<Longrightarrow> term_inv (term_csi c t) \<and> same_outside t (term_csi c t)"
  using term_clear_inv [of t]
  by (auto simp: term_csi_def term_inv_def same_outside_def Let_def)

lemma term_putchar_inv:
  assumes inv: "term_inv t"
  shows "term_inv (term_putchar c t) \<and> same_outside t (term_putchar c t)"
proof -
  have pos: "0 \<le> g_col t" "g_col t \<le> TERM_COLS" "0 \<le> g_row t" "g_row t < TERM_ROWS" "g_col t < TERM_COLS"
    using inv by (auto simp: term_inv_def)
  note tab = term_tab_spec [OF pos(1,3,4,2), of "tab_stop (g_col t)"]
  have tabbed: "let t1 = term_tab (tab_stop (g_col t)) t
     in term_inv (if g_col t1 \<ge> TERM_COLS then term_newline t1 else t1)
        \<and> same_outside t (if g_col t1 \<ge> TERM_COLS then term_newline t1 else t1)"
    using tab pos newline_inv [of "term_tab (tab_stop (g_col t)) t"] same_outside_trans
    by (auto simp: Let_def term_inv_def)
  have adv: "term_inv (advance (set_cell c t)) \<and> same_outside t (advance (set_cell c t))"
  proof -
    let ?t = "(set_cell c t)\<lparr>g_col := g_col t + 1\<rparr>"
    have "same_outside t ?t" using pos by (auto simp: same_outside_def)
    moreover have "same_outside ?t (term_newline ?t)" "term_inv (term_newline ?t)"
      using newline_inv [of ?t] pos by auto
    ultimately show ?thesis
      using pos same_outside_trans by (auto simp: advance_def Let_def term_inv_def)
  qed
  have erase: "0 < g_col t \<Longrightarrow> term_inv (set_cell blank (t\<lparr>g_col := g_col t - 1\<rparr>))
      \<and> same_outside t (set_cell blank (t\<lparr>g_col := g_col t - 1\<rparr>))"
    using pos by (auto simp: term_inv_def same_outside_def)
  have upd: "term_inv (t\<lparr>g_state := x, g_param := y, g_have_param := z\<rparr>)" "term_inv (t\<lparr>g_state := x\<rparr>)"
    "term_inv (t\<lparr>g_col := 0\<rparr>)" for x y z
    using pos by (auto simp: term_inv_def)
  show ?thesis
  proof (cases "g_state t")
    case ST_NORMAL
    then show ?thesis
      using inv pos newline_inv [of t] tabbed adv erase upd
      by (auto simp: term_putchar_def Let_def same_outside_grid)
  next
    case ST_ESC
    then show ?thesis using upd by (auto simp: term_putchar_def same_outside_grid)
  next
    case ST_CSI
    then show ?thesis using term_csi_inv [OF inv] by (simp add: term_putchar_def)
  qed
qed

lemma term_write_inv: "term_inv t \<Longrightarrow> term_inv (term_write cs t) \<and> same_outside t (term_write cs t)"
proof (induction cs arbitrary: t)
  case (Cons c cs)
  then show ?case
    using term_putchar_inv [OF Cons.prems, of c] same_outside_trans
    by (auto simp: term_write_def)
qed (auto simp: term_write_def)

section \<open>Properties\<close>

text \<open>
  C25. Whatever bytes programs write, from a cursor inside the 64 by 20 grid the cursor stays inside
  it and no store outside the grid happens: not by printing, backspace, tab, scrolling or any
  escape sequence, complete or not.
\<close>

theorem term_write_stays_in_grid:
  assumes "term_inv t"
  shows "0 \<le> g_col (term_write cs t) \<and> g_col (term_write cs t) < 64
    \<and> 0 \<le> g_row (term_write cs t) \<and> g_row (term_write cs t) < 20
    \<and> (if 0 \<le> r \<and> r < 20 \<and> 0 \<le> c \<and> c < 64 then True
       else g_grid (term_write cs t) r c = g_grid t r c)"
  using term_write_inv [OF assms, of cs] by (auto simp: term_inv_def same_outside_def)

definition blank_term :: trm where
  "blank_term = \<lparr>g_grid = (\<lambda>_ _. 0), g_col = 63, g_row = 19, g_state = ST_NORMAL, g_param = 0,
                 g_have_param = False\<rparr>"

lemma term_write_stays_in_grid_witness:
  "g_col (term_write [65, 9, 27, 91, 72, 8] blank_term) < 64"
  using term_write_stays_in_grid [of blank_term "[65, 9, 27, 91, 72, 8]" 0 0]
  by (simp add: term_inv_def blank_term_def)

lemma print_one:
  assumes "g_state t = ST_NORMAL" and "32 \<le> unat c" and "unat c \<le> 126" and "g_col t + 1 < 64"
  shows "term_putchar c t = (set_cell c t)\<lparr>g_col := g_col t + 1\<rparr>"
proof -
  have "c \<noteq> 27" "c \<noteq> 10" "c \<noteq> 13" "c \<noteq> 8" "c \<noteq> 9" using assms(2) by auto
  then show ?thesis using assms by (simp add: term_putchar_def advance_def Let_def)
qed

text \<open>
  Printable text that fits into the current line is stored in the cells from the cursor on, in
  order, the cursor ends right behind it on the same line, and no other cell changes.
\<close>

lemma term_write_prints_text:
  assumes "term_inv t" and "g_state t = ST_NORMAL"
    and "\<forall>c \<in> set cs. 32 \<le> unat c \<and> unat c \<le> 126"
    and "g_col t + int (length cs) < 64"
  shows "g_col (term_write cs t) = g_col t + int (length cs) \<and> g_row (term_write cs t) = g_row t
    \<and> g_grid (term_write cs t) r k =
        (if r = g_row t \<and> g_col t \<le> k \<and> k < g_col t + int (length cs)
         then cs ! nat (k - g_col t) else g_grid t r k)"
  using assms
proof (induction cs arbitrary: t)
  case (Cons c cs)
  let ?t = "(set_cell c t)\<lparr>g_col := g_col t + 1\<rparr>"
  have one: "term_putchar c t = ?t" using Cons.prems by (intro print_one) auto
  have "term_inv ?t" using Cons.prems by (auto simp: term_inv_def)
  then have IH: "g_col (term_write cs ?t) = g_col ?t + int (length cs)
      \<and> g_row (term_write cs ?t) = g_row ?t
      \<and> g_grid (term_write cs ?t) r k =
        (if r = g_row ?t \<and> g_col ?t \<le> k \<and> k < g_col ?t + int (length cs)
         then cs ! nat (k - g_col ?t) else g_grid ?t r k)"
    using Cons.prems by (intro Cons.IH) auto
  have w: "term_write (c # cs) t = term_write cs ?t" by (simp add: term_write_def one)
  have nth: "g_col t + 1 \<le> k \<Longrightarrow> (c # cs) ! nat (k - g_col t) = cs ! nat (k - (g_col t + 1))"
  proof -
    assume "g_col t + 1 \<le> k"
    then have "nat (k - g_col t) = Suc (nat (k - (g_col t + 1)))"
      by (simp add: Suc_nat_eq_nat_zadd1)
    then show ?thesis by simp
  qed
  show ?case
    unfolding w using IH nth by auto
qed (auto simp: term_write_def)

lemma term_write_prints_text_witness:
  "g_grid (term_write [104, 105] (term_init blank_term)) 0 1 = 105"
  using term_write_prints_text [of "term_init blank_term" "[104, 105]" 0 1]
  by (simp add: term_inv_def term_init_def blank_term_def)

text \<open>
  The sequence the \<^verbatim>\<open>clear\<close> command writes (ESC [ 2 J ESC [ H) blanks every cell of the grid and
  puts the cursor in the top left corner, from whatever terminal state outside an escape
  sequence; a pending parameter such as \<open>ESC [ 5 J\<close> clears nothing.
\<close>

lemma term_clear_sequence:
  assumes "g_state t = ST_NORMAL"
  shows "(let t' = term_write [27, 91, 50, 74, 27, 91, 72] t
          in g_grid t' = clear_grid (g_grid t) \<and> g_col t' = 0 \<and> g_row t' = 0 \<and> g_state t' = ST_NORMAL)
    \<and> g_grid (term_write [27, 91, 53, 74] t) = g_grid t"
  using assms
  by (simp add: term_write_def term_putchar_def term_csi_def term_clear_def Let_def)

lemma term_clear_sequence_witness:
  "g_grid (term_write [27, 91, 50, 74, 27, 91, 72] blank_term) 3 4 = blank"
  using term_clear_sequence [of blank_term]
  by (simp add: blank_term_def clear_grid_def Let_def)

end
