(* ===== verification/Munin.thy ===== *)
theory Munin
  imports Bitmap
begin

text \<open>
  The file system of munin.cpp, first part: the inode table, the block region and its bitmap, the
  two allocators, \<^verbatim>\<open>block_for\<close> and \<^verbatim>\<open>free_inode_blocks\<close>. An inode reaches its blocks through eight
  direct pointers and one indirect block of 128 pointers; \<open>ptr\<close> is the table of all those pointers,
  and \<open>blk_inv\<close> says that the bitmap records exactly the blocks the table names, each named once.
  \<open>same_but i\<close> is the frame condition of an operation on inode \<open>i\<close>.
\<close>

section \<open>The region\<close>

abbreviation NO_BLOCK :: u32 where "NO_BLOCK \<equiv> 0xFFFFFFFF"
abbreviation (input) INODE_FREE :: u8 where "INODE_FREE \<equiv> 0"
abbreviation (input) INODE_FILE :: u8 where "INODE_FILE \<equiv> 1"
abbreviation (input) INODE_DIR :: u8 where "INODE_DIR \<equiv> 2"

record inode =
  itype :: u8
  isize :: u32
  iblocks :: "nat \<Rightarrow> u32"
  iindirect :: u32

record munin =
  g_inodes :: "nat \<Rightarrow> inode"
  g_blocks :: "nat \<Rightarrow> nat \<Rightarrow> u8"
  g_block_used :: "nat \<Rightarrow> u8"

definition upd_inode :: "nat \<Rightarrow> (inode \<Rightarrow> inode) \<Rightarrow> munin \<Rightarrow> munin" where
  "upd_inode i f s = s\<lparr>g_inodes := (g_inodes s)(i := f (g_inodes s i))\<rparr>"

definition upd_block :: "nat \<Rightarrow> ((nat \<Rightarrow> u8) \<Rightarrow> (nat \<Rightarrow> u8)) \<Rightarrow> munin \<Rightarrow> munin" where
  "upd_block blk f s = s\<lparr>g_blocks := (g_blocks s)(blk := f (g_blocks s blk))\<rparr>"

lemma upd_inode_sel [simp]:
  "g_inodes (upd_inode i f s) = (g_inodes s)(i := f (g_inodes s i))"
  "g_blocks (upd_inode i f s) = g_blocks s"
  "g_block_used (upd_inode i f s) = g_block_used s"
  by (simp_all add: upd_inode_def)

lemma upd_block_sel [simp]:
  "g_inodes (upd_block blk f s) = g_inodes s"
  "g_blocks (upd_block blk f s) = (g_blocks s)(blk := f (g_blocks s blk))"
  "g_block_used (upd_block blk f s) = g_block_used s"
  by (simp_all add: upd_block_def)

section \<open>Allocators\<close>

definition alloc_block :: "munin \<Rightarrow> int \<times> munin" where
  "alloc_block s = (case first_clear (g_block_used s) 0 512 of
       Some i \<Rightarrow> (int i, s\<lparr>g_block_used := bitmap_set (g_block_used s) i\<rparr>)
     | None \<Rightarrow> (- 1, s))"

definition free_block :: "nat \<Rightarrow> munin \<Rightarrow> munin" where
  "free_block blk s = s\<lparr>g_block_used := bitmap_clear (g_block_used s) blk\<rparr>"

definition new_inode :: "u8 \<Rightarrow> inode \<Rightarrow> inode" where
  "new_inode ty f = f\<lparr>itype := ty, isize := 0,
     iblocks := (\<lambda>b. if b < 8 then NO_BLOCK else iblocks f b), iindirect := NO_BLOCK\<rparr>"

definition alloc_inode :: "u8 \<Rightarrow> munin \<Rightarrow> int \<times> munin" where
  "alloc_inode ty s = (case find (\<lambda>i. itype (g_inodes s i) = INODE_FREE) [0..<128] of
       Some i \<Rightarrow> (int i, upd_inode i (new_inode ty) s)
     | None \<Rightarrow> (- 1, s))"

section \<open>The block map of an inode\<close>

definition zero_block :: "nat \<Rightarrow> munin \<Rightarrow> munin" where
  "zero_block blk s = upd_block blk (\<lambda>z. fill z 0 0 512) s"

primrec fill_ptrs :: "(nat \<Rightarrow> u8) \<Rightarrow> nat \<Rightarrow> (nat \<Rightarrow> u8)" where
  "fill_ptrs f 0 = f"
| "fill_ptrs f (Suc n) = put32 (fill_ptrs f n) (4 * n) NO_BLOCK"

definition fresh_block :: "munin \<Rightarrow> u32 \<times> munin" where
  "fresh_block s = (let (blk, s1) = alloc_block s in
     if blk < 0 then (NO_BLOCK, s1) else (word_of_int blk, zero_block (nat blk) s1))"

definition fresh_indirect :: "munin \<Rightarrow> u32 \<times> munin" where
  "fresh_indirect s = (let (ib, s1) = alloc_block s in
     if ib < 0 then (NO_BLOCK, s1)
     else (word_of_int ib, upd_block (nat ib) (\<lambda>ip. fill_ptrs ip 128) s1))"

definition block_for_direct :: "munin \<Rightarrow> nat \<Rightarrow> nat \<Rightarrow> bool \<Rightarrow> u32 \<times> munin" where
  "block_for_direct s i b alloc =
     (if iblocks (g_inodes s i) b = NO_BLOCK then
        (if \<not> alloc then (NO_BLOCK, s)
         else let (blk, s1) = fresh_block s in
           if blk = NO_BLOCK then (NO_BLOCK, s1)
           else (blk, upd_inode i (\<lambda>f. f\<lparr>iblocks := (iblocks f)(b := blk)\<rparr>) s1))
      else (iblocks (g_inodes s i) b, s))"

definition ensure_indirect :: "munin \<Rightarrow> nat \<Rightarrow> bool \<Rightarrow> bool \<times> munin" where
  "ensure_indirect s i alloc =
     (if iindirect (g_inodes s i) = NO_BLOCK then
        (if \<not> alloc then (False, s)
         else let (ib, s1) = fresh_indirect s in
           if ib = NO_BLOCK then (False, s1)
           else (True, upd_inode i (\<lambda>f. f\<lparr>iindirect := ib\<rparr>) s1))
      else (True, s))"

definition block_for_ptr :: "munin \<Rightarrow> nat \<Rightarrow> nat \<Rightarrow> bool \<Rightarrow> u32 \<times> munin" where
  "block_for_ptr s i idx alloc =
     (let ib = unat (iindirect (g_inodes s i)); w = get32 (g_blocks s ib) (4 * idx) in
      if w = NO_BLOCK then
        (if \<not> alloc then (NO_BLOCK, s)
         else let (blk, s1) = fresh_block s in
           if blk = NO_BLOCK then (NO_BLOCK, s1)
           else (blk, upd_block ib (\<lambda>ip. put32 ip (4 * idx) blk) s1))
      else (w, s))"

definition block_for :: "munin \<Rightarrow> nat \<Rightarrow> int \<Rightarrow> bool \<Rightarrow> u32 \<times> munin" where
  "block_for s i b alloc =
     (if b < 0 \<or> b \<ge> 136 then (NO_BLOCK, s)
      else if b < 8 then block_for_direct s i (nat b) alloc
      else let (ok, s1) = ensure_indirect s i alloc in
        if \<not> ok then (NO_BLOCK, s1) else block_for_ptr s1 i (nat b - 8) alloc)"

definition free_direct :: "nat \<Rightarrow> nat \<Rightarrow> munin \<Rightarrow> munin" where
  "free_direct i b s =
     (if iblocks (g_inodes s i) b \<noteq> NO_BLOCK
      then upd_inode i (\<lambda>f. f\<lparr>iblocks := (iblocks f)(b := NO_BLOCK)\<rparr>)
             (free_block (unat (iblocks (g_inodes s i) b)) s)
      else s)"

definition free_ptr :: "nat \<Rightarrow> nat \<Rightarrow> munin \<Rightarrow> munin" where
  "free_ptr ib k s = (let w = get32 (g_blocks s ib) (4 * k) in
     if w \<noteq> NO_BLOCK then free_block (unat w) s else s)"

definition free_indirect :: "nat \<Rightarrow> munin \<Rightarrow> munin" where
  "free_indirect i s = (let w = iindirect (g_inodes s i) in
     if w \<noteq> NO_BLOCK
     then upd_inode i (\<lambda>f. f\<lparr>iindirect := NO_BLOCK\<rparr>)
            (free_block (unat w) (fold (free_ptr (unat w)) [0..<128] s))
     else s)"

definition free_inode_blocks :: "nat \<Rightarrow> munin \<Rightarrow> munin" where
  "free_inode_blocks i s =
     upd_inode i (\<lambda>f. f\<lparr>isize := 0\<rparr>) (free_indirect i (fold (free_direct i) [0..<8] s))"

definition munin_init :: "munin \<Rightarrow> munin" where
  "munin_init s =
     snd (alloc_inode INODE_DIR
       (s\<lparr>g_inodes := (\<lambda>i. if i < 128 then (g_inodes s i)\<lparr>itype := INODE_FREE\<rparr> else g_inodes s i),
          g_block_used := fill (g_block_used s) 0 0 64\<rparr>))"

section \<open>The pointer table\<close>

text \<open>
  \<open>Direct b\<close> and \<open>Ptr k\<close> hold data blocks, \<open>Indir\<close> the block of pointers. A slot of an inode that is
  not in use holds nothing.
\<close>

datatype slot = Direct nat | Indir | Ptr nat

definition live :: "munin \<Rightarrow> nat \<Rightarrow> bool" where
  "live s i \<longleftrightarrow> i < 128 \<and> itype (g_inodes s i) \<noteq> INODE_FREE"

fun islot :: "inode \<Rightarrow> (nat \<Rightarrow> nat \<Rightarrow> u8) \<Rightarrow> slot \<Rightarrow> u32" where
  "islot f bl (Direct b) = (if b < 8 then iblocks f b else NO_BLOCK)"
| "islot f bl Indir = iindirect f"
| "islot f bl (Ptr k) = (if k < 128 \<and> iindirect f \<noteq> NO_BLOCK
     then get32 (bl (unat (iindirect f))) (4 * k) else NO_BLOCK)"

definition ptr :: "munin \<Rightarrow> nat \<times> slot \<Rightarrow> u32" where
  "ptr s x = (if live s (fst x) then islot (g_inodes s (fst x)) (g_blocks s) (snd x) else NO_BLOCK)"

definition used :: "munin \<Rightarrow> nat \<Rightarrow> bool" where
  "used s blk \<longleftrightarrow> bitmap_test (g_block_used s) blk"

definition blk_inv :: "munin \<Rightarrow> bool" where
  "blk_inv s \<longleftrightarrow> (\<forall>x. ptr s x \<noteq> NO_BLOCK \<longrightarrow> unat (ptr s x) < 512)
     \<and> (\<forall>x y. ptr s x \<noteq> NO_BLOCK \<longrightarrow> ptr s x = ptr s y \<longrightarrow> x = y)
     \<and> (\<forall>blk < 512. used s blk \<longleftrightarrow> (\<exists>x. ptr s x \<noteq> NO_BLOCK \<and> unat (ptr s x) = blk))"

lemma blk_invI:
  assumes "\<And>x. ptr s x \<noteq> NO_BLOCK \<Longrightarrow> unat (ptr s x) < 512"
    and "\<And>x y. ptr s x \<noteq> NO_BLOCK \<Longrightarrow> ptr s x = ptr s y \<Longrightarrow> x = y"
    and "\<And>x. ptr s x \<noteq> NO_BLOCK \<Longrightarrow> used s (unat (ptr s x))"
    and "\<And>blk. blk < 512 \<Longrightarrow> used s blk \<Longrightarrow> \<exists>x. ptr s x \<noteq> NO_BLOCK \<and> unat (ptr s x) = blk"
  shows "blk_inv s"
  unfolding blk_inv_def by (intro conjI allI impI iffI) (use assms in blast)+

lemma ptr_bound: "blk_inv s \<Longrightarrow> ptr s x \<noteq> NO_BLOCK \<Longrightarrow> unat (ptr s x) < 512"
  unfolding blk_inv_def by (elim conjE) blast

lemma ptr_inj: "blk_inv s \<Longrightarrow> ptr s x \<noteq> NO_BLOCK \<Longrightarrow> ptr s x = ptr s y \<Longrightarrow> x = y"
  unfolding blk_inv_def by (elim conjE) blast

lemma ptr_unat_inj:
  "blk_inv s \<Longrightarrow> ptr s x \<noteq> NO_BLOCK \<Longrightarrow> unat (ptr s x) = unat (ptr s y) \<Longrightarrow> x = y"
  by (rule ptr_inj) (simp_all add: unat_eq_iff)

lemma ptr_used: "blk_inv s \<Longrightarrow> ptr s x \<noteq> NO_BLOCK \<Longrightarrow> used s (unat (ptr s x))"
  using ptr_bound [of s x] unfolding blk_inv_def by (elim conjE) blast

lemma used_ptr: "blk_inv s \<Longrightarrow> blk < 512 \<Longrightarrow> used s blk \<Longrightarrow>
    \<exists>x. ptr s x \<noteq> NO_BLOCK \<and> unat (ptr s x) = blk"
  unfolding blk_inv_def by metis

text \<open>The frame of an operation on inode \<open>i\<close>: no other inode, none of their blocks.\<close>

definition same_but :: "nat \<Rightarrow> munin \<Rightarrow> munin \<Rightarrow> bool" where
  "same_but i s s' \<longleftrightarrow> (\<forall>j. j \<noteq> i \<longrightarrow> g_inodes s' j = g_inodes s j \<and>
     (\<forall>sl. ptr s' (j, sl) = ptr s (j, sl) \<and>
       (ptr s (j, sl) \<noteq> NO_BLOCK \<longrightarrow> g_blocks s' (unat (ptr s (j, sl))) = g_blocks s (unat (ptr s (j, sl))))))"

lemma same_but_refl [simp]: "same_but i s s"
  by (simp add: same_but_def)

lemma same_but_trans: "same_but i s s' \<Longrightarrow> same_but i s' s'' \<Longrightarrow> same_but i s s''"
  unfolding same_but_def by metis

lemma same_but_parts:
  assumes "same_but i s s'" and "j \<noteq> i"
  shows same_but_inode: "g_inodes s' j = g_inodes s j"
    and same_but_ptr: "ptr s' (j, sl) = ptr s (j, sl)"
    and same_but_block: "ptr s (j, sl) \<noteq> NO_BLOCK \<Longrightarrow>
      g_blocks s' (unat (ptr s (j, sl))) = g_blocks s (unat (ptr s (j, sl)))"
  using assms unfolding same_but_def by metis+

section \<open>How the allocators change the table\<close>

definition avail_blocks :: "munin \<Rightarrow> nat set" where
  "avail_blocks s = {blk. blk < 512 \<and> \<not> used s blk}"

lemma alloc_block_cases:
  obtains (full) "alloc_block s = (- 1, s)" "avail_blocks s = {}"
  | (ok) blk where "alloc_block s = (int blk, s\<lparr>g_block_used := bitmap_set (g_block_used s) blk\<rparr>)"
      "blk < 512" "\<not> used s blk" "\<And>c. c < blk \<Longrightarrow> used s c"
proof (cases "first_clear (g_block_used s) 0 512")
  case None
  then have "avail_blocks s = {}"
    using first_clear_None [of "g_block_used s" 0 512] by (auto simp: avail_blocks_def used_def)
  with None show thesis by (intro full) (simp_all add: alloc_block_def)
next
  case (Some blk)
  then show thesis
    using first_clear_Some [OF Some] by (intro ok [of blk]) (auto simp: alloc_block_def used_def)
qed

lemma word_of_blk [simp]:
  "blk < 512 \<Longrightarrow> unat (of_nat blk :: u32) = blk"
  by (rule unat_of_nat_u32) simp

lemma word_of_blk_NO [simp]: "blk < 512 \<Longrightarrow> (of_nat blk :: u32) \<noteq> NO_BLOCK"
  by (simp add: unat_eq_iff)

lemma fresh_block_cases:
  obtains (full) "fresh_block s = (NO_BLOCK, s)" "avail_blocks s = {}"
  | (ok) blk where "fresh_block s = (of_nat blk, zero_block blk
        (s\<lparr>g_block_used := bitmap_set (g_block_used s) blk\<rparr>))"
      "blk < 512" "\<not> used s blk"
  by (cases s rule: alloc_block_cases) (auto simp: fresh_block_def)

lemma fresh_indirect_cases:
  obtains (full) "fresh_indirect s = (NO_BLOCK, s)" "avail_blocks s = {}"
  | (ok) blk where "fresh_indirect s = (of_nat blk, upd_block blk (\<lambda>ip. fill_ptrs ip 128)
        (s\<lparr>g_block_used := bitmap_set (g_block_used s) blk\<rparr>))"
      "blk < 512" "\<not> used s blk"
  by (cases s rule: alloc_block_cases) (auto simp: fresh_indirect_def)

lemma get32_fill_ptrs: "k < n \<Longrightarrow> get32 (fill_ptrs f n) (4 * k) = NO_BLOCK"
proof (induction n)
  case (Suc n)
  then show ?case
    by (cases "k = n") (simp_all add: get32_put32 get32_put32_other)
qed simp

lemma live_upd_block [simp]: "live (upd_block blk f s) = live s"
  by (simp add: live_def fun_eq_iff)

lemma live_used_upd [simp]: "live (s\<lparr>g_block_used := u\<rparr>) = live s"
  by (simp add: live_def fun_eq_iff)

lemma ptr_used_upd [simp]: "ptr (s\<lparr>g_block_used := u\<rparr>) = ptr s"
  by (simp add: ptr_def fun_eq_iff)

lemma used_upd_block [simp]: "used (upd_block blk f s) = used s"
  by (simp add: used_def fun_eq_iff)

lemma used_upd_inode [simp]: "used (upd_inode i f s) = used s"
  by (simp add: used_def fun_eq_iff)

lemma used_free_block: "used (free_block blk s) c \<longleftrightarrow> c \<noteq> blk \<and> used s c"
  by (simp add: used_def free_block_def bitmap_test_clear)

lemma free_block_sel [simp]:
  "g_inodes (free_block blk s) = g_inodes s" "g_blocks (free_block blk s) = g_blocks s"
  "ptr (free_block blk s) = ptr s"
  by (simp_all add: free_block_def)

lemma ptr_upd_block:
  assumes "\<And>j. ptr s (j, Indir) \<noteq> NO_BLOCK \<Longrightarrow> unat (ptr s (j, Indir)) \<noteq> blk"
  shows "ptr (upd_block blk f s) = ptr s"
proof (rule ext)
  fix x :: "nat \<times> slot"
  obtain j sl where x: "x = (j, sl)" by (cases x)
  show "ptr (upd_block blk f s) x = ptr s x"
  proof (cases sl)
    case (Ptr k)
    have "unat (iindirect (g_inodes s j)) \<noteq> blk" if "live s j" "iindirect (g_inodes s j) \<noteq> NO_BLOCK"
      using assms [of j] that by (simp add: ptr_def)
    with x Ptr show ?thesis by (auto simp: ptr_def)
  qed (simp_all add: x ptr_def)
qed

lemma ptr_upd_unused:
  assumes "blk_inv s" and "\<not> used s blk"
  shows "ptr (upd_block blk f s) = ptr s"
  by (rule ptr_upd_block) (metis assms ptr_used)

lemma ptr_upd_data:
  assumes "blk_inv s" and "ptr s (i, sl) \<noteq> NO_BLOCK" and "sl \<noteq> Indir"
  shows "ptr (upd_block (unat (ptr s (i, sl))) f s) = ptr s"
proof (rule ptr_upd_block, rule notI)
  fix j assume "ptr s (j, Indir) \<noteq> NO_BLOCK" "unat (ptr s (j, Indir)) = unat (ptr s (i, sl))"
  then have "(j, Indir) = (i, sl)" by (rule ptr_unat_inj [OF assms(1)])
  with assms(3) show False by simp
qed

lemma blk_inv_same: "blk_inv s \<Longrightarrow> ptr s' = ptr s \<Longrightarrow> used s' = used s \<Longrightarrow> blk_inv s'"
  by (simp add: blk_inv_def)

lemma blk_inv_attach:
  assumes inv: "blk_inv s" and blk: "blk < 512" "\<not> used s blk" and x: "ptr s x = NO_BLOCK"
    and ptr': "\<And>y. ptr s' y = (if y = x then of_nat blk else ptr s y)"
    and used': "\<And>c. used s' c \<longleftrightarrow> c = blk \<or> used s c"
  shows "blk_inv s'"
proof (rule blk_invI)
  fix y assume y: "ptr s' y \<noteq> NO_BLOCK"
  then show "unat (ptr s' y) < 512" "used s' (unat (ptr s' y))"
    using ptr_bound [OF inv, of y] ptr_used [OF inv, of y] blk by (auto simp: ptr' used')
  fix z assume "ptr s' y = ptr s' z"
  moreover have "ptr s v \<noteq> of_nat blk" for v
    using ptr_used [OF inv, of v] blk by (cases "ptr s v = NO_BLOCK") auto
  ultimately show "y = z"
    using ptr_inj [OF inv, of y z] y unfolding ptr' by (metis)
next
  fix c assume c: "c < 512" "used s' c"
  show "\<exists>y. ptr s' y \<noteq> NO_BLOCK \<and> unat (ptr s' y) = c"
  proof (cases "c = blk")
    case True
    with blk have "ptr s' x \<noteq> NO_BLOCK \<and> unat (ptr s' x) = c" by (simp add: ptr')
    then show ?thesis ..
  next
    case False
    with c obtain y where "ptr s y \<noteq> NO_BLOCK" "unat (ptr s y) = c"
      using used_ptr [OF inv, of c] unfolding used' by blast
    moreover with x have "y \<noteq> x" by auto
    ultimately have "ptr s' y \<noteq> NO_BLOCK \<and> unat (ptr s' y) = c" by (simp add: ptr')
    then show ?thesis ..
  qed
qed

lemma blk_inv_release:
  assumes inv: "blk_inv s"
    and ptr': "\<And>y. ptr s' y = (if fst y = i then NO_BLOCK else ptr s y)"
    and used': "\<And>c. used s' c \<longleftrightarrow>
        used s c \<and> \<not> (\<exists>sl. ptr s (i, sl) \<noteq> NO_BLOCK \<and> unat (ptr s (i, sl)) = c)"
  shows "blk_inv s'"
proof (rule blk_invI)
  fix y assume y: "ptr s' y \<noteq> NO_BLOCK"
  then have ne: "fst y \<noteq> i" "ptr s y \<noteq> NO_BLOCK" and eq: "ptr s' y = ptr s y"
    by (auto simp: ptr' split: if_splits)
  then show "unat (ptr s' y) < 512" using ptr_bound [OF inv] by simp
  have "fst y = i" if "ptr s (i, sl) \<noteq> NO_BLOCK" "unat (ptr s (i, sl)) = unat (ptr s y)" for sl
    using ptr_unat_inj [OF inv that] by auto
  with ne eq show "used s' (unat (ptr s' y))" using ptr_used [OF inv] by (auto simp: used')
  fix z assume "ptr s' y = ptr s' z"
  then show "y = z" using ptr_inj [OF inv, of y z] ne eq y by (auto simp: ptr' split: if_splits)
next
  fix c assume c: "c < 512" "used s' c"
  then obtain y where y: "ptr s y \<noteq> NO_BLOCK" "unat (ptr s y) = c"
    using used_ptr [OF inv, of c] unfolding used' by blast
  with c(2) have "fst y \<noteq> i" by (cases y) (auto simp: used')
  with y have "ptr s' y \<noteq> NO_BLOCK \<and> unat (ptr s' y) = c" by (simp add: ptr')
  then show "\<exists>y. ptr s' y \<noteq> NO_BLOCK \<and> unat (ptr s' y) = c" ..
qed

lemma used_bitmap_set [simp]: "used (s\<lparr>g_block_used := bitmap_set (g_block_used s) blk\<rparr>) c
    \<longleftrightarrow> c = blk \<or> used s c"
  by (simp add: used_def bitmap_test_set)

text \<open>A fresh block for a data slot: the slot table and the other blocks stay as they were.\<close>

definition fresh_rel :: "munin \<Rightarrow> nat \<Rightarrow> munin \<Rightarrow> bool" where
  "fresh_rel s blk s1 \<longleftrightarrow> blk < 512 \<and> \<not> used s blk \<and> ptr s1 = ptr s \<and> g_inodes s1 = g_inodes s
     \<and> (\<forall>c. used s1 c \<longleftrightarrow> c = blk \<or> used s c) \<and> (\<forall>c. c \<noteq> blk \<longrightarrow> g_blocks s1 c = g_blocks s c)"

lemma fresh_rel_upd:
  assumes "blk_inv s" "blk < 512" "\<not> used s blk"
  shows "fresh_rel s blk (upd_block blk f (s\<lparr>g_block_used := bitmap_set (g_block_used s) blk\<rparr>))"
proof -
  have "ptr (upd_block blk f (s\<lparr>g_block_used := bitmap_set (g_block_used s) blk\<rparr>)) = ptr s"
    using assms ptr_used [OF assms(1)] by (subst ptr_upd_block) (auto; fail)+
  with assms show ?thesis by (simp add: fresh_rel_def)
qed

lemma fresh_block_spec:
  assumes "blk_inv s"
  shows "if fst (fresh_block s) = NO_BLOCK then snd (fresh_block s) = s \<and> avail_blocks s = {}
    else fresh_rel s (unat (fst (fresh_block s))) (snd (fresh_block s))
      \<and> (\<forall>p < 512. g_blocks (snd (fresh_block s)) (unat (fst (fresh_block s))) p = 0)"
  by (cases s rule: fresh_block_cases)
    (auto simp: zero_block_def fresh_rel_upd assms fill_apply)

lemma fresh_indirect_spec:
  assumes "blk_inv s"
  shows "if fst (fresh_indirect s) = NO_BLOCK then snd (fresh_indirect s) = s \<and> avail_blocks s = {}
    else fresh_rel s (unat (fst (fresh_indirect s))) (snd (fresh_indirect s))
      \<and> (\<forall>k < 128. get32 (g_blocks (snd (fresh_indirect s)) (unat (fst (fresh_indirect s)))) (4 * k)
           = NO_BLOCK)"
  by (cases s rule: fresh_indirect_cases)
    (auto simp: fresh_rel_upd assms get32_fill_ptrs)

section \<open>\<^verbatim>\<open>block_for\<close>\<close>

text \<open>
  \<open>lslot b\<close> is the slot of logical block \<open>b\<close>, \<open>content s i p\<close> the byte at position \<open>p\<close> of inode \<open>i\<close>: zero
  where no block is attached. \<open>grows i s s'\<close> says that \<open>s'\<close> differs from \<open>s\<close> by blocks attached to
  inode \<open>i\<close> that do not change its content.
\<close>

definition lslot :: "nat \<Rightarrow> slot" where
  "lslot b = (if b < 8 then Direct b else Ptr (b - 8))"

definition content :: "munin \<Rightarrow> nat \<Rightarrow> nat \<Rightarrow> u8" where
  "content s i p = (let w = ptr s (i, lslot (p div 512)) in
     if w = NO_BLOCK then 0 else g_blocks s (unat w) (p mod 512))"

lemma lslot_inj [simp]: "lslot b = lslot c \<longleftrightarrow> b = c"
  by (auto simp: lslot_def split: if_splits)

lemma lslot_Indir [simp]: "lslot b \<noteq> Indir"
  by (simp add: lslot_def)

definition grows :: "nat \<Rightarrow> munin \<Rightarrow> munin \<Rightarrow> bool" where
  "grows i s s' \<longleftrightarrow> blk_inv s' \<and> same_but i s s'
     \<and> itype (g_inodes s' i) = itype (g_inodes s i) \<and> isize (g_inodes s' i) = isize (g_inodes s i)
     \<and> (\<forall>sl. ptr s (i, sl) \<noteq> NO_BLOCK \<longrightarrow> ptr s' (i, sl) = ptr s (i, sl))
     \<and> (\<forall>p. content s' i p = content s i p)"

lemma grows_refl: "blk_inv s \<Longrightarrow> grows i s s"
  by (simp add: grows_def)

lemma grows_trans: "grows i s s' \<Longrightarrow> grows i s' s'' \<Longrightarrow> grows i s s''"
  unfolding grows_def using same_but_trans by auto

lemma grows_live: "grows i s s' \<Longrightarrow> live s' j = live s j"
  using same_but_inode [of i s s' j] by (cases "j = i") (simp_all add: grows_def live_def)

text \<open>Attaching a fresh block to slot \<open>sl\<close> of inode \<open>i\<close>.\<close>

definition attached :: "nat \<Rightarrow> slot \<Rightarrow> nat \<Rightarrow> munin \<Rightarrow> munin \<Rightarrow> bool" where
  "attached i sl blk s s' \<longleftrightarrow> blk < 512 \<and> \<not> used s blk
     \<and> ptr s' = (ptr s)((i, sl) := of_nat blk)
     \<and> (\<forall>c. used s' c \<longleftrightarrow> c = blk \<or> used s c)
     \<and> (\<forall>j. j \<noteq> i \<longrightarrow> g_inodes s' j = g_inodes s j)
     \<and> itype (g_inodes s' i) = itype (g_inodes s i) \<and> isize (g_inodes s' i) = isize (g_inodes s i)
     \<and> (\<forall>x. snd x \<noteq> Indir \<longrightarrow> ptr s x \<noteq> NO_BLOCK \<longrightarrow> g_blocks s' (unat (ptr s x)) = g_blocks s (unat (ptr s x)))
     \<and> (\<forall>j. j \<noteq> i \<longrightarrow> ptr s (j, Indir) \<noteq> NO_BLOCK \<longrightarrow>
          g_blocks s' (unat (ptr s (j, Indir))) = g_blocks s (unat (ptr s (j, Indir))))"

lemma attached_blk_inv:
  "blk_inv s \<Longrightarrow> ptr s (i, sl) = NO_BLOCK \<Longrightarrow> attached i sl blk s s' \<Longrightarrow> blk_inv s'"
  by (rule blk_inv_attach [of s blk "(i, sl)"]) (simp_all add: attached_def)

lemma attached_same_but: "attached i sl blk s s' \<Longrightarrow> same_but i s s'"
proof (unfold same_but_def, intro allI impI conjI)
  fix j sl' assume a: "attached i sl blk s s'" and j: "j \<noteq> i"
  then show "g_inodes s' j = g_inodes s j" "ptr s' (j, sl') = ptr s (j, sl')"
    by (simp_all add: attached_def)
  assume "ptr s (j, sl') \<noteq> NO_BLOCK"
  with a j show "g_blocks s' (unat (ptr s (j, sl'))) = g_blocks s (unat (ptr s (j, sl')))"
    by (cases "sl' = Indir") (auto simp: attached_def)
qed

lemma attached_grows:
  assumes inv: "blk_inv s" and no: "ptr s (i, sl) = NO_BLOCK" and a: "attached i sl blk s s'"
    and zero: "sl \<noteq> Indir \<Longrightarrow> (\<And>p. p < 512 \<Longrightarrow> g_blocks s' blk p = 0)"
  shows "grows i s s'"
proof -
  have "content s' i p = content s i p" for p
  proof (cases "lslot (p div 512) = sl")
    case True
    then have "sl \<noteq> Indir" by auto
    with a no True zero show ?thesis by (auto simp: content_def Let_def attached_def)
  next
    case False
    with a show ?thesis by (auto simp: content_def Let_def attached_def)
  qed
  moreover have "ptr s' (i, sl') = ptr s (i, sl')" if "ptr s (i, sl') \<noteq> NO_BLOCK" for sl'
    using a no that by (auto simp: attached_def)
  ultimately show ?thesis
    using attached_blk_inv [OF inv no a] attached_same_but [OF a] a
    by (simp add: grows_def attached_def)
qed

lemma attach_direct:
  assumes inv: "blk_inv s" and i: "live s i" and b: "b < 8" and no: "ptr s (i, Direct b) = NO_BLOCK"
    and f: "fresh_rel s blk s1"
  shows "attached i (Direct b) blk s (upd_inode i (\<lambda>f. f\<lparr>iblocks := (iblocks f)(b := of_nat blk)\<rparr>) s1)"
    (is "attached _ _ _ _ ?s'")
proof -
  have nodes: "g_inodes s1 = g_inodes s" and "ptr s1 = ptr s" using f by (simp_all add: fresh_rel_def)
  have lv: "live ?s' j = live s j" for j by (simp add: live_def nodes)
  have blocks: "g_blocks ?s' (unat (ptr s x)) = g_blocks s (unat (ptr s x))" if "ptr s x \<noteq> NO_BLOCK" for x
    using f ptr_used [OF inv that] by (auto simp: fresh_rel_def)
  have "ptr ?s' (j, sl) = ((ptr s)((i, Direct b) := of_nat blk)) (j, sl)" for j sl
  proof (cases sl)
    case (Direct c)
    then show ?thesis using b i by (auto simp: ptr_def lv nodes)
  next
    case Indir
    then show ?thesis by (simp add: ptr_def lv nodes)
  next
    case (Ptr k)
    have "g_blocks s1 (unat (iindirect (g_inodes s j))) = g_blocks s (unat (iindirect (g_inodes s j)))"
      if "live s j" "iindirect (g_inodes s j) \<noteq> NO_BLOCK"
      using blocks [of "(j, Indir)"] that by (simp add: ptr_def)
    with Ptr show ?thesis by (auto simp: ptr_def lv nodes)
  qed
  then have "ptr ?s' = (ptr s)((i, Direct b) := of_nat blk)" by (intro ext) (simp only: split_paired_all)
  moreover have "\<forall>c. used ?s' c \<longleftrightarrow> c = blk \<or> used s c" "blk < 512" "\<not> used s blk"
    using f by (simp_all add: fresh_rel_def)
  ultimately show ?thesis using blocks nodes unfolding attached_def by simp
qed

lemma attach_indirect:
  assumes inv: "blk_inv s" and i: "live s i" and no: "ptr s (i, Indir) = NO_BLOCK"
    and f: "fresh_rel s blk s1" and nos: "\<forall>k < 128. get32 (g_blocks s1 blk) (4 * k) = NO_BLOCK"
  shows "attached i Indir blk s (upd_inode i (\<lambda>f. f\<lparr>iindirect := of_nat blk\<rparr>) s1)"
    (is "attached _ _ _ _ ?s'")
proof -
  have nodes: "g_inodes s1 = g_inodes s" using f by (simp add: fresh_rel_def)
  have lv: "live ?s' j = live s j" for j by (simp add: live_def nodes)
  have blocks: "g_blocks ?s' (unat (ptr s x)) = g_blocks s (unat (ptr s x))" if "ptr s x \<noteq> NO_BLOCK" for x
    using f ptr_used [OF inv that] by (auto simp: fresh_rel_def)
  have blk: "blk < 512" using f by (simp add: fresh_rel_def)
  have ind: "iindirect (g_inodes s i) = NO_BLOCK" using no i by (simp add: ptr_def)
  have "ptr ?s' (j, sl) = ((ptr s)((i, Indir) := of_nat blk)) (j, sl)" for j sl
  proof (cases sl)
    case (Direct c)
    then show ?thesis by (simp add: ptr_def lv nodes)
  next
    case Indir
    then show ?thesis using i by (simp add: ptr_def lv nodes)
  next
    case (Ptr k)
    have "g_blocks s1 (unat (iindirect (g_inodes s j))) = g_blocks s (unat (iindirect (g_inodes s j)))"
      if "live s j" "iindirect (g_inodes s j) \<noteq> NO_BLOCK"
      using blocks [of "(j, Indir)"] that by (simp add: ptr_def)
    with Ptr nos ind blk i show ?thesis by (auto simp: ptr_def lv nodes)
  qed
  then have "ptr ?s' = (ptr s)((i, Indir) := of_nat blk)" by (intro ext) (simp only: split_paired_all)
  moreover have "\<forall>c. used ?s' c \<longleftrightarrow> c = blk \<or> used s c" "blk < 512" "\<not> used s blk"
    using f by (simp_all add: fresh_rel_def)
  ultimately show ?thesis using blocks nodes unfolding attached_def by simp
qed

lemma attach_ptr:
  assumes inv: "blk_inv s" and i: "live s i" and k: "k < 128"
    and ind: "ptr s (i, Indir) \<noteq> NO_BLOCK"
    and no: "ptr s (i, Ptr k) = NO_BLOCK" and f: "fresh_rel s blk s1"
  shows "attached i (Ptr k) blk s
    (upd_block (unat (iindirect (g_inodes s i))) (\<lambda>ip. put32 ip (4 * k) (of_nat blk)) s1)"
    (is "attached _ _ _ _ ?s'")
proof -
  let ?ib = "unat (ptr s (i, Indir))"
  have ib: "unat (iindirect (g_inodes s i)) = ?ib" using i by (simp add: ptr_def)
  have nodes: "g_inodes s1 = g_inodes s" using f by (simp add: fresh_rel_def)
  have blocks: "g_blocks s1 (unat (ptr s x)) = g_blocks s (unat (ptr s x))" if "ptr s x \<noteq> NO_BLOCK" for x
    using f ptr_used [OF inv that] by (auto simp: fresh_rel_def)
  have other: "unat (ptr s x) \<noteq> ?ib" if "ptr s x \<noteq> NO_BLOCK" "x \<noteq> (i, Indir)" for x
    using ptr_unat_inj [OF inv that(1)] that(2) by blast
  have lv: "live s1 j = live s j" for j by (simp add: live_def nodes)
  have "ptr ?s' (j, sl) = ((ptr s)((i, Ptr k) := of_nat blk)) (j, sl)" for j sl
  proof (cases sl)
    case (Direct c)
    then show ?thesis by (simp add: ptr_def lv nodes)
  next
    case Indir
    then show ?thesis by (simp add: ptr_def lv nodes)
  next
    case (Ptr l)
    show ?thesis
    proof (cases "j = i")
      case True
      have "g_blocks s1 ?ib = g_blocks s ?ib" by (rule blocks [OF ind])
      moreover have "get32 (put32 m (4 * k) w) (4 * l) = (if l = k then w else get32 m (4 * l))" for m w
        by (cases l k rule: linorder_cases) (auto simp: get32_put32 intro: get32_put32_other)
      ultimately show ?thesis using True Ptr k i ind by (auto simp: ptr_def lv nodes get32_put32)
    next
      case False
      have "g_blocks ?s' (unat (iindirect (g_inodes s j))) = g_blocks s (unat (iindirect (g_inodes s j)))"
        if "live s j" "iindirect (g_inodes s j) \<noteq> NO_BLOCK"
        using blocks [of "(j, Indir)"] other [of "(j, Indir)"] that False unfolding ib
        by (simp add: ptr_def)
      with False Ptr show ?thesis by (auto simp: ptr_def lv nodes)
    qed
  qed
  then have "ptr ?s' = (ptr s)((i, Ptr k) := of_nat blk)" by (intro ext) (simp only: split_paired_all)
  moreover have "\<forall>c. used ?s' c \<longleftrightarrow> c = blk \<or> used s c" "blk < 512" "\<not> used s blk"
    using f by (simp_all add: fresh_rel_def)
  moreover have "g_blocks ?s' (unat (ptr s x)) = g_blocks s (unat (ptr s x))"
    if "ptr s x \<noteq> NO_BLOCK" "x \<noteq> (i, Indir)" for x
    using other [OF that] blocks [OF that(1)] unfolding ib by simp
  ultimately show ?thesis using nodes unfolding attached_def by auto
qed

lemma of_nat_unat_blk [simp]: "of_nat (unat (w :: u32)) = w"
  by simp

lemma block_for_direct_spec:
  assumes inv: "blk_inv s" and i: "live s i" and b: "b < 8"
    and r: "block_for_direct s i b True = (w, s')"
  shows "grows i s s' \<and> w = ptr s' (i, Direct b) \<and> (w = NO_BLOCK \<longrightarrow> avail_blocks s' = {})"
proof (cases "iblocks (g_inodes s i) b = NO_BLOCK")
  case False
  with inv r b i show ?thesis by (auto simp: block_for_direct_def grows_refl ptr_def)
next
  case True
  then have no: "ptr s (i, Direct b) = NO_BLOCK" by (simp add: ptr_def)
  obtain blk s1 where fb: "fresh_block s = (blk, s1)" by (cases "fresh_block s")
  show ?thesis
  proof (cases "blk = NO_BLOCK")
    case True
    then have "s1 = s" "avail_blocks s = {}" using fresh_block_spec [OF inv] fb by simp_all
    with inv True r fb no \<open>iblocks _ _ = _\<close> show ?thesis
      by (auto simp: block_for_direct_def grows_refl)
  next
    case False
    have f: "fresh_rel s (unat blk) s1" and z: "\<forall>p<512. g_blocks s1 (unat blk) p = 0"
      using fresh_block_spec [OF inv] fb False by simp_all
    have s': "s' = upd_inode i (\<lambda>f. f\<lparr>iblocks := (iblocks f)(b := of_nat (unat blk))\<rparr>) s1" "w = blk"
      using r fb False True by (auto simp: block_for_direct_def)
    have a: "attached i (Direct b) (unat blk) s s'"
      unfolding s' by (rule attach_direct [OF inv i b no f])
    have "grows i s s'"
      by (rule attached_grows [OF inv no a]) (use z in \<open>simp add: s'\<close>)
    moreover have "ptr s' (i, Direct b) = blk" using a by (simp add: attached_def)
    ultimately show ?thesis using s' False by simp
  qed
qed

lemma ensure_indirect_spec:
  assumes inv: "blk_inv s" and i: "live s i" and r: "ensure_indirect s i True = (ok, s')"
  shows "grows i s s' \<and> (if ok then ptr s' (i, Indir) \<noteq> NO_BLOCK
    else ptr s' (i, Indir) = NO_BLOCK \<and> avail_blocks s' = {})"
proof (cases "iindirect (g_inodes s i) = NO_BLOCK")
  case False
  with inv r i show ?thesis by (auto simp: ensure_indirect_def grows_refl ptr_def)
next
  case True
  then have no: "ptr s (i, Indir) = NO_BLOCK" by (simp add: ptr_def)
  obtain ib s1 where fb: "fresh_indirect s = (ib, s1)" by (cases "fresh_indirect s")
  show ?thesis
  proof (cases "ib = NO_BLOCK")
    case True
    then have "s1 = s" "avail_blocks s = {}" using fresh_indirect_spec [OF inv] fb by simp_all
    with inv True r fb no \<open>iindirect _ = _\<close> show ?thesis
      by (auto simp: ensure_indirect_def grows_refl)
  next
    case False
    have f: "fresh_rel s (unat ib) s1" and n: "\<forall>k<128. get32 (g_blocks s1 (unat ib)) (4 * k) = NO_BLOCK"
      using fresh_indirect_spec [OF inv] fb False by simp_all
    have s': "s' = upd_inode i (\<lambda>f. f\<lparr>iindirect := of_nat (unat ib)\<rparr>) s1" "ok"
      using r fb False True by (simp_all add: ensure_indirect_def)
    have a: "attached i Indir (unat ib) s s'"
      unfolding s' by (rule attach_indirect [OF inv i no f n])
    have "grows i s s'" by (rule attached_grows [OF inv no a]) simp
    moreover have "ptr s' (i, Indir) = ib" using a by (simp add: attached_def)
    ultimately show ?thesis using s' False by simp
  qed
qed

lemma block_for_ptr_spec:
  assumes inv: "blk_inv s" and i: "live s i" and k: "k < 128" and ind: "ptr s (i, Indir) \<noteq> NO_BLOCK"
    and r: "block_for_ptr s i k True = (w, s')"
  shows "grows i s s' \<and> w = ptr s' (i, Ptr k) \<and> (w = NO_BLOCK \<longrightarrow> avail_blocks s' = {})"
proof (cases "ptr s (i, Ptr k) = NO_BLOCK")
  case False
  with inv r k i ind show ?thesis by (auto simp: block_for_ptr_def grows_refl ptr_def Let_def)
next
  case no: True
  then have w0: "get32 (g_blocks s (unat (iindirect (g_inodes s i)))) (4 * k) = NO_BLOCK"
    using i k ind by (simp add: ptr_def)
  obtain blk s1 where fb: "fresh_block s = (blk, s1)" by (cases "fresh_block s")
  show ?thesis
  proof (cases "blk = NO_BLOCK")
    case True
    then have "s1 = s" "avail_blocks s = {}" using fresh_block_spec [OF inv] fb by simp_all
    with inv True r fb no w0 show ?thesis
      by (auto simp: block_for_ptr_def grows_refl)
  next
    case False
    have f: "fresh_rel s (unat blk) s1" and z: "\<forall>p<512. g_blocks s1 (unat blk) p = 0"
      using fresh_block_spec [OF inv] fb False by simp_all
    have s': "s' = upd_block (unat (iindirect (g_inodes s i))) (\<lambda>ip. put32 ip (4 * k) (of_nat (unat blk))) s1"
        "w = blk"
      using r fb False w0 by (auto simp: block_for_ptr_def)
    have a: "attached i (Ptr k) (unat blk) s s'"
      unfolding s' by (rule attach_ptr [OF inv i k ind no f])
    have "unat (iindirect (g_inodes s i)) \<noteq> unat blk"
      using ptr_used [OF inv ind] f i by (auto simp: ptr_def fresh_rel_def)
    then have "grows i s s'"
      by (intro attached_grows [OF inv no a]) (use z in \<open>simp add: s'\<close>)
    moreover have "ptr s' (i, Ptr k) = blk" using a by (simp add: attached_def)
    ultimately show ?thesis using s' False by simp
  qed
qed

lemma block_for_alloc:
  assumes inv: "blk_inv s" and i: "live s i" and r: "block_for s i (int b) True = (w, s')"
  shows "grows i s s'" and "b < 136 \<Longrightarrow> w = ptr s' (i, lslot b)"
    and "b < 136 \<Longrightarrow> w = NO_BLOCK \<Longrightarrow> avail_blocks s' = {}"
    and "b \<ge> 136 \<Longrightarrow> w = NO_BLOCK"
proof -
  have "grows i s s' \<and> (if b < 136 then w = ptr s' (i, lslot b) \<and> (w = NO_BLOCK \<longrightarrow> avail_blocks s' = {})
      else w = NO_BLOCK)"
  proof (cases "b < 8")
    case True
    with r have "block_for_direct s i b True = (w, s')" by (simp add: block_for_def)
    from block_for_direct_spec [OF inv i True this] True show ?thesis by (simp add: lslot_def)
  next
    case ge: False
    show ?thesis
    proof (cases "b < 136")
      case False
      with inv r show ?thesis by (auto simp: block_for_def grows_refl)
    next
      case lt: True
      obtain ok s1 where e: "ensure_indirect s i True = (ok, s1)" by (cases "ensure_indirect s i True")
      note spec = ensure_indirect_spec [OF inv i e]
      show ?thesis
      proof (cases ok)
        case True
        with e ge lt r have p: "block_for_ptr s1 i (b - 8) True = (w, s')"
          by (simp add: block_for_def)
        from spec True have g: "grows i s s1" "ptr s1 (i, Indir) \<noteq> NO_BLOCK" by simp_all
        then have "blk_inv s1" "live s1 i" using i by (simp_all add: grows_def grows_live [OF g(1)])
        from block_for_ptr_spec [OF this _ g(2) p] lt g(1) ge show ?thesis
          by (auto simp: lslot_def intro: grows_trans)
      next
        case False
        with e ge lt r have "w = NO_BLOCK" "s' = s1" by (simp_all add: block_for_def)
        moreover have "ptr s1 (i, Ptr k) = NO_BLOCK" for k
          using spec False by (auto simp: ptr_def split: if_splits)
        ultimately show ?thesis using spec False ge lt by (simp add: lslot_def)
      qed
    qed
  qed
  then show "grows i s s'" and "b < 136 \<Longrightarrow> w = ptr s' (i, lslot b)"
    and "b < 136 \<Longrightarrow> w = NO_BLOCK \<Longrightarrow> avail_blocks s' = {}"
    and "b \<ge> 136 \<Longrightarrow> w = NO_BLOCK"
    by (auto split: if_splits)
qed

lemma block_for_lookup:
  "live s i \<Longrightarrow> block_for s i (int b) False = (if b < 136 then ptr s (i, lslot b) else NO_BLOCK, s)"
  by (auto simp: block_for_def block_for_direct_def block_for_ptr_def ensure_indirect_def
      ptr_def lslot_def Let_def nat_less_iff)

section \<open>Releasing the blocks of an inode\<close>

lemma free_ptrs_fold:
  "g_inodes (fold (free_ptr ib) ks s) = g_inodes s \<and> g_blocks (fold (free_ptr ib) ks s) = g_blocks s
   \<and> (\<forall>c. used (fold (free_ptr ib) ks s) c \<longleftrightarrow> used s c \<and>
       \<not> (\<exists>k \<in> set ks. get32 (g_blocks s ib) (4 * k) \<noteq> NO_BLOCK \<and> unat (get32 (g_blocks s ib) (4 * k)) = c))"
  by (induction ks arbitrary: s) (auto simp: free_ptr_def Let_def used_free_block)

lemma free_direct_fold:
  "distinct bs \<Longrightarrow> (\<forall>j. j \<noteq> i \<longrightarrow> g_inodes (fold (free_direct i) bs s) j = g_inodes s j)
   \<and> g_inodes (fold (free_direct i) bs s) i = (g_inodes s i)
       \<lparr>iblocks := (\<lambda>b. if b \<in> set bs then NO_BLOCK else iblocks (g_inodes s i) b)\<rparr>
   \<and> g_blocks (fold (free_direct i) bs s) = g_blocks s
   \<and> (\<forall>c. used (fold (free_direct i) bs s) c \<longleftrightarrow> used s c \<and>
       \<not> (\<exists>b \<in> set bs. iblocks (g_inodes s i) b \<noteq> NO_BLOCK \<and> unat (iblocks (g_inodes s i) b) = c))"
proof (induction bs arbitrary: s)
  case (Cons b bs)
  then show ?case
    by (auto simp: free_direct_def used_free_block fun_eq_iff)
qed simp

text \<open>\<open>cleared i s s'\<close>: the inode keeps its type, names no block, has size 0; its blocks are free.\<close>

definition cleared :: "nat \<Rightarrow> munin \<Rightarrow> munin \<Rightarrow> bool" where
  "cleared i s s' \<longleftrightarrow> blk_inv s' \<and> same_but i s s' \<and> g_blocks s' = g_blocks s
     \<and> itype (g_inodes s' i) = itype (g_inodes s i) \<and> isize (g_inodes s' i) = 0
     \<and> iindirect (g_inodes s' i) = NO_BLOCK
     \<and> (\<forall>sl. ptr s' (i, sl) = NO_BLOCK)
     \<and> (\<forall>c. used s' c \<longleftrightarrow> used s c \<and> \<not> (\<exists>sl. ptr s (i, sl) \<noteq> NO_BLOCK \<and> unat (ptr s (i, sl)) = c))"

lemma ptr_cong:
  assumes "g_inodes s' j = g_inodes s j" and "g_blocks s' = g_blocks s"
  shows "ptr s' (j, sl) = ptr s (j, sl)"
  using assms by (cases sl) (simp_all add: ptr_def live_def)

lemma free_inode_blocks_nodes:
  "(\<forall>j. j \<noteq> i \<longrightarrow> g_inodes (free_inode_blocks i s) j = g_inodes s j)
   \<and> g_blocks (free_inode_blocks i s) = g_blocks s
   \<and> itype (g_inodes (free_inode_blocks i s) i) = itype (g_inodes s i)
   \<and> isize (g_inodes (free_inode_blocks i s) i) = 0
   \<and> iindirect (g_inodes (free_inode_blocks i s) i) = NO_BLOCK
   \<and> (\<forall>b < 8. iblocks (g_inodes (free_inode_blocks i s) i) b = NO_BLOCK)"
  using free_direct_fold [of "[0..<8]" i s]
  by (simp add: free_inode_blocks_def free_indirect_def Let_def free_ptrs_fold)

lemma ex_slot: "(\<exists>sl. P sl) \<longleftrightarrow> (\<exists>b. P (Direct b)) \<or> P Indir \<or> (\<exists>k. P (Ptr k))"
proof
  assume "\<exists>sl. P sl"
  then obtain sl where "P sl" ..
  then show "(\<exists>b. P (Direct b)) \<or> P Indir \<or> (\<exists>k. P (Ptr k))" by (cases sl) auto
qed auto

lemma free_inode_blocks_used:
  assumes i: "live s i"
  shows "used (free_inode_blocks i s) c \<longleftrightarrow>
    used s c \<and> \<not> (\<exists>sl. ptr s (i, sl) \<noteq> NO_BLOCK \<and> unat (ptr s (i, sl)) = c)"
proof -
  let ?s1 = "fold (free_direct i) [0..<8] s"
  let ?w = "iindirect (g_inodes s i)"
  have d: "g_blocks ?s1 = g_blocks s" "iindirect (g_inodes ?s1 i) = ?w"
    and du: "used ?s1 c \<longleftrightarrow> used s c \<and> \<not> (\<exists>b < 8. iblocks (g_inodes s i) b \<noteq> NO_BLOCK
      \<and> unat (iblocks (g_inodes s i) b) = c)"
    using free_direct_fold [of "[0..<8]" i s] by auto
  have "used (free_inode_blocks i s) c \<longleftrightarrow> used ?s1 c \<and> (?w \<noteq> NO_BLOCK \<longrightarrow> c \<noteq> unat ?w \<and>
      \<not> (\<exists>k \<in> set [0..<128]. get32 (g_blocks s (unat ?w)) (4 * k) \<noteq> NO_BLOCK
          \<and> unat (get32 (g_blocks s (unat ?w)) (4 * k)) = c))"
    using d by (simp del: set_upt
        add: free_inode_blocks_def free_indirect_def Let_def free_ptrs_fold used_free_block) blast
  also have "\<dots> \<longleftrightarrow> used s c \<and> \<not> (\<exists>sl. ptr s (i, sl) \<noteq> NO_BLOCK \<and> unat (ptr s (i, sl)) = c)"
    (is "?l \<longleftrightarrow> used s c \<and> \<not> (\<exists>sl. ?P sl)")
  proof -
    have ex: "(\<exists>sl. ?P sl) \<longleftrightarrow> (\<exists>b. ?P (Direct b)) \<or> ?P Indir \<or> (\<exists>k. ?P (Ptr k))"
      by (rule ex_slot)
    have dir: "(\<exists>b. ?P (Direct b)) \<longleftrightarrow> (\<exists>b < 8. iblocks (g_inodes s i) b \<noteq> NO_BLOCK
        \<and> unat (iblocks (g_inodes s i) b) = c)"
      using i by (auto simp: ptr_def)
    have ind: "?P Indir \<longleftrightarrow> ?w \<noteq> NO_BLOCK \<and> c = unat ?w"
      using i by (auto simp: ptr_def)
    have ptrs: "(\<exists>k. ?P (Ptr k)) \<longleftrightarrow> ?w \<noteq> NO_BLOCK \<and> (\<exists>k \<in> set [0..<128].
        get32 (g_blocks s (unat ?w)) (4 * k) \<noteq> NO_BLOCK \<and> unat (get32 (g_blocks s (unat ?w)) (4 * k)) = c)"
      unfolding Bex_def set_upt atLeastLessThan_iff using i by (auto simp: ptr_def)
    show ?thesis unfolding ex dir ind ptrs du by satx
  qed
  finally show ?thesis .
qed

lemma free_inode_blocks_cleared:
  assumes inv: "blk_inv s" and i: "live s i"
  shows "cleared i s (free_inode_blocks i s)"
proof -
  let ?s' = "free_inode_blocks i s"
  note nodes = free_inode_blocks_nodes [of i s]
  have other: "ptr ?s' (j, sl) = ptr s (j, sl)" if "j \<noteq> i" for j sl
    by (rule ptr_cong) (use nodes that in simp_all)
  have no: "ptr ?s' (i, sl) = NO_BLOCK" for sl
    using nodes by (cases sl) (simp_all add: ptr_def)
  have "blk_inv ?s'"
  proof (rule blk_inv_release [OF inv, of _ i])
    show "ptr ?s' y = (if fst y = i then NO_BLOCK else ptr s y)" for y
      using other no by (cases y) simp
  qed (rule free_inode_blocks_used [OF i])
  moreover have "same_but i s ?s'"
    using nodes other by (simp add: same_but_def)
  ultimately show ?thesis
    using nodes no free_inode_blocks_used [OF i] by (simp add: cleared_def)
qed

text \<open>An inode that names no block can be taken into use, released, or resized.\<close>

lemma retyped:
  assumes inv: "blk_inv s" and no: "\<forall>sl. ptr s (i, sl) = NO_BLOCK"
    and nodes: "\<forall>j. j \<noteq> i \<longrightarrow> g_inodes s' j = g_inodes s j"
    and blocks: "g_blocks s' = g_blocks s" and u: "g_block_used s' = g_block_used s"
    and no': "\<forall>sl. ptr s' (i, sl) = NO_BLOCK"
  shows "blk_inv s' \<and> same_but i s s'"
proof -
  have other: "ptr s' (j, sl) = ptr s (j, sl)" if "j \<noteq> i" for j sl
    by (rule ptr_cong) (use nodes blocks that in simp_all)
  have "ptr s' (j, sl) = ptr s (j, sl)" for j sl
    using other [of j sl] no no' by (cases "j = i") simp_all
  then have "ptr s' = ptr s" by (intro ext) (simp only: split_paired_all)
  moreover have "used s' = used s" unfolding used_def [abs_def] u ..
  ultimately have "blk_inv s'" by (rule blk_inv_same [OF inv])
  with other nodes blocks show ?thesis by (simp add: same_but_def)
qed

lemma alloc_inode_cases:
  obtains (full) "alloc_inode ty s = (- 1, s)" "\<And>i. i < 128 \<Longrightarrow> live s i"
  | (ok) i where "alloc_inode ty s = (int i, upd_inode i (new_inode ty) s)" "i < 128" "\<not> live s i"
      "\<And>j. j < i \<Longrightarrow> live s j"
proof (cases "find (\<lambda>i. itype (g_inodes s i) = INODE_FREE) [0..<128]")
  case None
  then have "alloc_inode ty s = (- 1, s)" by (simp add: alloc_inode_def)
  moreover have "\<forall>i < 128. itype (g_inodes s i) \<noteq> INODE_FREE" using None by (simp add: find_None_iff)
  ultimately show thesis by (intro full) (auto simp: live_def)
next
  case (Some i)
  then have "i < 128 \<and> itype (g_inodes s i) = INODE_FREE \<and> (\<forall>j < i. itype (g_inodes s j) \<noteq> INODE_FREE)"
    by (auto simp: find_Some_iff)
  with Some show thesis by (intro ok [of i]) (auto simp: alloc_inode_def live_def)
qed

lemma new_inode_sel [simp]:
  "itype (new_inode ty f) = ty" "isize (new_inode ty f) = 0" "iindirect (new_inode ty f) = NO_BLOCK"
  "b < 8 \<Longrightarrow> iblocks (new_inode ty f) b = NO_BLOCK"
  by (simp_all add: new_inode_def)

lemma new_inode_ptr [simp]: "ptr (upd_inode i (new_inode ty) s) (i, sl) = NO_BLOCK"
  by (cases sl) (simp_all add: ptr_def)

lemma not_live_ptr: "\<not> live s i \<Longrightarrow> ptr s (i, sl) = NO_BLOCK"
  by (simp add: ptr_def)

lemma new_inode_spec:
  assumes "blk_inv s" and "\<not> live s i"
  shows "blk_inv (upd_inode i (new_inode ty) s)" "same_but i s (upd_inode i (new_inode ty) s)"
  using retyped [of s i "upd_inode i (new_inode ty) s"] assms by (simp_all add: not_live_ptr)

lemma ptr_upd_size [simp]: "ptr (upd_inode i (\<lambda>f. f\<lparr>isize := n\<rparr>) s) = ptr s"
proof -
  have "live (upd_inode i (\<lambda>f. f\<lparr>isize := n\<rparr>) s) = live s" by (simp add: live_def fun_eq_iff)
  moreover have "islot (f\<lparr>isize := n\<rparr>) b sl = islot f b sl" for f b sl by (cases sl) simp_all
  ultimately show ?thesis by (simp add: ptr_def fun_eq_iff)
qed

lemma live_upd_size [simp]: "live (upd_inode i (\<lambda>f. f\<lparr>isize := n\<rparr>) s) = live s"
  by (simp add: live_def fun_eq_iff)

lemma content_upd_size [simp]: "content (upd_inode i (\<lambda>f. f\<lparr>isize := n\<rparr>) s) j p = content s j p"
  by (simp add: content_def Let_def)

lemma blk_inv_upd_size [simp]: "blk_inv (upd_inode i (\<lambda>f. f\<lparr>isize := n\<rparr>) s) \<longleftrightarrow> blk_inv s"
  by (simp add: blk_inv_def)

lemma same_but_upd_size: "same_but i s (upd_inode i (\<lambda>f. f\<lparr>isize := n\<rparr>) s)"
  by (simp add: same_but_def)

lemma munin_init_state:
  "live (munin_init s) i \<longleftrightarrow> i = 0" "itype (g_inodes (munin_init s) 0) = INODE_DIR"
  "isize (g_inodes (munin_init s) 0) = 0" "ptr (munin_init s) x = NO_BLOCK"
  "iindirect (g_inodes (munin_init s) 0) = NO_BLOCK"
  "\<not> (c < 512 \<and> used (munin_init s) c)"
proof -
  let ?s0 = "s\<lparr>g_inodes := (\<lambda>i. if i < 128 then (g_inodes s i)\<lparr>itype := INODE_FREE\<rparr> else g_inodes s i),
          g_block_used := fill (g_block_used s) 0 0 64\<rparr>"
  have e: "munin_init s = upd_inode 0 (new_inode INODE_DIR) ?s0"
  proof (cases rule: alloc_inode_cases [of INODE_DIR ?s0])
    case full
    from full(2) [of 0] show ?thesis by (simp add: live_def)
  next
    case (ok i)
    from ok(4) [of 0] have "i = 0" by (auto simp: live_def)
    with ok(1) show ?thesis by (simp add: munin_init_def)
  qed
  show "live (munin_init s) i \<longleftrightarrow> i = 0" "itype (g_inodes (munin_init s) 0) = INODE_DIR"
    "isize (g_inodes (munin_init s) 0) = 0" "iindirect (g_inodes (munin_init s) 0) = NO_BLOCK"
    unfolding e by (auto simp: live_def)
  show "ptr (munin_init s) x = NO_BLOCK"
  proof (cases x)
    case (Pair j sl)
    then show ?thesis
      by (cases "j = 0") (simp_all only: e new_inode_ptr, simp add: ptr_def live_def)
  qed
  have "\<not> used (munin_init s) c" if "c < 512"
  proof -
    have "c div 8 < 64" using that by simp
    then have "\<not> bitmap_test (fill (g_block_used s) 0 0 64) c"
      by (intro bitmap_test_0) (simp add: fill_apply)
    then show ?thesis unfolding e used_def by simp
  qed
  then show "\<not> (c < 512 \<and> used (munin_init s) c)" by blast
qed

lemma munin_init_blk_inv: "blk_inv (munin_init s)"
  by (rule blk_invI) (use munin_init_state [where s = s] in auto)

section \<open>The allocators as slot pools\<close>

interpretation blocks: slot_pool
  alloc_block "\<lambda>b. free_block (nat b)" "\<lambda>s. int ` avail_blocks s" "\<lambda>s. int ` {..<512}" "- 1"
  "\<lambda>s. True"
proof
  fix s
  show "int ` avail_blocks s \<subseteq> int ` {..<512}" by (auto simp: avail_blocks_def)
  show "- 1 \<notin> int ` avail_blocks s" by auto
  show "alloc_block s = (- 1, s)" if "int ` avail_blocks s = {}"
    using that by (cases s rule: alloc_block_cases) (auto simp: avail_blocks_def)
  show "fst (alloc_block s) \<in> int ` avail_blocks s
      \<and> int ` avail_blocks (snd (alloc_block s)) = int ` avail_blocks s - {fst (alloc_block s)}
      \<and> int ` {..<512} = int ` {..<512}" if "int ` avail_blocks s \<noteq> {}"
    using that by (cases s rule: alloc_block_cases) (auto simp: avail_blocks_def)
  show "int ` avail_blocks (free_block (nat x) s) = insert x (int ` avail_blocks s)"
    if "x \<in> int ` {..<512}" "x \<noteq> - 1" for x
    using that by (auto simp: avail_blocks_def used_free_block)
qed simp_all

end
