(* ===== verification/Munin_Dir.thy ===== *)
theory Munin_Dir
  imports Munin
begin

text \<open>
  Directories of munin.cpp: the directory entries inside a block, \<^verbatim>\<open>dir_lookup\<close> and \<^verbatim>\<open>add_dirent\<close>.
  \<open>dent s d x\<close> is the entry in slot \<open>x\<close> of directory \<open>d\<close> as a name and a child; \<open>dir_map s d\<close> the
  finite map a directory stands for.
\<close>

section \<open>Directory entries\<close>

definition dent_inode :: "(nat \<Rightarrow> u8) \<Rightarrow> nat \<Rightarrow> int" where
  "dent_inode z k = sint (get32 z (36 * k))"

definition dent_byte :: "(nat \<Rightarrow> u8) \<Rightarrow> nat \<Rightarrow> nat \<Rightarrow> u8" where
  "dent_byte z k i = z (36 * k + 4 + i)"

function match_len :: "(nat \<Rightarrow> u8) \<Rightarrow> nat \<Rightarrow> cstr \<Rightarrow> nat \<Rightarrow> nat \<Rightarrow> nat" where
  "match_len z k name n i =
     (if i < n \<and> dent_byte z k i \<noteq> 0 \<and> dent_byte z k i = char_at name i
      then match_len z k name n (Suc i) else i)"
  by pat_completeness auto
termination
  by (relation "measure (\<lambda>(z, k, name, n, i). n - i)") auto

declare match_len.simps [simp del]

definition name_matches :: "(nat \<Rightarrow> u8) \<Rightarrow> nat \<Rightarrow> cstr \<Rightarrow> nat \<Rightarrow> bool" where
  "name_matches z k name n \<longleftrightarrow>
     (let i = match_len z k name n 0 in i = n \<and> dent_byte z k i = 0)"

definition dir_slots :: "(nat \<times> nat) list" where
  "dir_slots = List.product [0..<8] [0..<14]"

definition dirent_scan :: "munin \<Rightarrow> nat \<Rightarrow> cstr \<Rightarrow> nat \<Rightarrow> (nat \<times> nat) option" where
  "dirent_scan s dir name n =
     (let d = g_inodes s dir in
      find (\<lambda>(b, k). iblocks d b \<noteq> NO_BLOCK
          \<and> dent_inode (g_blocks s (unat (iblocks d b))) k \<noteq> - 1
          \<and> name_matches (g_blocks s (unat (iblocks d b))) k name n) dir_slots)"

definition dir_lookup :: "munin \<Rightarrow> nat \<Rightarrow> cstr \<Rightarrow> nat \<Rightarrow> int" where
  "dir_lookup s dir name n = (case dirent_scan s dir name n of
       Some (b, k) \<Rightarrow> dent_inode (g_blocks s (unat (iblocks (g_inodes s dir) b))) k
     | None \<Rightarrow> - 1)"

primrec clear_dirents :: "(nat \<Rightarrow> u8) \<Rightarrow> nat \<Rightarrow> (nat \<Rightarrow> u8)" where
  "clear_dirents z 0 = z"
| "clear_dirents z (Suc k) = put32 (clear_dirents z k) (36 * k) (- 1)"

function copy_name :: "(nat \<Rightarrow> u8) \<Rightarrow> nat \<Rightarrow> cstr \<Rightarrow> nat \<Rightarrow> (nat \<Rightarrow> u8)" where
  "copy_name z a name i =
     (if i < 31 \<and> char_at name i \<noteq> 0 then copy_name (z(a + i := char_at name i)) a name (Suc i)
      else z(a + i := 0))"
  by pat_completeness auto
termination
  by (relation "measure (\<lambda>(z, a, name, i). 31 - i)") auto

declare copy_name.simps [simp del]

definition put_dirent :: "(nat \<Rightarrow> u8) \<Rightarrow> nat \<Rightarrow> cstr \<Rightarrow> int \<Rightarrow> (nat \<Rightarrow> u8)" where
  "put_dirent z k name child = copy_name (put32 z (36 * k) (word_of_int child)) (36 * k + 4) name 0"

definition ensure_dir_block :: "munin \<Rightarrow> nat \<Rightarrow> nat \<Rightarrow> bool \<times> munin" where
  "ensure_dir_block s dir b =
     (if iblocks (g_inodes s dir) b = NO_BLOCK then
        let (blk, s1) = alloc_block s in
        if blk < 0 then (False, s1)
        else (True, upd_block (nat blk) (\<lambda>de. clear_dirents de 14)
                (upd_inode dir (\<lambda>d. d\<lparr>iblocks := (iblocks d)(b := word_of_int blk)\<rparr>) s1))
      else (True, s))"

primrec add_dirent_loop :: "munin \<Rightarrow> nat \<Rightarrow> cstr \<Rightarrow> int \<Rightarrow> nat list \<Rightarrow> bool \<times> munin" where
  "add_dirent_loop s dir name child [] = (False, s)"
| "add_dirent_loop s dir name child (b # bs) =
     (let (ok, s1) = ensure_dir_block s dir b in
      if \<not> ok then (False, s1)
      else let blk = unat (iblocks (g_inodes s1 dir) b) in
        case find (\<lambda>k. dent_inode (g_blocks s1 blk) k = - 1) [0..<14] of
          Some k \<Rightarrow> (True, upd_inode dir (\<lambda>d. d\<lparr>isize := isize d + 1\<rparr>)
                       (upd_block blk (\<lambda>de. put_dirent de k name child) s1))
        | None \<Rightarrow> add_dirent_loop s1 dir name child bs)"

definition add_dirent :: "munin \<Rightarrow> nat \<Rightarrow> cstr \<Rightarrow> int \<Rightarrow> bool \<times> munin" where
  "add_dirent s dir name child = add_dirent_loop s dir name child [0..<8]"

section \<open>Names\<close>

definition dent_name :: "(nat \<Rightarrow> u8) \<Rightarrow> nat \<Rightarrow> cstr" where
  "dent_name z k = takeWhile (\<lambda>c. c \<noteq> 0) (map (dent_byte z k) [0..<32])"

lemma takeWhile_map_upt:
  "(\<forall>j < n. f j \<noteq> 0) \<Longrightarrow> f n = (0 :: u8) \<Longrightarrow> n < m \<Longrightarrow>
     takeWhile (\<lambda>c. c \<noteq> 0) (map f [0..<m]) = map f [0..<n]"
proof -
  assume f: "\<forall>j < n. f j \<noteq> 0" "f n = 0" "n < m"
  then have "[0..<m] = [0..<n] @ n # [Suc n..<m]"
    by (metis le_add_diff_inverse less_imp_le_nat upt_add_eq_append upt_rec zero_le)
  then have "map f [0..<m] = map f [0..<n] @ 0 # map f [Suc n..<m]" using f by simp
  with f show ?thesis by (simp del: upt_Suc) (subst takeWhile_append2; auto)
qed

lemma match_len_spec:
  "i \<le> n \<Longrightarrow> (\<forall>j < i. dent_byte z k j \<noteq> 0 \<and> dent_byte z k j = char_at name j) \<Longrightarrow>
     match_len z k name n i \<le> n
     \<and> (\<forall>j < match_len z k name n i. dent_byte z k j \<noteq> 0 \<and> dent_byte z k j = char_at name j)
     \<and> (match_len z k name n i < n \<longrightarrow> dent_byte z k (match_len z k name n i) = 0
         \<or> dent_byte z k (match_len z k name n i) \<noteq> char_at name (match_len z k name n i))"
proof (induction z k name n i rule: match_len.induct)
  case (1 z k name n i)
  show ?case
  proof (cases "i < n \<and> dent_byte z k i \<noteq> 0 \<and> dent_byte z k i = char_at name i")
    case True
    then have e: "match_len z k name n i = match_len z k name n (Suc i)"
      by (subst match_len.simps) (rule if_P)
    show ?thesis unfolding e by (rule 1(1)) (use True 1(3) in \<open>auto simp: less_Suc_eq\<close>)
  next
    case False
    then have "match_len z k name n i = i" by (subst match_len.simps) (simp only: if_False)
    with False 1(2,3) show ?thesis by auto
  qed
qed

lemma name_matches_iff:
  "name_matches z k name n \<longleftrightarrow>
     (\<forall>j < n. dent_byte z k j \<noteq> 0 \<and> dent_byte z k j = char_at name j) \<and> dent_byte z k n = 0"
  using match_len_spec [of 0 n z k name] unfolding name_matches_def Let_def
  by (metis less_nat_zero_code nat_less_le zero_le)

lemma name_matches_dent_name:
  assumes nul: "\<exists>i < 32. dent_byte z k i = 0" and name: "0 \<notin> set (map (char_at name) [0..<n])"
  shows "name_matches z k name n \<longleftrightarrow> dent_name z k = map (char_at name) [0..<n]"
proof
  assume m: "name_matches z k name n"
  then have eq: "\<forall>j < n. dent_byte z k j \<noteq> 0 \<and> dent_byte z k j = char_at name j" "dent_byte z k n = 0"
    unfolding name_matches_iff by blast+
  from nul eq have "n < 32" by (meson not_le_imp_less order_less_le_trans)
  with eq have "dent_name z k = map (dent_byte z k) [0..<n]"
    unfolding dent_name_def by (intro takeWhile_map_upt) auto
  with eq show "dent_name z k = map (char_at name) [0..<n]" by simp
next
  assume d: "dent_name z k = map (char_at name) [0..<n]"
  obtain m where m: "m < 32" "dent_byte z k m = 0" "\<forall>j < m. dent_byte z k j \<noteq> 0"
    using nul exists_least_iff [of "\<lambda>i. i < 32 \<and> dent_byte z k i = 0"] by auto
  then have "dent_name z k = map (dent_byte z k) [0..<m]"
    unfolding dent_name_def by (intro takeWhile_map_upt)
  with d have e: "map (dent_byte z k) [0..<m] = map (char_at name) [0..<n]" by simp
  then have "m = n" by (metis length_map length_upt diff_zero)
  with e m show "name_matches z k name n" by (auto simp: name_matches_iff)
qed

lemma copy_name_spec:
  "i \<le> m \<Longrightarrow> m = min 31 (str_len name) \<Longrightarrow>
     copy_name z a name i x = (if a + i \<le> x \<and> x < a + m then char_at name (x - a)
       else if x = a + m then 0 else z x)"
proof (induction z a name i rule: copy_name.induct)
  case (1 z a name i)
  note nz = char_at_nz [of _ name] and z = char_at_str_len [of name]
  show ?case
  proof (cases "i < m")
    case True
    then have c: "i < 31 \<and> char_at name i \<noteq> 0" using nz 1(3) by simp
    then have e: "copy_name z a name i = copy_name (z(a + i := char_at name i)) a name (Suc i)"
      by (simp add: copy_name.simps [of z a name i])
    show ?thesis unfolding e by (subst 1(1) [OF c]) (use True 1(3) in auto)
  next
    case False
    then have "i = m" using 1(2) by simp
    then have "\<not> (i < 31 \<and> char_at name i \<noteq> 0)" using z 1(3) by (auto simp: min_def split: if_splits)
    then have "copy_name z a name i = z(a + i := 0)" by (subst copy_name.simps) (simp only: if_False)
    with \<open>i = m\<close> show ?thesis by auto
  qed
qed

section \<open>The map a directory stands for\<close>

definition dent :: "munin \<Rightarrow> nat \<Rightarrow> nat \<times> nat \<Rightarrow> (cstr \<times> nat) option" where
  "dent s d x = (let w = ptr s (d, Direct (fst x)) in
     if w = NO_BLOCK \<or> snd x \<ge> 14 \<or> itype (g_inodes s d) \<noteq> INODE_DIR then None
     else let z = g_blocks s (unat w) in
       if dent_inode z (snd x) = - 1 then None
       else Some (dent_name z (snd x), nat (dent_inode z (snd x))))"

definition dir_map :: "munin \<Rightarrow> nat \<Rightarrow> cstr \<Rightarrow> nat option" where
  "dir_map s d nm = (case find (\<lambda>x. map_option fst (dent s d x) = Some nm) dir_slots of
       Some x \<Rightarrow> map_option snd (dent s d x) | None \<Rightarrow> None)"

definition dents_ok :: "munin \<Rightarrow> nat \<Rightarrow> bool" where
  "dents_ok s d \<longleftrightarrow> (\<forall>b k. ptr s (d, Direct b) \<noteq> NO_BLOCK \<longrightarrow> k < 14 \<longrightarrow>
     (let z = g_blocks s (unat (ptr s (d, Direct b))) in dent_inode z k \<noteq> - 1 \<longrightarrow>
        0 \<le> dent_inode z k \<and> (\<exists>i < 32. dent_byte z k i = 0)))"

definition is_dir :: "munin \<Rightarrow> nat \<Rightarrow> bool" where
  "is_dir s d \<longleftrightarrow> d < 128 \<and> itype (g_inodes s d) = INODE_DIR"

lemma is_dir_live: "is_dir s d \<Longrightarrow> live s d"
  by (simp add: is_dir_def live_def)

lemma set_dir_slots: "(b, k) \<in> set dir_slots \<longleftrightarrow> b < 8 \<and> k < 14"
  unfolding dir_slots_def set_product set_upt by auto

lemma dent_slots: "dent s d x \<noteq> None \<Longrightarrow> x \<in> set dir_slots"
  by (cases x) (auto simp: dent_def ptr_def set_dir_slots Let_def split: if_splits)

lemma dent_SomeD: "dent s d x = Some e \<Longrightarrow> x \<in> set dir_slots"
  using dent_slots [of s d x] by simp

lemma find_SomeD: "find P xs = Some x \<Longrightarrow> x \<in> set xs \<and> P x"
  by (auto simp: find_Some_iff)

lemma find_cong_set: "(\<And>x. x \<in> set xs \<Longrightarrow> P x = Q x) \<Longrightarrow> find P xs = find Q xs"
  by (induction xs) auto

lemma dirent_scan_dent:
  assumes d: "is_dir s d" and ok: "dents_ok s d" and name: "0 \<notin> set (map (char_at name) [0..<n])"
  shows "dirent_scan s d name n =
    find (\<lambda>x. map_option fst (dent s d x) = Some (map (char_at name) [0..<n])) dir_slots"
proof -
  let ?nm = "map (char_at name) [0..<n]"
  have p: "ptr s (d, Direct b) = iblocks (g_inodes s d) b" if "b < 8" for b
    using that is_dir_live [OF d] by (simp add: ptr_def)
  show ?thesis
    unfolding dirent_scan_def Let_def
  proof (rule find_cong_set)
    fix x :: "nat \<times> nat" assume x: "x \<in> set dir_slots"
    obtain b k where bk: "x = (b, k)" by (cases x)
    with x have lt: "b < 8" "k < 14" by (simp_all add: set_dir_slots)
    let ?z = "g_blocks s (unat (iblocks (g_inodes s d) b))"
    have "name_matches ?z k name n \<longleftrightarrow> dent_name ?z k = ?nm"
      if "iblocks (g_inodes s d) b \<noteq> NO_BLOCK" "dent_inode ?z k \<noteq> - 1"
      using ok [unfolded dents_ok_def Let_def, rule_format, of b k] that lt name
      by (intro name_matches_dent_name) (simp_all add: p)
    then show "(case x of (b, k) \<Rightarrow> iblocks (g_inodes s d) b \<noteq> NO_BLOCK
          \<and> dent_inode (g_blocks s (unat (iblocks (g_inodes s d) b))) k \<noteq> - 1
          \<and> name_matches (g_blocks s (unat (iblocks (g_inodes s d) b))) k name n)
        = (map_option fst (dent s d x) = Some ?nm)"
      using d lt by (auto simp: bk dent_def p is_dir_def Let_def)
  qed
qed

text \<open>The slot a scan stops at holds the first entry of that name.\<close>

lemma dirent_scan_Some:
  assumes d: "is_dir s d" and ok: "dents_ok s d" and name: "0 \<notin> set (map (char_at name) [0..<n])"
    and scan: "dirent_scan s d name n = Some (b, k)"
  shows "ptr s (d, Direct b) = iblocks (g_inodes s d) b" "ptr s (d, Direct b) \<noteq> NO_BLOCK" "k < 14"
    "dent s d (b, k) = Some (map (char_at name) [0..<n],
       nat (dent_inode (g_blocks s (unat (iblocks (g_inodes s d) b))) k))"
    "0 \<le> dent_inode (g_blocks s (unat (iblocks (g_inodes s d) b))) k"
proof -
  note f = scan [unfolded dirent_scan_dent [OF d ok name]]
  have x: "(b, k) \<in> set dir_slots" "map_option fst (dent s d (b, k)) = Some (map (char_at name) [0..<n])"
    using find_SomeD [OF f] by simp_all
  then have lt: "b < 8" "k < 14" by (simp_all add: set_dir_slots)
  show p: "ptr s (d, Direct b) = iblocks (g_inodes s d) b"
    using lt is_dir_live [OF d] by (simp add: ptr_def)
  show "k < 14" by (rule lt)
  show nn: "ptr s (d, Direct b) \<noteq> NO_BLOCK" using x(2) by (auto simp: dent_def)
  show "dent s d (b, k) = Some (map (char_at name) [0..<n],
       nat (dent_inode (g_blocks s (unat (iblocks (g_inodes s d) b))) k))"
    using x(2) by (auto simp: dent_def p Let_def split: if_splits)
  show "0 \<le> dent_inode (g_blocks s (unat (iblocks (g_inodes s d) b))) k"
    using ok [unfolded dents_ok_def Let_def, rule_format, OF nn lt(2)] x(2)
    by (auto simp: dent_def p Let_def split: if_splits)
qed

lemma dir_lookup_map:
  assumes d: "is_dir s d" and ok: "dents_ok s d" and name: "0 \<notin> set (map (char_at name) [0..<n])"
  shows "dir_lookup s d name n =
    (case dir_map s d (map (char_at name) [0..<n]) of Some c \<Rightarrow> int c | None \<Rightarrow> - 1)"
proof (cases "dirent_scan s d name n")
  case None
  then show ?thesis
    by (simp add: dir_lookup_def dir_map_def dirent_scan_dent [OF d ok name])
next
  case (Some x)
  obtain b k where bk: "x = (b, k)" by (cases x)
  note sc = dirent_scan_Some [OF d ok name Some [unfolded bk]]
  from Some bk have "dir_map s d (map (char_at name) [0..<n])
      = Some (nat (dent_inode (g_blocks s (unat (iblocks (g_inodes s d) b))) k))"
    unfolding dirent_scan_dent [OF d ok name] by (simp add: dir_map_def sc(4))
  with Some bk sc(5) show ?thesis by (simp add: dir_lookup_def)
qed

text \<open>Unique names make the map exactly the set of entries.\<close>

definition names_unique :: "munin \<Rightarrow> nat \<Rightarrow> bool" where
  "names_unique s d \<longleftrightarrow> (\<forall>x y nm c c'. dent s d x = Some (nm, c) \<longrightarrow> dent s d y = Some (nm, c') \<longrightarrow> x = y)"

lemma dir_map_None: "dir_map s d nm = None \<longleftrightarrow> (\<forall>x c. dent s d x \<noteq> Some (nm, c))"
proof -
  have "find (\<lambda>x. map_option fst (dent s d x) = Some nm) dir_slots = None
      \<longleftrightarrow> (\<forall>x c. dent s d x \<noteq> Some (nm, c))"
    using dent_SomeD [of s d] unfolding find_None_iff by fastforce
  moreover have "dent s d x \<noteq> None" if "find (\<lambda>x. map_option fst (dent s d x) = Some nm) dir_slots = Some x" for x
    using that by (auto simp: find_Some_iff)
  ultimately show ?thesis by (auto simp: dir_map_def split: option.split)
qed

lemma dir_map_Some:
  assumes "names_unique s d"
  shows "dir_map s d nm = Some c \<longleftrightarrow> (\<exists>x. dent s d x = Some (nm, c))"
proof
  assume "dir_map s d nm = Some c"
  then obtain x where "find (\<lambda>x. map_option fst (dent s d x) = Some nm) dir_slots = Some x"
      "map_option snd (dent s d x) = Some c"
    by (auto simp: dir_map_def split: option.splits)
  from this(2) find_SomeD [OF this(1)] have "dent s d x = Some (nm, c)" by auto
  then show "\<exists>x. dent s d x = Some (nm, c)" ..
next
  assume "\<exists>x. dent s d x = Some (nm, c)"
  then obtain x where x: "dent s d x = Some (nm, c)" ..
  then obtain c' where c': "dir_map s d nm = Some c'" using dir_map_None by fastforce
  then obtain y where y: "find (\<lambda>x. map_option fst (dent s d x) = Some nm) dir_slots = Some y"
      "map_option snd (dent s d y) = Some c'"
    by (auto simp: dir_map_def split: option.splits)
  from y(2) find_SomeD [OF y(1)] have "dent s d y = Some (nm, c')" by auto
  with assms x have "x = y" unfolding names_unique_def by blast
  with x \<open>dent s d y = _\<close> c' show "dir_map s d nm = Some c" by simp
qed

section \<open>\<^verbatim>\<open>add_dirent\<close>\<close>

lemma get32_clear_dirents: "k < n \<Longrightarrow> get32 (clear_dirents z n) (36 * k) = - 1"
proof (induction n)
  case (Suc n)
  show ?case
  proof (cases "k = n")
    case False
    with Suc have "k < n" by simp
    then have "get32 (put32 m (36 * n) (- 1)) (36 * k) = get32 m (36 * k)" for m
      by (intro get32_put32_other) linarith
    with Suc \<open>k < n\<close> show ?thesis by simp
  qed (simp add: get32_put32)
qed simp

lemma dent_inode_clear: "k < n \<Longrightarrow> dent_inode (clear_dirents z n) k = - 1"
  by (simp add: dent_inode_def get32_clear_dirents)

lemma put_dirent_bytes:
  "put_dirent z k name child x = (if 36 * k + 4 \<le> x \<and> x < 36 * k + 4 + min 31 (str_len name)
     then char_at name (x - (36 * k + 4))
     else if x = 36 * k + 4 + min 31 (str_len name) then 0
     else put32 z (36 * k) (word_of_int child) x)"
  unfolding put_dirent_def by (subst copy_name_spec [OF _ refl]) simp_all

lemma dent_inode_put:
  "dent_inode (put_dirent z k name child) l =
     (if l = k then sint (word_of_int child :: u32) else dent_inode z l)"
proof (cases "l = k")
  case True
  have "get32 (put_dirent z k name child) (36 * k) = get32 (put32 z (36 * k) (word_of_int child)) (36 * k)"
    by (rule get32_cong) (simp add: put_dirent_bytes)
  with True show ?thesis by (simp add: dent_inode_def get32_put32)
next
  case False
  have "get32 (put_dirent z k name child) (36 * l) = get32 z (36 * l)"
  proof (rule get32_cong)
    fix x assume x: "36 * l \<le> x" "x < 36 * l + 4"
    have m: "min 31 (str_len name) \<le> 31" by simp
    from False have "l < k \<or> k < l" by auto
    then have "x < 36 * k \<or> 36 * k + 36 \<le> x" using x by linarith
    with m show "put_dirent z k name child x = z x" unfolding put_dirent_bytes put32_def by auto
  qed
  with False show ?thesis by (simp add: dent_inode_def)
qed

lemma dent_byte_put_other: "l \<noteq> k \<Longrightarrow> i < 32 \<Longrightarrow> dent_byte (put_dirent z k name child) l i = dent_byte z l i"
proof -
  assume "l \<noteq> k" "i < 32"
  then have "l < k \<or> k < l" by auto
  then have x: "36 * l + 4 + i < 36 * k \<or> 36 * k + 36 \<le> 36 * l + 4 + i" using \<open>i < 32\<close> by linarith
  have m: "min 31 (str_len name) \<le> 31" by simp
  from x m show ?thesis unfolding dent_byte_def put_dirent_bytes put32_def by auto
qed

lemma dent_name_put_other: "l \<noteq> k \<Longrightarrow> dent_name (put_dirent z k name child) l = dent_name z l"
proof -
  assume "l \<noteq> k"
  then have "map (dent_byte (put_dirent z k name child) l) [0..<32] = map (dent_byte z l) [0..<32]"
    by (intro map_cong refl dent_byte_put_other) simp_all
  then show ?thesis by (simp only: dent_name_def)
qed

lemma dent_put_same:
  assumes "str_len name < 32"
  shows "dent_name (put_dirent z k name child) k = take (str_len name) name"
    "\<exists>i < 32. dent_byte (put_dirent z k name child) k i = 0"
proof -
  let ?n = "str_len name"
  have min: "min 31 ?n = ?n" using assms by simp
  note nz = char_at_nz [of _ name]
  have b: "dent_byte (put_dirent z k name child) k j = (if j < ?n then char_at name j else 0)" if "j \<le> ?n" for j
    using that by (simp add: dent_byte_def put_dirent_bytes min)
  have "dent_name (put_dirent z k name child) k = map (dent_byte (put_dirent z k name child) k) [0..<?n]"
    unfolding dent_name_def by (rule takeWhile_map_upt) (use b nz assms in auto)
  also have "\<dots> = map (char_at name) [0..<?n]" using b by simp
  also have "\<dots> = take ?n name"
    using str_len_le [of name] by (intro nth_equalityI) (auto simp: char_at_def)
  finally show "dent_name (put_dirent z k name child) k = take ?n name" .
  show "\<exists>i < 32. dent_byte (put_dirent z k name child) k i = 0"
    using b [of ?n] assms by auto
qed

lemma ensure_dir_block_spec:
  assumes inv: "blk_inv s" and d: "is_dir s d" and ok: "dents_ok s d" and b: "b < 8"
    and r: "ensure_dir_block s d b = (r, s')"
  shows "blk_inv s' \<and> same_but d s s' \<and> g_inodes s' d = (g_inodes s d)\<lparr>iblocks := iblocks (g_inodes s' d)\<rparr>
    \<and> dents_ok s' d \<and> (\<forall>x. dent s' d x = dent s d x)
    \<and> (if r then ptr s' (d, Direct b) \<noteq> NO_BLOCK else s' = s \<and> avail_blocks s' = {})"
proof (cases "iblocks (g_inodes s d) b = NO_BLOCK")
  case False
  with inv d ok b r show ?thesis
    using is_dir_live [OF d] by (auto simp: ensure_dir_block_def ptr_def)
next
  case True
  then have no: "ptr s (d, Direct b) = NO_BLOCK" by (simp add: ptr_def)
  show ?thesis
  proof (cases rule: alloc_block_cases [of s])
    case full
    with True r inv ok show ?thesis by (auto simp: ensure_dir_block_def)
  next
    case (ok blk)
    define s1 where "s1 = s\<lparr>g_block_used := bitmap_set (g_block_used s) blk\<rparr>"
    define s2 where "s2 = upd_block blk (\<lambda>de. clear_dirents de 14) s1"
    have "upd_block blk f (upd_inode d g s1) = upd_inode d g (upd_block blk f s1)" for f g
      by (simp add: upd_block_def upd_inode_def)
    then have s': "r" "s' = upd_inode d (\<lambda>f. f\<lparr>iblocks := (iblocks f)(b := of_nat blk)\<rparr>) s2"
      using r True ok(1) by (auto simp: ensure_dir_block_def s1_def s2_def)
    have f: "fresh_rel s blk s2" unfolding s2_def s1_def by (rule fresh_rel_upd [OF inv ok(2,3)])
    have a: "attached d (Direct b) blk s s'"
      unfolding s' by (rule attach_direct [OF inv is_dir_live [OF d] b no f])
    have pb: "ptr s' (d, Direct c) = (if c = b then of_nat blk else ptr s (d, Direct c))" for c
      using a by (simp add: attached_def)
    have zb: "g_blocks s' blk = clear_dirents (g_blocks s blk) 14"
      by (simp add: s' s2_def s1_def)
    have other: "g_blocks s' (unat (ptr s (d, Direct c))) = g_blocks s (unat (ptr s (d, Direct c)))"
      if "ptr s (d, Direct c) \<noteq> NO_BLOCK" for c
      using a that by (auto simp: attached_def)
    have ty: "itype (g_inodes s' d) = itype (g_inodes s d)" using a by (simp add: attached_def)
    have "dent s' d x = dent s d x" for x
    proof (cases "fst x = b")
      case True
      then show ?thesis
        using no ok(2) by (auto simp: dent_def pb zb ty Let_def dent_inode_clear)
    next
      case False
      then show ?thesis using other [of "fst x"] by (auto simp: dent_def pb ty Let_def)
    qed
    moreover have "dents_ok s' d"
      unfolding dents_ok_def
    proof (intro allI impI)
      fix c k assume c: "ptr s' (d, Direct c) \<noteq> NO_BLOCK" and k: "k < (14 :: nat)"
      show "let z = g_blocks s' (unat (ptr s' (d, Direct c))) in dent_inode z k \<noteq> - 1 \<longrightarrow>
          0 \<le> dent_inode z k \<and> (\<exists>i<32. dent_byte z k i = 0)"
      proof (cases "c = b")
        case True
        then show ?thesis using ok(2) k by (simp add: pb zb dent_inode_clear)
      next
        case False
        then show ?thesis using c k other [of c] \<open>dents_ok s d\<close> [unfolded dents_ok_def, rule_format, of c k]
          by (simp add: pb)
      qed
    qed
    moreover have "g_inodes s' d = (g_inodes s d)\<lparr>iblocks := iblocks (g_inodes s' d)\<rparr>"
      by (simp add: s' s2_def s1_def)
    ultimately show ?thesis
      using attached_blk_inv [OF inv no a] attached_same_but [OF a] s'(1) ok(2) by (simp add: pb)
  qed
qed

lemma sint_child: "c < 128 \<Longrightarrow> sint (word_of_int (int c) :: u32) = int c"
proof -
  assume c: "c < 128"
  then have "unat (of_nat c :: u32) = c" by (intro unat_of_nat_u32) simp
  with c sint_small [of "of_nat c :: u32"] show ?thesis by simp
qed

text \<open>Storing an entry in slot \<open>x\<close> of a directory and counting it.\<close>

lemma put_dirent_spec:
  assumes inv: "blk_inv s" and d: "is_dir s d" and ok: "dents_ok s d"
    and b: "ptr s (d, Direct b) \<noteq> NO_BLOCK" and k: "k < 14" and child: "c < 128"
    and name: "str_len name < 32"
    and s': "s' = upd_inode d (\<lambda>d. d\<lparr>isize := isize d + 1\<rparr>)
       (upd_block (unat (ptr s (d, Direct b))) (\<lambda>de. put_dirent de k name (int c)) s)"
  shows "blk_inv s'" "same_but d s s'" "dents_ok s' d"
    "dent s' d = (dent s d)((b, k) := Some (take (str_len name) name, c))"
    "g_inodes s' d = (g_inodes s d)\<lparr>isize := isize (g_inodes s d) + 1\<rparr>"
proof -
  let ?w = "ptr s (d, Direct b)"
  define s1 where "s1 = upd_block (unat ?w) (\<lambda>de. put_dirent de k name (int c)) s"
  have s1: "s' = upd_inode d (\<lambda>d. d\<lparr>isize := isize d + 1\<rparr>) s1" unfolding s' s1_def ..
  have p1: "ptr s1 = ptr s" unfolding s1_def by (rule ptr_upd_data [OF inv b]) simp
  have e: "upd_inode d (\<lambda>d. d\<lparr>isize := isize d + 1\<rparr>) s1 = upd_inode d (\<lambda>f. f\<lparr>isize := isize (g_inodes s1 d) + 1\<rparr>) s1"
    by (simp add: upd_inode_def)
  have p: "ptr s' = ptr s" by (simp only: s1 e ptr_upd_size p1)
  have u: "used s' = used s" by (simp add: s1 s1_def)
  show "blk_inv s'" by (rule blk_inv_same [OF inv p u])
  have other: "unat (ptr s x) \<noteq> unat ?w" if "ptr s x \<noteq> NO_BLOCK" "x \<noteq> (d, Direct b)" for x
    using ptr_unat_inj [OF inv that(1)] that(2) by blast
  have blk: "g_blocks s' (unat (ptr s x)) = (if x = (d, Direct b) then put_dirent (g_blocks s (unat ?w)) k name (int c)
      else g_blocks s (unat (ptr s x)))" if "ptr s x \<noteq> NO_BLOCK" for x
    using other [OF that] by (auto simp: s1 s1_def)
  show "same_but d s s'" unfolding same_but_def p using blk by (auto simp: s1 s1_def)
  show g: "g_inodes s' d = (g_inodes s d)\<lparr>isize := isize (g_inodes s d) + 1\<rparr>" by (simp add: s1 s1_def)
  have di: "dent_inode (put_dirent z k name (int c)) l = (if l = k then int c else dent_inode z l)" for z l
    using sint_child [OF child] by (simp add: dent_inode_put)
  show "dent s' d = (dent s d)((b, k) := Some (take (str_len name) name, c))"
  proof (rule ext)
    fix x :: "nat \<times> nat"
    obtain b' l where x: "x = (b', l)" by (cases x)
    show "dent s' d x = ((dent s d)((b, k) := Some (take (str_len name) name, c))) x"
    proof (cases "ptr s (d, Direct b') = NO_BLOCK")
      case True
      with b show ?thesis by (auto simp: x dent_def p)
    next
      case nn: False
      show ?thesis
      proof (cases "b' = b")
        case True
        then show ?thesis
          using b blk [OF b] d k
          by (auto simp: x dent_def p g di is_dir_def dent_put_same(1) [OF name] dent_name_put_other Let_def)
      next
        case False
        then show ?thesis using blk [OF nn] by (auto simp: x dent_def p g Let_def)
      qed
    qed
  qed
  show "dents_ok s' d"
    unfolding dents_ok_def p
  proof (intro allI impI)
    fix b' l assume nn: "ptr s (d, Direct b') \<noteq> NO_BLOCK" and l: "l < (14 :: nat)"
    note old = ok [unfolded dents_ok_def Let_def, rule_format, OF nn l]
    show "let z = g_blocks s' (unat (ptr s (d, Direct b'))) in dent_inode z l \<noteq> - 1 \<longrightarrow>
        0 \<le> dent_inode z l \<and> (\<exists>i<32. dent_byte z l i = 0)"
    proof (cases "b' = b")
      case True
      show ?thesis
      proof (cases "l = k")
        case True
        with \<open>b' = b\<close> show ?thesis
          using blk [OF nn] dent_put_same(2) [OF name] by (simp add: di)
      next
        case False
        have "dent_inode (g_blocks s (unat ?w)) l \<noteq> - 1 \<Longrightarrow>
            \<exists>i<32. dent_byte (put_dirent (g_blocks s (unat ?w)) k name (int c)) l i = 0"
          using old True dent_byte_put_other [OF False] by metis
        with False True old show ?thesis
          using blk [OF nn] by (simp add: di)
      qed
    next
      case False
      with blk [OF nn] old show ?thesis by simp
    qed
  qed
qed

lemma dents_ok_same_but:
  assumes "same_but i s s'" and "d \<noteq> i"
  shows "dents_ok s' d \<longleftrightarrow> dents_ok s d" "dent s' d x = dent s d x"
proof -
  note p = same_but_ptr [OF assms] and b = same_but_block [OF assms] and n = same_but_inode [OF assms]
  show "dents_ok s' d \<longleftrightarrow> dents_ok s d"
    unfolding dents_ok_def p by (auto simp: b Let_def)
  show "dent s' d x = dent s d x"
    unfolding dent_def p n by (auto simp: b Let_def)
qed

text \<open>
  \<^verbatim>\<open>add_dirent\<close> fills one empty slot and counts it, or changes no entry because every slot of the
  blocks it could get is taken.
\<close>

definition entry_added :: "munin \<Rightarrow> munin \<Rightarrow> nat \<Rightarrow> cstr \<Rightarrow> nat \<Rightarrow> bool" where
  "entry_added s s' d nm c \<longleftrightarrow> (\<exists>x \<in> set dir_slots. dent s d x = None \<and>
     dent s' d = (dent s d)(x := Some (nm, c)))"

lemma add_dirent_loop_spec:
  assumes "add_dirent_loop s d name (int c) bs = (r, s')" and "blk_inv s" and "is_dir s d"
    and "dents_ok s d" and "c < 128" and "str_len name < 32" and "set bs \<subseteq> {..<8}"
  shows "blk_inv s' \<and> same_but d s s' \<and> dents_ok s' d
    \<and> itype (g_inodes s' d) = itype (g_inodes s d) \<and> iindirect (g_inodes s' d) = iindirect (g_inodes s d)
    \<and> (if r then isize (g_inodes s' d) = isize (g_inodes s d) + 1
         \<and> entry_added s s' d (take (str_len name) name) c
       else isize (g_inodes s' d) = isize (g_inodes s d) \<and> dent s' d = dent s d
         \<and> (avail_blocks s' = {} \<or> (\<forall>b \<in> set bs. \<forall>k < 14. dent s d (b, k) \<noteq> None)))"
  using assms
proof (induction bs arbitrary: s)
  case Nil
  then show ?case by auto
next
  case (Cons b bs)
  obtain r1 s1 where e: "ensure_dir_block s d b = (r1, s1)" by (cases "ensure_dir_block s d b")
  have b: "b < 8" using Cons.prems by simp
  note es = ensure_dir_block_spec [OF Cons.prems(2-4) b e]
  then have node: "itype (g_inodes s1 d) = itype (g_inodes s d)" "isize (g_inodes s1 d) = isize (g_inodes s d)"
      "iindirect (g_inodes s1 d) = iindirect (g_inodes s d)"
    by (metis inode.select_convs inode.surjective inode.update_convs(3))+
  have dent1: "dent s1 d = dent s d" using es by (simp add: fun_eq_iff del: split_paired_All)
  show ?case
  proof (cases r1)
    case False
    with e Cons.prems(1) have "\<not> r" "s' = s1" by simp_all
    with es False node dent1 show ?thesis by auto
  next
    case True
    let ?blk = "unat (iblocks (g_inodes s1 d) b)"
    have d1: "is_dir s1 d" using Cons.prems(3) node by (simp add: is_dir_def)
    have pb: "ptr s1 (d, Direct b) \<noteq> NO_BLOCK" using es True by simp
    have w: "iblocks (g_inodes s1 d) b = ptr s1 (d, Direct b)"
      using b is_dir_live [OF d1] by (simp add: ptr_def)
    have inv1: "blk_inv s1" and ok1: "dents_ok s1 d" and sb1: "same_but d s s1" using es by simp_all
    show ?thesis
    proof (cases "find (\<lambda>k. dent_inode (g_blocks s1 ?blk) k = - 1) [0..<14]")
      case None
      then have full: "\<forall>k < 14. dent_inode (g_blocks s1 ?blk) k \<noteq> - 1" by (simp add: find_None_iff)
      from None e True Cons.prems(1) have r: "add_dirent_loop s1 d name (int c) bs = (r, s')" by simp
      have "set bs \<subseteq> {..<8}" using Cons.prems(7) by simp
      note ih = Cons.IH [OF r inv1 d1 ok1 Cons.prems(5,6) this]
      have "dent s d (b, k) \<noteq> None" if "k < 14" for k
        using full that d1 pb unfolding dent1 [symmetric] w by (simp add: dent_def is_dir_def Let_def)
      moreover have "entry_added s1 s' d nm c = entry_added s s' d nm c" for nm
        by (simp only: entry_added_def dent1)
      ultimately show ?thesis using ih node
        unfolding dent1 using same_but_trans [OF sb1] by (auto split: if_splits)
    next
      case (Some k)
      then have k: "k < 14" "dent_inode (g_blocks s1 ?blk) k = - 1"
        using find_SomeD [OF Some] by simp_all
      have s': "r" "s' = upd_inode d (\<lambda>d. d\<lparr>isize := isize d + 1\<rparr>)
          (upd_block (unat (ptr s1 (d, Direct b))) (\<lambda>de. put_dirent de k name (int c)) s1)"
        using Some e True Cons.prems(1) by (simp_all add: w)
      note ps = put_dirent_spec [OF inv1 d1 ok1 pb k(1) Cons.prems(5,6) s'(2)]
      have "dent s d (b, k) = None"
        unfolding dent1 [symmetric] using k w by (simp add: dent_def Let_def)
      moreover have "(b, k) \<in> set dir_slots" using b k(1) by (simp add: set_dir_slots)
      ultimately have "entry_added s s' d (take (str_len name) name) c"
        unfolding entry_added_def using ps(4) unfolding dent1 by blast
      then show ?thesis
        using ps s'(1) node same_but_trans [OF sb1 ps(2)] by simp
    qed
  qed
qed

end
