(* ===== verification/Munin_File.thy ===== *)
theory Munin_File
  imports Munin
begin

text \<open>
  File data of munin.cpp: the whole-file \<^verbatim>\<open>munin_write\<close> and \<^verbatim>\<open>munin_read\<close> and the offset-aware
  \<^verbatim>\<open>munin_read_inode\<close>, \<^verbatim>\<open>munin_write_inode\<close> and \<^verbatim>\<open>munin_truncate\<close>. The loops keep their 32-bit
  counters; a user buffer is a function from offsets to bytes.
\<close>

section \<open>The write loop\<close>

function write_inode_loop ::
  "munin \<Rightarrow> nat \<Rightarrow> (nat \<Rightarrow> u8) \<Rightarrow> u32 \<Rightarrow> u32 \<Rightarrow> u32 \<Rightarrow> u32 \<times> munin" where
  "write_inode_loop s i src len offset written =
     (if written < len then
        let pos = offset + written; b = pos div 512; boff = pos mod 512;
            (blk, s1) = block_for s i (uint b) True
        in if blk = NO_BLOCK then (written, s1)
           else let chunk = (if 512 - boff > len - written then len - written else 512 - boff);
                    s2 = upd_block (unat blk)
                      (\<lambda>dst. blit dst (unat boff) src (unat written) (unat chunk)) s1
                in write_inode_loop s2 i src len offset (written + chunk)
      else (written, s))"
  by pat_completeness auto

lemma chunk_bounds:
  assumes w: "written < len" and boff: "boff = (pos :: u32) mod 512"
    and c: "chunk = (if 512 - boff > len - written then len - written else 512 - boff)"
  shows "0 < unat chunk" "unat boff + unat chunk \<le> 512" "unat written + unat chunk \<le> unat len"
    "unat (written + chunk) = unat written + unat chunk"
    "unat chunk = min (512 - unat boff) (unat len - unat written)"
proof -
  have b: "unat boff < 512" unfolding boff by (simp add: unat_mod)
  then have "boff \<le> 512" by (simp add: word_le_nat_alt)
  then have d: "unat (512 - boff) = 512 - unat boff" by (simp add: unat_sub_le)
  have l: "unat (len - written) = unat len - unat written" using w by (simp add: unat_sub_le)
  have wl: "unat written < unat len" using w by (simp add: word_less_nat_alt)
  show e: "unat chunk = min (512 - unat boff) (unat len - unat written)"
    unfolding c by (simp add: word_less_nat_alt d l)
  with b wl show "0 < unat chunk" "unat boff + unat chunk \<le> 512" by auto
  from e wl show le: "unat written + unat chunk \<le> unat len" by auto
  then show "unat (written + chunk) = unat written + unat chunk"
    using unat_u32_lt [of len] by (intro unat_add_u32) linarith
qed

termination write_inode_loop
proof (relation "measure (\<lambda>(s, i, src, len, offset, written). unat len - unat written)", goal_cases)
  case 1
  show ?case by simp
next
  case (2 s i src len offset written pos b boff x blk s1 chunk s2)
  note cb = chunk_bounds [OF 2(1,4,8)]
  from cb(1,3,4) show ?case by simp
qed

declare write_inode_loop.simps [simp del]

text \<open>One chunk stored in a block of the file.\<close>

lemma store_chunk:
  assumes inv: "blk_inv s" and w: "ptr s (i, lslot b) \<noteq> NO_BLOCK" and n: "boff + n \<le> 512"
    and s': "s' = upd_block (unat (ptr s (i, lslot b))) (\<lambda>dst. blit dst boff src k n) s"
  shows "ptr s' = ptr s" "blk_inv s'" "same_but i s s'" "used s' = used s" "g_inodes s' = g_inodes s"
    "content s' i p = (if 512 * b + boff \<le> p \<and> p < 512 * b + boff + n
       then src (k + (p - (512 * b + boff))) else content s i p)"
proof -
  show p: "ptr s' = ptr s" unfolding s' by (rule ptr_upd_data [OF inv w]) simp
  show u: "used s' = used s" "g_inodes s' = g_inodes s" unfolding s' by simp_all
  show "blk_inv s'" by (rule blk_inv_same [OF inv p u(1)])
  have other: "unat (ptr s x) \<noteq> unat (ptr s (i, lslot b))" if "ptr s x \<noteq> NO_BLOCK" "x \<noteq> (i, lslot b)" for x
    using ptr_unat_inj [OF inv that(1)] that(2) by blast
  show "same_but i s s'"
    unfolding same_but_def p u(2) by (auto simp: s' dest: other)
  show "content s' i p = (if 512 * b + boff \<le> p \<and> p < 512 * b + boff + n
       then src (k + (p - (512 * b + boff))) else content s i p)"
  proof (cases "p div 512 = b")
    case True
    then have "p = 512 * b + p mod 512" "p mod 512 < 512" by auto
    then obtain r where "p = 512 * b + r" "r < 512" by blast
    with w show ?thesis unfolding content_def p by (simp add: s' blit_apply)
  next
    case False
    then have "lslot (p div 512) \<noteq> lslot b" by simp
    then have "g_blocks s' (unat (ptr s (i, lslot (p div 512)))) = g_blocks s (unat (ptr s (i, lslot (p div 512))))"
      if "ptr s (i, lslot (p div 512)) \<noteq> NO_BLOCK"
      using other [OF that] unfolding s' by simp
    then have "content s' i p = content s i p" unfolding content_def p by (simp add: Let_def)
    moreover have "\<not> (512 * b + boff \<le> p \<and> p < 512 * b + boff + n)" using False n by auto
    ultimately show ?thesis by (simp only: if_False)
  qed
qed

text \<open>
  \<open>wrote i src off w w' s s'\<close>: the bytes \<open>w\<close> to \<open>w'\<close> of the buffer are now at \<open>off + w\<close> and up.
\<close>

definition wrote :: "nat \<Rightarrow> (nat \<Rightarrow> u8) \<Rightarrow> nat \<Rightarrow> nat \<Rightarrow> nat \<Rightarrow> munin \<Rightarrow> munin \<Rightarrow> bool" where
  "wrote i src off w w' s s' \<longleftrightarrow> w \<le> w' \<and> blk_inv s' \<and> same_but i s s'
     \<and> itype (g_inodes s' i) = itype (g_inodes s i) \<and> isize (g_inodes s' i) = isize (g_inodes s i)
     \<and> (\<forall>sl. ptr s (i, sl) \<noteq> NO_BLOCK \<longrightarrow> ptr s' (i, sl) = ptr s (i, sl))
     \<and> (\<forall>p. content s' i p = (if off + w \<le> p \<and> p < off + w' then src (p - off) else content s i p))"

lemma wrote_grows: "grows i s s' \<Longrightarrow> wrote i src off w w s s'"
  by (auto simp: wrote_def grows_def)

lemma wrote_refl: "blk_inv s \<Longrightarrow> wrote i src off w w s s"
  by (auto simp: wrote_def)

lemma wrote_trans:
  "wrote i src off w w' s s' \<Longrightarrow> wrote i src off w' w'' s' s'' \<Longrightarrow> wrote i src off w w'' s s''"
  unfolding wrote_def using same_but_trans by auto

lemma wrote_live: "wrote i src off w w' s s' \<Longrightarrow> live s' j = live s j"
  using same_but_inode [of i s s' j] by (cases "j = i") (simp_all add: wrote_def live_def)

lemma wrote_chunk:
  assumes "blk_inv s" "ptr s (i, lslot b) \<noteq> NO_BLOCK" "boff + n \<le> 512" "off + k = 512 * b + boff"
  shows "wrote i src off k (k + n) s
    (upd_block (unat (ptr s (i, lslot b))) (\<lambda>dst. blit dst boff src k n) s)" (is "wrote _ _ _ _ _ _ ?s'")
proof -
  note c = store_chunk [OF assms(1-3) refl, of src k]
  have "content ?s' i p = (if off + k \<le> p \<and> p < off + (k + n) then src (p - off) else content s i p)" for p
  proof -
    have "k + (p - (512 * b + boff)) = p - off" if "512 * b + boff \<le> p"
      using that assms(4) by linarith
    then show ?thesis unfolding c(6) using assms(4) by (simp add: add.assoc [symmetric])
  qed
  with c show ?thesis by (simp add: wrote_def)
qed

lemma write_inode_loop_spec:
  assumes "write_inode_loop s i src len off wr = (wr', s')" and "blk_inv s" and "live s i"
    and "unat off + unat wr \<le> 69632" and "unat wr \<le> unat len"
  shows "wrote i src (unat off) (unat wr) (unat wr') s s' \<and> unat wr' \<le> unat len
    \<and> unat off + unat wr' \<le> 69632
    \<and> (unat wr' < unat len \<longrightarrow> unat off + unat wr' = 69632 \<or> avail_blocks s' = {})"
  using assms
proof (induction s i src len off wr rule: write_inode_loop.induct)
  case (1 s i src len off wr)
  show ?case
  proof (cases "wr < len")
    case False
    with 1 show ?thesis
      by (simp add: write_inode_loop.simps [of s i src len off wr] wrote_refl word_less_nat_alt)
  next
    case True
    define pos where "pos = off + wr"
    obtain blk s1 where bf: "block_for s i (uint (pos div 512)) True = (blk, s1)"
      by (cases "block_for s i (uint (pos div 512)) True")
    have pos: "unat pos = unat off + unat wr"
      unfolding pos_def using 1(5) by (intro unat_add_u32) linarith
    let ?b = "unat pos div 512"
    have "uint (pos div 512) = int ?b" by (simp add: uint_div zdiv_int)
    with bf have bf': "block_for s i (int ?b) True = (blk, s1)" by simp
    note spec = block_for_alloc [OF 1(3,4) bf']
    note g = spec(1)
    show ?thesis
    proof (cases "blk = NO_BLOCK")
      case NO: True
      with bf True 1(2) have r: "wr' = wr" "s' = s1"
        by (simp_all add: write_inode_loop.simps [of s i src len off wr] pos_def)
      have "unat off + unat wr = 69632 \<or> avail_blocks s1 = {}"
        using spec(3) [OF _ NO] 1(5) pos by (cases "?b < 136") auto
      with r 1(5,6) wrote_grows [OF g] show ?thesis by simp
    next
      case blk: False
      define boff where "boff = pos mod 512"
      define chunk where "chunk = (if 512 - boff > len - wr then len - wr else 512 - boff)"
      define s2 where "s2 = upd_block (unat blk) (\<lambda>dst. blit dst (unat boff) src (unat wr) (unat chunk)) s1"
      note cb = chunk_bounds [OF True boff_def chunk_def]
      have r: "write_inode_loop s2 i src len off (wr + chunk) = (wr', s')"
        using 1(2) True bf blk
        by (simp add: write_inode_loop.simps [of s i src len off wr] pos_def Let_def
            s2_def chunk_def boff_def split: if_splits)
      have lt: "?b < 136" using spec(4) blk by (cases "?b < 136") auto
      then have w: "blk = ptr s1 (i, lslot ?b)" by (rule spec(2))
      have boff: "unat boff = unat pos mod 512" by (simp add: boff_def unat_mod)
      have inv1: "blk_inv s1" using g by (simp add: grows_def)
      have at: "unat off + unat wr = 512 * ?b + unat boff" unfolding boff pos [symmetric] by simp
      have "ptr s1 (i, lslot ?b) \<noteq> NO_BLOCK" using blk w by simp
      then have wc: "wrote i src (unat off) (unat wr) (unat wr + unat chunk) s1 s2"
        unfolding s2_def w by (rule wrote_chunk [OF inv1 _ cb(2) at])
      then have inv2: "blk_inv s2" and live2: "live s2 i"
        using wrote_live [OF wc, of i] grows_live [OF g, of i] 1(4) by (simp_all add: wrote_def)
      have le: "unat off + unat (wr + chunk) \<le> 69632" "unat (wr + chunk) \<le> unat len"
        using cb(2,3,4) at lt by linarith+
      have "wrote i src (unat off) (unat (wr + chunk)) (unat wr') s2 s' \<and> unat wr' \<le> unat len
        \<and> unat off + unat wr' \<le> 69632
        \<and> (unat wr' < unat len \<longrightarrow> unat off + unat wr' = 69632 \<or> avail_blocks s' = {})"
        using 1(1) [OF True pos_def refl boff_def bf [symmetric] refl blk chunk_def s2_def r inv2 live2 le]
        by simp
      then show ?thesis
        using wrote_trans [OF wrote_grows [OF g] wrote_trans [OF wc]] cb(4) by simp
    qed
  qed
qed

section \<open>Writing at an offset\<close>

definition munin_write_inode ::
  "munin \<Rightarrow> int \<Rightarrow> (nat \<Rightarrow> u8) \<Rightarrow> u32 \<Rightarrow> u32 \<Rightarrow> int \<times> munin" where
  "munin_write_inode s ino buf len offset =
     (if ino < 0 \<or> ino \<ge> 128 then (- 1, s)
      else let i = nat ino in
        if itype (g_inodes s i) \<noteq> INODE_FILE then (- 1, s)
        else if offset \<ge> 69632 then (- 1, s)
        else let len' = (if offset + len > 69632 then 69632 - offset else len);
                 (written, s1) = write_inode_loop s i buf len' offset 0;
                 s2 = (if offset + written > isize (g_inodes s1 i)
                       then upd_inode i (\<lambda>f. f\<lparr>isize := offset + written\<rparr>) s1 else s1)
             in (sint written, s2))"

definition file_at :: "munin \<Rightarrow> nat \<Rightarrow> bool" where
  "file_at s i \<longleftrightarrow> i < 128 \<and> itype (g_inodes s i) = INODE_FILE"

definition file_ok :: "munin \<Rightarrow> nat \<Rightarrow> bool" where
  "file_ok s i \<longleftrightarrow> unat (isize (g_inodes s i)) \<le> 69632
     \<and> (\<forall>p. unat (isize (g_inodes s i)) \<le> p \<longrightarrow> content s i p = 0)"

definition file_bytes :: "munin \<Rightarrow> nat \<Rightarrow> u8 list" where
  "file_bytes s i = map (content s i) [0..<unat (isize (g_inodes s i))]"

definition splice :: "u8 list \<Rightarrow> nat \<Rightarrow> u8 list \<Rightarrow> u8 list" where
  "splice bs off ds = take off (bs @ replicate (off - length bs) 0) @ ds @ drop (off + length ds) bs"

lemma length_splice: "length (splice bs off ds) = max (length bs) (off + length ds)"
  by (simp add: splice_def)

lemma nth_splice:
  "p < max (length bs) (off + length ds) \<Longrightarrow> splice bs off ds ! p =
     (if off \<le> p \<and> p < off + length ds then ds ! (p - off)
      else if p < length bs then bs ! p else 0)"
  by (auto simp: splice_def nth_append min_def)

lemma file_at_live: "file_at s i \<Longrightarrow> live s i"
  by (simp add: file_at_def live_def)

text \<open>
  The outcome of a write of \<open>len\<close> bytes at \<open>off\<close>: \<open>n\<close> bytes are stored, \<open>n\<close> falls short of the request
  only at the size limit or when the block region is full, and the file is what the abstract
  overwrite of its old bytes gives.
\<close>

lemma write_inode_outcome:
  assumes inv: "blk_inv s" and i: "file_at s i" and off: "unat off < 69632"
    and r: "munin_write_inode s (int i) buf len off = (v, s')"
  obtains n where "v = int n" "n \<le> unat len" "unat off + n \<le> 69632"
    "n < unat len \<Longrightarrow> unat off + n = 69632 \<or> avail_blocks s' = {}"
    "wrote i buf (unat off) 0 n s (upd_inode i (\<lambda>f. f\<lparr>isize := isize (g_inodes s i)\<rparr>) s')"
    "unat (isize (g_inodes s' i)) = max (unat (isize (g_inodes s i))) (unat off + n)"
    "blk_inv s'" "same_but i s s'" "itype (g_inodes s' i) = INODE_FILE"
proof -
  define len' where "len' = (if off + len > 69632 then 69632 - off else len)"
  obtain wr s1 where l: "write_inode_loop s i buf len' off 0 = (wr, s1)"
    by (cases "write_inode_loop s i buf len' off 0")
  define s2 where "s2 = (if off + wr > isize (g_inodes s1 i)
      then upd_inode i (\<lambda>f. f\<lparr>isize := off + wr\<rparr>) s1 else s1)"
  have "\<not> 69632 \<le> off" using off by (simp add: word_le_nat_alt)
  then have r': "v = sint wr" "s' = s2"
    using r i l by (simp_all add: munin_write_inode_def file_at_def Let_def len'_def s2_def split: if_splits)
  have le: "unat len' \<le> unat len"
    "unat off + unat len' = 69632 \<or> len' = len"
  proof -
    have o: "off \<le> 69632" using off by (simp add: word_le_nat_alt)
    have "unat (69632 - off) \<le> unat len" if "off + len > 69632"
    proof -
      have "69632 < unat (off + len)" using that by (simp add: word_less_nat_alt)
      also have "unat (off + len) \<le> unat off + unat len" by (rule unat_add_le)
      finally show ?thesis using o by (simp add: unat_sub_le)
    qed
    then show "unat len' \<le> unat len" by (simp add: len'_def)
    show "unat off + unat len' = 69632 \<or> len' = len"
      using o off by (simp add: len'_def unat_sub_le)
  qed
  note spec = write_inode_loop_spec [OF l inv file_at_live [OF i]]
  have w: "wrote i buf (unat off) 0 (unat wr) s s1" and wl: "unat wr \<le> unat len'"
    and cap: "unat off + unat wr \<le> 69632"
    and short: "unat wr < unat len' \<longrightarrow> unat off + unat wr = 69632 \<or> avail_blocks s1 = {}"
    using spec off by simp_all
  have add: "unat (off + wr) = unat off + unat wr" using cap by (intro unat_add_u32) linarith
  have sz: "isize (g_inodes s1 i) = isize (g_inodes s i)" using w by (simp add: wrote_def)
  have av: "avail_blocks s2 = avail_blocks s1" by (simp add: s2_def avail_blocks_def)
  have size: "unat (isize (g_inodes s2 i)) = max (unat (isize (g_inodes s i))) (unat off + unat wr)"
    by (simp add: s2_def sz word_less_nat_alt add max_def)
  have old: "upd_inode i (\<lambda>f. f\<lparr>isize := isize (g_inodes s i)\<rparr>) s2 = s1"
    using sz [symmetric] by (simp add: s2_def upd_inode_def)
  have "same_but i s1 s2" using same_but_upd_size by (simp add: s2_def)
  then have sb: "same_but i s s2" using w same_but_trans unfolding wrote_def by blast
  have inv2: "blk_inv s2" using w by (simp add: s2_def wrote_def)
  have ty: "itype (g_inodes s2 i) = INODE_FILE"
    using w i by (simp add: s2_def wrote_def file_at_def)
  show thesis
  proof (rule that [of "unat wr"], unfold r')
    show "sint wr = int (unat wr)" by (rule sint_small) (use cap in linarith)
    show "unat off + unat wr = 69632 \<or> avail_blocks s2 = {}" if "unat wr < unat len"
      using that short le(2) cap unfolding av by fastforce
    show "wrote i buf (unat off) 0 (unat wr) s (upd_inode i (\<lambda>f. f\<lparr>isize := isize (g_inodes s i)\<rparr>) s2)"
      unfolding old by (rule w)
  qed (use wl le cap size inv2 sb ty in auto)
qed

lemma wrote_content:
  "wrote i buf off 0 n s (upd_inode i (\<lambda>f. f\<lparr>isize := z\<rparr>) s') \<Longrightarrow>
     content s' i p = (if off \<le> p \<and> p < off + n then buf (p - off) else content s i p)"
  by (simp add: wrote_def)

lemma wrote_file:
  assumes ok: "file_ok s i" and size: "unat (isize (g_inodes s' i)) = max (unat (isize (g_inodes s i))) (off + n)"
    and cap: "off + n \<le> 69632"
    and c: "\<And>p. content s' i p = (if off \<le> p \<and> p < off + n then buf (p - off) else content s i p)"
  shows "file_ok s' i" "file_bytes s' i = splice (file_bytes s i) off (map buf [0..<n])"
proof -
  show "file_ok s' i" using ok cap by (auto simp: file_ok_def size c)
  show "file_bytes s' i = splice (file_bytes s i) off (map buf [0..<n])"
  proof (rule nth_equalityI)
    show "length (file_bytes s' i) = length (splice (file_bytes s i) off (map buf [0..<n]))"
      by (simp add: file_bytes_def length_splice size)
    fix p assume "p < length (file_bytes s' i)"
    then have p: "p < max (unat (isize (g_inodes s i))) (off + n)" by (simp add: file_bytes_def size)
    have "content s i p = 0" if "\<not> p < unat (isize (g_inodes s i))"
      using ok that by (simp add: file_ok_def)
    with p show "file_bytes s' i ! p = splice (file_bytes s i) off (map buf [0..<n]) ! p"
      by (subst nth_splice) (auto simp: file_bytes_def size c)
  qed
qed

section \<open>Reading at an offset\<close>

function read_inode_loop ::
  "munin \<Rightarrow> nat \<Rightarrow> (nat \<Rightarrow> u8) \<Rightarrow> u32 \<Rightarrow> u32 \<Rightarrow> u32 \<Rightarrow> u32 \<times> (nat \<Rightarrow> u8)" where
  "read_inode_loop s i dst len offset got =
     (if got < len then
        let pos = offset + got; b = pos div 512; boff = pos mod 512
        in if b \<ge> 8 then (got, dst)
           else let chunk = (if 512 - boff > len - got then len - got else 512 - boff);
                    blk = iblocks (g_inodes s i) (unat b);
                    dst' = (if blk = NO_BLOCK then fill dst (unat got) 0 (unat chunk)
                            else blit dst (unat got) (g_blocks s (unat blk)) (unat boff) (unat chunk))
                in read_inode_loop s i dst' len offset (got + chunk)
      else (got, dst))"
  by pat_completeness auto

termination read_inode_loop
proof (relation "measure (\<lambda>(s, i, dst, len, offset, got). unat len - unat got)", goal_cases)
  case 1
  show ?case by simp
next
  case (2 s i dst len offset got pos b boff chunk blk dst')
  note cb = chunk_bounds [OF 2(1,4,6)]
  from cb(1,3,4) show ?case by simp
qed

declare read_inode_loop.simps [simp del]

definition munin_read_inode ::
  "munin \<Rightarrow> int \<Rightarrow> (nat \<Rightarrow> u8) \<Rightarrow> u32 \<Rightarrow> u32 \<Rightarrow> int \<times> (nat \<Rightarrow> u8)" where
  "munin_read_inode s ino buf len offset =
     (if ino < 0 \<or> ino \<ge> 128 then (- 1, buf)
      else let i = nat ino; f = g_inodes s i in
        if itype f \<noteq> INODE_FILE then (- 1, buf)
        else if offset \<ge> isize f then (0, buf)
        else let avail = isize f - offset; len' = (if len > avail then avail else len);
                 (got, dst) = read_inode_loop s i buf len' offset 0
             in (sint got, dst))"

lemma content_direct:
  assumes i: "live s i" and b: "p div 512 < 8"
  shows "content s i p = (let blk = iblocks (g_inodes s i) (p div 512) in
    if blk = NO_BLOCK then 0 else g_blocks s (unat blk) (p mod 512))"
  using assms by (simp add: content_def lslot_def ptr_def)

lemma read_chunk:
  assumes i: "live s i" and b: "b < 8" and n: "boff + n \<le> 512" and at: "off + got = 512 * b + boff"
  shows "(if iblocks (g_inodes s i) b = NO_BLOCK then fill dst got 0 n
     else blit dst got (g_blocks s (unat (iblocks (g_inodes s i) b))) boff n) p
    = (if got \<le> p \<and> p < got + n then content s i (off + p) else dst p)"
proof (cases "got \<le> p \<and> p < got + n")
  case True
  then obtain r where r: "p = got + r" "r < n" by (metis add_less_cancel_left le_Suc_ex)
  then have "off + p = 512 * b + (boff + r)" using at by simp
  moreover from r n have "boff + r < 512" by simp
  ultimately have "(off + p) div 512 = b" "(off + p) mod 512 = boff + r" by simp_all
  with True r b show ?thesis
    by (simp add: content_direct [OF i] Let_def blit_apply fill_apply)
qed (auto simp: blit_apply fill_apply)

lemma read_inode_loop_spec:
  assumes "read_inode_loop s i dst len off got = (got', dst')" and "live s i"
    and "unat off + unat len \<le> 69632" and "unat got \<le> unat len"
  shows "unat got' = max (unat got) (min (unat len) (4096 - unat off))
    \<and> (\<forall>p. dst' p = (if unat got \<le> p \<and> p < unat got' then content s i (unat off + p) else dst p))"
  using assms
proof (induction s i dst len off got rule: read_inode_loop.induct)
  case (1 s i dst len off got)
  show ?case
  proof (cases "got < len")
    case False
    then have "unat len \<le> unat got" by (simp add: word_less_nat_alt)
    with 1(2,5) False show ?thesis
      by (auto simp: read_inode_loop.simps [of s i dst len off got])
  next
    case True
    then have lt: "unat got < unat len" by (simp add: word_less_nat_alt)
    define pos where "pos = off + got"
    have pos: "unat pos = unat off + unat got"
      unfolding pos_def using 1(4) lt by (intro unat_add_u32) linarith
    let ?b = "unat pos div 512"
    have b: "unat (pos div 512) = ?b" by (simp add: unat_div)
    show ?thesis
    proof (cases "pos div 512 \<ge> 8")
      case ge: True
      then have "unat pos \<ge> 4096" by (simp add: word_le_nat_alt b)
      moreover have "got' = got" "dst' = dst"
        using 1(2) True ge by (simp_all add: read_inode_loop.simps [of s i dst len off got] pos_def)
      ultimately show ?thesis using pos by auto
    next
      case False
      then have b8: "?b < 8" by (simp add: word_le_nat_alt b)
      define boff where "boff = pos mod 512"
      define chunk where "chunk = (if 512 - boff > len - got then len - got else 512 - boff)"
      define dst1 where "dst1 = (if iblocks (g_inodes s i) (unat (pos div 512)) = NO_BLOCK
        then fill dst (unat got) 0 (unat chunk)
        else blit dst (unat got) (g_blocks s (unat (iblocks (g_inodes s i) (unat (pos div 512)))))
          (unat boff) (unat chunk))"
      note cb = chunk_bounds [OF True boff_def chunk_def]
      have r: "read_inode_loop s i dst1 len off (got + chunk) = (got', dst')"
        using 1(2) True False
        by (simp add: read_inode_loop.simps [of s i dst len off got] pos_def Let_def
            dst1_def chunk_def boff_def split: if_splits)
      have boff: "unat boff = unat pos mod 512" by (simp add: boff_def unat_mod)
      have at: "unat off + unat got = 512 * ?b + unat boff" unfolding boff pos [symmetric] by simp
      have d1: "dst1 p = (if unat got \<le> p \<and> p < unat got + unat chunk
          then content s i (unat off + p) else dst p)" for p
        unfolding dst1_def b by (rule read_chunk [OF 1(3) b8 cb(2) at])
      have le: "unat (got + chunk) \<le> unat len" using cb(3,4) by simp
      have ih: "unat got' = max (unat (got + chunk)) (min (unat len) (4096 - unat off))
        \<and> (\<forall>p. dst' p = (if unat (got + chunk) \<le> p \<and> p < unat got'
             then content s i (unat off + p) else dst1 p))"
        using 1(1) [OF True pos_def refl boff_def False chunk_def refl dst1_def r 1(3,4) le] by simp
      have "unat off + (unat got + unat chunk) \<le> 4096" using cb(2) at b8 by linarith
      then show ?thesis
        using ih cb(3,4) by (auto simp: d1 max_def min_def split: if_splits)
    qed
  qed
qed

lemma read_inode_outcome:
  assumes i: "file_at s i" and ok: "file_ok s i" and r: "munin_read_inode s (int i) buf len off = (v, dst)"
  shows "\<exists>n. v = int n \<and> n = min (unat len) (min (unat (isize (g_inodes s i))) 4096 - unat off)
    \<and> (\<forall>p. dst p = (if p < n then content s i (unat off + p) else buf p))"
proof (cases "off \<ge> isize (g_inodes s i)")
  case True
  then have "v = 0" "dst = buf" using r i by (simp_all add: munin_read_inode_def file_at_def)
  with True show ?thesis by (auto simp: word_le_nat_alt)
next
  case False
  then have lt: "unat off < unat (isize (g_inodes s i))" by (simp add: word_le_nat_alt)
  define len' where "len' = (if len > isize (g_inodes s i) - off then isize (g_inodes s i) - off else len)"
  obtain got d where l: "read_inode_loop s i buf len' off 0 = (got, d)"
    by (cases "read_inode_loop s i buf len' off 0")
  have rr: "v = sint got" "dst = d"
    using r i False l by (simp_all add: munin_read_inode_def file_at_def Let_def len'_def split: if_splits)
  have len': "unat len' = min (unat len) (unat (isize (g_inodes s i)) - unat off)"
    using False by (simp add: len'_def word_less_nat_alt unat_sub_le)
  have sz: "unat (isize (g_inodes s i)) \<le> 69632" using ok by (simp add: file_ok_def)
  have spec: "unat got = min (unat len') (4096 - unat off)
    \<and> (\<forall>p. d p = (if p < unat got then content s i (unat off + p) else buf p))"
    using read_inode_loop_spec [OF l file_at_live [OF i]] len' lt sz by simp
  have n: "unat got = min (unat len) (min (unat (isize (g_inodes s i))) 4096 - unat off)"
    using spec lt unfolding len' by (auto simp: min_def)
  have "sint got = int (unat got)" by (rule sint_small) (use spec in simp)
  then have "v = int (unat got)" "\<forall>p. dst p = (if p < unat got then content s i (unat off + p) else buf p)"
    using spec unfolding rr by blast+
  with n show ?thesis by blast
qed

section \<open>Type, size, truncation\<close>

definition munin_type :: "munin \<Rightarrow> int \<Rightarrow> int" where
  "munin_type s ino = (if ino < 0 \<or> ino \<ge> 128 then - 1 else uint (itype (g_inodes s (nat ino))))"

definition munin_size :: "munin \<Rightarrow> int \<Rightarrow> int" where
  "munin_size s ino = (if ino < 0 \<or> ino \<ge> 128 then - 1 else sint (isize (g_inodes s (nat ino))))"

definition munin_truncate :: "munin \<Rightarrow> int \<Rightarrow> int \<times> munin" where
  "munin_truncate s ino =
     (if ino < 0 \<or> ino \<ge> 128 then (- 1, s)
      else if itype (g_inodes s (nat ino)) \<noteq> INODE_FILE then (- 1, s)
      else (0, free_inode_blocks (nat ino) s))"

lemma cleared_file:
  assumes "cleared i s s'"
  shows "file_ok s' i" "file_bytes s' i = []"
  using assms by (simp_all add: cleared_def file_ok_def file_bytes_def content_def)

section \<open>Whole-file loops\<close>

function munin_write_loop :: "munin \<Rightarrow> nat \<Rightarrow> (nat \<Rightarrow> u8) \<Rightarrow> nat \<Rightarrow> u32 \<Rightarrow> int \<Rightarrow> bool \<times> munin" where
  "munin_write_loop s i src at_src remaining b =
     (if remaining > 0 then
        let (blk, s1) = block_for s i b True
        in if blk = NO_BLOCK then (False, free_inode_blocks i s1)
           else let chunk = (if remaining < 512 then remaining else 512);
                    s2 = upd_block (unat blk) (\<lambda>dst. blit dst 0 src at_src (unat chunk)) s1
                in munin_write_loop s2 i src (at_src + unat chunk) (remaining - chunk) (b + 1)
      else (True, s))"
  by pat_completeness auto

lemma whole_chunk:
  assumes "remaining > (0 :: u32)" and "chunk = (if remaining < 512 then remaining else 512)"
  shows "unat chunk = min (unat remaining) 512" "unat (remaining - chunk) = unat remaining - unat chunk"
    "0 < unat chunk" "unat chunk \<le> unat remaining"
proof -
  have "chunk \<le> remaining" using assms(2) by (auto simp: not_less)
  then show "unat (remaining - chunk) = unat remaining - unat chunk" "unat chunk \<le> unat remaining"
    by (simp_all add: unat_sub_le word_le_nat_alt)
  show "unat chunk = min (unat remaining) 512" using assms(2) by (simp add: word_less_nat_alt)
  then show "0 < unat chunk" using assms(1) by (simp add: word_less_nat_alt)
qed

termination munin_write_loop
proof (relation "measure (\<lambda>(s, i, src, k, remaining, b). unat remaining)", goal_cases)
  case 1
  show ?case by simp
next
  case (2 s i src k remaining b x blk s1 chunk s2)
  note wc = whole_chunk [OF 2(1,5)]
  from wc(2-4) show ?case by simp
qed

declare munin_write_loop.simps [simp del]

lemma munin_write_loop_spec:
  assumes "munin_write_loop s i src k remaining (int b) = (ok, s')" and "blk_inv s" and "live s i"
    and "remaining > 0 \<Longrightarrow> k = 512 * b" and "k + unat remaining \<le> 69632" and "k \<le> 512 * b"
  shows "if ok then wrote i src 0 k (k + unat remaining) s s'
      \<and> (\<forall>c. b \<le> c \<longrightarrow> 512 * c < k + unat remaining \<longrightarrow> ptr s' (i, lslot c) \<noteq> NO_BLOCK)
    else \<exists>s1 n. wrote i src 0 k n s s1 \<and> avail_blocks s1 = {} \<and> s' = free_inode_blocks i s1"
  using assms
proof (induction s i src k remaining "int b" arbitrary: b rule: munin_write_loop.induct)
  case (1 s i src k remaining)
  show ?case
  proof (cases "remaining > 0")
    case False
    then have "remaining = 0" by (simp add: word_gt_0)
    with 1 show ?thesis by (auto simp: munin_write_loop.simps [of s i src k 0] wrote_refl)
  next
    case True
    then have k: "k = 512 * b" by (rule 1(5))
    obtain blk s1 where bf: "block_for s i (int b) True = (blk, s1)" by (cases "block_for s i (int b) True")
    have "0 < unat remaining" using True by (simp add: word_less_nat_alt)
    then have lt: "b < 136" using 1(6) k by simp
    note spec = block_for_alloc [OF 1(3,4) bf]
    show ?thesis
    proof (cases "blk = NO_BLOCK")
      case NO: True
      with bf True 1(2) have "\<not> ok" "s' = free_inode_blocks i s1"
        by (simp_all add: munin_write_loop.simps [of s i src k remaining])
      with wrote_grows [OF spec(1)] spec(3) [OF lt NO] show ?thesis by metis
    next
      case False
      define chunk where "chunk = (if remaining < 512 then remaining else 512)"
      define s2 where "s2 = upd_block (unat blk) (\<lambda>dst. blit dst 0 src k (unat chunk)) s1"
      note wc = whole_chunk [OF True chunk_def]
      have r: "munin_write_loop s2 i src (k + unat chunk) (remaining - chunk) (int (b + 1)) = (ok, s')"
        using 1(2) True bf False
        by (simp add: munin_write_loop.simps [of s i src k remaining] Let_def s2_def chunk_def
            add.commute split: if_splits)
      have w: "blk = ptr s1 (i, lslot b)" by (rule spec(2) [OF lt])
      have inv1: "blk_inv s1" using spec(1) by (simp add: grows_def)
      have "ptr s1 (i, lslot b) \<noteq> NO_BLOCK" using False w by simp
      then have wr: "wrote i src 0 k (k + unat chunk) s1 s2"
        unfolding s2_def w by (rule wrote_chunk [OF inv1]) (simp_all add: wc(1) k)
      then have inv2: "blk_inv s2" and live2: "live s2 i"
        using wrote_live [OF wr, of i] grows_live [OF spec(1), of i] 1(4) by (simp_all add: wrote_def)
      have k': "k + unat chunk = 512 * (b + 1)" if "remaining - chunk > 0"
        using that wc(1,2) k by (simp add: word_less_nat_alt)
      have le: "k + unat chunk + unat (remaining - chunk) \<le> 69632" using wc(2,4) 1(6) by simp
      have kb: "k + unat chunk \<le> 512 * (b + 1)" using wc(1) k by simp
      note ih = 1(1) [OF True bf [symmetric] refl False chunk_def s2_def _ r inv2 live2 k' le kb]
      note tr = wrote_trans [OF wrote_trans [OF wrote_grows [OF spec(1)] wr]]
      show ?thesis
      proof (cases ok)
        case True
        with ih wc(2,4) have w2: "wrote i src 0 (k + unat chunk) (k + unat remaining) s2 s'"
          and bl: "\<forall>c. b + 1 \<le> c \<longrightarrow> 512 * c < k + unat remaining \<longrightarrow> ptr s' (i, lslot c) \<noteq> NO_BLOCK"
          by simp_all
        have "ptr s2 (i, lslot b) \<noteq> NO_BLOCK"
          using wr False w by (simp add: wrote_def)
        then have "ptr s' (i, lslot b) \<noteq> NO_BLOCK" using w2 by (simp add: wrote_def)
        with bl have "ptr s' (i, lslot c) \<noteq> NO_BLOCK" if "b \<le> c" "512 * c < k + unat remaining" for c
          using that by (cases "c = b") auto
        with True w2 show ?thesis by (auto intro: tr)
      next
        case False
        with ih obtain s3 n where "wrote i src 0 (k + unat chunk) n s2 s3" "avail_blocks s3 = {}"
          "s' = free_inode_blocks i s3" by auto
        with False tr show ?thesis by auto
      qed
    qed
  qed
qed

function munin_read_loop :: "munin \<Rightarrow> nat \<Rightarrow> (nat \<Rightarrow> u8) \<Rightarrow> u32 \<Rightarrow> u32 \<Rightarrow> int \<Rightarrow> u32 \<times> (nat \<Rightarrow> u8)" where
  "munin_read_loop s i dst n copied b =
     (if copied < n then
        let blk = fst (block_for s i b False)
        in if blk = NO_BLOCK then (copied, dst)
           else let chunk = (if n - copied < 512 then n - copied else 512)
                in munin_read_loop s i (blit dst (unat copied) (g_blocks s (unat blk)) 0 (unat chunk))
                     n (copied + chunk) (b + 1)
      else (copied, dst))"
  by pat_completeness auto

lemma read_chunk_bounds:
  assumes lt: "copied < (n :: u32)" and c: "chunk = (if n - copied < 512 then n - copied else 512)"
  shows "unat chunk = min (unat n - unat copied) 512" "unat copied + unat chunk \<le> unat n"
    "unat (copied + chunk) = unat copied + unat chunk" "0 < unat chunk"
proof -
  have d: "unat (n - copied) = unat n - unat copied" using lt by (simp add: unat_sub_le)
  have l: "unat copied < unat n" using lt by (simp add: word_less_nat_alt)
  show e: "unat chunk = min (unat n - unat copied) 512"
    unfolding c by (simp add: word_less_nat_alt d)
  with l show le: "unat copied + unat chunk \<le> unat n" "0 < unat chunk" by auto
  show "unat (copied + chunk) = unat copied + unat chunk"
    using unat_u32_lt [of n] le by (intro unat_add_u32) linarith
qed

termination munin_read_loop
proof (relation "measure (\<lambda>(s, i, dst, n, copied, b). unat n - unat copied)", goal_cases)
  case 1
  show ?case by simp
next
  case (2 s i dst n copied b blk chunk)
  note cb = read_chunk_bounds [OF 2(1,4)]
  from cb(2-4) show ?case by simp
qed

declare munin_read_loop.simps [simp del]

lemma munin_read_loop_spec:
  assumes "munin_read_loop s i dst n copied (int b) = (got, dst')" and "live s i"
    and "copied < n \<Longrightarrow> unat copied = 512 * b" and "unat copied \<le> unat n"
    and "\<forall>c. b \<le> c \<longrightarrow> 512 * c < unat n \<longrightarrow> c < 136 \<and> ptr s (i, lslot c) \<noteq> NO_BLOCK"
  shows "got = n \<and> (\<forall>p. dst' p = (if unat copied \<le> p \<and> p < unat n then content s i p else dst p))"
  using assms
proof (induction s i dst n copied "int b" arbitrary: b rule: munin_read_loop.induct)
  case (1 s i dst n copied)
  show ?case
  proof (cases "copied < n")
    case False
    then have "copied = n" using 1(5) by (simp add: word_less_nat_alt unat_eq_iff)
    with 1(2) show ?thesis by (auto simp: munin_read_loop.simps [of s i dst n n])
  next
    case True
    then have c: "unat copied = 512 * b" by (rule 1(4))
    have lt: "unat copied < unat n" using True by (simp add: word_less_nat_alt)
    then have b: "b < 136" "ptr s (i, lslot b) \<noteq> NO_BLOCK" using 1(6) c by auto
    define blk where "blk = fst (block_for s i (int b) False)"
    have blk: "blk = ptr s (i, lslot b)" using b(1) by (simp add: blk_def block_for_lookup [OF 1(3)])
    then have NO: "blk \<noteq> NO_BLOCK" using b by simp
    define chunk where "chunk = (if n - copied < 512 then n - copied else 512)"
    define d1 where "d1 = blit dst (unat copied) (g_blocks s (unat blk)) 0 (unat chunk)"
    note cb = read_chunk_bounds [OF True chunk_def]
    have r: "munin_read_loop s i d1 n (copied + chunk) (int (b + 1)) = (got, dst')"
      using 1(2) True NO
      by (simp add: munin_read_loop.simps [of s i dst n copied] Let_def blk_def chunk_def d1_def
          add.commute split: if_splits)
    have c': "unat (copied + chunk) = 512 * (b + 1)" if "copied + chunk < n"
      using that cb(1,3) c lt by (simp add: word_less_nat_alt min_def split: if_splits)
    have le: "unat (copied + chunk) \<le> unat n" using cb(2,3) by simp
    have rest: "\<forall>c. b + 1 \<le> c \<longrightarrow> 512 * c < unat n \<longrightarrow> c < 136 \<and> ptr s (i, lslot c) \<noteq> NO_BLOCK"
      using 1(6) by simp
    have d1: "d1 p = (if unat copied \<le> p \<and> p < unat copied + unat chunk then content s i p else dst p)" for p
    proof (cases "unat copied \<le> p \<and> p < unat copied + unat chunk")
      case True
      then obtain r where r: "p = 512 * b + r" "r < unat chunk" unfolding c
        by (metis add_less_cancel_left le_Suc_ex)
      with cb(1) have "p div 512 = b" "p mod 512 = r" by simp_all
      with True r b c show ?thesis by (simp add: d1_def blit_apply content_def blk)
    qed (auto simp: d1_def blit_apply)
    have ih: "got = n \<and> (\<forall>p. dst' p = (if unat (copied + chunk) \<le> p \<and> p < unat n
        then content s i p else d1 p))"
      by (rule 1(1) [OF True blk_def NO chunk_def _ r [unfolded d1_def] 1(3) c' le rest, folded d1_def]) simp
    then show ?thesis using cb(2,3) by (auto simp: d1)
  qed
qed

end
