(* ===== verification/Paths.thy ===== *)
theory Paths
  imports Hrafn_Prelude
begin

text \<open>
  Slash-separated paths: the components of a path, as the file system's \<^verbatim>\<open>resolve_n\<close> and the shell's
  \<^verbatim>\<open>resolve_path\<close> cut them out with index loops. \<open>comps p\<close> are the non-empty pieces between slashes.
\<close>

fun pieces :: "cstr \<Rightarrow> cstr list" where
  "pieces [] = [[]]"
| "pieces (c # cs) = (if c = slash then [] # pieces cs
     else (case pieces cs of [] \<Rightarrow> [[c]] | w # ws \<Rightarrow> (c # w) # ws))"

definition comps :: "cstr \<Rightarrow> cstr list" where
  "comps p = filter (\<lambda>w. w \<noteq> []) (pieces p)"

lemma pieces_ne: "pieces p \<noteq> []"
  by (induction p) (auto split: list.split)

lemma pieces_app_slash: "pieces (w @ slash # p) = pieces w @ pieces p"
proof (induction w)
  case (Cons c w)
  then show ?case using pieces_ne [of w] by (auto split: list.split)
qed simp

lemma pieces_no_slash: "slash \<notin> set w \<Longrightarrow> pieces w = [w]"
  by (induction w) auto

lemma comps_Nil [simp]: "comps [] = []"
  by (simp add: comps_def)

lemma comps_slash [simp]: "comps (slash # p) = comps p"
  by (simp add: comps_def)

lemma comps_word: "slash \<notin> set w \<Longrightarrow> w \<noteq> [] \<Longrightarrow> comps w = [w]"
  by (simp add: comps_def pieces_no_slash)

lemma comps_app_slash: "comps (w @ slash # p) = comps w @ comps p"
  by (simp add: comps_def pieces_app_slash)

lemma comps_word_slash: "slash \<notin> set w \<Longrightarrow> w \<noteq> [] \<Longrightarrow> comps (w @ slash # p) = w # comps p"
  by (simp add: comps_app_slash comps_word)

lemma comps_slashes: "\<forall>c \<in> set w. c = slash \<Longrightarrow> comps (w @ p) = comps p"
  by (induction w) auto

lemma comps_trailing: "\<forall>c \<in> set w. c = slash \<Longrightarrow> comps (p @ w) = comps p"
proof (induction w)
  case (Cons c w)
  then have "comps (p @ slash # w) = comps p @ comps w" "comps w = comps []"
    using comps_slashes [of w "[]"] by (simp_all add: comps_app_slash)
  with Cons show ?case by simp
qed simp

lemma comps_set: "w \<in> set (comps p) \<Longrightarrow> slash \<notin> set w \<and> w \<noteq> [] \<and> set w \<subseteq> set p"
proof -
  have "w \<in> set (pieces p) \<Longrightarrow> slash \<notin> set w \<and> set w \<subseteq> set p"
  proof (induction p arbitrary: w)
    case (Cons c cs)
    obtain v vs where v: "pieces cs = v # vs" using pieces_ne [of cs] by (cases "pieces cs") auto
    from Cons.IH [of v] Cons.IH [of w] Cons.prems show ?case
      by (auto simp: v split: if_splits)
  qed simp
  then show "w \<in> set (comps p) \<Longrightarrow> slash \<notin> set w \<and> w \<noteq> [] \<and> set w \<subseteq> set p"
    by (simp add: comps_def)
qed

section \<open>The index loops\<close>

text \<open>
  \<open>skip_slashes\<close> and \<open>span_comp\<close> are the two inner loops that advance an index over slashes and over
  one component, below a bound \<open>len\<close>.
\<close>

function skip_slashes :: "cstr \<Rightarrow> nat \<Rightarrow> nat \<Rightarrow> nat" where
  "skip_slashes p len i =
     (if i < len \<and> char_at p i = slash then skip_slashes p len (Suc i) else i)"
  by pat_completeness auto
termination
  by (relation "measure (\<lambda>(p, len, i). len - i)") auto

function span_comp :: "cstr \<Rightarrow> nat \<Rightarrow> nat \<Rightarrow> nat" where
  "span_comp p len i =
     (if i < len \<and> char_at p i \<noteq> slash then span_comp p len (Suc i) else i)"
  by pat_completeness auto
termination
  by (relation "measure (\<lambda>(p, len, i). len - i)") auto

declare skip_slashes.simps [simp del] span_comp.simps [simp del]

lemma skip_slashes_spec:
  "i \<le> skip_slashes p len i \<and> (i \<le> len \<longrightarrow> skip_slashes p len i \<le> len)
   \<and> (\<forall>j. i \<le> j \<longrightarrow> j < skip_slashes p len i \<longrightarrow> char_at p j = slash)
   \<and> (skip_slashes p len i < len \<longrightarrow> char_at p (skip_slashes p len i) \<noteq> slash)"
proof (induction p len i rule: skip_slashes.induct)
  case (1 p len i)
  show ?case
  proof (cases "i < len \<and> char_at p i = slash")
    case True
    then have e: "skip_slashes p len i = skip_slashes p len (Suc i)"
      by (subst skip_slashes.simps) (rule if_P)
    have "char_at p j = slash" if "i \<le> j" "j < skip_slashes p len (Suc i)" for j
      using 1 [OF True] True that by (cases "j = i") auto
    with 1 [OF True] True show ?thesis unfolding e by auto
  next
    case False
    then have "skip_slashes p len i = i" by (subst skip_slashes.simps) (rule if_not_P)
    with False show ?thesis by auto
  qed
qed

lemma span_comp_spec:
  "i \<le> span_comp p len i \<and> (i \<le> len \<longrightarrow> span_comp p len i \<le> len)
   \<and> (\<forall>j. i \<le> j \<longrightarrow> j < span_comp p len i \<longrightarrow> char_at p j \<noteq> slash)
   \<and> (span_comp p len i < len \<longrightarrow> char_at p (span_comp p len i) = slash)"
proof (induction p len i rule: span_comp.induct)
  case (1 p len i)
  show ?case
  proof (cases "i < len \<and> char_at p i \<noteq> slash")
    case True
    then have e: "span_comp p len i = span_comp p len (Suc i)"
      by (subst span_comp.simps) (rule if_P)
    have "char_at p j \<noteq> slash" if "i \<le> j" "j < span_comp p len (Suc i)" for j
      using 1 [OF True] True that by (cases "j = i") auto
    with 1 [OF True] True show ?thesis unfolding e by auto
  next
    case False
    then have "span_comp p len i = i" by (subst span_comp.simps) (rule if_not_P)
    with False show ?thesis by auto
  qed
qed

lemma span_comp_progress: "i < len \<Longrightarrow> char_at p i \<noteq> slash \<Longrightarrow> i < span_comp p len i"
  using span_comp_spec [of "Suc i" p len] by (subst span_comp.simps) simp

text \<open>The slice of a path an index range stands for.\<close>

definition slice :: "cstr \<Rightarrow> nat \<Rightarrow> nat \<Rightarrow> cstr" where
  "slice p i j = map (char_at p) [i..<j]"

lemma slice_split: "i \<le> k \<Longrightarrow> k \<le> j \<Longrightarrow> slice p i j = slice p i k @ slice p k j"
  using upt_add_eq_append [of i k "j - k"] by (simp add: slice_def)

lemma slice_Cons: "i < j \<Longrightarrow> slice p i j = char_at p i # slice p (Suc i) j"
  by (simp add: slice_def upt_conv_Cons)

lemma slice_take: "n \<le> length p \<Longrightarrow> slice p 0 n = take n p"
  by (rule nth_equalityI) (auto simp: slice_def char_at_def)

lemma comps_skip:
  "i \<le> len \<Longrightarrow> comps (slice p i len) = comps (slice p (skip_slashes p len i) len)"
proof -
  let ?k = "skip_slashes p len i"
  assume i: "i \<le> len"
  note sp = skip_slashes_spec [of i p len]
  have "\<forall>c \<in> set (slice p i ?k). c = slash" using sp by (auto simp: slice_def)
  moreover have "slice p i len = slice p i ?k @ slice p ?k len"
    by (rule slice_split) (use sp i in auto)
  ultimately show ?thesis using comps_slashes by simp
qed

lemma comps_span:
  assumes i: "i < len" and c: "char_at p i \<noteq> slash"
  shows "comps (slice p i len) = slice p i (span_comp p len i) # comps (slice p (span_comp p len i) len)"
proof -
  let ?k = "span_comp p len i"
  note sp = span_comp_spec [of i p len]
  have k: "i < ?k" by (rule span_comp_progress [OF assms])
  have w: "slash \<notin> set (slice p i ?k)" using sp by (auto simp: slice_def)
  have ne: "slice p i ?k \<noteq> []" using k by (simp add: slice_def)
  have sl: "slice p i len = slice p i ?k @ slice p ?k len"
    by (rule slice_split) (use sp i in auto)
  show ?thesis
  proof (cases "?k < len")
    case True
    then have "slice p ?k len = slash # slice p (Suc ?k) len"
      using sp by (simp add: slice_Cons)
    with sl show ?thesis using comps_word_slash [OF w ne] by simp
  next
    case False
    then have "slice p ?k len = []" by (simp add: slice_def)
    with sl show ?thesis using comps_word [OF w ne] by simp
  qed
qed

end
