(* ===== verification/Munin_Fs.thy ===== *)
theory Munin_Fs
  imports Munin_Dir Munin_File Paths
begin

text \<open>
  The file system as a whole: what the region stands for (\<open>abs_fs\<close>, a finite map from inode numbers
  to files and directories), the invariant \<open>fs_inv\<close> that every operation of munin.cpp preserves, path
  resolution, and each operation as an update of the abstract file system.
\<close>

section \<open>The abstract file system\<close>

datatype node = File "u8 list" | Dir "cstr \<Rightarrow> nat option"

definition abs_fs :: "munin \<Rightarrow> nat \<Rightarrow> node option" where
  "abs_fs s i = (if file_at s i then Some (File (file_bytes s i))
     else if is_dir s i then Some (Dir (dir_map s i)) else None)"

definition child_rel :: "munin \<Rightarrow> (nat \<times> nat) set" where
  "child_rel s = {(d, c). \<exists>x nm. dent s d x = Some (nm, c)}"

definition dir_ok :: "munin \<Rightarrow> nat \<Rightarrow> bool" where
  "dir_ok s d \<longleftrightarrow> iindirect (g_inodes s d) = NO_BLOCK \<and> dents_ok s d \<and> names_unique s d
     \<and> (\<forall>x nm c. dent s d x = Some (nm, c) \<longrightarrow> nm \<noteq> [] \<and> length nm < 32 \<and> 0 \<notin> set nm)
     \<and> unat (isize (g_inodes s d)) = card {x. dent s d x \<noteq> None}"

definition fs_inv :: "munin \<Rightarrow> bool" where
  "fs_inv s \<longleftrightarrow> blk_inv s \<and> is_dir s 0 \<and> (\<forall>i. live s i \<longrightarrow> file_at s i \<or> is_dir s i)
     \<and> (\<forall>i. file_at s i \<longrightarrow> file_ok s i) \<and> (\<forall>d. is_dir s d \<longrightarrow> dir_ok s d)
     \<and> (\<forall>d x nm c. dent s d x = Some (nm, c) \<longrightarrow> 0 < c \<and> live s c)
     \<and> (\<forall>d x nm d' x' nm' c. dent s d x = Some (nm, c) \<longrightarrow> dent s d' x' = Some (nm', c)
          \<longrightarrow> d = d' \<and> x = x')
     \<and> (\<forall>c. live s c \<longrightarrow> (0, c) \<in> (child_rel s)\<^sup>*)"

lemma fs_invI:
  assumes "blk_inv s" "is_dir s 0" "\<And>i. live s i \<Longrightarrow> file_at s i \<or> is_dir s i"
    "\<And>i. file_at s i \<Longrightarrow> file_ok s i" "\<And>d. is_dir s d \<Longrightarrow> dir_ok s d"
    "\<And>d x nm c. dent s d x = Some (nm, c) \<Longrightarrow> 0 < c \<and> live s c"
    "\<And>d x nm d' x' nm' c. dent s d x = Some (nm, c) \<Longrightarrow> dent s d' x' = Some (nm', c) \<Longrightarrow> d = d' \<and> x = x'"
    "\<And>c. live s c \<Longrightarrow> (0, c) \<in> (child_rel s)\<^sup>*"
  shows "fs_inv s"
  unfolding fs_inv_def by (intro conjI) (use assms in blast)+

lemma fs_inv_parts:
  assumes "fs_inv s"
  shows fs_blk: "blk_inv s" and fs_root: "is_dir s 0"
    and fs_live: "live s i \<Longrightarrow> file_at s i \<or> is_dir s i"
    and fs_file: "file_at s i \<Longrightarrow> file_ok s i"
    and fs_dir: "is_dir s d \<Longrightarrow> dir_ok s d"
    and fs_reach: "live s c \<Longrightarrow> (0, c) \<in> (child_rel s)\<^sup>*"
  using assms unfolding fs_inv_def by blast+

lemma fs_child: "fs_inv s \<Longrightarrow> dent s d x = Some (nm, c) \<Longrightarrow> 0 < c \<and> live s c"
  unfolding fs_inv_def by blast

lemma fs_once: "fs_inv s \<Longrightarrow> dent s d x = Some (nm, c) \<Longrightarrow> dent s d' x' = Some (nm', c) \<Longrightarrow> d = d' \<and> x = x'"
  unfolding fs_inv_def by (elim conjE) blast

lemma dent_dir: "dent s d x = Some e \<Longrightarrow> is_dir s d"
  by (auto simp: dent_def is_dir_def ptr_def live_def Let_def split: if_splits)

lemma not_file_dir: "\<not> (file_at s i \<and> is_dir s i)"
  by (simp add: file_at_def is_dir_def)

text \<open>The frame condition carries over to everything the invariant observes.\<close>

lemma content_same_but:
  assumes "same_but i s s'" and "j \<noteq> i"
  shows "content s' j p = content s j p"
  using same_but_block [OF assms, of "lslot (p div 512)"]
  by (simp add: content_def same_but_ptr [OF assms] Let_def)

lemma obs_same_but:
  assumes "same_but i s s'" and "j \<noteq> i"
  shows file_at_same_but: "file_at s' j \<longleftrightarrow> file_at s j"
    and is_dir_same_but: "is_dir s' j \<longleftrightarrow> is_dir s j"
    and live_same_but: "live s' j \<longleftrightarrow> live s j"
    and file_ok_same_but: "file_ok s' j \<longleftrightarrow> file_ok s j"
    and file_bytes_same_but: "file_bytes s' j = file_bytes s j"
    and dent_same_but: "dent s' j = dent s j"
    and dir_ok_same_but: "dir_ok s' j \<longleftrightarrow> dir_ok s j"
    and dir_map_same_but: "dir_map s' j = dir_map s j"
    and abs_fs_same_but: "abs_fs s' j = abs_fs s j"
proof -
  note n = same_but_inode [OF assms] and c = content_same_but [OF assms]
  show f: "file_at s' j \<longleftrightarrow> file_at s j" and d: "is_dir s' j \<longleftrightarrow> is_dir s j"
    and "live s' j \<longleftrightarrow> live s j"
    by (simp_all add: file_at_def is_dir_def live_def n)
  show "file_ok s' j \<longleftrightarrow> file_ok s j" and b: "file_bytes s' j = file_bytes s j"
    by (simp_all add: file_ok_def file_bytes_def n c)
  show e: "dent s' j = dent s j" by (rule ext) (rule dents_ok_same_but(2) [OF assms])
  show "dir_ok s' j \<longleftrightarrow> dir_ok s j"
    by (simp only: dir_ok_def n dents_ok_same_but(1) [OF assms] names_unique_def e)
  show m: "dir_map s' j = dir_map s j"
    by (rule ext) (simp only: dir_map_def e)
  show "abs_fs s' j = abs_fs s j"
    by (simp add: abs_fs_def f d b m)
qed

text \<open>An operation on the data of a file.\<close>

lemma fs_file_update:
  assumes inv: "fs_inv s" and i: "file_at s i" and sb: "same_but i s s'" and blk: "blk_inv s'"
    and ty: "itype (g_inodes s' i) = INODE_FILE" and ok: "file_ok s' i"
  shows "fs_inv s'" "abs_fs s' = (abs_fs s)(i \<mapsto> File (file_bytes s' i))"
proof -
  have i': "file_at s' i" using i ty by (simp add: file_at_def)
  have lv: "live s' j \<longleftrightarrow> live s j" for j
    using live_same_but [OF sb, of j] file_at_live [OF i] file_at_live [OF i'] by (cases "j = i") auto
  have fl: "file_at s' j \<longleftrightarrow> file_at s j" and dr: "is_dir s' j \<longleftrightarrow> is_dir s j" for j
    using file_at_same_but [OF sb, of j] is_dir_same_but [OF sb, of j] i i' not_file_dir
    by (cases "j = i"; auto)+
  have e: "dent s' j = dent s j" for j
  proof (cases "j = i")
    case True
    have "dent s' i x = None" "dent s i x = None" for x
      using dent_dir [of s' i x] dent_dir [of s i x] i i' not_file_dir by (metis not_None_eq)+
    with True show ?thesis by (simp add: fun_eq_iff)
  next
    case False
    then show ?thesis by (rule dent_same_but [OF sb])
  qed
  have cr: "child_rel s' = child_rel s" by (simp only: child_rel_def e)
  show "fs_inv s'"
  proof (rule fs_invI)
    show "file_ok s' j" if "file_at s' j" for j
      using that ok fs_file [OF inv, of j] file_ok_same_but [OF sb, of j] fl by (cases "j = i") auto
    show "dir_ok s' d" if "is_dir s' d" for d
      using that fs_dir [OF inv, of d] dir_ok_same_but [OF sb, of d] dr i' not_file_dir
      by (cases "d = i") auto
    show "0 < c \<and> live s' c" if "dent s' d x = Some (nm, c)" for d x nm c
      using that fs_child [OF inv] unfolding e lv by blast
    show "d = d' \<and> x = x'" if "dent s' d x = Some (nm, c)" "dent s' d' x' = Some (nm', c)" for d x nm d' x' nm' c
      using fs_once [OF inv] that unfolding e by blast
  qed (use blk fs_root [OF inv] fs_live [OF inv] fs_reach [OF inv] in \<open>simp_all only: lv fl dr cr\<close>)
  show "abs_fs s' = (abs_fs s)(i \<mapsto> File (file_bytes s' i))"
    using abs_fs_same_but [OF sb] i' by (auto simp: fun_eq_iff abs_fs_def [of s' i])
qed

lemma munin_init_fs: "fs_inv (munin_init s)" "abs_fs (munin_init s) = [0 \<mapsto> Dir (\<lambda>_. None)]"
proof -
  let ?s = "munin_init s"
  note st = munin_init_state [where s = s]
  have nd: "dent ?s d x = None" for d x by (simp add: dent_def st(4))
  have d: "is_dir ?s i \<longleftrightarrow> i = 0" for i
    using st(1) [of i] st(2) by (auto simp: is_dir_def live_def)
  have f: "\<not> file_at ?s i" for i
    using st(1) [of i] st(2) by (auto simp: file_at_def live_def)
  have "dir_ok ?s 0"
    using st(3,4,5) by (simp add: dir_ok_def dents_ok_def names_unique_def nd)
  then show "fs_inv ?s"
    by (intro fs_invI) (use d f nd st(1) munin_init_blk_inv in auto)
  have "dir_map ?s 0 = (\<lambda>_. None)" by (rule ext) (simp add: dir_map_None nd)
  then show "abs_fs ?s = [0 \<mapsto> Dir (\<lambda>_. None)]"
    by (auto simp: abs_fs_def d f fun_eq_iff)
qed

section \<open>The file operations, abstractly\<close>

lemma abs_fs_File: "abs_fs s i = Some (File bs) \<longleftrightarrow> file_at s i \<and> bs = file_bytes s i"
  by (auto simp: abs_fs_def)

lemma abs_fs_Dir: "abs_fs s i = Some (Dir m) \<longleftrightarrow> is_dir s i \<and> m = dir_map s i"
  using not_file_dir by (auto simp: abs_fs_def)

lemma abs_fs_None: "fs_inv s \<Longrightarrow> abs_fs s i = None \<longleftrightarrow> \<not> live s i"
  using fs_live [of s i] file_at_live [of s i] is_dir_live [of s i] by (auto simp: abs_fs_def)

lemma write_inode_abs:
  assumes inv: "fs_inv s" and i: "file_at s i" and off: "unat off < 69632"
  shows "\<exists>n s'. munin_write_inode s (int i) buf len off = (int n, s') \<and> n \<le> unat len
    \<and> unat off + n \<le> 69632
    \<and> (n = unat len \<or> unat off + n = 69632 \<or> avail_blocks s' = {})
    \<and> fs_inv s'
    \<and> abs_fs s' = (abs_fs s)(i \<mapsto> File (splice (file_bytes s i) (unat off) (map buf [0..<n])))"
proof -
  obtain v s' where r: "munin_write_inode s (int i) buf len off = (v, s')"
    by (cases "munin_write_inode s (int i) buf len off")
  from write_inode_outcome [OF fs_blk [OF inv] i off r] obtain n where
    n: "v = int n" "n \<le> unat len" "unat off + n \<le> 69632"
      "n < unat len \<Longrightarrow> unat off + n = 69632 \<or> avail_blocks s' = {}"
    and w: "wrote i buf (unat off) 0 n s (upd_inode i (\<lambda>f. f\<lparr>isize := isize (g_inodes s i)\<rparr>) s')"
    and sz: "unat (isize (g_inodes s' i)) = max (unat (isize (g_inodes s i))) (unat off + n)"
    and u: "blk_inv s'" "same_but i s s'" "itype (g_inodes s' i) = INODE_FILE"
    by metis
  note f = wrote_file [OF fs_file [OF inv i] sz n(3) wrote_content [OF w]]
  note up = fs_file_update [OF inv i u(2,1,3) f(1)]
  have "n = unat len \<or> unat off + n = 69632 \<or> avail_blocks s' = {}"
    using n(2,4) by (cases "n = unat len") auto
  with r n up f(2) show ?thesis by auto
qed

lemma read_inode_abs:
  assumes inv: "fs_inv s" and i: "file_at s i"
  shows "\<exists>n dst. munin_read_inode s (int i) buf len off = (int n, dst)
    \<and> n = min (unat len) (min (length (file_bytes s i)) 4096 - unat off)
    \<and> map dst [0..<n] = take n (drop (unat off) (file_bytes s i))"
proof -
  obtain v dst where r: "munin_read_inode s (int i) buf len off = (v, dst)"
    by (cases "munin_read_inode s (int i) buf len off")
  from read_inode_outcome [OF i fs_file [OF inv i] r] obtain n where
    n: "v = int n" "n = min (unat len) (min (unat (isize (g_inodes s i))) 4096 - unat off)"
    and d: "\<forall>p. dst p = (if p < n then content s i (unat off + p) else buf p)" by auto
  have "map dst [0..<n] = take n (drop (unat off) (file_bytes s i))"
    using n(2) by (intro nth_equalityI) (auto simp: d file_bytes_def)
  with r n show ?thesis by (simp add: file_bytes_def)
qed

lemma truncate_abs:
  assumes inv: "fs_inv s" and i: "file_at s i"
  shows "fst (munin_truncate s (int i)) = 0" "fs_inv (snd (munin_truncate s (int i)))"
    "abs_fs (snd (munin_truncate s (int i))) = (abs_fs s)(i \<mapsto> File [])"
proof -
  let ?s' = "free_inode_blocks i s"
  have t: "munin_truncate s (int i) = (0, ?s')" using i by (simp add: munin_truncate_def file_at_def)
  have c: "cleared i s ?s'" by (rule free_inode_blocks_cleared [OF fs_blk [OF inv] file_at_live [OF i]])
  then have u: "same_but i s ?s'" "blk_inv ?s'" "itype (g_inodes ?s' i) = INODE_FILE"
    using i by (simp_all add: cleared_def file_at_def)
  note up = fs_file_update [OF inv i u cleared_file(1) [OF c]]
  show "fst (munin_truncate s (int i)) = 0" "fs_inv (snd (munin_truncate s (int i)))"
    "abs_fs (snd (munin_truncate s (int i))) = (abs_fs s)(i \<mapsto> File [])"
    using up cleared_file(2) [OF c] by (simp_all add: t)
qed

section \<open>Path resolution\<close>

function resolve_loop :: "munin \<Rightarrow> cstr \<Rightarrow> nat \<Rightarrow> int \<Rightarrow> nat \<Rightarrow> int" where
  "resolve_loop s path len cur i =
     (if i < len then
        let start = skip_slashes path len i in
        if start \<ge> len then cur
        else let stop = span_comp path len start; clen = stop - start in
          if clen > 0 then
            (if itype (g_inodes s (nat cur)) \<noteq> INODE_DIR then - 1
             else let nxt = dir_lookup s (nat cur) (drop start path) clen in
               if nxt < 0 then - 1 else resolve_loop s path len nxt stop)
          else resolve_loop s path len cur stop
      else cur)"
  by pat_completeness auto
termination
proof (relation "measure (\<lambda>(s, path, len, cur, i). len - i)", goal_cases)
  case 1
  show ?case by simp
next
  case (2 s path len cur i start stop clen nxt)
  then show ?case using skip_slashes_spec [of i path len] by auto
next
  case (3 s path len cur i start stop clen)
  then have "start < stop"
    using span_comp_progress [of start len path] skip_slashes_spec [of i path len] by simp
  with 3 show ?case by simp
qed

declare resolve_loop.simps [simp del]

definition resolve_n :: "munin \<Rightarrow> cstr \<Rightarrow> nat \<Rightarrow> int" where
  "resolve_n s path len =
     (if len < 1 \<or> char_at path 0 \<noteq> slash then - 1 else resolve_loop s path len 0 1)"

definition munin_resolve :: "munin \<Rightarrow> cstr \<Rightarrow> int" where
  "munin_resolve s path = resolve_n s path (str_len path)"

text \<open>The specification: walk the directory maps along the components of the path.\<close>

primrec walk :: "(nat \<Rightarrow> node option) \<Rightarrow> nat \<Rightarrow> cstr list \<Rightarrow> nat option" where
  "walk fs cur [] = Some cur"
| "walk fs cur (w # ws) = (case fs cur of Some (Dir m) \<Rightarrow>
     (case m w of Some c \<Rightarrow> walk fs c ws | None \<Rightarrow> None) | _ \<Rightarrow> None)"

lemma walk_append: "walk fs cur (xs @ ys) = (case walk fs cur xs of Some d \<Rightarrow> walk fs d ys | None \<Rightarrow> None)"
  by (induction xs arbitrary: cur) (auto split: option.splits node.splits)

definition ino_of :: "nat option \<Rightarrow> int" where
  "ino_of r = (case r of Some i \<Rightarrow> int i | None \<Rightarrow> - 1)"

lemma slice_no_nul: "j \<le> str_len p \<Longrightarrow> 0 \<notin> set (slice p i j)"
  using char_at_nz [of _ p] by (auto simp: slice_def)

lemma slice_drop: "map (char_at (drop a p)) [0..<n] = slice p a (a + n)"
  by (rule nth_equalityI) (simp_all add: slice_def char_at_drop)

lemma resolve_loop_walk:
  assumes "fs_inv s" and "live s cur" and "len \<le> str_len path" and "i \<le> len"
  shows "resolve_loop s path len (int cur) i = ino_of (walk (abs_fs s) cur (comps (slice path i len)))"
  using assms
proof (induction s path len "int cur" i arbitrary: cur rule: resolve_loop.induct)
  case (1 s path len i)
  note inv = 1(3) and cur = 1(4) and len = 1(5)
  define start where "start = skip_slashes path len i"
  note sk = skip_slashes_spec [of i path len, folded start_def]
  have cs: "comps (slice path i len) = comps (slice path start len)"
    unfolding start_def by (rule comps_skip [OF 1(6)])
  show ?case
  proof (cases "start < len")
    case False
    then have "comps (slice path i len) = []" unfolding cs by (simp add: slice_def)
    moreover have "resolve_loop s path len (int cur) i = int cur"
      using False by (simp add: resolve_loop.simps [of s path len "int cur" i] start_def)
    ultimately show ?thesis by (simp add: ino_of_def)
  next
    case True
    with sk have i: "i < len" by linarith
    define stop where "stop = span_comp path len start"
    have ns: "char_at path start \<noteq> slash" using sk True by simp
    have prog: "start < stop" unfolding stop_def by (rule span_comp_progress [OF True ns])
    have stop: "stop \<le> len" using span_comp_spec [of start path len] True by (simp add: stop_def)
    let ?w = "slice path start stop"
    have cs': "comps (slice path i len) = ?w # comps (slice path stop len)"
      unfolding cs stop_def by (rule comps_span [OF True ns])
    define nxt where "nxt = dir_lookup s cur (drop start path) (stop - start)"
    have step: "resolve_loop s path len (int cur) i =
        (if itype (g_inodes s cur) \<noteq> INODE_DIR then - 1
         else if nxt < 0 then - 1 else resolve_loop s path len nxt stop)"
      using i True prog
      by (simp add: resolve_loop.simps [of s path len "int cur" i] Let_def start_def stop_def nxt_def)
    show ?thesis
    proof (cases "is_dir s cur")
      case False
      then have "itype (g_inodes s cur) \<noteq> INODE_DIR" "file_at s cur"
        using cur fs_live [OF inv cur] by (auto simp: is_dir_def live_def)
      then show ?thesis by (simp add: step cs' abs_fs_def ino_of_def)
    next
      case dir: True
      have w: "map (char_at (drop start path)) [0..<stop - start] = ?w"
        using slice_drop [of start path "stop - start"] prog by simp
      have "0 \<notin> set ?w" by (rule slice_no_nul) (use stop len in linarith)
      then have look: "nxt = ino_of (dir_map s cur ?w)"
        using dir_lookup_map [OF dir, of "drop start path" "stop - start"] fs_dir [OF inv dir]
        unfolding nxt_def w by (simp add: dir_ok_def ino_of_def)
      have fs: "abs_fs s cur = Some (Dir (dir_map s cur))" using dir by (simp add: abs_fs_Dir)
      show ?thesis
      proof (cases "dir_map s cur ?w")
        case None
        with dir look show ?thesis by (simp add: step cs' fs ino_of_def is_dir_def)
      next
        case (Some c)
        then obtain x where "dent s cur x = Some (?w, c)"
          using dir_map_Some fs_dir [OF inv dir] by (auto simp: dir_ok_def)
        then have live: "live s c" using fs_child [OF inv] by blast
        have nx: "nxt = int c" using look Some by (simp add: ino_of_def)
        have "resolve_loop s path len (int c) stop = ino_of (walk (abs_fs s) c (comps (slice path stop len)))"
        proof (rule 1(1) [OF i start_def _ stop_def refl _ _ _ _ inv live len stop])
          show "int c = dir_lookup s (nat (int cur)) (drop start path) (stop - start)"
            using nx by (simp add: nxt_def)
        qed (use True prog dir in \<open>simp_all add: is_dir_def\<close>)
        with dir nx Some show ?thesis by (simp add: step cs' fs is_dir_def)
      qed
    qed
  qed
qed

lemma resolve_n_walk:
  assumes inv: "fs_inv s" and len: "len \<le> str_len path"
  shows "resolve_n s path len = (if len \<ge> 1 \<and> char_at path 0 = slash
    then ino_of (walk (abs_fs s) 0 (comps (slice path 0 len))) else - 1)"
proof (cases "len \<ge> 1 \<and> char_at path 0 = slash")
  case True
  then have "comps (slice path 0 len) = comps (slice path 1 len)" by (simp add: slice_Cons)
  moreover have "resolve_loop s path len (int 0) 1 = ino_of (walk (abs_fs s) 0 (comps (slice path 1 len)))"
    by (rule resolve_loop_walk [OF inv is_dir_live [OF fs_root [OF inv]] len]) (use True in simp)
  ultimately show ?thesis using True by (simp add: resolve_n_def)
next
  case False
  then show ?thesis by (auto simp: resolve_n_def)
qed

section \<open>Creating an entry\<close>

definition munin_create :: "munin \<Rightarrow> int \<Rightarrow> cstr \<Rightarrow> u8 \<Rightarrow> int \<times> munin" where
  "munin_create s dir name ty =
     (if dir < 0 \<or> dir \<ge> 128 then (- 1, s)
      else if itype (g_inodes s (nat dir)) \<noteq> INODE_DIR then (- 1, s)
      else let nl = str_len name in
        if nl = 0 \<or> nl \<ge> 32 then (- 1, s)
        else if dir_lookup s (nat dir) name nl \<ge> 0 then (- 1, s)
        else let (ino, s1) = alloc_inode ty s in
          if ino < 0 then (- 1, s1)
          else let (ok, s2) = add_dirent s1 (nat dir) name ino in
            if \<not> ok then (- 1, upd_inode (nat ino) (\<lambda>f. f\<lparr>itype := INODE_FREE\<rparr>) s2)
            else (ino, s2))"

text \<open>A node that an allocated inode stands for before anything is put into it.\<close>

definition empty_node :: "u8 \<Rightarrow> node" where
  "empty_node ty = (if ty = INODE_FILE then File [] else Dir (\<lambda>_. None))"

lemma no_ptr_no_dent: "\<forall>sl. ptr s (i, sl) = NO_BLOCK \<Longrightarrow> dent s i x = None"
  by (simp add: dent_def)

lemma empty_inode_ok:
  assumes "\<forall>sl. ptr s (i, sl) = NO_BLOCK" and "isize (g_inodes s i) = 0" and "iindirect (g_inodes s i) = NO_BLOCK"
  shows "file_ok s i" "file_bytes s i = []" "dir_ok s i" "dir_map s i = (\<lambda>_. None)"
  using assms no_ptr_no_dent [OF assms(1)]
  by (simp_all add: file_ok_def file_bytes_def dir_ok_def dents_ok_def names_unique_def content_def
      dir_map_None fun_eq_iff)

lemma dents_subset: "{x. dent s d x \<noteq> None} \<subseteq> set dir_slots"
  by (intro subsetI dent_slots) (erule CollectD)

lemma finite_dents: "finite {x. dent s d x \<noteq> None}"
  by (rule finite_subset [OF dents_subset]) simp

lemma card_dents: "card {x. dent s d x \<noteq> None} \<le> 112"
proof -
  have "card {x. dent s d x \<noteq> None} \<le> card (set dir_slots)"
    by (rule card_mono [OF _ dents_subset]) simp
  also have "\<dots> \<le> length dir_slots" by (rule card_length)
  also have "\<dots> = 112" by (simp add: dir_slots_def length_product)
  finally show ?thesis .
qed

lemma take_str_len_no_nul: "0 \<notin> set (take (str_len p) p)"
  by (auto simp: str_len_def takeWhile_eq_take [symmetric] dest: set_takeWhileD)

lemma take_str_len_slice: "map (char_at p) [0..<str_len p] = take (str_len p) p"
  using slice_take [OF str_len_le] by (simp add: slice_def)

text \<open>The directory after \<^verbatim>\<open>add_dirent\<close>.\<close>

lemma entry_added_dir:
  assumes ok: "dir_ok s d" and new: "\<And>x c. dent s d x \<noteq> Some (nm, c)"
    and nm: "nm \<noteq> []" "length nm < 32" "0 \<notin> set nm"
    and add: "entry_added s s' d nm c" and dents: "dents_ok s' d"
    and ind: "iindirect (g_inodes s' d) = iindirect (g_inodes s d)"
    and size: "isize (g_inodes s' d) = isize (g_inodes s d) + 1"
  shows "dir_ok s' d" "dir_map s' d = (dir_map s d)(nm \<mapsto> c)"
    "\<And>x e. dent s d x = Some e \<Longrightarrow> dent s' d x = Some e"
proof -
  obtain x where x: "dent s d x = None" "dent s' d = (dent s d)(x := Some (nm, c))"
    using add by (auto simp: entry_added_def)
  show mono: "dent s' d y = Some e" if "dent s d y = Some e" for y e
    using that x by auto
  have un: "names_unique s' d"
    using ok new unfolding dir_ok_def names_unique_def x(2) by (auto split: if_splits)
  have "{y. dent s' d y \<noteq> None} = insert x {y. dent s d y \<noteq> None}" using x by auto
  then have card: "card {y. dent s' d y \<noteq> None} = card {y. dent s d y \<noteq> None} + 1"
    using x(1) finite_dents [of s d] by simp
  have "unat (isize (g_inodes s d) + 1) = unat (isize (g_inodes s d)) + 1"
    using ok card_dents [of s d] by (subst unat_add_u32) (simp_all add: dir_ok_def)
  then have "unat (isize (g_inodes s' d)) = card {y. dent s' d y \<noteq> None}"
    using ok card size by (simp add: dir_ok_def)
  moreover have "nm' \<noteq> [] \<and> length nm' < 32 \<and> 0 \<notin> set nm'" if "dent s' d y = Some (nm', c')" for y nm' c'
  proof (cases "y = x")
    case True
    with that nm x(2) show ?thesis by simp
  next
    case False
    with that x(2) have "dent s d y = Some (nm', c')" by simp
    then show ?thesis using ok unfolding dir_ok_def by blast
  qed
  ultimately show "dir_ok s' d" using ok ind dents un by (simp add: dir_ok_def)
  have u: "names_unique s d" using ok by (simp add: dir_ok_def)
  have "dir_map s' d nm' = ((dir_map s d)(nm \<mapsto> c)) nm'" for nm'
  proof (cases "nm' = nm")
    case True
    have "dent s' d x = Some (nm, c)" using x by simp
    then have "dir_map s' d nm = Some c" using dir_map_Some [OF un] by blast
    with True show ?thesis by simp
  next
    case False
    have "(\<exists>y. dent s' d y = Some (nm', c')) \<longleftrightarrow> (\<exists>y. dent s d y = Some (nm', c'))" for c'
      using x False by (metis fun_upd_apply option.distinct(1) option.inject prod.inject)
    then have "dir_map s' d nm' = Some c' \<longleftrightarrow> dir_map s d nm' = Some c'" for c'
      by (simp only: dir_map_Some [OF un] dir_map_Some [OF u])
    then have "dir_map s' d nm' = dir_map s d nm'" by (metis not_None_eq)
    with False show ?thesis by simp
  qed
  then show "dir_map s' d = (dir_map s d)(nm \<mapsto> c)" ..
qed

text \<open>Taking a fresh inode into use as the child of a new entry.\<close>

lemma fs_add_child:
  assumes inv: "fs_inv s" and d: "is_dir s d" and c: "c < 128" "\<not> live s c" "c \<noteq> d"
    and sb1: "same_but c s s1" and sb2: "same_but d s1 s2" and blk: "blk_inv s2"
    and ty: "ty = INODE_FILE \<or> ty = INODE_DIR" "itype (g_inodes s2 c) = ty"
    and dty: "itype (g_inodes s2 d) = INODE_DIR"
    and empty: "\<forall>sl. ptr s2 (c, sl) = NO_BLOCK" "isize (g_inodes s2 c) = 0" "iindirect (g_inodes s2 c) = NO_BLOCK"
    and new: "\<And>x c. dent s d x \<noteq> Some (nm, c)"
    and dok: "dir_ok s2 d" and dmap: "dir_map s2 d = (dir_map s d)(nm \<mapsto> c)"
    and add: "entry_added s s2 d nm c"
  shows "fs_inv s2"
    "abs_fs s2 = (abs_fs s)(d \<mapsto> Dir ((dir_map s d)(nm \<mapsto> c)), c \<mapsto> empty_node ty)"
proof -
  have lv: "live s2 j \<longleftrightarrow> j = c \<or> live s j" for j
    using live_same_but [OF sb1, of j] live_same_but [OF sb2, of j] c ty dty is_dir_live [OF d]
    by (cases "j = c"; cases "j = d") (auto simp: live_def)
  note e = empty_inode_ok [OF empty]
  obtain x where x: "dent s d x = None" "dent s2 d = (dent s d)(x := Some (nm, c))"
    using add by (auto simp: entry_added_def)
  have cd: "dent s2 c y = None" "dent s c y = None" for y
    using no_ptr_no_dent [OF empty(1)] c(2) by (simp_all add: dent_def not_live_ptr)
  have dn: "dent s2 j y = (if j = d \<and> y = x then Some (nm, c) else dent s j y)" for j y
  proof -
    consider "j = c" | "j = d" | "j \<noteq> c" "j \<noteq> d" by blast
    then show ?thesis
    proof cases
      case 1
      then show ?thesis using cd c(3) by simp
    next
      case 2
      then show ?thesis using x by simp
    next
      case 3
      then show ?thesis using dent_same_but [OF sb1] dent_same_but [OF sb2] by simp
    qed
  qed
  have sub: "child_rel s \<subseteq> child_rel s2"
  proof (rule subrelI)
    fix a b assume "(a, b) \<in> child_rel s"
    then obtain y nm' where "dent s a y = Some (nm', b)" unfolding child_rel_def by blast
    then have "dent s2 a y = Some (nm', b)" using x(1) by (auto simp: dn)
    then show "(a, b) \<in> child_rel s2" unfolding child_rel_def by blast
  qed
  have "dent s2 d x = Some (nm, c)" by (simp add: dn)
  then have dc: "(d, c) \<in> child_rel s2" unfolding child_rel_def by blast
  have nochild: "dent s j y \<noteq> Some (nm', c)" for j y nm' using fs_child [OF inv] c(2) by blast
  show "fs_inv s2"
  proof (rule fs_invI)
    show "is_dir s2 0"
    proof (cases "d = 0")
      case False
      then show ?thesis using is_dir_same_but [OF sb1, of 0] is_dir_same_but [OF sb2, of 0] fs_root [OF inv]
        is_dir_live [OF fs_root [OF inv]] c(2) by metis
    qed (use dty in \<open>simp add: is_dir_def\<close>)
    show "file_at s2 j \<or> is_dir s2 j" if "live s2 j" for j
    proof -
      consider "j = c" | "j = d" | "j \<noteq> c" "j \<noteq> d" by blast
      then show ?thesis
      proof cases
        case 3
        then show ?thesis using that fs_live [OF inv, of j]
          by (simp add: lv file_at_same_but [OF sb1] file_at_same_but [OF sb2] is_dir_same_but [OF sb1]
              is_dir_same_but [OF sb2])
      qed (use c ty d dty in \<open>auto simp: file_at_def is_dir_def\<close>)
    qed
    show "file_ok s2 j" if "file_at s2 j" for j
    proof -
      consider "j = c" | "j = d" | "j \<noteq> c" "j \<noteq> d" by blast
      then show ?thesis
      proof cases
        case 3
        then show ?thesis using that fs_file [OF inv, of j]
          by (simp add: file_at_same_but [OF sb1] file_at_same_but [OF sb2] file_ok_same_but [OF sb1]
              file_ok_same_but [OF sb2])
      qed (use e dty that in \<open>auto simp: file_at_def\<close>)
    qed
    show "dir_ok s2 j" if "is_dir s2 j" for j
    proof -
      consider "j = c" | "j = d" | "j \<noteq> c" "j \<noteq> d" by blast
      then show ?thesis
      proof cases
        case 3
        then show ?thesis using that fs_dir [OF inv, of j]
          by (simp add: is_dir_same_but [OF sb1] is_dir_same_but [OF sb2] dir_ok_same_but [OF sb1]
              dir_ok_same_but [OF sb2])
      qed (use e dok in simp_all)
    qed
    show "0 < c' \<and> live s2 c'" if "dent s2 j y = Some (nm', c')" for j y nm' c'
      using that fs_child [OF inv, of j y nm' c'] fs_root [OF inv] is_dir_live c(2)
      by (auto simp: dn lv split: if_splits intro: gr0I)
    show "j = j' \<and> y = y'" if "dent s2 j y = Some (nm', c')" "dent s2 j' y' = Some (nm'', c')" for j y nm' j' y' nm'' c'
      using that fs_once [OF inv, of j y nm' c' j' y' nm''] nochild by (auto simp: dn split: if_splits)
    show "(0, j) \<in> (child_rel s2)\<^sup>*" if "live s2 j" for j
    proof (cases "j = c")
      case True
      have "(0, d) \<in> (child_rel s2)\<^sup>*"
        using fs_reach [OF inv is_dir_live [OF d]] rtrancl_mono [OF sub] by blast
      with dc True show ?thesis by simp
    next
      case False
      with that show ?thesis using fs_reach [OF inv, of j] rtrancl_mono [OF sub] by (auto simp: lv)
    qed
  qed (rule blk)
  have "abs_fs s2 j = ((abs_fs s)(d \<mapsto> Dir ((dir_map s d)(nm \<mapsto> c)), c \<mapsto> empty_node ty)) j" for j
  proof -
    consider "j = c" | "j = d" | "j \<noteq> c" "j \<noteq> d" by blast
    then show ?thesis
    proof cases
      case 1
      then show ?thesis using c ty e by (auto simp: abs_fs_def file_at_def is_dir_def empty_node_def)
    next
      case 2
      then show ?thesis using d dty c(3) dmap by (auto simp: abs_fs_def file_at_def is_dir_def)
    next
      case 3
      then show ?thesis using abs_fs_same_but [OF sb1, of j] abs_fs_same_but [OF sb2, of j] by simp
    qed
  qed
  then show "abs_fs s2 = (abs_fs s)(d \<mapsto> Dir ((dir_map s d)(nm \<mapsto> c)), c \<mapsto> empty_node ty)" ..
qed

text \<open>An operation after which every inode stands for what it stood for before.\<close>

lemma fs_unchanged:
  assumes inv: "fs_inv s" and blk: "blk_inv s'"
    and lv: "\<And>j. live s' j \<longleftrightarrow> live s j"
    and ty: "\<And>j. live s j \<Longrightarrow> itype (g_inodes s' j) = itype (g_inodes s j)"
    and e: "\<And>j. dent s' j = dent s j"
    and fo: "\<And>j. file_at s j \<Longrightarrow> file_ok s' j \<and> file_bytes s' j = file_bytes s j"
    and dk: "\<And>j. is_dir s j \<Longrightarrow> dir_ok s' j"
  shows "fs_inv s'" "abs_fs s' = abs_fs s"
proof -
  have fl: "file_at s' j \<longleftrightarrow> file_at s j" for j
    using lv [of j] ty [of j] by (auto simp: file_at_def live_def)
  have dr: "is_dir s' j \<longleftrightarrow> is_dir s j" for j
    using lv [of j] ty [of j] by (auto simp: is_dir_def live_def)
  have cr: "child_rel s' = child_rel s" by (simp only: child_rel_def e)
  show "fs_inv s'"
    by (rule fs_invI)
      (use blk fs_root [OF inv] fs_live [OF inv] fs_reach [OF inv] fo dk fs_child [OF inv] fs_once [OF inv]
        in \<open>simp_all only: lv fl dr cr e\<close>)
  have "dir_map s' j = dir_map s j" for j by (rule ext) (simp only: dir_map_def e)
  then show "abs_fs s' = abs_fs s"
    using fo by (auto simp: abs_fs_def fl dr fun_eq_iff)
qed

lemma fs_roll_back:
  assumes inv: "fs_inv s" and d: "is_dir s d" and c: "\<not> live s c" "c \<noteq> d"
    and sb1: "same_but c s s1" and sb2: "same_but d s1 s2" and blk: "blk_inv s2"
    and no: "\<forall>sl. ptr s2 (c, sl) = NO_BLOCK"
    and node: "itype (g_inodes s2 d) = itype (g_inodes s1 d)" "isize (g_inodes s2 d) = isize (g_inodes s1 d)"
      "iindirect (g_inodes s2 d) = iindirect (g_inodes s1 d)"
    and e: "dent s2 d = dent s1 d" and ok: "dents_ok s2 d"
    and s': "s' = upd_inode c (\<lambda>f. f\<lparr>itype := INODE_FREE\<rparr>) s2"
  shows "fs_inv s'" "abs_fs s' = abs_fs s"
proof -
  have dead: "\<not> live s' c" by (simp add: s' live_def)
  have "blk_inv s' \<and> same_but c s2 s'"
    by (rule retyped [OF blk no]) (use dead in \<open>simp_all add: s' not_live_ptr\<close>)
  then have blk': "blk_inv s'" and sb3: "same_but c s2 s'" by simp_all
  have n: "g_inodes s1 d = g_inodes s d" "g_inodes s' d = g_inodes s2 d"
    using same_but_inode [OF sb1, of d] same_but_inode [OF sb3, of d] c(2) by simp_all
  have dd: "dent s' d = dent s d"
    using dent_same_but [OF sb1, of d] dent_same_but [OF sb3, of d] c(2) e by simp
  have okd: "dents_ok s' d" using dents_ok_same_but(1) [OF sb3, of d] c(2) ok by simp
  have ty: "itype (g_inodes s' j) = itype (g_inodes s j)" if "j \<noteq> c" for j
    using that same_but_inode [OF sb1, of j] same_but_inode [OF sb2, of j] same_but_inode [OF sb3, of j] node n
    by (cases "j = d") simp_all
  have lv: "live s' j \<longleftrightarrow> live s j" for j
    using ty [of j] dead c(1) by (cases "j = c") (auto simp: live_def)
  have dn: "dent s' j = dent s j" for j
  proof -
    have "dent s' c x = None" "dent s c x = None" for x
      using dead c(1) by (simp_all add: dent_def not_live_ptr)
    then have "dent s' c = dent s c" by (simp add: fun_eq_iff)
    then show ?thesis using dd dent_same_but [OF sb1, of j] dent_same_but [OF sb2, of j] dent_same_but [OF sb3, of j]
      by (cases "j = c"; cases "j = d") simp_all
  qed
  have other: "live s j \<Longrightarrow> j \<noteq> c" for j using c(1) by blast
  have fo: "file_ok s' j \<and> file_bytes s' j = file_bytes s j" if "file_at s j" for j
  proof -
    have "j \<noteq> c" "j \<noteq> d" using other file_at_live [OF that] d that not_file_dir by blast+
    then show ?thesis using fs_file [OF inv that] file_ok_same_but [OF sb1, of j] file_ok_same_but [OF sb2, of j]
        file_ok_same_but [OF sb3, of j] file_bytes_same_but [OF sb1, of j] file_bytes_same_but [OF sb2, of j]
        file_bytes_same_but [OF sb3, of j] by simp
  qed
  have dk: "dir_ok s' j" if "is_dir s j" for j
  proof (cases "j = d")
    case True
    then show ?thesis using fs_dir [OF inv d] okd n node
      by (simp add: dir_ok_def names_unique_def dd)
  next
    case False
    have "j \<noteq> c" using other is_dir_live [OF that] by blast
    with False fs_dir [OF inv that] show ?thesis using dir_ok_same_but [OF sb1, of j]
        dir_ok_same_but [OF sb2, of j] dir_ok_same_but [OF sb3, of j] by simp
  qed
  have ty': "itype (g_inodes s' j) = itype (g_inodes s j)" if "live s j" for j
    using ty other that by blast
  show "fs_inv s'" "abs_fs s' = abs_fs s"
    by (rule fs_unchanged [OF inv blk' lv ty' dn fo dk]; assumption)+
qed

lemma munin_create_abs:
  assumes inv: "fs_inv s" and d: "is_dir s d" and ty: "ty = INODE_FILE \<or> ty = INODE_DIR"
    and r: "munin_create s (int d) name ty = (v, s')" and nm: "nm = take (str_len name) name"
  shows "fs_inv s' \<and>
    (if v < 0 then v = - 1 \<and> abs_fs s' = abs_fs s
       \<and> (nm = [] \<or> 32 \<le> length nm \<or> dir_map s d nm \<noteq> None \<or> (\<forall>c < 128. live s c)
          \<or> avail_blocks s' = {} \<or> (\<forall>x \<in> set dir_slots. dent s d x \<noteq> None))
     else \<exists>c. v = int c \<and> c < 128 \<and> \<not> live s c \<and> nm \<noteq> [] \<and> length nm < 32 \<and> dir_map s d nm = None
       \<and> abs_fs s' = (abs_fs s)(d \<mapsto> Dir ((dir_map s d)(nm \<mapsto> c)), c \<mapsto> empty_node ty))"
proof -
  have d1: "d < 128" "itype (g_inodes s d) = INODE_DIR" using d by (simp_all add: is_dir_def)
  have len: "length nm = str_len name" using str_len_le [of name] by (simp add: nm)
  have nul: "0 \<notin> set nm" unfolding nm by (rule take_str_len_no_nul)
  have look: "dir_lookup s d name (str_len name) = ino_of (dir_map s d nm)"
    using dir_lookup_map [OF d, of name "str_len name"] fs_dir [OF inv d] nul
    unfolding take_str_len_slice nm [symmetric] by (simp add: dir_ok_def ino_of_def)
  show ?thesis
  proof (cases "nm = [] \<or> 32 \<le> length nm \<or> dir_map s d nm \<noteq> None")
    case True
    then have "v = - 1" "s' = s"
      using r d1 len look by (auto simp: munin_create_def Let_def ino_of_def split: if_splits)
    with True inv show ?thesis by auto
  next
    case False
    then have "str_len name \<noteq> 0" using len by (metis length_0_conv)
    with False have ok: "str_len name \<noteq> 0" "str_len name < 32" "dir_map s d nm = None" "nm \<noteq> []"
        "length nm < 32"
      using len by simp_all
    have new: "dent s d x \<noteq> Some (nm, c)" for x c using ok(3) dir_map_None [of s d nm] by blast
    have cr: "munin_create s (int d) name ty = (let (ino, s1) = alloc_inode ty s in
          if ino < 0 then (- 1, s1)
          else let (ok, s2) = add_dirent s1 (nat (int d)) name ino in
            if \<not> ok then (- 1, upd_inode (nat ino) (\<lambda>f. f\<lparr>itype := INODE_FREE\<rparr>) s2)
            else (ino, s2))"
      using d1 ok look by (simp add: munin_create_def Let_def ino_of_def)
    show ?thesis
    proof (cases rule: alloc_inode_cases [of ty s])
      case full
      with r inv show ?thesis by (auto simp: cr)
    next
      case (ok c)
      define s1 where "s1 = upd_inode c (new_inode ty) s"
      have cd: "c \<noteq> d" using ok(3) is_dir_live [OF d] by blast
      have blk1: "blk_inv s1" and sb1: "same_but c s s1"
        unfolding s1_def by (rule new_inode_spec [OF fs_blk [OF inv] ok(3)])+
      have n1: "itype (g_inodes s1 c) = ty" "isize (g_inodes s1 c) = 0" "iindirect (g_inodes s1 c) = NO_BLOCK"
        and p1: "ptr s1 (c, sl) = NO_BLOCK" for sl
        unfolding s1_def by simp_all
      have dir1: "is_dir s1 d" and ok1: "dir_ok s1 d" and e1: "dent s1 d = dent s d" and m1: "dir_map s1 d = dir_map s d"
        using is_dir_same_but [OF sb1] dir_ok_same_but [OF sb1] dent_same_but [OF sb1] dir_map_same_but [OF sb1]
          cd d fs_dir [OF inv d] by metis+
      obtain okr s2 where ad: "add_dirent s1 d name (int c) = (okr, s2)"
        by (cases "add_dirent s1 d name (int c)")
      then have al: "add_dirent_loop s1 d name (int c) [0..<8] = (okr, s2)" by (simp add: add_dirent_def)
      have dk1: "dents_ok s1 d" using ok1 by (simp add: dir_ok_def)
      have bs: "set [0..<8] \<subseteq> {..<8 :: nat}" by (simp only: set_upt) auto
      note spec = add_dirent_loop_spec [OF al blk1 dir1 dk1 ok(2) \<open>str_len name < 32\<close> bs]
      then have sb2: "same_but d s1 s2" and blk2: "blk_inv s2" by simp_all
      have n2: "g_inodes s2 c = g_inodes s1 c" and p2: "\<forall>sl. ptr s2 (c, sl) = NO_BLOCK"
        using same_but_inode [OF sb2 cd] same_but_ptr [OF sb2 cd] p1 by simp_all
      have ty1: "itype (g_inodes s1 d) = INODE_DIR" using dir1 by (simp add: is_dir_def)
      show ?thesis
      proof (cases okr)
        case True
        then have add: "entry_added s1 s2 d nm c" and dk: "dents_ok s2 d"
          and ind: "iindirect (g_inodes s2 d) = iindirect (g_inodes s1 d)"
          and sz: "isize (g_inodes s2 d) = isize (g_inodes s1 d) + 1" and dty: "itype (g_inodes s2 d) = INODE_DIR"
          using spec ty1 by (simp_all add: nm)
        have new1: "dent s1 d x \<noteq> Some (nm, c')" for x c' using new unfolding e1 .
        note ea = entry_added_dir [OF ok1 new1 \<open>nm \<noteq> []\<close> \<open>length nm < 32\<close> nul add dk ind sz]
        have add': "entry_added s s2 d nm c" using add by (simp only: entry_added_def e1)
        note fin = fs_add_child [OF inv d ok(2,3) cd sb1 sb2 blk2 ty _ dty p2 _ _ new ea(1) _ add']
        have "fs_inv s2" "abs_fs s2 = (abs_fs s)(d \<mapsto> Dir ((dir_map s d)(nm \<mapsto> c)), c \<mapsto> empty_node ty)"
          by (rule fin; simp add: n1 n2 ea(2) m1)+
        moreover have "v = int c" "s' = s2" using r ad ok(1) True by (simp_all add: cr s1_def)
        ultimately show ?thesis
          using ok(2,3) \<open>nm \<noteq> []\<close> \<open>length nm < 32\<close> \<open>dir_map s d nm = None\<close> by auto
      next
        case False
        then have s': "v = - 1" "s' = upd_inode c (\<lambda>f. f\<lparr>itype := INODE_FREE\<rparr>) s2"
          using r ad ok(1) by (simp_all add: cr s1_def)
        have nd: "itype (g_inodes s2 d) = itype (g_inodes s1 d)" "isize (g_inodes s2 d) = isize (g_inodes s1 d)"
            "iindirect (g_inodes s2 d) = iindirect (g_inodes s1 d)" "dent s2 d = dent s1 d" "dents_ok s2 d"
          and full: "avail_blocks s2 = {} \<or> (\<forall>b \<in> set [0..<8]. \<forall>k < 14. dent s1 d (b, k) \<noteq> None)"
          using spec False by simp_all
        have "\<forall>x \<in> set dir_slots. dent s d x \<noteq> None" if "\<forall>b \<in> set [0..<8]. \<forall>k < 14. dent s1 d (b, k) \<noteq> None"
          using that unfolding e1 by (metis atLeastLessThan_iff prod.collapse set_dir_slots set_upt zero_le)
        moreover have "avail_blocks s' = avail_blocks s2" by (simp add: s'(2) avail_blocks_def)
        ultimately show ?thesis
          using fs_roll_back [OF inv d ok(3) cd sb1 sb2 blk2 p2 nd s'(2)] full s'(1) by auto
      qed
    qed
  qed
qed

lemma munin_create_not_dir:
  "\<not> (0 \<le> dir \<and> is_dir s (nat dir)) \<Longrightarrow> munin_create s dir name ty = (- 1, s)"
  by (auto simp: munin_create_def is_dir_def)

end
