(* ===== verification/Munin_Path.thy ===== *)
theory Munin_Path
  imports Munin_Fs
begin

text \<open>
  The path operations of munin.cpp: creation, whole-file write and read, removal, listing. A path is
  cut at its last slash; \<open>path_cut\<close> says that the cut agrees with the components of the path.
\<close>

section \<open>Cutting a path\<close>

function strip_len :: "cstr \<Rightarrow> nat \<Rightarrow> nat" where
  "strip_len path len =
     (if len > 1 \<and> char_at path (len - 1) = slash then strip_len path (len - 1) else len)"
  by pat_completeness auto
termination
  by (relation "measure (\<lambda>(path, len). len)") auto

declare strip_len.simps [simp del]

definition last_slash :: "cstr \<Rightarrow> nat \<Rightarrow> nat" where
  "last_slash path len = fold (\<lambda>i sl. if char_at path i = slash then i else sl) [0..<len] 0"

lemma strip_len_spec:
  "strip_len path len \<le> len \<and> (len \<ge> 1 \<longrightarrow> strip_len path len \<ge> 1)
   \<and> (\<forall>j. strip_len path len \<le> j \<longrightarrow> j < len \<longrightarrow> char_at path j = slash)
   \<and> (strip_len path len > 1 \<longrightarrow> char_at path (strip_len path len - 1) \<noteq> slash)"
proof (induction path len rule: strip_len.induct)
  case (1 path len)
  show ?case
  proof (cases "len > 1 \<and> char_at path (len - 1) = slash")
    case True
    then have e: "strip_len path len = strip_len path (len - 1)" by (subst strip_len.simps) (rule if_P)
    have "char_at path j = slash" if "strip_len path (len - 1) \<le> j" "j < len" for j
      using 1 [OF True] True that by (cases "j = len - 1") auto
    with 1 [OF True] True show ?thesis unfolding e by auto
  next
    case False
    then have "strip_len path len = len" by (subst strip_len.simps) (rule if_not_P)
    with False show ?thesis by auto
  qed
qed

lemma last_slash_spec:
  "char_at path 0 = slash \<Longrightarrow> len \<ge> 1 \<Longrightarrow> last_slash path len < len \<and> char_at path (last_slash path len) = slash
   \<and> (\<forall>j. last_slash path len < j \<longrightarrow> j < len \<longrightarrow> char_at path j \<noteq> slash)"
proof (induction len)
  case (Suc n)
  show ?case
  proof (cases "n = 0")
    case True
    with Suc.prems show ?thesis by (simp add: last_slash_def)
  next
    case False
    with Suc have ih: "last_slash path n < n" "char_at path (last_slash path n) = slash"
      "\<forall>j. last_slash path n < j \<longrightarrow> j < n \<longrightarrow> char_at path j \<noteq> slash" by simp_all
    have e: "last_slash path (Suc n) = (if char_at path n = slash then n else last_slash path n)"
      by (simp add: last_slash_def)
    show ?thesis unfolding e using ih by (auto simp: less_Suc_eq)
  qed
qed simp

lemma path_cut:
  assumes p: "char_at path 0 = slash" and len: "len = strip_len path (str_len path)"
    and sl: "sl = last_slash path len"
  shows "comps (take (str_len path) path) = comps (slice path 0 sl) @ (if len \<le> sl + 1 then [] else [slice path (sl + 1) len])"
    "sl < len" "len \<le> str_len path" "len \<le> sl + 1 \<Longrightarrow> sl = 0" "sl \<noteq> 0 \<Longrightarrow> char_at path 0 = slash"
proof -
  have n1: "str_len path \<ge> 1" using char_at_str_len [of path] p by (cases "str_len path") (auto simp: slash_def)
  note st = strip_len_spec [of path "str_len path", folded len]
  show le: "len \<le> str_len path" using st by simp
  have l1: "len \<ge> 1" using st n1 by simp
  note ls = last_slash_spec [OF p l1, folded sl]
  then show "sl < len" by simp
  have "take (str_len path) path = slice path 0 (str_len path)" by (simp add: slice_take str_len_le)
  also have "\<dots> = slice path 0 len @ slice path len (str_len path)" by (rule slice_split) (use le in auto)
  finally have "comps (take (str_len path) path) = comps (slice path 0 len)"
    using st by (simp add: comps_trailing slice_def)
  also have "slice path 0 len = slice path 0 sl @ slash # slice path (sl + 1) len"
    using slice_split [of 0 sl len path] slice_Cons [of sl len path] ls by simp
  also have "comps \<dots> = comps (slice path 0 sl) @ comps (slice path (sl + 1) len)"
    by (rule comps_app_slash)
  also have "comps (slice path (sl + 1) len) = (if len \<le> sl + 1 then [] else [slice path (sl + 1) len])"
  proof (cases "len \<le> sl + 1")
    case True
    then show ?thesis by (simp add: slice_def)
  next
    case False
    have "slash \<notin> set (slice path (sl + 1) len)" using ls by (auto simp: slice_def) (metis Suc_le_eq)
    moreover have "slice path (sl + 1) len \<noteq> []" using False by (simp add: slice_def)
    ultimately show ?thesis using False by (simp add: comps_word)
  qed
  finally show "comps (take (str_len path) path) = comps (slice path 0 sl)
      @ (if len \<le> sl + 1 then [] else [slice path (sl + 1) len])" .
  show "sl = 0" if "len \<le> sl + 1"
  proof (rule ccontr)
    assume "sl \<noteq> 0"
    with that ls have "len > 1" "len - 1 = sl" by auto
    with st ls show False by simp
  qed
qed (rule p)

text \<open>The parent directory of a path, as both \<^verbatim>\<open>munin_create_path\<close> and \<^verbatim>\<open>munin_unlink\<close> find it.\<close>

definition parent_of :: "munin \<Rightarrow> cstr \<Rightarrow> nat \<Rightarrow> int" where
  "parent_of s path sl = (if sl = 0 then 0 else resolve_n s path sl)"

lemma parent_of_walk:
  assumes inv: "fs_inv s" and p: "char_at path 0 = slash" and len: "len = strip_len path (str_len path)"
    and sl: "sl = last_slash path len"
  shows "parent_of s path sl = ino_of (walk (abs_fs s) 0 (comps (slice path 0 sl)))"
proof -
  note pc = path_cut [OF p len sl]
  then have "sl \<le> str_len path" by simp
  then show ?thesis using resolve_n_walk [OF inv, of sl path] p
    by (cases "sl = 0") (simp_all add: parent_of_def ino_of_def slice_def)
qed

lemma walk_live: "fs_inv s \<Longrightarrow> live s cur \<Longrightarrow> walk (abs_fs s) cur ws = Some c \<Longrightarrow> live s c"
proof (induction ws arbitrary: cur)
  case (Cons w ws)
  then obtain c1 where c1: "is_dir s cur" "dir_map s cur w = Some c1" "walk (abs_fs s) c1 ws = Some c"
    by (auto simp: abs_fs_Dir split: option.splits node.splits)
  then have "names_unique s cur" using fs_dir [OF Cons.prems(1)] by (simp add: dir_ok_def)
  with c1(2) obtain x where "dent s cur x = Some (w, c1)" using dir_map_Some by blast
  then have "live s c1" using fs_child [OF Cons.prems(1)] by blast
  with Cons.IH Cons.prems(1) c1(3) show ?case by blast
qed simp

section \<open>Creation by path\<close>

definition munin_create_path :: "munin \<Rightarrow> cstr \<Rightarrow> u8 \<Rightarrow> int \<times> munin" where
  "munin_create_path s path ty =
     (if char_at path 0 \<noteq> slash then (- 1, s)
      else let len = strip_len path (str_len path); sl = last_slash path len;
               name_len = int len - (int sl + 1); parent = parent_of s path sl
        in if name_len \<le> 0 \<or> name_len \<ge> 32 then (- 1, s)
           else if parent < 0 \<or> itype (g_inodes s (nat parent)) \<noteq> INODE_DIR then (- 1, s)
           else munin_create s parent (map (char_at (drop (sl + 1) path)) [0..<nat name_len]) ty)"

definition munin_mkdir :: "munin \<Rightarrow> cstr \<Rightarrow> int \<times> munin" where
  "munin_mkdir s path = munin_create_path s path INODE_DIR"

text \<open>
  \<open>create_at fs ws ty fs' c\<close>: the abstract creation of an empty node \<open>c\<close> under the path \<open>ws\<close>.
\<close>

definition create_at :: "(nat \<Rightarrow> node option) \<Rightarrow> cstr list \<Rightarrow> u8 \<Rightarrow> (nat \<Rightarrow> node option) \<Rightarrow> nat \<Rightarrow> bool" where
  "create_at fs ws ty fs' c \<longleftrightarrow> ws \<noteq> [] \<and> length (last ws) < 32 \<and> c < 128 \<and> fs c = None
     \<and> (\<exists>d m. walk fs 0 (butlast ws) = Some d \<and> fs d = Some (Dir m) \<and> m (last ws) = None
          \<and> fs' = fs(d \<mapsto> Dir (m(last ws \<mapsto> c)), c \<mapsto> empty_node ty))"

lemma create_path_abs:
  assumes inv: "fs_inv s" and ty: "ty = INODE_FILE \<or> ty = INODE_DIR"
    and r: "munin_create_path s path ty = (v, s')"
  shows "fs_inv s' \<and> (if v < 0 then v = - 1 \<and> abs_fs s' = abs_fs s
     else \<exists>c. v = int c \<and> create_at (abs_fs s) (comps (take (str_len path) path)) ty (abs_fs s') c)"
proof (cases "char_at path 0 = slash")
  case False
  with r inv show ?thesis by (auto simp: munin_create_path_def)
next
  case p: True
  define len where "len = strip_len path (str_len path)"
  define sl where "sl = last_slash path len"
  define ws where "ws = comps (slice path 0 sl)"
  define nm where "nm = slice path (sl + 1) len"
  note pc = path_cut [OF p len_def sl_def]
  have par: "parent_of s path sl = ino_of (walk (abs_fs s) 0 ws)"
    unfolding ws_def by (rule parent_of_walk [OF inv p len_def sl_def])
  have nm: "map (char_at (drop (sl + 1) path)) [0..<len - (sl + 1)] = nm"
    using pc(2) slice_drop [of "sl + 1" path "len - (sl + 1)"] by (simp add: nm_def)
  have lnm: "length nm = len - (sl + 1)" by (simp add: nm_def slice_def)
  have e: "munin_create_path s path ty =
    (if len \<le> sl + 1 \<or> len - (sl + 1) \<ge> 32 then (- 1, s)
     else if parent_of s path sl < 0 \<or> itype (g_inodes s (nat (parent_of s path sl))) \<noteq> INODE_DIR then (- 1, s)
     else munin_create s (parent_of s path sl) nm ty)"
  proof -
    have "nat (int len - (int sl + 1)) = len - (sl + 1)" by simp
    moreover have "int len - (int sl + 1) \<le> 0 \<longleftrightarrow> len \<le> sl + 1"
        "int len - (int sl + 1) \<ge> 32 \<longleftrightarrow> len - (sl + 1) \<ge> 32" using pc(2) by linarith+
    ultimately show ?thesis
      using p unfolding munin_create_path_def Let_def len_def [symmetric] sl_def [symmetric]
      by (simp only: nm simp_thms if_False if_True)
  qed
  show ?thesis
  proof (cases "len \<le> sl + 1 \<or> len - (sl + 1) \<ge> 32")
    case True
    with r e inv show ?thesis by auto
  next
    case nl: False
    show ?thesis
    proof (cases "walk (abs_fs s) 0 ws")
      case None
      then have "parent_of s path sl < 0" by (simp add: par ino_of_def)
      with r e inv nl show ?thesis by auto
    next
      case (Some d)
      then have pd: "parent_of s path sl = int d" by (simp add: par ino_of_def)
      have live: "live s d" by (rule walk_live [OF inv is_dir_live [OF fs_root [OF inv]] Some])
      show ?thesis
      proof (cases "is_dir s d")
        case False
        then have "itype (g_inodes s d) \<noteq> INODE_DIR" using live by (auto simp: is_dir_def live_def)
        with r e pd inv nl show ?thesis by auto
      next
        case dir: True
        then have r': "munin_create s (int d) nm ty = (v, s')" using r e pd nl by (auto simp: is_dir_def)
        have nul: "0 \<notin> set nm" unfolding nm_def by (rule slice_no_nul [OF pc(3)])
        then have tk: "nm = take (str_len nm) nm" by (simp add: str_len_no_nul)
        have cs: "comps (take (str_len path) path) = ws @ [nm]"
          using pc(1) nl by (simp add: ws_def nm_def)
        have dn: "abs_fs s c = None" if "\<not> live s c" for c using that abs_fs_None [OF inv] by blast
        have dm: "abs_fs s d = Some (Dir (dir_map s d))" using dir by (simp add: abs_fs_Dir)
        show ?thesis
          using munin_create_abs [OF inv dir ty r' tk] Some dn dm lnm nl
          unfolding cs create_at_def by (auto split: if_splits)
      qed
    qed
  qed
qed

section \<open>Removal\<close>

definition drop_dirent :: "nat \<Rightarrow> nat \<Rightarrow> nat \<Rightarrow> munin \<Rightarrow> munin" where
  "drop_dirent d blk k s = upd_inode d (\<lambda>p. p\<lparr>isize := isize p - 1\<rparr>)
     (upd_block blk (\<lambda>de. put32 de (36 * k) (- 1)) s)"

definition release_inode :: "nat \<Rightarrow> munin \<Rightarrow> munin" where
  "release_inode c s = upd_inode c (\<lambda>f. f\<lparr>itype := INODE_FREE\<rparr>) (free_inode_blocks c s)"

definition munin_unlink :: "munin \<Rightarrow> cstr \<Rightarrow> int \<times> munin" where
  "munin_unlink s path =
     (if char_at path 0 \<noteq> slash then (- 1, s)
      else let len = strip_len path (str_len path) in
        if len \<le> 1 then (- 1, s)
        else let sl = last_slash path len; name_len = int len - (int sl + 1); parent = parent_of s path sl
          in if name_len \<le> 0 \<or> name_len \<ge> 32 then (- 1, s)
             else if parent < 0 \<or> itype (g_inodes s (nat parent)) \<noteq> INODE_DIR then (- 1, s)
             else let d = nat parent in
               case dirent_scan s d (drop (sl + 1) path) (nat name_len) of
                 Some (b, k) \<Rightarrow>
                   let blk = unat (iblocks (g_inodes s d) b); c = nat (dent_inode (g_blocks s blk) k)
                   in if itype (g_inodes s c) = INODE_DIR \<and> isize (g_inodes s c) \<noteq> 0 then (- 1, s)
                      else (0, drop_dirent d blk k (release_inode c s))
               | None \<Rightarrow> (- 1, s))"

lemma dent_byte_drop: "i < 32 \<Longrightarrow> dent_byte (put32 z (36 * k) w) l i = dent_byte z l i"
proof -
  assume "i < 32"
  then have "36 * l + 4 + i < 36 * k \<or> 36 * k + 4 \<le> 36 * l + 4 + i"
    by (cases l k rule: linorder_cases) auto
  then show ?thesis by (auto simp: dent_byte_def put32_def)
qed

lemma dent_inode_drop: "dent_inode (put32 z (36 * k) (- 1)) l = (if l = k then - 1 else dent_inode z l)"
proof (cases "l = k")
  case False
  then have "36 * l + 4 \<le> 36 * k \<or> 36 * k + 4 \<le> 36 * l" by linarith
  then show ?thesis using False by (simp add: dent_inode_def get32_put32_other)
qed (simp add: dent_inode_def get32_put32)

lemma dent_name_drop: "dent_name (put32 z (36 * k) w) l = dent_name z l"
proof -
  have "map (dent_byte (put32 z (36 * k) w) l) [0..<32] = map (dent_byte z l) [0..<32]"
    by (intro map_cong refl dent_byte_drop) simp
  then show ?thesis by (simp only: dent_name_def)
qed

lemma drop_dirent_spec:
  assumes inv: "blk_inv s" and d: "is_dir s d" and ok: "dents_ok s d"
    and b: "ptr s (d, Direct b) \<noteq> NO_BLOCK"
    and s': "s' = drop_dirent d (unat (ptr s (d, Direct b))) k s"
  shows "blk_inv s'" "same_but d s s'" "dents_ok s' d" "dent s' d = (dent s d)((b, k) := None)"
    "g_inodes s' d = (g_inodes s d)\<lparr>isize := isize (g_inodes s d) - 1\<rparr>"
proof -
  let ?w = "ptr s (d, Direct b)"
  define s1 where "s1 = upd_block (unat ?w) (\<lambda>de. put32 de (36 * k) (- 1)) s"
  have s1: "s' = upd_inode d (\<lambda>d. d\<lparr>isize := isize d - 1\<rparr>) s1" unfolding s' s1_def drop_dirent_def ..
  have p1: "ptr s1 = ptr s" unfolding s1_def by (rule ptr_upd_data [OF inv b]) simp
  have e: "upd_inode d (\<lambda>d. d\<lparr>isize := isize d - 1\<rparr>) s1 = upd_inode d (\<lambda>f. f\<lparr>isize := isize (g_inodes s1 d) - 1\<rparr>) s1"
    by (simp add: upd_inode_def)
  have p: "ptr s' = ptr s" by (simp only: s1 e ptr_upd_size p1)
  have u: "used s' = used s" by (simp add: s1 s1_def)
  show "blk_inv s'" by (rule blk_inv_same [OF inv p u])
  have other: "unat (ptr s x) \<noteq> unat ?w" if "ptr s x \<noteq> NO_BLOCK" "x \<noteq> (d, Direct b)" for x
    using ptr_unat_inj [OF inv that(1)] that(2) by blast
  have blk: "g_blocks s' (unat (ptr s x)) = (if x = (d, Direct b) then put32 (g_blocks s (unat ?w)) (36 * k) (- 1)
      else g_blocks s (unat (ptr s x)))" if "ptr s x \<noteq> NO_BLOCK" for x
    using other [OF that] by (auto simp: s1 s1_def)
  show "same_but d s s'" unfolding same_but_def p using blk by (auto simp: s1 s1_def)
  show g: "g_inodes s' d = (g_inodes s d)\<lparr>isize := isize (g_inodes s d) - 1\<rparr>" by (simp add: s1 s1_def)
  show "dent s' d = (dent s d)((b, k) := None)"
  proof (rule ext)
    fix x :: "nat \<times> nat"
    obtain b' l where x: "x = (b', l)" by (cases x)
    show "dent s' d x = ((dent s d)((b, k) := None)) x"
    proof (cases "ptr s (d, Direct b') = NO_BLOCK")
      case True
      with b show ?thesis by (auto simp: x dent_def p)
    next
      case nn: False
      show ?thesis using blk [OF nn] b
        by (cases "b' = b") (auto simp: x dent_def p g dent_inode_drop dent_name_drop Let_def)
    qed
  qed
  show "dents_ok s' d"
    unfolding dents_ok_def p
  proof (intro allI impI)
    fix b' l assume nn: "ptr s (d, Direct b') \<noteq> NO_BLOCK" and l: "l < (14 :: nat)"
    note old = ok [unfolded dents_ok_def Let_def, rule_format, OF nn l]
    have "(\<exists>i<32. dent_byte (put32 z (36 * k) (- 1)) l i = 0) = (\<exists>i<32. dent_byte z l i = 0)" for z
      using dent_byte_drop by metis
    with old show "let z = g_blocks s' (unat (ptr s (d, Direct b'))) in dent_inode z l \<noteq> - 1 \<longrightarrow>
        0 \<le> dent_inode z l \<and> (\<exists>i<32. dent_byte z l i = 0)"
      using blk [OF nn] by (cases "b' = b") (simp_all add: dent_inode_drop)
  qed
qed

lemma entry_dropped_dir:
  assumes ok: "dir_ok s d" and x: "dent s d x = Some (nm, c)"
    and e: "dent s' d = (dent s d)(x := None)" and dents: "dents_ok s' d"
    and g: "g_inodes s' d = (g_inodes s d)\<lparr>isize := isize (g_inodes s d) - 1\<rparr>"
  shows "dir_ok s' d" "dir_map s' d = (dir_map s d)(nm := None)"
proof -
  have u: "names_unique s d" using ok by (simp add: dir_ok_def)
  have un: "names_unique s' d" using u unfolding names_unique_def e by (auto split: if_splits)
  have "{y. dent s d y \<noteq> None} = insert x {y. dent s' d y \<noteq> None}" using x by (auto simp: e)
  then have card: "card {y. dent s d y \<noteq> None} = card {y. dent s' d y \<noteq> None} + 1"
    using finite_dents [of s' d] by (simp add: e)
  then have pos: "1 \<le> unat (isize (g_inodes s d))" using ok by (simp add: dir_ok_def)
  then have "1 \<le> isize (g_inodes s d)" by (simp add: word_le_nat_alt)
  then have "unat (isize (g_inodes s' d)) = card {y. dent s' d y \<noteq> None}"
    using ok card by (simp add: g unat_sub_le dir_ok_def)
  moreover have "nm' \<noteq> [] \<and> length nm' < 32 \<and> 0 \<notin> set nm'" if "dent s' d y = Some (nm', c')" for y nm' c'
  proof -
    from that have "dent s d y = Some (nm', c')" by (simp add: e split: if_splits)
    then show ?thesis using ok unfolding dir_ok_def by blast
  qed
  ultimately show "dir_ok s' d" using ok dents un by (simp add: dir_ok_def g)
  have "dir_map s' d nm' = ((dir_map s d)(nm := None)) nm'" for nm'
  proof (cases "nm' = nm")
    case True
    have "dent s' d y \<noteq> Some (nm, c')" for y c'
    proof
      assume "dent s' d y = Some (nm, c')"
      then have "y \<noteq> x" "dent s d y = Some (nm, c')" by (simp_all add: e split: if_splits)
      with u x show False unfolding names_unique_def by blast
    qed
    then have "dir_map s' d nm = None" by (simp only: dir_map_None) blast
    with True show ?thesis by simp
  next
    case False
    have "dent s' d y = Some (nm', c') \<longleftrightarrow> dent s d y = Some (nm', c')" for y c'
      using x False by (simp add: e)
    then have "dir_map s' d nm' = Some c' \<longleftrightarrow> dir_map s d nm' = Some c'" for c'
      by (simp only: dir_map_Some [OF un] dir_map_Some [OF u])
    then have "dir_map s' d nm' = dir_map s d nm'" by (metis not_None_eq)
    with False show ?thesis by simp
  qed
  then show "dir_map s' d = (dir_map s d)(nm := None)" ..
qed

lemma release_inode_spec:
  assumes inv: "blk_inv s" and c: "live s c"
  shows "blk_inv (release_inode c s)" "same_but c s (release_inode c s)" "\<not> live (release_inode c s) c"
    "used (release_inode c s) b \<longleftrightarrow>
       used s b \<and> \<not> (\<exists>sl. ptr s (c, sl) \<noteq> NO_BLOCK \<and> unat (ptr s (c, sl)) = b)"
proof -
  let ?s1 = "free_inode_blocks c s"
  have cl: "cleared c s ?s1" by (rule free_inode_blocks_cleared [OF inv c])
  then have b1: "blk_inv ?s1" and sb1: "same_but c s ?s1" and no: "\<forall>sl. ptr ?s1 (c, sl) = NO_BLOCK"
    by (simp_all add: cleared_def)
  show dead: "\<not> live (release_inode c s) c" by (simp add: release_inode_def live_def)
  have "blk_inv (release_inode c s) \<and> same_but c ?s1 (release_inode c s)"
    by (rule retyped [OF b1 no]) (use dead in \<open>simp_all add: release_inode_def not_live_ptr\<close>)
  then show "blk_inv (release_inode c s)" "same_but c s (release_inode c s)"
    using same_but_trans [OF sb1] by simp_all
  show "used (release_inode c s) b \<longleftrightarrow>
       used s b \<and> \<not> (\<exists>sl. ptr s (c, sl) \<noteq> NO_BLOCK \<and> unat (ptr s (c, sl)) = b)"
    using cl by (simp add: release_inode_def cleared_def)
qed

lemma fs_remove_child:
  assumes inv: "fs_inv s" and x: "dent s d x = Some (nm, c)" and leaf: "\<And>y. dent s c y = None"
    and sb1: "same_but c s s1" and dead: "\<not> live s1 c"
    and sb2: "same_but d s1 s2" and blk: "blk_inv s2" and e: "dent s2 d = (dent s1 d)(x := None)"
    and dok: "dir_ok s2 d" and dmap: "dir_map s2 d = (dir_map s d)(nm := None)"
    and dty: "itype (g_inodes s2 d) = INODE_DIR"
  shows "fs_inv s2" "abs_fs s2 = (abs_fs s)(d \<mapsto> Dir ((dir_map s d)(nm := None)), c := None)"
proof -
  have d: "is_dir s d" by (rule dent_dir [OF x])
  have cd: "c \<noteq> d" using x leaf [of x] by auto
  have c0: "0 < c" "live s c" using fs_child [OF inv x] by simp_all
  have n: "g_inodes s2 j = g_inodes s j" if "j \<noteq> c" "j \<noteq> d" for j
    using that same_but_inode [OF sb1] same_but_inode [OF sb2] by simp
  have dead2: "\<not> live s2 c" using dead live_same_but [OF sb2 cd] by simp
  have lv: "live s2 j \<longleftrightarrow> j \<noteq> c \<and> live s j" for j
    using dead2 n [of j] dty is_dir_live [OF d] d
    by (cases "j = c"; cases "j = d") (auto simp: live_def is_dir_def)
  have d1: "dent s1 d = dent s d" using dent_same_but [OF sb1, of d] cd by simp
  have dn: "dent s2 j y = (if j = d \<and> y = x then None else dent s j y)" for j y
  proof -
    consider "j = c" | "j = d" | "j \<noteq> c" "j \<noteq> d" by blast
    then show ?thesis
    proof cases
      case 1
      then show ?thesis using leaf dead2 by (simp add: dent_def not_live_ptr)
    next
      case 2
      then show ?thesis by (simp add: e d1)
    next
      case 3
      then show ?thesis using dent_same_but [OF sb1] dent_same_but [OF sb2] by simp
    qed
  qed
  have only: "j = d \<and> y = x" if "dent s j y = Some (nm', c)" for j y nm'
    using fs_once [OF inv that x] .
  have reach: "(0, j) \<in> (child_rel s2)\<^sup>*" if "(0, j) \<in> (child_rel s)\<^sup>*" "j \<noteq> c" for j
    using that
  proof (induction rule: rtrancl_induct)
    case (step a b)
    from step(2) obtain y nm' where y: "dent s a y = Some (nm', b)" unfolding child_rel_def by blast
    then have "a \<noteq> c" using leaf [of y] by auto
    then have ra: "(0, a) \<in> (child_rel s2)\<^sup>*" by (rule step(3))
    have "\<not> (a = d \<and> y = x)" using y x step(4) by auto
    then have "dent s2 a y = Some (nm', b)" unfolding dn using y by simp
    then have "(a, b) \<in> child_rel s2" unfolding child_rel_def by blast
    with ra show ?case by simp
  qed simp
  show "fs_inv s2"
  proof (rule fs_invI)
    show "is_dir s2 0"
    proof (cases "d = 0")
      case False
      then show ?thesis using n [of 0] c0(1) fs_root [OF inv] by (simp add: is_dir_def)
    qed (use dty in \<open>simp add: is_dir_def\<close>)
    show "file_at s2 j \<or> is_dir s2 j" if "live s2 j" for j
      using that fs_live [OF inv, of j] n [of j] dty d
      by (cases "j = d") (auto simp: lv file_at_def is_dir_def)
    show "file_ok s2 j" if "file_at s2 j" for j
    proof -
      have j: "j \<noteq> c" "j \<noteq> d" using that dead2 file_at_live dty by (auto simp: file_at_def)
      then show ?thesis using that fs_file [OF inv, of j]
        by (simp add: file_at_same_but [OF sb1] file_at_same_but [OF sb2] file_ok_same_but [OF sb1]
            file_ok_same_but [OF sb2])
    qed
    show "dir_ok s2 j" if "is_dir s2 j" for j
    proof (cases "j = d")
      case False
      have "j \<noteq> c" using that dead2 is_dir_live by blast
      with False that show ?thesis using fs_dir [OF inv, of j]
        by (simp add: is_dir_same_but [OF sb1] is_dir_same_but [OF sb2] dir_ok_same_but [OF sb1]
            dir_ok_same_but [OF sb2])
    qed (simp add: dok)
    show "0 < c' \<and> live s2 c'" if "dent s2 j y = Some (nm', c')" for j y nm' c'
    proof -
      from that have o: "dent s j y = Some (nm', c')" "\<not> (j = d \<and> y = x)" by (auto simp: dn split: if_splits)
      then have "c' \<noteq> c" using only by blast
      with fs_child [OF inv o(1)] show ?thesis by (simp add: lv)
    qed
    show "j = j' \<and> y = y'" if "dent s2 j y = Some (nm', c')" "dent s2 j' y' = Some (nm'', c')" for j y nm' j' y' nm'' c'
    proof (rule fs_once [OF inv])
      show "dent s j y = Some (nm', c')" "dent s j' y' = Some (nm'', c')"
        using that by (auto simp: dn split: if_splits)
    qed
    show "(0, j) \<in> (child_rel s2)\<^sup>*" if "live s2 j" for j
      using reach fs_reach [OF inv] that lv by blast
  qed (rule blk)
  have "abs_fs s2 j = ((abs_fs s)(d \<mapsto> Dir ((dir_map s d)(nm := None)), c := None)) j" for j
  proof -
    consider "j = c" | "j = d" | "j \<noteq> c" "j \<noteq> d" by blast
    then show ?thesis
    proof cases
      case 1
      then show ?thesis using dead2 file_at_live is_dir_live by (auto simp: abs_fs_def)
    next
      case 2
      then show ?thesis using d dty cd dmap by (auto simp: abs_fs_def file_at_def is_dir_def)
    next
      case 3
      then show ?thesis using abs_fs_same_but [OF sb1, of j] abs_fs_same_but [OF sb2, of j] by simp
    qed
  qed
  then show "abs_fs s2 = (abs_fs s)(d \<mapsto> Dir ((dir_map s d)(nm := None)), c := None)" ..
qed

text \<open>
  \<open>remove_at fs ws fs' c\<close>: the abstract removal of node \<open>c\<close>, a file or an empty directory, at path \<open>ws\<close>.
\<close>

definition remove_at :: "(nat \<Rightarrow> node option) \<Rightarrow> cstr list \<Rightarrow> (nat \<Rightarrow> node option) \<Rightarrow> nat \<Rightarrow> bool" where
  "remove_at fs ws fs' c \<longleftrightarrow> ws \<noteq> [] \<and> c \<noteq> 0
     \<and> ((\<exists>bs. fs c = Some (File bs)) \<or> fs c = Some (Dir (\<lambda>_. None)))
     \<and> (\<exists>d m. walk fs 0 (butlast ws) = Some d \<and> fs d = Some (Dir m) \<and> m (last ws) = Some c
          \<and> fs' = fs(d \<mapsto> Dir (m(last ws := None)), c := None))"

lemma unlink_abs:
  assumes inv: "fs_inv s" and r: "munin_unlink s path = (v, s')"
  shows "(v = - 1 \<and> s' = s) \<or> (v = 0 \<and> fs_inv s'
    \<and> (\<exists>c. remove_at (abs_fs s) (comps (take (str_len path) path)) (abs_fs s') c
        \<and> (\<forall>b < 512. used s' b \<longleftrightarrow> used s b
             \<and> \<not> (\<exists>sl. ptr s (c, sl) \<noteq> NO_BLOCK \<and> unat (ptr s (c, sl)) = b))))"
proof (cases "char_at path 0 = slash \<and> strip_len path (str_len path) > 1")
  case False
  then have "munin_unlink s path = (- 1, s)" by (auto simp: munin_unlink_def)
  with r show ?thesis by simp
next
  case True
  then have p: "char_at path 0 = slash" by simp
  define len where "len = strip_len path (str_len path)"
  define sl where "sl = last_slash path len"
  define ws where "ws = comps (slice path 0 sl)"
  define nm where "nm = slice path (sl + 1) len"
  note pc = path_cut [OF p len_def sl_def]
  have len1: "\<not> len \<le> 1" using True by (simp add: len_def)
  have par: "parent_of s path sl = ino_of (walk (abs_fs s) 0 ws)"
    unfolding ws_def by (rule parent_of_walk [OF inv p len_def sl_def])
  let ?nl = "nat (int len - (int sl + 1))"
  have nl: "?nl = len - (sl + 1)" by simp
  have nm: "map (char_at (drop (sl + 1) path)) [0..<?nl] = nm"
    unfolding nl nm_def slice_drop using pc(2) by simp
  have e: "munin_unlink s path =
    (if int len - (int sl + 1) \<le> 0 \<or> int len - (int sl + 1) \<ge> 32 then (- 1, s)
     else if parent_of s path sl < 0 \<or> itype (g_inodes s (nat (parent_of s path sl))) \<noteq> INODE_DIR then (- 1, s)
     else case dirent_scan s (nat (parent_of s path sl)) (drop (sl + 1) path) ?nl of
       Some (b, k) \<Rightarrow>
         let blk = unat (iblocks (g_inodes s (nat (parent_of s path sl))) b); c = nat (dent_inode (g_blocks s blk) k)
         in if itype (g_inodes s c) = INODE_DIR \<and> isize (g_inodes s c) \<noteq> 0 then (- 1, s)
            else (0, drop_dirent (nat (parent_of s path sl)) blk k (release_inode c s))
     | None \<Rightarrow> (- 1, s))"
    using p len1 unfolding munin_unlink_def Let_def len_def [symmetric] sl_def [symmetric] by simp
  show ?thesis
  proof (cases "(int len - (int sl + 1) \<le> 0 \<or> int len - (int sl + 1) \<ge> 32)
      \<or> (parent_of s path sl < 0 \<or> itype (g_inodes s (nat (parent_of s path sl))) \<noteq> INODE_DIR)")
    case True
    then have "munin_unlink s path = (- 1, s)" unfolding e by auto
    with r show ?thesis by simp
  next
    case ok: False
    then obtain d where w: "walk (abs_fs s) 0 ws = Some d" by (auto simp: par ino_of_def split: option.splits)
    then have pd: "parent_of s path sl = int d" by (simp add: par ino_of_def)
    have "live s d" by (rule walk_live [OF inv is_dir_live [OF fs_root [OF inv]] w])
    with ok pd have d: "is_dir s d" by (simp add: is_dir_def live_def)
    have e': "munin_unlink s path = (case dirent_scan s d (drop (sl + 1) path) ?nl of
       Some (b, k) \<Rightarrow>
         let blk = unat (iblocks (g_inodes s d) b); c = nat (dent_inode (g_blocks s blk) k)
         in if itype (g_inodes s c) = INODE_DIR \<and> isize (g_inodes s c) \<noteq> 0 then (- 1, s)
            else (0, drop_dirent d blk k (release_inode c s))
     | None \<Rightarrow> (- 1, s))" unfolding e using ok pd by (simp only: if_False de_Morgan_disj nat_int simp_thms)
    show ?thesis
    proof (cases "dirent_scan s d (drop (sl + 1) path) ?nl")
      case None
      with r e' show ?thesis by simp
    next
      case (Some bk)
      obtain b k where bk: "bk = (b, k)" by (cases bk)
      have dok: "dents_ok s d" using fs_dir [OF inv d] by (simp add: dir_ok_def)
      have nul: "0 \<notin> set (map (char_at (drop (sl + 1) path)) [0..<?nl])"
        unfolding nm nm_def by (rule slice_no_nul [OF pc(3)])
      define c where "c = nat (dent_inode (g_blocks s (unat (iblocks (g_inodes s d) b))) k)"
      note sc = dirent_scan_Some [OF d dok nul Some [unfolded bk], unfolded nm, folded c_def]
      have cl: "0 < c" "live s c" using fs_child [OF inv sc(4)] by simp_all
      have pb: "iblocks (g_inodes s d) b = ptr s (d, Direct b)" using sc(1) by simp
      show ?thesis
      proof (cases "itype (g_inodes s c) = INODE_DIR \<and> isize (g_inodes s c) \<noteq> 0")
        case True
        with r Some bk show ?thesis by (simp add: e' c_def Let_def)
      next
        case rem: False
        define s1 where "s1 = release_inode c s"
        have s': "v = 0" "s' = drop_dirent d (unat (ptr s (d, Direct b))) k s1"
          using r Some bk rem unfolding e' pb [symmetric] by (auto simp: c_def s1_def Let_def)
        have leaf: "dent s c y = None" for y
        proof (cases "is_dir s c")
          case True
          then have "isize (g_inodes s c) = 0" using rem by (simp add: is_dir_def)
          then have "card {x. dent s c x \<noteq> None} = 0" using fs_dir [OF inv True] by (simp add: dir_ok_def)
          then have "{x. dent s c x \<noteq> None} = {}" using finite_dents [of s c] by (simp only: card_eq_0_iff) simp
          then show ?thesis by blast
        next
          case False
          then show ?thesis using dent_dir [of s c y] by (cases "dent s c y") auto
        qed
        have cd: "c \<noteq> d" using sc(4) leaf by auto
        note ri = release_inode_spec [OF fs_blk [OF inv] cl(2), folded s1_def]
        have d1: "is_dir s1 d" and ok1: "dir_ok s1 d" and e1: "dent s1 d = dent s d" and m1: "dir_map s1 d = dir_map s d"
          and p1: "ptr s1 (d, Direct b) = ptr s (d, Direct b)"
          using is_dir_same_but [OF ri(2), of d] dir_ok_same_but [OF ri(2), of d] dent_same_but [OF ri(2), of d]
            dir_map_same_but [OF ri(2), of d] same_but_ptr [OF ri(2), of d] cd d fs_dir [OF inv d] by simp_all
        have dok1: "dents_ok s1 d" using ok1 by (simp add: dir_ok_def)
        have b1: "ptr s1 (d, Direct b) \<noteq> NO_BLOCK" using sc(2) p1 by simp
        note dd = drop_dirent_spec [OF ri(1) d1 dok1 b1, unfolded p1, OF s'(2)]
        have x1: "dent s1 d (b, k) = Some (nm, c)" using sc(4) e1 by simp
        note ed = entry_dropped_dir [OF ok1 x1 dd(4,3,5)]
        have dty: "itype (g_inodes s' d) = INODE_DIR" using dd(5) d1 by (simp add: is_dir_def)
        note fin = fs_remove_child [OF inv sc(4) leaf ri(2,3) dd(2,1,4) ed(1) ed(2) [unfolded m1] dty]
        have cs: "comps (take (str_len path) path) = ws @ [nm]"
          using pc(1,2) ok by (simp add: ws_def nm_def)
        have dm: "abs_fs s d = Some (Dir (dir_map s d))" using d by (simp add: abs_fs_Dir)
        have mc: "dir_map s d nm = Some c" using fs_dir [OF inv d] sc(4) dir_map_Some by (auto simp: dir_ok_def)
        have "(\<exists>bs. abs_fs s c = Some (File bs)) \<or> abs_fs s c = Some (Dir (\<lambda>_. None))"
        proof -
          have "dir_map s c = (\<lambda>_. None)" by (rule ext) (simp add: dir_map_None leaf)
          then show ?thesis using fs_live [OF inv cl(2)] by (auto simp: abs_fs_def)
        qed
        then have "remove_at (abs_fs s) (ws @ [nm]) (abs_fs s') c"
          using cl(1) w dm mc fin(2) by (simp add: remove_at_def)
        moreover have "used s' = used s1" by (simp add: s'(2) drop_dirent_def)
        ultimately show ?thesis
          unfolding cs using s'(1) fin(1) ri(4) by metis
      qed
    qed
  qed
qed

section \<open>Whole files by path\<close>

definition munin_write :: "munin \<Rightarrow> cstr \<Rightarrow> (nat \<Rightarrow> u8) \<Rightarrow> u32 \<Rightarrow> int \<times> munin" where
  "munin_write s path buf len =
     (let ino = munin_resolve s path in
      if ino < 0 then (- 1, s)
      else let i = nat ino in
        if itype (g_inodes s i) \<noteq> INODE_FILE then (- 1, s)
        else if len > 69632 then (- 1, s)
        else let (ok, s1) = munin_write_loop (free_inode_blocks i s) i buf 0 len 0 in
          if \<not> ok then (- 1, s1)
          else (sint len, upd_inode i (\<lambda>f. f\<lparr>isize := len\<rparr>) s1))"

definition munin_read :: "munin \<Rightarrow> cstr \<Rightarrow> (nat \<Rightarrow> u8) \<Rightarrow> u32 \<Rightarrow> int \<times> (nat \<Rightarrow> u8)" where
  "munin_read s path buf len =
     (let ino = munin_resolve s path in
      if ino < 0 then (- 1, buf)
      else let i = nat ino in
        if itype (g_inodes s i) \<noteq> INODE_FILE then (- 1, buf)
        else let n = (if isize (g_inodes s i) < len then isize (g_inodes s i) else len);
                 (copied, dst) = munin_read_loop s i buf n 0 0
             in (sint copied, dst))"

lemma resolve_walk:
  assumes "fs_inv s"
  shows "munin_resolve s path = (if char_at path 0 = slash
    then ino_of (walk (abs_fs s) 0 (comps (take (str_len path) path))) else - 1)"
proof -
  have "str_len path \<ge> 1 \<longleftrightarrow> char_at path 0 \<noteq> 0"
    using char_at_nz [of 0 path] char_at_str_len [of path] by (cases "str_len path") auto
  then show ?thesis
    using resolve_n_walk [OF assms order.refl, of path]
    by (auto simp: munin_resolve_def slice_take str_len_le slash_def)
qed

lemma write_path_abs:
  assumes inv: "fs_inv s" and w: "munin_resolve s path = int i" and i: "file_at s i"
    and len: "unat len \<le> 69632" and r: "munin_write s path buf len = (v, s')"
  shows "fs_inv s'"
    and "(v = int (unat len) \<and> abs_fs s' = (abs_fs s)(i \<mapsto> File (map buf [0..<unat len]))
          \<and> (\<forall>b. 512 * b < unat len \<longrightarrow> ptr s' (i, lslot b) \<noteq> NO_BLOCK))
       \<or> (v = - 1 \<and> abs_fs s' = (abs_fs s)(i \<mapsto> File []))"
proof -
  let ?s0 = "free_inode_blocks i s"
  obtain ok s1 where l: "munin_write_loop ?s0 i buf 0 len 0 = (ok, s1)"
    by (cases "munin_write_loop ?s0 i buf 0 len 0")
  have "\<not> len > 69632" using len by (simp add: word_less_nat_alt)
  then have r': "(v, s') = (if \<not> ok then (- 1, s1) else (sint len, upd_inode i (\<lambda>f. f\<lparr>isize := len\<rparr>) s1))"
    using r w i l by (simp add: munin_write_def file_at_def)
  have live: "live s i" by (rule file_at_live [OF i])
  have cl: "cleared i s ?s0" by (rule free_inode_blocks_cleared [OF fs_blk [OF inv] live])
  then have inv0: "blk_inv ?s0" and sb0: "same_but i s ?s0" and ty0: "itype (g_inodes ?s0 i) = INODE_FILE"
    and sz0: "isize (g_inodes ?s0 i) = 0" using i by (simp_all add: cleared_def file_at_def)
  have live0: "live ?s0 i" using i ty0 by (simp add: live_def file_at_def)
  have c0: "content ?s0 i p = 0" for p using cl by (simp add: content_def cleared_def)
  have l0: "munin_write_loop ?s0 i buf 0 len (int 0) = (ok, s1)" using l by simp
  note spec = munin_write_loop_spec [OF l0 inv0 live0]
  have v32: "sint len = int (unat len)" by (rule sint_small) (use len in linarith)
  have "fs_inv s' \<and> ((v = int (unat len) \<and> abs_fs s' = (abs_fs s)(i \<mapsto> File (map buf [0..<unat len]))
          \<and> (\<forall>b. 512 * b < unat len \<longrightarrow> ptr s' (i, lslot b) \<noteq> NO_BLOCK))
       \<or> (v = - 1 \<and> abs_fs s' = (abs_fs s)(i \<mapsto> File [])))"
  proof (cases ok)
    case True
    have w1: "wrote i buf 0 0 (unat len) ?s0 s1" and bl: "\<forall>b. 512 * b < unat len \<longrightarrow> ptr s1 (i, lslot b) \<noteq> NO_BLOCK"
      using spec True len by simp_all
    have s': "v = int (unat len)" "s' = upd_inode i (\<lambda>f. f\<lparr>isize := len\<rparr>) s1" using r' True v32 by simp_all
    have sb: "same_but i s s'"
      using same_but_trans [OF sb0] same_but_trans [OF _ same_but_upd_size] w1 unfolding s' wrote_def by blast
    have b: "blk_inv s'" and ty: "itype (g_inodes s' i) = INODE_FILE" using w1 ty0 by (simp_all add: s' wrote_def)
    have c: "content s' i p = (if p < unat len then buf p else 0)" for p
      using w1 c0 by (simp add: s' wrote_def)
    have size: "isize (g_inodes s' i) = len" by (simp add: s')
    have ok': "file_ok s' i" using len by (simp add: file_ok_def c size)
    have "file_bytes s' i = map buf [0..<unat len]" by (simp add: file_bytes_def c size)
    with fs_file_update [OF inv i sb b ty ok'] bl s' show ?thesis by simp
  next
    case False
    obtain s2 n where w2: "wrote i buf 0 0 n ?s0 s2" and s1: "s1 = free_inode_blocks i s2"
      using spec False len by auto
    have s': "v = - 1" "s' = s1" using r' False by simp_all
    have "live s2 i" using wrote_live [OF w2] live0 by simp
    then have cl2: "cleared i s2 s1" unfolding s1 by (rule free_inode_blocks_cleared [rotated]) (use w2 in \<open>simp add: wrote_def\<close>)
    have sb: "same_but i s s1"
      using same_but_trans [OF sb0] same_but_trans w2 cl2 unfolding wrote_def cleared_def by blast
    have b: "blk_inv s1" and ty: "itype (g_inodes s1 i) = INODE_FILE"
      using w2 cl2 ty0 by (simp_all add: wrote_def cleared_def)
    from fs_file_update [OF inv i sb b ty cleared_file(1) [OF cl2]] cleared_file(2) [OF cl2] s'
    show ?thesis by simp
  qed
  then show "fs_inv s'"
    and "(v = int (unat len) \<and> abs_fs s' = (abs_fs s)(i \<mapsto> File (map buf [0..<unat len]))
          \<and> (\<forall>b. 512 * b < unat len \<longrightarrow> ptr s' (i, lslot b) \<noteq> NO_BLOCK))
       \<or> (v = - 1 \<and> abs_fs s' = (abs_fs s)(i \<mapsto> File []))" by blast+
qed

lemma read_path_abs:
  assumes inv: "fs_inv s" and w: "munin_resolve s path = int i" and i: "file_at s i"
    and full: "\<And>b. 512 * b < length (file_bytes s i) \<Longrightarrow> ptr s (i, lslot b) \<noteq> NO_BLOCK"
  shows "\<exists>n dst. munin_read s path buf len = (int n, dst)
    \<and> n = min (unat len) (length (file_bytes s i)) \<and> map dst [0..<n] = take n (file_bytes s i)"
proof -
  define n where "n = (if isize (g_inodes s i) < len then isize (g_inodes s i) else len)"
  obtain got dst where l: "munin_read_loop s i buf n 0 0 = (got, dst)" by (cases "munin_read_loop s i buf n 0 0")
  have sz: "unat (isize (g_inodes s i)) \<le> 69632" using fs_file [OF inv i] by (simp add: file_ok_def)
  have lf: "length (file_bytes s i) = unat (isize (g_inodes s i))" by (simp add: file_bytes_def)
  have n: "unat n = min (unat len) (length (file_bytes s i))" by (simp add: n_def lf word_less_nat_alt)
  have blks: "\<forall>c. 0 \<le> c \<longrightarrow> 512 * c < unat n \<longrightarrow> c < 136 \<and> ptr s (i, lslot c) \<noteq> NO_BLOCK"
    using full n sz lf by auto
  have l0: "munin_read_loop s i buf n 0 (int 0) = (got, dst)" using l by simp
  from munin_read_loop_spec [OF l0 file_at_live [OF i] _ _ blks]
  have sp: "got = n" "\<forall>p. dst p = (if p < unat n then content s i p else buf p)" by simp_all
  have "sint n = int (unat n)" by (rule sint_small) (use n lf sz in linarith)
  then have "munin_read s path buf len = (int (unat n), dst)"
    using w i l sp(1) by (simp add: munin_read_def file_at_def n_def Let_def split: if_splits)
  moreover have "map dst [0..<unat n] = take (unat n) (file_bytes s i)"
    using n by (intro nth_equalityI) (auto simp: sp(2) file_bytes_def)
  ultimately show ?thesis using n by auto
qed

text \<open>A region full of zeros, as the BSS is before \<^verbatim>\<open>munin_init\<close>; the witnesses start from it.\<close>

definition blank_region :: munin where
  "blank_region = \<lparr>g_inodes = (\<lambda>_. \<lparr>itype = 0, isize = 0, iblocks = (\<lambda>_. 0), iindirect = 0\<rparr>),
     g_blocks = (\<lambda>_ _. 0), g_block_used = (\<lambda>_. 0)\<rparr>"

end
