(* ===== verification/Munin_Props.thy ===== *)
theory Munin_Props
  imports Munin_Path
begin

text \<open>
  Directory listing, the reachable file systems, and the properties of munin.cpp.
\<close>

section \<open>Directory enumeration\<close>

function copy_out :: "(nat \<Rightarrow> u8) \<Rightarrow> (nat \<Rightarrow> u8) \<Rightarrow> nat \<Rightarrow> nat \<Rightarrow> nat \<Rightarrow> (nat \<Rightarrow> u8)" where
  "copy_out out z k cap i =
     (if i + 1 < cap \<and> dent_byte z k i \<noteq> 0
      then copy_out (out(i := dent_byte z k i)) z k cap (i + 1) else out(i := 0))"
  by pat_completeness auto
termination
  by (relation "measure (\<lambda>(out, z, k, cap, i). cap - i)") auto

declare copy_out.simps [simp del]

definition slot_empty :: "munin \<Rightarrow> nat \<Rightarrow> nat \<times> nat \<Rightarrow> bool" where
  "slot_empty s d x \<longleftrightarrow> (let w = iblocks (g_inodes s d) (fst x) in
     w = NO_BLOCK \<or> dent_inode (g_blocks s (unat w)) (snd x) = - 1)"

primrec dirent_loop ::
  "munin \<Rightarrow> nat \<Rightarrow> int \<Rightarrow> (nat \<Rightarrow> u8) \<Rightarrow> nat \<Rightarrow> int \<Rightarrow> (nat \<times> nat) list \<Rightarrow> int \<times> (nat \<Rightarrow> u8)" where
  "dirent_loop s d index out cap seen [] = (0, out)"
| "dirent_loop s d index out cap seen (x # xs) =
     (if slot_empty s d x then dirent_loop s d index out cap seen xs
      else if seen = index then
        let z = g_blocks s (unat (iblocks (g_inodes s d) (fst x))) in
        (uint (itype (g_inodes s (nat (dent_inode z (snd x))))), copy_out out z (snd x) cap 0)
      else dirent_loop s d index out cap (seen + 1) xs)"

definition munin_dirent :: "munin \<Rightarrow> int \<Rightarrow> int \<Rightarrow> (nat \<Rightarrow> u8) \<Rightarrow> u32 \<Rightarrow> int \<times> (nat \<Rightarrow> u8)" where
  "munin_dirent s dir index name_out cap =
     (if dir < 0 \<or> dir \<ge> 128 then (- 1, name_out)
      else if itype (g_inodes s (nat dir)) \<noteq> INODE_DIR then (- 1, name_out)
      else if cap = 0 then (- 1, name_out)
      else dirent_loop s (nat dir) index name_out (unat cap) 0 dir_slots)"

definition ls_entry :: "munin \<Rightarrow> nat \<Rightarrow> nat \<times> nat \<Rightarrow> cstr" where
  "ls_entry s d x = (let z = g_blocks s (unat (iblocks (g_inodes s d) (fst x))); k = snd x in
     if slot_empty s d x then []
     else dent_name z k
       @ (if itype (g_inodes s (nat (dent_inode z k))) = INODE_DIR then str ''/'' else []) @ str ''  '')"

definition munin_ls :: "munin \<Rightarrow> int \<Rightarrow> cstr" where
  "munin_ls s dir =
     (if dir < 0 \<or> dir \<ge> 128 \<or> itype (g_inodes s (nat dir)) \<noteq> INODE_DIR
      then str ''munin_ls: not a directory'' @ [10]
      else concat (map (ls_entry s (nat dir)) dir_slots) @ [10])"

definition munin_ls_path :: "munin \<Rightarrow> cstr \<Rightarrow> cstr" where
  "munin_ls_path s path = (let ino = munin_resolve s path in
     if ino < 0 then str ''munin: no such path'' @ [10] else munin_ls s ino)"

text \<open>The entries of a directory in the order of their slots.\<close>

definition entries :: "munin \<Rightarrow> nat \<Rightarrow> (cstr \<times> nat) list" where
  "entries s d = map (\<lambda>x. the (dent s d x)) (filter (\<lambda>x. dent s d x \<noteq> None) dir_slots)"

lemma slot_empty_dent:
  assumes "is_dir s d" and "x \<in> set dir_slots"
  shows "slot_empty s d x \<longleftrightarrow> dent s d x = None"
proof -
  obtain b k where "x = (b, k)" by (cases x)
  with assms show ?thesis
    using is_dir_live [OF assms(1)]
    by (auto simp: slot_empty_def dent_def ptr_def is_dir_def set_dir_slots Let_def)
qed

lemma dent_parts:
  assumes "is_dir s d" and "x \<in> set dir_slots" and "dent s d x = Some (nm, c)"
  shows "dent_name (g_blocks s (unat (iblocks (g_inodes s d) (fst x)))) (snd x) = nm"
    "nat (dent_inode (g_blocks s (unat (iblocks (g_inodes s d) (fst x)))) (snd x)) = c"
proof -
  obtain b k where "x = (b, k)" by (cases x)
  with assms show "dent_name (g_blocks s (unat (iblocks (g_inodes s d) (fst x)))) (snd x) = nm"
    "nat (dent_inode (g_blocks s (unat (iblocks (g_inodes s d) (fst x)))) (snd x)) = c"
    using is_dir_live [OF assms(1)]
    by (auto simp: dent_def ptr_def is_dir_def set_dir_slots Let_def split: if_splits)
qed

lemma dent_name_bytes:
  assumes "length (dent_name z k) < 32"
  shows "j < length (dent_name z k) \<Longrightarrow> dent_byte z k j = dent_name z k ! j \<and> dent_byte z k j \<noteq> 0"
    "dent_byte z k (length (dent_name z k)) = 0"
proof -
  let ?m = "map (dent_byte z k) [0..<32]"
  show "dent_byte z k j = dent_name z k ! j \<and> dent_byte z k j \<noteq> 0" if "j < length (dent_name z k)" for j
  proof -
    have "dent_name z k ! j \<noteq> 0"
      using nth_mem [OF that] set_takeWhileD unfolding dent_name_def by fastforce
    moreover have "dent_name z k ! j = ?m ! j"
      using that takeWhile_nth unfolding dent_name_def by fastforce
    moreover have "?m ! j = dent_byte z k j" using that assms by (subst nth_map) simp_all
    ultimately show ?thesis by simp
  qed
  show "dent_byte z k (length (dent_name z k)) = 0"
    using nth_length_takeWhile [of "\<lambda>c. c \<noteq> 0" ?m] assms unfolding dent_name_def
    by (simp del: upt_Suc upt_rec_numeral)
qed

lemma copy_out_spec:
  assumes "n < cap" and "\<forall>j < n. dent_byte z k j \<noteq> 0" and "dent_byte z k n = 0" and "i \<le> n"
  shows "copy_out out z k cap i x = (if i \<le> x \<and> x < n then dent_byte z k x else if x = n then 0 else out x)"
  using assms
proof (induction out z k cap i rule: copy_out.induct)
  case (1 out z k cap i)
  show ?case
  proof (cases "i < n")
    case True
    with 1(2,3) have c: "i + 1 < cap \<and> dent_byte z k i \<noteq> 0" by simp
    then have e: "copy_out out z k cap i = copy_out (out(i := dent_byte z k i)) z k cap (i + 1)"
      by (subst copy_out.simps) (rule if_P)
    have "i + 1 \<le> n" using True by simp
    show ?thesis unfolding e by (subst 1(1) [OF c 1(2,3,4) \<open>i + 1 \<le> n\<close>]) (use True in auto)
  next
    case False
    with 1(4,5) have i: "i = n" "\<not> (i + 1 < cap \<and> dent_byte z k i \<noteq> 0)" by simp_all
    then have "copy_out out z k cap i = out(i := 0)" by (subst copy_out.simps) (rule if_not_P)
    with i show ?thesis by auto
  qed
qed

lemma dirent_loop_spec:
  assumes d: "is_dir s d" and xs: "set xs \<subseteq> set dir_slots"
  shows "dirent_loop s d index out cap seen xs =
    (let es = filter (\<lambda>x. dent s d x \<noteq> None) xs; i = index - seen in
     if 0 \<le> i \<and> i < int (length es) then
       let x = es ! nat i; z = g_blocks s (unat (iblocks (g_inodes s d) (fst x))) in
       (uint (itype (g_inodes s (snd (the (dent s d x))))), copy_out out z (snd x) cap 0)
     else (0, out))"
  using xs
proof (induction xs arbitrary: seen)
  case (Cons x xs)
  then have x: "x \<in> set dir_slots" by simp
  show ?case
  proof (cases "dent s d x")
    case None
    with Cons slot_empty_dent [OF d x] show ?thesis by simp
  next
    case (Some e)
    then have "dent s d x = Some (fst e, snd e)" by simp
    note dp = dent_parts [OF d x this]
    show ?thesis
    proof (cases "seen = index")
      case True
      with Some slot_empty_dent [OF d x] dp show ?thesis by (simp add: Let_def)
    next
      case False
      note step = Cons.IH [of "seen + 1"] Some slot_empty_dent [OF d x]
      show ?thesis
      proof (cases "seen < index")
        case True
        define n where "n = nat (index - (seen + 1))"
        have n: "index = seen + 1 + int n" using True by (simp add: n_def)
        have "nat (1 + int n) = Suc n" by simp
        with step Cons.prems False show ?thesis by (simp add: Let_def n)
      next
        case False
        with step Cons.prems \<open>seen \<noteq> index\<close> show ?thesis by (simp add: Let_def)
      qed
    qed
  qed
qed (auto simp: Let_def)

lemma dirent_entries:
  assumes inv: "fs_inv s" and d: "is_dir s d" and cap: "32 \<le> unat cap"
  shows "if 0 \<le> index \<and> index < int (length (entries s d))
    then \<exists>out'. munin_dirent s (int d) index out cap
        = (uint (itype (g_inodes s (snd (entries s d ! nat index)))), out')
      \<and> map out' [0..<Suc (length (fst (entries s d ! nat index)))] = fst (entries s d ! nat index) @ [0]
    else munin_dirent s (int d) index out cap = (0, out)"
proof -
  define es where "es = filter (\<lambda>x. dent s d x \<noteq> None) dir_slots"
  have c0: "cap \<noteq> 0" using cap by auto
  have len: "length (entries s d) = length es" by (simp add: entries_def es_def)
  have e: "munin_dirent s (int d) index out cap = (if 0 \<le> index \<and> index < int (length es) then
       let x = es ! nat index; z = g_blocks s (unat (iblocks (g_inodes s d) (fst x))) in
       (uint (itype (g_inodes s (snd (the (dent s d x))))), copy_out out z (snd x) (unat cap) 0)
     else (0, out))"
    using d c0 dirent_loop_spec [OF d order.refl, of index out "unat cap" 0, folded es_def]
    by (simp add: munin_dirent_def is_dir_def Let_def)
  show ?thesis
  proof (cases "0 \<le> index \<and> index < int (length es)")
    case False
    then show ?thesis by (simp only: e len if_False)
  next
    case True
    define x where "x = es ! nat index"
    have xin: "x \<in> set es" unfolding x_def using True by (intro nth_mem) linarith
    then obtain nm c where nc: "dent s d x = Some (nm, c)" and x: "x \<in> set dir_slots" by (auto simp: es_def)
    have ent: "entries s d ! nat index = (nm, c)"
    proof -
      have "nat index < length es" using True by linarith
      then have "entries s d ! nat index = the (dent s d x)"
        unfolding entries_def es_def [symmetric] x_def by (rule nth_map)
      with nc show ?thesis by simp
    qed
    note dp = dent_parts [OF d x nc]
    let ?z = "g_blocks s (unat (iblocks (g_inodes s d) (fst x)))"
    have nl: "length nm < 32" using fs_dir [OF inv d] nc unfolding dir_ok_def by blast
    note db = dent_name_bytes [of ?z "snd x", unfolded dp(1), OF nl]
    have "copy_out out ?z (snd x) (unat cap) 0 y
        = (if y < length nm then nm ! y else if y = length nm then 0 else out y)" for y
    proof -
      have nz: "\<forall>j < length nm. dent_byte ?z (snd x) j \<noteq> 0" using db(1) by blast
      have "length nm < unat cap" using nl cap by linarith
      from copy_out_spec [OF this nz db(2), of 0 out y] db(1) show ?thesis by auto
    qed
    then have "map (copy_out out ?z (snd x) (unat cap) 0) [0..<Suc (length nm)] = nm @ [0]"
      by (intro nth_equalityI) (auto simp: nth_append)
    with True show ?thesis
      by (simp add: e len ent x_def [symmetric] nc Let_def del: upt_Suc)
  qed
qed

lemma entries_map:
  assumes "names_unique s d"
  shows "distinct (map fst (entries s d))" "(nm, c) \<in> set (entries s d) \<longleftrightarrow> dir_map s d nm = Some c"
proof -
  have "distinct dir_slots" by (simp add: dir_slots_def distinct_product)
  then have dis: "distinct (filter (\<lambda>x. dent s d x \<noteq> None) dir_slots)" by simp
  have "inj_on (fst \<circ> (\<lambda>x. the (dent s d x))) {x. dent s d x \<noteq> None}"
  proof (rule inj_onI)
    fix x y assume "x \<in> {x. dent s d x \<noteq> None}" "y \<in> {x. dent s d x \<noteq> None}"
      and eq: "(fst \<circ> (\<lambda>x. the (dent s d x))) x = (fst \<circ> (\<lambda>x. the (dent s d x))) y"
    then obtain nm1 c1 nm2 c2 where "dent s d x = Some (nm1, c1)" "dent s d y = Some (nm2, c2)" by auto
    moreover with eq have "nm1 = nm2" by simp
    ultimately show "x = y" using assms unfolding names_unique_def by blast
  qed
  then have "inj_on (fst \<circ> (\<lambda>x. the (dent s d x))) (set (filter (\<lambda>x. dent s d x \<noteq> None) dir_slots))"
    by (rule inj_on_subset) auto
  with dis show "distinct (map fst (entries s d))"
    by (simp add: entries_def distinct_map)
  have "(nm, c) \<in> set (entries s d) \<longleftrightarrow> (\<exists>x. dent s d x = Some (nm, c))"
  proof
    assume "(nm, c) \<in> set (entries s d)"
    then obtain x where "dent s d x \<noteq> None" "the (dent s d x) = (nm, c)" unfolding entries_def by fastforce
    then have "dent s d x = Some (nm, c)" by auto
    then show "\<exists>x. dent s d x = Some (nm, c)" ..
  next
    assume "\<exists>x. dent s d x = Some (nm, c)"
    then obtain x where x: "dent s d x = Some (nm, c)" ..
    with dent_SomeD have "x \<in> set (filter (\<lambda>x. dent s d x \<noteq> None) dir_slots)" by fastforce
    then have "the (dent s d x) \<in> set (entries s d)" unfolding entries_def set_map by (rule imageI)
    with x show "(nm, c) \<in> set (entries s d)" by simp
  qed
  then show "(nm, c) \<in> set (entries s d) \<longleftrightarrow> dir_map s d nm = Some c"
    by (simp only: dir_map_Some [OF assms])
qed

interpretation inodes: slot_pool
  "alloc_inode INODE_FILE" "\<lambda>i. upd_inode (nat i) (\<lambda>f. f\<lparr>itype := INODE_FREE\<rparr>)"
  "\<lambda>s. int ` {i. i < 128 \<and> \<not> live s i}" "\<lambda>s. int ` {..<128}" "- 1" "\<lambda>s. True"
proof
  fix s
  show "int ` {i. i < 128 \<and> \<not> live s i} \<subseteq> int ` {..<128}" by auto
  show "- 1 \<notin> int ` {i. i < 128 \<and> \<not> live s i}" by auto
  show "alloc_inode INODE_FILE s = (- 1, s)" if "int ` {i. i < 128 \<and> \<not> live s i} = {}"
    using that by (cases rule: alloc_inode_cases [of INODE_FILE s]) auto
  have lv: "live (upd_inode i (new_inode 1) s) j \<longleftrightarrow> (if j = i then i < 128 else live s j)" for i j
    by (simp add: live_def)
  show "fst (alloc_inode INODE_FILE s) \<in> int ` {i. i < 128 \<and> \<not> live s i}
      \<and> int ` {i. i < 128 \<and> \<not> live (snd (alloc_inode INODE_FILE s)) i}
        = int ` {i. i < 128 \<and> \<not> live s i} - {fst (alloc_inode INODE_FILE s)}
      \<and> int ` {..<128} = int ` {..<128}" if "int ` {i. i < 128 \<and> \<not> live s i} \<noteq> {}"
    using that by (cases rule: alloc_inode_cases [of INODE_FILE s]) (auto simp: lv)
  show "int ` {i. i < 128 \<and> \<not> live (upd_inode (nat x) (\<lambda>f. f\<lparr>itype := INODE_FREE\<rparr>) s) i}
      = insert x (int ` {i. i < 128 \<and> \<not> live s i})"
    if "x \<in> int ` {..<128}" "x \<noteq> - 1" for x
    using that by (auto simp: live_def)
qed simp_all

section \<open>Reachable file systems\<close>

inductive fs_reachable :: "munin \<Rightarrow> bool" where
  r_init: "fs_reachable (munin_init s)"
| r_create: "fs_reachable s \<Longrightarrow> ty = INODE_FILE \<or> ty = INODE_DIR \<Longrightarrow>
    fs_reachable (snd (munin_create s dir name ty))"
| r_create_path: "fs_reachable s \<Longrightarrow> ty = INODE_FILE \<or> ty = INODE_DIR \<Longrightarrow>
    fs_reachable (snd (munin_create_path s path ty))"
| r_unlink: "fs_reachable s \<Longrightarrow> fs_reachable (snd (munin_unlink s path))"
| r_write: "fs_reachable s \<Longrightarrow> fs_reachable (snd (munin_write s path buf len))"
| r_write_inode: "fs_reachable s \<Longrightarrow> fs_reachable (snd (munin_write_inode s ino buf len off))"
| r_truncate: "fs_reachable s \<Longrightarrow> fs_reachable (snd (munin_truncate s ino))"

lemma create_inv: "fs_inv s \<Longrightarrow> ty = INODE_FILE \<or> ty = INODE_DIR \<Longrightarrow> fs_inv (snd (munin_create s dir name ty))"
proof (cases "0 \<le> dir \<and> is_dir s (nat dir)")
  case True
  assume inv: "fs_inv s" and ty: "ty = INODE_FILE \<or> ty = INODE_DIR"
  obtain v s' where r: "munin_create s (int (nat dir)) name ty = (v, s')" by fastforce
  from munin_create_abs [OF inv conjunct2 [OF True] ty r refl] r True show ?thesis by simp
qed (simp add: munin_create_not_dir)

lemma write_inode_not_file:
  "\<not> (0 \<le> ino \<and> file_at s (nat ino) \<and> off < 69632) \<Longrightarrow> munin_write_inode s ino buf len off = (- 1, s)"
  by (auto simp: munin_write_inode_def file_at_def Let_def not_less)

lemma write_inode_inv: "fs_inv s \<Longrightarrow> fs_inv (snd (munin_write_inode s ino buf len off))"
proof (cases "0 \<le> ino \<and> file_at s (nat ino) \<and> off < 69632")
  case True
  assume inv: "fs_inv s"
  have off: "unat off < 69632" using True by (simp add: word_less_nat_alt)
  from write_inode_abs [OF inv _ off, of "nat ino" buf len] True
  obtain n s' where "munin_write_inode s ino buf len off = (int n, s')" "fs_inv s'" by auto
  then show ?thesis by simp
qed (simp add: write_inode_not_file)

lemma truncate_inv: "fs_inv s \<Longrightarrow> fs_inv (snd (munin_truncate s ino))"
proof (cases "0 \<le> ino \<and> file_at s (nat ino)")
  case True
  assume inv: "fs_inv s"
  from truncate_abs(2) [OF inv conjunct2 [OF True]] True show ?thesis by simp
qed (auto simp: munin_truncate_def file_at_def)

lemma resolve_bound: "fs_inv s \<Longrightarrow> munin_resolve s path = int i \<Longrightarrow> live s i"
  using walk_live [of s 0 _ i] is_dir_live [OF fs_root]
  by (auto simp: resolve_walk ino_of_def split: if_splits option.splits)

lemma write_inv: "fs_inv s \<Longrightarrow> fs_inv (snd (munin_write s path buf len))"
proof -
  assume inv: "fs_inv s"
  show ?thesis
  proof (cases "munin_resolve s path < 0 \<or> itype (g_inodes s (nat (munin_resolve s path))) \<noteq> INODE_FILE \<or> len > 69632")
    case True
    then show ?thesis using inv by (auto simp: munin_write_def Let_def)
  next
    case False
    define i where "i = nat (munin_resolve s path)"
    have w: "munin_resolve s path = int i" using False by (simp add: i_def)
    have "live s i" by (rule resolve_bound [OF inv w])
    then have i: "file_at s i" using False by (simp add: i_def file_at_def live_def)
    have len: "unat len \<le> 69632" using False by (simp add: word_less_nat_alt)
    obtain v s' where r: "munin_write s path buf len = (v, s')" by fastforce
    from write_path_abs(1) [OF inv w i len r] r show ?thesis by simp
  qed
qed

lemma reachable_fs_inv:
  assumes "fs_reachable s"
  shows "fs_inv s"
  using assms
proof induction
  case (r_init s)
  show ?case by (rule munin_init_fs)
next
  case (r_create_path s ty path)
  obtain v s' where "munin_create_path s path ty = (v, s')" by fastforce
  with create_path_abs [OF r_create_path.IH r_create_path.hyps(2)] show ?case by fastforce
next
  case (r_unlink s path)
  obtain v s' where "munin_unlink s path = (v, s')" by fastforce
  with unlink_abs [OF r_unlink.IH] r_unlink.IH show ?case by fastforce
qed (simp_all add: create_inv write_inv write_inode_inv truncate_inv)

section \<open>Properties\<close>

definition demo_fs :: munin where
  "demo_fs = snd (munin_create_path (munin_init blank_region) (str ''/a'') INODE_FILE)"

lemma demo_reachable: "fs_reachable demo_fs"
  unfolding demo_fs_def by (intro fs_reachable.intros) simp

text \<open>
  C5. The file system invariant holds after any sequence of operations on a freshly formatted region,
  whatever their arguments, failures included: no block belongs to two pointers, the bitmap marks
  exactly the blocks some inode names (nothing leaks, nothing in use is free), every directory holds
  distinct non-empty NUL-terminated names, counts its entries in its size, and points only at inodes
  in use, every inode in use other than the root has exactly one entry, and every inode in use is
  reachable from the root.
\<close>

theorem fs_reachable_inv:
  assumes "fs_reachable s"
  shows "fs_inv s"
  by (rule reachable_fs_inv [OF assms])

theorem fs_reachable_inv_witness: "fs_inv demo_fs"
  by (rule fs_reachable_inv [OF demo_reachable])

text \<open>The invariant of the example file system, and its one file.\<close>

lemma demo_inv: "fs_inv demo_fs"
proof -
  have b: "fs_inv (munin_init blank_region)" by (rule munin_init_fs)
  obtain v s' where "munin_create_path (munin_init blank_region) (str ''/a'') INODE_FILE = (v, s')" by fastforce
  with create_path_abs [OF b, of INODE_FILE] show ?thesis by (simp add: demo_fs_def)
qed

lemma demo_file: "file_at demo_fs 1" "munin_resolve demo_fs (str ''/a'') = 1" "is_dir demo_fs 0"
  by code_simp+

text \<open>
  C16. Path resolution is the walk along the components: the index loop of \<^verbatim>\<open>resolve_n\<close>, with its
  skipping of repeated and trailing slashes, returns what looking the non-empty pieces of the path up
  one after the other in the directory maps gives, and -1 for a relative path, a missing entry, or a
  component below a file.
\<close>

theorem resolve_walks_components:
  assumes "fs_inv s"
  shows "munin_resolve s path = (if char_at path 0 = slash
    then ino_of (walk (abs_fs s) 0 (comps (take (str_len path) path))) else - 1)"
  by (rule resolve_walk [OF assms])

theorem resolve_walks_components_witness:
  "munin_resolve demo_fs (str ''//a/'') = ino_of (walk (abs_fs demo_fs) 0 [str ''a''])
   \<and> munin_resolve demo_fs (str ''a'') = - 1"
proof -
  have "comps (take (str_len (str ''//a/'')) (str ''//a/'')) = [str ''a'']" by code_simp
  moreover have "char_at (str ''//a/'') 0 = slash" "char_at (str ''a'') 0 \<noteq> slash" by code_simp+
  ultimately show ?thesis
    using resolve_walks_components [OF demo_inv, of "str ''//a/''"]
      resolve_walks_components [OF demo_inv, of "str ''a''"] by simp
qed

text \<open>
  C15. Creation by path refines the abstract creation: either it fails with -1 and no file, directory
  or byte of the file system has changed (the block or inode it may have taken is given back), or it
  returns a number that was free, the parent directory gains exactly the new name, the new node is
  empty, and everything else is as it was.
\<close>

theorem create_path_refines:
  assumes "fs_inv s" and "ty = INODE_FILE \<or> ty = INODE_DIR"
  shows "case munin_create_path s path ty of (v, s') \<Rightarrow> fs_inv s'
    \<and> (if v < 0 then v = - 1 \<and> abs_fs s' = abs_fs s
       else \<exists>c. v = int c \<and> create_at (abs_fs s) (comps (take (str_len path) path)) ty (abs_fs s') c)"
proof -
  obtain v s' where r: "munin_create_path s path ty = (v, s')" by fastforce
  from create_path_abs [OF assms r] show ?thesis by (simp add: r)
qed

theorem create_path_refines_witness:
  "fs_inv (snd (munin_create_path demo_fs (str ''/d'') INODE_DIR))
   \<and> (\<exists>c. create_at (abs_fs demo_fs) [str ''d''] INODE_DIR
        (abs_fs (snd (munin_create_path demo_fs (str ''/d'') INODE_DIR))) c)"
proof -
  have "\<not> fst (munin_create_path demo_fs (str ''/d'') INODE_DIR) < 0"
    "comps (take (str_len (str ''/d'')) (str ''/d'')) = [str ''d'']" by code_simp+
  then show ?thesis
    using create_path_refines [OF demo_inv, of INODE_DIR "str ''/d''"] by (auto split: prod.splits)
qed

text \<open>
  C7. Removal by path refines the abstract removal: it fails with -1 and leaves the region exactly as
  it was, or it takes a file or an empty directory out of its parent, releases its inode and frees
  exactly the blocks it had, touching no other node. The root cannot be removed, nor a directory
  that still has entries.
\<close>

theorem unlink_refines:
  assumes "fs_inv s"
  shows "case munin_unlink s path of (v, s') \<Rightarrow> (v = - 1 \<and> s' = s) \<or> (v = 0 \<and> fs_inv s'
    \<and> (\<exists>c. remove_at (abs_fs s) (comps (take (str_len path) path)) (abs_fs s') c
        \<and> (\<forall>b < 512. used s' b \<longleftrightarrow> used s b
             \<and> \<not> (\<exists>sl. ptr s (c, sl) \<noteq> NO_BLOCK \<and> unat (ptr s (c, sl)) = b))))"
proof -
  obtain v s' where r: "munin_unlink s path = (v, s')" by fastforce
  from unlink_abs [OF assms r] show ?thesis by (simp add: r)
qed

theorem unlink_refines_witness:
  "fst (munin_unlink demo_fs (str ''/'')) = - 1
   \<and> (\<exists>c. remove_at (abs_fs demo_fs) [str ''a''] (abs_fs (snd (munin_unlink demo_fs (str ''/a'')))) c)"
proof -
  have "fst (munin_unlink demo_fs (str ''/'')) = - 1" "fst (munin_unlink demo_fs (str ''/a'')) = 0"
    "comps (take (str_len (str ''/a'')) (str ''/a'')) = [str ''a'']" by code_simp+
  then show ?thesis
    using unlink_refines [OF demo_inv, of "str ''/a''"] by (auto split: prod.splits)
qed

text \<open>
  C3. A write at an offset overwrites the file in place: of the \<open>len\<close> bytes asked for, the first \<open>n\<close>
  are stored at the offset, a gap before the offset becomes zeros, the file grows if it has to, no
  other node changes, and \<open>n\<close> is returned; fewer bytes than asked for are stored only when the file
  reaches its 68 KiB limit or every block of the region is in use. The 32-bit wrap of \<open>offset + len\<close>
  in the size clamp is harmless.
\<close>

theorem write_inode_refines:
  assumes "fs_inv s" and "abs_fs s i = Some (File bs)" and "unat off < 69632"
  shows "\<exists>n s'. munin_write_inode s (int i) buf len off = (int n, s') \<and> n \<le> unat len
    \<and> unat off + n \<le> 69632 \<and> (n = unat len \<or> unat off + n = 69632 \<or> avail_blocks s' = {})
    \<and> fs_inv s' \<and> abs_fs s' = (abs_fs s)(i \<mapsto> File (splice bs (unat off) (map buf [0..<n])))"
  using write_inode_abs [OF assms(1) _ assms(3), of i buf len] assms(2) by (auto simp: abs_fs_File)

lemma demo_abs: "abs_fs demo_fs 1 = Some (File [])"
proof -
  have "isize (g_inodes demo_fs 1) = 0" by code_simp
  then show ?thesis using demo_file(1) by (simp add: abs_fs_File file_bytes_def)
qed

theorem write_inode_refines_witness:
  "\<exists>n s'. munin_write_inode demo_fs 1 (\<lambda>_. 65) 0xFFFFFFFF 600 = (int n, s') \<and> 600 + n \<le> 69632
    \<and> abs_fs s' 1 = Some (File (replicate 600 0 @ replicate n 65))"
proof -
  have "unat (600 :: u32) < 69632" by simp
  from write_inode_refines [OF demo_inv demo_abs this, of "\<lambda>_. 65" "0xFFFFFFFF"]
  obtain n s' where r: "munin_write_inode demo_fs 1 (\<lambda>_. 65) 0xFFFFFFFF 600 = (int n, s')" "600 + n \<le> 69632"
      "abs_fs s' = (abs_fs demo_fs)(1 \<mapsto> File (splice [] 600 (map (\<lambda>_. 65) [0..<n])))" by auto
  moreover have "splice [] 600 (map (\<lambda>_. 65) [0..<n]) = replicate 600 0 @ replicate n 65"
    by (simp add: splice_def map_replicate_const)
  ultimately show ?thesis by auto
qed

text \<open>
  A read at an offset returns bytes of the file: as many as were asked for, up to the end of the
  file and up to byte 4096. The caller's buffer holds them, and a read at or after the end returns 0.
\<close>

lemma read_inode_returns_bytes:
  assumes "fs_inv s" and "abs_fs s i = Some (File bs)"
  shows "\<exists>n dst. munin_read_inode s (int i) buf len off = (int n, dst)
    \<and> n = min (unat len) (min (length bs) 4096 - unat off)
    \<and> map dst [0..<n] = take n (drop (unat off) bs)"
  using read_inode_abs [OF assms(1), of i buf len off] assms(2) by (simp add: abs_fs_File)

theorem read_inode_returns_bytes_witness:
  "\<exists>dst. munin_read_inode demo_fs 1 (\<lambda>_. 9) 100 0 = (0, dst)"
  using read_inode_returns_bytes [OF demo_inv demo_abs, of "\<lambda>_. 9" 100 0] by simp

text \<open>
  What a descriptor writes past byte 4096 it cannot read back: a write that stores \<open>n > 0\<close> bytes
  at an offset of 4096 or more makes the file longer than that offset, yet reading at the same offset
  returns 0 bytes, because \<^verbatim>\<open>munin_read_inode\<close> stops at the direct blocks.
\<close>

lemma bytes_past_direct_unreadable:
  assumes "fs_inv s" and "abs_fs s i = Some (File bs)" and "4096 \<le> unat off" and "unat off < 69632"
    and "munin_write_inode s (int i) buf len off = (int n, s')" and "0 < n"
  shows "unat off < length (file_bytes s' i) \<and> fst (munin_read_inode s' (int i) out len off) = 0"
proof -
  from write_inode_abs [OF assms(1) _ assms(4), of i buf len] assms(2,5)
  have s': "fs_inv s'" "abs_fs s' = (abs_fs s)(i \<mapsto> File (splice bs (unat off) (map buf [0..<n])))"
    by (auto simp: abs_fs_File)
  then have f: "file_at s' i" "file_bytes s' i = splice bs (unat off) (map buf [0..<n])"
    using abs_fs_File [of s' i "splice bs (unat off) (map buf [0..<n])"] by simp_all
  have "unat off < length (file_bytes s' i)" using assms(6) by (simp add: f length_splice)
  moreover from read_inode_abs [OF s'(1) f(1), of out len off] assms(3)
  have "fst (munin_read_inode s' (int i) out len off) = 0" by auto
  ultimately show ?thesis ..
qed

theorem bytes_past_direct_unreadable_witness:
  "fst (munin_write_inode demo_fs 1 (\<lambda>_. 7) 1 4096) = 1
   \<and> fst (munin_read_inode (snd (munin_write_inode demo_fs 1 (\<lambda>_. 7) 1 4096)) 1 (\<lambda>_. 0) 1 4096) = 0"
proof -
  have w: "fst (munin_write_inode demo_fs 1 (\<lambda>_. 7) 1 4096) = 1" by code_simp
  then have "munin_write_inode demo_fs (int 1) (\<lambda>_. 7) 1 4096
      = (int 1, snd (munin_write_inode demo_fs 1 (\<lambda>_. 7) 1 4096))"
    by (simp add: prod_eq_iff)
  from bytes_past_direct_unreadable [OF demo_inv demo_abs _ _ this, of "\<lambda>_. 0"] w show ?thesis by simp
qed

text \<open>
  C26. Whole files come back: after a successful \<^verbatim>\<open>munin_write\<close> of \<open>len\<close> bytes, \<^verbatim>\<open>munin_read\<close> of the
  same path returns exactly those bytes, all the way through the indirect block, and nothing else of
  the file system has changed. A write that fails for lack of space leaves an empty file.
\<close>

theorem write_read_roundtrip:
  assumes inv: "fs_inv s" and w: "munin_resolve s path = int i" and i: "abs_fs s i = Some (File bs)"
    and len: "unat len \<le> 69632" and r: "munin_write s path buf len = (v, s')"
  shows "if v < 0 then abs_fs s' = (abs_fs s)(i \<mapsto> File [])
    else abs_fs s' = (abs_fs s)(i \<mapsto> File (map buf [0..<unat len]))
      \<and> (\<exists>dst. munin_read s' path out len = (int (unat len), dst)
           \<and> map dst [0..<unat len] = map buf [0..<unat len])"
proof -
  have fi: "file_at s i" using i by (simp add: abs_fs_File)
  note wp = write_path_abs [OF inv w fi len r]
  show ?thesis
  proof (cases "v < 0")
    case True
    with wp(2) show ?thesis by auto
  next
    case False
    with wp(2) have a: "abs_fs s' = (abs_fs s)(i \<mapsto> File (map buf [0..<unat len]))"
      and full: "\<forall>b. 512 * b < unat len \<longrightarrow> ptr s' (i, lslot b) \<noteq> NO_BLOCK" by auto
    then have f: "file_at s' i" "file_bytes s' i = map buf [0..<unat len]"
      using abs_fs_File [of s' i "map buf [0..<unat len]"] by simp_all
    have "walk (abs_fs s') cur ws = walk (abs_fs s) cur ws" for cur ws
    proof (induction ws arbitrary: cur)
      case (Cons c ws)
      have "(case abs_fs s' cur of Some (Dir m) \<Rightarrow> Some m | _ \<Rightarrow> None)
          = (case abs_fs s cur of Some (Dir m) \<Rightarrow> Some m | _ \<Rightarrow> None)" using i by (simp add: a)
      with Cons show ?case by (auto split: option.splits node.splits)
    qed simp
    then have "munin_resolve s' path = munin_resolve s path"
      by (simp only: resolve_walk [OF inv] resolve_walk [OF wp(1)])
    with w have "munin_resolve s' path = int i" by simp
    from read_path_abs [OF wp(1) this f(1), of out len] full
    obtain dst where "munin_read s' path out len = (int (unat len), dst)"
      "map dst [0..<unat len] = take (unat len) (map buf [0..<unat len])" by (auto simp: f(2))
    with a False show ?thesis by simp
  qed
qed

theorem write_read_roundtrip_witness:
  "case munin_write demo_fs (str ''/a'') (\<lambda>i. of_nat i) 3 of (v, s') \<Rightarrow> v = 3 \<and>
     (\<exists>dst. munin_read s' (str ''/a'') (\<lambda>_. 0) 3 = (3, dst) \<and> map dst [0..<3] = [0, 1, 2])"
proof -
  have v: "fst (munin_write demo_fs (str ''/a'') (\<lambda>i. of_nat i) 3) = 3" by code_simp
  obtain v s' where r: "munin_write demo_fs (str ''/a'') (\<lambda>i. of_nat i) 3 = (v, s')" by fastforce
  have w: "munin_resolve demo_fs (str ''/a'') = int 1" using demo_file(2) by simp
  from write_read_roundtrip [OF demo_inv w demo_abs _ r, of "\<lambda>_. 0"] v r
  have "\<exists>dst. munin_read s' (str ''/a'') (\<lambda>_. 0) 3 = (3, dst)
      \<and> map dst [0..<3] = map (\<lambda>i. of_nat i) [0..<3]" by simp
  with v r show ?thesis by (auto simp: upt_rec)
qed

text \<open>
  Directory enumeration: entry \<open>index\<close> of \<^verbatim>\<open>munin_dirent\<close> is the \<open>index\<close>-th entry in slot order, its
  name is copied NUL-terminated and its type returned; past the end the result is 0. The entries
  enumerated are those of the directory map, each once.
\<close>

lemma dirent_enumerates:
  assumes "fs_inv s" and "abs_fs s d = Some (Dir m)" and "32 \<le> unat cap"
  shows "distinct (map fst (entries s d)) \<and> set (entries s d) = {(nm, c). m nm = Some c}
    \<and> (if 0 \<le> index \<and> index < int (length (entries s d))
       then \<exists>out'. munin_dirent s (int d) index out cap
           = (uint (itype (g_inodes s (snd (entries s d ! nat index)))), out')
         \<and> map out' [0..<Suc (length (fst (entries s d ! nat index)))] = fst (entries s d ! nat index) @ [0]
       else munin_dirent s (int d) index out cap = (0, out))"
proof -
  have d: "is_dir s d" and m: "m = dir_map s d" using assms(2) by (simp_all add: abs_fs_Dir)
  have u: "names_unique s d" using fs_dir [OF assms(1) d] by (simp add: dir_ok_def)
  have "set (entries s d) = {(nm, c). m nm = Some c}" using entries_map(2) [OF u] by (auto simp: m)
  with entries_map(1) [OF u] dirent_entries [OF assms(1) d assms(3), of index out] show ?thesis by blast
qed

theorem dirent_enumerates_witness:
  "distinct (map fst (entries demo_fs 0)) \<and> munin_dirent demo_fs 0 (- 5) (\<lambda>_. 1) 32 = (0, \<lambda>_. 1)"
proof -
  have "abs_fs demo_fs 0 = Some (Dir (dir_map demo_fs 0))" using demo_file(3) by (simp add: abs_fs_Dir)
  from dirent_enumerates [OF demo_inv this, of 32 "- 5" "\<lambda>_. 1"] show ?thesis by simp
qed

end
