(* ===== verification/Font.thy ===== *)
theory Font
  imports Hrafn_Prelude
begin

text \<open>
  The bitmap font (kernel/font.cpp): a glyph is 16 rows of 8 pixels, the leftmost one the highest bit,
  for the characters 32 to 126; every other character is drawn as a question mark.
\<close>

definition FONT_W :: nat where "FONT_W = 8"
definition FONT_H :: nat where "FONT_H = 16"

definition g_font :: "u8 list list" where
  "g_font =
   [[0x00, 0x00, 0x00, 0x00, 0x00, 0x00, 0x00, 0x00, 0x00, 0x00, 0x00, 0x00, 0x00, 0x00, 0x00, 0x00],
    [0x00, 0x00, 0x08, 0x08, 0x08, 0x08, 0x08, 0x08, 0x08, 0x00, 0x00, 0x08, 0x08, 0x00, 0x00, 0x00],
    [0x00, 0x00, 0x36, 0x36, 0x36, 0x36, 0x00, 0x00, 0x00, 0x00, 0x00, 0x00, 0x00, 0x00, 0x00, 0x00],
    [0x00, 0x00, 0x09, 0x1B, 0x12, 0x7F, 0x12, 0x36, 0x24, 0xFF, 0x24, 0x2C, 0x48, 0x00, 0x00, 0x00],
    [0x00, 0x08, 0x08, 0x1E, 0x28, 0x68, 0x28, 0x38, 0x0E, 0x0B, 0x09, 0x4B, 0x3E, 0x08, 0x08, 0x00],
    [0x00, 0x00, 0x70, 0xC8, 0x88, 0xC8, 0x73, 0x1C, 0x67, 0x0D, 0x08, 0x09, 0x07, 0x00, 0x00, 0x00],
    [0x00, 0x00, 0x1C, 0x20, 0x20, 0x30, 0x30, 0x48, 0x4C, 0xC7, 0x43, 0x63, 0x3D, 0x00, 0x00, 0x00],
    [0x00, 0x00, 0x08, 0x08, 0x08, 0x08, 0x00, 0x00, 0x00, 0x00, 0x00, 0x00, 0x00, 0x00, 0x00, 0x00],
    [0x00, 0x00, 0x04, 0x0C, 0x08, 0x08, 0x18, 0x18, 0x18, 0x18, 0x18, 0x08, 0x08, 0x0C, 0x04, 0x00],
    [0x00, 0x00, 0x10, 0x18, 0x08, 0x08, 0x0C, 0x0C, 0x0C, 0x0C, 0x0C, 0x08, 0x08, 0x18, 0x10, 0x00],
    [0x00, 0x00, 0x08, 0x29, 0x1C, 0x1C, 0x29, 0x08, 0x00, 0x00, 0x00, 0x00, 0x00, 0x00, 0x00, 0x00],
    [0x00, 0x00, 0x00, 0x00, 0x00, 0x08, 0x08, 0x08, 0x7F, 0x08, 0x08, 0x08, 0x00, 0x00, 0x00, 0x00],
    [0x00, 0x00, 0x00, 0x00, 0x00, 0x00, 0x00, 0x00, 0x00, 0x00, 0x00, 0x0C, 0x08, 0x18, 0x10, 0x00],
    [0x00, 0x00, 0x00, 0x00, 0x00, 0x00, 0x00, 0x00, 0x1C, 0x00, 0x00, 0x00, 0x00, 0x00, 0x00, 0x00],
    [0x00, 0x00, 0x00, 0x00, 0x00, 0x00, 0x00, 0x00, 0x00, 0x00, 0x00, 0x08, 0x08, 0x00, 0x00, 0x00],
    [0x00, 0x00, 0x03, 0x02, 0x06, 0x04, 0x0C, 0x08, 0x18, 0x10, 0x30, 0x20, 0x60, 0x40, 0x00, 0x00],
    [0x00, 0x00, 0x1C, 0x22, 0x63, 0x63, 0x69, 0x49, 0x61, 0x63, 0x63, 0x22, 0x1C, 0x00, 0x00, 0x00],
    [0x00, 0x00, 0x1C, 0x2C, 0x0C, 0x0C, 0x0C, 0x0C, 0x0C, 0x0C, 0x0C, 0x0C, 0x3F, 0x00, 0x00, 0x00],
    [0x00, 0x00, 0x3C, 0x66, 0x03, 0x03, 0x02, 0x06, 0x0C, 0x18, 0x30, 0x20, 0x7F, 0x00, 0x00, 0x00],
    [0x00, 0x00, 0x3C, 0x42, 0x03, 0x03, 0x06, 0x1C, 0x02, 0x03, 0x03, 0x42, 0x3C, 0x00, 0x00, 0x00],
    [0x00, 0x00, 0x06, 0x0E, 0x1E, 0x16, 0x26, 0x26, 0x46, 0x7F, 0x06, 0x06, 0x06, 0x00, 0x00, 0x00],
    [0x00, 0x00, 0x3E, 0x20, 0x20, 0x20, 0x3C, 0x06, 0x03, 0x03, 0x03, 0x46, 0x3C, 0x00, 0x00, 0x00],
    [0x00, 0x00, 0x1E, 0x30, 0x60, 0x60, 0x5E, 0x63, 0x63, 0x61, 0x63, 0x23, 0x1E, 0x00, 0x00, 0x00],
    [0x00, 0x00, 0x7F, 0x03, 0x02, 0x06, 0x04, 0x04, 0x0C, 0x08, 0x18, 0x18, 0x10, 0x00, 0x00, 0x00],
    [0x00, 0x00, 0x1C, 0x22, 0x63, 0x63, 0x22, 0x1C, 0x23, 0x63, 0x63, 0x63, 0x3E, 0x00, 0x00, 0x00],
    [0x00, 0x00, 0x3C, 0x62, 0x63, 0x43, 0x63, 0x63, 0x3D, 0x03, 0x03, 0x06, 0x3C, 0x00, 0x00, 0x00],
    [0x00, 0x00, 0x00, 0x00, 0x00, 0x08, 0x08, 0x00, 0x00, 0x00, 0x00, 0x08, 0x08, 0x00, 0x00, 0x00],
    [0x00, 0x00, 0x00, 0x00, 0x00, 0x08, 0x08, 0x00, 0x00, 0x00, 0x00, 0x0C, 0x08, 0x18, 0x10, 0x00],
    [0x00, 0x00, 0x00, 0x00, 0x00, 0x01, 0x0F, 0x38, 0x60, 0x38, 0x0F, 0x01, 0x00, 0x00, 0x00, 0x00],
    [0x00, 0x00, 0x00, 0x00, 0x00, 0x00, 0x7F, 0x00, 0x00, 0x7F, 0x00, 0x00, 0x00, 0x00, 0x00, 0x00],
    [0x00, 0x00, 0x00, 0x00, 0x00, 0x40, 0x78, 0x0E, 0x03, 0x0E, 0x78, 0x40, 0x00, 0x00, 0x00, 0x00],
    [0x00, 0x00, 0x1C, 0x22, 0x03, 0x02, 0x06, 0x0C, 0x08, 0x08, 0x00, 0x08, 0x08, 0x00, 0x00, 0x00],
    [0x00, 0x00, 0x00, 0x1E, 0x21, 0x41, 0x4F, 0x99, 0x90, 0x90, 0x99, 0x4F, 0x40, 0x30, 0x1E, 0x00],
    [0x00, 0x00, 0x1C, 0x1C, 0x14, 0x14, 0x36, 0x22, 0x22, 0x7F, 0x41, 0x41, 0xC1, 0x00, 0x00, 0x00],
    [0x00, 0x00, 0x7E, 0x63, 0x63, 0x63, 0x63, 0x7E, 0x63, 0x61, 0x61, 0x63, 0x7E, 0x00, 0x00, 0x00],
    [0x00, 0x00, 0x1E, 0x31, 0x20, 0x60, 0x60, 0x60, 0x60, 0x60, 0x20, 0x31, 0x1E, 0x00, 0x00, 0x00],
    [0x00, 0x00, 0x7C, 0x46, 0x43, 0x43, 0x43, 0x41, 0x41, 0x43, 0x43, 0x46, 0x7C, 0x00, 0x00, 0x00],
    [0x00, 0x00, 0x7F, 0x60, 0x60, 0x60, 0x60, 0x7F, 0x60, 0x60, 0x60, 0x60, 0x7F, 0x00, 0x00, 0x00],
    [0x00, 0x00, 0x3F, 0x20, 0x20, 0x20, 0x20, 0x3F, 0x20, 0x20, 0x20, 0x20, 0x20, 0x00, 0x00, 0x00],
    [0x00, 0x00, 0x1E, 0x33, 0x60, 0x60, 0x40, 0x47, 0x41, 0x41, 0x61, 0x33, 0x1E, 0x00, 0x00, 0x00],
    [0x00, 0x00, 0x41, 0x41, 0x41, 0x41, 0x41, 0x7F, 0x41, 0x41, 0x41, 0x41, 0x41, 0x00, 0x00, 0x00],
    [0x00, 0x00, 0x7F, 0x08, 0x08, 0x08, 0x08, 0x08, 0x08, 0x08, 0x08, 0x08, 0x7F, 0x00, 0x00, 0x00],
    [0x00, 0x00, 0x1E, 0x02, 0x02, 0x02, 0x02, 0x02, 0x02, 0x06, 0x06, 0x46, 0x3C, 0x00, 0x00, 0x00],
    [0x00, 0x00, 0x41, 0x42, 0x44, 0x4C, 0x78, 0x78, 0x6C, 0x46, 0x42, 0x43, 0x41, 0x00, 0x00, 0x00],
    [0x00, 0x00, 0x20, 0x20, 0x20, 0x20, 0x20, 0x20, 0x20, 0x20, 0x20, 0x20, 0x3F, 0x00, 0x00, 0x00],
    [0x00, 0x00, 0x63, 0x63, 0x63, 0x55, 0x55, 0x5D, 0x49, 0x41, 0x41, 0x41, 0x41, 0x00, 0x00, 0x00],
    [0x00, 0x00, 0x61, 0x71, 0x71, 0x51, 0x59, 0x49, 0x4D, 0x45, 0x47, 0x43, 0x43, 0x00, 0x00, 0x00],
    [0x00, 0x00, 0x1C, 0x22, 0x63, 0x63, 0x41, 0x41, 0x41, 0x63, 0x63, 0x22, 0x1C, 0x00, 0x00, 0x00],
    [0x00, 0x00, 0x7E, 0x63, 0x61, 0x61, 0x61, 0x63, 0x7E, 0x60, 0x60, 0x60, 0x60, 0x00, 0x00, 0x00],
    [0x00, 0x00, 0x1C, 0x22, 0x63, 0x63, 0x41, 0x41, 0x41, 0x63, 0x63, 0x22, 0x1E, 0x06, 0x02, 0x00],
    [0x00, 0x00, 0x7C, 0x62, 0x63, 0x63, 0x62, 0x7C, 0x66, 0x62, 0x63, 0x61, 0x61, 0x00, 0x00, 0x00],
    [0x00, 0x00, 0x1C, 0x22, 0x60, 0x60, 0x60, 0x1C, 0x03, 0x01, 0x01, 0x63, 0x3E, 0x00, 0x00, 0x00],
    [0x00, 0x00, 0xFF, 0x08, 0x08, 0x08, 0x08, 0x08, 0x08, 0x08, 0x08, 0x08, 0x08, 0x00, 0x00, 0x00],
    [0x00, 0x00, 0x63, 0x63, 0x63, 0x63, 0x63, 0x63, 0x63, 0x63, 0x63, 0x23, 0x1C, 0x00, 0x00, 0x00],
    [0x00, 0x00, 0x41, 0x41, 0x63, 0x63, 0x22, 0x22, 0x36, 0x14, 0x14, 0x1C, 0x1C, 0x00, 0x00, 0x00],
    [0x00, 0x00, 0x80, 0xC1, 0xC1, 0x49, 0x5D, 0x5D, 0x55, 0x77, 0x77, 0x63, 0x22, 0x00, 0x00, 0x00],
    [0x00, 0x00, 0x61, 0x23, 0x32, 0x14, 0x1C, 0x0C, 0x1C, 0x36, 0x22, 0x63, 0xC1, 0x00, 0x00, 0x00],
    [0x00, 0x00, 0x41, 0x63, 0x22, 0x36, 0x1C, 0x1C, 0x08, 0x08, 0x08, 0x08, 0x08, 0x00, 0x00, 0x00],
    [0x00, 0x00, 0x7F, 0x03, 0x03, 0x06, 0x0C, 0x0C, 0x18, 0x10, 0x30, 0x60, 0x7F, 0x00, 0x00, 0x00],
    [0x00, 0x00, 0x1E, 0x18, 0x18, 0x18, 0x18, 0x18, 0x18, 0x18, 0x18, 0x18, 0x18, 0x18, 0x1E, 0x00],
    [0x00, 0x00, 0x40, 0x60, 0x20, 0x30, 0x10, 0x18, 0x08, 0x0C, 0x04, 0x06, 0x02, 0x03, 0x00, 0x00],
    [0x00, 0x00, 0x1C, 0x0C, 0x0C, 0x0C, 0x0C, 0x0C, 0x0C, 0x0C, 0x0C, 0x0C, 0x0C, 0x0C, 0x1C, 0x00],
    [0x00, 0x00, 0x1C, 0x14, 0x22, 0x41, 0x00, 0x00, 0x00, 0x00, 0x00, 0x00, 0x00, 0x00, 0x00, 0x00],
    [0x00, 0x00, 0x00, 0x00, 0x00, 0x00, 0x00, 0x00, 0x00, 0x00, 0x00, 0x00, 0x00, 0x00, 0x00, 0x00],
    [0x00, 0x30, 0x18, 0x08, 0x00, 0x00, 0x00, 0x00, 0x00, 0x00, 0x00, 0x00, 0x00, 0x00, 0x00, 0x00],
    [0x00, 0x00, 0x00, 0x00, 0x00, 0x1C, 0x22, 0x03, 0x3F, 0x63, 0x43, 0x67, 0x3F, 0x00, 0x00, 0x00],
    [0x00, 0x00, 0x60, 0x60, 0x60, 0x7E, 0x73, 0x63, 0x61, 0x61, 0x61, 0x72, 0x7E, 0x00, 0x00, 0x00],
    [0x00, 0x00, 0x00, 0x00, 0x00, 0x1E, 0x31, 0x20, 0x60, 0x60, 0x20, 0x31, 0x1E, 0x00, 0x00, 0x00],
    [0x00, 0x00, 0x03, 0x03, 0x03, 0x3F, 0x27, 0x63, 0x43, 0x43, 0x63, 0x27, 0x3F, 0x00, 0x00, 0x00],
    [0x00, 0x00, 0x00, 0x00, 0x00, 0x1C, 0x22, 0x61, 0x41, 0x7F, 0x40, 0x21, 0x1E, 0x00, 0x00, 0x00],
    [0x00, 0x00, 0x0F, 0x08, 0x08, 0x7F, 0x08, 0x08, 0x08, 0x08, 0x08, 0x08, 0x08, 0x00, 0x00, 0x00],
    [0x00, 0x00, 0x00, 0x00, 0x00, 0x3F, 0x27, 0x63, 0x43, 0x43, 0x63, 0x27, 0x3F, 0x02, 0x22, 0x1C],
    [0x00, 0x00, 0x60, 0x60, 0x60, 0x6E, 0x72, 0x63, 0x63, 0x63, 0x63, 0x63, 0x63, 0x00, 0x00, 0x00],
    [0x00, 0x00, 0x08, 0x08, 0x00, 0x38, 0x08, 0x08, 0x08, 0x08, 0x08, 0x08, 0x7F, 0x00, 0x00, 0x00],
    [0x00, 0x00, 0x0C, 0x0C, 0x00, 0x3C, 0x0C, 0x0C, 0x0C, 0x0C, 0x0C, 0x0C, 0x0C, 0x0C, 0x08, 0x78],
    [0x00, 0x00, 0x20, 0x20, 0x20, 0x23, 0x26, 0x2C, 0x38, 0x24, 0x26, 0x23, 0x21, 0x00, 0x00, 0x00],
    [0x00, 0x00, 0x78, 0x18, 0x18, 0x18, 0x18, 0x18, 0x18, 0x18, 0x18, 0x08, 0x0F, 0x00, 0x00, 0x00],
    [0x00, 0x00, 0x00, 0x00, 0x00, 0x7F, 0x49, 0x49, 0x49, 0x49, 0x49, 0x49, 0x49, 0x00, 0x00, 0x00],
    [0x00, 0x00, 0x00, 0x00, 0x00, 0x6E, 0x72, 0x63, 0x63, 0x63, 0x63, 0x63, 0x63, 0x00, 0x00, 0x00],
    [0x00, 0x00, 0x00, 0x00, 0x00, 0x1C, 0x22, 0x63, 0x41, 0x41, 0x63, 0x22, 0x1C, 0x00, 0x00, 0x00],
    [0x00, 0x00, 0x00, 0x00, 0x00, 0x7E, 0x72, 0x63, 0x61, 0x61, 0x63, 0x72, 0x7E, 0x60, 0x60, 0x60],
    [0x00, 0x00, 0x00, 0x00, 0x00, 0x1F, 0x23, 0x63, 0x43, 0x43, 0x63, 0x23, 0x3F, 0x03, 0x03, 0x03],
    [0x00, 0x00, 0x00, 0x00, 0x00, 0x17, 0x18, 0x10, 0x10, 0x10, 0x10, 0x10, 0x10, 0x00, 0x00, 0x00],
    [0x00, 0x00, 0x00, 0x00, 0x00, 0x1C, 0x22, 0x20, 0x38, 0x06, 0x02, 0x22, 0x1C, 0x00, 0x00, 0x00],
    [0x00, 0x00, 0x00, 0x18, 0x18, 0x7F, 0x18, 0x18, 0x18, 0x18, 0x18, 0x18, 0x0F, 0x00, 0x00, 0x00],
    [0x00, 0x00, 0x00, 0x00, 0x00, 0x63, 0x63, 0x63, 0x63, 0x63, 0x63, 0x23, 0x3F, 0x00, 0x00, 0x00],
    [0x00, 0x00, 0x00, 0x00, 0x00, 0x41, 0x63, 0x22, 0x22, 0x36, 0x14, 0x1C, 0x1C, 0x00, 0x00, 0x00],
    [0x00, 0x00, 0x00, 0x00, 0x00, 0x80, 0xC1, 0x49, 0x49, 0x55, 0x77, 0x36, 0x22, 0x00, 0x00, 0x00],
    [0x00, 0x00, 0x00, 0x00, 0x00, 0x63, 0x22, 0x14, 0x0C, 0x1C, 0x36, 0x22, 0x41, 0x00, 0x00, 0x00],
    [0x00, 0x00, 0x00, 0x00, 0x00, 0x41, 0x63, 0x22, 0x32, 0x16, 0x14, 0x1C, 0x08, 0x08, 0x18, 0x70],
    [0x00, 0x00, 0x00, 0x00, 0x00, 0x3F, 0x02, 0x06, 0x0C, 0x18, 0x10, 0x20, 0x7F, 0x00, 0x00, 0x00],
    [0x00, 0x00, 0x06, 0x0C, 0x08, 0x08, 0x08, 0x18, 0x30, 0x18, 0x08, 0x08, 0x08, 0x08, 0x0C, 0x06],
    [0x00, 0x00, 0x08, 0x08, 0x08, 0x08, 0x08, 0x08, 0x08, 0x08, 0x08, 0x08, 0x08, 0x08, 0x08, 0x08],
    [0x00, 0x00, 0x30, 0x18, 0x08, 0x08, 0x08, 0x0C, 0x06, 0x0C, 0x08, 0x08, 0x08, 0x08, 0x18, 0x30],
    [0x00, 0x00, 0x00, 0x00, 0x00, 0x00, 0x00, 0x78, 0x07, 0x00, 0x00, 0x00, 0x00, 0x00, 0x00, 0x00]]"

definition font_glyph :: "u8 \<Rightarrow> u8 list" where
  "font_glyph c0 = (let c = (if c0 < 0x20 \<or> c0 > 0x7E then 63 else c0) in g_font ! unat (c - 0x20))"

lemma length_g_font: "length g_font = 95"
  by (simp add: g_font_def)

lemma g_font_rows: "list_all (\<lambda>g. length g = FONT_H) g_font"
  unfolding g_font_def FONT_H_def by simp

lemma length_font_glyph: "length (font_glyph c) = FONT_H"
proof -
  define d where "d = (if c < 0x20 \<or> c > 0x7E then 63 else c)"
  have "0x20 \<le> d" "d \<le> 0x7E" by (auto simp: d_def not_less)
  then have "unat (d - 0x20) = unat d - 32" "unat d \<le> 126" "32 \<le> unat d"
    by (simp_all add: unat_sub word_le_nat_alt)
  then have "unat (d - 0x20) < length g_font" by (simp add: length_g_font)
  then show ?thesis using g_font_rows by (simp add: font_glyph_def d_def Let_def list_all_length)
qed

end
