(* ===== verification/Gfx.thy ===== *)
theory Gfx
  imports Font
begin

text \<open>
  Drawing (kernel/gfx.cpp). A surface is a function from pixel indices to colours with a visible width
  and height and a row stride; a store outside the visible part would show in the function. Coordinates
  are \<^verbatim>\<open>int\<close>s and modelled as integers. Sums that leave the 32-bit range are undefined in the code:
  \<open>gfx_line\<close>, whose loop multiplies distances, checks each of them (\<open>int_ok\<close>) and is \<open>None\<close> at the first that
  overflows; the other operations add sizes of the screen's order to coordinates and are not checked.
\<close>

section \<open>Surfaces and drawing operations\<close>

record surface =
  sf_pixels :: "nat \<Rightarrow> u32"
  sf_width :: u32
  sf_height :: u32
  sf_pitch :: u32

definition RGB :: "u32 \<Rightarrow> u32 \<Rightarrow> u32 \<Rightarrow> u32" where
  "RGB r g b = push_bit 16 r OR push_bit 8 g OR b"

definition store_px :: "int \<Rightarrow> int \<Rightarrow> u32 \<Rightarrow> surface \<Rightarrow> surface" where
  "store_px x y color s =
     s\<lparr>sf_pixels := (sf_pixels s)(nat y * unat (sf_pitch s) + nat x := color)\<rparr>"

definition gfx_putpixel :: "int \<Rightarrow> int \<Rightarrow> u32 \<Rightarrow> surface \<Rightarrow> surface" where
  "gfx_putpixel x y color s =
     (if x < 0 \<or> y < 0 \<or> x \<ge> sint (sf_width s) \<or> y \<ge> sint (sf_height s) then s else store_px x y color s)"

definition fill_row :: "int \<Rightarrow> int \<Rightarrow> u32 \<Rightarrow> int \<Rightarrow> surface \<Rightarrow> surface" where
  "fill_row x0 x1 color y s = fold (\<lambda>x. store_px x y color) [x0..x1 - 1] s"

definition gfx_clear :: "u32 \<Rightarrow> surface \<Rightarrow> surface" where
  "gfx_clear color s = fold (fill_row 0 (uint (sf_width s)) color) [0..uint (sf_height s) - 1] s"

definition gfx_fill_rect :: "int \<Rightarrow> int \<Rightarrow> int \<Rightarrow> int \<Rightarrow> u32 \<Rightarrow> surface \<Rightarrow> surface" where
  "gfx_fill_rect x y w h color s =
     (if w \<le> 0 \<or> h \<le> 0 then s
      else let x0 = (if x < 0 then 0 else x); y0 = (if y < 0 then 0 else y);
               x1 = (if x + w > sint (sf_width s) then sint (sf_width s) else x + w);
               y1 = (if y + h > sint (sf_height s) then sint (sf_height s) else y + h)
           in fold (fill_row x0 x1 color) [y0..y1 - 1] s)"

definition gfx_hline :: "int \<Rightarrow> int \<Rightarrow> int \<Rightarrow> u32 \<Rightarrow> surface \<Rightarrow> surface" where
  "gfx_hline x y w color s = gfx_fill_rect x y w 1 color s"

definition gfx_vline :: "int \<Rightarrow> int \<Rightarrow> int \<Rightarrow> u32 \<Rightarrow> surface \<Rightarrow> surface" where
  "gfx_vline x y h color s = gfx_fill_rect x y 1 h color s"

definition gfx_rect :: "int \<Rightarrow> int \<Rightarrow> int \<Rightarrow> int \<Rightarrow> u32 \<Rightarrow> surface \<Rightarrow> surface" where
  "gfx_rect x y w h color s =
     (if w \<le> 0 \<or> h \<le> 0 then s
      else gfx_vline (x + w - 1) y h color (gfx_vline x y h color
             (gfx_hline x (y + h - 1) w color (gfx_hline x y w color s))))"

text \<open>
  The loop of \<^verbatim>\<open>gfx_line\<close>, which has no bound of its own. Its arithmetic is checked: \<open>None\<close> is a loop that
  does not end, or a sum outside the range of \<^verbatim>\<open>int\<close>, which is undefined in the code.
\<close>

definition int_ok :: "int \<Rightarrow> bool" where
  "int_ok x \<longleftrightarrow> - (2 ^ 31) \<le> x \<and> x < 2 ^ 31"

partial_function (option) line_loop ::
  "int \<Rightarrow> int \<Rightarrow> int \<Rightarrow> int \<Rightarrow> int \<Rightarrow> int \<Rightarrow> u32 \<Rightarrow> int \<Rightarrow> int \<Rightarrow> int \<Rightarrow> surface \<Rightarrow> surface option" where
  "line_loop dx dy sx sy x1 y1 color err x0 y0 s =
     (let s' = gfx_putpixel x0 y0 color s
      in if x0 = x1 \<and> y0 = y1 then Some s'
         else let e2 = 2 * err;
                  (err1, x0') = (if e2 > - dy then (err - dy, x0 + sx) else (err, x0));
                  (err2, y0') = (if e2 < dx then (err1 + dx, y0 + sy) else (err1, y0))
              in if list_all int_ok [e2, err1, x0', err2, y0'] then line_loop dx dy sx sy x1 y1 color err2 x0' y0' s'
                 else None)"

definition gfx_line :: "int \<Rightarrow> int \<Rightarrow> int \<Rightarrow> int \<Rightarrow> u32 \<Rightarrow> surface \<Rightarrow> surface option" where
  "gfx_line x0 y0 x1 y1 color s =
     (let dx = (if x1 - x0 < 0 then - (x1 - x0) else x1 - x0);
          dy = (if y1 - y0 < 0 then - (y1 - y0) else y1 - y0);
          sx = (if x0 < x1 then 1 else - 1); sy = (if y0 < y1 then 1 else - 1)
      in if list_all int_ok [x1 - x0, dx, y1 - y0, dy, dx - dy] then line_loop dx dy sx sy x1 y1 color (dx - dy) x0 y0 s
         else None)"

definition cursor_shape :: "nat list list" where
  "cursor_shape =
   [[1], [1,1], [1,2,1], [1,2,2,1], [1,2,2,2,1], [1,2,2,2,2,1], [1,2,2,2,2,2,1], [1,2,2,2,2,2,2,1],
    [1,2,2,2,2,2,2,2,1], [1,2,2,2,2,2,2,2,2,1], [1,2,2,2,2,2,1,1,1,1,1], [1,2,2,1,2,2,1],
    [1,2,1,0,1,2,2,1], [1,1,0,0,1,2,2,1], [1,0,0,0,0,1,2,2,1], [0,0,0,0,0,1,2,2,1], [0,0,0,0,0,0,1,1,1]]"

text \<open>The rows of the table are filled up with zeros to 12 columns.\<close>

definition cursor_pixel :: "nat \<Rightarrow> nat \<Rightarrow> nat" where
  "cursor_pixel row col = (let r = cursor_shape ! row in if col < length r then r ! col else 0)"

definition gfx_cursor :: "int \<Rightarrow> int \<Rightarrow> surface \<Rightarrow> surface" where
  "gfx_cursor x y s = fold (\<lambda>row. fold (\<lambda>col s.
     let p = cursor_pixel row col
     in if p = 1 then gfx_putpixel (x + int col) (y + int row) (RGB 0 0 0) s
        else if p = 2 then gfx_putpixel (x + int col) (y + int row) (RGB 255 255 255) s else s) [0..<12]) [0..<17] s"

definition gfx_char :: "int \<Rightarrow> int \<Rightarrow> u8 \<Rightarrow> u32 \<Rightarrow> surface \<Rightarrow> surface" where
  "gfx_char x y c color s =
     (let g = font_glyph c
      in fold (\<lambda>row. fold (\<lambda>col s.
           if g ! row AND drop_bit col 0x80 \<noteq> 0 then gfx_putpixel (x + int col) (y + int row) color s else s)
         [0..<FONT_W]) [0..<FONT_H] s)"

fun text_loop :: "int \<Rightarrow> int \<Rightarrow> int \<Rightarrow> cstr \<Rightarrow> u32 \<Rightarrow> surface \<Rightarrow> surface" where
  "text_loop x cx cy [] color s = s"
| "text_loop x cx cy (c # p) color s =
     (if c = 0 then s
      else if c = 10 then text_loop x x (cy + int FONT_H) p color s
      else text_loop x (cx + int FONT_W) cy p color (gfx_char cx cy c color s))"

definition gfx_text :: "int \<Rightarrow> int \<Rightarrow> cstr \<Rightarrow> u32 \<Rightarrow> surface \<Rightarrow> surface" where
  "gfx_text x y p color s = text_loop x x y p color s"

section \<open>Nothing is drawn outside\<close>

text \<open>A surface whose dimensions fit an \<^verbatim>\<open>int\<close> and whose rows do not overlap.\<close>

definition surface_ok :: "surface \<Rightarrow> bool" where
  "surface_ok s \<longleftrightarrow> unat (sf_width s) < 2 ^ 31 \<and> unat (sf_height s) < 2 ^ 31 \<and> sf_width s \<le> sf_pitch s"

definition inside :: "surface \<Rightarrow> int \<Rightarrow> int \<Rightarrow> bool" where
  "inside s x y \<longleftrightarrow> 0 \<le> x \<and> x < uint (sf_width s) \<and> 0 \<le> y \<and> y < uint (sf_height s)"

definition px :: "surface \<Rightarrow> int \<Rightarrow> int \<Rightarrow> u32" where
  "px s x y = sf_pixels s (nat y * unat (sf_pitch s) + nat x)"

definition visible :: "surface \<Rightarrow> nat \<Rightarrow> bool" where
  "visible s i \<longleftrightarrow> (\<exists>x y. inside s x y \<and> i = nat y * unat (sf_pitch s) + nat x)"

definition draws :: "surface \<Rightarrow> surface \<Rightarrow> bool" where
  "draws s s' \<longleftrightarrow> sf_width s' = sf_width s \<and> sf_height s' = sf_height s \<and> sf_pitch s' = sf_pitch s
     \<and> (\<forall>i. \<not> visible s i \<longrightarrow> sf_pixels s' i = sf_pixels s i)"

lemma draws_dims:
  "draws s s' \<Longrightarrow> sf_width s' = sf_width s \<and> sf_height s' = sf_height s \<and> sf_pitch s' = sf_pitch s"
  by (simp add: draws_def)

lemma draws_refl [simp]: "draws s s"
  by (simp add: draws_def)

lemma draws_inside: "draws s s' \<Longrightarrow> inside s' = inside s"
  by (simp add: draws_def inside_def fun_eq_iff)

lemma draws_visible: "draws s s' \<Longrightarrow> visible s' = visible s"
  by (simp add: draws_def visible_def inside_def fun_eq_iff)

lemma draws_trans: "draws s s' \<Longrightarrow> draws s' s'' \<Longrightarrow> draws s s''"
  using draws_visible [of s s'] by (simp add: draws_def)

lemma draws_ok: "draws s s' \<Longrightarrow> surface_ok s' = surface_ok s"
  by (simp add: draws_def surface_ok_def)

lemma draws_fold:
  "(\<And>x t. x \<in> set xs \<Longrightarrow> draws s t \<Longrightarrow> draws t (f x t)) \<Longrightarrow> draws s t \<Longrightarrow> draws s (fold f xs t)"
proof (induction xs arbitrary: t)
  case (Cons x xs)
  have "draws s (f x t)" using Cons.prems draws_trans by (metis list.set_intros(1))
  then show ?case using Cons by simp
qed simp

lemma surface_dims: "surface_ok s \<Longrightarrow> sint (sf_width s) = uint (sf_width s)"
  "surface_ok s \<Longrightarrow> sint (sf_height s) = uint (sf_height s)"
  by (simp_all add: surface_ok_def sint_small)

lemma store_px_draws: "inside s x y \<Longrightarrow> draws s (store_px x y c s)"
  by (auto simp: draws_def store_px_def visible_def)

lemma putpixel_draws: "surface_ok s \<Longrightarrow> draws s (gfx_putpixel x y c s)"
  by (simp add: gfx_putpixel_def surface_dims store_px_draws inside_def)

text \<open>A store changes one visible pixel: the rows of the surface do not overlap.\<close>

lemma index_inj:
  assumes "x < p" "x' < (p :: nat)"
  shows "y * p + x = y' * p + x' \<longleftrightarrow> x = x' \<and> y = y'"
proof
  assume e: "y * p + x = y' * p + x'"
  have "(y * p + x) div p = y" "(y' * p + x') div p = y'" using assms by auto
  then have "y = y'" using e by metis
  then show "x = x' \<and> y = y'" using e by simp
qed simp

lemma px_store_px:
  assumes "surface_ok s" "inside s x y" "inside s u v"
  shows "px (store_px x y c s) u v = (if u = x \<and> v = y then c else px s u v)"
proof -
  have w: "nat a < unat (sf_pitch s)" if "inside s a b" for a b
  proof -
    have "nat a < unat (sf_width s)" using that by (simp add: inside_def nat_less_iff)
    then show ?thesis using assms(1) by (simp add: surface_ok_def word_le_nat_alt)
  qed
  have "nat v * unat (sf_pitch s) + nat u = nat y * unat (sf_pitch s) + nat x \<longleftrightarrow> nat u = nat x \<and> nat v = nat y"
    by (rule index_inj [OF w [OF assms(3)] w [OF assms(2)]])
  moreover have "nat u = nat x \<longleftrightarrow> u = x" "nat v = nat y \<longleftrightarrow> v = y"
    using assms(2,3) by (simp_all add: inside_def eq_nat_nat_iff)
  ultimately show ?thesis by (simp add: px_def store_px_def)
qed

text \<open>The pixels of a rectangle, as the nested loops set them.\<close>

lemma row_spec:
  assumes "surface_ok s" and "\<forall>x \<in> set xs. inside s x y"
  shows "draws s (fold (\<lambda>x. store_px x y c) xs s) \<and> (\<forall>u v. inside s u v \<longrightarrow>
    px (fold (\<lambda>x. store_px x y c) xs s) u v = (if u \<in> set xs \<and> v = y then c else px s u v))"
  using assms
proof (induction xs arbitrary: s)
  case (Cons x xs)
  let ?s = "store_px x y c s"
  have d: "draws s ?s" by (rule store_px_draws) (use Cons.prems in simp)
  have i: "inside ?s = inside s" by (rule draws_inside [OF d])
  have ih: "draws ?s (fold (\<lambda>x. store_px x y c) xs ?s) \<and> (\<forall>u v. inside ?s u v \<longrightarrow>
    px (fold (\<lambda>x. store_px x y c) xs ?s) u v = (if u \<in> set xs \<and> v = y then c else px ?s u v))"
    by (rule Cons.IH) (use Cons.prems draws_ok [OF d] i in simp_all)
  have p: "px ?s u v = (if u = x \<and> v = y then c else px s u v)" if "inside s u v" for u v
    by (rule px_store_px) (use Cons.prems that in simp_all)
  show ?case using ih draws_trans [OF d] unfolding i by (simp add: p)
qed simp

lemma rows_spec:
  assumes "surface_ok s" and "\<forall>y \<in> set ys. \<forall>x \<in> {x0..<x1}. inside s x y"
  shows "draws s (fold (fill_row x0 x1 c) ys s) \<and> (\<forall>u v. inside s u v \<longrightarrow>
    px (fold (fill_row x0 x1 c) ys s) u v = (if u \<in> {x0..<x1} \<and> v \<in> set ys then c else px s u v))"
  using assms
proof (induction ys arbitrary: s)
  case (Cons y ys)
  let ?s = "fill_row x0 x1 c y s"
  have r: "draws s ?s \<and> (\<forall>u v. inside s u v \<longrightarrow> px ?s u v = (if u \<in> {x0..<x1} \<and> v = y then c else px s u v))"
    using row_spec [of s "[x0..x1 - 1]" y c] Cons.prems by (simp add: fill_row_def)
  then have d: "draws s ?s" by blast
  have i: "inside ?s = inside s" by (rule draws_inside [OF d])
  have ih: "draws ?s (fold (fill_row x0 x1 c) ys ?s) \<and> (\<forall>u v. inside ?s u v \<longrightarrow>
    px (fold (fill_row x0 x1 c) ys ?s) u v = (if u \<in> {x0..<x1} \<and> v \<in> set ys then c else px ?s u v))"
    by (rule Cons.IH) (use Cons.prems draws_ok [OF d] i in simp_all)
  have "px (fold (fill_row x0 x1 c) ys ?s) u v = (if u \<in> {x0..<x1} \<and> v \<in> set (y # ys) then c else px s u v)"
    if iv: "inside s u v" for u v
  proof -
    have a: "px (fold (fill_row x0 x1 c) ys ?s) u v = (if u \<in> {x0..<x1} \<and> v \<in> set ys then c else px ?s u v)"
      using ih iv unfolding i by blast
    have b: "px ?s u v = (if u \<in> {x0..<x1} \<and> v = y then c else px s u v)" using r iv by blast
    show ?thesis unfolding a b by auto
  qed
  then show ?case using ih draws_trans [OF d] by (simp del: atLeastLessThan_iff)
qed simp

lemma fill_rect_spec:
  assumes ok: "surface_ok s"
  shows "draws s (gfx_fill_rect x y w h c s) \<and> (\<forall>u v. inside s u v \<longrightarrow> px (gfx_fill_rect x y w h c s) u v
      = (if x \<le> u \<and> u < x + w \<and> y \<le> v \<and> v < y + h then c else px s u v))"
proof (cases "w \<le> 0 \<or> h \<le> 0")
  case False
  let ?x0 = "if x < 0 then 0 else x" and ?y0 = "if y < 0 then 0 else y"
  let ?x1 = "if x + w > uint (sf_width s) then uint (sf_width s) else x + w"
  let ?y1 = "if y + h > uint (sf_height s) then uint (sf_height s) else y + h"
  have r: "gfx_fill_rect x y w h c s = fold (fill_row ?x0 ?x1 c) [?y0..?y1 - 1] s"
    using False by (simp only: gfx_fill_rect_def Let_def surface_dims [OF ok] if_False)
  have b: "\<forall>y \<in> set [?y0..?y1 - 1]. \<forall>x \<in> {?x0..<?x1}. inside s x y"
    by (simp add: inside_def)
  have m: "(u \<in> {?x0..<?x1} \<and> v \<in> set [?y0..?y1 - 1]) \<longleftrightarrow> (x \<le> u \<and> u < x + w \<and> y \<le> v \<and> v < y + h)"
    if "inside s u v" for u v using that by (simp add: inside_def; linarith)
  show ?thesis using rows_spec [OF ok b, of c] m unfolding r by (metis (no_types, lifting))
qed (auto simp: gfx_fill_rect_def)

text \<open>Each operation, after others that draw on the same surface.\<close>

named_theorems drawing

lemma draws_after:
  "(\<And>t. surface_ok t \<Longrightarrow> draws t (f t)) \<Longrightarrow> surface_ok s \<Longrightarrow> draws s t \<Longrightarrow> draws s (f t)"
  by (rule draws_trans [of s t]) (simp_all add: draws_ok)

lemma draws_fill_rect [drawing]: "surface_ok s \<Longrightarrow> draws s t \<Longrightarrow> draws s (gfx_fill_rect x y w h c t)"
  by (rule draws_after [of "gfx_fill_rect x y w h c"]) (simp_all add: fill_rect_spec)

lemma draws_rect [drawing]: "surface_ok s \<Longrightarrow> draws s t \<Longrightarrow> draws s (gfx_rect x y w h c t)"
  by (simp add: gfx_rect_def gfx_hline_def gfx_vline_def draws_fill_rect)

lemma draws_char [drawing]: "surface_ok s \<Longrightarrow> draws s t \<Longrightarrow> draws s (gfx_char x y g c t)"
  unfolding gfx_char_def Let_def
  by (rule draws_after [of "fold _ _"]; (intro draws_fold draws_refl)?)
    (auto intro!: draws_fold putpixel_draws simp: draws_ok)

lemma draws_text [drawing]: "surface_ok s \<Longrightarrow> draws s t \<Longrightarrow> draws s (gfx_text x y p c t)"
proof -
  have "surface_ok s \<Longrightarrow> draws s t \<Longrightarrow> draws s (text_loop x cx cy p c t)" for cx cy
    by (induction x cx cy p c t rule: text_loop.induct) (simp_all add: draws_char)
  then show "surface_ok s \<Longrightarrow> draws s t \<Longrightarrow> draws s (gfx_text x y p c t)" by (simp add: gfx_text_def)
qed

lemma draws_cursor [drawing]: "surface_ok s \<Longrightarrow> draws s t \<Longrightarrow> draws s (gfx_cursor x y t)"
  unfolding gfx_cursor_def Let_def
  by (rule draws_after [of "fold _ _"]; (intro draws_fold draws_refl)?)
    (auto intro!: draws_fold putpixel_draws simp: draws_ok)

lemma draws_clear: "surface_ok s \<Longrightarrow> draws s (gfx_clear c s)"
  and clear_fills: "surface_ok s \<Longrightarrow> inside s u v \<Longrightarrow> px (gfx_clear c s) u v = c"
proof -
  assume ok: "surface_ok s"
  have b: "\<forall>y \<in> set [0..uint (sf_height s) - 1]. \<forall>x \<in> {0..<uint (sf_width s)}. inside s x y"
    by (simp add: inside_def)
  note r = rows_spec [OF ok b, of c]
  show "draws s (gfx_clear c s)" using r by (simp add: gfx_clear_def)
  show "px (gfx_clear c s) u v = c" if "inside s u v" using r that by (simp add: gfx_clear_def inside_def)
qed

section \<open>Lines\<close>

text \<open>
  Bresenham's loop, seen from its start: after \<open>a\<close> steps in x and \<open>b\<close> steps in y the error term is
  \<open>dx (b + 1) - dy (a + 1)\<close>, and \<open>2 (b dx - a dy)\<close> stays within the longer side. So each round steps
  along the longer side, and the loop meets its end.
\<close>

abbreviation plot :: "u32 \<Rightarrow> (int \<times> int) list \<Rightarrow> surface \<Rightarrow> surface" where
  "plot c pts s \<equiv> fold (\<lambda>(x, y). gfx_putpixel x y c) pts s"

definition adjacent :: "int \<times> int \<Rightarrow> int \<times> int \<Rightarrow> bool" where
  "adjacent p q \<longleftrightarrow> p \<noteq> q \<and> \<bar>fst q - fst p\<bar> \<le> 1 \<and> \<bar>snd q - snd p\<bar> \<le> 1"

definition digital_line :: "int \<Rightarrow> int \<Rightarrow> int \<Rightarrow> int \<Rightarrow> (int \<times> int) list \<Rightarrow> bool" where
  "digital_line x0 y0 x1 y1 pts \<longleftrightarrow> pts \<noteq> [] \<and> last pts = (x1, y1)
     \<and> (\<forall>i. Suc i < length pts \<longrightarrow> adjacent (pts ! i) (pts ! Suc i))
     \<and> (\<forall>p \<in> set pts. 2 * \<bar>(snd p - y0) * (x1 - x0) - (fst p - x0) * (y1 - y0)\<bar> \<le> max \<bar>x1 - x0\<bar> \<bar>y1 - y0\<bar>)"

lemma digital_line_Cons:
  assumes "digital_line x0 y0 x1 y1 pts" "adjacent p (hd pts)"
    "2 * \<bar>(snd p - y0) * (x1 - x0) - (fst p - x0) * (y1 - y0)\<bar> \<le> max \<bar>x1 - x0\<bar> \<bar>y1 - y0\<bar>"
  shows "digital_line x0 y0 x1 y1 (p # pts)"
proof -
  have "adjacent ((p # pts) ! i) ((p # pts) ! Suc i)" if "Suc i < length (p # pts)" for i
    using assms(1,2) that by (cases i) (auto simp: digital_line_def hd_conv_nth)
  then show ?thesis using assms by (simp add: digital_line_def)
qed

lemma sgn_cross:
  assumes "\<bar>sx\<bar> = (1 :: int)" "\<bar>sy\<bar> = 1"
  shows "\<bar>(sy * b) * (sx * dx) - (sx * a) * (sy * dy)\<bar> = \<bar>b * dx - a * dy\<bar>"
proof -
  have "(sy * b) * (sx * dx) - (sx * a) * (sy * dy) = (sx * sy) * (b * dx - a * dy)" by (simp add: algebra_simps)
  then show ?thesis using assms by (simp only: abs_mult) simp
qed

text \<open>One round, in terms of the number of steps made.\<close>

lemma line_loop_step:
  assumes s: "\<bar>sx\<bar> = (1 :: int)" "\<bar>sy\<bar> = 1" and ab: "\<not> (a = dx \<and> b = dy)"
    and ok: "\<And>a' b'. a' = (if 2 * (b * dx - a * dy) + 2 * dx - dy > 0 then a + 1 else a) \<Longrightarrow>
      b' = (if 2 * (b * dx - a * dy) + dx - 2 * dy < 0 then b + 1 else b) \<Longrightarrow>
      list_all int_ok [2 * (dx * (b + 1) - dy * (a + 1)), dx * (b + 1) - dy * (a' + 1), x0 + sx * a',
        dx * (b' + 1) - dy * (a' + 1), y0 + sy * b']"
  shows "line_loop dx dy sx sy (x0 + sx * dx) (y0 + sy * dy) c (dx * (b + 1) - dy * (a + 1)) (x0 + sx * a) (y0 + sy * b) t
    = (let a' = (if 2 * (b * dx - a * dy) + 2 * dx - dy > 0 then a + 1 else a);
           b' = (if 2 * (b * dx - a * dy) + dx - 2 * dy < 0 then b + 1 else b)
       in line_loop dx dy sx sy (x0 + sx * dx) (y0 + sy * dy) c (dx * (b' + 1) - dy * (a' + 1)) (x0 + sx * a') (y0 + sy * b')
            (gfx_putpixel (x0 + sx * a) (y0 + sy * b) c t))"
proof -
  let ?a = "if 2 * (b * dx - a * dy) + 2 * dx - dy > 0 then a + 1 else a"
  let ?b = "if 2 * (b * dx - a * dy) + dx - 2 * dy < 0 then b + 1 else b"
  let ?err = "dx * (b + 1) - dy * (a + 1)"
  have "x0 + sx * a = x0 + sx * dx \<and> y0 + sy * b = y0 + sy * dy \<longleftrightarrow> a = dx \<and> b = dy" using s by auto
  then have ne: "\<not> (x0 + sx * a = x0 + sx * dx \<and> y0 + sy * b = y0 + sy * dy)" using ab by blast
  have X: "(if 2 * ?err > - dy then (?err - dy, x0 + sx * a + sx) else (?err, x0 + sx * a))
      = (dx * (b + 1) - dy * (?a + 1), x0 + sx * ?a)" by (auto simp: algebra_simps)
  have Y: "(if 2 * ?err < dx then (e + dx, y0 + sy * b + sy) else (e, y0 + sy * b))
      = (e + dx * (?b - b), y0 + sy * ?b)" for e by (auto simp: algebra_simps)
  have Z: "dx * (b + 1) - dy * (?a + 1) + dx * (?b - b) = dx * (?b + 1) - dy * (?a + 1)" by (simp add: algebra_simps)
  show ?thesis
    by (subst line_loop.simps) (simp only: Let_def ne X Y Z ok [OF refl refl] prod.case if_False if_True)
qed

text \<open>The sums stay in the range of \<^verbatim>\<open>int\<close> when the sides are a third of it.\<close>

lemma int_ok_between:
  assumes "int_ok x" "int_ok (x + s * d)" "\<bar>s\<bar> = 1" "0 \<le> k" "k \<le> d"
  shows "int_ok (x + s * k)"
proof -
  from assms(3) consider "s = 1" | "s = - 1" by linarith
  then show ?thesis by cases (use assms in \<open>simp_all add: int_ok_def\<close>)
qed

lemma line_round_ok:
  fixes dx dy a b sx sy :: int
  assumes s: "\<bar>sx\<bar> = 1" "\<bar>sy\<bar> = 1" and d: "0 \<le> dx" "0 \<le> dy" "dx \<le> 715827882" "dy \<le> 715827882"
    and ends: "int_ok x0" "int_ok y0" "int_ok (x0 + sx * dx)" "int_ok (y0 + sy * dy)"
    and inv: "if dy \<le> dx then - dx \<le> 2 * (b * dx - a * dy) \<and> 2 * (b * dx - a * dy) < dx
      else - dy < 2 * (b * dx - a * dy) \<and> 2 * (b * dx - a * dy) \<le> dy"
    and a: "0 \<le> a" "a' = a \<or> a' = a + 1" "a' \<le> dx" and b: "0 \<le> b" "b' = b \<or> b' = b + 1" "b' \<le> dy"
  shows "list_all int_ok [2 * (dx * (b + 1) - dy * (a + 1)), dx * (b + 1) - dy * (a' + 1), x0 + sx * a',
        dx * (b' + 1) - dy * (a' + 1), y0 + sy * b']"
proof -
  define E where "E = b * dx - a * dy"
  have e: "dx * (b + 1) - dy * (a + 1) = E + dx - dy" "dx * (b + 1) - dy * (a' + 1) = E + dx - dy - dy * (a' - a)"
    "dx * (b' + 1) - dy * (a' + 1) = E + dx - dy - dy * (a' - a) + dx * (b' - b)"
    by (simp_all add: E_def algebra_simps)
  have "dy * (a' - a) = 0 \<or> dy * (a' - a) = dy" "dx * (b' - b) = 0 \<or> dx * (b' - b) = dx" using a(2) b(2) by auto
  moreover have "- 3 * 715827882 \<le> 2 * (E + dx - dy)" "2 * (E + dx - dy) \<le> 3 * 715827882"
    "- 715827882 \<le> 2 * E" "2 * E \<le> 715827882"
    using inv d by (cases "dy \<le> dx"; simp add: E_def [symmetric])+
  ultimately have "int_ok (2 * (E + dx - dy))" "int_ok (E + dx - dy - dy * (a' - a))"
    "int_ok (E + dx - dy - dy * (a' - a) + dx * (b' - b))" using d by (auto simp: int_ok_def)
  moreover have "int_ok (x0 + sx * a')" "int_ok (y0 + sy * b')"
    by (rule int_ok_between [OF ends(1,3) s(1)], use a in linarith, use a in linarith)
      (rule int_ok_between [OF ends(2,4) s(2)], use b in linarith, use b in linarith)
  ultimately show ?thesis unfolding e by simp
qed

lemma line_bounds:
  fixes dx dy a b :: int
  assumes d: "0 \<le> dx" "0 \<le> dy"
    and inv: "if dy \<le> dx then 0 < dx \<and> - dx \<le> 2 * (b * dx - a * dy) \<and> 2 * (b * dx - a * dy) < dx
      else - dy < 2 * (b * dx - a * dy) \<and> 2 * (b * dx - a * dy) \<le> dy"
    and l: "if dy \<le> dx then a \<le> dx else b \<le> dy"
  shows "a \<le> dx \<and> b \<le> dy"
proof (cases "dy \<le> dx")
  case True
  have "\<not> dy + 1 \<le> b"
  proof
    assume "dy + 1 \<le> b"
    then have "(dy + 1) * dx \<le> b * dx" by (rule mult_right_mono [OF _ d(1)])
    moreover have "a * dy \<le> dx * dy" by (rule mult_right_mono [OF _ d(2)]) (use l True in simp)
    ultimately have "dx \<le> b * dx - a * dy" by (simp add: algebra_simps)
    then show False using inv True by simp
  qed
  then show ?thesis using l True by simp
next
  case False
  have "\<not> dx + 1 \<le> a"
  proof
    assume "dx + 1 \<le> a"
    then have "(dx + 1) * dy \<le> a * dy" by (rule mult_right_mono [OF _ d(2)])
    moreover have "b * dx \<le> dy * dx" by (rule mult_right_mono [OF _ d(1)]) (use l False in simp)
    ultimately have "b * dx - a * dy \<le> - dy" by (simp add: algebra_simps)
    then show False using inv False by simp
  qed
  then show ?thesis using l False by simp
qed

lemma line_loop_end:
  "line_loop dx dy sx sy x y c err x y t = Some (plot c [(x, y)] t)"
  by (subst line_loop.simps) (simp add: Let_def)

text \<open>The invariant along the longer side, in the two cases.\<close>

lemma line_along_x:
  fixes dx dy a b :: int
  assumes "0 \<le> dy" "dy \<le> dx" "0 < dx" and "- dx \<le> 2 * (b * dx - a * dy)" "2 * (b * dx - a * dy) < dx"
  shows "2 * (b * dx - a * dy) + 2 * dx - dy > 0"
    and "b' = (if 2 * (b * dx - a * dy) + dx - 2 * dy < 0 then b + 1 else b)
      \<Longrightarrow> - dx \<le> 2 * (b' * dx - (a + 1) * dy) \<and> 2 * (b' * dx - (a + 1) * dy) < dx"
    and "a = dx \<Longrightarrow> b = dy"
proof -
  show "2 * (b * dx - a * dy) + 2 * dx - dy > 0"
  proof (cases "dy = dx")
    case True
    have "2 * (b * dx - a * dy) = dx * (2 * (b - a))" by (simp add: True algebra_simps)
    moreover have "\<not> dx * (2 * (b - a)) = - dx"
    proof
      assume "dx * (2 * (b - a)) = - dx"
      then have "dx * (2 * (b - a) + 1) = 0" by (simp add: algebra_simps)
      then have "2 * (b - a) + 1 = 0" using assms(3) by simp
      then show False by presburger
    qed
    ultimately have "2 * (b * dx - a * dy) \<noteq> - dx" by simp
    then show ?thesis using assms True by linarith
  qed (use assms in linarith)
  show "- dx \<le> 2 * (b' * dx - (a + 1) * dy) \<and> 2 * (b' * dx - (a + 1) * dy) < dx"
    if "b' = (if 2 * (b * dx - a * dy) + dx - 2 * dy < 0 then b + 1 else b)"
    using assms that by (auto simp: algebra_simps split: if_splits)
  show "b = dy" if "a = dx"
  proof -
    have "2 * (b * dx - a * dy) = dx * (2 * (b - dy))" using that by (simp add: algebra_simps)
    then have "dx * - 1 \<le> dx * (2 * (b - dy))" "dx * (2 * (b - dy)) < dx * 1" using assms(4,5) by simp_all
    then have "- 1 \<le> 2 * (b - dy)" "2 * (b - dy) < 1" using assms(3) by (simp_all only: mult_le_cancel_left_pos mult_less_cancel_left_pos)
    then show ?thesis by presburger
  qed
qed

lemma line_along_y:
  fixes dx dy a b :: int
  assumes "0 \<le> dx" "dx < dy" and "- dy < 2 * (b * dx - a * dy)" "2 * (b * dx - a * dy) \<le> dy"
  shows "2 * (b * dx - a * dy) + dx - 2 * dy < 0"
    and "a' = (if 2 * (b * dx - a * dy) + 2 * dx - dy > 0 then a + 1 else a)
      \<Longrightarrow> - dy < 2 * ((b + 1) * dx - a' * dy) \<and> 2 * ((b + 1) * dx - a' * dy) \<le> dy"
    and "b = dy \<Longrightarrow> a = dx"
proof -
  show "2 * (b * dx - a * dy) + dx - 2 * dy < 0" using assms by linarith
  show "- dy < 2 * ((b + 1) * dx - a' * dy) \<and> 2 * ((b + 1) * dx - a' * dy) \<le> dy"
    if "a' = (if 2 * (b * dx - a * dy) + 2 * dx - dy > 0 then a + 1 else a)"
    using assms that by (auto simp: algebra_simps split: if_splits)
  show "a = dx" if "b = dy"
  proof -
    have "2 * (b * dx - a * dy) = dy * (2 * (dx - a))" using that by (simp add: algebra_simps)
    then have "dy * - 1 < dy * (2 * (dx - a))" "dy * (2 * (dx - a)) \<le> dy * 1" using assms(3,4) by simp_all
    then have "- 1 < 2 * (dx - a)" "2 * (dx - a) \<le> 1" using assms(1,2) by (simp_all only: mult_le_cancel_left_pos mult_less_cancel_left_pos)
    then show ?thesis by presburger
  qed
qed

lemma adjacent_step:
  assumes "\<bar>sx\<bar> = (1 :: int)" "\<bar>sy\<bar> = 1" "a' = a + 1 \<or> b' = b + 1" "a' = a \<or> a' = a + 1" "b' = b \<or> b' = b + 1"
  shows "adjacent (x0 + sx * a, y0 + sy * b) (x0 + sx * a', y0 + sy * b')"
  using assms by (auto simp: adjacent_def algebra_simps)

lemma line_loop_draws_line:
  fixes dx dy a b sx sy :: int
  assumes s: "\<bar>sx\<bar> = 1" "\<bar>sy\<bar> = 1" and d: "0 \<le> dx" "0 \<le> dy" "dx \<le> 715827882" "dy \<le> 715827882"
    and ends: "int_ok x0" "int_ok y0" "int_ok (x0 + sx * dx)" "int_ok (y0 + sy * dy)"
    and inv: "if dy \<le> dx then 0 < dx \<and> - dx \<le> 2 * (b * dx - a * dy) \<and> 2 * (b * dx - a * dy) < dx
      else - dy < 2 * (b * dx - a * dy) \<and> 2 * (b * dx - a * dy) \<le> dy"
    and ab: "0 \<le> a" "0 \<le> b" and n: "int n = (if dy \<le> dx then dx - a else dy - b)"
  shows "\<exists>pts. line_loop dx dy sx sy (x0 + sx * dx) (y0 + sy * dy) c (dx * (b + 1) - dy * (a + 1)) (x0 + sx * a) (y0 + sy * b) t
      = Some (plot c pts t) \<and> digital_line x0 y0 (x0 + sx * dx) (y0 + sy * dy) pts
      \<and> hd pts = (x0 + sx * a, y0 + sy * b) \<and> length pts = Suc n"
  using inv ab n
proof (induction n arbitrary: a b t)
  case 0
  have e: "a = dx \<and> b = dy"
  proof (cases "dy \<le> dx")
    case True
    then have i: "0 < dx" "- dx \<le> 2 * (b * dx - a * dy)" "2 * (b * dx - a * dy) < dx" "a = dx" using 0 by simp_all
    show ?thesis using line_along_x(3) [OF d(2) True i] i(4) by blast
  next
    case False
    then have i: "dx < dy" "- dy < 2 * (b * dx - a * dy)" "2 * (b * dx - a * dy) \<le> dy" "b = dy" using 0 by simp_all
    show ?thesis using line_along_y(3) [OF d(1) i] i(4) by blast
  qed
  show ?case
    by (rule exI [of _ "[(x0 + sx * dx, y0 + sy * dy)]"]) (use e in \<open>simp add: line_loop_end digital_line_def\<close>)
next
  case (Suc n)
  let ?a = "if 2 * (b * dx - a * dy) + 2 * dx - dy > 0 then a + 1 else a"
  let ?b = "if 2 * (b * dx - a * dy) + dx - 2 * dy < 0 then b + 1 else b"
  let ?t = "gfx_putpixel (x0 + sx * a) (y0 + sy * b) c t"
  have ne: "\<not> (a = dx \<and> b = dy)" using Suc.prems(4) by (auto split: if_splits)
  have inv': "if dy \<le> dx then 0 < dx \<and> - dx \<le> 2 * (?b * dx - ?a * dy) \<and> 2 * (?b * dx - ?a * dy) < dx
      else - dy < 2 * (?b * dx - ?a * dy) \<and> 2 * (?b * dx - ?a * dy) \<le> dy"
    and n': "int n = (if dy \<le> dx then dx - ?a else dy - ?b)"
  proof -
    show "if dy \<le> dx then 0 < dx \<and> - dx \<le> 2 * (?b * dx - ?a * dy) \<and> 2 * (?b * dx - ?a * dy) < dx
      else - dy < 2 * (?b * dx - ?a * dy) \<and> 2 * (?b * dx - ?a * dy) \<le> dy"
    proof (cases "dy \<le> dx")
      case True
      then have i: "0 < dx" "- dx \<le> 2 * (b * dx - a * dy)" "2 * (b * dx - a * dy) < dx" using Suc.prems(1) by simp_all
      have A: "?a = a + 1" by (rule if_P) (rule line_along_x(1) [OF d(2) True i])
      show ?thesis unfolding A using line_along_x(2) [OF d(2) True i refl] True i(1) by (simp only: if_True simp_thms)
    next
      case False
      then have i: "dx < dy" "- dy < 2 * (b * dx - a * dy)" "2 * (b * dx - a * dy) \<le> dy" using Suc.prems(1) by simp_all
      have B: "?b = b + 1" by (rule if_P) (rule line_along_y(1) [OF d(1) i])
      show ?thesis unfolding B using line_along_y(2) [OF d(1) i refl] False by (simp only: if_False simp_thms)
    qed
    show "int n = (if dy \<le> dx then dx - ?a else dy - ?b)"
      using Suc.prems(1,4) d line_along_x(1) [of dy dx b a] line_along_y(1) [of dx dy b a]
      by (cases "dy \<le> dx") simp_all
  qed
  have nn: "0 \<le> ?a" "0 \<le> ?b" using Suc.prems(2,3) by simp_all
  have l: "?a \<le> dx \<and> ?b \<le> dy" by (rule line_bounds [OF d(1,2) inv']) (use n' in \<open>simp split: if_splits\<close>)
  have i: "if dy \<le> dx then - dx \<le> 2 * (b * dx - a * dy) \<and> 2 * (b * dx - a * dy) < dx
      else - dy < 2 * (b * dx - a * dy) \<and> 2 * (b * dx - a * dy) \<le> dy" using Suc.prems(1) by (simp split: if_splits)
  have ok: "list_all int_ok [2 * (dx * (b + 1) - dy * (a + 1)), dx * (b + 1) - dy * (a' + 1), x0 + sx * a',
        dx * (b' + 1) - dy * (a' + 1), y0 + sy * b']" if "a' = ?a" "b' = ?b" for a' b'
    unfolding that by (rule line_round_ok [OF s d ends i Suc.prems(2) _ _ Suc.prems(3)]) (use l in simp_all)
  obtain pts where p: "line_loop dx dy sx sy (x0 + sx * dx) (y0 + sy * dy) c (dx * (?b + 1) - dy * (?a + 1)) (x0 + sx * ?a) (y0 + sy * ?b) ?t
      = Some (plot c pts ?t)" "digital_line x0 y0 (x0 + sx * dx) (y0 + sy * dy) pts"
      "hd pts = (x0 + sx * ?a, y0 + sy * ?b)" "length pts = Suc n"
    using Suc.IH [OF inv' nn n', of ?t] by blast
  have adj: "adjacent (x0 + sx * a, y0 + sy * b) (hd pts)"
  proof -
    have "?a = a + 1 \<or> ?b = b + 1"
      using Suc.prems(1) d line_along_x(1) [of dy dx b a] line_along_y(1) [of dx dy b a] by (cases "dy \<le> dx") auto
    then show ?thesis unfolding p(3) by (intro adjacent_step [OF s]) simp_all
  qed
  have near: "2 * \<bar>(snd (x0 + sx * a, y0 + sy * b) - y0) * (x0 + sx * dx - x0) - (fst (x0 + sx * a, y0 + sy * b) - x0) * (y0 + sy * dy - y0)\<bar>
      \<le> max \<bar>x0 + sx * dx - x0\<bar> \<bar>y0 + sy * dy - y0\<bar>"
  proof -
    have m: "max \<bar>sx * dx\<bar> \<bar>sy * dy\<bar> = max dx dy" using s d by (simp add: abs_mult)
    have "2 * \<bar>b * dx - a * dy\<bar> \<le> max dx dy"
      using Suc.prems(1) by (cases "dy \<le> dx") (simp_all only: if_True if_False, linarith+)
    then show ?thesis using sgn_cross [OF s, of b dx a dy] m by simp
  qed
  show ?case
  proof (intro exI conjI)
    show "line_loop dx dy sx sy (x0 + sx * dx) (y0 + sy * dy) c (dx * (b + 1) - dy * (a + 1)) (x0 + sx * a) (y0 + sy * b) t
      = Some (plot c ((x0 + sx * a, y0 + sy * b) # pts) t)"
      using p(1) by (subst line_loop_step [OF s ne ok]) (simp_all add: Let_def)
    show "digital_line x0 y0 (x0 + sx * dx) (y0 + sy * dy) ((x0 + sx * a, y0 + sy * b) # pts)"
      by (rule digital_line_Cons [OF p(2) adj near])
  qed (use p(4) in simp_all)
qed

text \<open>
  C35. \<open>gfx_line\<close>, whose loop has no bound of its own, returns for all end points whose distances in x and
  in y are at most a third of the range of \<^verbatim>\<open>int\<close>, and none of its sums overflows: it plots a chain of
  neighbouring pixels from one end to the other, as many as the longer side has, and none of them is further
  than half a pixel from the line.
\<close>

theorem gfx_line_draws_line:
  assumes "int_ok x0" "int_ok y0" "int_ok x1" "int_ok y1" and "\<bar>x1 - x0\<bar> \<le> 715827882" "\<bar>y1 - y0\<bar> \<le> 715827882"
  shows "\<exists>pts. gfx_line x0 y0 x1 y1 c s = Some (plot c pts s) \<and> digital_line x0 y0 x1 y1 pts
     \<and> hd pts = (x0, y0) \<and> int (length pts) = max \<bar>x1 - x0\<bar> \<bar>y1 - y0\<bar> + 1"
proof -
  define dx where "dx = \<bar>x1 - x0\<bar>"
  define dy where "dy = \<bar>y1 - y0\<bar>"
  define sx :: int where "sx = (if x0 < x1 then 1 else - 1)"
  define sy :: int where "sy = (if y0 < y1 then 1 else - 1)"
  have x1: "x1 = x0 + sx * dx" and y1: "y1 = y0 + sy * dy" by (simp_all add: dx_def dy_def sx_def sy_def)
  have r: "list_all int_ok [x1 - x0, dx, y1 - y0, dy, dx - dy]"
    using assms(5,6) by (simp add: dx_def dy_def int_ok_def) linarith
  have l: "gfx_line x0 y0 x1 y1 c s = line_loop dx dy sx sy x1 y1 c (dx - dy) x0 y0 s"
    using r by (simp add: gfx_line_def Let_def dx_def dy_def sx_def sy_def abs_if)
  show ?thesis
  proof (cases "dx = 0 \<and> dy = 0")
    case True
    then have "x1 = x0" "y1 = y0" by (simp_all add: dx_def dy_def)
    then show ?thesis unfolding l by (intro exI [of _ "[(x0, y0)]"]) (simp add: line_loop_end digital_line_def)
  next
    case False
    have d: "0 \<le> dx" "0 \<le> dy" "dx \<le> 715827882" "dy \<le> 715827882" and s: "\<bar>sx\<bar> = 1" "\<bar>sy\<bar> = 1"
      using assms(5,6) by (simp_all add: dx_def dy_def sx_def sy_def)
    have i: "if dy \<le> dx then 0 < dx \<and> - dx \<le> 2 * (0 * dx - 0 * dy) \<and> 2 * (0 * dx - 0 * dy) < dx
      else - dy < 2 * (0 * dx - 0 * dy) \<and> 2 * (0 * dx - 0 * dy) \<le> dy" using False d by auto
    have n: "int (nat (max dx dy)) = (if dy \<le> dx then dx - 0 else dy - 0)" using d by auto
    obtain pts where "line_loop dx dy sx sy (x0 + sx * dx) (y0 + sy * dy) c (dx * (0 + 1) - dy * (0 + 1)) (x0 + sx * 0) (y0 + sy * 0) s
      = Some (plot c pts s)" "digital_line x0 y0 (x0 + sx * dx) (y0 + sy * dy) pts"
      "hd pts = (x0 + sx * 0, y0 + sy * 0)" "length pts = Suc (nat (max dx dy))"
      using line_loop_draws_line [OF s d assms(1,2,3,4) [unfolded x1 y1] i order.refl order.refl n, of c s] by blast
    moreover have "int (Suc (nat (max dx dy))) = max dx dy + 1" using d by (simp add: max_def)
    ultimately have "line_loop dx dy sx sy x1 y1 c (dx - dy) x0 y0 s = Some (plot c pts s)" "digital_line x0 y0 x1 y1 pts"
      "hd pts = (x0, y0)" "int (length pts) = max dx dy + 1" by (simp_all add: x1 [symmetric] y1 [symmetric])
    then show ?thesis unfolding l dx_def dy_def by blast
  qed
qed

theorem gfx_line_draws_line_witness:
  "\<forall>c s. \<exists>pts. gfx_line 1023 (- 5) (- 40) 767 c s = Some (plot c pts s) \<and> digital_line 1023 (- 5) (- 40) 767 pts
     \<and> hd pts = (1023, - 5) \<and> length pts = 1064"
proof (intro allI)
  fix c s
  have "int n = 1064 \<longleftrightarrow> n = 1064" for n by linarith
  then show "\<exists>pts. gfx_line 1023 (- 5) (- 40) 767 c s = Some (plot c pts s) \<and> digital_line 1023 (- 5) (- 40) 767 pts
     \<and> hd pts = (1023, - 5) \<and> length pts = 1064"
    using gfx_line_draws_line [of 1023 "- 5" "- 40" 767 c s] by (simp add: int_ok_def)
qed

text \<open>Beyond that range the doubled error term overflows.\<close>

lemma gfx_line_overflows: "gfx_line 0 0 (2 ^ 31 - 1) 0 c s = None"
  by (simp add: gfx_line_def line_loop.simps Let_def int_ok_def)

end
