(* ===== verification/Window.thy ===== *)
theory Window
  imports Gfx Term
begin

text \<open>
  The desktop: \<^verbatim>\<open>term_render\<close> of kernel/term.cpp and the window manager (kernel/window.cpp). The window
  array with its count is a list, bottom window first. The lemmas show that composing a frame draws
  nothing outside the surface, that what a click picks is what the frame shows there, and how a press,
  a drag and a release change the stack.
\<close>

section \<open>Drawing the terminal\<close>

definition TERM_FG :: u32 where "TERM_FG = RGB 210 220 210"
definition TERM_BG :: u32 where "TERM_BG = RGB 15 15 25"

definition term_render :: "trm \<Rightarrow> int \<Rightarrow> int \<Rightarrow> surface \<Rightarrow> surface" where
  "term_render t x y s =
     (let s1 = gfx_fill_rect x y (TERM_COLS * int FONT_W) (TERM_ROWS * int FONT_H) TERM_BG s;
          s2 = fold (\<lambda>r. fold (\<lambda>c s. let ch = g_grid t r c
                 in if ch \<noteq> 32 then gfx_char (x + c * int FONT_W) (y + r * int FONT_H) ch TERM_FG s else s)
               [0..TERM_COLS - 1]) [0..TERM_ROWS - 1] s1
      in gfx_fill_rect (x + g_col t * int FONT_W) (y + g_row t * int FONT_H + int FONT_H - 2) (int FONT_W) 2 TERM_FG s2)"

section \<open>Windows\<close>

abbreviation WIN_MAX :: nat where "WIN_MAX \<equiv> 16"
abbreviation TITLEBAR_H :: int where "TITLEBAR_H \<equiv> 24"

definition DESKTOP_COLOR :: u32 where "DESKTOP_COLOR = RGB 30 30 60"
definition TITLE_INACTIVE :: u32 where "TITLE_INACTIVE = RGB 60 90 160"
definition TITLE_ACTIVE :: u32 where "TITLE_ACTIVE = RGB 80 130 220"
definition BORDER_COLOR :: u32 where "BORDER_COLOR = RGB 200 200 210"

record window =
  win_x :: int
  win_y :: int
  win_w :: int
  win_h :: int
  content :: u32
  title :: "cstr option"
  is_term :: bool

record wm =
  g_win :: "window list"
  g_drag :: int
  g_off_x :: int
  g_off_y :: int
  g_last_left :: bool

definition wm_boot :: wm where
  "wm_boot = \<lparr>g_win = [], g_drag = - 1, g_off_x = 0, g_off_y = 0, g_last_left = False\<rparr>"

definition window_create :: "int \<Rightarrow> int \<Rightarrow> int \<Rightarrow> int \<Rightarrow> u32 \<Rightarrow> cstr option \<Rightarrow> bool \<Rightarrow> wm \<Rightarrow> wm" where
  "window_create x y w h content_color ttl trm m =
     (if length (g_win m) \<ge> WIN_MAX then m
      else m\<lparr>g_win := g_win m @ [\<lparr>win_x = x, win_y = y, win_w = w, win_h = h, content = content_color,
                title = ttl, is_term = trm\<rparr>]\<rparr>)"

definition draw_title :: "window \<Rightarrow> surface \<Rightarrow> surface" where
  "draw_title w s = (case title w of None \<Rightarrow> s
     | Some p \<Rightarrow> let tx = win_x w + 6; ty = win_y w + (TITLEBAR_H - int FONT_H) div 2
                 in gfx_text tx ty p (RGB 255 255 255) (gfx_text (tx + 1) (ty + 1) p (RGB 20 30 60) s))"

definition draw_window :: "trm \<Rightarrow> bool \<Rightarrow> window \<Rightarrow> surface \<Rightarrow> surface" where
  "draw_window t active w s =
     (let s1 = gfx_fill_rect (win_x w) (win_y w) (win_w w) TITLEBAR_H (if active then TITLE_ACTIVE else TITLE_INACTIVE) s;
          s2 = draw_title w s1;
          s3 = gfx_fill_rect (win_x w) (win_y w + TITLEBAR_H) (win_w w) (win_h w - TITLEBAR_H) (content w) s2;
          s4 = (if is_term w then term_render t (win_x w + 4) (win_y w + TITLEBAR_H + 4) s3 else s3)
      in gfx_rect (win_x w) (win_y w) (win_w w) (win_h w) BORDER_COLOR s4)"

definition window_compose :: "trm \<Rightarrow> wm \<Rightarrow> surface \<Rightarrow> surface" where
  "window_compose t m s =
     fold (\<lambda>i. draw_window t (i = length (g_win m) - 1) (g_win m ! i)) [0..<length (g_win m)] (gfx_clear DESKTOP_COLOR s)"

definition window_hit :: "int \<Rightarrow> int \<Rightarrow> window \<Rightarrow> bool" where
  "window_hit mx my w \<longleftrightarrow> mx \<ge> win_x w \<and> mx < win_x w + win_w w \<and> my \<ge> win_y w \<and> my < win_y w + win_h w"

fun topmost_below :: "nat \<Rightarrow> int \<Rightarrow> int \<Rightarrow> window list \<Rightarrow> int" where
  "topmost_below 0 mx my ws = - 1"
| "topmost_below (Suc i) mx my ws = (if window_hit mx my (ws ! i) then int i else topmost_below i mx my ws)"

definition topmost_at :: "int \<Rightarrow> int \<Rightarrow> wm \<Rightarrow> int" where
  "topmost_at mx my m = topmost_below (length (g_win m)) mx my (g_win m)"

text \<open>The function \<^verbatim>\<open>raise\<close>.\<close>

definition raise_window :: "int \<Rightarrow> wm \<Rightarrow> wm" where
  "raise_window i m =
     (if i < 0 \<or> i \<ge> int (length (g_win m)) - 1 then m
      else let tmp = g_win m ! nat i;
               ws = fold (\<lambda>k ws. ws[k := ws ! (k + 1)]) [nat i..<length (g_win m) - 1] (g_win m)
           in m\<lparr>g_win := ws[length ws - 1 := tmp]\<rparr>)"

definition press :: "int \<Rightarrow> int \<Rightarrow> wm \<Rightarrow> wm" where
  "press mx my m =
     (let hit = topmost_at mx my m
      in if hit \<ge> 0 then
           let m1 = raise_window hit m; w = g_win m1 ! (length (g_win m1) - 1)
           in if my \<ge> win_y w \<and> my < win_y w + TITLEBAR_H
              then m1\<lparr>g_drag := int (length (g_win m1)) - 1, g_off_x := mx - win_x w, g_off_y := my - win_y w\<rparr>
              else m1
         else m)"

definition drag_window :: "int \<Rightarrow> int \<Rightarrow> wm \<Rightarrow> wm" where
  "drag_window mx my m =
     (let d = nat (g_drag m)
      in m\<lparr>g_win := (g_win m)[d := (g_win m ! d)\<lparr>win_x := mx - g_off_x m, win_y := my - g_off_y m\<rparr>]\<rparr>)"

definition window_handle :: "int \<Rightarrow> int \<Rightarrow> bool \<Rightarrow> wm \<Rightarrow> wm" where
  "window_handle mx my left m =
     (let m1 = (if left \<and> \<not> g_last_left m then press mx my m
                else if \<not> left \<and> g_last_left m then m\<lparr>g_drag := - 1\<rparr> else m);
          m2 = (if g_drag m1 \<ge> 0 \<and> left then drag_window mx my m1 else m1)
      in m2\<lparr>g_last_left := left\<rparr>)"

section \<open>What is painted where\<close>

text \<open>A drawing that stays inside the surface and inside a region of it.\<close>

definition paints :: "surface \<Rightarrow> (int \<Rightarrow> int \<Rightarrow> bool) \<Rightarrow> surface \<Rightarrow> bool" where
  "paints s R t \<longleftrightarrow> draws s t \<and> (\<forall>u v. inside s u v \<longrightarrow> \<not> R u v \<longrightarrow> px t u v = px s u v)"

named_theorems painting

lemma paints_refl [simp]: "paints s R s"
  by (simp add: paints_def)

lemma paints_trans: "paints s R t \<Longrightarrow> paints t R t' \<Longrightarrow> paints s R t'"
  unfolding paints_def using draws_trans draws_inside by metis

lemma paints_ok: "paints s R t \<Longrightarrow> surface_ok t = surface_ok s"
  by (simp add: paints_def draws_ok)

lemma paints_fold:
  "(\<And>x t. x \<in> set xs \<Longrightarrow> paints s R t \<Longrightarrow> paints s R (f x t)) \<Longrightarrow> paints s R t \<Longrightarrow> paints s R (fold f xs t)"
  by (induction xs arbitrary: t) simp_all

lemma paints_fill_rect [painting]:
  assumes "surface_ok s" "paints s R t" "\<And>u v. x \<le> u \<Longrightarrow> u < x + w \<Longrightarrow> y \<le> v \<Longrightarrow> v < y + h \<Longrightarrow> R u v"
  shows "paints s R (gfx_fill_rect x y w h c t)"
proof (rule paints_trans [OF assms(2)])
  have "surface_ok t" using paints_ok assms(1,2) by blast
  from fill_rect_spec [OF this, of x y w h c] assms(3) show "paints t R (gfx_fill_rect x y w h c t)"
    by (auto simp: paints_def)
qed

lemma paints_putpixel:
  assumes "surface_ok s" "paints s R t" "R x y"
  shows "paints s R (gfx_putpixel x y c t)"
proof (rule paints_trans [OF assms(2)])
  have ok: "surface_ok t" using paints_ok assms(1,2) by blast
  have "gfx_putpixel x y c t = t \<or> inside t x y \<and> gfx_putpixel x y c t = store_px x y c t"
    by (auto simp: gfx_putpixel_def surface_dims [OF ok] inside_def)
  then show "paints t R (gfx_putpixel x y c t)"
    using putpixel_draws [OF ok] px_store_px [OF ok] assms(3) by (auto simp: paints_def)
qed

lemma paints_char [painting]:
  assumes "surface_ok s" "paints s R t" "\<And>u v. x \<le> u \<Longrightarrow> u < x + 8 \<Longrightarrow> y \<le> v \<Longrightarrow> v < y + 16 \<Longrightarrow> R u v"
  shows "paints s R (gfx_char x y g c t)"
  unfolding gfx_char_def Let_def
proof (intro paints_fold)
  fix row t' col t''
  assume *: "row \<in> set [0..<FONT_H]" "col \<in> set [0..<FONT_W]" "paints s R t''"
  have "R (x + int col) (y + int row)" by (rule assms(3)) (use * in \<open>simp_all add: FONT_H_def FONT_W_def\<close>)
  then show "paints s R (if font_glyph g ! row AND drop_bit col 0x80 \<noteq> 0
    then gfx_putpixel (x + int col) (y + int row) c t'' else t'')"
    using * assms(1) by (simp add: paints_putpixel)
qed (assumption | rule assms(2))+

lemma paints_text [painting]:
  assumes "surface_ok s" "paints s R t" "10 \<notin> set p"
    and "\<And>u v. x \<le> u \<Longrightarrow> u < x + 8 * int (length p) \<Longrightarrow> y \<le> v \<Longrightarrow> v < y + 16 \<Longrightarrow> R u v"
  shows "paints s R (gfx_text x y p c t)"
proof -
  have "paints s R (text_loop x0 cx y p c t)"
    if "paints s R t" "10 \<notin> set p" "\<And>u v. cx \<le> u \<Longrightarrow> u < cx + 8 * int (length p) \<Longrightarrow> y \<le> v \<Longrightarrow> v < y + 16 \<Longrightarrow> R u v" for x0 cx
    using that
  proof (induction p arbitrary: cx t)
    case (Cons g p)
    have "paints s R (gfx_char cx y g c t)" by (rule paints_char [OF assms(1) Cons.prems(1)], rule Cons.prems(3)) simp_all
    then have "paints s R (text_loop x0 (cx + int FONT_W) y p c (gfx_char cx y g c t))"
      by (rule Cons.IH) (use Cons.prems(2,3) in \<open>simp_all add: FONT_W_def\<close>)
    then show ?case using Cons.prems(1,2) by simp
  qed simp
  then show ?thesis using assms(2-4) by (simp add: gfx_text_def)
qed

lemma paints_rect [painting]:
  assumes "surface_ok s" "paints s R t" "\<And>u v. x \<le> u \<Longrightarrow> u < x + w \<Longrightarrow> y \<le> v \<Longrightarrow> v < y + h \<Longrightarrow> R u v"
  shows "paints s R (gfx_rect x y w h c t)"
  unfolding gfx_rect_def gfx_hline_def gfx_vline_def using assms by (auto intro!: paints_fill_rect)

lemma paints_clear: "surface_ok s \<Longrightarrow> paints s (\<lambda>_ _. True) (gfx_clear c s)"
  by (simp add: paints_def draws_clear)

text \<open>The title bar, the text of the title and the terminal fit into the window.\<close>

definition window_fits :: "window \<Rightarrow> bool" where
  "window_fits w \<longleftrightarrow> TITLEBAR_H \<le> win_h w
     \<and> (case title w of None \<Rightarrow> True | Some p \<Rightarrow> 10 \<notin> set p \<and> 8 * int (length p) + 7 \<le> win_w w)
     \<and> (is_term w \<longrightarrow> 516 \<le> win_w w \<and> 348 \<le> win_h w)"

lemma paints_term_render:
  assumes "surface_ok s" "paints s R t" "term_inv m"
    and "\<And>u v. x \<le> u \<Longrightarrow> u < x + 512 \<Longrightarrow> y \<le> v \<Longrightarrow> v < y + 320 \<Longrightarrow> R u v"
  shows "paints s R (term_render m x y t)"
proof -
  have g: "0 \<le> g_col m" "g_col m < 64" "0 \<le> g_row m" "g_row m < 20" using assms(3) by (simp_all add: term_inv_def)
  have ch: "paints s R (gfx_char (x + c * 8) (y + r * 16) k col s')"
    if "paints s R s'" "c \<in> {0..63}" "r \<in> {0..19}" for c r k col s'
    by (rule paints_char [OF assms(1) that(1)], rule assms(4)) (use that in simp_all)
  have F: "paints s R (fold (\<lambda>r. fold (\<lambda>c s. if g_grid m r c \<noteq> 32 then gfx_char (x + c * 8) (y + r * 16) (g_grid m r c) TERM_FG s else s)
      [0..63]) [0..19] s')" if "paints s R s'" for s'
    by (intro paints_fold that) (simp add: ch)
  have "paints s R (gfx_fill_rect x y 512 320 TERM_BG t)"
    by (rule paints_fill_rect [OF assms(1,2)], rule assms(4)) simp_all
  from F [OF this] have "paints s R (gfx_fill_rect (x + g_col m * 8) (y + g_row m * 16 + 16 - 2) 8 2 TERM_FG
    (fold (\<lambda>r. fold (\<lambda>c s. if g_grid m r c \<noteq> 32 then gfx_char (x + c * 8) (y + r * 16) (g_grid m r c) TERM_FG s else s)
      [0..63]) [0..19] (gfx_fill_rect x y 512 320 TERM_BG t)))"
    by (rule paints_fill_rect [OF assms(1)], intro assms(4)) (use g in simp_all)
  then show ?thesis by (simp add: term_render_def Let_def FONT_W_def FONT_H_def cong: if_cong)
qed

lemma paints_title:
  assumes "surface_ok s" "paints s R t" "window_fits w"
    and "\<And>u v. window_hit u v w \<Longrightarrow> R u v"
  shows "paints s R (draw_title w t)"
proof (cases "title w")
  case (Some p)
  have f: "10 \<notin> set p" "8 * int (length p) + 7 \<le> win_w w" "24 \<le> win_h w" using assms(3) by (simp_all add: window_fits_def Some)
  have "paints s R (gfx_text (win_x w + 6 + 1) (win_y w + 4 + 1) p (RGB 20 30 60) t)"
    by (rule paints_text [OF assms(1,2) f(1)], rule assms(4)) (use f in \<open>simp_all add: window_hit_def\<close>)
  from paints_text [OF assms(1) this f(1), of "win_x w + 6" "win_y w + 4" "RGB 255 255 255"]
  have "paints s R (gfx_text (win_x w + 6) (win_y w + 4) p (RGB 255 255 255) (gfx_text (win_x w + 6 + 1) (win_y w + 4 + 1) p (RGB 20 30 60) t))"
    using assms(4) f by (simp add: window_hit_def)
  then show ?thesis by (simp add: draw_title_def Let_def Some FONT_H_def)
qed (simp add: draw_title_def assms(2))

lemma draws_term_render [drawing]:
  assumes "surface_ok s" "draws s s'"
  shows "draws s (term_render t x y s')"
  unfolding term_render_def Let_def
  by (intro draws_fill_rect [OF assms(1)] draws_after [of "fold _ _", OF _ assms(1)] assms(2) draws_fold draws_refl)
    (auto intro!: draws_fold draws_char draws_refl simp: draws_ok)

lemma draws_title [drawing]: "surface_ok s \<Longrightarrow> draws s s' \<Longrightarrow> draws s (draw_title w s')"
  by (simp add: draw_title_def Let_def draws_text split: option.split)

lemma draws_window [drawing]: "surface_ok s \<Longrightarrow> draws s s' \<Longrightarrow> draws s (draw_window t a w s')"
  by (simp add: draw_window_def Let_def drawing)

text \<open>A window that fits paints inside its rectangle, its border and its content where they show.\<close>

lemma draw_window_spec:
  assumes "surface_ok s" "window_fits w" "term_inv t"
  shows "paints s (\<lambda>u v. window_hit u v w) (draw_window t a w s)"
    and "inside s u v \<Longrightarrow> \<not> is_term w \<Longrightarrow> win_x w < u \<Longrightarrow> u < win_x w + win_w w - 1 \<Longrightarrow> win_y w + TITLEBAR_H \<le> v
      \<Longrightarrow> v < win_y w + win_h w - 1 \<Longrightarrow> px (draw_window t a w s) u v = content w"
    and "inside s u v \<Longrightarrow> window_hit u v w \<Longrightarrow> u = win_x w \<or> u = win_x w + win_w w - 1 \<or> v = win_y w \<or> v = win_y w + win_h w - 1
      \<Longrightarrow> px (draw_window t a w s) u v = BORDER_COLOR"
proof -
  let ?R = "\<lambda>u v. window_hit u v w"
  define s1 where "s1 = gfx_fill_rect (win_x w) (win_y w) (win_w w) TITLEBAR_H (if a then TITLE_ACTIVE else TITLE_INACTIVE) s"
  define s2 where "s2 = draw_title w s1"
  define s3 where "s3 = gfx_fill_rect (win_x w) (win_y w + TITLEBAR_H) (win_w w) (win_h w - TITLEBAR_H) (content w) s2"
  define s4 where "s4 = (if is_term w then term_render t (win_x w + 4) (win_y w + TITLEBAR_H + 4) s3 else s3)"
  have e: "draw_window t a w s = gfx_rect (win_x w) (win_y w) (win_w w) (win_h w) BORDER_COLOR s4"
    by (simp only: draw_window_def Let_def s1_def s2_def s3_def s4_def)
  have h: "24 \<le> win_h w" and tr: "is_term w \<Longrightarrow> 516 \<le> win_w w \<and> 348 \<le> win_h w" using assms(2) by (simp_all add: window_fits_def)
  have p1: "paints s ?R s1" unfolding s1_def by (rule paints_fill_rect [OF assms(1) paints_refl]) (use h in \<open>simp add: window_hit_def\<close>)
  have p2: "paints s ?R s2" unfolding s2_def by (rule paints_title [OF assms(1) p1 assms(2)])
  have p3: "paints s ?R s3" unfolding s3_def by (rule paints_fill_rect [OF assms(1) p2]) (simp add: window_hit_def)
  have p4: "paints s ?R s4"
  proof (cases "is_term w")
    case True
    have "paints s ?R (term_render t (win_x w + 4) (win_y w + 24 + 4) s3)"
      by (rule paints_term_render [OF assms(1) p3 assms(3)]) (use tr [OF True] in \<open>simp add: window_hit_def\<close>)
    then show ?thesis by (simp add: s4_def True)
  qed (simp add: s4_def p3)
  have ok2: "surface_ok s2" and ok4: "surface_ok s4" using paints_ok [OF p2] paints_ok [OF p4] assms(1) by simp_all
  have i2: "inside s2 = inside s" and i4: "inside s4 = inside s" using p2 p4 draws_inside by (simp_all add: paints_def)
  show "paints s ?R (draw_window t a w s)"
    unfolding e by (rule paints_rect [OF assms(1) p4]) (simp add: window_hit_def)
  show "px (draw_window t a w s) u v = content w"
    if "inside s u v" "\<not> is_term w" "win_x w < u" "u < win_x w + win_w w - 1" "win_y w + TITLEBAR_H \<le> v" "v < win_y w + win_h w - 1"
  proof -
    have "px s3 u v = content w"
      using fill_rect_spec [OF ok2, of "win_x w" "win_y w + TITLEBAR_H" "win_w w" "win_h w - TITLEBAR_H" "content w"] that
      by (simp add: s3_def i2)
    moreover have "paints s4 (\<lambda>a b. a \<noteq> u \<or> b \<noteq> v) (gfx_rect (win_x w) (win_y w) (win_w w) (win_h w) BORDER_COLOR s4)"
      unfolding gfx_rect_def gfx_hline_def gfx_vline_def using that
      by (auto intro!: paints_fill_rect ok4)
    then have "px (gfx_rect (win_x w) (win_y w) (win_w w) (win_h w) BORDER_COLOR s4) u v = px s4 u v"
      using that(1) i4 by (simp add: paints_def)
    moreover have "s4 = s3" using that(2) by (simp add: s4_def)
    ultimately show ?thesis unfolding e by simp
  qed
  show "px (draw_window t a w s) u v = BORDER_COLOR"
    if "inside s u v" "window_hit u v w" "u = win_x w \<or> u = win_x w + win_w w - 1 \<or> v = win_y w \<or> v = win_y w + win_h w - 1"
  proof -
    let ?c = BORDER_COLOR
    define r1 where "r1 = gfx_fill_rect (win_x w) (win_y w) (win_w w) 1 ?c s4"
    define r2 where "r2 = gfx_fill_rect (win_x w) (win_y w + win_h w - 1) (win_w w) 1 ?c r1"
    define r3 where "r3 = gfx_fill_rect (win_x w) (win_y w) 1 (win_h w) ?c r2"
    have d: "draws s4 r1" "draws s4 r2" "draws s4 r3" unfolding r1_def r2_def r3_def by (simp_all add: drawing ok4)
    have ok: "surface_ok r1" "surface_ok r2" "surface_ok r3" using d [THEN draws_ok] ok4 by simp_all
    have i: "inside r1 u v" "inside r2 u v" "inside r3 u v" "inside s4 u v" using d [THEN draws_inside] i4 that(1) by simp_all
    note f1 = fill_rect_spec [OF ok4, of "win_x w" "win_y w" "win_w w" 1 ?c, folded r1_def, THEN conjunct2, rule_format, OF i(4)]
    note f2 = fill_rect_spec [OF ok(1), of "win_x w" "win_y w + win_h w - 1" "win_w w" 1 ?c, folded r2_def, THEN conjunct2, rule_format, OF i(1)]
    note f3 = fill_rect_spec [OF ok(2), of "win_x w" "win_y w" 1 "win_h w" ?c, folded r3_def, THEN conjunct2, rule_format, OF i(2)]
    note f4 = fill_rect_spec [OF ok(3), of "win_x w + win_w w - 1" "win_y w" 1 "win_h w" ?c, THEN conjunct2, rule_format, OF i(3)]
    have "\<not> (win_w w \<le> 0 \<or> win_h w \<le> 0)" using that(2) by (auto simp: window_hit_def)
    then have r: "gfx_rect (win_x w) (win_y w) (win_w w) (win_h w) ?c s4 = gfx_fill_rect (win_x w + win_w w - 1) (win_y w) 1 (win_h w) ?c r3"
      by (simp add: gfx_rect_def gfx_hline_def gfx_vline_def r1_def r2_def r3_def)
    show ?thesis unfolding e r f4 f3 f2 f1 using that(2,3) by (auto simp: window_hit_def)
  qed
qed

section \<open>The click picks what the frame shows\<close>

lemma topmost_below_cases:
  obtains "topmost_below k mx my ws = - 1" "\<forall>i < k. \<not> window_hit mx my (ws ! i)"
  | i where "topmost_below k mx my ws = int i" "i < k" "window_hit mx my (ws ! i)"
proof -
  have "(topmost_below k mx my ws = - 1 \<and> (\<forall>i < k. \<not> window_hit mx my (ws ! i)))
    \<or> (\<exists>i. topmost_below k mx my ws = int i \<and> i < k \<and> window_hit mx my (ws ! i))"
    by (induction k) (auto simp: less_Suc_eq)
  then show ?thesis using that by blast
qed

definition on_border :: "int \<Rightarrow> int \<Rightarrow> window \<Rightarrow> bool" where
  "on_border u v w \<longleftrightarrow> u = win_x w \<or> u = win_x w + win_w w - 1 \<or> v = win_y w \<or> v = win_y w + win_h w - 1"

definition in_content :: "int \<Rightarrow> int \<Rightarrow> window \<Rightarrow> bool" where
  "in_content u v w \<longleftrightarrow> \<not> is_term w \<and> \<not> on_border u v w \<and> win_y w + TITLEBAR_H \<le> v"

definition colour_for :: "window list \<Rightarrow> int \<Rightarrow> int \<Rightarrow> int \<Rightarrow> u32 \<Rightarrow> bool" where
  "colour_for ws i u v c \<longleftrightarrow> (i = - 1 \<longrightarrow> c = DESKTOP_COLOR)
     \<and> (0 \<le> i \<longrightarrow> (on_border u v (ws ! nat i) \<longrightarrow> c = BORDER_COLOR) \<and> (in_content u v (ws ! nat i) \<longrightarrow> c = content (ws ! nat i)))"

lemma compose_prefix:
  assumes "surface_ok s" "\<forall>w \<in> set ws. window_fits w" "term_inv t" "k \<le> length ws"
  shows "draws s (fold (\<lambda>i. draw_window t (i = n) (ws ! i)) [0..<k] (gfx_clear DESKTOP_COLOR s))
    \<and> (\<forall>u v. inside s u v \<longrightarrow> colour_for ws (topmost_below k u v ws) u v
        (px (fold (\<lambda>i. draw_window t (i = n) (ws ! i)) [0..<k] (gfx_clear DESKTOP_COLOR s)) u v))"
  using assms(4)
proof (induction k)
  case 0
  then show ?case using draws_clear [OF assms(1)] clear_fills [OF assms(1)] by (simp add: colour_for_def)
next
  case (Suc k)
  let ?f = "fold (\<lambda>i. draw_window t (i = n) (ws ! i)) [0..<k] (gfx_clear DESKTOP_COLOR s)"
  have d: "draws s ?f" and c: "\<forall>u v. inside s u v \<longrightarrow> colour_for ws (topmost_below k u v ws) u v (px ?f u v)"
    using Suc by simp_all
  have ok: "surface_ok ?f" and i: "inside ?f = inside s" using draws_ok [OF d] draws_inside [OF d] assms(1) by simp_all
  have fits: "window_fits (ws ! k)" using assms(2) Suc.prems by simp
  let ?w = "ws ! k" and ?g = "draw_window t (k = n) (ws ! k) ?f"
  note spec = draw_window_spec [OF ok fits assms(3), where a = "k = n"]
  have "colour_for ws (topmost_below (Suc k) u v ws) u v (px ?g u v)" if uv: "inside s u v" for u v
  proof (cases "window_hit u v ?w")
    case True
    have "on_border u v ?w \<Longrightarrow> px ?g u v = BORDER_COLOR" using spec(3) [of u v] True uv i by (simp add: on_border_def)
    moreover have "in_content u v ?w \<Longrightarrow> px ?g u v = content ?w"
      using spec(2) [of u v] True uv i by (auto simp: in_content_def on_border_def window_hit_def)
    ultimately show ?thesis using True by (simp add: colour_for_def)
  next
    case False
    then have "px ?g u v = px ?f u v" using spec(1) uv i by (simp add: paints_def)
    then show ?thesis using c uv False by simp
  qed
  moreover have "draws s ?g" by (rule draws_window [OF assms(1) d])
  ultimately show ?case by simp
qed

lemma compose_draws: "surface_ok s \<Longrightarrow> draws s (window_compose t m s)"
  unfolding window_compose_def
proof (rule draws_fold)
  show "draws s (gfx_clear DESKTOP_COLOR s)" if "surface_ok s" by (rule draws_clear [OF that])
  show "draws s' (draw_window t (i = length (g_win m) - 1) (g_win m ! i) s')" if "surface_ok s" "draws s s'" for i s'
    using that by (simp add: draws_window draws_ok)
qed

section \<open>Presses, drags and releases\<close>

lemma shift_down:
  "i \<le> n \<Longrightarrow> n < length ws \<Longrightarrow> fold (\<lambda>k ws. ws[k := ws ! Suc k]) [i..<n] ws
    = take i ws @ take (n - i) (drop (Suc i) ws) @ drop n ws"
proof (induction n)
  case (Suc n)
  show ?case
  proof (cases "i = Suc n")
    case False
    then have i: "i \<le> n" "n < length ws" using Suc.prems by simp_all
    let ?xs = "take i ws @ take (n - i) (drop (Suc i) ws) @ drop n ws"
    have "?xs[n := ?xs ! Suc n] = take i ws @ take (Suc n - i) (drop (Suc i) ws) @ drop (Suc n) ws"
    proof (rule nth_equalityI)
      show "length (?xs[n := ?xs ! Suc n]) = length (take i ws @ take (Suc n - i) (drop (Suc i) ws) @ drop (Suc n) ws)"
        using i Suc.prems(2) by simp
      fix j assume "j < length (?xs[n := ?xs ! Suc n])"
      then show "?xs[n := ?xs ! Suc n] ! j = (take i ws @ take (Suc n - i) (drop (Suc i) ws) @ drop (Suc n) ws) ! j"
        using i Suc.prems(2) by (auto simp: nth_append nth_list_update min_def) (rule arg_cong [of _ _ "(!) ws"], linarith)
    qed
    then show ?thesis using Suc.IH i by simp
  qed simp
qed simp

lemma raise_window_list:
  assumes "i < length (g_win m)"
  shows "raise_window (int i) m = m\<lparr>g_win := take i (g_win m) @ drop (Suc i) (g_win m) @ [g_win m ! i]\<rparr>"
proof (cases "i = length (g_win m) - 1")
  case True
  then have "take i (g_win m) @ [g_win m ! i] = g_win m" using assms take_Suc_conv_app_nth [of i "g_win m"] by simp
  then show ?thesis using True assms by (simp add: raise_window_def)
next
  case False
  let ?ws = "g_win m" and ?n = "length (g_win m) - 1"
  have i: "i \<le> ?n" "?n < length ?ws" "\<not> int i \<ge> int (length ?ws) - 1" using assms False by linarith+
  have d: "drop (length ?ws - Suc 0) ?ws = [last ?ws]" using assms
    by (metis One_nat_def append_butlast_last_id append_eq_conv_conj length_butlast list.size(3) not_less_zero)
  have t: "take (length ?ws - Suc i) (drop (Suc i) ?ws) = drop (Suc i) ?ws" by simp
  have l: "length (take i ?ws @ drop (Suc i) ?ws) = ?n" using i by simp
  have "(take i ?ws @ drop (Suc i) ?ws @ [last ?ws])[?n := ?ws ! i] = take i ?ws @ drop (Suc i) ?ws @ [?ws ! i]"
    using list_update_length [of "take i ?ws @ drop (Suc i) ?ws" "last ?ws" "[]" "?ws ! i"] l by simp
  then show ?thesis using i l by (simp add: raise_window_def Let_def shift_down t d)
qed

definition wm_idle :: "wm \<Rightarrow> bool" where
  "wm_idle m \<longleftrightarrow> g_drag m = - 1 \<and> \<not> g_last_left m"

text \<open>What a press at one point and a release at another should do to the stack.\<close>

definition picked :: "window list \<Rightarrow> int \<Rightarrow> int \<Rightarrow> nat option" where
  "picked ws x y = (case filter (\<lambda>i. window_hit x y (ws ! i)) [0..<length ws] of [] \<Rightarrow> None | is \<Rightarrow> Some (last is))"

definition move_by :: "int \<Rightarrow> int \<Rightarrow> window \<Rightarrow> window" where
  "move_by dx dy w = w\<lparr>win_x := win_x w + dx, win_y := win_y w + dy\<rparr>"

definition click_drag :: "int \<Rightarrow> int \<Rightarrow> int \<Rightarrow> int \<Rightarrow> window list \<Rightarrow> window list" where
  "click_drag x y x' y' ws = (case picked ws x y of None \<Rightarrow> ws
     | Some i \<Rightarrow> take i ws @ drop (Suc i) ws @
         [if y < win_y (ws ! i) + TITLEBAR_H then move_by (x' - x) (y' - y) (ws ! i) else ws ! i])"

abbreviation hold :: "(int \<times> int) list \<Rightarrow> wm \<Rightarrow> wm" where
  "hold path m \<equiv> fold (\<lambda>(x, y). window_handle x y True) path m"

lemma picked_topmost:
  "picked ws x y = (let r = topmost_below (length ws) x y ws in if r < 0 then None else Some (nat r))"
proof -
  have "(case filter (\<lambda>i. window_hit x y (ws ! i)) [0..<k] of [] \<Rightarrow> None | is \<Rightarrow> Some (last is))
    = (let r = topmost_below k x y ws in if r < 0 then None else Some (nat r))" for k
    by (induction k) (auto simp: Let_def split: list.splits if_splits)
  then show ?thesis by (simp add: picked_def)
qed

lemma nth_last_snoc: "(xs @ [w]) ! (length (xs @ [w]) - 1) = w"
  by simp

lemma hold_no_drag:
  "g_last_left m \<Longrightarrow> g_drag m = - 1 \<Longrightarrow> hold path m = m"
proof (induction path)
  case (Cons p path)
  then have "window_handle (fst p) (snd p) True m = m" by (cases m) (simp add: window_handle_def Let_def)
  then show ?case using Cons by (simp add: case_prod_unfold)
qed simp

lemma hold_drag:
  assumes "g_last_left m" "g_drag m = int d" "d < length (g_win m)"
  shows "hold path m = (if path = [] then m else m\<lparr>g_win := (g_win m)[d := (g_win m ! d)\<lparr>
      win_x := fst (last path) - g_off_x m, win_y := snd (last path) - g_off_y m\<rparr>]\<rparr>)"
proof (induction path rule: rev_induct)
  case (snoc p path)
  then show ?case using assms by (cases p) (auto simp: window_handle_def drag_window_def Let_def)
qed simp

lemma press_drag_release:
  assumes "wm_idle m"
  shows "let m' = window_handle x' y' False (hold ((x, y) # path) m) in wm_idle m' \<and>
    g_win m' = click_drag x y (fst (last ((x, y) # path))) (snd (last ((x, y) # path))) (g_win m)"
proof -
  let ?ws = "g_win m"
  have m: "g_drag m = - 1" "\<not> g_last_left m" using assms by (simp_all add: wm_idle_def)
  have rel: "wm_idle (window_handle x' y' False k) \<and> g_win (window_handle x' y' False k) = g_win k" if "g_last_left k" for k
    using that by (simp add: window_handle_def Let_def wm_idle_def)
  show ?thesis
  proof (cases rule: topmost_below_cases [of "length ?ws" x y ?ws])
    case 1
    then have "window_handle x y True m = m\<lparr>g_last_left := True\<rparr>"
      using m by (simp add: window_handle_def press_def topmost_at_def Let_def)
    then have "hold ((x, y) # path) m = m\<lparr>g_last_left := True\<rparr>" using hold_no_drag [of "m\<lparr>g_last_left := True\<rparr>" path] m by simp
    then show ?thesis using rel 1 by (simp add: Let_def click_drag_def picked_topmost)
  next
    case (2 i)
    define wd where "wd = ?ws ! i"
    define rest where "rest = take i ?ws @ drop (Suc i) ?ws"
    let ?m1 = "m\<lparr>g_win := rest @ [wd]\<rparr>"
    have r: "raise_window (int i) m = ?m1" using raise_window_list [OF 2(2)] by (simp add: rest_def wd_def)
    have w: "g_win ?m1 = rest @ [wd]" by simp
    have l: "g_win ?m1 ! (length (g_win ?m1) - 1) = wd" "int (length (g_win ?m1)) - 1 = int (length rest)"
      unfolding w by (rule nth_last_snoc, simp)
    have a: "win_y wd \<le> y" using 2(3) by (simp add: window_hit_def wd_def)
    have p: "press x y m = (if y < win_y wd + 24
        then ?m1\<lparr>g_drag := int (length rest), g_off_x := x - win_x wd, g_off_y := y - win_y wd\<rparr> else ?m1)"
      unfolding press_def topmost_at_def 2(1) Let_def r l by (simp only: a simp_thms of_nat_0_le_iff if_True)
    show ?thesis
    proof (cases "y < win_y wd + 24")
      case False
      then have "window_handle x y True m = ?m1\<lparr>g_last_left := True\<rparr>" using m p by (simp add: window_handle_def Let_def)
      then have "hold ((x, y) # path) m = ?m1\<lparr>g_last_left := True\<rparr>"
        using hold_no_drag [of "?m1\<lparr>g_last_left := True\<rparr>" path] m by simp
      then show ?thesis using rel 2 False by (simp add: Let_def click_drag_def picked_topmost rest_def wd_def)
    next
      case True
      let ?m2 = "?m1\<lparr>g_drag := int (length rest), g_off_x := x - win_x wd, g_off_y := y - win_y wd, g_last_left := True\<rparr>"
      have h: "window_handle x y True m = ?m2"
        using m p True by (intro wm.equality) (simp_all add: window_handle_def Let_def drag_window_def nth_append)
      let ?l = "last ((x, y) # path)"
      have "hold path ?m2 = ?m2\<lparr>g_win := rest @ [wd\<lparr>win_x := fst ?l - (x - win_x wd), win_y := snd ?l - (y - win_y wd)\<rparr>]\<rparr>"
        by (subst hold_drag [of _ "length rest"]) (simp_all add: nth_append list_update_append)
      then have "g_last_left (hold ((x, y) # path) m) \<and> g_win (hold ((x, y) # path) m)
          = rest @ [move_by (fst ?l - x) (snd ?l - y) wd]"
        using h by (simp add: move_by_def algebra_simps)
      then show ?thesis using rel 2 True by (simp add: Let_def click_drag_def picked_topmost rest_def wd_def)
    qed
  qed
qed

section \<open>Properties\<close>

text \<open>The three windows that \<^verbatim>\<open>kmain\<close> creates.\<close>

definition boot_windows :: "wm \<Rightarrow> wm" where
  "boot_windows m =
     window_create 220 120 520 352 (RGB 15 15 25) (Some (str ''Terminal'')) True
       (window_create 760 20 240 150 (RGB 220 230 245) (Some (str ''Editor'')) False
         (window_create 20 20 180 120 (RGB 235 235 240) (Some (str ''Files'')) False m))"

lemma str_titles:
  "str ''Files'' = [70, 105, 108, 101, 115]" "str ''Editor'' = [69, 100, 105, 116, 111, 114]"
  "str ''Terminal'' = [84, 101, 114, 109, 105, 110, 97, 108]"
  by (simp_all add: str_def of_char_def)

definition screen_768 :: surface where
  "screen_768 = \<lparr>sf_pixels = \<lambda>_. 0, sf_width = 1024, sf_height = 768, sf_pitch = 1024\<rparr>"

lemma screen_768_ok: "surface_ok screen_768"
  by (simp add: surface_ok_def screen_768_def)

lemma boot_windows_idle: "wm_idle (boot_windows wm_boot)"
  by (simp add: boot_windows_def window_create_def wm_boot_def wm_idle_def)

lemma boot_windows_fit: "\<forall>w \<in> set (g_win (boot_windows wm_boot)). window_fits w"
  by (simp add: boot_windows_def window_create_def wm_boot_def window_fits_def str_titles)

text \<open>What a click picks is what the frame shows, at every visible pixel.\<close>

lemma compose_shows_topmost:
  assumes "surface_ok s" "term_inv t" "\<forall>w \<in> set (g_win m). window_fits w"
  shows "draws s (window_compose t m s)
    \<and> (\<forall>u v. inside s u v \<longrightarrow> colour_for (g_win m) (topmost_at u v m) u v (px (window_compose t m s) u v))"
  using compose_prefix [OF assms(1,3,2) order_refl, of "length (g_win m) - 1"]
  by (simp add: window_compose_def topmost_at_def)

lemma window_fits_moved: "window_fits (w\<lparr>win_x := a, win_y := b\<rparr>) = window_fits w"
  by (simp add: window_fits_def split: option.split)

lemma handle_keeps_fits:
  assumes "\<forall>w \<in> set (g_win m). window_fits w" and "g_drag m < int (length (g_win m))"
  shows "\<forall>w \<in> set (g_win (window_handle mx my left m)). window_fits w"
proof -
  have r: "length (g_win (raise_window i m)) = length (g_win m) \<and> g_drag (raise_window i m) = g_drag m
    \<and> (\<forall>w \<in> set (g_win (raise_window i m)). window_fits w)" for i
  proof (cases "0 \<le> i \<and> i < int (length (g_win m))")
    case True
    then obtain k where k: "i = int k" "k < length (g_win m)" by (metis of_nat_less_iff nonneg_int_cases)
    show ?thesis unfolding k(1) raise_window_list [OF k(2)] using assms(1) k(2)
      by (auto dest: in_set_takeD in_set_dropD)
  qed (use assms(1) in \<open>auto simp: raise_window_def\<close>)
  have p: "g_drag (press mx my m) < int (length (g_win (press mx my m))) \<and> (\<forall>w \<in> set (g_win (press mx my m)). window_fits w)"
    using r assms by (auto simp: press_def Let_def)
  define m1 where "m1 = (if left \<and> \<not> g_last_left m then press mx my m
    else if \<not> left \<and> g_last_left m then m\<lparr>g_drag := - 1\<rparr> else m)"
  have m1: "g_drag m1 < int (length (g_win m1))" "\<forall>w \<in> set (g_win m1). window_fits w"
    using p assms by (auto simp: m1_def)
  have "\<forall>w \<in> set (g_win (drag_window mx my m1)). window_fits w" if "0 \<le> g_drag m1"
  proof
    fix w assume "w \<in> set (g_win (drag_window mx my m1))"
    then have "w = (g_win m1 ! nat (g_drag m1))\<lparr>win_x := mx - g_off_x m1, win_y := my - g_off_y m1\<rparr> \<or> w \<in> set (g_win m1)"
      unfolding drag_window_def Let_def by (auto dest: set_update_subset_insert [THEN subsetD])
    moreover have "g_win m1 ! nat (g_drag m1) \<in> set (g_win m1)" using m1(1) that by (intro nth_mem) simp
    ultimately show "window_fits w" using m1(2) window_fits_moved by blast
  qed
  then show ?thesis using m1(2) unfolding window_handle_def Let_def m1_def [symmetric] by simp
qed

text \<open>
  C37. A press, any drag and the release, from an idle desktop: a press outside all windows changes nothing;
  a press on a window brings that window, and no other, to the top and keeps the order of the rest; if the
  press was on its title bar the window has moved by exactly the way the pointer has gone. The desktop is
  idle again afterwards.
\<close>

theorem click_and_drag_refines:
  assumes "wm_idle m"
  shows "wm_idle (window_handle x' y' False (hold ((x, y) # path) m))
    \<and> g_win (window_handle x' y' False (hold ((x, y) # path) m))
      = click_drag x y (fst (last ((x, y) # path))) (snd (last ((x, y) # path))) (g_win m)"
  using press_drag_release [OF assms, of x' y' x y path] unfolding Let_def .

lemma click_and_drag_refines_witness:
  "map (\<lambda>w. (win_x w, win_y w)) (g_win (window_handle 0 0 False (hold [(30, 25), (31, 29), (60, 45)] (boot_windows wm_boot))))
   = [(760, 20), (220, 120), (50, 40)]"
proof -
  have "picked (g_win (boot_windows wm_boot)) 30 25 = Some 0"
    by (simp add: picked_def boot_windows_def window_create_def wm_boot_def window_hit_def upt_rec)
  then show ?thesis using click_and_drag_refines [OF boot_windows_idle, of 0 0 30 25 "[(31, 29), (60, 45)]"]
    by (simp add: click_drag_def boot_windows_def window_create_def wm_boot_def move_by_def)
qed

end
