(* ===== verification/Screen.thy ===== *)
theory Screen
  imports Window
begin

text \<open>
  The framebuffer (kernel/fb.cpp without \<^verbatim>\<open>fb_init\<close>, which is in theory \<^verbatim>\<open>Boot_Map\<close>) and the double buffering
  of kernel/gfx.cpp. The framebuffer is a byte memory indexed by the offset from \<^verbatim>\<open>g_fb\<close>; the 64-bit offset
  computations of the code cannot overflow, as their factors have 32 bits, and are natural numbers here.
\<close>

section \<open>The framebuffer\<close>

record fb =
  g_fb :: u64
  g_pitch :: u32
  g_width :: u32
  g_height :: u32
  g_bpp :: u32
  fb_mem :: "nat \<Rightarrow> u8"

definition fb_ready :: "fb \<Rightarrow> bool" where "fb_ready f \<longleftrightarrow> g_fb f \<noteq> 0"
definition fb_width :: "fb \<Rightarrow> u32" where "fb_width f = g_width f"
definition fb_height :: "fb \<Rightarrow> u32" where "fb_height f = g_height f"
definition fb_base :: "fb \<Rightarrow> u64" where "fb_base f = g_fb f"
definition fb_pitch :: "fb \<Rightarrow> u32" where "fb_pitch f = g_pitch f"

text \<open>The store \<^verbatim>\<open>row[x] = color\<close> for the row that starts at \<^verbatim>\<open>g_fb + y * g_pitch\<close>.\<close>

definition row_store :: "nat \<Rightarrow> nat \<Rightarrow> u32 \<Rightarrow> fb \<Rightarrow> fb" where
  "row_store y x color f = f\<lparr>fb_mem := put32 (fb_mem f) (y * unat (g_pitch f) + 4 * x) color\<rparr>"

definition clear_rows :: "nat \<Rightarrow> u32 \<Rightarrow> fb \<Rightarrow> fb" where
  "clear_rows y0 color f =
     fold (\<lambda>y. fold (\<lambda>x. row_store y x color) [0..<unat (g_width f)]) [y0..<unat (g_height f)] f"

definition fb_fill :: "u32 \<Rightarrow> fb \<Rightarrow> fb" where
  "fb_fill color f = (if g_fb f = 0 then f else clear_rows 0 color f)"

definition fb_putpixel :: "u32 \<Rightarrow> u32 \<Rightarrow> u32 \<Rightarrow> fb \<Rightarrow> fb" where
  "fb_putpixel x y color f =
     (if g_fb f = 0 \<or> x \<ge> g_width f \<or> y \<ge> g_height f then f else row_store (unat y) (unat x) color f)"

text \<open>\<^verbatim>\<open>dst[i] = src[i]\<close> for 64-bit words: the eight bytes are loaded before they are stored.\<close>

definition copy_word :: "nat \<Rightarrow> nat \<Rightarrow> (nat \<Rightarrow> u8) \<Rightarrow> nat \<Rightarrow> u8" where
  "copy_word d s m = (\<lambda>b. if d \<le> b \<and> b < d + 8 then m (s + (b - d)) else m b)"

definition fb_scroll_up :: "u32 \<Rightarrow> u32 \<Rightarrow> fb \<Rightarrow> fb" where
  "fb_scroll_up lines color f =
     (if g_fb f = 0 \<or> lines = 0 then f
      else if lines \<ge> g_height f then fb_fill color f
      else let shift = unat lines * unat (g_pitch f);
               total = unat (g_height f) * unat (g_pitch f);
               words = (total - shift) div 8;
               f1 = f\<lparr>fb_mem := fold (\<lambda>i. copy_word (8 * i) (shift + 8 * i)) [0..<words] (fb_mem f)\<rparr>
           in clear_rows (unat (g_height f - lines)) color f1)"

section \<open>The back buffer\<close>

abbreviation GFX_BB_W :: nat where "GFX_BB_W \<equiv> 1024"
abbreviation GFX_BB_H :: nat where "GFX_BB_H \<equiv> 768"

definition gfx_screen :: "fb \<Rightarrow> surface" where
  "gfx_screen f = \<lparr>sf_pixels = (\<lambda>i. get32 (fb_mem f) (4 * i)), sf_width = fb_width f, sf_height = fb_height f,
     sf_pitch = fb_pitch f div 4\<rparr>"

definition gfx_backbuffer :: "(nat \<Rightarrow> u32) \<Rightarrow> fb \<Rightarrow> surface" where
  "gfx_backbuffer backbuf f = \<lparr>sf_pixels = backbuf, sf_width = fb_width f, sf_height = fb_height f, sf_pitch = of_nat GFX_BB_W\<rparr>"

definition gfx_present :: "(nat \<Rightarrow> u32) \<Rightarrow> fb \<Rightarrow> fb" where
  "gfx_present backbuf f =
     (if g_fb f = 0 then f
      else fold (\<lambda>y. fold (\<lambda>x. row_store y x (backbuf (y * GFX_BB_W + x))) [0..<unat (fb_width f)]) [0..<unat (fb_height f)] f)"

text \<open>The body of the drawing loop of \<^verbatim>\<open>kmain\<close>; the terminal's grid and the mouse are inputs.\<close>

definition desktop_frame :: "trm \<Rightarrow> int \<Rightarrow> int \<Rightarrow> u8 \<Rightarrow> wm \<times> (nat \<Rightarrow> u32) \<times> fb \<Rightarrow> wm \<times> (nat \<Rightarrow> u32) \<times> fb" where
  "desktop_frame t mx my buttons = (\<lambda>(m, backbuf, f).
     let left = (buttons AND 1 \<noteq> 0);
         m1 = window_handle mx my left m;
         bb = gfx_cursor mx my (window_compose t m1 (gfx_backbuffer backbuf f))
     in (m1, sf_pixels bb, gfx_present (sf_pixels bb) f))"

section \<open>Pixels\<close>

definition fpx :: "fb \<Rightarrow> nat \<Rightarrow> nat \<Rightarrow> u32" where
  "fpx f x y = get32 (fb_mem f) (y * unat (g_pitch f) + 4 * x)"

definition on_screen :: "fb \<Rightarrow> nat \<Rightarrow> nat \<Rightarrow> bool" where
  "on_screen f x y \<longleftrightarrow> x < unat (g_width f) \<and> y < unat (g_height f)"

definition fb_ok :: "fb \<Rightarrow> bool" where
  "fb_ok f \<longleftrightarrow> g_fb f \<noteq> 0 \<and> 4 * unat (g_width f) \<le> unat (g_pitch f)"

definition same_geometry :: "fb \<Rightarrow> fb \<Rightarrow> bool" where
  "same_geometry f f' \<longleftrightarrow> g_fb f' = g_fb f \<and> g_pitch f' = g_pitch f \<and> g_width f' = g_width f \<and> g_height f' = g_height f"

lemma same_geometry_refl [simp]: "same_geometry f f"
  by (simp add: same_geometry_def)

lemma same_geometry_trans: "same_geometry f f' \<Longrightarrow> same_geometry f' f'' \<Longrightarrow> same_geometry f f''"
  by (simp add: same_geometry_def)

lemma same_geometry_on: "same_geometry f f' \<Longrightarrow> on_screen f' = on_screen f" "same_geometry f f' \<Longrightarrow> fb_ok f' = fb_ok f"
  by (simp_all add: same_geometry_def on_screen_def fb_ok_def fun_eq_iff)

lemma row_store_geometry [simp]: "same_geometry f (row_store y x c f)"
  by (simp add: same_geometry_def row_store_def)

lemma geometry_fold:
  "(\<And>x f'. same_geometry f f' \<Longrightarrow> same_geometry f' (g x f')) \<Longrightarrow> same_geometry f f' \<Longrightarrow> same_geometry f (fold g xs f')"
proof (induction xs arbitrary: f')
  case (Cons x xs)
  have "same_geometry f (g x f')" by (rule same_geometry_trans [OF Cons.prems(2)]) (rule Cons.prems)+
  then show ?case using Cons by simp
qed simp

text \<open>The cells of a screen do not overlap.\<close>

lemma cells_apart:
  assumes "4 * w \<le> p" "x < w" "x' < (w :: nat)" "x \<noteq> x' \<or> y \<noteq> y'"
  shows "y' * p + 4 * x' + 4 \<le> y * p + 4 * x \<or> y * p + 4 * x + 4 \<le> y' * p + 4 * x'"
proof -
  have step: "b * p + 4 * u + 4 \<le> a * p + 4 * v" if "b < a" "u < w" for a b u v
  proof -
    have "(b + 1) * p \<le> a * p" using that(1) by (intro mult_le_mono1) simp
    then show ?thesis using that(2) assms(1) by (simp add: algebra_simps)
  qed
  consider "y' < y" | "y < y'" | "y = y'" "x \<noteq> x'" using assms(4) by linarith
  then show ?thesis using step assms(2,3) by cases auto
qed

lemma fpx_row_store:
  assumes "fb_ok f" "on_screen f x y" "on_screen f x' y'"
  shows "fpx (row_store y x c f) x' y' = (if x' = x \<and> y' = y then c else fpx f x' y')"
proof (cases "x' = x \<and> y' = y")
  case False
  have "y' * unat (g_pitch f) + 4 * x' + 4 \<le> y * unat (g_pitch f) + 4 * x
      \<or> y * unat (g_pitch f) + 4 * x + 4 \<le> y' * unat (g_pitch f) + 4 * x'"
    by (rule cells_apart [of "unat (g_width f)"]) (use assms False in \<open>auto simp: fb_ok_def on_screen_def\<close>)
  then have "get32 (put32 (fb_mem f) (y * unat (g_pitch f) + 4 * x) c) (y' * unat (g_pitch f) + 4 * x')
      = get32 (fb_mem f) (y' * unat (g_pitch f) + 4 * x')" by (rule get32_put32_other)
  then show ?thesis unfolding if_not_P [OF False] by (simp add: fpx_def row_store_def)
qed (simp add: fpx_def row_store_def get32_put32)

text \<open>Two nested loops over rows and columns that store one pixel each.\<close>

lemma store_row:
  assumes "fb_ok f" "y < unat (g_height f)" "set xs \<subseteq> {..<unat (g_width f)}"
  shows "same_geometry f (fold (\<lambda>x. row_store y x (k x)) xs f) \<and> (\<forall>u v. on_screen f u v \<longrightarrow>
    fpx (fold (\<lambda>x. row_store y x (k x)) xs f) u v = (if u \<in> set xs \<and> v = y then k u else fpx f u v))"
  using assms
proof (induction xs arbitrary: f)
  case (Cons x xs)
  let ?f = "row_store y x (k x) f"
  have g: "same_geometry f ?f" by simp
  have w: "g_width ?f = g_width f" "g_height ?f = g_height f" using g by (simp_all add: same_geometry_def)
  have "same_geometry ?f (fold (\<lambda>x. row_store y x (k x)) xs ?f) \<and> (\<forall>u v. on_screen ?f u v \<longrightarrow>
    fpx (fold (\<lambda>x. row_store y x (k x)) xs ?f) u v = (if u \<in> set xs \<and> v = y then k u else fpx ?f u v))"
    by (rule Cons.IH) (use Cons.prems same_geometry_on [OF g] w in simp_all)
  moreover have "fpx ?f u v = (if u = x \<and> v = y then k x else fpx f u v)" if "on_screen f u v" for u v
    by (rule fpx_row_store) (use Cons.prems that in \<open>simp_all add: on_screen_def\<close>)
  ultimately show ?case using same_geometry_trans [OF g] unfolding same_geometry_on [OF g] by auto
qed simp

lemma store_rows:
  assumes "fb_ok f" "set ys \<subseteq> {..<unat (g_height f)}" "set xs = {..<unat (g_width f)}"
  shows "same_geometry f (fold (\<lambda>y. fold (\<lambda>x. row_store y x (k y x)) xs) ys f) \<and> (\<forall>u v. on_screen f u v \<longrightarrow>
    fpx (fold (\<lambda>y. fold (\<lambda>x. row_store y x (k y x)) xs) ys f) u v = (if v \<in> set ys then k v u else fpx f u v))"
  using assms
proof (induction ys arbitrary: f)
  case (Cons y ys)
  let ?f = "fold (\<lambda>x. row_store y x (k y x)) xs f"
  have r: "same_geometry f ?f \<and> (\<forall>u v. on_screen f u v \<longrightarrow> fpx ?f u v = (if u \<in> set xs \<and> v = y then k y u else fpx f u v))"
    by (rule store_row) (use Cons.prems in simp_all)
  then have g: "same_geometry f ?f" by blast
  have w: "g_width ?f = g_width f" "g_height ?f = g_height f" using g by (simp_all add: same_geometry_def)
  have "same_geometry ?f (fold (\<lambda>y. fold (\<lambda>x. row_store y x (k y x)) xs) ys ?f) \<and> (\<forall>u v. on_screen ?f u v \<longrightarrow>
    fpx (fold (\<lambda>y. fold (\<lambda>x. row_store y x (k y x)) xs) ys ?f) u v = (if v \<in> set ys then k v u else fpx ?f u v))"
    by (rule Cons.IH) (use Cons.prems same_geometry_on [OF g] w in simp_all)
  moreover have "fpx ?f u v = (if v = y then k y u else fpx f u v)" if "on_screen f u v" for u v
    using r that Cons.prems(3) by (auto simp: on_screen_def)
  ultimately show ?case using same_geometry_trans [OF g] unfolding same_geometry_on [OF g] by auto
qed simp

lemma clear_rows_spec:
  assumes "fb_ok f"
  shows "same_geometry f (clear_rows y0 c f)"
    and "on_screen f x y \<Longrightarrow> fpx (clear_rows y0 c f) x y = (if y0 \<le> y then c else fpx f x y)"
proof -
  have "same_geometry f (clear_rows y0 c f) \<and> (\<forall>u v. on_screen f u v \<longrightarrow>
      fpx (clear_rows y0 c f) u v = (if v \<in> set [y0..<unat (g_height f)] then c else fpx f u v))"
    unfolding clear_rows_def by (rule store_rows [OF assms]) auto
  then show "same_geometry f (clear_rows y0 c f)"
    "on_screen f x y \<Longrightarrow> fpx (clear_rows y0 c f) x y = (if y0 \<le> y then c else fpx f x y)"
    by (auto simp: on_screen_def)
qed

lemma fb_fill_spec:
  assumes "fb_ok f"
  shows "same_geometry f (fb_fill c f)" and "on_screen f x y \<Longrightarrow> fpx (fb_fill c f) x y = c"
  using clear_rows_spec(1) [OF assms, of 0 c] clear_rows_spec(2) [OF assms, of x y 0 c] assms
  by (simp_all add: fb_fill_def fb_ok_def)

lemma fb_putpixel_spec:
  assumes "fb_ok f"
  shows "same_geometry f (fb_putpixel x y c f)"
    and "on_screen f u v \<Longrightarrow> fpx (fb_putpixel x y c f) u v = (if u = unat x \<and> v = unat y then c else fpx f u v)"
proof -
  show "same_geometry f (fb_putpixel x y c f)" by (simp add: fb_putpixel_def)
  show "fpx (fb_putpixel x y c f) u v = (if u = unat x \<and> v = unat y then c else fpx f u v)" if "on_screen f u v"
  proof (cases "on_screen f (unat x) (unat y)")
    case True
    then have "fb_putpixel x y c f = row_store (unat y) (unat x) c f"
      using assms by (auto simp: fb_putpixel_def fb_ok_def on_screen_def word_le_nat_alt)
    then show ?thesis using fpx_row_store [OF assms True that] by simp
  next
    case False
    then have "fb_putpixel x y c f = f" by (auto simp: fb_putpixel_def on_screen_def word_le_nat_alt)
    then show ?thesis using False that by auto
  qed
qed

text \<open>The forward copy by words moves every byte although the two regions overlap.\<close>

lemma copy_words:
  assumes "8 \<le> shift"
  shows "fold (\<lambda>i. copy_word (8 * i) (shift + 8 * i)) [0..<n] m b = (if b < 8 * n then m (b + shift) else m b)"
proof (induction n arbitrary: b)
  case (Suc n)
  let ?F = "fold (\<lambda>i. copy_word (8 * i) (shift + 8 * i)) [0..<n] m"
  have "fold (\<lambda>i. copy_word (8 * i) (shift + 8 * i)) [0..<Suc n] m b = copy_word (8 * n) (shift + 8 * n) ?F b" by simp
  also have "\<dots> = (if 8 * n \<le> b \<and> b < 8 * n + 8 then ?F (shift + 8 * n + (b - 8 * n)) else ?F b)"
    by (simp only: copy_word_def)
  finally show ?case using assms unfolding Suc by (auto simp: add.commute)
qed simp

lemma fb_scroll_spec:
  assumes ok: "fb_ok f" and p: "8 dvd unat (g_pitch f)" and on: "on_screen f x y" and n: "n \<noteq> 0"
  shows "same_geometry f (fb_scroll_up n c f)"
    and "fpx (fb_scroll_up n c f) x y = (if y + unat n < unat (g_height f) then fpx f x (y + unat n) else c)"
proof -
  have nz: "g_fb f \<noteq> 0" "unat n \<noteq> 0" using ok n by (simp_all add: fb_ok_def unat_eq_0)
  let ?p = "unat (g_pitch f)" and ?h = "unat (g_height f)"
  have "same_geometry f (fb_scroll_up n c f) \<and>
    fpx (fb_scroll_up n c f) x y = (if y + unat n < ?h then fpx f x (y + unat n) else c)"
  proof (cases "n \<ge> g_height f")
    case True
    then have "\<not> y + unat n < ?h" by (simp add: word_le_nat_alt)
    then show ?thesis using True nz n fb_fill_spec [OF ok, where c = c] on by (simp add: fb_scroll_up_def)
  next
    case False
    then have lt: "unat n < ?h" and sub: "unat (g_height f - n) = ?h - unat n"
      by (simp_all add: word_le_nat_alt unat_sub_le)
    define f1 where "f1 = f\<lparr>fb_mem := fold (\<lambda>i. copy_word (8 * i) (unat n * ?p + 8 * i)) [0..<(?h * ?p - unat n * ?p) div 8] (fb_mem f)\<rparr>"
    have e: "fb_scroll_up n c f = clear_rows (?h - unat n) c f1"
      using nz n False by (simp add: fb_scroll_up_def Let_def f1_def sub)
    have g: "same_geometry f f1" by (simp add: f1_def same_geometry_def)
    have x: "4 * x + 4 \<le> ?p" using ok on by (simp add: fb_ok_def on_screen_def)
    have "8 \<le> ?p" using p x by (auto intro: dvd_imp_le)
    then have s: "8 \<le> unat n * ?p" using nz(2) by (metis One_nat_def Suc_leI mult_le_mono nat_mult_1 neq0_conv)
    have w: "8 * ((?h * ?p - unat n * ?p) div 8) = (?h - unat n) * ?p"
      using p by (simp add: diff_mult_distrib dvd_diff_nat)
    have b: "fb_mem f1 i = (if i < (?h - unat n) * ?p then fb_mem f (i + unat n * ?p) else fb_mem f i)" for i
      unfolding f1_def by (simp add: copy_words [OF s] w)
    have m: "fpx f1 x y = fpx f x (y + unat n)" if y: "y + unat n < ?h"
    proof -
      have "(y + 1) * ?p \<le> (?h - unat n) * ?p" using y by (intro mult_le_mono1) simp
      then have "y * ?p + 4 * x + i < (?h - unat n) * ?p" if "i < 4" for i using x that by (simp add: algebra_simps)
      then have "fb_mem f1 (y * ?p + 4 * x + i) = fb_mem f ((y + unat n) * ?p + 4 * x + i)" if "i < 4" for i
        using that by (simp add: b algebra_simps)
      then show ?thesis using g unfolding fpx_def get32_def by (intro ld32_cong) (simp add: same_geometry_def)
    qed
    have "fpx (fb_scroll_up n c f) x y = (if ?h - unat n \<le> y then c else fpx f1 x y)"
      unfolding e using clear_rows_spec(2) [of f1 x y] same_geometry_on [OF g] ok on by simp
    moreover have "same_geometry f (fb_scroll_up n c f)"
      unfolding e using clear_rows_spec(1) [of f1] same_geometry_on [OF g] ok same_geometry_trans [OF g] by simp
    ultimately show ?thesis using m lt by auto
  qed
  then show "same_geometry f (fb_scroll_up n c f)"
    "fpx (fb_scroll_up n c f) x y = (if y + unat n < ?h then fpx f x (y + unat n) else c)" by blast+
qed

lemma gfx_present_spec:
  assumes "fb_ok f"
  shows "same_geometry f (gfx_present bb f)"
    and "on_screen f x y \<Longrightarrow> fpx (gfx_present bb f) x y = bb (y * GFX_BB_W + x)"
proof -
  have "same_geometry f (gfx_present bb f) \<and> (\<forall>u v. on_screen f u v \<longrightarrow> fpx (gfx_present bb f) u v
      = (if v \<in> set [0..<unat (fb_height f)] then bb (v * GFX_BB_W + u) else fpx f u v))"
  proof -
    have "gfx_present bb f = fold (\<lambda>y. fold (\<lambda>x. row_store y x (bb (y * GFX_BB_W + x))) [0..<unat (fb_width f)]) [0..<unat (fb_height f)] f"
      using assms by (simp add: gfx_present_def fb_ok_def)
    then show ?thesis
      using store_rows [OF assms, of "[0..<unat (fb_height f)]" "[0..<unat (fb_width f)]" "\<lambda>y x. bb (y * GFX_BB_W + x)"]
      by (simp add: fb_height_def fb_width_def atLeast0LessThan)
  qed
  then show "same_geometry f (gfx_present bb f)" "on_screen f x y \<Longrightarrow> fpx (gfx_present bb f) x y = bb (y * GFX_BB_W + x)"
    by (auto simp: on_screen_def fb_height_def)
qed

section \<open>A frame of the desktop\<close>

definition under_cursor :: "int \<Rightarrow> int \<Rightarrow> int \<Rightarrow> int \<Rightarrow> bool" where
  "under_cursor mx my u v \<longleftrightarrow> mx \<le> u \<and> u < mx + 12 \<and> my \<le> v \<and> v < my + 17"

lemma paints_cursor:
  assumes "surface_ok s"
  shows "paints s (under_cursor x y) (gfx_cursor x y s)"
  unfolding gfx_cursor_def Let_def
proof (intro paints_fold)
  fix row t' col t''
  assume *: "row \<in> set [0..<17]" "col \<in> set [0..<12]" "paints s (under_cursor x y) t''"
  have "under_cursor x y (x + int col) (y + int row)" using * by (simp add: under_cursor_def)
  then show "paints s (under_cursor x y) (if cursor_pixel row col = 1 then gfx_putpixel (x + int col) (y + int row) (RGB 0 0 0) t''
      else if cursor_pixel row col = 2 then gfx_putpixel (x + int col) (y + int row) (RGB 255 255 255) t'' else t'')"
    using * assms by (simp add: paints_putpixel)
qed (assumption | rule paints_refl)+

lemma int_less_uint: "x < unat w \<Longrightarrow> int x < uint w"
  by (simp only: uint_nat of_nat_less_iff)

lemma backbuffer_px:
  "0 \<le> u \<Longrightarrow> 0 \<le> v \<Longrightarrow> draws (gfx_backbuffer b f) s \<Longrightarrow> px s u v = sf_pixels s (nat v * GFX_BB_W + nat u)"
  by (simp add: px_def gfx_backbuffer_def draws_def)

lemma visible_backbuffer:
  assumes "unat (g_width f) \<le> GFX_BB_W" "unat (g_height f) \<le> GFX_BB_H" "visible (gfx_backbuffer b f) i"
  shows "i < GFX_BB_W * GFX_BB_H"
proof -
  from assms(3) obtain x y where xy: "inside (gfx_backbuffer b f) x y" "i = nat y * 1024 + nat x"
    by (auto simp: visible_def gfx_backbuffer_def)
  then have "nat x < 1024" "nat y < 768" using assms(1,2)
    by (auto simp: inside_def gfx_backbuffer_def fb_width_def fb_height_def nat_less_iff simp flip: of_nat_le_iff [where 'a = int])
  then have "nat y * 1024 + nat x < (nat y + 1) * 1024" "(nat y + 1) * 1024 \<le> 768 * 1024" by simp_all
  then show ?thesis unfolding xy(2) by linarith
qed

text \<open>
  C36. One round of the drawing loop of \<^verbatim>\<open>kmain\<close>, on a screen that fits the back buffer: outside the pointer the
  screen shows at every pixel the desktop colour exactly where a click would find no window, and otherwise
  the border or the content of the window the click would find; no store leaves the back buffer.
\<close>

theorem frame_shows_what_a_click_finds:
  assumes "fb_ok f" "unat (g_width f) \<le> GFX_BB_W" "unat (g_height f) \<le> GFX_BB_H"
    and "term_inv t" "\<forall>w \<in> set (g_win m). window_fits w" "g_drag m < int (length (g_win m))"
    and "desktop_frame t mx my buttons (m, backbuf, f) = (m', backbuf', f')"
  shows "same_geometry f f' \<and> (\<forall>i \<ge> GFX_BB_W * GFX_BB_H. backbuf' i = backbuf i)
    \<and> (\<forall>x y. on_screen f x y \<longrightarrow> \<not> under_cursor mx my (int x) (int y) \<longrightarrow>
         colour_for (g_win m') (topmost_at (int x) (int y) m') (int x) (int y) (fpx f' x y))"
proof -
  let ?s = "gfx_backbuffer backbuf f"
  define s1 where "s1 = window_compose t m' ?s"
  define s2 where "s2 = gfx_cursor mx my s1"
  have r: "m' = window_handle mx my (buttons AND 1 \<noteq> 0) m" "backbuf' = sf_pixels s2" "f' = gfx_present (sf_pixels s2) f"
    using assms(7) by (auto simp: desktop_frame_def Let_def s1_def s2_def)
  have ok: "surface_ok ?s" using assms(2,3)
    by (simp add: surface_ok_def gfx_backbuffer_def fb_width_def fb_height_def word_le_nat_alt)
  have fits: "\<forall>w \<in> set (g_win m'). window_fits w" unfolding r(1) by (rule handle_keeps_fits [OF assms(5,6)])
  have c: "draws ?s s1" "inside ?s u v \<Longrightarrow> colour_for (g_win m') (topmost_at u v m') u v (px s1 u v)" for u v
    using compose_shows_topmost [OF ok assms(4) fits] unfolding s1_def by blast+
  have ok1: "surface_ok s1" using draws_ok [OF c(1)] ok by simp
  have p: "paints s1 (under_cursor mx my) s2" unfolding s2_def by (rule paints_cursor [OF ok1])
  have d: "draws ?s s2" using draws_trans [OF c(1)] p by (simp add: paints_def)
  have "backbuf' i = backbuf i" if "GFX_BB_W * GFX_BB_H \<le> i" for i
  proof -
    have "\<not> visible ?s i" using visible_backbuffer [OF assms(2,3)] that leD by blast
    then have "sf_pixels s2 i = sf_pixels ?s i" using d by (simp add: draws_def)
    then show ?thesis by (simp add: r(2) gfx_backbuffer_def)
  qed
  moreover have "colour_for (g_win m') (topmost_at (int x) (int y) m') (int x) (int y) (fpx f' x y)"
    if on: "on_screen f x y" and nc: "\<not> under_cursor mx my (int x) (int y)" for x y
  proof -
    have i: "inside ?s (int x) (int y)" using on
      by (simp add: inside_def gfx_backbuffer_def on_screen_def fb_width_def fb_height_def int_less_uint)
    have "fpx f' x y = px s2 (int x) (int y)"
      unfolding r(3) gfx_present_spec(2) [OF assms(1) on] by (simp add: backbuffer_px [OF _ _ d])
    also have "\<dots> = px s1 (int x) (int y)" using p i nc draws_inside [OF c(1)] by (simp add: paints_def)
    finally show ?thesis using c(2) [OF i] by simp
  qed
  ultimately show ?thesis using gfx_present_spec(1) [OF assms(1)] by (simp add: r(3))
qed

definition demo_fb :: fb where
  "demo_fb = \<lparr>g_fb = 0xFD000000, g_pitch = 4096, g_width = 1024, g_height = 768, g_bpp = 32, fb_mem = (\<lambda>_. 0)\<rparr>"

lemma frame_shows_what_a_click_finds_witness:
  "fpx (snd (snd (desktop_frame blank_term 500 400 0 (boot_windows wm_boot, \<lambda>_. 0, demo_fb)))) 800 100 = RGB 220 230 245"
proof -
  obtain m' b' f' where e: "desktop_frame blank_term 500 400 0 (boot_windows wm_boot, \<lambda>_. 0, demo_fb) = (m', b', f')"
    by (metis prod_cases3)
  have m': "g_win m' = g_win (boot_windows wm_boot)"
    using e boot_windows_idle by (auto simp: desktop_frame_def Let_def window_handle_def wm_idle_def)
  have "colour_for (g_win m') (topmost_at (int 800) (int 100) m') (int 800) (int 100) (fpx f' 800 100)"
  proof (rule frame_shows_what_a_click_finds [OF _ _ _ _ boot_windows_fit _ e, THEN conjunct2, THEN conjunct2, rule_format])
  qed (use boot_windows_idle in \<open>simp_all add: fb_ok_def demo_fb_def on_screen_def under_cursor_def wm_idle_def term_inv_def blank_term_def\<close>)
  moreover have "topmost_at (int 800) (int 100) m' = 1" unfolding topmost_at_def m'
    by (simp add: boot_windows_def window_create_def wm_boot_def window_hit_def numeral_eq_Suc)
  ultimately show ?thesis unfolding e
    by (simp add: m' colour_for_def in_content_def on_border_def boot_windows_def window_create_def wm_boot_def)
qed

end
