(* ===== verification/Console.thy ===== *)
theory Console
  imports Screen
begin

text \<open>
  The text console over the framebuffer (kernel/console.cpp): glyphs are painted into cells of the screen,
  a full screen scrolls by one text line, and an escape state machine clears and homes. The lemmas show that
  the pixels are at all times the rendering of a grid of characters, on which the console acts like a terminal.
\<close>

section \<open>State and operations\<close>

datatype console_state = CS_NORMAL | CS_ESC | CS_CSI

record console =
  con_cols :: u32
  con_rows :: u32
  con_col :: u32
  con_row :: u32
  con_fg :: u32
  con_bg :: u32
  con_ready :: bool
  con_state :: console_state
  con_param :: u32
  con_have_param :: bool

definition console_boot :: console where
  "console_boot = \<lparr>con_cols = 0, con_rows = 0, con_col = 0, con_row = 0, con_fg = 0x00FFFFFF, con_bg = 0x00202840,
     con_ready = False, con_state = CS_NORMAL, con_param = 0, con_have_param = False\<rparr>"

definition console_init :: "console \<times> fb \<Rightarrow> console \<times> fb" where
  "console_init = (\<lambda>(k, f).
     (k\<lparr>con_cols := fb_width f div of_nat FONT_W, con_rows := fb_height f div of_nat FONT_H, con_col := 0, con_row := 0,
        con_ready := True\<rparr>, fb_fill (con_bg k) f))"

definition draw_glyph :: "u8 \<Rightarrow> u32 \<Rightarrow> u32 \<Rightarrow> console \<Rightarrow> fb \<Rightarrow> fb" where
  "draw_glyph c col row k f =
     (let g = font_glyph c; x0 = col * of_nat FONT_W; y0 = row * of_nat FONT_H
      in fold (\<lambda>y. fold (\<lambda>x. fb_putpixel (x0 + of_nat x) (y0 + of_nat y)
                 (if g ! y AND drop_bit x 0x80 \<noteq> 0 then con_fg k else con_bg k)) [0..<FONT_W]) [0..<FONT_H] f)"

definition con_newline :: "console \<times> fb \<Rightarrow> console \<times> fb" where
  "con_newline = (\<lambda>(k, f).
     let k1 = k\<lparr>con_col := 0\<rparr>
     in if con_row k1 + 1 \<ge> con_rows k1 then (k1, fb_scroll_up (of_nat FONT_H) (con_bg k1) f)
        else (k1\<lparr>con_row := con_row k1 + 1\<rparr>, f))"

definition console_clear :: "console \<times> fb \<Rightarrow> console \<times> fb" where
  "console_clear = (\<lambda>(k, f). (k\<lparr>con_col := 0, con_row := 0\<rparr>, fb_fill (con_bg k) f))"

lemma unat_inc: "(w :: u32) < n \<Longrightarrow> unat (w + 1) = unat w + 1"
proof -
  assume "w < n"
  then have "unat w < unat n" by (simp add: word_less_nat_alt)
  then have "unat w + unat (1 :: u32) < 4294967296" using unat_u32_lt [of n] by (simp; linarith)
  from unat_add_u32 [OF this] show ?thesis by simp
qed

function con_tab :: "u32 \<Rightarrow> console \<times> fb \<Rightarrow> console \<times> fb" where
  "con_tab nxt (k, f) =
     (if con_col k < nxt \<and> con_col k < con_cols k
      then con_tab nxt (k\<lparr>con_col := con_col k + 1\<rparr>, draw_glyph 32 (con_col k) (con_row k) k f)
      else (k, f))"
  by pat_completeness auto

termination
proof (relation "measure (\<lambda>(nxt, k, f). unat (nxt - con_col k))")
  fix nxt :: u32 and k :: console and f
  assume "con_col k < nxt \<and> con_col k < con_cols k"
  then have lt: "con_col k < nxt" by blast
  have u: "unat (con_col k + 1) = unat (con_col k) + 1" by (rule unat_inc [OF lt])
  then have "con_col k + 1 \<le> nxt" using lt by (simp add: word_le_nat_alt word_less_nat_alt)
  then have "unat (nxt - (con_col k + 1)) < unat (nxt - con_col k)"
    using u lt by (simp only: unat_sub_le [OF \<open>con_col k + 1 \<le> nxt\<close>] unat_sub_le [OF less_imp_le [OF lt]]) (simp add: word_less_nat_alt)
  then show "((nxt, k\<lparr>con_col := con_col k + 1\<rparr>, draw_glyph 32 (con_col k) (con_row k) k f), nxt, k, f)
    \<in> measure (\<lambda>(nxt, k, f). unat (nxt - con_col k))" by simp
qed simp

declare con_tab.simps [simp del]

definition console_csi :: "u8 \<Rightarrow> console \<times> fb \<Rightarrow> console \<times> fb" where
  "console_csi c = (\<lambda>(k, f).
     if 48 \<le> c \<and> c \<le> 57 then (k\<lparr>con_param := con_param k * 10 + ucast (c - 48), con_have_param := True\<rparr>, f)
     else let (k1, f1) = (if c = 74 then (if \<not> con_have_param k \<or> con_param k = 2 then console_clear (k, f) else (k, f))
                          else if c = 72 then (k\<lparr>con_col := 0, con_row := 0\<rparr>, f) else (k, f))
          in (k1\<lparr>con_state := CS_NORMAL\<rparr>, f1))"

definition con_wrap :: "console \<times> fb \<Rightarrow> console \<times> fb" where
  "con_wrap = (\<lambda>(k, f). if con_col k \<ge> con_cols k then con_newline (k, f) else (k, f))"

definition console_putchar :: "u8 \<Rightarrow> console \<times> fb \<Rightarrow> console \<times> fb" where
  "console_putchar c = (\<lambda>(k, f).
     if con_state k = CS_ESC then
       (if c = 91 then (k\<lparr>con_state := CS_CSI, con_param := 0, con_have_param := False\<rparr>, f)
        else (k\<lparr>con_state := CS_NORMAL\<rparr>, f))
     else if con_state k = CS_CSI then console_csi c (k, f)
     else if c = 27 then (k\<lparr>con_state := CS_ESC\<rparr>, f)
     else if c = 10 then con_newline (k, f)
     else if c = 13 then (k\<lparr>con_col := 0\<rparr>, f)
     else if c = 8 then (if con_col k > 0 then (k\<lparr>con_col := con_col k - 1\<rparr>, f) else (k, f))
     else if c = 9 then con_wrap (con_tab ((con_col k + 8) AND NOT 7) (k, f))
     else con_wrap (k\<lparr>con_col := con_col k + 1\<rparr>, draw_glyph c (con_col k) (con_row k) k f))"

definition console_write :: "cstr \<Rightarrow> console \<times> fb \<Rightarrow> console \<times> fb" where
  "console_write s = fold console_putchar (takeWhile (\<lambda>c. c \<noteq> 0) s)"

section \<open>The screen as a grid of characters\<close>

type_synonym grid = "nat \<Rightarrow> nat \<Rightarrow> u8"  \<comment> \<open>row, column\<close>

definition cell_px :: "console \<Rightarrow> u8 \<Rightarrow> nat \<Rightarrow> nat \<Rightarrow> u32" where
  "cell_px k c x y = (if font_glyph c ! y AND drop_bit x 0x80 \<noteq> 0 then con_fg k else con_bg k)"

definition shows_grid :: "console \<Rightarrow> fb \<Rightarrow> grid \<Rightarrow> bool" where
  "shows_grid k f g \<longleftrightarrow> (\<forall>x y. on_screen f x y \<longrightarrow> fpx f x y =
     (if x < 8 * unat (con_cols k) \<and> y < 16 * unat (con_rows k)
      then cell_px k (g (y div 16) (x div 8)) (x mod 8) (y mod 16) else con_bg k))"

definition console_ok :: "console \<Rightarrow> fb \<Rightarrow> bool" where
  "console_ok k f \<longleftrightarrow> fb_ok f \<and> 8 dvd unat (g_pitch f)
     \<and> unat (con_cols k) = unat (g_width f) div 8 \<and> unat (con_rows k) = unat (g_height f) div 16
     \<and> unat (con_col k) < unat (con_cols k) \<and> unat (con_row k) < unat (con_rows k)"

text \<open>The console on the grid.\<close>

definition grid_blank :: grid where
  "grid_blank = (\<lambda>_ _. 32)"

definition grid_newline :: "console \<times> grid \<Rightarrow> console \<times> grid" where
  "grid_newline = (\<lambda>(k, g).
     if unat (con_row k) + 1 = unat (con_rows k)
     then (k\<lparr>con_col := 0\<rparr>, \<lambda>r c. if r + 1 < unat (con_rows k) then g (r + 1) c else 32)
     else (k\<lparr>con_col := 0, con_row := con_row k + 1\<rparr>, g))"

definition grid_put :: "u8 \<Rightarrow> console \<times> grid \<Rightarrow> console \<times> grid" where
  "grid_put c = (\<lambda>(k, g). (k\<lparr>con_col := con_col k + 1\<rparr>, g(unat (con_row k) := (g (unat (con_row k)))(unat (con_col k) := c))))"

definition grid_wrap :: "console \<times> grid \<Rightarrow> console \<times> grid" where
  "grid_wrap = (\<lambda>(k, g). if con_col k = con_cols k then grid_newline (k, g) else (k, g))"

text \<open>The number of blanks a tab writes: up to the next multiple of 8, or to the end of the row.\<close>

definition tab_width :: "console \<Rightarrow> nat" where
  "tab_width k = min (8 - unat (con_col k) mod 8) (unat (con_cols k) - unat (con_col k))"

definition grid_step :: "u8 \<Rightarrow> console \<times> grid \<Rightarrow> console \<times> grid" where
  "grid_step c = (\<lambda>(k, g).
     case con_state k of
       CS_ESC \<Rightarrow> (if c = 91 then k\<lparr>con_state := CS_CSI, con_param := 0, con_have_param := False\<rparr> else k\<lparr>con_state := CS_NORMAL\<rparr>, g)
     | CS_CSI \<Rightarrow>
         (if c \<in> {48..57} then (k\<lparr>con_param := con_param k * 10 + ucast (c - 48), con_have_param := True\<rparr>, g)
          else if c = 74 \<and> (con_have_param k \<longrightarrow> con_param k = 2)
          then (k\<lparr>con_col := 0, con_row := 0, con_state := CS_NORMAL\<rparr>, grid_blank)
          else if c = 72 then (k\<lparr>con_col := 0, con_row := 0, con_state := CS_NORMAL\<rparr>, g)
          else (k\<lparr>con_state := CS_NORMAL\<rparr>, g))
     | CS_NORMAL \<Rightarrow>
         (if c = 27 then (k\<lparr>con_state := CS_ESC\<rparr>, g)
          else if c = 10 then grid_newline (k, g)
          else if c = 13 then (k\<lparr>con_col := 0\<rparr>, g)
          else if c = 8 then (k\<lparr>con_col := (if con_col k = 0 then 0 else con_col k - 1)\<rparr>, g)
          else if c = 9 then grid_wrap ((grid_put 32 ^^ tab_width k) (k, g))
          else grid_wrap (grid_put c (k, g))))"

section \<open>The pixels follow the grid\<close>

lemma cell_index: "con_col k < con_cols k \<Longrightarrow> unat (con_col k + 1) = unat (con_col k) + 1"
  by (rule unat_inc)

lemma put_row:
  assumes "fb_ok f" "unat (x0 :: u32) + n < 4294967296"
  shows "same_geometry f (fold (\<lambda>x. fb_putpixel (x0 + of_nat x) y (h x)) [0..<n] f)
    \<and> (\<forall>u v. on_screen f u v \<longrightarrow> fpx (fold (\<lambda>x. fb_putpixel (x0 + of_nat x) y (h x)) [0..<n] f) u v
        = (if unat x0 \<le> u \<and> u < unat x0 + n \<and> v = unat y then h (u - unat x0) else fpx f u v))"
  using assms(2)
proof (induction n)
  case (Suc n)
  let ?f = "fold (\<lambda>x. fb_putpixel (x0 + of_nat x) y (h x)) [0..<n] f"
  have ih: "same_geometry f ?f" "\<And>u v. on_screen f u v \<Longrightarrow> fpx ?f u v
      = (if unat x0 \<le> u \<and> u < unat x0 + n \<and> v = unat y then h (u - unat x0) else fpx f u v)"
    using Suc by simp_all
  have ok: "fb_ok ?f" using same_geometry_on(2) [OF ih(1)] assms(1) by simp
  have e: "unat (x0 + of_nat n) = unat x0 + n"
    using Suc.prems by (subst unat_add_u32) (simp_all add: unat_of_nat_u32)
  have "same_geometry f (fb_putpixel (x0 + of_nat n) y (h n) ?f)"
    by (rule same_geometry_trans [OF ih(1) fb_putpixel_spec(1) [OF ok]])
  moreover have "fpx (fb_putpixel (x0 + of_nat n) y (h n) ?f) u v
      = (if unat x0 \<le> u \<and> u < unat x0 + Suc n \<and> v = unat y then h (u - unat x0) else fpx f u v)" if "on_screen f u v" for u v
    using fb_putpixel_spec(2) [OF ok, of u v "x0 + of_nat n" y "h n"] ih(2) [OF that] that same_geometry_on(1) [OF ih(1)]
    unfolding e by auto
  ultimately show ?case by simp
qed auto

lemma put_block:
  assumes "fb_ok f" "unat (x0 :: u32) + n < 4294967296" "unat (y0 :: u32) + m < 4294967296"
  shows "same_geometry f (fold (\<lambda>y. fold (\<lambda>x. fb_putpixel (x0 + of_nat x) (y0 + of_nat y) (h y x)) [0..<n]) [0..<m] f)
    \<and> (\<forall>u v. on_screen f u v \<longrightarrow> fpx (fold (\<lambda>y. fold (\<lambda>x. fb_putpixel (x0 + of_nat x) (y0 + of_nat y) (h y x)) [0..<n]) [0..<m] f) u v
        = (if unat x0 \<le> u \<and> u < unat x0 + n \<and> unat y0 \<le> v \<and> v < unat y0 + m then h (v - unat y0) (u - unat x0) else fpx f u v))"
  using assms(3)
proof (induction m)
  case (Suc m)
  let ?f = "fold (\<lambda>y. fold (\<lambda>x. fb_putpixel (x0 + of_nat x) (y0 + of_nat y) (h y x)) [0..<n]) [0..<m] f"
  let ?g = "fold (\<lambda>x. fb_putpixel (x0 + of_nat x) (y0 + of_nat m) (h m x)) [0..<n] ?f"
  have ih: "same_geometry f ?f" "\<And>u v. on_screen f u v \<Longrightarrow> fpx ?f u v
      = (if unat x0 \<le> u \<and> u < unat x0 + n \<and> unat y0 \<le> v \<and> v < unat y0 + m then h (v - unat y0) (u - unat x0) else fpx f u v)"
    using Suc by simp_all
  have ok: "fb_ok ?f" using same_geometry_on(2) [OF ih(1)] assms(1) by simp
  have e: "unat (y0 + of_nat m) = unat y0 + m"
    using Suc.prems by (subst unat_add_u32) (simp_all add: unat_of_nat_u32)
  note r = put_row [OF ok assms(2), of "y0 + of_nat m" "h m", unfolded e]
  have "same_geometry f ?g" using same_geometry_trans [OF ih(1)] r by blast
  moreover have "fpx ?g u v = (if unat x0 \<le> u \<and> u < unat x0 + n \<and> unat y0 \<le> v \<and> v < unat y0 + Suc m
      then h (v - unat y0) (u - unat x0) else fpx f u v)" if "on_screen f u v" for u v
  proof -
    have "fpx ?g u v = (if unat x0 \<le> u \<and> u < unat x0 + n \<and> v = unat y0 + m then h m (u - unat x0) else fpx ?f u v)"
      using r that same_geometry_on(1) [OF ih(1)] by simp
    then show ?thesis unfolding ih(2) [OF that] by auto
  qed
  ultimately show ?case by simp
qed auto

lemma cell_below: "0 < n \<Longrightarrow> c < w div n \<Longrightarrow> n * (c + 1) \<le> (w :: nat)"
proof -
  assume "c < w div n"
  then have "n * (c + 1) \<le> n * (w div n)" by (intro mult_le_mono2) simp
  then show ?thesis using times_div_less_eq_dividend [of n w] by (rule order.trans)
qed

lemma draw_glyph_spec:
  assumes ok: "console_ok k f"
  shows "same_geometry f (draw_glyph c (con_col k) (con_row k) k f)"
    and "on_screen f u v \<Longrightarrow> fpx (draw_glyph c (con_col k) (con_row k) k f) u v
      = (if u div 8 = unat (con_col k) \<and> v div 16 = unat (con_row k) then cell_px k c (u mod 8) (v mod 16) else fpx f u v)"
proof -
  let ?c = "unat (con_col k)" and ?r = "unat (con_row k)"
  have b: "?c < unat (g_width f) div 8" "?r < unat (g_height f) div 16" and f: "fb_ok f" using ok by (simp_all add: console_ok_def)
  have w: "8 * (?c + 1) \<le> unat (g_width f)" "16 * (?r + 1) \<le> unat (g_height f)" using cell_below [of 8] cell_below [of 16] b by (simp_all only: zero_less_numeral)
  have lt: "8 * (?c + 1) < 4294967296" "16 * (?r + 1) < 4294967296"
    using w unat_u32_lt [of "g_width f"] unat_u32_lt [of "g_height f"] by linarith+
  have x: "unat (con_col k * 8) = 8 * ?c" using lt(1) by (simp add: unat_word_ariths)
  have y: "unat (con_row k * 16) = 16 * ?r" using lt(2) by (simp add: unat_word_ariths)
  have xb: "unat (con_col k * 8) + 8 < 4294967296" and yb: "unat (con_row k * 16) + 16 < 4294967296"
    unfolding x y using lt by simp_all
  have e: "draw_glyph c (con_col k) (con_row k) k f = fold (\<lambda>y. fold (\<lambda>x. fb_putpixel (con_col k * 8 + of_nat x) (con_row k * 16 + of_nat y)
      (cell_px k c x y)) [0..<8]) [0..<16] f"
    by (simp add: draw_glyph_def Let_def FONT_W_def FONT_H_def cell_px_def)
  note s = put_block [OF f xb yb, of "\<lambda>y x. cell_px k c x y", unfolded x y]
  show "same_geometry f (draw_glyph c (con_col k) (con_row k) k f)" unfolding e using s by blast
  show "fpx (draw_glyph c (con_col k) (con_row k) k f) u v
      = (if u div 8 = ?c \<and> v div 16 = ?r then cell_px k c (u mod 8) (v mod 16) else fpx f u v)" if "on_screen f u v"
  proof -
    have d: "8 * ?c \<le> u \<and> u < 8 * ?c + 8 \<longleftrightarrow> u div 8 = ?c" "16 * ?r \<le> v \<and> v < 16 * ?r + 16 \<longleftrightarrow> v div 16 = ?r" by linarith+
    have m: "u div 8 = ?c \<Longrightarrow> u - 8 * ?c = u mod 8" "v div 16 = ?r \<Longrightarrow> v - 16 * ?r = v mod 16"
      by (metis minus_mult_div_eq_mod)+
    have "fpx (draw_glyph c (con_col k) (con_row k) k f) u v = (if (8 * ?c \<le> u \<and> u < 8 * ?c + 8) \<and> (16 * ?r \<le> v \<and> v < 16 * ?r + 16)
        then cell_px k c (u - 8 * ?c) (v - 16 * ?r) else fpx f u v)" unfolding e using s that by simp
    then show ?thesis unfolding d using m by simp
  qed
qed

lemma shows_cong:
  "con_cols k' = con_cols k \<Longrightarrow> con_rows k' = con_rows k \<Longrightarrow> con_fg k' = con_fg k \<Longrightarrow> con_bg k' = con_bg k
    \<Longrightarrow> shows_grid k' f g = shows_grid k f g"
  by (simp add: shows_grid_def cell_px_def)

lemma font_blank: "y < 16 \<Longrightarrow> font_glyph 32 ! y = 0"
proof -
  have "\<forall>b \<in> set (font_glyph 32). b = 0" by (simp add: font_glyph_def g_font_def)
  then show "y < 16 \<Longrightarrow> ?thesis" using length_font_glyph [of 32] by (simp add: FONT_H_def)
qed

lemma cell_px_blank: "y < 16 \<Longrightarrow> cell_px k 32 x y = con_bg k"
  by (simp add: cell_px_def font_blank)

lemma shows_blank:
  assumes "fb_ok f"
  shows "shows_grid k (fb_fill (con_bg k) f) grid_blank"
  using fb_fill_spec [OF assms] same_geometry_on(1) [OF fb_fill_spec(1) [OF assms]]
  by (simp add: shows_grid_def grid_blank_def cell_px_blank)

lemma put_shows:
  assumes ok: "console_ok k f" and "shows_grid k f g"
  shows "shows_grid k (draw_glyph c (con_col k) (con_row k) k f) (snd (grid_put c (k, g)))"
  unfolding shows_grid_def
proof (intro allI impI)
  let ?f = "draw_glyph c (con_col k) (con_row k) k f"
  fix x y assume "on_screen ?f x y"
  then have on: "on_screen f x y" using same_geometry_on(1) [OF draw_glyph_spec(1) [OF ok]] by simp
  have b: "unat (con_col k) < unat (con_cols k)" "unat (con_row k) < unat (con_rows k)" using ok by (simp_all add: console_ok_def)
  have i: "x < 8 * unat (con_cols k)" if "x div 8 = unat (con_col k)" using that b(1) by linarith
  have j: "y < 16 * unat (con_rows k)" if "y div 16 = unat (con_row k)" using that b(2) by linarith
  have "fpx f x y = (if x < 8 * unat (con_cols k) \<and> y < 16 * unat (con_rows k)
      then cell_px k (g (y div 16) (x div 8)) (x mod 8) (y mod 16) else con_bg k)"
    using assms(2) on by (simp add: shows_grid_def)
  then show "fpx ?f x y = (if x < 8 * unat (con_cols k) \<and> y < 16 * unat (con_rows k)
      then cell_px k (snd (grid_put c (k, g)) (y div 16) (x div 8)) (x mod 8) (y mod 16) else con_bg k)"
    unfolding draw_glyph_spec(2) [OF ok on] using i j by (auto simp: grid_put_def)
qed

text \<open>Scrolling by 16 lines moves every row of characters up by one and leaves the last row blank.\<close>

lemma scroll_shows:
  assumes ok: "console_ok k f" and s: "shows_grid k f g"
  shows "same_geometry f (fb_scroll_up 16 (con_bg k) f)"
    and "shows_grid k (fb_scroll_up 16 (con_bg k) f) (\<lambda>r c. if r + 1 < unat (con_rows k) then g (r + 1) c else 32)"
proof -
  have f: "fb_ok f" "8 dvd unat (g_pitch f)" using ok by (simp_all add: console_ok_def)
  have on0: "on_screen f 0 0" using ok by (auto simp: console_ok_def on_screen_def intro!: Nat.gr0I)
  show g': "same_geometry f (fb_scroll_up 16 (con_bg k) f)" by (rule fb_scroll_spec(1) [OF f on0]) simp
  have R: "unat (con_rows k) = unat (g_height f) div 16" using ok by (simp add: console_ok_def)
  show "shows_grid k (fb_scroll_up 16 (con_bg k) f) (\<lambda>r c. if r + 1 < unat (con_rows k) then g (r + 1) c else 32)"
    unfolding shows_grid_def
  proof (intro allI impI)
    let ?R = "unat (con_rows k)" and ?C = "unat (con_cols k)" and ?h = "unat (g_height f)"
    fix x y assume "on_screen (fb_scroll_up 16 (con_bg k) f) x y"
    then have on: "on_screen f x y" using same_geometry_on(1) [OF g'] by simp
    have p: "fpx (fb_scroll_up 16 (con_bg k) f) x y = (if y + 16 < ?h then fpx f x (y + 16) else con_bg k)"
      using fb_scroll_spec(2) [OF f on, of 16] by simp
    have d: "(y + 16) div 16 = y div 16 + 1" "(y + 16) mod 16 = y mod 16" by simp_all
    show "fpx (fb_scroll_up 16 (con_bg k) f) x y = (if x < 8 * ?C \<and> y < 16 * ?R
        then cell_px k (if y div 16 + 1 < ?R then g (y div 16 + 1) (x div 8) else 32) (x mod 8) (y mod 16) else con_bg k)"
    proof (cases "y + 16 < ?h")
      case True
      then have "on_screen f x (y + 16)" using on by (simp add: on_screen_def)
      then have "fpx f x (y + 16) = (if x < 8 * ?C \<and> y + 16 < 16 * ?R
          then cell_px k (g (y div 16 + 1) (x div 8)) (x mod 8) (y mod 16) else con_bg k)"
        using s unfolding shows_grid_def by (metis d)
      moreover have "y + 16 < 16 * ?R \<longleftrightarrow> y div 16 + 1 < ?R" by linarith
      ultimately show ?thesis unfolding p using True by (auto simp: cell_px_blank)
    next
      case False
      have "\<not> y div 16 + 1 < ?R" using False unfolding R by linarith
      then show ?thesis unfolding p using False by (simp add: cell_px_blank)
    qed
  qed
qed

section \<open>The console acts on the grid\<close>

text \<open>The two sides agree; \<open>agree_wide\<close> also allows the cursor behind the last column, where a row ends.\<close>

definition agree_wide :: "console \<times> fb \<Rightarrow> console \<times> grid \<Rightarrow> bool" where
  "agree_wide = (\<lambda>(k, f) (k', g). k' = k \<and> shows_grid k f g \<and> fb_ok f \<and> 8 dvd unat (g_pitch f)
     \<and> unat (con_cols k) = unat (g_width f) div 8 \<and> unat (con_rows k) = unat (g_height f) div 16
     \<and> unat (con_col k) \<le> unat (con_cols k) \<and> 0 < unat (con_cols k) \<and> unat (con_row k) < unat (con_rows k))"

definition agree :: "console \<times> fb \<Rightarrow> console \<times> grid \<Rightarrow> bool" where
  "agree a b \<longleftrightarrow> agree_wide a b \<and> con_col (fst a) < con_cols (fst a)"

lemma agree_iff: "agree (k, f) (k', g) \<longleftrightarrow> k' = k \<and> console_ok k f \<and> shows_grid k f g"
  by (auto simp: agree_def agree_wide_def console_ok_def word_less_nat_alt)

text \<open>Changes of the control state that keep the cursor in its range.\<close>

lemma agree_control:
  assumes "agree (k, f) (k, g)" and "con_cols k' = con_cols k" "con_rows k' = con_rows k" "con_fg k' = con_fg k" "con_bg k' = con_bg k"
    and "con_col k' < con_cols k" "con_row k' < con_rows k"
  shows "agree (k', f) (k', g)"
  using assms(1,6,7) shows_cong [OF assms(2-5)] assms(2,3) by (simp add: agree_iff console_ok_def word_less_nat_alt)

lemma agree_cursor: "agree (k, f) (k, g) \<Longrightarrow> con_col k < con_cols k \<and> con_row k < con_rows k \<and> 0 < con_cols k \<and> 0 < con_rows k"
  by (auto simp: agree_iff console_ok_def word_less_nat_alt)

lemma same_geometry_ok:
  "same_geometry f f' \<Longrightarrow> console_ok k f' = console_ok k f"
  by (simp add: console_ok_def same_geometry_on(2)) (simp add: same_geometry_def)

lemma put_agrees:
  assumes "agree (k, f) (k, g)"
  shows "agree_wide (k\<lparr>con_col := con_col k + 1\<rparr>, draw_glyph c (con_col k) (con_row k) k f) (grid_put c (k, g))"
proof -
  let ?f = "draw_glyph c (con_col k) (con_row k) k f"
  have ok: "console_ok k f" and s: "shows_grid k f g" using assms by (simp_all add: agree_iff)
  have g: "same_geometry f ?f" by (rule draw_glyph_spec(1) [OF ok])
  have "console_ok k ?f" using same_geometry_ok [OF g] ok by simp
  moreover have "shows_grid (k\<lparr>con_col := con_col k + 1\<rparr>) ?f (snd (grid_put c (k, g)))"
    using put_shows [OF ok s, of c] shows_cong [of "k\<lparr>con_col := con_col k + 1\<rparr>" k] by simp
  moreover have "unat (con_col k + 1) = unat (con_col k) + 1"
    by (rule cell_index) (use ok in \<open>simp add: console_ok_def word_less_nat_alt\<close>)
  ultimately show ?thesis by (simp add: agree_wide_def console_ok_def grid_put_def)
qed

lemma newline_agrees:
  assumes "agree_wide (k, f) (k, g)"
  shows "agree (con_newline (k, f)) (grid_newline (k, g))"
proof -
  have r: "unat (con_row k) < unat (con_rows k)" using assms by (simp add: agree_wide_def)
  then have u: "unat (con_row k + 1) = unat (con_row k) + 1" by (intro unat_inc) (simp add: word_less_nat_alt)
  let ?k = "k\<lparr>con_col := 0\<rparr>"
  have 0: "agree (?k, f) (?k, g)"
    using assms shows_cong [of ?k k] by (simp add: agree_def agree_wide_def word_less_nat_alt)
  show ?thesis
  proof (cases "unat (con_row k) + 1 = unat (con_rows k)")
    case True
    have ok: "console_ok ?k f" "shows_grid ?k f g" using 0 by (simp_all add: agree_iff)
    have "console_ok ?k (fb_scroll_up 16 (con_bg ?k) f)" using same_geometry_ok [OF scroll_shows(1) [OF ok]] ok(1) by simp
    moreover have "con_newline (k, f) = (?k, fb_scroll_up 16 (con_bg ?k) f)"
      using True u by (simp add: con_newline_def Let_def word_le_nat_alt FONT_H_def)
    ultimately show ?thesis using True scroll_shows(2) [OF ok] by (simp add: agree_iff grid_newline_def)
  next
    case False
    then have lt: "con_row k + 1 < con_rows k" using r u by (simp add: word_less_nat_alt)
    have "con_newline (k, f) = (?k\<lparr>con_row := con_row k + 1\<rparr>, f)"
      using lt by (simp add: con_newline_def Let_def not_le)
    moreover have "agree (?k\<lparr>con_row := con_row k + 1\<rparr>, f) (?k\<lparr>con_row := con_row k + 1\<rparr>, g)"
      by (rule agree_control [OF 0]) (use agree_cursor [OF 0] lt in simp_all)
    ultimately show ?thesis using False by (simp add: grid_newline_def)
  qed
qed

lemma wrap_agrees:
  assumes "agree_wide (k, f) (k', g)"
  shows "agree (con_wrap (k, f)) (grid_wrap (k', g))"
proof -
  have k: "k' = k" and le: "con_col k \<le> con_cols k" using assms by (simp_all add: agree_wide_def word_le_nat_alt)
  show ?thesis
  proof (cases "con_col k = con_cols k")
    case True
    then show ?thesis using newline_agrees [of k f g] assms unfolding k by (simp add: con_wrap_def grid_wrap_def)
  next
    case False
    then show ?thesis using assms le unfolding k by (simp add: con_wrap_def grid_wrap_def agree_def)
  qed
qed

lemma clear_agrees:
  assumes "agree (k, f) (k, g)"
  shows "agree (console_clear (k, f)) (k\<lparr>con_col := 0, con_row := 0\<rparr>, grid_blank)"
proof -
  let ?k = "k\<lparr>con_col := 0, con_row := 0\<rparr>"
  have "agree (?k, f) (?k, g)" by (rule agree_control [OF assms]) (use agree_cursor [OF assms] in simp_all)
  then have ok: "console_ok ?k f" by (simp add: agree_iff)
  then have f: "fb_ok f" by (simp add: console_ok_def)
  have "shows_grid ?k (fb_fill (con_bg ?k) f) grid_blank" by (rule shows_blank [OF f])
  then show ?thesis using ok same_geometry_ok [OF fb_fill_spec(1) [OF f]] by (simp add: agree_iff console_clear_def)
qed

lemma tab_agrees:
  assumes "agree_wide (k, f) (k, g)" and "n = min (unat nxt - unat (con_col k)) (unat (con_cols k) - unat (con_col k))"
  shows "agree_wide (con_tab nxt (k, f)) ((grid_put 32 ^^ n) (k, g))"
  using assms
proof (induction n arbitrary: k f g)
  case 0
  then have "\<not> (con_col k < nxt \<and> con_col k < con_cols k)" by (auto simp: word_less_nat_alt)
  then show ?case using 0 by (subst con_tab.simps) auto
next
  case (Suc n)
  then have lt: "con_col k < nxt" "con_col k < con_cols k" by (auto simp: word_less_nat_alt)
  let ?k = "k\<lparr>con_col := con_col k + 1\<rparr>" and ?f = "draw_glyph 32 (con_col k) (con_row k) k f"
  have "agree (k, f) (k, g)" using Suc.prems(1) lt(2) by (simp add: agree_def)
  then have w: "agree_wide (?k, ?f) (?k, snd (grid_put 32 (k, g)))" using put_agrees [of k f g 32] by (simp add: grid_put_def)
  have "n = min (unat nxt - unat (con_col ?k)) (unat (con_cols ?k) - unat (con_col ?k))"
    using Suc.prems(2) unat_inc [OF lt(2)] by simp
  moreover have p: "(?k, snd (grid_put 32 (k, g))) = grid_put 32 (k, g)" by (simp add: grid_put_def)
  ultimately have "agree_wide (con_tab nxt (?k, ?f)) ((grid_put 32 ^^ n) (grid_put 32 (k, g)))"
    using Suc.IH [OF w] unfolding p by blast
  then show ?case using lt by (subst con_tab.simps) (simp add: funpow_swap1)
qed

lemma unat_tab_stop:
  assumes "unat (c :: u32) < 536870912"
  shows "unat ((c + 8) AND NOT 7) = (unat c div 8 + 1) * 8"
proof -
  have "(7 :: u32) = mask 3" by (simp add: mask_eq_exp_minus_1)
  then have "unat ((c + 8) AND NOT 7) = unat (c + 8) div 8 * 8" using unat_and_not_mask [of "c + 8" 3] by simp
  moreover have "unat (c + 8) = unat c + 8" using assms by (subst unat_add_u32) simp_all
  moreover have "(unat c + 8) div 8 = unat c div 8 + 1" by simp
  ultimately show ?thesis by (simp only:)
qed

lemma putchar_agrees:
  assumes a: "agree (k, f) (k, g)"
  shows "agree (console_putchar c (k, f)) (grid_step c (k, g))"
proof -
  note cur = agree_cursor [OF a]
  have wide: "agree_wide (k, f) (k, g)" using a by (simp add: agree_def)
  note ctl = agree_control [OF a]
  show ?thesis
  proof (cases "con_state k")
    case CS_ESC
    then show ?thesis using cur by (auto simp: console_putchar_def grid_step_def intro!: ctl)
  next
    case CS_CSI
    have "agree (console_csi c (k, f)) (grid_step c (k, g))"
    proof (cases "c = 74 \<and> (con_have_param k \<longrightarrow> con_param k = 2)")
      case True
      obtain k1 f1 where c1: "console_clear (k, f) = (k1, f1)" by (cases "console_clear (k, f)")
      have k1: "k1 = k\<lparr>con_col := 0, con_row := 0\<rparr>" using c1 by (simp add: console_clear_def)
      have 0: "agree (k1, f1) (k1, grid_blank)" using clear_agrees [OF a] unfolding c1 k1 .
      have "agree (k1\<lparr>con_state := CS_NORMAL\<rparr>, f1) (k1\<lparr>con_state := CS_NORMAL\<rparr>, grid_blank)"
        by (rule agree_control [OF 0]) (simp_all add: agree_cursor [OF 0])
      moreover have "console_csi c (k, f) = (k1\<lparr>con_state := CS_NORMAL\<rparr>, f1)" using True c1 by (auto simp: console_csi_def Let_def)
      ultimately show ?thesis using True CS_CSI k1 by (simp add: grid_step_def)
    next
      case False
      then show ?thesis using CS_CSI cur by (auto simp: console_csi_def grid_step_def Let_def intro!: ctl)
    qed
    then show ?thesis using CS_CSI by (simp add: console_putchar_def)
  next
    case CS_NORMAL
    consider "c = 27" | "c = 10" | "c = 13" | "c = 8" | "c = 9" | "c \<notin> {27, 10, 13, 8, 9}" by blast
    then show ?thesis
    proof cases
      case 2
      then show ?thesis using CS_NORMAL newline_agrees [OF wide] by (simp add: console_putchar_def grid_step_def)
    next
      case 4
      have "con_col k - 1 < con_cols k" if "con_col k \<noteq> 0"
      proof -
        have "1 \<le> con_col k" using that by (simp add: word_le_nat_alt Suc_le_eq unat_gt_0)
        then have "unat (con_col k - 1) = unat (con_col k) - 1" by (simp add: unat_sub_le)
        then show ?thesis using cur by (simp add: word_less_nat_alt; linarith)
      qed
      moreover have "agree (k, f) (k\<lparr>con_col := 0\<rparr>, g)" if "con_col k = 0"
      proof -
        have "k\<lparr>con_col := 0\<rparr> = k" using that by (cases k) simp
        then show ?thesis using a by (simp only:)
      qed
      ultimately show ?thesis using 4 CS_NORMAL cur by (auto simp: console_putchar_def grid_step_def word_gt_0 intro!: ctl)
    next
      case 5
      have cols: "unat (con_cols k) < 536870912" using a unat_u32_lt [of "g_width f"]
        by (simp add: agree_iff console_ok_def div_less_iff_less_mult)
      then have lt: "unat (con_col k) < 536870912" using cur by (simp add: word_less_nat_alt)
      have n: "tab_width k = min (unat ((con_col k + 8) AND NOT 7) - unat (con_col k)) (unat (con_cols k) - unat (con_col k))"
        unfolding unat_tab_stop [OF lt] tab_width_def by (rule arg_cong2 [of _ _ _ _ min]) presburger+
      obtain k1 f1 k2 g2 where e: "con_tab ((con_col k + 8) AND NOT 7) (k, f) = (k1, f1)" "(grid_put 32 ^^ tab_width k) (k, g) = (k2, g2)"
        by (metis surj_pair)
      have "agree_wide (k1, f1) (k2, g2)" using tab_agrees [OF wide n] unfolding e .
      then show ?thesis using 5 CS_NORMAL wrap_agrees [of k1 f1 k2 g2] e by (simp add: console_putchar_def grid_step_def)
    next
      case 6
      obtain k2 g2 where e: "grid_put c (k, g) = (k2, g2)" by (cases "grid_put c (k, g)")
      have "agree_wide (k\<lparr>con_col := con_col k + 1\<rparr>, draw_glyph c (con_col k) (con_row k) k f) (k2, g2)"
        using put_agrees [OF a, of c] e by simp
      then show ?thesis using 6 CS_NORMAL wrap_agrees e by (simp add: console_putchar_def grid_step_def)
    qed (use CS_NORMAL cur in \<open>auto simp: console_putchar_def grid_step_def intro!: ctl\<close>)
  qed
qed

lemma agree_fold:
  "agree a b \<Longrightarrow> agree (fold console_putchar cs a) (fold grid_step cs b)"
proof (induction cs arbitrary: a b)
  case (Cons c cs)
  obtain k f k' g where ab: "a = (k, f)" "b = (k', g)" by (metis surj_pair)
  then have "k' = k" using Cons.prems by (simp add: agree_iff)
  then show ?case using Cons putchar_agrees ab by simp
qed simp

lemma init_agrees:
  assumes "fb_ok f" "8 dvd unat (g_pitch f)" "8 \<le> unat (g_width f)" "16 \<le> unat (g_height f)"
  shows "agree (console_init (k, f)) (fst (console_init (k, f)), grid_blank)"
proof -
  let ?k = "fst (console_init (k, f))" and ?f = "fb_fill (con_bg k) f"
  have e: "console_init (k, f) = (?k, ?f)" by (simp add: console_init_def)
  have g: "same_geometry f ?f" by (rule fb_fill_spec(1) [OF assms(1)])
  have u: "unat (con_cols ?k) = unat (g_width f) div 8" "unat (con_rows ?k) = unat (g_height f) div 16"
    by (simp_all add: console_init_def FONT_W_def FONT_H_def fb_width_def fb_height_def unat_div)
  have c: "con_col ?k = 0" "con_row ?k = 0" "con_bg ?k = con_bg k" by (simp_all add: console_init_def)
  have "console_ok ?k f" using assms u c by (simp add: console_ok_def Suc_le_eq div_greater_zero_iff)
  then have "console_ok ?k ?f" using same_geometry_ok [OF g] by simp
  moreover have "shows_grid ?k ?f grid_blank" using shows_blank [OF assms(1), of ?k] c(3) by simp
  ultimately have "agree (?k, ?f) (?k, grid_blank)" unfolding agree_iff by blast
  then show ?thesis using e by metis
qed

text \<open>
  C38. From \<open>console_init\<close> on, whatever bytes are written (text, control characters, escape sequences), the
  pixels of the screen are the rendering of a grid of characters: printing puts one character at the cursor,
  a tab writes blanks, a line that overflows the last row moves every row up by one, and the clear sequence
  blanks the grid. The cursor never leaves the grid.
\<close>

theorem console_shows_its_text:
  assumes "fb_ok f" "8 dvd unat (g_pitch f)" "8 \<le> unat (g_width f)" "16 \<le> unat (g_height f)"
    and "fold console_putchar cs (console_init (k0, f)) = (k, f')"
    and "fold grid_step cs (fst (console_init (k0, f)), grid_blank) = (k', g)"
  shows "k' = k \<and> console_ok k f' \<and> shows_grid k f' g"
  using agree_fold [OF init_agrees [OF assms(1-4), of k0], of cs] unfolding assms(5,6) by (simp add: agree_iff)

lemma console_shows_its_text_witness:
  "fpx (snd (fold console_putchar [72, 10, 105] (console_init (console_boot, demo_fb)))) 4 18 = 0x00FFFFFF"
proof -
  let ?i = "console_init (console_boot, demo_fb)"
  obtain k f where a: "fold console_putchar [72, 10, 105] ?i = (k, f)" by (cases "fold console_putchar [72, 10, 105] ?i")
  obtain k' g where b: "fold grid_step [72, 10, 105] (fst ?i, grid_blank) = (k', g)"
    by (cases "fold grid_step [72, 10, 105] (fst ?i, grid_blank)")
  have r: "k' = k \<and> console_ok k f \<and> shows_grid k f g"
    by (rule console_shows_its_text [OF _ _ _ _ a b]) (simp_all add: fb_ok_def demo_fb_def)
  have i: "fst ?i = console_boot\<lparr>con_cols := 128, con_rows := 48, con_ready := True\<rparr>"
    by (simp add: console_init_def console_boot_def demo_fb_def fb_width_def fb_height_def FONT_W_def FONT_H_def)
  have g: "g 1 0 = 105" "con_cols k' = 128" "con_rows k' = 48" "con_fg k' = 0x00FFFFFF"
    using b unfolding i by (auto simp: grid_step_def grid_put_def grid_wrap_def grid_newline_def console_boot_def grid_blank_def)
  have "unat (g_width f) div 8 = 128" "unat (g_height f) div 16 = 48" using r g by (auto simp: console_ok_def)
  then have "4 < unat (g_width f)" "18 < unat (g_height f)" using cell_below [of 8 127] cell_below [of 16 47] by fastforce+
  then have "fpx f 4 18 = cell_px k (g 1 0) 4 2" using r g by (simp add: shows_grid_def on_screen_def)
  also have "\<dots> = 0x00FFFFFF" using r g by (simp add: cell_px_def font_glyph_def g_font_def)
  finally show ?thesis unfolding a by simp
qed

end
