(* ===== verification/Pic.thy ===== *)
theory Pic
  imports Hrafn_Prelude
begin

text \<open>
  Port output (kernel/io.hpp), the interrupt controllers and the timer (kernel/pic.cpp). What the devices
  do with a byte is not in the repository: a driver's effect is the sequence of bytes it writes to the
  ports, and a value it reads is an argument.
\<close>

type_synonym port_log = "(u16 \<times> u8) list"

definition outb :: "u16 \<Rightarrow> u8 \<Rightarrow> port_log \<Rightarrow> port_log" where
  "outb port val l = l @ [(port, val)]"

definition io_wait :: "port_log \<Rightarrow> port_log" where
  "io_wait l = outb 0x80 0 l"

section \<open>The interrupt controllers\<close>

definition PIC1_CMD :: u16 where "PIC1_CMD = 0x20"
definition PIC1_DATA :: u16 where "PIC1_DATA = 0x21"
definition PIC2_CMD :: u16 where "PIC2_CMD = 0xA0"
definition PIC2_DATA :: u16 where "PIC2_DATA = 0xA1"
definition PIC_EOI :: u8 where "PIC_EOI = 0x20"

definition pic_remap :: "port_log \<Rightarrow> port_log" where
  "pic_remap l =
     (let l1 = io_wait (outb PIC2_CMD 0x11 (io_wait (outb PIC1_CMD 0x11 l)));
          l2 = io_wait (outb PIC2_DATA 0x28 (io_wait (outb PIC1_DATA 0x20 l1)));
          l3 = io_wait (outb PIC2_DATA 0x02 (io_wait (outb PIC1_DATA 0x04 l2)));
          l4 = io_wait (outb PIC2_DATA 0x01 (io_wait (outb PIC1_DATA 0x01 l3)))
      in outb PIC2_DATA 0xFF (outb PIC1_DATA 0xF8 l4))"

definition pic_send_eoi :: "u8 \<Rightarrow> port_log \<Rightarrow> port_log" where
  "pic_send_eoi irq l = outb PIC1_CMD PIC_EOI (if irq \<ge> 8 then outb PIC2_CMD PIC_EOI l else l)"

text \<open>\<open>inb\<close> is what the ports read at the time of the call.\<close>

definition pic_unmask :: "(u16 \<Rightarrow> u8) \<Rightarrow> u8 \<Rightarrow> port_log \<Rightarrow> port_log" where
  "pic_unmask inb irq l =
     (let port = (if irq < 8 then PIC1_DATA else PIC2_DATA);
          b = (if irq < 8 then irq else irq - 8)
      in outb port (inb port AND NOT (push_bit (unat b) 1)) l)"

section \<open>The timer\<close>

definition PIT_FREQ :: u32 where "PIT_FREQ = 1193182"

definition pit_init :: "u32 \<Rightarrow> port_log \<Rightarrow> port_log" where
  "pit_init hz l =
     (let divisor = PIT_FREQ div hz
      in outb 0x40 (ucast (drop_bit 8 divisor AND 0xFF)) (outb 0x40 (ucast (divisor AND 0xFF)) (outb 0x43 0x36 l)))"

section \<open>What is masked\<close>

text \<open>The byte last written to a port; a data port of a controller reads back the mask written last.\<close>

definition last_write :: "u16 \<Rightarrow> port_log \<Rightarrow> u8" where
  "last_write p l = (case filter (\<lambda>(q, v). q = p) (rev l) of [] \<Rightarrow> 0 | (q, v) # _ \<Rightarrow> v)"

lemma last_write_outb [simp]: "last_write p (outb q v l) = (if p = q then v else last_write p l)"
  by (auto simp: last_write_def outb_def)

definition line_open :: "nat \<Rightarrow> port_log \<Rightarrow> bool" where
  "line_open irq l \<longleftrightarrow> (if irq < 8 then \<not> bit (last_write PIC1_DATA l) irq else \<not> bit (last_write PIC2_DATA l) (irq - 8))"

lemma unmask_opens_line:
  assumes "irq < 16" "n < 16"
  shows "line_open n (pic_unmask (\<lambda>p. last_write p l) irq l) \<longleftrightarrow> n = unat irq \<or> line_open n l"
proof -
  have sub: "unat (irq - 8) = unat irq - 8" if "\<not> irq < 8" using that by (simp add: unat_sub_le not_less word_le_nat_alt)
  have i: "unat irq < 16" "irq < 8 \<longleftrightarrow> unat irq < 8" using assms(1) by (simp_all add: word_less_nat_alt)
  have p: "PIC1_DATA \<noteq> PIC2_DATA" by (simp add: PIC1_DATA_def PIC2_DATA_def)
  show ?thesis
    using assms(2) i p by (cases "irq < 8") (auto simp: pic_unmask_def line_open_def bit_simps sub)
qed

text \<open>After \<^verbatim>\<open>pic_remap\<close> and the mouse driver's \<^verbatim>\<open>pic_unmask(12)\<close>: timer, keyboard, cascade and mouse.\<close>

lemma remap_opens:
  assumes "n < 16"
  shows "line_open n (pic_remap l) \<longleftrightarrow> n \<in> {0, 1, 2}"
proof -
  have m: "last_write PIC1_DATA (pic_remap l) = 0xF8" "last_write PIC2_DATA (pic_remap l) = 0xFF"
    by (simp_all add: pic_remap_def Let_def io_wait_def PIC1_DATA_def PIC2_DATA_def)
  have b: "\<forall>k \<in> {0..<8}. \<not> bit (0xF8 :: u8) k \<longleftrightarrow> k \<in> {0, 1, 2}" "\<forall>k \<in> {0..<8}. bit (0xFF :: u8) k"
    by (simp_all add: atLeastLessThan_nat_numeral atLeastLessThanSuc bit_numeral_simps numeral_eq_Suc)
  show ?thesis
  proof (cases "n < 8")
    case True
    then show ?thesis using b(1) by (simp add: line_open_def m)
  next
    case False
    then have "n - 8 \<in> {0..<8}" using assms by simp
    then have "bit (0xFF :: u8) (n - 8)" using b(2) by blast
    then show ?thesis using False by (auto simp: line_open_def m)
  qed
qed

text \<open>The timer gets its divisor low byte first.\<close>

lemma pit_divisor:
  assumes "PIT_FREQ div hz < 65536"
  shows "\<exists>lo hi. pit_init hz l = l @ [(0x43, 0x36), (0x40, lo), (0x40, hi)] \<and> unat lo + 256 * unat hi = unat (PIT_FREQ div hz)"
proof -
  let ?d = "PIT_FREQ div hz"
  have m: "0xFF = (mask 8 :: u32)" by (simp add: mask_eq_exp_minus_1)
  have d: "unat ?d < 65536" using assms by (simp add: word_less_nat_alt)
  have lo: "unat (ucast (?d AND 0xFF) :: u8) = unat ?d mod 256"
    unfolding m by (simp add: unsigned_ucast_eq unsigned_take_bit_eq take_bit_eq_mod unat_mod unat_div drop_bit_eq_div flip: take_bit_eq_mask)
  have "unat (drop_bit 8 ?d) = unat ?d div 256" by (simp add: unat_drop_bit_eq drop_bit_eq_div unat_div)
  then have hi: "unat (ucast (drop_bit 8 ?d AND 0xFF) :: u8) = unat ?d div 256"
    unfolding m using d by (simp add: unsigned_ucast_eq unsigned_take_bit_eq take_bit_eq_mod unat_mod unat_div drop_bit_eq_div flip: take_bit_eq_mask)
  show ?thesis using lo hi by (auto simp: pit_init_def Let_def outb_def)
qed

end
