(* ===== verification/Serial.thy ===== *)
theory Serial
  imports Console Pic
begin

text \<open>
  Kernel messages (kernel/serial.cpp): characters go to the serial port and, once the console is up, to the
  screen. The port's wait for a free transmitter only delays. The lemmas show that the printers of numbers,
  which divide by repeated subtraction and by shifts, print the decimal and hexadecimal numerals.
\<close>

section \<open>Output\<close>

record kout =
  ko_serial :: "u8 list"  \<comment> \<open>the bytes sent\<close>
  ko_console :: console
  ko_fb :: fb

definition serial_init :: "port_log \<Rightarrow> port_log" where
  "serial_init l = outb 0x3FC 0x0B (outb 0x3FA 0xC7 (outb 0x3FB 0x03 (outb 0x3F9 0x00 (outb 0x3F8 0x03
     (outb 0x3FB 0x80 (outb 0x3F9 0x00 l))))))"

definition kprint_char :: "u8 \<Rightarrow> kout \<Rightarrow> kout" where
  "kprint_char c o1 =
     (let o2 = o1\<lparr>ko_serial := ko_serial o1 @ [c]\<rparr>
      in if con_ready (ko_console o2)
         then (let (k, f) = console_putchar c (ko_console o2, ko_fb o2) in o2\<lparr>ko_console := k, ko_fb := f\<rparr>)
         else o2)"

definition kprint :: "cstr \<Rightarrow> kout \<Rightarrow> kout" where
  "kprint s = fold kprint_char (takeWhile (\<lambda>c. c \<noteq> 0) s)"

text \<open>The loop \<^verbatim>\<open>while (n >= p) { n -= p; d++; }\<close>\<close>

function sub_loop :: "u32 \<Rightarrow> u32 \<Rightarrow> u8 \<Rightarrow> u32 \<times> u8" where
  "sub_loop p n d = (if n \<ge> p \<and> p \<noteq> 0 then sub_loop p (n - p) (d + 1) else (n, d))"
  by pat_completeness auto
termination
proof (relation "measure (\<lambda>(p, n, d). unat n)")
  fix p n :: u32 and d :: u8
  assume "n \<ge> p \<and> p \<noteq> 0"
  then have "unat (n - p) < unat n" by (simp add: unat_sub_le word_le_nat_alt unat_gt_0 [symmetric])
  then show "((p, n - p, d + 1), p, n, d) \<in> measure (\<lambda>(p, n, d). unat n)" by simp
qed simp

declare sub_loop.simps [simp del]

text \<open>The macro \<^verbatim>\<open>DIGIT(p)\<close>; the state is what is left of the number, the flag \<^verbatim>\<open>s\<close> and the output.\<close>

definition print_digit :: "u32 \<Rightarrow> u32 \<times> bool \<times> kout \<Rightarrow> u32 \<times> bool \<times> kout" where
  "print_digit p = (\<lambda>(n, s, k).
     let (n1, d) = sub_loop p n 0
     in if d \<noteq> 0 \<or> s then (n1, True, kprint_char (48 + d) k) else (n1, s, k))"

definition kprint_uint :: "u32 \<Rightarrow> kout \<Rightarrow> kout" where
  "kprint_uint n k =
     (if n = 0 then kprint_char 48 k
      else let (n1, s, k1) = fold print_digit
             [1000000000, 100000000, 10000000, 1000000, 100000, 10000, 1000, 100, 10] (n, False, k)
           in kprint_char (48 + ucast n1) k1)"

definition hex_char :: "u32 \<Rightarrow> u8" where
  "hex_char nibble = (if nibble < 10 then 48 + ucast nibble else 65 + ucast nibble - 10)"

definition kprint_hex :: "u32 \<Rightarrow> kout \<Rightarrow> kout" where
  "kprint_hex n k0 =
     (let (leading, k) = fold (\<lambda>i (leading, k).
            let nibble = drop_bit (i * 4) n AND 0xF; leading = (leading \<and> nibble = 0)
            in (leading, if \<not> leading then kprint_char (hex_char nibble) k else k))
          [7, 6, 5, 4, 3, 2, 1, 0] (True, kprint (str ''0x'') k0)
      in if leading then kprint_char 48 k else k)"

definition kprint_ptr :: "u64 \<Rightarrow> kout \<Rightarrow> kout" where
  "kprint_ptr addr k0 =
     fold (\<lambda>i. kprint_char (hex_char (ucast (drop_bit (i * 4) addr AND 0xF))))
       [15, 14, 13, 12, 11, 10, 9, 8, 7, 6, 5, 4, 3, 2, 1, 0] (kprint (str ''0x'') k0)"

section \<open>Numerals\<close>

text \<open>The digits of a number, most significant first.\<close>

function digits :: "nat \<Rightarrow> nat \<Rightarrow> nat list" where
  "digits b n = (if n < b \<or> b < 2 then [n] else digits b (n div b) @ [n mod b])"
  by pat_completeness auto
termination by (relation "measure snd") auto

declare digits.simps [simp del]

lemma digits_snoc: "2 \<le> b \<Longrightarrow> d < b \<Longrightarrow> digits b (q * b + d) = (if q = 0 then [d] else digits b q @ [d])"
proof (cases "q = 0")
  case False
  assume b: "2 \<le> b" "d < b"
  have "b \<le> q * b" using False by simp
  then have "\<not> q * b + d < b" by linarith
  then show ?thesis using b False by (subst digits.simps) simp
qed (subst digits.simps, simp)

definition lead :: "nat \<Rightarrow> nat \<Rightarrow> nat list" where
  "lead b q = (if q = 0 then [] else digits b q)"

lemma lead_snoc: "2 \<le> b \<Longrightarrow> d < b \<Longrightarrow> lead b (q * b + d) = (if q = 0 \<and> d = 0 then [] else lead b q @ [d])"
  by (auto simp: lead_def digits_snoc)

lemma lead_0 [simp]: "lead b 0 = []"
  by (simp add: lead_def)

lemma lead_eq_Nil: "lead b q = [] \<longleftrightarrow> q = 0"
proof -
  have "digits b q \<noteq> []" by (subst digits.simps) simp
  then show ?thesis by (simp add: lead_def)
qed

definition dec_char :: "nat \<Rightarrow> u8" where
  "dec_char d = of_nat (48 + d)"

lemma sub_loop_spec:
  assumes "p \<noteq> 0"
  shows "sub_loop p n d = (n mod p, d + of_nat (unat n div unat p))"
proof (induction p n d rule: sub_loop.induct)
  case (1 p n d)
  show ?case
  proof (cases "n \<ge> p \<and> p \<noteq> 0")
    case True
    have u: "unat (n - p) = unat n - unat p" "unat p \<le> unat n" "0 < unat p"
      using True by (simp_all add: unat_sub_le word_le_nat_alt unat_gt_0)
    have "(n - p) mod p = n mod p" unfolding word_unat_eq_iff unat_mod u(1) using u(2) by (rule le_mod_geq [symmetric])
    moreover have "unat n div unat p = Suc (unat (n - p) div unat p)" unfolding u(1) using u(2,3) by (simp add: le_div_geq)
    ultimately show ?thesis using 1 True by (subst sub_loop.simps) simp
  next
    case False
    then show ?thesis
    proof (cases "p = 0")
      case True
      then show ?thesis by (subst sub_loop.simps) (simp add: word_unat_eq_iff unat_mod)
    next
      case p: False
      then have "unat n < unat p" using False by (simp add: not_le word_less_nat_alt)
      then show ?thesis using False p by (subst sub_loop.simps) (simp add: word_unat_eq_iff unat_mod)
    qed
  qed
qed

text \<open>After the digits down to \<open>10 ^ k\<close> the quotient by it has been printed and the remainder is left.\<close>

definition printed :: "nat \<Rightarrow> nat \<Rightarrow> kout \<Rightarrow> u32 \<times> bool \<times> kout \<Rightarrow> bool" where
  "printed n p k0 = (\<lambda>(m, s, k). unat m = n mod p \<and> s = (n div p \<noteq> 0)
     \<and> k = fold kprint_char (List.map dec_char (lead 10 (n div p))) k0)"

lemma print_digit_step:
  assumes "printed n (10 * p) k0 x" "0 < p" "p < 4294967296"
  shows "printed n p k0 (print_digit (of_nat p) x)"
proof -
  obtain m s k where x: "x = (m, s, k)" by (cases x)
  have h: "unat m = n mod (10 * p)" "s = (n div (10 * p) \<noteq> 0)" "k = fold kprint_char (List.map dec_char (lead 10 (n div (10 * p)))) k0"
    using assms(1) by (simp_all add: printed_def x)
  have p: "unat (of_nat p :: u32) = p" "(of_nat p :: u32) \<noteq> 0" using assms(2,3) by (simp_all add: unat_of_nat_u32 word_unat_eq_iff)
  let ?d = "n mod (10 * p) div p"
  have q: "n div p = n div (10 * p) * 10 + ?d"
  proof -
    have "n div p = (n div (10 * p) * (10 * p) + n mod (10 * p)) div p" by (simp only: div_mult_mod_eq)
    also have "\<dots> = n div (10 * p) * 10 + ?d" using assms(2)
      by (simp add: mult.assoc [symmetric] div_mult_self3)
    finally show ?thesis .
  qed
  have d: "?d < 10" using assms(2) by (simp add: div_less_iff_less_mult)
  have r: "n mod (10 * p) mod p = n mod p" by (simp add: mod_mod_cancel)
  have u: "(0 :: u8) + of_nat ?d = of_nat ?d" "48 + of_nat ?d = dec_char ?d" "(of_nat ?d :: u8) \<noteq> 0 \<longleftrightarrow> ?d \<noteq> 0"
    using d by (simp_all add: dec_char_def word_unat_eq_iff unat_of_nat)
  have e: "print_digit (of_nat p) x = (if ?d \<noteq> 0 \<or> s then (m mod of_nat p, True, kprint_char (dec_char ?d) k) else (m mod of_nat p, s, k))"
    unfolding print_digit_def x prod.case sub_loop_spec [OF p(2)] p(1) h(1) Let_def u by simp
  have m: "unat (m mod of_nat p) = n mod p" unfolding unat_mod p(1) h(1) r ..
  have l: "lead 10 (n div p) = (if n div (10 * p) = 0 \<and> ?d = 0 then [] else lead 10 (n div (10 * p)) @ [?d])"
    unfolding q using d by (intro lead_snoc) simp_all
  show ?thesis unfolding e printed_def prod.case using m h(2,3) q unfolding l by (auto simp: lead_eq_Nil)
qed

lemma kprint_uint_decimal:
  "kprint_uint n k = fold kprint_char (List.map dec_char (digits 10 (unat n))) k"
proof (cases "n = 0")
  case True
  then show ?thesis by (subst digits.simps) (simp add: kprint_uint_def dec_char_def)
next
  case False
  let ?ps = "[1000000000, 100000000, 10000000, 1000000, 100000, 10000, 1000, 100, 10] :: nat list"
  have "unat n < 10000000000" using unat_u32_lt [of n] by linarith
  then have 0: "printed (unat n) (10 * 1000000000) k (n, False, k)" by (simp add: printed_def)
  have st: "printed (unat n) q k x \<Longrightarrow> q = 10 * p \<Longrightarrow> 0 < p \<Longrightarrow> p < 4294967296
    \<Longrightarrow> printed (unat n) p k (print_digit (of_nat p) x)" for p q x using print_digit_step by blast
  have "printed (unat n) 10 k (fold print_digit (List.map of_nat ?ps) (n, False, k))"
    unfolding list.map fold_simps by ((rule st)+, rule 0, simp_all)
  then obtain m s k1 where f: "fold print_digit (List.map of_nat ?ps) (n, False, k) = (m, s, k1)"
    "unat m = unat n mod 10" "k1 = fold kprint_char (List.map dec_char (lead 10 (unat n div 10))) k"
    by (auto simp: printed_def)
  have "kprint_uint n k = kprint_char (48 + ucast m) k1" using f(1) False by (simp add: kprint_uint_def)
  moreover have "48 + ucast m = dec_char (unat n mod 10)"
    using f(2) by (simp add: dec_char_def word_unat_eq_iff unat_word_ariths unsigned_ucast_eq unat_of_nat take_bit_eq_mod)
  moreover have "digits 10 (unat n) = lead 10 (unat n div 10) @ [unat n mod 10]"
    using digits_snoc [of 10 "unat n mod 10" "unat n div 10"] by (simp add: lead_def)
  ultimately show ?thesis using f(3) by simp
qed

section \<open>Hexadecimal\<close>

lemma nibble:
  "unat (drop_bit (i * 4) (w :: 'a::len word) AND 0xF) = unat w div 16 ^ i mod 16"
proof -
  have "(0xF :: 'a word) = mask 4" by (simp add: mask_eq_exp_minus_1)
  then have "drop_bit (i * 4) w AND 0xF = take_bit 4 (drop_bit (i * 4) w)" by (simp add: take_bit_eq_mask)
  moreover have "(2 :: nat) ^ (i * 4) = 16 ^ i" by (simp add: mult.commute [of i] power_mult)
  ultimately show ?thesis by (simp only: unsigned_take_bit_eq unat_drop_bit_eq)
    (simp add: take_bit_eq_mod drop_bit_eq_div)
qed

definition hexd :: "nat \<Rightarrow> u8" where
  "hexd d = of_nat (if d < 10 then 48 + d else 55 + d)"

lemma hex_char_hexd: "unat w < 16 \<Longrightarrow> hex_char w = hexd (unat w)"
proof -
  assume "unat w < 16"
  then have "w < 10 \<longleftrightarrow> unat w < 10" "unat (ucast w :: u8) = unat w"
    by (simp_all add: word_less_nat_alt unsigned_ucast_eq take_bit_eq_mod)
  then show ?thesis by (auto simp: hex_char_def hexd_def word_unat_eq_iff unat_word_ariths unat_of_nat)
qed

text \<open>The sixteen digits of an address determine it.\<close>

lemma kprint_ptr_digits:
  "kprint_ptr a k = fold kprint_char (List.map (\<lambda>i. hexd (unat a div 16 ^ i mod 16)) (rev [0..<16])) (kprint (str ''0x'') k)"
proof -
  have h: "hex_char (ucast (drop_bit (i * 4) a AND 0xF)) = hexd (unat a div 16 ^ i mod 16)" for i
  proof -
    have "unat (ucast (drop_bit (i * 4) a AND 0xF) :: u32) = unat a div 16 ^ i mod 16"
      by (simp only: unsigned_ucast_eq nibble) (simp add: take_bit_eq_mod)
    then show ?thesis by (subst hex_char_hexd) simp_all
  qed
  have "rev [0..<16] = [15, 14, 13, 12, 11, 10, 9, 8, 7, 6, 5, 4, 3, 2, 1, 0 :: nat]" by (simp add: upt_rec)
  then show ?thesis unfolding kprint_ptr_def h by (simp only: fold_map comp_def)
qed

text \<open>\<open>kprint_hex\<close> leaves out the leading zeros.\<close>

lemma kprint_hex_digits:
  "kprint_hex n k = fold kprint_char (List.map hexd (digits 16 (unat n))) (kprint (str ''0x'') k)"
proof -
  let ?k = "kprint (str ''0x'') k"
  let ?step = "\<lambda>i (leading, k). let nibble = drop_bit (i * 4) n AND 0xF; leading = (leading \<and> nibble = 0)
    in (leading, if \<not> leading then kprint_char (hex_char nibble) k else k)"
  define st where "st i = (unat n div 16 ^ i = 0, fold kprint_char (List.map hexd (lead 16 (unat n div 16 ^ i))) ?k)" for i
  have step: "?step i (st (Suc i)) = st i" for i
  proof -
    let ?q = "unat n div 16 ^ Suc i" and ?d = "unat n div 16 ^ i mod 16"
    have q: "unat n div 16 ^ i = ?q * 16 + ?d" by (simp add: div_mult2_eq mult.commute [of 16])
    have d: "unat (drop_bit (i * 4) n AND 0xF) = ?d" by (rule nibble)
    then have z: "drop_bit (i * 4) n AND 0xF = 0 \<longleftrightarrow> ?d = 0" by (simp add: word_unat_eq_iff)
    have c: "hex_char (drop_bit (i * 4) n AND 0xF) = hexd ?d" using d by (simp add: hex_char_hexd)
    have l: "lead 16 (unat n div 16 ^ i) = (if ?q = 0 \<and> ?d = 0 then [] else lead 16 ?q @ [?d])"
      unfolding q [symmetric] by (subst q) (rule lead_snoc, simp_all)
    have "unat n div 16 ^ i = 0 \<longleftrightarrow> ?q = 0 \<and> ?d = 0" by (subst q) simp
    then show ?thesis unfolding st_def prod.case Let_def z c l by (auto simp del: power_Suc)
  qed
  have "unat n div 16 ^ 8 = 0" using unat_u32_lt [of n] by simp
  then have "(True, ?k) = st 8" unfolding st_def by simp
  then have "fold ?step [7, 6, 5, 4, 3, 2, 1, 0] (True, ?k) = st 0"
    using step [of 7] step [of 6] step [of 5] step [of 4] step [of 3] step [of 2] step [of 1] step [of 0]
    by (simp only: fold_simps) (simp only: numeral_eq_Suc pred_numeral_simps arith_simps numeral_One One_nat_def fold_simps)
  then have "kprint_hex n k = (let (leading, k) = st 0 in if leading then kprint_char 48 k else k)"
    unfolding kprint_hex_def by (simp only:)
  moreover have "digits 16 0 = [0]" by (subst digits.simps) simp
  ultimately show ?thesis by (simp add: st_def lead_def hexd_def)
qed

end
