(* ===== verification/Pci.thy ===== *)
theory Pci
  imports Serial
begin

text \<open>
  The PCI configuration space (kernel/pci.cpp) and the initialisation of the virtio disk
  (\<^verbatim>\<open>vblk_init\<close> of kernel/vblk.cpp). The devices are not in the repository: a program's dealings with them
  are the sequence of its port operations, and what a read returns is a function \<open>bus\<close> of the operations
  before it. \<open>pci_bus\<close> states what the driver relies on, the configuration mechanism of the PCI
  specification: a dword read from the data port is that of the address written last.
\<close>

section \<open>Port operations\<close>

datatype port_op = Out8 u16 u8 | Out16 u16 u16 | Out32 u16 u32 | In16 u16 | In32 u16

type_synonym io = "port_op list"
type_synonym bus = "io \<Rightarrow> u16 \<Rightarrow> u32"

definition out8 :: "u16 \<Rightarrow> u8 \<Rightarrow> io \<Rightarrow> io" where "out8 port val l = l @ [Out8 port val]"
definition outw :: "u16 \<Rightarrow> u16 \<Rightarrow> io \<Rightarrow> io" where "outw port val l = l @ [Out16 port val]"
definition outl :: "u16 \<Rightarrow> u32 \<Rightarrow> io \<Rightarrow> io" where "outl port val l = l @ [Out32 port val]"
definition inw :: "bus \<Rightarrow> u16 \<Rightarrow> io \<Rightarrow> u16 \<times> io" where "inw bus port l = (ucast (bus l port), l @ [In16 port])"
definition inl :: "bus \<Rightarrow> u16 \<Rightarrow> io \<Rightarrow> u32 \<times> io" where "inl bus port l = (bus l port, l @ [In32 port])"

section \<open>Configuration space\<close>

definition cfg_addr :: "u8 \<Rightarrow> u8 \<Rightarrow> u8 \<Rightarrow> u8 \<Rightarrow> u32" where
  "cfg_addr b slot func off =
     push_bit 31 1 OR push_bit 16 (ucast b) OR push_bit 11 (ucast (slot AND 0x1F))
     OR push_bit 8 (ucast (func AND 0x07)) OR ucast (off AND 0xFC)"

definition pci_read32 :: "bus \<Rightarrow> u8 \<Rightarrow> u8 \<Rightarrow> u8 \<Rightarrow> u8 \<Rightarrow> io \<Rightarrow> u32 \<times> io" where
  "pci_read32 bus b slot func off l = inl bus 0xCFC (outl 0xCF8 (cfg_addr b slot func off) l)"

definition pci_write32 :: "u8 \<Rightarrow> u8 \<Rightarrow> u8 \<Rightarrow> u8 \<Rightarrow> u32 \<Rightarrow> io \<Rightarrow> io" where
  "pci_write32 b slot func off val l = outl 0xCFC val (outl 0xCF8 (cfg_addr b slot func off) l)"

text \<open>The order in which the three nested loops visit the functions.\<close>

definition pci_functions :: "(u8 \<times> u8 \<times> u8) list" where
  "pci_functions = List.map (\<lambda>k. (of_nat (k div 256), of_nat (k div 8 mod 32), of_nat (k mod 8))) [0..<65536]"

fun find_function :: "bus \<Rightarrow> u16 \<Rightarrow> u16 \<Rightarrow> (u8 \<times> u8 \<times> u8) list \<Rightarrow> io \<Rightarrow> (u8 \<times> u8 \<times> u8) option \<times> io" where
  "find_function bus vendor device [] l = (None, l)"
| "find_function bus vendor device ((b, slot, func) # fs) l =
     (let (id, l1) = pci_read32 bus b slot func 0 l
      in if id AND 0xFFFF = 0xFFFF then find_function bus vendor device fs l1
         else if ucast (id AND 0xFFFF) = vendor \<and> ucast (drop_bit 16 id AND 0xFFFF) = device
         then (Some (b, slot, func), l1)
         else find_function bus vendor device fs l1)"

definition pci_find :: "bus \<Rightarrow> u16 \<Rightarrow> u16 \<Rightarrow> io \<Rightarrow> (u8 \<times> u8 \<times> u8) option \<times> io" where
  "pci_find bus vendor device l = find_function bus vendor device pci_functions l"

definition put_hex :: "u32 \<Rightarrow> nat \<Rightarrow> kout \<Rightarrow> kout" where
  "put_hex v nd = kprint (List.map (\<lambda>i. str ''0123456789ABCDEF'' ! unat (drop_bit (i * 4) v AND 0xF)) (rev [0..<nd]))"

definition dump_function :: "bus \<Rightarrow> u8 \<times> u8 \<times> u8 \<Rightarrow> kout \<times> io \<Rightarrow> kout \<times> io" where
  "dump_function bus = (\<lambda>(b, slot, func) (k, l).
     let (id, l1) = pci_read32 bus b slot func 0 l; ven = id AND 0xFFFF
     in if ven = 0xFFFF then (k, l1)
        else let dev = drop_bit 16 id AND 0xFFFF; (cls, l2) = pci_read32 bus b slot func 8 l1;
                 k1 = put_hex (ucast b) 2 (kprint (str ''pci '') k);
                 k2 = put_hex (ucast slot) 2 (kprint (str '':'') k1);
                 k3 = put_hex (ucast func) 1 (kprint (str ''.'') k2);
                 k4 = put_hex ven 4 (kprint (str ''  '') k3);
                 k5 = put_hex dev 4 (kprint (str '':'') k4);
                 k6 = put_hex (drop_bit 24 cls AND 0xFF) 2 (kprint (str ''  class '') k5);
                 k7 = put_hex (drop_bit 16 cls AND 0xFF) 2 (kprint (str '':'') k6)
             in (kprint [10] k7, l2))"

definition pci_scan_dump :: "bus \<Rightarrow> kout \<times> io \<Rightarrow> kout \<times> io" where
  "pci_scan_dump bus = fold (dump_function bus) pci_functions"

section \<open>Setting up the disk\<close>

record vblk_globals =
  vg_io :: u16
  vg_capacity :: u64
  vg_qsize :: u16
  vg_queue :: "nat \<Rightarrow> u8"
  vg_avail :: nat  \<comment> \<open>offset of the available ring in the queue's memory\<close>
  vg_used :: nat
  vg_avail_idx :: u16

definition align_up :: "u32 \<Rightarrow> u32 \<Rightarrow> u32" where
  "align_up x a = (x + a - 1) AND NOT (a - 1)"

text \<open>The rest of \<^verbatim>\<open>vblk_init\<close> once the device answers; \<open>qpa\<close> is the address of \<^verbatim>\<open>g_queue\<close>.\<close>

definition queue_init :: "u64 \<Rightarrow> vblk_globals \<Rightarrow> io \<Rightarrow> vblk_globals \<times> io" where
  "queue_init qpa g l =
     (let desc_bytes = 16 * ucast (vg_qsize g); avail_bytes = 6 + 2 * ucast (vg_qsize g);
          used_off = align_up (desc_bytes + avail_bytes) 4096;
          g1 = g\<lparr>vg_queue := (\<lambda>_. 0), vg_avail := unat desc_bytes, vg_used := unat used_off, vg_avail_idx := 0\<rparr>;
          l1 = outl (vg_io g + 0x08) (ucast (drop_bit 12 qpa)) l
      in (g1, out8 (vg_io g + 0x12) (1 OR 2 OR 4) l1))"

definition vblk_init :: "bus \<Rightarrow> u64 \<Rightarrow> kout \<times> vblk_globals \<times> io \<Rightarrow> bool \<times> kout \<times> vblk_globals \<times> io" where
  "vblk_init bus qpa = (\<lambda>(k, g, l). case pci_find bus 0x1AF4 0x1001 l of
     (None, l1) \<Rightarrow> (False, kprint (str ''virtio-blk: not found'' @ [10]) k, g, l1)
   | (Some (b, slot, func), l1) \<Rightarrow>
       (let (cmd, l2) = pci_read32 bus b slot func 4 l1;
            l3 = pci_write32 b slot func 4 (cmd OR (push_bit 0 1 OR push_bit 2 1)) l2;
            (bar0, l4) = pci_read32 bus b slot func 0x10 l3;
            io = ucast (bar0 AND 0xFFFC);
            l5 = out8 (io + 0x12) (1 OR 2) (out8 (io + 0x12) 1 (out8 (io + 0x12) 0 l4));
            (feats, l6) = inl bus (io + 0x00) l5;
            l7 = outl (io + 0x04) 0 l6;
            (lo, l8) = inl bus (io + 0x14) l7;
            (hi, l9) = inl bus (io + 0x14 + 4) l8;
            (q, l10) = inw bus (io + 0x0C) (outw (io + 0x0E) 0 l9);
            g1 = g\<lparr>vg_io := io, vg_capacity := push_bit 32 (ucast hi) OR ucast lo, vg_qsize := q\<rparr>
        in if q = 0 \<or> q > 256 then (False, kprint (str ''virtio-blk: bad queue size'' @ [10]) k, g1, l10)
           else let (g2, l11) = queue_init qpa g1 l10;
                    k1 = put_hex (ucast io) 4 (kprint (str ''virtio-blk: io=0x'') k);
                    k2 = kprint_uint (ucast q) (kprint (str '' qsize='') k1);
                    k3 = kprint_uint (ucast (vg_capacity g2)) (kprint (str '' capacity='') k2)
                in (True, kprint (str '' sectors'' @ [10]) k3, g2, l11)))"

definition vblk_capacity :: "vblk_globals \<Rightarrow> u64" where "vblk_capacity g = vg_capacity g"

section \<open>Addresses\<close>

lemma bit_cfg_addr:
  "bit (cfg_addr b s f off) n \<longleftrightarrow> n = 31 \<or> (16 \<le> n \<and> n < 24 \<and> bit b (n - 16)) \<or> (11 \<le> n \<and> n < 16 \<and> bit s (n - 11))
     \<or> (8 \<le> n \<and> n < 11 \<and> bit f (n - 8)) \<or> (2 \<le> n \<and> n < 8 \<and> bit off n)"
proof -
  have m: "(0x1F :: u8) = mask 5" "(0x07 :: u8) = mask 3" "(0xFC :: u8) = NOT (mask 2)" by (simp_all add: mask_eq_exp_minus_1)
  have U: "bit (ucast w :: u32) k \<longleftrightarrow> k < 8 \<and> bit w k" for w :: u8 and k
    using bit_imp_le_length [of w k] by (auto simp: bit_simps)
  have P: "bit (push_bit i w :: u32) k \<longleftrightarrow> i \<le> k \<and> k < 32 \<and> bit w (k - i)" for i w k
    by (simp add: bit_simps)
  have one: "bit (1 :: u32) k \<longleftrightarrow> k = 0" for k by (simp add: bit_simps)
  have M: "bit (mask j :: u8) k \<longleftrightarrow> k < j \<and> k < 8" "bit (NOT (mask j) :: u8) k \<longleftrightarrow> k < 8 \<and> j \<le> k" for j k
    by (auto simp: bit_simps)
  have parts: "(31 \<le> n \<and> n < 32 \<and> n - 31 = 0) = (n = 31)"
    "(16 \<le> n \<and> n < 32 \<and> n - 16 < 8 \<and> bit b (n - 16)) = (16 \<le> n \<and> n < 24 \<and> bit b (n - 16))"
    "(11 \<le> n \<and> n < 32 \<and> n - 11 < 8 \<and> bit s (n - 11) \<and> n - 11 < 5 \<and> n - 11 < 8) = (11 \<le> n \<and> n < 16 \<and> bit s (n - 11))"
    "(8 \<le> n \<and> n < 32 \<and> n - 8 < 8 \<and> bit f (n - 8) \<and> n - 8 < 3 \<and> n - 8 < 8) = (8 \<le> n \<and> n < 11 \<and> bit f (n - 8))"
    "(n < 8 \<and> bit off n \<and> n < 8 \<and> 2 \<le> n) = (2 \<le> n \<and> n < 8 \<and> bit off n)"
    by auto
  show ?thesis unfolding cfg_addr_def m bit_or_iff P U bit_and_iff M one parts by (simp only: disj_assoc)
qed

lemma take_bit_small: "unat (w :: 'a::len word) < 2 ^ j \<Longrightarrow> take_bit j w = w"
  by (simp add: unat_eq_iff unsigned_take_bit_eq take_bit_nat_eq_self)

lemma cfg_addr_inj:
  assumes "cfg_addr b s f off = cfg_addr b' s' f' off'" and "s < 32" "f < 8" "s' < 32" "f' < 8"
  shows "(b, s, f) = (b', s', f')"
proof -
  have e: "bit (cfg_addr b s f off) n \<longleftrightarrow> bit (cfg_addr b' s' f' off') n" for n using assms(1) by simp
  have "take_bit 8 b = take_bit 8 b'"
  proof (rule bit_word_eqI)
    show "bit (take_bit 8 b) n \<longleftrightarrow> bit (take_bit 8 b') n" for n
      using e [of "16 + n"] by (cases "n < 8") (simp_all add: bit_cfg_addr bit_take_bit_iff)
  qed
  moreover have "take_bit 5 s = take_bit 5 s'"
  proof (rule bit_word_eqI)
    show "bit (take_bit 5 s) n \<longleftrightarrow> bit (take_bit 5 s') n" for n
      using e [of "11 + n"] by (cases "n < 5") (simp_all add: bit_cfg_addr bit_take_bit_iff)
  qed
  moreover have "take_bit 3 f = take_bit 3 f'"
  proof (rule bit_word_eqI)
    show "bit (take_bit 3 f) n \<longleftrightarrow> bit (take_bit 3 f') n" for n
      using e [of "8 + n"] by (cases "n < 3") (simp_all add: bit_cfg_addr bit_take_bit_iff)
  qed
  moreover have "unat s < 2 ^ 5" "unat s' < 2 ^ 5" "unat f < 2 ^ 3" "unat f' < 2 ^ 3" using assms(2-5) by (simp_all add: word_less_nat_alt)
  moreover have "unat b < 2 ^ 8" "unat b' < 2 ^ 8" by simp_all
  ultimately show ?thesis by (simp only: take_bit_small)
qed

section \<open>Finding a device\<close>

lemma set_pci_functions: "set pci_functions = {(b, s, f). s < 32 \<and> f < 8}"
proof (intro set_eqI iffI)
  fix x assume "x \<in> set pci_functions"
  then obtain k where x: "x = (of_nat (k div 256), of_nat (k div 8 mod 32), of_nat (k mod 8))"
    unfolding pci_functions_def set_map by blast
  have u: "unat (of_nat n :: u8) = n" if "n < 256" for n using that by (simp add: unat_of_nat)
  have "k div 8 mod 32 < 32" "k mod 8 < 8" by simp_all
  then have "unat (of_nat (k div 8 mod 32) :: u8) < 32" "unat (of_nat (k mod 8) :: u8) < 8" using u [of "k div 8 mod 32"] u [of "k mod 8"] by linarith+
  then show "x \<in> {(b, s, f). s < 32 \<and> f < 8}" unfolding x by (simp add: word_less_nat_alt)
next
  fix x :: "u8 \<times> u8 \<times> u8" assume "x \<in> {(b, s, f). s < 32 \<and> f < 8}"
  then obtain b s f where x: "x = (b, s, f)" "unat s < 32" "unat f < 8" by (auto simp: word_less_nat_alt)
  let ?k = "unat b * 256 + unat s * 8 + unat f"
  have lt: "?k < 65536" using x(2,3) unat_u8_lt [of b] by linarith
  have "?k div 256 = unat b" by (rule div_nat_eqI) (use x(2,3) in \<open>simp_all add: algebra_simps\<close>)
  moreover have "?k div 8 = unat b * 32 + unat s" by (rule div_nat_eqI) (use x(2,3) in \<open>simp_all add: algebra_simps\<close>)
  moreover have "?k = (unat b * 32 + unat s) * 8 + unat f" by simp
  then have "?k mod 8 = unat f" using x(3) by (simp only: mod_mult_self3) simp
  ultimately have "(of_nat (?k div 256), of_nat (?k div 8 mod 32), of_nat (?k mod 8)) = x" using x by simp
  then show "x \<in> set pci_functions" unfolding pci_functions_def set_map by (rule image_eqI [OF sym]) (use lt in simp)
qed

definition pci_ids :: "bus \<Rightarrow> (u8 \<times> u8 \<times> u8 \<Rightarrow> u32) \<Rightarrow> bool" where
  "pci_ids bus ident \<longleftrightarrow> (\<forall>l b s f. s < 32 \<longrightarrow> f < 8 \<longrightarrow> bus (l @ [Out32 0xCF8 (cfg_addr b s f 0)]) 0xCFC = ident (b, s, f))"

definition is_device :: "u16 \<Rightarrow> u16 \<Rightarrow> u32 \<Rightarrow> bool" where
  "is_device vendor device w \<longleftrightarrow> vendor \<noteq> 0xFFFF \<and> unat w = unat device * 65536 + unat vendor"

lemma id_test:
  "(w AND 0xFFFF \<noteq> 0xFFFF \<and> ucast (w AND 0xFFFF) = vendor \<and> ucast (drop_bit 16 w AND 0xFFFF) = device)
     \<longleftrightarrow> is_device vendor device (w :: u32)"
proof -
  have m: "(0xFFFF :: u32) = mask 16" by (simp add: mask_eq_exp_minus_1)
  have lo: "unat (w AND 0xFFFF) = unat w mod 65536" and hi: "unat (drop_bit 16 w AND 0xFFFF) = unat w div 65536"
  proof -
    show "unat (w AND 0xFFFF) = unat w mod 65536"
      unfolding m take_bit_eq_mask [symmetric] by (simp only: unsigned_take_bit_eq) (simp add: take_bit_eq_mod)
    have "unat w div 65536 < 65536" using unat_u32_lt [of w] by (simp add: div_less_iff_less_mult)
    then show "unat (drop_bit 16 w AND 0xFFFF) = unat w div 65536"
      unfolding m take_bit_eq_mask [symmetric]
      by (simp only: unsigned_take_bit_eq unat_drop_bit_eq) (simp add: take_bit_eq_mod drop_bit_eq_div)
  qed
  have u: "ucast x = (y :: u16) \<longleftrightarrow> unat x = unat y" if "unat (x :: u32) < 65536" for x y
    using that by (simp add: unat_eq_iff unsigned_ucast_eq take_bit_eq_mod)
  have lt: "unat (w AND 0xFFFF) < 65536" "unat (drop_bit 16 w AND 0xFFFF) < 65536"
    unfolding lo hi using unat_u32_lt [of w] by (simp_all add: div_less_iff_less_mult)
  have ne: "w AND 0xFFFF \<noteq> 0xFFFF \<longleftrightarrow> unat w mod 65536 \<noteq> 65535" unfolding unat_eq_iff lo by simp
  have ve: "vendor \<noteq> 0xFFFF \<longleftrightarrow> unat vendor \<noteq> 65535" by (simp add: unat_eq_iff)
  have vl: "unat vendor < 65536" using unsigned_less [of vendor, where ?'a = nat] by simp
  have "unat w mod 65536 = unat vendor \<and> unat w div 65536 = unat device \<longleftrightarrow> unat w = unat device * 65536 + unat vendor"
    (is "?A \<longleftrightarrow> ?B")
  proof
    assume ?A
    then show ?B using div_mult_mod_eq [of "unat w" 65536] by metis
  next
    assume ?B
    then show ?A using vl by simp
  qed
  then show ?thesis unfolding is_device_def u [OF lt(1)] u [OF lt(2)] lo hi ne ve by auto
qed

lemma find_function_spec:
  assumes "pci_ids bus ident" and "set fs \<subseteq> {(b, s, f). s < 32 \<and> f < 8}"
  shows "fst (find_function bus vendor device fs l) = List.find (\<lambda>x. is_device vendor device (ident x)) fs"
  using assms(2)
proof (induction fs arbitrary: l)
  case (Cons x fs)
  obtain b s f where x: "x = (b, s, f)" by (cases x)
  then have id: "pci_read32 bus b s f 0 l = (ident x, l @ [Out32 0xCF8 (cfg_addr b s f 0), In32 0xCFC])"
    using assms(1) Cons.prems by (simp add: pci_read32_def inl_def outl_def pci_ids_def)
  have IH: "fst (find_function bus vendor device fs l1) = List.find (\<lambda>x. is_device vendor device (ident x)) fs" for l1
    using Cons by simp
  let ?i = "ident (b, s, f)"
  let ?P = "?i AND 0xFFFF = 0xFFFF" and ?V = "ucast (?i AND 0xFFFF) = vendor" and ?D = "ucast (drop_bit 16 ?i AND 0xFFFF) = device"
  have "fst (find_function bus vendor device (x # fs) l) = (if \<not> ?P \<and> ?V \<and> ?D then Some (b, s, f)
      else List.find (\<lambda>x. is_device vendor device (ident x)) fs)"
    unfolding x find_function.simps id [unfolded x] Let_def prod.case by (cases ?P; cases ?V; cases ?D; simp only: if_True if_False simp_thms fst_conv IH)
  then show ?case unfolding id_test by (simp add: x)
qed simp

section \<open>The queue's memory\<close>

lemma unat_align_up: "unat x + 4095 < 2 ^ 32 \<Longrightarrow> unat (align_up x 4096) = (unat x + 4095) div 4096 * 4096"
proof -
  assume x: "unat x + 4095 < 2 ^ 32"
  have n: "unat (4095 :: u32) = 4095" by simp
  have u: "unat (x + 4095) = unat x + 4095" using unat_add_u32 [of x 4095] x unfolding n by simp
  have "(4096 - 1 :: u32) = mask 12" by (simp add: mask_eq_exp_minus_1)
  moreover have "x + 4096 - 1 = x + 4095" by simp
  ultimately have "align_up x 4096 = (x + 4095) AND NOT (mask 12)" unfolding align_up_def by (simp only:)
  then show ?thesis using unat_and_not_mask [of "x + 4095" 12] unfolding u by (simp only:) simp
qed

text \<open>
  For every queue size the driver accepts, descriptor table, available ring and used ring lie one behind
  the other in the 16384 bytes of \<^verbatim>\<open>g_queue\<close>, the used ring on a page boundary, as the legacy interface
  demands.
\<close>

definition queue_layout :: "nat \<Rightarrow> nat \<Rightarrow> nat \<Rightarrow> bool" where
  "queue_layout q av us \<longleftrightarrow> av = 16 * q \<and> av + 6 + 2 * q \<le> us \<and> us < av + 6 + 2 * q + 4096 \<and> 4096 dvd us
     \<and> us + 6 + 8 * q \<le> 16384"

lemma queue_init_layout:
  assumes "vg_qsize g \<le> 256" and "queue_init qpa g l = (g', l')"
  shows "queue_layout (unat (vg_qsize g)) (vg_avail g') (vg_used g') \<and> vg_queue g' = (\<lambda>_. 0) \<and> vg_avail_idx g' = 0
    \<and> vg_qsize g' = vg_qsize g \<and> vg_io g' = vg_io g"
proof -
  let ?q = "unat (vg_qsize g)"
  have q: "?q \<le> 256" using assms(1) by (simp add: word_le_nat_alt)
  have u: "unat (ucast (vg_qsize g) :: u32) = ?q" using q by (simp add: unsigned_ucast_eq take_bit_nat_eq_self)
  have a: "unat (16 * ucast (vg_qsize g) :: u32) = 16 * ?q" using q by (simp add: unat_word_ariths u)
  have b: "unat (6 + 2 * ucast (vg_qsize g) :: u32) = 6 + 2 * ?q" using q by (simp add: unat_word_ariths u)
  let ?x = "16 * ucast (vg_qsize g) + (6 + 2 * ucast (vg_qsize g)) :: u32"
  have x: "unat ?x = 18 * ?q + 6" using unat_add_u32 [of "16 * ucast (vg_qsize g)" "6 + 2 * ucast (vg_qsize g)"] a b q by simp
  let ?d = "(18 * ?q + 6 + 4095) div 4096"
  have us: "unat (align_up ?x 4096) = ?d * 4096" using unat_align_up [of ?x] q unfolding x by simp
  have d: "?d * 4096 \<le> 18 * ?q + 6 + 4095" "18 * ?q + 6 + 4095 < ?d * 4096 + 4096"
    using div_mult_mod_eq [of "18 * ?q + 6 + 4095" 4096] mod_less_divisor [of 4096 "18 * ?q + 6 + 4095"] by linarith+
  have g': "vg_avail g' = 16 * ?q" "vg_used g' = ?d * 4096" "vg_queue g' = (\<lambda>_. 0)" "vg_avail_idx g' = 0"
    "vg_qsize g' = vg_qsize g" "vg_io g' = vg_io g"
    using assms(2) a us by (auto simp: queue_init_def Let_def)
  have "?d \<le> 2" using d(1) q by linarith
  then have "?d * 4096 + 6 + 8 * ?q \<le> 16384" using q by linarith
  then show ?thesis using d unfolding g' queue_layout_def by simp
qed

section \<open>Properties of the search and of the initialisation\<close>

text \<open>
  The search returns the first function, in the order of bus, slot and function number, whose
  identification register shows the device; it looks at every function of every bus before it says there
  is none. An absent function reads as all ones and is never taken for a device.
\<close>

lemma pci_find_first:
  "pci_ids bus ident \<Longrightarrow>
     fst (pci_find bus vendor device l) = List.find (\<lambda>x. is_device vendor device (ident x)) pci_functions"
  unfolding pci_find_def by (rule find_function_spec) (simp_all add: set_pci_functions)

lemma pci_find_none:
  assumes "pci_ids bus ident"
  shows "fst (pci_find bus vendor device l) = None
    \<longleftrightarrow> (\<forall>b s f. s < 32 \<longrightarrow> f < 8 \<longrightarrow> \<not> is_device vendor device (ident (b, s, f)))"
  unfolding pci_find_first [OF assms] find_None_iff set_pci_functions by auto

lemma vblk_init_ready:
  assumes "vblk_init bus qpa (k, g, l) = (True, k', g', l')"
  shows "0 < vg_qsize g' \<and> vg_qsize g' \<le> 256 \<and> vg_avail_idx g' = 0 \<and> vg_queue g' = (\<lambda>_. 0)
    \<and> queue_layout (unat (vg_qsize g')) (vg_avail g') (vg_used g') \<and> last l' = Out8 (vg_io g' + 0x12) (1 OR 2 OR 4)"
proof -
  obtain gq lq g2 where r: "queue_init qpa gq lq = (g', l')" "vg_qsize gq \<noteq> 0" "\<not> vg_qsize gq > 256"
    using assms by (auto simp: vblk_init_def Let_def split: option.splits prod.splits if_splits)
  have "last l' = Out8 (vg_io gq + 0x12) (1 OR 2 OR 4)" using r(1) by (auto simp: queue_init_def Let_def out8_def)
  then show ?thesis using queue_init_layout [OF _ r(1)] r(2,3) by (auto simp: not_less word_neq_0_conv)
qed

end
