(* ===== verification/Munin_Disk.thy ===== *)
theory Munin_Disk
  imports Munin_Path
begin

text \<open>
  Persistence of munin.cpp: \<^verbatim>\<open>munin_flush\<close> writes superblock, inode table, bitmap and the blocks in
  use to the disk, \<^verbatim>\<open>munin_mount\<close> reads them back. The two sector operations of the block driver are
  arguments of the definitions; the locale \<open>block_device\<close> states what the file system relies on, and
  the driver's own theory interprets it. The in-memory \<^verbatim>\<open>Inode\<close> is laid out as the ABI does: type at
  offset 0, size at 4, the direct blocks from 8, the indirect block at 40, 44 bytes in all; the three
  padding bytes are 0 in this model.
\<close>

type_synonym sector = "nat \<Rightarrow> u8"

section \<open>The bytes of the inode table\<close>

definition inode_byte :: "inode \<Rightarrow> nat \<Rightarrow> u8" where
  "inode_byte f x = (if x = 0 then itype f
     else if x < 4 then 0
     else if x < 8 then byte32 (isize f) (x - 4)
     else if x < 40 then byte32 (iblocks f ((x - 8) div 4)) ((x - 8) mod 4)
     else byte32 (iindirect f) (x - 40))"

definition inodes_bytes :: "(nat \<Rightarrow> inode) \<Rightarrow> nat \<Rightarrow> u8" where
  "inodes_bytes t x = inode_byte (t (x div 44)) (x mod 44)"

definition inode_of_bytes :: "(nat \<Rightarrow> u8) \<Rightarrow> nat \<Rightarrow> inode \<Rightarrow> inode" where
  "inode_of_bytes m a f = f\<lparr>itype := m a, isize := get32 m (a + 4),
     iblocks := (\<lambda>b. if b < 8 then get32 m (a + 8 + 4 * b) else iblocks f b),
     iindirect := get32 m (a + 40)\<rparr>"

section \<open>Sector loops\<close>

definition disk_write_bytes ::
  "(nat \<Rightarrow> sector \<Rightarrow> 'd \<Rightarrow> 'd) \<Rightarrow> nat \<Rightarrow> (nat \<Rightarrow> u8) \<Rightarrow> nat \<Rightarrow> 'd \<Rightarrow> 'd" where
  "disk_write_bytes vblk_write start p nbytes d =
     (let full = nbytes div 512; rem = nbytes mod 512;
          d1 = fold (\<lambda>i d. vblk_write (start + i) (\<lambda>x. p (i * 512 + x)) d) [0..<full] d
      in if rem \<noteq> 0
         then vblk_write (start + full) (blit (fill (\<lambda>_. 0) 0 0 512) 0 p (full * 512) rem) d1
         else d1)"

definition read_step ::
  "(nat \<Rightarrow> sector \<Rightarrow> 'd \<Rightarrow> sector \<times> 'd) \<Rightarrow> nat \<Rightarrow> nat \<Rightarrow> (nat \<Rightarrow> u8) \<times> 'd \<Rightarrow> (nat \<Rightarrow> u8) \<times> 'd" where
  "read_step vblk_read start i pd =
     (let (b, d') = vblk_read (start + i) (\<lambda>x. fst pd (i * 512 + x)) (snd pd)
      in (blit (fst pd) (i * 512) b 0 512, d'))"

definition disk_read_bytes ::
  "(nat \<Rightarrow> sector \<Rightarrow> 'd \<Rightarrow> sector \<times> 'd) \<Rightarrow> nat \<Rightarrow> (nat \<Rightarrow> u8) \<Rightarrow> nat \<Rightarrow> 'd \<Rightarrow> (nat \<Rightarrow> u8) \<times> 'd" where
  "disk_read_bytes vblk_read start dst nbytes d =
     (let full = nbytes div 512; rem = nbytes mod 512;
          (dst1, d1) = fold (read_step vblk_read start) [0..<full] (dst, d)
      in if rem \<noteq> 0
         then let (scratch, d2) = vblk_read (start + full) (\<lambda>_. 0) d1
              in (blit dst1 (full * 512) scratch 0 rem, d2)
         else (dst1, d1))"

definition superblock :: sector where
  "superblock = put32 (put32 (put32 (put32 (fill (\<lambda>_. 0) 0 0 512)
     0 0x4D554E49) 4 2) 8 128) 12 512"

definition flush_block ::
  "(nat \<Rightarrow> sector \<Rightarrow> 'd \<Rightarrow> 'd) \<Rightarrow> munin \<Rightarrow> nat \<Rightarrow> 'd \<Rightarrow> 'd" where
  "flush_block vblk_write s b d =
     (if bitmap_test (g_block_used s) b then vblk_write (13 + b) (g_blocks s b) d else d)"

definition munin_flush :: "(nat \<Rightarrow> sector \<Rightarrow> 'd \<Rightarrow> 'd) \<Rightarrow> munin \<Rightarrow> 'd \<Rightarrow> 'd" where
  "munin_flush vblk_write s d =
     (let d1 = vblk_write 0 superblock d;
          d2 = disk_write_bytes vblk_write 1 (inodes_bytes (g_inodes s)) 5632 d1;
          d3 = disk_write_bytes vblk_write 12 (g_block_used s) 64 d2
      in fold (flush_block vblk_write s) [0..<512] d3)"

definition mount_block ::
  "(nat \<Rightarrow> sector \<Rightarrow> 'd \<Rightarrow> sector \<times> 'd) \<Rightarrow> nat \<Rightarrow> munin \<times> 'd \<Rightarrow> munin \<times> 'd" where
  "mount_block vblk_read b sd = (let (s, d) = sd in
     if bitmap_test (g_block_used s) b
     then let (z, d') = vblk_read (13 + b) (g_blocks s b) d in (upd_block b (\<lambda>_. z) s, d')
     else (s, d))"

definition munin_mount ::
  "(nat \<Rightarrow> sector \<Rightarrow> 'd \<Rightarrow> sector \<times> 'd) \<Rightarrow> munin \<Rightarrow> 'd \<Rightarrow> bool \<times> munin \<times> 'd" where
  "munin_mount vblk_read s d =
     (let (sb, d1) = vblk_read 0 (\<lambda>_. 0) d in
      if get32 sb 0 \<noteq> 0x4D554E49 \<or> get32 sb 4 \<noteq> 2 \<or> get32 sb 8 \<noteq> 128 \<or> get32 sb 12 \<noteq> 512
      then (False, s, d1)
      else let (t, d2) = disk_read_bytes vblk_read 1 (inodes_bytes (g_inodes s)) 5632 d1;
               s1 = s\<lparr>g_inodes := (\<lambda>i. if i < 128 then inode_of_bytes t (44 * i) (g_inodes s i)
                                      else g_inodes s i)\<rparr>;
               (u, d3) = disk_read_bytes vblk_read 12 (g_block_used s1) 64 d2;
               s2 = s1\<lparr>g_block_used := u\<rparr>;
               (s3, d4) = fold (mount_block vblk_read) [0..<512] (s2, d3)
           in (True, s3, d4))"

lemma div_up_512: "(n + 511) div 512 = n div 512 + (if n mod 512 = 0 then 0 else (1 :: nat))"
proof -
  obtain q r where n: "n = 512 * q + r" "r < 512" by (metis mult_div_mod_eq mod_less_divisor zero_less_numeral)
  have "(n + 511) div 512 = q + (r + 511) div 512" using n(1) by (simp add: add.assoc)
  moreover have "(r + 511) div 512 = (if r = 0 then 0 else 1)"
    using n(2) by (auto intro: div_nat_eqI)
  ultimately show ?thesis using n by simp
qed

section \<open>The contract of the block driver\<close>

text \<open>
  \<open>view d n\<close> are the 512 bytes of sector \<open>n\<close>. Writing a sector changes that sector and no other; reading
  one changes none and fills the buffer with it. \<open>good\<close> is the driver's own invariant.
\<close>

locale block_device =
  fixes vblk_read :: "nat \<Rightarrow> sector \<Rightarrow> 'd \<Rightarrow> sector \<times> 'd"
    and vblk_write :: "nat \<Rightarrow> sector \<Rightarrow> 'd \<Rightarrow> 'd"
    and view :: "'d \<Rightarrow> nat \<Rightarrow> sector"
    and good :: "'d \<Rightarrow> bool"
  assumes write_view: "good d \<Longrightarrow> n < 525 \<Longrightarrow> x < 512 \<Longrightarrow>
      view (vblk_write n buf d) m x = (if m = n then buf x else view d m x)"
    and write_good: "good d \<Longrightarrow> n < 525 \<Longrightarrow> good (vblk_write n buf d)"
    and read_view: "good d \<Longrightarrow> n < 525 \<Longrightarrow> view (snd (vblk_read n buf d)) = view d"
    and read_good: "good d \<Longrightarrow> n < 525 \<Longrightarrow> good (snd (vblk_read n buf d))"
    and read_buf: "good d \<Longrightarrow> n < 525 \<Longrightarrow> x < 512 \<Longrightarrow> fst (vblk_read n buf d) x = view d n x"
begin

lemma write_fold:
  assumes "good d" and "start + full \<le> 525" and x: "x < 512"
  shows "good (fold (\<lambda>i d. vblk_write (start + i) (\<lambda>x. p (i * 512 + x)) d) [0..<full] d)
    \<and> view (fold (\<lambda>i d. vblk_write (start + i) (\<lambda>x. p (i * 512 + x)) d) [0..<full] d) m x
       = (if start \<le> m \<and> m < start + full then p ((m - start) * 512 + x) else view d m x)"
  using assms
proof (induction full)
  case (Suc full)
  then show ?case by (auto simp: write_good write_view less_Suc_eq)
qed auto

lemma write_bytes:
  assumes d: "good d" and n: "start + (nbytes + 511) div 512 \<le> 525" and x: "x < 512"
  shows "good (disk_write_bytes vblk_write start p nbytes d)"
    and "m < start \<or> start + (nbytes + 511) div 512 \<le> m \<Longrightarrow>
      view (disk_write_bytes vblk_write start p nbytes d) m x = view d m x"
    and "start \<le> m \<Longrightarrow> (m - start) * 512 + x < nbytes \<Longrightarrow>
      view (disk_write_bytes vblk_write start p nbytes d) m x = p ((m - start) * 512 + x)"
proof -
  let ?full = "nbytes div 512" and ?rem = "nbytes mod 512"
  have full: "start + ?full \<le> 525" using n by linarith
  define d1 where "d1 = fold (\<lambda>i d. vblk_write (start + i) (\<lambda>x. p (i * 512 + x)) d) [0..<?full] d"
  have g1: "good d1" and v1: "view d1 m x = (if start \<le> m \<and> m < start + ?full
      then p ((m - start) * 512 + x) else view d m x)" for m
    using write_fold [OF d full x, of p, folded d1_def] by simp_all
  have up: "(nbytes + 511) div 512 = (if ?rem = 0 then ?full else ?full + 1)"
    by (simp add: div_up_512)
  let ?z = "blit (fill (\<lambda>_. 0) 0 0 512) 0 p (?full * 512) ?rem"
  have e: "disk_write_bytes vblk_write start p nbytes d
      = (if ?rem \<noteq> 0 then vblk_write (start + ?full) ?z d1 else d1)"
    by (simp only: disk_write_bytes_def Let_def d1_def)
  have lt: "?rem \<noteq> 0 \<Longrightarrow> start + ?full < 525" using n up by simp
  show "good (disk_write_bytes vblk_write start p nbytes d)"
    using g1 write_good [OF g1 lt] by (simp add: e)
  have v: "view (disk_write_bytes vblk_write start p nbytes d) m x =
    (if ?rem \<noteq> 0 \<and> m = start + ?full then (if x < ?rem then p (?full * 512 + x) else 0)
     else if start \<le> m \<and> m < start + ?full then p ((m - start) * 512 + x) else view d m x)" for m
  proof (cases "?rem = 0")
    case False
    from write_view [OF g1 lt [OF this] x, of ?z m] False show ?thesis
      using x by (auto simp: e v1 blit_apply fill_apply)
  qed (simp add: e v1)
  show "view (disk_write_bytes vblk_write start p nbytes d) m x = view d m x"
    if "m < start \<or> start + (nbytes + 511) div 512 \<le> m"
    unfolding v using that up by (auto split: if_splits)
  show "view (disk_write_bytes vblk_write start p nbytes d) m x = p ((m - start) * 512 + x)"
    if "start \<le> m" "(m - start) * 512 + x < nbytes"
  proof (cases "m < start + ?full")
    case True
    with that show ?thesis by (simp add: v)
  next
    case False
    then have "?full \<le> m - start" using that(1) by linarith
    moreover have "m - start \<le> ?full" using that(2) by linarith
    ultimately have m: "m = start + ?full" using that(1) by linarith
    then have "?full * 512 + x < nbytes" using that(2) by simp
    then have "x < ?rem" using div_mult_mod_eq [of nbytes 512] by linarith
    with m show ?thesis by (simp add: v)
  qed
qed

lemma read_fold:
  assumes "good d" and "start + full \<le> 525"
  shows "(case fold (read_step vblk_read start) [0..<full] (dst, d) of
     (p, d') \<Rightarrow> good d' \<and> view d' = view d \<and>
       (\<forall>x. p x = (if x < full * 512 then view d (start + x div 512) (x mod 512) else dst x)))"
  using assms(2)
proof (induction full)
  case 0
  then show ?case using assms(1) by simp
next
  case (Suc full)
  obtain p d1 where f: "fold (read_step vblk_read start) [0..<full] (dst, d) = (p, d1)" by fastforce
  with Suc have ih: "good d1" "view d1 = view d"
    "\<And>x. p x = (if x < full * 512 then view d (start + x div 512) (x mod 512) else dst x)" by simp_all
  obtain b d2 where r: "vblk_read (start + full) (\<lambda>x. p (full * 512 + x)) d1 = (b, d2)" by fastforce
  have lt: "start + full < 525" using Suc.prems by simp
  have g2: "good d2" "view d2 = view d"
    using read_good [OF ih(1) lt, of "\<lambda>x. p (full * 512 + x)"]
      read_view [OF ih(1) lt, of "\<lambda>x. p (full * 512 + x)"] ih(2) by (simp_all add: r)
  have b: "b x = view d (start + full) x" if "x < 512" for x
    using read_buf [OF ih(1) lt that, of "\<lambda>x. p (full * 512 + x)"] ih(2) by (simp add: r)
  have "blit p (full * 512) b 0 512 x
      = (if x < Suc full * 512 then view d (start + x div 512) (x mod 512) else dst x)" for x
  proof (cases "full * 512 \<le> x \<and> x < full * 512 + 512")
    case True
    then obtain r where "x = full * 512 + r" "r < 512" by (metis add_less_cancel_left le_Suc_ex)
    then show ?thesis by (simp add: blit_apply b)
  next
    case False
    then show ?thesis by (auto simp: blit_apply ih(3))
  qed
  moreover have "read_step vblk_read start full (p, d1) = (blit p (full * 512) b 0 512, d2)"
    by (simp add: read_step_def r)
  ultimately show ?case using g2 by (simp add: f)
qed

lemma read_bytes:
  assumes d: "good d" and n: "start + (nbytes + 511) div 512 \<le> 525"
  shows "good (snd (disk_read_bytes vblk_read start dst nbytes d))"
    and "view (snd (disk_read_bytes vblk_read start dst nbytes d)) = view d"
    and "x < nbytes \<Longrightarrow> fst (disk_read_bytes vblk_read start dst nbytes d) x
      = view d (start + x div 512) (x mod 512)"
proof -
  let ?full = "nbytes div 512" and ?rem = "nbytes mod 512"
  obtain p d1 where f: "fold (read_step vblk_read start) [0..<?full] (dst, d) = (p, d1)" by fastforce
  have full: "start + ?full \<le> 525" using n by linarith
  from read_fold [OF d full, of dst] f have ih: "good d1" "view d1 = view d"
    "\<And>x. p x = (if x < ?full * 512 then view d (start + x div 512) (x mod 512) else dst x)" by simp_all
  obtain b d2 where r: "vblk_read (start + ?full) (\<lambda>_. 0) d1 = (b, d2)" by fastforce
  have e: "disk_read_bytes vblk_read start dst nbytes d
      = (if ?rem \<noteq> 0 then (blit p (?full * 512) b 0 ?rem, d2) else (p, d1))"
    by (simp add: disk_read_bytes_def Let_def f r)
  have lt: "?rem \<noteq> 0 \<Longrightarrow> start + ?full < 525" using n by (simp add: div_up_512)
  show "good (snd (disk_read_bytes vblk_read start dst nbytes d))"
    using ih(1) read_good [OF ih(1) lt, of "\<lambda>_. 0"] by (auto simp: e r)
  show "view (snd (disk_read_bytes vblk_read start dst nbytes d)) = view d"
    using ih(2) read_view [OF ih(1) lt, of "\<lambda>_. 0"] by (auto simp: e r)
  show "fst (disk_read_bytes vblk_read start dst nbytes d) x = view d (start + x div 512) (x mod 512)"
    if x: "x < nbytes"
  proof (cases "x < ?full * 512")
    case True
    then show ?thesis by (simp add: e blit_apply ih(3))
  next
    case False
    then obtain q where q: "x = ?full * 512 + q" by (metis le_Suc_ex not_less)
    with x div_mult_mod_eq [of nbytes 512] have qr: "q < ?rem" by linarith
    then have q512: "q < 512" by (metis less_trans mod_less_divisor zero_less_numeral)
    have "?rem \<noteq> 0" using qr by simp
    then have "b q = view d (start + ?full) q"
      using read_buf [OF ih(1) lt q512, of "\<lambda>_. 0"] ih(2) by (simp add: r)
    then show ?thesis using q x qr q512 by (simp add: e blit_apply)
  qed
qed

end

section \<open>Two regions that stand for the same file system\<close>

definition region_same :: "munin \<Rightarrow> munin \<Rightarrow> bool" where
  "region_same s s' \<longleftrightarrow> (\<forall>i < 128. itype (g_inodes s' i) = itype (g_inodes s i)
       \<and> isize (g_inodes s' i) = isize (g_inodes s i) \<and> iindirect (g_inodes s' i) = iindirect (g_inodes s i)
       \<and> (\<forall>b < 8. iblocks (g_inodes s' i) b = iblocks (g_inodes s i) b))
     \<and> (\<forall>b < 512. used s' b \<longleftrightarrow> used s b)
     \<and> (\<forall>b < 512. used s b \<longrightarrow> (\<forall>x < 512. g_blocks s' b x = g_blocks s b x))"

lemma region_same_ptr:
  assumes inv: "blk_inv s" and r: "region_same s s'"
  shows "ptr s' = ptr s" "live s' i = live s i"
    "ptr s x \<noteq> NO_BLOCK \<Longrightarrow> y < 512 \<Longrightarrow> g_blocks s' (unat (ptr s x)) y = g_blocks s (unat (ptr s x)) y"
    "blk_inv s'"
proof -
  show lv: "live s' i = live s i" for i using r by (auto simp: live_def region_same_def)
  show blk: "g_blocks s' (unat (ptr s x)) y = g_blocks s (unat (ptr s x)) y"
    if "ptr s x \<noteq> NO_BLOCK" "y < 512" for x y
    using r ptr_bound [OF inv that(1)] ptr_used [OF inv that(1)] that(2) by (simp add: region_same_def)
  have n: "iindirect (g_inodes s' j) = iindirect (g_inodes s j)"
      "b < 8 \<Longrightarrow> iblocks (g_inodes s' j) b = iblocks (g_inodes s j) b" if "live s j" for j b
    using r that by (simp_all add: region_same_def live_def)
  show p: "ptr s' = ptr s"
  proof (rule ext)
    fix x :: "nat \<times> slot"
    obtain j sl where x: "x = (j, sl)" by (cases x)
    show "ptr s' x = ptr s x"
    proof (cases sl)
      case (Ptr k)
      have "get32 (g_blocks s' (unat (iindirect (g_inodes s j)))) (4 * k)
          = get32 (g_blocks s (unat (iindirect (g_inodes s j)))) (4 * k)"
        if "live s j" "k < 128" "iindirect (g_inodes s j) \<noteq> NO_BLOCK"
        using blk [of "(j, Indir)"] that by (intro get32_cong) (simp add: ptr_def)
      with Ptr n show ?thesis by (auto simp: x ptr_def lv)
    qed (use n in \<open>auto simp: x ptr_def lv\<close>)
  qed
  have "\<forall>b < 512. used s' b \<longleftrightarrow> used s b" using r unfolding region_same_def by blast
  with inv show "blk_inv s'" by (simp add: blk_inv_def p)
qed

lemma region_same_fs:
  assumes inv: "fs_inv s" and r: "region_same s s'"
  shows "fs_inv s'" "abs_fs s' = abs_fs s"
proof -
  note p = region_same_ptr [OF fs_blk [OF inv] r]
  have ty: "itype (g_inodes s' j) = itype (g_inodes s j)" "isize (g_inodes s' j) = isize (g_inodes s j)"
      "iindirect (g_inodes s' j) = iindirect (g_inodes s j)" if "live s j" for j
    using r that by (simp_all add: region_same_def live_def)
  have c: "content s' j x = content s j x" for j x
    using p(3) [of "(j, lslot (x div 512))" "x mod 512"] by (simp add: content_def p(1) Let_def)
  have di: "dent_inode (g_blocks s' (unat (ptr s (j, Direct b)))) k = dent_inode (g_blocks s (unat (ptr s (j, Direct b)))) k"
      and db: "i < 32 \<Longrightarrow> dent_byte (g_blocks s' (unat (ptr s (j, Direct b)))) k i
        = dent_byte (g_blocks s (unat (ptr s (j, Direct b)))) k i"
    if "ptr s (j, Direct b) \<noteq> NO_BLOCK" "k < 14" for j b k i
  proof -
    have "36 * k + 36 \<le> 504" using that(2) by simp
    then show "dent_inode (g_blocks s' (unat (ptr s (j, Direct b)))) k
        = dent_inode (g_blocks s (unat (ptr s (j, Direct b)))) k"
      unfolding dent_inode_def by (intro arg_cong [where f = sint] get32_cong p(3) [OF that(1)]) linarith
    show "dent_byte (g_blocks s' (unat (ptr s (j, Direct b)))) k i
        = dent_byte (g_blocks s (unat (ptr s (j, Direct b)))) k i" if "i < 32"
      unfolding dent_byte_def by (rule p(3) [OF \<open>ptr s (j, Direct b) \<noteq> NO_BLOCK\<close>])
        (use that \<open>36 * k + 36 \<le> 504\<close> in linarith)
  qed
  have dnm: "dent_name (g_blocks s' (unat (ptr s (j, Direct b)))) k = dent_name (g_blocks s (unat (ptr s (j, Direct b)))) k"
    if "ptr s (j, Direct b) \<noteq> NO_BLOCK" "k < 14" for j b k
  proof -
    have "map (dent_byte (g_blocks s' (unat (ptr s (j, Direct b)))) k) [0..<32]
        = map (dent_byte (g_blocks s (unat (ptr s (j, Direct b)))) k) [0..<32]"
      by (intro map_cong refl db that) simp
    then show ?thesis by (simp only: dent_name_def)
  qed
  have e: "dent s' j = dent s j" for j
  proof (rule ext)
    fix x :: "nat \<times> nat"
    show "dent s' j x = dent s j x"
    proof (cases "ptr s (j, Direct (fst x)) \<noteq> NO_BLOCK \<and> snd x < 14")
      case True
      then have "live s j" using not_live_ptr [of s j "Direct (fst x)"] by blast
      with True ty show ?thesis by (simp add: dent_def p(1) di dnm Let_def)
    next
      case False
      then show ?thesis by (auto simp: dent_def p(1))
    qed
  qed
  have dok: "dents_ok s' j \<longleftrightarrow> dents_ok s j" for j
    unfolding dents_ok_def p(1) Let_def using di db by metis
  show "fs_inv s'" "abs_fs s' = abs_fs s"
  proof (rule_tac [!] fs_unchanged [OF inv p(4) p(2) ty(1) e])
    show "file_ok s' j \<and> file_bytes s' j = file_bytes s j" if "file_at s j" for j
      using fs_file [OF inv that] ty [OF file_at_live [OF that]] c
      by (simp add: file_ok_def file_bytes_def cong: map_cong)
    then show "file_ok s' j \<and> file_bytes s' j = file_bytes s j" if "file_at s j" for j
      using that by blast
    show "dir_ok s' j" if "is_dir s j" for j
      using fs_dir [OF inv that] ty [OF is_dir_live [OF that]] dok
      by (simp add: dir_ok_def names_unique_def e)
    then show "dir_ok s' j" if "is_dir s j" for j using that by blast
  qed
qed

section \<open>Flush and mount\<close>

lemma inode_of_inodes_bytes:
  assumes m: "\<And>x. x < 5632 \<Longrightarrow> m x = inodes_bytes t x" and i: "i < 128"
  shows "itype (inode_of_bytes m (44 * i) f) = itype (t i)" "isize (inode_of_bytes m (44 * i) f) = isize (t i)"
    "iindirect (inode_of_bytes m (44 * i) f) = iindirect (t i)"
    "b < 8 \<Longrightarrow> iblocks (inode_of_bytes m (44 * i) f) b = iblocks (t i) b"
proof -
  have k: "m (44 * i + k) = inode_byte (t i) k" if "k < 44" for k
  proof -
    have "44 * i + 44 \<le> 5632" using i by simp
    then have "m (44 * i + k) = inodes_bytes t (44 * i + k)" using that by (intro m) linarith
    also have "\<dots> = inode_byte (t i) k" using that by (simp add: inodes_bytes_def)
    finally show ?thesis .
  qed
  have g: "get32 m (44 * i + a) = w" if "a + 4 \<le> 44" "\<And>j. j < 4 \<Longrightarrow> inode_byte (t i) (a + j) = byte32 w j" for a w
    unfolding get32_def by (rule ld32_byte32) (use k [of "a + _"] that in \<open>simp add: add.assoc\<close>)
  show "itype (inode_of_bytes m (44 * i) f) = itype (t i)"
    using k [of 0] by (simp add: inode_of_bytes_def inode_byte_def)
  show "isize (inode_of_bytes m (44 * i) f) = isize (t i)"
    using g [of 4 "isize (t i)"] by (simp add: inode_of_bytes_def inode_byte_def)
  show "iindirect (inode_of_bytes m (44 * i) f) = iindirect (t i)"
    using g [of 40 "iindirect (t i)"] by (simp add: inode_of_bytes_def inode_byte_def)
  show "iblocks (inode_of_bytes m (44 * i) f) b = iblocks (t i) b" if b: "b < 8"
  proof -
    have "inode_byte (t i) (8 + 4 * b + j) = byte32 (iblocks (t i) b) j" if "j < 4" for j
    proof -
      have "8 + 4 * b + j - 8 = b * 4 + j" by simp
      then have "(8 + 4 * b + j - 8) div 4 = b" "(8 + 4 * b + j - 8) mod 4 = j" using that by simp_all
      moreover have "8 + 4 * b + j < 40" "\<not> 8 + 4 * b + j < 8" using that b by linarith+
      ultimately show ?thesis by (simp add: inode_byte_def)
    qed
    with g [of "8 + 4 * b" "iblocks (t i) b"] b show ?thesis
      by (simp add: inode_of_bytes_def add.assoc)
  qed
qed

lemma superblock_words:
  "get32 superblock 0 = 0x4D554E49" "get32 superblock 4 = 2" "get32 superblock 8 = 128"
  "get32 superblock 12 = 512"
  by (simp_all add: superblock_def get32_put32 get32_put32_other)

context block_device
begin

lemma flush_blocks:
  assumes "good d" and "n \<le> 512"
  shows "good (fold (flush_block vblk_write s) [0..<n] d)
    \<and> (\<forall>m. \<forall>x < 512. view (fold (flush_block vblk_write s) [0..<n] d) m x =
       (if 13 \<le> m \<and> m < 13 + n \<and> used s (m - 13) then g_blocks s (m - 13) x else view d m x))"
  using assms(2)
proof (induction n)
  case (Suc n)
  let ?D = "fold (flush_block vblk_write s) [0..<n] d"
  have ih: "good ?D" "view ?D m x = (if 13 \<le> m \<and> m < 13 + n \<and> used s (m - 13)
      then g_blocks s (m - 13) x else view d m x)" if "x < 512" for m x
    using Suc that by simp_all
  have g: "good ?D" using ih(1) [of 0] by simp
  have lt: "13 + n < 525" using Suc.prems by simp
  have fb: "view (flush_block vblk_write s n ?D) m x
      = (if m = 13 + n \<and> used s n then g_blocks s n x else view ?D m x)" if "x < 512" for m x
    using write_view [OF g lt that] by (simp add: flush_block_def used_def)
  have "view (flush_block vblk_write s n ?D) m x = (if 13 \<le> m \<and> m < 13 + Suc n \<and> used s (m - 13)
      then g_blocks s (m - 13) x else view d m x)" if "x < 512" for m x
    by (cases "m = 13 + n") (auto simp: fb [OF that] ih(2) [OF that])
  moreover have "good (flush_block vblk_write s n ?D)" using g write_good [OF g lt] by (simp add: flush_block_def)
  ultimately show ?case by simp
qed (use assms in auto)

lemma mount_blocks:
  assumes "good d" and "n \<le> 512"
  shows "(case fold (mount_block vblk_read) [0..<n] (s, d) of (s', d') \<Rightarrow>
      good d' \<and> view d' = view d \<and> g_inodes s' = g_inodes s \<and> g_block_used s' = g_block_used s
      \<and> (\<forall>b. \<forall>x < 512. g_blocks s' b x = (if b < n \<and> used s b then view d (13 + b) x else g_blocks s b x)))"
  using assms(2)
proof (induction n)
  case (Suc n)
  obtain s1 d1 where f: "fold (mount_block vblk_read) [0..<n] (s, d) = (s1, d1)" by fastforce
  with Suc have ih: "good d1" "view d1 = view d" "g_inodes s1 = g_inodes s" "g_block_used s1 = g_block_used s"
    "\<And>b x. x < 512 \<Longrightarrow> g_blocks s1 b x = (if b < n \<and> used s b then view d (13 + b) x else g_blocks s b x)"
    by simp_all
  obtain z d2 where r: "vblk_read (13 + n) (g_blocks s1 n) d1 = (z, d2)" by fastforce
  have lt: "13 + n < 525" using Suc.prems by simp
  have g2: "good d2" "view d2 = view d"
    using read_good [OF ih(1) lt, of "g_blocks s1 n"] read_view [OF ih(1) lt, of "g_blocks s1 n"] ih(2)
    by (simp_all add: r)
  have z: "z x = view d (13 + n) x" if "x < 512" for x
    using read_buf [OF ih(1) lt that, of "g_blocks s1 n"] ih(2) by (simp add: r)
  have u: "used s1 = used s" by (simp add: used_def ih(4) fun_eq_iff)
  have "mount_block vblk_read n (s1, d1) = (if used s n then (upd_block n (\<lambda>_. z) s1, d2) else (s1, d1))"
    by (simp add: mount_block_def r used_def ih(4))
  then show ?case
    using ih g2 z by (auto simp: f less_Suc_eq)
qed (use assms in simp)

lemma flush_view:
  assumes "good d"
  shows "good (munin_flush vblk_write s d)"
    "x < 512 \<Longrightarrow> view (munin_flush vblk_write s d) 0 x = superblock x"
    "x < 5632 \<Longrightarrow> view (munin_flush vblk_write s d) (1 + x div 512) (x mod 512) = inodes_bytes (g_inodes s) x"
    "x < 64 \<Longrightarrow> view (munin_flush vblk_write s d) 12 x = g_block_used s x"
    "b < 512 \<Longrightarrow> used s b \<Longrightarrow> x < 512 \<Longrightarrow> view (munin_flush vblk_write s d) (13 + b) x = g_blocks s b x"
proof -
  define d1 where "d1 = vblk_write 0 superblock d"
  define d2 where "d2 = disk_write_bytes vblk_write 1 (inodes_bytes (g_inodes s)) 5632 d1"
  define d3 where "d3 = disk_write_bytes vblk_write 12 (g_block_used s) 64 d2"
  have e: "munin_flush vblk_write s d = fold (flush_block vblk_write s) [0..<512] d3"
    unfolding munin_flush_def Let_def d1_def d2_def d3_def ..
  have g1: "good d1" using write_good [OF assms, of 0] by (simp add: d1_def)
  have v1: "view d1 0 x = superblock x" if "x < 512" for x
    using write_view [OF assms _ that, of 0] by (simp add: d1_def)
  note w2 = write_bytes [OF g1, where start = 1 and nbytes = 5632 and p = "inodes_bytes (g_inodes s)",
    folded d2_def]
  have g2: "good d2" using w2(1) [of 0] by simp
  have v2: "view d2 0 x = superblock x" if "x < 512" for x
    using w2(2) [of x 0] v1 [OF that] that by simp
  have v2': "view d2 (1 + x div 512) (x mod 512) = inodes_bytes (g_inodes s) x" if "x < 5632" for x
    using w2(3) [of "x mod 512" "1 + x div 512"] that by simp
  note w3 = write_bytes [OF g2, where start = 12 and nbytes = 64 and p = "g_block_used s", folded d3_def]
  have g3: "good d3" using w3(1) [of 0] by simp
  have v3: "view d3 m x = view d2 m x" if "m < 12" "x < 512" for m x using w3(2) [of x m] that by simp
  have v3': "view d3 12 x = g_block_used s x" if "x < 64" for x using w3(3) [of x 12] that by simp
  note fb = flush_blocks [OF g3 order.refl, of s, folded e]
  show "good (munin_flush vblk_write s d)" using fb by blast
  show "view (munin_flush vblk_write s d) 0 x = superblock x" if "x < 512" using fb v2 v3 that by simp
  show "view (munin_flush vblk_write s d) (1 + x div 512) (x mod 512) = inodes_bytes (g_inodes s) x"
    if "x < 5632"
  proof -
    have "1 + x div 512 < 12" "x mod 512 < 512" using that by simp_all
    then show ?thesis using fb v2' [OF that] v3 by simp
  qed
  show "view (munin_flush vblk_write s d) 12 x = g_block_used s x" if "x < 64" using fb v3' that by simp
  show "view (munin_flush vblk_write s d) (13 + b) x = g_blocks s b x" if "b < 512" "used s b" "x < 512"
    using fb that by simp
qed

lemma mount_good:
  assumes gd: "good d"
  shows "good (snd (snd (munin_mount vblk_read s0 d)))"
    and "view (snd (snd (munin_mount vblk_read s0 d))) = view d"
proof -
  obtain sb d1 where r0: "vblk_read 0 (\<lambda>_. 0) d = (sb, d1)" by fastforce
  have g1: "good d1" "view d1 = view d"
    using read_good [OF gd, of 0 "\<lambda>_. 0"] read_view [OF gd, of 0 "\<lambda>_. 0"] by (simp_all add: r0)
  obtain t d2 where r1: "disk_read_bytes vblk_read 1 (inodes_bytes (g_inodes s0)) 5632 d1 = (t, d2)" by fastforce
  have g2: "good d2" "view d2 = view d1"
    using read_bytes(1,2) [OF g1(1), where start = 1 and nbytes = 5632 and dst = "inodes_bytes (g_inodes s0)", unfolded r1]
    by simp_all
  define s1 where "s1 = s0\<lparr>g_inodes := (\<lambda>i. if i < 128 then inode_of_bytes t (44 * i) (g_inodes s0 i)
                                      else g_inodes s0 i)\<rparr>"
  obtain u d3 where r2: "disk_read_bytes vblk_read 12 (g_block_used s1) 64 d2 = (u, d3)" by fastforce
  have g3: "good d3" "view d3 = view d2"
    using read_bytes(1,2) [OF g2(1), where start = 12 and nbytes = 64 and dst = "g_block_used s1", unfolded r2] by simp_all
  obtain s3 d4 where r3: "fold (mount_block vblk_read) [0..<512] (s1\<lparr>g_block_used := u\<rparr>, d3) = (s3, d4)" by fastforce
  from mount_blocks [OF g3(1) order.refl, of "s1\<lparr>g_block_used := u\<rparr>"] r3 have g4: "good d4" "view d4 = view d3" by simp_all
  have "snd (snd (munin_mount vblk_read s0 d)) = d1 \<or> snd (snd (munin_mount vblk_read s0 d)) = d4"
    using r0 r1 r2 r3 by (simp add: munin_mount_def s1_def Let_def)
  then show "good (snd (snd (munin_mount vblk_read s0 d)))" "view (snd (snd (munin_mount vblk_read s0 d))) = view d"
    using g1 g2 g3 g4 by auto
qed

lemma mount_flush:
  assumes good: "good d" and mv: "view d' = view (munin_flush vblk_write s d)" and gd: "good d'"
  shows "fst (munin_mount vblk_read s0 d')"
    and "region_same s (fst (snd (munin_mount vblk_read s0 d')))"
proof -
  note fv = flush_view [OF good, where s = s, folded mv]
  obtain sb d1 where r0: "vblk_read 0 (\<lambda>_. 0) d' = (sb, d1)" by fastforce
  have g1: "good d1" and v1: "view d1 = view d'"
    using read_good [OF gd, of 0 "\<lambda>_. 0"] read_view [OF gd, of 0 "\<lambda>_. 0"] by (simp_all add: r0)
  have sb: "sb x = superblock x" if "x < 512" for x
    using read_buf [OF gd _ that, of 0 "\<lambda>_. 0"] fv(2) [OF that] by (simp add: r0)
  have "get32 sb a = get32 superblock a" if "a + 4 \<le> 512" for a
    by (rule get32_cong) (use sb that in simp)
  then have words: "get32 sb 0 = 0x4D554E49" "get32 sb 4 = 2" "get32 sb 8 = 128" "get32 sb 12 = 512"
    by (simp_all add: superblock_words)
  obtain t d2 where r1: "disk_read_bytes vblk_read 1 (inodes_bytes (g_inodes s0)) 5632 d1 = (t, d2)" by fastforce
  note rb1 = read_bytes [OF g1, where start = 1 and nbytes = 5632 and dst = "inodes_bytes (g_inodes s0)",
    unfolded r1]
  have g2: "good d2" and v2: "view d2 = view d'" using rb1(1,2) v1 by simp_all
  have t: "t x = inodes_bytes (g_inodes s) x" if "x < 5632" for x
    using rb1(3) [of x] fv(3) [OF that] that v1 by simp
  define s1 where "s1 = s0\<lparr>g_inodes := (\<lambda>i. if i < 128 then inode_of_bytes t (44 * i) (g_inodes s0 i)
                                      else g_inodes s0 i)\<rparr>"
  obtain u d3 where r2: "disk_read_bytes vblk_read 12 (g_block_used s1) 64 d2 = (u, d3)" by fastforce
  note rb2 = read_bytes [OF g2, where start = 12 and nbytes = 64 and dst = "g_block_used s1", unfolded r2]
  have g3: "good d3" and v3: "view d3 = view d'" using rb2(1,2) v2 by simp_all
  have u: "u x = g_block_used s x" if "x < 64" for x
    using rb2(3) [of x] fv(4) [OF that] that v2 by simp
  define s2 where "s2 = s1\<lparr>g_block_used := u\<rparr>"
  obtain s3 d4 where r3: "fold (mount_block vblk_read) [0..<512] (s2, d3) = (s3, d4)" by fastforce
  from mount_blocks [OF g3 order.refl, of s2] r3
  have s3: "g_inodes s3 = g_inodes s2" "g_block_used s3 = g_block_used s2"
    "\<And>b x. x < 512 \<Longrightarrow> g_blocks s3 b x = (if b < 512 \<and> used s2 b then view d3 (13 + b) x else g_blocks s2 b x)"
    by simp_all
  have m: "munin_mount vblk_read s0 d' = (True, s3, d4)"
    using r0 words r1 r2 r3 by (simp add: munin_mount_def s1_def s2_def Let_def)
  then show "fst (munin_mount vblk_read s0 d')" by simp
  have us: "used s2 b \<longleftrightarrow> used s b" if "b < 512" for b
  proof -
    have "b div 8 < 64" using that by simp
    then show ?thesis by (simp add: used_def bitmap_test_def s2_def u)
  qed
  have "used s3 = used s2" by (simp add: used_def s3(2) fun_eq_iff)
  moreover have "g_blocks s3 b x = g_blocks s b x" if "b < 512" "used s b" "x < 512" for b x
    using that us fv(5) [OF that] by (simp add: s3(3) v3)
  moreover have "g_inodes s3 i = inode_of_bytes t (44 * i) (g_inodes s0 i)" if "i < 128" for i
    using that by (simp add: s3(1) s2_def s1_def)
  ultimately show "region_same s (fst (snd (munin_mount vblk_read s0 d')))"
    using inode_of_inodes_bytes [OF t] us by (simp add: m region_same_def)
qed

end

end
