(* ===== verification/Vblk.thy ===== *)
theory Vblk
  imports Munin_Disk Pci
begin

text \<open>
  The requests of the virtio block driver (vblk.cpp): one at a time, as a chain of three descriptors
  (header, 512-byte data buffer, status byte) stored in the queue's memory \<^verbatim>\<open>g_queue\<close>, published in the
  available ring and polled for completion in the used ring. The three parts of the queue lie in one array
  of bytes, at the offsets that \<^verbatim>\<open>vblk_init\<close> (theory Pci) computed from the queue size. The device is not
  under src/: it is the argument \<open>dev\<close>, a function from the memory the driver shares with it and the disk
  to both after it has served the ring. \<open>virtio_dev\<close> states what the driver relies on, as the virtio
  specification documents it: in a queue whose size is a power of two with room for the chain, a
  well-formed request chain for a sector of the disk is served and the used index advances.
\<close>

section \<open>Stores of 16 and 64 bits\<close>

definition get16 :: "(nat \<Rightarrow> u8) \<Rightarrow> nat \<Rightarrow> u16" where
  "get16 m a = ucast (m a) OR push_bit 8 (ucast (m (a + 1)))"

definition put16 :: "(nat \<Rightarrow> u8) \<Rightarrow> nat \<Rightarrow> u16 \<Rightarrow> nat \<Rightarrow> u8" where
  "put16 m a w = m(a := ucast w, a + 1 := ucast (drop_bit 8 w))"

definition get64 :: "(nat \<Rightarrow> u8) \<Rightarrow> nat \<Rightarrow> u64" where
  "get64 m a = ucast (get32 m a) OR push_bit 32 (ucast (get32 m (a + 4)))"

definition put64 :: "(nat \<Rightarrow> u8) \<Rightarrow> nat \<Rightarrow> u64 \<Rightarrow> nat \<Rightarrow> u8" where
  "put64 m a w = put32 (put32 m a (ucast w)) (a + 4) (ucast (drop_bit 32 w))"

lemma get16_put16 [simp]: "get16 (put16 m a w) a = w"
proof (rule bit_word_eqI)
  fix n assume "n < LENGTH(16)"
  then show "bit (get16 (put16 m a w) a) n = bit w n"
    by (cases "n < 8") (auto simp: get16_def put16_def bit_simps)
qed

lemma get64_put64 [simp]: "get64 (put64 m a w) a = w"
proof (rule bit_word_eqI)
  fix n assume "n < LENGTH(64)"
  then show "bit (get64 (put64 m a w) a) n = bit w n"
    by (cases "n < 32") (auto simp: get64_def put64_def view_simps bit_simps)
qed

lemma put16_other: "x < a \<or> a + 2 \<le> x \<Longrightarrow> put16 m a w x = m x"
  by (auto simp: put16_def)

lemma put64_other: "x < a \<or> a + 8 \<le> x \<Longrightarrow> put64 m a w x = m x"
  by (auto simp: put64_def put32_other)

lemma get16_cong: "(\<And>x. a \<le> x \<Longrightarrow> x < a + 2 \<Longrightarrow> m x = m' x) \<Longrightarrow> get16 m a = get16 m' a"
  by (simp add: get16_def)

lemma get64_cong: "(\<And>x. a \<le> x \<Longrightarrow> x < a + 8 \<Longrightarrow> m x = m' x) \<Longrightarrow> get64 m a = get64 m' a"
  unfolding get64_def by (intro arg_cong2 [where f = "(OR)"] arg_cong [where f = "push_bit 32"]
      arg_cong [where f = ucast] get32_cong) simp_all

section \<open>Descriptors\<close>

record vq_desc =
  d_addr :: u64
  d_len :: u32
  d_flags :: u16
  d_next :: u16

definition put_desc :: "nat \<Rightarrow> vq_desc \<Rightarrow> (nat \<Rightarrow> u8) \<Rightarrow> nat \<Rightarrow> u8" where
  "put_desc i d q = put16 (put16 (put32 (put64 q (16 * i) (d_addr d)) (16 * i + 8) (d_len d))
     (16 * i + 12) (d_flags d)) (16 * i + 14) (d_next d)"

definition get_desc :: "nat \<Rightarrow> (nat \<Rightarrow> u8) \<Rightarrow> vq_desc" where
  "get_desc i q = \<lparr>d_addr = get64 q (16 * i), d_len = get32 q (16 * i + 8), d_flags = get16 q (16 * i + 12),
     d_next = get16 q (16 * i + 14)\<rparr>"

lemma put_desc_other: "x < 16 * i \<or> 16 * i + 16 \<le> x \<Longrightarrow> put_desc i d q x = q x"
  by (auto simp: put_desc_def put16_other put32_other put64_other)

lemma get_desc_cong: "(\<And>x. 16 * i \<le> x \<Longrightarrow> x < 16 * i + 16 \<Longrightarrow> q x = q' x) \<Longrightarrow> get_desc i q = get_desc i q'"
  unfolding get_desc_def by (simp add: get16_cong [of _ q q'] get32_cong [of _ q q'] get64_cong [of _ q q'])

lemma get_put_desc [simp]: "get_desc i (put_desc i d q) = d"
proof -
  have "get64 (put_desc i d q) (16 * i) = get64 (put64 q (16 * i) (d_addr d)) (16 * i)"
    "get32 (put_desc i d q) (16 * i + 8) = get32 (put32 (put64 q (16 * i) (d_addr d)) (16 * i + 8) (d_len d)) (16 * i + 8)"
    "get16 (put_desc i d q) (16 * i + 12) = get16 (put16 (put32 (put64 q (16 * i) (d_addr d)) (16 * i + 8) (d_len d))
     (16 * i + 12) (d_flags d)) (16 * i + 12)"
    by (rule get64_cong get32_cong get16_cong; simp add: put_desc_def put16_other put32_other)+
  moreover have "get16 (put_desc i d q) (16 * i + 14) = d_next d" unfolding put_desc_def by (rule get16_put16)
  ultimately show ?thesis by (simp add: get_desc_def get32_put32)
qed

lemma get_put_desc_other [simp]: "i \<noteq> j \<Longrightarrow> get_desc i (put_desc j d q) = get_desc i q"
  by (rule get_desc_cong, rule put_desc_other) linarith

section \<open>A request\<close>

text \<open>The driver's variables: those that \<^verbatim>\<open>vblk_init\<close> sets, the request header, the status and the buffer.\<close>

record vblk = vblk_globals +
  pa_hdr :: u64
  pa_data :: u64
  pa_status :: u64
  hdr_type :: u32
  hdr_reserved :: u32
  hdr_sector :: u64
  v_status :: u8
  v_data :: sector

type_synonym disk = "nat \<Rightarrow> sector"
type_synonym dev = "vblk \<times> disk \<Rightarrow> vblk \<times> disk"

definition request_header :: "u64 \<Rightarrow> bool \<Rightarrow> sector \<Rightarrow> vblk \<Rightarrow> vblk" where
  "request_header sector wr buf v =
     (let v1 = v\<lparr>hdr_type := (if wr then 1 else 0), hdr_reserved := 0, hdr_sector := sector,
                 v_status := 0xFF\<rparr>
      in if wr then v1\<lparr>v_data := blit (v_data v1) 0 buf 0 512\<rparr> else v1)"

definition request_chain :: "bool \<Rightarrow> vblk \<Rightarrow> vblk" where
  "request_chain wr v = v\<lparr>vg_queue :=
     put_desc 2 \<lparr>d_addr = pa_status v, d_len = 1, d_flags = 2, d_next = 0\<rparr>
      (put_desc 1 \<lparr>d_addr = pa_data v, d_len = 512, d_flags = 1 OR (if wr then 0 else 2), d_next = 2\<rparr>
        (put_desc 0 \<lparr>d_addr = pa_hdr v, d_len = 16, d_flags = 1, d_next = 1\<rparr> (vg_queue v)))\<rparr>"

text \<open>The slot of the ring is found by a division, which traps when the queue size is 0: then \<open>None\<close>.\<close>

definition publish :: "vblk \<Rightarrow> vblk option" where
  "publish v =
     (if vg_qsize v = 0 then None
      else let q1 = put16 (vg_queue v) (vg_avail v + 4 + 2 * unat (vg_avail_idx v mod vg_qsize v)) 0;
               idx = vg_avail_idx v + 1
           in Some (v\<lparr>vg_avail_idx := idx, vg_queue := put16 q1 (vg_avail v + 2) idx\<rparr>))"

definition used_idx :: "vblk \<Rightarrow> u16" where
  "used_idx v = get16 (vg_queue v) (vg_used v + 2)"

text \<open>\<open>None\<close>: the division traps, or the poll loop never sees the used index move.\<close>

definition vblk_request ::
  "dev \<Rightarrow> u64 \<Rightarrow> sector \<Rightarrow> bool \<Rightarrow> vblk \<times> disk \<Rightarrow> (bool \<times> sector \<times> (vblk \<times> disk)) option" where
  "vblk_request dev sector buf wr vd =
     (let (v, disk) = vd in
      case publish (request_chain wr (request_header sector wr buf v)) of None \<Rightarrow> None
      | Some v1 \<Rightarrow>
          (let before = used_idx v1; (v2, disk') = dev (v1, disk)
           in if used_idx v2 = before then None
              else Some (v_status v2 = 0, if wr then buf else blit buf 0 (v_data v2) 0 512, (v2, disk'))))"

text \<open>
  The machine that the file system's transfers run on: \<open>None\<close> when it has stopped in a request, for good;
  whatever is called after that is never reached and changes nothing. The file system ignores the status of
  a transfer, so its two operations return the buffer and the new state only.
\<close>

type_synonym drive = "(vblk \<times> disk) option"

definition vblk_read :: "dev \<Rightarrow> nat \<Rightarrow> sector \<Rightarrow> drive \<Rightarrow> sector \<times> drive" where
  "vblk_read dev n buf d = (case Option.bind d (vblk_request dev (of_nat n) buf False) of
     Some (ok, b, vd) \<Rightarrow> (b, Some vd) | None \<Rightarrow> (buf, None))"

definition vblk_write :: "dev \<Rightarrow> nat \<Rightarrow> sector \<Rightarrow> drive \<Rightarrow> drive" where
  "vblk_write dev n buf d = map_option (\<lambda>(ok, b, vd). vd) (Option.bind d (vblk_request dev (of_nat n) buf True))"

section \<open>The protocol\<close>

text \<open>A queue as the device accepts it, laid out as \<^verbatim>\<open>vblk_init\<close> does: a power of two, at least 4.\<close>

definition queue_ready :: "vblk \<Rightarrow> bool" where
  "queue_ready v \<longleftrightarrow> unat (vg_qsize v) \<in> {4, 8, 16, 32, 64, 128, 256}
     \<and> queue_layout (unat (vg_qsize v)) (vg_avail v) (vg_used v)"

text \<open>The request at the head of the available ring, as the device finds it.\<close>

definition chain_ok :: "vblk \<Rightarrow> bool" where
  "chain_ok v \<longleftrightarrow> (let q = vg_queue v;
       h = unat (get16 q (vg_avail v + 4 + 2 * unat ((get16 q (vg_avail v + 2) - 1) mod vg_qsize v)));
       d0 = get_desc h q; d1 = get_desc (unat (d_next d0)) q; d2 = get_desc (unat (d_next d1)) q
     in d_addr d0 = pa_hdr v \<and> d_len d0 = 16 \<and> d_flags d0 = 1
        \<and> d_addr d1 = pa_data v \<and> d_len d1 = 512
        \<and> d_flags d1 = (if hdr_type v = 1 then 1 else 3)
        \<and> d_addr d2 = pa_status v \<and> d_len d2 = 1 \<and> d_flags d2 = 2)"

text \<open>The device writes the used ring, the status and the data; the driver's own variables are out of its reach.\<close>

definition same_setup :: "vblk \<Rightarrow> vblk \<Rightarrow> bool" where
  "same_setup v v' \<longleftrightarrow> vg_qsize v' = vg_qsize v \<and> vg_avail v' = vg_avail v \<and> vg_used v' = vg_used v"

definition virtio_dev :: "dev \<Rightarrow> bool" where
  "virtio_dev dev \<longleftrightarrow> (\<forall>v disk. queue_ready v \<longrightarrow> chain_ok v \<longrightarrow> hdr_type v \<le> 1 \<longrightarrow> unat (hdr_sector v) < 525 \<longrightarrow>
     (let (v', disk') = dev (v, disk); n = unat (hdr_sector v) in
        used_idx v' = used_idx v + 1 \<and> v_status v' = 0 \<and> same_setup v v'
        \<and> (if hdr_type v = 1
           then \<forall>m x. x < 512 \<longrightarrow> disk' m x = (if m = n then v_data v x else disk m x)
           else disk' = disk \<and> (\<forall>x < 512. v_data v' x = disk n x))))"

lemma queue_readyD:
  assumes "queue_ready v"
  shows "4 \<le> unat (vg_qsize v)" "vg_qsize v \<noteq> 0" "vg_avail v = 16 * unat (vg_qsize v)"
    "vg_avail v + 6 + 2 * unat (vg_qsize v) \<le> vg_used v"
    "unat (w mod vg_qsize v) < unat (vg_qsize v)"
proof -
  show q: "4 \<le> unat (vg_qsize v)" using assms by (auto simp: queue_ready_def)
  then show "vg_qsize v \<noteq> 0" by auto
  show "vg_avail v = 16 * unat (vg_qsize v)" "vg_avail v + 6 + 2 * unat (vg_qsize v) \<le> vg_used v"
    using assms by (simp_all add: queue_ready_def queue_layout_def)
  show "unat (w mod vg_qsize v) < unat (vg_qsize v)" using q by (simp add: unat_mod_distrib)
qed

lemma same_setup_ready: "same_setup v v' \<Longrightarrow> queue_ready v \<Longrightarrow> queue_ready v'"
  by (simp add: same_setup_def queue_ready_def)

text \<open>What the driver publishes is what the device looks for, whatever the ring index.\<close>

lemma published:
  assumes r: "queue_ready v"
  obtains v1 where "publish (request_chain wr (request_header sector wr buf v)) = Some v1" "chain_ok v1"
    "queue_ready v1" "same_setup v v1" "used_idx v1 = used_idx v" "hdr_type v1 = (if wr then 1 else 0)" "hdr_sector v1 = sector"
    "v_data v1 = (if wr then blit (v_data v) 0 buf 0 512 else v_data v)"
proof -
  note q = queue_readyD [OF r]
  define vh where "vh = request_header sector wr buf v"
  define vc where "vc = request_chain wr vh"
  define slot where "slot = unat (vg_avail_idx v mod vg_qsize v)"
  define Q where "Q = put16 (put16 (vg_queue vc) (vg_avail v + 4 + 2 * slot) 0) (vg_avail v + 2) (vg_avail_idx v + 1)"
  define v1 where "v1 = vc\<lparr>vg_avail_idx := vg_avail_idx v + 1, vg_queue := Q\<rparr>"
  have h: "vg_qsize vh = vg_qsize v" "vg_avail vh = vg_avail v" "vg_used vh = vg_used v" "vg_avail_idx vh = vg_avail_idx v"
    "vg_queue vh = vg_queue v" "hdr_type vh = (if wr then 1 else 0)" "hdr_sector vh = sector"
    "v_data vh = (if wr then blit (v_data v) 0 buf 0 512 else v_data v)"
    by (simp_all add: vh_def request_header_def Let_def)
  have c: "vg_qsize vc = vg_qsize v" "vg_avail vc = vg_avail v" "vg_used vc = vg_used v" "vg_avail_idx vc = vg_avail_idx v"
    "hdr_type vc = hdr_type vh" "hdr_sector vc = hdr_sector vh" "v_data vc = v_data vh"
    "pa_hdr vc = pa_hdr vh" "pa_data vc = pa_data vh" "pa_status vc = pa_status vh"
    by (simp_all add: vc_def request_chain_def h)
  have slot: "slot < unat (vg_qsize v)" unfolding slot_def by (rule q(5))
  have idx: "get16 Q (vg_avail v + 2) = vg_avail_idx v + 1" by (simp add: Q_def)
  have head: "get16 Q (vg_avail v + 4 + 2 * slot) = 0"
  proof -
    have "get16 Q (vg_avail v + 4 + 2 * slot) = get16 (put16 (vg_queue vc) (vg_avail v + 4 + 2 * slot) 0) (vg_avail v + 4 + 2 * slot)"
      unfolding Q_def by (rule get16_cong, rule put16_other) linarith
    then show ?thesis by simp
  qed
  have desc: "get_desc i Q = get_desc i (vg_queue vc)" if "i < 3" for i
  proof (rule get_desc_cong)
    fix x assume "16 * i \<le> x" "x < 16 * i + 16"
    then have "x < vg_avail v" using that q(1,3) by linarith
    then show "Q x = vg_queue vc x" by (simp add: Q_def put16_other)
  qed
  have "used_idx v1 = get16 (vg_queue vc) (vg_used v + 2)"
    unfolding used_idx_def v1_def
    by (simp add: c Q_def, rule get16_cong) (use q(4) slot in \<open>simp add: put16_other\<close>)
  also have "\<dots> = get16 (vg_queue v) (vg_used v + 2)"
    unfolding vc_def request_chain_def
    by (rule get16_cong) (use q(1,3,4) in \<open>simp add: put_desc_other h\<close>)
  finally have used: "used_idx v1 = used_idx v" by (simp add: used_idx_def)
  have "d_next (get_desc 0 Q) = 1" "d_next (get_desc 1 Q) = 2" using desc [of 0] desc [of 1] by (simp_all add: vc_def request_chain_def)
  moreover have s: "unat ((get16 Q (vg_avail v + 2) - 1) mod vg_qsize v) = slot" unfolding idx by (simp add: slot_def)
  ultimately have chain: "chain_ok v1"
    using desc [of 0] desc [of 1] desc [of 2]
    unfolding chain_ok_def Let_def v1_def
    by (simp add: c(1,2,5,8-10) s head) (simp add: vc_def request_chain_def h)
  show thesis
  proof (rule that [of v1])
    show "publish (request_chain wr (request_header sector wr buf v)) = Some v1"
      using q(2) unfolding vh_def [symmetric] vc_def [symmetric] publish_def by (simp add: c v1_def Q_def slot_def Let_def)
    show "same_setup v v1" by (simp add: same_setup_def v1_def c)
    then show "queue_ready v1" using r same_setup_ready by blast
  qed (use used chain h in \<open>simp_all add: v1_def c\<close>)
qed

lemma vblk_request_served:
  assumes dev: "virtio_dev dev" and r: "queue_ready v" and n: "n < 525"
  shows "\<exists>b v' disk'. vblk_request dev (of_nat n) buf wr (v, disk) = Some (True, b, (v', disk')) \<and> queue_ready v'
    \<and> (if wr then \<forall>m x. x < 512 \<longrightarrow> disk' m x = (if m = n then buf x else disk m x)
       else disk' = disk \<and> (\<forall>x < 512. b x = disk n x))"
proof -
  obtain v1 where v1: "publish (request_chain wr (request_header (of_nat n) wr buf v)) = Some v1" "chain_ok v1"
    "queue_ready v1" "hdr_type v1 = (if wr then 1 else 0)" "hdr_sector v1 = of_nat n"
    "v_data v1 = (if wr then blit (v_data v) 0 buf 0 512 else v_data v)"
    using published [OF r] by metis
  obtain v2 disk' where d: "dev (v1, disk) = (v2, disk')" by fastforce
  have un: "unat (of_nat n :: u64) = n" by (rule unat_of_nat_u64) (use n in simp)
  have served: "used_idx v2 = used_idx v1 + 1 \<and> v_status v2 = 0 \<and> same_setup v1 v2
      \<and> (if wr then \<forall>m x. x < 512 \<longrightarrow> disk' m x = (if m = n then v_data v1 x else disk m x)
         else disk' = disk \<and> (\<forall>x < 512. v_data v2 x = disk n x))"
    using dev [unfolded virtio_dev_def, rule_format, of v1 disk] v1 un n d
    by (cases wr) (simp_all add: Let_def)
  then have "vblk_request dev (of_nat n) buf wr (v, disk)
      = Some (True, if wr then buf else blit buf 0 (v_data v2) 0 512, (v2, disk'))"
    by (simp add: vblk_request_def Let_def d v1(1))
  moreover have "queue_ready v2" using served v1(3) same_setup_ready by blast
  ultimately show ?thesis using served v1(6) by (auto simp: blit_apply split: if_splits)
qed

text \<open>The drive is running with a queue that the device accepts; \<open>sectors\<close> is what the disk holds.\<close>

definition drive_ready :: "drive \<Rightarrow> bool" where
  "drive_ready d \<longleftrightarrow> (case d of None \<Rightarrow> False | Some (v, disk) \<Rightarrow> queue_ready v)"

definition sectors :: "drive \<Rightarrow> disk" where
  "sectors d = (case d of None \<Rightarrow> (\<lambda>_ _. 0) | Some (v, disk) \<Rightarrow> disk)"

lemma sectors_Some [simp]: "sectors (Some (v, disk)) = disk"
  by (simp add: sectors_def)

lemma drive_ready_Some: "drive_ready d \<Longrightarrow> \<exists>v disk. d = Some (v, disk) \<and> queue_ready v"
  by (auto simp: drive_ready_def split: option.splits)

text \<open>A request for a sector outside the disk may stop the machine or not; only those within are relied on.\<close>

interpretation vblk: block_device "vblk_read dev" "vblk_write dev" sectors "\<lambda>d. virtio_dev dev \<and> drive_ready d" for dev
proof
  fix d :: drive and n :: nat and buf :: sector
  assume g: "virtio_dev dev \<and> drive_ready d" and n: "n < 525"
  then obtain v disk where d: "d = Some (v, disk)" and r: "queue_ready v" using drive_ready_Some by blast
  have dev: "virtio_dev dev" using g by simp
  note w = vblk_request_served [OF dev r n, of buf True disk] and rd = vblk_request_served [OF dev r n, of buf False disk]
  show "sectors (vblk_write dev n buf d) m x = (if m = n then buf x else sectors d m x)" if "x < 512" for m x
    using w that by (auto simp: vblk_write_def d)
  show "sectors (snd (vblk_read dev n buf d)) = sectors d" using rd by (auto simp: vblk_read_def d)
  show "fst (vblk_read dev n buf d) x = sectors d n x" if "x < 512" for x
    using rd that by (auto simp: vblk_read_def d)
  show "virtio_dev dev \<and> drive_ready (vblk_write dev n buf d)" using w dev by (auto simp: vblk_write_def d drive_ready_def)
  show "virtio_dev dev \<and> drive_ready (snd (vblk_read dev n buf d))" using rd dev by (auto simp: vblk_read_def d drive_ready_def)
qed

text \<open>The drive after another start of the machine: the driver's variables set up anew, the sectors as they were.\<close>

definition restarted :: "drive \<Rightarrow> drive \<Rightarrow> bool" where
  "restarted d d' \<longleftrightarrow> drive_ready d' \<and> sectors d' = sectors d"

lemma flush_mount_restarted:
  assumes dev: "virtio_dev dev" and d: "drive_ready d" and r: "restarted (munin_flush (vblk_write dev) s d) d'"
  shows "drive_ready (munin_flush (vblk_write dev) s d)"
    and "case munin_mount (vblk_read dev) s0 d' of (ok, s1, d1) \<Rightarrow> ok \<and> region_same s s1 \<and> restarted d' d1"
proof -
  have g: "virtio_dev dev \<and> drive_ready d" "virtio_dev dev \<and> drive_ready d'" using dev d r by (simp_all add: restarted_def)
  show "drive_ready (munin_flush (vblk_write dev) s d)" using vblk.flush_view(1) [OF g(1)] by simp
  have "sectors d' = sectors (munin_flush (vblk_write dev) s d)" using r by (simp add: restarted_def)
  from vblk.mount_flush [OF g(1) this g(2), of s0] vblk.mount_good [OF g(2), of s0]
  show "case munin_mount (vblk_read dev) s0 d' of (ok, s1, d1) \<Rightarrow> ok \<and> region_same s s1 \<and> restarted d' d1"
    by (simp add: restarted_def case_prod_beta)
qed

text \<open>A device that behaves as documented and a driver that has been set up, for the witnesses.\<close>

definition ideal_dev :: dev where
  "ideal_dev vd = (let (v, disk) = vd; n = unat (hdr_sector v);
       v' = v\<lparr>vg_queue := put16 (vg_queue v) (vg_used v + 2) (used_idx v + 1), v_status := 0\<rparr> in
     if hdr_type v = 1 then (v', disk(n := v_data v)) else (v'\<lparr>v_data := disk n\<rparr>, disk))"

definition demo_vblk :: vblk where
  "demo_vblk = \<lparr>vg_io = 0xC000, vg_capacity = 1024, vg_qsize = 256, vg_queue = (\<lambda>_. 0), vg_avail = 4096, vg_used = 8192,
     vg_avail_idx = 0xFFFF, pa_hdr = 0x200000, pa_data = 0x200200, pa_status = 0x200010, hdr_type = 0, hdr_reserved = 0,
     hdr_sector = 0, v_status = 0, v_data = (\<lambda>_. 0)\<rparr>"

lemma virtio_dev_ideal: "virtio_dev ideal_dev"
  by (simp add: virtio_dev_def ideal_dev_def Let_def used_idx_def same_setup_def)

lemma demo_vblk_ready: "queue_ready demo_vblk" "drive_ready (Some (demo_vblk, disk))"
proof -
  show r: "queue_ready demo_vblk" by (simp add: queue_ready_def queue_layout_def demo_vblk_def)
  then show "drive_ready (Some (demo_vblk, disk))" by (simp add: drive_ready_def)
qed

section \<open>Properties\<close>

text \<open>
  C27. The driver's side of the virtio protocol: with a device that serves well-formed requests and a queue
  of a size that the device offers, a power of two with room for the chain, a request for a sector of the
  disk always completes, reports success, writes exactly the 512 bytes of the caller's buffer to that sector
  and to no other, and a read changes no sector and returns its 512 bytes; the queue is ready for the next
  request. The chain it publishes is the one the device looks for, whatever the ring index.
\<close>

theorem vblk_request_transfers:
  assumes "virtio_dev dev" and "queue_ready v" and "n < 525"
  shows "\<exists>b v' disk'. vblk_request dev (of_nat n) buf wr (v, disk) = Some (True, b, (v', disk')) \<and> queue_ready v'
    \<and> (if wr then \<forall>m. map (disk' m) [0..<512] = map ((disk(n := buf)) m) [0..<512]
       else disk' = disk \<and> map b [0..<512] = map (disk n) [0..<512])"
  using vblk_request_served [OF assms, of buf wr disk] by (cases wr) fastforce+

theorem vblk_request_transfers_witness:
  "\<forall>disk. \<exists>b v' disk'. vblk_request ideal_dev (of_nat 7) (\<lambda>_. 42) False (demo_vblk, disk) = Some (True, b, (v', disk'))
    \<and> disk' = disk \<and> map b [0..<512] = map (disk 7) [0..<512]"
proof
  fix disk
  show "\<exists>b v' disk'. vblk_request ideal_dev (of_nat 7) (\<lambda>_. 42) False (demo_vblk, disk) = Some (True, b, (v', disk'))
    \<and> disk' = disk \<and> map b [0..<512] = map (disk 7) [0..<512]"
    using vblk_request_transfers [OF virtio_dev_ideal demo_vblk_ready(1), of 7 "\<lambda>_. 42" False disk] by simp blast
qed

text \<open>
  The sizes that are left out: with a queue size of 0, which the variable has when \<^verbatim>\<open>vblk_init\<close> failed before
  it read one, the request traps; with 2, which \<^verbatim>\<open>vblk_init\<close> accepts, the ring's index and
  its first slot are stored over bytes 2 to 5 of the status address in the third descriptor.
\<close>

lemma vblk_request_traps: "vg_qsize v = 0 \<Longrightarrow> vblk_request dev n buf wr (v, disk) = None"
  by (simp add: vblk_request_def publish_def request_chain_def request_header_def Let_def)

lemma small_queue_overlaps:
  assumes "vg_qsize v = 2" "vg_avail v = 32" "vg_avail_idx v = 0" and "publish (request_chain wr v) = Some v1"
  shows "get16 (vg_queue v1) (16 * 2 + 2) = 1" "get16 (vg_queue v1) (16 * 2 + 4) = 0"
proof -
  have q: "vg_queue v1 = put16 (put16 (vg_queue (request_chain wr v)) (16 * 2 + 4) 0) (16 * 2 + 2) 1"
    using assms by (auto simp: publish_def request_chain_def Let_def)
  show "get16 (vg_queue v1) (16 * 2 + 2) = 1" unfolding q by (rule get16_put16)
  have "get16 (vg_queue v1) (16 * 2 + 4) = get16 (put16 (vg_queue (request_chain wr v)) (16 * 2 + 4) 0) (16 * 2 + 4)"
    unfolding q by (rule get16_cong, rule put16_other) linarith
  then show "get16 (vg_queue v1) (16 * 2 + 4) = 0" by simp
qed

text \<open>
  C6. Persistence: mounting what \<^verbatim>\<open>munin_flush\<close> wrote restores the file system, also after a restart of the
  machine. Whatever the region in memory holds before, after a mount from the flushed disk the superblock is
  accepted, every file has its bytes, every directory its entries, and the invariant holds again; neither the
  flush nor the mount gets stuck in a request.
\<close>

theorem flush_then_mount_restores:
  assumes inv: "fs_inv s" and dev: "virtio_dev dev" and d: "drive_ready d"
    and r: "restarted (munin_flush (vblk_write dev) s d) d'"
    and m: "munin_mount (vblk_read dev) s0 d' = (ok, s1, d1)"
  shows "drive_ready (munin_flush (vblk_write dev) s d) \<and> ok \<and> fs_inv s1 \<and> abs_fs s1 = abs_fs s \<and> drive_ready d1"
  using flush_mount_restarted(1) [OF dev d r] flush_mount_restarted(2) [OF dev d r, of s0] region_same_fs [OF inv] by (simp add: m restarted_def)

theorem flush_then_mount_restores_witness:
  "\<forall>s0 disk. case munin_mount (vblk_read ideal_dev) s0
       (munin_flush (vblk_write ideal_dev) (munin_init blank_region) (Some (demo_vblk, disk))) of
     (ok, s1, d1) \<Rightarrow> ok \<and> fs_inv s1 \<and> abs_fs s1 = [0 \<mapsto> Dir (\<lambda>_. None)]"
proof (intro allI)
  fix s0 disk
  let ?d = "munin_flush (vblk_write ideal_dev) (munin_init blank_region) (Some (demo_vblk, disk))"
  obtain ok s1 d1 where m: "munin_mount (vblk_read ideal_dev) s0 ?d = (ok, s1, d1)" by (rule prod_cases3)
  have "restarted ?d ?d"
    using vblk.flush_view(1) [OF conjI [OF virtio_dev_ideal demo_vblk_ready(2)]] by (simp add: restarted_def)
  from flush_then_mount_restores [OF munin_init_fs(1) virtio_dev_ideal demo_vblk_ready(2) this m] munin_init_fs(2)
  show "case munin_mount (vblk_read ideal_dev) s0 ?d of (ok, s1, d1) \<Rightarrow> ok \<and> fs_inv s1 \<and> abs_fs s1 = [0 \<mapsto> Dir (\<lambda>_. None)]"
    by (simp add: m)
qed

end
