(* ===== verification/Vmm.thy ===== *)
theory Vmm
  imports Pmm
begin

text \<open>
  The page-table code (kernel/vmm.cpp). Tables live in physical memory, which the kernel reaches
  through its identity map, so a table is its address and an entry is eight bytes of the byte
  memory; the frame allocator's state is the one of theory \<^verbatim>\<open>Pmm\<close>. Every function of the file is
  here; the theories \<^verbatim>\<open>Vmm_Map\<close>, \<^verbatim>\<open>Vmm_Space\<close>, \<^verbatim>\<open>Vmm_Clone\<close> and \<^verbatim>\<open>Vmm_Props\<close> reason about them.
\<close>

section \<open>Words in memory\<close>

definition wr64 :: "mem \<Rightarrow> u64 \<Rightarrow> u64 \<Rightarrow> mem" where
  "wr64 m a w = (\<lambda>x. if unat (x - a) < 8 then ucast (drop_bit (8 * unat (x - a)) w) else m x)"

definition page_of :: "u64 \<Rightarrow> nat" where
  "page_of a = unat (a div 4096)"

abbreviation page_aligned :: "u64 \<Rightarrow> bool" where
  "page_aligned a \<equiv> 4096 dvd unat a"

lemma page_of_nat: "page_of a = unat a div 4096"
  by (simp add: page_of_def unat_div)

lemma page_aligned_frame: "f < 2 ^ 52 \<Longrightarrow> page_aligned (frame_addr f)"
  by (simp add: unat_frame_addr)

lemma page_of_frame: "f < 2 ^ 52 \<Longrightarrow> page_of (frame_addr f) = f"
  by (simp add: page_of_def frame_of_addr)

lemma page_of_bound: "page_of a < 2 ^ 52"
  using unat_u64_lt [of a] unfolding page_of_nat by (simp add: div_less_iff_less_mult)

lemma aligned_page: "page_aligned a \<Longrightarrow> unat a = 4096 * page_of a"
  by (simp add: page_of_nat)

lemma page_of_inj: "page_aligned a \<Longrightarrow> page_aligned b \<Longrightarrow> page_of a = page_of b \<longleftrightarrow> a = b"
  using aligned_page [of a] aligned_page [of b] by (auto simp: unat_eq_iff)

lemma aligned_bound: "page_aligned a \<Longrightarrow> unat a + 4096 \<le> 18446744073709551616"
proof -
  assume "page_aligned a"
  then obtain k where k: "unat a = 4096 * k" by (rule dvdE)
  have "4096 * k < 4096 * 4503599627370496" using unat_u64_lt [of a] k by simp
  then have "k + 1 \<le> 4503599627370496" by simp
  then have "4096 * (k + 1) \<le> 4096 * 4503599627370496" by (rule mult_le_mono2)
  then show ?thesis using k by simp
qed

lemma unat_in_page:
  assumes "page_aligned t" and "k < 4096"
  shows "unat (t + of_nat k) = unat t + k" and "page_of (t + of_nat k) = page_of t"
proof -
  show u: "unat (t + of_nat k) = unat t + k"
    using assms(2) aligned_bound [OF assms(1)]
    by (subst unat_add_u64) (simp_all add: unat_of_nat_u64)
  show "page_of (t + of_nat k) = page_of t"
    using assms unfolding page_of_nat u by (auto elim!: dvdE)
qed

lemma page_offset:
  assumes "page_aligned t" and "page_of x = page_of t"
  obtains k where "k < 4096" and "x = t + of_nat k"
proof
  let ?k = "unat x mod 4096"
  show k: "?k < 4096" by simp
  have "unat x = unat t + ?k"
    using aligned_page [OF assms(1)] assms(2) mult_div_mod_eq [of 4096 "unat x"]
    unfolding page_of_nat by (simp only:)
  then show "x = t + of_nat ?k" using unat_in_page(1) [OF assms(1) k] by (simp add: unat_eq_iff)
qed

lemma rd64_cong: "(\<And>i. i < 8 \<Longrightarrow> m (a + of_nat i) = m' (a + of_nat i)) \<Longrightarrow> rd64 m a = rd64 m' a"
  unfolding rd64_def ld64_def by (intro arg_cong2 [where f = "(OR)"] arg_cong [where f = ucast]
      arg_cong [where f = "push_bit 32"] ld32_cong) (simp_all del: of_nat_add)

lemma wr64_at: "i < 8 \<Longrightarrow> wr64 m a w (a + of_nat i) = ucast (drop_bit (8 * i) w)"
  by (simp add: wr64_def unat_of_nat)

lemma rd64_wr64: "rd64 (wr64 m a w) a = w"
proof -
  have lo: "ld32 (\<lambda>i. wr64 m a w (a + of_nat i)) = ucast w"
    by (rule ld32_byte32, simp only: wr64_at) (rule bit_word_eqI, simp add: bit_byte32 bit_simps)
  have hi: "ld32 (\<lambda>i. wr64 m a w (a + of_nat (4 + i))) = ucast (drop_bit 32 w)"
    by (rule ld32_byte32, simp only: wr64_at)
      (rule bit_word_eqI, simp add: bit_byte32 bit_simps algebra_simps)
  show ?thesis
    unfolding rd64_def ld64_def lo hi by (rule bit_word_eqI) (auto simp: bit_simps)
qed

lemma wr64_other_byte:
  assumes "page_aligned t" and "j + 8 \<le> 4096" and "k < 4096" and "k < j \<or> j + 8 \<le> k"
  shows "wr64 m (t + of_nat j) w (t + of_nat k) = m (t + of_nat k)"
proof -
  have j: "unat (t + of_nat j) = unat t + j" and k: "unat (t + of_nat k) = unat t + k"
    using unat_in_page(1) [OF assms(1)] assms(2,3) by auto
  have "\<not> unat ((t + of_nat k) - (t + of_nat j)) < 8"
  proof
    let ?d = "(t + of_nat k) - (t + of_nat j)"
    assume "unat ?d < 8"
    moreover note aligned_bound [OF assms(1)]
    ultimately have "unat ((t + of_nat j) + ?d) = unat t + j + unat ?d"
      using j assms(2) by (subst unat_add_u64) auto
    then have "unat t + k = unat t + j + unat ?d" using k by simp
    with \<open>unat ?d < 8\<close> assms(4) show False by linarith
  qed
  then show ?thesis by (simp add: wr64_def)
qed

lemma wr64_other_page:
  assumes "page_aligned t" and "j + 8 \<le> 4096" and "page_of x \<noteq> page_of t"
  shows "wr64 m (t + of_nat j) w x = m x"
proof -
  have "\<not> unat (x - (t + of_nat j)) < 8"
  proof
    let ?d = "x - (t + of_nat j)"
    assume d: "unat ?d < 8"
    have "x = t + of_nat (j + unat ?d)" by simp
    moreover have "j + unat ?d < 4096" using d assms(2) by linarith
    ultimately have "page_of x = page_of t" using unat_in_page(2) [OF assms(1)] by metis
    with assms(3) show False by simp
  qed
  then show ?thesis by (simp add: wr64_def)
qed

text \<open>Entry \<open>i\<close> of the table at \<open>t\<close>, as \<^verbatim>\<open>t[i]\<close> reads and writes it.\<close>

definition ent :: "mem \<Rightarrow> u64 \<Rightarrow> nat \<Rightarrow> u64" where
  "ent m t i = rd64 m (t + of_nat (8 * i))"

definition put_ent :: "u64 \<Rightarrow> nat \<Rightarrow> u64 \<Rightarrow> mem \<Rightarrow> mem" where
  "put_ent t i w m = wr64 m (t + of_nat (8 * i)) w"

lemma ent_put_ent [view_simps]: "ent (put_ent t i w m) t i = w"
  by (simp add: ent_def put_ent_def rd64_wr64 del: of_nat_mult)

lemma ent_put_ent_other [view_simps]:
  assumes "page_aligned t" and "i < 512" and "j < 512" and "j \<noteq> i"
  shows "ent (put_ent t i w m) t j = ent m t j"
  unfolding ent_def put_ent_def
proof (rule rd64_cong)
  fix k :: nat assume "k < 8"
  then have "8 * j + k < 8 * i \<or> 8 * i + 8 \<le> 8 * j + k" "8 * j + k < 4096" "8 * i + 8 \<le> 4096"
    using assms by (auto simp: nat_neq_iff)
  from wr64_other_byte [OF assms(1) this(3,2,1), of m w]
  show "wr64 m (t + of_nat (8 * i)) w (t + of_nat (8 * j) + of_nat k)
      = m (t + of_nat (8 * j) + of_nat k)"
    by (simp add: add.assoc del: of_nat_mult flip: of_nat_add)
qed

lemma put_ent_page [view_simps]:
  assumes "page_aligned t" and "i < 512" and "page_of x \<noteq> page_of t"
  shows "put_ent t i w m x = m x"
  unfolding put_ent_def by (rule wr64_other_page) (use assms in simp_all)

lemma ent_cong:
  assumes "page_aligned t" and "i < 512" and "\<And>x. page_of x = page_of t \<Longrightarrow> m x = m' x"
  shows "ent m t i = ent m' t i"
  unfolding ent_def
proof (rule rd64_cong)
  fix k :: nat assume "k < 8"
  then have "8 * i + k < 4096" using assms(2) by simp
  from unat_in_page(2) [OF assms(1) this]
  have "page_of (t + of_nat (8 * i) + of_nat k) = page_of t"
    by (simp add: add.assoc del: of_nat_mult flip: of_nat_add)
  then show "m (t + of_nat (8 * i) + of_nat k) = m' (t + of_nat (8 * i) + of_nat k)"
    by (rule assms(3))
qed

lemma ent_put_ent_page [view_simps]:
  assumes "page_aligned t" and "page_aligned u" and "i < 512" and "j < 512" and "u \<noteq> t"
  shows "ent (put_ent t i w m) u j = ent m u j"
  using assms by (intro ent_cong put_ent_page) (auto simp: page_of_inj)

section \<open>The operations of vmm.cpp\<close>

text \<open>
  \<open>vm_mem\<close> is physical memory and \<open>vm_cr3\<close> the register that \<^verbatim>\<open>mov cr3\<close> writes. Indices are
  natural numbers below 512.
\<close>

record vmm =
  vm_mem :: mem
  vm_pmm :: pmm
  kernel_pml4 :: u64
  vm_cr3 :: u64

abbreviation set_mem :: "(mem \<Rightarrow> mem) \<Rightarrow> vmm \<Rightarrow> vmm" where
  "set_mem f s \<equiv> s\<lparr>vm_mem := f (vm_mem s)\<rparr>"

definition PAGE_PRESENT :: u64 where "PAGE_PRESENT = 1"
definition PAGE_WRITABLE :: u64 where "PAGE_WRITABLE = 2"
definition PAGE_USER :: u64 where "PAGE_USER = 4"
definition HUGE_PAGE :: u64 where "HUGE_PAGE = 0x80"
definition ADDR_MASK :: u64 where "ADDR_MASK = NOT 0xFFF"

definition pml4_index :: "u64 \<Rightarrow> nat" where "pml4_index v = unat (drop_bit 39 v AND 0x1FF)"
definition pdpt_index :: "u64 \<Rightarrow> nat" where "pdpt_index v = unat (drop_bit 30 v AND 0x1FF)"
definition pd_index :: "u64 \<Rightarrow> nat" where "pd_index v = unat (drop_bit 21 v AND 0x1FF)"
definition pt_index :: "u64 \<Rightarrow> nat" where "pt_index v = unat (drop_bit 12 v AND 0x1FF)"

definition zero_table :: "u64 \<Rightarrow> mem \<Rightarrow> mem" where
  "zero_table t m = fold (\<lambda>i. put_ent t i 0) [0..<512] m"

definition alloc_table :: "vmm \<Rightarrow> u64 \<times> vmm" where
  "alloc_table s =
     (let (t, p) = pmm_alloc_frame (vm_pmm s)
      in (t, set_mem (zero_table t) (s\<lparr>vm_pmm := p\<rparr>)))"

definition next_table :: "u64 \<Rightarrow> nat \<Rightarrow> u64 \<Rightarrow> vmm \<Rightarrow> u64 \<times> vmm" where
  "next_table table index flags s =
     (let want = PAGE_PRESENT OR PAGE_WRITABLE OR (flags AND PAGE_USER)
      in if ent (vm_mem s) table index AND PAGE_PRESENT = 0
         then (let (nt, s') = alloc_table s
               in (nt, set_mem (put_ent table index (nt OR want)) s'))
         else (let e = ent (vm_mem s) table index OR (flags AND PAGE_USER)
               in (e AND ADDR_MASK, set_mem (put_ent table index e) s)))"

definition map_in :: "u64 \<Rightarrow> u64 \<Rightarrow> u64 \<Rightarrow> u64 \<Rightarrow> vmm \<Rightarrow> vmm" where
  "map_in root virt phys flags s =
     (let (pdpt, s1) = next_table root (pml4_index virt) flags s;
          (pd, s2) = next_table pdpt (pdpt_index virt) flags s1;
          (pt, s3) = next_table pd (pd_index virt) flags s2
      in set_mem (put_ent pt (pt_index virt) ((phys AND ADDR_MASK) OR flags OR PAGE_PRESENT)) s3)"

definition vmm_map_page :: "u64 \<Rightarrow> u64 \<Rightarrow> u64 \<Rightarrow> vmm \<Rightarrow> vmm" where
  "vmm_map_page virt phys flags s = map_in (kernel_pml4 s) virt phys flags s"

definition vmm_map_page_in :: "u64 \<Rightarrow> u64 \<Rightarrow> u64 \<Rightarrow> u64 \<Rightarrow> vmm \<Rightarrow> vmm" where
  "vmm_map_page_in root virt phys flags s = map_in root virt phys flags s"

definition vmm_create_address_space :: "vmm \<Rightarrow> u64 \<times> vmm" where
  "vmm_create_address_space s =
     (let (root, s') = alloc_table s
      in (root, set_mem (put_ent root 0 (ent (vm_mem s') (kernel_pml4 s') 0)) s'))"

definition release :: "u64 \<Rightarrow> vmm \<Rightarrow> vmm" where
  "release e s = s\<lparr>vm_pmm := pmm_free_frame (e AND ADDR_MASK) (vm_pmm s)\<rparr>"

definition free_pt :: "u64 \<Rightarrow> vmm \<Rightarrow> vmm" where
  "free_pt pt s =
     fold (\<lambda>i s. let e = ent (vm_mem s) pt i
             in if e AND PAGE_PRESENT \<noteq> 0 then release e s else s) [0..<512] s"

definition free_pd :: "u64 \<Rightarrow> vmm \<Rightarrow> vmm" where
  "free_pd pd s =
     fold (\<lambda>i s. let e = ent (vm_mem s) pd i
             in if e AND PAGE_PRESENT = 0 \<or> e AND HUGE_PAGE \<noteq> 0 then s
                else release e (free_pt (e AND ADDR_MASK) s)) [0..<512] s"

definition free_pdpt :: "u64 \<Rightarrow> vmm \<Rightarrow> vmm" where
  "free_pdpt pdpt s =
     fold (\<lambda>i s. let e = ent (vm_mem s) pdpt i
             in if e AND PAGE_PRESENT = 0 \<or> e AND HUGE_PAGE \<noteq> 0 then s
                else release e (free_pd (e AND ADDR_MASK) s)) [0..<512] s"

definition vmm_destroy_address_space :: "u64 \<Rightarrow> vmm \<Rightarrow> vmm" where
  "vmm_destroy_address_space root s =
     (if root = 0 \<or> root = kernel_pml4 s then s
      else (let s' = fold (\<lambda>i s. let e = ent (vm_mem s) root i
                       in if e AND PAGE_PRESENT = 0 then s
                          else release e (free_pdpt (e AND ADDR_MASK) s)) [1..<512] s
            in s'\<lparr>vm_pmm := pmm_free_frame root (vm_pmm s')\<rparr>))"

definition copy_page :: "u64 \<Rightarrow> u64 \<Rightarrow> mem \<Rightarrow> mem" where
  "copy_page dst src m = fold (\<lambda>b m. m(dst + of_nat b := m (src + of_nat b))) [0..<4096] m"

definition clone_page :: "u64 \<Rightarrow> u64 \<Rightarrow> u64 \<Rightarrow> vmm \<Rightarrow> vmm" where
  "clone_page dst vaddr e s =
     (let (dframe, p) = pmm_alloc_frame (vm_pmm s)
      in vmm_map_page_in dst vaddr dframe (e AND 0xFFF)
           (set_mem (copy_page dframe (e AND ADDR_MASK)) (s\<lparr>vm_pmm := p\<rparr>)))"

definition page_vaddr :: "nat \<Rightarrow> nat \<Rightarrow> nat \<Rightarrow> nat \<Rightarrow> u64" where
  "page_vaddr i j k l =
     push_bit 39 (of_nat i) OR push_bit 30 (of_nat j) OR push_bit 21 (of_nat k)
       OR push_bit 12 (of_nat l)"

definition clone_pt :: "u64 \<Rightarrow> u64 \<Rightarrow> nat \<Rightarrow> nat \<Rightarrow> nat \<Rightarrow> vmm \<Rightarrow> vmm" where
  "clone_pt dst spt i j k s =
     fold (\<lambda>l s. let e = ent (vm_mem s) spt l
             in if e AND PAGE_PRESENT = 0 then s else clone_page dst (page_vaddr i j k l) e s)
       [0..<512] s"

definition clone_pd :: "u64 \<Rightarrow> u64 \<Rightarrow> nat \<Rightarrow> nat \<Rightarrow> vmm \<Rightarrow> vmm" where
  "clone_pd dst spd i j s =
     fold (\<lambda>k s. let e = ent (vm_mem s) spd k
             in if e AND PAGE_PRESENT = 0 \<or> e AND HUGE_PAGE \<noteq> 0 then s
                else clone_pt dst (e AND ADDR_MASK) i j k s) [0..<512] s"

definition clone_pdpt :: "u64 \<Rightarrow> u64 \<Rightarrow> nat \<Rightarrow> vmm \<Rightarrow> vmm" where
  "clone_pdpt dst spdpt i s =
     fold (\<lambda>j s. let e = ent (vm_mem s) spdpt j
             in if e AND PAGE_PRESENT = 0 \<or> e AND HUGE_PAGE \<noteq> 0 then s
                else clone_pd dst (e AND ADDR_MASK) i j s) [0..<512] s"

definition vmm_clone_address_space :: "u64 \<Rightarrow> vmm \<Rightarrow> u64 \<times> vmm" where
  "vmm_clone_address_space src s =
     (let (dst, s0) = vmm_create_address_space s
      in (dst, fold (\<lambda>i s. let e = ent (vm_mem s) src i
                  in if e AND PAGE_PRESENT = 0 then s
                     else clone_pdpt dst (e AND ADDR_MASK) i s) [1..<512] s0))"

definition vmm_kernel_space :: "vmm \<Rightarrow> u64" where
  "vmm_kernel_space s = kernel_pml4 s"

definition vmm_switch :: "u64 \<Rightarrow> vmm \<Rightarrow> vmm" where
  "vmm_switch root s = s\<lparr>vm_cr3 := root\<rparr>"

definition vmm_init :: "vmm \<Rightarrow> vmm" where
  "vmm_init s =
     (let (root, s1) = alloc_table s;
          (pdpt, s2) = alloc_table (s1\<lparr>kernel_pml4 := root\<rparr>);
          (pd, s3) = alloc_table s2;
          s4 = set_mem (put_ent root 0 (pdpt OR PAGE_PRESENT OR PAGE_WRITABLE)) s3;
          s5 = set_mem (put_ent pdpt 0 (pd OR PAGE_PRESENT OR PAGE_WRITABLE)) s4;
          s6 = fold (\<lambda>i. set_mem (put_ent pd i
                  (of_nat i * 0x200000 OR PAGE_PRESENT OR PAGE_WRITABLE OR HUGE_PAGE)))
                [0..<512] s5
      in s6\<lparr>vm_cr3 := root\<rparr>)"

end
