(* ===== verification/Vmm_Map.thy ===== *)
theory Vmm_Map
  imports Vmm "HOL-Library.Sublist"
begin

text \<open>
  The page tables as a tree: the paths of indices that lead to tables, what one \<^verbatim>\<open>next_table\<close>
  and one \<^verbatim>\<open>map_in\<close> change of it, and the page walk of the processor as the specification.
\<close>

section \<open>Entries\<close>

definition present :: "u64 \<Rightarrow> bool" where
  "present e \<longleftrightarrow> e AND PAGE_PRESENT \<noteq> 0"

definition huge :: "u64 \<Rightarrow> bool" where
  "huge e \<longleftrightarrow> e AND HUGE_PAGE \<noteq> 0"

definition is_table :: "u64 \<Rightarrow> bool" where
  "is_table e \<longleftrightarrow> present e \<and> \<not> huge e"

definition target :: "u64 \<Rightarrow> u64" where
  "target e = e AND ADDR_MASK"

lemma present_bit: "present e \<longleftrightarrow> bit e 0"
  using and_exp_eq_0_iff_not_bit [of e 0] by (simp add: present_def PAGE_PRESENT_def)

lemma huge_bit: "huge e \<longleftrightarrow> bit e 7"
  using and_exp_eq_0_iff_not_bit [of e 7] by (simp add: huge_def HUGE_PAGE_def)

lemma ADDR_MASK_alt: "ADDR_MASK = NOT (mask 12)"
  by (simp add: ADDR_MASK_def mask_eq_exp_minus_1)

lemma bit_target: "bit (target e) n \<longleftrightarrow> bit e n \<and> 12 \<le> n"
  using bit_imp_le_length [of e n] by (auto simp: target_def ADDR_MASK_alt bit_simps)

lemma unat_target: "unat (target e) = unat e div 4096 * 4096"
  using unat_and_not_mask [of e 12] by (simp add: target_def ADDR_MASK_alt)

lemma page_aligned_target [simp]: "page_aligned (target e)"
  by (simp add: unat_target)

lemma page_of_target: "page_of (target e) = page_of e"
  by (simp add: page_of_nat unat_target)

lemma target_aligned: "page_aligned a \<Longrightarrow> target a = a"
  by (simp add: unat_eq_iff unat_target)

lemma target_or: "target (a OR b) = target a OR target b"
  by (rule bit_word_eqI) (auto simp: bit_target bit_simps)

lemma aligned_low_bits: "page_aligned a \<Longrightarrow> n < 12 \<Longrightarrow> \<not> bit a n"
  using bit_target [of a n] target_aligned [of a] by simp

definition want_bits :: "u64 \<Rightarrow> u64" where
  "want_bits flags = PAGE_PRESENT OR PAGE_WRITABLE OR (flags AND PAGE_USER)"

lemma bit_numeral_flags:
  "bit PAGE_PRESENT n \<longleftrightarrow> n = 0" "bit PAGE_WRITABLE n \<longleftrightarrow> n = 1" "bit PAGE_USER n \<longleftrightarrow> n = 2"
proof -
  have pow: "bit (2 ^ k :: u64) n \<longleftrightarrow> n = k" if "k < 64" for k
    using that by (auto simp: bit_exp_iff)
  show "bit PAGE_PRESENT n \<longleftrightarrow> n = 0" "bit PAGE_WRITABLE n \<longleftrightarrow> n = 1" "bit PAGE_USER n \<longleftrightarrow> n = 2"
    using pow [of 0] pow [of 1] pow [of 2]
    by (simp_all add: PAGE_PRESENT_def PAGE_WRITABLE_def PAGE_USER_def)
qed

lemma bit_want: "bit (want_bits flags) n \<longleftrightarrow> n = 0 \<or> n = 1 \<or> (n = 2 \<and> bit flags 2)"
  by (auto simp: want_bits_def bit_simps bit_numeral_flags)

lemma target_low: "(\<And>n. bit a n \<Longrightarrow> n < 12) \<Longrightarrow> target a = 0"
  by (rule bit_word_eqI) (fastforce simp: bit_target)

lemma target_want: "page_aligned nt \<Longrightarrow> target (nt OR want_bits flags) = nt"
proof -
  have "target (want_bits flags) = 0" by (rule target_low) (auto simp: bit_want)
  then show "page_aligned nt \<Longrightarrow> target (nt OR want_bits flags) = nt"
    by (simp add: target_or target_aligned)
qed

lemma target_user: "target (e OR (flags AND PAGE_USER)) = target e"
proof -
  have "target (flags AND PAGE_USER) = 0"
    by (rule target_low) (auto simp: bit_numeral_flags bit_simps)
  then show ?thesis by (simp add: target_or)
qed

lemma new_entry: "page_aligned nt \<Longrightarrow> is_table (nt OR want_bits flags)"
  by (auto simp: is_table_def present_bit huge_bit bit_simps bit_want aligned_low_bits)

lemma raised_entry:
  "present (e OR (flags AND PAGE_USER)) \<longleftrightarrow> present e"
  "huge (e OR (flags AND PAGE_USER)) \<longleftrightarrow> huge e"
  "is_table (e OR (flags AND PAGE_USER)) \<longleftrightarrow> is_table e"
  by (auto simp: is_table_def present_bit huge_bit bit_simps bit_numeral_flags)

section \<open>The tree of tables\<close>

definition child :: "mem \<Rightarrow> u64 \<Rightarrow> nat \<Rightarrow> u64 option" where
  "child m t i = (if is_table (ent m t i) then Some (target (ent m t i)) else None)"

fun tbl :: "mem \<Rightarrow> u64 \<Rightarrow> nat list \<Rightarrow> u64 option" where
  "tbl m t [] = Some t"
| "tbl m t (i # p) = (case child m t i of None \<Rightarrow> None | Some u \<Rightarrow> tbl m u p)"

lemma tbl_snoc: "tbl m r (p @ [i]) = (case tbl m r p of None \<Rightarrow> None | Some t \<Rightarrow> child m t i)"
  by (induction p arbitrary: r) (auto split: option.splits)

lemma tbl_snoc_some: "tbl m r p = Some t \<Longrightarrow> tbl m r (p @ [i]) = child m t i"
  by (simp add: tbl_snoc)

text \<open>A path names a table: at most three indices, each below 512.\<close>

definition vpath :: "nat list \<Rightarrow> bool" where
  "vpath p \<longleftrightarrow> length p \<le> 3 \<and> (\<forall>i \<in> set p. i < 512)"

lemma vpath_snoc: "vpath (p @ [i]) \<longleftrightarrow> vpath p \<and> length p < 3 \<and> i < 512"
  by (auto simp: vpath_def)

lemma vpath_Nil [simp]: "vpath []"
  by (simp add: vpath_def)

text \<open>
  Distinct paths reach distinct tables, every table is a used frame, and every entry that leads
  to a table is writable.
\<close>

definition tree_ok :: "vmm \<Rightarrow> u64 \<Rightarrow> bool" where
  "tree_ok s root \<longleftrightarrow>
     (\<forall>p t. vpath p \<longrightarrow> tbl (vm_mem s) root p = Some t \<longrightarrow>
        page_aligned t \<and> page_of t \<in> used_set (vm_pmm s))
     \<and> (\<forall>p q t. vpath p \<longrightarrow> vpath q \<longrightarrow> tbl (vm_mem s) root p = Some t \<longrightarrow>
          tbl (vm_mem s) root q = Some t \<longrightarrow> p = q)
     \<and> (\<forall>p t i. vpath (p @ [i]) \<longrightarrow> tbl (vm_mem s) root p = Some t \<longrightarrow>
          is_table (ent (vm_mem s) t i) \<longrightarrow> bit (ent (vm_mem s) t i) 1)"

lemma tree_okD:
  assumes "tree_ok s root" and "vpath p" and "tbl (vm_mem s) root p = Some t"
  shows "page_aligned t" "page_of t \<in> used_set (vm_pmm s)" "page_of t \<notin> free_set (vm_pmm s)"
    and "\<And>q. vpath q \<Longrightarrow> tbl (vm_mem s) root q = Some t \<Longrightarrow> p = q"
    and "\<And>i. length p < 3 \<Longrightarrow> i < 512 \<Longrightarrow> is_table (ent (vm_mem s) t i) \<Longrightarrow> bit (ent (vm_mem s) t i) 1"
  using assms unfolding tree_ok_def vpath_snoc used_set_def free_set_def by blast+

text \<open>The leaf entry of a page, and the table an address uses at each level.\<close>

definition leaf :: "mem \<Rightarrow> u64 \<Rightarrow> nat list \<Rightarrow> nat \<Rightarrow> u64 option" where
  "leaf m root p i =
     (case tbl m root p of None \<Rightarrow> None
      | Some t \<Rightarrow> if present (ent m t i) then Some (ent m t i) else None)"

text \<open>
  Storing one entry: the tree changes below it only. Either the entry led to \<open>nt\<close> before, or it
  led nowhere and \<open>nt\<close> is an empty table.
\<close>

lemma tbl_attach:
  assumes ok: "tree_ok s root" and m: "m = vm_mem s"
    and pi: "vpath (p @ [i])" and t: "tbl m root p = Some t"
    and same: "\<And>q u j. vpath q \<Longrightarrow> tbl m root q = Some u \<Longrightarrow> j < 512 \<Longrightarrow> (u, j) \<noteq> (t, i) \<Longrightarrow>
        ent m' u j = ent m u j"
    and new: "child m' t i = Some nt"
    and fresh: "child m t i = Some nt \<or> (child m t i = None \<and> (\<forall>j < 512. child m' nt j = None))"
    and q: "vpath q"
  shows "tbl m' root q = (if q = p @ [i] then Some nt else tbl m root q)"
  using q
proof (induction q rule: rev_induct)
  case Nil
  then show ?case by simp
next
  case (snoc j q)
  then have q: "vpath q" "j < 512" and IH: "tbl m' root q = (if q = p @ [i] then Some nt else tbl m root q)"
    by (simp_all add: vpath_snoc)
  have p: "vpath p" using pi by (simp add: vpath_snoc)
  note inj = tree_okD(4) [OF ok, folded m]
  show ?case
  proof (cases "q = p @ [i]")
    case True
    have L: "tbl m' root (q @ [j]) = child m' nt j"
      by (rule tbl_snoc_some, rule IH [unfolded if_P [OF True]])
    have ne: "q @ [j] \<noteq> p @ [i]" using True by simp
    from fresh show ?thesis
    proof (elim disjE conjE)
      assume "child m t i = Some nt"
      then have nt: "tbl m root q = Some nt" using True t by (simp add: tbl_snoc)
      have "nt \<noteq> t"
      proof
        assume "nt = t"
        with nt have "q = p" using inj [OF q(1) _ p] t by simp
        with True show False by simp
      qed
      then have "ent m' nt j = ent m nt j" by (intro same [OF q(1) nt q(2)]) simp
      then show ?thesis by (simp only: L tbl_snoc_some [OF nt] ne if_False child_def)
    next
      assume none: "child m t i = None" and empty: "\<forall>j < 512. child m' nt j = None"
      have "tbl m root q = None" using True t none by (simp add: tbl_snoc)
      then have "tbl m root (q @ [j]) = None" by (simp add: tbl_snoc)
      then show ?thesis using empty q(2) by (simp only: L ne if_False)
    qed
  next
    case False
    then have eq: "tbl m' root q = tbl m root q" using IH by simp
    show ?thesis
    proof (cases "tbl m root q")
      case None
      then have "q @ [j] \<noteq> p @ [i]" using t by auto
      then show ?thesis using None eq by (simp add: tbl_snoc)
    next
      case (Some u)
      show ?thesis
      proof (cases "(u, j) = (t, i)")
        case True
        then have "q = p" using inj [OF q(1) Some p] t by simp
        then show ?thesis using True eq Some new by (simp add: tbl_snoc)
      next
        case ne: False
        then have "q @ [j] \<noteq> p @ [i]" using Some t by auto
        have "tbl m' root q = Some u" using eq Some by simp
        from tbl_snoc_some [OF this, of j] show ?thesis
          unfolding tbl_snoc_some [OF Some] child_def same [OF q(1) Some q(2) ne]
          unfolding if_not_P [OF \<open>q @ [j] \<noteq> p @ [i]\<close>] .
      qed
    qed
  qed
qed

section \<open>One level of a mapping\<close>

text \<open>
  What \<open>next_table\<close> and \<open>map_in\<close> may do to memory and to the allocator while they walk the path
  \<open>pp\<close> below \<open>root\<close>, with \<open>n\<close> allocations at most: tables only appear, on the path, in frames
  that were free; the leaf entries stay; no byte outside the tables of the path and the free
  frames changes.
\<close>

definition tree_grows :: "u64 \<Rightarrow> nat list \<Rightarrow> nat \<Rightarrow> vmm \<Rightarrow> vmm \<Rightarrow> bool" where
  "tree_grows root pp n s s' \<longleftrightarrow>
     tree_ok s' root \<and> pool_inv (vm_pmm s') \<and> kernel_pml4 s' = kernel_pml4 s
     \<and> nframes (vm_pmm s') = nframes (vm_pmm s)
     \<and> free_set (vm_pmm s') \<subseteq> free_set (vm_pmm s)
     \<and> card (free_set (vm_pmm s)) \<le> card (free_set (vm_pmm s')) + n
     \<and> (\<forall>q t. vpath q \<longrightarrow> tbl (vm_mem s) root q = Some t \<longrightarrow> tbl (vm_mem s') root q = Some t)
     \<and> (\<forall>q t. vpath q \<longrightarrow> tbl (vm_mem s) root q = None \<longrightarrow> tbl (vm_mem s') root q = Some t \<longrightarrow>
          prefix q pp \<and> page_of t \<in> free_set (vm_pmm s) - free_set (vm_pmm s'))
     \<and> (\<forall>f \<in> free_set (vm_pmm s) - free_set (vm_pmm s'). \<exists>q t. vpath q
          \<and> tbl (vm_mem s) root q = None \<and> tbl (vm_mem s') root q = Some t \<and> page_of t = f)
     \<and> (\<forall>q i. vpath q \<longrightarrow> length q = 3 \<longrightarrow> i < 512 \<longrightarrow>
          leaf (vm_mem s') root q i = leaf (vm_mem s) root q i)
     \<and> (\<forall>q t i. vpath (q @ [i]) \<longrightarrow> tbl (vm_mem s') root q = Some t \<longrightarrow>
          present (ent (vm_mem s') t i) \<longrightarrow> huge (ent (vm_mem s') t i) \<longrightarrow>
          tbl (vm_mem s) root q = Some t \<and> present (ent (vm_mem s) t i) \<and> huge (ent (vm_mem s) t i))
     \<and> (\<forall>q t i. vpath (q @ [i]) \<longrightarrow> tbl (vm_mem s) root q = Some t \<longrightarrow>
          present (ent (vm_mem s) t i) \<longrightarrow> huge (ent (vm_mem s) t i) \<longrightarrow>
          ent (vm_mem s') t i = ent (vm_mem s) t i)
     \<and> (\<forall>x. vm_mem s' x \<noteq> vm_mem s x \<longrightarrow> page_of x \<in> free_set (vm_pmm s)
          \<or> (\<exists>q t. prefix q pp \<and> tbl (vm_mem s) root q = Some t \<and> page_of x = page_of t))"

lemma tree_growsD:
  assumes "tree_grows root pp n s s'"
  shows "tree_ok s' root" "pool_inv (vm_pmm s')" "kernel_pml4 s' = kernel_pml4 s"
    "nframes (vm_pmm s') = nframes (vm_pmm s)" "free_set (vm_pmm s') \<subseteq> free_set (vm_pmm s)"
    "card (free_set (vm_pmm s)) \<le> card (free_set (vm_pmm s')) + n"
    "\<And>q t. vpath q \<Longrightarrow> tbl (vm_mem s) root q = Some t \<Longrightarrow> tbl (vm_mem s') root q = Some t"
    "\<And>q t. vpath q \<Longrightarrow> tbl (vm_mem s) root q = None \<Longrightarrow> tbl (vm_mem s') root q = Some t \<Longrightarrow>
       prefix q pp \<and> page_of t \<in> free_set (vm_pmm s) - free_set (vm_pmm s')"
    "\<And>f. f \<in> free_set (vm_pmm s) - free_set (vm_pmm s') \<Longrightarrow> \<exists>q t. vpath q
       \<and> tbl (vm_mem s) root q = None \<and> tbl (vm_mem s') root q = Some t \<and> page_of t = f"
    "\<And>q i. vpath q \<Longrightarrow> length q = 3 \<Longrightarrow> i < 512 \<Longrightarrow>
       leaf (vm_mem s') root q i = leaf (vm_mem s) root q i"
    "\<And>q t i. vpath (q @ [i]) \<Longrightarrow> tbl (vm_mem s') root q = Some t \<Longrightarrow>
       present (ent (vm_mem s') t i) \<Longrightarrow> huge (ent (vm_mem s') t i) \<Longrightarrow>
       tbl (vm_mem s) root q = Some t \<and> present (ent (vm_mem s) t i) \<and> huge (ent (vm_mem s) t i)"
    "\<And>q t i. vpath (q @ [i]) \<Longrightarrow> tbl (vm_mem s) root q = Some t \<Longrightarrow>
       present (ent (vm_mem s) t i) \<Longrightarrow> huge (ent (vm_mem s) t i) \<Longrightarrow>
       ent (vm_mem s') t i = ent (vm_mem s) t i"
    "\<And>x. vm_mem s' x \<noteq> vm_mem s x \<Longrightarrow> page_of x \<in> free_set (vm_pmm s)
       \<or> (\<exists>q t. prefix q pp \<and> tbl (vm_mem s) root q = Some t \<and> page_of x = page_of t)"
  using assms unfolding tree_grows_def by blast+

lemma tree_grows_trans:
  assumes a: "tree_grows root pp n s s'" and b: "tree_grows root pp k s' s''" and pp: "vpath pp"
  shows "tree_grows root pp (n + k) s s''"
proof -
  note A = tree_growsD [OF a] and B = tree_growsD [OF b]
  show ?thesis
    unfolding tree_grows_def
  proof (intro conjI allI impI ballI)
    show "tree_ok s'' root" "pool_inv (vm_pmm s'')" by (rule B(1), rule B(2))
    show "kernel_pml4 s'' = kernel_pml4 s" "nframes (vm_pmm s'') = nframes (vm_pmm s)"
      using A(3,4) B(3,4) by simp_all
    show "free_set (vm_pmm s'') \<subseteq> free_set (vm_pmm s)" using A(5) B(5) by blast
    show "card (free_set (vm_pmm s)) \<le> card (free_set (vm_pmm s'')) + (n + k)"
      using A(6) B(6) by linarith
    show "tbl (vm_mem s'') root q = Some t" if "vpath q" "tbl (vm_mem s) root q = Some t" for q t
      using that A(7) B(7) by blast
    show "prefix q pp" if "vpath q" "tbl (vm_mem s) root q = None" "tbl (vm_mem s'') root q = Some t" for q t
      using that A(8) B(8) by (cases "tbl (vm_mem s') root q") blast+
    show "page_of t \<in> free_set (vm_pmm s) - free_set (vm_pmm s'')"
      if q: "vpath q" "tbl (vm_mem s) root q = None" "tbl (vm_mem s'') root q = Some t" for q t
    proof (cases "tbl (vm_mem s') root q")
      case None
      then show ?thesis using B(8) [OF q(1) None q(3)] A(5) by blast
    next
      case (Some u)
      then have "u = t" using B(7) [OF q(1) Some] q(3) by simp
      then show ?thesis using A(8) [OF q(1,2) Some] B(5) by blast
    qed
    show "\<exists>q t. vpath q \<and> tbl (vm_mem s) root q = None \<and> tbl (vm_mem s'') root q = Some t \<and> page_of t = f"
      if f: "f \<in> free_set (vm_pmm s) - free_set (vm_pmm s'')" for f
    proof (cases "f \<in> free_set (vm_pmm s')")
      case True
      then obtain q t where q: "vpath q" "tbl (vm_mem s') root q = None"
        "tbl (vm_mem s'') root q = Some t" "page_of t = f" using B(9) [of f] f by blast
      moreover have "tbl (vm_mem s) root q = None"
        using A(7) [OF q(1)] q(2) by (cases "tbl (vm_mem s) root q") auto
      ultimately show ?thesis by blast
    next
      case False
      then obtain q t where "vpath q" "tbl (vm_mem s) root q = None"
        "tbl (vm_mem s') root q = Some t" "page_of t = f" using A(9) [of f] f by blast
      then show ?thesis using B(7) by blast
    qed
    show "leaf (vm_mem s'') root q i = leaf (vm_mem s) root q i"
      if "vpath q" "length q = 3" "i < 512" for q i
      using A(10) [OF that] B(10) [OF that] by simp
    fix q t i assume q: "vpath (q @ [i])" "tbl (vm_mem s'') root q = Some t"
      "present (ent (vm_mem s'') t i)" "huge (ent (vm_mem s'') t i)"
    note B' = B(11) [OF q]
    note A' = A(11) [OF q(1) B'[THEN conjunct1] B'[THEN conjunct2, THEN conjunct1]
        B'[THEN conjunct2, THEN conjunct2]]
    show "tbl (vm_mem s) root q = Some t" "present (ent (vm_mem s) t i)" "huge (ent (vm_mem s) t i)"
      using A' by blast+
  next
    fix q t i assume q: "vpath (q @ [i])" "tbl (vm_mem s) root q = Some t"
      "present (ent (vm_mem s) t i)" "huge (ent (vm_mem s) t i)"
    have e: "ent (vm_mem s') t i = ent (vm_mem s) t i" by (rule A(12) [OF q])
    have "vpath q" using q(1) by (simp add: vpath_snoc)
    then have "tbl (vm_mem s') root q = Some t" using A(7) q(2) by blast
    then show "ent (vm_mem s'') t i = ent (vm_mem s) t i"
      using B(12) [OF q(1)] q(3,4) e by simp
  next
    fix x assume x: "vm_mem s'' x \<noteq> vm_mem s x"
    show "page_of x \<in> free_set (vm_pmm s)
        \<or> (\<exists>q t. prefix q pp \<and> tbl (vm_mem s) root q = Some t \<and> page_of x = page_of t)"
    proof (cases "vm_mem s' x = vm_mem s x")
      case True
      with x have "vm_mem s'' x \<noteq> vm_mem s' x" by simp
      from B(13) [OF this] show ?thesis
      proof (elim disjE exE conjE)
        assume "page_of x \<in> free_set (vm_pmm s')"
        then show ?thesis using A(5) by blast
      next
        fix q t assume q: "prefix q pp" "tbl (vm_mem s') root q = Some t" "page_of x = page_of t"
        have vq: "vpath q" using pp q(1) by (auto simp: vpath_def prefix_def)
        show ?thesis
        proof (cases "tbl (vm_mem s) root q")
          case None
          then show ?thesis using A(8) [OF vq None q(2)] q(3) by simp
        next
          case (Some u)
          then show ?thesis using A(7) [OF vq Some] q by auto
        qed
      qed
    next
      case False
      then show ?thesis using A(13) by blast
    qed
  qed
qed

section \<open>The steps\<close>

lemma zero_table_spec:
  assumes "page_aligned t"
  shows "i < 512 \<Longrightarrow> ent (zero_table t m) t i = 0"
    and "page_of x \<noteq> page_of t \<Longrightarrow> zero_table t m x = m x"
proof -
  have "n \<le> 512 \<Longrightarrow> (\<forall>i < n. ent (fold (\<lambda>i. put_ent t i 0) [0..<n] m) t i = 0)
      \<and> (\<forall>x. page_of x \<noteq> page_of t \<longrightarrow> fold (\<lambda>i. put_ent t i 0) [0..<n] m x = m x)" for n
  proof (induction n)
    case (Suc n)
    let ?m = "fold (\<lambda>i. put_ent t i 0) [0..<n] m"
    have IH: "\<And>i. i < n \<Longrightarrow> ent ?m t i = 0" "\<And>x. page_of x \<noteq> page_of t \<Longrightarrow> ?m x = m x"
      using Suc by simp_all
    have step: "fold (\<lambda>i. put_ent t i 0) [0..<Suc n] m = put_ent t n 0 ?m" by simp
    show ?case
    proof (unfold step, intro conjI allI impI)
      fix i assume "i < Suc n"
      then show "ent (put_ent t n 0 ?m) t i = 0"
        using assms Suc.prems IH(1) by (cases "i = n") (simp_all add: view_simps)
    next
      fix x assume "page_of x \<noteq> page_of t"
      then show "put_ent t n 0 ?m x = m x" using assms Suc.prems IH(2) by (simp add: view_simps)
    qed
  qed simp
  from this [of 512] show "i < 512 \<Longrightarrow> ent (zero_table t m) t i = 0"
    and "page_of x \<noteq> page_of t \<Longrightarrow> zero_table t m x = m x"
    by (simp_all add: zero_table_def)
qed

text \<open>A frame is there, and the allocator hands it out.\<close>

lemma alloc_frame_cases:
  assumes "pool_inv p" and "free_set p \<noteq> {}"
  obtains f where "pmm_alloc_frame p = (frame_addr f, take_frame f p)" and "f \<in> free_set p"
    and "0 < f" and "f < 2 ^ 52" and "pool_inv (take_frame f p)"
    and "free_set (take_frame f p) = free_set p - {f}" and "frame_addr f \<noteq> 0"
proof -
  from assms(1) have inv: "pmm_inv p" "0 \<notin> free_set p" by (simp_all add: pool_inv_def)
  obtain f where f: "pmm_alloc_frame p = (frame_addr f, take_frame f p)" "f \<in> free_set p"
    using pmm_alloc_lowest [OF assms(2)] by blast
  have pos: "0 < f" using f(2) inv(2) by (cases f) auto
  have lt: "f < 2 ^ 52" by (rule free_set_bound [OF inv(1) f(2)])
  have "pool_inv (take_frame f p)"
    using inv f(2) by (simp add: pool_inv_def take_frame_inv free_set_take)
  moreover have "frame_addr f \<noteq> 0" using unat_frame_addr [OF lt] pos by auto
  ultimately show ?thesis using f pos lt by (intro that [of f]) (simp_all add: free_set_take)
qed

lemma used_set_take: "f \<in> free_set p \<Longrightarrow> used_set (take_frame f p) = insert f (used_set p)"
  by (auto simp: used_set_def free_set_def view_simps)

lemma alloc_table_cases:
  assumes "pool_inv (vm_pmm s)" and "free_set (vm_pmm s) \<noteq> {}"
  obtains f m where "alloc_table s = (frame_addr f, s\<lparr>vm_mem := m, vm_pmm := take_frame f (vm_pmm s)\<rparr>)"
    and "f \<in> free_set (vm_pmm s)" and "page_aligned (frame_addr f)" and "page_of (frame_addr f) = f"
    and "frame_addr f \<noteq> 0" and "pool_inv (take_frame f (vm_pmm s))"
    and "free_set (take_frame f (vm_pmm s)) = free_set (vm_pmm s) - {f}"
    and "\<And>i. i < 512 \<Longrightarrow> ent m (frame_addr f) i = 0"
    and "\<And>x. page_of x \<noteq> f \<Longrightarrow> m x = vm_mem s x"
proof -
  obtain f where f: "pmm_alloc_frame (vm_pmm s) = (frame_addr f, take_frame f (vm_pmm s))"
      "f \<in> free_set (vm_pmm s)" "0 < f" "f < 2 ^ 52" "pool_inv (take_frame f (vm_pmm s))"
      "free_set (take_frame f (vm_pmm s)) = free_set (vm_pmm s) - {f}" "frame_addr f \<noteq> 0"
    using alloc_frame_cases [OF assms] by metis
  have al: "page_aligned (frame_addr f)" "page_of (frame_addr f) = f"
    using page_aligned_frame [OF f(4)] page_of_frame [OF f(4)] by simp_all
  note z = zero_table_spec [OF al(1), unfolded al(2)]
  show ?thesis
    by (rule that [of f "zero_table (frame_addr f) (vm_mem s)"])
      (use f al z in \<open>simp_all add: alloc_table_def\<close>)
qed

lemma tree_okI:
  assumes "\<And>p t. vpath p \<Longrightarrow> tbl (vm_mem s) root p = Some t \<Longrightarrow> page_aligned t"
    and "\<And>p t. vpath p \<Longrightarrow> tbl (vm_mem s) root p = Some t \<Longrightarrow> page_of t \<in> used_set (vm_pmm s)"
    and "\<And>p q t. vpath p \<Longrightarrow> vpath q \<Longrightarrow> tbl (vm_mem s) root p = Some t \<Longrightarrow>
          tbl (vm_mem s) root q = Some t \<Longrightarrow> p = q"
    and "\<And>p t i. vpath (p @ [i]) \<Longrightarrow> tbl (vm_mem s) root p = Some t \<Longrightarrow>
          is_table (ent (vm_mem s) t i) \<Longrightarrow> bit (ent (vm_mem s) t i) 1"
  shows "tree_ok s root"
  using assms unfolding tree_ok_def by blast

text \<open>
  The heart of the theory: one store into a table of the tree, with the table it leads to already
  in place or empty and in a frame that has just been taken.
\<close>

lemma attach_grows:
  assumes ok: "tree_ok s root" and pp: "vpath pp" "prefix (p @ [i]) pp"
    and t: "tbl (vm_mem s) root p = Some t"
    and pool: "pool_inv (vm_pmm s')" "kernel_pml4 s' = kernel_pml4 s"
      "nframes (vm_pmm s') = nframes (vm_pmm s)"
    and same: "\<And>q u j. vpath q \<Longrightarrow> tbl (vm_mem s) root q = Some u \<Longrightarrow> j < 512 \<Longrightarrow> (u, j) \<noteq> (t, i) \<Longrightarrow>
        ent (vm_mem s') u j = ent (vm_mem s) u j"
    and new: "is_table (ent (vm_mem s') t i)" "target (ent (vm_mem s') t i) = nt"
      "bit (ent (vm_mem s') t i) 1"
    and fresh: "child (vm_mem s) t i = Some nt \<and> vm_pmm s' = vm_pmm s
      \<or> (\<not> present (ent (vm_mem s) t i) \<and> (\<forall>j < 512. ent (vm_mem s') nt j = 0)
          \<and> page_of nt \<in> free_set (vm_pmm s)
          \<and> free_set (vm_pmm s') = free_set (vm_pmm s) - {page_of nt}
          \<and> used_set (vm_pmm s') = insert (page_of nt) (used_set (vm_pmm s)))"
    and bytes: "\<And>x. vm_mem s' x \<noteq> vm_mem s x \<Longrightarrow> page_of x \<in> free_set (vm_pmm s) \<or> page_of x = page_of t"
  shows "tree_grows root pp 1 s s'"
    and "vpath q \<Longrightarrow> tbl (vm_mem s') root q = (if q = p @ [i] then Some nt else tbl (vm_mem s) root q)"
proof -
  have pi: "vpath (p @ [i])" using pp by (auto simp: vpath_def prefix_def)
  then have p: "vpath p" "length p < 3" "i < 512" by (simp_all add: vpath_snoc)
  have nt: "child (vm_mem s') t i = Some nt" using new by (simp add: child_def)
  have zero: "\<not> is_table 0" "\<not> present 0" by (simp_all add: is_table_def present_bit)
  have fr: "child (vm_mem s) t i = Some nt
      \<or> (child (vm_mem s) t i = None \<and> (\<forall>j < 512. child (vm_mem s') nt j = None))"
    using fresh by (auto simp: child_def zero is_table_def [of "ent (vm_mem s) t i"])
  have att: "tbl (vm_mem s') root q = (if q = p @ [i] then Some nt else tbl (vm_mem s) root q)"
    if "vpath q" for q
    using that by (rule tbl_attach [OF ok refl pi t same nt fr, rotated -1])
  show "vpath q \<Longrightarrow> tbl (vm_mem s') root q = (if q = p @ [i] then Some nt else tbl (vm_mem s) root q)"
    by (rule att)
  note old = tree_okD [OF ok]
  have pi_old: "tbl (vm_mem s) root (p @ [i]) = child (vm_mem s) t i"
    by (rule tbl_snoc_some [OF t])
  have absent: "\<not> present (ent (vm_mem s) t i) \<Longrightarrow> child (vm_mem s) t i = None"
    by (simp add: child_def is_table_def)
  have keep: "tbl (vm_mem s') root q = Some u" if "vpath q" "tbl (vm_mem s) root q = Some u" for q u
    using fresh absent that(2) by (auto simp: att [OF that(1)] pi_old)
  have newp: "q = p @ [i] \<and> u = nt \<and> page_of u \<in> free_set (vm_pmm s) - free_set (vm_pmm s')
      \<and> (\<forall>j < 512. ent (vm_mem s') u j = 0)"
    if "vpath q" "tbl (vm_mem s) root q = None" "tbl (vm_mem s') root q = Some u" for q u
    using fresh absent that(2,3) by (auto simp: att [OF that(1)] pi_old split: if_splits)
  have split: "(tbl (vm_mem s) root q = Some u) \<or> (tbl (vm_mem s) root q = None)"
    if "vpath q" "tbl (vm_mem s') root q = Some u" for q u
    using keep [OF that(1)] that(2) by (cases "tbl (vm_mem s) root q") auto
  have used: "used_set (vm_pmm s) \<subseteq> used_set (vm_pmm s')" using fresh by auto
  have free: "free_set (vm_pmm s') \<subseteq> free_set (vm_pmm s)" using fresh by auto
  have tok: "tree_ok s' root"
  proof (rule tree_okI)
    fix q u assume q: "vpath q" "tbl (vm_mem s') root q = Some u"
    from split [OF q] show "page_aligned u"
    proof
      assume "tbl (vm_mem s) root q = None"
      from newp [OF q(1) this q(2)] show ?thesis using new(2) page_aligned_target by metis
    qed (use old(1) q(1) in blast)
    from split [OF q] show "page_of u \<in> used_set (vm_pmm s')"
    proof
      assume "tbl (vm_mem s) root q = None"
      from newp [OF q(1) this q(2)] show ?thesis using fresh by auto
    qed (use old(2) q(1) used in blast)
  next
    fix q r u assume q: "vpath q" "vpath r" "tbl (vm_mem s') root q = Some u" "tbl (vm_mem s') root r = Some u"
    from split [OF q(1,3)] split [OF q(2,4)] show "q = r"
    proof (elim disjE)
      assume "tbl (vm_mem s) root q = Some u" "tbl (vm_mem s) root r = Some u"
      then show ?thesis using old(4) q(1,2) by blast
    next
      assume "tbl (vm_mem s) root q = Some u" and n: "tbl (vm_mem s) root r = None"
      then have "page_of u \<notin> free_set (vm_pmm s)" using old(3) q(1) by blast
      with newp [OF q(2) n q(4)] show ?thesis by blast
    next
      assume n: "tbl (vm_mem s) root q = None" and "tbl (vm_mem s) root r = Some u"
      then have "page_of u \<notin> free_set (vm_pmm s)" using old(3) q(2) by blast
      with newp [OF q(1) n q(3)] show ?thesis by blast
    next
      assume "tbl (vm_mem s) root q = None" "tbl (vm_mem s) root r = None"
      with newp q show ?thesis by blast
    qed
  next
    fix q u j assume q: "vpath (q @ [j])" "tbl (vm_mem s') root q = Some u" "is_table (ent (vm_mem s') u j)"
    then have vq: "vpath q" "length q < 3" "j < 512" by (simp_all add: vpath_snoc)
    from split [OF vq(1) q(2)] show "bit (ent (vm_mem s') u j) 1"
    proof
      assume u: "tbl (vm_mem s) root q = Some u"
      show ?thesis
      proof (cases "(u, j) = (t, i)")
        case False
        then show ?thesis using same [OF vq(1) u vq(3) False] old(5) [OF vq(1) u vq(2,3)] q(3) by simp
      qed (use new(3) in simp)
    next
      assume "tbl (vm_mem s) root q = None"
      from newp [OF vq(1) this q(2)] have "ent (vm_mem s') u j = 0" using vq(3) by blast
      then show ?thesis using q(3) zero by simp
    qed
  qed
  show "tree_grows root pp 1 s s'"
    unfolding tree_grows_def
  proof (intro conjI allI impI ballI)
    show "card (free_set (vm_pmm s)) \<le> card (free_set (vm_pmm s')) + 1"
      using fresh by (auto simp: card_Diff_singleton_if)
    show "\<exists>q t. vpath q \<and> tbl (vm_mem s) root q = None \<and> tbl (vm_mem s') root q = Some t \<and> page_of t = f"
      if f: "f \<in> free_set (vm_pmm s) - free_set (vm_pmm s')" for f
      using fresh absent f pi att [OF pi] by (auto simp: pi_old)
    show "leaf (vm_mem s') root q j = leaf (vm_mem s) root q j"
      if q: "vpath q" "length q = 3" "j < 512" for q j
    proof (cases "tbl (vm_mem s) root q")
      case None
      then show ?thesis using newp [OF q(1) None] q(3) zero
        by (cases "tbl (vm_mem s') root q") (simp_all add: leaf_def)
    next
      case (Some u)
      have "(u, j) \<noteq> (t, i)" using old(4) [OF q(1) Some p(1)] t p(2) q(2) by auto
      from same [OF q(1) Some q(3) this] show ?thesis
        using keep [OF q(1) Some] Some by (simp add: leaf_def)
    qed
    fix q u j assume q: "vpath (q @ [j])" "tbl (vm_mem s') root q = Some u"
      "present (ent (vm_mem s') u j)" "huge (ent (vm_mem s') u j)"
    then have vq: "vpath q" "length q < 3" "j < 512" by (simp_all add: vpath_snoc)
    have "(u, j) \<noteq> (t, i)" using q(4) new(1) by (auto simp: is_table_def)
    moreover have u: "tbl (vm_mem s) root q = Some u"
      using split [OF vq(1) q(2)] newp [OF vq(1) _ q(2)] q(3) vq(3) zero by auto
    ultimately have e: "ent (vm_mem s') u j = ent (vm_mem s) u j" using same vq by blast
    show "tbl (vm_mem s) root q = Some u" by (rule u)
    show "present (ent (vm_mem s) u j)" "huge (ent (vm_mem s) u j)" using q e by simp_all
  next
    fix q u j assume q: "vpath (q @ [j])" "tbl (vm_mem s) root q = Some u"
      "present (ent (vm_mem s) u j)" "huge (ent (vm_mem s) u j)"
    then have vq: "vpath q" "j < 512" by (simp_all add: vpath_snoc)
    have "(u, j) \<noteq> (t, i)"
      using fresh q(3,4) by (auto simp: child_def is_table_def split: if_splits)
    then show "ent (vm_mem s') u j = ent (vm_mem s) u j" using same vq q(2) by blast
  next
    show "prefix q pp" if "vpath q" "tbl (vm_mem s) root q = None" "tbl (vm_mem s') root q = Some u" for q u
      using newp [OF that] pp(2) by simp
    show "page_of u \<in> free_set (vm_pmm s) - free_set (vm_pmm s')"
      if "vpath q" "tbl (vm_mem s) root q = None" "tbl (vm_mem s') root q = Some u" for q u
      using newp [OF that] by blast
    fix x assume "vm_mem s' x \<noteq> vm_mem s x"
    moreover have "prefix p pp" using pp(2) by (auto simp: prefix_def)
    ultimately show "page_of x \<in> free_set (vm_pmm s)
        \<or> (\<exists>q t. prefix q pp \<and> tbl (vm_mem s) root q = Some t \<and> page_of x = page_of t)"
      using bytes t by blast
  qed (use tok pool free keep in auto)
qed

text \<open>An entry that is neither empty nor a table blocks the path: a huge page.\<close>

lemma next_table_grows:
  assumes ok: "tree_ok s root" and pool: "pool_inv (vm_pmm s)"
    and pp: "vpath pp" "prefix (p @ [i]) pp" and t: "tbl (vm_mem s) root p = Some t"
    and no_huge: "present (ent (vm_mem s) t i) \<Longrightarrow> \<not> huge (ent (vm_mem s) t i)"
    and free: "free_set (vm_pmm s) \<noteq> {}"
  obtains nt s' where "next_table t i flags s = (nt, s')" and "tree_grows root pp 1 s s'"
    and "\<And>q. vpath q \<Longrightarrow> tbl (vm_mem s') root q = (if q = p @ [i] then Some nt else tbl (vm_mem s) root q)"
proof -
  have pi: "vpath (p @ [i])" using pp by (auto simp: vpath_def prefix_def)
  then have p: "vpath p" "length p < 3" "i < 512" by (simp_all add: vpath_snoc)
  note al = tree_okD(1) [OF ok p(1) t]
  show ?thesis
  proof (cases "present (ent (vm_mem s) t i)")
    case False
    obtain f m where a: "alloc_table s = (frame_addr f, s\<lparr>vm_mem := m, vm_pmm := take_frame f (vm_pmm s)\<rparr>)"
      "f \<in> free_set (vm_pmm s)" "page_aligned (frame_addr f)" "page_of (frame_addr f) = f"
      "frame_addr f \<noteq> 0" "pool_inv (take_frame f (vm_pmm s))"
      "free_set (take_frame f (vm_pmm s)) = free_set (vm_pmm s) - {f}"
      "\<And>i. i < 512 \<Longrightarrow> ent m (frame_addr f) i = 0" "\<And>x. page_of x \<noteq> f \<Longrightarrow> m x = vm_mem s x"
      by (rule alloc_table_cases [OF pool free], rule that)
    let ?nt = "frame_addr f" and ?e = "frame_addr f OR want_bits flags"
    let ?s' = "s\<lparr>vm_mem := put_ent t i ?e m, vm_pmm := take_frame f (vm_pmm s)\<rparr>"
    have run: "next_table t i flags s = (?nt, ?s')"
      using False by (simp add: next_table_def present_def a(1) want_bits_def)
    have tf: "page_of t \<noteq> f" using tree_okD(3) [OF ok p(1) t] a(2) by auto
    have untouched: "ent m u j = ent (vm_mem s) u j"
      if "page_aligned u" "page_of u \<noteq> f" "j < 512" for u j
      using that a(9) by (intro ent_cong) auto
    have same: "ent (vm_mem ?s') u j = ent (vm_mem s) u j"
      if "vpath q" "tbl (vm_mem s) root q = Some u" "j < 512" "(u, j) \<noteq> (t, i)" for q u j
    proof -
      have u: "page_aligned u" "page_of u \<noteq> f"
        using tree_okD(1,3) [OF ok that(1,2)] a(2) by auto
      then show ?thesis using that(3,4) al p(3) untouched
        by (cases "u = t") (simp_all add: view_simps)
    qed
    have nt: "ent (vm_mem ?s') t i = ?e" by (simp add: view_simps)
    have empty: "\<forall>j < 512. ent (vm_mem ?s') ?nt j = 0"
    proof -
      have "?nt \<noteq> t" using a(4) tf by auto
      then show ?thesis using al a(3,8) p(3) by (simp add: view_simps)
    qed
    have bytes: "page_of x \<in> free_set (vm_pmm s) \<or> page_of x = page_of t"
      if "vm_mem ?s' x \<noteq> vm_mem s x" for x
      using that a(2) a(9) [of x] put_ent_page [OF al p(3), of x ?e m] by (cases "page_of x = f") auto
    note none = False
    have u': "used_set (take_frame f (vm_pmm s)) = insert f (used_set (vm_pmm s))"
      by (rule used_set_take [OF a(2)])
    have e: "is_table (ent (vm_mem ?s') t i)" "target (ent (vm_mem ?s') t i) = ?nt"
      "bit (ent (vm_mem ?s') t i) 1"
      unfolding nt using new_entry [OF a(3)] target_want [OF a(3)] by (simp_all add: bit_simps bit_want)
    have st: "pool_inv (vm_pmm ?s')" "kernel_pml4 ?s' = kernel_pml4 s"
      "nframes (vm_pmm ?s') = nframes (vm_pmm s)"
      using a(6) by (simp_all add: view_simps)
    have fresh: "child (vm_mem s) t i = Some ?nt \<and> vm_pmm ?s' = vm_pmm s
      \<or> (\<not> present (ent (vm_mem s) t i) \<and> (\<forall>j < 512. ent (vm_mem ?s') ?nt j = 0)
          \<and> page_of ?nt \<in> free_set (vm_pmm s)
          \<and> free_set (vm_pmm ?s') = free_set (vm_pmm s) - {page_of ?nt}
          \<and> used_set (vm_pmm ?s') = insert (page_of ?nt) (used_set (vm_pmm s)))"
      unfolding a(4) using none empty a(2,7) u' by simp
    note att = attach_grows [OF ok pp t st _ e fresh bytes]
    have "tree_grows root pp 1 s ?s'" by (rule att(1)) (rule same)
    moreover have "tbl (vm_mem ?s') root q = (if q = p @ [i] then Some ?nt else tbl (vm_mem s) root q)"
      if "vpath q" for q by (rule att(2) [OF _ _ that]) (rule same)
    ultimately show ?thesis using run that by blast
  next
    case True
    let ?e = "ent (vm_mem s) t i OR (flags AND PAGE_USER)"
    let ?s' = "s\<lparr>vm_mem := put_ent t i ?e (vm_mem s)\<rparr>"
    have run: "next_table t i flags s = (target ?e, ?s')"
      using True by (simp add: next_table_def present_def Let_def target_def)
    have tab: "is_table (ent (vm_mem s) t i)" using True no_huge by (simp add: is_table_def)
    have same: "ent (vm_mem ?s') u j = ent (vm_mem s) u j"
      if "vpath q" "tbl (vm_mem s) root q = Some u" "j < 512" "(u, j) \<noteq> (t, i)" for q u j
      using tree_okD(1) [OF ok that(1,2)] that(3,4) al p(3)
      by (cases "u = t") (simp_all add: view_simps)
    have nt: "ent (vm_mem ?s') t i = ?e" by (simp add: view_simps)
    have bytes: "page_of x \<in> free_set (vm_pmm s) \<or> page_of x = page_of t"
      if "vm_mem ?s' x \<noteq> vm_mem s x" for x
      using that put_ent_page [OF al p(3), of x ?e "vm_mem s"] by auto
    have w: "bit (ent (vm_mem s) t i) 1" by (rule tree_okD(5) [OF ok p(1) t p(2,3) tab])
    have some: "child (vm_mem s) t i = Some (target ?e)" using tab by (simp add: child_def target_user)
    have e: "is_table (ent (vm_mem ?s') t i)" "target (ent (vm_mem ?s') t i) = target ?e"
      "bit (ent (vm_mem ?s') t i) 1"
      unfolding nt using tab w by (simp_all add: raised_entry bit_simps)
    have st: "pool_inv (vm_pmm ?s')" "kernel_pml4 ?s' = kernel_pml4 s"
      "nframes (vm_pmm ?s') = nframes (vm_pmm s)"
      using pool by simp_all
    have fresh: "child (vm_mem s) t i = Some (target ?e) \<and> vm_pmm ?s' = vm_pmm s
      \<or> (\<not> present (ent (vm_mem s) t i) \<and> (\<forall>j < 512. ent (vm_mem ?s') (target ?e) j = 0)
          \<and> page_of (target ?e) \<in> free_set (vm_pmm s)
          \<and> free_set (vm_pmm ?s') = free_set (vm_pmm s) - {page_of (target ?e)}
          \<and> used_set (vm_pmm ?s') = insert (page_of (target ?e)) (used_set (vm_pmm s)))"
      using some by simp
    note att = attach_grows [OF ok pp t st _ e fresh bytes]
    have "tree_grows root pp 1 s ?s'" by (rule att(1)) (rule same)
    moreover have "tbl (vm_mem ?s') root q = (if q = p @ [i] then Some (target ?e) else tbl (vm_mem s) root q)"
      if "vpath q" for q by (rule att(2) [OF _ _ that]) (rule same)
    ultimately show ?thesis using run that by blast
  qed
qed

section \<open>Mapping a page\<close>

definition page_path :: "u64 \<Rightarrow> nat list" where
  "page_path v = [pml4_index v, pdpt_index v, pd_index v]"

lemma unat_and_9: "unat (w AND 0x1FF :: u64) < 512"
  by (rule le_less_trans [OF word_and_le1 [THEN word_le_nat_alt [THEN iffD1]]]) simp

lemma index_lt: "pml4_index v < 512" "pdpt_index v < 512" "pd_index v < 512" "pt_index v < 512"
  using unat_and_9 by (simp_all add: pml4_index_def pdpt_index_def pd_index_def pt_index_def)

lemma vpath_page: "vpath (page_path v)"
  by (simp add: vpath_def page_path_def index_lt)

text \<open>No large page lies on the way to \<open>v\<close>.\<close>

definition path_clear :: "mem \<Rightarrow> u64 \<Rightarrow> u64 \<Rightarrow> bool" where
  "path_clear m root v \<longleftrightarrow>
     (\<forall>p i t. prefix (p @ [i]) (page_path v) \<longrightarrow> tbl m root p = Some t \<longrightarrow>
        present (ent m t i) \<longrightarrow> \<not> huge (ent m t i))"

lemma path_clear_grows: "path_clear (vm_mem s) root v \<Longrightarrow> tree_grows root pp n s s' \<Longrightarrow>
    path_clear (vm_mem s') root v"
proof -
  assume c: "path_clear (vm_mem s) root v" and g: "tree_grows root pp n s s'"
  show ?thesis
    unfolding path_clear_def
  proof (intro allI impI notI)
    fix p i t assume a: "prefix (p @ [i]) (page_path v)" "tbl (vm_mem s') root p = Some t"
      "present (ent (vm_mem s') t i)" "huge (ent (vm_mem s') t i)"
    have "vpath (p @ [i])" using vpath_page [of v] a(1) by (auto simp: vpath_def prefix_def)
    from tree_growsD(11) [OF g this a(2-4)] c a(1) show False by (auto simp: path_clear_def)
  qed
qed

text \<open>The three levels of a mapping, before the leaf entry is stored.\<close>

lemma walk_grows:
  assumes ok: "tree_ok s root" "pool_inv (vm_pmm s)" and clear: "path_clear (vm_mem s) root v"
    and free: "3 \<le> card (free_set (vm_pmm s))"
  obtains pt s3 where "tree_grows root (page_path v) 3 s s3"
    and "tbl (vm_mem s3) root (page_path v) = Some pt"
    and "\<And>phys. map_in root v phys flags s
          = set_mem (put_ent pt (pt_index v) ((phys AND ADDR_MASK) OR flags OR PAGE_PRESENT)) s3"
proof -
  let ?pp = "page_path v"
  have step: thesis
    if so: "tree_grows root ?pp n s s1" "n \<le> 2" "prefix (p @ [i]) ?pp" "tbl (vm_mem s1) root p = Some t"
      and k: "\<And>nt s'. next_table t i flags s1 = (nt, s') \<Longrightarrow> tree_grows root ?pp (n + 1) s s' \<Longrightarrow>
        tbl (vm_mem s') root (p @ [i]) = Some nt \<Longrightarrow> thesis" for n s1 p i t thesis
  proof -
    note g = tree_growsD [OF so(1)]
    have "free_set (vm_pmm s1) \<noteq> {}" using g(6) free so(2) by auto
    moreover have "present (ent (vm_mem s1) t i) \<Longrightarrow> \<not> huge (ent (vm_mem s1) t i)"
      using path_clear_grows [OF clear so(1)] so(3,4) by (auto simp: path_clear_def)
    ultimately obtain nt s' where r: "next_table t i flags s1 = (nt, s')" "tree_grows root ?pp 1 s1 s'"
      "\<And>q. vpath q \<Longrightarrow> tbl (vm_mem s') root q = (if q = p @ [i] then Some nt else tbl (vm_mem s1) root q)"
      using next_table_grows [OF g(1,2) vpath_page so(3,4)] by blast
    have "vpath (p @ [i])" using vpath_page [of v] so(3) by (auto simp: vpath_def prefix_def)
    then have "tbl (vm_mem s') root (p @ [i]) = Some nt" using r(3) by simp
    with k r(1) tree_grows_trans [OF so(1) r(2) vpath_page] show thesis by blast
  qed
  have refl: "tree_grows root ?pp 0 s s"
    using ok unfolding tree_grows_def by auto
  obtain pdpt s1 where 1: "next_table root (pml4_index v) flags s = (pdpt, s1)"
    "tree_grows root ?pp 1 s s1" "tbl (vm_mem s1) root [pml4_index v] = Some pdpt"
    by (rule step [OF refl, of "[]" "pml4_index v" root]) (simp_all add: page_path_def that)
  obtain pd s2 where 2: "next_table pdpt (pdpt_index v) flags s1 = (pd, s2)"
    "tree_grows root ?pp 2 s s2" "tbl (vm_mem s2) root [pml4_index v, pdpt_index v] = Some pd"
    by (rule step [OF 1(2), of "[pml4_index v]" "pdpt_index v" pdpt])
      (use 1(3) in \<open>simp_all add: page_path_def that numeral_2_eq_2\<close>)
  obtain pt s3 where 3: "next_table pd (pd_index v) flags s2 = (pt, s3)"
    "tree_grows root ?pp 3 s s3" "tbl (vm_mem s3) root ?pp = Some pt"
    by (rule step [OF 2(2), of "[pml4_index v, pdpt_index v]" "pd_index v" pd])
      (use 2(3) in \<open>simp_all add: page_path_def that numeral_3_eq_3\<close>)
  show thesis
    by (rule that [OF 3(2,3)]) (simp add: map_in_def 1(1) 2(1) 3(1))
qed

text \<open>The leaf entry is stored last; the tree does not see it.\<close>

definition maps :: "u64 \<Rightarrow> u64 \<Rightarrow> u64 \<Rightarrow> vmm \<Rightarrow> vmm \<Rightarrow> bool" where
  "maps root v e s s' \<longleftrightarrow>
     (\<exists>s3 pt. tree_grows root (page_path v) 3 s s3 \<and> tbl (vm_mem s3) root (page_path v) = Some pt
        \<and> s' = set_mem (put_ent pt (pt_index v) e) s3)"

lemma map_in_maps:
  assumes "tree_ok s root" "pool_inv (vm_pmm s)" "path_clear (vm_mem s) root v"
    and "3 \<le> card (free_set (vm_pmm s))"
  shows "maps root v ((phys AND ADDR_MASK) OR flags OR PAGE_PRESENT) s (map_in root v phys flags s)"
  using walk_grows [OF assms, of flags] unfolding maps_def by metis

lemma length_page_path [simp]: "length (page_path v) = 3"
  by (simp add: page_path_def)

lemma store_other:
  assumes ok: "tree_ok s root" and pt: "vpath p" "tbl (vm_mem s) root p = Some pt" "i < 512"
    and q: "vpath q" "tbl (vm_mem s) root q = Some u" "j < 512" "(q, j) \<noteq> (p, i)"
  shows "ent (put_ent pt i e (vm_mem s)) u j = ent (vm_mem s) u j"
proof -
  have al: "page_aligned pt" "page_aligned u"
    using tree_okD(1) [OF ok] pt q(1,2) by blast+
  show ?thesis
  proof (cases "u = pt")
    case True
    then have "q = p" using tree_okD(4) [OF ok pt(1,2) q(1)] q(2) by simp
    with q(4) have "j \<noteq> i" by simp
    then show ?thesis using True al q(3) pt(3) by (simp add: view_simps)
  next
    case False
    then show ?thesis using al q(3) pt(3) by (simp add: view_simps)
  qed
qed

lemma store_leaf_tbl:
  assumes ok: "tree_ok s root" and pt: "vpath p" "length p = 3" "tbl (vm_mem s) root p = Some pt" "i < 512"
    and q: "vpath q"
  shows "tbl (put_ent pt i e (vm_mem s)) root q = tbl (vm_mem s) root q"
  using q
proof (induction q rule: rev_induct)
  case (snoc j q)
  then have q: "vpath q" "length q < 3" "j < 512" by (simp_all add: vpath_snoc)
  show ?case
  proof (cases "tbl (vm_mem s) root q")
    case None
    then show ?thesis using snoc.IH [OF q(1)] by (simp add: tbl_snoc)
  next
    case (Some u)
    have "(q, j) \<noteq> (p, i)" using q(2) pt(2) by auto
    from store_other [OF ok pt(1,3,4) q(1) Some q(3) this]
    show ?thesis using snoc.IH [OF q(1)] Some by (simp add: tbl_snoc child_def)
  qed
qed simp

lemma mapsD:
  assumes "maps root v e s s'" and e: "present e"
  shows "tree_ok s' root" "pool_inv (vm_pmm s')" "kernel_pml4 s' = kernel_pml4 s"
    "nframes (vm_pmm s') = nframes (vm_pmm s)" "free_set (vm_pmm s') \<subseteq> free_set (vm_pmm s)"
    "card (free_set (vm_pmm s)) \<le> card (free_set (vm_pmm s')) + 3"
    "\<And>q t. vpath q \<Longrightarrow> tbl (vm_mem s) root q = Some t \<Longrightarrow> tbl (vm_mem s') root q = Some t"
    "\<And>q t. vpath q \<Longrightarrow> tbl (vm_mem s) root q = None \<Longrightarrow> tbl (vm_mem s') root q = Some t \<Longrightarrow>
       prefix q (page_path v) \<and> page_of t \<in> free_set (vm_pmm s) - free_set (vm_pmm s')"
    "\<And>f. f \<in> free_set (vm_pmm s) - free_set (vm_pmm s') \<Longrightarrow> \<exists>q t. vpath q
       \<and> tbl (vm_mem s) root q = None \<and> tbl (vm_mem s') root q = Some t \<and> page_of t = f"
    "\<And>q i. vpath q \<Longrightarrow> length q = 3 \<Longrightarrow> i < 512 \<Longrightarrow> leaf (vm_mem s') root q i
       = (if q = page_path v \<and> i = pt_index v then Some e else leaf (vm_mem s) root q i)"
    "\<And>q t i. vpath (q @ [i]) \<Longrightarrow> tbl (vm_mem s') root q = Some t \<Longrightarrow>
       present (ent (vm_mem s') t i) \<Longrightarrow> huge (ent (vm_mem s') t i) \<Longrightarrow>
       tbl (vm_mem s) root q = Some t \<and> present (ent (vm_mem s) t i) \<and> huge (ent (vm_mem s) t i)"
    "\<And>q t i. vpath (q @ [i]) \<Longrightarrow> tbl (vm_mem s) root q = Some t \<Longrightarrow>
       present (ent (vm_mem s) t i) \<Longrightarrow> huge (ent (vm_mem s) t i) \<Longrightarrow>
       ent (vm_mem s') t i = ent (vm_mem s) t i"
    "\<And>x. vm_mem s' x \<noteq> vm_mem s x \<Longrightarrow> page_of x \<in> free_set (vm_pmm s)
       \<or> (\<exists>q t. prefix q (page_path v) \<and> tbl (vm_mem s) root q = Some t \<and> page_of x = page_of t)"
proof -
  obtain s3 pt where g: "tree_grows root (page_path v) 3 s s3"
    and pt: "tbl (vm_mem s3) root (page_path v) = Some pt"
    and s': "s' = set_mem (put_ent pt (pt_index v) e) s3"
    using assms(1) unfolding maps_def by blast
  note G = tree_growsD [OF g]
  note tb = store_leaf_tbl [OF G(1) vpath_page length_page_path pt index_lt(4)]
  have tb': "tbl (vm_mem s') root q = tbl (vm_mem s3) root q" if "vpath q" for q
    using tb [OF that] by (simp add: s')
  have ot: "ent (vm_mem s') u j = ent (vm_mem s3) u j"
    if "vpath q" "tbl (vm_mem s3) root q = Some u" "j < 512" "(q, j) \<noteq> (page_path v, pt_index v)" for q u j
    using store_other [OF G(1) vpath_page pt index_lt(4) that] by (simp add: s')
  have sh: "ent (vm_mem s') u j = ent (vm_mem s3) u j"
    if "vpath (q @ [j])" "tbl (vm_mem s3) root q = Some u" for q u j
  proof (rule ot [OF _ that(2)])
    show "vpath q" "j < 512" using that(1) by (simp_all add: vpath_snoc)
    show "(q, j) \<noteq> (page_path v, pt_index v)" using that(1) by (auto simp: vpath_snoc)
  qed
  have sf: "vm_pmm s' = vm_pmm s3" by (simp add: s')
  show "tree_ok s' root"
  proof (rule tree_okI; (simp only: tb' sf)?)
    fix p t assume "vpath p" "tbl (vm_mem s3) root p = Some t"
    then show "page_aligned t" "page_of t \<in> used_set (vm_pmm s3)" using tree_okD [OF G(1)] by blast+
  next
    fix p q t assume "vpath p" "vpath q" "tbl (vm_mem s3) root p = Some t" "tbl (vm_mem s3) root q = Some t"
    then show "p = q" using tree_okD(4) [OF G(1)] by blast
  next
    fix p t i assume a: "vpath (p @ [i])" "tbl (vm_mem s') root p = Some t" "is_table (ent (vm_mem s') t i)"
    have p: "vpath p" "length p < 3" "i < 512" using a(1) by (simp_all add: vpath_snoc)
    have t: "tbl (vm_mem s3) root p = Some t" using a(2) tb' [OF p(1)] by simp
    show "bit (ent (vm_mem s') t i) 1"
      using tree_okD(5) [OF G(1) p(1) t p(2,3)] a(3) by (simp only: sh [OF a(1) t])
  qed
  show "pool_inv (vm_pmm s')" "kernel_pml4 s' = kernel_pml4 s" "nframes (vm_pmm s') = nframes (vm_pmm s)"
    "free_set (vm_pmm s') \<subseteq> free_set (vm_pmm s)"
    "card (free_set (vm_pmm s)) \<le> card (free_set (vm_pmm s')) + 3"
    using G(2-6) by (simp_all add: s')
  show "tbl (vm_mem s') root q = Some t" if "vpath q" "tbl (vm_mem s) root q = Some t" for q t
    using G(7) [OF that] tb' [OF that(1)] by simp
  show "prefix q (page_path v) \<and> page_of t \<in> free_set (vm_pmm s) - free_set (vm_pmm s')"
    if "vpath q" "tbl (vm_mem s) root q = None" "tbl (vm_mem s') root q = Some t" for q t
  proof -
    have "tbl (vm_mem s3) root q = Some t" using tb' [OF that(1)] that(3) by simp
    from G(8) [OF that(1,2) this] show ?thesis by (simp only: sf)
  qed
  show "\<exists>q t. vpath q \<and> tbl (vm_mem s) root q = None \<and> tbl (vm_mem s') root q = Some t \<and> page_of t = f"
    if "f \<in> free_set (vm_pmm s) - free_set (vm_pmm s')" for f
    using G(9) [of f] that tb' by (simp add: sf) metis
  show "leaf (vm_mem s') root q i
      = (if q = page_path v \<and> i = pt_index v then Some e else leaf (vm_mem s) root q i)"
    if q: "vpath q" "length q = 3" "i < 512" for q i
  proof (cases "q = page_path v \<and> i = pt_index v")
    case True
    then show ?thesis using pt tb' [OF q(1)] e by (simp add: leaf_def s' view_simps)
  next
    case False
    then have "leaf (vm_mem s') root q i = leaf (vm_mem s3) root q i"
      using tb' [OF q(1)] ot [OF q(1) _ q(3)] by (auto simp: leaf_def split: option.split)
    then show ?thesis using False G(10) [OF q] by auto
  qed
  show "tbl (vm_mem s) root q = Some t \<and> present (ent (vm_mem s) t i) \<and> huge (ent (vm_mem s) t i)"
    if a: "vpath (q @ [i])" "tbl (vm_mem s') root q = Some t"
      "present (ent (vm_mem s') t i)" "huge (ent (vm_mem s') t i)" for q t i
  proof -
    have "vpath q" using a(1) by (simp add: vpath_snoc)
    then have t: "tbl (vm_mem s3) root q = Some t" using a(2) tb' by simp
    then show ?thesis using G(11) [OF a(1) t] a(3,4) by (simp only: sh [OF a(1) t])
  qed
  show "ent (vm_mem s') t i = ent (vm_mem s) t i"
    if a: "vpath (q @ [i])" "tbl (vm_mem s) root q = Some t"
      "present (ent (vm_mem s) t i)" "huge (ent (vm_mem s) t i)" for q t i
  proof -
    have "vpath q" using a(1) by (simp add: vpath_snoc)
    then have "tbl (vm_mem s3) root q = Some t" using G(7) a(2) by blast
    then show ?thesis using G(12) [OF a] sh [OF a(1)] by simp
  qed
  fix x assume x: "vm_mem s' x \<noteq> vm_mem s x"
  show "page_of x \<in> free_set (vm_pmm s)
       \<or> (\<exists>q t. prefix q (page_path v) \<and> tbl (vm_mem s) root q = Some t \<and> page_of x = page_of t)"
  proof (cases "vm_mem s3 x = vm_mem s x")
    case True
    with x have "page_of x = page_of pt"
      using put_ent_page [OF tree_okD(1) [OF G(1) vpath_page pt] index_lt(4) [of v], of x e "vm_mem s3"]
      by (auto simp: s')
    then show ?thesis
      using G(7,8) [OF vpath_page] pt by (cases "tbl (vm_mem s) root (page_path v)") auto
  next
    case False
    then show ?thesis by (rule G(13))
  qed
qed

section \<open>What the MMU sees\<close>

text \<open>
  The processor's page walk over the same memory: four levels, 1 GiB and 2 MiB pages where the
  page-size bit is set (which is reserved, hence a fault, in the top level), \<open>None\<close> for a page
  fault. It is stated without the kernel's tree, as the specification of \<^verbatim>\<open>map_in\<close>.
\<close>

definition translate :: "mem \<Rightarrow> u64 \<Rightarrow> u64 \<Rightarrow> u64 option" where
  "translate m cr3 v =
     (let e4 = ent m cr3 (pml4_index v);
          e3 = ent m (target e4) (pdpt_index v);
          e2 = ent m (target e3) (pd_index v);
          e1 = ent m (target e2) (pt_index v)
      in if \<not> present e4 \<or> huge e4 \<or> \<not> present e3 then None
         else if huge e3 then Some ((e3 AND NOT (mask 30)) OR (v AND mask 30))
         else if \<not> present e2 then None
         else if huge e2 then Some ((e2 AND NOT (mask 21)) OR (v AND mask 21))
         else if \<not> present e1 then None
         else Some (target e1 OR (v AND mask 12)))"

definition large_page :: "nat \<Rightarrow> u64 \<Rightarrow> u64 \<Rightarrow> u64" where
  "large_page n e v = (let b = (if n = 1 then 30 else 21) in (e AND NOT (mask b)) OR (v AND mask b))"

definition large_hit :: "mem \<Rightarrow> u64 \<Rightarrow> u64 \<Rightarrow> nat list \<Rightarrow> nat \<Rightarrow> u64 \<Rightarrow> bool" where
  "large_hit m root v q i t \<longleftrightarrow> q \<noteq> [] \<and> prefix (q @ [i]) (page_path v) \<and> tbl m root q = Some t
     \<and> present (ent m t i) \<and> huge (ent m t i)"

lemma prefix_page_path:
  "prefix (q @ [i]) (page_path v) \<longleftrightarrow> (q = [] \<and> i = pml4_index v)
     \<or> (q = [pml4_index v] \<and> i = pdpt_index v) \<or> (q = [pml4_index v, pdpt_index v] \<and> i = pd_index v)"
  by (auto simp: page_path_def prefix_Cons append_eq_Cons_conv)

lemma translate_iff:
  "translate m root v = Some a \<longleftrightarrow>
     (\<exists>e. leaf m root (page_path v) (pt_index v) = Some e \<and> a = target e OR (v AND mask 12))
     \<or> (\<exists>q i t. large_hit m root v q i t \<and> a = large_page (length q) (ent m t i) v)"
proof -
  let ?e4 = "ent m root (pml4_index v)"
  let ?e3 = "ent m (target ?e4) (pdpt_index v)"
  let ?e2 = "ent m (target ?e3) (pd_index v)"
  let ?e1 = "ent m (target ?e2) (pt_index v)"
  have leaf: "leaf m root (page_path v) (pt_index v)
      = (if is_table ?e4 \<and> is_table ?e3 \<and> is_table ?e2 \<and> present ?e1 then Some ?e1 else None)"
    by (simp add: leaf_def page_path_def child_def)
  have one: "tbl m root [pml4_index v] = (if is_table ?e4 then Some (target ?e4) else None)"
    and two: "tbl m root [pml4_index v, pdpt_index v]
        = (if is_table ?e4 \<and> is_table ?e3 then Some (target ?e3) else None)"
    by (simp_all add: child_def)
  have hit: "(\<exists>q i t. large_hit m root v q i t \<and> a = large_page (length q) (ent m t i) v)
      \<longleftrightarrow> (\<exists>t. tbl m root [pml4_index v] = Some t \<and> present (ent m t (pdpt_index v))
            \<and> huge (ent m t (pdpt_index v)) \<and> a = large_page 1 (ent m t (pdpt_index v)) v)
        \<or> (\<exists>t. tbl m root [pml4_index v, pdpt_index v] = Some t \<and> present (ent m t (pd_index v))
            \<and> huge (ent m t (pd_index v)) \<and> a = large_page 2 (ent m t (pd_index v)) v)"
    (is "?L \<longleftrightarrow> ?A \<or> ?B")
  proof
    assume ?L
    then obtain q i t where h: "q = [pml4_index v] \<and> i = pdpt_index v
        \<or> q = [pml4_index v, pdpt_index v] \<and> i = pd_index v" "tbl m root q = Some t"
      "present (ent m t i)" "huge (ent m t i)" "a = large_page (length q) (ent m t i) v"
      unfolding large_hit_def prefix_page_path by blast
    then show "?A \<or> ?B" by (elim disjE conjE) (auto simp: numeral_2_eq_2 simp del: tbl.simps)
  next
    assume "?A \<or> ?B"
    then show ?L
    proof
      assume ?A
      then obtain t where "large_hit m root v [pml4_index v] (pdpt_index v) t"
        "a = large_page 1 (ent m t (pdpt_index v)) v"
        by (auto simp: large_hit_def page_path_def simp del: tbl.simps)
      then show ?L by (intro exI [of _ "[pml4_index v]"]) auto
    next
      assume ?B
      then obtain t where "large_hit m root v [pml4_index v, pdpt_index v] (pd_index v) t"
        "a = large_page 2 (ent m t (pd_index v)) v"
        by (auto simp: large_hit_def page_path_def simp del: tbl.simps)
      then show ?L
        by (intro exI [of _ "[pml4_index v, pdpt_index v]"]) (auto simp: numeral_2_eq_2)
    qed
  qed
  have tr: "translate m root v =
      (if is_table ?e4 \<and> present ?e3 \<and> huge ?e3 then Some (large_page 1 ?e3 v)
       else if is_table ?e4 \<and> is_table ?e3 \<and> present ?e2 \<and> huge ?e2 then Some (large_page 2 ?e2 v)
       else if is_table ?e4 \<and> is_table ?e3 \<and> is_table ?e2 \<and> present ?e1
       then Some (target ?e1 OR (v AND mask 12)) else None)"
    by (simp add: translate_def Let_def is_table_def large_page_def)
  show ?thesis unfolding tr hit leaf one two by (simp add: is_table_def) blast
qed

lemma vpath_prefix: "vpath p \<Longrightarrow> prefix q p \<Longrightarrow> vpath q"
  by (auto simp: vpath_def dest: prefix_length_le set_mono_prefix)

lemma maps_large_hit:
  assumes "maps root v e s s'" and "present e"
  shows "large_hit (vm_mem s') root w q i t \<longleftrightarrow> large_hit (vm_mem s) root w q i t"
    and "large_hit (vm_mem s) root w q i t \<Longrightarrow> ent (vm_mem s') t i = ent (vm_mem s) t i"
proof -
  note M = mapsD [OF assms]
  note vp = vpath_prefix [OF vpath_page [of w]]
  show eq: "ent (vm_mem s') t i = ent (vm_mem s) t i" if "large_hit (vm_mem s) root w q i t"
    using M(12) [OF vp] that unfolding large_hit_def by blast
  show "large_hit (vm_mem s') root w q i t \<longleftrightarrow> large_hit (vm_mem s) root w q i t"
  proof
    assume "large_hit (vm_mem s') root w q i t"
    then show "large_hit (vm_mem s) root w q i t" using M(11) [OF vp] by (auto simp: large_hit_def)
  next
    assume h: "large_hit (vm_mem s) root w q i t"
    then have "prefix (q @ [i]) (page_path w)" by (simp add: large_hit_def)
    from vp [OF this] have "vpath q" by (simp add: vpath_snoc)
    with h eq [OF h] show "large_hit (vm_mem s') root w q i t" using M(7) by (simp add: large_hit_def)
  qed
qed

text \<open>Two addresses lie in one page when they agree on their four indices.\<close>

definition same_page :: "u64 \<Rightarrow> u64 \<Rightarrow> bool" where
  "same_page v w \<longleftrightarrow> page_path v = page_path w \<and> pt_index v = pt_index w"

lemma path_clear_no_hit:
  assumes "path_clear m root v" and "page_path w = page_path v"
  shows "\<not> large_hit m root w q i t"
  using assms by (auto simp: path_clear_def large_hit_def)

lemma maps_translate:
  assumes m: "maps root v e s s'" and e: "present e" and clear: "path_clear (vm_mem s) root v"
  shows "translate (vm_mem s') root w
    = (if same_page v w then Some (target e OR (w AND mask 12)) else translate (vm_mem s) root w)"
proof -
  have leaf: "leaf (vm_mem s') root (page_path w) (pt_index w)
      = (if same_page v w then Some e else leaf (vm_mem s) root (page_path w) (pt_index w))"
    using mapsD(10) [OF m e vpath_page length_page_path index_lt(4), of w w]
    by (auto simp: same_page_def)
  note hit = maps_large_hit [OF m e, of w]
  show ?thesis
  proof (cases "same_page v w")
    case True
    then have "translate (vm_mem s') root w = Some (target e OR (w AND mask 12))"
      unfolding translate_iff leaf by simp
    then show ?thesis using True by simp
  next
    case False
    have "(\<exists>q i t. large_hit (vm_mem s') root w q i t \<and> a = large_page (length q) (ent (vm_mem s') t i) w)
        \<longleftrightarrow> (\<exists>q i t. large_hit (vm_mem s) root w q i t \<and> a = large_page (length q) (ent (vm_mem s) t i) w)" for a
      using hit by metis
    then have "translate (vm_mem s') root w = Some a \<longleftrightarrow> translate (vm_mem s) root w = Some a" for a
      using False unfolding translate_iff leaf by simp
    then show ?thesis using False by (cases "translate (vm_mem s) root w") (auto simp: not_Some_eq)
  qed
qed

text \<open>The entry \<open>map_in\<close> stores, and what one mapping does to the spaces of the kernel and of processes.\<close>

lemma map_entry:
  assumes "flags < 0x1000"
  shows "present (target phys OR flags OR PAGE_PRESENT)"
    and "target (target phys OR flags OR PAGE_PRESENT) = target phys"
proof -
  show "present (target phys OR flags OR PAGE_PRESENT)" by (simp add: present_bit bit_simps bit_numeral_flags)
  have "unat flags < 4096" using assms by (simp add: word_less_nat_alt)
  then have "target flags = 0" by (simp add: unat_eq_iff unat_target)
  moreover have "target PAGE_PRESENT = 0" by (rule target_low) (simp add: bit_numeral_flags)
  ultimately show "target (target phys OR flags OR PAGE_PRESENT) = target phys"
    by (simp add: target_or target_aligned)
qed

lemma path_clear_maps:
  assumes "path_clear (vm_mem s) root w" and "maps root v e s s'" and "present e"
  shows "path_clear (vm_mem s') root w"
  unfolding path_clear_def
proof (intro allI impI notI)
  fix p i t assume a: "prefix (p @ [i]) (page_path w)" "tbl (vm_mem s') root p = Some t"
    "present (ent (vm_mem s') t i)" "huge (ent (vm_mem s') t i)"
  have "vpath (p @ [i])" by (rule vpath_prefix [OF vpath_page a(1)])
  from mapsD(11) [OF assms(2,3) this a(2-4)] assms(1) a(1) show False by (auto simp: path_clear_def)
qed

end
