(* ===== verification/Vmm_Space.thy ===== *)
theory Vmm_Space
  imports Vmm_Map
begin

text \<open>
  The kernel's space after \<^verbatim>\<open>vmm_init\<close>; spaces that are built page by page out of free frames, as
  \<^verbatim>\<open>elf_load\<close>, \<^verbatim>\<open>exec\<close> and \<^verbatim>\<open>fork\<close> build them, with the frames they own; and their teardown.
\<close>

section \<open>The kernel's own space\<close>

lemma vmm_init_shape:
  assumes "pool_inv (vm_pmm s)" and "3 \<le> card (free_set (vm_pmm s))"
  obtains f1 f2 f3 where "distinct [f1, f2, f3]" and "{f1, f2, f3} \<subseteq> free_set (vm_pmm s)"
    and "vm_pmm (vmm_init s) = take_frame f3 (take_frame f2 (take_frame f1 (vm_pmm s)))"
    and "pool_inv (vm_pmm (vmm_init s))"
    and "kernel_pml4 (vmm_init s) = frame_addr f1" and "vm_cr3 (vmm_init s) = frame_addr f1"
    and "\<And>f. f \<in> {f1, f2, f3} \<Longrightarrow> page_aligned (frame_addr f) \<and> page_of (frame_addr f) = f"
    and "\<And>i. i < 512 \<Longrightarrow> ent (vm_mem (vmm_init s)) (frame_addr f1) i
          = (if i = 0 then frame_addr f2 OR want_bits 0 else 0)"
    and "\<And>i. i < 512 \<Longrightarrow> ent (vm_mem (vmm_init s)) (frame_addr f2) i
          = (if i = 0 then frame_addr f3 OR want_bits 0 else 0)"
    and "\<And>i. i < 512 \<Longrightarrow> ent (vm_mem (vmm_init s)) (frame_addr f3) i
          = of_nat i * 0x200000 OR PAGE_PRESENT OR PAGE_WRITABLE OR HUGE_PAGE"
    and "\<And>x. page_of x \<notin> {f1, f2, f3} \<Longrightarrow> vm_mem (vmm_init s) x = vm_mem s x"
proof -
  have card: "finite (free_set (vm_pmm s))" by simp
  have ne: "free_set (vm_pmm s) \<noteq> {}" using assms(2) by auto
  obtain f1 m1 where 1: "alloc_table s = (frame_addr f1, s\<lparr>vm_mem := m1, vm_pmm := take_frame f1 (vm_pmm s)\<rparr>)"
    "f1 \<in> free_set (vm_pmm s)" "page_aligned (frame_addr f1)" "page_of (frame_addr f1) = f1"
    "pool_inv (take_frame f1 (vm_pmm s))" "free_set (take_frame f1 (vm_pmm s)) = free_set (vm_pmm s) - {f1}"
    "\<And>i. i < 512 \<Longrightarrow> ent m1 (frame_addr f1) i = 0" "\<And>x. page_of x \<noteq> f1 \<Longrightarrow> m1 x = vm_mem s x"
    by (rule alloc_table_cases [OF assms(1) ne], rule that)
  let ?s1 = "s\<lparr>vm_mem := m1, vm_pmm := take_frame f1 (vm_pmm s), kernel_pml4 := frame_addr f1\<rparr>"
  have c1: "2 \<le> card (free_set (vm_pmm ?s1))" using 1(2,6) assms(2) by simp
  have p1: "pool_inv (vm_pmm ?s1)" and ne1: "free_set (vm_pmm ?s1) \<noteq> {}"
    using 1(5) c1 by auto
  obtain f2 m2 where 2: "alloc_table ?s1 = (frame_addr f2, ?s1\<lparr>vm_mem := m2, vm_pmm := take_frame f2 (vm_pmm ?s1)\<rparr>)"
    "f2 \<in> free_set (vm_pmm ?s1)" "page_aligned (frame_addr f2)" "page_of (frame_addr f2) = f2"
    "pool_inv (take_frame f2 (vm_pmm ?s1))" "free_set (take_frame f2 (vm_pmm ?s1)) = free_set (vm_pmm ?s1) - {f2}"
    "\<And>i. i < 512 \<Longrightarrow> ent m2 (frame_addr f2) i = 0" "\<And>x. page_of x \<noteq> f2 \<Longrightarrow> m2 x = vm_mem ?s1 x"
    by (rule alloc_table_cases [OF p1 ne1], rule that)
  let ?s2 = "?s1\<lparr>vm_mem := m2, vm_pmm := take_frame f2 (vm_pmm ?s1)\<rparr>"
  have "1 \<le> card (free_set (vm_pmm ?s2))" using 2(2,6) c1 by simp
  then have p2: "pool_inv (vm_pmm ?s2)" and ne2: "free_set (vm_pmm ?s2) \<noteq> {}"
    using 2(5) by auto
  obtain f3 m3 where 3: "alloc_table ?s2 = (frame_addr f3, ?s2\<lparr>vm_mem := m3, vm_pmm := take_frame f3 (vm_pmm ?s2)\<rparr>)"
    "f3 \<in> free_set (vm_pmm ?s2)" "page_aligned (frame_addr f3)" "page_of (frame_addr f3) = f3"
    "pool_inv (take_frame f3 (vm_pmm ?s2))" "free_set (take_frame f3 (vm_pmm ?s2)) = free_set (vm_pmm ?s2) - {f3}"
    "\<And>i. i < 512 \<Longrightarrow> ent m3 (frame_addr f3) i = 0" "\<And>x. page_of x \<noteq> f3 \<Longrightarrow> m3 x = vm_mem ?s2 x"
    by (rule alloc_table_cases [OF p2 ne2], rule that)
  let ?a1 = "frame_addr f1" and ?a2 = "frame_addr f2" and ?a3 = "frame_addr f3"
  have d: "f1 \<noteq> f2" "f1 \<noteq> f3" "f2 \<noteq> f3" and sub: "{f1, f2, f3} \<subseteq> free_set (vm_pmm s)"
    using 1(2,6) 2(2,6) 3(2) by auto
  have da: "?a1 \<noteq> ?a2" "?a1 \<noteq> ?a3" "?a2 \<noteq> ?a3" using d 1(4) 2(4) 3(4) by auto
  let ?e = "\<lambda>i. of_nat i * 0x200000 OR PAGE_PRESENT OR PAGE_WRITABLE OR HUGE_PAGE :: u64"
  let ?m4 = "put_ent ?a2 0 (?a3 OR want_bits 0) (put_ent ?a1 0 (?a2 OR want_bits 0) m3)"
  let ?fill = "\<lambda>n m. fold (\<lambda>i. put_ent ?a3 i (?e i)) [0..<n] m"
  have fill: "(\<forall>i < n. ent (?fill n m) ?a3 i = ?e i) \<and> (\<forall>x. page_of x \<noteq> f3 \<longrightarrow> ?fill n m x = m x)"
    if "n \<le> 512" for n m
    using that
  proof (induction n)
    case (Suc n)
    have IH: "\<And>i. i < n \<Longrightarrow> ent (?fill n m) ?a3 i = ?e i" "\<And>x. page_of x \<noteq> f3 \<Longrightarrow> ?fill n m x = m x"
      using Suc by simp_all
    have st: "?fill (Suc n) m = put_ent ?a3 n (?e n) (?fill n m)" by simp
    show ?case
    proof (unfold st, intro conjI allI impI)
      fix i assume "i < Suc n"
      then show "ent (put_ent ?a3 n (?e n) (?fill n m)) ?a3 i = ?e i"
        using 3(3) Suc.prems IH(1) by (cases "i = n") (simp_all add: view_simps)
    next
      fix x assume "page_of x \<noteq> f3"
      then show "put_ent ?a3 n (?e n) (?fill n m) x = m x"
        using put_ent_page [OF 3(3), of n x] 3(4) Suc.prems IH(2) by simp
    qed
  qed simp
  have lift: "fold (\<lambda>i. set_mem (put_ent ?a3 i (?e i))) xs t
      = t\<lparr>vm_mem := fold (\<lambda>i. put_ent ?a3 i (?e i)) xs (vm_mem t)\<rparr>" for xs and t :: vmm
    by (induction xs arbitrary: t) simp_all
  let ?m = "?fill 512 ?m4"
  have run: "vmm_init s = s\<lparr>vm_mem := ?m, vm_pmm := take_frame f3 (take_frame f2 (take_frame f1 (vm_pmm s))),
      kernel_pml4 := ?a1, vm_cr3 := ?a1\<rparr>"
    using 1(1) 2(1) 3(1) by (simp add: vmm_init_def lift want_bits_def or.assoc)
  have keep: "ent ?m a i = ent ?m4 a i" if "page_aligned a" "page_of a \<noteq> f3" "i < 512" for a i
    using that fill [of 512 ?m4] by (intro ent_cong) auto
  have keep3: "ent m3 a i = ent m2 a i" if "page_aligned a" "page_of a \<noteq> f3" "i < 512" for a i
    using that 3(8) by (intro ent_cong) auto
  have keep2: "ent m2 a i = ent m1 a i" if "page_aligned a" "page_of a \<noteq> f2" "i < 512" for a i
    using that 2(8) by (intro ent_cong) auto
  have e1: "ent ?m ?a1 i = (if i = 0 then ?a2 OR want_bits 0 else 0)" if "i < 512" for i
    using that d da 1(3,4,7) 2(3) keep keep3 keep2 by (simp add: view_simps)
  have e2: "ent ?m ?a2 i = (if i = 0 then ?a3 OR want_bits 0 else 0)" if "i < 512" for i
    using that d da 1(3) 2(3,4,7) keep keep3 by (simp add: view_simps)
  have e3: "ent ?m ?a3 i = ?e i" if "i < 512" for i
    using fill [of 512 ?m4] that by simp
  have out: "?m x = vm_mem s x" if "page_of x \<notin> {f1, f2, f3}" for x
    using that fill [of 512 ?m4] put_ent_page [OF 1(3), of 0 x] put_ent_page [OF 2(3), of 0 x]
      1(4,8) 2(4,8) 3(8) by simp
  show thesis
    by (rule that [of f1 f2 f3]; use run d sub 3(5) 1(3,4) 2(3,4) 3(3,4) e1 e2 e3 out in \<open>simp\<close>)
      auto
qed

lemma unat_index:
  "pml4_index v = unat v div 2 ^ 39 mod 512" "pdpt_index v = unat v div 2 ^ 30 mod 512"
  "pd_index v = unat v div 2 ^ 21 mod 512" "pt_index v = unat v div 2 ^ 12 mod 512"
proof -
  have "(0x1FF :: u64) = mask 9" by (simp add: mask_eq_exp_minus_1)
  then have "unat (drop_bit n v AND 0x1FF) = unat v div 2 ^ n mod 512" for n
    by (simp only: flip: take_bit_eq_mask)
       (simp only: unsigned_take_bit_eq unsigned_drop_bit_eq, simp add: take_bit_eq_mod drop_bit_eq_div)
  then show "pml4_index v = unat v div 2 ^ 39 mod 512" "pdpt_index v = unat v div 2 ^ 30 mod 512"
    "pd_index v = unat v div 2 ^ 21 mod 512" "pt_index v = unat v div 2 ^ 12 mod 512"
    by (simp_all only: pml4_index_def pdpt_index_def pd_index_def pt_index_def)
qed

lemma low_same_page: "unat v < 2 ^ 48 \<Longrightarrow> unat w < 2 ^ 48 \<Longrightarrow> same_page v w \<longleftrightarrow> page_of v = page_of w"
proof -
  have dec: "x = ((x div 2 ^ 27 mod 512 * 512 + x div 2 ^ 18 mod 512) * 512 + x div 2 ^ 9 mod 512) * 512 + x mod 512"
    if x: "x < 2 ^ 36" for x :: nat
  proof -
    have "x div 2 ^ 9 = x div 2 ^ 18 * 512 + x div 2 ^ 9 mod 512" "x div 2 ^ 18 = x div 2 ^ 27 * 512 + x div 2 ^ 18 mod 512"
      using div_mult_mod_eq [of "x div 2 ^ 9" 512] div_mult_mod_eq [of "x div 2 ^ 18" 512]
      by (simp_all only: div_mult2_eq [symmetric]) simp_all
    moreover have "x div 2 ^ 27 mod 512 = x div 2 ^ 27" using x by (simp add: div_less_iff_less_mult)
    moreover have "x = x div 2 ^ 9 * 512 + x mod 512" using div_mult_mod_eq [of x 512] by simp
    ultimately show ?thesis by simp
  qed
  have idx: "pml4_index u = page_of u div 2 ^ 27 mod 512" "pdpt_index u = page_of u div 2 ^ 18 mod 512"
    "pd_index u = page_of u div 2 ^ 9 mod 512" "pt_index u = page_of u mod 512" for u
    by (simp_all add: unat_index page_of_nat div_mult2_eq [symmetric])
  assume "unat v < 2 ^ 48" "unat w < 2 ^ 48"
  then have "page_of v < 2 ^ 36" "page_of w < 2 ^ 36"
    by (simp_all add: page_of_nat div_less_iff_less_mult)
  note d = dec [OF this(1)] dec [OF this(2)]
  show "same_page v w \<longleftrightarrow> page_of v = page_of w"
  proof
    assume "same_page v w"
    then have e: "page_of v div 2 ^ 27 mod 512 = page_of w div 2 ^ 27 mod 512"
      "page_of v div 2 ^ 18 mod 512 = page_of w div 2 ^ 18 mod 512"
      "page_of v div 2 ^ 9 mod 512 = page_of w div 2 ^ 9 mod 512" "page_of v mod 512 = page_of w mod 512"
      unfolding same_page_def page_path_def idx list.inject by blast+
    show "page_of v = page_of w" by (subst d(1), subst d(2), unfold e) (rule refl)
  qed (simp only: same_page_def page_path_def idx)
qed

lemma large_page_identity:
  assumes "unat v < 2 ^ 30"
  shows "large_page 2 (of_nat (pd_index v) * 0x200000 OR PAGE_PRESENT OR PAGE_WRITABLE OR HUGE_PAGE) v = v"
proof -
  have pd: "(of_nat (pd_index v) :: u64) = drop_bit 21 v AND mask 9"
    by (simp add: pd_index_def mask_eq_exp_minus_1)
  have e: "of_nat (pd_index v) * 0x200000 = push_bit 21 (drop_bit 21 v AND mask 9)"
    by (simp add: pd push_bit_eq_mult mult.commute)
  have huge: "bit HUGE_PAGE n \<longleftrightarrow> n = 7" for n
    using bit_exp_iff [of 7 n, where ?'a = "64 word"] by (auto simp: HUGE_PAGE_def)
  have "take_bit 30 v = v" using assms
    by (simp add: unat_eq_iff unsigned_take_bit_eq take_bit_nat_eq_self)
  then have hi: "bit v n \<Longrightarrow> n < 30" for n by (metis bit_take_bit_iff)
  show ?thesis
    unfolding large_page_def Let_def e
    by (rule bit_word_eqI) (auto simp: bit_simps bit_numeral_flags huge dest: hi)
qed

lemma kernel_tree:
  assumes "pool_inv (vm_pmm s)" and "3 \<le> card (free_set (vm_pmm s))"
  shows "tree_ok (vmm_init s) (kernel_pml4 (vmm_init s))"
    and "vpath q \<Longrightarrow> tbl (vm_mem (vmm_init s)) (kernel_pml4 (vmm_init s)) q \<noteq> None \<Longrightarrow>
      q = [] \<or> q = [0] \<or> q = [0, 0]"
    and "unat v < 2 ^ 30 \<Longrightarrow> translate (vm_mem (vmm_init s)) (kernel_pml4 (vmm_init s)) v = Some v"
    and "pml4_index v \<noteq> 0 \<or> pdpt_index v \<noteq> 0 \<Longrightarrow>
      translate (vm_mem (vmm_init s)) (kernel_pml4 (vmm_init s)) v = None"
    and "\<And>i t. vpath (q @ [i]) \<Longrightarrow> tbl (vm_mem (vmm_init s)) (kernel_pml4 (vmm_init s)) q = Some t \<Longrightarrow>
      present (ent (vm_mem (vmm_init s)) t i) \<Longrightarrow> huge (ent (vm_mem (vmm_init s)) t i) \<Longrightarrow> q = [0, 0]"
    and "\<And>t. vpath q \<Longrightarrow> tbl (vm_mem (vmm_init s)) (kernel_pml4 (vmm_init s)) q = Some t \<Longrightarrow>
      page_of t \<in> free_set (vm_pmm s)"
    and "\<And>x. page_of x \<notin> free_set (vm_pmm s) \<Longrightarrow> vm_mem (vmm_init s) x = vm_mem s x"
    and "free_set (vm_pmm (vmm_init s)) \<subseteq> free_set (vm_pmm s)"
    and "card (free_set (vm_pmm s)) \<le> card (free_set (vm_pmm (vmm_init s))) + 3"
proof -
  obtain f1 f2 f3 where d: "distinct [f1, f2, f3]" "{f1, f2, f3} \<subseteq> free_set (vm_pmm s)"
    and pm: "vm_pmm (vmm_init s) = take_frame f3 (take_frame f2 (take_frame f1 (vm_pmm s)))"
    and pool: "pool_inv (vm_pmm (vmm_init s))"
    and k: "kernel_pml4 (vmm_init s) = frame_addr f1"
    and al: "\<And>f. f \<in> {f1, f2, f3} \<Longrightarrow> page_aligned (frame_addr f) \<and> page_of (frame_addr f) = f"
    and e1: "\<And>i. i < 512 \<Longrightarrow> ent (vm_mem (vmm_init s)) (frame_addr f1) i
          = (if i = 0 then frame_addr f2 OR want_bits 0 else 0)"
    and e2: "\<And>i. i < 512 \<Longrightarrow> ent (vm_mem (vmm_init s)) (frame_addr f2) i
          = (if i = 0 then frame_addr f3 OR want_bits 0 else 0)"
    and e3: "\<And>i. i < 512 \<Longrightarrow> ent (vm_mem (vmm_init s)) (frame_addr f3) i
          = of_nat i * 0x200000 OR PAGE_PRESENT OR PAGE_WRITABLE OR HUGE_PAGE"
    and out: "\<And>x. page_of x \<notin> {f1, f2, f3} \<Longrightarrow> vm_mem (vmm_init s) x = vm_mem s x"
    by (rule vmm_init_shape [OF assms], rule that)
  let ?m = "vm_mem (vmm_init s)"
  have zero: "\<not> present 0" "\<not> is_table 0" by (simp_all add: is_table_def present_bit)
  have big: "present (e OR PAGE_PRESENT OR PAGE_WRITABLE OR HUGE_PAGE)"
    "huge (e OR PAGE_PRESENT OR PAGE_WRITABLE OR HUGE_PAGE)" for e
    using and_exp_eq_0_iff_not_bit [of HUGE_PAGE 7]
    by (auto simp: present_bit huge_bit bit_simps bit_numeral_flags HUGE_PAGE_def)
  have tab: "is_table (frame_addr f OR want_bits 0)" "target (frame_addr f OR want_bits 0) = frame_addr f"
    "bit (frame_addr f OR want_bits 0) 1"
    if "f \<in> {f1, f2, f3}" for f
    using new_entry target_want al [OF that] by (auto simp: bit_simps bit_want)
  have c1: "child ?m (frame_addr f1) i = (if i = 0 then Some (frame_addr f2) else None)"
    and c2: "child ?m (frame_addr f2) i = (if i = 0 then Some (frame_addr f3) else None)"
    and c3: "child ?m (frame_addr f3) i = None" if "i < 512" for i
    using that e1 e2 e3 tab zero big by (simp_all add: child_def is_table_def)
  have tb: "tbl ?m (frame_addr f1) q =
      (if q = [] then Some (frame_addr f1) else if q = [0] then Some (frame_addr f2)
       else if q = [0, 0] then Some (frame_addr f3) else None)" if "vpath q" for q
    using that
  proof (induction q rule: rev_induct)
    case (snoc j q)
    then have "vpath q" "j < 512" by (simp_all add: vpath_snoc)
    with snoc.IH c1 c2 c3 show ?case by (auto simp: tbl_snoc)
  qed simp
  have ne: "frame_addr f1 \<noteq> frame_addr f2" "frame_addr f1 \<noteq> frame_addr f3" "frame_addr f2 \<noteq> frame_addr f3"
  proof -
    have inj: "f = g" if "f \<in> {f1, f2, f3}" "g \<in> {f1, f2, f3}" "frame_addr f = frame_addr g" for f g
      using al [OF that(1), THEN conjunct2] al [OF that(2), THEN conjunct2] that(3) by metis
    show "frame_addr f1 \<noteq> frame_addr f2" "frame_addr f1 \<noteq> frame_addr f3" "frame_addr f2 \<noteq> frame_addr f3"
      using inj [of f1 f2] inj [of f1 f3] inj [of f2 f3] d(1) by fastforce+
  qed
  have us: "{f1, f2, f3} \<subseteq> used_set (vm_pmm (vmm_init s))"
    using d(2) by (auto simp: pm used_set_def free_set_def view_simps)
  show "tree_ok (vmm_init s) (kernel_pml4 (vmm_init s))"
    unfolding k
  proof (rule tree_okI)
    fix p t assume p: "vpath p" "tbl ?m (frame_addr f1) p = Some t"
    then obtain f where f: "f \<in> {f1, f2, f3}" "t = frame_addr f"
      unfolding tb [OF p(1)] by (auto split: if_splits)
    show "page_aligned t" using al [OF f(1)] f(2) by blast
    have "page_of t = f" using al [OF f(1)] f(2) by blast
    then show "page_of t \<in> used_set (vm_pmm (vmm_init s))" using us f(1) by blast
  next
    fix p q t assume "vpath p" "vpath q" "tbl ?m (frame_addr f1) p = Some t" "tbl ?m (frame_addr f1) q = Some t"
    then show "p = q" using ne by (auto simp: tb split: if_splits)
  next
    fix p t i assume a: "vpath (p @ [i])" "tbl ?m (frame_addr f1) p = Some t" "is_table (ent ?m t i)"
    then have "vpath p" "i < 512" by (simp_all add: vpath_snoc)
    with a(2,3) e1 e2 e3 tab(3) zero(2) big(2) show "bit (ent ?m t i) 1"
      by (auto simp: tb is_table_def split: if_splits)
  qed
  show "q = [] \<or> q = [0] \<or> q = [0, 0]" if "vpath q" "tbl ?m (kernel_pml4 (vmm_init s)) q \<noteq> None"
    using that by (auto simp: k tb split: if_splits)
  show "q = [0, 0]" if a: "vpath (q @ [i])" "tbl ?m (kernel_pml4 (vmm_init s)) q = Some t"
    "present (ent ?m t i)" "huge (ent ?m t i)" for i t
  proof -
    have "vpath q" "i < 512" using a(1) by (simp_all add: vpath_snoc)
    with a(2-4) e1 e2 tab(1) zero(1) show ?thesis
      by (auto simp: k tb is_table_def split: if_splits)
  qed
  show "translate ?m (kernel_pml4 (vmm_init s)) v = Some v" if "unat v < 2 ^ 30"
  proof -
    have "pml4_index v = 0" "pdpt_index v = 0" using that by (simp_all add: unat_index)
    moreover have "large_page 2 (of_nat (pd_index v) * 0x200000 OR PAGE_PRESENT OR PAGE_WRITABLE OR HUGE_PAGE) v = v"
      by (rule large_page_identity [OF that])
    ultimately show ?thesis
      using tab big index_lt [of v]
      by (simp add: k translate_def Let_def e1 e2 e3 is_table_def large_page_def)
  qed
  show "translate ?m (kernel_pml4 (vmm_init s)) v = None" if "pml4_index v \<noteq> 0 \<or> pdpt_index v \<noteq> 0"
  proof (cases "pml4_index v = 0")
    case True
    then have "ent ?m (frame_addr f2) (pdpt_index v) = 0"
      using e2 [OF index_lt(2) [of v]] that by simp
    moreover have "ent ?m (frame_addr f1) (pml4_index v) = frame_addr f2 OR want_bits 0"
      using e1 [OF index_lt(1) [of v]] True by simp
    ultimately show ?thesis using tab(2) [of f2] zero(1) by (simp add: k translate_def)
  next
    case False
    then have "ent ?m (frame_addr f1) (pml4_index v) = 0"
      using e1 [OF index_lt(1) [of v]] by simp
    then show ?thesis using zero(1) by (simp add: k translate_def)
  qed
  show "page_of t \<in> free_set (vm_pmm s)" if q: "vpath q" "tbl ?m (kernel_pml4 (vmm_init s)) q = Some t" for t
  proof -
    obtain f where f: "f \<in> {f1, f2, f3}" "t = frame_addr f"
      using q(2) unfolding k tb [OF q(1)] by (auto split: if_splits)
    show ?thesis using al [OF f(1), THEN conjunct2] f d(2) by blast
  qed
  show "vm_mem (vmm_init s) x = vm_mem s x" if "page_of x \<notin> free_set (vm_pmm s)" for x
    by (rule out) (use that d(2) in blast)
  have fr: "free_set (vm_pmm (vmm_init s)) = free_set (vm_pmm s) - {f1, f2, f3}"
    by (auto simp: pm free_set_take)
  then show "free_set (vm_pmm (vmm_init s)) \<subseteq> free_set (vm_pmm s)" by blast
  have c3: "card {f1, f2, f3} \<le> 3" by (simp add: card_insert_if)
  then show "card (free_set (vm_pmm s)) \<le> card (free_set (vm_pmm (vmm_init s))) + 3"
    unfolding fr using diff_card_le_card_Diff [OF finite.insertI [OF finite.insertI [OF finite.insertI [OF finite.emptyI]]], of "free_set (vm_pmm s)" f1 f2 f3] c3
    by linarith
qed

section \<open>Address spaces built page by page\<close>

text \<open>Memory may change outside the tables: the tree stays.\<close>

lemma tree_frame:
  assumes ok: "tree_ok s root"
    and same: "\<And>q t x. vpath q \<Longrightarrow> tbl (vm_mem s) root q = Some t \<Longrightarrow> page_of x = page_of t \<Longrightarrow>
      m' x = vm_mem s x"
  shows "vpath q \<Longrightarrow> tbl m' root q = tbl (vm_mem s) root q"
    and "vpath q \<Longrightarrow> tbl (vm_mem s) root q = Some t \<Longrightarrow> i < 512 \<Longrightarrow> ent m' t i = ent (vm_mem s) t i"
    and "vpath q \<Longrightarrow> i < 512 \<Longrightarrow> leaf m' root q i = leaf (vm_mem s) root q i"
proof -
  show e: "ent m' t i = ent (vm_mem s) t i"
    if "vpath q" "tbl (vm_mem s) root q = Some t" "i < 512" for q t i
    by (rule ent_cong [OF tree_okD(1) [OF ok that(1,2)] that(3)]) (use same [OF that(1,2)] in blast)
  show t: "tbl m' root q = tbl (vm_mem s) root q" if "vpath q" for q
    using that
  proof (induction q rule: rev_induct)
    case (snoc j q)
    then have "vpath q" "j < 512" by (simp_all add: vpath_snoc)
    with snoc.IH e show ?case by (auto simp: tbl_snoc child_def split: option.split)
  qed simp
  show "leaf m' root q i = leaf (vm_mem s) root q i" if "vpath q" "i < 512"
    using t [OF that(1)] e [OF that(1) _ that(2)] by (auto simp: leaf_def split: option.split)
qed

text \<open>Paths below the top level's entries 1 to 511: the part of a space a process has to itself.\<close>

definition upath :: "nat list \<Rightarrow> bool" where
  "upath q \<longleftrightarrow> vpath q \<and> q \<noteq> [] \<and> hd q \<noteq> 0"

definition user_leaf :: "mem \<Rightarrow> u64 \<Rightarrow> nat list \<Rightarrow> nat \<Rightarrow> u64 \<Rightarrow> bool" where
  "user_leaf m root q i e \<longleftrightarrow> upath q \<and> length q = 3 \<and> i < 512 \<and> leaf m root q i = Some e"

definition user_clear :: "mem \<Rightarrow> u64 \<Rightarrow> bool" where
  "user_clear m root \<longleftrightarrow> (\<forall>q i t. upath (q @ [i]) \<longrightarrow> tbl m root q = Some t \<longrightarrow>
     present (ent m t i) \<longrightarrow> \<not> huge (ent m t i))"

text \<open>The frames of a space: its top table, the tables below the private entries, the pages.\<close>

definition owned :: "mem \<Rightarrow> u64 \<Rightarrow> nat set" where
  "owned m root = insert (page_of root)
     ({page_of t |q t. upath q \<and> tbl m root q = Some t} \<union> {page_of e |q i e. user_leaf m root q i e})"

text \<open>
  \<open>built s0 s root\<close>: between the states \<open>s0\<close> and \<open>s\<close> the space at \<open>root\<close> has been made, out of
  frames that were free. Every frame taken belongs to the space, no page is a table or mapped
  twice, and no byte of a frame that was in use has changed.
\<close>

definition built :: "vmm \<Rightarrow> vmm \<Rightarrow> u64 \<Rightarrow> bool" where
  "built s0 s root \<longleftrightarrow>
     tree_ok s root \<and> pool_inv (vm_pmm s) \<and> user_clear (vm_mem s) root
     \<and> kernel_pml4 s = kernel_pml4 s0 \<and> nframes (vm_pmm s) = nframes (vm_pmm s0)
     \<and> root \<noteq> 0 \<and> page_of root \<in> free_set (vm_pmm s0)
     \<and> free_set (vm_pmm s) \<subseteq> free_set (vm_pmm s0)
     \<and> free_set (vm_pmm s0) - free_set (vm_pmm s) = owned (vm_mem s) root
     \<and> (\<forall>x. page_of x \<notin> free_set (vm_pmm s0) \<longrightarrow> vm_mem s x = vm_mem s0 x)
     \<and> (\<forall>q i e p t. user_leaf (vm_mem s) root q i e \<longrightarrow> vpath p \<longrightarrow> tbl (vm_mem s) root p = Some t \<longrightarrow>
          page_of e \<noteq> page_of t)
     \<and> (\<forall>q i e q' i' e'. user_leaf (vm_mem s) root q i e \<longrightarrow> user_leaf (vm_mem s) root q' i' e' \<longrightarrow>
          page_of e = page_of e' \<longrightarrow> q = q' \<and> i = i')"

lemma builtD:
  assumes "built s0 s root"
  shows "tree_ok s root" "pool_inv (vm_pmm s)" "user_clear (vm_mem s) root"
    "kernel_pml4 s = kernel_pml4 s0" "nframes (vm_pmm s) = nframes (vm_pmm s0)"
    "root \<noteq> 0" "page_of root \<in> free_set (vm_pmm s0)"
    "free_set (vm_pmm s) \<subseteq> free_set (vm_pmm s0)"
    "free_set (vm_pmm s0) - free_set (vm_pmm s) = owned (vm_mem s) root"
    "\<And>x. page_of x \<notin> free_set (vm_pmm s0) \<Longrightarrow> vm_mem s x = vm_mem s0 x"
    "\<And>q i e p t. user_leaf (vm_mem s) root q i e \<Longrightarrow> vpath p \<Longrightarrow> tbl (vm_mem s) root p = Some t \<Longrightarrow>
       page_of e \<noteq> page_of t"
    "\<And>q i e q' i' e'. user_leaf (vm_mem s) root q i e \<Longrightarrow> user_leaf (vm_mem s) root q' i' e' \<Longrightarrow>
       page_of e = page_of e' \<Longrightarrow> q = q' \<and> i = i'"
  using assms unfolding built_def by blast+

lemma owned_free: "built s0 s root \<Longrightarrow> f \<in> owned (vm_mem s) root \<Longrightarrow> f \<notin> free_set (vm_pmm s)"
  using builtD(9) by blast

lemma tree_ok_create:
  assumes ok: "tree_ok s (kernel_pml4 s)" and pool: "pool_inv (vm_pmm s)"
    and free: "free_set (vm_pmm s) \<noteq> {}"
    and run: "vmm_create_address_space s = (root, s')"
  shows "built s s' root" and "user_leaf (vm_mem s') root q i e \<longleftrightarrow> False"
    and "card (free_set (vm_pmm s)) = card (free_set (vm_pmm s')) + 1"
proof -
  let ?K = "kernel_pml4 s"
  obtain f m where a: "alloc_table s = (frame_addr f, s\<lparr>vm_mem := m, vm_pmm := take_frame f (vm_pmm s)\<rparr>)"
    "f \<in> free_set (vm_pmm s)" "page_aligned (frame_addr f)" "page_of (frame_addr f) = f"
    "frame_addr f \<noteq> 0" "pool_inv (take_frame f (vm_pmm s))"
    "free_set (take_frame f (vm_pmm s)) = free_set (vm_pmm s) - {f}"
    "\<And>i. i < 512 \<Longrightarrow> ent m (frame_addr f) i = 0" "\<And>x. page_of x \<noteq> f \<Longrightarrow> m x = vm_mem s x"
    by (rule alloc_table_cases [OF pool free], rule that)
  let ?k = "ent m ?K 0"
  have root: "root = frame_addr f"
    and s': "s' = s\<lparr>vm_mem := put_ent root 0 ?k m, vm_pmm := take_frame f (vm_pmm s)\<rparr>"
    using run by (auto simp: vmm_create_address_space_def a(1))
  have other: "vm_mem s' x = vm_mem s x" if "page_of x \<noteq> f" for x
    using that a(9) [of x] put_ent_page [OF a(3), of 0 x ?k m] a(4) by (simp add: s' root)
  have kt: "page_of t \<noteq> f" if "vpath q" "tbl (vm_mem s) ?K q = Some t" for q t
    using tree_okD(3) [OF ok that] a(2) by auto
  note fr = tree_frame [OF ok, of "vm_mem s'"]
  have K: "tbl (vm_mem s') ?K q = tbl (vm_mem s) ?K q" if "vpath q" for q
    by (rule fr(1) [OF _ that]) (use other kt in metis)
  have Ke: "ent (vm_mem s') t i = ent (vm_mem s) t i"
    if "vpath q" "tbl (vm_mem s) ?K q = Some t" "i < 512" for q t i
    by (rule fr(2) [OF _ that]) (use other kt in metis)
  have k: "?k = ent (vm_mem s) ?K 0"
    by (rule ent_cong) (use tree_okD(1) [OF ok, of "[]"] kt [of "[]" ?K] a(9) in auto)
  have e0: "ent (vm_mem s') root i = (if i = 0 then ent (vm_mem s) ?K 0 else 0)" if "i < 512" for i
    using that a(3,8) by (simp add: s' root view_simps k)
  have zero: "\<not> is_table 0" "\<not> present 0" by (simp_all add: is_table_def present_bit)
  have child0: "child (vm_mem s') root 0 = child (vm_mem s') ?K 0"
    using e0 [of 0] Ke [of "[]" ?K 0] by (simp add: child_def)
  have childi: "child (vm_mem s') root i = None" if "i < 512" "i \<noteq> 0" for i
    using e0 [OF that(1)] that(2) zero by (simp add: child_def)
  have tb: "tbl (vm_mem s') root q
      = (if q = [] then Some root else if hd q = 0 then tbl (vm_mem s) ?K q else None)" if "vpath q" for q
  proof (cases q)
    case (Cons i p)
    then have "i < 512" using that by (simp add: vpath_def)
    then show ?thesis using Cons K [OF that] child0 childi by auto
  qed simp
  have nf: "page_of t \<noteq> f" if "vpath q" "q \<noteq> []" "tbl (vm_mem s') root q = Some t" for q t
    using that kt [OF that(1)] by (auto simp: tb split: if_splits)
  have r: "page_aligned root" "page_of root = f" using a(3,4) by (simp_all add: root)
  have us: "used_set (vm_pmm s') = insert f (used_set (vm_pmm s))"
    using used_set_take [OF a(2)] by (simp add: s')
  have tok: "tree_ok s' root"
  proof (rule tree_okI)
    fix p t assume p: "vpath p" "tbl (vm_mem s') root p = Some t"
    show "page_aligned t"
      using p r tree_okD(1) [OF ok p(1)] by (auto simp: tb split: if_splits)
    show "page_of t \<in> used_set (vm_pmm s')"
      using p r tree_okD(2) [OF ok p(1)] by (auto simp: tb us split: if_splits)
  next
    fix p q t assume p: "vpath p" "vpath q" "tbl (vm_mem s') root p = Some t" "tbl (vm_mem s') root q = Some t"
    show "p = q"
    proof (cases "p = [] \<or> q = []")
      case True
      then have "page_of t = f" using p(3,4) r(2) by auto
      then show ?thesis using nf p by blast
    next
      case False
      then have "tbl (vm_mem s) ?K p = Some t" "tbl (vm_mem s) ?K q = Some t"
        using p by (auto simp: tb split: if_splits)
      then show ?thesis using tree_okD(4) [OF ok p(1)] p(2) by blast
    qed
  next
    fix p t i assume p: "vpath (p @ [i])" "tbl (vm_mem s') root p = Some t" "is_table (ent (vm_mem s') t i)"
    then have vp: "vpath p" "length p < 3" "i < 512" by (simp_all add: vpath_snoc)
    show "bit (ent (vm_mem s') t i) 1"
    proof (cases "p = []")
      case True
      then have "i = 0" "is_table (ent (vm_mem s) ?K 0)"
        using p(2,3) e0 [OF vp(3)] zero by (auto split: if_splits)
      then show ?thesis
        using True p(2) e0 [OF vp(3)] tree_okD(5) [OF ok, of "[]" ?K 0] by simp
    next
      case False
      then have t: "tbl (vm_mem s) ?K p = Some t" using p(2) vp(1) by (auto simp: tb split: if_splits)
      show ?thesis using p(3) tree_okD(5) [OF ok vp(1) t vp(2,3)] Ke [OF vp(1) t vp(3)] by simp
    qed
  qed
  have ut: "tbl (vm_mem s') root q = None" if "upath q" for q
    using that by (simp add: upath_def tb)
  show nl: "user_leaf (vm_mem s') root q i e \<longleftrightarrow> False" for q i e
    using ut [of q] by (auto simp: user_leaf_def leaf_def)
  have "user_clear (vm_mem s') root"
    unfolding user_clear_def
  proof (intro allI impI)
    fix q i t assume q: "upath (q @ [i])" "tbl (vm_mem s') root q = Some t" "present (ent (vm_mem s') t i)"
    have "q = []"
    proof (rule ccontr)
      assume "q \<noteq> []"
      then have "upath q" using q(1) by (auto simp: upath_def vpath_snoc)
      with ut q(2) show False by simp
    qed
    with q have "i < 512" "i \<noteq> 0" "t = root" by (simp_all add: upath_def vpath_def)
    with e0 q(3) zero show "\<not> huge (ent (vm_mem s') t i)" by simp
  qed
  moreover have "owned (vm_mem s') root = {f}"
    using ut nl a(4) by (auto simp: owned_def root)
  moreover have "vm_mem s' x = vm_mem s x" if "page_of x \<notin> free_set (vm_pmm s)" for x
    by (rule other) (use that a(2) in auto)
  moreover have "vm_pmm s' = take_frame f (vm_pmm s)" "kernel_pml4 s' = kernel_pml4 s"
    by (simp_all add: s')
  moreover have "root \<noteq> 0" using a(5) by (simp add: root)
  moreover have "free_set (vm_pmm s) - (free_set (vm_pmm s) - {f}) = {f}" using a(2) by blast
  ultimately show "built s s' root"
    unfolding built_def using tok nl a(2,6,7) r(2) by (simp add: view_simps)
  show "card (free_set (vm_pmm s)) = card (free_set (vm_pmm s')) + 1"
    using a(2,7) card_Suc_Diff1 [OF finite_free_set a(2)] by (simp add: s')
qed

lemma user_path_clear:
  assumes "user_clear m root" and "pml4_index v \<noteq> 0"
  shows "path_clear m root v"
  unfolding path_clear_def
proof (intro allI impI)
  fix p i t assume p: "prefix (p @ [i]) (page_path v)" "tbl m root p = Some t" "present (ent m t i)"
  have "hd (p @ [i]) = pml4_index v"
    using p(1) unfolding prefix_page_path by auto
  then have "upath (p @ [i])"
    using vpath_prefix [OF vpath_page p(1)] assms(2) by (simp add: upath_def)
  then show "\<not> huge (ent m t i)" using assms(1) p(2,3) unfolding user_clear_def by blast
qed

lemma prefix_upath: "prefix q (page_path v) \<Longrightarrow> q \<noteq> [] \<Longrightarrow> pml4_index v \<noteq> 0 \<Longrightarrow> upath q"
  using vpath_prefix [OF vpath_page] by (cases q) (auto simp: upath_def page_path_def)

lemma upath_page: "pml4_index v \<noteq> 0 \<Longrightarrow> upath (page_path v)"
  by (rule prefix_upath) (auto simp: page_path_def)

lemma upath_vpath: "upath q \<Longrightarrow> vpath q"
  by (simp add: upath_def)

text \<open>
  One page more: a frame is taken, filled in any way, and mapped where no page was.
\<close>

lemma built_map:
  assumes b: "built s0 s root" and v: "pml4_index v \<noteq> 0"
    and unmapped: "leaf (vm_mem s) root (page_path v) (pt_index v) = None"
    and free: "4 \<le> card (free_set (vm_pmm s))" and flags: "flags < 0x1000"
    and f: "pmm_alloc_frame (vm_pmm s) = (frame_addr f, take_frame f (vm_pmm s))" "f \<in> free_set (vm_pmm s)"
    and out: "\<forall>x. page_of x \<noteq> f \<longrightarrow> m1 x = vm_mem s x"
    and s': "s' = vmm_map_page_in root v (frame_addr f) flags
      (s\<lparr>vm_pmm := take_frame f (vm_pmm s), vm_mem := m1\<rparr>)"
  shows "built s0 s' root"
    and "user_leaf (vm_mem s') root q i e \<longleftrightarrow>
      (if q = page_path v \<and> i = pt_index v then e = frame_addr f OR flags OR PAGE_PRESENT
       else user_leaf (vm_mem s) root q i e)"
    and "card (free_set (vm_pmm s)) \<le> card (free_set (vm_pmm s')) + 4"
    and "page_of x = f \<Longrightarrow> vm_mem s' x = m1 x"
    and "user_leaf (vm_mem s) root q i e \<Longrightarrow> page_of x = page_of e \<Longrightarrow> vm_mem s' x = vm_mem s x"
    and "page_of (frame_addr f OR flags OR PAGE_PRESENT) = f"
proof -
  note B = builtD [OF b] and m1 = out [rule_format]
  let ?p = "take_frame f (vm_pmm s)" and ?e = "frame_addr f OR flags OR PAGE_PRESENT"
  let ?s1 = "s\<lparr>vm_pmm := ?p, vm_mem := m1\<rparr>"
  have f52: "f < 2 ^ 52" using free_set_bound [OF _ f(2)] B(2) by (simp add: pool_inv_def)
  have al: "page_aligned (frame_addr f)" "page_of (frame_addr f) = f"
    by (rule page_aligned_frame [OF f52], rule page_of_frame [OF f52])
  have pool1: "pool_inv ?p" and fs1: "free_set ?p = free_set (vm_pmm s) - {f}"
    using B(2) f(2) by (simp_all add: pool_inv_def take_frame_inv free_set_take)
  have kt: "page_of t \<noteq> f" if "vpath q" "tbl (vm_mem s) root q = Some t" for q t
    using tree_okD(3) [OF B(1) that] f(2) by auto
  have same: "m1 x = vm_mem s x" if "vpath q" "tbl (vm_mem s) root q = Some t" "page_of x = page_of t" for q t x
    by (rule m1) (use kt [OF that(1,2)] that(3) in simp)
  have t1: "tbl m1 root q = tbl (vm_mem s) root q" if "vpath q" for q
    by (rule tree_frame(1) [OF B(1)], erule (2) same, rule that)
  have e1: "ent m1 t i = ent (vm_mem s) t i" if "vpath q" "tbl (vm_mem s) root q = Some t" "i < 512" for q t i
    by (rule tree_frame(2) [OF B(1)], erule (2) same, rule that(1), rule that(2), rule that(3))
  have l1: "leaf m1 root q i = leaf (vm_mem s) root q i" if "vpath q" "i < 512" for q i
    by (rule tree_frame(3) [OF B(1)], erule (2) same, rule that(1), rule that(2))
  have us1: "used_set ?p = insert f (used_set (vm_pmm s))" by (rule used_set_take [OF f(2)])
  have tok1: "tree_ok ?s1 root"
  proof (rule tree_okI; simp)
    show "page_aligned t" "page_of t \<in> used_set ?p" if "vpath p" "tbl m1 root p = Some t" for p t
      using that tree_okD(1,2) [OF B(1)] t1 us1 by auto
    show "p = q" if "vpath p" "vpath q" "tbl m1 root p = Some t" "tbl m1 root q = Some t" for p q t
      using that tree_okD(4) [OF B(1)] t1 by auto
    fix p t i assume a: "vpath (p @ [i])" "tbl m1 root p = Some t" "is_table (ent m1 t i)"
    then have vp: "vpath p" "length p < 3" "i < 512" by (simp_all add: vpath_snoc)
    then show "bit (ent m1 t i) (Suc 0)"
      using a(2,3) tree_okD(5) [OF B(1) vp(1) _ vp(2,3)] t1 e1 by simp
  qed
  have uc1: "user_clear m1 root"
    unfolding user_clear_def
  proof (intro allI impI)
    fix q i t assume a: "upath (q @ [i])" "tbl m1 root q = Some t" "present (ent m1 t i)"
    then have "vpath q" "i < 512" by (simp_all add: upath_def vpath_snoc)
    then show "\<not> huge (ent m1 t i)" using a t1 e1 B(3) unfolding user_clear_def by metis
  qed
  have c1: "3 \<le> card (free_set (vm_pmm ?s1))" using free f(2) by (simp add: fs1)
  have mp: "maps root v ?e ?s1 s'"
    using map_in_maps [OF tok1 _ user_path_clear [OF _ v] c1, of "frame_addr f" flags] pool1 uc1
      target_aligned [OF al(1)]
    by (simp add: s' vmm_map_page_in_def target_def)
  have pe: "present ?e" by (simp add: present_bit bit_simps bit_numeral_flags)
  note M = mapsD [OF mp pe, simplified]
  have "unat flags < 4096" using flags by (simp add: word_less_nat_alt)
  then have "target flags = 0" by (simp add: unat_eq_iff unat_target)
  moreover have "target PAGE_PRESENT = 0" by (rule target_low) (simp add: bit_numeral_flags)
  ultimately have te: "target ?e = frame_addr f" by (simp add: target_or target_aligned al)
  then show ef: "page_of ?e = f" using page_of_target [of ?e] al(2) by simp
  show ul: "user_leaf (vm_mem s') root q i e \<longleftrightarrow>
      (if q = page_path v \<and> i = pt_index v then e = ?e else user_leaf (vm_mem s) root q i e)" for q i e
    using M(10) [of q i] l1 [of q i] upath_page [OF v] upath_vpath [of q] index_lt(4) [of v]
    by (auto simp: user_leaf_def)
  have oldtbl: "tbl (vm_mem s') root q = Some t" if "vpath q" "tbl (vm_mem s) root q = Some t" for q t
    using M(7) [OF that(1)] t1 that by simp
  have newtbl: "prefix q (page_path v) \<and> page_of t \<in> free_set (vm_pmm s) - {f} - free_set (vm_pmm s')"
    if "vpath q" "tbl (vm_mem s) root q = None" "tbl (vm_mem s') root q = Some t" for q t
    using M(8) [OF that(1) _ that(3)] t1 [OF that(1)] that(2) fs1 by simp
  have split: "tbl (vm_mem s) root q = Some t \<or> tbl (vm_mem s) root q = None"
    if "vpath q" "tbl (vm_mem s') root q = Some t" for q t
    using oldtbl [OF that(1)] that(2) by (cases "tbl (vm_mem s) root q") auto
  have fsub: "free_set (vm_pmm s') \<subseteq> free_set (vm_pmm s) - {f}" using M(5) fs1 by simp
  have taken: "free_set (vm_pmm s0) - free_set (vm_pmm s') = owned (vm_mem s') root"
  proof (intro set_eqI iffI)
    fix g assume g: "g \<in> free_set (vm_pmm s0) - free_set (vm_pmm s')"
    show "g \<in> owned (vm_mem s') root"
    proof (cases "g \<in> free_set (vm_pmm s)")
      case False
      with g have "g \<in> owned (vm_mem s) root" using B(9) by blast
      then consider "g = page_of root" | q t where "upath q" "tbl (vm_mem s) root q = Some t" "g = page_of t"
        | q i e where "user_leaf (vm_mem s) root q i e" "g = page_of e"
        unfolding owned_def by blast
      then show ?thesis
      proof cases
        case 2
        then show ?thesis using oldtbl upath_vpath unfolding owned_def by blast
      next
        case 3
        then have "\<not> (q = page_path v \<and> i = pt_index v)"
          using unmapped by (auto simp: user_leaf_def)
        then have "user_leaf (vm_mem s') root q i e" using 3(1) unfolding ul by (simp only: if_False)
        then show ?thesis using 3(2) unfolding owned_def by blast
      qed (simp add: owned_def)
    next
      case True
      show ?thesis
      proof (cases "g = f")
        case True
        have "user_leaf (vm_mem s') root (page_path v) (pt_index v) ?e" by (simp add: ul)
        moreover have "g = page_of ?e" using ef True by simp
        ultimately show ?thesis unfolding owned_def by blast
      next
        case False
        then obtain q t where q: "vpath q" "tbl m1 root q = None" "tbl (vm_mem s') root q = Some t"
          "page_of t = g" using M(9) [of g] g True fs1 by auto
        then have "prefix q (page_path v)" "q \<noteq> []" using M(8) [of q t] by auto
        then have "upath q" using prefix_upath v by blast
        then show ?thesis using q(3,4) unfolding owned_def by blast
      qed
    qed
  next
    fix g assume "g \<in> owned (vm_mem s') root"
    then consider "g = page_of root" | q t where "upath q" "tbl (vm_mem s') root q = Some t" "g = page_of t"
      | q i e where "user_leaf (vm_mem s') root q i e" "g = page_of e"
      unfolding owned_def by blast
    then show "g \<in> free_set (vm_pmm s0) - free_set (vm_pmm s')"
    proof cases
      case 1
      then have "g \<in> owned (vm_mem s) root" by (simp add: owned_def)
      then show ?thesis using B(9) fsub by blast
    next
      case 2
      from split [OF upath_vpath [OF 2(1)] 2(2)] show ?thesis
      proof
        assume "tbl (vm_mem s) root q = Some t"
        then have "g \<in> owned (vm_mem s) root" using 2 unfolding owned_def by blast
        then show ?thesis using B(9) fsub by blast
      next
        assume "tbl (vm_mem s) root q = None"
        from newtbl [OF upath_vpath [OF 2(1)] this 2(2)] show ?thesis using B(8) 2(3) by blast
      qed
    next
      case 3
      show ?thesis
      proof (cases "q = page_path v \<and> i = pt_index v")
        case True
        then have "g = f" using 3 ef by (simp add: ul)
        then show ?thesis using f(2) B(8) fsub by blast
      next
        case False
        then have "user_leaf (vm_mem s) root q i e" using 3(1) unfolding ul by simp
        then have "g \<in> owned (vm_mem s) root" using 3(2) unfolding owned_def by blast
        then show ?thesis using B(9) fsub by blast
      qed
    qed
  qed
  have changed: "page_of x \<in> free_set (vm_pmm s) - {f}
      \<or> (\<exists>q t. prefix q (page_path v) \<and> tbl (vm_mem s) root q = Some t \<and> page_of x = page_of t)"
    if "vm_mem s' x \<noteq> m1 x" for x
    using M(13) [OF that] t1 vpath_prefix [OF vpath_page] fs1 by metis
  have ownt: "page_of t \<in> free_set (vm_pmm s0)"
    if q: "prefix q (page_path v)" "tbl (vm_mem s) root q = Some t" for q t
  proof (cases "q = []")
    case True
    then show ?thesis using q(2) B(7) by simp
  next
    case False
    then have "page_of t \<in> owned (vm_mem s) root"
      using prefix_upath [OF q(1) _ v] q(2) unfolding owned_def by blast
    then show ?thesis using B(9) by blast
  qed
  have outside: "vm_mem s' x = vm_mem s0 x" if x: "page_of x \<notin> free_set (vm_pmm s0)" for x
  proof -
    have "vm_mem s' x = m1 x"
    proof (rule ccontr)
      assume "vm_mem s' x \<noteq> m1 x"
      from changed [OF this] ownt B(8) x show False by auto
    qed
    moreover have "m1 x = vm_mem s x" using m1 [of x] f(2) B(8) x by auto
    ultimately show ?thesis using B(10) [OF x] by simp
  qed
  have leaf_tbl: "page_of e \<noteq> page_of t"
    if a: "user_leaf (vm_mem s') root q i e" "vpath p" "tbl (vm_mem s') root p = Some t" for q i e p t
  proof (cases "q = page_path v \<and> i = pt_index v")
    case True
    then have "page_of e = f" using a(1) ef by (simp add: ul)
    moreover have "page_of t \<noteq> f"
      using split [OF a(2,3)]
    proof
      assume "tbl (vm_mem s) root p = None"
      from newtbl [OF a(2) this a(3)] show ?thesis by simp
    qed (rule kt [OF a(2)])
    ultimately show ?thesis by simp
  next
    case False
    then have e: "user_leaf (vm_mem s) root q i e" using a(1) unfolding ul by simp
    then have "page_of e \<in> owned (vm_mem s) root" unfolding owned_def by blast
    then have "page_of e \<notin> free_set (vm_pmm s)" using B(9) by blast
    from split [OF a(2,3)] show ?thesis
    proof
      assume "tbl (vm_mem s) root p = Some t"
      then show ?thesis by (rule B(11) [OF e a(2)])
    next
      assume "tbl (vm_mem s) root p = None"
      from newtbl [OF a(2) this a(3)] \<open>page_of e \<notin> free_set (vm_pmm s)\<close> show ?thesis by auto
    qed
  qed
  have leaf_inj: "q = q' \<and> i = i'"
    if a: "user_leaf (vm_mem s') root q i e" "user_leaf (vm_mem s') root q' i' e'" "page_of e = page_of e'"
    for q i e q' i' e'
  proof -
    have old: "page_of d \<noteq> f" if "user_leaf (vm_mem s) root p j d" for p j d
    proof -
      have "page_of d \<in> owned (vm_mem s) root" using that unfolding owned_def by blast
      then show ?thesis using B(9) f(2) by blast
    qed
    show ?thesis
      using a old [of q i e] old [of q' i' e'] B(12) [of q i e q' i' e'] ef unfolding ul
      by (auto split: if_splits)
  qed
  have "user_clear (vm_mem s') root"
    unfolding user_clear_def
  proof (intro allI impI notI)
    fix q i t assume a: "upath (q @ [i])" "tbl (vm_mem s') root q = Some t"
      "present (ent (vm_mem s') t i)" "huge (ent (vm_mem s') t i)"
    from M(11) [OF upath_vpath [OF a(1)] a(2-4)] uc1 a(1) show False
      unfolding user_clear_def by blast
  qed
  then show "built s0 s' root"
    unfolding built_def
    using M(1-4) B(4-8) fsub taken outside leaf_tbl leaf_inj by (auto simp: view_simps)
  show "card (free_set (vm_pmm s)) \<le> card (free_set (vm_pmm s')) + 4"
    using M(6) fs1 f(2) card_Suc_Diff1 [OF finite_free_set f(2)] by simp
  show "vm_mem s' x = m1 x" if x: "page_of x = f"
  proof (rule ccontr)
    assume "vm_mem s' x \<noteq> m1 x"
    from changed [OF this] obtain q t where "prefix q (page_path v)" "tbl (vm_mem s) root q = Some t"
      "page_of x = page_of t" using x by blast
    with kt [OF vpath_prefix [OF vpath_page]] x show False by fastforce
  qed
  show "vm_mem s' x = vm_mem s x" if a: "user_leaf (vm_mem s) root q i e" "page_of x = page_of e"
  proof -
    have "page_of e \<in> owned (vm_mem s) root" using a(1) unfolding owned_def by blast
    then have nf: "page_of e \<notin> free_set (vm_pmm s)" using B(9) by blast
    have "vm_mem s' x = m1 x"
    proof (rule ccontr)
      assume "vm_mem s' x \<noteq> m1 x"
      from changed [OF this] B(11) [OF a(1)] vpath_prefix [OF vpath_page] a(2) nf show False by auto
    qed
    then show ?thesis using m1 [of x] a(2) nf f(2) by metis
  qed
qed

section \<open>Tearing a space down\<close>

text \<open>\<open>s'\<close> is \<open>s\<close> with the frames \<open>X\<close> given back.\<close>

definition freed :: "vmm \<Rightarrow> vmm \<Rightarrow> nat set \<Rightarrow> bool" where
  "freed s s' X \<longleftrightarrow> s' = s\<lparr>vm_pmm := vm_pmm s'\<rparr> \<and> pool_inv (vm_pmm s')
     \<and> nframes (vm_pmm s') = nframes (vm_pmm s)
     \<and> free_set (vm_pmm s') = free_set (vm_pmm s) \<union> X"

abbreviation real_frames :: "vmm \<Rightarrow> nat set" where
  "real_frames s \<equiv> {f. 0 < f \<and> f < nframes (vm_pmm s)}"

lemma freed_refl: "pool_inv (vm_pmm s) \<Longrightarrow> freed s s {}"
  by (simp add: freed_def)

lemma freed_trans: "freed s s' X \<Longrightarrow> freed s' s'' Y \<Longrightarrow> freed s s'' (X \<union> Y)"
  unfolding freed_def by auto (metis vmm.surjective vmm.update_convs(2))+

lemma freed_mem: "freed s s' X \<Longrightarrow> vm_mem s' = vm_mem s \<and> nframes (vm_pmm s') = nframes (vm_pmm s)
    \<and> pool_inv (vm_pmm s') \<and> kernel_pml4 s' = kernel_pml4 s"
  unfolding freed_def by (metis vmm.select_convs(1,3) vmm.surjective vmm.update_convs(2))

lemma free_frame_freed:
  assumes "pool_inv (vm_pmm s)" and "page_of a \<in> real_frames s"
  shows "freed s (s\<lparr>vm_pmm := pmm_free_frame a (vm_pmm s)\<rparr>) {page_of a}"
proof -
  let ?p = "vm_pmm s"
  have inv: "pmm_inv ?p" "0 \<notin> free_set ?p" using assms(1) by (simp_all add: pool_inv_def)
  have c: "pmm_free_frame a ?p = (if frame_used ?p (page_of a) then drop_frame (page_of a) ?p else ?p)"
    using assms(2) by (simp add: pmm_free_frame_def page_of_def Let_def)
  show ?thesis
  proof (cases "frame_used ?p (page_of a)")
    case True
    then have "page_of a \<in> used_set ?p" using assms(2) by (simp add: used_set_def)
    then show ?thesis
      using True inv assms(2) by (simp add: freed_def c pool_inv_def drop_frame_inv free_set_drop view_simps)
  next
    case False
    then have "page_of a \<in> free_set ?p" using assms(2) by (simp add: free_set_def)
    then show ?thesis using False assms(1) by (auto simp: freed_def c)
  qed
qed

lemma release_freed:
  "pool_inv (vm_pmm s) \<Longrightarrow> page_of e \<in> real_frames s \<Longrightarrow> freed s (release e s) {page_of e}"
  using free_frame_freed [of s "target e"] by (simp add: release_def page_of_target flip: target_def)

lemma fold_freed:
  assumes "pool_inv (vm_pmm s)"
    and "\<And>i t. i \<in> set xs \<Longrightarrow> vm_mem t = vm_mem s \<Longrightarrow> nframes (vm_pmm t) = nframes (vm_pmm s) \<Longrightarrow>
      pool_inv (vm_pmm t) \<Longrightarrow> freed t (g i t) (X i)"
  shows "freed s (fold g xs s) (\<Union>i \<in> set xs. X i)"
  using assms(2)
proof (induction xs rule: rev_induct)
  case Nil
  then show ?case using assms(1) by (simp add: freed_refl)
next
  case (snoc i xs)
  have IH: "freed s (fold g xs s) (\<Union>i \<in> set xs. X i)"
    by (rule snoc.IH, rule snoc.prems) simp_all
  from freed_mem [OF IH] have "freed (fold g xs s) (g i (fold g xs s)) (X i)"
    by (intro snoc.prems) simp_all
  from freed_trans [OF IH this] show ?case by (simp add: Un_commute)
qed

text \<open>What lies below a table with \<open>n\<close> levels of tables under it: their frames and the pages'.\<close>

fun below :: "nat \<Rightarrow> mem \<Rightarrow> u64 \<Rightarrow> nat set" where
  "below 0 m t = (\<Union>i < 512. if present (ent m t i) then {page_of (ent m t i)} else {})"
| "below (Suc n) m t = (\<Union>i < 512. if is_table (ent m t i)
     then below n m (target (ent m t i)) \<union> {page_of (ent m t i)} else {})"

lemma free_pt_freed:
  assumes "pool_inv (vm_pmm s)" and "below 0 (vm_mem s) pt \<subseteq> real_frames s"
  shows "freed s (free_pt pt s) (below 0 (vm_mem s) pt)"
proof -
  have "freed s (free_pt pt s) (\<Union>i \<in> set [0..<512].
      if present (ent (vm_mem s) pt i) then {page_of (ent (vm_mem s) pt i)} else {})"
    unfolding free_pt_def
  proof (rule fold_freed [OF assms(1)])
    fix i and t :: vmm assume "i \<in> set [0..<512]" "vm_mem t = vm_mem s" "nframes (vm_pmm t) = nframes (vm_pmm s)"
      "pool_inv (vm_pmm t)"
    then show "freed t (let e = ent (vm_mem t) pt i in if e AND PAGE_PRESENT \<noteq> 0 then release e t else t)
        (if present (ent (vm_mem s) pt i) then {page_of (ent (vm_mem s) pt i)} else {})"
      using assms(2) by (auto simp: Let_def present_def freed_refl intro!: release_freed split: if_splits)
  qed
  then show ?thesis by (simp add: atLeast0LessThan)
qed

lemma free_level_freed:
  assumes "pool_inv (vm_pmm s)" and "below (Suc n) (vm_mem s) t \<subseteq> real_frames s"
    and F: "\<And>u s. pool_inv (vm_pmm s) \<Longrightarrow> below n (vm_mem s) u \<subseteq> real_frames s \<Longrightarrow>
      freed s (F u s) (below n (vm_mem s) u)"
  shows "freed s (fold (\<lambda>i s. let e = ent (vm_mem s) t i
             in if e AND PAGE_PRESENT = 0 \<or> e AND HUGE_PAGE \<noteq> 0 then s
                else release e (F (e AND ADDR_MASK) s)) [0..<512] s) (below (Suc n) (vm_mem s) t)"
proof -
  let ?e = "\<lambda>i. ent (vm_mem s) t i"
  have "freed s (fold (\<lambda>i s. let e = ent (vm_mem s) t i
             in if e AND PAGE_PRESENT = 0 \<or> e AND HUGE_PAGE \<noteq> 0 then s
                else release e (F (e AND ADDR_MASK) s)) [0..<512] s)
        (\<Union>i \<in> set [0..<512]. if is_table (?e i)
           then below n (vm_mem s) (target (?e i)) \<union> {page_of (?e i)} else {})"
  proof (rule fold_freed [OF assms(1)])
    fix i and r :: vmm assume i: "i \<in> set [0..<512]" and r: "vm_mem r = vm_mem s"
      "nframes (vm_pmm r) = nframes (vm_pmm s)" "pool_inv (vm_pmm r)"
    show "freed r (let e = ent (vm_mem r) t i
             in if e AND PAGE_PRESENT = 0 \<or> e AND HUGE_PAGE \<noteq> 0 then r
                else release e (F (e AND ADDR_MASK) r))
        (if is_table (?e i) then below n (vm_mem s) (target (?e i)) \<union> {page_of (?e i)} else {})"
    proof (cases "is_table (?e i)")
      case True
      have sub: "below n (vm_mem s) (target (?e i)) \<union> {page_of (?e i)} \<subseteq> real_frames s"
        using assms(2) True i by (auto split: if_splits)
      have f: "freed r (F (target (?e i)) r) (below n (vm_mem s) (target (?e i)))"
        using F [OF r(3), of "target (?e i)"] sub r by simp
      have "freed (F (target (?e i)) r) (release (?e i) (F (target (?e i)) r)) {page_of (?e i)}"
        using freed_mem [OF f] sub r by (intro release_freed) simp_all
      from freed_trans [OF f this] show ?thesis
        using True by (simp add: Let_def r(1) is_table_def present_def huge_def target_def)
    next
      case False
      then show ?thesis
        using r by (auto simp: Let_def is_table_def present_def huge_def freed_refl)
    qed
  qed
  then show ?thesis by (simp add: atLeast0LessThan)
qed

lemma free_pd_freed:
  assumes "pool_inv (vm_pmm s)" and "below 1 (vm_mem s) t \<subseteq> real_frames s"
  shows "freed s (free_pd t s) (below 1 (vm_mem s) t)"
  using free_level_freed [of s 0 t free_pt] free_pt_freed assms by (simp only: free_pd_def One_nat_def)

lemma free_pdpt_freed:
  assumes "pool_inv (vm_pmm s)" and "below 2 (vm_mem s) t \<subseteq> real_frames s"
  shows "freed s (free_pdpt t s) (below 2 (vm_mem s) t)"
  using free_level_freed [of s 1 t free_pd] free_pd_freed assms
  by (simp only: free_pdpt_def Suc_1 flip: One_nat_def)

text \<open>The sets above, read off the tree.\<close>

lemma UN_if_Un: "(\<Union>i \<in> I. if P i then A i \<union> B i \<union> {c i} else {})
    = (\<Union>i \<in> I. if P i then A i \<union> {c i} else {}) \<union> (\<Union>i \<in> I. if P i then B i else {})"
  by auto

lemma below_tree:
  "below n m t = {page_of u |q u. q \<noteq> [] \<and> length q \<le> n \<and> (\<forall>i \<in> set q. i < 512) \<and> tbl m t q = Some u}
     \<union> {page_of e |q i e. length q = n \<and> (\<forall>i \<in> set q. i < 512) \<and> i < 512 \<and> leaf m t q i = Some e}"
proof (induction n arbitrary: t)
  case 0
  show ?case by (auto simp: leaf_def)
next
  case (Suc n)
  let ?T = "\<lambda>n t. {page_of u |q u. q \<noteq> [] \<and> length q \<le> n \<and> (\<forall>i \<in> set q. i < 512) \<and> tbl m t q = Some u}"
  let ?L = "\<lambda>n t. {page_of e |q i e. length q = n \<and> (\<forall>i \<in> set q. i < 512) \<and> i < 512 \<and> leaf m t q i = Some e}"
  have L: "?L (Suc n) t = (\<Union>i < 512. if is_table (ent m t i) then ?L n (target (ent m t i)) else {})"
  proof (intro set_eqI iffI)
    fix g assume "g \<in> ?L (Suc n) t"
    then obtain i q j e where a: "g = page_of e" "length q = n" "i < 512" "\<forall>i \<in> set q. i < 512" "j < 512"
      "leaf m t (i # q) j = Some e"
      by (auto simp: length_Suc_conv)
    then have "is_table (ent m t i)" "leaf m (target (ent m t i)) q j = Some e"
      by (auto simp: leaf_def child_def split: if_splits)
    with a show "g \<in> (\<Union>i < 512. if is_table (ent m t i) then ?L n (target (ent m t i)) else {})"
      by auto
  next
    fix g assume "g \<in> (\<Union>i < 512. if is_table (ent m t i) then ?L n (target (ent m t i)) else {})"
    then obtain i q j e where a: "i < 512" "is_table (ent m t i)" "g = page_of e" "length q = n"
      "\<forall>i \<in> set q. i < 512" "j < 512" "leaf m (target (ent m t i)) q j = Some e"
      by (auto split: if_splits)
    then have "leaf m t (i # q) j = Some e" by (simp add: leaf_def child_def)
    with a show "g \<in> ?L (Suc n) t" by (intro CollectI exI [of _ "i # q"]) auto
  qed
  have T: "?T (Suc n) t = (\<Union>i < 512. if is_table (ent m t i)
      then ?T n (target (ent m t i)) \<union> {page_of (ent m t i)} else {})"
  proof (intro set_eqI iffI)
    fix g assume "g \<in> ?T (Suc n) t"
    then obtain q0 u where b: "g = page_of u" "q0 \<noteq> []" "length q0 \<le> Suc n" "\<forall>i \<in> set q0. i < 512"
      "tbl m t q0 = Some u" by blast
    then obtain i q where q0: "q0 = i # q" by (cases q0) auto
    with b have a: "i < 512" "length q \<le> n" "\<forall>i \<in> set q. i < 512" "is_table (ent m t i)"
      "tbl m (target (ent m t i)) q = Some u"
      by (auto simp: child_def split: if_splits)
    show "g \<in> (\<Union>i < 512. if is_table (ent m t i) then ?T n (target (ent m t i)) \<union> {page_of (ent m t i)} else {})"
    proof (cases q)
      case Nil
      then have "g = page_of (ent m t i)" using a(5) b(1) page_of_target [of "ent m t i"] by auto
      then show ?thesis using a(1,4) by auto
    next
      case Cons
      then have "g \<in> ?T n (target (ent m t i))" using a b(1) by blast
      then show ?thesis using a(1,4) by auto
    qed
  next
    fix g assume "g \<in> (\<Union>i < 512. if is_table (ent m t i) then ?T n (target (ent m t i)) \<union> {page_of (ent m t i)} else {})"
    then obtain i where i: "i < 512" "is_table (ent m t i)"
      "g \<in> ?T n (target (ent m t i)) \<or> g = page_of (ent m t i)"
      by (auto split: if_splits)
    from i(3) show "g \<in> ?T (Suc n) t"
    proof
      assume "g \<in> ?T n (target (ent m t i))"
      then obtain q u where "g = page_of u" "length q \<le> n" "\<forall>i \<in> set q. i < 512"
        "tbl m (target (ent m t i)) q = Some u" by blast
      with i(1,2) show ?thesis by (intro CollectI exI [of _ "i # q"]) (auto simp: child_def)
    next
      assume "g = page_of (ent m t i)"
      with i(1,2) show ?thesis
        by (intro CollectI exI [of _ "[i]"]) (auto simp: child_def page_of_target)
    qed
  qed
  show ?case unfolding below.simps Suc.IH L T by (rule UN_if_Un)
qed

lemma upath_Cons: "upath (i # q) \<longleftrightarrow> 0 < i \<and> i < 512 \<and> length q \<le> 2 \<and> (\<forall>j \<in> set q. j < 512)"
  by (auto simp: upath_def vpath_def)

lemma owned_below:
  "owned m root = (\<Union>i \<in> {1..<512}. if is_table (ent m root i)
     then below 2 m (target (ent m root i)) \<union> {page_of (ent m root i)} else {}) \<union> {page_of root}"
    (is "_ = ?B \<union> _")
proof (intro set_eqI iffI)
  fix g assume "g \<in> owned m root"
  then consider "g = page_of root" | q t where "upath q" "tbl m root q = Some t" "g = page_of t"
    | q i e where "user_leaf m root q i e" "g = page_of e"
    unfolding owned_def by blast
  then show "g \<in> ?B \<union> {page_of root}"
  proof cases
    case 2
    then obtain i p where q: "q = i # p" by (cases q) (auto simp: upath_def)
    with 2 have a: "0 < i" "i < 512" "length p \<le> 2" "\<forall>j \<in> set p. j < 512" "is_table (ent m root i)"
      "tbl m (target (ent m root i)) p = Some t"
      by (auto simp: upath_Cons child_def split: if_splits)
    have "g \<in> below 2 m (target (ent m root i)) \<union> {page_of (ent m root i)}"
    proof (cases p)
      case Nil
      then show ?thesis using a(6) 2(3) page_of_target [of "ent m root i"] by auto
    next
      case Cons
      then show ?thesis unfolding below_tree using a 2(3) by blast
    qed
    with a(1,2,5) show ?thesis by (intro UnI1 UN_I [of i]) simp_all
  next
    case 3
    then obtain k p where q: "q = k # p" by (cases q) (auto simp: user_leaf_def upath_def)
    with 3 have a: "0 < k" "k < 512" "length p = 2" "\<forall>j \<in> set p. j < 512" "i < 512" "is_table (ent m root k)"
      "leaf m (target (ent m root k)) p i = Some e"
      by (auto simp: user_leaf_def upath_Cons leaf_def child_def split: if_splits)
    then have "g \<in> below 2 m (target (ent m root k))" unfolding below_tree using 3(2) by blast
    with a(1,2,6) show ?thesis by (intro UnI1 UN_I [of k]) simp_all
  qed simp
next
  fix g assume "g \<in> ?B \<union> {page_of root}"
  then consider "g = page_of root"
    | i where "0 < i" "i < 512" "is_table (ent m root i)" "g = page_of (ent m root i)"
    | i where "0 < i" "i < 512" "is_table (ent m root i)" "g \<in> below 2 m (target (ent m root i))"
    by (auto simp: Suc_le_eq split: if_splits)
  then show "g \<in> owned m root"
  proof cases
    case 1
    then show ?thesis by (simp add: owned_def)
  next
    case 2
    then have "upath [i]" "tbl m root [i] = Some (target (ent m root i))" "g = page_of (target (ent m root i))"
      by (simp_all add: upath_Cons child_def page_of_target)
    then show ?thesis unfolding owned_def by blast
  next
    case 3
    from 3(4) consider q u where "g = page_of u" "length q \<le> 2" "\<forall>i \<in> set q. i < 512"
        "tbl m (target (ent m root i)) q = Some u"
      | q j e where "g = page_of e" "length q = 2" "\<forall>i \<in> set q. i < 512" "j < 512"
        "leaf m (target (ent m root i)) q j = Some e"
      unfolding below_tree by blast
    then show ?thesis
    proof cases
      case 1
      then have "upath (i # q)" "tbl m root (i # q) = Some u"
        using 3(1-3) by (simp_all add: upath_Cons child_def)
      then show ?thesis using 1(1) unfolding owned_def by blast
    next
      case 2
      then have "user_leaf m root (i # q) j e"
        using 3(1-3) by (simp add: user_leaf_def upath_Cons leaf_def child_def)
      then show ?thesis using 2(1) unfolding owned_def by blast
    qed
  qed
qed

lemma destroy_freed:
  assumes pool: "pool_inv (vm_pmm s)" and clear: "user_clear (vm_mem s) root"
    and own: "owned (vm_mem s) root \<subseteq> real_frames s" and root: "root \<noteq> 0" "root \<noteq> kernel_pml4 s"
  shows "freed s (vmm_destroy_address_space root s) (owned (vm_mem s) root)"
proof -
  let ?e = "\<lambda>i. ent (vm_mem s) root i"
  let ?X = "\<lambda>i. if is_table (?e i) then below 2 (vm_mem s) (target (?e i)) \<union> {page_of (?e i)} else {}"
  let ?g = "\<lambda>i s. let e = ent (vm_mem s) root i in if e AND PAGE_PRESENT = 0 then s
      else release e (free_pdpt (e AND ADDR_MASK) s)"
  have tab: "is_table (?e i) \<longleftrightarrow> present (?e i)" if "0 < i" "i < 512" for i
    using clear that unfolding user_clear_def is_table_def
    by (metis append_Nil tbl.simps(1) upath_Cons list.size(3) list.set(1) empty_iff zero_le)
  have f: "freed s (fold ?g [1..<512] s) (\<Union>i \<in> set [1..<512]. ?X i)"
  proof (rule fold_freed [OF pool])
    fix i and r :: vmm assume i: "i \<in> set [1..<512]" and r: "vm_mem r = vm_mem s"
      "nframes (vm_pmm r) = nframes (vm_pmm s)" "pool_inv (vm_pmm r)"
    have t: "is_table (?e i) \<longleftrightarrow> present (?e i)" by (rule tab) (use i in auto)
    show "freed r (?g i r) (?X i)"
    proof (cases "present (?e i)")
      case True
      have sub: "below 2 (vm_mem s) (target (?e i)) \<union> {page_of (?e i)} \<subseteq> real_frames s"
      proof -
        have "?X i \<subseteq> owned (vm_mem s) root" using i unfolding owned_below by (intro le_supI1 UN_upper) simp
        from order_trans [OF this own] show ?thesis using True t by (simp only: if_True)
      qed
      have f: "freed r (free_pdpt (target (?e i)) r) (below 2 (vm_mem s) (target (?e i)))"
        using free_pdpt_freed [OF r(3), of "target (?e i)"] sub r by simp
      have "freed (free_pdpt (target (?e i)) r) (release (?e i) (free_pdpt (target (?e i)) r)) {page_of (?e i)}"
        using freed_mem [OF f] sub r by (intro release_freed) simp_all
      from freed_trans [OF f this] show ?thesis
        using True t by (simp add: Let_def r(1) present_def target_def)
    next
      case False
      then show ?thesis using r t by (simp add: Let_def present_def freed_refl)
    qed
  qed
  let ?s = "fold ?g [1..<512] s"
  have "page_of root \<in> real_frames s" using own by (auto simp: owned_def)
  then have "freed ?s (?s\<lparr>vm_pmm := pmm_free_frame root (vm_pmm ?s)\<rparr>) {page_of root}"
    using freed_mem [OF f] by (intro free_frame_freed) simp_all
  from freed_trans [OF f this] show ?thesis
    using root unfolding owned_below vmm_destroy_address_space_def by (simp add: Let_def)
qed

lemma destroy_built:
  assumes "tree_ok s0 (kernel_pml4 s0)" and "pool_inv (vm_pmm s0)" and "built s0 s root"
  shows "freed s (vmm_destroy_address_space root s) (owned (vm_mem s) root)"
    and "free_set (vm_pmm (vmm_destroy_address_space root s)) = free_set (vm_pmm s0)"
proof -
  note B = builtD [OF assms(3)]
  have own: "owned (vm_mem s) root \<subseteq> real_frames s"
  proof
    fix f assume "f \<in> owned (vm_mem s) root"
    then have f: "f \<in> free_set (vm_pmm s0)" using B(9) by blast
    then have "0 < f" using assms(2) by (metis gr0I pool_inv_def)
    then show "f \<in> real_frames s" using f B(5) by (simp add: free_set_def)
  qed
  have "page_of (kernel_pml4 s0) \<notin> free_set (vm_pmm s0)"
    using tree_okD(3) [OF assms(1), of "[]"] by simp
  then have "root \<noteq> kernel_pml4 s" using B(4,7) by auto
  then show f: "freed s (vmm_destroy_address_space root s) (owned (vm_mem s) root)"
    by (rule destroy_freed [OF B(2,3) own B(6)])
  then show "free_set (vm_pmm (vmm_destroy_address_space root s)) = free_set (vm_pmm s0)"
    using B(8,9) by (auto simp: freed_def)
qed

end
