(* ===== verification/Vmm_Clone.thy ===== *)
theory Vmm_Clone
  imports Vmm_Space
begin

text \<open>
  The four nested loops of \<^verbatim>\<open>vmm_clone_address_space\<close>: the invariant says which pages have been
  copied so far.
\<close>

section \<open>Copying a space\<close>

lemma copy_page_spec:
  assumes "page_aligned dst" and "page_aligned src" and "page_of dst \<noteq> page_of src"
  shows "k < 4096 \<Longrightarrow> copy_page dst src m (dst + of_nat k) = m (src + of_nat k)"
    and "page_of x \<noteq> page_of dst \<Longrightarrow> copy_page dst src m x = m x"
proof -
  define c where "c n = fold (\<lambda>b m. m(dst + of_nat b := m (src + of_nat b))) [0..<n] m" for n
  have c0: "c 0 = m" and cS: "c (Suc n) = (c n)(dst + of_nat n := c n (src + of_nat n))" for n
    by (simp_all add: c_def)
  have main: "(\<forall>k < n. c n (dst + of_nat k) = m (src + of_nat k)) \<and> (\<forall>x. page_of x \<noteq> page_of dst \<longrightarrow> c n x = m x)"
    if "n \<le> 4096" for n
    using that
  proof (induction n)
    case (Suc n)
    then have IH: "\<And>k. k < n \<Longrightarrow> c n (dst + of_nat k) = m (src + of_nat k)"
      "\<And>x. page_of x \<noteq> page_of dst \<Longrightarrow> c n x = m x" and n: "n < 4096"
      by auto
    have read: "c n (src + of_nat n) = m (src + of_nat n)"
      using IH(2) unat_in_page(2) [OF assms(2) n] assms(3) by simp
    have inj: "dst + of_nat k \<noteq> dst + of_nat n" if "k < n" for k :: nat
    proof -
      have "k < 4096" using that n by simp
      from unat_in_page(1) [OF assms(1) this] unat_in_page(1) [OF assms(1) n] that
      show ?thesis by auto
    qed
    show ?case
    proof (unfold cS read, intro conjI allI impI)
      fix k assume "k < Suc n"
      then show "((c n)(dst + of_nat n := m (src + of_nat n))) (dst + of_nat k) = m (src + of_nat k)"
        using IH(1) inj by (cases "k = n") auto
    next
      fix x assume x: "page_of x \<noteq> page_of dst"
      then have "x \<noteq> dst + of_nat n" using unat_in_page(2) [OF assms(1) n] by auto
      then show "((c n)(dst + of_nat n := m (src + of_nat n))) x = m x" using IH(2) x by simp
    qed
  qed (simp add: c0)
  have "copy_page dst src m = c 4096" by (simp only: copy_page_def c_def)
  then show "k < 4096 \<Longrightarrow> copy_page dst src m (dst + of_nat k) = m (src + of_nat k)"
    and "page_of x \<noteq> page_of dst \<Longrightarrow> copy_page dst src m x = m x"
    using main [of 4096] by simp_all
qed

lemma bit_index: "i < 512 \<Longrightarrow> bit (i :: nat) n \<Longrightarrow> n < 9"
proof -
  assume "i < 512" and b: "bit i n"
  then have "take_bit 9 i = i" by (simp add: take_bit_nat_eq_self)
  then show "n < 9" using b by (metis bit_take_bit_iff)
qed

lemma page_vaddr_index:
  assumes "i < 512" "j < 512" "k < 512" "l < 512"
  shows "page_path (page_vaddr i j k l) = [i, j, k]" and "pml4_index (page_vaddr i j k l) = i"
    and "pt_index (page_vaddr i j k l) = l"
proof -
  have m9: "(0x1FF :: u64) = mask 9" by (simp add: mask_eq_exp_minus_1)
  note lt = bit_index [OF assms(1)] bit_index [OF assms(2)] bit_index [OF assms(3)] bit_index [OF assms(4)]
  have "drop_bit 39 (page_vaddr i j k l) AND mask 9 = of_nat i"
    "drop_bit 30 (page_vaddr i j k l) AND mask 9 = of_nat j"
    "drop_bit 21 (page_vaddr i j k l) AND mask 9 = of_nat k"
    "drop_bit 12 (page_vaddr i j k l) AND mask 9 = of_nat l"
    unfolding page_vaddr_def by - (rule bit_word_eqI, auto simp: bit_simps dest: lt)+
  then show "page_path (page_vaddr i j k l) = [i, j, k]" "pml4_index (page_vaddr i j k l) = i"
    "pt_index (page_vaddr i j k l) = l"
    using assms by (simp_all add: page_path_def pml4_index_def pdpt_index_def pd_index_def pt_index_def
        m9 unat_of_nat_u64)
qed

lemma fold_cover:
  assumes "distinct xs" and "I r P" and "\<And>i r P. i \<in> set xs \<Longrightarrow> I r P \<Longrightarrow> P \<inter> X i = {} \<Longrightarrow> I (g i r) (P \<union> X i)"
    and "\<And>i. i \<in> set xs \<Longrightarrow> P \<inter> X i = {}"
    and "\<And>i j. i \<in> set xs \<Longrightarrow> j \<in> set xs \<Longrightarrow> i \<noteq> j \<Longrightarrow> X i \<inter> X j = {}"
  shows "I (fold g xs r) (P \<union> (\<Union>i \<in> set xs. X i))"
  using assms
proof (induction xs arbitrary: r P)
  case (Cons a xs)
  have "I (fold g xs (g a r)) ((P \<union> X a) \<union> (\<Union>i \<in> set xs. X i))"
  proof (rule Cons.IH)
    show "I (g a r) (P \<union> X a)" using Cons.prems by simp
    show "(P \<union> X a) \<inter> X i = {}" if "i \<in> set xs" for i
      using Cons.prems(1) Cons.prems(4) [of i] Cons.prems(5) [of a i] that by auto
  qed (use Cons.prems in auto)
  then show ?case by (simp add: Un_assoc)
qed simp

text \<open>The loop invariant: the pages \<open>P\<close> have been copied, and no others.\<close>

definition user_pages :: "mem \<Rightarrow> u64 \<Rightarrow> (nat list \<times> nat) set" where
  "user_pages m root = {(q, i). \<exists>e. user_leaf m root q i e}"

definition page_copy :: "mem \<Rightarrow> mem \<Rightarrow> u64 \<Rightarrow> u64 \<Rightarrow> bool" where
  "page_copy m m' e e' \<longleftrightarrow> e' AND 0xFFF = e AND 0xFFF
     \<and> (\<forall>k < 4096. m' (target e' + of_nat k) = m (target e + of_nat k))"

definition cloned :: "vmm \<Rightarrow> u64 \<Rightarrow> u64 \<Rightarrow> vmm \<Rightarrow> (nat list \<times> nat) set \<Rightarrow> bool" where
  "cloned s src dst r P \<longleftrightarrow>
     built s r dst
     \<and> (\<forall>q i e'. user_leaf (vm_mem r) dst q i e' \<longrightarrow>
          (q, i) \<in> P \<and> (\<exists>e. user_leaf (vm_mem s) src q i e \<and> page_copy (vm_mem s) (vm_mem r) e e'))
     \<and> (\<forall>q i e. user_leaf (vm_mem s) src q i e \<longrightarrow> (q, i) \<in> P \<longrightarrow>
          (\<exists>e'. user_leaf (vm_mem r) dst q i e'))
     \<and> card (free_set (vm_pmm s))
         \<le> card (free_set (vm_pmm r)) + 1 + 4 * card (P \<inter> user_pages (vm_mem s) src)"

text \<open>What the parent must satisfy: its tables and pages are frames in use, and enough are free.\<close>

definition clonable :: "vmm \<Rightarrow> u64 \<Rightarrow> bool" where
  "clonable s src \<longleftrightarrow> tree_ok s src \<and> user_clear (vm_mem s) src \<and> pool_inv (vm_pmm s)
     \<and> (\<forall>q i e. user_leaf (vm_mem s) src q i e \<longrightarrow> page_of e \<notin> free_set (vm_pmm s))
     \<and> 1 + 4 * card (user_pages (vm_mem s) src) \<le> card (free_set (vm_pmm s))"

lemma finite_user_pages: "finite (user_pages m root)"
proof (rule finite_subset)
  show "user_pages m root \<subseteq> {q. set q \<subseteq> {..<512} \<and> length q \<le> 3} \<times> {..<512}"
    by (auto simp: user_pages_def user_leaf_def upath_def vpath_def)
  show "finite ({q :: nat list. set q \<subseteq> {..<512} \<and> length q \<le> 3} \<times> {..<512 :: nat})"
    by (intro finite_cartesian_product finite_lists_length_le) simp_all
qed

lemma clone_page_step:
  assumes c: "clonable s src" and I: "cloned s src dst r P" and e: "user_leaf (vm_mem s) src q l e"
    and fresh: "(q, l) \<notin> P" and q: "q = [i, j, k]"
  shows "cloned s src dst (clone_page dst (page_vaddr i j k l) e r) (P \<union> {(q, l)})"
proof -
  let ?v = "page_vaddr i j k l" and ?M = "user_pages (vm_mem s) src"
  have lt: "i < 512" "j < 512" "k < 512" "l < 512" and i0: "i \<noteq> 0" and pe: "present e"
    using e by (auto simp: q user_leaf_def upath_def vpath_def leaf_def split: option.splits if_splits)
  note ix = page_vaddr_index [OF lt]
  have b: "built s r dst"
    and I2: "\<And>q i e'. user_leaf (vm_mem r) dst q i e' \<Longrightarrow> (q, i) \<in> P
        \<and> (\<exists>e. user_leaf (vm_mem s) src q i e \<and> page_copy (vm_mem s) (vm_mem r) e e')"
    and I3: "\<And>q i e. user_leaf (vm_mem s) src q i e \<Longrightarrow> (q, i) \<in> P \<Longrightarrow> \<exists>e'. user_leaf (vm_mem r) dst q i e'"
    and I4: "card (free_set (vm_pmm s)) \<le> card (free_set (vm_pmm r)) + 1 + 4 * card (P \<inter> ?M)"
    using I unfolding cloned_def by blast+
  have mem: "(q, l) \<in> ?M" using e by (auto simp: user_pages_def)
  have "insert (q, l) (P \<inter> ?M) \<subseteq> ?M" using mem by blast
  from card_mono [OF finite_user_pages this] have le: "card (P \<inter> ?M) + 1 \<le> card ?M"
    using fresh finite_user_pages [of "vm_mem s" src] by simp
  have "1 + 4 * card ?M \<le> card (free_set (vm_pmm s))" using c by (simp add: clonable_def)
  then have c4: "4 \<le> card (free_set (vm_pmm r))" using I4 le by linarith
  then have "free_set (vm_pmm r) \<noteq> {}" by auto
  then obtain f where f: "pmm_alloc_frame (vm_pmm r) = (frame_addr f, take_frame f (vm_pmm r))"
    "f \<in> free_set (vm_pmm r)" "f < 2 ^ 52"
    using alloc_frame_cases [OF builtD(2) [OF b]] by metis
  have al: "page_aligned (frame_addr f)" "page_of (frame_addr f) = f"
    by (rule page_aligned_frame [OF f(3)], rule page_of_frame [OF f(3)])
  have nf: "page_of e \<notin> free_set (vm_pmm s)" using c e by (auto simp: clonable_def)
  then have df: "f \<noteq> page_of e" using f(2) builtD(8) [OF b] by auto
  let ?m = "copy_page (frame_addr f) (target e) (vm_mem r)"
  have cp: "?m (frame_addr f + of_nat k) = vm_mem r (target e + of_nat k)" if "k < 4096" for k
    by (rule copy_page_spec(1)) (use that al df in \<open>simp_all add: page_of_target\<close>)
  have co: "\<forall>x. page_of x \<noteq> f \<longrightarrow> ?m x = vm_mem r x"
  proof (intro allI impI)
    fix x assume "page_of x \<noteq> f"
    then show "?m x = vm_mem r x"
      by (intro copy_page_spec(2)) (use al df in \<open>simp_all add: page_of_target\<close>)
  qed
  have un: "leaf (vm_mem r) dst (page_path ?v) (pt_index ?v) = None"
  proof (rule ccontr)
    assume "leaf (vm_mem r) dst (page_path ?v) (pt_index ?v) \<noteq> None"
    then obtain e' where "user_leaf (vm_mem r) dst q l e'"
      using upath_page [of ?v] i0 lt by (auto simp: user_leaf_def ix q)
    then show False using I2 fresh by blast
  qed
  have fl: "e AND 0xFFF < 0x1000"
    using word_and_le1 [of e "0xFFF"] by (simp add: word_less_nat_alt word_le_nat_alt)
  let ?r = "clone_page dst ?v e r" and ?e' = "frame_addr f OR (e AND 0xFFF) OR PAGE_PRESENT"
  have r': "?r = vmm_map_page_in dst ?v (frame_addr f) (e AND 0xFFF)
      (r\<lparr>vm_pmm := take_frame f (vm_pmm r), vm_mem := ?m\<rparr>)"
    by (simp add: clone_page_def f(1) target_def)
  note bm = built_map [OF b _ un c4 fl f(1,2) co r', unfolded ix, OF i0, folded q]
  have low: "?e' AND 0xFFF = e AND 0xFFF"
  proof -
    have m12: "(0xFFF :: u64) = mask 12" by (simp add: mask_eq_exp_minus_1)
    show ?thesis unfolding m12 using pe al(1)
      by (intro bit_word_eqI) (auto simp: bit_simps bit_numeral_flags aligned_low_bits present_bit)
  qed
  have te': "target ?e' = frame_addr f"
    using bm(6) page_of_inj [of "target ?e'" "frame_addr f"] al by (simp add: page_of_target)
  have src_bytes: "vm_mem r (target e + of_nat k) = vm_mem s (target e + of_nat k)" if "k < 4096" for k
    by (rule builtD(10) [OF b])
      (use nf unat_in_page(2) [OF page_aligned_target that] in \<open>simp add: page_of_target\<close>)
  have new: "page_copy (vm_mem s) (vm_mem ?r) e ?e'"
    unfolding page_copy_def te'
  proof (intro conjI allI impI)
    fix k :: nat assume k: "k < 4096"
    have "vm_mem ?r (frame_addr f + of_nat k) = ?m (frame_addr f + of_nat k)"
      by (rule bm(4), rule trans [OF unat_in_page(2) [OF al(1) k] al(2)])
    then show "vm_mem ?r (frame_addr f + of_nat k) = vm_mem s (target e + of_nat k)"
      by (simp only: cp [OF k] src_bytes [OF k])
  qed (rule low)
  show ?thesis
    unfolding cloned_def
  proof (intro conjI allI impI)
    show "built s ?r dst" by (rule bm(1))
    fix p n d' assume d': "user_leaf (vm_mem ?r) dst p n d'"
    show "(p, n) \<in> P \<union> {(q, l)}"
      using d' I2 unfolding bm(2) by (auto split: if_splits)
    show "\<exists>d. user_leaf (vm_mem s) src p n d \<and> page_copy (vm_mem s) (vm_mem ?r) d d'"
    proof (cases "p = q \<and> n = l")
      case True
      then have "d' = ?e'" using d' unfolding bm(2) by simp
      then show ?thesis using True e new by blast
    next
      case False
      then have o: "user_leaf (vm_mem r) dst p n d'" using d' unfolding bm(2) by (simp only: if_False)
      then obtain d where d: "user_leaf (vm_mem s) src p n d" "page_copy (vm_mem s) (vm_mem r) d d'"
        using I2 by blast
      have "vm_mem ?r (target d' + of_nat k) = vm_mem r (target d' + of_nat k)" if "k < 4096" for k
        by (rule bm(5) [OF o]) (use unat_in_page(2) [OF page_aligned_target that] in \<open>simp add: page_of_target\<close>)
      then have "page_copy (vm_mem s) (vm_mem ?r) d d'" using d(2) by (simp add: page_copy_def)
      then show ?thesis using d(1) by blast
    qed
  next
    fix p n d assume d: "user_leaf (vm_mem s) src p n d" "(p, n) \<in> P \<union> {(q, l)}"
    show "\<exists>d'. user_leaf (vm_mem ?r) dst p n d'"
      using d I3 [OF d(1)] unfolding bm(2) by auto
  next
    have "(P \<union> {(q, l)}) \<inter> ?M = insert (q, l) (P \<inter> ?M)" using mem by blast
    then have "card ((P \<union> {(q, l)}) \<inter> ?M) = card (P \<inter> ?M) + 1"
      using fresh finite_user_pages [of "vm_mem s" src] by simp
    then show "card (free_set (vm_pmm s))
        \<le> card (free_set (vm_pmm ?r)) + 1 + 4 * card ((P \<union> {(q, l)}) \<inter> ?M)"
      using I4 bm(3) by linarith
  qed
qed

lemma cloned_skip:
  assumes "cloned s src dst r P" and "X \<inter> user_pages (vm_mem s) src = {}"
  shows "cloned s src dst r (P \<union> X)"
proof -
  have "(P \<union> X) \<inter> user_pages (vm_mem s) src = P \<inter> user_pages (vm_mem s) src" using assms(2) by blast
  moreover have "(q, i) \<notin> X" if "user_leaf (vm_mem s) src q i e" for q i e
    using that assms(2) by (auto simp: user_pages_def)
  ultimately show ?thesis using assms(1) unfolding cloned_def by auto
qed

text \<open>The source's tables are not written while it is copied.\<close>

lemma cloned_src_ent:
  assumes "clonable s src" and "cloned s src dst r P" and "vpath q" and "tbl (vm_mem s) src q = Some t"
    and "i < 512"
  shows "ent (vm_mem r) t i = ent (vm_mem s) t i"
proof -
  have ok: "tree_ok s src" and b: "built s r dst" using assms(1,2) by (simp_all add: clonable_def cloned_def)
  show ?thesis
    by (rule ent_cong [OF tree_okD(1) [OF ok assms(3,4)] assms(5)])
      (use builtD(10) [OF b] tree_okD(3) [OF ok assms(3,4)] in simp)
qed

definition under :: "nat list \<Rightarrow> (nat list \<times> nat) set" where
  "under q = {(q @ p, l) |p l. length (q @ p) = 3 \<and> (\<forall>x \<in> set p. x < 512) \<and> l < 512}"

lemma under_split: "length q < 3 \<Longrightarrow> under q = (\<Union>k \<in> set [0..<512]. under (q @ [k]))"
proof (intro set_eqI iffI)
  fix x assume len: "length q < 3" and "x \<in> under q"
  then obtain p l where x: "x = (q @ p, l)" "length (q @ p) = 3" "\<forall>x \<in> set p. x < 512" "l < 512"
    by (auto simp: under_def)
  then obtain k p' where p: "p = k # p'" using len by (cases p) auto
  then have "x \<in> under (q @ [k])" using x by (auto simp: under_def)
  moreover have "k \<in> set [0..<512]" using x p by simp
  ultimately show "x \<in> (\<Union>k \<in> set [0..<512]. under (q @ [k]))" by blast
next
  fix x assume "x \<in> (\<Union>k \<in> set [0..<512]. under (q @ [k]))"
  then obtain k p l where "k < 512" "x = (q @ k # p, l)" "length (q @ k # p) = 3"
    "\<forall>x \<in> set p. x < 512" "l < 512"
    by (auto simp: under_def)
  then show "x \<in> under q" unfolding under_def by (intro CollectI exI [of _ "k # p"]) auto
qed

lemma under_disjoint: "k \<noteq> k' \<Longrightarrow> under (q @ [k]) \<inter> under (q @ [k']) = {}"
  by (auto simp: under_def)

lemma tbl_none_append: "tbl m r q = None \<Longrightarrow> tbl m r (q @ p) = None"
  by (induction p rule: rev_induct) (simp_all add: tbl_snoc flip: append_assoc)

lemma under_unmapped:
  assumes "tbl (vm_mem s) src q = None"
  shows "under q \<inter> user_pages (vm_mem s) src = {}"
  using tbl_none_append [OF assms] by (auto simp: under_def user_pages_def user_leaf_def leaf_def)

lemma clone_level:
  assumes c: "clonable s src" and I: "cloned s src dst r P" and dis: "P \<inter> under q = {}"
    and q: "vpath q" "length q < 3" "tbl (vm_mem s) src q = Some t"
    and G: "\<And>k r P. k < 512 \<Longrightarrow> is_table (ent (vm_mem s) t k) \<Longrightarrow> cloned s src dst r P \<Longrightarrow>
      P \<inter> under (q @ [k]) = {} \<Longrightarrow>
      cloned s src dst (G (target (ent (vm_mem s) t k)) k r) (P \<union> under (q @ [k]))"
  shows "cloned s src dst (fold (\<lambda>k s. let e = ent (vm_mem s) t k
             in if e AND PAGE_PRESENT = 0 \<or> e AND HUGE_PAGE \<noteq> 0 then s
                else G (e AND ADDR_MASK) k s) [0..<512] r) (P \<union> under q)"
  unfolding under_split [OF q(2)]
proof (rule fold_cover [where I = "cloned s src dst"])
  fix k r P assume k: "k \<in> set [0..<512]" and I: "cloned s src dst r P" and d: "P \<inter> under (q @ [k]) = {}"
  then have lt: "k < 512" by simp
  note e = cloned_src_ent [OF c I q(1,3) lt]
  show "cloned s src dst (let e = ent (vm_mem r) t k
             in if e AND PAGE_PRESENT = 0 \<or> e AND HUGE_PAGE \<noteq> 0 then r
                else G (e AND ADDR_MASK) k r) (P \<union> under (q @ [k]))"
  proof (cases "is_table (ent (vm_mem s) t k)")
    case True
    then show ?thesis
      using G [OF lt True I d] by (simp add: e Let_def is_table_def present_def huge_def target_def)
  next
    case False
    then have "tbl (vm_mem s) src (q @ [k]) = None" using q(3) by (simp add: tbl_snoc child_def)
    then have "cloned s src dst r (P \<union> under (q @ [k]))"
      by (intro cloned_skip [OF I] under_unmapped)
    then show ?thesis using False by (auto simp: e Let_def is_table_def present_def huge_def)
  qed
next
  show "P \<inter> under (q @ [k]) = {}" if "k \<in> set [0..<512]" for k
    using dis that unfolding under_split [OF q(2)] by blast
  show "under (q @ [i]) \<inter> under (q @ [j]) = {}" if "i \<noteq> j" for i j
    by (rule under_disjoint [OF that])
qed (use I in auto)

lemma clone_pt_step:
  assumes c: "clonable s src" and I: "cloned s src dst r P" and dis: "P \<inter> under [i, j, k] = {}"
    and q: "upath [i, j, k]" "tbl (vm_mem s) src [i, j, k] = Some t"
  shows "cloned s src dst (clone_pt dst t i j k r) (P \<union> under [i, j, k])"
proof -
  let ?q = "[i, j, k]"
  have u: "under ?q = (\<Union>l \<in> set [0..<512]. {(?q, l)})" by (auto simp: under_def)
  show ?thesis
    unfolding u clone_pt_def
  proof (rule fold_cover [where I = "cloned s src dst"])
    fix l r P assume l: "l \<in> set [0..<512]" and I: "cloned s src dst r P" and d: "P \<inter> {(?q, l)} = {}"
    then have lt: "l < 512" by simp
    note e = cloned_src_ent [OF c I upath_vpath [OF q(1)] q(2) lt]
    show "cloned s src dst (let e = ent (vm_mem r) t l in if e AND PAGE_PRESENT = 0 then r
        else clone_page dst (page_vaddr i j k l) e r) (P \<union> {(?q, l)})"
    proof (cases "present (ent (vm_mem s) t l)")
      case True
      then have "user_leaf (vm_mem s) src ?q l (ent (vm_mem s) t l)"
        using q lt by (simp add: user_leaf_def leaf_def del: tbl.simps)
      from clone_page_step [OF c I this _ refl] d show ?thesis
        using True by (simp add: e Let_def present_def)
    next
      case False
      then have "{(?q, l)} \<inter> user_pages (vm_mem s) src = {}"
        using q(2) by (auto simp: user_pages_def user_leaf_def leaf_def simp del: tbl.simps)
      from cloned_skip [OF I this] show ?thesis using False by (simp add: e Let_def present_def)
    qed
  qed (use I dis u in auto)
qed

lemma clone_pd_step:
  assumes "clonable s src" and "cloned s src dst r P" and "P \<inter> under [i, j] = {}"
    and q: "upath [i, j]" "tbl (vm_mem s) src [i, j] = Some t"
  shows "cloned s src dst (clone_pd dst t i j r) (P \<union> under [i, j])"
  unfolding clone_pd_def
proof (rule clone_level [where G = "\<lambda>t k. clone_pt dst t i j k", OF assms(1-3)])
  fix k r P assume k: "k < 512" "is_table (ent (vm_mem s) t k)" "cloned s src dst r P"
    "P \<inter> under ([i, j] @ [k]) = {}"
  have "tbl (vm_mem s) src ([i, j] @ [k]) = Some (target (ent (vm_mem s) t k))"
    using tbl_snoc_some [OF q(2)] k(2) by (simp add: child_def del: tbl.simps)
  moreover have "upath [i, j, k]" using q(1) k(1) by (simp add: upath_Cons)
  ultimately show "cloned s src dst (clone_pt dst (target (ent (vm_mem s) t k)) i j k r) (P \<union> under ([i, j] @ [k]))"
    using clone_pt_step [OF assms(1) k(3)] k(4) by (simp del: tbl.simps)
qed (use q upath_vpath in auto)

lemma clone_pdpt_step:
  assumes "clonable s src" and "cloned s src dst r P" and "P \<inter> under [i] = {}"
    and q: "upath [i]" "tbl (vm_mem s) src [i] = Some t"
  shows "cloned s src dst (clone_pdpt dst t i r) (P \<union> under [i])"
  unfolding clone_pdpt_def
proof (rule clone_level [where G = "\<lambda>t j. clone_pd dst t i j", OF assms(1-3)])
  fix j r P assume j: "j < 512" "is_table (ent (vm_mem s) t j)" "cloned s src dst r P"
    "P \<inter> under ([i] @ [j]) = {}"
  have "tbl (vm_mem s) src ([i] @ [j]) = Some (target (ent (vm_mem s) t j))"
    using tbl_snoc_some [OF q(2)] j(2) by (simp add: child_def del: tbl.simps)
  moreover have "upath [i, j]" using q(1) j(1) by (simp add: upath_Cons)
  ultimately show "cloned s src dst (clone_pd dst (target (ent (vm_mem s) t j)) i j r) (P \<union> under ([i] @ [j]))"
    using clone_pd_step [OF assms(1) j(3)] j(4) by (simp del: tbl.simps)
qed (use q upath_vpath in auto)

lemma clone_cloned:
  assumes k: "tree_ok s (kernel_pml4 s)" and c: "clonable s src"
    and run: "vmm_clone_address_space src s = (dst, s')"
  shows "cloned s src dst s' UNIV"
proof -
  have pool: "pool_inv (vm_pmm s)" and ok: "tree_ok s src" and uc: "user_clear (vm_mem s) src"
    and enough: "1 + 4 * card (user_pages (vm_mem s) src) \<le> card (free_set (vm_pmm s))"
    using c by (simp_all add: clonable_def)
  have ne: "free_set (vm_pmm s) \<noteq> {}" using enough by auto
  obtain s0 where cr: "vmm_create_address_space s = (dst, s0)"
    and s': "s' = fold (\<lambda>i s. let e = ent (vm_mem s) src i
                  in if e AND PAGE_PRESENT = 0 then s else clone_pdpt dst (e AND ADDR_MASK) i s) [1..<512] s0"
    using run by (auto simp: vmm_clone_address_space_def split: prod.splits)
  note b = tree_ok_create [OF k pool ne cr]
  have I0: "cloned s src dst s0 {}"
    unfolding cloned_def using b by simp
  have "cloned s src dst s' ({} \<union> (\<Union>i \<in> set [1..<512]. under [i]))"
    unfolding s'
  proof (rule fold_cover [where I = "cloned s src dst"])
    fix i r P assume i: "i \<in> set [1..<512]" and I: "cloned s src dst r P" and d: "P \<inter> under [i] = {}"
    then have lt: "0 < i" "i < 512" by simp_all
    note e = cloned_src_ent [OF c I vpath_Nil tbl.simps(1) lt(2)]
    have up: "upath ([] @ [i])" using lt by (simp add: upath_Cons)
    have tb: "is_table (ent (vm_mem s) src i) \<longleftrightarrow> present (ent (vm_mem s) src i)"
      using uc up unfolding user_clear_def is_table_def by (metis tbl.simps(1))
    show "cloned s src dst (let e = ent (vm_mem r) src i in if e AND PAGE_PRESENT = 0 then r
        else clone_pdpt dst (e AND ADDR_MASK) i r) (P \<union> under [i])"
    proof (cases "present (ent (vm_mem s) src i)")
      case True
      then have "tbl (vm_mem s) src [i] = Some (target (ent (vm_mem s) src i))"
        using tb by (simp add: child_def)
      from clone_pdpt_step [OF c I d _ this] up show ?thesis
        using True by (simp add: e Let_def present_def target_def)
    next
      case False
      then have "tbl (vm_mem s) src [i] = None" using tb by (simp add: child_def)
      then have "cloned s src dst r (P \<union> under [i])" by (intro cloned_skip [OF I] under_unmapped)
      then show ?thesis using False by (simp add: e Let_def present_def)
    qed
  qed (use I0 in \<open>auto simp: under_def\<close>)
  moreover have "(UNIV - (\<Union>i \<in> set [1..<512]. under [i])) \<inter> user_pages (vm_mem s) src = {}"
  proof (rule equals0I)
    fix x assume x: "x \<in> (UNIV - (\<Union>i \<in> set [1..<512]. under [i])) \<inter> user_pages (vm_mem s) src"
    then obtain q l e where ql: "x = (q, l)" "user_leaf (vm_mem s) src q l e" by (auto simp: user_pages_def)
    then obtain i p where q: "q = i # p" by (cases q) (auto simp: user_leaf_def upath_def)
    with ql have "x \<in> under [i]" "i \<in> set [1..<512]"
      by (auto simp: user_leaf_def upath_Cons under_def)
    with x show False by blast
  qed
  ultimately have "cloned s src dst s' ((\<Union>i \<in> set [1..<512]. under [i]) \<union> (UNIV - (\<Union>i \<in> set [1..<512]. under [i])))"
    by (intro cloned_skip) simp_all
  then show ?thesis by simp
qed

end
