(* ===== verification/Vmm_Props.thy ===== *)
theory Vmm_Props
  imports Vmm_Clone
begin

text \<open>
  What the page-table code guarantees, and a small space on which to see it.
\<close>

section \<open>Properties\<close>

text \<open>
  C13. Mapping a page is an update of the translation the processor performs: after
  \<^verbatim>\<open>vmm_map_page_in\<close> the addresses of that page, and no others, translate into the given frame. Only
  the way to the page must be free of large pages and three frames free for missing tables;
  the tables stay a tree in used frames, and no byte outside the tables on the way and the
  frames that were free changes.
\<close>

theorem map_page_updates_translation:
  assumes "tree_ok s root" and "pool_inv (vm_pmm s)" and "path_clear (vm_mem s) root v"
    and "3 \<le> card (free_set (vm_pmm s))" and "flags < 0x1000"
    and "s' = vmm_map_page_in root v phys flags s"
  shows "tree_ok s' root \<and> pool_inv (vm_pmm s')
    \<and> (\<forall>w. translate (vm_mem s') root w
          = (if same_page v w then Some (target phys OR (w AND mask 12))
             else translate (vm_mem s) root w))
    \<and> (\<forall>x. vm_mem s' x \<noteq> vm_mem s x \<longrightarrow> page_of x \<in> free_set (vm_pmm s)
          \<or> (\<exists>q t. prefix q (page_path v) \<and> tbl (vm_mem s') root q = Some t \<and> page_of x = page_of t))"
proof -
  let ?e = "target phys OR flags OR PAGE_PRESENT"
  have m: "maps root v ?e s s'"
    using map_in_maps [OF assms(1-4), of phys flags]
    by (simp add: assms(6) vmm_map_page_in_def target_def)
  note e = map_entry(1) [OF assms(5), of phys] and t = map_entry(2) [OF assms(5), of phys]
  note M = mapsD [OF m e]
  show ?thesis
    using M(1,2,7,13) vpath_prefix [OF vpath_page [of v]] maps_translate [OF m e assms(3)] unfolding t by blast
qed

text \<open>
  C14. Tearing down a space that was built from free frames gives back exactly the frames that
  building it took, tables and pages alike: the free frames are what they were before the space
  was created, and no byte of memory and no other frame is touched.
\<close>

theorem destroy_gives_everything_back:
  assumes "tree_ok s0 (kernel_pml4 s0)" and "pool_inv (vm_pmm s0)" and "built s0 s root"
    and "s' = vmm_destroy_address_space root s"
  shows "free_set (vm_pmm s') = free_set (vm_pmm s0) \<and> pool_inv (vm_pmm s') \<and> vm_mem s' = vm_mem s
    \<and> pmm_free_frame_count (vm_pmm s') = pmm_free_frame_count (vm_pmm s0)"
proof -
  note F = freed_mem [OF destroy_built(1) [OF assms(1-3)], folded assms(4)]
  have fs: "free_set (vm_pmm s') = free_set (vm_pmm s0)"
    using destroy_built(2) [OF assms(1-3)] by (simp add: assms(4))
  then have "unat (pmm_free_frame_count (vm_pmm s')) = unat (pmm_free_frame_count (vm_pmm s0))"
    using F assms(2) by (simp add: free_frame_count pool_inv_def)
  then show ?thesis using fs F by (simp add: unat_eq_iff)
qed

lemma or_offset: "page_aligned a \<Longrightarrow> a OR (v AND mask 12) = a + of_nat (unat v mod 4096)"
proof -
  assume a: "page_aligned a"
  have "a AND (v AND mask 12) = 0"
    by (rule bit_word_eqI) (use a in \<open>auto simp: bit_simps aligned_low_bits\<close>)
  then have "a OR (v AND mask 12) = a + (v AND mask 12)" by (simp add: disjunctive_add_eq_or)
  moreover have "v AND mask 12 = of_nat (unat v mod 4096)"
  proof -
    have "unat (v AND mask 12) = unat v mod 4096"
      by (simp only: flip: take_bit_eq_mask)
        (simp only: unsigned_take_bit_eq, simp add: take_bit_eq_mod)
    then show ?thesis by (simp add: unat_eq_iff unat_of_nat_u64)
  qed
  ultimately show ?thesis by simp
qed

lemma user_translate:
  assumes "user_clear m root" and "pml4_index v \<noteq> 0"
  shows "translate m root v
    = map_option (\<lambda>e. target e + of_nat (unat v mod 4096)) (leaf m root (page_path v) (pt_index v))"
proof -
  have "\<not> large_hit m root v q i t" for q i t
    by (rule path_clear_no_hit [OF user_path_clear [OF assms] refl])
  then have "translate m root v = Some a \<longleftrightarrow>
      map_option (\<lambda>e. target e + of_nat (unat v mod 4096)) (leaf m root (page_path v) (pt_index v)) = Some a" for a
    unfolding translate_iff by (auto simp: or_offset)
  then show ?thesis by (metis option.exhaust)
qed

lemma translate_frame:
  assumes ok: "tree_ok s root" and out: "\<And>x. page_of x \<notin> free_set (vm_pmm s) \<Longrightarrow> m' x = vm_mem s x"
  shows "translate m' root v = translate (vm_mem s) root v"
proof -
  have same: "m' x = vm_mem s x" if "vpath q" "tbl (vm_mem s) root q = Some t" "page_of x = page_of t" for q t x
    by (rule out) (use tree_okD(3) [OF ok that(1,2)] that(3) in simp)
  have t: "tbl m' root q = tbl (vm_mem s) root q" if "vpath q" for q
    by (rule tree_frame(1) [OF ok], erule (2) same, rule that)
  have e: "ent m' t i = ent (vm_mem s) t i" if "vpath q" "tbl (vm_mem s) root q = Some t" "i < 512" for q t i
    by (rule tree_frame(2) [OF ok], erule (2) same, rule that(1), rule that(2), rule that(3))
  have l: "leaf m' root (page_path v) (pt_index v) = leaf (vm_mem s) root (page_path v) (pt_index v)"
    by (rule tree_frame(3) [OF ok], erule (2) same, rule vpath_page, rule index_lt)
  have h: "large_hit m' root v q i t \<longleftrightarrow> large_hit (vm_mem s) root v q i t"
    "large_hit (vm_mem s) root v q i t \<Longrightarrow> ent m' t i = ent (vm_mem s) t i" for q i t
  proof -
    have *: "vpath q \<and> i < 512" if "prefix (q @ [i]) (page_path v)"
      using vpath_prefix [OF vpath_page that] by (simp add: vpath_snoc)
    show "large_hit (vm_mem s) root v q i t \<Longrightarrow> ent m' t i = ent (vm_mem s) t i"
      using * e unfolding large_hit_def by blast
    show "large_hit m' root v q i t \<longleftrightarrow> large_hit (vm_mem s) root v q i t"
      using * t e unfolding large_hit_def by metis
  qed
  have "translate m' root v = Some a \<longleftrightarrow> translate (vm_mem s) root v = Some a" for a
    unfolding translate_iff l using h by metis
  then show ?thesis by (metis option.exhaust)
qed

lemma cloned_translate:
  assumes c: "clonable s src" and I: "cloned s src dst s' UNIV" and v: "pml4_index v \<noteq> 0"
  shows "rel_option (\<lambda>a a'. vm_mem s' a' = vm_mem s a
              \<and> page_of a' \<in> free_set (vm_pmm s) \<and> page_of a \<notin> free_set (vm_pmm s))
            (translate (vm_mem s) src v) (translate (vm_mem s') dst v)"
proof -
  have b: "built s s' dst"
    and I2: "\<And>q i e'. user_leaf (vm_mem s') dst q i e' \<Longrightarrow>
        \<exists>e. user_leaf (vm_mem s) src q i e \<and> page_copy (vm_mem s) (vm_mem s') e e'"
    and I3: "\<And>q i e. user_leaf (vm_mem s) src q i e \<Longrightarrow> \<exists>e'. user_leaf (vm_mem s') dst q i e'"
    using I unfolding cloned_def by blast+
  note B = builtD [OF b]
  have c: "user_clear (vm_mem s) src"
    and cl: "\<And>q i e. user_leaf (vm_mem s) src q i e \<Longrightarrow> page_of e \<notin> free_set (vm_pmm s)"
    using c by (auto simp: clonable_def)
  let ?q = "page_path v" and ?i = "pt_index v" and ?k = "unat v mod 4096"
  have ul: "user_leaf m root ?q ?i e \<longleftrightarrow> leaf m root ?q ?i = Some e" for m root e
    using upath_page [OF v] index_lt by (simp add: user_leaf_def)
  have pg: "page_of (target e + of_nat ?k) = page_of e" for e
    using unat_in_page(2) [OF page_aligned_target, of ?k] by (simp add: page_of_target)
  show ?thesis
  proof (cases "leaf (vm_mem s') dst ?q ?i")
    case None
    then have "leaf (vm_mem s) src ?q ?i = None"
      using I3 [of ?q ?i] by (cases "leaf (vm_mem s) src ?q ?i") (auto simp: ul)
    then show ?thesis using None by (simp add: user_translate [OF _ v] c B(3))
  next
    case (Some e')
    then obtain e where e: "user_leaf (vm_mem s) src ?q ?i e" "page_copy (vm_mem s) (vm_mem s') e e'"
      using I2 [of ?q ?i e'] by (auto simp: ul)
    have "user_leaf (vm_mem s') dst ?q ?i e'" using Some by (simp add: ul)
    then have "page_of e' \<in> owned (vm_mem s') dst" unfolding owned_def by blast
    then have "page_of e' \<in> free_set (vm_pmm s)" using B(9) by blast
    moreover have "page_of e \<notin> free_set (vm_pmm s)" by (rule cl [OF e(1)])
    moreover have "vm_mem s' (target e' + of_nat ?k) = vm_mem s (target e + of_nat ?k)"
      using e(2) unfolding page_copy_def by simp
    ultimately show ?thesis
      using Some e(1) by (simp add: user_translate [OF _ v] c B(3) ul pg)
  qed
qed

text \<open>
  C1. A forked space is an independent copy: for every user address the child sees the parent's
  byte or, like the parent, nothing; the bytes live in frames that were free, so later stores of
  one are invisible to the other; the parent's translation is what it was and no frame in use
  has changed a byte. Tearing the copy down gives every frame back.
\<close>

theorem clone_is_independent_copy:
  assumes "tree_ok s (kernel_pml4 s)" and "clonable s src"
    and "vmm_clone_address_space src s = (dst, s')"
  shows "(\<forall>v. pml4_index v \<noteq> 0 \<longrightarrow> rel_option (\<lambda>a a'. vm_mem s' a' = vm_mem s a
              \<and> page_of a' \<in> free_set (vm_pmm s) \<and> page_of a \<notin> free_set (vm_pmm s))
            (translate (vm_mem s) src v) (translate (vm_mem s') dst v))
    \<and> (\<forall>v. translate (vm_mem s') src v = translate (vm_mem s) src v)
    \<and> (\<forall>x. page_of x \<notin> free_set (vm_pmm s) \<longrightarrow> vm_mem s' x = vm_mem s x)
    \<and> free_set (vm_pmm (vmm_destroy_address_space dst s')) = free_set (vm_pmm s)"
proof -
  have I: "cloned s src dst s' UNIV" by (rule clone_cloned [OF assms])
  then have b: "built s s' dst" unfolding cloned_def by blast
  note B = builtD [OF b]
  have c: "tree_ok s src" "pool_inv (vm_pmm s)"
    using assms(2) by (auto simp: clonable_def)
  note cloned_translate [OF assms(2) I]
  moreover have "translate (vm_mem s') src v = translate (vm_mem s) src v" for v
    by (rule translate_frame [OF c(1)]) (rule B(10))
  moreover have "free_set (vm_pmm (vmm_destroy_address_space dst s')) = free_set (vm_pmm s)"
    by (rule destroy_built(2) [OF assms(1) c(2) b])
  ultimately show ?thesis using B(10) by blast
qed

lemma kernel_out_of_range:
  assumes "unat v < 2 ^ 48" and "2 ^ 30 \<le> unat v"
  shows "pml4_index v \<noteq> 0 \<or> pdpt_index v \<noteq> 0"
proof (rule ccontr)
  assume "\<not> ?thesis"
  then have z: "unat v div 2 ^ 39 mod 512 = 0" "unat v div 2 ^ 30 mod 512 = 0" by (simp_all add: unat_index)
  have "unat v div 2 ^ 39 < 512" using assms(1) by (simp add: div_less_iff_less_mult)
  then have "unat v div 2 ^ 39 = 0" using z(1) by simp
  then have "unat v < 2 ^ 39" by simp
  then have "unat v div 2 ^ 30 < 512" by (simp add: div_less_iff_less_mult)
  then have "unat v div 2 ^ 30 = 0" using z(2) by simp
  then show False using assms(2) by simp
qed

text \<open>
  With three free frames \<^verbatim>\<open>vmm_init\<close> leaves a kernel space that maps the first GiB to itself
  and nothing else of the lower half, and activates it.
\<close>

lemma kernel_space_is_identity:
  assumes "pool_inv (vm_pmm s)" and "3 \<le> card (free_set (vm_pmm s))" and "s' = vmm_init s"
  shows "tree_ok s' (kernel_pml4 s') \<and> pool_inv (vm_pmm s') \<and> vm_cr3 s' = kernel_pml4 s'
    \<and> (\<forall>v. unat v < 2 ^ 48 \<longrightarrow> translate (vm_mem s') (vm_cr3 s') v
          = (if unat v < 2 ^ 30 then Some v else None))"
proof -
  have "pool_inv (vm_pmm s')" "vm_cr3 s' = kernel_pml4 s'"
    by (rule vmm_init_shape [OF assms(1,2)]; simp add: assms(3))+
  then show ?thesis
    using kernel_tree(1,3,4) [OF assms(1,2)] kernel_out_of_range by (auto simp: assms(3))
qed

section \<open>Witnesses\<close>

definition boot_vmm :: vmm where
  "boot_vmm = \<lparr>vm_mem = (\<lambda>_. 0),
     vm_pmm = \<lparr>bitmap = (\<lambda>i. if i = 0 then 1 else 0), total_frames = 4096, used_frames = 1\<rparr>,
     kernel_pml4 = 0, vm_cr3 = 0\<rparr>"

lemma boot_vmm_free: "free_set (vm_pmm boot_vmm) = {1..<4096}" and boot_vmm_pool: "pool_inv (vm_pmm boot_vmm)"
proof -
  have used: "frame_used (vm_pmm boot_vmm) f \<longleftrightarrow> f = 0" for f
  proof -
    have "frame_used (vm_pmm boot_vmm) f \<longleftrightarrow> f div 8 = 0 \<and> f mod 8 = 0"
      by (simp only: boot_vmm_def bitmap_test_bit vmm.select_convs pmm.select_convs) (cases "f div 8 = 0"; simp only: if_True if_False bit_1_iff bit_0_eq bot_apply bot_bool_def refl simp_thms)
    also have "\<dots> \<longleftrightarrow> f = 0" by presburger
    finally show ?thesis .
  qed
  have n: "nframes (vm_pmm boot_vmm) = 4096" "unat (used_frames (vm_pmm boot_vmm)) = 1"
    by (simp_all add: boot_vmm_def)
  show f: "free_set (vm_pmm boot_vmm) = {1..<4096}"
    by (auto simp: free_set_def used n)
  have "used_set (vm_pmm boot_vmm) = {0}" by (auto simp: used_set_def used n)
  then show "pool_inv (vm_pmm boot_vmm)"
    using f by (simp add: pool_inv_def pmm_inv_def n)
qed

lemma kernel_space_is_identity_witness:
  "\<exists>s'. s' = vmm_init boot_vmm \<and> translate (vm_mem s') (vm_cr3 s') 0x123456 = Some 0x123456
     \<and> translate (vm_mem s') (vm_cr3 s') 0x40000000 = None"
proof -
  have "3 \<le> card (free_set (vm_pmm boot_vmm))" by (simp add: boot_vmm_free)
  note k = kernel_space_is_identity [OF boot_vmm_pool this refl]
  then have tr: "\<And>v. unat v < 2 ^ 48 \<Longrightarrow> translate (vm_mem (vmm_init boot_vmm)) (vm_cr3 (vmm_init boot_vmm)) v
      = (if unat v < 2 ^ 30 then Some v else None)"
    by blast
  from tr [of "0x123456"] tr [of "0x40000000"] show ?thesis by simp
qed

text \<open>A kernel space, a process space, one page of it at \<^verbatim>\<open>PML4[1]\<close>.\<close>

definition demo_kernel :: vmm where
  "demo_kernel = vmm_init boot_vmm"

definition demo_root :: u64 where
  "demo_root = fst (vmm_create_address_space demo_kernel)"

definition demo_empty :: vmm where
  "demo_empty = snd (vmm_create_address_space demo_kernel)"

definition demo_page :: u64 where
  "demo_page = 0x8000000000"

definition demo_vm :: vmm where
  "demo_vm = (let (f, p) = pmm_alloc_frame (vm_pmm demo_empty)
     in vmm_map_page_in demo_root demo_page f 7 (demo_empty\<lparr>vm_pmm := p\<rparr>))"

lemma demo_kernel_ok:
  "tree_ok demo_kernel (kernel_pml4 demo_kernel)" "pool_inv (vm_pmm demo_kernel)"
  "card (free_set (vm_pmm demo_kernel)) = 4092"
proof -
  have c: "3 \<le> card (free_set (vm_pmm boot_vmm))" by (simp add: boot_vmm_free)
  show "tree_ok demo_kernel (kernel_pml4 demo_kernel)"
    unfolding demo_kernel_def by (rule kernel_tree(1) [OF boot_vmm_pool c])
  show "pool_inv (vm_pmm demo_kernel)" "card (free_set (vm_pmm demo_kernel)) = 4092"
    by (rule vmm_init_shape [OF boot_vmm_pool c];
        simp add: demo_kernel_def boot_vmm_free free_set_take card_Diff_singleton_if)+
qed

lemma demo_empty_ok: "built demo_kernel demo_empty demo_root"
  "\<not> user_leaf (vm_mem demo_empty) demo_root q i e"
  "card (free_set (vm_pmm demo_empty)) = 4091"
proof -
  have ne: "free_set (vm_pmm demo_kernel) \<noteq> {}" using demo_kernel_ok(3) by auto
  have "vmm_create_address_space demo_kernel = (demo_root, demo_empty)"
    by (simp add: demo_root_def demo_empty_def)
  from tree_ok_create [OF demo_kernel_ok(1,2) ne this] demo_kernel_ok(3)
  show "built demo_kernel demo_empty demo_root" "\<not> user_leaf (vm_mem demo_empty) demo_root q i e"
    "card (free_set (vm_pmm demo_empty)) = 4091"
    by auto
qed

lemma demo_page_index: "pml4_index demo_page = 1" "page_path demo_page = [1, 0, 0]" "pt_index demo_page = 0"
  by (simp_all add: demo_page_def page_path_def unat_index)

lemma demo_vm_ok: "built demo_kernel demo_vm demo_root"
  "\<exists>e. leaf (vm_mem demo_vm) demo_root (page_path demo_page) (pt_index demo_page) = Some e"
  "user_pages (vm_mem demo_vm) demo_root = {([1, 0, 0], 0)}"
  "4087 \<le> card (free_set (vm_pmm demo_vm))"
proof -
  have un: "leaf (vm_mem demo_empty) demo_root (page_path demo_page) (pt_index demo_page) = None"
  proof (rule ccontr)
    assume "leaf (vm_mem demo_empty) demo_root (page_path demo_page) (pt_index demo_page) \<noteq> None"
    then obtain e where "user_leaf (vm_mem demo_empty) demo_root (page_path demo_page) (pt_index demo_page) e"
      using upath_page [of demo_page] index_lt [of demo_page] by (auto simp: user_leaf_def demo_page_index)
    then show False using demo_empty_ok(2) by blast
  qed
  have ne: "free_set (vm_pmm demo_empty) \<noteq> {}" using demo_empty_ok(3) by auto
  obtain f where f: "pmm_alloc_frame (vm_pmm demo_empty) = (frame_addr f, take_frame f (vm_pmm demo_empty))"
    "f \<in> free_set (vm_pmm demo_empty)"
    using alloc_frame_cases [OF builtD(2) [OF demo_empty_ok(1)] ne] by metis
  have r: "demo_vm = vmm_map_page_in demo_root demo_page (frame_addr f) 7
      (demo_empty\<lparr>vm_pmm := take_frame f (vm_pmm demo_empty), vm_mem := vm_mem demo_empty\<rparr>)"
    by (simp add: demo_vm_def f(1))
  have "pml4_index demo_page \<noteq> 0" by (simp add: demo_page_index)
  note bm = built_map [OF demo_empty_ok(1) this un _ _ f _ r]
  show "built demo_kernel demo_vm demo_root" by (rule bm(1)) (simp_all add: demo_empty_ok(3))
  have ul: "user_leaf (vm_mem demo_vm) demo_root q i e \<longleftrightarrow> q = [1, 0, 0] \<and> i = 0
      \<and> e = frame_addr f OR 7 OR PAGE_PRESENT" for q i e
    using demo_empty_ok(2,3) by (subst bm(2)) (simp_all add: demo_page_index)
  then show "user_pages (vm_mem demo_vm) demo_root = {([1, 0, 0], 0)}"
    by (auto simp: user_pages_def)
  show "\<exists>e. leaf (vm_mem demo_vm) demo_root (page_path demo_page) (pt_index demo_page) = Some e"
    using ul [of "[1, 0, 0]" 0] by (auto simp: user_leaf_def demo_page_index)
  have "card (free_set (vm_pmm demo_empty)) \<le> card (free_set (vm_pmm demo_vm)) + 4"
    by (rule bm(3)) (simp_all add: demo_empty_ok(3))
  then show "4087 \<le> card (free_set (vm_pmm demo_vm))" by (simp add: demo_empty_ok(3))
qed

text \<open>A space that was built page by page can be copied.\<close>

lemma built_clonable:
  assumes "built s0 s root" and "1 + 4 * card (user_pages (vm_mem s) root) \<le> card (free_set (vm_pmm s))"
  shows "clonable s root"
  unfolding clonable_def
proof (intro conjI allI impI)
  fix q i e assume "user_leaf (vm_mem s) root q i e"
  then have "page_of e \<in> owned (vm_mem s) root" unfolding owned_def by blast
  then show "page_of e \<notin> free_set (vm_pmm s)" using builtD(9) [OF assms(1)] by blast
qed (use builtD [OF assms(1)] assms(2) in auto)

lemma built_kernel_ok:
  assumes "built s0 s root" and "tree_ok s0 (kernel_pml4 s0)"
  shows "tree_ok s (kernel_pml4 s)"
proof -
  note B = builtD [OF assms(1)]
  let ?K = "kernel_pml4 s0"
  have same: "vm_mem s x = vm_mem s0 x" if "vpath q" "tbl (vm_mem s0) ?K q = Some t" "page_of x = page_of t" for q t x
    by (rule B(10)) (use tree_okD(3) [OF assms(2) that(1,2)] that(3) in simp)
  have t: "tbl (vm_mem s) ?K q = tbl (vm_mem s0) ?K q" if "vpath q" for q
    by (rule tree_frame(1) [OF assms(2)], erule (2) same, rule that)
  have e: "ent (vm_mem s) t i = ent (vm_mem s0) t i" if "vpath q" "tbl (vm_mem s0) ?K q = Some t" "i < 512" for q t i
    by (rule tree_frame(2) [OF assms(2)], erule (2) same, rule that(1), rule that(2), rule that(3))
  have us: "used_set (vm_pmm s0) \<subseteq> used_set (vm_pmm s)"
    using B(5,8) by (auto simp: used_set_def free_set_def)
  show ?thesis
    unfolding B(4)
  proof (rule tree_okI)
    show "page_aligned t" "page_of t \<in> used_set (vm_pmm s)" if "vpath p" "tbl (vm_mem s) ?K p = Some t" for p t
      using that tree_okD(1,2) [OF assms(2)] us by (auto simp: t)
    show "p = q" if "vpath p" "vpath q" "tbl (vm_mem s) ?K p = Some t" "tbl (vm_mem s) ?K q = Some t" for p q t
      using that tree_okD(4) [OF assms(2) that(1)] by (auto simp: t)
    show "bit (ent (vm_mem s) t i) 1"
      if "vpath (p @ [i])" "tbl (vm_mem s) ?K p = Some t" "is_table (ent (vm_mem s) t i)" for p t i
      using that tree_okD(5) [OF assms(2)] by (auto simp: t e vpath_snoc)
  qed
qed

lemma map_page_updates_translation_witness:
  "\<exists>s'. s' = vmm_map_page_in demo_root demo_page 0x5000 7 demo_empty
     \<and> translate (vm_mem s') demo_root (demo_page + 0x123) = Some 0x5123"
proof -
  note b = demo_empty_ok(1)
  have clear: "path_clear (vm_mem demo_empty) demo_root demo_page"
    by (rule user_path_clear [OF builtD(3) [OF b]]) (simp add: demo_page_index)
  have c: "3 \<le> card (free_set (vm_pmm demo_empty))" by (simp add: demo_empty_ok(3))
  have f: "(7 :: u64) < 0x1000" by (simp add: word_less_nat_alt)
  let ?w = "demo_page + 0x123"
  have "same_page demo_page ?w"
    by (simp add: same_page_def page_path_def unat_index demo_page_def)
  moreover have "target 0x5000 OR (?w AND mask 12) = 0x5123"
    by (simp add: target_def ADDR_MASK_def demo_page_def mask_eq_exp_minus_1)
  ultimately have "translate (vm_mem (vmm_map_page_in demo_root demo_page 0x5000 7 demo_empty)) demo_root ?w
      = Some 0x5123"
    using map_page_updates_translation [OF builtD(1,2) [OF b] clear c f refl, of "0x5000"] by simp
  then show ?thesis by blast
qed

lemma destroy_gives_everything_back_witness:
  "4087 \<le> card (free_set (vm_pmm demo_vm)) \<and> card (free_set (vm_pmm demo_vm)) < 4092
   \<and> card (free_set (vm_pmm (vmm_destroy_address_space demo_root demo_vm))) = 4092"
proof (intro conjI)
  note b = demo_vm_ok(1)
  show "4087 \<le> card (free_set (vm_pmm demo_vm))" by (rule demo_vm_ok(4))
  have "free_set (vm_pmm demo_vm) \<subset> free_set (vm_pmm demo_kernel)"
    using builtD(7-9) [OF b] by (auto simp: owned_def)
  from psubset_card_mono [OF finite_free_set this]
  show "card (free_set (vm_pmm demo_vm)) < 4092" by (simp add: demo_kernel_ok(3))
  from destroy_gives_everything_back [OF demo_kernel_ok(1,2) b refl]
  show "card (free_set (vm_pmm (vmm_destroy_address_space demo_root demo_vm))) = 4092"
    by (simp add: demo_kernel_ok(3))
qed

lemma clone_is_independent_copy_witness:
  "\<exists>dst s' a a'. vmm_clone_address_space demo_root demo_vm = (dst, s')
     \<and> translate (vm_mem demo_vm) demo_root demo_page = Some a
     \<and> translate (vm_mem s') dst demo_page = Some a' \<and> a \<noteq> a' \<and> vm_mem s' a' = vm_mem demo_vm a"
proof -
  note b = demo_vm_ok(1)
  have c: "clonable demo_vm demo_root"
    by (rule built_clonable [OF b]) (use demo_vm_ok(3,4) in simp)
  obtain dst s' where run: "vmm_clone_address_space demo_root demo_vm = (dst, s')" by fastforce
  note cl = clone_is_independent_copy [OF built_kernel_ok [OF b demo_kernel_ok(1)] c run]
  have i: "pml4_index demo_page \<noteq> 0" by (simp add: demo_page_index)
  obtain e where "leaf (vm_mem demo_vm) demo_root (page_path demo_page) (pt_index demo_page) = Some e"
    using demo_vm_ok(2) by blast
  then obtain a where a: "translate (vm_mem demo_vm) demo_root demo_page = Some a"
    using user_translate [OF builtD(3) [OF b] i] by simp
  from cl [THEN conjunct1, rule_format, OF i] obtain a' where
    "translate (vm_mem s') dst demo_page = Some a'" "vm_mem s' a' = vm_mem demo_vm a"
    "page_of a' \<in> free_set (vm_pmm demo_vm)" "page_of a \<notin> free_set (vm_pmm demo_vm)"
    unfolding a option_rel_Some1 by blast
  moreover from this(3,4) have "a \<noteq> a'" by blast
  ultimately show ?thesis using run a by blast
qed

end
