(* ===== verification/Vfs.thy ===== *)
theory Vfs
  imports Munin_Props
begin

text \<open>
  The descriptor layer (kernel/vfs.cpp): the open-file table of the running task over the Munin file
  system. \<open>None\<close> is a null \<^verbatim>\<open>sched_current()\<close>; a table maps the descriptors 3 to 15 to an inode number,
  its type and a cursor. Every operation returns the new file system and the new table.
\<close>

section \<open>State and operations\<close>

record file_desc =
  fd_used :: bool
  fd_inode :: int
  fd_offset :: u32
  fd_type :: u8

type_synonym fd_table = "nat \<Rightarrow> file_desc"

definition O_CREAT :: u32 where "O_CREAT = 4"
definition O_TRUNC :: u32 where "O_TRUNC = 8"
definition O_APPEND :: u32 where "O_APPEND = 16"

text \<open>The loop over the descriptors from 3 on: the first unused one.\<close>

definition free_fd :: "fd_table \<Rightarrow> nat option" where
  "free_fd t = List.find (\<lambda>fd. \<not> fd_used (t fd)) [3..<16]"

definition open_node :: "munin \<Rightarrow> cstr \<Rightarrow> u32 \<Rightarrow> int \<times> munin" where
  "open_node s path flags = (let ino = munin_resolve s path in
     if ino < 0
     then (if flags AND O_CREAT \<noteq> 0 then munin_create_path s path INODE_FILE else (- 1, s))
     else (ino, s))"

definition open_start :: "munin \<Rightarrow> int \<Rightarrow> int \<Rightarrow> u32 \<Rightarrow> u32" where
  "open_start s ino ty flags =
     (if flags AND O_APPEND \<noteq> 0 \<and> ty = uint INODE_FILE
      then (if munin_size s ino > 0 then word_of_int (munin_size s ino) else 0) else 0)"

definition vfs_open :: "munin \<Rightarrow> fd_table option \<Rightarrow> cstr \<Rightarrow> u32 \<Rightarrow> int \<times> munin \<times> fd_table option" where
  "vfs_open s tk path flags = (case tk of None \<Rightarrow> (- 1, s, None) | Some t \<Rightarrow>
     let (ino, s1) = open_node s path flags in
     if ino < 0 then (- 1, s1, tk)
     else let ty = munin_type s1 ino in
       if ty \<noteq> uint INODE_FILE \<and> ty \<noteq> uint INODE_DIR then (- 1, s1, tk)
       else let s2 = (if flags AND O_TRUNC \<noteq> 0 \<and> ty = uint INODE_FILE then snd (munin_truncate s1 ino) else s1)
         in (case free_fd t of
               Some fd \<Rightarrow> (int fd, s2, Some (t(fd := \<lparr>fd_used = True, fd_inode = ino,
                            fd_offset = open_start s2 ino ty flags, fd_type = word_of_int ty\<rparr>)))
             | None \<Rightarrow> (- 1, s2, tk)))"

definition vfs_close :: "fd_table option \<Rightarrow> int \<Rightarrow> int \<times> fd_table option" where
  "vfs_close tk fd = (case tk of None \<Rightarrow> (- 1, None) | Some t \<Rightarrow>
     if fd < 3 \<or> fd \<ge> 16 then (- 1, tk)
     else if \<not> fd_used (t (nat fd)) then (- 1, tk)
     else (0, Some (t(nat fd := (t (nat fd))\<lparr>fd_used := False\<rparr>))))"

definition fd_advance :: "fd_table \<Rightarrow> nat \<Rightarrow> int \<Rightarrow> fd_table" where
  "fd_advance t fd n = (if n > 0 then t(fd := (t fd)\<lparr>fd_offset := fd_offset (t fd) + word_of_int n\<rparr>) else t)"

definition vfs_read ::
  "munin \<Rightarrow> fd_table option \<Rightarrow> int \<Rightarrow> (nat \<Rightarrow> u8) \<Rightarrow> u32 \<Rightarrow> int \<times> (nat \<Rightarrow> u8) \<times> fd_table option" where
  "vfs_read s tk fd buf len = (case tk of None \<Rightarrow> (- 1, buf, None) | Some t \<Rightarrow>
     if fd < 3 \<or> fd \<ge> 16 then (- 1, buf, tk)
     else let f = t (nat fd) in
       if \<not> fd_used f \<or> fd_type f \<noteq> INODE_FILE then (- 1, buf, tk)
       else let (n, buf') = munin_read_inode s (fd_inode f) buf len (fd_offset f)
            in (n, buf', Some (fd_advance t (nat fd) n)))"

definition vfs_write ::
  "munin \<Rightarrow> fd_table option \<Rightarrow> int \<Rightarrow> (nat \<Rightarrow> u8) \<Rightarrow> u32 \<Rightarrow> int \<times> munin \<times> fd_table option" where
  "vfs_write s tk fd buf len = (case tk of None \<Rightarrow> (- 1, s, None) | Some t \<Rightarrow>
     if fd < 3 \<or> fd \<ge> 16 then (- 1, s, tk)
     else let f = t (nat fd) in
       if \<not> fd_used f \<or> fd_type f \<noteq> INODE_FILE then (- 1, s, tk)
       else let (n, s') = munin_write_inode s (fd_inode f) buf len (fd_offset f)
            in (n, s', Some (fd_advance t (nat fd) n)))"

definition vfs_readdir :: "munin \<Rightarrow> fd_table option \<Rightarrow> int \<Rightarrow> int \<Rightarrow> (nat \<Rightarrow> u8) \<Rightarrow> int \<times> (nat \<Rightarrow> u8)" where
  "vfs_readdir s tk fd index name_out = (case tk of None \<Rightarrow> (- 1, name_out) | Some t \<Rightarrow>
     if fd < 3 \<or> fd \<ge> 16 then (- 1, name_out)
     else let f = t (nat fd) in
       if \<not> fd_used f \<or> fd_type f \<noteq> INODE_DIR then (- 1, name_out)
       else munin_dirent s (fd_inode f) index name_out 32)"

definition vfs_mkdir :: "munin \<Rightarrow> cstr \<Rightarrow> int \<times> munin" where
  "vfs_mkdir s path = (let (r, s') = munin_mkdir s path in (if r \<ge> 0 then 0 else - 1, s'))"

definition vfs_unlink :: "munin \<Rightarrow> cstr \<Rightarrow> int \<times> munin" where
  "vfs_unlink s path = munin_unlink s path"

section \<open>The descriptor table as a pool\<close>

lemma free_fd_None: "free_fd t = None \<longleftrightarrow> (\<forall>fd. 3 \<le> fd \<longrightarrow> fd < 16 \<longrightarrow> fd_used (t fd))"
  unfolding free_fd_def find_upt_None by simp

lemma free_fd_Some:
  assumes "free_fd t = Some fd"
  shows "3 \<le> fd" "fd < 16" "\<not> fd_used (t fd)" "\<And>g. 3 \<le> g \<Longrightarrow> g < fd \<Longrightarrow> fd_used (t g)"
  using find_upt_Some [OF assms [unfolded free_fd_def]] by blast+

text \<open>
  Taking the first free descriptor and closing one form a pool of the slots 3 to 15, whatever the
  inode the descriptor is opened on.
\<close>

definition take_fd :: "file_desc \<Rightarrow> fd_table \<Rightarrow> int \<times> fd_table" where
  "take_fd d t = (case free_fd t of Some fd \<Rightarrow> (int fd, t(fd := d\<lparr>fd_used := True\<rparr>)) | None \<Rightarrow> (- 1, t))"

definition drop_fd :: "int \<Rightarrow> fd_table \<Rightarrow> fd_table" where
  "drop_fd fd t = the (snd (vfs_close (Some t) fd))"

definition free_fds :: "fd_table \<Rightarrow> int set" where
  "free_fds t = {fd. 3 \<le> fd \<and> fd < 16 \<and> \<not> fd_used (t (nat fd))}"

lemma free_fd_empty: "free_fd t = None \<longleftrightarrow> free_fds t = {}"
proof
  assume "free_fd t = None"
  then show "free_fds t = {}" by (auto simp: free_fd_None free_fds_def)
next
  assume e: "free_fds t = {}"
  have "fd_used (t fd)" if "3 \<le> fd" "fd < 16" for fd
  proof (rule ccontr)
    assume "\<not> fd_used (t fd)"
    with that have "int fd \<in> free_fds t" by (simp add: free_fds_def)
    with e show False by simp
  qed
  then show "free_fd t = None" by (simp add: free_fd_None)
qed

interpretation fdpool: slot_pool "take_fd d" drop_fd free_fds "\<lambda>_. {3..<16}" "- 1" "\<lambda>_. True" for d
proof
  fix t
  show "free_fds t \<subseteq> {3..<16}" by (auto simp: free_fds_def)
  show "- 1 \<notin> free_fds t" by (simp add: free_fds_def)
  show "take_fd d t = (- 1, t)" if "free_fds t = {}"
    using that by (simp add: take_fd_def free_fd_empty [symmetric])
  show "fst (take_fd d t) \<in> free_fds t \<and> free_fds (snd (take_fd d t)) = free_fds t - {fst (take_fd d t)}
      \<and> {3..<16} = {3..<(16 :: int)}" if "free_fds t \<noteq> {}"
  proof -
    from that obtain fd where fd: "free_fd t = Some fd" by (auto simp: free_fd_empty [symmetric])
    note f = free_fd_Some [OF fd]
    show ?thesis using f(1-3) by (auto simp: take_fd_def fd free_fds_def split: if_splits)
  qed
  show "free_fds (drop_fd x t) = insert x (free_fds t)" if "x \<in> {3..<16}" for x
    using that by (auto simp: drop_fd_def vfs_close_def free_fds_def)
qed simp_all

section \<open>Walks in a file system that has changed\<close>

definition dirs_le :: "(nat \<Rightarrow> node option) \<Rightarrow> (nat \<Rightarrow> node option) \<Rightarrow> bool" where
  "dirs_le fs fs' \<longleftrightarrow> (\<forall>i m. fs i = Some (Dir m) \<longrightarrow> (\<exists>m'. fs' i = Some (Dir m') \<and> m \<subseteq>\<^sub>m m'))"

lemma walk_mono: "dirs_le fs fs' \<Longrightarrow> walk fs cur ws = Some d \<Longrightarrow> walk fs' cur ws = Some d"
proof (induction ws arbitrary: cur)
  case (Cons w ws)
  then obtain m c where m: "fs cur = Some (Dir m)" "m w = Some c" "walk fs c ws = Some d"
    by (auto split: option.splits node.splits)
  then obtain m' where m': "fs' cur = Some (Dir m')" "m \<subseteq>\<^sub>m m'"
    using Cons.prems(1) unfolding dirs_le_def by blast
  have "m' w = Some c" using m(2) m'(2) by (auto simp: map_le_def dom_def)
  with m' m(3) Cons show ?case by simp
qed simp

lemma dirs_le_file: "(\<And>m. fs i \<noteq> Some (Dir m)) \<Longrightarrow> dirs_le fs (fs(i \<mapsto> File bs))"
  unfolding dirs_le_def by auto

lemma dirs_le_create: "create_at fs ws ty fs' c \<Longrightarrow> dirs_le fs fs'"
  unfolding create_at_def dirs_le_def by (auto simp: map_le_def)

lemma create_at_walk:
  assumes "create_at fs ws ty fs' c"
  shows "walk fs' 0 ws = Some c" "fs' c = Some (empty_node ty)"
proof -
  from assms obtain d m where d: "ws \<noteq> []" "fs c = None" "walk fs 0 (butlast ws) = Some d" "fs d = Some (Dir m)"
      "fs' = fs(d \<mapsto> Dir (m(last ws \<mapsto> c)), c \<mapsto> empty_node ty)" unfolding create_at_def by blast
  have "walk fs' 0 (butlast ws) = Some d" by (rule walk_mono [OF dirs_le_create [OF assms] d(3)])
  moreover have "d \<noteq> c" using d(2,4) by auto
  ultimately have "walk fs' 0 (butlast ws @ [last ws]) = Some c"
    by (simp add: walk_append d(5))
  then show "walk fs' 0 ws = Some c" using d(1) by simp
  show "fs' c = Some (empty_node ty)" by (simp add: d(5))
qed

definition node_at :: "(nat \<Rightarrow> node option) \<Rightarrow> cstr \<Rightarrow> nat option" where
  "node_at fs path = (if char_at path 0 = slash then walk fs 0 (comps (take (str_len path) path)) else None)"

lemma resolve_node: "fs_inv s \<Longrightarrow> munin_resolve s path = ino_of (node_at (abs_fs s) path)"
  by (simp add: resolve_walk node_at_def ino_of_def)

lemma node_at_live: "fs_inv s \<Longrightarrow> node_at (abs_fs s) path = Some i \<Longrightarrow> live s i"
  using walk_live [of s 0 _ i] is_dir_live [OF fs_root] by (auto simp: node_at_def split: if_splits)

lemma node_at_mono: "dirs_le fs fs' \<Longrightarrow> node_at fs path = Some i \<Longrightarrow> node_at fs' path = Some i"
  by (auto simp: node_at_def walk_mono split: if_splits)

section \<open>Opening\<close>

text \<open>What opening a path with some flags does to the file system, and the inode it yields.\<close>

definition open_rel :: "(nat \<Rightarrow> node option) \<Rightarrow> cstr \<Rightarrow> u32 \<Rightarrow> (nat \<Rightarrow> node option) \<Rightarrow> nat \<Rightarrow> bool" where
  "open_rel fs path flags fs' i \<longleftrightarrow> (case node_at fs path of
     Some j \<Rightarrow> i = j \<and> fs' = (if flags AND O_TRUNC \<noteq> 0 \<and> (\<exists>bs. fs j = Some (File bs)) then fs(j \<mapsto> File []) else fs)
   | None \<Rightarrow> flags AND O_CREAT \<noteq> 0 \<and> create_at fs (comps (take (str_len path) path)) INODE_FILE fs' i)"

definition fresh_desc :: "(nat \<Rightarrow> node option) \<Rightarrow> u32 \<Rightarrow> nat \<Rightarrow> file_desc" where
  "fresh_desc fs flags i = \<lparr>fd_used = True, fd_inode = int i,
     fd_offset = (case fs i of Some (File bs) \<Rightarrow> if flags AND O_APPEND \<noteq> 0 then of_nat (length bs) else 0 | _ \<Rightarrow> 0),
     fd_type = (case fs i of Some (File bs) \<Rightarrow> INODE_FILE | _ \<Rightarrow> INODE_DIR)\<rparr>"

lemma munin_type_abs:
  assumes "fs_inv s" and "live s i"
  shows "munin_type s (int i) = (case abs_fs s i of Some (File bs) \<Rightarrow> uint INODE_FILE | _ \<Rightarrow> uint INODE_DIR)"
  using fs_live [OF assms] assms(2) by (auto simp: munin_type_def abs_fs_def live_def file_at_def is_dir_def)

lemma munin_size_abs:
  assumes "fs_inv s" and "abs_fs s i = Some (File bs)"
  shows "munin_size s (int i) = int (length bs)" "length bs \<le> 69632"
proof -
  have f: "file_at s i" and b: "bs = file_bytes s i" using assms(2) by (simp_all add: abs_fs_File)
  have l: "unat (isize (g_inodes s i)) \<le> 69632" using fs_file [OF assms(1) f] by (simp add: file_ok_def)
  then show "length bs \<le> 69632" by (simp add: b file_bytes_def)
  have "sint (isize (g_inodes s i)) = int (unat (isize (g_inodes s i)))" by (rule sint_small) (use l in simp)
  then show "munin_size s (int i) = int (length bs)"
    using f by (simp add: munin_size_def file_at_def b file_bytes_def)
qed

lemma open_start_abs:
  assumes "fs_inv s" and "live s i"
  shows "open_start s (int i) (munin_type s (int i)) flags = fd_offset (fresh_desc (abs_fs s) flags i)"
proof (cases "abs_fs s i")
  case (Some n)
  show ?thesis
  proof (cases n)
    case (File bs)
    then have "abs_fs s i = Some (File bs)" by (simp add: Some)
    with munin_size_abs [OF assms(1) this] show ?thesis
      by (simp add: open_start_def munin_type_abs [OF assms] fresh_desc_def)
  qed (use Some in \<open>simp add: open_start_def munin_type_abs [OF assms] fresh_desc_def\<close>)
qed (use assms in \<open>simp add: abs_fs_None\<close>)


lemma open_node_abs:
  assumes inv: "fs_inv s" and r: "open_node s path flags = (ino, s1)"
  shows "fs_inv s1 \<and> (if ino < 0
      then node_at (abs_fs s) path = None \<and> abs_fs s1 = abs_fs s
      else \<exists>i. ino = int i \<and> live s1 i \<and> (case node_at (abs_fs s) path of Some j \<Rightarrow> i = j \<and> s1 = s
        | None \<Rightarrow> flags AND O_CREAT \<noteq> 0
            \<and> create_at (abs_fs s) (comps (take (str_len path) path)) INODE_FILE (abs_fs s1) i))"
proof (cases "node_at (abs_fs s) path")
  case (Some j)
  then have "ino = int j" "s1 = s" using r by (simp_all add: open_node_def resolve_node [OF inv] ino_of_def)
  with inv Some node_at_live [OF inv Some] show ?thesis by simp
next
  case None
  then have neg: "munin_resolve s path < 0" by (simp add: resolve_node [OF inv] ino_of_def)
  show ?thesis
  proof (cases "flags AND O_CREAT = 0")
    case True
    then have "ino = - 1" "s1 = s" using r neg by (simp_all add: open_node_def)
    with inv None show ?thesis by simp
  next
    case False
    then have c: "munin_create_path s path INODE_FILE = (ino, s1)" using r neg by (simp add: open_node_def)
    from create_path_abs [OF inv _ c]
    have c1: "fs_inv s1" "if ino < 0 then ino = - 1 \<and> abs_fs s1 = abs_fs s
      else \<exists>c. ino = int c \<and> create_at (abs_fs s) (comps (take (str_len path) path)) INODE_FILE (abs_fs s1) c"
      by simp_all
    show ?thesis
    proof (cases "ino < 0")
      case True
      with c1 None show ?thesis by simp
    next
      case nn: False
      with c1(2) obtain c where c: "ino = int c"
        "create_at (abs_fs s) (comps (take (str_len path) path)) INODE_FILE (abs_fs s1) c" by auto
      have "abs_fs s1 c \<noteq> None" using create_at_walk(2) [OF c(2)] by simp
      then have "live s1 c" using abs_fs_None [OF c1(1), of c] by simp
      with c c1(1) None False show ?thesis by simp
    qed
  qed
qed

lemma trunc_abs:
  assumes "fs_inv s" and "live s i"
  shows "fs_inv (snd (munin_truncate s (int i)))"
    "abs_fs (snd (munin_truncate s (int i))) =
      (if \<exists>bs. abs_fs s i = Some (File bs) then (abs_fs s)(i \<mapsto> File []) else abs_fs s)"
  using truncate_abs [OF assms(1), of i] truncate_inv [OF assms(1), of "int i"]
  by (auto simp: abs_fs_File munin_truncate_def file_at_def)

lemma vfs_open_abs:
  assumes inv: "fs_inv s" and r: "vfs_open s (Some t) path flags = (v, s', tk')"
  shows "fs_inv s'
    \<and> (if v < 0 then v = - 1 \<and> tk' = Some t
         \<and> (node_at (abs_fs s) path = None \<and> abs_fs s' = abs_fs s
            \<or> free_fd t = None \<and> (\<exists>i. open_rel (abs_fs s) path flags (abs_fs s') i))
       else free_fd t = Some (nat v) \<and> (\<exists>i. open_rel (abs_fs s) path flags (abs_fs s') i
         \<and> live s' i \<and> tk' = Some (t(nat v := fresh_desc (abs_fs s') flags i))))"
proof -
  obtain ino s1 where o1: "open_node s path flags = (ino, s1)" by fastforce
  note o2 = open_node_abs [OF inv o1]
  show ?thesis
  proof (cases "ino < 0")
    case True
    then show ?thesis using r o1 o2 by (simp add: vfs_open_def)
  next
    case False
    with o2 obtain i where i: "ino = int i" "live s1 i" "fs_inv s1"
      and c: "case node_at (abs_fs s) path of Some j \<Rightarrow> i = j \<and> s1 = s
        | None \<Rightarrow> flags AND O_CREAT \<noteq> 0
            \<and> create_at (abs_fs s) (comps (take (str_len path) path)) INODE_FILE (abs_fs s1) i" by auto
    have ty: "munin_type s1 (int i) = uint INODE_FILE \<longleftrightarrow> (\<exists>bs. abs_fs s1 i = Some (File bs))"
      "munin_type s1 (int i) = uint INODE_FILE \<or> munin_type s1 (int i) = uint INODE_DIR"
      using munin_type_abs [OF i(3,2)] abs_fs_None [OF i(3), of i] i(2)
      by (auto split: option.splits node.splits)
    define s2 where "s2 = (if flags AND O_TRUNC \<noteq> 0 \<and> munin_type s1 (int i) = uint INODE_FILE
      then snd (munin_truncate s1 (int i)) else s1)"
    have s2: "fs_inv s2" "abs_fs s2 = (if flags AND O_TRUNC \<noteq> 0 \<and> (\<exists>bs. abs_fs s1 i = Some (File bs))
        then (abs_fs s1)(i \<mapsto> File []) else abs_fs s1)"
      using i(3) trunc_abs [OF i(3,2)] ty(1) by (auto simp: s2_def)
    have l2: "live s2 i" using s2(2) i(2) abs_fs_None [OF s2(1), of i] abs_fs_None [OF i(3), of i]
      by (auto split: if_splits)
    have t2: "munin_type s2 (int i) = munin_type s1 (int i)"
      using munin_type_abs [OF i(3,2)] munin_type_abs [OF s2(1) l2] s2(2)
      by (auto split: if_splits option.splits node.splits)
    have rel: "open_rel (abs_fs s) path flags (abs_fs s2) i"
    proof (cases "node_at (abs_fs s) path")
      case (Some j)
      with c s2(2) show ?thesis by (simp add: open_rel_def)
    next
      case None
      with c have cr: "flags AND O_CREAT \<noteq> 0"
        "create_at (abs_fs s) (comps (take (str_len path) path)) INODE_FILE (abs_fs s1) i" by simp_all
      have "abs_fs s1 i = Some (File [])" using create_at_walk(2) [OF cr(2)] by (simp add: empty_node_def)
      then have "abs_fs s2 = abs_fs s1" by (auto simp: s2(2))
      with cr None show ?thesis by (simp add: open_rel_def)
    qed
    have d: "\<lparr>fd_used = True, fd_inode = int i, fd_offset = open_start s2 (int i) (munin_type s1 (int i)) flags,
        fd_type = word_of_int (munin_type s1 (int i))\<rparr> = fresh_desc (abs_fs s2) flags i"
      using open_start_abs [OF s2(1) l2, of flags] munin_type_abs [OF s2(1) l2]
      by (auto simp: fresh_desc_def t2 split: option.splits node.splits)
    have op: "vfs_open s (Some t) path flags = (case free_fd t of
        Some fd \<Rightarrow> (int fd, s2, Some (t(fd := fresh_desc (abs_fs s2) flags i))) | None \<Rightarrow> (- 1, s2, Some t))"
      using ty(2) unfolding vfs_open_def option.case o1 i(1) Let_def prod.case s2_def [symmetric] d [symmetric]
      by auto
    show ?thesis
    proof (cases "free_fd t")
      case None
      with op r have "v = - 1" "s' = s2" "tk' = Some t" by simp_all
      with s2(1) rel None show ?thesis by auto
    next
      case (Some fd)
      with op r have "v = int fd" "s' = s2" "tk' = Some (t(fd := fresh_desc (abs_fs s2) flags i))" by simp_all
      with s2(1) rel Some l2 show ?thesis by auto
    qed
  qed
qed

section \<open>Reading and writing through a descriptor\<close>

lemma fd_advance_simps:
  "fd_used (fd_advance t fd n g) = fd_used (t g)" "fd_inode (fd_advance t fd n g) = fd_inode (t g)"
  "fd_type (fd_advance t fd n g) = fd_type (t g)" "g \<noteq> fd \<Longrightarrow> fd_advance t fd n g = t g"
  by (simp_all add: fd_advance_def)

lemma fd_advance_offset:
  assumes "unat (fd_offset (t fd)) + n < 2 ^ 32"
  shows "unat (fd_offset (fd_advance t fd (int n) fd)) = unat (fd_offset (t fd)) + n"
proof -
  have "unat (of_nat n :: u32) = n" using assms by (simp add: unat_of_nat_u32)
  with assms show ?thesis by (auto simp: fd_advance_def unat_add_u32)
qed

definition file_fd :: "fd_table \<Rightarrow> nat \<Rightarrow> nat \<Rightarrow> bool" where
  "file_fd t fd i \<longleftrightarrow> 3 \<le> fd \<and> fd < 16 \<and> fd_used (t fd) \<and> fd_type (t fd) = INODE_FILE \<and> fd_inode (t fd) = int i"

lemma vfs_write_abs:
  assumes inv: "fs_inv s" and i: "abs_fs s i = Some (File bs)" and f: "file_fd t fd i"
    and off: "unat (fd_offset (t fd)) < 69632"
  shows "\<exists>n s'. vfs_write s (Some t) (int fd) buf len = (int n, s', Some (fd_advance t fd (int n)))
    \<and> n \<le> unat len \<and> unat (fd_offset (t fd)) + n \<le> 69632
    \<and> (n = unat len \<or> unat (fd_offset (t fd)) + n = 69632 \<or> avail_blocks s' = {})
    \<and> fs_inv s' \<and> abs_fs s' = (abs_fs s)(i \<mapsto> File (splice bs (unat (fd_offset (t fd))) (map buf [0..<n])))
    \<and> unat (fd_offset (fd_advance t fd (int n) fd)) = unat (fd_offset (t fd)) + n"
proof -
  have fi: "file_at s i" "bs = file_bytes s i" using i by (simp_all add: abs_fs_File)
  from write_inode_abs [OF inv fi(1) off, of buf len] obtain n s' where
    n: "munin_write_inode s (int i) buf len (fd_offset (t fd)) = (int n, s')" "n \<le> unat len"
      "unat (fd_offset (t fd)) + n \<le> 69632" "n = unat len \<or> unat (fd_offset (t fd)) + n = 69632 \<or> avail_blocks s' = {}"
      "fs_inv s'" "abs_fs s' = (abs_fs s)(i \<mapsto> File (splice bs (unat (fd_offset (t fd))) (map buf [0..<n])))"
    unfolding fi(2) by blast
  have "vfs_write s (Some t) (int fd) buf len = (int n, s', Some (fd_advance t fd (int n)))"
    using f n(1) by (simp add: vfs_write_def file_fd_def)
  moreover have "unat (fd_offset (fd_advance t fd (int n) fd)) = unat (fd_offset (t fd)) + n"
    by (rule fd_advance_offset) (use n(3) in simp)
  ultimately show ?thesis using n by blast
qed

lemma vfs_read_abs:
  assumes inv: "fs_inv s" and i: "abs_fs s i = Some (File bs)" and f: "file_fd t fd i"
    and off: "unat (fd_offset (t fd)) \<le> 69632"
  shows "\<exists>n buf'. vfs_read s (Some t) (int fd) buf len = (int n, buf', Some (fd_advance t fd (int n)))
    \<and> n = min (unat len) (min (length bs) 4096 - unat (fd_offset (t fd)))
    \<and> map buf' [0..<n] = take n (drop (unat (fd_offset (t fd))) bs)
    \<and> unat (fd_offset (fd_advance t fd (int n) fd)) = unat (fd_offset (t fd)) + n"
proof -
  have fi: "file_at s i" "bs = file_bytes s i" using i by (simp_all add: abs_fs_File)
  from read_inode_abs [OF inv fi(1), of buf len "fd_offset (t fd)"] obtain n dst where
    n: "munin_read_inode s (int i) buf len (fd_offset (t fd)) = (int n, dst)"
      "n = min (unat len) (min (length bs) 4096 - unat (fd_offset (t fd)))"
      "map dst [0..<n] = take n (drop (unat (fd_offset (t fd))) bs)"
    unfolding fi(2) by blast
  have "vfs_read s (Some t) (int fd) buf len = (int n, dst, Some (fd_advance t fd (int n)))"
    using f n(1) by (simp add: vfs_read_def file_fd_def)
  moreover have "unat (fd_offset (fd_advance t fd (int n) fd)) = unat (fd_offset (t fd)) + n"
    by (rule fd_advance_offset) (use n(2) off in simp)
  ultimately show ?thesis using n(2,3) by blast
qed

lemma vfs_read_fs: "\<exists>n buf' t'. vfs_read s (Some t) fd buf len = (n, buf', Some t')"
  by (auto simp: vfs_read_def Let_def split: prod.splits)

section \<open>Reachable descriptor tables\<close>

text \<open>
  The system calls of one task over its table. Between two of them the other tasks may have brought
  the file system into any other reachable state, so a descriptor can outlive its file.
\<close>

inductive vfs_reachable :: "munin \<Rightarrow> fd_table \<Rightarrow> bool" where
  v_start: "fs_reachable s \<Longrightarrow> \<forall>fd. \<not> fd_used (t fd) \<Longrightarrow> vfs_reachable s t"
| v_open: "vfs_reachable s t \<Longrightarrow> vfs_open s (Some t) path flags = (v, s', Some t') \<Longrightarrow> vfs_reachable s' t'"
| v_close: "vfs_reachable s t \<Longrightarrow> vfs_close (Some t) fd = (v, Some t') \<Longrightarrow> vfs_reachable s t'"
| v_read: "vfs_reachable s t \<Longrightarrow> vfs_read s (Some t) fd buf len = (v, buf', Some t') \<Longrightarrow> vfs_reachable s t'"
| v_write: "vfs_reachable s t \<Longrightarrow> vfs_write s (Some t) fd buf len = (v, s', Some t') \<Longrightarrow> vfs_reachable s' t'"
| v_mkdir: "vfs_reachable s t \<Longrightarrow> vfs_mkdir s path = (v, s') \<Longrightarrow> vfs_reachable s' t"
| v_unlink: "vfs_reachable s t \<Longrightarrow> vfs_unlink s path = (v, s') \<Longrightarrow> vfs_reachable s' t"
| v_others: "vfs_reachable s t \<Longrightarrow> fs_reachable s' \<Longrightarrow> vfs_reachable s' t"

definition desc_ok :: "nat \<Rightarrow> file_desc \<Rightarrow> bool" where
  "desc_ok fd f \<longleftrightarrow> 3 \<le> fd \<and> fd < 16 \<and> 0 \<le> fd_inode f \<and> fd_inode f < 128
     \<and> (fd_type f = INODE_FILE \<or> fd_type f = INODE_DIR) \<and> unat (fd_offset f) \<le> 69632"

definition table_ok :: "fd_table \<Rightarrow> bool" where
  "table_ok t \<longleftrightarrow> (\<forall>fd. fd_used (t fd) \<longrightarrow> desc_ok fd (t fd))"

lemma fd_advance_ok:
  assumes "table_ok t" and "fd_used (t fd)" and "0 \<le> n \<Longrightarrow> unat (fd_offset (t fd)) + nat n \<le> 69632"
  shows "table_ok (fd_advance t fd n)"
proof (cases "0 \<le> n")
  case True
  then have "unat (fd_offset (fd_advance t fd n fd)) = unat (fd_offset (t fd)) + nat n"
    using fd_advance_offset [of t fd "nat n"] assms(3) by simp
  with True assms show ?thesis
    unfolding table_ok_def desc_ok_def fd_advance_simps by (metis fd_advance_simps(4))
qed (use assms in \<open>simp add: fd_advance_def\<close>)

lemma open_table_ok:
  assumes "fs_inv s" and "table_ok t" and "vfs_open s (Some t) path flags = (v, s', Some t')"
  shows "table_ok t'"
proof -
  note o = vfs_open_abs [OF assms(1,3)]
  show ?thesis
  proof (cases "v < 0")
    case True
    with o assms(2) show ?thesis by simp
  next
    case False
    with o obtain i where i: "free_fd t = Some (nat v)" "live s' i" "fs_inv s'"
      "t' = t(nat v := fresh_desc (abs_fs s') flags i)" by auto
    note f = free_fd_Some [OF i(1)]
    have "unat (fd_offset (fresh_desc (abs_fs s') flags i)) \<le> 69632"
    proof -
      have "unat (of_nat (length bs) :: u32) \<le> 69632" if "abs_fs s' i = Some (File bs)" for bs
        using munin_size_abs(2) [OF i(3) that] by (simp add: unat_of_nat_u32)
      then show ?thesis by (auto simp: fresh_desc_def split: option.splits node.splits)
    qed
    then have "desc_ok (nat v) (fresh_desc (abs_fs s') flags i)"
      using f i(2) by (auto simp: desc_ok_def fresh_desc_def live_def split: option.splits node.splits)
    with assms(2) show ?thesis by (auto simp: table_ok_def i(4))
  qed
qed

lemma write_inode_advance:
  assumes inv: "fs_inv s" and r: "munin_write_inode s ino buf len off = (n, s')" "0 \<le> n"
  shows "unat off + nat n \<le> 69632"
proof (cases "0 \<le> ino \<and> file_at s (nat ino) \<and> off < 69632")
  case True
  then have "unat off < 69632" by (simp add: word_less_nat_alt)
  from write_inode_abs [OF inv _ this, of "nat ino" buf len] True r show ?thesis by auto
qed (use r in \<open>simp add: write_inode_not_file\<close>)

lemma read_inode_advance:
  assumes inv: "fs_inv s" and r: "munin_read_inode s ino buf len off = (n, dst)" "0 \<le> n" and off: "unat off \<le> 69632"
  shows "unat off + nat n \<le> 69632"
proof (cases "0 \<le> ino \<and> file_at s (nat ino)")
  case True
  from read_inode_abs [OF inv conjunct2 [OF True], of buf len off] True r off
  show ?thesis by auto
qed (use r in \<open>auto simp: munin_read_inode_def file_at_def Let_def split: if_splits prod.splits\<close>)

section \<open>Properties\<close>

lemma open_reachable:
  assumes "fs_reachable s" and "vfs_open s (Some t) path flags = (v, s', tk')"
  shows "fs_reachable s'"
proof -
  obtain ino s1 where o: "open_node s path flags = (ino, s1)" by fastforce
  have "s1 = s \<or> s1 = snd (munin_create_path s path INODE_FILE)"
    using o by (auto simp: open_node_def Let_def split: if_splits)
  then have "fs_reachable s1" using assms(1) by (auto intro: r_create_path)
  moreover have "s' = s1 \<or> s' = snd (munin_truncate s1 ino)"
    using assms(2) unfolding vfs_open_def option.case o Let_def prod.case
    by (auto split: if_splits option.splits)
  ultimately show ?thesis by (auto intro: r_truncate)
qed

lemma mkdir_create: "vfs_mkdir s path = (v, s') \<Longrightarrow> s' = s \<or> s' = snd (munin_create_path s path INODE_DIR)"
  by (auto simp: vfs_mkdir_def munin_mkdir_def split: prod.splits if_splits)

text \<open>
  C29. Every descriptor table that the system calls of a task can produce, whatever the other tasks do
  to the file system in between, is well formed: only descriptors 3 to 15 are ever in use, each holds
  the number of an inode of the region and the type of a file or a directory, and its cursor never
  leaves the 68 KiB a file can have, so the 32-bit additions to it do not wrap. The file system stays
  one that the Munin operations produce.
\<close>

theorem descriptors_well_formed:
  assumes "vfs_reachable s t"
  shows "fs_reachable s \<and> table_ok t"
  using assms
proof induction
  case (v_start s t)
  then show ?case by (simp add: table_ok_def)
next
  case (v_open s t path flags v s' t')
  then show ?case using open_reachable open_table_ok [OF reachable_fs_inv] by blast
next
  case (v_close s t fd v t')
  then show ?case by (auto simp: vfs_close_def table_ok_def split: if_splits)
next
  case (v_read s t fd buf len v buf' t')
  let ?f = "t (nat fd)"
  from v_read.hyps have "t' = t \<or> (fd_used ?f \<and> t' = fd_advance t (nat fd) v
      \<and> munin_read_inode s (fd_inode ?f) buf len (fd_offset ?f) = (v, buf'))"
    by (auto simp: vfs_read_def Let_def split: if_splits prod.splits)
  then show ?case using v_read.IH fd_advance_ok [of t "nat fd" v]
      read_inode_advance [OF reachable_fs_inv] by (auto simp: table_ok_def desc_ok_def)
next
  case (v_write s t fd buf len v s' t')
  let ?f = "t (nat fd)"
  from v_write.hyps have w: "t' = t \<and> s' = s \<or> (fd_used ?f \<and> t' = fd_advance t (nat fd) v
      \<and> munin_write_inode s (fd_inode ?f) buf len (fd_offset ?f) = (v, s'))"
    by (auto simp: vfs_write_def Let_def split: if_splits prod.splits)
  then have "table_ok t'" using v_write.IH fd_advance_ok [of t "nat fd" v]
      write_inode_advance [OF reachable_fs_inv] by auto
  moreover have "s' = s \<or> s' = snd (munin_write_inode s (fd_inode ?f) buf len (fd_offset ?f))"
    using w by auto
  then have "fs_reachable s'" using v_write.IH by (auto intro: r_write_inode)
  ultimately show ?case by blast
next
  case (v_mkdir s t path v s')
  have "s' = s \<or> s' = snd (munin_create_path s path INODE_DIR)" by (rule mkdir_create [OF v_mkdir.hyps(2)])
  then show ?case using v_mkdir.IH by (auto intro: r_create_path)
next
  case (v_unlink s t path v s')
  then have "s' = snd (munin_unlink s path)" by (simp add: vfs_unlink_def)
  then show ?case using v_unlink.IH by (auto intro: r_unlink)
qed simp

definition closed_table :: fd_table where
  "closed_table = (\<lambda>_. \<lparr>fd_used = False, fd_inode = 0, fd_offset = 0, fd_type = 0\<rparr>)"

lemma open_demo:
  "vfs_open demo_fs (Some closed_table) (str ''/a'') 0
   = (3, demo_fs, Some (closed_table(3 := \<lparr>fd_used = True, fd_inode = 1, fd_offset = 0, fd_type = 1\<rparr>)))"
proof -
  have f: "free_fd closed_table = Some 3" by code_simp
  have o: "open_node demo_fs (str ''/a'') 0 = (1, demo_fs)"
    using demo_file(2) by (simp add: open_node_def)
  have "munin_type demo_fs 1 = 1" using demo_file(1) by (simp add: munin_type_def file_at_def)
  then show ?thesis unfolding vfs_open_def option.case o by (simp add: f open_start_def)
qed

theorem descriptors_well_formed_witness:
  "table_ok (closed_table(3 := \<lparr>fd_used = True, fd_inode = 1, fd_offset = 0, fd_type = 1\<rparr>))"
proof -
  have "vfs_reachable demo_fs closed_table" by (rule v_start [OF demo_reachable]) (simp add: closed_table_def)
  note v_open [OF this open_demo]
  from descriptors_well_formed [OF this] show ?thesis ..
qed


text \<open>
  C17. Opening a path: it fails with -1, the table as it was, when the path does not resolve and cannot
  be created (the file system is then unchanged), or when no descriptor is free. Otherwise the lowest
  free descriptor is returned, it refers to the node of the path (the existing one, emptied if it is a
  file and \<^verbatim>\<open>O_TRUNC\<close> is set, or a new empty file when \<^verbatim>\<open>O_CREAT\<close> is set), its cursor is 0, or the length of
  the file with \<^verbatim>\<open>O_APPEND\<close>, and no other descriptor or node changes.
\<close>

theorem open_refines:
  assumes "fs_inv s" and "vfs_open s (Some t) path flags = (v, s', tk')"
  shows "fs_inv s'
    \<and> (if v < 0 then v = - 1 \<and> tk' = Some t
         \<and> (node_at (abs_fs s) path = None \<and> abs_fs s' = abs_fs s
            \<or> free_fd t = None \<and> (\<exists>i. open_rel (abs_fs s) path flags (abs_fs s') i))
       else free_fd t = Some (nat v) \<and> (\<exists>i. open_rel (abs_fs s) path flags (abs_fs s') i
         \<and> tk' = Some (t(nat v := fresh_desc (abs_fs s') flags i))))"
  using vfs_open_abs [OF assms] by (auto split: if_splits)

theorem open_refines_witness:
  "\<exists>i. open_rel (abs_fs demo_fs) (str ''/a'') 0 (abs_fs demo_fs) i
     \<and> fresh_desc (abs_fs demo_fs) 0 i = \<lparr>fd_used = True, fd_inode = 1, fd_offset = 0, fd_type = 1\<rparr>"
proof -
  from open_refines [OF demo_inv open_demo] obtain i where
    "open_rel (abs_fs demo_fs) (str ''/a'') 0 (abs_fs demo_fs) i"
    "closed_table(3 := \<lparr>fd_used = True, fd_inode = 1, fd_offset = 0, fd_type = 1\<rparr>)
     = closed_table(3 := fresh_desc (abs_fs demo_fs) 0 i)" by auto
  then show ?thesis by (metis fun_upd_same)
qed

text \<open>
  A failed open can still destroy a file: with every descriptor in use, opening an existing file
  with \<^verbatim>\<open>O_TRUNC\<close> returns -1 and the file is empty afterwards.
\<close>

lemma failed_open_truncates:
  assumes "fs_inv s" and "node_at (abs_fs s) path = Some i" and "abs_fs s i = Some (File bs)"
    and "flags AND O_TRUNC \<noteq> 0" and "\<forall>fd. 3 \<le> fd \<longrightarrow> fd < 16 \<longrightarrow> fd_used (t fd)"
  shows "\<exists>s'. vfs_open s (Some t) path flags = (- 1, s', Some t) \<and> abs_fs s' = (abs_fs s)(i \<mapsto> File [])"
proof -
  obtain v s' tk' where r: "vfs_open s (Some t) path flags = (v, s', tk')" using prod_cases3 by blast
  have f: "free_fd t = None" using assms(5) by (simp add: free_fd_None)
  from vfs_open_abs [OF assms(1) r] f assms(2)
  have "v = - 1" "tk' = Some t" "\<exists>i. open_rel (abs_fs s) path flags (abs_fs s') i" by (auto split: if_splits)
  with r assms(2-4) show ?thesis by (auto simp: open_rel_def)
qed

theorem failed_open_truncates_witness:
  "\<exists>s'. vfs_open demo_fs (Some (\<lambda>_. \<lparr>fd_used = True, fd_inode = 1, fd_offset = 0, fd_type = 1\<rparr>)) (str ''/a'') 9
     = (- 1, s', Some (\<lambda>_. \<lparr>fd_used = True, fd_inode = 1, fd_offset = 0, fd_type = 1\<rparr>))
   \<and> abs_fs s' 1 = Some (File [])"
proof -
  have n: "node_at (abs_fs demo_fs) (str ''/a'') = Some 1"
    using demo_file(2) by (simp add: resolve_node [OF demo_inv] ino_of_def split: option.splits)
  have "(9 :: u32) AND O_TRUNC \<noteq> 0" by (simp add: O_TRUNC_def)
  from failed_open_truncates [OF demo_inv n demo_abs this, of "\<lambda>_. \<lparr>fd_used = True, fd_inode = 1, fd_offset = 0, fd_type = 1\<rparr>"]
  show ?thesis by auto
qed


text \<open>
  C30. A descriptor outlives its file: after the file a descriptor is open on has been removed and its
  inode number given to a file of another path, the descriptor is still in use and a write through it
  stores the bytes in that other file.
\<close>

theorem stale_descriptor_writes_other_file:
  assumes "fs_inv s" and "file_fd t fd i" and "node_at (abs_fs s) p = Some i"
    and "vfs_unlink s p = (0, s1)" and "munin_create_path s1 q INODE_FILE = (int i, s2)"
    and "unat (fd_offset (t fd)) < 69632"
  shows "node_at (abs_fs s2) q = Some i
    \<and> (\<exists>n s3. vfs_write s2 (Some t) (int fd) buf len = (int n, s3, Some (fd_advance t fd (int n)))
        \<and> (n = unat len \<or> unat (fd_offset (t fd)) + n = 69632 \<or> avail_blocks s3 = {})
        \<and> node_at (abs_fs s3) q = Some i
        \<and> abs_fs s3 i = Some (File (replicate (unat (fd_offset (t fd))) 0 @ map buf [0..<n])))"
proof -
  have i1: "fs_inv s1" using unlink_abs [OF assms(1) assms(4) [unfolded vfs_unlink_def]] by simp
  from create_path_abs [OF i1 _ assms(5)] have i2: "fs_inv s2"
    and c: "create_at (abs_fs s1) (comps (take (str_len q) q)) INODE_FILE (abs_fs s2) i" by auto
  have "char_at q 0 = slash" using assms(5) by (auto simp: munin_create_path_def split: if_splits)
  then have q: "node_at (abs_fs s2) q = Some i" using create_at_walk(1) [OF c] by (simp add: node_at_def)
  have e: "abs_fs s2 i = Some (File [])" using create_at_walk(2) [OF c] by (simp add: empty_node_def)
  from vfs_write_abs [OF i2 e assms(2,6), of buf len] obtain n s3 where
    n: "vfs_write s2 (Some t) (int fd) buf len = (int n, s3, Some (fd_advance t fd (int n)))"
      "n = unat len \<or> unat (fd_offset (t fd)) + n = 69632 \<or> avail_blocks s3 = {}"
      "abs_fs s3 = (abs_fs s2)(i \<mapsto> File (splice [] (unat (fd_offset (t fd))) (map buf [0..<n])))" by blast
  have "node_at (abs_fs s3) q = Some i"
    unfolding n(3) by (rule node_at_mono [OF dirs_le_file q]) (simp add: e)
  with n q show ?thesis by (auto simp: splice_def)
qed

theorem stale_descriptor_writes_other_file_witness:
  "\<exists>s n s3. vfs_write s (Some (closed_table(3 := \<lparr>fd_used = True, fd_inode = 1, fd_offset = 0, fd_type = 1\<rparr>)))
       3 (\<lambda>_. 7) 2 = (int n, s3, Some (fd_advance (closed_table(3 := \<lparr>fd_used = True, fd_inode = 1, fd_offset = 0,
         fd_type = 1\<rparr>)) 3 (int n))) \<and> node_at (abs_fs s3) (str ''/b'') = Some 1"
proof -
  let ?t = "closed_table(3 := \<lparr>fd_used = True, fd_inode = 1, fd_offset = 0, fd_type = 1\<rparr>)"
  have n: "node_at (abs_fs demo_fs) (str ''/a'') = Some 1"
    using demo_file(2) by (simp add: resolve_node [OF demo_inv] ino_of_def split: option.splits)
  define s1 where "s1 = snd (munin_unlink demo_fs (str ''/a''))"
  have u: "fst (munin_unlink demo_fs (str ''/a'')) = 0" by code_simp
  have c: "fst (munin_create_path (snd (munin_unlink demo_fs (str ''/a''))) (str ''/b'') INODE_FILE) = int 1" by code_simp
  have u': "vfs_unlink demo_fs (str ''/a'') = (0, s1)" using u by (simp add: vfs_unlink_def s1_def prod_eq_iff)
  have c': "munin_create_path s1 (str ''/b'') INODE_FILE = (int 1, snd (munin_create_path s1 (str ''/b'') INODE_FILE))"
    using c by (simp add: s1_def prod_eq_iff)
  have f: "file_fd ?t 3 1" by (simp add: file_fd_def)
  have o: "unat (fd_offset (?t 3)) < 69632" by simp
  from stale_descriptor_writes_other_file [OF demo_inv f n u' c' o, of "\<lambda>_. 7" 2]
  obtain n s3 where "vfs_write (snd (munin_create_path s1 (str ''/b'') INODE_FILE)) (Some ?t) (int 3) (\<lambda>_. 7) 2
      = (int n, s3, Some (fd_advance ?t 3 (int n)))" "node_at (abs_fs s3) (str ''/b'') = Some 1" by blast
  then show ?thesis by auto
qed

lemma splice_at_0_empty: "splice [] 0 ds = ds"
  by (simp add: splice_def)

lemma fresh_file_fd:
  assumes "free_fd t = Some fd" and "abs_fs s i = Some (File bs)"
  shows "file_fd (t(fd := fresh_desc (abs_fs s) flags i)) fd i"
  using free_fd_Some [OF assms(1)] assms(2) by (simp add: file_fd_def fresh_desc_def)

lemma open_existing:
  assumes "fs_inv s" and "node_at (abs_fs s) path = Some i" and "free_fd t = Some fd"
  shows "\<exists>s'. vfs_open s (Some t) path flags = (int fd, s', Some (t(fd := fresh_desc (abs_fs s') flags i)))
    \<and> (flags AND O_TRUNC = 0 \<longrightarrow> s' = s)"
proof -
  obtain v s' tk where r: "vfs_open s (Some t) path flags = (v, s', tk)" using prod_cases3 by blast
  have "s' = s" if "flags AND O_TRUNC = 0"
  proof -
    have "open_node s path flags = (int i, s)"
      by (simp add: open_node_def resolve_node [OF assms(1)] assms(2) ino_of_def)
    with r that show ?thesis unfolding vfs_open_def option.case
      by (auto simp: Let_def split: if_splits option.splits)
  qed
  moreover have "\<exists>j. open_rel (abs_fs s) path flags (abs_fs s') j
      \<and> tk = Some (t(nat v := fresh_desc (abs_fs s') flags j))" "\<not> v < 0" "fd = nat v"
    using vfs_open_abs [OF assms(1) r] assms(2,3) by (auto split: if_splits)
  then have "tk = Some (t(nat v := fresh_desc (abs_fs s') flags i))" using assms(2) by (auto simp: open_rel_def)
  ultimately show ?thesis using r \<open>\<not> v < 0\<close> \<open>fd = nat v\<close> by auto
qed

lemma open_truncating:
  assumes inv: "fs_inv s" and r: "vfs_open s (Some t) path flags = (int fd, s1, Some t1)"
    and flags: "flags AND O_TRUNC \<noteq> 0" "flags AND O_APPEND = 0" and ty: "fd_type (t1 fd) = INODE_FILE"
  shows "\<exists>i. fs_inv s1 \<and> abs_fs s1 i = Some (File []) \<and> node_at (abs_fs s1) path = Some i
    \<and> file_fd t1 fd i \<and> fd_offset (t1 fd) = 0"
proof -
  from vfs_open_abs [OF inv r] obtain i where o: "fs_inv s1" "free_fd t = Some fd"
    "open_rel (abs_fs s) path flags (abs_fs s1) i" "live s1 i" "t1 = t(fd := fresh_desc (abs_fs s1) flags i)"
    by auto
  from ty obtain bs where bs: "abs_fs s1 i = Some (File bs)"
    by (auto simp: o(5) fresh_desc_def split: option.splits node.splits)
  have "abs_fs s1 i = Some (File []) \<and> node_at (abs_fs s1) path = Some i"
  proof (cases "node_at (abs_fs s) path")
    case None
    with o(3) have c: "create_at (abs_fs s) (comps (take (str_len path) path)) INODE_FILE (abs_fs s1) i"
      by (simp add: open_rel_def)
    have "char_at path 0 = slash"
    proof (rule ccontr)
      assume "char_at path 0 \<noteq> slash"
      then have "open_node s path flags = (- 1, s)"
        by (auto simp: open_node_def resolve_node [OF inv] None ino_of_def munin_create_path_def)
      with r show False by (simp add: vfs_open_def)
    qed
    with create_at_walk [OF c] show ?thesis by (simp add: node_at_def empty_node_def)
  next
    case (Some j)
    with o(3) flags(1) have e: "i = j" "abs_fs s1 = (if \<exists>bs. abs_fs s j = Some (File bs)
        then (abs_fs s)(j \<mapsto> File []) else abs_fs s)"
      by (simp_all add: open_rel_def)
    with bs have f: "\<exists>bs. abs_fs s i = Some (File bs)" by (auto split: if_splits)
    then have "dirs_le (abs_fs s) (abs_fs s1)" using e by (auto intro: dirs_le_file)
    with f e Some show ?thesis by (simp add: node_at_mono)
  qed
  moreover have "file_fd t1 fd i" unfolding o(5) by (rule fresh_file_fd [OF o(2) bs])
  moreover have "fd_offset (t1 fd) = 0" by (simp add: o(5) fresh_desc_def bs flags(2))
  ultimately show ?thesis using o(1) by blast
qed

text \<open>
  C28. What is written comes back: open a path with \<^verbatim>\<open>O_TRUNC\<close> (and \<^verbatim>\<open>O_CREAT\<close>, as the shell does for a
  redirection), write, close, open the path again and read: if the write stored \<open>n\<close> bytes, the second
  open finds the file and the read returns them, up to the buffer's length and up to 4096 bytes.
\<close>

theorem write_close_reopen_read:
  assumes "fs_inv s" and "vfs_open s (Some t) path flags = (int fd, s1, Some t1)"
    and "flags AND O_TRUNC \<noteq> 0" and "flags AND O_APPEND = 0"
    and "vfs_write s1 (Some t1) (int fd) buf len = (int n, s2, Some t2)"
  shows "\<exists>t3 fd2 t4 m out' t5. vfs_close (Some t2) (int fd) = (0, Some t3)
    \<and> vfs_open s2 (Some t3) path 0 = (int fd2, s2, Some t4)
    \<and> vfs_read s2 (Some t4) (int fd2) out len2 = (int m, out', t5)
    \<and> m = min (unat len2) (min n 4096) \<and> map out' [0..<m] = map buf [0..<m]"
proof -
  have "fd_type (t1 fd) = INODE_FILE" using assms(5) by (auto simp: vfs_write_def Let_def split: if_splits)
  from open_truncating [OF assms(1-4) this] obtain i where o: "fs_inv s1" "abs_fs s1 i = Some (File [])"
    "node_at (abs_fs s1) path = Some i" "file_fd t1 fd i" "fd_offset (t1 fd) = 0" by blast
  from vfs_write_abs [OF o(1,2,4), of buf len] assms(5) o(5)
  have w: "fs_inv s2" "t2 = fd_advance t1 fd (int n)" "abs_fs s2 = (abs_fs s1)(i \<mapsto> File (map buf [0..<n]))"
    by (auto simp: splice_at_0_empty)
  have n2: "node_at (abs_fs s2) path = Some i"
    unfolding w(3) by (rule node_at_mono [OF dirs_le_file o(3)]) (simp add: o(2))
  have i2: "abs_fs s2 i = Some (File (map buf [0..<n]))" by (simp add: w(3))
  define t3 where "t3 = t2(fd := (t2 fd)\<lparr>fd_used := False\<rparr>)"
  have c: "vfs_close (Some t2) (int fd) = (0, Some t3)"
    using o(4) by (simp add: vfs_close_def t3_def w(2) fd_advance_simps file_fd_def)
  have "\<not> fd_used (t3 fd)" by (simp add: t3_def)
  then obtain fd2 where f2: "free_fd t3 = Some fd2"
    using o(4) by (cases "free_fd t3") (auto simp: free_fd_None file_fd_def)
  define t4 where "t4 = t3(fd2 := fresh_desc (abs_fs s2) 0 i)"
  have r: "vfs_open s2 (Some t3) path 0 = (int fd2, s2, Some t4)"
    using open_existing [OF w(1) n2 f2, of 0] by (auto simp: t4_def)
  have o4: "unat (fd_offset (t4 fd2)) = 0" by (simp add: t4_def fresh_desc_def i2)
  have f4: "file_fd t4 fd2 i" unfolding t4_def by (rule fresh_file_fd [OF f2 i2])
  from vfs_read_abs [OF w(1) i2 f4, of out len2] o4
  obtain m out' t5 where m: "vfs_read s2 (Some t4) (int fd2) out len2 = (int m, out', t5)"
    "m = min (unat len2) (min n 4096)" "map out' [0..<m] = take m (map buf [0..<n])" by auto
  have "take m (map buf [0..<n]) = map buf [0..<m]" using m(2) by (simp add: take_map)
  with c r m show ?thesis by auto
qed

theorem write_close_reopen_read_witness:
  "\<exists>s1 t1 n s2 t2 t3 fd2 t4 m out' t5.
     vfs_open demo_fs (Some closed_table) (str ''/a'') 9 = (3, s1, Some t1)
   \<and> vfs_write s1 (Some t1) 3 (\<lambda>i. of_nat i) 5 = (int n, s2, Some t2)
   \<and> vfs_close (Some t2) 3 = (0, Some t3) \<and> vfs_open s2 (Some t3) (str ''/a'') 0 = (int fd2, s2, Some t4)
   \<and> vfs_read s2 (Some t4) (int fd2) (\<lambda>_. 0) 3 = (int m, out', t5) \<and> map out' [0..<m] = map of_nat [0..<m]"
proof -
  have n: "node_at (abs_fs demo_fs) (str ''/a'') = Some 1"
    using demo_file(2) by (simp add: resolve_node [OF demo_inv] ino_of_def split: option.splits)
  have f: "free_fd closed_table = Some 3" by code_simp
  have fl: "(9 :: u32) AND O_TRUNC \<noteq> 0" "(9 :: u32) AND O_APPEND = 0" by (simp_all add: O_TRUNC_def O_APPEND_def)
  from open_existing [OF demo_inv n f, of 9] obtain s1 where
    o: "vfs_open demo_fs (Some closed_table) (str ''/a'') 9
      = (int 3, s1, Some (closed_table(3 := fresh_desc (abs_fs s1) 9 1)))" by auto
  have l: "live s1 1" "fs_inv s1" "abs_fs s1 1 = Some (File [])"
  proof -
    from vfs_open_abs [OF demo_inv o] obtain j where j: "open_rel (abs_fs demo_fs) (str ''/a'') 9 (abs_fs s1) j"
      and i: "fs_inv s1" by auto
    show "abs_fs s1 1 = Some (File [])" "fs_inv s1" using j i n demo_abs by (simp_all add: open_rel_def)
    then show "live s1 1" using abs_fs_None [of s1 1] by simp
  qed
  have d: "file_fd (closed_table(3 := fresh_desc (abs_fs s1) 9 1)) 3 1" by (rule fresh_file_fd [OF f l(3)])
  have "unat (fd_offset ((closed_table(3 := fresh_desc (abs_fs s1) 9 1)) 3)) < 69632"
    using l(3) by (simp add: fresh_desc_def)
  from vfs_write_abs [OF l(2,3) d this, of "\<lambda>i. of_nat i" 5] obtain n s2 where
    w: "vfs_write s1 (Some (closed_table(3 := fresh_desc (abs_fs s1) 9 1))) (int 3) (\<lambda>i. of_nat i) 5
      = (int n, s2, Some (fd_advance (closed_table(3 := fresh_desc (abs_fs s1) 9 1)) 3 (int n)))" by blast
  from write_close_reopen_read [OF demo_inv o fl w, of "\<lambda>_. 0" 3] o w show ?thesis by simp metis
qed

end
