(* ===== verification/Syscall.thy ===== *)
theory Syscall
  imports Vfs Vblk Kbd Term
begin

text \<open>
  The system calls on files and the terminal (the cases of \<^verbatim>\<open>isr_handler\<close> in kernel/idt.cpp and the
  console part of kernel/serial.cpp), for one task. A \<open>world\<close> is what they act on: the file system, the
  running task's descriptors, the keyboard buffer, the bytes waiting in the serial port's receiver, the
  terminal and the disk. The block driver's write routine is an argument. Buffers are passed by their
  contents; a result is the value of \<^verbatim>\<open>rax\<close>.
\<close>

section \<open>State and operations\<close>

record 'd world =
  w_fs :: munin
  w_tab :: "fd_table option"
  w_kbd :: kbd
  w_uart :: "u8 list"
  w_term :: trm
  w_disk :: 'd

type_synonym 'd disk_write = "nat \<Rightarrow> sector \<Rightarrow> 'd \<Rightarrow> 'd"

definition vfs_sync :: "'d disk_write \<Rightarrow> 'd world \<Rightarrow> u64 \<times> 'd world" where
  "vfs_sync wr w = (0, w\<lparr>w_disk := munin_flush wr (w_fs w) (w_disk w)\<rparr>)"

definition sync_if :: "'d disk_write \<Rightarrow> bool \<Rightarrow> 'd world \<Rightarrow> 'd world" where
  "sync_if wr b w = (if b then snd (vfs_sync wr w) else w)"

definition sys_write :: "'d disk_write \<Rightarrow> 'd world \<Rightarrow> int \<Rightarrow> (nat \<Rightarrow> u8) \<Rightarrow> u64 \<Rightarrow> u64 \<times> 'd world" where
  "sys_write wr w fd buf len =
     (if fd = 1 \<or> fd = 2
      then (len, w\<lparr>w_term := fold (\<lambda>i. term_putchar (buf i)) [0..<unat len] (w_term w)\<rparr>)
      else let (n, s', t') = vfs_write (w_fs w) (w_tab w) fd buf (ucast len)
           in (word_of_int n, sync_if wr (n > 0) (w\<lparr>w_fs := s', w_tab := t'\<rparr>)))"

text \<open>Receiver of the serial port: a byte if the line status register says that there is one.\<close>

definition serial_getchar :: "u8 list \<Rightarrow> int \<times> u8 list" where
  "serial_getchar q = (case q of [] \<Rightarrow> (- 1, []) | c # cs \<Rightarrow> (uint c, cs))"

definition tty_getchar :: "'d world \<Rightarrow> int \<times> 'd world" where
  "tty_getchar w =
     (let (c, k) = kbd_getchar (w_kbd w) in
      if c < 0 then (let (c, q) = serial_getchar (w_uart w) in (c, w\<lparr>w_kbd := k, w_uart := q\<rparr>))
      else (c, w\<lparr>w_kbd := k\<rparr>))"

function tty_read :: "nat \<Rightarrow> nat \<Rightarrow> (nat \<Rightarrow> u8) \<Rightarrow> 'd world \<Rightarrow> nat \<times> (nat \<Rightarrow> u8) \<times> 'd world" where
  "tty_read n len buf w =
     (if n < len then
        let (c, w1) = tty_getchar w in
        if c < 0 then (n, buf, w1)
        else tty_read (n + 1) len (buf(n := word_of_int (if c = 0x7F then 8 else c))) w1
      else (n, buf, w))"
  by pat_completeness auto
termination
  by (relation "measure (\<lambda>(n, len, buf, w). len - n)") auto

declare tty_read.simps [simp del]

definition sys_read :: "'d world \<Rightarrow> int \<Rightarrow> (nat \<Rightarrow> u8) \<Rightarrow> u64 \<Rightarrow> u64 \<times> (nat \<Rightarrow> u8) \<times> 'd world" where
  "sys_read w fd buf len =
     (if fd = 0 then (let (n, b, w') = tty_read 0 (unat len) buf w in (of_nat n, b, w'))
      else let (n, b, t') = vfs_read (w_fs w) (w_tab w) fd buf (ucast len)
           in (word_of_int n, b, w\<lparr>w_tab := t'\<rparr>))"

definition sys_open :: "'d disk_write \<Rightarrow> 'd world \<Rightarrow> cstr \<Rightarrow> u32 \<Rightarrow> u64 \<times> 'd world" where
  "sys_open wr w path flags =
     (let (fd, s', t') = vfs_open (w_fs w) (w_tab w) path flags
      in (word_of_int fd,
          sync_if wr (fd \<ge> 0 \<and> flags AND (O_CREAT OR O_TRUNC) \<noteq> 0) (w\<lparr>w_fs := s', w_tab := t'\<rparr>)))"

definition sys_close :: "'d world \<Rightarrow> int \<Rightarrow> u64 \<times> 'd world" where
  "sys_close w fd = (let (r, t') = vfs_close (w_tab w) fd in (word_of_int r, w\<lparr>w_tab := t'\<rparr>))"

definition sys_readdir :: "'d world \<Rightarrow> int \<Rightarrow> int \<Rightarrow> (nat \<Rightarrow> u8) \<Rightarrow> u64 \<times> (nat \<Rightarrow> u8)" where
  "sys_readdir w fd index name_out =
     (let (r, b) = vfs_readdir (w_fs w) (w_tab w) fd index name_out in (word_of_int r, b))"

definition sys_mkdir :: "'d disk_write \<Rightarrow> 'd world \<Rightarrow> cstr \<Rightarrow> u64 \<times> 'd world" where
  "sys_mkdir wr w path = (let (r, s') = vfs_mkdir (w_fs w) path
     in (word_of_int r, sync_if wr (r = 0) (w\<lparr>w_fs := s'\<rparr>)))"

definition sys_unlink :: "'d disk_write \<Rightarrow> 'd world \<Rightarrow> cstr \<Rightarrow> u64 \<times> 'd world" where
  "sys_unlink wr w path = (let (r, s') = vfs_unlink (w_fs w) path
     in (word_of_int r, sync_if wr (r = 0) (w\<lparr>w_fs := s'\<rparr>)))"

section \<open>Reading the terminal\<close>

text \<open>The characters waiting: the keyboard's first, then the serial port's; DEL arrives as backspace.\<close>

definition tty_items :: "'d world \<Rightarrow> u8 list" where
  "tty_items w = kbd_items (w_kbd w) @ w_uart w"

definition del_bs :: "u8 \<Rightarrow> u8" where
  "del_bs c = (if c = 0x7F then 8 else c)"

definition only_input :: "'d world \<Rightarrow> 'd world \<Rightarrow> bool" where
  "only_input w w' \<longleftrightarrow> w_fs w' = w_fs w \<and> w_tab w' = w_tab w \<and> w_term w' = w_term w \<and> w_disk w' = w_disk w"

lemma tty_getchar_empty:
  assumes "kbd_inv (w_kbd w)" and "tty_items w = []"
  shows "tty_getchar w = (- 1, w)"
proof -
  have "kbd_items (w_kbd w) = []" "w_uart w = []" using assms(2) by (simp_all add: tty_items_def)
  then show ?thesis using ring.pop_empty [OF assms(1)]
    by (simp add: tty_getchar_def serial_getchar_def)
qed

lemma tty_getchar_item:
  assumes inv: "kbd_inv (w_kbd w)" and i: "tty_items w = x # xs"
  shows "\<exists>w'. tty_getchar w = (uint x, w') \<and> kbd_inv (w_kbd w') \<and> tty_items w' = xs
    \<and> only_input w w'"
proof (cases "kbd_items (w_kbd w)")
  case Nil
  with i have u: "w_uart w = x # xs" by (simp add: tty_items_def)
  have k: "kbd_getchar (w_kbd w) = (- 1, w_kbd w)" using ring.pop_empty [OF inv Nil] .
  show ?thesis using Nil inv
    by (simp add: tty_getchar_def k serial_getchar_def u tty_items_def only_input_def)
next
  case (Cons y ys)
  with i have y: "y = x" "xs = ys @ w_uart w" by (simp_all add: tty_items_def)
  obtain c k where g: "kbd_getchar (w_kbd w) = (c, k)" by fastforce
  from ring.pop_item [OF inv Cons] ring.pop_valid [OF inv] g y
  have "c = uint x" "kbd_items k = ys" "kbd_inv k" by simp_all
  with y show ?thesis by (simp add: tty_getchar_def g tty_items_def only_input_def)
qed

lemma tty_read_spec:
  "kbd_inv (w_kbd w) \<Longrightarrow> n \<le> len \<Longrightarrow> \<exists>buf' w' m. tty_read n len buf w = (n + m, buf', w')
    \<and> m = min (len - n) (length (tty_items w)) \<and> kbd_inv (w_kbd w')
    \<and> (\<forall>p. buf' p = (if n \<le> p \<and> p < n + m then del_bs (tty_items w ! (p - n)) else buf p))
    \<and> tty_items w' = drop m (tty_items w) \<and> only_input w w'"
proof (induction "len - n" arbitrary: n buf w)
  case 0
  then have "tty_read n len buf w = (n, buf, w)" by (simp add: tty_read.simps)
  with 0 show ?case by (auto simp: only_input_def)
next
  case (Suc k)
  then have lt: "n < len" by simp
  show ?case
  proof (cases "tty_items w")
    case Nil
    from tty_getchar_empty [OF Suc.prems(1) Nil] lt
    have "tty_read n len buf w = (n, buf, w)" by (simp add: tty_read.simps [of n])
    with Nil Suc.prems show ?thesis by (auto simp: only_input_def)
  next
    case (Cons x xs)
    from tty_getchar_item [OF Suc.prems(1) Cons] obtain w1 where w1: "tty_getchar w = (uint x, w1)"
      "kbd_inv (w_kbd w1)" "tty_items w1 = xs" "only_input w w1" by blast
    define b1 where "b1 = buf(n := del_bs x)"
    have "word_of_int (if uint x = 0x7F then 8 else uint x) = del_bs x"
      by (auto simp: del_bs_def word_uint_eq_iff)
    then have r: "tty_read n len buf w = tty_read (n + 1) len b1 w1"
      using lt w1(1) by (simp add: tty_read.simps [of n] b1_def)
    have "k = len - (n + 1)" "n + 1 \<le> len" using Suc.hyps(2) by simp_all
    from Suc.hyps(1) [OF this(1) w1(2) this(2), of b1] obtain buf' w' m where
      m: "tty_read (n + 1) len b1 w1 = (n + 1 + m, buf', w')" "m = min (len - (n + 1)) (length xs)"
        "kbd_inv (w_kbd w')"
        "\<forall>p. buf' p = (if n + 1 \<le> p \<and> p < n + 1 + m then del_bs (xs ! (p - (n + 1))) else b1 p)"
        "tty_items w' = drop m xs" "only_input w1 w'"
      unfolding w1(3) by blast
    have "buf' p = (if n \<le> p \<and> p < n + (m + 1) then del_bs (tty_items w ! (p - n)) else buf p)" for p
    proof (cases "n + 1 \<le> p")
      case True
      then have "p - n = Suc (p - (n + 1))" by simp
      with True m(4) show ?thesis by (auto simp: b1_def Cons)
    qed (use m(4) in \<open>auto simp: b1_def Cons\<close>)
    moreover have "only_input w w'" using m(6) w1(4) by (simp add: only_input_def)
    moreover have "m + 1 = min (len - n) (length (tty_items w))" using m(2) lt Cons by auto
    moreover have "tty_items w' = drop (m + 1) (tty_items w)" using m(5) Cons by simp
    moreover have "tty_read n len buf w = (n + (m + 1), buf', w')" using r m(1) by simp
    ultimately show ?thesis using m(3) by blast
  qed
qed

section \<open>The disk follows the file system\<close>

type_synonym vworld = "drive world"

text \<open>A start of the machine from the disk, whatever it finds in memory, gives the current file system.\<close>

definition durable :: "dev \<Rightarrow> vworld \<Rightarrow> bool" where
  "durable dev w \<longleftrightarrow> drive_ready (w_disk w) \<and> (\<forall>s0 d'. restarted (w_disk w) d' \<longrightarrow> (case munin_mount (vblk_read dev) s0 d' of
     (ok, s1, d1) \<Rightarrow> ok \<and> fs_inv s1 \<and> abs_fs s1 = abs_fs (w_fs w)))"

lemma sync_durable:
  assumes "virtio_dev dev" and "fs_inv (w_fs w)" and "drive_ready (w_disk w)"
  shows "durable dev (snd (vfs_sync (vblk_write dev) w))"
proof -
  have "case munin_mount (vblk_read dev) s0 d' of (ok, s1, d1) \<Rightarrow> ok \<and> fs_inv s1 \<and> abs_fs s1 = abs_fs (w_fs w)"
    if r: "restarted (munin_flush (vblk_write dev) (w_fs w) (w_disk w)) d'" for s0 d'
    using flush_mount_restarted(2) [OF assms(1,3) r, of s0] region_same_fs [OF assms(2)] by auto
  then show ?thesis
    using vblk.flush_view(1) [OF conjI [OF assms(1,3)], of "w_fs w"] by (simp add: durable_def vfs_sync_def)
qed

lemma durable_ready: "durable dev w \<Longrightarrow> drive_ready (w_disk w)"
  by (simp add: durable_def)

lemma durable_same:
  "durable dev w \<Longrightarrow> w_disk w' = w_disk w \<Longrightarrow> abs_fs (w_fs w') = abs_fs (w_fs w) \<Longrightarrow> durable dev w'"
  by (simp add: durable_def)

lemma sync_if_durable:
  assumes "virtio_dev dev" and "fs_inv (w_fs w')" and "drive_ready (w_disk w')"
    and "\<not> b \<Longrightarrow> durable dev w \<and> w_disk w' = w_disk w \<and> abs_fs (w_fs w') = abs_fs (w_fs w)"
  shows "durable dev (sync_if (vblk_write dev) b w')"
  using sync_durable [OF assms(1-3)] durable_same [of dev w w'] assms(4) by (cases b) (simp_all add: sync_if_def)

lemma mkdir_abs:
  assumes "fs_inv s" and "vfs_mkdir s path = (r, s')"
  shows "fs_inv s'" "r \<noteq> 0 \<Longrightarrow> abs_fs s' = abs_fs s"
proof -
  obtain v where c: "munin_create_path s path INODE_DIR = (v, s')" and r: "r = (if v \<ge> 0 then 0 else - 1)"
    using assms(2) by (auto simp: vfs_mkdir_def munin_mkdir_def split: prod.splits)
  from create_path_abs [OF assms(1) _ c] r show "fs_inv s'" "r \<noteq> 0 \<Longrightarrow> abs_fs s' = abs_fs s"
    by (auto split: if_splits)
qed

lemma open_unchanged:
  assumes "vfs_open s tk path flags = (v, s', tk')" and "flags AND (O_CREAT OR O_TRUNC) = 0"
  shows "s' = s"
proof -
  have "flags AND O_CREAT = 0" "flags AND O_TRUNC = 0"
    using assms(2) by (simp_all add: bit.conj_disj_distrib or_eq_0_iff)
  with assms(1) show ?thesis
    by (auto simp: vfs_open_def open_node_def Let_def split: option.splits if_splits prod.splits)
qed

lemma open_inv: "fs_inv s \<Longrightarrow> vfs_open s tk path flags = (v, s', tk') \<Longrightarrow> fs_inv s'"
  using vfs_open_abs [of s _ path flags v s' tk'] by (cases tk) (auto simp: vfs_open_def)

lemma write_inv_fd: "fs_inv s \<Longrightarrow> vfs_write s tk fd buf len = (n, s', tk') \<Longrightarrow> fs_inv s'"
proof -
  assume inv: "fs_inv s" and r: "vfs_write s tk fd buf len = (n, s', tk')"
  have "s' = s \<or> (\<exists>ino off. s' = snd (munin_write_inode s ino buf len off))"
    using r by (auto simp: vfs_write_def Let_def split: option.splits if_splits prod.splits) (metis snd_conv)
  then show ?thesis using inv write_inode_inv [OF inv] by auto
qed

lemma tty_read_frame:
  "w_fs (snd (snd (tty_read n len buf w))) = w_fs w \<and> w_disk (snd (snd (tty_read n len buf w))) = w_disk w"
proof (induction n len buf w rule: tty_read.induct)
  case (1 n len buf w)
  obtain c w1 where g: "tty_getchar w = (c, w1)" by fastforce
  have "w_fs (snd (tty_getchar w)) = w_fs w" "w_disk (snd (tty_getchar w)) = w_disk w"
    by (simp_all add: tty_getchar_def split: prod.splits)
  then have w1: "w_fs w1 = w_fs w" "w_disk w1 = w_disk w" by (simp_all add: g)
  show ?case
  proof (cases "n < len \<and> \<not> c < 0")
    case True
    with 1 [of "(c, w1)" c w1] g w1 show ?thesis
      by (cases "c = 127") (simp_all add: tty_read.simps [of n len buf w] fun_upd_def)
  qed (use g w1 in \<open>auto simp: tty_read.simps [of n len buf w]\<close>)
qed

lemma sint_word_of_int_64: "- 1 \<le> n \<Longrightarrow> n \<le> 69632 \<Longrightarrow> sint (word_of_int n :: u64) = n"
  by (simp add: sint_sbintrunc' signed_take_bit_int_eq_self)

lemma vfs_write_range:
  assumes "fs_inv s" and "vfs_write s tk fd buf len = (n, s', tk')"
  shows "- 1 \<le> n" "n \<le> 69632"
proof -
  have "n = - 1 \<or> (\<exists>ino off. munin_write_inode s ino buf len off = (n, s'))"
    using assms(2) by (auto simp: vfs_write_def Let_def split: option.splits if_splits prod.splits)
  moreover have "- 1 \<le> n \<and> n \<le> 69632" if "munin_write_inode s ino buf len off = (n, s')" for ino off
  proof (cases "0 \<le> ino \<and> file_at s (nat ino) \<and> off < 69632")
    case True
    then have "unat off < 69632" by (simp add: word_less_nat_alt)
    from write_inode_abs [OF assms(1) _ this, of "nat ino" buf len] True obtain m s1 where
      m: "munin_write_inode s (int (nat ino)) buf len off = (int m, s1)" "unat off + m \<le> 69632" by blast
    then have "n = int m" using that True by simp
    then show ?thesis using m(2) by simp
  qed (use that in \<open>simp add: write_inode_not_file\<close>)
  ultimately show "- 1 \<le> n" "n \<le> 69632" by auto
qed

lemma vfs_open_range:
  assumes "fs_inv s" and "vfs_open s tk path flags = (v, s', tk')"
  shows "- 1 \<le> v \<and> v < 16"
proof (cases tk)
  case (Some t)
  with assms(2) have r: "vfs_open s (Some t) path flags = (v, s', tk')" by simp
  show ?thesis
  proof (cases "v < 0")
    case False
    with vfs_open_abs [OF assms(1) r] have "free_fd t = Some (nat v)" by simp
    then show ?thesis using free_fd_Some(2) False by fastforce
  qed (use vfs_open_abs [OF assms(1) r] in simp)
qed (use assms(2) in \<open>simp add: vfs_open_def\<close>)

lemma sys_read_durable: "durable dev w \<Longrightarrow> durable dev (snd (snd (sys_read w fd buf len)))"
proof -
  have "w_fs (snd (snd (sys_read w fd buf len))) = w_fs w" "w_disk (snd (snd (sys_read w fd buf len))) = w_disk w"
    using tty_read_frame [of 0 "unat len" buf w] by (cases "fd = 0"; auto simp: sys_read_def split: prod.splits)+
  then show "durable dev w \<Longrightarrow> ?thesis" by (simp add: durable_def)
qed

lemma sys_mkdir_durable:
  assumes "virtio_dev dev" and "fs_inv (w_fs w)" and "durable dev w"
  shows "durable dev (snd (sys_mkdir (vblk_write dev) w path))"
proof -
  obtain r s' where m: "vfs_mkdir (w_fs w) path = (r, s')" by fastforce
  show ?thesis unfolding sys_mkdir_def m using mkdir_abs [OF assms(2) m] assms(3) durable_ready [OF assms(3)]
    by (auto intro: sync_if_durable [OF assms(1), where w = w])
qed

lemma sys_unlink_durable:
  assumes "virtio_dev dev" and "fs_inv (w_fs w)" and "durable dev w"
  shows "durable dev (snd (sys_unlink (vblk_write dev) w path))"
proof -
  obtain r s' where u: "vfs_unlink (w_fs w) path = (r, s')" by fastforce
  with unlink_abs [OF assms(2), of path r s'] have "fs_inv s'" "r \<noteq> 0 \<Longrightarrow> s' = w_fs w"
    using assms(2) by (auto simp: vfs_unlink_def)
  then show ?thesis unfolding sys_unlink_def u using assms(3) durable_ready [OF assms(3)]
    by (auto intro: sync_if_durable [OF assms(1), where w = w])
qed

lemma sys_write_durable:
  assumes "virtio_dev dev" and "fs_inv (w_fs w)" and "sys_write (vblk_write dev) w fd buf len = (r, w')"
  shows "fs_inv (w_fs w')" "durable dev w \<Longrightarrow> fd = 1 \<or> fd = 2 \<or> 0 < sint r \<Longrightarrow> durable dev w'"
proof -
  have "fs_inv (w_fs w') \<and> (durable dev w \<longrightarrow> fd = 1 \<or> fd = 2 \<or> 0 < sint r \<longrightarrow> durable dev w')"
  proof (cases "fd = 1 \<or> fd = 2")
    case True
    then show ?thesis using assms(2,3) by (auto simp: sys_write_def intro: durable_same)
  next
    case False
    obtain n s' t' where w: "vfs_write (w_fs w) (w_tab w) fd buf (ucast len) = (n, s', t')" using prod_cases3 by blast
    note i = write_inv_fd [OF assms(2) w]
    have "0 < sint (word_of_int n :: u64) \<longleftrightarrow> n > 0"
      using sint_word_of_int_64 [OF vfs_write_range [OF assms(2) w]] by simp
    moreover have "durable dev (snd (vfs_sync (vblk_write dev) (w\<lparr>w_fs := s', w_tab := t'\<rparr>)))" if "durable dev w"
      by (rule sync_durable [OF assms(1)]) (simp_all add: i durable_ready [OF that])
    ultimately show ?thesis using assms(3) False i by (auto simp: sys_write_def w sync_if_def vfs_sync_def)
  qed
  then show "fs_inv (w_fs w')" "durable dev w \<Longrightarrow> fd = 1 \<or> fd = 2 \<or> 0 < sint r \<Longrightarrow> durable dev w'" by blast+
qed

lemma sys_open_durable:
  assumes "virtio_dev dev" and "fs_inv (w_fs w)" and "sys_open (vblk_write dev) w path flags = (r, w')"
  shows "fs_inv (w_fs w')"
    "durable dev w \<Longrightarrow> 0 \<le> sint r \<or> flags AND (O_CREAT OR O_TRUNC) = 0 \<Longrightarrow> durable dev w'"
proof -
  obtain v s' t' where o: "vfs_open (w_fs w) (w_tab w) path flags = (v, s', t')" using prod_cases3 by blast
  note i = open_inv [OF assms(2) o]
  have "- 1 \<le> v" "v \<le> 69632" using vfs_open_range [OF assms(2) o] by simp_all
  then have "0 \<le> sint (word_of_int v :: u64) \<longleftrightarrow> v \<ge> 0" using sint_word_of_int_64 by simp
  moreover have "durable dev (sync_if (vblk_write dev) (v \<ge> 0 \<and> flags AND (O_CREAT OR O_TRUNC) \<noteq> 0)
      (w\<lparr>w_fs := s', w_tab := t'\<rparr>))" if "v \<ge> 0 \<or> flags AND (O_CREAT OR O_TRUNC) = 0" "durable dev w"
    using i that open_unchanged [OF o] durable_ready [OF that(2)]
    by (intro sync_if_durable [OF assms(1), where w = w]) auto
  ultimately show "fs_inv (w_fs w')"
    "durable dev w \<Longrightarrow> 0 \<le> sint r \<or> flags AND (O_CREAT OR O_TRUNC) = 0 \<Longrightarrow> durable dev w'"
    using i assms(3) by (auto simp: sys_open_def o sync_if_def vfs_sync_def)
qed

text \<open>
  What the calls do not flush: an open that empties a file and then finds no free descriptor. The file's
  bytes are gone in memory and still on the disk.
\<close>

lemma failed_open_not_durable:
  assumes "fs_inv (w_fs w)" and "durable dev w" and t: "w_tab w = Some t" "free_fd t = None"
    and f: "node_at (abs_fs (w_fs w)) path = Some i" "abs_fs (w_fs w) i = Some (File bs)" "bs \<noteq> []"
    and flags: "flags AND O_TRUNC \<noteq> 0"
  shows "fst (sys_open wr w path flags) = - 1 \<and> \<not> durable dev (snd (sys_open wr w path flags))"
proof -
  obtain v s' t' where o: "vfs_open (w_fs w) (Some t) path flags = (v, s', t')" using prod_cases3 by blast
  from failed_open_truncates [OF assms(1) f(1,2) flags, of t] t(2) o have v: "v = - 1" "abs_fs s' i = Some (File [])" by (auto simp: free_fd_None)
  then have r: "sys_open wr w path flags = (- 1, w\<lparr>w_fs := s', w_tab := t'\<rparr>)"
    by (simp add: sys_open_def t(1) o sync_if_def)
  obtain ok s1 d1 where m: "munin_mount (vblk_read dev) (w_fs w) (w_disk w) = (ok, s1, d1)" using prod_cases3 by blast
  have "restarted (w_disk w) (w_disk w)" using durable_ready [OF assms(2)] by (simp add: restarted_def)
  have a: "abs_fs s1 = abs_fs x" if d: "durable dev (w\<lparr>w_fs := x, w_tab := y\<rparr>)" for x y
  proof -
    from d have "case munin_mount (vblk_read dev) (w_fs w) (w_disk w) of (ok, s1, d1) \<Rightarrow> ok \<and> fs_inv s1 \<and> abs_fs s1 = abs_fs x"
      using \<open>restarted (w_disk w) (w_disk w)\<close> by (simp add: durable_def)
    then show ?thesis by (simp add: m)
  qed
  have "abs_fs s1 = abs_fs (w_fs w)" using a [where x = "w_fs w" and y = "w_tab w"] assms(2) by simp
  then have "abs_fs s1 \<noteq> abs_fs s'" using v(2) f(2,3) by auto
  then show ?thesis using a unfolding r by auto
qed

section \<open>Properties\<close>

text \<open>
  C18. The disk follows the file system: if a start of the machine from the disk gives the current file
  system, it still does after any read, close, mkdir, unlink, sync or terminal write, after a write to a file
  that stored something, and after an open that succeeded or had no flag that changes the file system,
  whatever their arguments. The file system's invariant holds again. Left out are the calls that the code does
  not flush after: a write that stored nothing and an open that failed with \<^verbatim>\<open>O_CREAT\<close> or \<^verbatim>\<open>O_TRUNC\<close>, which may
  have emptied the file (\<open>failed_open_not_durable\<close>).
\<close>

theorem system_calls_are_durable:
  assumes "virtio_dev dev" and "fs_inv (w_fs w)" and "durable dev w"
  shows "durable dev (snd (snd (sys_read w fd buf len))) \<and> durable dev (snd (sys_close w fd))
    \<and> durable dev (snd (sys_mkdir (vblk_write dev) w path))
    \<and> durable dev (snd (sys_unlink (vblk_write dev) w path))
    \<and> durable dev (snd (vfs_sync (vblk_write dev) w))
    \<and> (case sys_write (vblk_write dev) w fd buf len of (r, w') \<Rightarrow>
         fs_inv (w_fs w') \<and> (if fd = 1 \<or> fd = 2 \<or> 0 < sint r then durable dev w' else True))
    \<and> (case sys_open (vblk_write dev) w path flags of (r, w') \<Rightarrow>
         fs_inv (w_fs w') \<and> (if 0 \<le> sint r \<or> flags AND (O_CREAT OR O_TRUNC) = 0 then durable dev w' else True))"
proof -
  have "durable dev (snd (sys_close w fd))" using assms(3) by (auto simp: sys_close_def durable_def split: prod.splits)
  then show ?thesis
    using sys_read_durable [OF assms(3)] sys_mkdir_durable [OF assms] sys_unlink_durable [OF assms]
      sys_write_durable [OF assms(1,2)] sys_open_durable [OF assms(1,2)] sync_durable [OF assms(1,2)]
      durable_ready [OF assms(3)] assms(3)
    by (auto split: prod.splits)
qed

definition demo_world :: "disk \<Rightarrow> vworld" where
  "demo_world disk = snd (vfs_sync (vblk_write ideal_dev)
     \<lparr>w_fs = demo_fs, w_tab = Some closed_table,
      w_kbd = \<lparr>g_shift = False, kbd_buf = (\<lambda>_. 104), kbd_head = 2, kbd_tail = 0\<rparr>, w_uart = [0x7F],
      w_term = blank_term,
      w_disk = Some (demo_vblk, disk)\<rparr>)"

lemma demo_world_durable: "fs_inv (w_fs (demo_world d))" "durable ideal_dev (demo_world d)"
proof -
  show "fs_inv (w_fs (demo_world d))" by (simp add: demo_world_def vfs_sync_def demo_inv)
  show "durable ideal_dev (demo_world d)"
    unfolding demo_world_def by (rule sync_durable [OF virtio_dev_ideal]) (simp_all add: demo_inv demo_vblk_ready)
qed

theorem system_calls_are_durable_witness:
  "\<forall>d. durable ideal_dev (snd (sys_mkdir (vblk_write ideal_dev) (demo_world d) (str ''/x'')))"
proof
  fix d
  from system_calls_are_durable [OF virtio_dev_ideal demo_world_durable]
  show "durable ideal_dev (snd (sys_mkdir (vblk_write ideal_dev) (demo_world d) (str ''/x'')))" by blast
qed

text \<open>
  Reading descriptor 0 returns what was typed: the characters waiting in the keyboard buffer and then
  those waiting in the serial receiver, as many as fit the buffer, in order, with DEL turned into
  backspace; they are taken out, the rest stays, and nothing but the two queues changes.
\<close>

lemma sys_read_terminal:
  assumes "kbd_inv (w_kbd w)"
  shows "\<exists>buf' w'. sys_read w 0 buf len = (of_nat (min (unat len) (length (tty_items w))), buf', w')
    \<and> map buf' [0..<min (unat len) (length (tty_items w))] = map del_bs (take (unat len) (tty_items w))
    \<and> tty_items w' = drop (unat len) (tty_items w) \<and> only_input w w' \<and> kbd_inv (w_kbd w')"
proof -
  from tty_read_spec [OF assms, of 0 "unat len" buf] obtain buf' w' where
    r: "tty_read 0 (unat len) buf w = (min (unat len) (length (tty_items w)), buf', w')" "kbd_inv (w_kbd w')"
    "\<forall>p. buf' p = (if p < min (unat len) (length (tty_items w)) then del_bs (tty_items w ! p) else buf p)"
    "tty_items w' = drop (min (unat len) (length (tty_items w))) (tty_items w)" "only_input w w'" by auto
  have "map buf' [0..<min (unat len) (length (tty_items w))] = map del_bs (take (unat len) (tty_items w))"
    by (rule nth_equalityI) (auto simp: r(3))
  with r show ?thesis by (simp add: sys_read_def min_def)
qed

theorem sys_read_terminal_witness:
  "\<forall>d. \<exists>buf' w'. sys_read (demo_world d) 0 (\<lambda>_. 0) 9 = (3, buf', w') \<and> map buf' [0..<3] = [104, 104, 8]"
proof
  fix d
  have k: "kbd_inv (w_kbd (demo_world d))" "tty_items (demo_world d) = [104, 104, 0x7F]"
    by (simp_all add: demo_world_def vfs_sync_def kbd_inv_def tty_items_def kbd_items_def kbd_count_def upt_rec)
  from sys_read_terminal [OF k(1), of "\<lambda>_. 0" 9]
  show "\<exists>buf' w'. sys_read (demo_world d) 0 (\<lambda>_. 0) 9 = (3, buf', w') \<and> map buf' [0..<3] = [104, 104, 8]"
    by (auto simp: k(2) del_bs_def upt_rec)
qed

end
