(* ===== verification/Huginn_Line.thy ===== *)
theory Huginn_Line
  imports Paths
begin

text \<open>
  The text half of the shell (huginn.cpp): making paths absolute, comparing strings, the command
  history, cutting a line into words, and reading and editing a line. A C string is its list of bytes
  without the NUL; an array that is written by index is a function from indices to bytes, so that a
  store outside the array shows.
\<close>

section \<open>Scanning a string\<close>

text \<open>The loop \<^verbatim>\<open>while (P(s[p])) p++;\<close> for a test \<open>P\<close> that fails at the NUL.\<close>

function skip_while :: "(u8 \<Rightarrow> bool) \<Rightarrow> cstr \<Rightarrow> nat \<Rightarrow> nat" where
  "skip_while P s p = (if p < length s \<and> P (s ! p) then skip_while P s (p + 1) else p)"
  by pat_completeness auto
termination
  by (relation "measure (\<lambda>(P, s, p). length s - p)") auto

declare skip_while.simps [simp del]

lemma skip_while_spec: "skip_while P s p = p + length (takeWhile P (drop p s))"
proof (induction P s p rule: skip_while.induct)
  case (1 P s p)
  show ?case
  proof (cases "p < length s \<and> P (s ! p)")
    case True
    then have "drop p s = s ! p # drop (p + 1) s" by (simp add: Cons_nth_drop_Suc)
    with 1 True show ?thesis by (simp add: skip_while.simps [of P s p])
  next
    case False
    then have "takeWhile P (drop p s) = []"
      by (cases "p < length s") (simp_all add: Cons_nth_drop_Suc [symmetric])
    with False show ?thesis by (auto simp: skip_while.simps [of P s p])
  qed
qed

lemma drop_skip_while: "drop (skip_while P s p) s = dropWhile P (drop p s)"
  by (simp add: skip_while_spec dropWhile_eq_drop add.commute)

section \<open>Making a path absolute\<close>

type_synonym buf = "nat \<Rightarrow> u8"

definition dot :: u8 where "dot = 46"

function pop_to_slash :: "buf \<Rightarrow> nat \<Rightarrow> nat" where
  "pop_to_slash out olen =
     (if olen > 1 \<and> out (olen - 1) \<noteq> slash then pop_to_slash out (olen - 1) else olen)"
  by pat_completeness auto
termination
  by (relation "measure (\<lambda>(out, olen). olen)") auto

declare pop_to_slash.simps [simp del]

definition pop_comp :: "buf \<times> nat \<Rightarrow> buf \<times> nat" where
  "pop_comp st = (let (out, olen) = st in
     if olen > 1 then
       let o1 = pop_to_slash out olen; o2 = (if o1 > 1 then o1 - 1 else o1) in (out(o2 := 0), o2)
     else (out, olen))"

definition push_comp :: "cstr \<Rightarrow> nat \<Rightarrow> nat \<Rightarrow> buf \<times> nat \<Rightarrow> buf \<times> nat" where
  "push_comp inp start clen st = (let (out, olen) = st;
     (out1, olen1) = (if out (olen - 1) \<noteq> slash then (out(olen := slash), olen + 1) else (out, olen));
     out2 = blit out1 olen1 (char_at inp) start clen; olen2 = olen1 + clen
   in (out2(olen2 := 0), olen2))"

definition path_comp :: "cstr \<Rightarrow> nat \<Rightarrow> nat \<Rightarrow> buf \<times> nat \<Rightarrow> buf \<times> nat" where
  "path_comp inp start clen st =
     (if clen = 1 \<and> char_at inp start = dot then st
      else if clen = 2 \<and> char_at inp start = dot \<and> char_at inp (start + 1) = dot then pop_comp st
      else push_comp inp start clen st)"

text \<open>Each round of the loop over the argument moves on.\<close>

lemma component_span:
  assumes "char_at inp p \<noteq> 0" and "char_at inp (skip_while (\<lambda>c. c = slash) inp p) \<noteq> 0"
  defines "start \<equiv> skip_while (\<lambda>c. c = slash) inp p"
  defines "stop \<equiv> skip_while (\<lambda>c. c \<noteq> 0 \<and> c \<noteq> slash) inp start"
  shows "p \<le> start" "start < stop" "stop \<le> length inp" "inp ! start \<noteq> slash" "p < length inp"
    "stop < length inp \<Longrightarrow> inp ! stop = 0 \<or> inp ! stop = slash"
proof -
  show p: "p < length inp" using assms(1) by (simp add: char_at_def split: if_splits)
  have s: "start < length inp" "inp ! start \<noteq> 0" using assms(2) by (simp_all add: char_at_def start_def split: if_splits)
  show ns: "inp ! start \<noteq> slash"
  proof
    assume "inp ! start = slash"
    then have "skip_while (\<lambda>c. c = slash) inp start \<noteq> start"
      using s(1) by (simp add: skip_while_spec Cons_nth_drop_Suc [symmetric])
    moreover have "dropWhile (\<lambda>c. c = slash) (drop start inp) = drop start inp"
      unfolding start_def drop_skip_while by (simp add: dropWhile_idem)
    ultimately show False by (simp add: skip_while_spec dropWhile_eq_self_iff takeWhile_eq_Nil_iff)
  qed
  then show "start < stop" unfolding stop_def using s by (simp add: skip_while_spec Cons_nth_drop_Suc [symmetric])
  show "p \<le> start" by (simp add: start_def skip_while_spec)
  have "stop = start + length (takeWhile (\<lambda>c. c \<noteq> 0 \<and> c \<noteq> slash) (drop start inp))" by (simp add: stop_def skip_while_spec)
  moreover have "length (takeWhile (\<lambda>c. c \<noteq> 0 \<and> c \<noteq> slash) (drop start inp)) \<le> length inp - start"
    using length_takeWhile_le [of _ "drop start inp"] by simp
  ultimately show "stop \<le> length inp" using s(1) by linarith
  show "inp ! stop = 0 \<or> inp ! stop = slash" if "stop < length inp"
  proof -
    have "drop stop inp = dropWhile (\<lambda>c. c \<noteq> 0 \<and> c \<noteq> slash) (drop start inp)" unfolding stop_def by (rule drop_skip_while)
    moreover have "drop stop inp \<noteq> []" using that by simp
    ultimately have "\<not> (hd (drop stop inp) \<noteq> 0 \<and> hd (drop stop inp) \<noteq> slash)"
      using hd_dropWhile [of "\<lambda>c. c \<noteq> 0 \<and> c \<noteq> slash" "drop start inp"] by simp
    then show ?thesis using that by (auto simp: hd_drop_conv_nth)
  qed
qed

function path_loop :: "cstr \<Rightarrow> nat \<Rightarrow> buf \<times> nat \<Rightarrow> buf \<times> nat" where
  "path_loop inp p st =
     (if char_at inp p \<noteq> 0 then
        let start = skip_while (\<lambda>c. c = slash) inp p in
        if char_at inp start = 0 then st
        else let stop = skip_while (\<lambda>c. c \<noteq> 0 \<and> c \<noteq> slash) inp start
             in path_loop inp stop (path_comp inp start (stop - start) st)
      else st)"
  by pat_completeness auto
termination
proof (relation "measure (\<lambda>(inp, p, st). length inp - p)", goal_cases)
  case (2 inp p st start stop)
  show ?case using component_span(1,2,3) [OF 2(1) 2(3) [unfolded 2(2)], folded 2(2), folded 2(4)] by simp
qed simp

declare path_loop.simps [simp del]

definition resolve_start :: "cstr \<Rightarrow> cstr \<Rightarrow> buf \<Rightarrow> buf \<times> nat" where
  "resolve_start cwd inp out0 = (if char_at inp 0 = slash then (out0(0 := slash, 1 := 0), 1)
                 else ((blit out0 0 (char_at cwd) 0 (str_len cwd))(str_len cwd := 0), str_len cwd))"

definition resolve_path :: "cstr \<Rightarrow> cstr \<Rightarrow> buf \<Rightarrow> buf \<times> nat" where
  "resolve_path cwd inp out0 =
     (let st0 = resolve_start cwd inp out0;
          (out, olen) = path_loop inp 0 st0
      in if olen = 0 then (out(0 := slash, 1 := 0), olen) else (out, olen))"

text \<open>
  The highest index of the output that is stored to. Each round ends with the NUL at the length it leaves,
  and stores nothing above it or above the length it started with. The callers' arrays have 128 bytes.
\<close>

function path_peak :: "cstr \<Rightarrow> nat \<Rightarrow> buf \<times> nat \<Rightarrow> nat" where
  "path_peak inp p st = max (snd st)
     (if char_at inp p \<noteq> 0 then
        let start = skip_while (\<lambda>c. c = slash) inp p in
        if char_at inp start = 0 then 0
        else let stop = skip_while (\<lambda>c. c \<noteq> 0 \<and> c \<noteq> slash) inp start
             in path_peak inp stop (path_comp inp start (stop - start) st)
      else 0)"
  by pat_completeness auto
termination
proof (relation "measure (\<lambda>(inp, p, st). length inp - p)", goal_cases)
  case (2 inp p st start stop)
  show ?case using component_span(1,2,3) [OF 2(1) 2(3) [unfolded 2(2)], folded 2(2), folded 2(4)] by simp
qed simp

declare path_peak.simps [simp del]

definition path_fits :: "cstr \<Rightarrow> cstr \<Rightarrow> bool" where
  "path_fits cwd inp \<longleftrightarrow> max 1 (path_peak inp 0 (resolve_start cwd inp (\<lambda>_. 0))) < 128"

lemma path_comp_bounds:
  assumes "path_comp inp start clen (out, olen) = (out', olen')"
  shows "olen' \<le> olen + 1 + clen" "max olen olen' < i \<Longrightarrow> out' i = out i"
proof -
  have p: "pop_to_slash out n \<le> n" for n
  proof (induction out n rule: pop_to_slash.induct)
    case (1 out olen)
    then show ?case by (subst pop_to_slash.simps) (auto intro: le_trans)
  qed
  have pop: "olen' \<le> olen \<and> (max olen olen' < i \<longrightarrow> out' i = out i)" if "pop_comp (out, olen) = (out', olen')"
    using that p [of olen] by (auto simp: pop_comp_def Let_def split: if_splits)
  have push: "olen' \<le> olen + 1 + clen \<and> (max olen olen' < i \<longrightarrow> out' i = out i)" if "push_comp inp start clen (out, olen) = (out', olen')"
    using that by (auto simp: push_comp_def Let_def blit_apply split: if_splits)
  have "olen' \<le> olen + 1 + clen \<and> (max olen olen' < i \<longrightarrow> out' i = out i)"
    using assms pop push by (auto simp: path_comp_def split: if_splits)
  then show "olen' \<le> olen + 1 + clen" "max olen olen' < i \<Longrightarrow> out' i = out i" by blast+
qed

lemma path_loop_below_peak: "path_peak inp p st < i \<Longrightarrow> fst (path_loop inp p st) i = fst st i"
proof (induction inp p st rule: path_loop.induct)
  case (1 inp p st)
  define start where "start = skip_while (\<lambda>c. c = slash) inp p"
  define stop where "stop = skip_while (\<lambda>c. c \<noteq> 0 \<and> c \<noteq> slash) inp start"
  show ?case
  proof (cases "char_at inp p \<noteq> 0 \<and> char_at inp start \<noteq> 0")
    case True
    obtain out olen out' olen' where st: "st = (out, olen)" "path_comp inp start (stop - start) (out, olen) = (out', olen')"
      by (metis surj_pair)
    have l: "path_loop inp p st = path_loop inp stop (out', olen')" and k: "path_peak inp p st = max olen (path_peak inp stop (out', olen'))"
      using True st unfolding path_loop.simps [of inp p] path_peak.simps [of inp p] by (simp_all add: start_def stop_def Let_def)
    have "olen' \<le> path_peak inp stop (out', olen')" by (subst path_peak.simps) simp
    then have "max olen olen' < i" "path_peak inp stop (out', olen') < i" using "1.prems" k by simp_all
    then show ?thesis
      using "1.IH" [OF conjunct1 [OF True] start_def _ stop_def] True path_comp_bounds(2) [OF st(2)] st l by simp
  next
    case False
    then show ?thesis by (subst path_loop.simps) (auto simp: start_def Let_def)
  qed
qed

lemma path_loop_peak: "snd (path_loop inp p st) \<le> path_peak inp p st"
proof (induction inp p st rule: path_loop.induct)
  case (1 inp p st)
  then show ?case
    by (subst path_loop.simps, subst path_peak.simps) (auto simp: Let_def intro: le_trans [OF _ max.cobounded2])
qed

lemma resolve_path_fits: "path_fits cwd inp \<Longrightarrow> snd (resolve_path cwd inp (\<lambda>_. 0)) < 128"
  using path_loop_peak [of inp 0 "resolve_start cwd inp (\<lambda>_. 0)"]
  by (auto simp: path_fits_def resolve_path_def Let_def split: prod.splits if_splits)

text \<open>What fits: a directory and an argument of together at most 126 characters.\<close>

lemma path_peak_le:
  "path_peak inp p st \<le> snd st + (length inp - p) + (if p < length inp \<and> inp ! p \<noteq> slash then 1 else 0)"
proof (induction inp p st rule: path_loop.induct)
  case (1 inp p st)
  define start where "start = skip_while (\<lambda>c. c = slash) inp p"
  define stop where "stop = skip_while (\<lambda>c. c \<noteq> 0 \<and> c \<noteq> slash) inp start"
  show ?case
  proof (cases "char_at inp p \<noteq> 0 \<and> char_at inp start \<noteq> 0")
    case True
    note c = component_span [OF conjunct1 [OF True] conjunct2 [OF True, unfolded start_def], folded start_def, folded stop_def]
    obtain out olen out' olen' where st: "st = (out, olen)" "path_comp inp start (stop - start) (out, olen) = (out', olen')"
      by (metis surj_pair)
    have k: "path_peak inp p st = max olen (path_peak inp stop (out', olen'))"
      using True st unfolding path_peak.simps [of inp p] by (simp add: start_def stop_def Let_def)
    have ih: "path_peak inp stop (out', olen') \<le> olen' + (length inp - stop) + (if stop < length inp \<and> inp ! stop \<noteq> slash then 1 else 0)"
      using "1.IH" [OF conjunct1 [OF True] start_def _ stop_def] True st by simp
    have z: "path_peak inp stop (out', olen') = olen'" if "stop < length inp" "inp ! stop \<noteq> slash"
      using that c(6) by (subst path_peak.simps) (simp add: char_at_def)
    have o: "olen' \<le> olen + 1 + (stop - start)" by (rule path_comp_bounds(1) [OF st(2)])
    have e: "path_peak inp stop (out', olen') \<le> olen' + (length inp - stop)" using ih z by (auto split: if_splits)
    have "start = p \<longrightarrow> inp ! p \<noteq> slash" using c(4) by auto
    moreover have "path_peak inp stop (out', olen') + p \<le> olen + 1 + length inp" "p < start \<longrightarrow> path_peak inp stop (out', olen') + p \<le> olen + length inp"
      using e o c(1-3) by linarith+
    moreover have "x \<le> olen + (length inp - p) + (if p < length inp \<and> inp ! p \<noteq> slash then 1 else 0)"
      if "x + p \<le> olen + 1 + length inp" "p < start \<longrightarrow> x + p \<le> olen + length inp" "start = p \<longrightarrow> inp ! p \<noteq> slash" for x
      using that c(1,5) by (cases "start = p") auto
    ultimately show ?thesis using c(5) unfolding st(1) snd_conv k [unfolded st(1)] by simp
  next
    case False
    then show ?thesis by (subst path_peak.simps) (auto simp: start_def Let_def)
  qed
qed

lemma path_fits_short:
  assumes "length cwd + length inp \<le> 126"
  shows "path_fits cwd inp"
proof -
  have "str_len cwd \<le> length cwd" by (simp add: str_len_le)
  then show ?thesis
    using path_peak_le [of inp 0 "resolve_start cwd inp (\<lambda>_. 0)"] assms
    by (auto simp: path_fits_def resolve_start_def char_at_def split: if_splits)
qed

text \<open>
  The specification: an absolute path is \<open>render\<close> of its components, and the components of the argument
  act on it from left to right.
\<close>

definition render :: "cstr list \<Rightarrow> cstr" where
  "render ws = (if ws = [] then [slash] else concat (map (\<lambda>w. slash # w) ws))"

definition norm_step :: "cstr \<Rightarrow> cstr list \<Rightarrow> cstr list" where
  "norm_step w ws = (if w = [dot] then ws else if w = [dot, dot] then butlast ws else ws @ [w])"

definition normalize :: "cstr list \<Rightarrow> cstr \<Rightarrow> cstr list" where
  "normalize ws inp = fold norm_step (comps inp) (if char_at inp 0 = slash then [] else ws)"

definition good_comps :: "cstr list \<Rightarrow> bool" where
  "good_comps ws \<longleftrightarrow> (\<forall>w \<in> set ws. w \<noteq> [] \<and> slash \<notin> set w)"

definition holds :: "buf \<times> nat \<Rightarrow> cstr list \<Rightarrow> bool" where
  "holds st ws \<longleftrightarrow> map (fst st) [0..<snd st] = render ws \<and> fst st (snd st) = 0"

lemma slash_dot [simp]: "slash \<noteq> dot" "dot \<noteq> 0" "slash \<noteq> 0"
  by (simp_all add: slash_def dot_def)

lemma render_snoc: "render (ws @ [w]) = (if ws = [] then [] else render ws) @ slash # w"
  by (simp add: render_def)

lemma length_render: "0 < length (render ws)"
  by (cases ws) (simp_all add: render_def)

lemma render_last:
  assumes "good_comps ws"
  shows "last (render ws) = slash \<longleftrightarrow> ws = []" "length (render ws) = 1 \<longleftrightarrow> ws = []"
proof -
  have "last (render ws) \<noteq> slash \<and> length (render ws) \<noteq> 1" if ne: "ws \<noteq> []"
  proof -
    obtain vs w where ws: "ws = vs @ [w]" using ne by (cases ws rule: rev_cases) auto
    then have w: "w \<noteq> []" "slash \<notin> set w" using assms by (auto simp: good_comps_def)
    then have "last w \<noteq> slash" using last_in_set by metis
    with w show ?thesis by (simp add: ws render_snoc)
  qed
  then show "last (render ws) = slash \<longleftrightarrow> ws = []" "length (render ws) = 1 \<longleftrightarrow> ws = []"
    by (auto simp: render_def)
qed

lemma holds_length: "holds (out, olen) ws \<Longrightarrow> olen = length (render ws)"
  by (drule arg_cong [of _ _ length, OF conjunct1 [OF holds_def [THEN iffD1]]]) simp

lemma holds_nth: "holds (out, olen) ws \<Longrightarrow> i < olen \<Longrightarrow> out i = render ws ! i"
proof -
  assume h: "holds (out, olen) ws" and i: "i < olen"
  from h have "map out [0..<olen] ! i = render ws ! i" by (simp add: holds_def)
  with i show "out i = render ws ! i" by simp
qed

lemma holdsI: "olen = length (render ws) \<Longrightarrow> (\<And>i. i < olen \<Longrightarrow> out i = render ws ! i) \<Longrightarrow> out olen = 0
    \<Longrightarrow> holds (out, olen) ws"
  by (auto simp: holds_def intro: nth_equalityI)

lemma pop_to_slash_spec:
  assumes "map out [0..<olen] = u @ slash # w" and "slash \<notin> set w"
  shows "pop_to_slash out olen = length u + 1"
  using assms
proof (induction w arbitrary: olen rule: rev_induct)
  case Nil
  then have "map out [0..<olen] = u @ [slash]" by simp
  then have l: "olen = length u + 1" by (metis diff_zero length_append_singleton length_map length_upt Suc_eq_plus1)
  have "out (length u) = slash" using arg_cong [OF Nil(1), of "\<lambda>l. l ! length u"] by (simp add: l nth_append)
  then show ?case by (subst pop_to_slash.simps) (simp add: l)
next
  case (snoc c w)
  have l: "olen = length u + length w + 2" using arg_cong [OF snoc(2), of length] by simp
  have o: "out (olen - 1) = c" using arg_cong [OF snoc(2), of "\<lambda>x. x ! (olen - 1)"] by (simp add: l nth_append)
  have "map out [0..<olen - 1] = u @ slash # w"
    using arg_cong [OF snoc(2), of butlast] by (simp add: l butlast_append map_butlast [symmetric])
  from snoc(1) [OF this] snoc(3) have "pop_to_slash out (olen - 1) = length u + 1" by simp
  moreover have "c \<noteq> slash" using snoc(3) by auto
  ultimately show ?case using o by (subst pop_to_slash.simps) (simp add: l)
qed

lemma pop_comp_spec:
  assumes h: "holds (out, olen) ws" and g: "good_comps ws"
  shows "holds (pop_comp (out, olen)) (butlast ws)"
proof (cases "ws = []")
  case True
  then have "olen = 1" using holds_length [OF h] by (simp add: render_def)
  with h True show ?thesis by (simp add: pop_comp_def)
next
  case False
  then obtain vs w where ws: "ws = vs @ [w]" by (cases ws rule: rev_cases) auto
  then have w: "w \<noteq> []" "slash \<notin> set w" using g by (auto simp: good_comps_def)
  define u where "u = (if vs = [] then [] else render vs)"
  have r: "render ws = u @ slash # w" by (simp add: ws render_snoc u_def)
  have m: "map out [0..<olen] = u @ slash # w" using h r by (simp add: holds_def)
  have l: "olen = length u + length w + 1" using arg_cong [OF m, of length] by simp
  have o1: "pop_to_slash out olen = length u + 1" by (rule pop_to_slash_spec [OF m w(2)])
  have big: "olen > 1" using l w(1) by (cases w) auto
  have n: "out i = (u @ slash # w) ! i" if "i < olen" for i using holds_nth [OF h that] r by simp
  show ?thesis
  proof (cases "vs = []")
    case True
    then have "u = []" by (simp add: u_def)
    moreover have "out 0 = slash" using n [of 0] big \<open>u = []\<close> by simp
    ultimately show ?thesis using o1 big True
      by (simp add: pop_comp_def ws holds_def render_def)
  next
    case False
    then have u: "u = render vs" "0 < length u" using length_render by (simp_all add: u_def)
    then have p: "pop_comp (out, olen) = (out(length u := 0), length u)" using o1 big by (simp add: pop_comp_def Let_def)
    show ?thesis unfolding p ws butlast_snoc
      by (rule holdsI) (use u n l in \<open>auto simp: nth_append\<close>)
  qed
qed

lemma push_comp_spec:
  assumes h: "holds (out, olen) ws" and g: "good_comps ws" and w: "\<And>i. i < clen \<Longrightarrow> char_at inp (start + i) = w ! i"
    "length w = clen"
  shows "holds (push_comp inp start clen (out, olen)) (ws @ [w])"
proof -
  have l: "olen = length (render ws)" "0 < olen" using holds_length [OF h] length_render by simp_all
  have last: "out (olen - 1) = last (render ws)"
    using holds_nth [OF h, of "olen - 1"] l by (simp add: last_conv_nth flip: length_greater_0_conv)
  have n: "out i = render ws ! i" if "i < olen" for i using holds_nth [OF h that] .
  show ?thesis
  proof (cases "ws = []")
    case True
    then have o: "olen = 1" "out 0 = slash" using l n [of 0] by (simp_all add: render_def)
    have p: "push_comp inp start clen (out, olen) = ((blit out 1 (char_at inp) start clen)(1 + clen := 0), 1 + clen)"
      using o by (simp add: push_comp_def)
    show ?thesis unfolding p using w o True
      by (intro holdsI) (auto simp: render_def blit_apply nth_Cons split: nat.split)
  next
    case False
    then have "out (olen - 1) \<noteq> slash" using last render_last(1) [OF g] by simp
    then have p: "push_comp inp start clen (out, olen)
        = ((blit (out(olen := slash)) (olen + 1) (char_at inp) start clen)(olen + 1 + clen := 0), olen + 1 + clen)"
      by (simp add: push_comp_def)
    have r: "render (ws @ [w]) = render ws @ slash # w" using False by (simp add: render_snoc)
    have "char_at inp (start + (i - (olen + 1))) = (slash # w) ! (i - olen)" if "olen < i" "i < olen + 1 + clen" for i
    proof -
      have "i - olen = Suc (i - (olen + 1))" using that by simp
      with w(1) [of "i - (olen + 1)"] that show ?thesis by simp
    qed
    then show ?thesis unfolding p using w(2) n l
      by (intro holdsI) (auto simp: r blit_apply nth_append)
  qed
qed

lemma norm_step_good: "good_comps ws \<Longrightarrow> w \<noteq> [] \<Longrightarrow> slash \<notin> set w \<Longrightarrow> good_comps (norm_step w ws)"
  by (auto simp: norm_step_def good_comps_def dest: in_set_butlastD)

lemma path_comp_spec:
  assumes h: "holds (out, olen) ws" and g: "good_comps ws"
    and w: "w = take clen (drop start inp)" "length w = clen"
  shows "holds (path_comp inp start clen (out, olen)) (norm_step w ws)"
proof -
  have c: "char_at inp (start + i) = w ! i" if "i < clen" for i
    using that w by (simp add: char_at_def) (metis length_drop less_diff_conv min_less_iff_conj add.commute length_take)
  consider (one) "w = [dot]" | (two) "w = [dot, dot]" | (other) "w \<noteq> [dot]" "w \<noteq> [dot, dot]" by blast
  then show ?thesis
  proof cases
    case one
    then show ?thesis using h c [of 0] w(2) by (simp add: path_comp_def norm_step_def)
  next
    case two
    then show ?thesis using pop_comp_spec [OF h g] c [of 0] c [of 1] w(2)
      by (simp add: path_comp_def norm_step_def)
  next
    case other
    have "\<not> (clen = 1 \<and> char_at inp start = dot)"
      using other(1) c [of 0] w(2) by (auto simp: length_Suc_conv)
    moreover have "\<not> (clen = 2 \<and> char_at inp start = dot \<and> char_at inp (start + 1) = dot)"
      using other(2) c [of 0] c [of 1] w(2) by (auto simp: length_Suc_conv numeral_2_eq_2)
    ultimately have "path_comp inp start clen (out, olen) = push_comp inp start clen (out, olen)"
      by (simp only: path_comp_def if_False simp_thms)
    then show ?thesis using push_comp_spec [OF h g c w(2)] other by (simp add: norm_step_def)
  qed
qed

lemma comps_dropWhile: "comps (dropWhile (\<lambda>c. c = slash) s) = comps s"
  by (induction s) auto

lemma comps_takeWhile:
  assumes "s \<noteq> []" and "hd s \<noteq> slash"
  shows "comps s = takeWhile (\<lambda>c. c \<noteq> slash) s # comps (dropWhile (\<lambda>c. c \<noteq> slash) s)"
proof -
  let ?w = "takeWhile (\<lambda>c. c \<noteq> slash) s" and ?r = "dropWhile (\<lambda>c. c \<noteq> slash) s"
  have w: "?w \<noteq> []" "slash \<notin> set ?w" using assms by (cases s; auto dest: set_takeWhileD)+
  have s: "s = ?w @ ?r" by simp
  show ?thesis
  proof (cases ?r)
    case Nil
    then have "s = ?w" using s by (metis append_Nil2)
    with comps_word [OF w(2,1)] have "comps s = [?w]" by metis
    then show ?thesis by (simp only: Nil comps_Nil)
  next
    case (Cons c r)
    then have "c = slash" using hd_dropWhile [of "\<lambda>c. c \<noteq> slash" s] by simp
    then show ?thesis using comps_word_slash [OF w(2,1), of r] s Cons by (metis comps_slash)
  qed
qed

lemma path_loop_spec:
  assumes "0 \<notin> set inp" and "holds st ws" and "good_comps ws"
  shows "holds (path_loop inp p st) (fold norm_step (comps (drop p inp)) ws)
    \<and> good_comps (fold norm_step (comps (drop p inp)) ws)"
  using assms
proof (induction inp p st arbitrary: ws rule: path_loop.induct)
  case (1 inp p st)
  have nz: "char_at inp i = 0 \<longleftrightarrow> length inp \<le> i" for i using 1(2) by (auto simp: char_at_def dest: nth_mem)
  show ?case
  proof (cases "char_at inp p = 0")
    case True
    then show ?thesis using 1(3,4) by (simp add: path_loop.simps [of inp p] nz)
  next
    case pn: False
    define start where "start = skip_while (\<lambda>c. c = slash) inp p"
    have d: "drop start inp = dropWhile (\<lambda>c. c = slash) (drop p inp)" by (simp add: start_def drop_skip_while)
    then have cs: "comps (drop start inp) = comps (drop p inp)" by (simp add: comps_dropWhile)
    show ?thesis
    proof (cases "char_at inp start = 0")
      case True
      then have "comps (drop p inp) = []" using cs by (simp add: nz)
      with True pn 1(3,4) show ?thesis by (simp add: path_loop.simps [of inp p] start_def [symmetric])
    next
      case sn: False
      define stop where "stop = skip_while (\<lambda>c. c \<noteq> 0 \<and> c \<noteq> slash) inp start"
      define w where "w = takeWhile (\<lambda>c. c \<noteq> slash) (drop start inp)"
      have ne: "drop start inp \<noteq> []" using sn nz by simp
      have "hd (drop start inp) \<noteq> slash" using hd_dropWhile [of "\<lambda>c. c = slash" "drop p inp"] ne d by metis
      note cw = comps_takeWhile [OF ne this]
      have w: "w \<noteq> []" "slash \<notin> set w" using cw comps_set [of w "drop start inp"] by (simp_all add: w_def)
      have eq: "takeWhile (\<lambda>c. c \<noteq> 0 \<and> c \<noteq> slash) (drop start inp) = w"
        unfolding w_def by (rule takeWhile_cong) (use 1(2) in \<open>auto dest: in_set_dropD\<close>)
      have st: "stop - start = length w" by (simp add: stop_def skip_while_spec eq)
      have wt: "w = take (stop - start) (drop start inp)" unfolding st w_def by (rule takeWhile_eq_take)
      have "stop = start + length w" by (simp add: stop_def skip_while_spec eq)
      then have ds: "drop stop inp = dropWhile (\<lambda>c. c \<noteq> slash) (drop start inp)"
        by (simp add: dropWhile_eq_drop w_def add.commute)
      obtain out olen where so: "st = (out, olen)" by fastforce
      have h: "holds (path_comp inp start (stop - start) st) (norm_step w ws)"
        unfolding so by (rule path_comp_spec [OF 1(3) [unfolded so] 1(4) wt st [symmetric]])
      have e: "path_loop inp p st = path_loop inp stop (path_comp inp start (stop - start) st)"
        using pn sn by (simp add: path_loop.simps [of inp p] start_def stop_def Let_def)
      have f: "fold norm_step (comps (drop p inp)) ws = fold norm_step (comps (drop stop inp)) (norm_step w ws)"
        using cw cs ds by (simp add: w_def)
      show ?thesis unfolding e f
        by (rule 1(1) [OF pn start_def sn stop_def 1(2) h norm_step_good [OF 1(4) w]])
    qed
  qed
qed

lemma resolve_path_spec:
  assumes "0 \<notin> set cwd" and "0 \<notin> set inp" and "cwd = render ws" and "good_comps ws"
  shows "holds (resolve_path cwd inp out0) (normalize ws inp) \<and> good_comps (normalize ws inp)"
proof -
  let ?st0 = "if char_at inp 0 = slash then (out0(0 := slash, 1 := 0), 1)
    else ((blit out0 0 (char_at cwd) 0 (str_len cwd))(str_len cwd := 0), str_len cwd)"
  let ?ws0 = "if char_at inp 0 = slash then [] else ws"
  have l: "str_len cwd = length (render ws)" using assms(1,3) by (simp add: str_len_no_nul)
  have h0: "holds ?st0 ?ws0"
  proof (cases "char_at inp 0 = slash")
    case True
    then show ?thesis by (simp add: holds_def render_def)
  next
    case False
    have "holds ((blit out0 0 (char_at cwd) 0 (str_len cwd))(str_len cwd := 0), str_len cwd) ws"
      unfolding l by (rule holdsI) (auto simp: blit_apply char_at_def assms(3))
    with False show ?thesis by simp
  qed
  have "good_comps ?ws0" using assms(4) by (simp add: good_comps_def)
  from path_loop_spec [OF assms(2) h0 this, of 0]
  have p: "holds (path_loop inp 0 ?st0) (normalize ws inp)" "good_comps (normalize ws inp)"
    by (simp_all add: normalize_def)
  obtain out olen where r: "path_loop inp 0 ?st0 = (out, olen)" by fastforce
  have "olen \<noteq> 0" using holds_length [of out olen] p(1) length_render [of "normalize ws inp"] by (simp add: r)
  then have "resolve_path cwd inp out0 = (out, olen)"
    using r unfolding resolve_path_def resolve_start_def Let_def by simp
  with p show ?thesis by (simp add: r)
qed

lemma comps_concat: "good_comps ws \<Longrightarrow> comps (concat (map (\<lambda>w. slash # w) ws)) = ws"
proof (induction ws)
  case (Cons w ws)
  then have w: "w \<noteq> []" "slash \<notin> set w" "good_comps ws" by (auto simp: good_comps_def)
  show ?case
  proof (cases ws)
    case Nil
    then show ?thesis using comps_word [OF w(2,1)] by simp
  next
    case (Cons v vs)
    then show ?thesis using comps_word_slash [OF w(2,1)] Cons.IH [OF w(3)] by simp
  qed
qed simp

lemma comps_render: "good_comps ws \<Longrightarrow> comps (render ws) = ws"
  using comps_concat [of ws] by (auto simp: render_def)

section \<open>Comparing, history, words\<close>

function streq_from :: "cstr \<Rightarrow> cstr \<Rightarrow> nat \<Rightarrow> bool" where
  "streq_from a b i =
     (if char_at a i \<noteq> 0 \<and> char_at a i = char_at b i then streq_from a b (i + 1)
      else char_at a i = char_at b i)"
  by pat_completeness auto
termination
  by (relation "measure (\<lambda>(a, b, i). length a - i)") (auto simp: char_at_def split: if_splits)

declare streq_from.simps [simp del]

definition streq :: "cstr \<Rightarrow> cstr \<Rightarrow> bool" where
  "streq a b = streq_from a b 0"

lemma streq_from_spec:
  assumes "0 \<notin> set a" and "0 \<notin> set b"
  shows "take i a = take i b \<Longrightarrow> streq_from a b i \<longleftrightarrow> a = b"
  using assms
proof (induction a b i rule: streq_from.induct)
  case (1 a b i)
  have z: "char_at a j = 0 \<longleftrightarrow> length a \<le> j" "char_at b j = 0 \<longleftrightarrow> length b \<le> j" for j
    using 1(3,4) by (auto simp: char_at_def dest: nth_mem)
  show ?case
  proof (cases "char_at a i \<noteq> 0 \<and> char_at a i = char_at b i")
    case True
    then have "i < length a" "i < length b" using z by (metis not_le)+
    then have "take (i + 1) a = take (i + 1) b" using 1(2) True by (simp add: take_Suc_conv_app_nth char_at_def)
    with 1(1) [OF True] 1(3,4) True show ?thesis by (auto simp: streq_from.simps [of a b i])
  next
    case False
    have "char_at a i = char_at b i \<longleftrightarrow> a = b"
    proof
      assume e: "char_at a i = char_at b i"
      then have "char_at a i = 0" "char_at b i = 0" using False by auto
      then have "take i a = a" "take i b = b" using z by simp_all
      with 1(2) show "a = b" by simp
    qed simp
    moreover have "streq_from a b i \<longleftrightarrow> char_at a i = char_at b i"
      by (subst streq_from.simps) (rule if_not_P [OF False])
    ultimately show ?thesis by simp
  qed
qed

lemma streq_eq: "0 \<notin> set a \<Longrightarrow> 0 \<notin> set b \<Longrightarrow> streq a b \<longleftrightarrow> a = b"
  by (simp add: streq_def streq_from_spec)

text \<open>
  The rows of \<^verbatim>\<open>hist\<close> below \<^verbatim>\<open>hist_count\<close>, as strings. The test for a repeated line is the loop of
  \<open>streq\<close>; shifting the rows down drops the first string; a row takes 63 characters.
\<close>

definition hist_push :: "cstr list \<Rightarrow> cstr \<Rightarrow> cstr list" where
  "hist_push hist s =
     (if char_at s 0 = 0 then hist
      else if hist \<noteq> [] \<and> streq s (last hist) then hist
      else (if length hist = 16 then tl hist else hist) @ [take 63 s])"

text \<open>
  The loop that cuts the line into words: \<open>argv\<close> holds the start index of each word, and the space behind
  a word is overwritten with NUL. \<open>arg_str\<close> is the C string at an index.
\<close>

function split_loop :: "cstr \<Rightarrow> nat \<Rightarrow> nat list \<Rightarrow> nat list \<times> cstr" where
  "split_loop line p argv =
     (if char_at line p \<noteq> 0 \<and> length argv < 16 then
        let start = skip_while (\<lambda>c. c = 32) line p in
        if char_at line start = 0 then (argv, line)
        else let stop = skip_while (\<lambda>c. c \<noteq> 0 \<and> c \<noteq> 32) line start in
          if char_at line stop = 32 then split_loop (line[stop := 0]) (stop + 1) (argv @ [start])
          else split_loop line stop (argv @ [start])
      else (argv, line))"
  by pat_completeness auto
termination
  by (relation "measure (\<lambda>(line, p, argv). 16 - length argv)") auto

declare split_loop.simps [simp del]

definition arg_str :: "cstr \<Rightarrow> nat \<Rightarrow> cstr" where
  "arg_str line i = takeWhile (\<lambda>c. c \<noteq> 0) (drop i line)"

definition split_words :: "cstr \<Rightarrow> cstr list" where
  "split_words line = (let (argv, line') = split_loop line 0 [] in map (arg_str line') argv)"

text \<open>The words of a line, as maximal runs of characters other than a space.\<close>

function words :: "cstr \<Rightarrow> cstr list" where
  "words s = (let r = dropWhile (\<lambda>c. c = 32) s in
     if r = [] then [] else takeWhile (\<lambda>c. c \<noteq> 32) r # words (dropWhile (\<lambda>c. c \<noteq> 32) r))"
  by pat_completeness auto
termination
proof (relation "measure length", goal_cases)
  case (2 s r)
  then have "hd r \<noteq> 32" using hd_dropWhile [of "\<lambda>c. c = 32" s] by simp
  with 2(2) obtain c cs where r: "r = c # cs" "c \<noteq> 32" by (cases r) auto
  have "length (dropWhile (\<lambda>c. c \<noteq> 32) cs) \<le> length cs" by (rule length_dropWhile_le)
  moreover have "length r \<le> length s" unfolding 2(1) by (rule length_dropWhile_le)
  ultimately show ?case using r by simp
qed simp

declare words.simps [simp del]

lemma words_split:
  assumes "dropWhile (\<lambda>c. c = 32) s = w @ r" and "w \<noteq> []" and "32 \<notin> set w" and "r = [] \<or> hd r = 32"
  shows "words s = w # words r"
proof -
  have "takeWhile (\<lambda>c. c \<noteq> 32) (w @ r) = w" "dropWhile (\<lambda>c. c \<noteq> 32) (w @ r) = r"
    using assms(3,4) by (cases r; auto simp: takeWhile_append dropWhile_append)+
  then show ?thesis using assms(1,2) by (simp add: words.simps [of s])
qed

lemma words_space: "words (32 # s) = words s"
  by (simp add: words.simps [of "32 # s"] words.simps [of s])

lemma takeWhile_nul: "takeWhile (\<lambda>c. c \<noteq> 0) (xs @ 0 # ys) = takeWhile (\<lambda>c. c \<noteq> (0 :: u8)) xs"
  by (induction xs) auto

lemma arg_str_update: "i \<le> j \<Longrightarrow> j < k \<Longrightarrow> j < length line \<Longrightarrow> line ! j = 0 \<Longrightarrow> arg_str (line[k := v]) i = arg_str line i"
proof -
  assume a: "i \<le> j" "j < k" "j < length line" "line ! j = 0"
  have cut: "drop i l = take (j - i) (drop i l) @ 0 # drop (Suc (j - i)) (drop i l)"
    if "j < length l" "l ! j = 0" for l :: cstr
  proof -
    have "drop i l = take (j - i) (drop i l) @ (drop i l) ! (j - i) # drop (Suc (j - i)) (drop i l)"
      by (rule id_take_nth_drop) (use a that in simp)
    then show ?thesis using a that by simp
  qed
  have "take (j - i) (drop i (line[k := v])) = take (j - i) (drop i line)"
    using a by (intro nth_equalityI) auto
  then have c: "drop i (line[k := v]) = take (j - i) (drop i line) @ 0 # drop (Suc (j - i)) (drop i (line[k := v]))"
    using cut [of "line[k := v]"] a by simp
  show ?thesis unfolding arg_str_def
    using arg_cong [OF c, of "takeWhile (\<lambda>c. c \<noteq> 0)"] arg_cong [OF cut [OF a(3,4)], of "takeWhile (\<lambda>c. c \<noteq> 0)"]
    by (simp only: takeWhile_nul)
qed

lemma arg_str_word: "drop i line = w @ 0 # r \<Longrightarrow> 0 \<notin> set w \<Longrightarrow> arg_str line i = w"
  by (auto simp: arg_str_def takeWhile_append)

lemma split_loop_spec:
  assumes "0 \<notin> set (drop p line)" and "\<forall>i \<in> set argv. p < length line \<longrightarrow> (\<exists>j. i \<le> j \<and> j < p \<and> line ! j = 0)"
    and "length argv \<le> 16"
  shows "case split_loop line p argv of (argv', line') \<Rightarrow> map (arg_str line') argv'
    = map (arg_str line) argv @ take (16 - length argv) (words (drop p line))"
  using assms
proof (induction line p argv rule: split_loop.induct)
  case (1 line p argv)
  have nz: "char_at line i = 0 \<longleftrightarrow> length line \<le> i" if "p \<le> i" for i
  proof -
    have "line ! i \<in> set (drop p line)" if "i < length line"
      using nth_mem [of "i - p" "drop p line"] diff_less_mono [OF that \<open>p \<le> i\<close>] \<open>p \<le> i\<close> by simp
    with 1(3) show ?thesis by (auto simp: char_at_def)
  qed
  show ?case
  proof (cases "char_at line p \<noteq> 0 \<and> length argv < 16")
    case False
    then have "length argv = 16 \<or> words (drop p line) = []" using 1(5) nz [of p] by (auto simp: words.simps [of "[]"])
    with False show ?thesis by (auto simp: split_loop.simps [of line p])
  next
    case True
    define start where "start = skip_while (\<lambda>c. c = 32) line p"
    have ps: "p \<le> start" by (simp add: start_def skip_while_spec)
    have d: "drop start line = dropWhile (\<lambda>c. c = 32) (drop p line)" by (simp add: start_def drop_skip_while)
    show ?thesis
    proof (cases "char_at line start = 0")
      case e: True
      then have "words (drop p line) = []" using nz [OF ps] d by (simp add: words.simps [of "drop p line"])
      with True e show ?thesis by (simp add: split_loop.simps [of line p] start_def [symmetric])
    next
      case sn: False
      define stop where "stop = skip_while (\<lambda>c. c \<noteq> 0 \<and> c \<noteq> 32) line start"
      define w where "w = takeWhile (\<lambda>c. c \<noteq> 32) (drop start line)"
      have z: "0 \<notin> set (drop start line)" using 1(3) ps by (metis set_drop_subset_set_drop subsetD)
      have eq: "takeWhile (\<lambda>c. c \<noteq> 0 \<and> c \<noteq> 32) (drop start line) = w"
        unfolding w_def by (rule takeWhile_cong) (use z in auto)
      have st: "stop = start + length w" by (simp add: stop_def skip_while_spec eq)
      have ds: "drop stop line = dropWhile (\<lambda>c. c \<noteq> 32) (drop start line)"
        by (simp add: st dropWhile_eq_drop w_def add.commute)
      have sp: "drop start line = w @ drop stop line" by (simp add: ds w_def)
      have "drop start line \<noteq> []" using sn nz [OF ps] by simp
      then have hd: "hd (drop start line) \<noteq> 32" using d hd_dropWhile [of "\<lambda>c. c = 32" "drop p line"] by metis
      have w: "w \<noteq> []" using hd \<open>drop start line \<noteq> []\<close> by (cases "drop start line") (simp_all add: w_def)
      have w': "c \<in> set w \<Longrightarrow> c \<noteq> 32 \<and> c \<in> set (drop start line)" for c
        unfolding w_def by (drule set_takeWhileD) simp
      then have w: "w \<noteq> []" "32 \<notin> set w" "0 \<notin> set w" using w z by blast+
      have r: "drop stop line = [] \<or> hd (drop stop line) = 32"
        using hd_dropWhile [of "\<lambda>c. c \<noteq> 32" "drop start line"] ds by metis
      have ws: "words (drop p line) = w # words (drop stop line)"
        by (rule words_split [OF _ w(1,2) r]) (use d sp in simp)
      have tk: "take (16 - length argv) (w # x) = w # take (16 - length (argv @ [start])) x" for x
      proof -
        have "16 - length argv = Suc (16 - length (argv @ [start]))" using True by simp linarith
        then show ?thesis by (simp only: take_Suc_Cons)
      qed
      show ?thesis
      proof (cases "char_at line stop = 32")
        case True32: True
        then have lt: "stop < length line" "line ! stop = 32" by (simp_all add: char_at_def split: if_splits)
        then have ds2: "drop stop line = 32 # drop (stop + 1) line" by (simp add: Cons_nth_drop_Suc [symmetric])
        let ?l = "line[stop := 0]"
        have old: "arg_str ?l i = arg_str line i" if "i \<in> set argv" for i
        proof -
          have "p < length line" using ps st lt(1) by simp
          with 1(4) that obtain j where "i \<le> j" "j < p" "line ! j = 0" by blast
          with ps st lt(1) show ?thesis by (intro arg_str_update [of i j]) simp_all
        qed
        have sl: "stop - start = length w" "start \<le> stop" by (simp_all add: st)
        have "drop start ?l = (drop start line)[length w := 0]" using drop_update_swap [OF sl(2)] by (simp only: sl)
        then have "drop start ?l = w @ 0 # drop (stop + 1) line" by (simp only: sp ds2 list_update_length)
        then have new: "arg_str ?l start = w" by (rule arg_str_word) (rule w(3))
        have z': "0 \<notin> set (drop (stop + 1) ?l)" using z sp ds2 by simp
        have t': "\<forall>i \<in> set (argv @ [start]). stop + 1 < length ?l \<longrightarrow> (\<exists>j. i \<le> j \<and> j < stop + 1 \<and> ?l ! j = 0)"
        proof
          fix i assume "i \<in> set (argv @ [start])"
          moreover have "i \<le> stop" if "i \<in> set argv"
          proof -
            have "p < length line" using ps st lt(1) by simp
            with 1(4) that obtain j where "i \<le> j" "j < p" by blast
            with ps st show ?thesis by simp
          qed
          ultimately have "i \<le> stop" using st by auto
          then show "stop + 1 < length ?l \<longrightarrow> (\<exists>j. i \<le> j \<and> j < stop + 1 \<and> ?l ! j = 0)"
            using lt(1) by (intro impI exI [of _ stop]) simp
        qed
        have len: "length (argv @ [start]) \<le> 16" using True by simp
        have e: "split_loop line p argv = split_loop ?l (stop + 1) (argv @ [start])"
          using True sn True32 by (simp add: split_loop.simps [of line p] start_def [symmetric] stop_def [symmetric] Let_def)
        have m: "map (arg_str ?l) (argv @ [start]) = map (arg_str line) argv @ [w]"
          using old new by simp
        have wr: "words (drop p line) = w # words (drop (stop + 1) ?l)"
          using ws ds2 by (simp add: words_space)
        from 1(1) [OF True start_def sn stop_def True32 z' t' len]
        show ?thesis unfolding e m wr tk by simp
      next
        case False
        have se: "length line \<le> stop"
        proof (rule ccontr)
          assume "\<not> length line \<le> stop"
          then have "drop stop line = line ! stop # drop (stop + 1) line" by (simp add: Cons_nth_drop_Suc)
          with r False \<open>\<not> length line \<le> stop\<close> show False by (simp add: char_at_def)
        qed
        have e: "split_loop line p argv = split_loop line stop (argv @ [start])"
          using True sn False by (simp add: split_loop.simps [of line p] start_def [symmetric] stop_def [symmetric] Let_def)
        have z': "0 \<notin> set (drop stop line)" using se by simp
        have t': "\<forall>i \<in> set (argv @ [start]). stop < length line \<longrightarrow> (\<exists>j. i \<le> j \<and> j < stop \<and> line ! j = 0)"
          using se by simp
        have len: "length (argv @ [start]) \<le> 16" using True by simp
        have "arg_str line start = w" using sp se w(3) by (simp add: arg_str_def) (metis takeWhile_eq_all_conv)
        then have m: "map (arg_str line) (argv @ [start]) = map (arg_str line) argv @ [w]" by simp
        from 1(2) [OF True start_def sn stop_def False z' t' len]
        show ?thesis unfolding e m ws tk by simp
      qed
    qed
  qed
qed


lemma split_words_spec: "0 \<notin> set line \<Longrightarrow> split_words line = take 16 (words line)"
  using split_loop_spec [of 0 line "[]"] by (simp add: split_words_def split: prod.splits)

section \<open>Reading a line\<close>

text \<open>
  The input is the list of the results of the successive one-byte reads of descriptor 0, \<open>None\<close> for a
  read that found nothing (the shell then yields). A result \<open>None\<close> of the functions says that the list
  ended first. The output is the bytes written to the terminal.
\<close>

fun read_byte_bounded :: "nat \<Rightarrow> u8 option list \<Rightarrow> (u8 option \<times> u8 option list) option" where
  "read_byte_bounded tries ps =
     (if tries < 20000 then
        (case ps of [] \<Rightarrow> None
         | Some c # ps' \<Rightarrow> Some (Some c, ps')
         | None # ps' \<Rightarrow> read_byte_bounded (tries + 1) ps')
      else Some (None, ps))"

declare read_byte_bounded.simps [simp del]

lemma read_byte_bounded_length: "read_byte_bounded tries ps = Some (r, ps') \<Longrightarrow> length ps' \<le> length ps"
proof (induction tries ps rule: read_byte_bounded.induct)
  case (1 tries ps)
  from 1(2) show ?case
    by (subst (asm) read_byte_bounded.simps)
      (use 1(1) in \<open>fastforce split: if_splits list.splits option.splits\<close>)
qed

definition erase :: "nat \<Rightarrow> cstr" where
  "erase n = concat (replicate n [8, 32, 8])"

text \<open>The arrow keys: \<open>up\<close> is \<^verbatim>\<open>ESC [ A\<close>, otherwise \<^verbatim>\<open>ESC [ B\<close>.\<close>

definition hist_move :: "cstr list \<Rightarrow> bool \<Rightarrow> nat \<Rightarrow> nat" where
  "hist_move hist up hpos = (if up then (if hpos > 0 then hpos - 1 else hpos)
     else (if hpos < length hist then hpos + 1 else hpos))"

definition recall :: "cstr list \<Rightarrow> buf \<Rightarrow> nat \<Rightarrow> buf \<times> nat \<times> cstr" where
  "recall hist line hpos =
     (if hpos < length hist
      then let i = min (str_len (hist ! hpos)) 63; line' = blit line 0 (char_at (hist ! hpos)) 0 i
           in (line', i, map line' [0..<i])
      else (line, 0, []))"

function read_line_loop ::
  "cstr list \<Rightarrow> u8 option list \<Rightarrow> buf \<Rightarrow> nat \<Rightarrow> nat \<Rightarrow> cstr \<Rightarrow> (buf \<times> nat \<times> cstr \<times> u8 option list) option" where
  "read_line_loop hist ps line n hpos out =
     (case ps of [] \<Rightarrow> None
      | None # ps1 \<Rightarrow> read_line_loop hist ps1 line n hpos out
      | Some ch # ps1 \<Rightarrow>
          if ch = 27 then
            (case read_byte_bounded 0 ps1 of None \<Rightarrow> None
             | Some (a, ps2) \<Rightarrow>
                 if a \<noteq> Some 91 then read_line_loop hist ps2 line n hpos out
                 else (case read_byte_bounded 0 ps2 of None \<Rightarrow> None
                   | Some (b, ps3) \<Rightarrow>
                       if b = Some 65 \<or> b = Some 66 then
                         let hpos1 = hist_move hist (b = Some 65) hpos; (line1, n1, redraw) = recall hist line hpos1
                         in read_line_loop hist ps3 line1 n1 hpos1 (out @ erase n @ redraw)
                       else read_line_loop hist ps3 line n hpos out))
          else if ch = 13 \<or> ch = 10 then Some (line(n := 0), n, out @ [10], ps1)
          else if ch = 8 then
            (if n > 0 then read_line_loop hist ps1 line (n - 1) hpos (out @ [8, 32, 8])
             else read_line_loop hist ps1 line n hpos out)
          else if sint ch < 32 then read_line_loop hist ps1 line n hpos out
          else if n < 63 then read_line_loop hist ps1 (line(n := ch)) (n + 1) hpos (out @ [ch])
          else read_line_loop hist ps1 line n hpos (out @ [ch]))"
  by pat_completeness auto
termination
  by (relation "measure (\<lambda>(hist, ps, line, n, hpos, out). length ps)")
    (auto dest!: read_byte_bounded_length)

declare read_line_loop.simps [simp del]

lemma read_line_step:
  "read_line_loop hist [] line n hpos out = None"
  "read_line_loop hist (None # ps1) line n hpos out = read_line_loop hist ps1 line n hpos out"
  "read_line_loop hist (Some ch # ps1) line n hpos out =
          (if ch = 27 then
            (case read_byte_bounded 0 ps1 of None \<Rightarrow> None
             | Some (a, ps2) \<Rightarrow>
                 if a \<noteq> Some 91 then read_line_loop hist ps2 line n hpos out
                 else (case read_byte_bounded 0 ps2 of None \<Rightarrow> None
                   | Some (b, ps3) \<Rightarrow>
                       if b = Some 65 \<or> b = Some 66 then
                         let hpos1 = hist_move hist (b = Some 65) hpos; (line1, n1, redraw) = recall hist line hpos1
                         in read_line_loop hist ps3 line1 n1 hpos1 (out @ erase n @ redraw)
                       else read_line_loop hist ps3 line n hpos out))
          else if ch = 13 \<or> ch = 10 then Some (line(n := 0), n, out @ [10], ps1)
          else if ch = 8 then
            (if n > 0 then read_line_loop hist ps1 line (n - 1) hpos (out @ [8, 32, 8])
             else read_line_loop hist ps1 line n hpos out)
          else if sint ch < 32 then read_line_loop hist ps1 line n hpos out
          else if n < 63 then read_line_loop hist ps1 (line(n := ch)) (n + 1) hpos (out @ [ch])
          else read_line_loop hist ps1 line n hpos (out @ [ch]))"
  by (subst read_line_loop.simps; simp only: list.case option.case)+

definition read_line :: "cstr list \<Rightarrow> buf \<Rightarrow> u8 option list \<Rightarrow> (buf \<times> nat \<times> cstr \<times> u8 option list) option" where
  "read_line hist line ps = read_line_loop hist ps line 0 (length hist) []"


lemma recall_bounded:
  "recall hist line hpos = (line1, n1, redraw) \<Longrightarrow> n1 \<le> 63 \<and> (\<forall>p \<ge> 63. line1 p = line p)"
  by (auto simp: recall_def blit_apply Let_def split: if_splits)

lemma read_line_loop_bounded:
  "read_line_loop hist ps line n hpos out = Some (line', n', out', ps') \<Longrightarrow> n \<le> 63 \<Longrightarrow>
     n' \<le> 63 \<and> line' n' = 0 \<and> (\<forall>p > 63. line' p = line p)"
proof (induction hist ps line n hpos out rule: read_line_loop.induct)
  case (1 hist ps line n hpos out)
  note IH = 1(1-9) and r = 1(10) and n = 1(11)
  show ?case
  proof (cases ps)
    case Nil
    with r show ?thesis by (simp add: read_line_step)
  next
    case ps: (Cons x ps1)
    show ?thesis
    proof (cases x)
      case None
      with ps IH(1) [OF ps None] r n show ?thesis by (simp add: read_line_step)
    next
      case x: (Some ch)
      consider (esc) "ch = 27" | (ret) "ch \<noteq> 27" "ch = 13 \<or> ch = 10"
        | (edit) "ch \<noteq> 27" "\<not> (ch = 13 \<or> ch = 10)" by blast
      then show ?thesis
      proof cases
        case esc
        show ?thesis
        proof (cases "read_byte_bounded 0 ps1")
          case None
          with r ps x esc show ?thesis by (simp add: read_line_step)
        next
          case a: (Some ra)
          obtain a ps2 where ra: "ra = (a, ps2)" by fastforce
          show ?thesis
          proof (cases "a = Some 91")
            case False
            with IH(2) [OF ps x esc a ra [symmetric]] r n ps x esc a ra show ?thesis by (simp add: read_line_step)
          next
            case a91: True
            show ?thesis
            proof (cases "read_byte_bounded 0 ps2")
              case None
              with r ps x esc a ra a91 show ?thesis by (simp add: read_line_step)
            next
              case b: (Some rb)
              obtain b ps3 where rb: "rb = (b, ps3)" by fastforce
              show ?thesis
              proof (cases "b = Some 65 \<or> b = Some 66")
                case True
                obtain line1 n1 redraw where rc: "recall hist line (hist_move hist (b = Some 65) hpos) = (line1, n1, redraw)"
                  using prod_cases3 by blast
                note bd = recall_bounded [OF rc]
                have "read_line_loop hist ps3 line1 n1 (hist_move hist (b = Some 65) hpos) (out @ erase n @ redraw)
                    = Some (line', n', out', ps')"
                  using r ps x esc a ra a91 b rb True rc by (simp add: read_line_step Let_def)
                from IH(3) [OF ps x esc a ra [symmetric] _ b rb [symmetric] True refl refl rc [symmetric] refl this] a91 bd show ?thesis by simp
              next
                case False
                with IH(4) [OF ps x esc a ra [symmetric] _ b rb [symmetric]] r n ps x esc a ra a91 b rb show ?thesis by (simp add: read_line_step)
              qed
            qed
          qed
        qed
      next
        case ret
        with r ps x n show ?thesis by (auto simp: read_line_step)
      next
        case edit
        with IH(5-9) [OF ps x] r n ps x show ?thesis
          by (auto simp: read_line_step fun_upd_def split: if_splits)
      qed
    qed
  qed
qed

text \<open>The specification of typing without escape sequences.\<close>

definition edit :: "u8 \<Rightarrow> cstr \<Rightarrow> cstr" where
  "edit c l = (if c = 8 then butlast l else if sint c < 32 \<or> 63 \<le> length l then l else l @ [c])"

lemma read_line_loop_edit:
  assumes "27 \<notin> set cs" and "13 \<notin> set cs" and "10 \<notin> set cs" and "length l \<le> 63"
    and "map line [0..<length l] = l"
  shows "\<exists>line' out'. read_line_loop hist (map Some cs @ Some 10 # ps) line (length l) hpos out
    = Some (line', length (fold edit cs l), out', ps)
    \<and> map line' [0..<length (fold edit cs l)] = fold edit cs l"
  using assms
proof (induction cs arbitrary: l line out)
  case Nil
  then show ?case by (auto simp: read_line_step)
next
  case (Cons c cs)
  define l' where "l' = edit c l"
  define line1 where "line1 = (if length l < length l' then line(length l := c) else line)"
  have nc: "c \<noteq> 27" "c \<noteq> 13" "c \<noteq> 10" using Cons.prems by auto
  have "map line1 [0..<length l'] = l'"
  proof -
    consider "c = 8" | "c \<noteq> 8" "sint c < 32 \<or> 63 \<le> length l" | "c \<noteq> 8" "\<not> sint c < 32" "length l < 63" by linarith
    then show ?thesis
    proof cases
      case 1
      have "map line [0..<length l - 1] = butlast l" using arg_cong [OF Cons.prems(5), of butlast]
        by (cases "length l") (simp_all add: map_butlast [symmetric])
      with 1 show ?thesis by (auto simp: l'_def edit_def line1_def)
    next
      case 2
      with Cons.prems(5) show ?thesis by (simp add: l'_def edit_def line1_def)
    next
      case 3
      have "map (line(length l := c)) [0..<length l] = l" using Cons.prems(5) by (metis (mono_tags, lifting)
        atLeastLessThan_iff fun_upd_other map_cong nat_less_le set_upt)
      with 3 show ?thesis by (simp add: l'_def edit_def line1_def)
    qed
  qed
  moreover have "length l' \<le> 63" using Cons.prems(4) by (auto simp: l'_def edit_def)
  moreover have "\<exists>o1. read_line_loop hist (map Some (c # cs) @ Some 10 # ps) line (length l) hpos out
      = read_line_loop hist (map Some cs @ Some 10 # ps) line1 (length l') hpos o1"
    using nc by (auto simp: read_line_step l'_def edit_def line1_def)
  ultimately show ?case using Cons.IH [of l' line1] Cons.prems(1-3) by (auto simp: l'_def)
qed


text \<open>Recalling a line with the arrow keys: after \<open>k\<close> times up, the \<open>k\<close>-th line from the end.\<close>

definition up_key :: "u8 option list" where
  "up_key = [Some 27, Some 91, Some 65]"

lemma up_key_step:
  "read_line_loop hist (up_key @ ps) line n hpos out =
     (let (line1, n1, redraw) = recall hist line (hpos - 1)
      in read_line_loop hist ps line1 n1 (hpos - 1) (out @ erase n @ redraw))"
proof -
  have "hist_move hist True hpos = hpos - 1" by (simp add: hist_move_def)
  then show ?thesis
    by (simp add: up_key_def read_line_step read_byte_bounded.simps [of 0] Let_def)
qed

lemma recall_text:
  assumes "hpos < length hist" and "recall hist line hpos = (line1, n1, redraw)" and "0 \<notin> set (hist ! hpos)"
  shows "n1 = min (length (hist ! hpos)) 63" "map line1 [0..<n1] = take 63 (hist ! hpos)"
proof -
  have l: "str_len (hist ! hpos) = length (hist ! hpos)" by (rule str_len_no_nul [OF assms(3)])
  then have r: "n1 = min (length (hist ! hpos)) 63" "line1 = blit line 0 (char_at (hist ! hpos)) 0 n1"
    using assms(1,2) by (auto simp: recall_def Let_def)
  show "n1 = min (length (hist ! hpos)) 63" by (rule r)
  show "map line1 [0..<n1] = take 63 (hist ! hpos)"
    by (rule nth_equalityI) (auto simp: r blit_apply char_at_def)
qed

lemma up_keys:
  assumes "\<forall>h \<in> set hist. 0 \<notin> set h" and "hist \<noteq> []" and "0 < k" and "hpos \<le> length hist"
  shows "\<exists>line' out'. read_line_loop hist (concat (replicate k up_key) @ Some 10 # ps) line n hpos out
     = Some (line', length (take 63 (hist ! (hpos - k))), out', ps)
     \<and> map line' [0..<length (take 63 (hist ! (hpos - k)))] = take 63 (hist ! (hpos - k))"
  using assms(3,4)
proof (induction k arbitrary: line n hpos out)
  case (Suc k)
  obtain line1 n1 redraw where rc: "recall hist line (hpos - 1) = (line1, n1, redraw)" using prod_cases3 by blast
  have lt: "hpos - 1 < length hist" using Suc.prems(2) assms(2) by (cases hist) auto
  have z: "0 \<notin> set (hist ! (hpos - 1))" using assms(1) lt by simp
  note rt = recall_text [OF lt rc z]
  have s: "read_line_loop hist (concat (replicate (Suc k) up_key) @ Some 10 # ps) line n hpos out
      = read_line_loop hist (concat (replicate k up_key) @ Some 10 # ps) line1 n1 (hpos - 1) (out @ erase n @ redraw)"
    using rc by (simp add: up_key_step)
  show ?case
  proof (cases k)
    case 0
    have "map (line1(n1 := 0)) [0..<n1] = map line1 [0..<n1]" by simp
    with rt 0 show ?thesis unfolding s by (simp add: read_line_step min.commute)
  next
    case (Suc m)
    with Suc.IH [of "hpos - 1" line1 n1] Suc.prems(2) show ?thesis unfolding s by simp
  qed
qed simp

text \<open>The history keeps the last 16 lines entered, without repetitions of a line.\<close>

definition last_n :: "nat \<Rightarrow> 'a list \<Rightarrow> 'a list" where
  "last_n n xs = drop (length xs - n) xs"

lemma remdups_adj_snoc:
  "remdups_adj (xs @ [x]) = (if xs \<noteq> [] \<and> last xs = x then remdups_adj xs else remdups_adj xs @ [x])"
  by (induction xs rule: remdups_adj.induct) auto

lemma hist_push_spec:
  assumes "\<forall>s \<in> set lines. 0 \<notin> set s \<and> length s \<le> 63"
  shows "fold (\<lambda>s h. hist_push h s) lines [] = last_n 16 (remdups_adj (filter (\<lambda>s. s \<noteq> []) lines))"
  using assms
proof (induction lines rule: rev_induct)
  case Nil
  show ?case by (simp add: last_n_def)
next
  case (snoc s lines)
  define xs where "xs = filter (\<lambda>s. s \<noteq> []) lines"
  define h where "h = last_n 16 (remdups_adj xs)"
  have ih: "fold (\<lambda>s h. hist_push h s) lines [] = h" using snoc by (simp add: h_def xs_def)
  have s: "0 \<notin> set s" "length s \<le> 63" using snoc.prems by simp_all
  have e: "char_at s 0 = 0 \<longleftrightarrow> s = []" using s(1) by (cases s) (auto simp: char_at_def)
  have "h = [] \<longleftrightarrow> length (remdups_adj xs) = 0" unfolding h_def last_n_def drop_eq_Nil by linarith
  then have hn: "h = [] \<longleftrightarrow> xs = []" by simp
  have lh: "last h = last xs" if "xs \<noteq> []"
  proof -
    have "h \<noteq> []" using that hn by simp
    then show ?thesis by (simp add: h_def last_n_def)
  qed
  have "0 \<notin> set (last xs)" if "xs \<noteq> []"
  proof -
    have "last xs \<in> set xs" using that by simp
    then show ?thesis using snoc.prems by (auto simp: xs_def)
  qed
  then have sq: "streq s (last h) \<longleftrightarrow> s = last xs" if "xs \<noteq> []" using that streq_eq [OF s(1)] lh by simp
  have l16: "length h = 16 \<longleftrightarrow> 16 \<le> length (remdups_adj xs)" by (simp add: h_def last_n_def) linarith
  have app: "(if length h = 16 then tl h else h) @ [s] = last_n 16 (remdups_adj xs @ [s])"
  proof (cases "16 \<le> length (remdups_adj xs)")
    case True
    then have "tl h = drop (Suc (length (remdups_adj xs) - 16)) (remdups_adj xs)"
      by (simp add: h_def last_n_def drop_Suc tl_drop)
    moreover have "Suc (length (remdups_adj xs) - 16) = length (remdups_adj xs @ [s]) - 16" using True by simp
    ultimately show ?thesis using True l16 by (simp add: last_n_def)
  next
    case False
    then show ?thesis using l16 by (simp add: h_def last_n_def)
  qed
  have f: "fold (\<lambda>s h. hist_push h s) (lines @ [s]) [] = hist_push h s" using ih by simp
  show ?case
  proof (cases "s = []")
    case True
    then have "hist_push h s = h" using e by (simp add: hist_push_def)
    with True show ?thesis unfolding f by (simp add: h_def xs_def)
  next
    case False
    have g: "filter (\<lambda>s. s \<noteq> []) (lines @ [s]) = xs @ [s]" using False by (simp add: xs_def)
    show ?thesis
    proof (cases "xs \<noteq> [] \<and> last xs = s")
      case True
      then show ?thesis unfolding f g using False hn sq by (simp add: hist_push_def e remdups_adj_snoc) (simp add: h_def)
    next
      case nd: False
      then have "\<not> (h \<noteq> [] \<and> streq s (last h))" using hn sq by auto
      then have "hist_push h s = (if length h = 16 then tl h else h) @ [s]" using False s(2) by (auto simp: hist_push_def e)
      then show ?thesis unfolding f g using app nd by (auto simp: remdups_adj_snoc)
    qed
  qed
qed

section \<open>Properties\<close>

text \<open>
  C21. Making a path absolute normalizes it: the buffer ends up holding, NUL-terminated, the slash-joined
  components that the pieces of the argument leave when they act one after the other on the working
  directory (or on the root, if the argument starts with a slash), \<open>.\<close> doing nothing and \<open>..\<close> dropping
  the last component, never above the root. The kernel's components of the result are exactly these.
\<close>

theorem resolve_path_normalizes:
  assumes "0 \<notin> set (render ws)" and "0 \<notin> set inp" and "good_comps ws"
  shows "case resolve_path (render ws) inp out0 of (out, olen) \<Rightarrow>
    map out [0..<olen] = render (normalize ws inp) \<and> out olen = 0
    \<and> comps (map out [0..<olen]) = normalize ws inp"
  using resolve_path_spec [OF assms(1,2) refl assms(3), of out0] comps_render
  by (auto simp: holds_def)

theorem resolve_path_normalizes_witness:
  "map (fst (resolve_path (str ''/usr'') (str ''../bin//./x/'') (\<lambda>_. 9))) [0..<6] = str ''/bin/x''"
proof -
  have w: "str ''/usr'' = render [str ''usr'']" "good_comps [str ''usr'']"
    "0 \<notin> set (render [str ''usr''])" "0 \<notin> set (str ''../bin//./x/'')" by code_simp+
  have n: "normalize [str ''usr''] (str ''../bin//./x/'') = [str ''bin'', str ''x'']"
    "render [str ''bin'', str ''x''] = str ''/bin/x''" "length (str ''/bin/x'') = 6" by code_simp+
  obtain out olen where r: "resolve_path (render [str ''usr'']) (str ''../bin//./x/'') (\<lambda>_. 9) = (out, olen)" by fastforce
  from resolve_path_normalizes [OF w(3,4,2), of "\<lambda>_. 9"] r n have m: "map out [0..<olen] = str ''/bin/x''" by simp
  then have "olen = 6" using n(3) by (metis diff_zero length_map length_upt)
  with m r show ?thesis by (simp add: w(1))
qed

text \<open>
  The path buffer is not bounded: when the normalized path has 128 characters or more, the terminating
  NUL is stored behind the end of the 128-byte array of the callers, whatever lies there.
\<close>

lemma resolve_path_overruns:
  assumes "0 \<notin> set (render ws)" and "0 \<notin> set inp" and "good_comps ws"
    and "128 \<le> length (render (normalize ws inp))" and "\<forall>p \<ge> 128. out0 p \<noteq> 0"
  shows "\<exists>p \<ge> 128. fst (resolve_path (render ws) inp out0) p \<noteq> out0 p"
proof -
  obtain out olen where r: "resolve_path (render ws) inp out0 = (out, olen)" by fastforce
  from resolve_path_spec [OF assms(1,2) refl assms(3), of out0] r
  have h: "holds (out, olen) (normalize ws inp)" by simp
  have "out olen = 0" "128 \<le> olen" using h holds_length [OF h] assms(4) by (simp_all add: holds_def)
  with assms(5) r show ?thesis by (intro exI [of _ olen]) auto
qed

theorem resolve_path_overruns_witness:
  "\<exists>p \<ge> 128. fst (resolve_path (render [replicate 31 97, replicate 31 97, replicate 31 97]) (replicate 31 98) (\<lambda>_. 1)) p \<noteq> 1"
proof -
  have "128 \<le> length (render (normalize [replicate 31 97, replicate 31 97, replicate 31 97] (replicate 31 98)))" by code_simp
  moreover have "0 \<notin> set (render [replicate 31 97, replicate 31 97, replicate 31 (97 :: u8)])"
    "0 \<notin> set (replicate 31 (98 :: u8))" "good_comps [replicate 31 97, replicate 31 97, replicate 31 97]" by code_simp+
  ultimately show ?thesis using resolve_path_overruns
      [of "[replicate 31 97, replicate 31 97, replicate 31 97]" "replicate 31 98" "\<lambda>_. 1"] by simp
qed

text \<open>
  The command line is cut into its words: the strings \<open>argv\<close> points to are the maximal runs of
  characters other than a space, in order, at most 16 of them.
\<close>

lemma split_words_cuts:
  assumes "0 \<notin> set line"
  shows "split_words line = take 16 (words line)"
  by (rule split_words_spec [OF assms])

theorem split_words_cuts_witness:
  "split_words (str '' echo  hi > /f '') = [str ''echo'', str ''hi'', str ''>'', str ''/f'']"
proof -
  have "0 \<notin> set (str '' echo  hi > /f '')" by code_simp
  from split_words_cuts [OF this] have "split_words (str '' echo  hi > /f '') = take 16 (words (str '' echo  hi > /f ''))" .
  also have "\<dots> = [str ''echo'', str ''hi'', str ''>'', str ''/f'']" by code_simp
  finally show ?thesis .
qed

text \<open>
  The history holds the last 16 lines entered, oldest first, empty lines and immediate repetitions
  left out; and pressing the up arrow \<open>k\<close> times and then Enter gives the \<open>k\<close>-th line from its end, the
  oldest one when \<open>k\<close> is larger.
\<close>

lemma history_recalls_lines:
  assumes "\<forall>s \<in> set lines. 0 \<notin> set s \<and> length s \<le> 63"
    and "hist = fold (\<lambda>s h. hist_push h s) lines []" and "hist \<noteq> []" and "0 < k"
  shows "hist = last_n 16 (remdups_adj (filter (\<lambda>s. s \<noteq> []) lines))
    \<and> (\<exists>line' out'. read_line hist line (concat (replicate k up_key) @ Some 10 # ps)
        = Some (line', length (hist ! (length hist - k)), out', ps)
      \<and> map line' [0..<length (hist ! (length hist - k))] = hist ! (length hist - k))"
proof -
  have h: "hist = last_n 16 (remdups_adj (filter (\<lambda>s. s \<noteq> []) lines))"
    unfolding assms(2) by (rule hist_push_spec [OF assms(1)])
  have "set hist \<subseteq> set lines" unfolding h last_n_def using set_drop_subset by fastforce
  then have b: "\<forall>s \<in> set hist. 0 \<notin> set s" "\<forall>s \<in> set hist. length s \<le> 63" using assms(1) by blast+
  have "hist ! (length hist - k) \<in> set hist" using assms(3,4) by (intro nth_mem) simp
  then have t: "take 63 (hist ! (length hist - k)) = hist ! (length hist - k)" using b(2) by simp
  note up = up_keys [OF b(1) assms(3,4) order.refl, of ps line 0 "[]", unfolded t]
  show ?thesis unfolding read_line_def by (rule conjI [OF h up])
qed

theorem history_recalls_lines_witness:
  "\<exists>line' out'. read_line [str ''ls'', str ''pwd''] (\<lambda>_. 0) (up_key @ up_key @ [Some 10])
     = Some (line', 2, out', []) \<and> map line' [0..<2] = str ''ls''"
proof -
  let ?l = "[str ''ls'', str ''ls'', [], str ''pwd'']"
  have f: "[str ''ls'', str ''pwd''] = fold (\<lambda>s h. hist_push h s) ?l []" by code_simp
  have "\<forall>s \<in> set ?l. 0 \<notin> set s \<and> length s \<le> 63" by code_simp
  from history_recalls_lines [OF this f, of 2 "\<lambda>_. 0" "[]"]
  show ?thesis by (simp add: numeral_2_eq_2 str_def)
qed

text \<open>
  C31. Line editing stays in the buffer and does what was typed: whatever the input, escape sequences
  included, at most 63 characters are kept, the NUL is stored behind them, and no byte behind the 64 of the
  array changes; and input without escape sequences gives the printable characters typed, backspace
  taking the last one back, characters after the 63rd ignored.
\<close>

theorem read_line_edits:
  "(case read_line hist line ps of None \<Rightarrow> True
    | Some (line', n, out', rest) \<Rightarrow> n \<le> 63 \<and> line' n = 0 \<and> (\<forall>p > 63. line' p = line p))
   \<and> (if 27 \<notin> set cs \<and> 13 \<notin> set cs \<and> 10 \<notin> set cs then
        \<exists>line' out'. read_line hist line (map Some cs @ Some 10 # ps)
          = Some (line', length (fold edit cs []), out', ps)
          \<and> map line' [0..<length (fold edit cs [])] = fold edit cs []
      else True)"
  using read_line_loop_bounded [of hist ps line 0 "length hist" "[]"]
    read_line_loop_edit [of cs "[]" line hist ps "length hist" "[]"]
  by (auto simp: read_line_def split: option.splits)

theorem read_line_edits_witness:
  "\<exists>line' out'. read_line [] (\<lambda>_. 0) (map Some [108, 115, 8, 112] @ [Some 10]) = Some (line', 2, out', [])
     \<and> map line' [0..<2] = [108, 112]"
proof -
  let ?cs = "[108, 115, 8, 112] :: u8 list"
  have f: "fold edit ?cs [] = [108, 112]" by code_simp
  have l: "length (fold edit ?cs []) = 2" by code_simp
  have c: "27 \<notin> set ?cs \<and> 13 \<notin> set ?cs \<and> 10 \<notin> set ?cs" by code_simp
  note r = read_line_edits [where hist = "[]" and line = "\<lambda>_. 0" and ps = "[]" and cs = ?cs]
  show ?thesis using conjunct2 [OF r, unfolded if_P [OF c] l] unfolding f .
qed

end
