(* ===== verification/Huginn.thy ===== *)
theory Huginn
  imports Huginn_Line Syscall
begin

text \<open>
  The shell's commands (huginn.cpp) over the system calls of one task. A command gets the words of the
  line and the working directory. Its result is \<open>None\<close> when a loop does not end, or when a path does not fit
  the 128 bytes of \<^verbatim>\<open>abspath\<close> and is stored over what lies behind it, which is undefined. The
  contents of a local array before it is written do not matter and are zeros here.
\<close>

section \<open>The commands\<close>

definition line_end :: cstr where
  "line_end = [10]"

definition puts :: "'d disk_write \<Rightarrow> cstr \<Rightarrow> 'd world \<Rightarrow> 'd world" where
  "puts wr s w = snd (sys_write wr w 1 (char_at s) (of_nat (str_len s)))"

text \<open>The path that a command makes in its array \<^verbatim>\<open>abspath\<close>.\<close>

definition abs_path :: "cstr \<Rightarrow> cstr \<Rightarrow> cstr option" where
  "abs_path cwd arg =
     (if path_fits cwd arg then (let (out, olen) = resolve_path cwd arg (\<lambda>_. 0) in Some (map out [0..<olen])) else None)"

text \<open>The listing loop: names into the 40-byte array \<open>nm\<close>, until the call returns 0 or an error.\<close>

partial_function (option) ls_loop ::
  "'d disk_write \<Rightarrow> int \<Rightarrow> int \<Rightarrow> buf \<Rightarrow> 'd world \<Rightarrow> 'd world option" where
  "ls_loop wr fd i nm w =
     (let (r, nm') = sys_readdir w fd i nm in
      if sint r \<le> 0 then Some w
      else let w1 = puts wr (map nm' [0..<40]) w; w2 = (if r = 2 then puts wr (str ''/'') w1 else w1)
           in ls_loop wr fd (i + 1) nm' (puts wr (str ''  '') w2))"

definition cmd_ls :: "'d disk_write \<Rightarrow> cstr \<Rightarrow> cstr list \<Rightarrow> 'd world \<Rightarrow> 'd world option" where
  "cmd_ls wr cwd argv w =
     Option.bind (abs_path cwd (if length argv \<ge> 2 then argv ! 1 else str ''.'')) (\<lambda>path.
       let (r, w1) = sys_open wr w path 0; fd = sint r
       in if fd < 0 then Some (puts wr (str ''ls: no such path'' @ line_end) w1)
          else Option.bind (ls_loop wr fd 0 (\<lambda>_. 0) w1)
            (\<lambda>w2. Some (snd (sys_close (puts wr line_end w2) fd))))"

partial_function (option) cat_loop ::
  "'d disk_write \<Rightarrow> int \<Rightarrow> buf \<Rightarrow> u8 \<Rightarrow> bool \<Rightarrow> 'd world \<Rightarrow> (u8 \<times> bool \<times> 'd world) option" where
  "cat_loop wr fd b lst any w =
     (let (r, b', w1) = sys_read w fd b 128 in
      if sint r \<le> 0 then Some (lst, any, w1)
      else cat_loop wr fd b' (b' (unat r - 1)) True (snd (sys_write wr w1 1 b' r)))"

definition cmd_cat :: "'d disk_write \<Rightarrow> cstr \<Rightarrow> cstr list \<Rightarrow> 'd world \<Rightarrow> 'd world option" where
  "cmd_cat wr cwd argv w =
     (if length argv < 2 then Some (puts wr (str ''cat: missing file'' @ line_end) w)
      else Option.bind (abs_path cwd (argv ! 1)) (\<lambda>path.
        let (r, w1) = sys_open wr w path 0; fd = sint r
        in if fd < 0 then Some (puts wr (str ''cat: no such file'' @ line_end) w1)
           else Option.bind (cat_loop wr fd (\<lambda>_. 0) 10 False w1)
             (\<lambda>(lst, any, w2). Some (snd (sys_close
               (if any \<and> lst \<noteq> 10 then snd (sys_write wr w2 1 (char_at line_end) 1) else w2) fd)))))"

definition cmd_mkdir :: "'d disk_write \<Rightarrow> cstr \<Rightarrow> cstr list \<Rightarrow> 'd world \<Rightarrow> 'd world option" where
  "cmd_mkdir wr cwd argv w =
     (if length argv < 2 then Some (puts wr (str ''mkdir: missing path'' @ line_end) w)
      else map_option (\<lambda>path. let (r, w1) = sys_mkdir wr w path
        in if r \<noteq> 0 then puts wr (str ''mkdir: failed'' @ line_end) w1 else w1) (abs_path cwd (argv ! 1)))"

definition cmd_rm :: "'d disk_write \<Rightarrow> cstr \<Rightarrow> cstr list \<Rightarrow> 'd world \<Rightarrow> 'd world option" where
  "cmd_rm wr cwd argv w =
     (if length argv < 2 then Some (puts wr (str ''rm: missing path'' @ line_end) w)
      else map_option (\<lambda>path. let (r, w1) = sys_unlink wr w path
        in if r \<noteq> 0 then puts wr (str ''rm: failed'' @ line_end) w1 else w1) (abs_path cwd (argv ! 1)))"

text \<open>The words of \<^verbatim>\<open>echo\<close> up to \<open>stop\<close>, with a space between two of them.\<close>

definition echo_word :: "'d disk_write \<Rightarrow> int \<Rightarrow> cstr list \<Rightarrow> nat \<Rightarrow> nat \<Rightarrow> 'd world \<Rightarrow> 'd world" where
  "echo_word wr fd argv stop i w =
     (let w1 = snd (sys_write wr w fd (char_at (argv ! i)) (of_nat (str_len (argv ! i))))
      in if i + 1 < stop then snd (sys_write wr w1 fd (char_at (str '' '')) 1) else w1)"

definition echo_body :: "'d disk_write \<Rightarrow> int \<Rightarrow> cstr list \<Rightarrow> nat \<Rightarrow> 'd world \<Rightarrow> 'd world" where
  "echo_body wr fd argv stop w =
     snd (sys_write wr (fold (echo_word wr fd argv stop) [1..<stop] w) fd (char_at line_end) 1)"

definition cmd_echo :: "'d disk_write \<Rightarrow> cstr \<Rightarrow> cstr list \<Rightarrow> 'd world \<Rightarrow> 'd world option" where
  "cmd_echo wr cwd argv w =
     (case List.find (\<lambda>i. streq (argv ! i) (str ''>'')) [1..<length argv] of
        None \<Rightarrow> Some (echo_body wr 1 argv (length argv) w)
      | Some redir \<Rightarrow>
          if redir + 1 \<ge> length argv then Some (puts wr (str ''echo: missing redirect target'' @ line_end) w)
          else map_option (\<lambda>path. let (r, w1) = sys_open wr w path (1 OR 4 OR 8); fd = sint r
            in if fd < 0 then puts wr (str ''echo: cannot open target'' @ line_end) w1
               else snd (sys_close (echo_body wr fd argv redir w1) fd)) (abs_path cwd (argv ! (redir + 1))))"

text \<open>The path goes into \<^verbatim>\<open>cwd\<close>, which has as many bytes as \<^verbatim>\<open>abspath\<close>.\<close>

definition cmd_cd :: "'d disk_write \<Rightarrow> cstr \<Rightarrow> cstr list \<Rightarrow> 'd world \<Rightarrow> (cstr \<times> 'd world) option" where
  "cmd_cd wr cwd argv w =
     map_option (\<lambda>path.
       let (o1, w1) = sys_open wr w path 0; fd = sint o1
       in if fd < 0 then (cwd, puts wr (str ''cd: no such directory'' @ line_end) w1)
          else let r = sint (fst (sys_readdir w1 fd 0 (\<lambda>_. 0))); w2 = snd (sys_close w1 fd)
            in if r < 0 then (cwd, puts wr (str ''cd: not a directory'' @ line_end) w2)
               else (take (str_len path) path, w2))
     (abs_path cwd (if length argv \<ge> 2 then argv ! 1 else str ''/''))"

definition cmd_pwd :: "'d disk_write \<Rightarrow> cstr \<Rightarrow> 'd world \<Rightarrow> 'd world" where
  "cmd_pwd wr cwd w = puts wr line_end (puts wr cwd w)"

definition cmd_clear :: "'d disk_write \<Rightarrow> 'd world \<Rightarrow> 'd world" where
  "cmd_clear wr w = puts wr [27, 91, 50, 74, 27, 91, 72] w"

definition cmd_touch :: "'d disk_write \<Rightarrow> cstr \<Rightarrow> cstr list \<Rightarrow> 'd world \<Rightarrow> 'd world option" where
  "cmd_touch wr cwd argv w =
     (if length argv < 2 then Some (puts wr (str ''touch: missing file'' @ line_end) w)
      else map_option (\<lambda>path. let (r, w1) = sys_open wr w path 4; fd = sint r
        in if fd < 0 then puts wr (str ''touch: failed'' @ line_end) w1 else snd (sys_close w1 fd)) (abs_path cwd (argv ! 1)))"

definition cmd_help :: "'d disk_write \<Rightarrow> 'd world \<Rightarrow> 'd world" where
  "cmd_help wr w = fold (\<lambda>s. puts wr (str s @ line_end))
     [''builtins: ls cat cd pwd mkdir rm touch echo clear help'',
      ''  ls [path]             list a directory'',
      ''  cat <file>            print a file'',
      ''  cd [path]             change directory'',
      ''  pwd                   print working directory'',
      ''  mkdir <path>          create a directory'',
      ''  rm <path>             remove a file or empty dir'',
      ''  touch <file>          create an empty file'',
      ''  echo <text> [> file]  print text, or write it to a file'',
      ''  clear                 clear the screen'',
      ''anything else runs a ramdisk program (e.g. one, two)''] w"

text \<open>
  One line of the main loop. The third component of the result is the argument vector of a program to
  run (\<^verbatim>\<open>sys_fork\<close>, \<^verbatim>\<open>sys_exec\<close>, \<^verbatim>\<open>sys_wait\<close>), if the command is not built in.
\<close>

definition run_words ::
  "'d disk_write \<Rightarrow> cstr \<Rightarrow> cstr list \<Rightarrow> 'd world \<Rightarrow> (cstr \<times> 'd world \<times> cstr list option) option" where
  "run_words wr cwd argv w =
     (let finish = map_option (\<lambda>w'. (cwd, w', None)) in
      if argv = [] then Some (cwd, w, None)
      else if streq (argv ! 0) (str ''ls'') then finish (cmd_ls wr cwd argv w)
      else if streq (argv ! 0) (str ''cat'') then finish (cmd_cat wr cwd argv w)
      else if streq (argv ! 0) (str ''mkdir'') then finish (cmd_mkdir wr cwd argv w)
      else if streq (argv ! 0) (str ''sync'')
        then Some (cwd, puts wr (str ''synced'' @ line_end) (snd (vfs_sync wr w)), None)
      else if streq (argv ! 0) (str ''rm'') then finish (cmd_rm wr cwd argv w)
      else if streq (argv ! 0) (str ''echo'') then finish (cmd_echo wr cwd argv w)
      else if streq (argv ! 0) (str ''cd'') then map_option (\<lambda>(cwd', w'). (cwd', w', None)) (cmd_cd wr cwd argv w)
      else if streq (argv ! 0) (str ''pwd'') then Some (cwd, cmd_pwd wr cwd w, None)
      else if streq (argv ! 0) (str ''touch'') then finish (cmd_touch wr cwd argv w)
      else if streq (argv ! 0) (str ''clear'') then Some (cwd, cmd_clear wr w, None)
      else if streq (argv ! 0) (str ''help'') then Some (cwd, cmd_help wr w, None)
      else Some (cwd, w, Some argv))"

definition run_line ::
  "'d disk_write \<Rightarrow> cstr \<Rightarrow> cstr list \<Rightarrow> cstr \<Rightarrow> 'd world
   \<Rightarrow> (cstr list \<times> cstr \<times> 'd world \<times> cstr list option) option" where
  "run_line wr cwd hist line w =
     (if line = [] then Some (hist, cwd, w, None)
      else map_option (\<lambda>r. (hist_push hist line, r)) (run_words wr cwd (split_words line) w))"

section \<open>Output and descriptors\<close>

lemma fold_putchar: "fold (\<lambda>i. term_putchar (b i)) xs t = term_write (map b xs) t"
  by (induction xs arbitrary: t) (simp_all add: term_write_def)

lemma sys_write_tty:
  "sys_write wr w 1 b len = (len, w\<lparr>w_term := term_write (map b [0..<unat len]) (w_term w)\<rparr>)"
  by (simp add: sys_write_def fold_putchar)

lemma puts_text:
  assumes "0 \<notin> set s" and "length s < 2 ^ 64"
  shows "puts wr s w = w\<lparr>w_term := term_write s (w_term w)\<rparr>"
proof -
  have "map (char_at s) [0..<length s] = s" by (rule nth_equalityI) (auto simp: char_at_def)
  with assms show ?thesis by (simp add: puts_def sys_write_tty str_len_no_nul unat_of_nat_u64)
qed

lemma term_write_Nil [simp]: "term_write [] t = t"
  by (simp add: term_write_def)

lemma term_write_append: "term_write (xs @ ys) t = term_write ys (term_write xs t)"
  by (simp add: term_write_def)

text \<open>Only the cursor of one descriptor has moved.\<close>

definition moved :: "nat \<Rightarrow> fd_table \<Rightarrow> fd_table \<Rightarrow> bool" where
  "moved fd t t' \<longleftrightarrow> (\<exists>off. t' = t(fd := (t fd)\<lparr>fd_offset := off\<rparr>))"

lemma moved_refl: "moved fd t t"
  unfolding moved_def by (intro exI [of _ "fd_offset (t fd)"]) simp

lemma moved_advance: "moved fd t (fd_advance t fd n)"
  unfolding moved_def fd_advance_def using moved_refl [unfolded moved_def] by auto

lemma moved_trans: "moved fd t u \<Longrightarrow> moved fd u v \<Longrightarrow> moved fd t v"
  unfolding moved_def by auto

lemma moved_file_fd: "moved fd t t' \<Longrightarrow> file_fd t fd i \<Longrightarrow> file_fd t' fd i"
  by (auto simp: moved_def file_fd_def)

lemma sys_read_file:
  assumes inv: "fs_inv (w_fs w)" and i: "abs_fs (w_fs w) i = Some (File bs)" and t: "w_tab w = Some t"
    and f: "file_fd t fd i" and off: "unat (fd_offset (t fd)) \<le> 69632" and len: "len < 2 ^ 31"
  shows "\<exists>n b' t'. sys_read w (int fd) b len = (of_nat n, b', w\<lparr>w_tab := Some t'\<rparr>)
    \<and> n = min (unat len) (min (length bs) 4096 - unat (fd_offset (t fd)))
    \<and> map b' [0..<n] = take n (drop (unat (fd_offset (t fd))) bs)
    \<and> unat (fd_offset (t' fd)) = unat (fd_offset (t fd)) + n \<and> moved fd t t'"
proof -
  have u: "unat (ucast len :: u32) = unat len" using len
    by (simp add: unsigned_ucast_eq word_less_nat_alt take_bit_nat_eq_self)
  from vfs_read_abs [OF inv i f off, of b "ucast len"] obtain n b' where
    n: "vfs_read (w_fs w) (Some t) (int fd) b (ucast len) = (int n, b', Some (fd_advance t fd (int n)))"
      "n = min (unat len) (min (length bs) 4096 - unat (fd_offset (t fd)))"
      "map b' [0..<n] = take n (drop (unat (fd_offset (t fd))) bs)"
      "unat (fd_offset (fd_advance t fd (int n) fd)) = unat (fd_offset (t fd)) + n" unfolding u by blast
  have "sys_read w (int fd) b len = (of_nat n, b', w\<lparr>w_tab := Some (fd_advance t fd (int n))\<rparr>)"
    using f by (simp add: sys_read_def t n(1) file_fd_def)
  with n(2-4) moved_advance show ?thesis by blast
qed

section \<open>cat\<close>

lemma cat_loop_spec:
  assumes "fs_inv (w_fs w)" and "abs_fs (w_fs w) i = Some (File bs)" and "w_tab w = Some t"
    and "file_fd t fd i" and "unat (fd_offset (t fd)) \<le> 69632"
  shows "\<exists>t'. moved fd t t' \<and> (let text = drop (unat (fd_offset (t fd))) (take 4096 bs) in
     cat_loop wr (int fd) b lst any w
     = Some (if text = [] then lst else last text, any \<or> text \<noteq> [],
         w\<lparr>w_tab := Some t', w_term := term_write text (w_term w)\<rparr>))"
  using assms
proof (induction "min (length bs) 4096 - unat (fd_offset (t fd))" arbitrary: b lst any w t rule: less_induct)
  case less
  define off where "off = unat (fd_offset (t fd))"
  have l128: "(128 :: u64) < 2 ^ 31" by simp
  from sys_read_file [OF less.prems l128, of b] obtain n b' t' where
    r: "sys_read w (int fd) b 128 = (of_nat n, b', w\<lparr>w_tab := Some t'\<rparr>)"
    "n = min 128 (min (length bs) 4096 - off)" "map b' [0..<n] = take n (drop off bs)"
    "unat (fd_offset (t' fd)) = off + n" "moved fd t t'" by (auto simp: off_def)
  have sn: "sint (of_nat n :: u64) = int n" using sint_word_of_int_64 [of "int n"] r(2) by simp
  have tl: "length (drop off (take 4096 bs)) = min (length bs) 4096 - off" by (simp add: min.commute)
  show ?case
  proof (cases "n = 0")
    case True
    then have "drop off (take 4096 bs) = []" using tl r(2) by (simp add: min_def split: if_splits)
    with True r sn show ?thesis
      by (intro exI [of _ t']) (simp add: cat_loop.simps [of wr "int fd"] off_def [symmetric] Let_def term_write_def)
  next
    case False
    define w1 where "w1 = snd (sys_write wr (w\<lparr>w_tab := Some t'\<rparr>) 1 b' (of_nat n))"
    have un: "unat (of_nat n :: u64) = n" by (rule unat_of_nat_u64) (use r(2) in simp)
    have w1: "w1 = w\<lparr>w_tab := Some t', w_term := term_write (take n (drop off bs)) (w_term w)\<rparr>"
      by (simp add: w1_def sys_write_tty un r(3))
    have le: "off + n \<le> min (length bs) 4096" using r(2) False by (auto simp: min_def split: if_splits)
    have p: "fs_inv (w_fs w1)" "abs_fs (w_fs w1) i = Some (File bs)" "w_tab w1 = Some t'"
      using less.prems by (simp_all add: w1)
    have lt: "min (length bs) 4096 - unat (fd_offset (t' fd)) < min (length bs) 4096 - unat (fd_offset (t fd))"
      using r(4) le False unfolding off_def by linarith
    have o': "unat (fd_offset (t' fd)) \<le> 69632" using r(4) le by (simp add: min_def split: if_splits)
    from less.hyps [OF lt p moved_file_fd [OF r(5) less.prems(4)] o', of b' "b' (n - 1)" True]
    obtain t'' where ih: "moved fd t' t''" "let text = drop (off + n) (take 4096 bs) in
      cat_loop wr (int fd) b' (b' (n - 1)) True w1
      = Some (if text = [] then b' (n - 1) else last text, True \<or> text \<noteq> [],
         w1\<lparr>w_tab := Some t'', w_term := term_write text (w_term w1)\<rparr>)"
      by (auto simp: r(4))
    have cl: "cat_loop wr (int fd) b lst any w = cat_loop wr (int fd) b' (b' (n - 1)) True w1"
      using False by (subst cat_loop.simps) (simp add: r(1) sn un w1_def)
    have tx: "drop off (take 4096 bs) = take n (drop off bs) @ drop (off + n) (take 4096 bs)"
    proof -
      have "take n (drop off (take 4096 bs)) = take n (drop off bs)"
      proof -
        have "n + off \<le> 4096" using le by simp
        then show ?thesis by (simp add: take_drop min_absorb1)
      qed
      then show ?thesis by (metis append_take_drop_id drop_drop add.commute)
    qed
    have ne: "take n (drop off bs) \<noteq> []" "last (take n (drop off bs)) = b' (n - 1)"
      using False unfolding r(3) [symmetric] by (simp_all add: last_map)
    show ?thesis unfolding off_def [symmetric] cl tx
      using ih moved_trans [OF r(5) ih(1)] ne
      by (intro exI [of _ t'']) (auto simp: Let_def w1 term_write_append)
  qed
qed


text \<open>
  Opening a path to read it, on descriptor \<open>fd\<close>.
\<close>

lemma sys_open_node:
  assumes inv: "fs_inv (w_fs w)" and n: "node_at (abs_fs (w_fs w)) path = Some i"
    and t: "w_tab w = Some t" and fd: "free_fd t = Some fd"
  shows "sys_open wr w path 0 = (of_nat fd, w\<lparr>w_tab := Some (t(fd := fresh_desc (abs_fs (w_fs w)) 0 i))\<rparr>)"
proof -
  from open_existing [OF inv n fd, of 0]
  have "vfs_open (w_fs w) (Some t) path 0
      = (int fd, w_fs w, Some (t(fd := fresh_desc (abs_fs (w_fs w)) 0 i)))" by auto
  then show ?thesis by (simp add: sys_open_def t sync_if_def)
qed

lemma sint_fd: "fd < 16 \<Longrightarrow> sint (of_nat fd :: u64) = int fd"
  using sint_word_of_int_64 [of "int fd"] by simp

lemma sys_close_fd:
  assumes "w_tab w = Some t" and "3 \<le> fd" and "fd < 16" and "fd_used (t fd)"
  shows "sys_close w (int fd) = (0, w\<lparr>w_tab := Some (t(fd := (t fd)\<lparr>fd_used := False\<rparr>))\<rparr>)"
  using assms by (simp add: sys_close_def vfs_close_def)

text \<open>The descriptors in use are those that were.\<close>

definition same_used :: "fd_table option \<Rightarrow> fd_table option \<Rightarrow> bool" where
  "same_used tk tk' \<longleftrightarrow> (case (tk, tk') of (Some t, Some t') \<Rightarrow>
     (\<forall>fd. fd_used (t' fd) = fd_used (t fd) \<and> (if fd_used (t fd) then t' fd = t fd else True))
   | (None, None) \<Rightarrow> True | _ \<Rightarrow> False)"

lemma reused_closed:
  assumes "free_fd t = Some fd" and "moved fd (t(fd := d)) t'"
  shows "same_used (Some t) (Some (t'(fd := (t' fd)\<lparr>fd_used := False\<rparr>)))"
  using free_fd_Some(3) [OF assms(1)] assms(2) by (auto simp: same_used_def moved_def)

definition cat_output :: "u8 list \<Rightarrow> cstr" where
  "cat_output bs = take 4096 bs @ (if bs \<noteq> [] \<and> last (take 4096 bs) \<noteq> 10 then [10] else [])"

lemma cmd_cat_spec:
  assumes path: "abs_path cwd arg = Some path" and inv: "fs_inv (w_fs w)" and n: "node_at (abs_fs (w_fs w)) path = Some i"
    and i: "abs_fs (w_fs w) i = Some (File bs)" and t: "w_tab w = Some t" and fd: "free_fd t = Some fd"
  shows "\<exists>tk. same_used (w_tab w) tk \<and> cmd_cat wr cwd [cmd, arg] w
    = Some (w\<lparr>w_tab := tk, w_term := term_write (cat_output bs) (w_term w)\<rparr>)"
proof -
  note f = free_fd_Some [OF fd]
  define t1 where "t1 = t(fd := fresh_desc (abs_fs (w_fs w)) 0 i)"
  define w1 where "w1 = w\<lparr>w_tab := Some t1\<rparr>"
  have o: "sys_open wr w path 0 = (of_nat fd, w1)"
    unfolding w1_def t1_def by (rule sys_open_node [OF inv n t fd])
  have w1: "fs_inv (w_fs w1)" "abs_fs (w_fs w1) i = Some (File bs)" "w_tab w1 = Some t1"
    using inv i by (simp_all add: w1_def)
  have ff: "file_fd t1 fd i" unfolding t1_def by (rule fresh_file_fd [OF fd i])
  have off: "unat (fd_offset (t1 fd)) = 0" by (simp add: t1_def fresh_desc_def i)
  from cat_loop_spec [OF w1 ff, of wr "\<lambda>_. 0" 10 False] off obtain t2 where
    m: "moved fd t1 t2" and c: "let tl = take 4096 bs in cat_loop wr (int fd) (\<lambda>_. 0) 10 False w1
      = Some (if tl = [] then 10 else last tl, tl \<noteq> [], w1\<lparr>w_tab := Some t2, w_term := term_write tl (w_term w1)\<rparr>)"
    by auto
  define w2 where "w2 = w1\<lparr>w_tab := Some t2, w_term := term_write (cat_output bs) (w_term w)\<rparr>"
  have out: "(if take 4096 bs \<noteq> [] \<and> (if take 4096 bs = [] then 10 else last (take 4096 bs)) \<noteq> 10
        then snd (sys_write wr (w1\<lparr>w_tab := Some t2, w_term := term_write (take 4096 bs) (w_term w1)\<rparr>) 1 (char_at line_end) 1)
        else w1\<lparr>w_tab := Some t2, w_term := term_write (take 4096 bs) (w_term w1)\<rparr>) = w2"
    by (auto simp: w2_def w1_def cat_output_def sys_write_tty line_end_def char_at_def term_write_append upt_rec)
  have u: "fd_used (t2 fd)" using moved_file_fd [OF m ff] by (simp add: file_fd_def)
  have w2t: "w_tab w2 = Some t2" by (simp add: w2_def)
  have cl: "sys_close w2 (int fd) = (0, w2\<lparr>w_tab := Some (t2(fd := (t2 fd)\<lparr>fd_used := False\<rparr>))\<rparr>)"
    by (rule sys_close_fd [OF w2t f(1,2) u])
  have "cmd_cat wr cwd [cmd, arg] w = Some (snd (sys_close w2 (int fd)))"
    using c out unfolding cmd_cat_def by (simp add: path o sint_fd [OF f(2)] Let_def)
  then have "cmd_cat wr cwd [cmd, arg] w = Some (w\<lparr>w_tab := Some (t2(fd := (t2 fd)\<lparr>fd_used := False\<rparr>)),
      w_term := term_write (cat_output bs) (w_term w)\<rparr>)"
    unfolding cl by (simp add: w2_def w1_def)
  then show ?thesis using reused_closed [OF fd m [unfolded t1_def]] t by auto
qed


section \<open>ls\<close>

lemma puts_prefix:
  assumes "map (char_at s) [0..<Suc (length u)] = u @ [0]" and "0 \<notin> set u" and "length u < 2 ^ 64"
  shows "puts wr s w = w\<lparr>w_term := term_write u (w_term w)\<rparr>"
proof -
  have c: "char_at s i = (u @ [0]) ! i" if "i \<le> length u" for i
    using arg_cong [OF assms(1), of "\<lambda>l. l ! i"] that by (simp del: upt_Suc)
  have "str_len s = length u"
  proof (rule linorder_cases [of "str_len s" "length u"])
    assume "str_len s < length u"
    then have "u ! str_len s = 0" using c [of "str_len s"] char_at_str_len [of s] by (simp add: nth_append)
    with \<open>str_len s < length u\<close> assms(2) show ?thesis by (metis nth_mem)
  next
    assume "length u < str_len s"
    then show ?thesis using c [of "length u"] char_at_nz [of "length u" s] by simp
  qed
  moreover have "map (char_at s) [0..<length u] = u"
    by (rule nth_equalityI) (simp_all add: c nth_append)
  ultimately show ?thesis using assms(3) by (simp add: puts_def sys_write_tty unat_of_nat_u64)
qed

definition ls_item :: "munin \<Rightarrow> cstr \<times> nat \<Rightarrow> cstr" where
  "ls_item s e = fst e @ (if itype (g_inodes s (snd e)) = INODE_DIR then str ''/'' else []) @ str ''  ''"

definition dir_fd :: "fd_table \<Rightarrow> nat \<Rightarrow> nat \<Rightarrow> bool" where
  "dir_fd t fd d \<longleftrightarrow> 3 \<le> fd \<and> fd < 16 \<and> fd_used (t fd) \<and> fd_type (t fd) = INODE_DIR \<and> fd_inode (t fd) = int d"

lemma entries_good:
  assumes "fs_inv s" and "is_dir s d" and "e \<in> set (entries s d)"
  shows "length (fst e) < 32" "0 \<notin> set (fst e)"
    "itype (g_inodes s (snd e)) = INODE_FILE \<or> itype (g_inodes s (snd e)) = INODE_DIR"
proof -
  have u: "names_unique s d" using fs_dir [OF assms(1,2)] by (simp add: dir_ok_def)
  obtain nm c where e: "e = (nm, c)" by fastforce
  with assms(3) entries_map(2) [OF u] have "dir_map s d nm = Some c" by blast
  then obtain x where x: "dent s d x = Some (nm, c)" using dir_map_Some [OF u] by blast
  have "nm \<noteq> [] \<and> length nm < 32 \<and> 0 \<notin> set nm" using fs_dir [OF assms(1,2)] x unfolding dir_ok_def by blast
  then show "length (fst e) < 32" "0 \<notin> set (fst e)" by (simp_all add: e)
  have "live s c" using fs_child [OF assms(1) x] by simp
  then show "itype (g_inodes s (snd e)) = INODE_FILE \<or> itype (g_inodes s (snd e)) = INODE_DIR"
    using fs_live [OF assms(1)] by (auto simp: e file_at_def is_dir_def)
qed

lemma str_slash: "str ''/'' = [47]" "str ''  '' = [32, 32]"
  by code_simp+

lemma ls_loop_spec:
  assumes inv: "fs_inv (w_fs w)" and d: "is_dir (w_fs w) d" and t: "w_tab w = Some t" and f: "dir_fd t fd d"
  shows "ls_loop wr (int fd) (int i) nm w
    = Some (w\<lparr>w_term := term_write (concat (map (ls_item (w_fs w)) (drop i (entries (w_fs w) d)))) (w_term w)\<rparr>)"
  using assms
proof (induction "length (entries (w_fs w) d) - i" arbitrary: i nm w)
  case 0
  then have "munin_dirent (w_fs w) (int d) (int i) nm 32 = (0, nm)"
    using dirent_entries [OF 0(2,3), of 32 "int i" nm] by simp
  with 0 show ?case
    by (subst ls_loop.simps) (simp add: sys_readdir_def vfs_readdir_def dir_fd_def)
next
  case (Suc k)
  define s where "s = w_fs w"
  have lt: "i < length (entries s d)" using Suc(2) by (simp add: s_def)
  define e where "e = entries s d ! i"
  have e: "e \<in> set (entries s d)" unfolding e_def by (rule nth_mem [OF lt])
  note g = entries_good [OF Suc(3,4), folded s_def, OF e]
  from dirent_entries [OF Suc(3,4), of 32 "int i" nm, folded s_def] lt obtain nm' where
    m: "munin_dirent s (int d) (int i) nm 32 = (uint (itype (g_inodes s (snd e))), nm')"
      "map nm' [0..<Suc (length (fst e))] = fst e @ [0]" by (auto simp: e_def simp del: upt_Suc)
  have rd: "sys_readdir w (int fd) (int i) nm = (word_of_int (uint (itype (g_inodes s (snd e)))), nm')"
    using Suc(5,6) m(1) by (simp add: sys_readdir_def vfs_readdir_def dir_fd_def s_def)
  have "map (char_at (map nm' [0..<40])) [0..<Suc (length (fst e))] = map nm' [0..<Suc (length (fst e))]"
    using g(1) by (intro map_cong) (auto simp: char_at_def simp del: upt_Suc)
  then have pre: "map (char_at (map nm' [0..<40])) [0..<Suc (length (fst e))] = fst e @ [0]" by (simp only: m(2))
  have p1: "puts wr (map nm' [0..<40]) w = w\<lparr>w_term := term_write (fst e) (w_term w)\<rparr>"
    by (rule puts_prefix [OF pre g(2)]) (use g(1) in simp)
  define w3 where "w3 = w\<lparr>w_term := term_write (ls_item s e) (w_term w)\<rparr>"
  have st: "ls_loop wr (int fd) (int i) nm w = ls_loop wr (int fd) (int i + 1) nm' w3"
    using g(3)
    by (subst ls_loop.simps)
      (auto simp: rd p1 w3_def ls_item_def puts_text str_slash term_write_append Let_def)
  have "k = length (entries (w_fs w3) d) - (i + 1)" using Suc(2) by (simp add: w3_def)
  from Suc(1) [OF this, of nm'] Suc(3-6) have
    "ls_loop wr (int fd) (int (i + 1)) nm' w3
      = Some (w3\<lparr>w_term := term_write (concat (map (ls_item s) (drop (i + 1) (entries s d)))) (w_term w3)\<rparr>)"
    by (simp add: w3_def s_def)
  then show ?case
    using lt unfolding st s_def [symmetric]
    by (simp add: w3_def term_write_append Cons_nth_drop_Suc [symmetric] e_def add.commute)
qed

lemma sint_m1: "sint (- 1 :: u64) = - 1"
  by simp

lemma sys_open_fails:
  assumes inv: "fs_inv (w_fs w)" and t: "w_tab w = Some t"
    and no: "node_at (abs_fs (w_fs w)) path = None \<or> free_fd t = None"
  shows "sys_open wr w path 0 = (- 1, w)"
proof -
  obtain v s' tk where o: "vfs_open (w_fs w) (Some t) path 0 = (v, s', tk)" using prod_cases3 by blast
  have s': "s' = w_fs w" by (rule open_unchanged [OF o]) simp
  have "v = - 1 \<and> tk = Some t"
    using vfs_open_abs [OF inv o] no by (auto simp: open_rel_def split: if_splits option.splits)
  with o s' show ?thesis by (simp add: sys_open_def t sync_if_def)
qed

definition opens :: "'d world \<Rightarrow> cstr \<Rightarrow> nat option" where
  "opens w path = (case w_tab w of None \<Rightarrow> None | Some t \<Rightarrow>
     if free_fd t = None then None else node_at (abs_fs (w_fs w)) path)"

lemma opens_None: "w_tab w = Some t \<Longrightarrow> fs_inv (w_fs w) \<Longrightarrow> opens w path = None \<Longrightarrow> sys_open wr w path 0 = (- 1, w)"
  by (rule sys_open_fails) (auto simp: opens_def split: if_splits)

lemma opens_Some:
  assumes "fs_inv (w_fs w)" and "w_tab w = Some t" and "opens w path = Some i"
  obtains fd where "free_fd t = Some fd" "node_at (abs_fs (w_fs w)) path = Some i" "live (w_fs w) i"
    "sys_open wr w path 0 = (of_nat fd, w\<lparr>w_tab := Some (t(fd := fresh_desc (abs_fs (w_fs w)) 0 i))\<rparr>)"
    "sint (of_nat fd :: u64) = int fd" "3 \<le> fd" "fd < 16"
proof -
  from assms(2,3) have n: "node_at (abs_fs (w_fs w)) path = Some i" "free_fd t \<noteq> None"
    by (auto simp: opens_def split: if_splits)
  then obtain fd where fd: "free_fd t = Some fd" by blast
  note f = free_fd_Some [OF fd]
  show ?thesis
    by (rule that [OF fd n(1) node_at_live [OF assms(1) n(1)] sys_open_node [OF assms(1) n(1) assms(2) fd] sint_fd [OF f(2)] f(1,2)])
qed

lemma fresh_dir_fd:
  assumes "free_fd t = Some fd" and "abs_fs s d = Some (Dir m)"
  shows "dir_fd (t(fd := fresh_desc (abs_fs s) flags d)) fd d"
  using free_fd_Some [OF assms(1)] assms(2) by (simp add: dir_fd_def fresh_desc_def)

lemma close_fresh:
  assumes "free_fd t = Some fd" and "w_tab w = Some (t(fd := d))" and "fd_used d"
  shows "\<exists>tk. same_used (Some t) tk \<and> sys_close w (int fd) = (0, w\<lparr>w_tab := tk\<rparr>)"
proof -
  note f = free_fd_Some [OF assms(1)]
  have "sys_close w (int fd) = (0, w\<lparr>w_tab := Some ((t(fd := d))(fd := ((t(fd := d)) fd)\<lparr>fd_used := False\<rparr>))\<rparr>)"
    by (rule sys_close_fd [OF assms(2) f(1,2)]) (simp add: assms(3))
  then show ?thesis using reused_closed [OF assms(1) moved_refl] by blast
qed

lemma same_used_refl: "same_used tk tk"
  by (simp add: same_used_def split: option.splits)

lemma fresh_used [simp]: "fd_used (fresh_desc fs flags i)"
  by (simp add: fresh_desc_def)

text \<open>What \<^verbatim>\<open>cat\<close> and \<^verbatim>\<open>ls\<close> print, and the working directory \<^verbatim>\<open>cd\<close> leaves.\<close>

definition cat_text :: "'d world \<Rightarrow> cstr \<Rightarrow> cstr" where
  "cat_text w path = (case opens w path of None \<Rightarrow> str ''cat: no such file'' @ [10]
     | Some i \<Rightarrow> (case abs_fs (w_fs w) i of Some (File bs) \<Rightarrow> cat_output bs | _ \<Rightarrow> []))"

definition ls_text :: "'d world \<Rightarrow> cstr \<Rightarrow> cstr" where
  "ls_text w path = (case opens w path of None \<Rightarrow> str ''ls: no such path'' @ [10]
     | Some i \<Rightarrow> (if is_dir (w_fs w) i then munin_ls (w_fs w) (int i) else [10]))"

lemma puts_line:
  assumes "0 \<notin> set s" and "length s < 1000"
  shows "puts wr (s @ line_end) w = w\<lparr>w_term := term_write (s @ [10]) (w_term w)\<rparr>"
  using assms by (subst puts_text) (auto simp: line_end_def)

lemma messages:
  "puts wr (str ''cat: no such file'' @ line_end) w = w\<lparr>w_term := term_write (str ''cat: no such file'' @ [10]) (w_term w)\<rparr>"
  "puts wr (str ''ls: no such path'' @ line_end) w = w\<lparr>w_term := term_write (str ''ls: no such path'' @ [10]) (w_term w)\<rparr>"
  "puts wr (str ''cd: no such directory'' @ line_end) w = w\<lparr>w_term := term_write (str ''cd: no such directory'' @ [10]) (w_term w)\<rparr>"
  "puts wr (str ''cd: not a directory'' @ line_end) w = w\<lparr>w_term := term_write (str ''cd: not a directory'' @ [10]) (w_term w)\<rparr>"
  "puts wr line_end w = w\<lparr>w_term := term_write [10] (w_term w)\<rparr>"
  by ((rule puts_line; code_simp)+) (use puts_line [of "[]"] in simp)

lemma cmd_cat_text:
  assumes path: "abs_path cwd arg = Some path" and inv: "fs_inv (w_fs w)" and t: "w_tab w = Some t"
  shows "\<exists>tk. same_used (w_tab w) tk \<and> cmd_cat wr cwd [cmd, arg] w
    = Some (w\<lparr>w_tab := tk, w_term := term_write (cat_text w path) (w_term w)\<rparr>)"
proof (cases "opens w path")
  case None
  have "cmd_cat wr cwd [cmd, arg] w
      = Some (w\<lparr>w_tab := w_tab w, w_term := term_write (cat_text w path) (w_term w)\<rparr>)"
    by (simp add: cmd_cat_def path opens_None [OF t inv None] messages cat_text_def None)
  with same_used_refl show ?thesis by blast
next
  case (Some i)
  from opens_Some [OF inv t Some] obtain fd where
    o: "free_fd t = Some fd" "node_at (abs_fs (w_fs w)) path = Some i" "live (w_fs w) i"
    "sys_open wr w path 0 = (of_nat fd, w\<lparr>w_tab := Some (t(fd := fresh_desc (abs_fs (w_fs w)) 0 i))\<rparr>)"
    "sint (of_nat fd :: u64) = int fd" "3 \<le> fd" "fd < 16" by blast
  show ?thesis
  proof (cases "\<exists>bs. abs_fs (w_fs w) i = Some (File bs)")
    case True
    then obtain bs where bs: "abs_fs (w_fs w) i = Some (File bs)" ..
    from cmd_cat_spec [OF path inv o(2) bs t o(1)] show ?thesis by (simp add: cat_text_def Some bs)
  next
    case False
    then obtain m where m: "abs_fs (w_fs w) i = Some (Dir m)"
      using abs_fs_None [OF inv, of i] o(3) by (cases "abs_fs (w_fs w) i") (auto intro: node.exhaust)
    define w1 where "w1 = w\<lparr>w_tab := Some (t(fd := fresh_desc (abs_fs (w_fs w)) 0 i))\<rparr>"
    have "sys_read w1 (int fd) (\<lambda>_. 0) 128 = (- 1, \<lambda>_. 0, w1)"
      using o(6,7) by (simp add: sys_read_def w1_def vfs_read_def fresh_desc_def m)
    then have l: "cat_loop wr (int fd) (\<lambda>_. 0) 10 False w1 = Some (10, False, w1)"
      by (subst cat_loop.simps) simp
    from close_fresh [OF o(1), of w1 "fresh_desc (abs_fs (w_fs w)) 0 i"] obtain tk where
      tk: "same_used (Some t) tk" "sys_close w1 (int fd) = (0, w1\<lparr>w_tab := tk\<rparr>)" by (auto simp: w1_def)
    have "cmd_cat wr cwd [cmd, arg] w = Some (snd (sys_close w1 (int fd)))"
      unfolding cmd_cat_def by (simp add: path o(4,5) w1_def [symmetric] l)
    then have "cmd_cat wr cwd [cmd, arg] w
        = Some (w\<lparr>w_tab := tk, w_term := term_write (cat_text w path) (w_term w)\<rparr>)"
      unfolding tk(2) by (simp add: w1_def cat_text_def Some m)
    with tk(1) t show ?thesis by auto
  qed
qed

lemma munin_ls_items:
  assumes inv: "fs_inv s" and d: "is_dir s d"
  shows "munin_ls s (int d) = concat (map (ls_item s) (entries s d)) @ [10]"
proof -
  have i: "ls_entry s d x = (if dent s d x = None then [] else ls_item s (the (dent s d x)))" if x: "x \<in> set dir_slots" for x
  proof (cases "dent s d x")
    case None
    with slot_empty_dent [OF d x] show ?thesis by (simp add: ls_entry_def)
  next
    case (Some e)
    obtain nm c where e: "e = (nm, c)" by fastforce
    note dp = dent_parts [OF d x Some [unfolded e]]
    have "\<not> slot_empty s d x" using slot_empty_dent [OF d x] Some by simp
    with dp Some show ?thesis by (simp add: ls_entry_def ls_item_def e Let_def)
  qed
  have "concat (map (ls_entry s d) xs)
      = concat (map (ls_item s) (map (\<lambda>x. the (dent s d x)) (filter (\<lambda>x. dent s d x \<noteq> None) xs)))"
    if "set xs \<subseteq> set dir_slots" for xs
    using that by (induction xs) (auto simp: i)
  from this [OF order.refl] d show ?thesis
    by (simp add: munin_ls_def is_dir_def entries_def)
qed

lemma cmd_ls_text:
  assumes path: "abs_path cwd arg = Some path" and inv: "fs_inv (w_fs w)" and t: "w_tab w = Some t"
  shows "\<exists>tk. same_used (w_tab w) tk \<and> cmd_ls wr cwd [cmd, arg] w
    = Some (w\<lparr>w_tab := tk, w_term := term_write (ls_text w path) (w_term w)\<rparr>)"
proof (cases "opens w path")
  case None
  have "cmd_ls wr cwd [cmd, arg] w
      = Some (w\<lparr>w_tab := w_tab w, w_term := term_write (ls_text w path) (w_term w)\<rparr>)"
    by (simp add: cmd_ls_def path opens_None [OF t inv None] messages ls_text_def None)
  with same_used_refl show ?thesis by blast
next
  case (Some i)
  from opens_Some [OF inv t Some] obtain fd where
    o: "free_fd t = Some fd" "node_at (abs_fs (w_fs w)) path = Some i" "live (w_fs w) i"
    "sys_open wr w path 0 = (of_nat fd, w\<lparr>w_tab := Some (t(fd := fresh_desc (abs_fs (w_fs w)) 0 i))\<rparr>)"
    "sint (of_nat fd :: u64) = int fd" "3 \<le> fd" "fd < 16" by blast
  define w1 where "w1 = w\<lparr>w_tab := Some (t(fd := fresh_desc (abs_fs (w_fs w)) 0 i))\<rparr>"
  define u where "u = (if is_dir (w_fs w) i then concat (map (ls_item (w_fs w)) (entries (w_fs w) i)) else [])"
  have lt: "ls_text w path = u @ [10]"
    using munin_ls_items [OF inv] by (simp add: ls_text_def Some u_def)
  have l: "ls_loop wr (int fd) 0 (\<lambda>_. 0) w1 = Some (w1\<lparr>w_term := term_write u (w_term w1)\<rparr>)"
  proof (cases "is_dir (w_fs w) i")
    case True
    then have m: "abs_fs (w_fs w) i = Some (Dir (dir_map (w_fs w) i))" by (simp add: abs_fs_Dir)
    have "dir_fd (t(fd := fresh_desc (abs_fs (w_fs w)) 0 i)) fd i" by (rule fresh_dir_fd [OF o(1) m])
    with ls_loop_spec [of w1 i _ fd wr 0 "\<lambda>_. 0"] inv True show ?thesis by (simp add: w1_def u_def)
  next
    case False
    then obtain bs where bs: "abs_fs (w_fs w) i = Some (File bs)"
      using fs_live [OF inv o(3)] by (auto simp: abs_fs_File)
    have "sys_readdir w1 (int fd) 0 (\<lambda>_. 0) = (- 1, \<lambda>_. 0)"
      using o(6,7) by (simp add: sys_readdir_def w1_def vfs_readdir_def fresh_desc_def bs)
    with False show ?thesis by (subst ls_loop.simps) (simp add: u_def w1_def)
  qed
  define w2 where "w2 = w1\<lparr>w_term := term_write (u @ [10]) (w_term w)\<rparr>"
  have p: "puts wr line_end (w1\<lparr>w_term := term_write u (w_term w1)\<rparr>) = w2"
    by (simp add: messages w2_def w1_def term_write_append)
  from close_fresh [OF o(1), of w2 "fresh_desc (abs_fs (w_fs w)) 0 i"] obtain tk where
    tk: "same_used (Some t) tk" "sys_close w2 (int fd) = (0, w2\<lparr>w_tab := tk\<rparr>)" by (auto simp: w1_def w2_def)
  have "cmd_ls wr cwd [cmd, arg] w = Some (snd (sys_close w2 (int fd)))"
    unfolding cmd_ls_def by (simp add: path o(4,5) w1_def [symmetric] l p)
  then have "cmd_ls wr cwd [cmd, arg] w
      = Some (w\<lparr>w_tab := tk, w_term := term_write (ls_text w path) (w_term w)\<rparr>)"
    unfolding tk(2) by (simp add: w1_def w2_def lt)
  with tk(1) t show ?thesis by auto
qed

definition cd_result :: "'d world \<Rightarrow> cstr \<Rightarrow> cstr \<Rightarrow> cstr \<times> cstr" where
  "cd_result w cwd path = (case opens w path of None \<Rightarrow> (cwd, str ''cd: no such directory'' @ [10])
     | Some i \<Rightarrow> if is_dir (w_fs w) i then (take (str_len path) path, [])
                 else (cwd, str ''cd: not a directory'' @ [10]))"

lemma cmd_cd_result:
  assumes path: "abs_path cwd arg = Some path" and inv: "fs_inv (w_fs w)" and t: "w_tab w = Some t"
  shows "\<exists>tk. same_used (w_tab w) tk \<and> cmd_cd wr cwd [cmd, arg] w
    = Some (fst (cd_result w cwd path),
       w\<lparr>w_tab := tk, w_term := term_write (snd (cd_result w cwd path)) (w_term w)\<rparr>)"
proof (cases "opens w path")
  case None
  have "cmd_cd wr cwd [cmd, arg] w = Some (cwd, w\<lparr>w_tab := w_tab w,
      w_term := term_write (str ''cd: no such directory'' @ [10]) (w_term w)\<rparr>)"
    by (simp add: cmd_cd_def path opens_None [OF t inv None] messages)
  then show ?thesis by (intro exI [of _ "w_tab w"]) (simp add: same_used_refl cd_result_def None)
next
  case (Some i)
  from opens_Some [OF inv t Some] obtain fd where
    o: "free_fd t = Some fd" "node_at (abs_fs (w_fs w)) path = Some i" "live (w_fs w) i"
    "sys_open wr w path 0 = (of_nat fd, w\<lparr>w_tab := Some (t(fd := fresh_desc (abs_fs (w_fs w)) 0 i))\<rparr>)"
    "sint (of_nat fd :: u64) = int fd" "3 \<le> fd" "fd < 16" by blast
  define w1 where "w1 = w\<lparr>w_tab := Some (t(fd := fresh_desc (abs_fs (w_fs w)) 0 i))\<rparr>"
  have r: "0 \<le> sint (fst (sys_readdir w1 (int fd) 0 (\<lambda>_. 0))) \<longleftrightarrow> is_dir (w_fs w) i"
  proof (cases "is_dir (w_fs w) i")
    case True
    then have m: "abs_fs (w_fs w) i = Some (Dir (dir_map (w_fs w) i))" by (simp add: abs_fs_Dir)
    have v: "fst (sys_readdir w1 (int fd) 0 (\<lambda>_. 0)) = word_of_int (fst (munin_dirent (w_fs w) (int i) 0 (\<lambda>_. 0) 32))"
      using o(6,7) by (simp add: sys_readdir_def w1_def vfs_readdir_def fresh_desc_def m split: prod.splits)
    have "fst (munin_dirent (w_fs w) (int i) 0 (\<lambda>_. 0) 32) \<in> {0, 1, 2}"
    proof (cases "entries (w_fs w) i = []")
      case True
      with dirent_entries [OF inv \<open>is_dir (w_fs w) i\<close>, of 32 0 "\<lambda>_. 0"] show ?thesis by simp
    next
      case False
      then have "entries (w_fs w) i ! 0 \<in> set (entries (w_fs w) i)" by simp
      from entries_good(3) [OF inv \<open>is_dir (w_fs w) i\<close> this] False
        dirent_entries [OF inv \<open>is_dir (w_fs w) i\<close>, of 32 0 "\<lambda>_. 0"] show ?thesis by auto
    qed
    with True v show ?thesis by auto
  next
    case False
    then obtain bs where bs: "abs_fs (w_fs w) i = Some (File bs)"
      using fs_live [OF inv o(3)] by (auto simp: abs_fs_File)
    with False o(6,7) show ?thesis by (simp add: sys_readdir_def w1_def vfs_readdir_def fresh_desc_def)
  qed
  from close_fresh [OF o(1), of w1 "fresh_desc (abs_fs (w_fs w)) 0 i"] obtain tk where
    tk: "same_used (Some t) tk" "sys_close w1 (int fd) = (0, w1\<lparr>w_tab := tk\<rparr>)" by (auto simp: w1_def)
  have "cmd_cd wr cwd [cmd, arg] w = Some (if is_dir (w_fs w) i
      then (take (str_len path) path, w1\<lparr>w_tab := tk\<rparr>)
      else (cwd, puts wr (str ''cd: not a directory'' @ line_end) (w1\<lparr>w_tab := tk\<rparr>)))"
    using r unfolding cmd_cd_def by (simp add: path o(4,5) w1_def [symmetric] tk(2) Let_def not_le [symmetric])
  then show ?thesis using tk(1) t by (auto simp: cd_result_def Some messages w1_def)
qed

lemma set_render: "c \<in> set (render ws) \<longleftrightarrow> c = slash \<or> (\<exists>w \<in> set ws. c \<in> set w)"
  by (auto simp: render_def)

lemma normalize_set:
  assumes "w \<in> set (normalize ws inp)"
  shows "w \<in> set ws \<or> w \<in> set (comps inp)"
proof -
  have "w \<in> set (fold norm_step cs vs) \<Longrightarrow> w \<in> set vs \<or> w \<in> set cs" for cs vs
  proof (induction cs arbitrary: vs)
    case (Cons c cs)
    then have "w \<in> set (norm_step c vs) \<or> w \<in> set cs" by simp
    then show ?case by (auto simp: norm_step_def split: if_splits dest: in_set_butlastD)
  qed simp
  from this [of "comps inp" "[]"] this [of "comps inp" ws] assms show ?thesis by (auto simp: normalize_def split: if_splits)
qed

lemma abs_path_normal:
  assumes "0 \<notin> set (render ws)" and "0 \<notin> set arg" and "good_comps ws" and fits: "path_fits (render ws) arg"
  shows "abs_path (render ws) arg = Some (render (normalize ws arg))" "good_comps (normalize ws arg)"
    "0 \<notin> set (render (normalize ws arg))" "length (render (normalize ws arg)) < 128"
proof -
  have "holds (resolve_path (render ws) arg (\<lambda>_. 0)) (normalize ws arg) \<and> good_comps (normalize ws arg)"
    by (rule resolve_path_spec [OF assms(1,2) refl assms(3)])
  then show a: "abs_path (render ws) arg = Some (render (normalize ws arg))" "good_comps (normalize ws arg)"
    using fits by (auto simp: abs_path_def holds_def split: prod.splits)
  then show "length (render (normalize ws arg)) < 128"
    using resolve_path_fits [OF fits] fits by (auto simp: abs_path_def split: prod.splits dest!: arg_cong [of "map _ _" _ length])
  show "0 \<notin> set (render (normalize ws arg))"
  proof
    assume "0 \<in> set (render (normalize ws arg))"
    then obtain w where "w \<in> set (normalize ws arg)" "0 \<in> set w" by (auto simp: set_render)
    with normalize_set [of w ws arg] comps_set [of w arg] assms(1,2) show False
      by (auto simp: set_render)
  qed
qed

text \<open>A file system with a file of two bytes, for the witnesses.\<close>

definition hello_fs :: munin where
  "hello_fs = snd (munin_write_inode demo_fs 1 (char_at (str ''hi'')) 2 0)"

definition hello_world :: "disk \<Rightarrow> vworld" where
  "hello_world d = (demo_world d)\<lparr>w_fs := hello_fs\<rparr>"

lemma hello_fs:
  "fs_inv hello_fs" "abs_fs hello_fs = (abs_fs demo_fs)(1 \<mapsto> File (str ''hi''))"
  "node_at (abs_fs hello_fs) (str ''/a'') = Some 1" "is_dir hello_fs 0"
proof -
  show inv: "fs_inv hello_fs" unfolding hello_fs_def by (rule write_inode_inv [OF demo_inv])
  have "fst (munin_write_inode demo_fs 1 (char_at (str ''hi'')) 2 0) = 2" by code_simp
  moreover have "map (char_at (str ''hi'')) [0..<2] = str ''hi''" by code_simp
  moreover have "file_bytes demo_fs 1 = []" using demo_abs by (simp add: abs_fs_File)
  ultimately show a: "abs_fs hello_fs = (abs_fs demo_fs)(1 \<mapsto> File (str ''hi''))"
    using write_inode_abs [OF demo_inv demo_file(1), of 0 "char_at (str ''hi'')" 2]
    by (auto simp: hello_fs_def splice_def)
  have c: "char_at (str ''/a'') 0 = slash" "comps (take (str_len (str ''/a'')) (str ''/a'')) = [str ''a'']" by code_simp+
  have "node_at (abs_fs demo_fs) (str ''/a'') = Some 1"
    using demo_file(2) by (simp add: resolve_node [OF demo_inv] ino_of_def split: option.splits)
  then show "node_at (abs_fs hello_fs) (str ''/a'') = Some 1" by (auto simp: node_at_def c a split: option.splits node.splits)
  have "abs_fs demo_fs 0 = Some (Dir (dir_map demo_fs 0))" using demo_file(3) by (simp add: abs_fs_Dir)
  then have "abs_fs hello_fs 0 = Some (Dir (dir_map demo_fs 0))" by (simp add: a)
  then show "is_dir hello_fs 0" by (simp add: abs_fs_Dir)
qed

section \<open>Properties\<close>

text \<open>
  C32. For a path that fits the 128 bytes of its array, \<^verbatim>\<open>cat\<close> always returns, and prints the file: its bytes up
  to byte 4096 (what a descriptor can read), and a newline if the last byte printed is not one; a directory
  prints nothing, and a path that cannot be opened the error message. The file system, the disk and the
  descriptors in use are as before. (A working directory and an argument of together at most 126 characters
  fit: \<open>path_fits_short\<close>.)
\<close>

theorem cat_prints_file:
  assumes "fs_inv (w_fs w)" and "w_tab w = Some t" and "abs_path cwd arg = Some path"
  shows "\<exists>tk. same_used (w_tab w) tk \<and> cmd_cat wr cwd [cmd, arg] w
    = Some (w\<lparr>w_tab := tk, w_term := term_write (cat_text w path) (w_term w)\<rparr>)"
  by (rule cmd_cat_text [OF assms(3,1,2)])

theorem cat_prints_file_witness:
  "\<forall>(wr :: drive disk_write) d. \<exists>tk. cmd_cat wr (str ''/'') [str ''cat'', str ''a''] (hello_world d)
     = Some (hello_world d \<lparr>w_tab := tk, w_term := term_write (str ''hi'' @ [10]) blank_term\<rparr>)"
proof (intro allI)
  fix wr :: "drive disk_write" and d
  have w: "fs_inv (w_fs (hello_world d))" "w_tab (hello_world d) = Some closed_table" "w_fs (hello_world d) = hello_fs"
    "w_term (hello_world d) = blank_term"
    by (simp_all add: hello_world_def demo_world_def vfs_sync_def hello_fs(1))
  have p: "abs_path (str ''/'') (str ''a'') = Some (str ''/a'')" "free_fd closed_table = Some 3"
    "cat_output (str ''hi'') = str ''hi'' @ [10]" by code_simp+
  have "cat_text (hello_world d) (str ''/a'') = str ''hi'' @ [10]"
    by (simp add: cat_text_def opens_def w(2,3) p(2,3) hello_fs(3), simp add: hello_fs(2) w(3) p(3))
  with cat_prints_file [OF w(1,2) p(1), of wr "str ''cat''"] w(4) show "\<exists>tk. cmd_cat wr (str ''/'') [str ''cat'', str ''a''] (hello_world d)
     = Some (hello_world d \<lparr>w_tab := tk, w_term := term_write (str ''hi'' @ [10]) blank_term\<rparr>)"
    by auto
qed

text \<open>
  C33. For a path that fits its array, \<^verbatim>\<open>ls\<close> always returns, and prints what the kernel's own listing of the
  directory is: its calls of \<^verbatim>\<open>readdir\<close> with growing indices give the text of \<^verbatim>\<open>munin_ls\<close>; on a file it prints an
  empty line, and for a path that cannot be opened the error message.
\<close>

theorem ls_prints_listing:
  assumes "fs_inv (w_fs w)" and "w_tab w = Some t" and "abs_path cwd arg = Some path"
  shows "\<exists>tk. same_used (w_tab w) tk \<and> cmd_ls wr cwd [cmd, arg] w
    = Some (w\<lparr>w_tab := tk, w_term := term_write (ls_text w path) (w_term w)\<rparr>)"
  by (rule cmd_ls_text [OF assms(3,1,2)])

theorem ls_prints_listing_witness:
  "\<forall>(wr :: drive disk_write) d. \<exists>tk. cmd_ls wr (str ''/'') [str ''ls'', str ''.''] (hello_world d)
     = Some (hello_world d \<lparr>w_tab := tk, w_term := term_write (munin_ls hello_fs 0) blank_term\<rparr>)"
proof (intro allI)
  fix wr :: "drive disk_write" and d
  have w: "fs_inv (w_fs (hello_world d))" "w_tab (hello_world d) = Some closed_table" "w_fs (hello_world d) = hello_fs"
    "w_term (hello_world d) = blank_term"
    by (simp_all add: hello_world_def demo_world_def vfs_sync_def hello_fs(1))
  have p: "abs_path (str ''/'') (str ''.'') = Some (str ''/'')" "free_fd closed_table = Some 3" by code_simp+
  have "char_at (str ''/'') 0 = slash" "comps (take (str_len (str ''/'')) (str ''/'')) = []" by code_simp+
  then have n: "node_at (abs_fs hello_fs) (str ''/'') = Some 0" by (simp add: node_at_def)
  have "ls_text (hello_world d) (str ''/'') = munin_ls hello_fs 0"
    using hello_fs(4) by (simp add: ls_text_def opens_def w(2,3) n p(2))
  with ls_prints_listing [OF w(1,2) p(1), of wr "str ''ls''"] w(4) show "\<exists>tk. cmd_ls wr (str ''/'') [str ''ls'', str ''.''] (hello_world d)
     = Some (hello_world d \<lparr>w_tab := tk, w_term := term_write (munin_ls hello_fs 0) blank_term\<rparr>)"
    by auto
qed

text \<open>
  C34. The working directory stays a normalized absolute path within its 128 bytes: \<^verbatim>\<open>cd\<close>, for an argument
  whose path fits, replaces it by the normalized path of the argument when that is a directory, and otherwise
  leaves it and prints the message; it changes nothing else.
\<close>

theorem cd_keeps_path_normal:
  assumes "fs_inv (w_fs w)" and "w_tab w = Some t"
    and "0 \<notin> set (render ws)" and "0 \<notin> set arg" and "good_comps ws"
    and "length (render ws) < 128" and "path_fits (render ws) arg"
  shows "\<exists>tk ws'. same_used (w_tab w) tk \<and> good_comps ws' \<and> 0 \<notin> set (render ws') \<and> length (render ws') < 128
    \<and> cmd_cd wr (render ws) [cmd, arg] w = Some (render ws', w\<lparr>w_tab := tk,
         w_term := term_write (snd (cd_result w (render ws) (render (normalize ws arg)))) (w_term w)\<rparr>)
    \<and> ws' = (case opens w (render (normalize ws arg)) of
         Some i \<Rightarrow> if is_dir (w_fs w) i then normalize ws arg else ws | None \<Rightarrow> ws)"
proof -
  note a = abs_path_normal [OF assms(3-5,7)]
  from cmd_cd_result [OF a(1) assms(1,2), of wr cmd] obtain tk where
    tk: "same_used (w_tab w) tk" "cmd_cd wr (render ws) [cmd, arg] w
    = Some (fst (cd_result w (render ws) (render (normalize ws arg))),
       w\<lparr>w_tab := tk, w_term := term_write (snd (cd_result w (render ws) (render (normalize ws arg)))) (w_term w)\<rparr>)"
    by blast
  define ws' where "ws' = (case opens w (render (normalize ws arg)) of
         Some i \<Rightarrow> if is_dir (w_fs w) i then normalize ws arg else ws | None \<Rightarrow> ws)"
  have "fst (cd_result w (render ws) (render (normalize ws arg))) = render ws'"
    by (simp add: cd_result_def ws'_def str_len_no_nul [OF a(3)] split: option.splits)
  moreover have "good_comps ws' \<and> 0 \<notin> set (render ws') \<and> length (render ws') < 128"
    using a(2-4) assms(3,5,6) by (simp add: ws'_def split: option.splits)
  ultimately show ?thesis using tk ws'_def by metis
qed

theorem cd_keeps_path_normal_witness:
  "\<forall>(wr :: drive disk_write) d. \<exists>w'. cmd_cd wr (str ''/'') [str ''cd'', str ''./..''] (demo_world d) = Some (str ''/'', w')"
proof (intro allI)
  fix wr :: "drive disk_write" and d
  have w: "fs_inv (w_fs (demo_world d))" "w_tab (demo_world d) = Some closed_table"
    by (simp_all add: demo_world_def vfs_sync_def demo_inv)
  have r: "str ''/'' = render []" "0 \<notin> set (render [])" "0 \<notin> set (str ''./..'')" "good_comps []" "length (render []) < 128"
    "path_fits (render []) (str ''./..'')" "normalize [] (str ''./..'') = []" by code_simp+
  from cd_keeps_path_normal [OF w r(2-6), of wr "str ''cd''"] obtain w' ws' where
    "cmd_cd wr (render []) [str ''cd'', str ''./..''] (demo_world d) = Some (render ws', w')" "ws' = []"
    unfolding r(7) by (auto split: option.splits if_splits)
  then show "\<exists>w'. cmd_cd wr (str ''/'') [str ''cd'', str ''./..''] (demo_world d) = Some (str ''/'', w')"
    by (auto simp: r(1))
qed

text \<open>A path that does not fit: the command does not get a defined result.\<close>

lemma cat_overruns: "\<not> path_fits cwd arg \<Longrightarrow> cmd_cat wr cwd [cmd, arg] w = None"
  by (simp add: cmd_cat_def abs_path_def)

end
