(* ===== verification/Elf.thy ===== *)
theory Elf
  imports Vmm_Props
begin

text \<open>
  The program loader (kernel/elf.cpp). An image is the address of its first byte in the kernel's
  memory, and every header field is read from that memory where the code reads it, the program headers
  again in every round of the loops. Addresses of the new space are written through the identity map.
  A loop that does not end is the result \<open>None\<close>; \<open>entry\<close> is what \<^verbatim>\<open>*entry_out\<close> holds. The messages on
  the serial port are left out.
\<close>

section \<open>Headers\<close>

definition rd16 :: "mem \<Rightarrow> u64 \<Rightarrow> u16" where
  "rd16 m a = ucast (m a) OR push_bit 8 (ucast (m (a + 1)))"

definition eh_entry :: "mem \<Rightarrow> u64 \<Rightarrow> u64" where "eh_entry m elf = rd64 m (elf + 24)"
definition eh_phoff :: "mem \<Rightarrow> u64 \<Rightarrow> u64" where "eh_phoff m elf = rd64 m (elf + 32)"
definition eh_phnum :: "mem \<Rightarrow> u64 \<Rightarrow> u16" where "eh_phnum m elf = rd16 m (elf + 56)"

definition ph_type :: "mem \<Rightarrow> u64 \<Rightarrow> u32" where "ph_type m p = rd32 m p"
definition ph_offset :: "mem \<Rightarrow> u64 \<Rightarrow> u64" where "ph_offset m p = rd64 m (p + 8)"
definition ph_vaddr :: "mem \<Rightarrow> u64 \<Rightarrow> u64" where "ph_vaddr m p = rd64 m (p + 16)"
definition ph_filesz :: "mem \<Rightarrow> u64 \<Rightarrow> u64" where "ph_filesz m p = rd64 m (p + 32)"
definition ph_memsz :: "mem \<Rightarrow> u64 \<Rightarrow> u64" where "ph_memsz m p = rd64 m (p + 40)"

definition PT_LOAD :: u32 where "PT_LOAD = 1"

text \<open>The address of program header \<open>i\<close>; a header has 56 bytes.\<close>

definition phdr_at :: "u64 \<Rightarrow> nat \<Rightarrow> u64" where
  "phdr_at phdr i = phdr + of_nat (56 * i)"

definition elf_magic :: "mem \<Rightarrow> u64 \<Rightarrow> bool" where
  "elf_magic m elf \<longleftrightarrow> m elf = 0x7F \<and> m (elf + 1) = 69 \<and> m (elf + 2) = 76 \<and> m (elf + 3) = 70"

definition elf_64 :: "mem \<Rightarrow> u64 \<Rightarrow> bool" where
  "elf_64 m elf \<longleftrightarrow> m (elf + 4) = 2"

section \<open>Loading\<close>

definition zero_frame :: "u64 \<Rightarrow> mem \<Rightarrow> mem" where
  "zero_frame frame m = fold (\<lambda>b m. m(frame + of_nat b := 0)) [0..<4096] m"

definition copy_byte :: "u64 \<Rightarrow> u64 \<Rightarrow> u64 \<Rightarrow> u64 \<Rightarrow> nat \<Rightarrow> mem \<Rightarrow> mem" where
  "copy_byte elf p va frame off m =
     (let vaddr = va + of_nat off
      in if ph_vaddr m p \<le> vaddr \<and> vaddr < ph_vaddr m p + ph_filesz m p
         then m(frame + of_nat off := m (elf + (ph_offset m p + (vaddr - ph_vaddr m p)))) else m)"

definition load_page :: "u64 \<Rightarrow> u64 \<Rightarrow> u64 \<Rightarrow> u64 \<Rightarrow> vmm \<Rightarrow> vmm" where
  "load_page elf space p va s =
     (let (frame, pm) = pmm_alloc_frame (vm_pmm s);
          m = fold (copy_byte elf p va frame) [0..<4096] (zero_frame frame (vm_mem s))
      in vmm_map_page_in space va frame (PAGE_PRESENT OR PAGE_WRITABLE OR PAGE_USER)
           (s\<lparr>vm_pmm := pm, vm_mem := m\<rparr>))"

partial_function (option) load_pages :: "u64 \<Rightarrow> u64 \<Rightarrow> u64 \<Rightarrow> u64 \<Rightarrow> u64 \<Rightarrow> vmm \<Rightarrow> vmm option" where
  "load_pages elf space p va va_end s =
     (if va < va_end then load_pages elf space p (va + 0x1000) va_end (load_page elf space p va s) else Some s)"

definition seg_start :: "mem \<Rightarrow> u64 \<Rightarrow> u64" where
  "seg_start m p = ph_vaddr m p AND NOT 0xFFF"

definition seg_end :: "mem \<Rightarrow> u64 \<Rightarrow> u64" where
  "seg_end m p = (ph_vaddr m p + ph_memsz m p + 0xFFF) AND NOT 0xFFF"

definition load_segment :: "u64 \<Rightarrow> u64 \<Rightarrow> u64 \<Rightarrow> vmm \<Rightarrow> vmm option" where
  "load_segment elf space p s =
     (if ph_type (vm_mem s) p \<noteq> PT_LOAD then Some s
      else load_pages elf space p (seg_start (vm_mem s) p) (seg_end (vm_mem s) p) s)"

partial_function (option) load_segments :: "u64 \<Rightarrow> u64 \<Rightarrow> u64 \<Rightarrow> nat \<Rightarrow> vmm \<Rightarrow> vmm option" where
  "load_segments elf space phdr i s =
     (if i < unat (eh_phnum (vm_mem s) elf)
      then Option.bind (load_segment elf space (phdr_at phdr i) s) (load_segments elf space phdr (i + 1))
      else Some s)"

definition elf_load :: "u64 \<Rightarrow> u64 \<Rightarrow> vmm \<Rightarrow> (u64 \<times> u64 \<times> vmm) option" where
  "elf_load elf entry s =
     (if \<not> elf_magic (vm_mem s) elf then Some (0, entry, s)
      else if \<not> elf_64 (vm_mem s) elf then Some (0, entry, s)
      else let (space, s1) = vmm_create_address_space s;
               phdr = elf + eh_phoff (vm_mem s1) elf
           in Option.bind (load_segments elf space phdr 0 s1) (\<lambda>s2.
                Some (space, eh_entry (vm_mem s2) elf, s2)))"

section \<open>What a process sees\<close>

text \<open>The addresses of the private part of a space.\<close>

definition user_addr :: "u64 \<Rightarrow> bool" where
  "user_addr v \<longleftrightarrow> 2 ^ 39 \<le> unat v \<and> unat v < 2 ^ 48"

definition user_view :: "vmm \<Rightarrow> u64 \<Rightarrow> u64 \<Rightarrow> u8 option" where
  "user_view s root v = map_option (vm_mem s) (translate (vm_mem s) root v)"

text \<open>Between \<open>s0\<close> and \<open>s\<close> the space has been made, and its user part holds the bytes \<open>W\<close>.\<close>

definition holds :: "vmm \<Rightarrow> vmm \<Rightarrow> u64 \<Rightarrow> (u64 \<Rightarrow> u8 option) \<Rightarrow> bool" where
  "holds s0 s root W \<longleftrightarrow> built s0 s root \<and> (\<forall>v. user_addr v \<longrightarrow> user_view s root v = W v)"

lemma user_addr_index: "user_addr v \<Longrightarrow> pml4_index v \<noteq> 0"
proof -
  assume "user_addr v"
  then have "1 \<le> unat v div 2 ^ 39" "unat v div 2 ^ 39 < 512"
    by (simp_all add: user_addr_def less_eq_div_iff_mult_less_eq div_less_iff_less_mult)
  then show ?thesis by (simp add: unat_index)
qed

lemma user_same_page: "user_addr v \<Longrightarrow> user_addr w \<Longrightarrow> same_page v w \<longleftrightarrow> page_of v = page_of w"
  by (rule low_same_page) (simp_all add: user_addr_def)

lemma view_leaf:
  assumes b: "built s0 s root" and v: "user_addr v"
  shows "user_view s root v = (case leaf (vm_mem s) root (page_path v) (pt_index v) of
      None \<Rightarrow> None | Some e \<Rightarrow> Some (vm_mem s (target e + of_nat (unat v mod 4096))))"
  using user_translate [OF builtD(3) [OF b] user_addr_index [OF v]]
  by (simp add: user_view_def split: option.split)

lemma user_leaf_leaf:
  "user_addr v \<Longrightarrow> user_leaf m root (page_path v) (pt_index v) e \<longleftrightarrow> leaf m root (page_path v) (pt_index v) = Some e"
  using upath_page [OF user_addr_index, of v] by (simp add: user_leaf_def index_lt)

lemma flags_7: "PAGE_PRESENT OR PAGE_WRITABLE OR PAGE_USER = 7"
  by (simp add: PAGE_PRESENT_def PAGE_WRITABLE_def PAGE_USER_def)

text \<open>Mapping a fresh frame adds its bytes to what the process sees.\<close>

lemma holds_map:
  assumes h: "holds s0 s root W" and va: "user_addr va" and new: "\<And>v. user_addr v \<Longrightarrow> page_of v = page_of va \<Longrightarrow> W v = None"
    and free: "4 \<le> card (free_set (vm_pmm s))"
    and f: "pmm_alloc_frame (vm_pmm s) = (frame_addr f, take_frame f (vm_pmm s))" "f \<in> free_set (vm_pmm s)"
    and out: "\<forall>x. page_of x \<noteq> f \<longrightarrow> m1 x = vm_mem s x"
    and s': "s' = vmm_map_page_in root va (frame_addr f) (PAGE_PRESENT OR PAGE_WRITABLE OR PAGE_USER)
      (s\<lparr>vm_pmm := take_frame f (vm_pmm s), vm_mem := m1\<rparr>)"
  shows "holds s0 s' root (\<lambda>v. if page_of v = page_of va then Some (m1 (frame_addr f + of_nat (unat v mod 4096))) else W v)"
    and "card (free_set (vm_pmm s)) \<le> card (free_set (vm_pmm s')) + 4"
proof -
  have b: "built s0 s root" using h by (simp add: holds_def)
  have un: "leaf (vm_mem s) root (page_path va) (pt_index va) = None"
    using new [OF va refl] h va view_leaf [OF b va] by (simp add: holds_def split: option.splits)
  have fl: "(7 :: u64) < 0x1000" by simp
  note bm = built_map [OF b user_addr_index [OF va] un free fl f out s' [unfolded flags_7]]
  have b': "built s0 s' root" by (rule bm(1))
  have f52: "f < 2 ^ 52" using free_set_bound [OF _ f(2)] builtD(2) [OF b] by (simp add: pool_inv_def)
  have pf: "page_of (frame_addr f + of_nat k) = f" if "k < 4096" for k
    using unat_in_page(2) [OF page_aligned_frame [OF f52] that] page_of_frame [OF f52] by simp
  show "card (free_set (vm_pmm s)) \<le> card (free_set (vm_pmm s')) + 4" by (rule bm(3))
  have "user_view s' root v = (if page_of v = page_of va then Some (m1 (frame_addr f + of_nat (unat v mod 4096))) else W v)"
    if v: "user_addr v" for v
  proof (cases "page_of v = page_of va")
    case True
    then have same: "page_path v = page_path va" "pt_index v = pt_index va"
      using user_same_page [OF v va] by (simp_all add: same_page_def)
    let ?e = "frame_addr f OR 7 OR PAGE_PRESENT"
    have "leaf (vm_mem s') root (page_path v) (pt_index v) = Some ?e"
      using bm(2) [of "page_path v" "pt_index v" ?e] user_leaf_leaf [OF v, of "vm_mem s'"] same by simp
    moreover have "target ?e = frame_addr f"
    proof -
      have "page_of (target ?e) = f" using bm(6) by (simp add: page_of_target)
      then show ?thesis using page_of_inj [OF page_aligned_target page_aligned_frame [OF f52]] page_of_frame [OF f52] by simp
    qed
    ultimately show ?thesis using True view_leaf [OF b' v] bm(4) pf by simp
  next
    case False
    have l: "leaf (vm_mem s') root (page_path v) (pt_index v) = leaf (vm_mem s) root (page_path v) (pt_index v)"
    proof -
      have nin: "\<not> (page_path v = page_path va \<and> pt_index v = pt_index va)"
        using user_same_page [OF v va] False by (simp add: same_page_def)
      have "leaf (vm_mem s') root (page_path v) (pt_index v) = Some e
          \<longleftrightarrow> leaf (vm_mem s) root (page_path v) (pt_index v) = Some e" for e
        using bm(2) [of "page_path v" "pt_index v" e] unfolding if_not_P [OF nin] user_leaf_leaf [OF v] .
      then show ?thesis by (metis option.exhaust)
    qed
    have "user_view s' root v = user_view s root v"
    proof (cases "leaf (vm_mem s) root (page_path v) (pt_index v)")
      case (Some e)
      have "page_of (target e + of_nat (unat v mod 4096)) = page_of e"
        using unat_in_page(2) [OF page_aligned_target, of "unat v mod 4096" e] by (simp add: page_of_target)
      then have "vm_mem s' (target e + of_nat (unat v mod 4096)) = vm_mem s (target e + of_nat (unat v mod 4096))"
        using bm(5) Some user_leaf_leaf [OF v] by blast
      then show ?thesis using Some l by (simp add: view_leaf [OF b v] view_leaf [OF b' v])
    qed (use l in \<open>simp add: view_leaf [OF b v] view_leaf [OF b' v]\<close>)
    then show ?thesis using False h v by (simp add: holds_def)
  qed
  then show "holds s0 s' root (\<lambda>v. if page_of v = page_of va then Some (m1 (frame_addr f + of_nat (unat v mod 4096))) else W v)"
    using b' by (simp add: holds_def)
qed

section \<open>Loading one page\<close>

lemma zero_frame_spec:
  assumes "page_aligned fr"
  shows "k < 4096 \<Longrightarrow> zero_frame fr m (fr + of_nat k) = 0" and "page_of x \<noteq> page_of fr \<Longrightarrow> zero_frame fr m x = m x"
proof -
  define z where "z n = fold (\<lambda>b m. m(fr + of_nat b := 0)) [0..<n] m" for n
  have z: "z 0 = m" "z (Suc n) = (z n)(fr + of_nat n := 0)" for n by (simp_all add: z_def)
  have "(\<forall>k < n. z n (fr + of_nat k) = 0) \<and> (\<forall>x. page_of x \<noteq> page_of fr \<longrightarrow> z n x = m x)" if "n \<le> 4096" for n
    using that
  proof (induction n)
    case (Suc n)
    then show ?case using unat_in_page(2) [OF assms, of n] unfolding z by (auto simp: less_Suc_eq)
  qed (simp add: z)
  from this [of 4096] show "k < 4096 \<Longrightarrow> zero_frame fr m (fr + of_nat k) = 0"
    and "page_of x \<noteq> page_of fr \<Longrightarrow> zero_frame fr m x = m x"
    by (simp_all add: zero_frame_def z_def)
qed

text \<open>Memory that still holds the image: \<open>ilen\<close> bytes from \<open>elf\<close> on.\<close>

definition same_image :: "u64 \<Rightarrow> nat \<Rightarrow> mem \<Rightarrow> mem \<Rightarrow> bool" where
  "same_image elf ilen m m' \<longleftrightarrow> (\<forall>k < ilen. m' (elf + of_nat k) = m (elf + of_nat k))"

text \<open>A program header inside the image, whose segment is inside the image and inside the user part.\<close>

definition seg_ok :: "mem \<Rightarrow> u64 \<Rightarrow> nat \<Rightarrow> u64 \<Rightarrow> bool" where
  "seg_ok m elf ilen p \<longleftrightarrow> (\<exists>j. p = elf + of_nat j \<and> j + 56 \<le> ilen)
     \<and> unat (ph_offset m p) + unat (ph_filesz m p) \<le> ilen \<and> ph_filesz m p \<le> ph_memsz m p
     \<and> 2 ^ 39 \<le> unat (ph_vaddr m p) \<and> unat (ph_vaddr m p) + unat (ph_memsz m p) \<le> 2 ^ 48"

definition seg_byte :: "mem \<Rightarrow> u64 \<Rightarrow> u64 \<Rightarrow> u64 \<Rightarrow> u8" where
  "seg_byte m elf p v = (if ph_vaddr m p \<le> v \<and> v < ph_vaddr m p + ph_filesz m p
     then m (elf + (ph_offset m p + (v - ph_vaddr m p))) else 0)"

lemma same_image_at: "same_image elf ilen m m' \<Longrightarrow> k < ilen \<Longrightarrow> m' (elf + of_nat k) = m (elf + of_nat k)"
  by (simp add: same_image_def)

lemma same_image_rd64:
  assumes "same_image elf ilen m m'" and "j + 8 \<le> ilen"
  shows "rd64 m' (elf + of_nat j) = rd64 m (elf + of_nat j)"
proof (rule rd64_cong)
  fix i :: nat assume "i < 8"
  then show "m' (elf + of_nat j + of_nat i) = m (elf + of_nat j + of_nat i)"
    using same_image_at [OF assms(1), of "j + i"] assms(2) by (simp add: add.assoc)
qed

lemma same_image_rd32:
  assumes "same_image elf ilen m m'" and "j + 4 \<le> ilen"
  shows "rd32 m' (elf + of_nat j) = rd32 m (elf + of_nat j)"
  unfolding rd32_def
proof (rule ld32_cong)
  fix i :: nat assume "i < 4"
  then show "m' (elf + of_nat j + of_nat i) = m (elf + of_nat j + of_nat i)"
    using same_image_at [OF assms(1), of "j + i"] assms(2) by (simp add: add.assoc)
qed

lemma same_image_fields:
  assumes "same_image elf ilen m m'" and "p = elf + of_nat j" and "j + 56 \<le> ilen"
  shows "ph_type m' p = ph_type m p" "ph_offset m' p = ph_offset m p" "ph_vaddr m' p = ph_vaddr m p"
    "ph_filesz m' p = ph_filesz m p" "ph_memsz m' p = ph_memsz m p"
proof -
  have "p + of_nat k = elf + of_nat (j + k)" for k using assms(2) by (simp add: add.assoc)
  from this [of 8] this [of 16] this [of 32] this [of 40]
  have a: "p + 8 = elf + of_nat (j + 8)" "p + 16 = elf + of_nat (j + 16)" "p + 32 = elf + of_nat (j + 32)"
    "p + 40 = elf + of_nat (j + 40)" by simp_all
  show "ph_type m' p = ph_type m p"
    unfolding ph_type_def assms(2) by (rule same_image_rd32 [OF assms(1)]) (use assms(3) in simp)
  show "ph_offset m' p = ph_offset m p" "ph_vaddr m' p = ph_vaddr m p"
    "ph_filesz m' p = ph_filesz m p" "ph_memsz m' p = ph_memsz m p"
    unfolding ph_offset_def ph_vaddr_def ph_filesz_def ph_memsz_def a
    by (rule same_image_rd64 [OF assms(1)], use assms(3) in simp)+
qed

lemma copy_bytes_spec:
  assumes fr: "page_aligned fr" and seg: "seg_ok m0 elf ilen p" and img: "same_image elf ilen m0 m"
    and apart: "\<forall>k < ilen. page_of (elf + of_nat k) \<noteq> page_of fr" and k: "k < 4096"
  shows "fold (copy_byte elf p va fr) [0..<4096] m (fr + of_nat k)
      = (if ph_vaddr m0 p \<le> va + of_nat k \<and> va + of_nat k < ph_vaddr m0 p + ph_filesz m0 p
         then seg_byte m0 elf p (va + of_nat k) else m (fr + of_nat k))"
    and "page_of x \<noteq> page_of fr \<Longrightarrow> fold (copy_byte elf p va fr) [0..<4096] m x = m x"
proof -
  define c where "c n = fold (copy_byte elf p va fr) [0..<n] m" for n
  have c0: "c 0 = m" and cS: "c (Suc n) = copy_byte elf p va fr n (c n)" for n by (simp_all add: c_def)
  let ?in = "\<lambda>k :: nat. ph_vaddr m0 p \<le> va + of_nat k \<and> va + of_nat k < ph_vaddr m0 p + ph_filesz m0 p"
  from seg obtain j where j: "p = elf + of_nat j" "j + 56 \<le> ilen" by (auto simp: seg_ok_def)
  have main: "(\<forall>k < 4096. c n (fr + of_nat k) = (if k < n \<and> ?in k then seg_byte m0 elf p (va + of_nat k) else m (fr + of_nat k)))
      \<and> (\<forall>x. page_of x \<noteq> page_of fr \<longrightarrow> c n x = m x)" if "n \<le> 4096" for n
    using that
  proof (induction n)
    case (Suc n)
    then have IH: "\<And>k. k < 4096 \<Longrightarrow> c n (fr + of_nat k) = (if k < n \<and> ?in k then seg_byte m0 elf p (va + of_nat k) else m (fr + of_nat k))"
      "\<And>x. page_of x \<noteq> page_of fr \<Longrightarrow> c n x = m x" and n: "n < 4096" by auto
    have im: "same_image elf ilen m0 (c n)" using img apart IH(2) by (simp add: same_image_def)
    note fld = same_image_fields [OF im j]
    have byte: "c n (elf + (ph_offset m0 p + (va + of_nat n - ph_vaddr m0 p))) = seg_byte m0 elf p (va + of_nat n)" if i: "?in n"
    proof -
      let ?d = "va + of_nat n - ph_vaddr m0 p"
      have ub: "unat (ph_vaddr m0 p) + unat (ph_filesz m0 p) < 2 ^ 64"
        using seg by (auto simp: seg_ok_def word_le_nat_alt)
      have d: "unat ?d < unat (ph_filesz m0 p)"
      proof -
        have "unat ?d = unat (va + of_nat n) - unat (ph_vaddr m0 p)" using i by (simp add: unat_sub)
        moreover have "unat (va + of_nat n) < unat (ph_vaddr m0 p) + unat (ph_filesz m0 p)"
          using i ub by (simp add: word_less_nat_alt unat_add_u64)
        ultimately show ?thesis using i by (auto simp: word_le_nat_alt word_less_nat_alt)
      qed
      then have "unat (ph_offset m0 p) + unat ?d < ilen" using seg by (auto simp: seg_ok_def)
      moreover have "ph_offset m0 p + ?d = of_nat (unat (ph_offset m0 p) + unat ?d)" by simp
      ultimately have "c n (elf + (ph_offset m0 p + ?d)) = m0 (elf + (ph_offset m0 p + ?d))"
        using im unfolding same_image_def by metis
      then show ?thesis using i by (simp add: seg_byte_def)
    qed
    have step: "c (Suc n) = (if ?in n then (c n)(fr + of_nat n := seg_byte m0 elf p (va + of_nat n)) else c n)"
      unfolding cS copy_byte_def Let_def fld using byte by auto
    have inj: "fr + of_nat k = fr + of_nat n \<longleftrightarrow> k = n" if "k < 4096" for k :: nat
      using that n by (auto dest!: arg_cong [where f = unat] simp: unat_of_nat_u64)
    have pn: "page_of (fr + of_nat n) = page_of fr" using unat_in_page(2) [OF fr n] .
    show ?case unfolding step using IH inj pn by (auto simp: less_Suc_eq)
  qed (simp add: c0)
  from main [of 4096] k show "fold (copy_byte elf p va fr) [0..<4096] m (fr + of_nat k)
      = (if ?in k then seg_byte m0 elf p (va + of_nat k) else m (fr + of_nat k))"
    and "page_of x \<noteq> page_of fr \<Longrightarrow> fold (copy_byte elf p va fr) [0..<4096] m x = m x"
    unfolding c_def by simp_all
qed

lemma load_page_holds:
  assumes h: "holds s0 s root W" and va: "user_addr va" "page_aligned va"
    and new: "\<And>v. user_addr v \<Longrightarrow> page_of v = page_of va \<Longrightarrow> W v = None"
    and free: "4 \<le> card (free_set (vm_pmm s))" and seg: "seg_ok (vm_mem s0) elf ilen p"
    and img: "\<forall>k < ilen. page_of (elf + of_nat k) \<notin> free_set (vm_pmm s0)"
  shows "holds s0 (load_page elf root p va s) root
      (\<lambda>v. if page_of v = page_of va then Some (seg_byte (vm_mem s0) elf p v) else W v)"
    and "card (free_set (vm_pmm s)) \<le> card (free_set (vm_pmm (load_page elf root p va s))) + 4"
proof -
  have b: "built s0 s root" using h by (simp add: holds_def)
  note B = builtD [OF b]
  have "free_set (vm_pmm s) \<noteq> {}" using free by auto
  from alloc_frame_cases [OF B(2) this] obtain f where
    f: "pmm_alloc_frame (vm_pmm s) = (frame_addr f, take_frame f (vm_pmm s))" "f \<in> free_set (vm_pmm s)" "f < 2 ^ 52"
    by metis
  let ?fr = "frame_addr f" and ?z = "zero_frame (frame_addr f) (vm_mem s)"
  let ?m = "fold (copy_byte elf p va ?fr) [0..<4096] ?z"
  have al: "page_aligned ?fr" "page_of ?fr = f" by (rule page_aligned_frame [OF f(3)], rule page_of_frame [OF f(3)])
  have ap: "\<forall>k < ilen. page_of (elf + of_nat k) \<noteq> page_of ?fr" using img subsetD [OF B(8) f(2)] unfolding al(2) by metis
  have im: "same_image elf ilen (vm_mem s0) ?z"
    using img B(10) zero_frame_spec(2) [OF al(1)] ap by (simp add: same_image_def)
  note cp = copy_bytes_spec [OF al(1) seg im ap]
  have out: "\<forall>x. page_of x \<noteq> f \<longrightarrow> ?m x = vm_mem s x"
    using cp(2) [of 0] zero_frame_spec(2) [OF al(1)] al(2) by simp
  have at: "?m (?fr + of_nat k) = seg_byte (vm_mem s0) elf p (va + of_nat k)" if "k < 4096" for k
    using cp(1) [OF that, of va] zero_frame_spec(1) [OF al(1) that] by (simp add: seg_byte_def)
  have run: "load_page elf root p va s = vmm_map_page_in root va ?fr (PAGE_PRESENT OR PAGE_WRITABLE OR PAGE_USER)
      (s\<lparr>vm_pmm := take_frame f (vm_pmm s), vm_mem := ?m\<rparr>)"
    by (simp add: load_page_def f(1) Let_def)
  note hm = holds_map [OF h va(1) new free f(1,2) out run]
  show "card (free_set (vm_pmm s)) \<le> card (free_set (vm_pmm (load_page elf root p va s))) + 4" by (rule hm(2))
  have "va + of_nat (unat v mod 4096) = v" if pv: "page_of v = page_of va" for v
  proof -
    obtain k where k: "k < 4096" "v = va + of_nat k" using page_offset [OF va(2) pv] by blast
    have "unat v mod 4096 = k" using unat_in_page(1) [OF va(2) k(1)] va(2) k by auto
    then show ?thesis using k(2) by simp
  qed
  then have eq: "(\<lambda>v. if page_of v = page_of va then Some (?m (?fr + of_nat (unat v mod 4096))) else W v)
      = (\<lambda>v. if page_of v = page_of va then Some (seg_byte (vm_mem s0) elf p v) else W v)"
    using at by (auto simp: fun_eq_iff)
  show "holds s0 (load_page elf root p va s) root
      (\<lambda>v. if page_of v = page_of va then Some (seg_byte (vm_mem s0) elf p v) else W v)"
    using hm(1) unfolding eq .
qed

section \<open>Loading the segments\<close>

text \<open>The pages of a segment, from the rounded start to the rounded end.\<close>

definition seg_pages :: "mem \<Rightarrow> u64 \<Rightarrow> nat set" where
  "seg_pages m p = {page_of (seg_start m p) ..< page_of (seg_end m p)}"

lemma and_not_fff: "(w AND NOT 0xFFF :: u64) = of_nat (unat w div 4096 * 4096)"
proof -
  have "(w AND NOT 0xFFF) = target w" by (simp add: target_def ADDR_MASK_alt mask_eq_exp_minus_1)
  then have "unat (w AND NOT 0xFFF) = unat w div 4096 * 4096" by (simp only: unat_target)
  then have "of_nat (unat (w AND NOT 0xFFF)) = (of_nat (unat w div 4096 * 4096) :: u64)" by (rule arg_cong)
  then show ?thesis unfolding of_nat_unat by simp
qed

lemma seg_bounds:
  assumes "seg_ok m elf ilen p"
  shows "page_aligned (seg_start m p)" "page_aligned (seg_end m p)"
    "unat (seg_start m p) = unat (ph_vaddr m p) div 4096 * 4096"
    "unat (seg_end m p) = (unat (ph_vaddr m p) + unat (ph_memsz m p) + 4095) div 4096 * 4096"
    "2 ^ 39 \<le> unat (seg_start m p)" "unat (seg_end m p) \<le> 2 ^ 48"
proof -
  let ?v = "unat (ph_vaddr m p)" and ?k = "unat (ph_memsz m p)"
  have v: "2 ^ 39 \<le> ?v" "?v + ?k \<le> 2 ^ 48" using assms by (simp_all add: seg_ok_def)
  have sm: "unat (of_nat (x div 4096 * 4096) :: u64) = x div 4096 * 4096" if "x < 2 ^ 64" for x :: nat
  proof -
    have "x div 4096 * 4096 \<le> x" by simp
    then have "x div 4096 * 4096 < 2 ^ 64" using that by (rule le_less_trans)
    then show ?thesis by (intro unat_of_nat_u64) simp
  qed
  show s: "unat (seg_start m p) = ?v div 4096 * 4096"
    unfolding seg_start_def and_not_fff by (rule sm) simp
  have u: "unat (ph_vaddr m p + ph_memsz m p + 0xFFF) = ?v + ?k + 4095"
    using v(2) by (simp add: unat_add_u64)
  show e: "unat (seg_end m p) = (?v + ?k + 4095) div 4096 * 4096"
    unfolding seg_end_def and_not_fff u by (rule sm) (use v(2) in simp)
  show "page_aligned (seg_start m p)" "page_aligned (seg_end m p)" unfolding s e by simp_all
  have "2 ^ 27 * 4096 \<le> ?v div 4096 * 4096" using v(1) by (intro mult_le_mono1) (simp add: less_eq_div_iff_mult_less_eq)
  then show "2 ^ 39 \<le> unat (seg_start m p)" unfolding s by simp
  have "?v + ?k + 4095 < (2 ^ 36 + 1) * 4096" using v(2) by simp
  then have "(?v + ?k + 4095) div 4096 < 2 ^ 36 + 1" by (simp add: div_less_iff_less_mult)
  then have "(?v + ?k + 4095) div 4096 * 4096 \<le> 2 ^ 36 * 4096" by (intro mult_le_mono1) simp
  then show "unat (seg_end m p) \<le> 2 ^ 48" unfolding e by simp
qed

lemma load_pages_holds:
  assumes "holds s0 s root W" and "page_aligned va" "page_aligned va_end" "va \<le> va_end"
    and "2 ^ 39 \<le> unat va" "unat va_end \<le> 2 ^ 48"
    and "\<And>v. user_addr v \<Longrightarrow> page_of v \<in> {page_of va ..< page_of va_end} \<Longrightarrow> W v = None"
    and "4 * (page_of va_end - page_of va) \<le> card (free_set (vm_pmm s))"
    and seg: "seg_ok (vm_mem s0) elf ilen p"
    and img: "\<forall>k < ilen. page_of (elf + of_nat k) \<notin> free_set (vm_pmm s0)"
  shows "\<exists>s'. load_pages elf root p va va_end s = Some s'
    \<and> holds s0 s' root (\<lambda>v. if page_of v \<in> {page_of va ..< page_of va_end} then Some (seg_byte (vm_mem s0) elf p v) else W v)
    \<and> card (free_set (vm_pmm s)) \<le> card (free_set (vm_pmm s')) + 4 * (page_of va_end - page_of va)"
  using assms(1-8)
proof (induction "page_of va_end - page_of va" arbitrary: s va W)
  case 0
  have "unat va = 4096 * page_of va" "unat va_end = 4096 * page_of va_end"
    by (rule aligned_page [OF 0(3)], rule aligned_page [OF 0(4)])
  then have "va = va_end" using 0(1) 0(5) by (simp add: word_le_nat_alt unat_eq_iff)
  then show ?case using 0 by (simp add: load_pages.simps)
next
  case (Suc n)
  have lt: "page_of va < page_of va_end" using Suc(2) by simp
  note av = aligned_page [OF Suc.prems(2)] and ae = aligned_page [OF Suc.prems(3)]
  have un: "unat va < unat va_end" using lt by (simp add: av ae)
  have step: "unat (va + 0x1000) = unat va + 4096" using un Suc.prems(6) by (subst unat_add_u64) auto
  then have pg: "page_of (va + 0x1000) = page_of va + 1" by (simp add: page_of_nat)
  have ua: "user_addr va" using Suc.prems(5,6) un by (simp add: user_addr_def)
  let ?s = "load_page elf root p va s"
  let ?W = "\<lambda>v. if page_of v = page_of va then Some (seg_byte (vm_mem s0) elf p v) else W v"
  have "W v = None" if "user_addr v" "page_of v = page_of va" for v using Suc.prems(7) that lt by simp
  moreover have "4 \<le> card (free_set (vm_pmm s))" using Suc.prems(8) lt by simp
  ultimately have lp: "holds s0 ?s root ?W" "card (free_set (vm_pmm s)) \<le> card (free_set (vm_pmm ?s)) + 4"
    using load_page_holds [OF Suc.prems(1) ua Suc.prems(2) _ _ seg img] by blast+
  have "\<exists>s'. load_pages elf root p (va + 0x1000) va_end ?s = Some s'
    \<and> holds s0 s' root (\<lambda>v. if page_of v \<in> {page_of (va + 0x1000) ..< page_of va_end} then Some (seg_byte (vm_mem s0) elf p v) else ?W v)
    \<and> card (free_set (vm_pmm ?s)) \<le> card (free_set (vm_pmm s')) + 4 * (page_of va_end - page_of (va + 0x1000))"
  proof (rule Suc.hyps(1))
    show "n = page_of va_end - page_of (va + 0x1000)" using Suc(2) pg by simp
    show "holds s0 ?s root ?W" by (rule lp(1))
    show "page_aligned (va + 0x1000)" unfolding step using Suc.prems(2) by simp
    show "page_aligned va_end" "unat va_end \<le> 2 ^ 48" by fact+
    show "va + 0x1000 \<le> va_end" unfolding word_le_nat_alt step using av ae lt by simp
    show "2 ^ 39 \<le> unat (va + 0x1000)" unfolding step using Suc.prems(5) by simp
    show "?W v = None" if "user_addr v" "page_of v \<in> {page_of (va + 0x1000) ..< page_of va_end}" for v
      using Suc.prems(7) that pg by simp
    show "4 * (page_of va_end - page_of (va + 0x1000)) \<le> card (free_set (vm_pmm ?s))"
      using lp(2) Suc.prems(8) pg lt by linarith
  qed
  then obtain s' where s': "load_pages elf root p (va + 0x1000) va_end ?s = Some s'"
    "holds s0 s' root (\<lambda>v. if page_of v \<in> {page_of (va + 0x1000) ..< page_of va_end} then Some (seg_byte (vm_mem s0) elf p v) else ?W v)"
    "card (free_set (vm_pmm ?s)) \<le> card (free_set (vm_pmm s')) + 4 * (page_of va_end - page_of (va + 0x1000))"
    by blast
  have W: "(\<lambda>v. if page_of v \<in> {page_of (va + 0x1000) ..< page_of va_end} then Some (seg_byte (vm_mem s0) elf p v) else ?W v)
      = (\<lambda>v. if page_of v \<in> {page_of va ..< page_of va_end} then Some (seg_byte (vm_mem s0) elf p v) else W v)"
    unfolding pg using lt by (auto simp: fun_eq_iff)
  have "load_pages elf root p va va_end s = Some s'"
    using un s'(1) by (simp add: load_pages.simps [of _ _ _ va] word_less_nat_alt)
  moreover have "card (free_set (vm_pmm s)) \<le> card (free_set (vm_pmm s')) + 4 * (page_of va_end - page_of va)"
    using lp(2) s'(3) pg lt by linarith
  ultimately show ?case using s'(2) unfolding W by blast
qed

section \<open>Loading an image\<close>

text \<open>The loadable program headers among the first \<open>n\<close>, and what a list of them puts where.\<close>

definition segs :: "mem \<Rightarrow> u64 \<Rightarrow> nat \<Rightarrow> u64 list" where
  "segs m elf n = filter (\<lambda>p. ph_type m p = PT_LOAD) (List.map (phdr_at (elf + eh_phoff m elf)) [0..<n])"

definition image_segs :: "mem \<Rightarrow> u64 \<Rightarrow> u64 list" where
  "image_segs m elf = segs m elf (unat (eh_phnum m elf))"

definition segs_view :: "mem \<Rightarrow> u64 \<Rightarrow> u64 list \<Rightarrow> u64 \<Rightarrow> u8 option" where
  "segs_view m elf ps v = map_option (\<lambda>p. seg_byte m elf p v) (find (\<lambda>p. page_of v \<in> seg_pages m p) ps)"

definition segs_frames :: "mem \<Rightarrow> u64 list \<Rightarrow> nat" where
  "segs_frames m ps = sum_list (List.map (\<lambda>p. 4 * card (seg_pages m p)) ps)"

text \<open>A well-formed image of \<open>ilen\<close> bytes.\<close>

definition image_ok :: "mem \<Rightarrow> u64 \<Rightarrow> nat \<Rightarrow> bool" where
  "image_ok m elf ilen \<longleftrightarrow> elf_magic m elf \<and> elf_64 m elf \<and> 64 \<le> ilen
     \<and> unat (eh_phoff m elf) + 56 * unat (eh_phnum m elf) \<le> ilen
     \<and> (\<forall>p \<in> set (image_segs m elf). seg_ok m elf ilen p)
     \<and> sorted_wrt (\<lambda>p q. seg_pages m p \<inter> seg_pages m q = {}) (image_segs m elf)"

lemma segs_Suc:
  "segs m elf (Suc n) = segs m elf n @
     (if ph_type m (phdr_at (elf + eh_phoff m elf) n) = PT_LOAD then [phdr_at (elf + eh_phoff m elf) n] else [])"
  by (simp add: segs_def)

lemma segs_prefix: "i \<le> n \<Longrightarrow> \<exists>r. segs m elf n = segs m elf i @ r"
proof -
  assume "i \<le> n"
  then have "[0..<n] = [0..<i] @ [i..<n]" by (metis le_add_diff_inverse upt_add_eq_append zero_le)
  then show ?thesis by (simp add: segs_def)
qed

lemma find_append: "find P (xs @ ys) = (case find P xs of None \<Rightarrow> find P ys | Some x \<Rightarrow> Some x)"
  by (induction xs) auto

lemma segs_view_snoc:
  assumes "\<And>q. q \<in> set ps \<Longrightarrow> seg_pages m q \<inter> seg_pages m p = {}"
  shows "segs_view m elf (ps @ [p]) v
    = (if page_of v \<in> seg_pages m p then Some (seg_byte m elf p v) else segs_view m elf ps v)"
proof (cases "find (\<lambda>p. page_of v \<in> seg_pages m p) ps")
  case None
  then show ?thesis by (simp add: segs_view_def find_append)
next
  case (Some q)
  then have "q \<in> set ps" "page_of v \<in> seg_pages m q" by (auto simp: find_Some_iff)
  with assms [of q] Some show ?thesis by (auto simp: segs_view_def find_append)
qed

lemma same_image_header:
  assumes "same_image elf ilen m m'" and "64 \<le> ilen"
  shows "eh_phnum m' elf = eh_phnum m elf" "eh_phoff m' elf = eh_phoff m elf" "eh_entry m' elf = eh_entry m elf"
proof -
  show "eh_phoff m' elf = eh_phoff m elf" "eh_entry m' elf = eh_entry m elf"
    using same_image_rd64 [OF assms(1), of 32] same_image_rd64 [OF assms(1), of 24] assms(2)
    by (simp_all add: eh_phoff_def eh_entry_def)
  show "eh_phnum m' elf = eh_phnum m elf"
    using same_image_at [OF assms(1), of 56] same_image_at [OF assms(1), of 57] assms(2)
    by (simp add: eh_phnum_def rd16_def add.assoc)
qed

text \<open>A frame that was in use keeps its bytes while a space is built.\<close>

lemma holds_image:
  assumes "holds s0 s root W" and "\<forall>k < ilen. page_of (elf + of_nat k) \<notin> free_set (vm_pmm s0)"
  shows "same_image elf ilen (vm_mem s0) (vm_mem s)"
  using assms builtD(10) [of s0 s root] by (simp add: holds_def same_image_def)

lemma load_segment_holds:
  assumes h: "holds s0 s root (segs_view (vm_mem s0) elf (segs (vm_mem s0) elf i))"
    and ok: "image_ok (vm_mem s0) elf ilen" and i: "i < unat (eh_phnum (vm_mem s0) elf)"
    and img: "\<forall>k < ilen. page_of (elf + of_nat k) \<notin> free_set (vm_pmm s0)"
    and p: "p = phdr_at (elf + eh_phoff (vm_mem s0) elf) i"
    and free: "ph_type (vm_mem s0) p = PT_LOAD \<Longrightarrow> 4 * card (seg_pages (vm_mem s0) p) \<le> card (free_set (vm_pmm s))"
  shows "\<exists>s'. load_segment elf root p s = Some s'
    \<and> holds s0 s' root (segs_view (vm_mem s0) elf (segs (vm_mem s0) elf (Suc i)))
    \<and> card (free_set (vm_pmm s)) \<le> card (free_set (vm_pmm s'))
        + (if ph_type (vm_mem s0) p = PT_LOAD then 4 * card (seg_pages (vm_mem s0) p) else 0)"
proof -
  let ?m = "vm_mem s0"
  have same: "same_image elf ilen ?m (vm_mem s)" by (rule holds_image [OF h img])
  have pj: "p = elf + of_nat (unat (eh_phoff ?m elf) + 56 * i)" by (simp add: p phdr_at_def add.assoc)
  have jb: "unat (eh_phoff ?m elf) + 56 * i + 56 \<le> ilen" using ok i by (simp add: image_ok_def)
  note fld = same_image_fields [OF same pj jb]
  show ?thesis
  proof (cases "ph_type ?m p = PT_LOAD")
    case False
    then show ?thesis using h fld(1) by (intro exI [of _ s]) (simp add: load_segment_def segs_Suc p [symmetric])
  next
    case True
    have sS: "segs ?m elf (Suc i) = segs ?m elf i @ [p]" using True by (simp add: segs_Suc p)
    have "Suc i \<le> unat (eh_phnum ?m elf)" using i by simp
    from segs_prefix [OF this, of ?m elf] obtain r where r: "image_segs ?m elf = segs ?m elf i @ p # r"
      unfolding sS by (auto simp: image_segs_def)
    have seg: "seg_ok ?m elf ilen p" and dis: "\<And>q. q \<in> set (segs ?m elf i) \<Longrightarrow> seg_pages ?m q \<inter> seg_pages ?m p = {}"
      using ok unfolding image_ok_def r by (auto simp: sorted_wrt_append)
    note sb = seg_bounds [OF seg]
    have le: "seg_start ?m p \<le> seg_end ?m p"
      unfolding word_le_nat_alt sb(3,4) by (intro mult_le_mono1 div_le_mono) simp
    have se: "seg_start (vm_mem s) p = seg_start ?m p" "seg_end (vm_mem s) p = seg_end ?m p"
      by (simp_all add: seg_start_def seg_end_def fld)
    have none: "segs_view ?m elf (segs ?m elf i) v = None" if "page_of v \<in> seg_pages ?m p" for v
      using dis that by (auto simp: segs_view_def find_None_iff)
    have c: "card (seg_pages ?m p) = page_of (seg_end ?m p) - page_of (seg_start ?m p)" by (simp add: seg_pages_def)
    have "\<exists>s'. load_pages elf root p (seg_start ?m p) (seg_end ?m p) s = Some s'
      \<and> holds s0 s' root (\<lambda>v. if page_of v \<in> {page_of (seg_start ?m p) ..< page_of (seg_end ?m p)}
          then Some (seg_byte ?m elf p v) else segs_view ?m elf (segs ?m elf i) v)
      \<and> card (free_set (vm_pmm s)) \<le> card (free_set (vm_pmm s')) + 4 * (page_of (seg_end ?m p) - page_of (seg_start ?m p))"
      by (rule load_pages_holds [OF h sb(1,2) le sb(5,6) _ _ seg img])
        (use none free [OF True] in \<open>simp_all add: seg_pages_def\<close>)
    moreover have "segs_view ?m elf (segs ?m elf i @ [p]) = (\<lambda>v. if page_of v \<in> seg_pages ?m p
        then Some (seg_byte ?m elf p v) else segs_view ?m elf (segs ?m elf i) v)"
      by (rule ext) (rule segs_view_snoc [OF dis])
    ultimately show ?thesis
      using True fld(1) by (simp add: load_segment_def se sS seg_pages_def)
  qed
qed

lemma load_segments_holds:
  assumes "holds s0 s root (segs_view (vm_mem s0) elf (segs (vm_mem s0) elf i))"
    and ok: "image_ok (vm_mem s0) elf ilen" and "i \<le> unat (eh_phnum (vm_mem s0) elf)"
    and img: "\<forall>k < ilen. page_of (elf + of_nat k) \<notin> free_set (vm_pmm s0)"
    and "segs_frames (vm_mem s0) (image_segs (vm_mem s0) elf)
      \<le> card (free_set (vm_pmm s)) + segs_frames (vm_mem s0) (segs (vm_mem s0) elf i)"
  shows "\<exists>s'. load_segments elf root (elf + eh_phoff (vm_mem s0) elf) i s = Some s'
    \<and> holds s0 s' root (segs_view (vm_mem s0) elf (image_segs (vm_mem s0) elf))
    \<and> card (free_set (vm_pmm s)) + segs_frames (vm_mem s0) (segs (vm_mem s0) elf i)
        \<le> card (free_set (vm_pmm s')) + segs_frames (vm_mem s0) (image_segs (vm_mem s0) elf)"
  using assms(1,3,5)
proof (induction "unat (eh_phnum (vm_mem s0) elf) - i" arbitrary: i s)
  let ?m = "vm_mem s0"
  case 0
  have "same_image elf ilen ?m (vm_mem s)" by (rule holds_image [OF 0(2) img])
  moreover have "64 \<le> ilen" using ok by (simp add: image_ok_def)
  ultimately have "eh_phnum (vm_mem s) elf = eh_phnum ?m elf" by (rule same_image_header(1))
  moreover have "i = unat (eh_phnum ?m elf)" using 0(1,3) by simp
  ultimately show ?case using 0(2) by (simp add: load_segments.simps image_segs_def)
next
  let ?m = "vm_mem s0"
  case (Suc n)
  have lt: "i < unat (eh_phnum ?m elf)" using Suc(2) by simp
  define p where "p = phdr_at (elf + eh_phoff ?m elf) i"
  have "same_image elf ilen ?m (vm_mem s)" by (rule holds_image [OF Suc.prems(1) img])
  moreover have "64 \<le> ilen" using ok by (simp add: image_ok_def)
  ultimately have num: "eh_phnum (vm_mem s) elf = eh_phnum ?m elf" by (rule same_image_header(1))
  have "Suc i \<le> unat (eh_phnum ?m elf)" using lt by simp
  from segs_prefix [OF this, of ?m elf] obtain r where r: "image_segs ?m elf = segs ?m elf (Suc i) @ r"
    by (auto simp: image_segs_def)
  have sS: "segs_frames ?m (segs ?m elf (Suc i)) = segs_frames ?m (segs ?m elf i)
      + (if ph_type ?m p = PT_LOAD then 4 * card (seg_pages ?m p) else 0)"
    by (simp add: segs_Suc segs_frames_def p_def)
  have fr: "segs_frames ?m (segs ?m elf (Suc i)) \<le> segs_frames ?m (image_segs ?m elf)"
    unfolding r by (simp add: segs_frames_def)
  have "4 * card (seg_pages ?m p) \<le> card (free_set (vm_pmm s))" if "ph_type ?m p = PT_LOAD"
    using Suc.prems(3) fr sS that by simp
  from load_segment_holds [OF Suc.prems(1) ok lt img p_def this] obtain s1 where
    s1: "load_segment elf root p s = Some s1" "holds s0 s1 root (segs_view ?m elf (segs ?m elf (Suc i)))"
      "card (free_set (vm_pmm s)) \<le> card (free_set (vm_pmm s1))
        + (if ph_type ?m p = PT_LOAD then 4 * card (seg_pages ?m p) else 0)" by blast
  have "\<exists>s'. load_segments elf root (elf + eh_phoff ?m elf) (Suc i) s1 = Some s'
    \<and> holds s0 s' root (segs_view ?m elf (image_segs ?m elf))
    \<and> card (free_set (vm_pmm s1)) + segs_frames ?m (segs ?m elf (Suc i))
        \<le> card (free_set (vm_pmm s')) + segs_frames ?m (image_segs ?m elf)"
    by (rule Suc.hyps(1)) (use Suc(2) s1(2,3) lt Suc.prems(3) sS in auto)
  moreover have "load_segments elf root (elf + eh_phoff ?m elf) i s
      = load_segments elf root (elf + eh_phoff ?m elf) (Suc i) s1"
    using lt num s1(1) by (simp add: load_segments.simps [of _ _ _ i] p_def)
  ultimately show ?case using s1(3) sS by auto
qed

lemma elf_load_holds:
  assumes k: "tree_ok s (kernel_pml4 s)" and pool: "pool_inv (vm_pmm s)" and ok: "image_ok (vm_mem s) elf ilen"
    and img: "\<forall>k < ilen. page_of (elf + of_nat k) \<notin> free_set (vm_pmm s)"
    and free: "1 + segs_frames (vm_mem s) (image_segs (vm_mem s) elf) \<le> card (free_set (vm_pmm s))"
  shows "\<exists>root s'. elf_load elf entry s = Some (root, eh_entry (vm_mem s) elf, s')
    \<and> holds s s' root (segs_view (vm_mem s) elf (image_segs (vm_mem s) elf))
    \<and> card (free_set (vm_pmm s)) \<le> card (free_set (vm_pmm s')) + 1 + segs_frames (vm_mem s) (image_segs (vm_mem s) elf)"
proof -
  have ne: "free_set (vm_pmm s) \<noteq> {}" using free by auto
  obtain root s1 where cr: "vmm_create_address_space s = (root, s1)" by fastforce
  note c = tree_ok_create [OF k pool ne cr]
  have "user_view s1 root v = None" if "user_addr v" for v
  proof -
    have "leaf (vm_mem s1) root (page_path v) (pt_index v) = None"
      using c(2) user_leaf_leaf [OF that] by (metis option.exhaust)
    then show ?thesis by (simp add: view_leaf [OF c(1) that])
  qed
  then have h1: "holds s s1 root (segs_view (vm_mem s) elf (segs (vm_mem s) elf 0))"
    using c(1) by (simp add: holds_def segs_view_def segs_def)
  have hd: "eh_phoff (vm_mem s1) elf = eh_phoff (vm_mem s) elf"
    by (rule same_image_header(2) [OF holds_image [OF h1 img]]) (use ok in \<open>simp add: image_ok_def\<close>)
  have "\<exists>s2. load_segments elf root (elf + eh_phoff (vm_mem s) elf) 0 s1 = Some s2
    \<and> holds s s2 root (segs_view (vm_mem s) elf (image_segs (vm_mem s) elf))
    \<and> card (free_set (vm_pmm s1)) + segs_frames (vm_mem s) (segs (vm_mem s) elf 0)
        \<le> card (free_set (vm_pmm s2)) + segs_frames (vm_mem s) (image_segs (vm_mem s) elf)"
    by (rule load_segments_holds [OF h1 ok _ img]) (use free c(3) in simp_all)
  then obtain s2 where s2: "load_segments elf root (elf + eh_phoff (vm_mem s) elf) 0 s1 = Some s2"
    "holds s s2 root (segs_view (vm_mem s) elf (image_segs (vm_mem s) elf))"
    "card (free_set (vm_pmm s1)) \<le> card (free_set (vm_pmm s2)) + segs_frames (vm_mem s) (image_segs (vm_mem s) elf)"
    by (auto simp: segs_def segs_frames_def)
  have "eh_entry (vm_mem s2) elf = eh_entry (vm_mem s) elf"
    by (rule same_image_header(3) [OF holds_image [OF s2(2) img]]) (use ok in \<open>simp add: image_ok_def\<close>)
  then show ?thesis using ok s2 cr hd c(3) by (simp add: elf_load_def image_ok_def)
qed

text \<open>
  C4. Loading a well-formed image always returns a space and the entry point, and a process running in that space
  sees, at every user address, the byte of the file that its segment puts there, zero in the rest of
  the segment's pages, and nothing outside them. No byte of a frame in use changes, and tearing the
  space down gives back every frame the loader took.
\<close>

theorem elf_load_builds_image:
  assumes "tree_ok s (kernel_pml4 s)" and "pool_inv (vm_pmm s)" and "image_ok (vm_mem s) elf ilen"
    and "\<forall>k < ilen. page_of (elf + of_nat k) \<notin> free_set (vm_pmm s)"
    and "1 + segs_frames (vm_mem s) (image_segs (vm_mem s) elf) \<le> card (free_set (vm_pmm s))"
  shows "\<exists>root s'. elf_load elf entry s = Some (root, eh_entry (vm_mem s) elf, s') \<and> root \<noteq> 0
    \<and> (\<forall>v. user_addr v \<longrightarrow> user_view s' root v = segs_view (vm_mem s) elf (image_segs (vm_mem s) elf) v)
    \<and> (\<forall>x. page_of x \<notin> free_set (vm_pmm s) \<longrightarrow> vm_mem s' x = vm_mem s x)
    \<and> free_set (vm_pmm (vmm_destroy_address_space root s')) = free_set (vm_pmm s)"
proof -
  from elf_load_holds [OF assms] obtain root s' where s': "elf_load elf entry s = Some (root, eh_entry (vm_mem s) elf, s')"
    "holds s s' root (segs_view (vm_mem s) elf (image_segs (vm_mem s) elf))" by blast
  then have b: "built s s' root" by (simp add: holds_def)
  show ?thesis
    using s' builtD(6,10) [OF b] destroy_built(2) [OF assms(1,2) b] unfolding holds_def by blast
qed

text \<open>
  An image in frame 0, which is never handed out: one segment of eight bytes at the first user
  address, four of them in the file. Behind it lie an array of one pointer and the string it points to.
\<close>

definition demo_image :: "nat \<Rightarrow> u8" where
  "demo_image k = (if k = 0 then 0x7F else if k = 1 then 69 else if k = 2 then 76 else if k = 3 then 70
     else if k = 4 then 2 else if k = 28 then 0x80 else if k = 32 then 64 else if k = 56 then 1
     else if k = 64 then 1 else if k = 72 then 120 else if k = 84 then 0x80 else if k = 96 then 4
     else if k = 104 then 8 else if k = 120 \<or> k = 123 then 0x90 else if k = 121 then 0x91
     else if k = 0x701 then 9 else if k = 0x800 then 111 else if k = 0x801 then 110 else if k = 0x802 then 101 else 0)"

definition demo_elf :: u64 where "demo_elf = 0x100"

definition elf_mem :: mem where
  "elf_mem a = demo_image (unat (a - demo_elf))"

definition elf_machine :: vmm where
  "elf_machine = vmm_init (boot_vmm\<lparr>vm_mem := elf_mem\<rparr>)"

lemma elf_mem_fields:
  "elf_magic elf_mem demo_elf" "elf_64 elf_mem demo_elf" "eh_phnum elf_mem demo_elf = 1" "eh_phoff elf_mem demo_elf = 64"
  "eh_entry elf_mem demo_elf = 0x8000000000"
  "ph_type elf_mem 320 = PT_LOAD" "ph_offset elf_mem 320 = 120" "ph_vaddr elf_mem 320 = 0x8000000000"
  "ph_filesz elf_mem 320 = 4" "ph_memsz elf_mem 320 = 8"
  by (simp_all add: elf_magic_def elf_64_def eh_phnum_def eh_phoff_def eh_entry_def ph_type_def ph_offset_def
      ph_vaddr_def ph_filesz_def ph_memsz_def PT_LOAD_def rd16_def rd32_def rd64_def ld64_def ld32_def
      elf_mem_def demo_image_def demo_elf_def)

lemma elf_machine_ok:
  "tree_ok elf_machine (kernel_pml4 elf_machine)" "pool_inv (vm_pmm elf_machine)"
  "card (free_set (vm_pmm elf_machine)) = 4092" "\<forall>k < 124. page_of (demo_elf + of_nat k) \<notin> free_set (vm_pmm elf_machine)"
  "same_image demo_elf 124 elf_mem (vm_mem elf_machine)" "page_of x = 0 \<Longrightarrow> vm_mem elf_machine x = elf_mem x"
proof -
  let ?b = "boot_vmm\<lparr>vm_mem := elf_mem\<rparr>"
  have fs: "free_set (vm_pmm ?b) = {1..<4096}" and b: "pool_inv (vm_pmm ?b)" "3 \<le> card (free_set (vm_pmm ?b))"
    using boot_vmm_free boot_vmm_pool by simp_all
  show "tree_ok elf_machine (kernel_pml4 elf_machine)"
    unfolding elf_machine_def by (rule kernel_tree(1) [OF b])
  have p0: "page_of (demo_elf + of_nat k) = 0" if "k < 124" for k
    using unat_in_page(2) [of 0 "256 + k"] that by (simp add: demo_elf_def page_of_def)
  obtain f1 f2 f3 where f: "distinct [f1, f2, f3]" "{f1, f2, f3} \<subseteq> free_set (vm_pmm ?b)"
    "vm_pmm elf_machine = take_frame f3 (take_frame f2 (take_frame f1 (vm_pmm ?b)))"
    "pool_inv (vm_pmm elf_machine)" "\<And>x. page_of x \<notin> {f1, f2, f3} \<Longrightarrow> vm_mem elf_machine x = vm_mem ?b x"
    by (rule vmm_init_shape [OF b, folded elf_machine_def], rule that)
  show "pool_inv (vm_pmm elf_machine)" by (rule f(4))
  have fs3: "free_set (vm_pmm elf_machine) = {1..<4096} - {f1} - {f2} - {f3}"
    unfolding f(3) using f(1,2) fs by (simp add: free_set_take)
  then show "card (free_set (vm_pmm elf_machine)) = 4092"
    using f(1,2) fs by (simp add: card_Diff_singleton_if)
  have "0 \<notin> free_set (vm_pmm elf_machine)" unfolding fs3 by simp
  then show "\<forall>k < 124. page_of (demo_elf + of_nat k) \<notin> free_set (vm_pmm elf_machine)" using p0 by simp
  have "0 \<notin> {f1, f2, f3}" using f(2) fs by auto
  then show z: "vm_mem elf_machine x = elf_mem x" if "page_of x = 0" for x using f(5) that by simp
  show "same_image demo_elf 124 elf_mem (vm_mem elf_machine)"
    using z p0 by (simp add: same_image_def)
qed

lemma elf_machine_image:
  "image_ok (vm_mem elf_machine) demo_elf 124" "image_segs (vm_mem elf_machine) demo_elf = [320]"
  "segs_frames (vm_mem elf_machine) [320] = 4" "eh_entry (vm_mem elf_machine) demo_elf = 0x8000000000"
proof -
  let ?m = "vm_mem elf_machine"
  note same = elf_machine_ok(5)
  have "64 \<le> (124 :: nat)" by simp
  note hd = same_image_header [OF same this, unfolded elf_mem_fields]
  have "320 = demo_elf + of_nat 64" "64 + 56 \<le> (124 :: nat)" by (simp_all add: demo_elf_def)
  note fld = same_image_fields [OF same this, unfolded elf_mem_fields]
  have magic: "elf_magic ?m demo_elf" "elf_64 ?m demo_elf"
    using elf_mem_fields(1,2) same_image_at [OF same, of 0] same_image_at [OF same, of 1] same_image_at [OF same, of 2]
      same_image_at [OF same, of 3] same_image_at [OF same, of 4] by (simp_all add: elf_magic_def elf_64_def)
  show segs: "image_segs ?m demo_elf = [320]"
    by (simp add: image_segs_def segs_def hd phdr_at_def fld(1) demo_elf_def [symmetric]) (simp add: demo_elf_def fld(1))
  have ok: "seg_ok ?m demo_elf 124 320"
    unfolding seg_ok_def fld by (auto simp: demo_elf_def intro!: exI [of _ 64])
  show "image_ok ?m demo_elf 124" unfolding image_ok_def segs using magic ok by (simp add: hd)
  have "seg_start ?m 320 = 0x8000000000" "seg_end ?m 320 = 0x8000001000" by (simp_all add: seg_start_def seg_end_def fld)
  then show "segs_frames ?m [320] = 4" by (simp add: segs_frames_def seg_pages_def page_of_def)
  show "eh_entry ?m demo_elf = 0x8000000000" by (rule hd(3))
qed

lemma elf_load_builds_image_witness:
  "\<exists>root s'. elf_load demo_elf 0 elf_machine = Some (root, 0x8000000000, s')
     \<and> user_view s' root 0x8000000001 = Some 0x91 \<and> user_view s' root 0x8000000005 = Some 0
     \<and> user_view s' root 0x8000001000 = None"
proof -
  let ?m = "vm_mem elf_machine"
  have "1 + segs_frames ?m (image_segs ?m demo_elf) \<le> card (free_set (vm_pmm elf_machine))"
    by (simp add: elf_machine_image(2,3) elf_machine_ok(3))
  from elf_load_builds_image [OF elf_machine_ok(1,2) elf_machine_image(1) elf_machine_ok(4) this, of 0]
  obtain root s' where s': "elf_load demo_elf 0 elf_machine = Some (root, 0x8000000000, s')"
    "\<And>v. user_addr v \<Longrightarrow> user_view s' root v = segs_view ?m demo_elf [320] v"
    unfolding elf_machine_image(2,4) by blast
  have "320 = demo_elf + of_nat 64" "64 + 56 \<le> (124 :: nat)" by (simp_all add: demo_elf_def)
  note fld = same_image_fields [OF elf_machine_ok(5) this, unfolded elf_mem_fields]
  have "seg_start ?m 320 = 0x8000000000" "seg_end ?m 320 = 0x8000001000" by (simp_all add: seg_start_def seg_end_def fld)
  then have pg: "seg_pages ?m 320 = {0x8000000 ..< 0x8000001}" by (simp add: seg_pages_def page_of_def)
  have "?m (demo_elf + (120 + 1)) = 0x91"
    using same_image_at [OF elf_machine_ok(5), of 121] by (simp add: elf_mem_def demo_image_def)
  then have "segs_view ?m demo_elf [320] 0x8000000001 = Some 0x91"
    "segs_view ?m demo_elf [320] 0x8000000005 = Some 0" "segs_view ?m demo_elf [320] 0x8000001000 = None"
    by (simp_all add: segs_view_def pg seg_byte_def fld page_of_def)
  then show ?thesis using s' by (auto simp: user_addr_def)
qed

end
