(* ===== verification/Sched.thy ===== *)
theory Sched
  imports Heap Vmm_Props Vfs
begin

text \<open>
  The tasks and the scheduler (kernel/sched.cpp; \<^verbatim>\<open>exec_current\<close> is in theory \<^verbatim>\<open>Exec\<close>). Task structs are
  a store indexed by address, linked into a ring by \<^verbatim>\<open>next\<close>; the words of the kernel stacks are a
  second store, so that frames which are fabricated or copied are visible. Both live in memory
  that \<^verbatim>\<open>kmalloc\<close> (theory \<^verbatim>\<open>Heap\<close>) hands out; address spaces are those of the page-table theories.
  Pointers are 64-bit words, 0 is the null pointer, and a loop over the ring is a partial function
  whose result \<open>None\<close> means that it does not end. \<^verbatim>\<open>task_yield\<close> raises a software interrupt that
  calls \<^verbatim>\<open>schedule\<close> with the address of the saved frame; that address is an argument here.
\<close>

section \<open>State\<close>

datatype task_state = RUNNABLE | SLEEPING | WAITING | DEAD

record task =
  t_rsp :: u64
  t_next :: u64
  t_parent :: u64
  t_fds :: fd_table
  t_state :: task_state
  t_wake :: u64
  t_kstop :: u64
  t_kbase :: u64
  t_pml4 :: u64

text \<open>The saved register frame, in memory order.\<close>

record registers =
  reg_r15 :: u64
  reg_r14 :: u64
  reg_r13 :: u64
  reg_r12 :: u64
  reg_r11 :: u64
  reg_r10 :: u64
  reg_r9 :: u64
  reg_r8 :: u64
  reg_rbp :: u64
  reg_rdi :: u64
  reg_rsi :: u64
  reg_rdx :: u64
  reg_rcx :: u64
  reg_rbx :: u64
  reg_rax :: u64
  reg_int_no :: u64
  reg_err_code :: u64
  reg_rip :: u64
  reg_cs :: u64
  reg_rflags :: u64
  reg_rsp :: u64
  reg_ss :: u64

definition reg_words :: "registers \<Rightarrow> u64 list" where
  "reg_words r = [reg_r15 r, reg_r14 r, reg_r13 r, reg_r12 r, reg_r11 r, reg_r10 r, reg_r9 r, reg_r8 r,
     reg_rbp r, reg_rdi r, reg_rsi r, reg_rdx r, reg_rcx r, reg_rbx r, reg_rax r, reg_int_no r,
     reg_err_code r, reg_rip r, reg_cs r, reg_rflags r, reg_rsp r, reg_ss r]"

definition zero_regs :: registers where
  "zero_regs = \<lparr>reg_r15 = 0, reg_r14 = 0, reg_r13 = 0, reg_r12 = 0, reg_r11 = 0, reg_r10 = 0, reg_r9 = 0, reg_r8 = 0,
     reg_rbp = 0, reg_rdi = 0, reg_rsi = 0, reg_rdx = 0, reg_rcx = 0, reg_rbx = 0, reg_rax = 0, reg_int_no = 0,
     reg_err_code = 0, reg_rip = 0, reg_cs = 0, reg_rflags = 0, reg_rsp = 0, reg_ss = 0\<rparr>"

record sched =
  s_tasks :: "u64 \<Rightarrow> task"
  s_current :: u64
  s_ticks :: u64
  s_next_pid :: u64
  s_words :: "u64 \<Rightarrow> u64"
  s_heap :: heap
  s_vm :: vmm
  s_rsp0 :: u64

abbreviation upd_task :: "u64 \<Rightarrow> (task \<Rightarrow> task) \<Rightarrow> sched \<Rightarrow> sched" where
  "upd_task t f s \<equiv> s\<lparr>s_tasks := (s_tasks s)(t := f (s_tasks s t))\<rparr>"

abbreviation cur :: "sched \<Rightarrow> task" where
  "cur s \<equiv> s_tasks s (s_current s)"

definition MAX_FDS :: nat where "MAX_FDS = 16"
definition STACK_SIZE :: u64 where "STACK_SIZE = 16384"

text \<open>\<^verbatim>\<open>sizeof(task)\<close>: 24 bytes, 16 descriptors of 16 bytes, and five more words.\<close>

definition SIZEOF_TASK :: u64 where "SIZEOF_TASK = 320"
definition SIZEOF_REGISTERS :: u64 where "SIZEOF_REGISTERS = 176"

section \<open>Creating tasks\<close>

definition clear_fds :: "fd_table \<Rightarrow> fd_table" where
  "clear_fds t = (\<lambda>i. if i < MAX_FDS then (t i)\<lparr>fd_used := False\<rparr> else t i)"

definition copy_fds :: "fd_table \<Rightarrow> fd_table \<Rightarrow> fd_table" where
  "copy_fds src dst = (\<lambda>i. if i < MAX_FDS then src i else dst i)"

definition sched_init :: "sched \<Rightarrow> sched option" where
  "sched_init s = Option.bind (kmalloc SIZEOF_TASK (s_heap s)) (\<lambda>(boot, h).
     Some (upd_task boot (\<lambda>t. t\<lparr>t_next := boot, t_state := RUNNABLE, t_wake := 0, t_kstop := 0,
         t_kbase := 0, t_pml4 := vmm_kernel_space (s_vm s), t_parent := 0,
         t_fds := clear_fds (t_fds t)\<rparr>) (s\<lparr>s_heap := h, s_current := boot\<rparr>)))"

text \<open>\<^verbatim>\<open>*--sp = w\<close> for each word in turn.\<close>

fun push_words :: "u64 list \<Rightarrow> u64 \<Rightarrow> (u64 \<Rightarrow> u64) \<Rightarrow> u64 \<times> (u64 \<Rightarrow> u64)" where
  "push_words [] sp m = (sp, m)"
| "push_words (w # ws) sp m = push_words ws (sp - 8) (m(sp - 8 := w))"

definition kstack_top :: "u64 \<Rightarrow> u64" where
  "kstack_top base = (base + STACK_SIZE) AND NOT 15"

text \<open>\<^verbatim>\<open>t->next = current->next; current->next = t\<close>\<close>

definition link_task :: "u64 \<Rightarrow> sched \<Rightarrow> sched" where
  "link_task t s = (let s1 = upd_task t (\<lambda>k. k\<lparr>t_next := t_next (cur s)\<rparr>) s
     in upd_task (s_current s) (\<lambda>k. k\<lparr>t_next := t\<rparr>) s1)"

definition task_create :: "u64 \<Rightarrow> sched \<Rightarrow> (u64 \<times> sched) option" where
  "task_create entry s =
     Option.bind (kmalloc SIZEOF_TASK (s_heap s)) (\<lambda>(t, h1).
     Option.bind (kmalloc STACK_SIZE h1) (\<lambda>(stack, h2).
       let top = kstack_top stack;
           (sp, m) = push_words ([0x10, top - 8, 0x202, 0x08, entry, 0, 0] @ replicate 15 0) top (s_words s)
       in Some (t, link_task t (upd_task t (\<lambda>k. k\<lparr>t_rsp := sp, t_state := RUNNABLE, t_wake := 0,
              t_kstop := top, t_kbase := stack, t_pml4 := vmm_kernel_space (s_vm s), t_parent := 0\<rparr>)
            (s\<lparr>s_heap := h2, s_words := m\<rparr>)))))"

definition task_create_user :: "u64 \<Rightarrow> u64 \<Rightarrow> u64 \<Rightarrow> sched \<Rightarrow> (u64 \<times> sched) option" where
  "task_create_user pml4 entry user_stack_top s =
     Option.bind (kmalloc SIZEOF_TASK (s_heap s)) (\<lambda>(t, h1).
     Option.bind (kmalloc STACK_SIZE h1) (\<lambda>(kstack, h2).
       let top = kstack_top kstack;
           (sp, m) = push_words ([0x23, user_stack_top, 0x202, 0x1B, entry, 0, 0] @ replicate 15 0)
             top (s_words s)
       in Some (t, link_task t (upd_task t (\<lambda>k. k\<lparr>t_rsp := sp, t_state := RUNNABLE, t_wake := 0,
              t_kstop := top, t_kbase := kstack, t_pml4 := pml4, t_parent := 0,
              t_fds := clear_fds (t_fds k)\<rparr>)
            (s\<lparr>s_heap := h2, s_words := m\<rparr>)))))"

text \<open>The words of a frame stored from address \<open>a\<close> up.\<close>

fun store_words :: "u64 \<Rightarrow> u64 list \<Rightarrow> (u64 \<Rightarrow> u64) \<Rightarrow> (u64 \<Rightarrow> u64)" where
  "store_words a [] m = m"
| "store_words a (w # ws) m = store_words (a + 8) ws (m(a := w))"

text \<open>The result is a 32-bit \<^verbatim>\<open>int\<close>; the frame of the caller is passed by value.\<close>

definition fork_current :: "registers \<Rightarrow> sched \<Rightarrow> (u32 \<times> sched) option" where
  "fork_current parent s =
     (let (child_space, vm) = vmm_clone_address_space (t_pml4 (cur s)) (s_vm s)
      in if child_space = 0 then Some (- 1, s\<lparr>s_vm := vm\<rparr>)
         else Option.bind (kmalloc SIZEOF_TASK (s_heap s)) (\<lambda>(t, h1).
              Option.bind (kmalloc STACK_SIZE h1) (\<lambda>(kstack, h2).
                let top = kstack_top kstack;
                    frame = top - SIZEOF_REGISTERS;
                    m = store_words frame (reg_words (parent\<lparr>reg_rax := 0\<rparr>)) (s_words s);
                    s1 = upd_task t (\<lambda>k. k\<lparr>t_rsp := frame, t_state := RUNNABLE, t_wake := 0,
                        t_kstop := top, t_kbase := kstack, t_pml4 := child_space,
                        t_parent := s_current s, t_fds := copy_fds (t_fds (cur s)) (t_fds k)\<rparr>)
                      (s\<lparr>s_vm := vm, s_heap := h2, s_words := m\<rparr>)
                in Some (ucast (s_next_pid s), link_task t (s1\<lparr>s_next_pid := s_next_pid s + 1\<rparr>)))))"

section \<open>Scheduling\<close>

definition sched_tick :: "sched \<Rightarrow> sched" where
  "sched_tick s = s\<lparr>s_ticks := s_ticks s + 1\<rparr>"

text \<open>Unlinking and reclaiming one dead task, then waking its parent.\<close>

definition wake_parent :: "u64 \<Rightarrow> sched \<Rightarrow> sched" where
  "wake_parent dead s = (let p = t_parent (s_tasks s dead)
     in if p \<noteq> 0 \<and> t_state (s_tasks s p) = WAITING
        then upd_task p (\<lambda>k. k\<lparr>t_state := RUNNABLE\<rparr>) s else s)"

definition reap_one :: "u64 \<Rightarrow> u64 \<Rightarrow> sched \<Rightarrow> sched option" where
  "reap_one prev dead s =
     (let s1 = wake_parent dead (upd_task prev (\<lambda>k. k\<lparr>t_next := t_next (s_tasks s dead)\<rparr>) s);
          s2 = s1\<lparr>s_vm := vmm_destroy_address_space (t_pml4 (s_tasks s1 dead)) (s_vm s1)\<rparr>
      in Option.bind (kfree (t_kbase (s_tasks s2 dead)) (s_heap s2)) (\<lambda>h1.
         Option.bind (kfree dead h1) (\<lambda>h2. Some (s2\<lparr>s_heap := h2\<rparr>))))"

partial_function (option) reap_loop :: "u64 \<Rightarrow> u64 \<Rightarrow> sched \<Rightarrow> sched option" where
  "reap_loop prev t s =
     (if t = s_current s then Some s
      else if t_state (s_tasks s t) = DEAD
      then Option.bind (reap_one prev t s) (\<lambda>s'. reap_loop prev (t_next (s_tasks s t)) s')
      else reap_loop t (t_next (s_tasks s t)) s)"

definition reap_dead :: "sched \<Rightarrow> sched option" where
  "reap_dead s = reap_loop (s_current s) (t_next (cur s)) s"

definition wake_sleeper :: "u64 \<Rightarrow> sched \<Rightarrow> sched" where
  "wake_sleeper p s =
     (if t_state (s_tasks s p) = SLEEPING \<and> t_wake (s_tasks s p) \<le> s_ticks s
      then upd_task p (\<lambda>k. k\<lparr>t_state := RUNNABLE\<rparr>) s else s)"

partial_function (option) wake_loop :: "u64 \<Rightarrow> sched \<Rightarrow> sched option" where
  "wake_loop p s =
     (let s' = wake_sleeper p s; p' = t_next (s_tasks s' p)
      in if p' \<noteq> s_current s' then wake_loop p' s' else Some s')"

partial_function (option) next_runnable :: "u64 \<Rightarrow> sched \<Rightarrow> u64 option" where
  "next_runnable n s =
     (if t_state (s_tasks s n) \<noteq> RUNNABLE then next_runnable (t_next (s_tasks s n)) s else Some n)"

definition switch_to :: "u64 \<Rightarrow> sched \<Rightarrow> u64 \<times> sched" where
  "switch_to n s =
     (t_rsp (s_tasks s n),
      s\<lparr>s_current := n, s_rsp0 := t_kstop (s_tasks s n), s_vm := vmm_switch (t_pml4 (s_tasks s n)) (s_vm s)\<rparr>)"

definition schedule :: "u64 \<Rightarrow> sched \<Rightarrow> (u64 \<times> sched) option" where
  "schedule rsp s =
     (if s_current s = 0 then Some (rsp, s)
      else Option.bind (reap_dead (upd_task (s_current s) (\<lambda>k. k\<lparr>t_rsp := rsp\<rparr>) s)) (\<lambda>s1.
           Option.bind (wake_loop (s_current s1) s1) (\<lambda>s2.
           Option.bind (next_runnable (t_next (cur s2)) s2) (\<lambda>n. Some (switch_to n s2)))))"

partial_function (option) live_child :: "u64 \<Rightarrow> sched \<Rightarrow> bool option" where
  "live_child t s =
     (if t = s_current s then Some False
      else if t_parent (s_tasks s t) = s_current s \<and> t_state (s_tasks s t) \<noteq> DEAD then Some True
      else live_child (t_next (s_tasks s t)) s)"

text \<open>\<^verbatim>\<open>rax\<close> is the fifteenth word of a frame.\<close>

definition wait_current :: "u64 \<Rightarrow> sched \<Rightarrow> (u64 \<times> sched) option" where
  "wait_current rsp s =
     (let s1 = upd_task (s_current s) (\<lambda>k. k\<lparr>t_rsp := rsp\<rparr>) s
      in Option.bind (live_child (t_next (cur s1)) s1) (\<lambda>live.
           let s2 = s1\<lparr>s_words := (s_words s1)(rsp + 14 * 8 := 0)\<rparr>
           in if \<not> live then Some (rsp, s2)
              else schedule rsp (upd_task (s_current s2) (\<lambda>k. k\<lparr>t_state := WAITING\<rparr>) s2)))"

definition task_sleep :: "u64 \<Rightarrow> u64 \<Rightarrow> sched \<Rightarrow> (u64 \<times> sched) option" where
  "task_sleep ticks rsp s =
     schedule rsp (upd_task (s_current s) (\<lambda>k. k\<lparr>t_wake := s_ticks s + ticks, t_state := SLEEPING\<rparr>) s)"

definition sched_kill_current :: "sched \<Rightarrow> sched" where
  "sched_kill_current s =
     (if s_current s \<noteq> 0 then upd_task (s_current s) (\<lambda>k. k\<lparr>t_state := DEAD\<rparr>) s else s)"

definition task_exit :: "u64 \<Rightarrow> sched \<Rightarrow> (u64 \<times> sched) option" where
  "task_exit rsp s = schedule rsp (upd_task (s_current s) (\<lambda>k. k\<lparr>t_state := DEAD\<rparr>) s)"

section \<open>The ring\<close>

text \<open>The tasks of the list are linked one after the other, the last one to \<open>z\<close>.\<close>

primrec lseg :: "(u64 \<Rightarrow> u64) \<Rightarrow> u64 list \<Rightarrow> u64 \<Rightarrow> bool" where
  "lseg nx [] z \<longleftrightarrow> True"
| "lseg nx (a # r) z \<longleftrightarrow> nx a = hd (r @ [z]) \<and> lseg nx r z"

abbreviation nexts :: "sched \<Rightarrow> u64 \<Rightarrow> u64" where
  "nexts s \<equiv> \<lambda>t. t_next (s_tasks s t)"

definition ring :: "sched \<Rightarrow> u64 list \<Rightarrow> bool" where
  "ring s ts \<longleftrightarrow> ts \<noteq> [] \<and> hd ts = s_current s \<and> distinct ts \<and> 0 \<notin> set ts
     \<and> lseg (nexts s) ts (s_current s)"

lemma lseg_append: "lseg nx (xs @ ys) z \<longleftrightarrow> lseg nx xs (hd (ys @ [z])) \<and> lseg nx ys z"
  by (induction xs) (auto simp: hd_append)

lemma lseg_cong: "(\<And>t. t \<in> set xs \<Longrightarrow> nx t = nx' t) \<Longrightarrow> lseg nx xs z = lseg nx' xs z"
  by (induction xs) auto

lemma lseg_upd: "t \<notin> set xs \<Longrightarrow> lseg (nx(t := v)) xs z = lseg nx xs z"
  by (rule lseg_cong) auto

lemma lseg_rotate: "lseg nx (xs @ n # ys) (hd (xs @ [n])) \<Longrightarrow> lseg nx (n # ys @ xs) n"
  by (cases xs) (simp_all add: lseg_append hd_append)

section \<open>The loops of schedule\<close>

definition awake :: "u64 \<Rightarrow> task \<Rightarrow> task" where
  "awake now k = (if t_state k = SLEEPING \<and> t_wake k \<le> now then k\<lparr>t_state := RUNNABLE\<rparr> else k)"

lemma awake_simps [simp]:
  "t_next (awake now k) = t_next k" "t_rsp (awake now k) = t_rsp k" "t_parent (awake now k) = t_parent k"
  "t_kbase (awake now k) = t_kbase k" "t_kstop (awake now k) = t_kstop k" "t_pml4 (awake now k) = t_pml4 k"
  "t_fds (awake now k) = t_fds k" "t_wake (awake now k) = t_wake k" "awake now (awake now k) = awake now k"
  by (simp_all add: awake_def)

lemma wake_sleeper_awake: "wake_sleeper p s = upd_task p (awake (s_ticks s)) s"
proof -
  have "s\<lparr>s_tasks := (s_tasks s)(p := s_tasks s p)\<rparr> = s" by simp
  then show ?thesis by (simp add: wake_sleeper_def awake_def)
qed

lemma wake_loop_ring:
  "lseg (nexts s) (a # r) z \<Longrightarrow> z = s_current s \<Longrightarrow> z \<notin> set r \<Longrightarrow>
     wake_loop a s = Some (s\<lparr>s_tasks := (\<lambda>t. if t \<in> set (a # r) then awake (s_ticks s) (s_tasks s t) else s_tasks s t)\<rparr>)"
proof (induction r arbitrary: a s)
  case Nil
  then show ?case
    by (subst wake_loop.simps) (auto simp: wake_sleeper_awake Let_def fun_eq_iff intro!: sched.equality)
next
  case (Cons b r)
  let ?s = "upd_task a (awake (s_ticks s)) s"
  have nx: "nexts ?s = nexts s" by (auto simp: fun_eq_iff)
  have "wake_loop a s = wake_loop b ?s"
    using Cons.prems by (subst wake_loop.simps) (auto simp: wake_sleeper_awake Let_def)
  also have "\<dots> = Some (?s\<lparr>s_tasks := (\<lambda>t. if t \<in> set (b # r) then awake (s_ticks ?s) (s_tasks ?s t) else s_tasks ?s t)\<rparr>)"
    using Cons.prems by (intro Cons.IH) (simp_all only: nx, simp_all)
  finally show ?case by (simp add: fun_eq_iff)
qed

lemma next_runnable_ring:
  "lseg (nexts s) xs z \<Longrightarrow> filter (\<lambda>t. t_state (s_tasks s t) = RUNNABLE) xs \<noteq> [] \<Longrightarrow>
     next_runnable (hd xs) s = Some (hd (filter (\<lambda>t. t_state (s_tasks s t) = RUNNABLE) xs))"
proof (induction xs)
  case (Cons a r)
  then show ?case
    by (cases r) (auto simp: next_runnable.simps [of a] hd_append)
qed simp

lemma next_runnable_stays:
  assumes "next_runnable n s = Some y" and "n \<in> R" and "\<And>t. t \<in> R \<Longrightarrow> t_next (s_tasks s t) \<in> R"
  shows "y \<in> R \<and> t_state (s_tasks s y) = RUNNABLE"
proof -
  have "n \<in> R \<longrightarrow> (\<forall>t \<in> R. t_next (s_tasks s t) \<in> R) \<longrightarrow> y \<in> R \<and> t_state (s_tasks s y) = RUNNABLE"
    using assms(1)
  proof (induction rule: next_runnable.raw_induct [rotated, consumes 1, case_names step])
    case (step f n s y)
    then show ?case by (auto split: if_splits)
  qed
  with assms(2,3) show ?thesis by blast
qed

lemma lseg_closed: "lseg nx xs (hd xs) \<Longrightarrow> t \<in> set xs \<Longrightarrow> nx t \<in> set xs"
proof -
  have "lseg nx ys z \<Longrightarrow> t \<in> set ys \<Longrightarrow> nx t \<in> set ys \<or> nx t = z" for ys z
    by (induction ys) (auto simp: hd_append split: if_splits)
  then show "lseg nx xs (hd xs) \<Longrightarrow> t \<in> set xs \<Longrightarrow> nx t \<in> set xs"
    by (metis empty_iff empty_set hd_in_set)
qed

lemma next_runnable_none:
  assumes "lseg (nexts s) xs (hd xs)" and "n \<in> set xs" and "\<forall>t \<in> set xs. t_state (s_tasks s t) \<noteq> RUNNABLE"
  shows "next_runnable n s = None"
proof (rule ccontr)
  assume "next_runnable n s \<noteq> None"
  then obtain y where "next_runnable n s = Some y" by auto
  from next_runnable_stays [OF this assms(2)] lseg_closed [OF assms(1)] assms(3) show False by blast
qed

lemma live_child_ring:
  "lseg (nexts s) xs (s_current s) \<Longrightarrow> s_current s \<notin> set xs \<Longrightarrow>
     live_child (hd (xs @ [s_current s])) s
       = Some (\<exists>t \<in> set xs. t_parent (s_tasks s t) = s_current s \<and> t_state (s_tasks s t) \<noteq> DEAD)"
proof (induction xs)
  case (Cons a r)
  then show ?case by (auto simp: live_child.simps [of a])
qed (simp add: live_child.simps)

section \<open>Reaping\<close>

text \<open>The heap blocks of a task: its struct and, except for the boot task, its kernel stack.\<close>

definition task_addrs :: "sched \<Rightarrow> u64 \<Rightarrow> nat list" where
  "task_addrs s t = unat t # (if t_kbase (s_tasks s t) = 0 then [] else [unat (t_kbase (s_tasks s t))])"

definition all_addrs :: "sched \<Rightarrow> u64 list \<Rightarrow> nat list" where
  "all_addrs s ts = concat (List.map (task_addrs s) ts)"

definition task_mem :: "sched \<Rightarrow> u64 list \<Rightarrow> bool" where
  "task_mem s ts \<longleftrightarrow> heap_valid (s_heap s) \<and> distinct (all_addrs s ts)
     \<and> set (all_addrs s ts) \<subseteq> fst ` heap_regions (s_heap s)"

lemma all_addrs_simps [simp]:
  "all_addrs s [] = []" "all_addrs s (t # ts) = task_addrs s t @ all_addrs s ts"
  "all_addrs s (xs @ ys) = all_addrs s xs @ all_addrs s ys"
  by (simp_all add: all_addrs_def)

lemma all_addrs_cong:
  "(\<And>t. t \<in> set ts \<Longrightarrow> t_kbase (s_tasks s t) = t_kbase (s_tasks s' t)) \<Longrightarrow> all_addrs s ts = all_addrs s' ts"
  by (induction ts) (auto simp: task_addrs_def)

text \<open>What the scheduler never changes of a task.\<close>

definition core :: "task \<Rightarrow> task" where
  "core k = k\<lparr>t_next := 0, t_state := RUNNABLE\<rparr>"

lemma core_eqD:
  assumes "core k = core k'"
  shows "t_rsp k = t_rsp k'" "t_parent k = t_parent k'" "t_kbase k = t_kbase k'" "t_kstop k = t_kstop k'"
    "t_pml4 k = t_pml4 k'" "t_fds k = t_fds k'" "t_wake k = t_wake k'"
  using assms by (auto simp: core_def dest: arg_cong [where f = t_rsp] arg_cong [where f = t_parent]
    arg_cong [where f = t_kbase] arg_cong [where f = t_kstop] arg_cong [where f = t_pml4]
    arg_cong [where f = t_fds] arg_cong [where f = t_wake])

lemma core_upd [simp]: "core (k\<lparr>t_next := n\<rparr>) = core k" "core (k\<lparr>t_state := st\<rparr>) = core k"
  by (simp_all add: core_def)

text \<open>\<open>s'\<close> is \<open>s\<close> after the dead tasks \<open>D\<close> have been reclaimed.\<close>

definition reaped :: "sched \<Rightarrow> sched \<Rightarrow> u64 list \<Rightarrow> bool" where
  "reaped s s' D \<longleftrightarrow> s_current s' = s_current s \<and> s_ticks s' = s_ticks s \<and> s_next_pid s' = s_next_pid s
     \<and> s_words s' = s_words s \<and> s_rsp0 s' = s_rsp0 s
     \<and> (\<forall>t. core (s_tasks s' t) = core (s_tasks s t))
     \<and> (\<forall>t. t_state (s_tasks s' t) =
          (if t_state (s_tasks s t) = WAITING \<and> t \<noteq> 0 \<and> (\<exists>d \<in> set D. t_parent (s_tasks s d) = t)
           then RUNNABLE else t_state (s_tasks s t)))
     \<and> heap_valid (s_heap s')
     \<and> heap_regions (s_heap s') = {(p, k) \<in> heap_regions (s_heap s). p \<notin> set (all_addrs s D)}
     \<and> s_vm s' = fold (\<lambda>d. vmm_destroy_address_space (t_pml4 (s_tasks s d))) D (s_vm s)"

lemma reaped_refl: "heap_valid (s_heap s) \<Longrightarrow> reaped s s []"
  by (simp add: reaped_def)

lemma reaped_trans:
  assumes "reaped s s' D" and "reaped s' s'' E"
  shows "reaped s s'' (D @ E)"
proof -
  have c: "core (s_tasks s' t) = core (s_tasks s t)" for t using assms(1) by (simp add: reaped_def)
  note cd = core_eqD [OF c]
  have "all_addrs s' E = all_addrs s E" by (rule all_addrs_cong) (simp add: cd)
  moreover have "fold (\<lambda>d. vmm_destroy_address_space (t_pml4 (s_tasks s' d))) E
      = fold (\<lambda>d. vmm_destroy_address_space (t_pml4 (s_tasks s d))) E"
    by (simp add: cd)
  moreover have "t_state (s_tasks s'' t) =
      (if t_state (s_tasks s t) = WAITING \<and> t \<noteq> 0 \<and> (\<exists>d \<in> set (D @ E). t_parent (s_tasks s d) = t)
       then RUNNABLE else t_state (s_tasks s t))" for t
  proof -
    have "t_state (s_tasks s'' t) =
      (if t_state (s_tasks s' t) = WAITING \<and> t \<noteq> 0 \<and> (\<exists>d \<in> set E. t_parent (s_tasks s d) = t)
       then RUNNABLE else t_state (s_tasks s' t))"
      using assms(2) unfolding reaped_def cd by blast
    moreover have "t_state (s_tasks s' t) =
      (if t_state (s_tasks s t) = WAITING \<and> t \<noteq> 0 \<and> (\<exists>d \<in> set D. t_parent (s_tasks s d) = t)
       then RUNNABLE else t_state (s_tasks s t))"
      using assms(1) unfolding reaped_def by blast
    ultimately show ?thesis
      by (cases "t_state (s_tasks s t) = WAITING"; cases "\<exists>d \<in> set D. t_parent (s_tasks s d) = t"; cases "t = 0")
        (simp_all add: bex_Un)
  qed
  moreover have "{(p, k) \<in> {(p, k) \<in> R. p \<notin> A}. p \<notin> B} = {(p, k) \<in> R. p \<notin> A \<union> B}"
    for R :: "(nat \<times> nat) set" and A B by blast
  ultimately show ?thesis
    using assms c unfolding reaped_def by simp
qed

lemma kfree_region:
  assumes "heap_valid h" and "unat a \<in> fst ` heap_regions h"
  shows "\<exists>h'. kfree a h = Some h' \<and> heap_valid h'
    \<and> heap_regions h' = {(p, k) \<in> heap_regions h. p \<noteq> unat a}"
proof -
  from assms(2) obtain k where k: "(unat a, k) \<in> heap_regions h" by force
  from kheap.mfree_total [OF assms(1) this] obtain h' where
    h': "kfree a h = Some h'" "heap_valid h'" "heap_regions h' = heap_regions h - {(unat a, k)}" by auto
  have "l = k" if "(unat a, l) \<in> heap_regions h" for l
    using kheap.regions_apart [OF assms(1) k that] by fastforce
  with h' show ?thesis by auto
qed

lemma wake_parent_tasks:
  "s_tasks (wake_parent d s) t
     = (if t = t_parent (s_tasks s d) \<and> t \<noteq> 0 \<and> t_state (s_tasks s t) = WAITING
        then (s_tasks s t)\<lparr>t_state := RUNNABLE\<rparr> else s_tasks s t)"
  by (auto simp: wake_parent_def Let_def)

lemma wake_parent_rest:
  "s_heap (wake_parent d s) = s_heap s" "s_vm (wake_parent d s) = s_vm s"
  "s_current (wake_parent d s) = s_current s" "s_ticks (wake_parent d s) = s_ticks s"
  "s_next_pid (wake_parent d s) = s_next_pid s" "s_words (wake_parent d s) = s_words s"
  "s_rsp0 (wake_parent d s) = s_rsp0 s"
  by (simp_all add: wake_parent_def Let_def)

lemma reap_one_reaped:
  assumes mem: "task_mem s [d]" and prev: "prev \<noteq> d"
  shows "\<exists>s'. reap_one prev d s = Some s' \<and> reaped s s' [d]
    \<and> nexts s' = (nexts s)(prev := t_next (s_tasks s d))"
proof -
  let ?s0 = "upd_task prev (\<lambda>k. k\<lparr>t_next := t_next (s_tasks s d)\<rparr>) s"
  let ?s1 = "wake_parent d ?s0"
  let ?vm = "vmm_destroy_address_space (t_pml4 (s_tasks s d)) (s_vm s)"
  let ?kb = "t_kbase (s_tasks s d)"
  have f: "t_kbase (s_tasks ?s1 d) = ?kb" "t_pml4 (s_tasks ?s1 d) = t_pml4 (s_tasks s d)"
    using prev by (simp_all add: wake_parent_tasks)
  have m: "heap_valid (s_heap s)" "unat d \<in> fst ` heap_regions (s_heap s)"
    "?kb \<noteq> 0 \<Longrightarrow> unat ?kb \<in> fst ` heap_regions (s_heap s)" "?kb \<noteq> 0 \<Longrightarrow> unat ?kb \<noteq> unat d"
    using mem by (auto simp: task_mem_def task_addrs_def split: if_splits)
  obtain h1 where h1: "kfree ?kb (s_heap s) = Some h1" "heap_valid h1"
    "heap_regions h1 = {(p, k) \<in> heap_regions (s_heap s). ?kb = 0 \<or> p \<noteq> unat ?kb}"
  proof (cases "?kb = 0")
    case True
    then show thesis using m(1) by (intro that) (simp_all add: kfree_def)
  next
    case False
    then show thesis using kfree_region [OF m(1) m(3) [OF False]] that by auto
  qed
  have "unat d \<in> fst ` heap_regions h1"
    using m(2,4) h1(3) by (force simp: image_iff)
  from kfree_region [OF h1(2) this] obtain h2 where
    h2: "kfree d h1 = Some h2" "heap_valid h2" "heap_regions h2 = {(p, k) \<in> heap_regions h1. p \<noteq> unat d}"
    by blast
  let ?s' = "?s1\<lparr>s_vm := ?vm, s_heap := h2\<rparr>"
  have run: "reap_one prev d s = Some ?s'"
    by (simp add: reap_one_def Let_def f wake_parent_rest h1(1) h2(1))
  have regs: "heap_regions h2 = {(p, k) \<in> heap_regions (s_heap s). p \<notin> set (task_addrs s d)}"
    unfolding h2(3) h1(3) by (auto simp: task_addrs_def)
  have st: "t_state (s_tasks ?s' t) =
      (if t_state (s_tasks s t) = WAITING \<and> t \<noteq> 0 \<and> t_parent (s_tasks s d) = t
       then RUNNABLE else t_state (s_tasks s t))" for t
    using prev by (auto simp: wake_parent_tasks)
  have co: "core (s_tasks ?s' t) = core (s_tasks s t)" for t
    by (simp add: wake_parent_tasks)
  have nx: "nexts ?s' = (nexts s)(prev := t_next (s_tasks s d))"
    by (auto simp: wake_parent_tasks fun_eq_iff)
  have "reaped s ?s' [d]"
    unfolding reaped_def using st co h2(2) regs by (simp add: wake_parent_rest)
  then show ?thesis using run nx by blast
qed

abbreviation is_dead :: "sched \<Rightarrow> u64 \<Rightarrow> bool" where
  "is_dead s t \<equiv> t_state (s_tasks s t) = DEAD"

lemma reaped_dead: "reaped s s' D \<Longrightarrow> is_dead s' t \<longleftrightarrow> is_dead s t"
  by (auto simp: reaped_def)

lemma task_mem_reaped:
  assumes "task_mem s (D @ ts)" and "reaped s s' D"
  shows "task_mem s' ts"
proof -
  have c: "core (s_tasks s' t) = core (s_tasks s t)" for t using assms(2) by (simp add: reaped_def)
  have "all_addrs s' ts = all_addrs s ts" by (rule all_addrs_cong) (rule core_eqD(3) [OF c])
  moreover have "heap_valid (s_heap s')"
    and regs: "heap_regions (s_heap s') = {(p, k) \<in> heap_regions (s_heap s). p \<notin> set (all_addrs s D)}"
    using assms(2) by (simp_all add: reaped_def)
  moreover have "x \<in> fst ` heap_regions (s_heap s')" if x: "x \<in> set (all_addrs s ts)" for x
  proof -
    have "x \<in> fst ` heap_regions (s_heap s)" "x \<notin> set (all_addrs s D)"
      using assms(1) x by (auto simp: task_mem_def)
    then show ?thesis unfolding regs by force
  qed
  moreover have "distinct (all_addrs s ts)" using assms(1) by (simp add: task_mem_def)
  ultimately show ?thesis unfolding task_mem_def by auto
qed

lemma task_mem_sub: "task_mem s (xs @ ys @ zs) \<Longrightarrow> task_mem s ys"
  by (auto simp: task_mem_def)

lemma reap_loop_ring:
  assumes "lseg (nexts s) (pre @ rest) (s_current s)" and "pre \<noteq> []" and "s_current s \<notin> set rest"
    and "distinct (pre @ rest)" and "task_mem s rest"
  shows "\<exists>s'. reap_loop (last pre) (hd (rest @ [s_current s])) s = Some s'
    \<and> reaped s s' (filter (is_dead s) rest)
    \<and> lseg (nexts s') (pre @ filter (\<lambda>t. \<not> is_dead s t) rest) (s_current s)"
  using assms
proof (induction rest arbitrary: pre s)
  case Nil
  then show ?case by (simp add: reap_loop.simps reaped_refl task_mem_def)
next
  case (Cons a r)
  let ?c = "s_current s"
  have nx: "t_next (s_tasks s a) = hd (r @ [?c])" using Cons.prems(1) by (simp add: lseg_append)
  have ac: "a \<noteq> ?c" using Cons.prems(3) by auto
  show ?case
  proof (cases "is_dead s a")
    case False
    have "reap_loop (last pre) a s = reap_loop (last (pre @ [a])) (hd (r @ [?c])) s"
      using False ac nx by (subst reap_loop.simps) simp
    moreover have "\<exists>s'. reap_loop (last (pre @ [a])) (hd (r @ [?c])) s = Some s'
        \<and> reaped s s' (filter (is_dead s) r)
        \<and> lseg (nexts s') ((pre @ [a]) @ filter (\<lambda>t. \<not> is_dead s t) r) ?c"
      by (rule Cons.IH) (use Cons.prems task_mem_sub [of s "[a]" r "[]"] in auto)
    ultimately show ?thesis using False by simp
  next
    case True
    have "last pre \<in> set pre" using Cons.prems(2) by simp
    then have pa: "last pre \<noteq> a" "last pre \<notin> set r" "a \<notin> set r" "a \<notin> set pre"
      using Cons.prems(4) by auto
    obtain s1 where s1: "reap_one (last pre) a s = Some s1" "reaped s s1 [a]"
      "nexts s1 = (nexts s)(last pre := t_next (s_tasks s a))"
      using reap_one_reaped [of s a "last pre"] task_mem_sub [of s "[]" "[a]" r] Cons.prems(5) pa(1) by auto
    have c1: "s_current s1 = ?c" using s1(2) by (simp add: reaped_def)
    have pre: "pre = butlast pre @ [last pre]" using Cons.prems(2) by simp
    have nb: "last pre \<notin> set (butlast pre)"
    proof -
      have "distinct (butlast pre @ [last pre])" using Cons.prems(4) pre by simp
      then show ?thesis by (simp only: distinct_append) auto
    qed
    have seg: "lseg (nexts s1) (pre @ r) ?c"
    proof -
      have "lseg (nexts s) (butlast pre) (hd ([last pre] @ a # r @ [?c]))" "lseg (nexts s) r ?c"
        using Cons.prems(1) by (subst (asm) pre, simp add: lseg_append)+
      then have "lseg (nexts s1) (butlast pre) (last pre)" "lseg (nexts s1) r ?c"
        unfolding s1(3) using nb pa by (simp_all add: lseg_upd)
      moreover have "nexts s1 (last pre) = hd (r @ [?c])"
        using fun_cong [OF s1(3), of "last pre"] nx by simp
      ultimately show ?thesis by (subst pre) (simp add: lseg_append)
    qed
    have "reap_loop (last pre) a s = reap_loop (last pre) (hd (r @ [s_current s1])) s1"
      using True ac nx by (subst reap_loop.simps) (simp add: s1(1) c1)
    moreover have "\<exists>s'. reap_loop (last pre) (hd (r @ [s_current s1])) s1 = Some s'
        \<and> reaped s1 s' (filter (is_dead s1) r)
        \<and> lseg (nexts s') (pre @ filter (\<lambda>t. \<not> is_dead s1 t) r) (s_current s1)"
      by (rule Cons.IH) (use Cons.prems seg c1 task_mem_reaped [OF _ s1(2), of r] in auto)
    ultimately show ?thesis
      using True reaped_trans [OF s1(2)] by (auto simp: reaped_dead [OF s1(2)] c1)
  qed
qed

end
