(* ===== verification/Sched_Props.thy ===== *)
theory Sched_Props
  imports Sched "HOL-Library.Multiset"
begin

text \<open>
  What the scheduler guarantees. On a well-formed ring \<^verbatim>\<open>schedule\<close> reclaims the dead tasks, wakes the
  sleepers whose time has come and the parents of the reclaimed tasks, and switches to the first task
  of the ring that may run; the ring is rotated, so every runnable task is reached within as many
  events as it has tasks ahead of it. A forked child is linked right behind its parent.
\<close>

section \<open>What schedule does\<close>

definition sched_ok :: "sched \<Rightarrow> u64 list \<Rightarrow> bool" where
  "sched_ok s ts \<longleftrightarrow> ring s ts \<and> task_mem s ts"

text \<open>The tasks that may run: sleepers whose time has come and parents of a reaped child included.\<close>

definition ready :: "sched \<Rightarrow> u64 list \<Rightarrow> u64 \<Rightarrow> bool" where
  "ready s ts t \<longleftrightarrow> (case t_state (s_tasks s t) of
     RUNNABLE \<Rightarrow> True
   | SLEEPING \<Rightarrow> t_wake (s_tasks s t) \<le> s_ticks s
   | WAITING \<Rightarrow> (\<exists>d \<in> set (tl ts). is_dead s d \<and> t_parent (s_tasks s d) = t)
   | DEAD \<Rightarrow> False)"

definition survivors :: "sched \<Rightarrow> u64 list \<Rightarrow> u64 list" where
  "survivors s ts = filter (\<lambda>t. \<not> is_dead s t) (tl ts)"

definition casualties :: "sched \<Rightarrow> u64 list \<Rightarrow> u64 list" where
  "casualties s ts = filter (is_dead s) (tl ts)"

text \<open>The state of task \<open>t\<close> once \<open>schedule\<close> has looked at every task.\<close>

definition refreshed :: "sched \<Rightarrow> u64 list \<Rightarrow> u64 \<Rightarrow> task_state" where
  "refreshed s ts t = (if ready s ts t then RUNNABLE else t_state (s_tasks s t))"

text \<open>A task is saved by its stack pointer only.\<close>

definition saved :: "sched \<Rightarrow> u64 \<Rightarrow> u64 \<Rightarrow> task" where
  "saved s rsp t = (if t = s_current s then (s_tasks s t)\<lparr>t_rsp := rsp\<rparr> else s_tasks s t)"

text \<open>The state in which \<open>schedule\<close> looks for the next task.\<close>

definition settled :: "u64 \<Rightarrow> sched \<Rightarrow> u64 list \<Rightarrow> sched \<Rightarrow> bool" where
  "settled rsp s ts s2 \<longleftrightarrow> ring s2 (hd ts # survivors s ts) \<and> task_mem s2 (hd ts # survivors s ts)
     \<and> s_ticks s2 = s_ticks s
     \<and> heap_regions (s_heap s2) = {(p, k) \<in> heap_regions (s_heap s). p \<notin> set (all_addrs s (casualties s ts))}
     \<and> s_vm s2 = fold (\<lambda>d. vmm_destroy_address_space (t_pml4 (s_tasks s d))) (casualties s ts) (s_vm s)
     \<and> (\<forall>t. core (s_tasks s2 t) = core (saved s rsp t))
     \<and> (\<forall>t \<in> set (hd ts # survivors s ts). t_state (s_tasks s2 t) = refreshed s ts t)"

lemma ring_rotate:
  assumes "ring s (xs @ n # ys)" and "s_current s' = n" and "nexts s' = nexts s"
  shows "ring s' (n # ys @ xs)"
proof -
  have "lseg (nexts s) (xs @ n # ys) (hd (xs @ [n]))" and d: "distinct (xs @ n # ys)" "0 \<notin> set (xs @ n # ys)"
    using assms(1) by (cases xs; auto simp: ring_def)+
  from lseg_rotate [OF this(1)] show ?thesis using d assms(2,3) by (auto simp: ring_def)
qed

lemma task_mem_mset:
  assumes "mset xs = mset ys"
  shows "task_mem s xs = task_mem s ys"
proof -
  have "mset (all_addrs s zs) = sum_mset (image_mset (\<lambda>t. mset (task_addrs s t)) (mset zs))" for zs
    by (induction zs) simp_all
  then have "mset (all_addrs s xs) = mset (all_addrs s ys)" by (simp only: assms)
  then show ?thesis unfolding task_mem_def by (metis mset_eq_imp_distinct_iff mset_eq_setD)
qed

lemma task_mem_cong:
  assumes "\<And>t. t_kbase (s_tasks s' t) = t_kbase (s_tasks s t)" and "s_heap s' = s_heap s"
  shows "task_mem s' ts = task_mem s ts"
  using all_addrs_cong [of ts s' s] assms by (simp add: task_mem_def)

lemma reaped_state:
  "reaped s s' D \<Longrightarrow> t_state (s_tasks s' t) =
     (if t_state (s_tasks s t) = WAITING \<and> t \<noteq> 0 \<and> (\<exists>d \<in> set D. t_parent (s_tasks s d) = t)
      then RUNNABLE else t_state (s_tasks s t))"
  unfolding reaped_def by blast

lemma sched_okD:
  assumes "sched_ok s (c # ts)"
  shows "s_current s = c" "c \<noteq> 0" "c \<notin> set ts" "distinct ts" "0 \<notin> set ts"
    "lseg (nexts s) (c # ts) c" "task_mem s (c # ts)"
  using assms by (auto simp: sched_ok_def ring_def)

lemma saved_simps [simp]:
  "t_next (saved s rsp t) = t_next (s_tasks s t)" "t_state (saved s rsp t) = t_state (s_tasks s t)"
  "t_parent (saved s rsp t) = t_parent (s_tasks s t)" "t_wake (saved s rsp t) = t_wake (s_tasks s t)"
  "t_kbase (saved s rsp t) = t_kbase (s_tasks s t)" "t_kstop (saved s rsp t) = t_kstop (s_tasks s t)"
  "t_pml4 (saved s rsp t) = t_pml4 (s_tasks s t)" "t_fds (saved s rsp t) = t_fds (s_tasks s t)"
  "t_rsp (saved s rsp t) = (if t = s_current s then rsp else t_rsp (s_tasks s t))"
  by (simp_all add: saved_def)

lemma schedule_reaps:
  fixes rsp :: u64
  assumes ok: "sched_ok s (c # ts)"
  defines "s0 \<equiv> s\<lparr>s_tasks := saved s rsp\<rparr>"
  shows "\<exists>s1. reap_dead s0 = Some s1 \<and> reaped s0 s1 (casualties s (c # ts))
    \<and> lseg (nexts s1) (c # survivors s (c # ts)) c \<and> task_mem s1 (c # survivors s (c # ts))"
proof -
  note d = sched_okD [OF ok]
  let ?D = "casualties s (c # ts)" and ?L = "survivors s (c # ts)"
  have m0: "task_mem s0 (c # ts)" using d(7) task_mem_cong [of s0 s] by (simp add: s0_def)
  have seg: "lseg (nexts s0) ([c] @ ts) (s_current s0)" using d(1,6) by (simp add: s0_def)
  have "\<exists>s1. reap_loop (last [c]) (hd (ts @ [s_current s0])) s0 = Some s1
      \<and> reaped s0 s1 (filter (is_dead s0) ts)
      \<and> lseg (nexts s1) ([c] @ filter (\<lambda>t. \<not> is_dead s0 t) ts) (s_current s0)"
    by (rule reap_loop_ring [OF seg]) (use d m0 task_mem_sub [of s0 "[c]" ts "[]"] in \<open>auto simp: s0_def\<close>)
  then obtain s1 where s1: "reap_loop c (hd (ts @ [c])) s0 = Some s1" "reaped s0 s1 ?D" "lseg (nexts s1) (c # ?L) c"
    by (auto simp: d(1) s0_def survivors_def casualties_def)
  have "mset (c # ts) = mset (?D @ c # ?L)" by (simp add: survivors_def casualties_def)
  then have "task_mem s0 (?D @ c # ?L)" using m0 task_mem_mset by blast
  from task_mem_reaped [OF this s1(2)] s1 show ?thesis
    using d(6) by (auto simp: reap_dead_def s0_def d(1))
qed

lemma settledI:
  assumes r: "reaped (s\<lparr>s_tasks := saved s rsp\<rparr>) s1 (casualties s (c # ts))" and cur: "s_current s = c" "c \<noteq> 0"
    and seg: "lseg (nexts s1) (c # survivors s (c # ts)) c" and mem: "task_mem s1 (c # survivors s (c # ts))"
    and d: "c \<notin> set ts" "distinct ts" "0 \<notin> set ts"
  shows "settled rsp s (c # ts) (s1\<lparr>s_tasks := (\<lambda>t. if t \<in> set (c # survivors s (c # ts))
      then awake (s_ticks s) (s_tasks s1 t) else s_tasks s1 t)\<rparr>)" (is "settled _ _ _ ?s2")
proof -
  let ?L = "survivors s (c # ts)" and ?D = "casualties s (c # ts)"
  have co1: "core (s_tasks s1 t) = core (saved s rsp t)" for t using r by (simp add: reaped_def)
  then have co2: "core (s_tasks ?s2 t) = core (saved s rsp t)" for t by (simp add: awake_def core_def)
  have nx2: "nexts ?s2 = nexts s1" by (auto simp: fun_eq_iff)
  have L: "distinct ?L" "c \<notin> set ?L" "0 \<notin> set ?L" using d by (auto simp: survivors_def)
  have c1: "s_current ?s2 = c" using r cur by (simp add: reaped_def)
  have "lseg (nexts ?s2) (c # ?L) c" unfolding nx2 by (rule seg)
  with c1 have "ring ?s2 (c # ?L)" unfolding ring_def using cur(2) L by (simp only: list.sel) auto
  moreover have "task_mem ?s2 (c # ?L)"
  proof -
    have "t_kbase (s_tasks ?s2 t) = t_kbase (s_tasks s1 t)" for t
      using core_eqD(3) [OF co2 [of t]] core_eqD(3) [OF co1 [of t]] by simp
    then show ?thesis using task_mem_cong [of ?s2 s1] mem by simp
  qed
  moreover have "t_state (s_tasks ?s2 t) = refreshed s (c # ts) t" if t: "t \<in> set (c # ?L)" for t
  proof -
    have nz: "t \<noteq> 0" using t cur(2) L(3) by auto
    have wk: "t_wake (s_tasks s1 t) = t_wake (s_tasks s t)" using core_eqD(7) [OF co1] by simp
    have "(\<exists>x \<in> set ?D. t_parent (s_tasks s x) = t) \<longleftrightarrow> (\<exists>x \<in> set ts. is_dead s x \<and> t_parent (s_tasks s x) = t)"
      by (auto simp: casualties_def)
    then have "t_state (s_tasks s1 t) = (if t_state (s_tasks s t) = WAITING
        \<and> (\<exists>x \<in> set ts. is_dead s x \<and> t_parent (s_tasks s x) = t) then RUNNABLE else t_state (s_tasks s t))"
      using reaped_state [OF r, of t] nz by simp
    then show ?thesis
      using t wk by (cases "t_state (s_tasks s t)") (auto simp: awake_def refreshed_def ready_def)
  qed
  moreover have "heap_regions (s_heap ?s2) = {(p, k) \<in> heap_regions (s_heap s). p \<notin> set (all_addrs s ?D)}"
    using r all_addrs_cong [of ?D "s\<lparr>s_tasks := saved s rsp\<rparr>" s] by (simp add: reaped_def)
  ultimately show ?thesis using r co2 unfolding settled_def by (simp add: reaped_def)
qed

lemma schedule_settles:
  assumes ok: "sched_ok s (c # ts)"
  shows "\<exists>s2. settled rsp s (c # ts) s2
    \<and> schedule rsp s = Option.bind (next_runnable (t_next (cur s2)) s2) (\<lambda>n. Some (switch_to n s2))"
proof -
  note d = sched_okD [OF ok]
  let ?s0 = "s\<lparr>s_tasks := saved s rsp\<rparr>" and ?L = "survivors s (c # ts)"
  from schedule_reaps [OF ok, of rsp] obtain s1 where
    s1: "reap_dead ?s0 = Some s1" "reaped ?s0 s1 (casualties s (c # ts))"
      "lseg (nexts s1) (c # ?L) c" "task_mem s1 (c # ?L)" by blast
  have r1: "s_current s1 = c" "s_ticks s1 = s_ticks s" using s1(2) d(1) by (simp_all add: reaped_def)
  let ?s2 = "s1\<lparr>s_tasks := (\<lambda>t. if t \<in> set (c # ?L) then awake (s_ticks s) (s_tasks s1 t) else s_tasks s1 t)\<rparr>"
  have "(s_tasks s)(s_current s := (cur s)\<lparr>t_rsp := rsp\<rparr>) = saved s rsp" by (auto simp: saved_def fun_eq_iff)
  then have "upd_task (s_current s) (\<lambda>k. k\<lparr>t_rsp := rsp\<rparr>) s = ?s0" by (simp only:)
  moreover have "wake_loop c s1 = Some ?s2"
    unfolding r1(2) [symmetric] by (rule wake_loop_ring [OF s1(3)]) (use r1(1) d(3) in \<open>auto simp: survivors_def\<close>)
  ultimately have "schedule rsp s = Option.bind (next_runnable (t_next (cur ?s2)) ?s2) (\<lambda>n. Some (switch_to n ?s2))"
    using d(1,2) s1(1) r1(1) by (simp add: schedule_def)
  with settledI [OF s1(2) d(1,2) s1(3,4) d(3-5)] show ?thesis by blast
qed

abbreviation candidates :: "sched \<Rightarrow> u64 list \<Rightarrow> u64 list" where
  "candidates s ts \<equiv> filter (ready s ts) (survivors s ts @ [hd ts])"

lemma settled_candidates:
  assumes "settled rsp s (c # ts) s2"
  shows "filter (\<lambda>t. t_state (s_tasks s2 t) = RUNNABLE) (survivors s (c # ts) @ [c]) = candidates s (c # ts)"
    and "lseg (nexts s2) (survivors s (c # ts) @ [c]) (hd (survivors s (c # ts) @ [c]))"
    and "t_next (cur s2) = hd (survivors s (c # ts) @ [c])"
proof -
  have st: "t \<in> set (c # survivors s (c # ts)) \<Longrightarrow> t_state (s_tasks s2 t) = refreshed s (c # ts) t" for t
    using assms by (auto simp: settled_def)
  then have "t_state (s_tasks s2 t) = RUNNABLE \<longleftrightarrow> ready s (c # ts) t" if "t \<in> set (c # survivors s (c # ts))" for t
    using that by (auto simp: refreshed_def ready_def)
  then show "filter (\<lambda>t. t_state (s_tasks s2 t) = RUNNABLE) (survivors s (c # ts) @ [c]) = candidates s (c # ts)"
    by (intro filter_cong) auto
  show "lseg (nexts s2) (survivors s (c # ts) @ [c]) (hd (survivors s (c # ts) @ [c]))"
    "t_next (cur s2) = hd (survivors s (c # ts) @ [c])"
    using assms by (auto simp: settled_def ring_def lseg_append)
qed

lemma schedule_none:
  assumes "sched_ok s (c # ts)" and "candidates s (c # ts) = []"
  shows "schedule rsp s = None"
proof -
  from schedule_settles [OF assms(1), of rsp] obtain s2 where s2: "settled rsp s (c # ts) s2"
    and run: "schedule rsp s = Option.bind (next_runnable (t_next (cur s2)) s2) (\<lambda>n. Some (switch_to n s2))"
    by blast
  note sc = settled_candidates [OF s2]
  have "\<forall>t \<in> set (survivors s (c # ts) @ [c]). t_state (s_tasks s2 t) \<noteq> RUNNABLE"
    using assms(2) unfolding sc(1) [symmetric] filter_empty_conv .
  from next_runnable_none [OF sc(2) _ this] have "next_runnable (t_next (cur s2)) s2 = None"
    unfolding sc(3) by (cases "survivors s (c # ts)") simp_all
  then show ?thesis by (simp add: run)
qed

lemma schedule_some:
  assumes "sched_ok s (c # ts)" and n: "candidates s (c # ts) = n # ns" and sp: "c # survivors s (c # ts) = xs @ n # ys"
  shows "\<exists>s2. settled rsp s (c # ts) s2 \<and> sched_ok (snd (switch_to n s2)) (n # ys @ xs)
    \<and> schedule rsp s = Some (t_rsp (saved s rsp n), snd (switch_to n s2))"
proof -
  from schedule_settles [OF assms(1), of rsp] obtain s2 where s2: "settled rsp s (c # ts) s2"
    and run: "schedule rsp s = Option.bind (next_runnable (t_next (cur s2)) s2) (\<lambda>n. Some (switch_to n s2))"
    by blast
  note sc = settled_candidates [OF s2]
  have "next_runnable (t_next (cur s2)) s2 = Some n"
    using next_runnable_ring [OF sc(2)] unfolding sc(1,3) n by (simp only: list.sel list.distinct simp_thms)
  moreover have "t_rsp (s_tasks s2 n) = t_rsp (saved s rsp n)"
    using s2 by (intro core_eqD(1)) (simp only: settled_def)
  ultimately have "schedule rsp s = Some (t_rsp (saved s rsp n), snd (switch_to n s2))"
    by (simp add: run switch_to_def)
  moreover have "ring s2 (xs @ n # ys)" "task_mem s2 (xs @ n # ys)"
    using s2 by (simp_all add: settled_def sp)
  then have "ring (snd (switch_to n s2)) (n # ys @ xs)" "task_mem (snd (switch_to n s2)) (n # ys @ xs)"
    using ring_rotate [of s2 xs n ys "snd (switch_to n s2)"] task_mem_cong [of "snd (switch_to n s2)" s2]
      task_mem_mset [of "n # ys @ xs" "xs @ n # ys"] by (simp_all add: switch_to_def)
  ultimately show ?thesis using s2 by (auto simp: sched_ok_def)
qed

lemma settledD:
  assumes "settled rsp s (c # ts) s2"
  shows "s_ticks s2 = s_ticks s"
    "heap_regions (s_heap s2) = {(p, k) \<in> heap_regions (s_heap s). p \<notin> set (all_addrs s (casualties s (c # ts)))}"
    "s_vm s2 = fold (\<lambda>d. vmm_destroy_address_space (t_pml4 (s_tasks s d))) (casualties s (c # ts)) (s_vm s)"
    "core (s_tasks s2 t) = core (saved s rsp t)"
    "\<forall>t \<in> set (c # survivors s (c # ts)). t_state (s_tasks s2 t) = refreshed s (c # ts) t"
  using assms unfolding settled_def list.sel by blast+

lemma candidate_in: "candidates s (c # ts) = n # ns \<Longrightarrow> n \<in> set (c # survivors s (c # ts)) \<and> ready s (c # ts) n"
proof -
  assume "candidates s (c # ts) = n # ns"
  then have "n \<in> set (candidates s (c # ts))" by (simp only: list.set_intros)
  then show ?thesis by (simp only: set_filter set_append mem_Collect_eq) auto
qed

lemma schedule_step:
  assumes ok: "sched_ok s (c # ts)" and n: "candidates s (c # ts) = n # ns"
  shows "\<exists>xs ys s'. c # survivors s (c # ts) = xs @ n # ys
        \<and> schedule rsp s = Some (t_rsp (saved s rsp n), s') \<and> sched_ok s' (n # ys @ xs)
        \<and> s_rsp0 s' = t_kstop (s_tasks s n) \<and> s_ticks s' = s_ticks s
        \<and> s_vm s' = vmm_switch (t_pml4 (s_tasks s n))
            (fold (\<lambda>d. vmm_destroy_address_space (t_pml4 (s_tasks s d))) (casualties s (c # ts)) (s_vm s))
        \<and> heap_regions (s_heap s')
            = {(p, k) \<in> heap_regions (s_heap s). p \<notin> set (all_addrs s (casualties s (c # ts)))}
        \<and> (\<forall>t \<in> set (c # survivors s (c # ts)). core (s_tasks s' t) = core (saved s rsp t)
             \<and> t_state (s_tasks s' t) = refreshed s (c # ts) t)"
proof -
  from candidate_in [OF n] obtain xs ys where sp: "c # survivors s (c # ts) = xs @ n # ys"
    by (meson split_list)
  from schedule_some [OF assms sp, of rsp] obtain s2 where s2: "settled rsp s (c # ts) s2"
    "sched_ok (snd (switch_to n s2)) (n # ys @ xs)"
    "schedule rsp s = Some (t_rsp (saved s rsp n), snd (switch_to n s2))" by blast
  let ?s' = "snd (switch_to n s2)"
  have f: "s_tasks ?s' = s_tasks s2" "s_heap ?s' = s_heap s2" "s_ticks ?s' = s_ticks s2"
    "s_vm ?s' = vmm_switch (t_pml4 (s_tasks s2 n)) (s_vm s2)" "s_rsp0 ?s' = t_kstop (s_tasks s2 n)"
    by (simp_all add: switch_to_def)
  note d = settledD [OF s2(1)]
  note cn = core_eqD(4,5) [OF d(4) [of n], unfolded saved_simps]
  have "\<forall>t \<in> set (c # survivors s (c # ts)). core (s_tasks s2 t) = core (saved s rsp t)
      \<and> t_state (s_tasks s2 t) = refreshed s (c # ts) t" using d(4,5) by blast
  then have "\<forall>t \<in> set (c # survivors s (c # ts)). core (s_tasks ?s' t) = core (saved s rsp t)
      \<and> t_state (s_tasks ?s' t) = refreshed s (c # ts) t" unfolding f .
  moreover have "s_rsp0 ?s' = t_kstop (s_tasks s n)" unfolding f cn ..
  moreover have "s_ticks ?s' = s_ticks s" unfolding f d ..
  moreover have "s_vm ?s' = vmm_switch (t_pml4 (s_tasks s n))
      (fold (\<lambda>d. vmm_destroy_address_space (t_pml4 (s_tasks s d))) (casualties s (c # ts)) (s_vm s))"
    unfolding f cn d(3) ..
  moreover have "heap_regions (s_heap ?s')
      = {(p, k) \<in> heap_regions (s_heap s). p \<notin> set (all_addrs s (casualties s (c # ts)))}"
    unfolding f d(2) ..
  ultimately show ?thesis using sp s2(2,3) by blast
qed

text \<open>
  C11. On a well-formed ring \<^verbatim>\<open>schedule\<close> never returns if no task can become runnable. Otherwise it
  switches to the first task after the current one that can (the current one itself coming last):
  kernel stack, address space and stack pointer are that task's, the ring is rotated to begin with it,
  the dead tasks are unlinked, their address spaces destroyed and their heap blocks freed, sleepers
  whose time has come and waiting parents of a reclaimed task are runnable, and nothing else of any
  task changes but the saved stack pointer of the task that was running.
\<close>

theorem schedule_picks_next_ready:
  assumes "sched_ok s (c # ts)"
  shows "case candidates s (c # ts) of
      [] \<Rightarrow> schedule rsp s = None
    | n # _ \<Rightarrow> \<exists>xs ys s'. c # survivors s (c # ts) = xs @ n # ys
        \<and> schedule rsp s = Some (t_rsp (saved s rsp n), s') \<and> sched_ok s' (n # ys @ xs)
        \<and> s_rsp0 s' = t_kstop (s_tasks s n) \<and> s_ticks s' = s_ticks s
        \<and> s_vm s' = vmm_switch (t_pml4 (s_tasks s n))
            (fold (\<lambda>d. vmm_destroy_address_space (t_pml4 (s_tasks s d))) (casualties s (c # ts)) (s_vm s))
        \<and> heap_regions (s_heap s')
            = {(p, k) \<in> heap_regions (s_heap s). p \<notin> set (all_addrs s (casualties s (c # ts)))}
        \<and> (\<forall>t \<in> set (c # survivors s (c # ts)). core (s_tasks s' t) = core (saved s rsp t)
             \<and> t_state (s_tasks s' t) = refreshed s (c # ts) t)"
proof (cases "candidates s (c # ts)")
  case Nil
  then show ?thesis using schedule_none [OF assms Nil] by simp
next
  case (Cons n ns)
  then show ?thesis using schedule_step [OF assms Cons, of rsp] by (simp only: list.case)
qed

section \<open>The events that end in schedule\<close>

text \<open>
  The timer interrupt and the calls of \<^verbatim>\<open>isr_handler\<close> that switch tasks; the word is the address
  of the frame that the stub saved.
\<close>

datatype sched_event = Timer u64 | Yield u64 | Sleep u64 u64 | Exit u64 | Wait u64

fun handle_event :: "sched_event \<Rightarrow> sched \<Rightarrow> (u64 \<times> sched) option" where
  "handle_event (Timer rsp) s = schedule rsp (sched_tick s)"
| "handle_event (Yield rsp) s = schedule rsp s"
| "handle_event (Sleep n rsp) s = task_sleep n rsp s"
| "handle_event (Exit rsp) s = schedule rsp (sched_kill_current s)"
| "handle_event (Wait rsp) s = wait_current rsp s"

fun run_events :: "sched_event list \<Rightarrow> sched \<Rightarrow> sched option" where
  "run_events [] s = Some s"
| "run_events (e # es) s = Option.bind (handle_event e s) (\<lambda>(_, s'). run_events es s')"

definition is_wait :: "sched_event \<Rightarrow> bool" where
  "is_wait e \<longleftrightarrow> (case e of Wait _ \<Rightarrow> True | _ \<Rightarrow> False)"

text \<open>How many tasks of the ring come before \<open>t\<close>.\<close>

definition ahead :: "u64 \<Rightarrow> u64 list \<Rightarrow> nat" where
  "ahead t ts = length (takeWhile (\<lambda>u. u \<noteq> t) ts)"

lemma ahead_simps [simp]: "ahead t [] = 0" "ahead t (a # r) = (if a = t then 0 else Suc (ahead t r))"
  by (simp_all add: ahead_def)

lemma ahead_append: "ahead t (xs @ ys) = (if t \<in> set xs then ahead t xs else length xs + ahead t ys)"
  by (induction xs) auto

lemma ahead_filter: "P t \<Longrightarrow> ahead t (filter P xs) \<le> ahead t xs"
  by (induction xs) auto

lemma filter_first_split:
  assumes "filter P xs = n # ns" and "P t" and "t \<in> set xs"
  shows "\<exists>us vs. xs = us @ n # vs \<and> t \<notin> set us"
proof -
  from assms(1) obtain us vs where "xs = us @ n # vs" "\<forall>u \<in> set us. \<not> P u"
    by (auto simp: filter_eq_Cons_iff)
  then show ?thesis using assms(2) by blast
qed

lemma sched_ok_cong:
  assumes "sched_ok s ts" and "s_current s' = s_current s" and "s_heap s' = s_heap s"
    and "\<And>t. t_next (s_tasks s' t) = t_next (s_tasks s t)" and "\<And>t. t_kbase (s_tasks s' t) = t_kbase (s_tasks s t)"
  shows "sched_ok s' ts"
proof -
  have "nexts s' = nexts s" using assms(4) by auto
  then show ?thesis using assms task_mem_cong [of s' s ts] by (simp add: sched_ok_def ring_def)
qed

text \<open>One call of \<^verbatim>\<open>schedule\<close> brings a runnable task that is waiting for its turn closer.\<close>

lemma schedule_progress:
  assumes ok: "sched_ok s (c # ts)" and t: "t \<in> set ts" and run: "t_state (s_tasks s t) = RUNNABLE"
  shows "\<exists>s' ts'. schedule rsp s = Some (t_rsp (saved s rsp (hd ts')), s') \<and> sched_ok s' ts' \<and> t \<in> set ts'
    \<and> t_state (s_tasks s' t) = RUNNABLE \<and> ahead t ts' < ahead t (c # ts)"
proof -
  note d = sched_okD [OF ok]
  let ?L = "survivors s (c # ts)"
  have tL: "t \<in> set ?L" and rd: "ready s (c # ts) t" using t run by (auto simp: survivors_def ready_def)
  then have f: "filter (ready s (c # ts)) ?L \<noteq> []" by (auto simp: filter_empty_conv)
  then obtain n ns where n: "filter (ready s (c # ts)) ?L = n # ns" by (cases "filter (ready s (c # ts)) ?L") auto
  obtain us vs where uv: "?L = us @ n # vs" "t \<notin> set us" using filter_first_split [OF n rd tL] by blast
  have cand: "candidates s (c # ts) = n # ns @ filter (ready s (c # ts)) [c]" by (simp add: n)
  from schedule_some [OF ok cand, of "c # us" vs rsp] uv(1) obtain s2 where
    s2: "settled rsp s (c # ts) s2" "sched_ok (snd (switch_to n s2)) (n # vs @ c # us)"
      "schedule rsp s = Some (t_rsp (saved s rsp n), snd (switch_to n s2))" by auto
  have "t_state (s_tasks s2 t) = RUNNABLE" using settledD(5) [OF s2(1)] tL rd by (simp add: refreshed_def)
  then have st: "t_state (s_tasks (snd (switch_to n s2)) t) = RUNNABLE" by (simp add: switch_to_def)
  have tn: "t \<in> set (n # vs)" using tL uv by auto
  then have "ahead t (n # vs @ c # us) \<le> ahead t ?L" using uv by (auto simp: ahead_append)
  also have "\<dots> \<le> ahead t ts" using run by (simp add: survivors_def ahead_filter)
  also have "\<dots> < ahead t (c # ts)" using t d(3) by auto
  finally show ?thesis using s2 st tn by (intro exI [of _ "snd (switch_to n s2)"] exI [of _ "n # vs @ c # us"]) auto
qed

lemma handle_progress:
  assumes ok: "sched_ok s (c # ts)" and t: "t \<in> set ts" and run: "t_state (s_tasks s t) = RUNNABLE"
  shows "\<exists>r s' ts'. handle_event e s = Some (r, s') \<and> sched_ok s' ts' \<and> t \<in> set ts'
    \<and> t_state (s_tasks s' t) = RUNNABLE \<and> (ahead t ts' < ahead t (c # ts) \<or> is_wait e \<and> ts' = c # ts)"
proof -
  note d = sched_okD [OF ok]
  have tc: "t \<noteq> c" using t d(3) by auto
  have via: ?thesis if "handle_event e s = schedule rsp s'" "sched_ok s' (c # ts)" "s_tasks s' t = s_tasks s t" for rsp s'
    using schedule_progress [OF that(2) t, of rsp] that run by fastforce
  show ?thesis
  proof (cases e)
    case (Timer rsp)
    then show ?thesis by (intro via [of rsp "sched_tick s"] sched_ok_cong [OF ok]) (simp_all add: sched_tick_def)
  next
    case (Yield rsp)
    then show ?thesis by (intro via [of rsp s]) (simp_all add: ok)
  next
    case (Sleep n rsp)
    show ?thesis
      by (rule via, unfold Sleep handle_event.simps task_sleep_def, rule refl)
        (rule sched_ok_cong [OF ok], use tc d(1) in auto)
  next
    case (Exit rsp)
    then show ?thesis
      by (intro via [of rsp "sched_kill_current s"] sched_ok_cong [OF ok]) (use tc d(1) in \<open>auto simp: sched_kill_current_def\<close>)
  next
    case (Wait rsp)
    let ?s1 = "upd_task (s_current s) (\<lambda>k. k\<lparr>t_rsp := rsp\<rparr>) s"
    have ok1: "sched_ok ?s1 (c # ts)" by (rule sched_ok_cong [OF ok]) auto
    note d1 = sched_okD [OF ok1]
    let ?s2 = "?s1\<lparr>s_words := (s_words ?s1)(rsp + 14 * 8 := 0)\<rparr>"
    obtain live where live: "live_child (t_next (cur ?s1)) ?s1 = Some live"
      using live_child_ring [of ?s1 ts] d1 by (auto simp: hd_append split: if_splits)
    show ?thesis
    proof (cases live)
      case False
      have "handle_event e s = Some (rsp, ?s2)" using live False by (simp add: Wait wait_current_def Let_def)
      moreover have "sched_ok ?s2 (c # ts)" by (rule sched_ok_cong [OF ok]) auto
      ultimately show ?thesis using t tc d(1) run by (auto simp: Wait is_wait_def)
    next
      case True
      show ?thesis
        by (rule via [of rsp "upd_task (s_current ?s2) (\<lambda>k. k\<lparr>t_state := WAITING\<rparr>) ?s2"])
          (use live True tc d(1) in \<open>simp add: Wait wait_current_def Let_def\<close>,
            rule sched_ok_cong [OF ok], use tc d(1) in auto)
    qed
  qed
qed

text \<open>
  C2. Every runnable task gets the processor. Whatever the tasks before it do, run into the timer,
  yield, sleep, exit or wait, a runnable task with \<open>k\<close> tasks ahead of it in the ring is running
  after at most \<open>k\<close> events, not counting calls of \<^verbatim>\<open>wait\<close>, which may return at once.
\<close>

theorem every_runnable_task_runs:
  assumes "sched_ok s ts" and "t \<in> set ts" and "t_state (s_tasks s t) = RUNNABLE"
    and "ahead t ts \<le> length (filter (\<lambda>e. \<not> is_wait e) es)"
  shows "\<exists>k \<le> length es. \<exists>s'. run_events (take k es) s = Some s' \<and> s_current s' = t"
  using assms
proof (induction es arbitrary: s ts)
  case Nil
  then show ?case by (cases ts) (auto simp: sched_ok_def ring_def split: if_splits)
next
  case (Cons e es)
  then obtain c r where ts: "ts = c # r" by (cases ts) auto
  show ?case
  proof (cases "c = t")
    case True
    then show ?thesis using sched_okD(1) Cons.prems(1) ts by (intro exI [of _ 0]) auto
  next
    case False
    then obtain q s1 ts1 where h: "handle_event e s = Some (q, s1)" "sched_ok s1 ts1" "t \<in> set ts1"
      "t_state (s_tasks s1 t) = RUNNABLE" "ahead t ts1 < ahead t ts \<or> is_wait e \<and> ts1 = ts"
      using handle_progress [of s c r t e] Cons.prems ts by auto
    have "ahead t ts1 \<le> length (filter (\<lambda>e. \<not> is_wait e) es)" using h(5) Cons.prems(4) by (auto split: if_splits)
    from Cons.IH [OF h(2-4) this] obtain k s' where
      "k \<le> length es" "run_events (take k es) s1 = Some s'" "s_current s' = t" by blast
    then show ?thesis using h(1) by (intro exI [of _ "Suc k"]) auto
  qed
qed

section \<open>New tasks\<close>

lemma size_ok: "SIZEOF_TASK \<noteq> 0" "unat SIZEOF_TASK < 2 ^ 63" "STACK_SIZE \<noteq> 0" "unat STACK_SIZE < 2 ^ 63"
  by (simp_all add: SIZEOF_TASK_def STACK_SIZE_def)

text \<open>The blocks that \<^verbatim>\<open>kmalloc\<close> hands out for a struct and a stack belong to no other task.\<close>

lemma new_task_mem:
  assumes mem: "task_mem s ts" and k1: "kmalloc SIZEOF_TASK (s_heap s) = Some (t, h1)" "t \<noteq> 0"
    and k2: "kmalloc STACK_SIZE h1 = Some (k, h2)" "k \<noteq> 0"
    and s': "s_heap s' = h2" "t_kbase (s_tasks s' t) = k" "\<And>u. u \<noteq> t \<Longrightarrow> t_kbase (s_tasks s' u) = t_kbase (s_tasks s u)"
  shows "task_mem s' (t # ts)" and "t \<notin> set ts"
proof -
  have v: "heap_valid (s_heap s)" using mem by (simp add: task_mem_def)
  from v size_ok(1,2) k1(1) obtain p j where p: "t = of_nat p" "heap_valid h1"
    "heap_regions h1 = insert (p, j) (heap_regions (s_heap s))" "p \<notin> fst ` heap_regions (s_heap s)"
    by (cases rule: kheap.malloc_cases) (use k1(2) in auto)
  from p(2) size_ok(3,4) k2(1) obtain q l where q: "k = of_nat q" "heap_valid h2"
    "heap_regions h2 = insert (q, l) (heap_regions h1)" "q \<notin> fst ` heap_regions h1"
    by (cases rule: kheap.malloc_cases) (use k2(2) in auto)
  have reg: "(x, y) \<in> heap_regions h2 \<Longrightarrow> x < 2 ^ 64" for x y
    using kheap.regions_inside [OF q(2), of x y] kheap.hi_bound by simp
  have pq: "unat t = p" "unat k = q" using reg [of p j] reg [of q l] p q by (auto simp: unat_of_nat_u64)
  have old: "set (all_addrs s ts) \<subseteq> fst ` heap_regions (s_heap s)" "distinct (all_addrs s ts)"
    using mem by (simp_all add: task_mem_def)
  have "unat t \<notin> set (all_addrs s ts)" using old(1) p(4) pq by blast
  then show tt: "t \<notin> set ts" by (auto simp: all_addrs_def task_addrs_def)
  have same: "all_addrs s' ts = all_addrs s ts" by (rule all_addrs_cong) (metis s'(3) tt)
  have ad: "task_addrs s' t = [p, q]" using s'(2) k2(2) pq by (simp add: task_addrs_def)
  show "task_mem s' (t # ts)"
    unfolding task_mem_def all_addrs_simps ad same s'(1) using q(2,3,4) p(3,4) old by auto
qed

lemma link_task_simps:
  "s_current (link_task t s) = s_current s" "s_heap (link_task t s) = s_heap s" "s_vm (link_task t s) = s_vm s"
  "s_words (link_task t s) = s_words s" "s_next_pid (link_task t s) = s_next_pid s"
  "s_ticks (link_task t s) = s_ticks s" "s_rsp0 (link_task t s) = s_rsp0 s"
  "t \<noteq> s_current s \<Longrightarrow> s_tasks (link_task t s) = (s_tasks s)(t := (s_tasks s t)\<lparr>t_next := t_next (cur s)\<rparr>,
     s_current s := (cur s)\<lparr>t_next := t\<rparr>)"
  by (simp_all add: link_task_def Let_def)

lemma link_new_task:
  assumes ok: "sched_ok s (c # ts)" and k1: "kmalloc SIZEOF_TASK (s_heap s) = Some (t, h1)" "t \<noteq> 0"
    and k2: "kmalloc STACK_SIZE h1 = Some (k, h2)" "k \<noteq> 0"
    and s1: "s_heap s1 = h2" "s_current s1 = c" "s_tasks s1 = (s_tasks s)(t := tk)" "t_kbase tk = k"
  shows "sched_ok (link_task t s1) (c # t # ts)" and "t \<notin> set (c # ts)"
    and "s_tasks (link_task t s1) = (s_tasks s)(t := tk\<lparr>t_next := t_next (s_tasks s c)\<rparr>, c := (s_tasks s c)\<lparr>t_next := t\<rparr>)"
proof -
  note d = sched_okD [OF ok]
  have m: "task_mem s1 (t # c # ts)" and nin: "t \<notin> set (c # ts)"
    using new_task_mem [OF d(7) k1 k2, of s1] s1 by auto
  show "t \<notin> set (c # ts)" by (rule nin)
  let ?s = "link_task t s1"
  have tc: "t \<noteq> c" using nin by auto
  show tasks: "s_tasks ?s = (s_tasks s)(t := tk\<lparr>t_next := t_next (s_tasks s c)\<rparr>, c := (s_tasks s c)\<lparr>t_next := t\<rparr>)"
    using tc s1(2,3) by (simp add: link_task_simps fun_upd_twist)
  have "task_mem ?s (t # c # ts)"
    using m task_mem_cong [of ?s s1] tc s1(2) by (simp add: link_task_simps)
  then have "task_mem ?s (c # t # ts)" using task_mem_mset [of "c # t # ts" "t # c # ts"] by simp
  moreover have "lseg (nexts ?s) (c # t # ts) c"
  proof -
    have "lseg (nexts s) ts c" and nx: "t_next (s_tasks s c) = hd (ts @ [c])" using d(6) by simp_all
    moreover have "lseg (nexts ?s) ts c = lseg (nexts s) ts c"
      by (rule lseg_cong) (use nin d(3) in \<open>auto simp: tasks\<close>)
    ultimately show ?thesis using tc by (simp add: tasks)
  qed
  then have "ring ?s (c # t # ts)"
    unfolding ring_def using d nin k1(2) s1(2) by (simp only: link_task_simps list.sel) auto
  ultimately show "sched_ok ?s (c # t # ts)" by (simp add: sched_ok_def)
qed

lemma store_words_outside:
  "(\<And>i. i < length ws \<Longrightarrow> a \<noteq> b + of_nat (8 * i)) \<Longrightarrow> store_words b ws m a = m a"
proof (induction ws arbitrary: b m)
  case (Cons w ws)
  have "a \<noteq> b" using Cons.prems [of 0] by simp
  moreover have "a \<noteq> b + 8 + of_nat (8 * i)" if "i < length ws" for i
    using Cons.prems [of "Suc i"] that by (simp add: algebra_simps)
  ultimately show ?case unfolding store_words.simps by (subst Cons.IH) (auto simp del: of_nat_mult)
qed simp

lemma store_words_nth:
  "8 * length ws < 2 ^ 64 \<Longrightarrow> i < length ws \<Longrightarrow> store_words b ws m (b + of_nat (8 * i)) = ws ! i"
proof (induction ws arbitrary: b m i)
  case (Cons w ws)
  show ?case
  proof (cases i)
    case 0
    have "b \<noteq> b + 8 + of_nat (8 * j)" if "j < length ws" for j
    proof -
      have "(of_nat (8 * Suc j) :: u64) \<noteq> 0"
        using that Cons.prems(1) unfolding word_of_nat_eq_0_iff by (auto dest!: dvd_imp_le)
      then show ?thesis by (simp add: algebra_simps)
    qed
    then have "store_words (b + 8) ws (m(b := w)) b = (m(b := w)) b" by (intro store_words_outside) auto
    then show ?thesis using 0 by simp
  next
    case (Suc j)
    have "store_words (b + 8) ws (m(b := w)) (b + 8 + of_nat (8 * j)) = ws ! j"
      by (rule Cons.IH) (use Cons.prems Suc in auto)
    then show ?thesis using Suc by (simp add: algebra_simps)
  qed
qed simp

text \<open>
  C9. A successful \<^verbatim>\<open>fork\<close> puts the child right behind its parent in the ring: runnable, with the
  parent's descriptors, the cloned address space, a kernel stack of its own and \<^verbatim>\<open>parent\<close> set; the
  frame it resumes from is the parent's with \<^verbatim>\<open>rax\<close> zero, no other word of memory and no other task
  changes, and the parent is handed the next process number. If the address space cannot be cloned
  the result is \<open>- 1\<close> and there is no child.
\<close>

theorem fork_creates_child:
  assumes ok: "sched_ok s (c # ts)"
    and cl: "vmm_clone_address_space (t_pml4 (s_tasks s c)) (s_vm s) = (space, vm)"
    and k1: "kmalloc SIZEOF_TASK (s_heap s) = Some (t, h1)" "t \<noteq> 0"
    and k2: "kmalloc STACK_SIZE h1 = Some (k, h2)" "k \<noteq> 0"
  shows "if space = 0 then fork_current regs s = Some (- 1, s\<lparr>s_vm := vm\<rparr>)
    else \<exists>s'. fork_current regs s = Some (ucast (s_next_pid s), s') \<and> sched_ok s' (c # t # ts)
      \<and> t_state (s_tasks s' t) = RUNNABLE \<and> t_parent (s_tasks s' t) = c \<and> t_pml4 (s_tasks s' t) = space
      \<and> (\<forall>i < MAX_FDS. t_fds (s_tasks s' t) i = t_fds (s_tasks s c) i)
      \<and> t_kbase (s_tasks s' t) = k \<and> t_rsp (s_tasks s' t) + SIZEOF_REGISTERS = t_kstop (s_tasks s' t)
      \<and> (\<forall>i < 22. s_words s' (t_rsp (s_tasks s' t) + of_nat (8 * i)) = reg_words (regs\<lparr>reg_rax := 0\<rparr>) ! i)
      \<and> (\<forall>a. (\<forall>i < 22. a \<noteq> t_rsp (s_tasks s' t) + of_nat (8 * i)) \<longrightarrow> s_words s' a = s_words s a)
      \<and> (\<forall>u. u \<noteq> t \<longrightarrow> core (s_tasks s' u) = core (s_tasks s u) \<and> t_state (s_tasks s' u) = t_state (s_tasks s u))
      \<and> s_vm s' = vm \<and> s_next_pid s' = s_next_pid s + 1"
proof (cases "space = 0")
  case True
  then show ?thesis using cl sched_okD(1) [OF ok] by (simp add: fork_current_def)
next
  case False
  note d = sched_okD [OF ok]
  let ?fr = "kstack_top k - SIZEOF_REGISTERS" and ?ws = "reg_words (regs\<lparr>reg_rax := 0\<rparr>)"
  let ?tk = "(s_tasks s t)\<lparr>t_rsp := ?fr, t_state := RUNNABLE, t_wake := 0, t_kstop := kstack_top k,
      t_kbase := k, t_pml4 := space, t_parent := c, t_fds := copy_fds (t_fds (s_tasks s c)) (t_fds (s_tasks s t))\<rparr>"
  let ?s1 = "s\<lparr>s_vm := vm, s_heap := h2, s_words := store_words ?fr ?ws (s_words s), s_tasks := (s_tasks s)(t := ?tk),
      s_next_pid := s_next_pid s + 1\<rparr>"
  let ?s' = "link_task t ?s1"
  have run: "fork_current regs s = Some (ucast (s_next_pid s), ?s')"
    using False cl k1(1) k2(1) d(1) by (simp add: fork_current_def Let_def)
  have l: "sched_ok ?s' (c # t # ts)" "t \<notin> set (c # ts)"
    "s_tasks ?s' = (s_tasks s)(t := ?tk\<lparr>t_next := t_next (s_tasks s c)\<rparr>, c := (s_tasks s c)\<lparr>t_next := t\<rparr>)"
    using link_new_task [OF ok k1 k2, of ?s1 ?tk] d(1) by simp_all
  have len: "length ?ws = 22" by (simp add: reg_words_def)
  have w: "s_words ?s' = store_words ?fr ?ws (s_words s)" by (simp add: link_task_simps)
  have ch: "s_tasks ?s' t = ?tk\<lparr>t_next := t_next (s_tasks s c)\<rparr>" using l(2,3) by simp
  have rsp: "t_rsp (s_tasks ?s' t) = ?fr" by (simp add: ch)
  have "\<forall>i < 22. s_words ?s' (?fr + of_nat (8 * i)) = ?ws ! i"
    unfolding w using store_words_nth [of ?ws] len by auto
  moreover have "\<forall>a. (\<forall>i < 22. a \<noteq> ?fr + of_nat (8 * i)) \<longrightarrow> s_words ?s' a = s_words s a"
    unfolding w using store_words_outside [of ?ws] len by auto
  moreover have "core (s_tasks ?s' u) = core (s_tasks s u) \<and> t_state (s_tasks ?s' u) = t_state (s_tasks s u)"
    if "u \<noteq> t" for u using that l(2,3) by simp
  moreover have "t_rsp (s_tasks ?s' t) + SIZEOF_REGISTERS = t_kstop (s_tasks ?s' t)" by (simp add: ch)
  moreover have "t_state (s_tasks ?s' t) = RUNNABLE \<and> t_parent (s_tasks ?s' t) = c \<and> t_pml4 (s_tasks ?s' t) = space
      \<and> (\<forall>i < MAX_FDS. t_fds (s_tasks ?s' t) i = t_fds (s_tasks s c) i) \<and> t_kbase (s_tasks ?s' t) = k"
    unfolding ch by (simp add: copy_fds_def)
  moreover have "s_vm ?s' = vm \<and> s_next_pid ?s' = s_next_pid s + 1" by (simp add: link_task_simps)
  ultimately show ?thesis unfolding if_not_P [OF False]
    by (intro exI [of _ ?s'], unfold rsp) (use run l(1) in blast)
qed

lemma schedule_total:
  assumes ok: "sched_ok s (c # ts)" and t: "t \<in> set (c # survivors s (c # ts))" and rd: "ready s (c # ts) t"
  shows "\<exists>n ts' s' r. schedule rsp s = Some (r, s') \<and> sched_ok s' (n # ts') \<and> ready s (c # ts) n
    \<and> set (n # ts') = set (c # survivors s (c # ts))
    \<and> heap_regions (s_heap s') = {(p, k) \<in> heap_regions (s_heap s). p \<notin> set (all_addrs s (casualties s (c # ts)))}
    \<and> (\<forall>u \<in> set (n # ts'). core (s_tasks s' u) = core (saved s rsp u)
         \<and> t_state (s_tasks s' u) = refreshed s (c # ts) u)"
proof -
  have "t \<in> set (candidates s (c # ts))" using t rd by (simp only: set_filter set_append) auto
  then obtain n ns where n: "candidates s (c # ts) = n # ns" by (cases "candidates s (c # ts)") (simp_all only: list.set empty_iff)
  from schedule_step [OF ok n, of rsp] obtain xs ys s' where s': "c # survivors s (c # ts) = xs @ n # ys"
    "schedule rsp s = Some (t_rsp (saved s rsp n), s')" "sched_ok s' (n # ys @ xs)"
    "heap_regions (s_heap s') = {(p, k) \<in> heap_regions (s_heap s). p \<notin> set (all_addrs s (casualties s (c # ts)))}"
    "\<forall>u \<in> set (c # survivors s (c # ts)). core (s_tasks s' u) = core (saved s rsp u)
         \<and> t_state (s_tasks s' u) = refreshed s (c # ts) u" by blast
  have "set (n # ys @ xs) = set (c # survivors s (c # ts))" unfolding s'(1) by auto
  then show ?thesis using s' candidate_in [OF n] by (metis (no_types, lifting))
qed

text \<open>
  C8. A task that exits is reclaimed, and its waiting parent resumes. If the running task has a parent
  blocked in \<^verbatim>\<open>wait\<close> and some other task can run, then exiting switches away from it, and the next
  call of \<^verbatim>\<open>schedule\<close> takes it out of the ring, makes the parent runnable and gives the blocks of the
  task, its struct and its kernel stack, back to the heap.
\<close>

theorem exit_is_reclaimed_and_wakes_parent:
  assumes ok: "sched_ok s (c # ts)" and p: "p \<in> set ts" "t_parent (s_tasks s c) = p" "t_state (s_tasks s p) = WAITING"
    and i: "i \<in> set ts" "t_state (s_tasks s i) = RUNNABLE"
  shows "\<exists>r s1 ts1. handle_event (Exit rsp) s = Some (r, s1) \<and> sched_ok s1 ts1 \<and> s_current s1 \<noteq> c
    \<and> (\<forall>rsp'. \<exists>r' s2 ts2. schedule rsp' s1 = Some (r', s2) \<and> sched_ok s2 ts2 \<and> c \<notin> set ts2
      \<and> p \<in> set ts2 \<and> t_state (s_tasks s2 p) = RUNNABLE
      \<and> (\<forall>a \<in> set (task_addrs s c). a \<notin> fst ` heap_regions (s_heap s2)))"
proof -
  note d = sched_okD [OF ok]
  let ?s = "sched_kill_current s"
  have tk: "s_tasks ?s = (s_tasks s)(c := (s_tasks s c)\<lparr>t_state := DEAD\<rparr>)"
    and rest: "s_current ?s = c" "s_heap ?s = s_heap s"
    using d(1,2) by (simp_all add: sched_kill_current_def)
  have ok1: "sched_ok ?s (c # ts)" by (rule sched_ok_cong [OF ok]) (use rest d(1) tk in auto)
  have ne: "i \<noteq> c" "p \<noteq> c" using i p d(3) by auto
  have i1: "i \<in> set (c # survivors ?s (c # ts))" "ready ?s (c # ts) i"
    using i ne by (auto simp: survivors_def ready_def tk)
  from schedule_total [OF ok1 i1, of rsp] obtain n ts1 s1 r where
    s1: "schedule rsp ?s = Some (r, s1)" "sched_ok s1 (n # ts1)" "ready ?s (c # ts) n"
      "set (n # ts1) = set (c # survivors ?s (c # ts))"
      "\<forall>u \<in> set (n # ts1). core (s_tasks s1 u) = core (saved ?s rsp u)
         \<and> t_state (s_tasks s1 u) = refreshed ?s (c # ts) u" by blast
  have nc: "n \<noteq> c" using s1(3) by (auto simp: ready_def tk)
  have c1: "c \<in> set ts1" using s1(4) nc by auto
  have p1: "p \<in> set (n # ts1)" unfolding s1(4) using p ne by (auto simp: survivors_def tk)
  have dead: "is_dead s1 c" using s1(5) c1 by (auto simp: refreshed_def ready_def tk)
  have cc: "core (s_tasks s1 c) = core (saved ?s rsp c)" using s1(5) c1 by auto
  have par: "t_parent (s_tasks s1 c) = p" "t_kbase (s_tasks s1 c) = t_kbase (s_tasks s c)"
    using core_eqD(2,3) [OF cc] p(2) by (simp_all add: tk)
  have pst: "t_state (s_tasks s1 p) = RUNNABLE \<or> t_state (s_tasks s1 p) = WAITING"
  proof -
    have "t_state (s_tasks s1 p) = refreshed ?s (c # ts) p" using s1(5) p1 by blast
    then show ?thesis unfolding refreshed_def tk using p(3) ne by simp
  qed
  then have rp: "ready s1 (n # ts1) p" using c1 dead par(1) by (auto simp: ready_def)
  have p2: "p \<in> set (n # survivors s1 (n # ts1))" using p1 pst by (auto simp: survivors_def)
  have "\<exists>r' s2 ts2. schedule rsp' s1 = Some (r', s2) \<and> sched_ok s2 ts2 \<and> c \<notin> set ts2
      \<and> p \<in> set ts2 \<and> t_state (s_tasks s2 p) = RUNNABLE
      \<and> (\<forall>a \<in> set (task_addrs s c). a \<notin> fst ` heap_regions (s_heap s2))" for rsp'
  proof -
    from schedule_total [OF s1(2) p2 rp, of rsp'] obtain m ts2 s2 r' where
      s2: "schedule rsp' s1 = Some (r', s2)" "sched_ok s2 (m # ts2)"
        "set (m # ts2) = set (n # survivors s1 (n # ts1))"
        "heap_regions (s_heap s2) = {(q, k) \<in> heap_regions (s_heap s1). q \<notin> set (all_addrs s1 (casualties s1 (n # ts1)))}"
        "\<forall>u \<in> set (m # ts2). core (s_tasks s2 u) = core (saved s1 rsp' u)
           \<and> t_state (s_tasks s2 u) = refreshed s1 (n # ts1) u" by blast
    have "c \<notin> set (m # ts2)" unfolding s2(3) using dead nc by (auto simp: survivors_def)
    moreover have "t_state (s_tasks s2 p) = RUNNABLE"
      using s2(3,5) p2 rp by (auto simp: refreshed_def)
    moreover have "set (task_addrs s c) \<subseteq> set (all_addrs s1 (casualties s1 (n # ts1)))"
      using c1 dead par(2) by (auto simp: all_addrs_def casualties_def task_addrs_def)
    ultimately show ?thesis using s2(1,2,3,4) p2 by (intro exI [of _ r'] exI [of _ s2] exI [of _ "m # ts2"]) auto
  qed
  moreover have "s_current s1 = n" using sched_okD(1) [OF s1(2)] .
  ultimately show ?thesis using s1(1,2) nc by (intro exI [of _ r] exI [of _ s1] exI [of _ "n # ts1"]) auto
qed

lemma sched_init_ok:
  assumes "heap_valid (s_heap s)" and k: "kmalloc SIZEOF_TASK (s_heap s) = Some (b, h)" "b \<noteq> 0"
  shows "\<exists>s'. sched_init s = Some s' \<and> sched_ok s' [b] \<and> s_heap s' = h \<and> t_state (s_tasks s' b) = RUNNABLE
    \<and> s_vm s' = s_vm s"
proof -
  from assms(1) size_ok(1,2) k(1) obtain p j where p: "b = of_nat p" "heap_valid h"
    "heap_regions h = insert (p, j) (heap_regions (s_heap s))"
    by (cases rule: kheap.malloc_cases) (use k(2) in auto)
  have "unat b = p" using kheap.regions_inside [OF p(2), of p j] kheap.hi_bound p by (simp add: unat_of_nat_u64)
  then have "task_mem s' [b]" if "s_heap s' = h" "t_kbase (s_tasks s' b) = 0" for s'
    using p that by (simp add: task_mem_def task_addrs_def)
  then show ?thesis using k by (simp add: sched_init_def sched_ok_def ring_def)
qed

lemma task_create_ok:
  assumes ok: "sched_ok s (c # ts)" and k1: "kmalloc SIZEOF_TASK (s_heap s) = Some (t, h1)" "t \<noteq> 0"
    and k2: "kmalloc STACK_SIZE h1 = Some (k, h2)" "k \<noteq> 0"
  shows "\<exists>s'. task_create entry s = Some (t, s') \<and> sched_ok s' (c # t # ts) \<and> s_heap s' = h2
    \<and> t_state (s_tasks s' t) = RUNNABLE \<and> t_pml4 (s_tasks s' t) = vmm_kernel_space (s_vm s) \<and> s_vm s' = s_vm s
    \<and> (\<forall>u. u \<noteq> t \<longrightarrow> core (s_tasks s' u) = core (s_tasks s u) \<and> t_state (s_tasks s' u) = t_state (s_tasks s u))"
proof -
  note d = sched_okD [OF ok]
  let ?ws = "[0x10, kstack_top k - 8, 0x202, 0x08, entry, 0, 0] @ replicate 15 0"
  obtain sp m where sp: "push_words ?ws (kstack_top k) (s_words s) = (sp, m)" by fastforce
  define tk where "tk = (s_tasks s t)\<lparr>t_rsp := sp, t_state := RUNNABLE, t_wake := 0, t_kstop := kstack_top k,
      t_kbase := k, t_pml4 := vmm_kernel_space (s_vm s), t_parent := 0\<rparr>"
  define s1 where "s1 = s\<lparr>s_heap := h2, s_words := m, s_tasks := (s_tasks s)(t := tk)\<rparr>"
  have run: "task_create entry s = Some (t, link_task t s1)"
    using k1(1) k2(1) sp unfolding s1_def tk_def by (simp add: task_create_def Let_def del: push_words.simps)
  have "sched_ok (link_task t s1) (c # t # ts)" "t \<notin> set (c # ts)"
    "s_tasks (link_task t s1) = (s_tasks s)(t := tk\<lparr>t_next := t_next (s_tasks s c)\<rparr>, c := (s_tasks s c)\<lparr>t_next := t\<rparr>)"
    using link_new_task [OF ok k1 k2, of s1 tk] d(1) by (simp_all add: s1_def tk_def)
  then show ?thesis
    unfolding run by (intro exI [of _ "link_task t s1"]) (simp add: link_task_simps s1_def tk_def)
qed

section \<open>A machine with three tasks\<close>

definition no_task :: task where
  "no_task = \<lparr>t_rsp = 0, t_next = 0, t_parent = 0,
     t_fds = (\<lambda>_. \<lparr>fd_used = False, fd_inode = 0, fd_offset = 0, fd_type = 0\<rparr>),
     t_state = DEAD, t_wake = 0, t_kstop = 0, t_kbase = 0, t_pml4 = 0\<rparr>"

definition idle_machine :: sched where
  "idle_machine = \<lparr>s_tasks = (\<lambda>_. no_task), s_current = 0, s_ticks = 0, s_next_pid = 1, s_words = (\<lambda>_. 0),
     s_heap = fresh_heap, s_vm = demo_vm, s_rsp0 = 0\<rparr>"

lemma new_task_blocks:
  assumes "heap_ok h bs" and "amalloc 320 HEAP_BASE bs = Some (p, bs1)" and "amalloc 16384 HEAP_BASE bs1 = Some (q, bs2)"
  shows "\<exists>h1 h2. kmalloc SIZEOF_TASK h = Some (of_nat p, h1) \<and> kmalloc STACK_SIZE h1 = Some (of_nat q, h2) \<and> heap_ok h2 bs2"
proof -
  from kmalloc_refines [OF assms(1), of 320] assms(2) obtain h1 where
    h1: "kmalloc 320 h = Some (of_nat p, h1)" "heap_ok h1 bs1" by (auto simp: round8_def)
  from kmalloc_refines [OF h1(2), of 16384] assms(3) h1(1) show ?thesis
    by (auto simp: round8_def SIZEOF_TASK_def STACK_SIZE_def)
qed

abbreviation demo_ring :: "u64 list" where
  "demo_ring \<equiv> [0x100000018, 0x1000042E0, 0x100000170]"

abbreviation demo_blocks :: blocks where
  "demo_blocks \<equiv> [(320, False), (320, False), (16384, False), (320, False), (16384, False), (HEAP_SIZE - 33872, True)]"

lemma three_tasks:
  "\<exists>s. sched_ok s demo_ring \<and> (\<forall>t \<in> set demo_ring. t_state (s_tasks s t) = RUNNABLE)
     \<and> s_vm s = demo_vm \<and> heap_ok (s_heap s) demo_blocks"
proof -
  from kmalloc_refines [OF fresh_heap_ok, of 320] obtain h0 where
    h0: "kmalloc SIZEOF_TASK fresh_heap = Some (0x100000018, h0)" "heap_ok h0 [(320, False), (HEAP_SIZE - 368, True)]"
    by (auto simp: round8_def SIZEOF_TASK_def)
  obtain s0 where s0: "sched_ok s0 [0x100000018]" "s_heap s0 = h0" "t_state (s_tasks s0 0x100000018) = RUNNABLE" "s_vm s0 = demo_vm"
    using sched_init_ok [of idle_machine "0x100000018" h0] h0(1) fresh_heap_valid by (auto simp: idle_machine_def)
  obtain h1 h2 where h2: "kmalloc SIZEOF_TASK h0 = Some (0x100000170, h1)" "kmalloc STACK_SIZE h1 = Some (0x1000002C8, h2)"
    "heap_ok h2 [(320, False), (320, False), (16384, False), (HEAP_SIZE - 17120, True)]"
    using new_task_blocks [OF h0(2), of "0x100000170" "[(320, False), (320, False), (HEAP_SIZE - 712, True)]" "0x1000002C8"]
    by simp blast
  from task_create_ok [OF s0(1), unfolded s0(2), OF h2(1) _ h2(2)] obtain s1 where
    s1: "sched_ok s1 [0x100000018, 0x100000170]" "s_heap s1 = h2" "t_state (s_tasks s1 0x100000170) = RUNNABLE"
      "t_state (s_tasks s1 0x100000018) = RUNNABLE" "s_vm s1 = demo_vm"
    using s0(3,4) by fastforce
  obtain h3 h4 where h4: "kmalloc SIZEOF_TASK h2 = Some (0x1000042E0, h3)" "kmalloc STACK_SIZE h3 = Some (0x100004438, h4)"
    "heap_ok h4 demo_blocks"
    using new_task_blocks [OF h2(3), of "0x1000042E0"
      "[(320, False), (320, False), (16384, False), (320, False), (HEAP_SIZE - 17464, True)]" "0x100004438"]
    by simp blast
  from task_create_ok [OF s1(1), unfolded s1(2), OF h4(1) _ h4(2)] show ?thesis
    using s1(3-5) h4(3) by fastforce
qed

lemma every_runnable_task_runs_witness:
  "\<exists>s k s'. sched_ok s demo_ring \<and> k \<le> 3 \<and> run_events (take k [Timer 0, Wait 8, Sleep 5 16]) s = Some s'
     \<and> s_current s' = 0x100000170"
proof -
  obtain s where s: "sched_ok s demo_ring" "\<forall>t \<in> set demo_ring. t_state (s_tasks s t) = RUNNABLE"
    using three_tasks by blast
  have "ahead 0x100000170 demo_ring \<le> length (filter (\<lambda>e. \<not> is_wait e) [Timer 0, Wait 8, Sleep 5 16])"
    by (simp add: is_wait_def)
  moreover have "0x100000170 \<in> set demo_ring" "t_state (s_tasks s 0x100000170) = RUNNABLE" using s(2) by simp_all
  moreover have "length [Timer 0, Wait 8, Sleep 5 16] = 3" by simp
  ultimately obtain k s' where "k \<le> 3"
    "run_events (take k [Timer 0, Wait 8, Sleep 5 16]) s = Some s'" "s_current s' = 0x100000170"
    using every_runnable_task_runs [OF s(1)] by metis
  then show ?thesis using s(1) by blast
qed

lemma schedule_picks_next_ready_witness:
  "\<exists>s s'. sched_ok s demo_ring \<and> schedule 8 s = Some (t_rsp (s_tasks s 0x1000042E0), s')
     \<and> sched_ok s' [0x1000042E0, 0x100000170, 0x100000018]"
proof -
  obtain s where s: "sched_ok s demo_ring" "\<forall>t \<in> set demo_ring. t_state (s_tasks s t) = RUNNABLE"
    using three_tasks by blast
  have sv: "survivors s demo_ring = [0x1000042E0, 0x100000170]" using s(2) by (simp add: survivors_def)
  have cand: "filter (ready s demo_ring) ([0x1000042E0, 0x100000170] @ [0x100000018])
      = [0x1000042E0, 0x100000170, 0x100000018]"
    using s(2) by (simp add: ready_def)
  from schedule_picks_next_ready [OF s(1), of 8, unfolded sv list.sel cand] obtain xs ys s' where
    s': "demo_ring = xs @ 0x1000042E0 # ys" "schedule 8 s = Some (t_rsp (saved s 8 0x1000042E0), s')"
      "sched_ok s' (0x1000042E0 # ys @ xs)"
    by (simp only: list.case list.sel) blast
  have xy: "xs = [0x100000018]" "ys = [0x100000170]"
    using s'(1) by (auto simp: Cons_eq_append_conv)
  have "t_rsp (saved s 8 0x1000042E0) = t_rsp (s_tasks s 0x1000042E0)"
    using sched_okD(1) [OF s(1)] by (simp add: saved_def)
  moreover have "sched_ok s' [0x1000042E0, 0x100000170, 0x100000018]"
    using s'(3) unfolding xy by (simp only: append_Cons append_Nil)
  ultimately show ?thesis using s(1) s'(2) by metis
qed

lemma demo_clone:
  "\<exists>dst vm. vmm_clone_address_space demo_root demo_vm = (dst, vm) \<and> dst \<noteq> 0"
proof -
  note b = demo_vm_ok(1)
  have c: "clonable demo_vm demo_root" by (rule built_clonable [OF b]) (use demo_vm_ok(3,4) in simp)
  obtain dst vm where run: "vmm_clone_address_space demo_root demo_vm = (dst, vm)" by fastforce
  from clone_cloned [OF built_kernel_ok [OF b demo_kernel_ok(1)] c run] have "built demo_vm vm dst"
    by (simp add: cloned_def)
  then show ?thesis using run builtD(6) by blast
qed

lemma fork_creates_child_witness:
  "\<exists>s s' t space. sched_ok s demo_ring \<and> space \<noteq> 0 \<and> fork_current zero_regs s = Some (ucast (s_next_pid s), s')
     \<and> sched_ok s' (0x100000018 # t # tl demo_ring) \<and> t_pml4 (s_tasks s' t) = space"
proof -
  obtain s where s: "sched_ok s demo_ring" "s_vm s = demo_vm" "heap_ok (s_heap s) demo_blocks"
    using three_tasks by blast
  obtain dst vm where cl: "vmm_clone_address_space demo_root demo_vm = (dst, vm)" "dst \<noteq> 0" using demo_clone by blast
  define q where "q = s\<lparr>s_tasks := (s_tasks s)(0x100000018 := (s_tasks s 0x100000018)\<lparr>t_pml4 := demo_root\<rparr>)\<rparr>"
  have ok: "sched_ok q demo_ring" by (rule sched_ok_cong [OF s(1)]) (auto simp: q_def)
  have vm: "vmm_clone_address_space (t_pml4 (s_tasks q 0x100000018)) (s_vm q) = (dst, vm)"
    using cl s(2) by (simp add: q_def)
  obtain h1 h2 where h: "kmalloc SIZEOF_TASK (s_heap q) = Some (0x100008450, h1)"
    "kmalloc STACK_SIZE h1 = Some (0x1000085A8, h2)"
    using new_task_blocks [OF s(3), of "0x100008450" "[(320, False), (320, False), (16384, False), (320, False),
        (16384, False), (320, False), (HEAP_SIZE - 34216, True)]" "0x1000085A8"]
    by (simp add: q_def) blast
  from fork_creates_child [OF ok vm h(1) _ h(2), of zero_regs] cl(2) ok show ?thesis by fastforce
qed

lemma exit_is_reclaimed_and_wakes_parent_witness:
  "\<exists>s r s1 r' s2 ts2. sched_ok s demo_ring \<and> t_state (s_tasks s 0x1000042E0) = WAITING
     \<and> handle_event (Exit 0) s = Some (r, s1) \<and> schedule 8 s1 = Some (r', s2) \<and> sched_ok s2 ts2
     \<and> 0x100000018 \<notin> set ts2 \<and> t_state (s_tasks s2 0x1000042E0) = RUNNABLE"
proof -
  obtain s where s: "sched_ok s demo_ring" "\<forall>t \<in> set demo_ring. t_state (s_tasks s t) = RUNNABLE"
    using three_tasks by blast
  define q where "q = s\<lparr>s_tasks := (s_tasks s)(0x100000018 := (s_tasks s 0x100000018)\<lparr>t_parent := 0x1000042E0\<rparr>,
      0x1000042E0 := (s_tasks s 0x1000042E0)\<lparr>t_state := WAITING\<rparr>)\<rparr>"
  have ok: "sched_ok q demo_ring" by (rule sched_ok_cong [OF s(1)]) (auto simp: q_def)
  from exit_is_reclaimed_and_wakes_parent [OF ok, of "0x1000042E0" "0x100000170" 0] s(2)
  obtain r s1 where s1: "handle_event (Exit 0) q = Some (r, s1)"
    "\<forall>rsp'. \<exists>r' s2 ts2. schedule rsp' s1 = Some (r', s2) \<and> sched_ok s2 ts2 \<and> 0x100000018 \<notin> set ts2
      \<and> 0x1000042E0 \<in> set ts2 \<and> t_state (s_tasks s2 0x1000042E0) = RUNNABLE
      \<and> (\<forall>a \<in> set (task_addrs q 0x100000018). a \<notin> fst ` heap_regions (s_heap s2))"
    by (auto simp: q_def)
  moreover have "t_state (s_tasks q 0x1000042E0) = WAITING" by (simp add: q_def)
  ultimately show ?thesis using ok by blast
qed

end
