(* ===== verification/Exec.thy ===== *)
theory Exec
  imports Elf Sched_Props
begin

text \<open>
  Programs and how a task becomes one: the ramdisk (kernel/ramdisk.cpp), \<^verbatim>\<open>exec_current\<close>
  (kernel/sched.cpp) and \<^verbatim>\<open>spawn\<close> (kernel/kernel.cpp). The addresses of the embedded images are
  symbols of the linker and hence arguments. User memory is read and written through the tables that
  CR3 points to; an access to an address that is not mapped is a page fault, on which the kernel
  halts, so that the result is \<open>None\<close> as it is for a loop that does not end.
\<close>

section \<open>The ramdisk\<close>

record ramdisk_entry =
  re_name :: cstr
  re_start :: u64
  re_end :: u64

type_synonym images = "(u64 \<times> u64) \<times> (u64 \<times> u64) \<times> (u64 \<times> u64)"

definition ramdisk_entries :: "images \<Rightarrow> ramdisk_entry list" where
  "ramdisk_entries im = (case im of ((s1, e1), (s2, e2), (s3, e3)) \<Rightarrow>
     [\<lparr>re_name = str ''one'', re_start = s1, re_end = e1\<rparr>,
      \<lparr>re_name = str ''two'', re_start = s2, re_end = e2\<rparr>,
      \<lparr>re_name = str ''huginn'', re_start = s3, re_end = e3\<rparr>])"

function rd_streq_from :: "cstr \<Rightarrow> cstr \<Rightarrow> nat \<Rightarrow> bool" where
  "rd_streq_from a b i =
     (if char_at a i \<noteq> 0 \<and> char_at b i \<noteq> 0
      then (if char_at a i \<noteq> char_at b i then False else rd_streq_from a b (i + 1))
      else char_at a i = char_at b i)"
  by pat_completeness auto
termination
  by (relation "measure (\<lambda>(a, b, i). length a - i)") (auto simp: char_at_def split: if_splits)

declare rd_streq_from.simps [simp del]

definition rd_streq :: "cstr \<Rightarrow> cstr \<Rightarrow> bool" where
  "rd_streq a b = rd_streq_from a b 0"

definition ramdisk_find :: "images \<Rightarrow> cstr \<Rightarrow> ramdisk_entry option" where
  "ramdisk_find im name = find (\<lambda>e. rd_streq (re_name e) name) (ramdisk_entries im)"

definition ramdisk_lookup :: "images \<Rightarrow> cstr \<Rightarrow> u64" where
  "ramdisk_lookup im name = (case ramdisk_find im name of None \<Rightarrow> 0 | Some e \<Rightarrow> re_start e)"

definition ramdisk_size :: "images \<Rightarrow> cstr \<Rightarrow> u64" where
  "ramdisk_size im name = (case ramdisk_find im name of None \<Rightarrow> 0 | Some e \<Rightarrow> re_end e - re_start e)"

definition ramdisk_count :: "images \<Rightarrow> u32" where
  "ramdisk_count im = of_nat (length (ramdisk_entries im))"

definition ramdisk_get :: "images \<Rightarrow> u32 \<Rightarrow> ramdisk_entry option" where
  "ramdisk_get im i = (if i < ramdisk_count im then Some (ramdisk_entries im ! unat i) else None)"

section \<open>User memory\<close>

definition load8 :: "vmm \<Rightarrow> u64 \<Rightarrow> u8 option" where
  "load8 s va = map_option (vm_mem s) (translate (vm_mem s) (vm_cr3 s) va)"

definition load64 :: "vmm \<Rightarrow> u64 \<Rightarrow> u64 option" where
  "load64 s va = (if list_all (\<lambda>i. load8 s (va + of_nat i) \<noteq> None) [0..<8]
     then Some (ld64 (\<lambda>i. the (load8 s (va + of_nat i)))) else None)"

definition store8 :: "u64 \<Rightarrow> u8 \<Rightarrow> vmm \<Rightarrow> vmm option" where
  "store8 va b s = map_option (\<lambda>a. s\<lparr>vm_mem := (vm_mem s)(a := b)\<rparr>) (translate (vm_mem s) (vm_cr3 s) va)"

fun store_bytes :: "u64 \<Rightarrow> u8 list \<Rightarrow> vmm \<Rightarrow> vmm option" where
  "store_bytes va [] s = Some s"
| "store_bytes va (b # bs) s = Option.bind (store8 va b s) (store_bytes (va + 1) bs)"

definition word_bytes :: "u64 \<Rightarrow> u8 list" where
  "word_bytes w = List.map (\<lambda>i. ucast (drop_bit (8 * i) w)) [0..<8]"

fun store_ptrs :: "u64 \<Rightarrow> u64 list \<Rightarrow> vmm \<Rightarrow> vmm option" where
  "store_ptrs va [] s = Some s"
| "store_ptrs va (w # ws) s = Option.bind (store_bytes va (word_bytes w) s) (store_ptrs (va + 8) ws)"

section \<open>exec\<close>

definition MAX_ARGS :: int where "MAX_ARGS = 16"
definition MAX_ARG_LEN :: nat where "MAX_ARG_LEN = 64"
definition USER_STACK_TOP :: u64 where "USER_STACK_TOP = 0x8000100000"
definition USER_STACK_SIZE :: u64 where "USER_STACK_SIZE = 0x4000"

text \<open>A row of \<^verbatim>\<open>argbuf\<close> is the string it holds. Characters \<open>j\<close> and up of the string at \<open>src\<close>, at most 63 in all.\<close>

function copy_arg :: "vmm \<Rightarrow> u64 \<Rightarrow> nat \<Rightarrow> cstr option" where
  "copy_arg s src j =
     (case load8 s (src + of_nat j) of None \<Rightarrow> None
      | Some c \<Rightarrow> if c \<noteq> 0 \<and> j < MAX_ARG_LEN - 1 then map_option ((#) c) (copy_arg s src (j + 1)) else Some [])"
  by pat_completeness auto
termination
  by (relation "measure (\<lambda>(s, src, j). MAX_ARG_LEN - j)") auto

declare copy_arg.simps [simp del]

type_synonym argbuf = "nat \<Rightarrow> cstr"

fun copy_args :: "vmm \<Rightarrow> u64 \<Rightarrow> nat list \<Rightarrow> argbuf \<Rightarrow> argbuf option" where
  "copy_args s argv [] buf = Some buf"
| "copy_args s argv (i # is) buf =
     Option.bind (load64 s (argv + of_nat (8 * i))) (\<lambda>src.
     Option.bind (copy_arg s src 0) (\<lambda>row. copy_args s argv is (buf(i := row))))"

definition map_stack_page :: "u64 \<Rightarrow> nat \<Rightarrow> vmm \<Rightarrow> vmm" where
  "map_stack_page space k s =
     (let (f, p) = pmm_alloc_frame (vm_pmm s)
      in vmm_map_page_in space (USER_STACK_TOP - USER_STACK_SIZE + of_nat k * 4096) f
           (PAGE_PRESENT OR PAGE_WRITABLE OR PAGE_USER) (s\<lparr>vm_pmm := p\<rparr>))"

definition map_user_stack :: "u64 \<Rightarrow> vmm \<Rightarrow> vmm" where
  "map_user_stack space s = fold (map_stack_page space) [0..<unat (USER_STACK_SIZE div 4096)] s"

text \<open>The strings \<open>n - 1, \<dots>, 0\<close> below \<open>sp\<close>; \<open>uarg\<close> collects their addresses.\<close>

primrec push_args :: "argbuf \<Rightarrow> nat \<Rightarrow> u64 \<Rightarrow> (nat \<Rightarrow> u64) \<Rightarrow> vmm \<Rightarrow> (u64 \<times> (nat \<Rightarrow> u64) \<times> vmm) option" where
  "push_args buf 0 sp uarg s = Some (sp, uarg, s)"
| "push_args buf (Suc i) sp uarg s =
     (let len = str_len (buf i) + 1; sp' = sp - of_nat len
      in Option.bind (store_bytes sp' (List.map (char_at (buf i)) [0..<len]) s)
           (push_args buf i sp' (uarg(i := sp'))))"

text \<open>The clamped argument count.\<close>

definition clamp_argc :: "int \<Rightarrow> nat" where
  "clamp_argc argc = nat (let a = (if argc < 0 then 0 else argc) in if a > MAX_ARGS then MAX_ARGS else a)"

definition exec_frame :: "u64 \<Rightarrow> u64 \<Rightarrow> nat \<Rightarrow> u64 \<Rightarrow> registers" where
  "exec_frame entry sp n uargv = zero_regs\<lparr>reg_rip := entry, reg_cs := 0x1B, reg_rflags := 0x202,
     reg_rsp := sp, reg_ss := 0x23, reg_rdi := of_nat n, reg_rsi := uargv\<rparr>"

text \<open>The static \<^verbatim>\<open>argbuf\<close> is threaded through. The result 0 means failure.\<close>

definition exec_current :: "images \<Rightarrow> u64 \<Rightarrow> int \<Rightarrow> argbuf \<Rightarrow> sched \<Rightarrow> (u64 \<times> argbuf \<times> sched) option" where
  "exec_current im argv argc buf0 s =
     (let n = clamp_argc argc in
      Option.bind (copy_args (s_vm s) argv [0..<n] buf0) (\<lambda>buf.
      let elf = ramdisk_lookup im (buf 0) in
      if elf = 0 then Some (0, buf, s)
      else Option.bind (elf_load elf 0 (s_vm s)) (\<lambda>(space, entry, vm1).
        if space = 0 then Some (0, buf, s\<lparr>s_vm := vm1\<rparr>)
        else let old_space = t_pml4 (cur s); vm2 = vmm_switch space (map_user_stack space vm1)
          in Option.bind (push_args buf n USER_STACK_TOP (\<lambda>_. 0) vm2) (\<lambda>(sp, uarg, vm3).
             let uargv = (sp AND NOT 0xF) - of_nat (n + 1) * 8
             in Option.bind (store_ptrs uargv (List.map uarg [0..<n] @ [0]) vm3) (\<lambda>vm4.
                let frame = t_kstop (cur s) - SIZEOF_REGISTERS;
                    regs = exec_frame entry (uargv AND NOT 0xF) n uargv
                in Some (frame, buf,
                     upd_task (s_current s) (\<lambda>k. k\<lparr>t_pml4 := space, t_rsp := frame\<rparr>)
                       (s\<lparr>s_vm := vmm_destroy_address_space old_space vm4,
                          s_words := store_words frame (reg_words regs) (s_words s)\<rparr>)))))))"

section \<open>The first program\<close>

text \<open>The flag is true if a task was created.\<close>

definition spawn :: "images \<Rightarrow> cstr \<Rightarrow> sched \<Rightarrow> (bool \<times> sched) option" where
  "spawn im name s =
     (let elf = ramdisk_lookup im name in
      if elf = 0 then Some (False, s)
      else Option.bind (elf_load elf 0 (s_vm s)) (\<lambda>(space, entry, vm1).
        if space = 0 then Some (False, s\<lparr>s_vm := vm1\<rparr>)
        else map_option (\<lambda>(_, s'). (True, s'))
               (task_create_user space entry USER_STACK_TOP (s\<lparr>s_vm := map_user_stack space vm1\<rparr>))))"

section \<open>Stores of the process\<close>

lemma tree_ok_frame:
  assumes ok: "tree_ok s root"
    and same: "\<And>q t x. vpath q \<Longrightarrow> tbl (vm_mem s) root q = Some t \<Longrightarrow> page_of x = page_of t \<Longrightarrow> m' x = vm_mem s x"
  shows "tree_ok (s\<lparr>vm_mem := m'\<rparr>) root"
proof -
  have t: "tbl m' root q = tbl (vm_mem s) root q" if "vpath q" for q
    by (rule tree_frame(1) [OF ok], erule (2) same, rule that)
  have e: "ent m' t i = ent (vm_mem s) t i" if "vpath q" "tbl (vm_mem s) root q = Some t" "i < 512" for q t i
    by (rule tree_frame(2) [OF ok], erule (2) same, rule that(1), rule that(2), rule that(3))
  show ?thesis
    using ok unfolding tree_ok_def
    by (simp add: t vpath_snoc cong: conj_cong imp_cong) (use e in metis)
qed

lemma built_store:
  assumes b: "built s0 s root" and e: "user_leaf (vm_mem s) root q i e" and a: "page_of a = page_of e"
  shows "built s0 (s\<lparr>vm_mem := (vm_mem s)(a := c)\<rparr>) root"
    and "vpath p \<Longrightarrow> j < 512 \<Longrightarrow> leaf ((vm_mem s)(a := c)) root p j = leaf (vm_mem s) root p j"
proof -
  note B = builtD [OF b]
  let ?m = "(vm_mem s)(a := c)"
  have same: "?m x = vm_mem s x" if "vpath q" "tbl (vm_mem s) root q = Some t" "page_of x = page_of t" for q t x
    using B(11) [OF e that(1,2)] a that(3) by auto
  have t: "tbl ?m root q = tbl (vm_mem s) root q" if "vpath q" for q
    by (rule tree_frame(1) [OF B(1)], erule (2) same, rule that)
  have en: "ent ?m t i = ent (vm_mem s) t i" if "vpath q" "tbl (vm_mem s) root q = Some t" "i < 512" for q t i
    by (rule tree_frame(2) [OF B(1)], erule (2) same, rule that(1), rule that(2), rule that(3))
  have l: "leaf ?m root p j = leaf (vm_mem s) root p j" if "vpath p" "j < 512" for p j
    by (rule tree_frame(3) [OF B(1)], erule (2) same, rule that(1), rule that(2))
  then show "vpath p \<Longrightarrow> j < 512 \<Longrightarrow> leaf ?m root p j = leaf (vm_mem s) root p j" .
  have ul: "user_leaf ?m root q i e \<longleftrightarrow> user_leaf (vm_mem s) root q i e" for q i e
    using l upath_vpath [of q] by (auto simp: user_leaf_def)
  have ut: "upath q \<and> tbl ?m root q = Some x \<longleftrightarrow> upath q \<and> tbl (vm_mem s) root q = Some x" for q x
    using t upath_vpath by metis
  have own: "owned ?m root = owned (vm_mem s) root" unfolding owned_def ul ut ..
  have "page_of e \<in> owned (vm_mem s) root" using e unfolding owned_def by blast
  then have af: "page_of a \<in> free_set (vm_pmm s0)" using B(9) a by (metis DiffD1)
  have ok: "tree_ok (s\<lparr>vm_mem := ?m\<rparr>) root" by (rule tree_ok_frame [OF B(1)]) (erule (2) same)
  have uc: "user_clear ?m root"
    unfolding user_clear_def
  proof (intro allI impI)
    fix q i t assume u: "upath (q @ [i])" and q: "tbl ?m root q = Some t" "present (ent ?m t i)"
    have v: "vpath q" "i < 512" using upath_vpath [OF u] by (simp_all add: vpath_snoc)
    have "tbl (vm_mem s) root q = Some t" using q(1) t [OF v(1)] by simp
    moreover from this have "ent ?m t i = ent (vm_mem s) t i" using en v by blast
    ultimately show "\<not> huge (ent ?m t i)" using B(3) u q(2) unfolding user_clear_def by metis
  qed
  have tt: "vpath p \<Longrightarrow> tbl ?m root p = Some t' \<Longrightarrow> tbl (vm_mem s) root p = Some t'" for p t' using t by simp
  show "built s0 (s\<lparr>vm_mem := ?m\<rparr>) root"
    unfolding built_def using ok uc B(2,4-9) af own B(10-12) ul tt by simp
qed

lemma holds_store:
  assumes h: "holds s0 s root W" and v: "user_addr v" and w: "W v \<noteq> None"
  shows "\<exists>a. translate (vm_mem s) root v = Some a \<and> holds s0 (s\<lparr>vm_mem := (vm_mem s)(a := c)\<rparr>) root (W(v := Some c))"
proof -
  have b: "built s0 s root" and vw: "\<And>x. user_addr x \<Longrightarrow> user_view s root x = W x" using h by (simp_all add: holds_def)
  let ?lf = "\<lambda>x. leaf (vm_mem s) root (page_path x) (pt_index x)"
  obtain e where e: "?lf v = Some e" using vw [OF v] w view_leaf [OF b v] by (auto split: option.splits)
  let ?a = "target e + of_nat (unat v mod 4096)"
  have tr: "translate (vm_mem s) root v = Some ?a"
    using user_translate [OF builtD(3) [OF b] user_addr_index [OF v]] e by simp
  have pa: "page_of (target e + of_nat (unat x mod 4096)) = page_of e" for x :: u64 and e
    using unat_in_page(2) [OF page_aligned_target, of "unat x mod 4096" e] by (simp add: page_of_target)
  have ue: "user_leaf (vm_mem s) root (page_path v) (pt_index v) e" using e user_leaf_leaf [OF v] by blast
  note bs = built_store [OF b ue pa [of e v], where c = c]
  let ?s = "s\<lparr>vm_mem := (vm_mem s)(?a := c)\<rparr>"
  have lf: "leaf (vm_mem ?s) root (page_path x) (pt_index x) = ?lf x" for x
    using bs(2) [OF vpath_page index_lt(4), of x x] by simp
  have "user_view ?s root x = (W(v := Some c)) x" if x: "user_addr x" for x
  proof (cases "?lf x")
    case None
    then have "W x = None" using vw [OF x] view_leaf [OF b x] by simp
    moreover from this have "x \<noteq> v" using w by auto
    ultimately show ?thesis using lf None by (simp add: view_leaf [OF bs(1) x])
  next
    case (Some f)
    have "target f + of_nat (unat x mod 4096) = ?a \<longleftrightarrow> x = v"
    proof
      assume eq: "target f + of_nat (unat x mod 4096) = ?a"
      then have "page_of f = page_of e" using pa by metis
      then have path: "page_path x = page_path v" "pt_index x = pt_index v"
        using builtD(12) [OF b _ ue] Some user_leaf_leaf [OF x] by blast+
      then have "f = e" using Some e by simp
      then have "(of_nat (unat x mod 4096) :: u64) = of_nat (unat v mod 4096)" using eq by simp
      then have "unat x mod 4096 = unat v mod 4096" by (simp add: word_of_nat_eq_iff take_bit_nat_eq_self)
      moreover have "page_of x = page_of v" using path user_same_page [OF x v] by (simp add: same_page_def)
      ultimately have "unat x = unat v" unfolding page_of_nat by (metis div_mult_mod_eq)
      then show "x = v" by (simp add: unat_eq_iff)
    qed (use Some e in auto)
    then show ?thesis using vw [OF x] Some lf by (simp add: view_leaf [OF bs(1) x] view_leaf [OF b x])
  qed
  then show ?thesis using tr bs(1) by (auto simp: holds_def)
qed

text \<open>The space is the active one.\<close>

definition running :: "vmm \<Rightarrow> vmm \<Rightarrow> u64 \<Rightarrow> (u64 \<Rightarrow> u8 option) \<Rightarrow> bool" where
  "running s0 s root W \<longleftrightarrow> holds s0 s root W \<and> vm_cr3 s = root"

lemma running_load8: "running s0 s root W \<Longrightarrow> user_addr x \<Longrightarrow> load8 s x = W x"
  by (simp add: running_def holds_def load8_def user_view_def)

definition wput :: "u64 \<Rightarrow> u8 list \<Rightarrow> (u64 \<Rightarrow> u8 option) \<Rightarrow> u64 \<Rightarrow> u8 option" where
  "wput v bs W = (\<lambda>x. if unat (x - v) < length bs then Some (bs ! unat (x - v)) else W x)"

lemma wput_Cons: "length bs < 2 ^ 63 \<Longrightarrow> wput v (b # bs) W = wput (v + 1) bs (W(v := Some b))"
proof
  fix x assume l: "length bs < 2 ^ 63"
  show "wput v (b # bs) W x = wput (v + 1) bs (W(v := Some b)) x"
  proof (cases "x = v")
    case True
    have "unat (v - (v + 1)) = unat (- 1 :: u64)" by simp
    also have "\<dots> = 2 ^ 64 - 1" by (simp add: unsigned_minus_1_eq_mask mask_eq_exp_minus_1)
    finally have "unat (v - (v + 1)) = 2 ^ 64 - 1" .
    then show ?thesis using True l by (simp add: wput_def)
  next
    case False
    then have "x - v \<noteq> 0" by simp
    moreover have "x - (v + 1) = (x - v) - 1" by simp
    ultimately have u: "unat (x - v) = Suc (unat (x - (v + 1)))"
      by (metis Suc_pred' unat_gt_0 unat_minus_one)
    show ?thesis unfolding wput_def u using False by simp
  qed
qed

lemma store_bytes_running:
  assumes "running s0 s root W" and "length bs < 2 ^ 63"
    and "\<And>k. k < length bs \<Longrightarrow> user_addr (v + of_nat k) \<and> W (v + of_nat k) \<noteq> None"
  shows "\<exists>s'. store_bytes v bs s = Some s' \<and> running s0 s' root (wput v bs W)"
  using assms
proof (induction bs arbitrary: v s W)
  case Nil
  then show ?case by (simp add: wput_def)
next
  case (Cons b bs)
  have r: "holds s0 s root W" "vm_cr3 s = root" using Cons.prems(1) by (simp_all add: running_def)
  have v: "user_addr v" "W v \<noteq> None" using Cons.prems(3) [of 0] by simp_all
  obtain a where a: "translate (vm_mem s) root v = Some a" "holds s0 (s\<lparr>vm_mem := (vm_mem s)(a := b)\<rparr>) root (W(v := Some b))"
    using holds_store [OF r(1) v] by blast
  let ?s = "s\<lparr>vm_mem := (vm_mem s)(a := b)\<rparr>"
  have st: "store8 v b s = Some ?s" using a(1) r(2) by (simp add: store8_def)
  have "\<exists>s'. store_bytes (v + 1) bs ?s = Some s' \<and> running s0 s' root (wput (v + 1) bs (W(v := Some b)))"
  proof (rule Cons.IH)
    show "running s0 ?s root (W(v := Some b))" using a(2) r(2) by (simp add: running_def)
    show "length bs < 2 ^ 63" using Cons.prems(2) by simp
    show "user_addr (v + 1 + of_nat k) \<and> (W(v := Some b)) (v + 1 + of_nat k) \<noteq> None" if "k < length bs" for k
      using Cons.prems(3) [of "Suc k"] that by (simp add: add.assoc)
  qed
  then show ?case using st wput_Cons [of bs v b W] Cons.prems(2) by simp
qed

lemma store_ptrs_bytes: "store_ptrs va ws s = store_bytes va (concat (List.map word_bytes ws)) s"
proof -
  have app: "store_bytes va (xs @ ys) s = Option.bind (store_bytes va xs s) (store_bytes (va + of_nat (length xs)) ys)" for xs ys va s
    by (induction xs arbitrary: va s) (auto simp: add.assoc split: Option.bind_split)
  have len: "length (word_bytes w) = 8" for w by (simp add: word_bytes_def)
  show ?thesis
  proof (induction ws arbitrary: va s)
    case (Cons w ws)
    then have "store_ptrs (va + 8) ws = store_bytes (va + 8) (concat (List.map word_bytes ws))" by (simp add: fun_eq_iff)
    then show ?case by (simp add: app len)
  qed simp
qed

lemma ld64_word_bytes: "ld64 (\<lambda>i. word_bytes w ! i) = w"
proof -
  have at: "word_bytes w ! i = ucast (drop_bit (8 * i) w)" if "i < 8" for i
    using that by (simp add: word_bytes_def)
  have lo: "ld32 (\<lambda>i. word_bytes w ! i) = ucast w"
    by (rule ld32_byte32, simp only: at) (rule bit_word_eqI, simp add: bit_byte32 bit_simps)
  have hi: "ld32 (\<lambda>i. word_bytes w ! (4 + i)) = ucast (drop_bit 32 w)"
    by (rule ld32_byte32, simp only: at) (rule bit_word_eqI, simp add: bit_byte32 bit_simps algebra_simps)
  show ?thesis unfolding ld64_def lo hi by (rule bit_word_eqI) (auto simp: bit_simps)
qed

lemma load64_running:
  assumes r: "running s0 s root W" and w: "\<And>k. k < 8 \<Longrightarrow> user_addr (a + of_nat k) \<and> W (a + of_nat k) = Some (word_bytes w ! k)"
  shows "load64 s a = Some w"
proof -
  have l: "load8 s (a + of_nat k) = Some (word_bytes w ! k)" if "k < 8" for k
    using running_load8 [OF r] w [OF that] by simp
  have "ld64 (\<lambda>i. the (load8 s (a + of_nat i))) = ld64 (\<lambda>i. word_bytes w ! i)"
    unfolding ld64_def by (intro arg_cong2 [where f = "(OR)"] arg_cong [where f = ucast]
      arg_cong [where f = "push_bit 32"] ld32_cong) (simp_all add: l del: of_nat_add)
  moreover have "list_all (\<lambda>i. load8 s (a + of_nat i) \<noteq> None) [0..<8]"
    using l by (simp add: list_all_iff)
  ultimately show ?thesis by (simp add: load64_def ld64_word_bytes)
qed

section \<open>The stack of a new program\<close>

abbreviation stack_at :: "nat \<Rightarrow> u64" where
  "stack_at d \<equiv> USER_STACK_TOP - of_nat d"

text \<open>The addresses from \<open>d'\<close> up to \<open>d\<close> bytes below the top.\<close>

definition stack_range :: "nat \<Rightarrow> nat \<Rightarrow> u64 set" where
  "stack_range d d' = {x. 0x8000100000 - d' \<le> unat x \<and> unat x < 0x8000100000 - d}"

abbreviation user_stack :: "u64 set" where
  "user_stack \<equiv> stack_range 0 0x4000"

lemma unat_stack_at: "d \<le> 0x4000 \<Longrightarrow> unat (stack_at d) = 0x8000100000 - d"
proof -
  assume d: "d \<le> 0x4000"
  have u: "unat (of_nat d :: u64) = d" using d by (simp add: unat_of_nat_u64)
  then have "(of_nat d :: u64) \<le> USER_STACK_TOP" using d by (simp add: USER_STACK_TOP_def word_le_nat_alt)
  then show ?thesis by (simp add: unat_sub u) (simp add: USER_STACK_TOP_def)
qed

lemma unat_stack_add: "d \<le> 0x4000 \<Longrightarrow> k \<le> d \<Longrightarrow> unat (stack_at d + of_nat k) = 0x8000100000 - d + k"
  by (subst unat_add_u64) (simp_all add: unat_stack_at unat_of_nat_u64)

lemma stack_add_range: "d \<le> 0x4000 \<Longrightarrow> k < n \<Longrightarrow> n \<le> d \<Longrightarrow> stack_at d + of_nat k \<in> stack_range (d - n) d"
  by (simp add: stack_range_def unat_stack_add) linarith

lemma user_stack_addr: "x \<in> user_stack \<Longrightarrow> user_addr x"
  by (simp add: stack_range_def user_addr_def)

lemma wput_stack:
  assumes "d \<le> 0x4000" and "length bs \<le> d"
  shows "k < length bs \<Longrightarrow> wput (stack_at d) bs W (stack_at d + of_nat k) = Some (bs ! k)"
    and "wput (stack_at d) bs W x \<noteq> W x \<Longrightarrow> x \<in> stack_range (d - length bs) d"
proof -
  have u: "unat (of_nat k :: u64) = k" if "k < length bs" for k
    using that assms by (simp add: unat_of_nat_u64)
  show "k < length bs \<Longrightarrow> wput (stack_at d) bs W (stack_at d + of_nat k) = Some (bs ! k)"
    by (simp add: wput_def u)
  assume "wput (stack_at d) bs W x \<noteq> W x"
  then have l: "unat (x - stack_at d) < length bs" by (auto simp: wput_def split: if_splits)
  have "x = stack_at d + of_nat (unat (x - stack_at d))" by simp
  then show "x \<in> stack_range (d - length bs) d" using stack_add_range [OF assms(1) l assms(2)] by metis
qed

lemma store_stack:
  assumes r: "running s0 s root W" and st: "\<And>x. x \<in> user_stack \<Longrightarrow> W x \<noteq> None"
    and d: "d \<le> 0x4000" "length bs \<le> d"
  shows "\<exists>s'. store_bytes (stack_at d) bs s = Some s' \<and> running s0 s' root (wput (stack_at d) bs W)"
proof (rule store_bytes_running [OF r])
  show "length bs < 2 ^ 63" using d by simp
  fix k assume k: "k < length bs"
  have "stack_at d + of_nat k \<in> stack_range (d - length bs) d" by (rule stack_add_range [OF d(1) k d(2)])
  then have "stack_at d + of_nat k \<in> user_stack" using d by (auto simp: stack_range_def)
  then show "user_addr (stack_at d + of_nat k) \<and> W (stack_at d + of_nat k) \<noteq> None"
    using st user_stack_addr by blast
qed

lemma map_stack_page_holds:
  assumes h: "holds s0 s root W" and k: "k < 4" and free: "4 \<le> card (free_set (vm_pmm s))"
    and none: "\<And>x. x \<in> stack_range (0x4000 - 4096 * (k + 1)) (0x4000 - 4096 * k) \<Longrightarrow> W x = None"
  shows "\<exists>W'. holds s0 (map_stack_page root k s) root W'
    \<and> (\<forall>x. x \<notin> stack_range (0x4000 - 4096 * (k + 1)) (0x4000 - 4096 * k) \<longrightarrow> W' x = W x)
    \<and> (\<forall>x \<in> stack_range (0x4000 - 4096 * (k + 1)) (0x4000 - 4096 * k). W' x \<noteq> None)
    \<and> card (free_set (vm_pmm s)) \<le> card (free_set (vm_pmm (map_stack_page root k s))) + 4"
proof -
  let ?va = "USER_STACK_TOP - USER_STACK_SIZE + of_nat k * 4096"
  have uk: "unat (of_nat k * 4096 :: u64) = 4096 * k"
  proof -
    have "of_nat k * 4096 = (of_nat (4096 * k) :: u64)" by simp
    then show ?thesis using k by (simp only: unat_of_nat_u64)
  qed
  have uv: "unat ?va = 0x80000FC000 + 4096 * k"
  proof -
    have "USER_STACK_TOP - USER_STACK_SIZE = (0x80000FC000 :: u64)" by (simp add: USER_STACK_TOP_def USER_STACK_SIZE_def)
    then show ?thesis using k uk by (simp add: unat_add_u64)
  qed
  have pg: "page_of x = page_of ?va \<longleftrightarrow> x \<in> stack_range (0x4000 - 4096 * (k + 1)) (0x4000 - 4096 * k)" for x
  proof -
    have "page_of ?va = 0x80000FC + k" unfolding page_of_nat uv by simp
    then have "page_of x = page_of ?va \<longleftrightarrow> 4096 * (0x80000FC + k) \<le> unat x \<and> unat x < 4096 * (0x80000FC + k + 1)"
      unfolding page_of_nat by (simp add: div_nat_eqI eq_commute [of _ "unat x div 4096"] dividend_less_times_div) linarith
    then show ?thesis using k by (auto simp: stack_range_def)
  qed
  have ua: "user_addr ?va" using uv k by (simp add: user_addr_def)
  have b: "built s0 s root" using h by (simp add: holds_def)
  have "free_set (vm_pmm s) \<noteq> {}" using free by auto
  from alloc_frame_cases [OF builtD(2) [OF b] this] obtain f where
    f: "pmm_alloc_frame (vm_pmm s) = (frame_addr f, take_frame f (vm_pmm s))" "f \<in> free_set (vm_pmm s)"
    by metis
  have run: "map_stack_page root k s = vmm_map_page_in root ?va (frame_addr f) (PAGE_PRESENT OR PAGE_WRITABLE OR PAGE_USER)
      (s\<lparr>vm_pmm := take_frame f (vm_pmm s), vm_mem := vm_mem s\<rparr>)"
    by (simp add: map_stack_page_def f(1))
  have out: "\<forall>x. page_of x \<noteq> f \<longrightarrow> vm_mem s x = vm_mem s x" by simp
  have new: "W v = None" if "user_addr v" "page_of v = page_of ?va" for v using none pg that by blast
  let ?W = "\<lambda>v. if page_of v = page_of ?va then Some (vm_mem s (frame_addr f + of_nat (unat v mod 4096))) else W v"
  have "holds s0 (map_stack_page root k s) root ?W"
    by (rule holds_map(1) [OF h ua _ free f out run]) (rule new)
  moreover have "card (free_set (vm_pmm s)) \<le> card (free_set (vm_pmm (map_stack_page root k s))) + 4"
    by (rule holds_map(2) [OF h ua _ free f out run]) (rule new)
  ultimately show ?thesis unfolding Ball_def pg [symmetric] by (intro exI [of _ ?W]) simp
qed

lemma map_user_stack_holds:
  assumes h: "holds s0 s root W" and free: "16 \<le> card (free_set (vm_pmm s))"
    and none: "\<And>x. x \<in> user_stack \<Longrightarrow> W x = None"
  shows "\<exists>W'. holds s0 (map_user_stack root s) root W' \<and> (\<forall>x. x \<notin> user_stack \<longrightarrow> W' x = W x)
    \<and> (\<forall>x \<in> user_stack. W' x \<noteq> None)"
proof -
  have "n \<le> 4 \<Longrightarrow> \<exists>W'. holds s0 (fold (map_stack_page root) [0..<n] s) root W'
      \<and> (\<forall>x. x \<notin> stack_range (0x4000 - 4096 * n) 0x4000 \<longrightarrow> W' x = W x)
      \<and> (\<forall>x \<in> stack_range (0x4000 - 4096 * n) 0x4000. W' x \<noteq> None)
      \<and> card (free_set (vm_pmm s)) \<le> card (free_set (vm_pmm (fold (map_stack_page root) [0..<n] s))) + 4 * n" for n
  proof (induction n)
    case 0
    then show ?case using h by (auto simp: stack_range_def)
  next
    case (Suc n)
    let ?s = "fold (map_stack_page root) [0..<n] s"
    from Suc obtain W1 where W1: "holds s0 ?s root W1" "\<And>x. x \<notin> stack_range (0x4000 - 4096 * n) 0x4000 \<Longrightarrow> W1 x = W x"
      "\<And>x. x \<in> stack_range (0x4000 - 4096 * n) 0x4000 \<Longrightarrow> W1 x \<noteq> None"
      "card (free_set (vm_pmm s)) \<le> card (free_set (vm_pmm ?s)) + 4 * n" by auto
    let ?R = "stack_range (0x4000 - 4096 * (n + 1)) (0x4000 - 4096 * n)"
    have sp: "stack_range (0x4000 - 4096 * Suc n) 0x4000 = stack_range (0x4000 - 4096 * n) 0x4000 \<union> ?R"
      "?R \<inter> stack_range (0x4000 - 4096 * n) 0x4000 = {}" "?R \<subseteq> user_stack"
      using Suc.prems by (auto simp: stack_range_def)
    have "W1 x = None" if "x \<in> ?R" for x
    proof -
      have "x \<notin> stack_range (0x4000 - 4096 * n) 0x4000" "x \<in> user_stack" using sp(2,3) that by blast+
      then show ?thesis using W1(2) none by metis
    qed
    moreover have "4 \<le> card (free_set (vm_pmm ?s))" using W1(4) free Suc.prems by simp
    ultimately obtain W2 where W2: "holds s0 (map_stack_page root n ?s) root W2" "\<And>x. x \<notin> ?R \<Longrightarrow> W2 x = W1 x"
      "\<And>x. x \<in> ?R \<Longrightarrow> W2 x \<noteq> None"
      "card (free_set (vm_pmm ?s)) \<le> card (free_set (vm_pmm (map_stack_page root n ?s))) + 4"
      using map_stack_page_holds [OF W1(1), of n] Suc.prems by auto
    have "W2 x \<noteq> None" if "x \<in> stack_range (0x4000 - 4096 * Suc n) 0x4000" for x
      using that W1(3) W2(2,3) unfolding sp(1) by (cases "x \<in> ?R") auto
    moreover have "W2 x = W x" if "x \<notin> stack_range (0x4000 - 4096 * Suc n) 0x4000" for x
      using that W1(2) W2(2) unfolding sp(1) by simp
    moreover have "card (free_set (vm_pmm s)) \<le> card (free_set (vm_pmm (map_stack_page root n ?s))) + 4 * Suc n"
      using W1(4) W2(4) by simp
    ultimately show ?case using W2(1) by auto
  qed
  from this [of 4] show ?thesis by (auto simp: map_user_stack_def USER_STACK_SIZE_def)
qed

section \<open>The arguments on the stack\<close>

definition string_at :: "(u64 \<Rightarrow> u8 option) \<Rightarrow> u64 \<Rightarrow> cstr \<Rightarrow> bool" where
  "string_at W a r \<longleftrightarrow> (\<forall>k \<le> str_len r. a + of_nat k \<in> user_stack \<and> W (a + of_nat k) = Some (char_at r k))"

definition args_len :: "argbuf \<Rightarrow> nat \<Rightarrow> nat" where
  "args_len buf n = (\<Sum>i<n. str_len (buf i) + 1)"

lemma stack_range_mono: "d' \<le> 0x4000 \<Longrightarrow> stack_range d d' \<subseteq> user_stack"
  by (auto simp: stack_range_def)

lemma push_args_running:
  assumes "running s0 s root W" and "\<And>x. x \<in> user_stack \<Longrightarrow> W x \<noteq> None" and "d + args_len buf n \<le> 0x4000"
  shows "\<exists>uarg' s' W'. push_args buf n (stack_at d) uarg s = Some (stack_at (d + args_len buf n), uarg', s')
    \<and> running s0 s' root W' \<and> (\<forall>x. W' x \<noteq> W x \<longrightarrow> x \<in> stack_range d (d + args_len buf n))
    \<and> (\<forall>x \<in> user_stack. W' x \<noteq> None) \<and> (\<forall>i \<ge> n. uarg' i = uarg i) \<and> (\<forall>i < n. string_at W' (uarg' i) (buf i)
        \<and> (\<forall>k \<le> str_len (buf i). uarg' i + of_nat k \<in> stack_range d (d + args_len buf n)))"
  using assms
proof (induction n arbitrary: d uarg s W)
  case 0
  then show ?case by (auto simp: args_len_def)
next
  case (Suc n)
  let ?r = "buf n" let ?len = "str_len ?r + 1" let ?d = "d + ?len" let ?bs = "List.map (char_at ?r) [0..<?len]"
  have al: "args_len buf (Suc n) = args_len buf n + ?len" by (simp add: args_len_def)
  have d: "?d \<le> 0x4000" and tot: "?d + args_len buf n \<le> 0x4000" using Suc.prems(3) unfolding al by simp_all
  have sp: "stack_at d - of_nat ?len = stack_at ?d" by (simp add: algebra_simps)
  obtain s1 where s1: "store_bytes (stack_at ?d) ?bs s = Some s1" "running s0 s1 root (wput (stack_at ?d) ?bs W)"
    using store_stack [OF Suc.prems(1,2) d, of ?bs] by auto
  let ?W = "wput (stack_at ?d) ?bs W"
  have W: "?W (stack_at ?d + of_nat k) = Some (char_at ?r k)" if "k < ?len" for k
    using wput_stack(1) [OF d, of ?bs k W] that by (simp del: upt_Suc)
  have Wx: "x \<in> stack_range d ?d" if "?W x \<noteq> W x" for x
    using wput_stack(2) [OF d, of ?bs W x] that by simp
  have Wn: "?W x \<noteq> None" if "x \<in> user_stack" for x
    using Suc.prems(2) [OF that] by (simp add: wput_def del: upt_Suc)
  from Suc.IH [OF s1(2) Wn tot, of "uarg(n := stack_at ?d)"] obtain uarg' s' W' where
    IH: "push_args buf n (stack_at ?d) (uarg(n := stack_at ?d)) s1 = Some (stack_at (?d + args_len buf n), uarg', s')"
      "running s0 s' root W'" "\<And>x. W' x \<noteq> ?W x \<Longrightarrow> x \<in> stack_range ?d (?d + args_len buf n)"
      "\<forall>x \<in> user_stack. W' x \<noteq> None" "\<forall>i \<ge> n. uarg' i = (uarg(n := stack_at ?d)) i"
      "\<forall>i < n. string_at W' (uarg' i) (buf i)
        \<and> (\<forall>k \<le> str_len (buf i). uarg' i + of_nat k \<in> stack_range ?d (?d + args_len buf n))"
    by blast
  have dd: "?d + args_len buf n = d + args_len buf (Suc n)" by (simp add: al)
  have run: "push_args buf (Suc n) (stack_at d) uarg s = Some (stack_at (d + args_len buf (Suc n)), uarg', s')"
    using s1(1) IH(1) unfolding push_args.simps Let_def sp dd by simp
  have sub: "stack_range ?d (?d + args_len buf n) \<subseteq> stack_range d (d + args_len buf (Suc n))"
    "stack_range d ?d \<subseteq> stack_range d (d + args_len buf (Suc n))"
    "stack_range d ?d \<inter> stack_range ?d (?d + args_len buf n) = {}"
    using tot unfolding al by (auto simp: stack_range_def)
  have un: "uarg' n = stack_at ?d" "\<forall>i \<ge> Suc n. uarg' i = uarg i" using IH(5) by auto
  have in_r: "stack_at ?d + of_nat k \<in> stack_range d ?d" if "k \<le> str_len ?r" for k
    using stack_add_range [OF d, of k ?len] that by simp
  have "string_at W' (uarg' n) ?r"
    unfolding string_at_def un(1)
  proof (intro allI impI conjI)
    fix k assume k: "k \<le> str_len ?r"
    show "stack_at ?d + of_nat k \<in> user_stack" using in_r [OF k] stack_range_mono [OF d] by blast
    have "W' (stack_at ?d + of_nat k) = ?W (stack_at ?d + of_nat k)" using IH(3) in_r [OF k] sub(3) by blast
    then show "W' (stack_at ?d + of_nat k) = Some (char_at ?r k)" using W k by simp
  qed
  moreover have "\<forall>k \<le> str_len ?r. uarg' n + of_nat k \<in> stack_range d (d + args_len buf (Suc n))"
    unfolding un(1) using in_r sub(2) by blast
  ultimately have "\<forall>i < Suc n. string_at W' (uarg' i) (buf i)
      \<and> (\<forall>k \<le> str_len (buf i). uarg' i + of_nat k \<in> stack_range d (d + args_len buf (Suc n)))"
    using IH(6) sub(1) by (auto simp: less_Suc_eq)
  moreover have "\<forall>x. W' x \<noteq> W x \<longrightarrow> x \<in> stack_range d (d + args_len buf (Suc n))"
  proof (intro allI impI)
    fix x assume "W' x \<noteq> W x"
    then have "W' x \<noteq> ?W x \<or> ?W x \<noteq> W x" by metis
    then show "x \<in> stack_range d (d + args_len buf (Suc n))" using IH(3) [of x] Wx [of x] sub(1,2) by blast
  qed
  ultimately show ?case using run IH(2,4) un(2) by blast
qed

lemma copy_arg_length: "copy_arg s src j = Some r \<Longrightarrow> j \<le> 63 \<Longrightarrow> length r \<le> 63 - j"
proof (induction s src j arbitrary: r rule: copy_arg.induct)
  case (1 s src j)
  from 1(2) obtain c where c: "load8 s (src + of_nat j) = Some c"
    by (cases "load8 s (src + of_nat j)") (simp_all add: copy_arg.simps [of s src j])
  show ?case
  proof (cases "c \<noteq> 0 \<and> j < MAX_ARG_LEN - 1")
    case True
    then obtain r' where r': "copy_arg s src (j + 1) = Some r'" "r = c # r'"
      using 1(2) c by (auto simp: copy_arg.simps [of s src j])
    have j: "j < 63" using True by (simp add: MAX_ARG_LEN_def)
    then have "length r' \<le> 63 - (j + 1)" by (intro 1(1) [OF c True r'(1)]) simp
    then show ?thesis using r'(2) j by simp
  next
    case False
    then have "r = []" using 1(2) c by (auto simp: copy_arg.simps [of s src j])
    then show ?thesis by simp
  qed
qed

lemma copy_args_length:
  "copy_args s argv is buf0 = Some buf \<Longrightarrow> (i \<in> set is \<or> length (buf0 i) \<le> 63) \<Longrightarrow> length (buf i) \<le> 63"
proof (induction "is" arbitrary: buf0)
  case (Cons k "is")
  then obtain src row where r: "copy_arg s src 0 = Some row" "copy_args s argv is (buf0(k := row)) = Some buf"
    by (auto split: Option.bind_splits)
  have "length row \<le> 63" using copy_arg_length [OF r(1)] by simp
  then show ?case using Cons.IH [OF r(2)] Cons.prems(2) by auto
qed simp

lemma args_len_bound: "(\<And>i. i < n \<Longrightarrow> length (buf i) \<le> 63) \<Longrightarrow> args_len buf n \<le> 64 * n"
proof (induction n)
  case (Suc n)
  then have "args_len buf n \<le> 64 * n" "length (buf n) \<le> 63" by simp_all
  then show ?case using str_len_le [of "buf n"] by (simp add: args_len_def)
qed (simp add: args_len_def)

lemma clamp_argc_le: "clamp_argc argc \<le> 16"
  by (simp add: clamp_argc_def MAX_ARGS_def Let_def nat_le_iff)

lemma stack_align: "d \<le> 0x3FF0 \<Longrightarrow> stack_at d AND NOT 0xF = stack_at ((d + 15) div 16 * 16)"
proof -
  assume d: "d \<le> 0x3FF0"
  have m: "(0xF :: u64) = mask 4" by (simp add: mask_eq_exp_minus_1)
  have "w AND NOT 0xF = push_bit 4 (drop_bit 4 w)" for w :: u64
    unfolding m by (rule bit_word_eqI) (auto simp: bit_simps)
  then have u: "unat (w AND NOT 0xF) = unat w div 16 * 16" for w :: u64
  proof -
    have "unat w div 16 * 16 \<le> unat w" by simp
    also have "\<dots> < 2 ^ 64" using unat_u64_lt [of w] by simp
    finally have "unat w div 16 < 1152921504606846976" by simp
    then show ?thesis using \<open>\<And>w :: u64. w AND NOT 0xF = push_bit 4 (drop_bit 4 w)\<close>
      by (simp add: push_bit_eq_mult drop_bit_eq_div unat_word_ariths unat_div)
  qed
  have ar: "(16 * q - e) div 16 * 16 = 16 * q - (e + 15) div 16 * 16" if "e \<le> 16 * q" for e q :: nat
  proof -
    define a r where "a = (e + 15) div 16" and "r = 16 * a - e"
    have e: "16 * a = e + r" "r < 16" by (simp_all add: a_def r_def)
    have "a \<le> q" using e that by linarith
    then have "16 * q - e = 16 * (q - a) + r" using e by linarith
    then have "(16 * q - e) div 16 = q - a" using e(2) by linarith
    then have "(16 * q - e) div 16 * 16 = (q - a) * 16" by (simp only:)
    then show ?thesis unfolding a_def [symmetric] by (simp add: diff_mult_distrib)
  qed
  have le: "(d + 15) div 16 * 16 \<le> 0x4000" using d by linarith
  have "unat (stack_at d) = 16 * 0x800010000 - d" using unat_stack_at [of d] d by simp
  then have "unat (stack_at d AND NOT 0xF) = (16 * 0x800010000 - d) div 16 * 16" by (simp only: u)
  also have "\<dots> = 16 * 0x800010000 - (d + 15) div 16 * 16" by (rule ar) (use d in simp)
  also have "\<dots> = unat (stack_at ((d + 15) div 16 * 16))" using unat_stack_at [OF le] by simp
  finally show ?thesis by (simp add: unat_eq_iff)
qed

lemma nth_concat_word_bytes:
  "i < length ws \<Longrightarrow> k < 8 \<Longrightarrow> concat (List.map word_bytes ws) ! (8 * i + k) = word_bytes (ws ! i) ! k"
proof (induction ws arbitrary: i)
  case (Cons w ws)
  have len: "length (word_bytes w) = 8" by (simp add: word_bytes_def)
  show ?case
  proof (cases i)
    case (Suc j)
    then have "concat (List.map word_bytes (w # ws)) ! (8 * i + k) = concat (List.map word_bytes ws) ! (8 * j + k)"
      by (simp add: nth_append len)
    then show ?thesis using Cons Suc by simp
  qed (use Cons len in \<open>simp add: nth_append\<close>)
qed simp

lemma length_concat_word_bytes: "length (concat (List.map word_bytes ws)) = 8 * length ws"
  by (induction ws) (simp_all add: word_bytes_def)

lemma fold_keeps: "(\<And>i s. P (f i s) = P s) \<Longrightarrow> P (fold f xs s) = P s"
  by (induction xs arbitrary: s) simp_all

lemma destroy_keeps:
  "vm_mem (vmm_destroy_address_space r s) = vm_mem s" "vm_cr3 (vmm_destroy_address_space r s) = vm_cr3 s"
proof -
  have keeps: "P (vmm_destroy_address_space r s) = P s" if P: "\<And>s p. P (s\<lparr>vm_pmm := p\<rparr>) = P s" for P :: "vmm \<Rightarrow> 'a" and s
  proof -
    have 1: "P (free_pt a s) = P s" for a s
      unfolding free_pt_def by (rule fold_keeps) (simp add: Let_def release_def P)
    have 2: "P (free_pd a s) = P s" for a s
      unfolding free_pd_def by (rule fold_keeps) (simp add: Let_def release_def P 1)
    have 3: "P (free_pdpt a s) = P s" for a s
      unfolding free_pdpt_def by (rule fold_keeps) (simp add: Let_def release_def P 2)
    have "P (fold (\<lambda>i s. let e = ent (vm_mem s) r i in if e AND PAGE_PRESENT = 0 then s
        else release e (free_pdpt (e AND ADDR_MASK) s)) [1..<512] s) = P s"
      by (rule fold_keeps) (simp add: Let_def release_def P 3)
    then show ?thesis by (simp add: vmm_destroy_address_space_def Let_def P)
  qed
  show "vm_mem (vmm_destroy_address_space r s) = vm_mem s" "vm_cr3 (vmm_destroy_address_space r s) = vm_cr3 s"
    by (rule keeps, simp)+
qed

lemma holds_switch: "holds s0 s root W \<Longrightarrow> running s0 (vmm_switch root s) root W"
  by (simp add: running_def holds_def vmm_switch_def built_def tree_ok_def user_view_def)

text \<open>The argument block: pointers to the strings, a null pointer, and the strings.\<close>

definition arg_block :: "vmm \<Rightarrow> u64 \<Rightarrow> nat \<Rightarrow> argbuf \<Rightarrow> bool" where
  "arg_block s uargv n buf \<longleftrightarrow> load64 s (uargv + of_nat (8 * n)) = Some 0
     \<and> (\<forall>i < n. \<exists>a. load64 s (uargv + of_nat (8 * i)) = Some a
          \<and> (\<forall>k \<le> str_len (buf i). load8 s (a + of_nat k) = Some (char_at (buf i) k)))"

lemma exec_stack:
  assumes r: "running s0 s root W" and st: "\<And>x. x \<in> user_stack \<Longrightarrow> W x \<noteq> None" and n: "n \<le> 16"
    and len: "\<And>i. i < n \<Longrightarrow> length (buf i) \<le> 63"
  defines "uargv \<equiv> (stack_at (args_len buf n) AND NOT 0xF) - of_nat (n + 1) * 8"
  shows "\<exists>uarg s1 s2 W'. push_args buf n USER_STACK_TOP (\<lambda>_. 0) s = Some (stack_at (args_len buf n), uarg, s1)
    \<and> store_ptrs uargv (List.map uarg [0..<n] @ [0]) s1 = Some s2 \<and> running s0 s2 root W'
    \<and> (\<forall>x. x \<notin> user_stack \<longrightarrow> W' x = W x) \<and> arg_block s2 uargv n buf"
proof -
  let ?d = "args_len buf n" let ?d2 = "(?d + 15) div 16 * 16" let ?d3 = "?d2 + 8 * (n + 1)"
  have d: "?d \<le> 1024" using args_len_bound [of n buf] len n by fastforce
  have "?d2 \<le> 1039" using d by linarith
  then have d3: "?d3 \<le> 0x4000" "?d \<le> ?d2" using n by simp_all
  have "of_nat (n + 1) * 8 = (of_nat (8 * (n + 1)) :: u64)" by simp
  then have uv: "uargv = stack_at ?d3"
    unfolding uargv_def using stack_align [of ?d] d by (simp add: algebra_simps del: of_nat_Suc)
  have "0 + args_len buf n \<le> 0x4000" using d by simp
  from push_args_running [OF r st this, of "\<lambda>_. 0"] obtain uarg s1 W1 where
    p: "push_args buf n USER_STACK_TOP (\<lambda>_. 0) s = Some (stack_at ?d, uarg, s1)" "running s0 s1 root W1"
      "\<And>x. W1 x \<noteq> W x \<Longrightarrow> x \<in> stack_range 0 ?d" "\<And>x. x \<in> user_stack \<Longrightarrow> W1 x \<noteq> None"
      "\<And>i. i < n \<Longrightarrow> string_at W1 (uarg i) (buf i)"
      "\<And>i k. i < n \<Longrightarrow> k \<le> str_len (buf i) \<Longrightarrow> uarg i + of_nat k \<in> stack_range 0 ?d"
    by auto
  let ?ws = "List.map uarg [0..<n] @ [0]" let ?bs = "concat (List.map word_bytes ?ws)"
  have lb: "length ?bs = 8 * (n + 1)" using length_concat_word_bytes [of ?ws] by simp
  have lb3: "length ?bs \<le> ?d3" unfolding lb by simp
  obtain s2 where s2: "store_ptrs uargv ?ws s1 = Some s2" "running s0 s2 root (wput (stack_at ?d3) ?bs W1)"
    unfolding store_ptrs_bytes uv using store_stack [OF p(2,4) d3(1) lb3] by blast
  let ?W = "wput (stack_at ?d3) ?bs W1"
  have Wx: "x \<in> stack_range ?d2 ?d3" if "?W x \<noteq> W1 x" for x
    using wput_stack(2) [OF d3(1) lb3 that] unfolding lb by simp
  have dis: "stack_range 0 ?d \<inter> stack_range ?d2 ?d3 = {}" "stack_range ?d2 ?d3 \<subseteq> user_stack" "stack_range 0 ?d \<subseteq> user_stack"
    using d d3 by (auto simp: stack_range_def)
  have word: "load64 s2 (uargv + of_nat (8 * i)) = Some (?ws ! i)" if i: "i < n + 1" for i
  proof (rule load64_running [OF s2(2)])
    fix k :: nat assume k: "k < 8"
    have ik: "8 * i + k < length ?bs" unfolding lb using i k by simp
    have a: "uargv + of_nat (8 * i) + of_nat k = stack_at ?d3 + of_nat (8 * i + k)" by (simp add: uv add.assoc)
    have "stack_at ?d3 + of_nat (8 * i + k) \<in> stack_range (?d3 - length ?bs) ?d3" by (rule stack_add_range [OF d3(1) ik lb3])
    then have "user_addr (stack_at ?d3 + of_nat (8 * i + k))" using d3(1) by (intro user_stack_addr) (auto simp: stack_range_def)
    moreover have "?W (stack_at ?d3 + of_nat (8 * i + k)) = Some (?bs ! (8 * i + k))" by (rule wput_stack(1) [OF d3(1) lb3 ik])
    moreover have "?bs ! (8 * i + k) = word_bytes (?ws ! i) ! k" by (rule nth_concat_word_bytes) (use i k in simp_all)
    ultimately show "user_addr (uargv + of_nat (8 * i) + of_nat k)
        \<and> ?W (uargv + of_nat (8 * i) + of_nat k) = Some (word_bytes (?ws ! i) ! k)" unfolding a by simp
  qed
  have "load8 s2 (uarg i + of_nat k) = Some (char_at (buf i) k)" if "i < n" "k \<le> str_len (buf i)" for i k
  proof -
    have x: "uarg i + of_nat k \<in> user_stack" "W1 (uarg i + of_nat k) = Some (char_at (buf i) k)"
      using p(5) [OF that(1)] that(2) by (simp_all add: string_at_def)
    have "?W (uarg i + of_nat k) = W1 (uarg i + of_nat k)" using p(6) [OF that] Wx dis(1) by blast
    then show ?thesis using running_load8 [OF s2(2) user_stack_addr [OF x(1)]] x(2) by simp
  qed
  then have "arg_block s2 uargv n buf"
    using word by (auto simp: arg_block_def nth_append simp del: of_nat_mult)
  moreover have "?W x = W x" if "x \<notin> user_stack" for x
  proof -
    have "?W x = W1 x" using Wx [of x] dis(2) that by blast
    also have "\<dots> = W x" using p(3) [of x] dis(3) that by blast
    finally show ?thesis .
  qed
  ultimately show ?thesis using p(1) s2 by blast
qed

text \<open>
  C10. \<^verbatim>\<open>exec\<close> replaces the program of a task. When the arguments can be read, the first one names a
  program of the ramdisk, its image is well formed and enough memory is free, it always succeeds: the
  task has a fresh space, which is the active one and shows the image outside the stack; it resumes in
  user mode at the entry point with a 16-aligned stack, the number of arguments in \<^verbatim>\<open>rdi\<close> and in \<^verbatim>\<open>rsi\<close>
  a block of pointers on its stack that lead to copies of the strings; the space it had is torn down,
  and no other task changes.
\<close>

theorem exec_builds_program:
  assumes "tree_ok (s_vm s) (kernel_pml4 (s_vm s))" and "pool_inv (vm_pmm (s_vm s))"
    and args: "copy_args (s_vm s) argv [0..<clamp_argc argc] buf0 = Some buf"
    and prog: "ramdisk_lookup im (buf 0) = elf" "elf \<noteq> 0"
    and img: "image_ok (vm_mem (s_vm s)) elf ilen" "\<forall>k < ilen. page_of (elf + of_nat k) \<notin> free_set (vm_pmm (s_vm s))"
    and apart: "\<forall>x \<in> user_stack. segs_view (vm_mem (s_vm s)) elf (image_segs (vm_mem (s_vm s)) elf) x = None"
    and free: "17 + segs_frames (vm_mem (s_vm s)) (image_segs (vm_mem (s_vm s)) elf) \<le> card (free_set (vm_pmm (s_vm s)))"
  shows "\<exists>space uargv vm s'. exec_current im argv argc buf0 s = Some (t_kstop (cur s) - SIZEOF_REGISTERS, buf, s')
    \<and> t_pml4 (cur s') = space \<and> t_rsp (cur s') = t_kstop (cur s) - SIZEOF_REGISTERS \<and> vm_cr3 (s_vm s') = space
    \<and> (\<forall>i < 22. s_words s' (t_rsp (cur s') + of_nat (8 * i))
          = reg_words (exec_frame (eh_entry (vm_mem (s_vm s)) elf) (uargv AND NOT 0xF) (clamp_argc argc) uargv) ! i)
    \<and> arg_block (s_vm s') uargv (clamp_argc argc) buf
    \<and> (\<forall>v. user_addr v \<longrightarrow> v \<notin> user_stack \<longrightarrow>
          load8 (s_vm s') v = segs_view (vm_mem (s_vm s)) elf (image_segs (vm_mem (s_vm s)) elf) v)
    \<and> s_vm s' = vmm_destroy_address_space (t_pml4 (cur s)) vm \<and> built (s_vm s) vm space
    \<and> (\<forall>u. u \<noteq> s_current s \<longrightarrow> s_tasks s' u = s_tasks s u)"
proof -
  let ?n = "clamp_argc argc" and ?V = "segs_view (vm_mem (s_vm s)) elf (image_segs (vm_mem (s_vm s)) elf)"
  let ?entry = "eh_entry (vm_mem (s_vm s)) elf"
  have fr: "1 + segs_frames (vm_mem (s_vm s)) (image_segs (vm_mem (s_vm s)) elf) \<le> card (free_set (vm_pmm (s_vm s)))"
    using free by simp
  from elf_load_holds [OF assms(1,2) img fr, of 0] obtain space vm1 where
    l: "elf_load elf 0 (s_vm s) = Some (space, ?entry, vm1)" "holds (s_vm s) vm1 space ?V"
      "card (free_set (vm_pmm (s_vm s))) \<le> card (free_set (vm_pmm vm1)) + 1
        + segs_frames (vm_mem (s_vm s)) (image_segs (vm_mem (s_vm s)) elf)" by blast
  have nz: "space \<noteq> 0" using builtD(6) l(2) by (auto simp: holds_def)
  have f16: "16 \<le> card (free_set (vm_pmm vm1))" using l(3) free by linarith
  obtain W where W: "holds (s_vm s) (map_user_stack space vm1) space W" "\<And>x. x \<notin> user_stack \<Longrightarrow> W x = ?V x"
    "\<And>x. x \<in> user_stack \<Longrightarrow> W x \<noteq> None"
    using map_user_stack_holds [OF l(2) f16] apart by blast
  have rows: "length (buf i) \<le> 63" if "i < ?n" for i
    by (rule copy_args_length [OF args]) (use that in simp)
  let ?sp = "stack_at (args_len buf ?n)" let ?uargv = "(?sp AND NOT 0xF) - of_nat (?n + 1) * 8"
  have "\<exists>uarg vm3 vm4 W'. push_args buf ?n USER_STACK_TOP (\<lambda>_. 0) (vmm_switch space (map_user_stack space vm1)) = Some (?sp, uarg, vm3)
      \<and> store_ptrs ?uargv (List.map uarg [0..<?n] @ [0]) vm3 = Some vm4 \<and> running (s_vm s) vm4 space W'
      \<and> (\<forall>x. x \<notin> user_stack \<longrightarrow> W' x = W x) \<and> arg_block vm4 ?uargv ?n buf"
    by (rule exec_stack [OF holds_switch [OF W(1)] _ clamp_argc_le]) (use W(3) rows in blast)+
  then obtain uarg vm3 vm4 W' where
    st: "push_args buf ?n USER_STACK_TOP (\<lambda>_. 0) (vmm_switch space (map_user_stack space vm1)) = Some (?sp, uarg, vm3)"
      "store_ptrs ?uargv (List.map uarg [0..<?n] @ [0]) vm3 = Some vm4" "running (s_vm s) vm4 space W'"
      "\<And>x. x \<notin> user_stack \<Longrightarrow> W' x = W x" "arg_block vm4 ?uargv ?n buf"
    by blast
  let ?fr = "t_kstop (cur s) - SIZEOF_REGISTERS"
  let ?ws = "reg_words (exec_frame ?entry (?uargv AND NOT 0xF) ?n ?uargv)"
  let ?vm = "vmm_destroy_address_space (t_pml4 (cur s)) vm4"
  define s' where "s' = upd_task (s_current s) (\<lambda>k. k\<lparr>t_pml4 := space, t_rsp := ?fr\<rparr>)
      (s\<lparr>s_vm := ?vm, s_words := store_words ?fr ?ws (s_words s)\<rparr>)"
  have run: "exec_current im argv argc buf0 s = Some (?fr, buf, s')"
    by (simp only: exec_current_def Let_def args prog nz l(1) if_False bind.bind_lunit prod.case st(1,2) s'_def)
  have ld: "load8 ?vm x = load8 vm4 x" "load64 ?vm x = load64 vm4 x" for x
    by (simp_all add: load8_def load64_def destroy_keeps)
  have "arg_block ?vm ?uargv ?n buf" using st(5) by (simp add: arg_block_def ld)
  moreover have "load8 ?vm v = ?V v" if "user_addr v" "v \<notin> user_stack" for v
    using running_load8 [OF st(3) that(1)] st(4) W(2) that(2) by (simp add: ld)
  moreover have "vm_cr3 ?vm = space" "built (s_vm s) vm4 space"
    using st(3) by (simp_all add: destroy_keeps running_def holds_def)
  moreover have "\<forall>i < 22. store_words ?fr ?ws (s_words s) (?fr + of_nat (8 * i)) = ?ws ! i"
  proof -
    have "length ?ws = 22" by (simp add: reg_words_def)
    then show ?thesis using store_words_nth [of ?ws] by auto
  qed
  ultimately show ?thesis
    unfolding run by (intro exI [of _ space] exI [of _ ?uargv] exI [of _ vm4] exI [of _ s']) (simp add: s'_def)
qed

lemma elf_machine_load: "unat a < 4096 \<Longrightarrow> load8 elf_machine a = Some (elf_mem a)"
proof -
  assume a: "unat a < 4096"
  let ?b = "boot_vmm\<lparr>vm_mem := elf_mem\<rparr>"
  have b: "pool_inv (vm_pmm ?b)" "3 \<le> card (free_set (vm_pmm ?b))" using boot_vmm_free boot_vmm_pool by simp_all
  have "vm_cr3 elf_machine = kernel_pml4 elf_machine"
    unfolding elf_machine_def by (rule vmm_init_shape [OF b]) simp
  moreover have "translate (vm_mem elf_machine) (kernel_pml4 elf_machine) a = Some a"
    unfolding elf_machine_def by (rule kernel_tree(3) [OF b]) (use a in simp)
  moreover have "page_of a = 0" using a by (simp add: page_of_nat)
  ultimately show ?thesis using elf_machine_ok(6) by (simp add: load8_def)
qed

definition demo_argbuf :: argbuf where
  "demo_argbuf = (\<lambda>_. [])(0 := [111, 110, 101])"

lemma demo_args: "copy_args elf_machine 0x800 [0..<clamp_argc 1] (\<lambda>_. []) = Some demo_argbuf"
proof -
  have n: "[0..<clamp_argc 1] = [0]" by (simp add: clamp_argc_def MAX_ARGS_def)
  have small: "unat (0x800 + of_nat i :: u64) < 4096" if "i < 8" for i using that by (simp add: unat_add_u64 unat_of_nat_u64)
  have "load64 elf_machine 0x800 = Some (ld64 (\<lambda>i. the (load8 elf_machine (0x800 + of_nat i))))"
    using elf_machine_load [OF small] by (simp add: load64_def list_all_iff)
  also have "\<dots> = Some 0x900"
    by (simp add: ld64_def ld32_def elf_machine_load elf_mem_def demo_image_def demo_elf_def)
  finally have p: "load64 elf_machine 0x800 = Some 0x900" .
  have "copy_arg elf_machine 0x900 0 = Some [111, 110, 101]"
    by (simp add: copy_arg.simps elf_machine_load elf_mem_def demo_image_def demo_elf_def MAX_ARG_LEN_def)
  then show ?thesis unfolding n by (simp add: p demo_argbuf_def)
qed

lemma demo_program: "ramdisk_lookup ((demo_elf, 0x17C), (0, 0), (0, 0)) (demo_argbuf 0) = demo_elf"
  by (simp add: ramdisk_lookup_def ramdisk_find_def ramdisk_entries_def rd_streq_def rd_streq_from.simps
      demo_argbuf_def str_def char_at_def)

lemma exec_builds_program_witness:
  "\<exists>s im buf r uargv s'. exec_current im 0x800 1 (\<lambda>_. []) s = Some (r, buf, s') \<and> buf 0 = [111, 110, 101]
     \<and> arg_block (s_vm s') uargv 1 buf \<and> load8 (s_vm s') 0x8000000001 = Some 0x91"
proof -
  define s where "s = idle_machine\<lparr>s_vm := elf_machine\<rparr>"
  let ?m = "vm_mem elf_machine"
  have sv: "s_vm s = elf_machine" by (simp add: s_def)
  have "320 = demo_elf + of_nat 64" "64 + 56 \<le> (124 :: nat)" by (simp_all add: demo_elf_def)
  note fld = same_image_fields [OF elf_machine_ok(5) this, unfolded elf_mem_fields]
  have "seg_start ?m 320 = 0x8000000000" "seg_end ?m 320 = 0x8000001000" by (simp_all add: seg_start_def seg_end_def fld)
  then have pg: "seg_pages ?m 320 = {0x8000000 ..< 0x8000001}" by (simp add: seg_pages_def page_of_def)
  have apart: "\<forall>x \<in> user_stack. segs_view ?m demo_elf (image_segs ?m demo_elf) x = None"
  proof
    fix x assume "x \<in> user_stack"
    then have "0x80000FC \<le> page_of x" by (simp add: stack_range_def page_of_nat less_eq_div_iff_mult_less_eq)
    then show "segs_view ?m demo_elf (image_segs ?m demo_elf) x = None"
      by (simp add: segs_view_def elf_machine_image(2) pg)
  qed
  have nz: "demo_elf \<noteq> 0" by (simp add: demo_elf_def)
  have free: "17 + segs_frames ?m (image_segs ?m demo_elf) \<le> card (free_set (vm_pmm elf_machine))"
    by (simp add: elf_machine_image(2,3) elf_machine_ok(3))
  have c: "clamp_argc 1 = 1" by (simp add: clamp_argc_def MAX_ARGS_def)
  note ex = exec_builds_program [where s = s, unfolded sv, OF elf_machine_ok(1,2) demo_args demo_program nz
      elf_machine_image(1) elf_machine_ok(4) apart free, unfolded c]
  from ex obtain uargv s' where s': "exec_current ((demo_elf, 0x17C), (0, 0), (0, 0)) 0x800 1 (\<lambda>_. []) s
      = Some (t_kstop (cur s) - SIZEOF_REGISTERS, demo_argbuf, s')" "arg_block (s_vm s') uargv 1 demo_argbuf"
    "\<And>v. user_addr v \<Longrightarrow> v \<notin> user_stack \<Longrightarrow> load8 (s_vm s') v = segs_view ?m demo_elf (image_segs ?m demo_elf) v"
    by blast
  have "?m (demo_elf + (120 + 1)) = 0x91"
    using same_image_at [OF elf_machine_ok(5), of 121] by (simp add: elf_mem_def demo_image_def)
  then have "segs_view ?m demo_elf [320] 0x8000000001 = Some 0x91"
    by (simp add: segs_view_def pg seg_byte_def fld page_of_def)
  then have "load8 (s_vm s') 0x8000000001 = Some 0x91"
    using s'(3) by (simp add: user_addr_def stack_range_def elf_machine_image(2))
  moreover have "demo_argbuf 0 = [111, 110, 101]" by (simp add: demo_argbuf_def)
  ultimately show ?thesis using s'(1,2) by blast
qed

end
