(* ===== verification/Mouse.thy ===== *)
theory Mouse
  imports Pic "HOL-Library.Signed_Division"
begin

text \<open>
  The PS/2 mouse (kernel/mouse.cpp): three-byte packets, with resynchronisation on the bit that the first
  byte always has, move a pointer that is clamped to the screen. The status and the data byte of an
  interrupt and the answers of the controller are arguments; its bounded waiting loops only delay.
\<close>

section \<open>State and operations\<close>

record mouse =
  m_x :: int
  m_y :: int
  m_buttons :: u8
  m_packet :: "nat \<Rightarrow> u8"
  m_phase :: nat

definition ps2_cmd :: "u8 \<Rightarrow> port_log \<Rightarrow> port_log" where
  "ps2_cmd c l = outb 0x64 c l"

definition mouse_write :: "u8 \<Rightarrow> port_log \<Rightarrow> port_log" where
  "mouse_write b l = outb 0x60 b (outb 0x64 0xD4 l)"

definition mouse_init :: "u8 \<Rightarrow> (u16 \<Rightarrow> u8) \<Rightarrow> u32 \<Rightarrow> u32 \<Rightarrow> mouse \<times> port_log \<Rightarrow> mouse \<times> port_log" where
  "mouse_init cfg0 inb width height = (\<lambda>(m, l).
     let l1 = ps2_cmd 0x20 (ps2_cmd 0xA8 l);
         cfg = (cfg0 OR 0x02) AND NOT 0x20;
         l2 = outb 0x60 cfg (ps2_cmd 0x60 l1);
         l3 = mouse_write 0xF4 (mouse_write 0xF6 l2)
     in (m\<lparr>m_x := sint width sdiv 2, m_y := sint height sdiv 2, m_phase := 0, m_buttons := 0\<rparr>, pic_unmask inb 12 l3))"

definition mouse_move :: "int \<Rightarrow> int \<Rightarrow> mouse \<Rightarrow> mouse" where
  "mouse_move w h m =
     (let f = m_packet m 0;
          dx = (if f AND 0x10 \<noteq> 0 then uint (m_packet m 1) - 256 else uint (m_packet m 1));
          dy = (if f AND 0x20 \<noteq> 0 then uint (m_packet m 2) - 256 else uint (m_packet m 2));
          x0 = m_x m + dx; y0 = m_y m - dy;
          x1 = (if x0 < 0 then 0 else x0); x2 = (if x1 \<ge> w then w - 1 else x1);
          y1 = (if y0 < 0 then 0 else y0); y2 = (if y1 \<ge> h then h - 1 else y1)
      in m\<lparr>m_x := x2, m_y := y2, m_buttons := f AND 0x07\<rparr>)"

definition mouse_irq :: "u8 \<Rightarrow> u8 \<Rightarrow> u32 \<Rightarrow> u32 \<Rightarrow> mouse \<Rightarrow> mouse" where
  "mouse_irq status data width height m =
     (if status AND 0x01 = 0 then m
      else if m_phase m = 0 then
        (if data AND 0x08 = 0 then m else m\<lparr>m_packet := (m_packet m)(0 := data), m_phase := 1\<rparr>)
      else if m_phase m = 1 then m\<lparr>m_packet := (m_packet m)(1 := data), m_phase := 2\<rparr>
      else if m_phase m = 2 then
        (let m1 = m\<lparr>m_packet := (m_packet m)(2 := data), m_phase := 0\<rparr>
         in if m_packet m1 0 AND 0xC0 \<noteq> 0 then m1 else mouse_move (sint width) (sint height) m1)
      else m)"

section \<open>The pointer stays on the screen\<close>

definition mouse_inv :: "u32 \<Rightarrow> u32 \<Rightarrow> mouse \<Rightarrow> bool" where
  "mouse_inv w h m \<longleftrightarrow> 0 \<le> m_x m \<and> m_x m < sint w \<and> 0 \<le> m_y m \<and> m_y m < sint h \<and> m_phase m \<le> 2"

lemma mouse_init_inv: "0 < sint w \<Longrightarrow> 0 < sint h \<Longrightarrow> mouse_inv w h (fst (mouse_init cfg inb w h (m, l)))"
  by (auto simp: mouse_init_def Let_def mouse_inv_def signed_divide_int_def)

lemma mouse_move_inv:
  "mouse_inv w h m \<Longrightarrow> mouse_inv w h (mouse_move (sint w) (sint h) m)"
  by (auto simp: mouse_inv_def mouse_move_def Let_def)

lemma mouse_irq_inv: "mouse_inv w h m \<Longrightarrow> mouse_inv w h (mouse_irq st d w h m)"
proof -
  assume i: "mouse_inv w h m"
  then have "mouse_inv w h (m\<lparr>m_packet := p, m_phase := n\<rparr>)" if "n \<le> 2" for p n using that by (simp add: mouse_inv_def)
  then show ?thesis using i mouse_move_inv by (simp add: mouse_irq_def Let_def)
qed

text \<open>The three bytes of a movement, and what they say.\<close>

definition packet_delta :: "bool \<Rightarrow> u8 \<Rightarrow> int" where
  "packet_delta neg b = uint b - (if neg then 256 else 0)"

definition clamp :: "int \<Rightarrow> int \<Rightarrow> int" where
  "clamp n v = max 0 (min (n - 1) v)"

abbreviation mouse_bytes :: "u32 \<Rightarrow> u32 \<Rightarrow> u8 list \<Rightarrow> mouse \<Rightarrow> mouse" where
  "mouse_bytes w h bs m \<equiv> fold (\<lambda>b. mouse_irq 1 b w h) bs m"

text \<open>
  From any state of a pointer on the screen, whatever bytes arrive, the pointer stays on the screen; and when
  a packet without overflow arrives in step, it moves the pointer by its two signed nine-bit deltas, with y
  upwards, clamped to the screen, and sets the three buttons.
\<close>

lemma mouse_follows_packets:
  assumes "mouse_inv w h m"
  shows "mouse_inv w h (mouse_bytes w h bs m)"
    and "m_phase m = 0 \<Longrightarrow> f AND 0x08 \<noteq> 0 \<Longrightarrow> f AND 0xC0 = 0 \<Longrightarrow>
      m_x (mouse_bytes w h [f, dx, dy] m) = clamp (sint w) (m_x m + packet_delta (f AND 0x10 \<noteq> 0) dx)
      \<and> m_y (mouse_bytes w h [f, dx, dy] m) = clamp (sint h) (m_y m - packet_delta (f AND 0x20 \<noteq> 0) dy)
      \<and> m_buttons (mouse_bytes w h [f, dx, dy] m) = f AND 0x07 \<and> m_phase (mouse_bytes w h [f, dx, dy] m) = 0"
proof -
  show "mouse_inv w h (mouse_bytes w h bs m)" using assms
    by (induction bs arbitrary: m) (simp_all add: mouse_irq_inv)
  have p: "0 < sint w" "0 < sint h" using assms by (simp_all add: mouse_inv_def)
  then show "m_phase m = 0 \<Longrightarrow> f AND 0x08 \<noteq> 0 \<Longrightarrow> f AND 0xC0 = 0 \<Longrightarrow>
      m_x (mouse_bytes w h [f, dx, dy] m) = clamp (sint w) (m_x m + packet_delta (f AND 0x10 \<noteq> 0) dx)
      \<and> m_y (mouse_bytes w h [f, dx, dy] m) = clamp (sint h) (m_y m - packet_delta (f AND 0x20 \<noteq> 0) dy)
      \<and> m_buttons (mouse_bytes w h [f, dx, dy] m) = f AND 0x07 \<and> m_phase (mouse_bytes w h [f, dx, dy] m) = 0"
    by (simp add: mouse_irq_def mouse_move_def Let_def packet_delta_def clamp_def min_def max_def)
qed

text \<open>On a screen of width 0, as when there is no framebuffer, a packet leaves the pointer at \<open>-1\<close>.\<close>

lemma mouse_without_screen:
  "m_phase m = 0 \<Longrightarrow> m_x m = 0 \<Longrightarrow> m_x (mouse_bytes 0 0 [0x08, 0, 0] m) = - 1"
  by (simp add: mouse_irq_def mouse_move_def Let_def)

end
