(* ===== verification/Trap.thy ===== *)
theory Trap
  imports Syscall Exec Mouse Serial
begin

text \<open>
  The interrupt handler (\<^verbatim>\<open>isr_handler\<close> of kernel/idt.cpp): interrupts of the timer, the keyboard and the
  mouse, the software yield, the system calls and the processor's exceptions, over the state of the whole
  kernel. The saved registers are words of the running task's kernel stack. The handler's result is the
  stack on which execution resumes, or the machine has halted. The result is \<open>None\<close> when the handler does
  not return: a loop over the tasks that does not end, or a page fault on a pointer that the program passed,
  which is an exception inside the kernel, or a disk request in which the driver got stuck (\<open>e_stuck\<close> of the
  disk's state).

  Strings are read from the program's memory before they are used. Buffers are checked for the bytes that
  the call uses.
\<close>

section \<open>State\<close>

text \<open>The descriptors of the running task are in its task; \<^verbatim>\<open>w_tab\<close> is filled in for a call only.\<close>

record 'd kernel =
  k_sched :: sched
  k_world :: "'d world"
  k_argbuf :: argbuf
  k_mouse :: mouse
  k_out :: kout
  k_ports :: port_log

datatype 'd outcome = Resume u64 "'d kernel" | Halted "'d kernel"

text \<open>What the handler is given besides the kernel's state: the disk driver's write routine and the states of
  the disk in which the driver never returns, the embedded programs, the values that the input ports deliver
  during this interrupt, and the fault address register.\<close>

record 'd env =
  e_write :: "'d disk_write"
  e_stuck :: "'d \<Rightarrow> bool"
  e_images :: images
  e_inb :: "u16 \<Rightarrow> u8"
  e_cr2 :: u64

definition frame_regs :: "(u64 \<Rightarrow> u64) \<Rightarrow> u64 \<Rightarrow> registers" where
  "frame_regs m a = \<lparr>reg_r15 = m a, reg_r14 = m (a + 8), reg_r13 = m (a + 16), reg_r12 = m (a + 24), reg_r11 = m (a + 32),
     reg_r10 = m (a + 40), reg_r9 = m (a + 48), reg_r8 = m (a + 56), reg_rbp = m (a + 64), reg_rdi = m (a + 72),
     reg_rsi = m (a + 80), reg_rdx = m (a + 88), reg_rcx = m (a + 96), reg_rbx = m (a + 104), reg_rax = m (a + 112),
     reg_int_no = m (a + 120), reg_err_code = m (a + 128), reg_rip = m (a + 136), reg_cs = m (a + 144),
     reg_rflags = m (a + 152), reg_rsp = m (a + 160), reg_ss = m (a + 168)\<rparr>"

definition set_rax :: "u64 \<Rightarrow> u64 \<Rightarrow> 'd kernel \<Rightarrow> 'd kernel" where
  "set_rax regs v k = k\<lparr>k_sched := (k_sched k)\<lparr>s_words := (s_words (k_sched k))(regs + 112 := v)\<rparr>\<rparr>"

definition int_arg :: "u64 \<Rightarrow> int" where
  "int_arg w = sint (ucast w :: u32)"

definition enter_fs :: "'d kernel \<Rightarrow> 'd world" where
  "enter_fs k = (k_world k)\<lparr>w_tab := (if s_current (k_sched k) = 0 then None else Some (t_fds (cur (k_sched k))))\<rparr>"

definition leave_fs :: "'d world \<Rightarrow> 'd kernel \<Rightarrow> 'd kernel" where
  "leave_fs w k = k\<lparr>k_world := w\<lparr>w_tab := w_tab (k_world k)\<rparr>,
     k_sched := (case w_tab w of None \<Rightarrow> k_sched k | Some t \<Rightarrow> upd_task (s_current (k_sched k)) (\<lambda>x. x\<lparr>t_fds := t\<rparr>) (k_sched k))\<rparr>"

text \<open>User buffers and strings.\<close>

definition user_buf :: "vmm \<Rightarrow> u64 \<Rightarrow> nat \<Rightarrow> u8" where
  "user_buf s va i = (case load8 s (va + of_nat i) of None \<Rightarrow> 0 | Some b \<Rightarrow> b)"

definition user_mapped :: "vmm \<Rightarrow> u64 \<Rightarrow> nat \<Rightarrow> bool" where
  "user_mapped s va n \<longleftrightarrow> list_all (\<lambda>i. load8 s (va + of_nat i) \<noteq> None) [0..<n]"

partial_function (option) user_str :: "vmm \<Rightarrow> u64 \<Rightarrow> cstr option" where
  "user_str s va = Option.bind (load8 s va) (\<lambda>c. if c = 0 then Some []
     else Option.bind (user_str s (va + 1)) (\<lambda>p. Some (c # p)))"

text \<open>Bytes stored into the program's memory.\<close>

definition copy_to_user :: "u64 \<Rightarrow> u8 list \<Rightarrow> 'd kernel \<Rightarrow> 'd kernel option" where
  "copy_to_user va bs k = map_option (\<lambda>vm. k\<lparr>k_sched := (k_sched k)\<lparr>s_vm := vm\<rparr>\<rparr>) (store_bytes va bs (s_vm (k_sched k)))"

section \<open>System calls\<close>

definition SYS_WRITE :: u64 where "SYS_WRITE = 0"
definition SYS_YIELD :: u64 where "SYS_YIELD = 1"
definition SYS_EXIT :: u64 where "SYS_EXIT = 2"
definition SYS_READ :: u64 where "SYS_READ = 3"
definition SYS_EXEC :: u64 where "SYS_EXEC = 4"
definition SYS_FORK :: u64 where "SYS_FORK = 5"
definition SYS_WAIT :: u64 where "SYS_WAIT = 6"
definition SYS_OPEN :: u64 where "SYS_OPEN = 7"
definition SYS_CLOSE :: u64 where "SYS_CLOSE = 8"
definition SYS_READDIR :: u64 where "SYS_READDIR = 9"
definition SYS_MKDIR :: u64 where "SYS_MKDIR = 10"
definition SYS_UNLINK :: u64 where "SYS_UNLINK = 11"
definition SYS_SYNC :: u64 where "SYS_SYNC = 12"

lemmas sys_numbers = SYS_WRITE_def SYS_YIELD_def SYS_EXIT_def SYS_READ_def SYS_EXEC_def SYS_FORK_def SYS_WAIT_def
  SYS_OPEN_def SYS_CLOSE_def SYS_READDIR_def SYS_MKDIR_def SYS_UNLINK_def SYS_SYNC_def

definition resume_with :: "u64 \<Rightarrow> u64 \<times> 'd kernel \<Rightarrow> 'd outcome option" where
  "resume_with regs = (\<lambda>(r, k). Some (Resume regs (set_rax regs r k)))"

definition resume_fs :: "'d env \<Rightarrow> u64 \<Rightarrow> 'd kernel \<Rightarrow> u64 \<times> 'd world \<Rightarrow> 'd outcome option" where
  "resume_fs e regs k = (\<lambda>(r, w). if e_stuck e (w_disk w) then None else resume_with regs (r, leave_fs w k))"

definition do_write :: "'d env \<Rightarrow> registers \<Rightarrow> u64 \<Rightarrow> 'd kernel \<Rightarrow> 'd outcome option" where
  "do_write e r regs k =
     (let fd = int_arg (reg_rdi r); vm = s_vm (k_sched k);
          (n, w) = sys_write (e_write e) (enter_fs k) fd (user_buf vm (reg_rsi r)) (reg_rdx r);
          used = (if fd = 1 \<or> fd = 2 then unat (reg_rdx r) else nat (sint n))
      in if user_mapped vm (reg_rsi r) used then resume_fs e regs k (n, w) else None)"

definition do_read :: "'d env \<Rightarrow> registers \<Rightarrow> u64 \<Rightarrow> 'd kernel \<Rightarrow> 'd outcome option" where
  "do_read e r regs k =
     (let fd = int_arg (reg_rdi r);
          (n, buf, w) = sys_read (enter_fs k) fd (user_buf (s_vm (k_sched k)) (reg_rsi r)) (reg_rdx r);
          used = (if fd = 0 then unat n else nat (sint n))
      in Option.bind (copy_to_user (reg_rsi r) (List.map buf [0..<used]) (leave_fs w k))
           (\<lambda>k'. resume_with regs (n, k')))"

text \<open>
  The name that the call copies, for files and directories: run on an array without a 0, it has stored the
  bytes up to the first 0, its terminator, and none if there is no 0 afterwards.
\<close>

definition stored_name :: "(nat \<Rightarrow> u8) \<Rightarrow> u8 list" where
  "stored_name b = (let bs = List.map b [0..<32] in if list_ex (\<lambda>c. c = 0) bs then take (str_len bs + 1) bs else [])"

definition do_readdir :: "registers \<Rightarrow> u64 \<Rightarrow> 'd kernel \<Rightarrow> 'd outcome option" where
  "do_readdir r regs k =
     (let (n, buf) = sys_readdir (enter_fs k) (int_arg (reg_rdi r)) (int_arg (reg_rsi r)) (\<lambda>_. 1)
      in Option.bind (copy_to_user (reg_rdx r) (stored_name buf) k) (\<lambda>k'. resume_with regs (n, k')))"

text \<open>
  Calls with a path. A null path is refused by \<^verbatim>\<open>munin_resolve\<close>, \<^verbatim>\<open>munin_create_path\<close> and \<^verbatim>\<open>munin_unlink\<close> alike. Of
  a path that does not start with a slash, \<^verbatim>\<open>munin_create_path\<close> and \<^verbatim>\<open>munin_unlink\<close> read the first byte only;
  \<open>whole\<close> says for which first bytes the rest is read.
\<close>

definition user_path :: "(u8 \<Rightarrow> bool) \<Rightarrow> vmm \<Rightarrow> u64 \<Rightarrow> cstr option" where
  "user_path whole s va = Option.bind (load8 s va) (\<lambda>c. if whole c then user_str s va else Some [c])"

definition do_path ::
  "'d env \<Rightarrow> (u8 \<Rightarrow> bool) \<Rightarrow> (cstr \<Rightarrow> 'd world \<Rightarrow> u64 \<times> 'd world) \<Rightarrow> registers \<Rightarrow> u64 \<Rightarrow> 'd kernel \<Rightarrow> 'd outcome option" where
  "do_path e whole call r regs k =
     (if reg_rdi r = 0 then resume_with regs (- 1, k)
      else Option.bind (user_path whole (s_vm (k_sched k)) (reg_rdi r)) (\<lambda>path. resume_fs e regs k (call path (enter_fs k))))"

text \<open>\<^verbatim>\<open>vfs_open\<close> asks for the running task first.\<close>

definition do_open :: "'d env \<Rightarrow> registers \<Rightarrow> u64 \<Rightarrow> 'd kernel \<Rightarrow> 'd outcome option" where
  "do_open e r regs k =
     (if s_current (k_sched k) = 0 then resume_with regs (- 1, k)
      else do_path e (\<lambda>_. True) (\<lambda>p w. sys_open (e_write e) w p (ucast (reg_rsi r))) r regs k)"

text \<open>A call of the scheduler: the result is the stack to resume on.\<close>

definition resume_sched :: "'d kernel \<Rightarrow> (u64 \<times> sched) option \<Rightarrow> 'd outcome option" where
  "resume_sched k x = map_option (\<lambda>(rsp, s). Resume rsp (k\<lparr>k_sched := s\<rparr>)) x"

definition do_exec :: "'d env \<Rightarrow> registers \<Rightarrow> u64 \<Rightarrow> 'd kernel \<Rightarrow> 'd outcome option" where
  "do_exec e r regs k =
     Option.bind (exec_current (e_images e) (reg_rdi r) (int_arg (reg_rsi r)) (k_argbuf k) (k_sched k)) (\<lambda>(new_rsp, buf, s).
       let k' = k\<lparr>k_argbuf := buf, k_sched := s\<rparr>
       in if new_rsp \<noteq> 0 then Some (Resume new_rsp k') else resume_with regs (- 1, k'))"

definition do_fork :: "registers \<Rightarrow> u64 \<Rightarrow> 'd kernel \<Rightarrow> 'd outcome option" where
  "do_fork r regs k =
     Option.bind (fork_current r (k_sched k)) (\<lambda>(pid, s). resume_with regs (scast pid, k\<lparr>k_sched := s\<rparr>))"

definition syscall :: "'d env \<Rightarrow> registers \<Rightarrow> u64 \<Rightarrow> 'd kernel \<Rightarrow> 'd outcome option" where
  "syscall e r regs k =
     (let n = reg_rax r; s = k_sched k in
      if n = SYS_WRITE then do_write e r regs k
      else if n = SYS_READ then do_read e r regs k
      else if n = SYS_OPEN then do_open e r regs k
      else if n = SYS_CLOSE then (let (v, w) = sys_close (enter_fs k) (int_arg (reg_rdi r)) in resume_with regs (v, leave_fs w k))
      else if n = SYS_READDIR then do_readdir r regs k
      else if n = SYS_MKDIR then do_path e (\<lambda>c. c = slash) (\<lambda>p w. sys_mkdir (e_write e) w p) r regs k
      else if n = SYS_UNLINK then do_path e (\<lambda>c. c = slash) (\<lambda>p w. sys_unlink (e_write e) w p) r regs k
      else if n = SYS_SYNC then resume_fs e regs k (vfs_sync (e_write e) (enter_fs k))
      else if n = SYS_EXEC then do_exec e r regs k
      else if n = SYS_FORK then do_fork r regs k
      else if n = SYS_WAIT then resume_sched k (wait_current regs s)
      else if n = SYS_YIELD then resume_sched k (schedule regs s)
      else if n = SYS_EXIT then resume_sched k (schedule regs (sched_kill_current s))
      else resume_with regs (- 1, k))"

section \<open>Interrupts\<close>

definition send_eoi :: "u8 \<Rightarrow> 'd kernel \<Rightarrow> 'd kernel" where
  "send_eoi irq k = k\<lparr>k_ports := pic_send_eoi irq (k_ports k)\<rparr>"

definition timer_irq :: "u64 \<Rightarrow> 'd kernel \<Rightarrow> 'd outcome option" where
  "timer_irq regs k = resume_sched (send_eoi 0 k) (schedule regs (sched_tick (k_sched k)))"

definition kbd_irq :: "'d env \<Rightarrow> 'd kernel \<Rightarrow> 'd kernel" where
  "kbd_irq e k =
     (let (c, kb) = kbd_handle_scancode (e_inb e 0x60) (w_kbd (k_world k));
          kb' = (if sint c \<ge> 32 \<or> c = 10 \<or> c = 8 \<or> c = 9 then kbd_buffer_push c kb else kb)
      in send_eoi 1 (k\<lparr>k_world := (k_world k)\<lparr>w_kbd := kb'\<rparr>\<rparr>))"

definition mouse_int :: "'d env \<Rightarrow> 'd kernel \<Rightarrow> 'd kernel" where
  "mouse_int e k = send_eoi 12 (k\<lparr>k_mouse := mouse_irq (e_inb e 0x64) (e_inb e 0x60) (fb_width (ko_fb (k_out k))) (fb_height (ko_fb (k_out k))) (k_mouse k)\<rparr>)"

section \<open>Exceptions\<close>

definition exception_names :: "string list" where
  "exception_names =
   [''#DE Divide Error'', ''#DB Debug'', ''NMI'', ''#BP Breakpoint'', ''#OF Overflow'', ''#BR Bound Range'',
    ''#UD Invalid Opcode'', ''#NM Device Not Available'', ''#DF Double Fault'', ''Coprocessor Segment Overrun'',
    ''#TS Invalid TSS'', ''#NP Segment Not Present'', ''#SS Stack-Segment Fault'', ''#GP General Protection Fault'',
    ''#PF Page Fault'', ''Reserved'', ''#MF x87 FPU Error'', ''#AC Alignment Check'', ''#MC Machine Check'',
    ''#XM SIMD FP Exception'', ''#VE Virtualization'', ''#CP Control Protection'', ''Reserved'', ''Reserved'',
    ''Reserved'', ''Reserved'', ''Reserved'', ''Reserved'', ''#HV Hypervisor'', ''#VC VMM Comm'', ''#SX Security'', ''Reserved'']"

definition dump_reg :: "string \<Rightarrow> u64 \<Rightarrow> kout \<Rightarrow> kout" where
  "dump_reg name v o1 = kprint_ptr v (kprint (str ''='') (kprint (str name) o1))"

definition exception_dump :: "u64 \<Rightarrow> registers \<Rightarrow> kout \<Rightarrow> kout" where
  "exception_dump cr2 r o0 =
     (let nl = kprint_char 10;
          o1 = kprint (10 # str ''*** CPU EXCEPTION ***'' @ [10]) o0;
          o2 = (if reg_int_no r < 32 then kprint (str (exception_names ! unat (reg_int_no r))) o1 else kprint (str ''Unknown'') o1);
          o3 = kprint_uint (ucast (reg_int_no r)) (kprint (str ''  (vector '') o2);
          o4 = kprint (str '')'' @ [10]) (kprint_hex (ucast (reg_err_code r)) (kprint (str '', error '') o3));
          o5 = kprint_hex (ucast (reg_cs r)) (kprint (str ''  CS='') (dump_reg ''RIP'' (reg_rip r) o4));
          o6 = nl (kprint_hex (ucast (reg_rflags r)) (kprint (str ''  RFLAGS='') o5));
          o7 = nl (dump_reg ''  RDX'' (reg_rdx r) (dump_reg ''  RCX'' (reg_rcx r) (dump_reg ''  RBX'' (reg_rbx r) (dump_reg ''RAX'' (reg_rax r) o6))));
          o8 = nl (dump_reg ''  RSP'' (reg_rsp r) (dump_reg ''  RBP'' (reg_rbp r) (dump_reg ''  RDI'' (reg_rdi r) (dump_reg ''RSI'' (reg_rsi r) o7))));
          o9 = (if reg_int_no r = 14 then nl (dump_reg ''CR2'' cr2 o8) else o8)
      in kprint (str ''Halting.'' @ [10]) o9)"

definition isr_handler :: "'d env \<Rightarrow> u64 \<Rightarrow> 'd kernel \<Rightarrow> 'd outcome option" where
  "isr_handler e regs k =
     (let r = frame_regs (s_words (k_sched k)) regs; v = reg_int_no r; irq = v - 32;
          is_irq = (v \<ge> 32 \<and> v < 48)
      in if is_irq \<and> irq = 0 then timer_irq regs k
         else if is_irq \<and> irq = 1 then Some (Resume regs (kbd_irq e k))
         else if is_irq \<and> irq = 12 then Some (Resume regs (mouse_int e k))
         else if v = 48 then resume_sched k (schedule regs (k_sched k))
         else if v = 0x80 then syscall e r regs k
         else Some (Halted (k\<lparr>k_out := exception_dump (e_cr2 e) r (k_out k)\<rparr>)))"

section \<open>Calls that fail\<close>

lemma frame_regs_sel [simp]:
  "reg_rax (frame_regs m a) = m (a + 112)" "reg_int_no (frame_regs m a) = m (a + 120)"
  "reg_rdi (frame_regs m a) = m (a + 72)" "reg_rsi (frame_regs m a) = m (a + 80)" "reg_rdx (frame_regs m a) = m (a + 88)"
  by (simp_all add: frame_regs_def)

lemma isr_syscall:
  "s_words (k_sched k) (regs + 120) = 0x80 \<Longrightarrow> isr_handler e regs k = syscall e (frame_regs (s_words (k_sched k)) regs) regs k"
  by (simp add: isr_handler_def Let_def)

lemma leave_enter [simp]: "leave_fs (enter_fs k) k = k"
proof -
  have "upd_task c (\<lambda>x. x\<lparr>t_fds := t_fds (s_tasks s c)\<rparr>) s = s" for c s by simp
  then show ?thesis by (simp add: leave_fs_def enter_fs_def)
qed

definition fd_closed :: "'d kernel \<Rightarrow> int \<Rightarrow> bool" where
  "fd_closed k fd \<longleftrightarrow> s_current (k_sched k) = 0 \<or> fd < 3 \<or> 16 \<le> fd \<or> \<not> fd_used (t_fds (cur (k_sched k)) (nat fd))"

text \<open>The calls that take a descriptor, and when they take it for a file; the calls that take a path.\<close>

definition file_call :: "u64 \<Rightarrow> int \<Rightarrow> bool" where
  "file_call n fd \<longleftrightarrow> (n = SYS_WRITE \<and> fd \<noteq> 1 \<and> fd \<noteq> 2) \<or> (n = SYS_READ \<and> fd \<noteq> 0) \<or> n = SYS_CLOSE \<or> n = SYS_READDIR"

definition path_call :: "u64 \<Rightarrow> bool" where
  "path_call n \<longleftrightarrow> n = SYS_OPEN \<or> n = SYS_MKDIR \<or> n = SYS_UNLINK"

lemma closed_calls:
  assumes "fd_closed k fd"
  shows "fd \<noteq> 1 \<Longrightarrow> fd \<noteq> 2 \<Longrightarrow> sys_write wr (enter_fs k) fd buf len = (- 1, enter_fs k)"
    and "fd \<noteq> 0 \<Longrightarrow> sys_read (enter_fs k) fd buf len = (- 1, buf, enter_fs k)"
    and "sys_close (enter_fs k) fd = (- 1, enter_fs k)"
    and "sys_readdir (enter_fs k) fd i buf = (- 1, buf)"
  using assms by (auto simp: fd_closed_def enter_fs_def sys_write_def vfs_write_def sys_read_def vfs_read_def sys_close_def vfs_close_def
      sys_readdir_def vfs_readdir_def sync_if_def Let_def split: option.splits)

text \<open>
  C39. System calls that fail do so cleanly: a call number that does not exist, a write, read, close or
  directory read on a descriptor that is not open, and an open, mkdir or unlink with a null path answer -1 in
  \<^verbatim>\<open>rax\<close>, resume the caller, and change nothing else in the kernel, the file system, the terminal or the
  program's memory, whatever the other arguments.
\<close>

theorem bad_calls_fail_cleanly:
  assumes "s_words (k_sched k) (regs + 120) = 0x80" and "n = s_words (k_sched k) (regs + 112)"
    and "arg = s_words (k_sched k) (regs + 72)" and run: "\<not> e_stuck e (w_disk (k_world k))"
    and "12 < n \<or> file_call n (int_arg arg) \<and> fd_closed k (int_arg arg) \<or> path_call n \<and> arg = 0"
  shows "isr_handler e regs k = Some (Resume regs (set_rax regs (- 1) k))"
proof -
  let ?fd = "int_arg arg"
  have run': "\<not> e_stuck e (w_disk (enter_fs k))" using run by (simp add: enter_fs_def)
  have copy: "copy_to_user va [] k = Some k" for va by (simp add: copy_to_user_def)
  have name: "stored_name (\<lambda>_. 1) = []" by (auto simp: stored_name_def list_ex_iff Let_def)
  have big: "n \<notin> {0, 1, 2, 3, 4, 5, 6, 7, 8, 9, 10, 11, 12}" if "12 < n" using that by auto
  note call = assms(2,3) syscall_def sys_numbers resume_with_def
  from assms(5) consider "12 < n" | "path_call n" "arg = 0" | "fd_closed k ?fd" "file_call n ?fd" by blast
  then have "syscall e (frame_regs (s_words (k_sched k)) regs) regs k = Some (Resume regs (set_rax regs (- 1) k))"
  proof cases
    case 1
    then show ?thesis using big by (simp add: call)
  next
    case 2
    then show ?thesis by (auto simp: call path_call_def do_open_def do_path_def Let_def)
  next
    case 3
    note cl = closed_calls [OF 3(1)]
    from 3(2) consider "n = 0" "?fd \<noteq> 1" "?fd \<noteq> 2" | "n = 3" "?fd \<noteq> 0" | "n = 8" | "n = 9"
      by (auto simp: file_call_def sys_numbers)
    then show ?thesis
    proof cases
      case 1
      then show ?thesis using cl(1) run' by (simp add: call do_write_def Let_def user_mapped_def resume_fs_def)
    next
      case 2
      then show ?thesis using cl(2) by (simp add: call do_read_def Let_def copy)
    next
      case 3
      then show ?thesis using cl(3) by (simp add: call Let_def)
    next
      case 4
      then show ?thesis using cl(4) by (simp add: call do_readdir_def Let_def copy name)
    qed
  qed
  then show ?thesis by (simp add: isr_syscall [OF assms(1)])
qed

text \<open>Every interrupt line but those of the timer, the keyboard and the mouse ends in the exception dump.\<close>

lemma stray_irq_halts:
  assumes "s_words (k_sched k) (regs + 120) = v" "34 \<le> v" "v < 48" "v \<noteq> 44"
  shows "\<exists>k'. isr_handler e regs k = Some (Halted k')"
proof -
  have "v - 32 = w \<longleftrightarrow> v = w + 32" for w by (simp add: diff_eq_eq)
  then show ?thesis using assms by (auto simp: isr_handler_def Let_def)
qed

section \<open>Keys reach the program\<close>

text \<open>The characters that key presses and releases put into the buffer.\<close>

fun typed :: "u8 list \<Rightarrow> kbd \<Rightarrow> u8 list" where
  "typed [] s = []"
| "typed (sc # scs) s = (let (c, s') = kbd_handle_scancode sc s
     in if sint c \<ge> 32 \<or> c = 10 \<or> c = 8 \<or> c = 9 then c # typed scs s' else typed scs s')"

lemma typed_shift: "g_shift s' = g_shift s \<Longrightarrow> typed scs s' = typed scs s"
proof (induction scs arbitrary: s s')
  case (Cons sc scs)
  obtain c t c' t' where h: "kbd_handle_scancode sc s = (c, t)" "kbd_handle_scancode sc s' = (c', t')" by (metis surj_pair)
  have "c' = c" "g_shift t' = g_shift t" using Cons.prems h by (auto simp: kbd_handle_scancode_def Let_def split: if_splits)
  then show ?case using Cons.IH [of t' t] by (simp add: h)
qed simp

lemma handle_keeps_buffer: "kbd_items (snd (kbd_handle_scancode sc s)) = kbd_items s" "kbd_inv (snd (kbd_handle_scancode sc s)) = kbd_inv s"
  by (simp_all add: kbd_handle_scancode_def Let_def kbd_items_def kbd_count_def kbd_inv_def)

text \<open>Key interrupts one after the other, each at its own saved frame.\<close>

fun key_irqs :: "'d env \<Rightarrow> (u64 \<times> u8) list \<Rightarrow> 'd kernel \<Rightarrow> 'd kernel option" where
  "key_irqs e [] k = Some k"
| "key_irqs e ((regs, sc) # keys) k =
     (case isr_handler (e\<lparr>e_inb := (\<lambda>_. sc)\<rparr>) regs k of Some (Resume r k') \<Rightarrow> if r = regs then key_irqs e keys k' else None | _ \<Rightarrow> None)"

lemma key_irqs_spec:
  assumes "kbd_inv (w_kbd (k_world k))" "\<forall>(a, sc) \<in> set keys. s_words (k_sched k) (a + 120) = 33"
    and "length (kbd_items (w_kbd (k_world k)) @ typed (List.map snd keys) (w_kbd (k_world k))) \<le> 127"
  shows "\<exists>k' kb. key_irqs e keys k = Some k' \<and> k_sched k' = k_sched k \<and> k_world k' = (k_world k)\<lparr>w_kbd := kb\<rparr>
    \<and> kbd_inv kb \<and> kbd_items kb = kbd_items (w_kbd (k_world k)) @ typed (List.map snd keys) (w_kbd (k_world k))"
  using assms
proof (induction keys arbitrary: k)
  case (Cons x keys)
  obtain a sc where x: "x = (a, sc)" by (cases x)
  let ?kb = "w_kbd (k_world k)"
  obtain c s where cs: "kbd_handle_scancode sc ?kb = (c, s)" by (cases "kbd_handle_scancode sc ?kb")
  have s: "kbd_items s = kbd_items ?kb" "kbd_inv s" using handle_keeps_buffer [of sc ?kb] cs Cons.prems(1) by simp_all
  define kb1 where "kb1 = (if sint c \<ge> 32 \<or> c = 10 \<or> c = 8 \<or> c = 9 then kbd_buffer_push c s else s)"
  let ?k1 = "kbd_irq (e\<lparr>e_inb := (\<lambda>_. sc)\<rparr>) k"
  have k1: "k_sched ?k1 = k_sched k" "k_world ?k1 = (k_world k)\<lparr>w_kbd := kb1\<rparr>"
    by (simp_all add: kbd_irq_def cs send_eoi_def kb1_def)
  have isr: "isr_handler (e\<lparr>e_inb := (\<lambda>_. sc)\<rparr>) a k = Some (Resume a ?k1)"
    using Cons.prems(2) by (simp add: x isr_handler_def Let_def)
  have sh: "g_shift kb1 = g_shift s" by (simp add: kb1_def kbd_buffer_push_def Let_def)
  have t: "kbd_items ?kb @ typed (List.map snd (x # keys)) ?kb = kbd_items kb1 @ typed (List.map snd keys) kb1" "kbd_inv kb1"
    using Cons.prems(3) ring.push_room [OF s(2), of c] ring.push_valid [OF s(2)] s typed_shift [OF sh]
    by (auto simp: x cs kb1_def split: if_splits)
  have l: "length (kbd_items kb1 @ typed (List.map snd keys) kb1) \<le> 127" using Cons.prems(3) unfolding t(1) .
  have "\<exists>k' kb. key_irqs e keys ?k1 = Some k' \<and> k_sched k' = k_sched ?k1 \<and> k_world k' = (k_world ?k1)\<lparr>w_kbd := kb\<rparr>
    \<and> kbd_inv kb \<and> kbd_items kb = kbd_items (w_kbd (k_world ?k1)) @ typed (List.map snd keys) (w_kbd (k_world ?k1))"
    by (rule Cons.IH) (use Cons.prems(2) t(2) l k1 in auto)
  then show ?case using isr k1 t(1) by (auto simp: x)
next
  case Nil
  then show ?case by (intro exI [of _ k] exI [of _ "w_kbd (k_world k)"]) simp
qed

text \<open>What a read of the terminal would deliver: typed characters first, then the serial port's.\<close>

definition input_ready :: "'d kernel \<Rightarrow> u8 list \<Rightarrow> u8 list" where
  "input_ready k scs = List.map del_bs (kbd_items (w_kbd (k_world k)) @ typed scs (w_kbd (k_world k)) @ w_uart (k_world k))"

lemma leave_same_tab: "w_tab w = w_tab (enter_fs k) \<Longrightarrow> k_sched (leave_fs w k) = k_sched k"
proof -
  assume w: "w_tab w = w_tab (enter_fs k)"
  have "upd_task c (\<lambda>x. x\<lparr>t_fds := t_fds (s_tasks s c)\<rparr>) s = s" for c s by simp
  then show ?thesis using w by (simp add: leave_fs_def enter_fs_def)
qed

text \<open>
  C40. What is typed reaches the program. After any key presses and releases that leave the key buffer within
  its 127 characters, a read of standard input returns the characters waiting, typed ones in order with the
  shift state applied, then those of the serial port, up to the length asked for: \<^verbatim>\<open>rax\<close> is their number and
  the program finds them in its buffer.
\<close>

theorem typed_keys_reach_the_program:
  assumes "kbd_inv (w_kbd (k_world k))" and keys: "\<forall>(a, sc) \<in> set keys. s_words (k_sched k) (a + 120) = 33"
    and "length (kbd_items (w_kbd (k_world k)) @ typed (List.map snd keys) (w_kbd (k_world k))) \<le> 127"
    and call: "s_words (k_sched k) (regs + 120) = 0x80" "s_words (k_sched k) (regs + 112) = SYS_READ"
      "s_words (k_sched k) (regs + 72) = 0" "s_words (k_sched k) (regs + 80) = buf" "s_words (k_sched k) (regs + 88) = len"
    and run: "running s0 (s_vm (k_sched k)) root W" and room: "length (input_ready k (List.map snd keys)) < 2 ^ 63"
    and mapped: "\<forall>i < unat len. user_addr (buf + of_nat i) \<and> W (buf + of_nat i) \<noteq> None"
    and cs: "cs = take (unat len) (input_ready k (List.map snd keys))"
  shows "\<exists>k1 k2. key_irqs e keys k = Some k1 \<and> isr_handler e regs k1 = Some (Resume regs k2)
    \<and> s_words (k_sched k2) (regs + 112) = of_nat (length cs)
    \<and> (\<forall>i < length cs. load8 (s_vm (k_sched k2)) (buf + of_nat i) = Some (cs ! i))"
proof -
  obtain k1 kb where k1: "key_irqs e keys k = Some k1" "k_sched k1 = k_sched k" "k_world k1 = (k_world k)\<lparr>w_kbd := kb\<rparr>"
    "kbd_inv kb" "kbd_items kb = kbd_items (w_kbd (k_world k)) @ typed (List.map snd keys) (w_kbd (k_world k))"
    using key_irqs_spec [OF assms(1-3), of e] by blast
  let ?w = "enter_fs k1" and ?ub = "user_buf (s_vm (k_sched k1)) buf"
  have kw: "kbd_inv (w_kbd ?w)" and items: "List.map del_bs (tty_items ?w) = input_ready k (List.map snd keys)"
    using k1(3-5) by (simp_all add: enter_fs_def tty_items_def input_ready_def)
  obtain b w' m where r: "tty_read 0 (unat len) ?ub ?w = (m, b, w')" "m = min (unat len) (length (tty_items ?w))"
    "\<forall>p. b p = (if p < m then del_bs (tty_items ?w ! p) else ?ub p)" "only_input ?w w'"
    using tty_read_spec [OF kw, of 0 "unat len" ?ub] by auto
  have m: "m = length cs" using r(2) items cs by (metis length_map length_take min.commute)
  have lm: "m < 2 ^ 63" using m cs room by simp
  have bcs: "List.map b [0..<m] = cs"
  proof (rule nth_equalityI)
    fix i assume "i < length (List.map b [0..<m])"
    then have "i < m" "i < length (tty_items ?w)" using r(2) by simp_all
    then show "List.map b [0..<m] ! i = cs ! i" using r(3) m by (simp add: cs items [symmetric])
  qed (simp add: m)
  have um: "unat (of_nat m :: u64) = m" using lm by (simp add: unat_of_nat_u64)
  have "k_sched (leave_fs w' k1) = k_sched k1" by (rule leave_same_tab) (use r(4) in \<open>simp add: only_input_def\<close>)
  then have sched: "k_sched (leave_fs w' k1) = k_sched k" using k1(2) by simp
  have W: "user_addr (buf + of_nat i) \<and> W (buf + of_nat i) \<noteq> None" if "i < length cs" for i
    using mapped that cs by simp
  obtain vm where vm: "store_bytes buf cs (s_vm (k_sched k)) = Some vm" "running s0 vm root (wput buf cs W)"
    using store_bytes_running [OF run, of cs buf] W lm m by auto
  let ?k2 = "set_rax regs (of_nat m) ((leave_fs w' k1)\<lparr>k_sched := (k_sched k)\<lparr>s_vm := vm\<rparr>\<rparr>)"
  have "isr_handler e regs k1 = do_read e (frame_regs (s_words (k_sched k1)) regs) regs k1"
    using call(1,2) k1(2) isr_syscall [of k1 regs e] by (simp add: syscall_def sys_numbers)
  also have "\<dots> = Some (Resume regs ?k2)"
    using call(3-5) k1(2) r(1) um bcs vm(1) sched
    by (simp add: do_read_def int_arg_def sys_read_def Let_def copy_to_user_def resume_with_def)
  finally have isr: "isr_handler e regs k1 = Some (Resume regs ?k2)" .
  have "load8 (s_vm (k_sched ?k2)) (buf + of_nat i) = Some (cs ! i)" if "i < length cs" for i
  proof -
    have "unat (of_nat i :: u64) = i" using that lm m by (simp add: unat_of_nat_u64)
    then show ?thesis using running_load8 [OF vm(2)] W [OF that] that by (simp add: set_rax_def wput_def)
  qed
  then show ?thesis using k1(1) isr m by (intro exI [of _ k1] exI [of _ ?k2]) (simp add: set_rax_def)
qed

section \<open>Witnesses\<close>

text \<open>A kernel in which one task runs in the space of the page-table examples.\<close>

definition demo_words :: "u64 \<Rightarrow> u64" where
  "demo_words = (\<lambda>_. 0)(0x5078 := 0x80, 0x5070 := 3, 0x5050 := demo_page, 0x5058 := 2, 0x6078 := 33)"

definition demo_kernel_state :: "disk \<Rightarrow> drive kernel" where
  "demo_kernel_state d = \<lparr>
     k_sched = \<lparr>s_tasks = (\<lambda>_. \<lparr>t_rsp = 0, t_next = 8, t_parent = 0, t_fds = closed_table, t_state = RUNNABLE, t_wake = 0,
         t_kstop = 0, t_kbase = 0, t_pml4 = demo_root\<rparr>), s_current = 8, s_ticks = 0, s_next_pid = 2,
       s_words = demo_words, s_heap = fresh_heap, s_vm = vmm_switch demo_root demo_vm, s_rsp0 = 0\<rparr>,
     k_world = (demo_world d)\<lparr>w_kbd := \<lparr>g_shift = False, kbd_buf = (\<lambda>_. 0), kbd_head = 0, kbd_tail = 0\<rparr>, w_uart := []\<rparr>,
     k_argbuf = (\<lambda>_. []), k_mouse = \<lparr>m_x = 0, m_y = 0, m_buttons = 0, m_packet = (\<lambda>_. 0), m_phase = 0\<rparr>,
     k_out = \<lparr>ko_serial = [], ko_console = console_boot, ko_fb = demo_fb\<rparr>, k_ports = []\<rparr>"

definition demo_env :: "drive env" where
  "demo_env = \<lparr>e_write = vblk_write ideal_dev, e_stuck = (\<lambda>d. d = None), e_images = ((0, 0), (0, 0), (0, 0)), e_inb = (\<lambda>_. 0), e_cr2 = 0\<rparr>"

lemma bad_calls_fail_cleanly_witness:
  "\<forall>d. isr_handler demo_env 0x5000 (set_rax 0x5000 8 (demo_kernel_state d))
     = Some (Resume 0x5000 (set_rax 0x5000 (- 1) (set_rax 0x5000 8 (demo_kernel_state d))))"
proof
  fix d
  let ?k = "set_rax 0x5000 8 (demo_kernel_state d)"
  have w: "s_words (k_sched ?k) (0x5000 + 120) = 0x80" "s_words (k_sched ?k) (0x5000 + 112) = 8" "s_words (k_sched ?k) (0x5000 + 72) = 0"
    by (simp_all add: set_rax_def demo_kernel_state_def demo_words_def demo_page_def)
  show "isr_handler demo_env 0x5000 ?k = Some (Resume 0x5000 (set_rax 0x5000 (- 1) ?k))"
    by (rule bad_calls_fail_cleanly [OF w(1) refl refl])
      (use w drive_ready_Some [OF durable_ready [OF demo_world_durable(2)], of d] in \<open>auto simp: file_call_def fd_closed_def
        int_arg_def sys_numbers demo_env_def demo_kernel_state_def set_rax_def\<close>)
qed

lemma demo_running: "running demo_kernel (vmm_switch demo_root demo_vm) demo_root (user_view demo_vm demo_root)"
  by (rule holds_switch) (simp add: holds_def demo_vm_ok(1))

lemma demo_page_mapped:
  assumes "i < 2"
  shows "user_addr (demo_page + of_nat i)" "user_view demo_vm demo_root (demo_page + of_nat i) \<noteq> None"
proof -
  have i: "i = 0 \<or> i = 1" using assms by linarith
  then show "user_addr (demo_page + of_nat i)" by (auto simp: user_addr_def demo_page_def)
  obtain e where "leaf (vm_mem demo_vm) demo_root (page_path demo_page) (pt_index demo_page) = Some e" using demo_vm_ok(2) by blast
  moreover have "page_path (demo_page + of_nat i) = page_path demo_page" "pt_index (demo_page + of_nat i) = pt_index demo_page"
    using i by (auto simp: page_path_def demo_page_def unat_index)
  ultimately have "leaf (vm_mem demo_vm) demo_root (page_path (demo_page + of_nat i)) (pt_index (demo_page + of_nat i)) = Some e" by simp
  then have "translate (vm_mem demo_vm) demo_root (demo_page + of_nat i) = Some (target e OR ((demo_page + of_nat i) AND mask 12))"
    unfolding translate_iff by blast
  then show "user_view demo_vm demo_root (demo_page + of_nat i) \<noteq> None" by (simp add: user_view_def)
qed

text \<open>Shift down, the key of the letter h, shift up, the letter i: the program reads "Hi".\<close>

lemma typed_keys_reach_the_program_witness:
  "\<forall>d. \<exists>k1 k2. key_irqs demo_env [(0x6000, 0x2A), (0x6000, 0x23), (0x6000, 0xAA), (0x6000, 0x17)] (demo_kernel_state d) = Some k1
     \<and> isr_handler demo_env 0x5000 k1 = Some (Resume 0x5000 k2) \<and> s_words (k_sched k2) (0x5000 + 112) = 2
     \<and> load8 (s_vm (k_sched k2)) demo_page = Some 72 \<and> load8 (s_vm (k_sched k2)) (demo_page + 1) = Some 105"
proof
  fix d
  let ?k = "demo_kernel_state d" and ?keys = "[(0x6000, 0x2A), (0x6000, 0x23), (0x6000, 0xAA), (0x6000, 0x17)] :: (u64 \<times> u8) list"
  have w: "s_words (k_sched ?k) (0x5000 + 120) = 0x80" "s_words (k_sched ?k) (0x5000 + 112) = SYS_READ" "s_words (k_sched ?k) (0x5000 + 72) = 0"
    "s_words (k_sched ?k) (0x5000 + 80) = demo_page" "s_words (k_sched ?k) (0x5000 + 88) = 2"
    by (simp_all add: demo_kernel_state_def demo_words_def sys_numbers)
  have t: "typed (List.map snd ?keys) (w_kbd (k_world ?k)) = [72, 105]"
    by (simp add: demo_kernel_state_def kbd_handle_scancode_def map_upper_def map_lower_def Let_def)
  have i: "kbd_items (w_kbd (k_world ?k)) = []" "kbd_inv (w_kbd (k_world ?k))" "w_uart (k_world ?k) = []"
    by (simp_all add: demo_kernel_state_def kbd_items_def kbd_count_def kbd_inv_def)
  then have r: "input_ready ?k (List.map snd ?keys) = [72, 105]" unfolding input_ready_def t by (simp add: del_bs_def)
  have run: "running demo_kernel (s_vm (k_sched ?k)) demo_root (user_view demo_vm demo_root)"
    using demo_running by (simp add: demo_kernel_state_def)
  have "\<exists>k1 k2. key_irqs demo_env ?keys ?k = Some k1 \<and> isr_handler demo_env 0x5000 k1 = Some (Resume 0x5000 k2)
    \<and> s_words (k_sched k2) (0x5000 + 112) = of_nat (length [72, 105 :: u8])
    \<and> (\<forall>i < length [72, 105 :: u8]. load8 (s_vm (k_sched k2)) (demo_page + of_nat i) = Some ([72, 105] ! i))"
  proof (rule typed_keys_reach_the_program [OF i(2) _ _ w run])
    show "\<forall>(a, sc) \<in> set ?keys. s_words (k_sched ?k) (a + 120) = 33" by (simp add: demo_kernel_state_def demo_words_def)
    show "length (kbd_items (w_kbd (k_world ?k)) @ typed (List.map snd ?keys) (w_kbd (k_world ?k))) \<le> 127"
      unfolding t i(1) by simp
    show "length (input_ready ?k (List.map snd ?keys)) < 2 ^ 63" "[72, 105] = take (unat (2 :: u64)) (input_ready ?k (List.map snd ?keys))"
      unfolding r by simp_all
    show "\<forall>i < unat (2 :: u64). user_addr (demo_page + of_nat i) \<and> user_view demo_vm demo_root (demo_page + of_nat i) \<noteq> None"
      using demo_page_mapped by simp
  qed
  then obtain k1 k2 where k: "key_irqs demo_env ?keys ?k = Some k1" "isr_handler demo_env 0x5000 k1 = Some (Resume 0x5000 k2)"
    "s_words (k_sched k2) (0x5000 + 112) = 2" "\<forall>i < 2. load8 (s_vm (k_sched k2)) (demo_page + of_nat i) = Some ([72, 105] ! i)"
    by auto
  from k(4) have "load8 (s_vm (k_sched k2)) demo_page = Some 72" "load8 (s_vm (k_sched k2)) (demo_page + 1) = Some 105"
    by (auto dest: spec [of _ 0] spec [of _ 1])
  then show "\<exists>k1 k2. key_irqs demo_env ?keys ?k = Some k1
     \<and> isr_handler demo_env 0x5000 k1 = Some (Resume 0x5000 k2) \<and> s_words (k_sched k2) (0x5000 + 112) = 2
     \<and> load8 (s_vm (k_sched k2)) demo_page = Some 72 \<and> load8 (s_vm (k_sched k2)) (demo_page + 1) = Some 105"
    using k by blast
qed

end
