(* ===== verification/Desc.thy ===== *)
theory Desc
  imports Hrafn_Prelude
begin

text \<open>
  The processor's descriptor tables (kernel/gdt.cpp and the first part of kernel/idt.cpp). Addresses of
  symbols are arguments; loading the registers of the processor is left out. The lemmas decode what the
  functions encode, as the processor does.
\<close>

section \<open>Interrupt gates\<close>

record idt_entry =
  offset_low :: u16
  selector :: u16
  ist :: u8
  type_attr :: u8
  offset_mid :: u16
  offset_high :: u32
  gate_zero :: u32

definition idt_set_gate_ex :: "nat \<Rightarrow> u64 \<Rightarrow> u8 \<Rightarrow> (nat \<Rightarrow> idt_entry) \<Rightarrow> nat \<Rightarrow> idt_entry" where
  "idt_set_gate_ex n addr ty idt = idt(n :=
     \<lparr>offset_low = ucast (addr AND 0xFFFF), selector = 0x08, ist = 0, type_attr = ty,
      offset_mid = ucast (drop_bit 16 addr AND 0xFFFF), offset_high = ucast (drop_bit 32 addr AND 0xFFFFFFFF), gate_zero = 0\<rparr>)"

definition idt_set_gate :: "nat \<Rightarrow> u64 \<Rightarrow> (nat \<Rightarrow> idt_entry) \<Rightarrow> nat \<Rightarrow> idt_entry" where
  "idt_set_gate n handler idt = idt_set_gate_ex n handler 0x8E idt"

definition idt_init :: "(nat \<Rightarrow> u64) \<Rightarrow> u64 \<Rightarrow> (nat \<Rightarrow> idt_entry) \<Rightarrow> nat \<Rightarrow> idt_entry" where
  "idt_init isr_stub_table syscall_stub idt =
     idt_set_gate_ex 0x80 syscall_stub 0xEE (fold (\<lambda>i. idt_set_gate i (isr_stub_table i)) [0..<49] idt)"

text \<open>The processor's reading of a gate: handler, presence, privilege level.\<close>

definition gate_target :: "idt_entry \<Rightarrow> u64" where
  "gate_target e = ucast (offset_low e) OR push_bit 16 (ucast (offset_mid e)) OR push_bit 32 (ucast (offset_high e))"

definition gate_present :: "idt_entry \<Rightarrow> bool" where
  "gate_present e \<longleftrightarrow> bit (type_attr e) 7"

definition gate_dpl :: "idt_entry \<Rightarrow> nat" where
  "gate_dpl e = unat (drop_bit 5 (type_attr e) AND 3)"

lemma gate_roundtrip: "gate_target (idt_set_gate_ex n addr ty idt n) = addr"
proof (rule bit_word_eqI)
  fix k assume k: "k < LENGTH(64)"
  have a: "(0xFFFF :: u64) = mask 16" and b: "(0xFFFFFFFF :: u64) = mask 32" by (simp_all add: mask_eq_exp_minus_1)
  let ?e = "idt_set_gate_ex n addr ty idt n"
  have 1: "bit (ucast (offset_low ?e) :: u64) k \<longleftrightarrow> k < 16 \<and> bit addr k"
    unfolding idt_set_gate_ex_def a by (auto simp: bit_simps)
  have 2: "bit (push_bit 16 (ucast (offset_mid ?e) :: u64)) k \<longleftrightarrow> 16 \<le> k \<and> k < 32 \<and> bit addr (16 + (k - 16))"
    unfolding idt_set_gate_ex_def a by (auto simp: bit_simps)
  have 3: "bit (push_bit 32 (ucast (offset_high ?e) :: u64)) k \<longleftrightarrow> 32 \<le> k \<and> k < 64 \<and> bit addr (32 + (k - 32))"
    unfolding idt_set_gate_ex_def b by (auto simp: bit_simps)
  consider "k < 16" | "16 \<le> k \<and> k < 32" | "32 \<le> k" by linarith
  then show "bit (gate_target ?e) k = bit addr k"
    unfolding gate_target_def bit_or_iff 1 2 3 using k by cases simp_all
qed

lemma gate_attrs:
  "gate_present (idt_set_gate_ex n addr 0x8E idt n)" "gate_dpl (idt_set_gate_ex n addr 0x8E idt n) = 0"
  "gate_present (idt_set_gate_ex n addr 0xEE idt n)" "gate_dpl (idt_set_gate_ex n addr 0xEE idt n) = 3"
  by (simp_all add: gate_present_def gate_dpl_def idt_set_gate_ex_def bit_numeral_rec)

lemma gates_fold:
  "fold (\<lambda>i. idt_set_gate i (f i)) [0..<k] idt n = (if n < k then idt_set_gate n (f n) idt n else idt n)"
  by (induction k) (auto simp: idt_set_gate_def idt_set_gate_ex_def)

text \<open>
  After \<^verbatim>\<open>idt_init\<close> the vectors 0 to 48 lead to their stubs and only the kernel may raise them; vector 0x80
  leads to the system call stub and is the only one a program may raise; nothing else is touched.
\<close>

lemma idt_gates:
  "n < 49 \<Longrightarrow> gate_present (idt_init stubs sysc idt n) \<and> gate_target (idt_init stubs sysc idt n) = stubs n \<and> gate_dpl (idt_init stubs sysc idt n) = 0"
  "gate_present (idt_init stubs sysc idt 0x80) \<and> gate_target (idt_init stubs sysc idt 0x80) = sysc \<and> gate_dpl (idt_init stubs sysc idt 0x80) = 3"
  "49 \<le> n \<Longrightarrow> n \<noteq> 0x80 \<Longrightarrow> idt_init stubs sysc idt n = idt n"
proof -
  show "gate_present (idt_init stubs sysc idt n) \<and> gate_target (idt_init stubs sysc idt n) = stubs n \<and> gate_dpl (idt_init stubs sysc idt n) = 0"
    if n: "n < 49"
  proof -
    have "idt_init stubs sysc idt n = idt_set_gate_ex n (stubs n) 0x8E idt n"
      using n by (simp add: idt_init_def idt_set_gate_ex_def gates_fold idt_set_gate_def)
    then show ?thesis by (simp add: gate_attrs gate_roundtrip)
  qed
  have e: "idt_init stubs sysc idt 0x80 = idt_set_gate_ex 0x80 sysc 0xEE idt 0x80"
    by (simp add: idt_init_def idt_set_gate_ex_def)
  show "gate_present (idt_init stubs sysc idt 0x80) \<and> gate_target (idt_init stubs sysc idt 0x80) = sysc \<and> gate_dpl (idt_init stubs sysc idt 0x80) = 3"
    unfolding e by (simp only: gate_attrs gate_roundtrip simp_thms)
  show "49 \<le> n \<Longrightarrow> n \<noteq> 0x80 \<Longrightarrow> idt_init stubs sysc idt n = idt n"
    by (simp add: idt_init_def idt_set_gate_ex_def gates_fold)
qed

section \<open>Segments and the task state segment\<close>

record tss =
  tss_rsp0 :: u64
  tss_iopb_offset :: u16

definition SIZEOF_TSS :: u32 where "SIZEOF_TSS = 104"

definition tss_set_rsp0 :: "u64 \<Rightarrow> tss \<Rightarrow> tss" where
  "tss_set_rsp0 rsp0 t = t\<lparr>tss_rsp0 := rsp0\<rparr>"

definition tss_low :: "u64 \<Rightarrow> u32 \<Rightarrow> u64" where
  "tss_low base limit =
     (let l1 = (ucast (limit AND 0xFFFF) :: u64);
          l2 = l1 OR push_bit 16 (base AND 0xFFFFFF);
          l3 = l2 OR push_bit 40 0x89;
          l4 = l3 OR push_bit 48 (ucast (drop_bit 16 limit AND 0xF))
      in l4 OR push_bit 56 (drop_bit 24 base AND 0xFF))"

definition gdt_init :: "u64 \<Rightarrow> u64 \<Rightarrow> (nat \<Rightarrow> u64) \<times> tss \<Rightarrow> (nat \<Rightarrow> u64) \<times> tss" where
  "gdt_init tss_addr kstack0 = (\<lambda>(gdt, t).
     (gdt(0 := 0, 1 := 0x00af9a000000ffff, 2 := 0x00af92000000ffff, 3 := 0x00affa000000ffff, 4 := 0x00aff2000000ffff,
          5 := tss_low tss_addr (SIZEOF_TSS - 1), 6 := drop_bit 32 tss_addr AND 0xFFFFFFFF),
      t\<lparr>tss_rsp0 := kstack0 + 16384, tss_iopb_offset := ucast SIZEOF_TSS\<rparr>))"

text \<open>The processor's reading of a system descriptor of two slots.\<close>

definition desc_base :: "u64 \<Rightarrow> u64 \<Rightarrow> u64" where
  "desc_base lo hi = (drop_bit 16 lo AND mask 24) OR push_bit 24 (drop_bit 56 lo) OR push_bit 32 hi"

definition desc_limit :: "u64 \<Rightarrow> u64" where
  "desc_limit lo = (lo AND mask 16) OR push_bit 16 (drop_bit 48 lo AND mask 4)"

definition desc_dpl :: "u64 \<Rightarrow> nat" where
  "desc_dpl d = unat (drop_bit 45 d AND 3)"

lemma word_masks: "(0xFFFF :: u32) = mask 16" "(0xF :: u32) = mask 4" "(0xFFFFFF :: u64) = mask 24" "(0xFF :: u64) = mask 8"
  "(0xFFFFFFFF :: u64) = mask 32"
  by (simp_all add: mask_eq_exp_minus_1)

lemma bit_89: "bit (0x89 :: u64) k \<longleftrightarrow> k \<in> {0, 3, 7}"
proof (cases "k < 8")
  case True
  then have "k \<in> {0, 1, 2, 3, 4, 5, 6, 7}" by auto
  then show ?thesis by (auto simp: bit_numeral_rec)
next
  case False
  have e: "take_bit 8 (0x89 :: u64) = 0x89" by (simp add: take_bit_numeral_numeral)
  have "bit (0x89 :: u64) k \<longleftrightarrow> k < 8 \<and> bit (0x89 :: u64) k" using bit_take_bit_iff [of 8 "0x89 :: u64" k] unfolding e .
  then show ?thesis using False by auto
qed

lemma tss_descriptor:
  "desc_base (fst (gdt_init base ks (g, t)) 5) (fst (gdt_init base ks (g, t)) 6) = base"
  "desc_limit (fst (gdt_init base ks (g, t)) 5) = 103"
proof -
  have b: "bit (tss_low base limit) k \<longleftrightarrow> (k < 16 \<and> bit limit k) \<or> (16 \<le> k \<and> k < 40 \<and> bit base (k - 16))
      \<or> (40 \<le> k \<and> k < 64 \<and> bit (0x89 :: u64) (k - 40)) \<or> (48 \<le> k \<and> k < 52 \<and> bit limit (16 + (k - 48))) \<or> (56 \<le> k \<and> k < 64 \<and> bit base (24 + (k - 56)))" for limit k
  proof -
    have 1: "bit (ucast (limit AND mask 16) :: u64) k \<longleftrightarrow> k < 16 \<and> bit limit k" by (auto simp: bit_simps)
    have 2: "bit (push_bit 16 (base AND mask 24)) k \<longleftrightarrow> 16 \<le> k \<and> k < 40 \<and> bit base (k - 16)" by (auto simp: bit_simps)
    have 3: "bit (push_bit 40 (0x89 :: u64)) k \<longleftrightarrow> 40 \<le> k \<and> k < 64 \<and> bit (0x89 :: u64) (k - 40)"
      unfolding bit_push_bit_iff by auto
    have 4: "bit (push_bit 48 (ucast (drop_bit 16 limit AND mask 4)) :: u64) k \<longleftrightarrow> 48 \<le> k \<and> k < 52 \<and> bit limit (16 + (k - 48))"
      by (auto simp: bit_simps)
    have 5: "bit (push_bit 56 (drop_bit 24 base AND mask 8)) k \<longleftrightarrow> 56 \<le> k \<and> k < 64 \<and> bit base (24 + (k - 56))"
      by (auto simp: bit_simps)
    show ?thesis unfolding tss_low_def Let_def word_masks bit_or_iff 1 2 3 4 5 by (simp only: disj_assoc)
  qed
  have g: "fst (gdt_init base ks (g, t)) 5 = tss_low base 103" "fst (gdt_init base ks (g, t)) 6 = drop_bit 32 base AND mask 32"
    by (simp_all add: gdt_init_def SIZEOF_TSS_def word_masks)
  show "desc_base (fst (gdt_init base ks (g, t)) 5) (fst (gdt_init base ks (g, t)) 6) = base"
    unfolding g
  proof (rule bit_word_eqI)
    fix k assume k: "k < LENGTH(64)"
    have "bit (desc_base lo (drop_bit 32 base AND mask 32)) k \<longleftrightarrow> (k < 24 \<and> bit lo (16 + k)) \<or> (24 \<le> k \<and> bit lo (56 + (k - 24)))
        \<or> (32 \<le> k \<and> bit base (32 + (k - 32)))" for lo
      unfolding desc_base_def using k by (auto simp: bit_simps)
    then show "bit (desc_base (tss_low base 103) (drop_bit 32 base AND mask 32)) k = bit base k"
      by (cases "k < 24"; cases "k < 32") (use k in \<open>auto simp: b bit_89 simp del: bit_numeral_word_iff\<close>)
  qed
  have e: "take_bit 16 (103 :: u32) = 103" by (simp add: take_bit_numeral_numeral)
  have z: "\<not> bit (103 :: u32) k" if "16 \<le> k" for k
    using bit_take_bit_iff [of 16 "103 :: u32" k] that unfolding e by simp
  have c: "ucast (103 :: u32) = (103 :: u64)" by simp
  have u: "bit (103 :: u64) k \<longleftrightarrow> k < 64 \<and> bit (103 :: u32) k" for k
    using bit_ucast_iff [of "103 :: u32" k, where 'a = 64] unfolding c by simp
  show "desc_limit (fst (gdt_init base ks (g, t)) 5) = 103"
    unfolding g
  proof (rule bit_word_eqI)
    fix k assume k: "k < LENGTH(64)"
    have l: "bit (desc_limit lo) k \<longleftrightarrow> (k < 16 \<and> bit lo k) \<or> (16 \<le> k \<and> k < 20 \<and> bit lo (48 + (k - 16)))" for lo
      unfolding desc_limit_def using k by (auto simp: bit_simps)
    show "bit (desc_limit (tss_low base 103)) k = bit (103 :: u64) k"
      unfolding l b bit_89 using k by (cases "k < 16"; cases "k < 20") (auto simp: u z simp del: bit_numeral_word_iff)
  qed
qed

text \<open>The selectors that the scheduler and \<open>exec\<close> use name the code and data segments of the two privilege levels.\<close>

lemma segment_privileges:
  "desc_dpl (fst (gdt_init base ks (g, t)) (0x08 div 8)) = 0" "desc_dpl (fst (gdt_init base ks (g, t)) (0x10 div 8)) = 0"
  "desc_dpl (fst (gdt_init base ks (g, t)) (0x1B div 8)) = 3" "desc_dpl (fst (gdt_init base ks (g, t)) (0x23 div 8)) = 3"
  by (simp_all add: desc_dpl_def gdt_init_def drop_bit_eq_div)

end
