(* ===== verification/Boot_Map.thy ===== *)
theory Boot_Map
  imports Vmm_Props Heap Serial
begin

text \<open>
  The mappings the kernel makes of its own space while it boots: the frames behind the heap's arena
  (\<^verbatim>\<open>heap_init\<close> of kernel/heap.cpp) and the identity mapping of the framebuffer (\<^verbatim>\<open>fb_init\<close> of
  kernel/fb.cpp). Boot information and page tables are read in physical memory, which the kernel's
  space maps to itself. The lemmas show what the processor translates in that space afterwards.
\<close>

section \<open>The arena of the heap\<close>

definition map_arena_page :: "nat \<Rightarrow> vmm \<Rightarrow> vmm" where
  "map_arena_page k s =
     (let (frame, p) = pmm_alloc_frame (vm_pmm s)
      in vmm_map_page (of_nat HEAP_BASE + of_nat k * 4096) frame (PAGE_PRESENT OR PAGE_WRITABLE) (s\<lparr>vm_pmm := p\<rparr>))"

definition map_arena :: "vmm \<Rightarrow> vmm" where
  "map_arena s = fold map_arena_page [0..<HEAP_SIZE div 4096] s"

definition heap_init :: "heap \<times> vmm \<Rightarrow> heap \<times> vmm" where
  "heap_init = (\<lambda>(h, s). (heap_init_list h, map_arena s))"

section \<open>The framebuffer\<close>

record mb_fb_tag =
  tag_addr :: u64
  tag_pitch :: u32
  tag_width :: u32
  tag_height :: u32
  tag_bpp :: u8
  tag_fb_type :: u8

definition rd_fb_tag :: "mem \<Rightarrow> u64 \<Rightarrow> mb_fb_tag" where
  "rd_fb_tag m t = \<lparr>tag_addr = rd64 m (t + 8), tag_pitch = rd32 m (t + 16), tag_width = rd32 m (t + 20),
     tag_height = rd32 m (t + 24), tag_bpp = m (t + 28), tag_fb_type = m (t + 29)\<rparr>"

definition find_fb_tag :: "mem \<Rightarrow> u64 \<Rightarrow> u64 option" where
  "find_fb_tag m mb_info_addr = find_tag 8 m (mb_info_addr + 8)"

definition fb_report :: "mb_fb_tag \<Rightarrow> kout \<Rightarrow> kout" where
  "fb_report t k =
     (let k1 = kprint_ptr (tag_addr t) (kprint (str ''fb: addr='') k);
          k2 = kprint_uint (tag_width t) (kprint (str '' '') k1);
          k3 = kprint_uint (tag_height t) (kprint (str ''x'') k2);
          k4 = kprint_uint (ucast (tag_bpp t)) (kprint (str '' bpp='') k3);
          k5 = kprint_uint (tag_pitch t) (kprint (str '' pitch='') k4)
      in kprint_char 10 (kprint_uint (ucast (tag_fb_type t)) (kprint (str '' type='') k5)))"

definition fb_pages :: "mb_fb_tag \<Rightarrow> u64" where
  "fb_pages t = (ucast (tag_pitch t) * ucast (tag_height t) + 0xFFF) div 0x1000"

definition map_same :: "u64 \<Rightarrow> nat \<Rightarrow> vmm \<Rightarrow> vmm" where
  "map_same base i s =
     (let a = base + of_nat i * 0x1000 in vmm_map_page a a (PAGE_PRESENT OR PAGE_WRITABLE) s)"

text \<open>\<open>None\<close> is a tag list that does not end; the flag is the result.\<close>

definition fb_init :: "u64 \<Rightarrow> kout \<times> vmm \<Rightarrow> (bool \<times> kout \<times> vmm) option" where
  "fb_init mb_info_addr = (\<lambda>(k, s). case find_fb_tag (vm_mem s) mb_info_addr of
     None \<Rightarrow> None
   | Some p \<Rightarrow>
       if p = 0 then Some (False, kprint (str ''fb: no framebuffer tag from GRUB'' @ [10]) k, s)
       else
         (let t = rd_fb_tag (vm_mem s) p;
              k1 = k\<lparr>ko_fb := (ko_fb k)\<lparr>g_pitch := tag_pitch t, g_width := tag_width t, g_height := tag_height t,
                       g_bpp := ucast (tag_bpp t)\<rparr>\<rparr>;
              k2 = fb_report t k1
          in if g_bpp (ko_fb k2) \<noteq> 32
             then Some (False, kprint (str ''fb: expected 32 bpp; bailing for now'' @ [10]) k2, s)
             else let base = tag_addr t AND NOT 0xFFF;
                      s1 = fold (map_same base) [0..<unat (fb_pages t)] s;
                      k3 = k2\<lparr>ko_fb := (ko_fb k2)\<lparr>g_fb := tag_addr t\<rparr>\<rparr>
                  in Some (True, kprint (str '' pages'' @ [10]) (kprint_uint (ucast (fb_pages t)) (kprint (str ''fb: mapped '') k3)), s1)))"

section \<open>One mapping of the kernel's space\<close>

definition kspace :: "vmm \<Rightarrow> bool" where
  "kspace s \<longleftrightarrow> tree_ok s (kernel_pml4 s) \<and> pool_inv (vm_pmm s)"

abbreviation ktrans :: "vmm \<Rightarrow> u64 \<Rightarrow> u64 option" where
  "ktrans s v \<equiv> translate (vm_mem s) (kernel_pml4 s) v"

abbreviation kclear :: "vmm \<Rightarrow> u64 \<Rightarrow> bool" where
  "kclear s v \<equiv> path_clear (vm_mem s) (kernel_pml4 s) v"

abbreviation ktable :: "vmm \<Rightarrow> nat list \<Rightarrow> u64 option" where
  "ktable s q \<equiv> tbl (vm_mem s) (kernel_pml4 s) q"

definition ktable_page :: "vmm \<Rightarrow> nat \<Rightarrow> bool" where
  "ktable_page s f \<longleftrightarrow> (\<exists>q t. vpath q \<and> ktable s q = Some t \<and> page_of t = f)"

lemma ktable_page_pmm [simp]: "ktable_page (s\<lparr>vm_pmm := p\<rparr>) f = ktable_page s f"
  by (simp add: ktable_page_def)

lemma map_kernel_page:
  assumes k: "kspace s" and c: "kclear s v" and n: "3 \<le> card (free_set (vm_pmm s))" and fl: "flags < 0x1000"
    and s': "s' = vmm_map_page v phys flags s"
  shows "kspace s'" "kernel_pml4 s' = kernel_pml4 s" "free_set (vm_pmm s') \<subseteq> free_set (vm_pmm s)"
    "card (free_set (vm_pmm s)) \<le> card (free_set (vm_pmm s')) + 3"
    "\<And>w. kclear s w \<Longrightarrow> kclear s' w"
    "\<And>q t. vpath q \<Longrightarrow> ktable s' q = Some t \<Longrightarrow> ktable s q = Some t \<or> page_of t \<in> free_set (vm_pmm s)"
    "\<And>x. vm_mem s' x \<noteq> vm_mem s x \<Longrightarrow> page_of x \<in> free_set (vm_pmm s) \<or> ktable_page s (page_of x)"
    "\<And>w. unat v < 2 ^ 48 \<Longrightarrow> unat w < 2 ^ 48 \<Longrightarrow>
       ktrans s' w = (if page_of w = page_of v then Some (target phys OR (w AND mask 12)) else ktrans s w)"
proof -
  let ?e = "target phys OR flags OR PAGE_PRESENT"
  have m: "maps (kernel_pml4 s) v ?e s s'"
    using map_in_maps [OF k [unfolded kspace_def, THEN conjunct1] k [unfolded kspace_def, THEN conjunct2] c n, of phys flags]
    by (simp add: s' vmm_map_page_def target_def)
  note e = map_entry [OF fl, of phys]
  note M = mapsD [OF m e(1)]
  show r: "kernel_pml4 s' = kernel_pml4 s" by (rule M(3))
  show "kspace s'" unfolding kspace_def r using M(1,2) ..
  show "free_set (vm_pmm s') \<subseteq> free_set (vm_pmm s)" "card (free_set (vm_pmm s)) \<le> card (free_set (vm_pmm s')) + 3"
    by (rule M(5), rule M(6))
  show "kclear s' w" if "kclear s w" for w unfolding r by (rule path_clear_maps [OF that m e(1)])
  show "ktable s q = Some t \<or> page_of t \<in> free_set (vm_pmm s)" if "vpath q" "ktable s' q = Some t" for q t
    using M(7,8) [OF that(1)] that(2) unfolding r by (cases "ktable s q") auto
  show "page_of x \<in> free_set (vm_pmm s) \<or> ktable_page s (page_of x)" if "vm_mem s' x \<noteq> vm_mem s x" for x
    using M(13) [OF that] vpath_prefix [OF vpath_page [of v]] unfolding ktable_page_def by metis
  show "ktrans s' w = (if page_of w = page_of v then Some (target phys OR (w AND mask 12)) else ktrans s w)"
    if "unat v < 2 ^ 48" "unat w < 2 ^ 48" for w
    unfolding r maps_translate [OF m e(1) c, of w] e(2) low_same_page [OF that] by (simp add: eq_commute)
qed

lemma flags_small: "PAGE_PRESENT OR PAGE_WRITABLE < (0x1000 :: u64)"
  by (simp add: PAGE_PRESENT_def PAGE_WRITABLE_def)


section \<open>The loops\<close>

lemma page_of_eq: "page_aligned a \<Longrightarrow> page_of w = page_of a \<longleftrightarrow> unat a \<le> unat w \<and> unat w < unat a + 4096"
proof -
  assume "page_aligned a"
  then obtain p where p: "unat a = 4096 * p" using aligned_page by blast
  have "unat w div 4096 = p \<longleftrightarrow> 4096 * p \<le> unat w \<and> unat w < 4096 * p + 4096"
    using div_mult_mod_eq [of "unat w" 4096] mod_less_divisor [of 4096 "unat w"] by (auto intro: div_nat_eqI)
  then show ?thesis by (simp add: page_of_nat p)
qed

lemma page_sum:
  assumes "page_aligned a"
  shows "target a OR (w AND mask 12) = a + of_nat (unat w mod 4096)"
  using assms by (simp add: target_aligned or_offset)

lemma page_identity:
  assumes "page_aligned a" "page_of w = page_of a"
  shows "target a OR (w AND mask 12) = w"
proof -
  obtain k where k: "k < 4096" "w = a + of_nat k" using page_offset [OF assms] .
  have "unat w mod 4096 = k" using unat_in_page(1) [OF assms(1) k(1)] assms(1) k by (simp add: k(2) mod_add_left_eq [symmetric])
  then show ?thesis unfolding page_sum [OF assms(1)] by (simp add: k(2))
qed

text \<open>The \<open>i\<close>-th page after an aligned address.\<close>

lemma nth_page:
  assumes "page_aligned b" "unat b + 4096 * n \<le> 2 ^ 48" "i < n"
  shows "unat (b + of_nat i * 0x1000) = unat b + 4096 * i" "page_aligned (b + of_nat i * 0x1000)"
    "unat (b + of_nat i * 0x1000) < 2 ^ 48"
proof -
  have "of_nat i * 0x1000 = (of_nat (4096 * i) :: u64)" by simp
  then have "unat (of_nat i * 0x1000 :: u64) = 4096 * i"
    using assms(2,3) unat_of_nat_u64 [of "4096 * i"] by (simp add: mult.commute)
  then show u: "unat (b + of_nat i * 0x1000) = unat b + 4096 * i" using assms(2,3) by (simp add: unat_add_u64)
  show "page_aligned (b + of_nat i * 0x1000)" unfolding u using assms(1) by (simp add: mod_add_left_eq [symmetric])
  show "unat (b + of_nat i * 0x1000) < 2 ^ 48" unfolding u using assms(2,3) by simp
qed

text \<open>What \<open>n\<close> mappings from \<open>b\<close> on have made of a kernel space, when \<open>T\<close> is what they map.\<close>

definition kmapped :: "vmm \<Rightarrow> vmm \<Rightarrow> u64 \<Rightarrow> nat \<Rightarrow> (u64 \<Rightarrow> u64) \<Rightarrow> bool" where
  "kmapped s s' b n T \<longleftrightarrow> kspace s' \<and> kernel_pml4 s' = kernel_pml4 s
     \<and> free_set (vm_pmm s') \<subseteq> free_set (vm_pmm s)
     \<and> (\<forall>w. kclear s w \<longrightarrow> kclear s' w)
     \<and> (\<forall>f. ktable_page s' f \<longrightarrow> ktable_page s f \<or> f \<in> free_set (vm_pmm s))
     \<and> (\<forall>x. vm_mem s' x \<noteq> vm_mem s x \<longrightarrow> page_of x \<in> free_set (vm_pmm s) \<or> ktable_page s (page_of x))
     \<and> (\<forall>w. unat w < 2 ^ 48 \<longrightarrow> ktrans s' w
          = (if unat b \<le> unat w \<and> unat w < unat b + 4096 * n then Some (T w) else ktrans s w))"

lemma kmappedI:
  assumes "kmapped s s1 b n T" and "kspace s'" and "kernel_pml4 s' = kernel_pml4 s1"
    and "free_set (vm_pmm s') \<subseteq> free_set (vm_pmm s1)" and "\<And>w. kclear s1 w \<Longrightarrow> kclear s' w"
    and "\<And>q t. vpath q \<Longrightarrow> ktable s' q = Some t \<Longrightarrow> ktable s1 q = Some t \<or> page_of t \<in> free_set (vm_pmm s1)"
    and "\<And>x. vm_mem s' x \<noteq> vm_mem s1 x \<Longrightarrow> page_of x \<in> free_set (vm_pmm s1) \<or> ktable_page s1 (page_of x)"
    and "\<And>w. unat w < 2 ^ 48 \<Longrightarrow> ktrans s' w
          = (if unat b \<le> unat w \<and> unat w < unat b + 4096 * k then Some (U w) else ktrans s w)"
  shows "kmapped s s' b k U"
proof -
  note i = assms(1) [unfolded kmapped_def]
  have "kernel_pml4 s' = kernel_pml4 s" using i assms(3) by simp
  moreover have sub: "free_set (vm_pmm s1) \<subseteq> free_set (vm_pmm s)" "free_set (vm_pmm s') \<subseteq> free_set (vm_pmm s)"
    using i assms(4) by blast+
  moreover have "\<forall>w. kclear s w \<longrightarrow> kclear s' w" using i assms(5) by blast
  moreover have tp: "ktable_page s1 f \<Longrightarrow> ktable_page s f \<or> f \<in> free_set (vm_pmm s)" for f using i by blast
  moreover have "ktable_page s f \<or> f \<in> free_set (vm_pmm s)" if f: "ktable_page s' f" for f
  proof -
    obtain q t where q: "vpath q" "ktable s' q = Some t" "page_of t = f" using f unfolding ktable_page_def by blast
    then have "ktable_page s1 f \<or> f \<in> free_set (vm_pmm s1)" using assms(6) [OF q(1,2)] unfolding ktable_page_def by blast
    then show ?thesis using tp sub by blast
  qed
  moreover have "page_of x \<in> free_set (vm_pmm s) \<or> ktable_page s (page_of x)" if "vm_mem s' x \<noteq> vm_mem s x" for x
  proof (cases "vm_mem s' x = vm_mem s1 x")
    case True
    then have "vm_mem s1 x \<noteq> vm_mem s x" using that by simp
    then show ?thesis using i by blast
  next
    case False
    then show ?thesis using assms(7) sub tp by blast
  qed
  ultimately show ?thesis unfolding kmapped_def using assms(2,8) by blast
qed

lemma map_same_loop:
  assumes "kspace s" and b: "page_aligned b" "unat b + 4096 * n \<le> 2 ^ 48"
    and "\<forall>i < n. kclear s (b + of_nat i * 0x1000)" and "3 * n \<le> card (free_set (vm_pmm s))"
  shows "kmapped s (fold (map_same b) [0..<n] s) b n (\<lambda>w. w)
    \<and> card (free_set (vm_pmm s)) \<le> card (free_set (vm_pmm (fold (map_same b) [0..<n] s))) + 3 * n"
  using assms
proof (induction n)
  case 0
  then show ?case by (auto simp: kmapped_def)
next
  case (Suc n)
  let ?s = "fold (map_same b) [0..<n] s"
  let ?v = "b + of_nat n * 0x1000"
  let ?s' = "vmm_map_page ?v ?v (PAGE_PRESENT OR PAGE_WRITABLE) ?s"
  have IH: "kmapped s ?s b n (\<lambda>w. w)" "card (free_set (vm_pmm s)) \<le> card (free_set (vm_pmm ?s)) + 3 * n"
    using Suc by simp_all
  note i = IH(1) [unfolded kmapped_def]
  have fold: "fold (map_same b) [0..<Suc n] s = ?s'" by (simp add: map_same_def Let_def)
  note v = nth_page [OF b(1) Suc.prems(3) lessI]
  have c: "kclear ?s ?v" using i Suc.prems(4) by blast
  have f: "3 \<le> card (free_set (vm_pmm ?s))" using IH(2) Suc.prems(5) by simp
  note M = map_kernel_page [OF conjunct1 [OF i] c f flags_small refl]
  have t: "ktrans ?s' w = (if unat b \<le> unat w \<and> unat w < unat b + 4096 * Suc n then Some w else ktrans s w)"
    if w: "unat w < 2 ^ 48" for w
  proof (cases "page_of w = page_of ?v")
    case True
    then have "unat b + 4096 * n \<le> unat w" "unat w < unat b + 4096 * Suc n" using page_of_eq [OF v(2), of w] by (simp_all only: v(1)) simp_all
    then show ?thesis using True M(8) [OF v(3) w] page_identity [OF v(2) True] by simp
  next
    case False
    then have "\<not> (unat b + 4096 * n \<le> unat w \<and> unat w < unat b + 4096 * n + 4096)" using page_of_eq [OF v(2), of w] by (simp only: v(1)) simp
    then show ?thesis using False M(8) [OF v(3) w] i w by auto
  qed
  have "kmapped s ?s' b (Suc n) (\<lambda>w. w)" by (rule kmappedI [OF IH(1) M(1,2,3,5,6,7) t])
  then show ?case unfolding fold using M(4) [of ?v] IH(2) by simp
qed

text \<open>
  The arena: page \<open>k\<close> is backed by the frame \<open>F k\<close>; the frames are distinct, were free, and hold none of
  the tables, so what is stored in the arena never changes a translation.
\<close>

definition backed :: "vmm \<Rightarrow> vmm \<Rightarrow> nat \<Rightarrow> (nat \<Rightarrow> nat) \<Rightarrow> bool" where
  "backed s s' n F \<longleftrightarrow> inj_on F {..<n} \<and> (\<forall>k < n. F k \<in> free_set (vm_pmm s) - free_set (vm_pmm s'))
     \<and> (\<forall>q t. vpath q \<longrightarrow> ktable s' q = Some t \<longrightarrow> page_of t \<notin> F ` {..<n})"

definition arena_phys :: "(nat \<Rightarrow> nat) \<Rightarrow> u64 \<Rightarrow> u64" where
  "arena_phys F w = frame_addr (F ((unat w - HEAP_BASE) div 4096)) + of_nat (unat w mod 4096)"

lemma backed_step:
  assumes k: "kspace s" and B: "backed s0 s n F" and sub: "free_set (vm_pmm s) \<subseteq> free_set (vm_pmm s0)"
    and f: "f \<in> free_set (vm_pmm s)" "free_set (take_frame f (vm_pmm s)) = free_set (vm_pmm s) - {f}"
    and s': "free_set (vm_pmm s') \<subseteq> free_set (take_frame f (vm_pmm s))"
    and tab: "\<And>q t. vpath q \<Longrightarrow> ktable s' q = Some t \<Longrightarrow> ktable s q = Some t \<or> page_of t \<in> free_set (take_frame f (vm_pmm s))"
  shows "backed s0 s' (Suc n) (F(n := f))"
proof -
  have old: "\<And>k. k < n \<Longrightarrow> F k \<notin> free_set (vm_pmm s)" "inj_on F {..<n}" "\<And>k. k < n \<Longrightarrow> F k \<in> free_set (vm_pmm s0)"
    "\<And>q t. vpath q \<Longrightarrow> ktable s q = Some t \<Longrightarrow> page_of t \<notin> F ` {..<n}"
    using B by (auto simp: backed_def)
  have "inj_on (F(n := f)) {..<Suc n}"
  proof (rule inj_onI)
    fix i j assume "i \<in> {..<Suc n}" "j \<in> {..<Suc n}" "(F(n := f)) i = (F(n := f)) j"
    then show "i = j" using old(1) f(1) inj_onD [OF old(2), of i j] by (auto split: if_splits simp: less_Suc_eq)
  qed
  moreover have "(F(n := f)) k \<in> free_set (vm_pmm s0) - free_set (vm_pmm s')" if "k < Suc n" for k
    using that old(1,3) f s' sub by (auto simp: less_Suc_eq)
  moreover have "page_of t \<notin> (F(n := f)) ` {..<Suc n}" if q: "vpath q" "ktable s' q = Some t" for q t
  proof -
    from tab [OF q] have "page_of t \<noteq> f \<and> page_of t \<notin> F ` {..<n}"
    proof
      assume t: "ktable s q = Some t"
      show ?thesis using tree_okD(3) [OF conjunct1 [OF k [unfolded kspace_def]] q(1) t] old(4) [OF q(1) t] f(1) by auto
    next
      assume "page_of t \<in> free_set (take_frame f (vm_pmm s))"
      then show ?thesis using old(1) f(2) by auto
    qed
    then show ?thesis by (auto simp: less_Suc_eq)
  qed
  ultimately show ?thesis by (simp add: backed_def)
qed

lemma map_arena_loop:
  assumes "kspace s" and "n \<le> 512" and "\<forall>i < n. kclear s (of_nat HEAP_BASE + of_nat i * 0x1000)"
    and "4 * n \<le> card (free_set (vm_pmm s))"
  shows "\<exists>F. kmapped s (fold map_arena_page [0..<n] s) (of_nat HEAP_BASE) n (arena_phys F)
    \<and> backed s (fold map_arena_page [0..<n] s) n F
    \<and> card (free_set (vm_pmm s)) \<le> card (free_set (vm_pmm (fold map_arena_page [0..<n] s))) + 4 * n"
  using assms
proof (induction n)
  case 0
  then show ?case by (auto simp: kmapped_def backed_def)
next
  case (Suc n)
  let ?b = "of_nat HEAP_BASE :: u64"
  let ?s = "fold map_arena_page [0..<n] s"
  let ?v = "?b + of_nat n * 0x1000"
  have b: "page_aligned ?b" "unat ?b = HEAP_BASE" "unat ?b + 4096 * Suc n \<le> 2 ^ 48" using Suc.prems(2) by simp_all
  obtain F where IH: "kmapped s ?s ?b n (arena_phys F)" "backed s ?s n F"
    "card (free_set (vm_pmm s)) \<le> card (free_set (vm_pmm ?s)) + 4 * n"
    using Suc by auto
  note i = IH(1) [unfolded kmapped_def]
  have k: "kspace ?s" using i by blast
  have four: "4 \<le> card (free_set (vm_pmm ?s))" using IH(3) Suc.prems(4) by simp
  then have "free_set (vm_pmm ?s) \<noteq> {}" by auto
  from alloc_frame_cases [OF conjunct2 [OF k [unfolded kspace_def]] this] obtain f where
    f: "pmm_alloc_frame (vm_pmm ?s) = (frame_addr f, take_frame f (vm_pmm ?s))" "f \<in> free_set (vm_pmm ?s)" "f < 2 ^ 52"
    "pool_inv (take_frame f (vm_pmm ?s))" "free_set (take_frame f (vm_pmm ?s)) = free_set (vm_pmm ?s) - {f}"
    by metis
  let ?t = "?s\<lparr>vm_pmm := take_frame f (vm_pmm ?s)\<rparr>"
  let ?s' = "vmm_map_page ?v (frame_addr f) (PAGE_PRESENT OR PAGE_WRITABLE) ?t"
  have fold: "fold map_arena_page [0..<Suc n] s = ?s'" by (simp add: map_arena_page_def f(1))
  have kt: "kspace ?t" using k f(2,4) used_set_take [OF f(2)] by (auto simp: kspace_def tree_ok_def)
  note v = nth_page [OF b(1,3) lessI]
  have "kclear ?s ?v" using i Suc.prems(3) by blast
  then have c: "kclear ?t ?v" by simp
  have cf: "card (free_set (vm_pmm ?s)) = Suc (card (free_set (vm_pmm ?t)))"
    using f(2) four by (simp add: f(5) card.remove [symmetric] card_Diff_singleton)
  then have three: "3 \<le> card (free_set (vm_pmm ?t))" using four by simp
  note M = map_kernel_page [where phys = "frame_addr f", OF kt c three flags_small refl]
  have fs: "free_set (vm_pmm ?t) \<subseteq> free_set (vm_pmm ?s)" using f(5) by auto
  have al: "page_aligned (frame_addr f)" by (rule page_aligned_frame [OF f(3)])
  let ?F = "F(n := f)"
  have t: "ktrans ?s' w = (if unat ?b \<le> unat w \<and> unat w < unat ?b + 4096 * Suc n then Some (arena_phys ?F w) else ktrans s w)"
    if w: "unat w < 2 ^ 48" for w
  proof (cases "page_of w = page_of ?v")
    case True
    then have r: "HEAP_BASE + 4096 * n \<le> unat w" "unat w < HEAP_BASE + 4096 * Suc n"
      using page_of_eq [OF v(2), of w] by (simp_all only: v(1) b(2)) simp_all
    then have "(unat w - HEAP_BASE) div 4096 = n" by (intro div_nat_eqI) simp_all
    then show ?thesis using True r M(8) [OF v(3) w] page_sum [OF al] b(2) by (simp add: arena_phys_def)
  next
    case False
    then have o: "\<not> (HEAP_BASE + 4096 * n \<le> unat w \<and> unat w < HEAP_BASE + 4096 * Suc n)"
      using page_of_eq [OF v(2), of w] by (simp only: v(1) b(2)) simp
    have "arena_phys ?F w = arena_phys F w" if "unat w < HEAP_BASE + 4096 * n" "HEAP_BASE \<le> unat w"
    proof -
      have "(unat w - HEAP_BASE) div 4096 < n" using that by (simp add: div_less_iff_less_mult less_diff_conv2 mult.commute)
      then show ?thesis by (simp add: arena_phys_def)
    qed
    then show ?thesis using False M(8) [OF v(3) w] i w o unfolding b(2) by auto
  qed
  have A: "kmapped s ?s' ?b (Suc n) (arena_phys ?F)"
  proof (rule kmappedI [OF IH(1) M(1) _ _ _ _ _ t])
    show "kernel_pml4 ?s' = kernel_pml4 ?s" using M(2) by simp
    show "free_set (vm_pmm ?s') \<subseteq> free_set (vm_pmm ?s)" using M(3) fs by blast
    show "kclear ?s' w" if "kclear ?s w" for w by (rule M(5)) (use that in simp)
    show "ktable ?s q = Some t \<or> page_of t \<in> free_set (vm_pmm ?s)" if "vpath q" "ktable ?s' q = Some t" for q t
      using M(6) [OF that] fs by auto
    show "page_of x \<in> free_set (vm_pmm ?s) \<or> ktable_page ?s (page_of x)" if x: "vm_mem ?s' x \<noteq> vm_mem ?s x" for x
    proof -
      have "vm_mem ?s' x \<noteq> vm_mem ?t x" using x by simp
      from M(7) [OF this] show ?thesis using fs by auto
    qed
  qed
  have B: "backed s ?s' (Suc n) ?F"
    by (rule backed_step [OF k IH(2) _ f(2,5)]) (use i M(3) M(6) M(2) in auto)
  have "card (free_set (vm_pmm s)) \<le> card (free_set (vm_pmm ?s')) + 4 * Suc n" using M(4) IH(3) cf by simp
  with A B show ?case unfolding fold by blast
qed

section \<open>What the screen and the serial line show meanwhile\<close>

lemma kprint_char_quiet: "\<not> con_ready (ko_console k) \<Longrightarrow> kprint_char c k = k\<lparr>ko_serial := ko_serial k @ [c]\<rparr>"
  by (simp add: kprint_char_def Let_def)

lemma fold_kprint_quiet:
  "\<not> con_ready (ko_console k) \<Longrightarrow> ko_console (fold kprint_char cs k) = ko_console k \<and> ko_fb (fold kprint_char cs k) = ko_fb k"
  by (induction cs arbitrary: k) (simp_all add: kprint_char_quiet)

lemma prints_quiet:
  assumes "\<not> con_ready (ko_console k)"
  shows "ko_console (kprint_char c k) = ko_console k" "ko_fb (kprint_char c k) = ko_fb k"
    "ko_console (kprint t k) = ko_console k" "ko_fb (kprint t k) = ko_fb k"
    "ko_console (kprint_uint n k) = ko_console k" "ko_fb (kprint_uint n k) = ko_fb k"
    "ko_console (kprint_ptr a k) = ko_console k" "ko_fb (kprint_ptr a k) = ko_fb k"
  using fold_kprint_quiet [OF assms, of "[c]"] fold_kprint_quiet [OF assms] fold_kprint_quiet [of "kprint (str ''0x'') k"] assms
  by (simp_all add: kprint_def kprint_uint_decimal kprint_ptr_digits)

lemma fb_report_quiet:
  "\<not> con_ready (ko_console k) \<Longrightarrow> ko_console (fb_report t k) = ko_console k \<and> ko_fb (fb_report t k) = ko_fb k"
  by (simp add: fb_report_def Let_def prints_quiet)

section \<open>The kernel's space after boot\<close>

lemma init_clear:
  assumes "pool_inv (vm_pmm s)" "3 \<le> card (free_set (vm_pmm s))" "2 ^ 30 \<le> unat v" "unat v < 2 ^ 48"
  shows "kclear (vmm_init s) v"
  unfolding path_clear_def
proof (intro allI impI notI)
  fix p i t assume a: "prefix (p @ [i]) (page_path v)" "ktable (vmm_init s) p = Some t"
    "present (ent (vm_mem (vmm_init s)) t i)" "huge (ent (vm_mem (vmm_init s)) t i)"
  have "vpath (p @ [i])" by (rule vpath_prefix [OF vpath_page a(1)])
  then have "p = [0, 0]" using kernel_tree(5) [OF assms(1,2) _ a(2-4)] by blast
  then show False using a(1) kernel_out_of_range [OF assms(4,3)] by (auto simp: page_path_def)
qed


lemma HEAP_aligned: "page_aligned (of_nat HEAP_BASE)" "unat (of_nat HEAP_BASE :: u64) = HEAP_BASE"
  by simp_all

text \<open>
  After \<^verbatim>\<open>vmm_init\<close> and \<^verbatim>\<open>heap_init\<close>: the first GiB is mapped to itself, the arena to 512 distinct frames
  that were free, and nothing else.
\<close>

lemma heap_init_space:
  assumes s: "pool_inv (vm_pmm s)" "2051 \<le> card (free_set (vm_pmm s))"
    and "heap_init (h, vmm_init s) = (h', s')"
  shows "\<exists>F. backed (vmm_init s) s' 512 F \<and> kspace s'
    \<and> (\<forall>w. unat w < 2 ^ 48 \<longrightarrow> ktrans s' w
        = (if unat w < 2 ^ 30 then Some w
           else if HEAP_BASE \<le> unat w \<and> unat w < HEAP_BASE + HEAP_SIZE then Some (arena_phys F w) else None))
    \<and> (\<forall>w. 2 ^ 30 \<le> unat w \<longrightarrow> unat w < 2 ^ 48 \<longrightarrow> kclear s' w)
    \<and> (\<forall>x. page_of x \<notin> free_set (vm_pmm s) \<longrightarrow> vm_mem s' x = vm_mem s x)
    \<and> kernel_pml4 s' = kernel_pml4 (vmm_init s)
    \<and> card (free_set (vm_pmm s)) \<le> card (free_set (vm_pmm s')) + 2051"
proof -
  let ?i = "vmm_init s"
  have three: "3 \<le> card (free_set (vm_pmm s))" using s(2) by simp
  note K = kernel_tree [OF s(1) three]
  have sp: "kspace ?i" unfolding kspace_def using K(1) vmm_init_shape [OF s(1) three] by blast
  have clear: "\<forall>w. 2 ^ 30 \<le> unat w \<longrightarrow> unat w < 2 ^ 48 \<longrightarrow> kclear ?i w" using init_clear [OF s(1) three] by blast
  have pg: "\<forall>k < 512. kclear ?i (of_nat HEAP_BASE + of_nat k * 0x1000)"
  proof (intro allI impI)
    fix k :: nat assume k: "k < 512"
    have "unat (of_nat HEAP_BASE :: u64) + 4096 * 512 \<le> 2 ^ 48" by simp
    note n = nth_page [OF HEAP_aligned(1) this k]
    show "kclear ?i (of_nat HEAP_BASE + of_nat k * 0x1000)"
      by (rule clear [rule_format, OF _ n(3)]) (simp only: n(1) HEAP_aligned(2), simp)
  qed
  have s': "s' = fold map_arena_page [0..<512] ?i" using assms(3) by (simp add: heap_init_def map_arena_def)
  have fr: "4 * 512 \<le> card (free_set (vm_pmm ?i))" using K(9) s(2) by simp
  obtain F where F: "kmapped ?i s' (of_nat HEAP_BASE) 512 (arena_phys F)" "backed ?i s' 512 F"
    "card (free_set (vm_pmm ?i)) \<le> card (free_set (vm_pmm s')) + 4 * 512"
    using map_arena_loop [OF sp order.refl pg fr] unfolding s' by blast
  note m = F(1) [unfolded kmapped_def HEAP_aligned(2)]
  have tr0: "ktrans s' w = (if HEAP_BASE \<le> unat w \<and> unat w < HEAP_BASE + 4096 * 512 then Some (arena_phys F w) else ktrans ?i w)"
    if "unat w < 2 ^ 48" for w using m that by blast
  have tr: "ktrans s' w = (if unat w < 2 ^ 30 then Some w
      else if HEAP_BASE \<le> unat w \<and> unat w < HEAP_BASE + HEAP_SIZE then Some (arena_phys F w) else None)"
    if w: "unat w < 2 ^ 48" for w
  proof (cases "unat w < 2 ^ 30")
    case True
    then show ?thesis using K(3) [of w] by (simp add: tr0 [OF w])
  next
    case False
    then have "ktrans ?i w = None" using K(4) kernel_out_of_range [OF w] by auto
    then show ?thesis using False by (simp add: tr0 [OF w])
  qed
  have mem: "vm_mem s' x = vm_mem s x" if x: "page_of x \<notin> free_set (vm_pmm s)" for x
  proof (rule ccontr)
    assume "vm_mem s' x \<noteq> vm_mem s x"
    then have "vm_mem s' x \<noteq> vm_mem ?i x" using K(7) [OF x] by simp
    then have "page_of x \<in> free_set (vm_pmm ?i) \<or> ktable_page ?i (page_of x)" using m by blast
    then show False using K(6,8) x unfolding ktable_page_def by (metis subsetD)
  qed
  have "card (free_set (vm_pmm s)) \<le> card (free_set (vm_pmm s')) + 2051" using K(9) F(3) by simp
  then show ?thesis using F(2) m tr clear mem by (intro exI [of _ F]) blast
qed

text \<open>
  Mapping the framebuffer: when the tag describes a mode of 32 bits per pixel, every byte the pages from
  the base of \<^verbatim>\<open>fb->addr\<close> on hold is reached at its own address, and no other translation changes.
\<close>

lemma fb_init_space:
  assumes k: "\<not> con_ready (ko_console k)" and s: "kspace s"
    and tag: "find_fb_tag (vm_mem s) mb = Some p" "p \<noteq> 0" "t = rd_fb_tag (vm_mem s) p" "tag_bpp t = 32"
    and b: "b = tag_addr t AND NOT 0xFFF" "2 ^ 30 \<le> unat b" "unat b + 4096 * unat (fb_pages t) \<le> 2 ^ 48"
    and clear: "\<forall>w. 2 ^ 30 \<le> unat w \<longrightarrow> unat w < 2 ^ 48 \<longrightarrow> kclear s w"
    and fr: "3 * unat (fb_pages t) \<le> card (free_set (vm_pmm s))"
  shows "\<exists>k' s'. fb_init mb (k, s) = Some (True, k', s') \<and> g_fb (ko_fb k') = tag_addr t
    \<and> g_pitch (ko_fb k') = tag_pitch t \<and> g_width (ko_fb k') = tag_width t \<and> g_height (ko_fb k') = tag_height t
    \<and> kmapped s s' b (unat (fb_pages t)) (\<lambda>w. w)"
proof -
  let ?k1 = "k\<lparr>ko_fb := (ko_fb k)\<lparr>g_pitch := tag_pitch t, g_width := tag_width t, g_height := tag_height t,
                       g_bpp := ucast (tag_bpp t)\<rparr>\<rparr>"
  let ?k2 = "fb_report t ?k1"
  let ?k3 = "?k2\<lparr>ko_fb := (ko_fb ?k2)\<lparr>g_fb := tag_addr t\<rparr>\<rparr>"
  let ?k4 = "kprint (str '' pages'' @ [10]) (kprint_uint (ucast (fb_pages t)) (kprint (str ''fb: mapped '') ?k3))"
  let ?s' = "fold (map_same b) [0..<unat (fb_pages t)] s"
  have q1: "\<not> con_ready (ko_console ?k1)" using k by simp
  have q2: "ko_console ?k2 = ko_console k" "ko_fb ?k2 = ko_fb ?k1" using fb_report_quiet [OF q1] by simp_all
  then have q3: "\<not> con_ready (ko_console ?k3)" using k by simp
  have q4: "ko_fb ?k4 = ko_fb ?k3" using q3 by (simp add: prints_quiet)
  have bpp: "g_bpp (ko_fb ?k2) = 32" using q2 tag(4) by simp
  have run: "fb_init mb (k, s) = Some (True, ?k4, ?s')"
    using tag(1,2) bpp by (simp add: fb_init_def tag(3) [symmetric] b(1) Let_def)
  have "b = target (tag_addr t)" by (simp add: b(1) target_def ADDR_MASK_def)
  then have al: "page_aligned b" by simp
  have "\<forall>i < unat (fb_pages t). kclear s (b + of_nat i * 0x1000)"
  proof (intro allI impI)
    fix i assume i: "i < unat (fb_pages t)"
    note n = nth_page [OF al b(3) i]
    show "kclear s (b + of_nat i * 0x1000)"
      by (rule clear [rule_format, OF _ n(3)]) (unfold n(1), use b(2) in linarith)
  qed
  then have "kmapped s ?s' b (unat (fb_pages t)) (\<lambda>w. w)" using map_same_loop [OF s al b(3) _ fr] by blast
  then show ?thesis using run q4 q2(2) by auto
qed

section \<open>Properties\<close>

text \<open>
  C19. Once \<^verbatim>\<open>vmm_init\<close>, \<^verbatim>\<open>heap_init\<close> and \<^verbatim>\<open>fb_init\<close> have run, the processor translates in the kernel's space: the
  first GiB to itself, the 2 MiB of the heap's arena page by page to 512 distinct frames that were
  free, the framebuffer's pages to themselves, and nothing else of the lower half. None of the arena's
  frames is free or holds a page table, so no store into the heap changes a translation, and the heap is
  one free block. The firmware's framebuffer must lie above the first GiB and beside the arena, and
  memory must suffice for the frames and for three tables per page.
\<close>

theorem kernel_space_after_boot:
  assumes "pool_inv (vm_pmm s)" and "2051 + 3 * unat (fb_pages t) \<le> card (free_set (vm_pmm s))"
    and "heap_init (h, vmm_init s) = (h', s1)"
    and "find_fb_tag (vm_mem s1) mb = Some p" and "p \<noteq> 0" and "t = rd_fb_tag (vm_mem s1) p" and "tag_bpp t = 32"
    and "b = tag_addr t AND NOT 0xFFF" and "2 ^ 30 \<le> unat b" and "unat b + 4096 * unat (fb_pages t) \<le> 2 ^ 48"
    and "unat b + 4096 * unat (fb_pages t) \<le> HEAP_BASE \<or> HEAP_BASE + HEAP_SIZE \<le> unat b"
    and "\<not> con_ready (ko_console k)"
  shows "\<exists>k' s2 F. fb_init mb (k, s1) = Some (True, k', s2) \<and> g_fb (ko_fb k') = tag_addr t
    \<and> heap_ok h' [(HEAP_SIZE - HDR, True)] \<and> inj_on F {..<512}
    \<and> (\<forall>i < 512. F i \<in> free_set (vm_pmm s) \<and> F i \<notin> free_set (vm_pmm s2) \<and> \<not> ktable_page s2 (F i))
    \<and> (\<forall>w. unat w < 2 ^ 48 \<longrightarrow> translate (vm_mem s2) (kernel_pml4 s2) w
        = (if unat w < 2 ^ 30 then Some w
           else if HEAP_BASE \<le> unat w \<and> unat w < HEAP_BASE + HEAP_SIZE
           then Some (frame_addr (F ((unat w - HEAP_BASE) div 4096)) + of_nat (unat w mod 4096))
           else if unat b \<le> unat w \<and> unat w < unat b + 4096 * unat (fb_pages t) then Some w else None))"
proof -
  have c: "2051 \<le> card (free_set (vm_pmm s))" and three: "3 \<le> card (free_set (vm_pmm s))" using assms(2) by simp_all
  obtain F where F: "backed (vmm_init s) s1 512 F" "kspace s1"
    "\<forall>w. unat w < 2 ^ 48 \<longrightarrow> ktrans s1 w = (if unat w < 2 ^ 30 then Some w
           else if HEAP_BASE \<le> unat w \<and> unat w < HEAP_BASE + HEAP_SIZE then Some (arena_phys F w) else None)"
    "\<forall>w. 2 ^ 30 \<le> unat w \<longrightarrow> unat w < 2 ^ 48 \<longrightarrow> kclear s1 w"
    "card (free_set (vm_pmm s)) \<le> card (free_set (vm_pmm s1)) + 2051"
    using heap_init_space [OF assms(1) c assms(3)] by blast
  have f3: "3 * unat (fb_pages t) \<le> card (free_set (vm_pmm s1))" using F(5) assms(2) by simp
  obtain k' s2 where r: "fb_init mb (k, s1) = Some (True, k', s2)" "g_fb (ko_fb k') = tag_addr t"
    "kmapped s1 s2 b (unat (fb_pages t)) (\<lambda>w. w)"
    using fb_init_space [OF assms(12) F(2) assms(4-10) F(4) f3] by blast
  note m = r(3) [unfolded kmapped_def]
  have "heap_ok h' [(HEAP_SIZE - HDR, True)]" using assms(3) heap_init_list_ok by (auto simp: heap_init_def)
  moreover have "F i \<in> free_set (vm_pmm s) \<and> F i \<notin> free_set (vm_pmm s2) \<and> \<not> ktable_page s2 (F i)" if i: "i < 512" for i
  proof -
    have a: "F i \<in> free_set (vm_pmm (vmm_init s))" "F i \<notin> free_set (vm_pmm s1)" "\<not> ktable_page s1 (F i)"
      using F(1) i unfolding backed_def ktable_page_def by (blast, blast, metis imageI lessThan_iff)
    show ?thesis using a m kernel_tree(8) [OF assms(1) three] by blast
  qed
  moreover have "translate (vm_mem s2) (kernel_pml4 s2) w = (if unat w < 2 ^ 30 then Some w
      else if HEAP_BASE \<le> unat w \<and> unat w < HEAP_BASE + HEAP_SIZE
      then Some (frame_addr (F ((unat w - HEAP_BASE) div 4096)) + of_nat (unat w mod 4096))
      else if unat b \<le> unat w \<and> unat w < unat b + 4096 * unat (fb_pages t) then Some w else None)"
    if w: "unat w < 2 ^ 48" for w
  proof -
    have "ktrans s2 w = (if unat b \<le> unat w \<and> unat w < unat b + 4096 * unat (fb_pages t) then Some w else ktrans s1 w)"
      using m w by blast
    moreover have "ktrans s1 w = (if unat w < 2 ^ 30 then Some w
        else if HEAP_BASE \<le> unat w \<and> unat w < HEAP_BASE + HEAP_SIZE then Some (arena_phys F w) else None)" using F(3) w by blast
    ultimately show ?thesis using assms(9,11) unfolding arena_phys_def by (auto split: if_splits)
  qed
  moreover have "inj_on F {..<512}" using F(1) by (simp add: backed_def)
  ultimately show ?thesis using r(1,2) by blast
qed

section \<open>Witnesses\<close>

text \<open>Boot information at address 0: one framebuffer tag for 64 x 64 pixels at \<^verbatim>\<open>0xFD000000\<close>.\<close>

definition fb_block :: mem where
  "fb_block a = (if a = 8 then 8 else if a = 19 then 0xFD else if a = 25 then 1 else if a = 28 then 64
     else if a = 32 then 64 else if a = 36 then 32 else if a = 37 then 1 else 0)"

definition fb_demo :: vmm where
  "fb_demo = boot_vmm\<lparr>vm_mem := fb_block\<rparr>"

definition quiet :: kout where
  "quiet = \<lparr>ko_serial = [], ko_console = console_boot,
     ko_fb = \<lparr>g_fb = 0, g_pitch = 0, g_width = 0, g_height = 0, g_bpp = 0, fb_mem = (\<lambda>_. 0)\<rparr>\<rparr>"

lemma fb_demo_tag:
  assumes "\<And>x. unat x < 4096 \<Longrightarrow> m x = fb_block x"
  shows "find_fb_tag m 0 = Some 8"
    "rd_fb_tag m 8 = \<lparr>tag_addr = 0xFD000000, tag_pitch = 256, tag_width = 64, tag_height = 64, tag_bpp = 32, tag_fb_type = 1\<rparr>"
  using find_tag.simps [of 8 m 8]
  by (simp_all add: find_fb_tag_def rd_fb_tag_def rd64_def rd32_def ld64_def ld32_def Let_def assms fb_block_def)

lemma kernel_space_after_boot_witness:
  "\<exists>h' s1 k' s2. heap_init (\<lparr>head = 0, hdrs = (\<lambda>_. \<lparr>hsize = 0, hnext = 0, hfree = False\<rparr>)\<rparr>, vmm_init fb_demo) = (h', s1)
     \<and> fb_init 0 (quiet, s1) = Some (True, k', s2) \<and> translate (vm_mem s2) (kernel_pml4 s2) 0xFD001234 = Some 0xFD001234
     \<and> translate (vm_mem s2) (kernel_pml4 s2) 0x100000123 \<noteq> None \<and> translate (vm_mem s2) (kernel_pml4 s2) 0x40000000 = None"
proof -
  let ?h = "\<lparr>head = 0, hdrs = (\<lambda>_. \<lparr>hsize = 0, hnext = 0, hfree = False\<rparr>)\<rparr>"
  obtain h' s1 where hi: "heap_init (?h, vmm_init fb_demo) = (h', s1)" by fastforce
  have pool: "pool_inv (vm_pmm fb_demo)" "free_set (vm_pmm fb_demo) = {1..<4096}"
    using boot_vmm_pool boot_vmm_free by (simp_all add: fb_demo_def)
  then have c: "card (free_set (vm_pmm fb_demo)) = 4095" by simp
  then have "2051 \<le> card (free_set (vm_pmm fb_demo))" by simp
  from heap_init_space [OF pool(1) this hi]
  have mem: "\<And>x. page_of x \<notin> free_set (vm_pmm fb_demo) \<Longrightarrow> vm_mem s1 x = vm_mem fb_demo x" by blast
  have m: "vm_mem s1 x = fb_block x" if "unat x < 4096" for x
  proof -
    have "page_of x \<notin> free_set (vm_pmm fb_demo)" using that by (simp add: pool(2) page_of_nat)
    from mem [OF this] show ?thesis by (simp add: fb_demo_def)
  qed
  let ?t = "\<lparr>tag_addr = 0xFD000000, tag_pitch = 256, tag_width = 64, tag_height = 64, tag_bpp = 32, tag_fb_type = 1\<rparr>"
  have pg: "unat (fb_pages ?t) = 4" by (simp add: fb_pages_def)
  obtain k' s2 F where r: "fb_init 0 (quiet, s1) = Some (True, k', s2)"
    "\<forall>w. unat w < 2 ^ 48 \<longrightarrow> translate (vm_mem s2) (kernel_pml4 s2) w
        = (if unat w < 2 ^ 30 then Some w
           else if HEAP_BASE \<le> unat w \<and> unat w < HEAP_BASE + HEAP_SIZE
           then Some (frame_addr (F ((unat w - HEAP_BASE) div 4096)) + of_nat (unat w mod 4096))
           else if unat (0xFD000000 :: u64) \<le> unat w \<and> unat w < unat (0xFD000000 :: u64) + 4096 * unat (fb_pages ?t) then Some w else None)"
    using kernel_space_after_boot [OF pool(1) _ hi fb_demo_tag(1) [OF m] _ fb_demo_tag(2) [OF m, symmetric], of "0xFD000000" quiet]
    unfolding pg c by (auto simp: quiet_def console_boot_def)
  show ?thesis using hi r(1) r(2) [rule_format, of "0xFD001234"] r(2) [rule_format, of "0x100000123"] r(2) [rule_format, of "0x40000000"]
    unfolding pg by (intro exI [of _ h'] exI [of _ s1] exI [of _ k'] exI [of _ s2]) simp
qed

end
