(* ===== verification/Boot.thy ===== *)
theory Boot
  imports Trap Pci Boot_Map Desc Vblk
begin

text \<open>
  Starting the system (\<^verbatim>\<open>kmain\<close> of kernel/kernel.cpp up to its drawing loop, whose body is
  \<open>desktop_frame\<close> in theory Screen). The addresses of tables, stubs and images and what the devices
  answer are arguments. \<open>None\<close> is a boot that does not get to the drawing loop.
\<close>

section \<open>The file system at boot\<close>

definition readme_text :: cstr where
  "readme_text = str ''Welcome to HrafnOS.'' @ [10]"

definition format_fs :: "munin \<Rightarrow> munin" where
  "format_fs s =
     (let s1 = snd (munin_mkdir (munin_init s) (str ''/docs''));
          s2 = snd (munin_mkdir s1 (str ''/bin''));
          s3 = snd (munin_create_path s2 (str ''/docs/readme'') INODE_FILE)
      in snd (munin_write s3 (str ''/docs/readme'') (char_at readme_text) 20))"

definition boot_fs :: "(nat \<Rightarrow> sector \<Rightarrow> 'd \<Rightarrow> sector \<times> 'd) \<Rightarrow> 'd disk_write \<Rightarrow> munin \<times> 'd \<Rightarrow> bool \<times> munin \<times> 'd" where
  "boot_fs rd wr = (\<lambda>(s, d).
     let (mounted, s1, d1) = munin_mount rd s d
     in if mounted then (True, s1, d1)
        else let s2 = format_fs s1 in (False, s2, munin_flush wr s2 d1))"

section \<open>Messages\<close>

definition memory_report :: "pmm \<Rightarrow> kout \<Rightarrow> kout" where
  "memory_report p k =
     (let total_mib = pmm_total_frame_count p * 4096 div (1024 * 1024);
          k1 = kprint_uint (ucast total_mib) (kprint (str ''Physical memory: '') k);
          k2 = kprint_uint (ucast (pmm_free_frame_count p)) (kprint (str '' MiB, '') k1)
      in kprint (str '' frames free'' @ [10]) k2)"

definition report_entry :: "images \<Rightarrow> nat \<Rightarrow> kout \<Rightarrow> kout" where
  "report_entry im i k = (case ramdisk_get im (of_nat i) of None \<Rightarrow> k
     | Some e \<Rightarrow>
         (let k1 = kprint (str '' ('') (kprint (re_name e) k);
              k2 = kprint (str '' bytes)'') (kprint_uint (ucast (re_end e - re_start e)) k1)
          in if of_nat i + 1 < ramdisk_count im then kprint (str '', '') k2 else k2))"

definition ramdisk_report :: "images \<Rightarrow> kout \<Rightarrow> kout" where
  "ramdisk_report im k =
     kprint_char 10 (fold (report_entry im) [0..<unat (ramdisk_count im)] (kprint (str ''ramdisk: '') k))"

definition spawn_report :: "images \<Rightarrow> cstr \<Rightarrow> bool \<Rightarrow> kout \<Rightarrow> kout" where
  "spawn_report im name made k =
     (if made then k
      else kprint_char 10 (kprint name (kprint
             (if ramdisk_lookup im name = 0 then str ''spawn: not found: '' else str ''spawn: load failed: '') k)))"

section \<open>The sequence\<close>

record 'd machine =
  mc_kernel :: "'d kernel"
  mc_vblk :: vblk_globals
  mc_io :: io
  mc_idt :: "nat \<Rightarrow> idt_entry"
  mc_gdt :: "(nat \<Rightarrow> u64) \<times> tss"
  mc_wm :: wm

record 'd boot_env =
  be_bus :: bus
  be_read :: "nat \<Rightarrow> sector \<Rightarrow> 'd \<Rightarrow> sector \<times> 'd"
  be_write :: "'d disk_write"
  be_attach :: "vblk_globals \<Rightarrow> 'd \<Rightarrow> 'd"
  be_stuck :: "'d \<Rightarrow> bool"
  be_images :: images
  be_kernel_end :: u64
  be_stubs :: "nat \<Rightarrow> u64"
  be_syscall_stub :: u64
  be_tss :: u64
  be_kstack0 :: u64
  be_queue :: u64
  be_ps2_config :: u8
  be_inb :: "u16 \<Rightarrow> u8"

text \<open>
  What \<^verbatim>\<open>kmain\<close> does when there is a screen. \<^verbatim>\<open>vblk_init\<close> sets the driver's variables, which are part of the
  drive's state (\<open>be_attach\<close>; for the drive of theory Vblk it is \<open>attach\<close>). Its result is ignored by the code:
  without a working disk the first request divides by a queue size of 0 or polls a queue that the device was
  never given, and the boot ends there; \<open>be_stuck\<close> tells those states of the drive.
\<close>

definition attach :: "vblk_globals \<Rightarrow> drive \<Rightarrow> drive" where
  "attach g = map_option (\<lambda>(v, disk). (v\<lparr>vg_io := vg_io g, vg_capacity := vg_capacity g, vg_qsize := vg_qsize g,
     vg_queue := vg_queue g, vg_avail := vg_avail g, vg_used := vg_used g, vg_avail_idx := vg_avail_idx g\<rparr>, disk))"

definition start_disk :: "'d boot_env \<Rightarrow> kout \<times> vblk_globals \<times> io \<times> 'd world \<Rightarrow> (kout \<times> vblk_globals \<times> io \<times> 'd world) option" where
  "start_disk b = (\<lambda>(k, g, l, w).
     let (con, f) = console_init (ko_console k, ko_fb k);
         (ok, k1, g1, l1) = vblk_init (be_bus b) (be_queue b) (k\<lparr>ko_console := con, ko_fb := f\<rparr>, g, l)
     in if \<not> ok then None
        else let (mounted, s, d) = boot_fs (be_read b) (be_write b) (w_fs w, be_attach b g1 (w_disk w));
                 k2 = kprint (if mounted then str ''munin: mounted existing filesystem'' @ [10]
                              else str ''munin: formatted new filesystem'' @ [10]) k1
             in if be_stuck b d then None
                else Some (kprint (str ''HrafnOS console ready.'' @ [10]) k2, g1, l1, w\<lparr>w_fs := s, w_disk := d\<rparr>))"

definition kmain :: "'d boot_env \<Rightarrow> u64 \<Rightarrow> 'd machine \<Rightarrow> 'd machine option" where
  "kmain b mb_info c =
     (let k = mc_kernel c; s = k_sched k; vm = s_vm s;
          l1 = serial_init (k_ports k);
          o1 = kprint (str ''HrafnOS booting...'' @ [10]) (k_out k);
          gdt1 = gdt_init (be_tss b) (be_kstack0 b) (mc_gdt c);
          idt1 = idt_init (be_stubs b) (be_syscall_stub b) (mc_idt c);
          l2 = pit_init 100 (pic_remap l1)
      in Option.bind (pmm_init (bitmap (vm_pmm vm)) (be_kernel_end b) (vm_mem vm) mb_info) (\<lambda>p.
         let o2 = memory_report p o1;
             (h1, vm1) = heap_init (s_heap s, vmm_init (vm\<lparr>vm_pmm := p\<rparr>));
             o3 = kprint (str ''Heap ready.'' @ [10]) o2
         in Option.bind (fb_init mb_info (o3, vm1)) (\<lambda>(ok, o4, vm2).
         Option.bind (if ok then start_disk b (o4, mc_vblk c, mc_io c, k_world k) else Some (o4, mc_vblk c, mc_io c, k_world k))
           (\<lambda>(o5, g, io, w).
         let o6 = ramdisk_report (be_images b) o5;
             (m1, l3) = mouse_init (be_ps2_config b) (be_inb b) (fb_width (ko_fb o6)) (fb_height (ko_fb o6)) (k_mouse k, l2)
         in Option.bind (sched_init (s\<lparr>s_heap := h1, s_vm := vm2\<rparr>)) (\<lambda>s1.
         Option.bind (spawn (be_images b) (str ''huginn'') s1) (\<lambda>(made, s2).
           let o7 = spawn_report (be_images b) (str ''huginn'') made o6
           in Some (c\<lparr>mc_kernel := k\<lparr>k_sched := s2, k_world := w\<lparr>w_term := term_init (w_term w)\<rparr>, k_mouse := m1,
                        k_out := o7, k_ports := l3\<rparr>,
                      mc_vblk := g, mc_io := io, mc_idt := idt1, mc_gdt := gdt1, mc_wm := boot_windows (mc_wm c)\<rparr>)))))))"

section \<open>Properties\<close>

lemma format_inv: "fs_inv (format_fs s)"
  unfolding format_fs_def Let_def munin_mkdir_def
  by (rule reachable_fs_inv, intro fs_reachable.intros) simp_all

text \<open>
  What \<^verbatim>\<open>vblk_init\<close> leaves is a queue that the requests are proved for, if the device offers a size that is a
  power of two and has room for the chain.
\<close>

lemma attach_ready:
  assumes "vblk_init bus qpa (k, g, l) = (True, k', g', l')" and "unat (vg_qsize g') \<in> {4, 8, 16, 32, 64, 128, 256}"
  shows "drive_ready (attach g' (Some (v, disk)))" "restarted (Some (u, disk)) (attach g' (Some (v, disk)))"
  using vblk_init_ready [OF assms(1)] assms(2) by (simp_all add: attach_def drive_ready_def queue_ready_def restarted_def)

text \<open>
  C20. Two boots with the same disk: the first finds no file system and formats the disk; the second, with
  the driver set up anew and on whatever the region in memory then holds, mounts the disk instead of
  formatting it again, and has the same directories and files as the first had when it finished. Neither gets
  stuck in a request.
\<close>

theorem second_boot_mounts:
  assumes dev: "virtio_dev dev" and d: "drive_ready d"
    and 1: "boot_fs (vblk_read dev) (vblk_write dev) (m, d) = (False, s, d1)" and r: "restarted d1 d'"
    and 2: "boot_fs (vblk_read dev) (vblk_write dev) (m', d') = (mounted, s', d2)"
  shows "drive_ready d1 \<and> mounted \<and> fs_inv s' \<and> abs_fs s' = abs_fs s \<and> drive_ready d2"
proof -
  obtain ok0 s1 e where e: "munin_mount (vblk_read dev) m d = (ok0, s1, e)" by (rule prod_cases3)
  with 1 have f: "s = format_fs s1" "d1 = munin_flush (vblk_write dev) s e" by (auto simp: boot_fs_def Let_def split: if_splits)
  have de: "drive_ready e" using vblk.mount_good(1) [OF conjI [OF dev d], of m] by (simp add: e)
  obtain ok t d3 where m: "munin_mount (vblk_read dev) m' d' = (ok, t, d3)" by (rule prod_cases3)
  note mf = flush_mount_restarted [OF dev de r [unfolded f(2)]]
  from mf(2) [of m'] have ok: "ok" "region_same s t" "drive_ready d3" by (simp_all add: m restarted_def)
  then have "mounted" "s' = t" "d2 = d3" using 2 m by (simp_all add: boot_fs_def)
  moreover have "fs_inv t \<and> abs_fs t = abs_fs s" using region_same_fs [OF _ ok(2)] format_inv f(1) by simp
  ultimately show ?thesis using mf(1) ok(3) f(2) by simp
qed

theorem second_boot_mounts_witness:
  "case boot_fs (vblk_read ideal_dev) (vblk_write ideal_dev) (blank_region, Some (demo_vblk, \<lambda>_ _. 0)) of
     (m0, s, d1) \<Rightarrow> \<not> m0 \<and> (case boot_fs (vblk_read ideal_dev) (vblk_write ideal_dev) (blank_region, Some (demo_vblk, sectors d1)) of
       (m1, s', d2) \<Rightarrow> m1 \<and> abs_fs s' = abs_fs s)"
proof -
  let ?B = "boot_fs (vblk_read ideal_dev) (vblk_write ideal_dev)"
  let ?d = "Some (demo_vblk, \<lambda>_ _. 0) :: drive"
  obtain sb d0 where r: "vblk_read ideal_dev 0 (\<lambda>_. 0) ?d = (sb, d0)" by (rule prod.exhaust)
  have z: "sb x = 0" if "x < 512" for x
    using vblk.read_buf [OF conjI [OF virtio_dev_ideal demo_vblk_ready(2) [of "\<lambda>_ _. 0"]] _ that, of 0 "\<lambda>_. 0"] r by simp
  have "get32 sb 0 = 0" by (simp add: get32_def ld32_def z)
  then have "\<not> fst (munin_mount (vblk_read ideal_dev) blank_region ?d)" by (simp add: munin_mount_def r)
  then have "\<not> fst (?B (blank_region, ?d))" by (auto simp: boot_fs_def Let_def split: prod.split)
  then obtain s d1 where 1: "?B (blank_region, ?d) = (False, s, d1)" by (cases "?B (blank_region, ?d)") simp
  obtain m1 s' d2 where 2: "?B (blank_region, Some (demo_vblk, sectors d1)) = (m1, s', d2)" by (rule prod_cases3)
  have "restarted d1 (Some (demo_vblk, sectors d1))" by (simp add: restarted_def demo_vblk_ready(2))
  from second_boot_mounts [OF virtio_dev_ideal demo_vblk_ready(2) 1 this 2] show ?thesis unfolding 1 2 prod.case by simp
qed

text \<open>A boot with a screen and without the disk does not get to the drawing loop.\<close>

lemma start_disk_needs_disk:
  assumes "pci_ids (be_bus b) ident" and "\<And>x. \<not> is_device 0x1AF4 0x1001 (ident x)"
  shows "start_disk b (k, g, l, w) = None"
proof -
  have "fst (pci_find (be_bus b) 0x1AF4 0x1001 l) = None"
    unfolding pci_find_none [OF assms(1)] using assms(2) by simp
  then obtain l1 where "pci_find (be_bus b) 0x1AF4 0x1001 l = (None, l1)" by (cases "pci_find (be_bus b) 0x1AF4 0x1001 l") simp
  then show ?thesis by (simp add: start_disk_def vblk_init_def Let_def split: prod.split)
qed

text \<open>A boot that gets to the drawing loop has its gates and segments in place and the three windows open.\<close>

lemma kmain_desktop:
  assumes "kmain b mb c = Some c'"
  shows "mc_wm c' = boot_windows (mc_wm c) \<and> mc_idt c' = idt_init (be_stubs b) (be_syscall_stub b) (mc_idt c)
    \<and> mc_gdt c' = gdt_init (be_tss b) (be_kstack0 b) (mc_gdt c)"
  using assms unfolding kmain_def Let_def case_prod_beta Option.bind_eq_Some_conv by auto

end
