(* ===== verification/Apps.thy ===== *)
theory Apps
  imports Huginn
begin

text \<open>
  The small user programs (one.cpp, two.cpp, echo.cpp, help.cpp, clear.cpp) over the system calls of one
  task, up to their \<^verbatim>\<open>sys_exit\<close>. Their \<^verbatim>\<open>puts\<close> is that of the shell, word for word. The delay loops count
  and do nothing else.
\<close>

section \<open>The programs\<close>

definition one_start :: "'d disk_write \<Rightarrow> 'd world \<Rightarrow> 'd world" where
  "one_start wr w = (let msg = str ''hello from one'' @ [10] in snd (sys_write wr w 1 (char_at msg) (of_nat (str_len msg))))"

definition help_start :: "'d disk_write \<Rightarrow> 'd world \<Rightarrow> 'd world" where
  "help_start wr w = puts wr (str ''commands: one two echo help clear'' @ [10]) w"

definition clear_start :: "'d disk_write \<Rightarrow> 'd world \<Rightarrow> 'd world" where
  "clear_start wr w =
     (let esc = [27] @ str ''[2J'' @ [27] @ str ''[H'' in snd (sys_write wr w 1 (char_at esc) (of_nat (str_len esc))))"

definition echo_arg :: "'d disk_write \<Rightarrow> cstr list \<Rightarrow> nat \<Rightarrow> 'd world \<Rightarrow> 'd world" where
  "echo_arg wr argv i w =
     (let w1 = puts wr (argv ! i) w
      in if i + 1 < length argv then snd (sys_write wr w1 1 (char_at (str '' '')) 1) else w1)"

definition echo_start :: "'d disk_write \<Rightarrow> cstr list \<Rightarrow> 'd world \<Rightarrow> 'd world" where
  "echo_start wr argv w = snd (sys_write wr (fold (echo_arg wr argv) [1..<length argv] w) 1 (char_at [10]) 1)"

text \<open>\<^verbatim>\<open>two\<close> writes three times and calls \<^verbatim>\<open>sys_exec\<close>; if that returns it writes its error for ever.\<close>

definition two_start :: "'d disk_write \<Rightarrow> 'd world \<Rightarrow> 'd world" where
  "two_start wr = fold (\<lambda>k w. snd (sys_write wr w 1 (char_at (str ''[two]'')) 5)) [0..<3]"

definition two_failed :: "'d disk_write \<Rightarrow> nat \<Rightarrow> 'd world \<Rightarrow> 'd world" where
  "two_failed wr n = fold (\<lambda>k w. snd (sys_write wr w 1 (char_at (str ''[exec failed]'')) 13)) [0..<n]"

section \<open>What they print\<close>

abbreviation on_term :: "u8 list \<Rightarrow> 'd world \<Rightarrow> 'd world" where
  "on_term cs w \<equiv> w\<lparr>w_term := term_write cs (w_term w)\<rparr>"

lemma write_text:
  assumes "length s < 2 ^ 64"
  shows "snd (sys_write wr w 1 (char_at s) (of_nat (length s))) = on_term s w"
proof -
  have "map (char_at s) [0..<length s] = s" by (intro nth_equalityI) (simp_all add: char_at_def)
  then show ?thesis using assms by (simp add: sys_write_tty unat_of_nat_u64)
qed

lemma one_prints: "one_start wr w = on_term (str ''hello from one'' @ [10]) w"
proof -
  have "str_len (str ''hello from one'' @ [10]) = length (str ''hello from one'' @ [10])" by code_simp
  moreover have "length (str ''hello from one'' @ [10]) < 2 ^ 64" by (simp add: str_def)
  ultimately show ?thesis unfolding one_start_def Let_def by (simp only: write_text)
qed

lemma help_prints: "help_start wr w = on_term (str ''commands: one two echo help clear'' @ [10]) w"
  unfolding help_start_def by (rule puts_text) (code_simp, simp add: str_def)

lemma two_prints:
  "two_start wr w = on_term (str ''[two][two][two]'') w"
  "two_failed wr n w = on_term (concat (replicate n (str ''[exec failed]''))) w"
proof -
  have t: "snd (sys_write wr w 1 (char_at (str ''[two]'')) 5) = on_term (str ''[two]'') w" for w :: "'a world"
    using write_text [of "str ''[two]''" wr w] by (simp add: str_def)
  have f: "snd (sys_write wr w 1 (char_at (str ''[exec failed]'')) 13) = on_term (str ''[exec failed]'') w" for w :: "'a world"
    using write_text [of "str ''[exec failed]''" wr w] by (simp add: str_def)
  have s: "str ''[two][two][two]'' = str ''[two]'' @ str ''[two]'' @ str ''[two]''" by (simp add: str_def)
  show "two_start wr w = on_term (str ''[two][two][two]'') w"
    unfolding two_start_def t s by (simp add: term_write_append upt_rec)
  have rep: "concat (replicate (Suc n) x) = concat (replicate n x) @ x" for n and x :: "u8 list"
    by (induction n) simp_all
  show "two_failed wr n w = on_term (concat (replicate n (str ''[exec failed]''))) w"
    unfolding two_failed_def f
  proof (induction n)
    case (Suc n)
    then show ?case by (simp only: upt_Suc_append fold_append comp_apply fold_simps rep term_write_append le0) simp
  qed simp
qed

text \<open>\<^verbatim>\<open>echo\<close> prints its arguments with one space between two of them, and a newline.\<close>

fun spaced :: "cstr list \<Rightarrow> cstr" where
  "spaced [] = []"
| "spaced [a] = a"
| "spaced (a # b # as) = a @ [32] @ spaced (b # as)"

lemma spaced_snoc: "spaced (as @ [b]) = (if as = [] then b else spaced as @ [32] @ b)"
  by (induction as rule: spaced.induct) auto

lemma echo_prints:
  assumes "\<forall>a \<in> set argv. 0 \<notin> set a \<and> length a < 2 ^ 64"
  shows "echo_start wr argv w = on_term (spaced (drop 1 argv) @ [10]) w"
proof -
  have nl: "snd (sys_write wr w 1 (char_at [10]) 1) = on_term [10] w" for w :: "'a world"
    using write_text [of "[10]" wr w] by simp
  have sp: "snd (sys_write wr w 1 (char_at (str '' '')) 1) = on_term [32] w" for w :: "'a world"
    using write_text [of "str '' ''" wr w] by (simp add: str_def)
  have arg: "echo_arg wr argv i w = on_term (argv ! i @ (if i + 1 < length argv then [32] else [])) w"
    if "i < length argv" for i and w :: "'a world"
  proof -
    have "puts wr (argv ! i) w = on_term (argv ! i) w" by (rule puts_text) (use assms that nth_mem in blast)+
    then show ?thesis by (simp add: echo_arg_def sp term_write_append)
  qed
  have "fold (echo_arg wr argv) [1..<n] w
      = on_term (spaced (take (n - 1) (drop 1 argv)) @ (if 1 < n \<and> n < length argv then [32] else [])) w"
    if "n \<le> length argv" "1 \<le> n" for n
    using that(2,1)
  proof (induction n rule: dec_induct)
    case base
    then show ?case by simp
  next
    case (step n)
    have t: "take n (drop 1 argv) = take (n - 1) (drop 1 argv) @ [argv ! n]"
      using step take_Suc_conv_app_nth [of "n - 1" "drop 1 argv"] by simp
    have ne: "take (n - 1) (drop 1 argv) = [] \<longleftrightarrow> n = 1" using step by auto
    have f: "fold (echo_arg wr argv) [1..<Suc n] w = echo_arg wr argv n (fold (echo_arg wr argv) [1..<n] w)"
      using step by simp
    have lt: "n < length argv" "n \<le> length argv" using step by simp_all
    show ?case unfolding f step.IH [OF lt(2)] arg [OF lt(1)] diff_Suc_1 t spaced_snoc ne
      using lt(1) step(1) by (cases "n = 1") (simp_all add: term_write_append del: append.simps append_Cons append_Nil)
  qed
  from this [of "length argv"] have "fold (echo_arg wr argv) [1..<length argv] w = on_term (spaced (drop 1 argv)) w"
    by (cases "argv = []") (simp_all add: Suc_le_eq)
  then show ?thesis by (simp add: echo_start_def nl term_write_append)
qed

text \<open>\<^verbatim>\<open>clear\<close> blanks the terminal and takes the cursor home, if no escape sequence was under way.\<close>

lemma clear_clears:
  assumes "g_state (w_term w) = ST_NORMAL"
  shows "w_term (clear_start wr w) = (term_clear (w_term w))\<lparr>g_param := 0, g_have_param := False\<rparr>"
proof -
  let ?e = "[27] @ str ''[2J'' @ [27] @ str ''[H''"
  have "str_len ?e = length ?e" by code_simp
  moreover have "length ?e < 2 ^ 64" by (simp add: str_def)
  ultimately have w: "clear_start wr w = on_term ?e w" unfolding clear_start_def Let_def by (simp only: write_text)
  have e: "?e = [27, 91, 50, 74, 27, 91, 72]" by (simp add: str_def of_char_def)
  show ?thesis unfolding w e using assms
    by (simp add: term_write_def term_putchar_def term_csi_def term_clear_def)
qed

end
