(* ===== verification/Abi.thy ===== *)
theory Abi
  imports Trap Apps
begin

text \<open>
  The system call stubs of the user programs: what each puts into the registers before
  \<^verbatim>\<open>int $0x80\<close>, and which branch of the handler it reaches. A register a stub does not load keeps what the
  program left in it. The interrupt stub (kernel/isr.asm) stores the registers as the frame; its number
  is \<^verbatim>\<open>0x80\<close>.
\<close>

section \<open>The stubs\<close>

definition u_write :: "u64 \<Rightarrow> u64 \<Rightarrow> u64 \<Rightarrow> registers \<Rightarrow> registers" where
  "u_write fd buf len r = r\<lparr>reg_rax := 0, reg_rdi := fd, reg_rsi := buf, reg_rdx := len\<rparr>"
definition u_read :: "u64 \<Rightarrow> u64 \<Rightarrow> u64 \<Rightarrow> registers \<Rightarrow> registers" where
  "u_read fd buf len r = r\<lparr>reg_rax := 3, reg_rdi := fd, reg_rsi := buf, reg_rdx := len\<rparr>"
definition u_fork :: "registers \<Rightarrow> registers" where
  "u_fork r = r\<lparr>reg_rax := 5\<rparr>"
definition u_exec :: "u64 \<Rightarrow> u64 \<Rightarrow> registers \<Rightarrow> registers" where
  "u_exec argv argc r = r\<lparr>reg_rax := 4, reg_rdi := argv, reg_rsi := argc\<rparr>"
definition u_yield :: "registers \<Rightarrow> registers" where
  "u_yield r = r\<lparr>reg_rax := 1\<rparr>"
definition u_wait :: "registers \<Rightarrow> registers" where
  "u_wait r = r\<lparr>reg_rax := 6\<rparr>"
definition u_exit :: "registers \<Rightarrow> registers" where
  "u_exit r = r\<lparr>reg_rax := 2\<rparr>"
definition u_open :: "u64 \<Rightarrow> u64 \<Rightarrow> registers \<Rightarrow> registers" where
  "u_open path flags r = r\<lparr>reg_rax := 7, reg_rdi := path, reg_rsi := flags\<rparr>"
definition u_close :: "u64 \<Rightarrow> registers \<Rightarrow> registers" where
  "u_close fd r = r\<lparr>reg_rax := 8, reg_rdi := fd\<rparr>"
definition u_readdir :: "u64 \<Rightarrow> u64 \<Rightarrow> u64 \<Rightarrow> registers \<Rightarrow> registers" where
  "u_readdir fd index name r = r\<lparr>reg_rax := 9, reg_rdi := fd, reg_rsi := index, reg_rdx := name\<rparr>"
definition u_mkdir :: "u64 \<Rightarrow> registers \<Rightarrow> registers" where
  "u_mkdir path r = r\<lparr>reg_rax := 10, reg_rdi := path\<rparr>"
definition u_unlink :: "u64 \<Rightarrow> registers \<Rightarrow> registers" where
  "u_unlink path r = r\<lparr>reg_rax := 11, reg_rdi := path\<rparr>"
definition u_sync :: "registers \<Rightarrow> registers" where
  "u_sync r = r\<lparr>reg_rax := 12\<rparr>"

text \<open>The \<^verbatim>\<open>sys_exec\<close> of two.cpp takes a name instead of an argument vector.\<close>

definition two_exec :: "u64 \<Rightarrow> registers \<Rightarrow> registers" where
  "two_exec name r = r\<lparr>reg_rax := 4, reg_rdi := name\<rparr>"

lemmas stubs = u_write_def u_read_def u_fork_def u_exec_def u_yield_def u_wait_def u_exit_def u_open_def u_close_def
  u_readdir_def u_mkdir_def u_unlink_def u_sync_def two_exec_def

section \<open>The branches they reach\<close>

lemma stubs_reach:
  "syscall e (u_write fd buf len r) regs k = do_write e (u_write fd buf len r) regs k"
  "syscall e (u_read fd buf len r) regs k = do_read e (u_read fd buf len r) regs k"
  "syscall e (u_open path flags r) regs k = do_open e (u_open path flags r) regs k"
  "syscall e (u_readdir fd index name r) regs k = do_readdir (u_readdir fd index name r) regs k"
  "syscall e (u_mkdir path r) regs k = do_path e (\<lambda>c. c = slash) (\<lambda>p w. sys_mkdir (e_write e) w p) (u_mkdir path r) regs k"
  "syscall e (u_unlink path r) regs k = do_path e (\<lambda>c. c = slash) (\<lambda>p w. sys_unlink (e_write e) w p) (u_unlink path r) regs k"
  "syscall e (u_exec argv argc r) regs k = do_exec e (u_exec argv argc r) regs k"
  "syscall e (u_fork r) regs k = do_fork (u_fork r) regs k"
  "syscall e (u_wait r) regs k = resume_sched k (wait_current regs (k_sched k))"
  "syscall e (u_yield r) regs k = resume_sched k (schedule regs (k_sched k))"
  "syscall e (u_exit r) regs k = resume_sched k (schedule regs (sched_kill_current (k_sched k)))"
  by (simp_all add: syscall_def sys_numbers stubs Let_def)

text \<open>
  The stub of two.cpp makes the kernel read the characters of the name as a pointer to the first
  argument, with whatever \<^verbatim>\<open>rsi\<close> holds as the count. When that pointer leads nowhere, the call does not
  fail: the kernel takes a page fault, which halts the machine.
\<close>

lemma two_exec_faults:
  assumes "int_arg (reg_rsi r) > 0" and "load64 (s_vm (k_sched k)) name = Some p" and "load8 (s_vm (k_sched k)) p = None"
  shows "syscall e (two_exec name r) regs k = None"
proof -
  let ?n = "clamp_argc (int_arg (reg_rsi r))"
  have "0 < ?n" using assms(1) by (simp add: clamp_argc_def MAX_ARGS_def Let_def)
  then have "[0..<?n] = 0 # [1..<?n]" by (simp add: upt_conv_Cons)
  moreover have "copy_arg (s_vm (k_sched k)) p 0 = None" using assms(3) by (subst copy_arg.simps) simp
  ultimately have "exec_current (e_images e) name (int_arg (reg_rsi r)) (k_argbuf k) (k_sched k) = None"
    using assms(2) by (simp add: exec_current_def Let_def)
  then show ?thesis by (simp add: syscall_def sys_numbers two_exec_def do_exec_def Let_def)
qed

end
