(* ===== verification/Spec2Isabelle.thy ===== *)
theory Spec2Isabelle
  imports Pmm Heap Kbd Term Munin_Props Pci Vblk Vmm_Props Vfs Syscall Huginn Trap Desc Boot_Map Boot Apps Abi
begin

text \<open>
  HrafnOS is a small x86-64 kernel in C++ with a file system, a window system, a shell and a few user
  programs. This library models the code of kernel/ and of the user programs and proves what makes
  its parts correct.

  \<^bold>\<open>The program.\<close> \<^verbatim>\<open>kmain\<close> (kernel/kernel.cpp) sets up the descriptor tables, the interrupt controllers, the
  frame allocator, the page tables, the heap, the framebuffer, the disk and the file system, starts the
  shell as the first task, and then composes frames of the desktop for ever. Everything else happens in
  \<^verbatim>\<open>isr_handler\<close> (kernel/idt.cpp): the timer switches tasks, the keyboard and the mouse fill their drivers'
  state, and \<^verbatim>\<open>int 0x80\<close> carries the system calls, which reach files through the descriptors of the running
  task, the terminal window and the scheduler. The shell and the programs see system calls only.

  \<^bold>\<open>Theories.\<close> The prelude \<^verbatim>\<open>Hrafn_Prelude\<close> names the C++ integer types, C strings, little-endian loads and
  stores and copy loops; \<^verbatim>\<open>Bitmap\<close> has the byte bitmaps of allocator and file system, and \<^verbatim>\<open>Paths\<close> the components
  of a path, which the file system and the shell share.

  \<^item> Memory. \<^verbatim>\<open>Pmm\<close> models kernel/pmm.cpp: the record \<open>pmm\<close> is \<^verbatim>\<open>bitmap\<close>, \<^verbatim>\<open>total_frames\<close>, \<^verbatim>\<open>used_frames\<close>.
    \<^verbatim>\<open>Vmm\<close> models kernel/vmm.cpp over a byte memory (the record \<open>vmm\<close> adds \<^verbatim>\<open>kernel_pml4\<close> and CR3); \<^verbatim>\<open>Vmm_Map\<close> shows
    what one mapping does to the tree of tables and to the translation of the processor, \<^verbatim>\<open>Vmm_Space\<close> and
    \<^verbatim>\<open>Vmm_Clone\<close> what creating, destroying and cloning a space do, \<^verbatim>\<open>Vmm_Props\<close> states it. \<^verbatim>\<open>Heap\<close> models the block
    chain of kernel/heap.cpp and refines it to a list of blocks that tile the arena. \<^verbatim>\<open>Boot_Map\<close> has the two
    mapping loops of booting, \<^verbatim>\<open>heap_init\<close> and \<^verbatim>\<open>fb_init\<close>, and the kernel's space after them.
  \<^item> Tasks. \<^verbatim>\<open>Sched\<close> models kernel/sched.cpp: task structs in a store, linked into a ring, the words of the kernel
    stacks in another, the heap and the page tables beside them. \<^verbatim>\<open>Sched_Props\<close> has scheduling, reclaiming,
    \<^verbatim>\<open>fork\<close>, \<^verbatim>\<open>wait\<close> and liveness. \<^verbatim>\<open>Elf\<close> models kernel/elf.cpp, \<^verbatim>\<open>Exec\<close> the ramdisk, \<^verbatim>\<open>exec_current\<close> and \<^verbatim>\<open>spawn\<close>.
  \<^item> Files. \<^verbatim>\<open>Munin\<close> (inodes, blocks, bitmap), \<^verbatim>\<open>Munin_Dir\<close>, \<^verbatim>\<open>Munin_File\<close>, \<^verbatim>\<open>Munin_Path\<close> and \<^verbatim>\<open>Munin_Disk\<close> model
    kernel/munin.cpp; \<^verbatim>\<open>Munin_Fs\<close> gives the abstract file system \<open>abs_fs\<close>, a map from inode numbers to files
    (their bytes) and directories (their entries), which every operation refines, and the invariant
    \<open>fs_inv\<close>; \<^verbatim>\<open>Munin_Props\<close> has listings and the properties. \<^verbatim>\<open>Pci\<close> models kernel/pci.cpp and the initialisation
    of kernel/vblk.cpp, \<^verbatim>\<open>Vblk\<close> its requests over the bytes of the queue, \<^verbatim>\<open>Vfs\<close> the descriptors of kernel/vfs.cpp.
  \<^item> Devices and screen. \<^verbatim>\<open>Kbd\<close>, \<^verbatim>\<open>Mouse\<close>, \<^verbatim>\<open>Serial\<close>, \<^verbatim>\<open>Pic\<close> (with kernel/io.hpp) and \<^verbatim>\<open>Desc\<close> (kernel/gdt.cpp and the
    gates of kernel/idt.cpp) model the drivers and tables; \<^verbatim>\<open>Font\<close>, \<^verbatim>\<open>Gfx\<close>, \<^verbatim>\<open>Screen\<close> (kernel/fb.cpp and the back
    buffer), \<^verbatim>\<open>Console\<close>, \<^verbatim>\<open>Term\<close> and \<^verbatim>\<open>Window\<close> what is drawn.
  \<^item> Interfaces to programs. \<^verbatim>\<open>Syscall\<close> has the file and terminal calls for one task, \<^verbatim>\<open>Trap\<close> the whole of
    \<^verbatim>\<open>isr_handler\<close> over the state of the kernel, \<^verbatim>\<open>Abi\<close> the stubs of the programs and the branch each
    reaches. \<^verbatim>\<open>Huginn_Line\<close> and \<^verbatim>\<open>Huginn\<close> model the shell (huginn.cpp), \<^verbatim>\<open>Apps\<close> the other programs, \<^verbatim>\<open>Boot\<close> the
    sequence of \<^verbatim>\<open>kmain\<close>.

  \<^bold>\<open>Contracts.\<close> Four locales state what clients rely on. \<open>slot_pool\<close> (an allocator of numbered slots) is
  interpreted by the frames, the file system's blocks and inodes and the descriptors; \<open>memory_pool\<close> (disjoint
  regions) by the heap; \<open>bounded_queue\<close> by the keyboard's ring buffer; \<open>block_device\<close> (sectors that read back
  what was written) by the virtio driver with a device that serves well-formed requests in a queue whose size
  is a power of two from 4 to 256 (\<open>virtio_dev\<close>, \<open>queue_ready\<close>), and the persistence of the file system is proved
  from that contract alone.

  \<^bold>\<open>What is shown.\<close> Invariants: of the file system over all its operations, of the scheduler's ring,
  of descriptor tables, of the terminal's grid. Refinements: file operations to the abstract file system,
  page tables to the translation of the processor, the ring buffer to a queue, the console's pixels
  to a grid of characters, the mouse to a stack of windows. Round trips: flush and mount, write and read,
  \<^verbatim>\<open>kmalloc\<close> and \<^verbatim>\<open>kfree\<close>, building and destroying a space, two boots with one disk. Separation: what a
  process or the heap stores changes no page table, a clone shares no frame. Progress: every runnable
  task is scheduled, line drawing and \<^verbatim>\<open>cat\<close> return. Errors: calls that fail change nothing. Lemmas beside
  the properties record behaviour that is probably not intended; the manifest lists it as findings.

  \<^bold>\<open>Conventions.\<close> Integers that may wrap are words of their width; counters that the code keeps in range are
  natural numbers or integers, and the lemmas that need the range prove it or assume it. A C string is
  its list of bytes; reading past the list gives the NUL. Arrays that are written by index are functions, so that
  a store outside the array would show. A loop that may not end is a \<^verbatim>\<open>partial_function (option)\<close>, and \<open>None\<close> is
  not returning; no fuel is used anywhere, and the properties show \<open>Some\<close>. In \<^verbatim>\<open>Exec\<close>, \<^verbatim>\<open>Trap\<close> and \<^verbatim>\<open>Boot\<close> \<open>None\<close> is also
  a page fault or a division by zero inside the kernel, on which the machine halts. In \<^verbatim>\<open>Vblk\<close> a \<open>drive\<close> is \<open>None\<close>
  from the first request that divides by a queue size of 0 or polls for ever, and the properties that go to
  the disk show that it never is. In \<^verbatim>\<open>Gfx\<close> \<open>None\<close> is also an \<^verbatim>\<open>int\<close> overflow in \<^verbatim>\<open>gfx_line\<close>, and in \<^verbatim>\<open>Huginn\<close> a path
  that would overrun the 128 bytes of its array (\<open>path_fits\<close> says which do not). Devices are arguments:
  a disk is a function of the driver's shared memory, a port is what it answers to the operations so far.
  Addresses that the linker fixes are arguments.

  \<^bold>\<open>Simplifications.\<close> The data of different components lie in different stores, as they do in the machine: the page
  tables and user memory in physical memory, heap headers, tasks and stack words in maps of their own,
  the framebuffer in a byte memory of its own; that the arena's frames hold no page table is proved in \<^verbatim>\<open>Boot_Map\<close>.
  One interrupt is handled at a time, as the kernel runs with interrupts disabled in its handlers;
  the drawing loop of \<^verbatim>\<open>kmain\<close> reads the mouse and the terminal between two interrupts. Waiting loops for
  a port and delay loops only pass time and are left out. The messages of \<^verbatim>\<open>elf_load\<close> are left out.

  \<^bold>\<open>Not modelled.\<close> boot/boot.asm and kernel/isr.asm (assembly; the saved frame they build is the record
  \<open>registers\<close>), inline assembly that loads processor registers, kernel/spinlock.hpp (used nowhere), the build files
  and the linker scripts.
\<close>

end
